(* ===== verification/Ev_Prelude.thy ===== *)
theory Ev_Prelude
  imports Main "HOL-Library.Word"
begin

text \<open>
  Shared vocabulary of the development: bytes, the outcomes of C code that can go wrong
  (a failed \<open>EVUTIL_ASSERT\<close>, a null dereference, an access outside an object, a loop that
  does not end, a shift by the width of the type or more), total-correctness reasoning about such outcomes, \<open>size_t\<close> arithmetic of the
  Win32 build, and memory blocks as byte lists with \<open>memcpy\<close> and \<open>memchr\<close>.
\<close>

named_theorems exec_simps \<open>evaluation of sequenced C statements\<close>
named_theorems mem_simps \<open>reading and writing blocks of memory\<close>

section \<open>Outcomes\<close>

type_synonym byte = "8 word"

datatype crash = Assert_Failed | Null_Deref | Out_Of_Bounds | Undefined_Shift | Overflow | Diverges

type_synonym 'a exec = "crash + 'a"

text \<open>Sequencing: a crash ends the computation, a value is passed on.\<close>

fun bindE :: "'a exec \<Rightarrow> ('a \<Rightarrow> 'b exec) \<Rightarrow> 'b exec" where
  "bindE (Inl e) f = Inl e"
| "bindE (Inr x) f = f x"

text \<open>\<open>runs m P\<close>: the computation \<open>m\<close> does not crash and its result satisfies \<open>P\<close>.\<close>

definition runs :: "'a exec \<Rightarrow> ('a \<Rightarrow> bool) \<Rightarrow> bool" where
  "runs m P \<longleftrightarrow> (case m of Inl _ \<Rightarrow> False | Inr x \<Rightarrow> P x)"

lemma runs_Inr [simp]: "runs (Inr x) P = P x"
  by (simp add: runs_def)

lemma runs_Inl [simp]: "\<not> runs (Inl e) P"
  by (simp add: runs_def)

lemma runs_bindE: "runs (bindE m f) P = runs m (\<lambda>x. runs (f x) P)"
  by (cases m) simp_all

lemma runs_bindI: "runs m Q \<Longrightarrow> (\<And>x. Q x \<Longrightarrow> runs (f x) P) \<Longrightarrow> runs (bindE m f) P"
  by (cases m) simp_all

lemma runs_mono: "runs m Q \<Longrightarrow> (\<And>x. Q x \<Longrightarrow> P x) \<Longrightarrow> runs m P"
  by (cases m) simp_all

lemma runs_conjI: "runs m P \<Longrightarrow> runs m Q \<Longrightarrow> runs m (\<lambda>x. P x \<and> Q x)"
  by (cases m) simp_all

lemma runs_iff: "runs m P \<longleftrightarrow> (\<exists>x. m = Inr x \<and> P x)"
  by (cases m) simp_all

lemma runsE: "runs m P \<Longrightarrow> (\<And>x. m = Inr x \<Longrightarrow> P x \<Longrightarrow> R) \<Longrightarrow> R"
  by (cases m) simp_all

lemma bindE_Inr_iff: "bindE m f = Inr y \<longleftrightarrow> (\<exists>x. m = Inr x \<and> f x = Inr y)"
  by (cases m) simp_all

lemma bindE_assoc [exec_simps]: "bindE (bindE m f) g = bindE m (\<lambda>x. bindE (f x) g)"
  by (cases m) simp_all

text \<open>A loop over a list that changes a state.\<close>

fun foldE :: "('a \<Rightarrow> 's \<Rightarrow> 's exec) \<Rightarrow> 'a list \<Rightarrow> 's \<Rightarrow> 's exec" where
  "foldE f [] s = Inr s"
| "foldE f (x # xs) s = bindE (f x s) (foldE f xs)"

lemma runs_foldE:
  assumes "P s" "\<And>x s. x \<in> set xs \<Longrightarrow> P s \<Longrightarrow> runs (f x s) P"
  shows "runs (foldE f xs s) P"
  using assms by (induction xs arbitrary: s) (auto intro: runs_bindI)

section \<open>Loops\<close>

text \<open>
  A loop whose body gives the next state (\<open>Inl\<close>), or leaves the loop with a result (\<open>Inr\<close>). A loop that
  never ends gives \<open>Diverges\<close>.
\<close>

partial_function (option) loopE :: "('s \<Rightarrow> ('s + 'r) exec) \<Rightarrow> 's \<Rightarrow> 'r exec option" where
  "loopE body s =
     (case body s of
        Inl c \<Rightarrow> Some (Inl c)
      | Inr (Inl s) \<Rightarrow> loopE body s
      | Inr (Inr r) \<Rightarrow> Some (Inr r))"

definition loops :: "('s \<Rightarrow> ('s + 'r) exec) \<Rightarrow> 's \<Rightarrow> 'r exec" where
  "loops body s = (case loopE body s of None \<Rightarrow> Inl Diverges | Some r \<Rightarrow> r)"

lemma loops_unfold:
  "loops body s = bindE (body s) (\<lambda>r. case r of Inl s \<Rightarrow> loops body s | Inr r \<Rightarrow> Inr r)"
  unfolding loops_def by (subst loopE.simps) (auto split: sum.splits)

text \<open>Total correctness needs a measure. \<open>safe m P\<close>: if \<open>m\<close> ends and no signed addition or subtraction
  overflows, it does not crash and \<open>P\<close> holds.\<close>

lemma runs_loops:
  assumes body: "\<And>s. I s \<Longrightarrow> runs (body s) (\<lambda>r. case r of Inl s' \<Rightarrow> I s' \<and> (m s' :: nat) < m s | Inr r \<Rightarrow> P r)"
    and "I s"
  shows "runs (loops body s) P"
  using assms(2)
proof (induction s rule: measure_induct_rule [where f = m])
  case (less s)
  show ?case
    unfolding loops_unfold [of body s]
    by (rule runs_bindI [OF body [OF less.prems]]) (auto split: sum.splits intro: less.IH)
qed

definition safe :: "'a exec \<Rightarrow> ('a \<Rightarrow> bool) \<Rightarrow> bool" where
  "safe m P \<longleftrightarrow> m = Inl Diverges \<or> m = Inl Overflow \<or> runs m P"

lemma safe_Inr [simp]: "safe (Inr x) P = P x"
  by (simp add: safe_def)

lemma runs_safe: "runs m P \<Longrightarrow> safe m P"
  by (simp add: safe_def)

lemma safe_mono: "safe m Q \<Longrightarrow> (\<And>x. Q x \<Longrightarrow> P x) \<Longrightarrow> safe m P"
  by (cases m) (auto simp: safe_def)

lemma safe_bindI: "safe m Q \<Longrightarrow> (\<And>x. Q x \<Longrightarrow> safe (f x) P) \<Longrightarrow> safe (bindE m f) P"
  by (cases m) (auto simp: safe_def)

lemma safe_Inr_D: "safe m P \<Longrightarrow> m = Inr x \<Longrightarrow> P x"
  by (simp add: safe_def)

lemma safe_loops:
  assumes body: "\<And>s. I s \<Longrightarrow> safe (body s) (\<lambda>r. case r of Inl s' \<Rightarrow> I s' | Inr r \<Rightarrow> P r)" and "I s"
  shows "safe (loops body s) P"
proof -
  define Q where "Q = (\<lambda>b s r. b = body \<longrightarrow> I s \<longrightarrow> safe r P)"
  have step: "Q b s r"
    if IH: "\<And>b s r. loop b s = Some r \<Longrightarrow> Q b s r" and run: "(case b s of Inl c \<Rightarrow> Some (Inl c)
      | Inr (Inl s) \<Rightarrow> loop b s | Inr (Inr r) \<Rightarrow> Some (Inr r)) = Some r" for loop b s r
    unfolding Q_def
  proof (intro impI)
    assume eq: "b = body" and "I s"
    then have b: "safe (body s) (\<lambda>r. case r of Inl s' \<Rightarrow> I s' | Inr r \<Rightarrow> P r)" by (simp add: body)
    show "safe r P"
    proof (cases "body s")
      case (Inl c)
      with run b eq show ?thesis by (auto simp: safe_def)
    next
      case (Inr x)
      with run b eq IH show ?thesis by (cases x) (auto simp: Q_def)
    qed
  qed
  have "I s \<longrightarrow> safe r P" if "loopE body s = Some r" for r
  proof -
    have "Q body s r" by (rule loopE.raw_induct [OF _ that]) (rule step)
    then show ?thesis by (simp add: Q_def)
  qed
  with assms(2) show ?thesis by (auto simp: loops_def safe_def split: option.splits)
qed

section \<open>Sizes\<close>

text \<open>
  The build files target Win32, where \<open>size_t\<close> has 32 bits
  (\<open>_EVENT_SIZEOF_SIZE_T\<close> in \<open>WIN32-Code/event2/event-config.h\<close>). A \<open>size_t\<close> is a natural
  number below \<open>SIZE_MOD\<close>; sums that the code does not bound wrap around.
\<close>

definition SIZE_MOD :: nat where
  "SIZE_MOD = 2 ^ 32"

definition SSIZE_MAX :: nat where
  "SSIZE_MAX = 2 ^ 31 - 1"

definition addz :: "nat \<Rightarrow> nat \<Rightarrow> nat" where
  "addz a b = (a + b) mod SIZE_MOD"

definition subz :: "nat \<Rightarrow> nat \<Rightarrow> nat" where
  "subz a b = (a + (SIZE_MOD - b mod SIZE_MOD)) mod SIZE_MOD"

text \<open>A \<open>size_t\<close> stored in an \<open>ev_ssize_t\<close> or an \<open>int\<close>.\<close>

definition to_ssize :: "nat \<Rightarrow> int" where
  "to_ssize n = (if n \<le> SSIZE_MAX then int n else int n - int SIZE_MOD)"

lemma to_ssize_exact [simp]: "n \<le> SSIZE_MAX \<Longrightarrow> to_ssize n = int n"
  by (simp add: to_ssize_def)

text \<open>An \<open>int\<close> or an \<open>ev_ssize_t\<close> passed as a \<open>size_t\<close>.\<close>

definition to_size :: "int \<Rightarrow> nat" where
  "to_size n = nat (n mod int SIZE_MOD)"

lemma to_size_int: "n < SIZE_MOD \<Longrightarrow> to_size (int n) = n"
  by (simp add: to_size_def flip: of_nat_mod zmod_int)

lemma addz_exact: "a + b < SIZE_MOD \<Longrightarrow> addz a b = a + b"
  by (simp add: addz_def)

lemma addz_0_right: "a < SIZE_MOD \<Longrightarrow> addz a 0 = a"
  by (simp add: addz_def)

lemma addz_addz: "addz (addz a b) c = addz a (b + c)"
  by (simp add: addz_def mod_add_left_eq add.assoc)

lemma subz_exact: "b \<le> a \<Longrightarrow> a < SIZE_MOD \<Longrightarrow> subz a b = a - b"
proof -
  assume ba: "b \<le> a" and a: "a < SIZE_MOD"
  then have "subz a b = (a - b + SIZE_MOD) mod SIZE_MOD" by (simp add: subz_def)
  with a show ?thesis by simp
qed

section \<open>Memory blocks\<close>

text \<open>
  \<open>memcpy\<close> of \<open>bs\<close> into the block \<open>m\<close> at offset \<open>pos\<close>. A copy past the end of the block makes
  the list longer than the block, so a lemma that an operation keeps a block's length says that
  the operation's copies stay inside it.
\<close>

definition mem_write :: "nat \<Rightarrow> byte list \<Rightarrow> byte list \<Rightarrow> byte list" where
  "mem_write pos bs m = take pos m @ bs @ drop (pos + length bs) m"

definition mem_read :: "nat \<Rightarrow> nat \<Rightarrow> byte list \<Rightarrow> byte list" where
  "mem_read pos n m = take n (drop pos m)"

lemma length_mem_write [mem_simps]:
  "pos + length bs \<le> length m \<Longrightarrow> length (mem_write pos bs m) = length m"
  by (simp add: mem_write_def)

lemma length_mem_write_iff:
  "pos \<le> length m \<Longrightarrow> length (mem_write pos bs m) = length m \<longleftrightarrow> pos + length bs \<le> length m"
  by (auto simp: mem_write_def)

lemma length_mem_read [mem_simps]: "pos + n \<le> length m \<Longrightarrow> length (mem_read pos n m) = n"
  by (simp add: mem_read_def)

lemma mem_read_0 [simp]: "mem_read pos 0 m = []"
  by (simp add: mem_read_def)

lemma mem_write_Nil [simp]: "mem_write pos [] m = m"
  by (simp add: mem_write_def)

text \<open>Appending behind what a block already holds.\<close>

lemma mem_read_append [mem_simps]:
  assumes "pos + n \<le> length m"
  shows "mem_read pos (n + length bs) (mem_write (pos + n) bs m) = mem_read pos n m @ bs"
  using assms by (auto simp: mem_read_def mem_write_def drop_take min_def)

text \<open>Prepending in front of it.\<close>

lemma mem_read_prepend [mem_simps]:
  assumes "length bs \<le> pos" and "pos + n \<le> length m"
  shows "mem_read (pos - length bs) (n + length bs) (mem_write (pos - length bs) bs m)
       = bs @ mem_read pos n m"
  using assms by (simp add: mem_read_def mem_write_def)

lemma mem_read_start [mem_simps]:
  "n \<le> length bs \<Longrightarrow> mem_read 0 n (mem_write 0 bs m) = take n bs"
  by (simp add: mem_read_def mem_write_def)

text \<open>Dropping from the front of what a block holds.\<close>

lemma mem_read_drop: "k \<le> n \<Longrightarrow> mem_read (pos + k) (n - k) m = drop k (mem_read pos n m)"
  by (simp add: mem_read_def drop_take add.commute)

lemma mem_read_take: "k \<le> n \<Longrightarrow> mem_read pos k m = take k (mem_read pos n m)"
  by (simp add: mem_read_def min_def)

section \<open>Words\<close>

lemma unat_shift_right: "unat (drop_bit n w) = unat w div 2 ^ n"
  unfolding unat_drop_bit_eq by (rule drop_bit_eq_div)

lemma unat_shift_right_less: "w \<noteq> 0 \<Longrightarrow> 0 < n \<Longrightarrow> unat (drop_bit n w) < unat w"
  unfolding unat_shift_right
  by (intro div_less_dividend) (simp_all add: unat_gt_0 one_less_power flip: One_nat_def)

section \<open>Searching memory\<close>

text \<open>\<open>memchr\<close>: the offset of the first occurrence, if there is one.\<close>

fun memchr :: "byte list \<Rightarrow> byte \<Rightarrow> nat option" where
  "memchr [] c = None"
| "memchr (x # xs) c = (if x = c then Some 0 else map_option Suc (memchr xs c))"

lemma memchr_None: "memchr xs c = None \<longleftrightarrow> c \<notin> set xs"
  by (induction xs) auto

lemma memchr_SomeD:
  "memchr xs c = Some i \<Longrightarrow> i < length xs \<and> xs ! i = c \<and> c \<notin> set (take i xs)"
  by (induction xs arbitrary: i) (auto split: if_splits)

lemma memchr_Some_iff:
  "memchr xs c = Some i \<longleftrightarrow> i < length xs \<and> xs ! i = c \<and> c \<notin> set (take i xs)"
proof
  assume "i < length xs \<and> xs ! i = c \<and> c \<notin> set (take i xs)"
  then show "memchr xs c = Some i"
  proof (induction xs arbitrary: i)
    case Nil
    then show ?case by simp
  next
    case (Cons x xs)
    then show ?case by (cases i) auto
  qed
qed (rule memchr_SomeD)

text \<open>The first place where a predicate holds.\<close>

fun find_first :: "('a \<Rightarrow> bool) \<Rightarrow> 'a list \<Rightarrow> nat option" where
  "find_first P [] = None"
| "find_first P (x # xs) = (if P x then Some 0 else map_option Suc (find_first P xs))"

lemma find_first_None: "find_first P xs = None \<longleftrightarrow> (\<forall>x\<in>set xs. \<not> P x)"
  by (induction xs) auto

lemma find_first_Some:
  "find_first P xs = Some i \<longleftrightarrow> i < length xs \<and> P (xs ! i) \<and> (\<forall>x\<in>set (take i xs). \<not> P x)"
proof (induction xs arbitrary: i)
  case (Cons x xs)
  then show ?case by (cases i) auto
qed simp

lemma find_first_append:
  "find_first P (xs @ ys) =
     (case find_first P xs of Some i \<Rightarrow> Some i | None \<Rightarrow> map_option (\<lambda>n. length xs + n) (find_first P ys))"
  by (cases "find_first P ys"; induction xs) (auto split: option.splits)

lemma memchr_find_first: "memchr xs c = find_first (\<lambda>x. x = c) xs"
  by (induction xs) auto

text \<open>The first place where a string occurs.\<close>

fun first_match :: "'a list \<Rightarrow> 'a list \<Rightarrow> nat option" where
  "first_match what [] = None"
| "first_match what (x # xs) =
     (if take (length what) (x # xs) = what then Some 0 else map_option Suc (first_match what xs))"

lemma first_match_Some:
  "what \<noteq> [] \<Longrightarrow> first_match what xs = Some n \<longleftrightarrow>
     take (length what) (drop n xs) = what \<and> (\<forall>m<n. take (length what) (drop m xs) \<noteq> what)"
proof (induction xs arbitrary: n)
  case (Cons x xs)
  then show ?case by (cases n) (auto simp: less_Suc_eq_0_disj)
qed simp

lemma first_match_None:
  "what \<noteq> [] \<Longrightarrow> first_match what xs = None \<longleftrightarrow> (\<forall>n. take (length what) (drop n xs) \<noteq> what)"
proof
  assume w: "what \<noteq> []" and none: "first_match what xs = None"
  show "\<forall>n. take (length what) (drop n xs) \<noteq> what"
  proof
    fix n
    show "take (length what) (drop n xs) \<noteq> what"
    proof (induction n rule: less_induct)
      case (less n)
      then show ?case using first_match_Some [OF w, of xs n] none by auto
    qed
  qed
next
  assume "what \<noteq> []" and "\<forall>n. take (length what) (drop n xs) \<noteq> what"
  then show "first_match what xs = None"
    using first_match_Some [of what xs] by (cases "first_match what xs") blast+
qed

lemma first_match_skip:
  "what \<noteq> [] \<Longrightarrow> hd what \<notin> set (take j xs) \<Longrightarrow> j \<le> length xs
   \<Longrightarrow> first_match what xs = map_option (\<lambda>n. j + n) (first_match what (drop j xs))"
proof (induction j arbitrary: xs)
  case 0
  then show ?case by (cases "first_match what xs") simp_all
next
  case (Suc j)
  then obtain x ys where xs: "xs = x # ys" by (cases xs) auto
  with Suc.prems have "take (length what) (x # ys) \<noteq> what" by (cases what) auto
  with Suc.IH [of ys] Suc.prems xs show ?case by (simp add: option.map_comp comp_def)
qed

text \<open>\<open>memcmp\<close> of blocks of equal length. Of its result only the sign is fixed.\<close>


fun memcmp :: "byte list \<Rightarrow> byte list \<Rightarrow> int" where
  "memcmp (x # xs) (y # ys) = (if x < y then -1 else if y < x then 1 else memcmp xs ys)"
| "memcmp _ _ = 0"

lemma memcmp_eq: "length xs = length ys \<Longrightarrow> memcmp xs ys = 0 \<longleftrightarrow> xs = ys"
  by (induction xs ys rule: memcmp.induct) (auto split: if_splits)

end
