(* ===== verification/Evbuffer_Chain.thy ===== *)
theory Evbuffer_Chain
  imports Ev_Prelude
begin

text \<open>
  The chains of \<open>buffer.c\<close>: \<open>struct evbuffer_chain\<close>, its allocation (with the wrap-around of
  \<open>size_t\<close> and the doubling loop), its release, pinning and realignment. The memory of a chain is
  a byte list; the list's length is compared with \<open>buffer_len\<close> in the invariant \<open>chain_ok\<close>, which
  every operation has to keep, so no copy leaves the block. \<open>mm_malloc\<close> is a parameter: it maps a
  size to an address and the (arbitrary) bytes found there, or to \<open>None\<close>.
\<close>

section \<open>The structure\<close>

datatype chain_flag =
    EVBUFFER_MMAP
  | EVBUFFER_SENDFILE
  | EVBUFFER_REFERENCE
  | EVBUFFER_IMMUTABLE
  | EVBUFFER_MEM_PINNED_R
  | EVBUFFER_MEM_PINNED_W
  | EVBUFFER_DANGLING

text \<open>
  \<open>ch_addr\<close> is the address of \<open>chain->buffer\<close>, \<open>ch_buffer\<close> the memory there, and \<open>ch_cleanup\<close> the
  \<open>struct evbuffer_chain_reference\<close> behind the chain: \<open>Some k\<close> stands for a non-null cleanup
  function together with its extra argument.
\<close>

record chain =
  ch_addr :: nat
  ch_buffer :: "byte list"
  ch_buffer_len :: nat
  ch_misalign :: nat
  ch_off :: nat
  ch_flags :: "chain_flag set"
  ch_cleanup :: "nat option"

type_synonym allocator = "nat \<Rightarrow> (nat \<times> byte list) option"

definition CHAIN_SPACE_LEN :: "chain \<Rightarrow> nat" where
  "CHAIN_SPACE_LEN ch =
     (if EVBUFFER_IMMUTABLE \<in> ch_flags ch then 0
      else ch_buffer_len ch - (ch_misalign ch + ch_off ch))"

text \<open>A pointer into a chain's memory: its base and the offset from it.\<close>

definition CHAIN_SPACE_PTR :: "chain \<Rightarrow> nat \<times> nat" where
  "CHAIN_SPACE_PTR ch = (ch_addr ch, ch_misalign ch + ch_off ch)"

definition CHAIN_PINNED :: "chain \<Rightarrow> bool" where
  "CHAIN_PINNED ch \<longleftrightarrow>
     EVBUFFER_MEM_PINNED_R \<in> ch_flags ch \<or> EVBUFFER_MEM_PINNED_W \<in> ch_flags ch"

definition CHAIN_PINNED_R :: "chain \<Rightarrow> bool" where
  "CHAIN_PINNED_R ch \<longleftrightarrow> EVBUFFER_MEM_PINNED_R \<in> ch_flags ch"

section \<open>Allocation\<close>

text \<open>Constants of the Win32 build: \<open>sizeof(struct evbuffer_chain)\<close> is 32.\<close>

definition EVBUFFER_CHAIN_SIZE :: nat where
  "EVBUFFER_CHAIN_SIZE = 32"

definition MIN_BUFFER_SIZE :: nat where
  "MIN_BUFFER_SIZE = 512"

definition EVBUFFER_CHAIN_MAX_AUTO_SIZE :: nat where
  "EVBUFFER_CHAIN_MAX_AUTO_SIZE = 4096"

definition MAX_TO_COPY_IN_EXPAND :: nat where
  "MAX_TO_COPY_IN_EXPAND = 4096"

definition MAX_TO_REALIGN_IN_EXPAND :: nat where
  "MAX_TO_REALIGN_IN_EXPAND = 2048"

text \<open>
  \<open>while (to_alloc < size) to_alloc <<= 1;\<close> on \<open>size_t\<close>: \<open>None\<close> if the loop does not end.
\<close>

partial_function (option) chain_alloc_size :: "nat \<Rightarrow> nat \<Rightarrow> nat option" where
  "chain_alloc_size sz to_alloc =
     (if to_alloc < sz then chain_alloc_size sz ((2 * to_alloc) mod SIZE_MOD)
      else Some to_alloc)"

definition evbuffer_chain_new :: "allocator \<Rightarrow> nat \<Rightarrow> chain option exec" where
  "evbuffer_chain_new mm_malloc sz =
     (case chain_alloc_size (addz sz EVBUFFER_CHAIN_SIZE) MIN_BUFFER_SIZE of
        None \<Rightarrow> Inl Diverges
      | Some to_alloc \<Rightarrow>
          (case mm_malloc to_alloc of
             None \<Rightarrow> Inr None
           | Some (addr, mem) \<Rightarrow>
               Inr (Some \<lparr>ch_addr = addr + EVBUFFER_CHAIN_SIZE,
                          ch_buffer = drop EVBUFFER_CHAIN_SIZE mem,
                          ch_buffer_len = to_alloc - EVBUFFER_CHAIN_SIZE,
                          ch_misalign = 0, ch_off = 0, ch_flags = {}, ch_cleanup = None\<rparr>)))"

section \<open>Release and pinning\<close>

text \<open>What releasing a chain does outside the buffer.\<close>

datatype free_effect =
    Mm_Free nat                        \<comment> \<open>\<open>mm_free\<close> of the chain with this buffer address\<close>
  | Cleanup_Call nat nat nat           \<comment> \<open>cleanup function, \<open>chain->buffer\<close>, \<open>chain->buffer_len\<close>\<close>
  | Left_Dangling chain                \<comment> \<open>a pinned chain, to be released when unpinned\<close>

definition evbuffer_chain_free :: "chain \<Rightarrow> free_effect list" where
  "evbuffer_chain_free ch =
     (if CHAIN_PINNED ch
      then [Left_Dangling (ch\<lparr>ch_flags := insert EVBUFFER_DANGLING (ch_flags ch)\<rparr>)]
      else (if EVBUFFER_REFERENCE \<in> ch_flags ch
            then (case ch_cleanup ch of
                    None \<Rightarrow> []
                  | Some k \<Rightarrow> [Cleanup_Call k (ch_addr ch) (ch_buffer_len ch)])
            else [])
           @ [Mm_Free (ch_addr ch)])"

definition evbuffer_free_all_chains :: "chain list \<Rightarrow> free_effect list" where
  "evbuffer_free_all_chains chs = concat (map evbuffer_chain_free chs)"

fun evbuffer_chains_all_empty :: "chain list \<Rightarrow> bool" where
  "evbuffer_chains_all_empty [] = True"
| "evbuffer_chains_all_empty (ch # chs) =
     (if ch_off ch \<noteq> 0 then False else evbuffer_chains_all_empty chs)"

definition evbuffer_chain_pin :: "chain \<Rightarrow> chain_flag set \<Rightarrow> chain exec" where
  "evbuffer_chain_pin ch flag =
     (if ch_flags ch \<inter> flag \<noteq> {} then Inl Assert_Failed
      else Inr (ch\<lparr>ch_flags := ch_flags ch \<union> flag\<rparr>))"

definition evbuffer_chain_unpin :: "chain \<Rightarrow> chain_flag set \<Rightarrow> (chain \<times> free_effect list) exec" where
  "evbuffer_chain_unpin ch flag =
     (if ch_flags ch \<inter> flag = {} then Inl Assert_Failed
      else let ch' = ch\<lparr>ch_flags := ch_flags ch - flag\<rparr> in
           Inr (ch', if EVBUFFER_DANGLING \<in> ch_flags ch' then evbuffer_chain_free ch' else []))"

section \<open>Realignment\<close>

definition evbuffer_chain_align :: "chain \<Rightarrow> chain exec" where
  "evbuffer_chain_align ch =
     (if EVBUFFER_IMMUTABLE \<in> ch_flags ch then Inl Assert_Failed
      else if CHAIN_PINNED ch then Inl Assert_Failed
      else Inr (ch\<lparr>ch_buffer := mem_write 0 (mem_read (ch_misalign ch) (ch_off ch) (ch_buffer ch))
                                   (ch_buffer ch),
                   ch_misalign := 0\<rparr>))"

definition evbuffer_chain_should_realign :: "chain \<Rightarrow> nat \<Rightarrow> bool" where
  "evbuffer_chain_should_realign ch datlen \<longleftrightarrow>
     datlen \<le> ch_buffer_len ch - ch_off ch
     \<and> ch_off ch < ch_buffer_len ch div 2
     \<and> ch_off ch \<le> MAX_TO_REALIGN_IN_EXPAND"

section \<open>What a chain holds\<close>

text \<open>The bound below which an allocation can be asked for: the headroom of the doubling loop.\<close>

definition CHAIN_MAX :: nat where
  "CHAIN_MAX = 2 ^ 31 - EVBUFFER_CHAIN_SIZE"

text \<open>
  The bytes stored in a chain and in a list of chains. The invariant of a chain: its memory has
  \<open>buffer_len\<close> bytes, its data lies inside, it is no bigger than what the allocation loop can give,
  a read-only chain is not empty and has no room behind its data, and a writable one has memory.
\<close>

definition chain_data :: "chain \<Rightarrow> byte list" where
  "chain_data ch = mem_read (ch_misalign ch) (ch_off ch) (ch_buffer ch)"

definition chains_data :: "chain list \<Rightarrow> byte list" where
  "chains_data chs = concat (map chain_data chs)"

definition chains_len :: "chain list \<Rightarrow> nat" where
  "chains_len chs = sum_list (map ch_off chs)"

definition chain_ok :: "chain \<Rightarrow> bool" where
  "chain_ok ch \<longleftrightarrow>
     length (ch_buffer ch) = ch_buffer_len ch \<and> ch_misalign ch + ch_off ch \<le> ch_buffer_len ch
     \<and> ch_buffer_len ch \<le> CHAIN_MAX
     \<and> (if EVBUFFER_IMMUTABLE \<in> ch_flags ch
        then ch_off ch \<noteq> 0 \<and> ch_misalign ch + ch_off ch = ch_buffer_len ch
        else 0 < ch_buffer_len ch)"

text \<open>What \<open>malloc\<close> documents: the block has the size asked for.\<close>

definition malloc_ok :: "allocator \<Rightarrow> bool" where
  "malloc_ok mm_malloc \<longleftrightarrow> (\<forall>n addr mem. mm_malloc n = Some (addr, mem) \<longrightarrow> length mem = n)"

text \<open>Some allocation fails.\<close>

definition out_of_memory :: "allocator \<Rightarrow> bool" where
  "out_of_memory mm_malloc \<longleftrightarrow> (\<exists>n. mm_malloc n = None)"

lemma chains_data_simps [simp]:
  "chains_data [] = []"
  "chains_data (ch # chs) = chain_data ch @ chains_data chs"
  "chains_data (xs @ ys) = chains_data xs @ chains_data ys"
  by (simp_all add: chains_data_def)

lemma chains_len_simps [simp]:
  "chains_len [] = 0"
  "chains_len (ch # chs) = ch_off ch + chains_len chs"
  "chains_len (xs @ ys) = chains_len xs + chains_len ys"
  by (simp_all add: chains_len_def)

lemma length_chain_data [simp]: "chain_ok ch \<Longrightarrow> length (chain_data ch) = ch_off ch"
  by (simp add: chain_ok_def chain_data_def mem_simps)

lemma length_chains_data [simp]:
  "\<forall>ch\<in>set chs. chain_ok ch \<Longrightarrow> length (chains_data chs) = chains_len chs"
  by (induction chs) simp_all

lemma chain_data_empty [simp]: "ch_off ch = 0 \<Longrightarrow> chain_data ch = []"
  by (simp add: chain_data_def)

lemma all_empty_iff [simp]: "evbuffer_chains_all_empty chs \<longleftrightarrow> (\<forall>ch\<in>set chs. ch_off ch = 0)"
  by (induction chs) auto

lemma chains_len_0_iff [simp]: "chains_len chs = 0 \<longleftrightarrow> (\<forall>ch\<in>set chs. ch_off ch = 0)"
  by (induction chs) auto

lemma chains_data_all_empty: "\<forall>ch\<in>set chs. ch_off ch = 0 \<Longrightarrow> chains_data chs = []"
  by (induction chs) auto

lemma free_all_chains_simps [simp]:
  "evbuffer_free_all_chains [] = []"
  "evbuffer_free_all_chains (ch # chs) = evbuffer_chain_free ch @ evbuffer_free_all_chains chs"
  "evbuffer_free_all_chains (xs @ ys) = evbuffer_free_all_chains xs @ evbuffer_free_all_chains ys"
  by (simp_all add: evbuffer_free_all_chains_def)

section \<open>Changing the data of a chain\<close>

text \<open>
  The three ways the code changes what a chain holds: bytes behind its data, bytes in front of it,
  and the removal of a prefix.
\<close>

definition chain_append :: "byte list \<Rightarrow> chain \<Rightarrow> chain" where
  "chain_append bs ch =
     ch\<lparr>ch_buffer := mem_write (ch_misalign ch + ch_off ch) bs (ch_buffer ch),
        ch_off := ch_off ch + length bs\<rparr>"

definition chain_drop :: "nat \<Rightarrow> chain \<Rightarrow> chain" where
  "chain_drop n ch = ch\<lparr>ch_misalign := ch_misalign ch + n, ch_off := ch_off ch - n\<rparr>"

definition chain_push :: "byte list \<Rightarrow> chain \<Rightarrow> chain" where
  "chain_push bs ch =
     ch\<lparr>ch_buffer := mem_write (ch_misalign ch - length bs) bs (ch_buffer ch),
        ch_off := ch_off ch + length bs,
        ch_misalign := ch_misalign ch - length bs\<rparr>"

lemma chain_append_data:
  "chain_ok ch \<Longrightarrow> chain_data (chain_append bs ch) = chain_data ch @ bs"
  by (simp add: chain_ok_def chain_append_def chain_data_def mem_simps)

lemma chain_append_ok:
  "chain_ok ch \<Longrightarrow> ch_misalign ch + ch_off ch + length bs \<le> ch_buffer_len ch
   \<Longrightarrow> chain_ok (chain_append bs ch)"
  by (auto simp: chain_ok_def chain_append_def mem_simps)

lemma chain_append_fields [simp]:
  "ch_off (chain_append bs ch) = ch_off ch + length bs"
  "ch_flags (chain_append bs ch) = ch_flags ch"
  "ch_misalign (chain_append bs ch) = ch_misalign ch"
  "ch_buffer_len (chain_append bs ch) = ch_buffer_len ch"
  by (simp_all add: chain_append_def)

lemma chain_append_Nil [simp]: "chain_append [] ch = ch"
  by (simp add: chain_append_def)

lemma chain_drop_data: "n \<le> ch_off ch \<Longrightarrow> chain_data (chain_drop n ch) = drop n (chain_data ch)"
  by (simp add: chain_drop_def chain_data_def mem_read_drop)

lemma chain_drop_ok: "chain_ok ch \<Longrightarrow> n < ch_off ch \<Longrightarrow> chain_ok (chain_drop n ch)"
  by (simp add: chain_ok_def chain_drop_def)

lemma chain_drop_fields [simp]:
  "ch_off (chain_drop n ch) = ch_off ch - n"
  "ch_flags (chain_drop n ch) = ch_flags ch"
  "ch_buffer_len (chain_drop n ch) = ch_buffer_len ch"
  by (simp_all add: chain_drop_def)

lemma chain_drop_0 [simp]: "chain_drop 0 ch = ch"
  by (simp add: chain_drop_def)

lemma chain_push_data:
  "chain_ok ch \<Longrightarrow> length bs \<le> ch_misalign ch \<Longrightarrow> chain_data (chain_push bs ch) = bs @ chain_data ch"
  by (simp add: chain_ok_def chain_push_def chain_data_def mem_simps)

lemma chain_push_ok:
  "chain_ok ch \<Longrightarrow> length bs \<le> ch_misalign ch \<Longrightarrow> chain_ok (chain_push bs ch)"
  by (simp add: chain_ok_def chain_push_def mem_simps)

lemma chain_push_fields [simp]:
  "ch_off (chain_push bs ch) = ch_off ch + length bs"
  "ch_flags (chain_push bs ch) = ch_flags ch"
  by (simp_all add: chain_push_def)

text \<open>Realignment keeps the data and gives all free space to the end.\<close>

lemma chain_align_runs:
  assumes "chain_ok ch" and "EVBUFFER_IMMUTABLE \<notin> ch_flags ch" and "\<not> CHAIN_PINNED ch"
  shows "runs (evbuffer_chain_align ch)
           (\<lambda>ch'. chain_ok ch' \<and> chain_data ch' = chain_data ch \<and> ch_misalign ch' = 0
                \<and> ch_off ch' = ch_off ch \<and> ch_flags ch' = ch_flags ch
                \<and> ch_buffer_len ch' = ch_buffer_len ch)"
proof -
  let ?d = "mem_read (ch_misalign ch) (ch_off ch) (ch_buffer ch)"
  have len: "length ?d = ch_off ch"
    using assms(1) by (simp add: chain_ok_def mem_simps)
  then have "mem_read 0 (ch_off ch) (mem_write 0 ?d (ch_buffer ch)) = ?d"
    by (simp add: mem_simps)
  then show ?thesis
    using assms len by (simp add: evbuffer_chain_align_def chain_ok_def chain_data_def mem_simps)
qed

section \<open>The allocation loop\<close>

lemma chain_alloc_size_nonzero:
  assumes ret: "chain_alloc_size sz a = Some r" and pos: "0 < sz"
  shows "a \<noteq> 0"
proof -
  have "0 < sz \<longrightarrow> a \<noteq> 0"
  proof (rule chain_alloc_size.raw_induct [where P = "\<lambda>sz a r. 0 < sz \<longrightarrow> a \<noteq> 0", OF _ ret])
    fix f :: "nat \<Rightarrow> nat \<Rightarrow> nat option" and sz a r
    assume IH: "\<And>sz a r. f sz a = Some r \<Longrightarrow> 0 < sz \<longrightarrow> a \<noteq> 0"
      and eq: "(if a < sz then f sz ((2 * a) mod SIZE_MOD) else Some a) = Some r"
    show "0 < sz \<longrightarrow> a \<noteq> 0"
      using IH [of sz 0 r] eq by (cases "a = 0") (auto split: if_splits)
  qed
  with pos show ?thesis by simp
qed

lemma chain_alloc_size_0: "0 < sz \<Longrightarrow> chain_alloc_size sz 0 = None"
  using chain_alloc_size_nonzero [of sz 0] by (cases "chain_alloc_size sz 0") auto

lemma double_wrap: "k < 31 \<Longrightarrow> (2 * 2 ^ k) mod SIZE_MOD = 2 ^ Suc k"
proof -
  assume "k < 31"
  then have "(2::nat) ^ Suc k < 2 ^ 32" by (intro power_strict_increasing) simp_all
  then show ?thesis by (simp add: SIZE_MOD_def)
qed

lemma chain_alloc_size_diverges:
  assumes "2 ^ 31 < sz" and "k \<le> 31"
  shows "chain_alloc_size sz (2 ^ k) = None"
  using assms(2)
proof (induction "31 - k" arbitrary: k)
  case 0
  then have "k = 31" by simp
  with assms(1) have "chain_alloc_size sz (2 ^ k) = chain_alloc_size sz 0"
    by (subst chain_alloc_size.simps) (simp add: SIZE_MOD_def)
  with assms(1) show ?case by (simp add: chain_alloc_size_0)
next
  case (Suc d)
  then have k: "k < 31" by simp
  then have "(2::nat) ^ k < 2 ^ 31" by (intro power_strict_increasing) simp_all
  with assms(1) k have "chain_alloc_size sz (2 ^ k) = chain_alloc_size sz (2 ^ Suc k)"
    by (subst chain_alloc_size.simps) (simp only: double_wrap, simp)
  moreover from Suc.hyps(2) k have "chain_alloc_size sz (2 ^ Suc k) = None"
    by (intro Suc.hyps(1)) simp_all
  ultimately show ?case by simp
qed

lemma chain_alloc_size_returns:
  assumes "sz \<le> 2 ^ 31" and "k \<le> 31"
  shows "\<exists>j. k \<le> j \<and> j \<le> 31 \<and> chain_alloc_size sz (2 ^ k) = Some (2 ^ j) \<and> sz \<le> 2 ^ j
           \<and> (j = k \<or> 2 ^ j < 2 * sz)"
  using assms(2)
proof (induction "31 - k" arbitrary: k)
  case 0
  then have "k = 31" by simp
  with assms(1) show ?case
    by (intro exI [of _ 31]) (subst chain_alloc_size.simps, simp)
next
  case (Suc d)
  then have k: "k < 31" by simp
  show ?case
  proof (cases "2 ^ k < sz")
    case False
    then show ?thesis
      using k by (intro exI [of _ k]) (subst chain_alloc_size.simps, simp)
  next
    case True
    then have "chain_alloc_size sz (2 ^ k) = chain_alloc_size sz (2 ^ Suc k)"
      using k by (subst chain_alloc_size.simps) (simp only: double_wrap, simp)
    moreover from Suc.hyps(2) k have "\<exists>j. Suc k \<le> j \<and> j \<le> 31
        \<and> chain_alloc_size sz (2 ^ Suc k) = Some (2 ^ j) \<and> sz \<le> 2 ^ j
        \<and> (j = Suc k \<or> 2 ^ j < 2 * sz)"
      by (intro Suc.hyps(1)) simp_all
    ultimately show ?thesis
      using True by (auto intro: Suc_leD)
  qed
qed

lemma MIN_BUFFER_SIZE_power: "MIN_BUFFER_SIZE = 2 ^ 9"
  by (simp add: MIN_BUFFER_SIZE_def)

text \<open>A new chain is empty, unflagged and at least as big as asked for.\<close>

definition fresh_chain :: "nat \<Rightarrow> chain \<Rightarrow> bool" where
  "fresh_chain sz ch \<longleftrightarrow>
     chain_ok ch \<and> sz \<le> ch_buffer_len ch \<and> ch_misalign ch = 0 \<and> ch_off ch = 0
     \<and> ch_flags ch = {} \<and> ch_cleanup ch = None"

lemma fresh_chainD:
  assumes "fresh_chain sz ch"
  shows "chain_ok ch" "sz \<le> ch_buffer_len ch" "ch_misalign ch = 0" "ch_off ch = 0"
    "ch_flags ch = {}" "ch_cleanup ch = None" "chain_data ch = []" "\<not> CHAIN_PINNED ch"
  using assms by (simp_all add: fresh_chain_def CHAIN_PINNED_def)

lemma chain_new_runs:
  assumes "malloc_ok mm_malloc" and "sz \<le> CHAIN_MAX"
  shows "runs (evbuffer_chain_new mm_malloc sz)
           (\<lambda>r. case r of None \<Rightarrow> out_of_memory mm_malloc | Some ch \<Rightarrow> fresh_chain sz ch)"
proof -
  have add: "addz sz EVBUFFER_CHAIN_SIZE = sz + EVBUFFER_CHAIN_SIZE"
    using assms(2) by (intro addz_exact) (simp add: CHAIN_MAX_def EVBUFFER_CHAIN_SIZE_def SIZE_MOD_def)
  have le: "sz + EVBUFFER_CHAIN_SIZE \<le> 2 ^ 31"
    using assms(2) by (simp add: CHAIN_MAX_def EVBUFFER_CHAIN_SIZE_def)
  from chain_alloc_size_returns [OF this, of 9] obtain j where
    j: "chain_alloc_size (sz + EVBUFFER_CHAIN_SIZE) MIN_BUFFER_SIZE = Some (2 ^ j)"
       "sz + EVBUFFER_CHAIN_SIZE \<le> 2 ^ j" and j31: "9 \<le> j" "j \<le> 31"
    by (auto simp: MIN_BUFFER_SIZE_power)
  from j31 have "(2::nat) ^ 9 \<le> 2 ^ j" "(2::nat) ^ j \<le> 2 ^ 31"
    by (simp_all only: power_increasing_iff)
  then have bounds: "0 < (2::nat) ^ j - EVBUFFER_CHAIN_SIZE" "(2::nat) ^ j - EVBUFFER_CHAIN_SIZE \<le> CHAIN_MAX"
    by (simp_all add: CHAIN_MAX_def EVBUFFER_CHAIN_SIZE_def)
  show ?thesis
  proof (cases "mm_malloc (2 ^ j)")
    case None
    with j show ?thesis by (auto simp: evbuffer_chain_new_def add out_of_memory_def)
  next
    case (Some r)
    then obtain addr mem where r: "mm_malloc (2 ^ j) = Some (addr, mem)" by (cases r) auto
    with assms(1) have "length mem = 2 ^ j" by (simp add: malloc_ok_def)
    with j r bounds show ?thesis
      by (simp add: evbuffer_chain_new_def add fresh_chain_def chain_ok_def)
  qed
qed

lemma chain_new_Some:
  assumes "malloc_ok mm_malloc" and "sz \<le> CHAIN_MAX"
    and "evbuffer_chain_new mm_malloc sz = Inr (Some ch)"
  shows "fresh_chain sz ch"
  using chain_new_runs [OF assms(1,2)] assms(3) by simp

lemma chain_new_cases:
  assumes "malloc_ok mm_malloc" and "sz \<le> CHAIN_MAX"
  obtains (fail) "evbuffer_chain_new mm_malloc sz = Inr None" "out_of_memory mm_malloc"
  | (new) ch where "evbuffer_chain_new mm_malloc sz = Inr (Some ch)" "fresh_chain sz ch"
  using chain_new_runs [OF assms]
  by (cases "evbuffer_chain_new mm_malloc sz") (auto split: option.splits)

section \<open>Properties\<close>

text \<open>An allocator that always succeeds, for concrete runs.\<close>

definition plain_malloc :: allocator where
  "plain_malloc n = Some (4096, replicate n 0)"

lemma plain_malloc_ok [simp]: "malloc_ok plain_malloc" "\<not> out_of_memory plain_malloc"
  by (simp_all add: malloc_ok_def out_of_memory_def plain_malloc_def)

text \<open>
  for every size up to \<open>CHAIN_MAX\<close> the allocation loop of \<open>evbuffer_chain_new\<close> ends, and the
  chain it gives, unless \<open>malloc\<close> fails, is well formed, empty, unflagged and has room for at least
  the size asked for.
\<close>

theorem chain_new_big_enough:
  assumes "malloc_ok mm_malloc" and "sz \<le> CHAIN_MAX"
  shows "\<exists>r. evbuffer_chain_new mm_malloc sz = Inr r
           \<and> (case r of
                None \<Rightarrow> out_of_memory mm_malloc
              | Some ch \<Rightarrow> chain_ok ch \<and> sz \<le> ch_buffer_len ch \<and> ch_misalign ch = 0
                           \<and> ch_off ch = 0 \<and> ch_flags ch = {})"
  using chain_new_runs [OF assms] by (auto simp: runs_iff fresh_chain_def split: option.splits)

theorem chain_new_big_enough_witness:
  "\<exists>ch. evbuffer_chain_new plain_malloc 1000 = Inr (Some ch) \<and> chain_ok ch \<and> 1000 \<le> ch_buffer_len ch"
  using chain_new_big_enough [of plain_malloc 1000]
  by (auto simp: CHAIN_MAX_def EVBUFFER_CHAIN_SIZE_def split: option.splits)

text \<open>
  C11: beyond \<open>CHAIN_MAX\<close> the size is not checked. The doubling loop of \<open>evbuffer_chain_new\<close> does not
  end while \<open>size + sizeof(struct evbuffer_chain)\<close> still fits a \<open>size_t\<close>; from there on the sum wraps
  around and the chain has 480 bytes only, fewer than were asked for.
\<close>

theorem chain_new_overflow:
  assumes "CHAIN_MAX < sz" and "sz < SIZE_MOD"
  shows "if sz + EVBUFFER_CHAIN_SIZE < SIZE_MOD
         then evbuffer_chain_new mm_malloc sz = Inl Diverges
         else (\<forall>addr mem. mm_malloc 512 = Some (addr, mem) \<longrightarrow>
                (\<exists>ch. evbuffer_chain_new mm_malloc sz = Inr (Some ch)
                    \<and> ch_buffer_len ch = 480 \<and> ch_buffer_len ch < sz))"
proof (cases "sz + EVBUFFER_CHAIN_SIZE < SIZE_MOD")
  case True
  have "2 ^ 31 < sz + EVBUFFER_CHAIN_SIZE"
    using assms(1) by (simp add: CHAIN_MAX_def EVBUFFER_CHAIN_SIZE_def)
  then have "chain_alloc_size (sz + EVBUFFER_CHAIN_SIZE) MIN_BUFFER_SIZE = None"
    unfolding MIN_BUFFER_SIZE_power by (rule chain_alloc_size_diverges) simp
  with True show ?thesis by (simp add: evbuffer_chain_new_def addz_exact)
next
  case False
  have "addz sz EVBUFFER_CHAIN_SIZE = sz + EVBUFFER_CHAIN_SIZE - SIZE_MOD"
    using assms(2) False by (simp add: addz_def mod_if EVBUFFER_CHAIN_SIZE_def SIZE_MOD_def)
  then have "addz sz EVBUFFER_CHAIN_SIZE \<le> MIN_BUFFER_SIZE"
    using assms(2) by (simp add: EVBUFFER_CHAIN_SIZE_def MIN_BUFFER_SIZE_def SIZE_MOD_def)
  then have "chain_alloc_size (addz sz EVBUFFER_CHAIN_SIZE) MIN_BUFFER_SIZE = Some 512"
    by (subst chain_alloc_size.simps) (simp add: MIN_BUFFER_SIZE_def)
  with False assms(1) show ?thesis
    by (auto simp: evbuffer_chain_new_def EVBUFFER_CHAIN_SIZE_def CHAIN_MAX_def)
qed

theorem chain_new_overflow_witness:
  "evbuffer_chain_new plain_malloc 3000000000 = Inl Diverges
   \<and> (\<exists>ch. evbuffer_chain_new plain_malloc 4294967295 = Inr (Some ch) \<and> ch_buffer_len ch = 480)"
  using chain_new_overflow [of 3000000000 plain_malloc] chain_new_overflow [of 4294967295 plain_malloc]
  by (auto simp: CHAIN_MAX_def EVBUFFER_CHAIN_SIZE_def SIZE_MOD_def plain_malloc_def)

end
