(* ===== verification/Evbuffer_Base.thy ===== *)
theory Evbuffer_Base
  imports Evbuffer_Chain
begin

unbundle bit_operations_syntax

text \<open>
  \<open>struct evbuffer\<close> of \<open>buffer.c\<close>, its callbacks and reference count, and the insertion of a chain.
  The linked list from \<open>first\<close> to \<open>last\<close> is the list \<open>eb_chains\<close>. The pointer-to-pointer
  \<open>last_with_datap\<close> is the position in that list of the chain it leads to: \<open>&buf->first\<close> is 0 and
  \<open>&ch->next\<close> is one more than the position of \<open>ch\<close>; it leads to \<open>NULL\<close> when the position is the
  length of the list. Callback functions, cleanup functions, the parent's reference count and the
  deferred queue are outside the buffer: what the buffer asks of them is recorded in \<open>eb_trace\<close>.
  Locks are not modelled; each operation runs under the buffer's lock.
\<close>

section \<open>The structure\<close>

record cb_info =
  orig_size :: nat
  n_added :: nat
  n_deleted :: nat

text \<open>\<open>cb_id\<close> stands for the address of the entry, \<open>cb_func\<close> for the function pointer.\<close>

record cb_entry =
  cb_id :: nat
  cb_func :: nat
  cbarg :: nat
  cb_flags :: "32 word"

definition EVBUFFER_CB_ENABLED :: "32 word" where
  "EVBUFFER_CB_ENABLED = 1"

definition EVBUFFER_CB_NODEFER :: "32 word" where
  "EVBUFFER_CB_NODEFER = 2"

definition EVBUFFER_CB_OBSOLETE :: "32 word" where
  "EVBUFFER_CB_OBSOLETE = 0x00040000"

definition EVBUFFER_CB_INTERNAL_FLAGS :: "32 word" where
  "EVBUFFER_CB_INTERNAL_FLAGS = 0xffff0000"

datatype effect =
    Freed free_effect
  | Call_Func nat cb_info nat          \<comment> \<open>\<open>cb.cb_func(buffer, &info, cbarg)\<close>\<close>
  | Call_Obsolete nat nat nat nat      \<comment> \<open>\<open>cb.cb_obsolete(buffer, orig_size, new_size, cbarg)\<close>\<close>
  | Parent_Incref nat                  \<comment> \<open>\<open>bufferevent_incref(buffer->parent)\<close>\<close>
  | Parent_Decref nat
  | Deferred_Scheduled
  | Deferred_Cancelled

record evbuffer =
  eb_chains :: "chain list"
  last_with_datap :: nat
  total_len :: nat
  n_add_for_cb :: nat
  n_del_for_cb :: nat
  own_lock :: bool
  freeze_start :: bool
  freeze_end :: bool
  deferred_cbs :: bool
  eb_flags :: "32 word"
  refcnt :: int
  deferred_queued :: bool
  callbacks :: "cb_entry list"
  eb_parent :: "nat option"
  eb_trace :: "effect list"

definition evbuffer_new :: evbuffer where
  "evbuffer_new = \<lparr>eb_chains = [], last_with_datap = 0, total_len = 0, n_add_for_cb = 0,
     n_del_for_cb = 0, own_lock = False, freeze_start = False, freeze_end = False,
     deferred_cbs = False, eb_flags = 0, refcnt = 1, deferred_queued = False,
     callbacks = [], eb_parent = None, eb_trace = []\<rparr>"

definition emit :: "effect list \<Rightarrow> evbuffer \<Rightarrow> evbuffer" where
  "emit es buf = buf\<lparr>eb_trace := eb_trace buf @ es\<rparr>"

definition free_chains :: "chain list \<Rightarrow> evbuffer \<Rightarrow> evbuffer" where
  "free_chains chs = emit (map Freed (evbuffer_free_all_chains chs))"

section \<open>Flags, freezing, reference count\<close>

definition evbuffer_set_flags :: "evbuffer \<Rightarrow> 64 word \<Rightarrow> evbuffer" where
  "evbuffer_set_flags buf fl = buf\<lparr>eb_flags := eb_flags buf OR ucast fl\<rparr>"

definition evbuffer_clear_flags :: "evbuffer \<Rightarrow> 64 word \<Rightarrow> evbuffer" where
  "evbuffer_clear_flags buf fl = buf\<lparr>eb_flags := eb_flags buf AND NOT (ucast fl)\<rparr>"

definition evbuffer_freeze :: "evbuffer \<Rightarrow> bool \<Rightarrow> evbuffer" where
  "evbuffer_freeze buf start =
     (if start then buf\<lparr>freeze_start := True\<rparr> else buf\<lparr>freeze_end := True\<rparr>)"

definition evbuffer_unfreeze :: "evbuffer \<Rightarrow> bool \<Rightarrow> evbuffer" where
  "evbuffer_unfreeze buf start =
     (if start then buf\<lparr>freeze_start := False\<rparr> else buf\<lparr>freeze_end := False\<rparr>)"

definition evbuffer_incref :: "evbuffer \<Rightarrow> evbuffer" where
  "evbuffer_incref buf = buf\<lparr>refcnt := refcnt buf + 1\<rparr>"

definition evbuffer_get_length :: "evbuffer \<Rightarrow> nat" where
  "evbuffer_get_length buf = total_len buf"

definition evbuffer_get_contiguous_space :: "evbuffer \<Rightarrow> nat" where
  "evbuffer_get_contiguous_space buf =
     (case eb_chains buf of [] \<Rightarrow> 0 | ch # _ \<Rightarrow> ch_off ch)"

section \<open>Callbacks\<close>

text \<open>\<open>event_deferred_cb_init\<close> clears the handle, so it is not queued.\<close>

definition evbuffer_defer_callbacks :: "evbuffer \<Rightarrow> evbuffer" where
  "evbuffer_defer_callbacks buf = buf\<lparr>deferred_cbs := True, deferred_queued := False\<rparr>"

definition evbuffer_set_parent :: "evbuffer \<Rightarrow> nat option \<Rightarrow> evbuffer" where
  "evbuffer_set_parent buf bev = buf\<lparr>eb_parent := bev\<rparr>"

definition run_one_callback :: "cb_info \<Rightarrow> nat \<Rightarrow> cb_entry \<Rightarrow> effect" where
  "run_one_callback info new_size cbent =
     (if cb_flags cbent AND EVBUFFER_CB_OBSOLETE \<noteq> 0
      then Call_Obsolete (cb_func cbent) (orig_size info) new_size (cbarg cbent)
      else Call_Func (cb_func cbent) info (cbarg cbent))"

definition callback_mask :: "evbuffer \<Rightarrow> bool \<Rightarrow> 32 word \<times> 32 word \<times> bool" where
  "callback_mask buf running_deferred =
     (if running_deferred
      then (EVBUFFER_CB_NODEFER OR EVBUFFER_CB_ENABLED, EVBUFFER_CB_ENABLED, True)
      else if deferred_cbs buf
      then (EVBUFFER_CB_NODEFER OR EVBUFFER_CB_ENABLED,
            EVBUFFER_CB_NODEFER OR EVBUFFER_CB_ENABLED, False)
      else (EVBUFFER_CB_ENABLED, EVBUFFER_CB_ENABLED, True))"

definition evbuffer_run_callbacks :: "evbuffer \<Rightarrow> bool \<Rightarrow> evbuffer" where
  "evbuffer_run_callbacks buf running_deferred =
     (case callback_mask buf running_deferred of (msk, masked_val, clear) \<Rightarrow>
        if callbacks buf = [] then buf\<lparr>n_add_for_cb := 0, n_del_for_cb := 0\<rparr>
        else if n_add_for_cb buf = 0 \<and> n_del_for_cb buf = 0 then buf
        else
          let new_size = total_len buf;
              info = \<lparr>orig_size = subz (addz new_size (n_del_for_cb buf)) (n_add_for_cb buf),
                      n_added = n_add_for_cb buf, n_deleted = n_del_for_cb buf\<rparr>;
              buf' = (if clear then buf\<lparr>n_add_for_cb := 0, n_del_for_cb := 0\<rparr> else buf)
          in emit (map (run_one_callback info new_size)
                    (filter (\<lambda>cbent. cb_flags cbent AND msk = masked_val) (callbacks buf))) buf')"

definition evbuffer_invoke_callbacks :: "evbuffer \<Rightarrow> evbuffer" where
  "evbuffer_invoke_callbacks buf =
     (if callbacks buf = [] then buf\<lparr>n_add_for_cb := 0, n_del_for_cb := 0\<rparr>
      else if deferred_cbs buf
      then (if deferred_queued buf then buf
            else evbuffer_run_callbacks
                   (emit [Deferred_Scheduled]
                     (emit (case eb_parent buf of None \<Rightarrow> [] | Some p \<Rightarrow> [Parent_Incref p])
                       (evbuffer_incref buf))
                    \<lparr>deferred_queued := True\<rparr>) False)
      else evbuffer_run_callbacks buf False)"

definition evbuffer_remove_all_callbacks :: "evbuffer \<Rightarrow> evbuffer" where
  "evbuffer_remove_all_callbacks buf = buf\<lparr>callbacks := []\<rparr>"

text \<open>
  \<open>_evbuffer_decref_and_unlock\<close>: the buffer with one reference less, or \<open>None\<close> and what was
  released with it. \<open>evbuffer_free\<close> is the same under the lock.
\<close>

definition evbuffer_decref_and_unlock :: "evbuffer \<Rightarrow> (evbuffer option \<times> effect list) exec" where
  "evbuffer_decref_and_unlock buf =
     (if \<not> 0 < refcnt buf then Inl Assert_Failed
      else let buf = buf\<lparr>refcnt := refcnt buf - 1\<rparr> in
           if 0 < refcnt buf then Inr (Some buf, eb_trace buf)
           else Inr (None, eb_trace (evbuffer_remove_all_callbacks (free_chains (eb_chains buf) buf))
                           @ (if deferred_cbs buf \<and> deferred_queued buf then [Deferred_Cancelled] else [])))"

definition evbuffer_free :: "evbuffer \<Rightarrow> (evbuffer option \<times> effect list) exec" where
  "evbuffer_free buf = evbuffer_decref_and_unlock buf"

text \<open>
  \<open>evbuffer_deferred_callback\<close>, as \<open>event_process_deferred_callbacks\<close> calls it: the handle has
  just been taken off the queue.
\<close>

definition evbuffer_deferred_callback :: "evbuffer \<Rightarrow> (evbuffer option \<times> effect list) exec" where
  "evbuffer_deferred_callback buf =
     (let par = eb_parent buf;
          buf = evbuffer_run_callbacks (buf\<lparr>deferred_queued := False\<rparr>) True
      in bindE (evbuffer_decref_and_unlock buf)
           (\<lambda>(r, es). let pd = (case par of None \<Rightarrow> [] | Some p \<Rightarrow> [Parent_Decref p])
                      in Inr (map_option (emit pd) r, es @ pd)))"

definition evbuffer_add_cb :: "evbuffer \<Rightarrow> nat \<Rightarrow> nat \<Rightarrow> nat \<Rightarrow> evbuffer" where
  "evbuffer_add_cb buf ent cb arg =
     buf\<lparr>callbacks := \<lparr>cb_id = ent, cb_func = cb, cbarg = arg, cb_flags = EVBUFFER_CB_ENABLED\<rparr>
                      # callbacks buf\<rparr>"

definition evbuffer_remove_cb_entry :: "evbuffer \<Rightarrow> nat \<Rightarrow> evbuffer" where
  "evbuffer_remove_cb_entry buf ent =
     buf\<lparr>callbacks := filter (\<lambda>e. cb_id e \<noteq> ent) (callbacks buf)\<rparr>"

definition evbuffer_remove_cb :: "evbuffer \<Rightarrow> nat \<Rightarrow> nat \<Rightarrow> int \<times> evbuffer" where
  "evbuffer_remove_cb buf cb arg =
     (case find (\<lambda>e. cb_func e = cb \<and> cbarg e = arg) (callbacks buf) of
        None \<Rightarrow> (-1, buf)
      | Some e \<Rightarrow> (0, evbuffer_remove_cb_entry buf (cb_id e)))"

definition set_cb_flags :: "nat \<Rightarrow> (32 word \<Rightarrow> 32 word) \<Rightarrow> evbuffer \<Rightarrow> evbuffer" where
  "set_cb_flags ent f buf =
     buf\<lparr>callbacks := map (\<lambda>e. if cb_id e = ent then e\<lparr>cb_flags := f (cb_flags e)\<rparr> else e)
                        (callbacks buf)\<rparr>"

definition evbuffer_cb_set_flags :: "evbuffer \<Rightarrow> nat \<Rightarrow> 32 word \<Rightarrow> evbuffer" where
  "evbuffer_cb_set_flags buf ent fl =
     set_cb_flags ent (\<lambda>w. w OR (fl AND NOT EVBUFFER_CB_INTERNAL_FLAGS)) buf"

definition evbuffer_cb_clear_flags :: "evbuffer \<Rightarrow> nat \<Rightarrow> 32 word \<Rightarrow> evbuffer" where
  "evbuffer_cb_clear_flags buf ent fl =
     set_cb_flags ent (\<lambda>w. w AND NOT (fl AND NOT EVBUFFER_CB_INTERNAL_FLAGS)) buf"

text \<open>\<open>cb = None\<close> is a null callback; \<open>ent\<close> is the address of the entry that \<open>evbuffer_add_cb\<close> makes.\<close>

definition evbuffer_setcb :: "evbuffer \<Rightarrow> nat \<Rightarrow> nat option \<Rightarrow> nat \<Rightarrow> evbuffer" where
  "evbuffer_setcb buf ent cb arg =
     (let buf = (if callbacks buf \<noteq> [] then evbuffer_remove_all_callbacks buf else buf)
      in case cb of
           None \<Rightarrow> buf
         | Some c \<Rightarrow>
             let buf = evbuffer_add_cb buf ent 0 arg in
             buf\<lparr>callbacks :=
                   (case callbacks buf of
                      [] \<Rightarrow> []
                    | e # es \<Rightarrow> e\<lparr>cb_func := c, cb_flags := cb_flags e OR EVBUFFER_CB_OBSOLETE\<rparr> # es)\<rparr>)"

section \<open>Inserting a chain\<close>

text \<open>
  The loop \<open>while ((*ch) && ((*ch)->off != 0 || CHAIN_PINNED(*ch)))\<close> from \<open>last_with_datap\<close>: how
  many chains it passes.
\<close>

fun skip_used :: "chain list \<Rightarrow> nat" where
  "skip_used [] = 0"
| "skip_used (ch # chs) = (if ch_off ch \<noteq> 0 \<or> CHAIN_PINNED ch then Suc (skip_used chs) else 0)"

definition first_victim :: "evbuffer \<Rightarrow> nat" where
  "first_victim buf = last_with_datap buf + skip_used (drop (last_with_datap buf) (eb_chains buf))"

text \<open>The position returned is the place where the new chain will go.\<close>

definition evbuffer_free_trailing_empty_chains :: "evbuffer \<Rightarrow> (nat \<times> evbuffer) exec" where
  "evbuffer_free_trailing_empty_chains buf =
     (let k = first_victim buf in
      if k < length (eb_chains buf)
      then if \<not> evbuffer_chains_all_empty (drop k (eb_chains buf)) then Inl Assert_Failed
           else Inr (k, free_chains (drop k (eb_chains buf)) (buf\<lparr>eb_chains := take k (eb_chains buf)\<rparr>))
      else Inr (k, buf))"

definition evbuffer_chain_insert :: "evbuffer \<Rightarrow> chain \<Rightarrow> evbuffer exec" where
  "evbuffer_chain_insert buf ch =
     bindE
      (if length (eb_chains buf) \<le> last_with_datap buf
       then if last_with_datap buf \<noteq> 0 then Inl Assert_Failed
            else if eb_chains buf \<noteq> [] then Inl Assert_Failed
            else Inr (buf\<lparr>eb_chains := [ch]\<rparr>)
       else let k = first_victim buf in
            if \<not> k < length (eb_chains buf)
            then Inr (buf\<lparr>eb_chains := eb_chains buf @ [ch],
                          last_with_datap := (if ch_off ch \<noteq> 0 then length (eb_chains buf)
                                              else last_with_datap buf)\<rparr>)
            else if \<not> evbuffer_chains_all_empty (drop k (eb_chains buf)) then Inl Assert_Failed
            else Inr (free_chains (drop k (eb_chains buf)) (buf\<lparr>eb_chains := take k (eb_chains buf) @ [ch]\<rparr>)))
      (\<lambda>buf. Inr (buf\<lparr>total_len := addz (total_len buf) (ch_off ch)\<rparr>))"

definition evbuffer_chain_insert_new :: "allocator \<Rightarrow> evbuffer \<Rightarrow> nat \<Rightarrow> (bool \<times> evbuffer) exec" where
  "evbuffer_chain_insert_new mm_malloc buf datlen =
     bindE (evbuffer_chain_new mm_malloc datlen)
       (\<lambda>r. case r of
              None \<Rightarrow> Inr (False, buf)
            | Some ch \<Rightarrow> bindE (evbuffer_chain_insert buf ch) (\<lambda>buf. Inr (True, buf)))"

text \<open>\<open>advance_last_with_data\<close>: on to the last of the chains with data that follow directly.\<close>

fun count_data :: "chain list \<Rightarrow> nat" where
  "count_data [] = 0"
| "count_data (ch # chs) = (if ch_off ch \<noteq> 0 then Suc (count_data chs) else 0)"

definition advance_last_with_data :: "evbuffer \<Rightarrow> evbuffer" where
  "advance_last_with_data buf =
     (if length (eb_chains buf) \<le> last_with_datap buf then buf
      else buf\<lparr>last_with_datap := last_with_datap buf
                 + count_data (drop (Suc (last_with_datap buf)) (eb_chains buf))\<rparr>)"

definition HAS_PINNED_R :: "evbuffer \<Rightarrow> bool" where
  "HAS_PINNED_R buf \<longleftrightarrow> eb_chains buf \<noteq> [] \<and> CHAIN_PINNED_R (last (eb_chains buf))"

definition ZERO_CHAIN :: "evbuffer \<Rightarrow> evbuffer" where
  "ZERO_CHAIN buf = buf\<lparr>eb_chains := [], last_with_datap := 0, total_len := 0\<rparr>"

section \<open>The invariant\<close>

text \<open>What the comment on \<open>last_with_datap\<close> in \<open>evbuffer-internal.h\<close> promises.\<close>

definition lwd_ok :: "chain list \<Rightarrow> nat \<Rightarrow> bool" where
  "lwd_ok chs k \<longleftrightarrow>
     (if chs = [] then k = 0
      else k < length chs \<and> (\<forall>ch\<in>set (drop (Suc k) chs). ch_off ch = 0)
           \<and> (k = 0 \<or> ch_off (chs ! k) \<noteq> 0))"

definition evbuffer_ok :: "evbuffer \<Rightarrow> bool" where
  "evbuffer_ok buf \<longleftrightarrow>
     (\<forall>ch\<in>set (eb_chains buf). chain_ok ch)
     \<and> total_len buf = chains_len (eb_chains buf) \<and> total_len buf < SIZE_MOD
     \<and> lwd_ok (eb_chains buf) (last_with_datap buf)"

text \<open>No empty chain behind the last chain with data.\<close>

definition no_spare :: "evbuffer \<Rightarrow> bool" where
  "no_spare buf \<longleftrightarrow> eb_chains buf = [] \<or> Suc (last_with_datap buf) = length (eb_chains buf)"

definition contents :: "evbuffer \<Rightarrow> byte list" where
  "contents buf = chains_data (eb_chains buf)"

text \<open>The effects that are not the release of a chain.\<close>

definition calls :: "effect list \<Rightarrow> effect list" where
  "calls = filter (\<lambda>e. case e of Freed _ \<Rightarrow> False | _ \<Rightarrow> True)"

text \<open>
  Everything but the chains, their bookkeeping and the released chains in the trace is as before.
\<close>

definition chain_frame :: "evbuffer \<Rightarrow> evbuffer \<Rightarrow> bool" where
  "chain_frame b b' \<longleftrightarrow>
     n_add_for_cb b' = n_add_for_cb b \<and> n_del_for_cb b' = n_del_for_cb b \<and> own_lock b' = own_lock b
     \<and> freeze_start b' = freeze_start b \<and> freeze_end b' = freeze_end b
     \<and> deferred_cbs b' = deferred_cbs b \<and> eb_flags b' = eb_flags b \<and> refcnt b' = refcnt b
     \<and> deferred_queued b' = deferred_queued b \<and> callbacks b' = callbacks b
     \<and> eb_parent b' = eb_parent b \<and> calls (eb_trace b') = calls (eb_trace b)"

lemma calls_simps [simp]:
  "calls [] = []" "calls (xs @ ys) = calls xs @ calls ys" "calls (map Freed fs) = []"
  "calls (map (run_one_callback info n) cs) = map (run_one_callback info n) cs"
  by (auto simp: calls_def filter_empty_conv filter_id_conv run_one_callback_def)

section \<open>What the callbacks leave alone\<close>

lemma emit_simps [simp]:
  "eb_chains (emit es b) = eb_chains b" "last_with_datap (emit es b) = last_with_datap b"
  "total_len (emit es b) = total_len b" "freeze_start (emit es b) = freeze_start b"
  "freeze_end (emit es b) = freeze_end b" "callbacks (emit es b) = callbacks b"
  "n_add_for_cb (emit es b) = n_add_for_cb b" "n_del_for_cb (emit es b) = n_del_for_cb b"
  "deferred_cbs (emit es b) = deferred_cbs b" "refcnt (emit es b) = refcnt b"
  "eb_trace (emit es b) = eb_trace b @ es"
  "deferred_queued (emit es b) = deferred_queued b" "eb_parent (emit es b) = eb_parent b"
  by (simp_all add: emit_def)

lemma free_chains_simps [simp]:
  "eb_chains (free_chains chs b) = eb_chains b" "last_with_datap (free_chains chs b) = last_with_datap b"
  "total_len (free_chains chs b) = total_len b" "freeze_start (free_chains chs b) = freeze_start b"
  "freeze_end (free_chains chs b) = freeze_end b" "callbacks (free_chains chs b) = callbacks b"
  "n_add_for_cb (free_chains chs b) = n_add_for_cb b"
  "n_del_for_cb (free_chains chs b) = n_del_for_cb b"
  "deferred_cbs (free_chains chs b) = deferred_cbs b" "refcnt (free_chains chs b) = refcnt b"
  "eb_trace (free_chains chs b) = eb_trace b @ map Freed (evbuffer_free_all_chains chs)"
  by (simp_all add: free_chains_def)

lemma run_callbacks_simps [simp]:
  "eb_chains (evbuffer_run_callbacks b d) = eb_chains b"
  "last_with_datap (evbuffer_run_callbacks b d) = last_with_datap b"
  "total_len (evbuffer_run_callbacks b d) = total_len b"
  "freeze_start (evbuffer_run_callbacks b d) = freeze_start b"
  "freeze_end (evbuffer_run_callbacks b d) = freeze_end b"
  "callbacks (evbuffer_run_callbacks b d) = callbacks b"
  by (simp_all add: evbuffer_run_callbacks_def Let_def split: prod.split)

lemma invoke_callbacks_simps [simp]:
  "eb_chains (evbuffer_invoke_callbacks b) = eb_chains b"
  "last_with_datap (evbuffer_invoke_callbacks b) = last_with_datap b"
  "total_len (evbuffer_invoke_callbacks b) = total_len b"
  "freeze_start (evbuffer_invoke_callbacks b) = freeze_start b"
  "freeze_end (evbuffer_invoke_callbacks b) = freeze_end b"
  "callbacks (evbuffer_invoke_callbacks b) = callbacks b"
  by (simp_all add: evbuffer_invoke_callbacks_def evbuffer_incref_def)

text \<open>
  What the callbacks of a buffer without deferred callbacks are told: every enabled one is run, most
  recently added first, with the size before the changes and the numbers of bytes added and removed.
\<close>

definition told :: "nat \<Rightarrow> nat \<Rightarrow> nat \<Rightarrow> cb_entry list \<Rightarrow> effect list" where
  "told old n_add n_del cbs =
     (if n_add = 0 \<and> n_del = 0 then []
      else map (run_one_callback \<lparr>orig_size = old, n_added = n_add, n_deleted = n_del\<rparr> (old + n_add - n_del))
             (filter (\<lambda>cbent. cb_flags cbent AND EVBUFFER_CB_ENABLED = EVBUFFER_CB_ENABLED) cbs))"

lemma invoke_callbacks_told:
  assumes "\<not> deferred_cbs b" and "total_len b + n_del_for_cb b = old + n_add_for_cb b"
    and "total_len b + n_del_for_cb b < SIZE_MOD"
  shows "calls (eb_trace (evbuffer_invoke_callbacks b))
       = calls (eb_trace b) @ told old (n_add_for_cb b) (n_del_for_cb b) (callbacks b)"
proof -
  have "subz (addz (total_len b) (n_del_for_cb b)) (n_add_for_cb b) = old"
    using assms(2,3) by (simp add: addz_exact subz_exact)
  moreover have "old + n_add_for_cb b - n_del_for_cb b = total_len b"
    using assms(2) by simp
  ultimately show ?thesis
    using assms(1)
    by (simp add: evbuffer_invoke_callbacks_def evbuffer_run_callbacks_def callback_mask_def told_def Let_def)
qed

text \<open>The invariant, the contents and the shape depend on the chains and their bookkeeping only.\<close>

lemma evbuffer_ok_cong:
  "eb_chains b' = eb_chains b \<Longrightarrow> last_with_datap b' = last_with_datap b \<Longrightarrow> total_len b' = total_len b
   \<Longrightarrow> evbuffer_ok b' = evbuffer_ok b"
  by (simp add: evbuffer_ok_def)

lemma no_spare_cong:
  "eb_chains b' = eb_chains b \<Longrightarrow> last_with_datap b' = last_with_datap b \<Longrightarrow> no_spare b' = no_spare b"
  by (simp add: no_spare_def)

lemma invoke_callbacks_ok [simp]:
  "evbuffer_ok (evbuffer_invoke_callbacks b) = evbuffer_ok b"
  "no_spare (evbuffer_invoke_callbacks b) = no_spare b"
  "contents (evbuffer_invoke_callbacks b) = contents b"
  by (simp_all add: evbuffer_ok_def no_spare_def contents_def)

lemma evbuffer_ok_counters [simp]:
  "evbuffer_ok (b\<lparr>n_add_for_cb := x\<rparr>) = evbuffer_ok b"
  "evbuffer_ok (b\<lparr>n_del_for_cb := x\<rparr>) = evbuffer_ok b"
  "no_spare (b\<lparr>n_add_for_cb := x\<rparr>) = no_spare b"
  "no_spare (b\<lparr>n_del_for_cb := x\<rparr>) = no_spare b"
  "contents (b\<lparr>n_add_for_cb := x\<rparr>) = contents b"
  "contents (b\<lparr>n_del_for_cb := x\<rparr>) = contents b"
  by (simp_all add: evbuffer_ok_def no_spare_def contents_def)

lemma chain_frame_refl [simp]: "chain_frame b b"
  by (simp add: chain_frame_def)

lemma chain_frame_trans: "chain_frame a b \<Longrightarrow> chain_frame b c \<Longrightarrow> chain_frame a c"
  by (simp add: chain_frame_def)

lemma chain_frame_fields:
  assumes "chain_frame b b'"
  shows "freeze_start b' = freeze_start b" "freeze_end b' = freeze_end b"
    "n_add_for_cb b' = n_add_for_cb b" "n_del_for_cb b' = n_del_for_cb b"
    "callbacks b' = callbacks b" "deferred_cbs b' = deferred_cbs b" "refcnt b' = refcnt b"
    "deferred_queued b' = deferred_queued b" "eb_parent b' = eb_parent b"
    "calls (eb_trace b') = calls (eb_trace b)"
  using assms by (simp_all add: chain_frame_def)

lemma chain_frame_update [simp]:
  "chain_frame a (b\<lparr>eb_chains := x\<rparr>) = chain_frame a b"
  "chain_frame a (b\<lparr>last_with_datap := k\<rparr>) = chain_frame a b"
  "chain_frame a (b\<lparr>total_len := k\<rparr>) = chain_frame a b"
  "chain_frame a (free_chains chs b) = chain_frame a b"
  by (simp_all add: chain_frame_def emit_def free_chains_def)

section \<open>Basic consequences of the invariant\<close>

lemma evbuffer_okD:
  assumes "evbuffer_ok b"
  shows "\<forall>ch\<in>set (eb_chains b). chain_ok ch" "total_len b = chains_len (eb_chains b)"
    "total_len b < SIZE_MOD" "lwd_ok (eb_chains b) (last_with_datap b)"
  using assms by (simp_all add: evbuffer_ok_def)

lemma evbuffer_new_ok: "evbuffer_ok evbuffer_new \<and> no_spare evbuffer_new \<and> contents evbuffer_new = []"
  by (simp add: evbuffer_ok_def no_spare_def contents_def evbuffer_new_def lwd_ok_def SIZE_MOD_def)

lemma length_contents: "evbuffer_ok b \<Longrightarrow> length (contents b) = total_len b"
  by (simp add: evbuffer_ok_def contents_def)

lemma contents_empty_iff: "evbuffer_ok b \<Longrightarrow> contents b = [] \<longleftrightarrow> total_len b = 0"
  using length_contents [of b] by auto

lemma lwd_ok_after:
  "lwd_ok chs k \<Longrightarrow> i < length chs \<Longrightarrow> k < i \<Longrightarrow> ch_off (chs ! i) = 0"
proof -
  assume ok: "lwd_ok chs k" and i: "i < length chs" "k < i"
  then have "chs ! i = drop (Suc k) chs ! (i - Suc k)" by simp
  also from i have "\<dots> \<in> set (drop (Suc k) chs)" by (intro nth_mem) simp
  finally show ?thesis using ok i by (auto simp: lwd_ok_def split: if_splits)
qed

lemma skip_used_le: "skip_used chs \<le> length chs"
  by (induction chs) auto

lemma skip_used_victim:
  "skip_used chs < length chs
   \<Longrightarrow> ch_off (chs ! skip_used chs) = 0 \<and> \<not> CHAIN_PINNED (chs ! skip_used chs)"
  by (induction chs) auto

lemma first_victim_empty:
  assumes "lwd_ok (eb_chains b) (last_with_datap b)"
  shows "\<forall>ch\<in>set (drop (first_victim b) (eb_chains b)). ch_off ch = 0"
proof
  fix ch
  assume "ch \<in> set (drop (first_victim b) (eb_chains b))"
  then obtain j where j: "j < length (eb_chains b) - first_victim b"
    and ch: "ch = drop (first_victim b) (eb_chains b) ! j"
    by (auto simp: in_set_conv_nth)
  let ?i = "first_victim b + j" and ?k = "last_with_datap b"
  from j ch have i: "?i < length (eb_chains b)" and chi: "ch = eb_chains b ! ?i" by auto
  have ge: "?k \<le> first_victim b" by (simp add: first_victim_def)
  show "ch_off ch = 0"
  proof (cases "?k < ?i")
    case True
    with assms i chi show ?thesis by (simp add: lwd_ok_after)
  next
    case False
    with ge have j0: "j = 0" "first_victim b = ?k" by auto
    then have "skip_used (drop ?k (eb_chains b)) = 0" by (simp add: first_victim_def)
    moreover from i j0 have k: "?k < length (eb_chains b)" by simp
    ultimately have "ch_off (drop ?k (eb_chains b) ! 0) = 0"
      using skip_used_victim [of "drop ?k (eb_chains b)"] by simp
    with chi j0 k show ?thesis by simp
  qed
qed

section \<open>Insertion keeps the invariant\<close>

lemma lwd_ok_Cons_cong:
  "lwd_ok (c # chs) k \<Longrightarrow> lwd_ok (c' # chs) k"
  by (cases k) (auto simp: lwd_ok_def)

lemma lwd_ok_append:
  assumes "lwd_ok chs k" and "chs \<noteq> []"
  shows "lwd_ok (chs @ [ch]) (if ch_off ch \<noteq> 0 then length chs else k)"
  using assms by (auto simp: lwd_ok_def nth_append)

lemma lwd_ok_replace:
  assumes ok: "lwd_ok chs k" and kv: "k \<le> v" "v < length chs"
    and v: "ch_off (chs ! v) = 0" and sp: "Suc k = length chs \<or> ch_off ch = 0"
  shows "lwd_ok (take v chs @ [ch]) k"
proof -
  have "\<forall>c\<in>set (drop (Suc k) (take v chs @ [ch])). ch_off c = 0"
  proof (cases "Suc k = length chs")
    case True
    with kv have "v = k" by simp
    then show ?thesis using kv by simp
  next
    case False
    then have "set (drop (Suc k) (take v chs)) \<subseteq> set (drop (Suc k) chs)"
      by (metis drop_take set_take_subset)
    with ok sp False kv show ?thesis by (auto simp: lwd_ok_def drop_Cons' split: if_splits)
  qed
  moreover have "k = 0 \<or> ch_off ((take v chs @ [ch]) ! k) \<noteq> 0"
    using ok kv v by (cases "k = v") (auto simp: lwd_ok_def nth_append split: if_splits)
  ultimately show ?thesis using kv by (simp add: lwd_ok_def)
qed

text \<open>
  A chain can be inserted when it is empty or when no empty chain follows the last one with data;
  its bytes come after all others.
\<close>

lemma chain_insert_runs:
  assumes ok: "evbuffer_ok b" and ch: "chain_ok ch" and sz: "total_len b + ch_off ch < SIZE_MOD"
    and sp: "no_spare b \<or> ch_off ch = 0"
  shows "runs (evbuffer_chain_insert b ch)
     (\<lambda>b'. evbuffer_ok b' \<and> contents b' = contents b @ chain_data ch \<and> chain_frame b b'
         \<and> eb_chains b' \<noteq> [] \<and> last (eb_chains b') = ch \<and> (ch_off ch \<noteq> 0 \<longrightarrow> no_spare b'))"
proof -
  let ?chs = "eb_chains b" and ?k = "last_with_datap b" and ?v = "first_victim b"
  note okD = evbuffer_okD [OF ok]
  show ?thesis
  proof (cases "?chs = []")
    case True
    with okD ch sz show ?thesis
      by (simp add: evbuffer_chain_insert_def evbuffer_ok_def lwd_ok_def no_spare_def contents_def
          addz_exact)
  next
    case False
    with okD have k: "?k < length ?chs" by (simp add: lwd_ok_def)
    have kv: "?k \<le> ?v" by (simp add: first_victim_def)
    show ?thesis
    proof (cases "?v < length ?chs")
      case False
      with k okD ch sz lwd_ok_append [OF okD(4) \<open>?chs \<noteq> []\<close>, of ch] show ?thesis
        by (simp add: evbuffer_chain_insert_def evbuffer_ok_def no_spare_def contents_def addz_exact)
    next
      case True
      have emp: "\<forall>c\<in>set (drop ?v ?chs). ch_off c = 0"
        by (rule first_victim_empty [OF okD(4)])
      then have v0: "ch_off (?chs ! ?v) = 0"
        using True by (metis drop_eq_Nil hd_drop_conv_nth hd_in_set not_le)
      have data: "chains_data ?chs = chains_data (take ?v ?chs)"
        using emp chains_data_simps(3) [of "take ?v ?chs" "drop ?v ?chs"]
        by (simp add: chains_data_all_empty)
      have len: "chains_len ?chs = chains_len (take ?v ?chs)"
        using emp chains_len_simps(3) [of "take ?v ?chs" "drop ?v ?chs"] by simp
      have sp': "Suc ?k = length ?chs \<or> ch_off ch = 0"
        using sp \<open>?chs \<noteq> []\<close> by (auto simp: no_spare_def)
      have lw: "lwd_ok (take ?v ?chs @ [ch]) ?k"
        by (rule lwd_ok_replace [OF okD(4) kv True v0 sp'])
      have oks: "\<forall>c\<in>set (take ?v ?chs). chain_ok c"
        using okD(1) by (meson in_set_takeD)
      have ns: "ch_off ch \<noteq> 0 \<longrightarrow> Suc ?k = length (take ?v ?chs @ [ch])"
        using sp' kv True by auto
      have "evbuffer_chain_insert b ch
          = Inr (free_chains (drop ?v ?chs) (b\<lparr>eb_chains := take ?v ?chs @ [ch]\<rparr>)
                 \<lparr>total_len := total_len b + ch_off ch\<rparr>)"
        using k True emp sz by (simp add: evbuffer_chain_insert_def addz_exact Let_def)
      then show ?thesis
        using okD(2,3) ch sz data len lw oks ns
        by (simp add: evbuffer_ok_def no_spare_def contents_def)
    qed
  qed
qed

end
