(* ===== verification/Evbuffer_Add.thy ===== *)
theory Evbuffer_Add
  imports Evbuffer_Base
begin

text \<open>
  Adding bytes to a buffer: \<open>evbuffer_add\<close>, \<open>evbuffer_prepend\<close> and \<open>evbuffer_add_reference\<close> of
  \<open>buffer.c\<close>. The results are the C return value and the new buffer. The lemmas say that under the
  invariant no assertion fails and no copy leaves a chain, and which bytes the buffer then holds.
\<close>

section \<open>The operations\<close>

definition count_added :: "nat \<Rightarrow> evbuffer \<Rightarrow> evbuffer" where
  "count_added n buf = buf\<lparr>n_add_for_cb := addz (n_add_for_cb buf) n\<rparr>"

definition set_last_chain :: "chain \<Rightarrow> evbuffer \<Rightarrow> evbuffer" where
  "set_last_chain ch buf = buf\<lparr>eb_chains := butlast (eb_chains buf) @ [ch]\<rparr>"

definition grow_total :: "nat \<Rightarrow> evbuffer \<Rightarrow> evbuffer" where
  "grow_total n buf = buf\<lparr>total_len := addz (total_len buf) n\<rparr>"

text \<open>The free space of the last chain that \<open>evbuffer_add\<close> can use.\<close>

definition chain_remain :: "chain \<Rightarrow> nat" where
  "chain_remain ch =
     (if EVBUFFER_IMMUTABLE \<notin> ch_flags ch then ch_buffer_len ch - ch_misalign ch - ch_off ch else 0)"

text \<open>How big the next chain will be.\<close>

definition next_chain_size :: "chain \<Rightarrow> nat \<Rightarrow> nat" where
  "next_chain_size ch datlen =
     (let to_alloc = ch_buffer_len ch;
          to_alloc = (if to_alloc \<le> EVBUFFER_CHAIN_MAX_AUTO_SIZE div 2 then 2 * to_alloc else to_alloc)
      in if datlen > to_alloc then datlen else to_alloc)"

text \<open>The third way of \<open>evbuffer_add\<close>: fill the last chain and put the rest into a new one.\<close>

definition add_in_new_chain :: "allocator \<Rightarrow> evbuffer \<Rightarrow> byte list \<Rightarrow> (int \<times> evbuffer) exec" where
  "add_in_new_chain mm_malloc buf data =
     (let ch = last (eb_chains buf); datlen = length data; remain = chain_remain ch in
      bindE (evbuffer_chain_new mm_malloc (next_chain_size ch datlen))
        (\<lambda>r. case r of
           None \<Rightarrow> Inr (-1, buf)
         | Some tmp \<Rightarrow>
             let buf = (if remain \<noteq> 0
                        then count_added remain
                               (grow_total remain
                                 (set_last_chain (chain_append (take remain data) ch) buf))
                        else buf);
                 tmp = chain_append (drop remain data) tmp
             in bindE (evbuffer_chain_insert buf tmp)
                  (\<lambda>buf. Inr (0, evbuffer_invoke_callbacks (count_added (datlen - remain) buf)))))"

text \<open>The part of \<open>evbuffer_add\<close> after it has made sure that there is a last chain.\<close>

definition evbuffer_add_last :: "allocator \<Rightarrow> evbuffer \<Rightarrow> byte list \<Rightarrow> (int \<times> evbuffer) exec" where
  "evbuffer_add_last mm_malloc buf data =
     (let ch = last (eb_chains buf); datlen = length data in
      if EVBUFFER_IMMUTABLE \<notin> ch_flags ch \<and> datlen \<le> chain_remain ch
      then Inr (0, evbuffer_invoke_callbacks
                     (count_added datlen
                       (grow_total datlen (set_last_chain (chain_append data ch) buf))))
      else if EVBUFFER_IMMUTABLE \<notin> ch_flags ch \<and> \<not> CHAIN_PINNED ch
              \<and> evbuffer_chain_should_realign ch datlen
      then bindE (evbuffer_chain_align ch)
             (\<lambda>ch. Inr (0, evbuffer_invoke_callbacks
                             (count_added datlen
                               (grow_total datlen (set_last_chain (chain_append data ch) buf)))))
      else add_in_new_chain mm_malloc buf data)"

text \<open>\<open>chain == NULL\<close>: a first chain for \<open>datlen\<close> bytes; \<open>None\<close> if there is no memory.\<close>

definition ensure_first_chain :: "allocator \<Rightarrow> evbuffer \<Rightarrow> nat \<Rightarrow> evbuffer option exec" where
  "ensure_first_chain mm_malloc buf datlen =
     (if eb_chains buf = []
      then bindE (evbuffer_chain_new mm_malloc datlen)
             (\<lambda>r. case r of
                None \<Rightarrow> Inr None
              | Some ch \<Rightarrow> bindE (evbuffer_chain_insert buf ch) (\<lambda>buf. Inr (Some buf)))
      else Inr (Some buf))"

definition evbuffer_add :: "allocator \<Rightarrow> evbuffer \<Rightarrow> byte list \<Rightarrow> (int \<times> evbuffer) exec" where
  "evbuffer_add mm_malloc buf data =
     (if freeze_end buf then Inr (-1, buf)
      else bindE (ensure_first_chain mm_malloc buf (length data))
             (\<lambda>r. case r of
                None \<Rightarrow> Inr (-1, buf)
              | Some buf \<Rightarrow> evbuffer_add_last mm_malloc buf data))"

definition set_first_chain :: "chain \<Rightarrow> evbuffer \<Rightarrow> evbuffer" where
  "set_first_chain ch buf = buf\<lparr>eb_chains := ch # tl (eb_chains buf)\<rparr>"

text \<open>
  The part of \<open>evbuffer_prepend\<close> after it has made sure that there is a first chain. A new first
  chain moves every other chain, so also the one \<open>last_with_datap\<close> leads to, by one position.
\<close>

definition prepend_new_chain ::
    "allocator \<Rightarrow> evbuffer \<Rightarrow> byte list \<Rightarrow> (int \<times> evbuffer) exec" where
  "prepend_new_chain mm_malloc buf data =
     (let ch = hd (eb_chains buf); datlen = length data in
      bindE (evbuffer_chain_new mm_malloc datlen)
        (\<lambda>r. case r of
           None \<Rightarrow> Inr (-1, buf)
         | Some tmp \<Rightarrow>
             let tmp = tmp\<lparr>ch_off := datlen, ch_misalign := ch_buffer_len tmp - datlen\<rparr>;
                 tmp = tmp\<lparr>ch_buffer := mem_write (ch_misalign tmp) data (ch_buffer tmp)\<rparr>
             in Inr (0, evbuffer_invoke_callbacks
                          (count_added (ch_misalign ch)
                            (grow_total datlen
                              (buf\<lparr>eb_chains := tmp # eb_chains buf,
                                   last_with_datap := Suc (last_with_datap buf)\<rparr>))))))"

definition evbuffer_prepend_first ::
    "allocator \<Rightarrow> evbuffer \<Rightarrow> byte list \<Rightarrow> (int \<times> evbuffer) exec" where
  "evbuffer_prepend_first mm_malloc buf data =
     (let ch = hd (eb_chains buf); datlen = length data in
      if EVBUFFER_IMMUTABLE \<notin> ch_flags ch
      then let ch = (if ch_off ch = 0 then ch\<lparr>ch_misalign := ch_buffer_len ch\<rparr> else ch);
               m = ch_misalign ch
           in if datlen \<le> m
              then Inr (0, evbuffer_invoke_callbacks
                             (count_added datlen
                               (grow_total datlen (set_first_chain (chain_push data ch) buf))))
              else if m \<noteq> 0
              then prepend_new_chain mm_malloc
                     (count_added m
                       (grow_total m
                         (set_first_chain (chain_push (drop (datlen - m) data) ch) buf)))
                     (take (datlen - m) data)
              else prepend_new_chain mm_malloc (set_first_chain ch buf) data
      else prepend_new_chain mm_malloc buf data)"

definition evbuffer_prepend :: "allocator \<Rightarrow> evbuffer \<Rightarrow> byte list \<Rightarrow> (int \<times> evbuffer) exec" where
  "evbuffer_prepend mm_malloc buf data =
     (if freeze_start buf then Inr (-1, buf)
      else bindE (ensure_first_chain mm_malloc buf (length data))
             (\<lambda>r. case r of
                None \<Rightarrow> Inr (-1, buf)
              | Some buf \<Rightarrow> evbuffer_prepend_first mm_malloc buf data))"

text \<open>
  \<open>data\<close> lies at the address \<open>daddr\<close>; \<open>cleanupfn\<close> is \<open>None\<close> for a null cleanup function.
  \<open>sizeof(struct evbuffer_chain_reference)\<close> is 8.
\<close>

definition evbuffer_add_reference ::
    "allocator \<Rightarrow> evbuffer \<Rightarrow> nat \<Rightarrow> byte list \<Rightarrow> nat option \<Rightarrow> (int \<times> evbuffer) exec" where
  "evbuffer_add_reference mm_malloc outbuf daddr data cleanupfn =
     bindE (evbuffer_chain_new mm_malloc 8)
       (\<lambda>r. case r of
          None \<Rightarrow> Inr (-1, outbuf)
        | Some ch \<Rightarrow>
            let ch = ch\<lparr>ch_flags := ch_flags ch \<union> {EVBUFFER_REFERENCE, EVBUFFER_IMMUTABLE},
                        ch_addr := daddr, ch_buffer := data, ch_buffer_len := length data,
                        ch_off := length data, ch_cleanup := cleanupfn\<rparr>
            in if freeze_end outbuf
               then Inr (-1, emit [Freed (Mm_Free (ch_addr ch))] outbuf)
               else bindE (evbuffer_chain_insert outbuf ch)
                      (\<lambda>outbuf. Inr (0, evbuffer_invoke_callbacks (count_added (length data) outbuf))))"

section \<open>Appending\<close>

text \<open>The result of an operation that appended \<open>bs\<close> and has not yet run the callbacks.\<close>

definition appended :: "evbuffer \<Rightarrow> byte list \<Rightarrow> evbuffer \<Rightarrow> bool" where
  "appended b bs c \<longleftrightarrow> evbuffer_ok c \<and> no_spare c \<and> contents c = contents b @ bs"

lemma count_added_simps [simp]:
  "eb_chains (count_added n b) = eb_chains b" "total_len (count_added n b) = total_len b"
  "last_with_datap (count_added n b) = last_with_datap b"
  "evbuffer_ok (count_added n b) = evbuffer_ok b" "no_spare (count_added n b) = no_spare b"
  "contents (count_added n b) = contents b" "appended b' bs (count_added n b) = appended b' bs b"
  "n_add_for_cb (count_added n b) = addz (n_add_for_cb b) n"
  "n_del_for_cb (count_added n b) = n_del_for_cb b" "callbacks (count_added n b) = callbacks b"
  "freeze_start (count_added n b) = freeze_start b" "freeze_end (count_added n b) = freeze_end b"
  by (simp_all add: count_added_def appended_def)

lemma count_added_add: "count_added n (count_added m b) = count_added (m + n) b"
  by (simp add: count_added_def addz_addz)

lemma set_last_append:
  assumes ok: "evbuffer_ok b" "no_spare b" "eb_chains b \<noteq> []"
    and ch': "chain_ok ch'" "chain_data ch' = chain_data (last (eb_chains b)) @ bs"
      "ch_off ch' = ch_off (last (eb_chains b)) + length bs"
    and sz: "total_len b + length bs < SIZE_MOD"
  shows "appended b bs (grow_total (length bs) (set_last_chain ch' b))"
proof -
  let ?chs = "eb_chains b"
  obtain xs where xs: "?chs = xs @ [last ?chs]" using ok(3) by (metis append_butlast_last_id)
  from ok(2,3) have k: "Suc (last_with_datap b) = length ?chs" by (simp add: no_spare_def)
  note okD = evbuffer_okD [OF ok(1)]
  have bl: "butlast ?chs = xs" using xs by (metis butlast_snoc)
  have k': "last_with_datap b = length xs" using k xs by (metis diff_Suc_1 length_append_singleton)
  have nth: "?chs ! length xs = last ?chs" using xs by (metis nth_append_length)
  have "lwd_ok (xs @ [ch']) (length xs)"
    using okD(4) ok(3) nth k' ch'(3) by (auto simp: lwd_ok_def)
  moreover have "\<forall>c\<in>set xs. chain_ok c" using okD(1) bl by (metis in_set_butlastD)
  moreover have "chains_len ?chs = chains_len xs + ch_off (last ?chs)"
    by (subst xs) simp
  moreover have "chains_data ?chs = chains_data xs @ chain_data (last ?chs)"
    by (subst xs) simp
  ultimately show ?thesis
    using okD(2,3) ch' sz k'
    by (simp add: appended_def evbuffer_ok_def no_spare_def contents_def grow_total_def
        set_last_chain_def bl addz_exact)
qed

lemma set_last_chain_simps [simp]:
  "eb_chains (grow_total n (set_last_chain ch b)) = butlast (eb_chains b) @ [ch]"
  "total_len (grow_total n (set_last_chain ch b)) = addz (total_len b) n"
  "last_with_datap (grow_total n (set_last_chain ch b)) = last_with_datap b"
  "chain_frame a (grow_total n (set_last_chain ch b)) = chain_frame a b"
  by (simp_all add: grow_total_def set_last_chain_def)

text \<open>
  A successful append: the buffer before the callbacks is \<open>c\<close>, which holds the old bytes and then
  the new ones, and the count for the callbacks has grown by as many.
\<close>

definition appends :: "evbuffer \<Rightarrow> byte list \<Rightarrow> int \<times> evbuffer \<Rightarrow> bool" where
  "appends b bs res \<longleftrightarrow>
     (\<exists>c. res = (0, evbuffer_invoke_callbacks c) \<and> appended b bs c
          \<and> chain_frame (count_added (length bs) b) c)"

lemma appends_ok:
  "appends b bs (r, b') \<Longrightarrow> r = 0 \<and> evbuffer_ok b' \<and> no_spare b' \<and> contents b' = contents b @ bs"
  by (auto simp: appends_def appended_def)

lemma frame_count_added: "chain_frame a b \<Longrightarrow> chain_frame (count_added n a) (count_added n b)"
  by (simp add: chain_frame_def count_added_def)

lemma appends_from:
  assumes "contents c = contents b" and "chain_frame b c" and "appends c bs res"
  shows "appends b bs res"
proof -
  from assms(3) obtain d where d: "res = (0, evbuffer_invoke_callbacks d)" "appended c bs d"
    "chain_frame (count_added (length bs) c) d"
    by (auto simp: appends_def)
  from frame_count_added [OF assms(2)] d(3) have "chain_frame (count_added (length bs) b) d"
    by (rule chain_frame_trans)
  with d assms(1) show ?thesis by (auto simp: appends_def appended_def)
qed

text \<open>Which of the three ways \<open>evbuffer_add\<close> takes depends on the last chain only.\<close>

lemma add_last_fits:
  assumes ok: "evbuffer_ok b" "no_spare b" "eb_chains b \<noteq> []"
    and sz: "total_len b + length data < SIZE_MOD"
    and fits: "EVBUFFER_IMMUTABLE \<notin> ch_flags (last (eb_chains b))"
      "length data \<le> chain_remain (last (eb_chains b))"
  shows "runs (evbuffer_add_last mm_malloc b data) (appends b data)"
proof -
  let ?l = "last (eb_chains b)"
  have lok: "chain_ok ?l" using ok by (simp add: evbuffer_ok_def)
  then have len: "ch_misalign ?l + ch_off ?l + length data \<le> ch_buffer_len ?l"
    using fits by (auto simp: chain_ok_def chain_remain_def)
  have "appended b data (grow_total (length data) (set_last_chain (chain_append data ?l) b))"
    using lok len by (intro set_last_append ok sz chain_append_ok chain_append_data) simp_all
  then show ?thesis
    using fits by (auto simp: evbuffer_add_last_def Let_def appends_def intro!: frame_count_added)
qed

lemma add_last_realigns:
  assumes ok: "evbuffer_ok b" "no_spare b" "eb_chains b \<noteq> []"
    and sz: "total_len b + length data < SIZE_MOD"
    and mut: "EVBUFFER_IMMUTABLE \<notin> ch_flags (last (eb_chains b))"
    and small: "\<not> length data \<le> chain_remain (last (eb_chains b))"
    and re: "\<not> CHAIN_PINNED (last (eb_chains b))"
      "evbuffer_chain_should_realign (last (eb_chains b)) (length data)"
  shows "runs (evbuffer_add_last mm_malloc b data) (appends b data)"
proof -
  let ?l = "last (eb_chains b)"
  have lok: "chain_ok ?l" using ok by (simp add: evbuffer_ok_def)
  from chain_align_runs [OF lok mut re(1)] obtain l' where al: "evbuffer_chain_align ?l = Inr l'"
    and l': "chain_ok l'" "chain_data l' = chain_data ?l" "ch_misalign l' = 0"
      "ch_off l' = ch_off ?l" "ch_buffer_len l' = ch_buffer_len ?l"
    by (auto elim: runsE)
  have "ch_misalign l' + ch_off l' + length data \<le> ch_buffer_len l'"
    using re(2) l' lok by (auto simp: evbuffer_chain_should_realign_def chain_ok_def)
  then have "appended b data (grow_total (length data) (set_last_chain (chain_append data l') b))"
    using l' by (intro set_last_append ok sz chain_append_ok) (simp_all add: chain_append_data)
  then show ?thesis
    using mut small re al
    by (auto simp: evbuffer_add_last_def Let_def appends_def intro!: frame_count_added)
qed

lemma next_chain_size_bounds:
  "chain_ok ch \<Longrightarrow> n \<le> CHAIN_MAX \<Longrightarrow> n \<le> next_chain_size ch n \<and> next_chain_size ch n \<le> CHAIN_MAX"
  by (auto simp: next_chain_size_def Let_def chain_ok_def EVBUFFER_CHAIN_MAX_AUTO_SIZE_def
      CHAIN_MAX_def EVBUFFER_CHAIN_SIZE_def)

text \<open>Filling the last chain with as many of the bytes as it takes.\<close>

lemma fill_last_chain:
  assumes ok: "evbuffer_ok b" "no_spare b" "eb_chains b \<noteq> []"
    and sz: "total_len b + n < SIZE_MOD" and n: "n = length bs" "n \<le> chain_remain (last (eb_chains b))"
  shows "appended b bs (if n \<noteq> 0 then count_added n
           (grow_total n (set_last_chain (chain_append bs (last (eb_chains b))) b)) else b)"
proof (cases "n = 0")
  case True
  with ok n show ?thesis by (simp add: appended_def)
next
  case False
  let ?l = "last (eb_chains b)"
  have lok: "chain_ok ?l" using ok by (simp add: evbuffer_ok_def)
  with n False have "ch_misalign ?l + ch_off ?l + length bs \<le> ch_buffer_len ?l"
    by (auto simp: chain_remain_def chain_ok_def split: if_splits)
  with lok sz n have "appended b bs (grow_total (length bs) (set_last_chain (chain_append bs ?l) b))"
    by (intro set_last_append ok chain_append_ok chain_append_data) simp_all
  with False n show ?thesis by simp
qed

lemma add_in_new_chain_runs:
  assumes m: "malloc_ok mm_malloc" and ok: "evbuffer_ok b" "no_spare b" "eb_chains b \<noteq> []"
    and sz: "total_len b + length data < SIZE_MOD" "length data \<le> CHAIN_MAX"
    and nofit: "chain_remain (last (eb_chains b)) < length data"
  shows "runs (add_in_new_chain mm_malloc b data) (\<lambda>res. res = (-1, b) \<and> out_of_memory mm_malloc \<or> appends b data res)"
proof -
  let ?l = "last (eb_chains b)"
  let ?n = "chain_remain ?l"
  define b1 where "b1 = (if ?n \<noteq> 0
      then count_added ?n (grow_total ?n (set_last_chain (chain_append (take ?n data) ?l) b)) else b)"
  define b0 where "b0 = (if ?n = 0 then b else count_added ?n b)"
  have lok: "chain_ok ?l" using ok by (simp add: evbuffer_ok_def)
  note size = next_chain_size_bounds [OF lok sz(2)]
  have b1: "appended b (take ?n data) b1"
    unfolding b1_def using ok sz nofit by (intro fill_last_chain) simp_all
  have fr: "chain_frame b0 b1"
    by (auto simp: b0_def b1_def intro!: frame_count_added)
  have step: "add_in_new_chain mm_malloc b data =
      bindE (evbuffer_chain_new mm_malloc (next_chain_size ?l (length data)))
        (\<lambda>r. case r of None \<Rightarrow> Inr (-1, b)
         | Some tmp \<Rightarrow> bindE (evbuffer_chain_insert b1 (chain_append (drop ?n data) tmp))
              (\<lambda>buf. Inr (0, evbuffer_invoke_callbacks (count_added (length data - ?n) buf))))"
    by (simp add: add_in_new_chain_def Let_def b1_def cong: option.case_cong)
  from m conjunct2 [OF size] show ?thesis
  proof (cases rule: chain_new_cases)
    case fail
    then show ?thesis by (simp add: step)
  next
    case (new tmp)
    let ?t = "chain_append (drop ?n data) tmp"
    have t: "chain_ok ?t" "chain_data ?t = drop ?n data" "ch_off ?t = length data - ?n"
      using fresh_chainD [OF new(2)] size by (auto simp: chain_append_data intro!: chain_append_ok)
    have "total_len b1 + ch_off ?t < SIZE_MOD"
      using b1 sz(1) t(3) nofit length_contents [OF ok(1)] length_contents [of b1]
      by (simp add: appended_def min_absorb2)
    from chain_insert_runs [OF _ t(1) this] b1 fr have "runs (evbuffer_chain_insert b1 ?t)
        (\<lambda>b'. appended b data b' \<and> chain_frame b0 b')"
      using nofit by (auto simp: appended_def t(2,3) elim!: runs_mono intro: chain_frame_trans [OF fr])
    moreover have "count_added (length data - ?n) b0 = count_added (length data) b"
      using nofit by (simp add: b0_def count_added_add)
    ultimately show ?thesis
      using new(1) frame_count_added [of b0 _ "length data - ?n"]
      by (auto simp: step runs_bindE appends_def elim!: runs_mono)
  qed
qed

lemma add_last_runs:
  assumes m: "malloc_ok mm_malloc" and ok: "evbuffer_ok b" "no_spare b" "eb_chains b \<noteq> []"
    and sz: "total_len b + length data < SIZE_MOD" "length data \<le> CHAIN_MAX"
    and ne: "data \<noteq> [] \<or> EVBUFFER_IMMUTABLE \<notin> ch_flags (last (eb_chains b))"
  shows "runs (evbuffer_add_last mm_malloc b data) (\<lambda>res. res = (-1, b) \<and> out_of_memory mm_malloc \<or> appends b data res)"
proof -
  let ?l = "last (eb_chains b)"
  consider (fits) "EVBUFFER_IMMUTABLE \<notin> ch_flags ?l" "length data \<le> chain_remain ?l"
    | (realign) "EVBUFFER_IMMUTABLE \<notin> ch_flags ?l" "\<not> length data \<le> chain_remain ?l"
        "\<not> CHAIN_PINNED ?l" "evbuffer_chain_should_realign ?l (length data)"
    | (new) "\<not> (EVBUFFER_IMMUTABLE \<notin> ch_flags ?l \<and> length data \<le> chain_remain ?l)"
        "\<not> (EVBUFFER_IMMUTABLE \<notin> ch_flags ?l \<and> \<not> CHAIN_PINNED ?l
            \<and> evbuffer_chain_should_realign ?l (length data))"
    by blast
  then show ?thesis
  proof cases
    case fits
    from add_last_fits [OF ok sz(1) this] show ?thesis by (rule runs_mono) simp
  next
    case realign
    from add_last_realigns [OF ok sz(1) this] show ?thesis by (rule runs_mono) simp
  next
    case new
    then have "evbuffer_add_last mm_malloc b data = add_in_new_chain mm_malloc b data"
      by (simp only: evbuffer_add_last_def Let_def if_False)
    moreover have "chain_remain ?l < length data"
      using new(1) ne by (cases "EVBUFFER_IMMUTABLE \<in> ch_flags ?l") (simp_all add: chain_remain_def)
    ultimately show ?thesis using add_in_new_chain_runs [OF m ok sz] by simp
  qed
qed

text \<open>A first chain where there was none; nothing else changes.\<close>

lemma ensure_first_chain_runs:
  assumes m: "malloc_ok mm_malloc" and ok: "evbuffer_ok b" and n: "n \<le> CHAIN_MAX"
  shows "runs (ensure_first_chain mm_malloc b n)
     (\<lambda>r. (r = None \<longrightarrow> out_of_memory mm_malloc) \<and> (\<forall>c. r = Some c \<longrightarrow> evbuffer_ok c \<and> contents c = contents b \<and> chain_frame b c
        \<and> eb_chains c \<noteq> [] \<and> (no_spare b \<longrightarrow> no_spare c) \<and> total_len c = total_len b
        \<and> (if eb_chains b = [] then \<exists>ch. eb_chains c = [ch] \<and> fresh_chain n ch else c = b)))"
proof (cases "eb_chains b = []")
  case False
  with ok show ?thesis by (simp add: ensure_first_chain_def)
next
  case True
  from m n show ?thesis
  proof (cases rule: chain_new_cases)
    case fail
    with True show ?thesis by (simp add: ensure_first_chain_def)
  next
    case (new ch)
    note f = fresh_chainD [OF new(2)]
    have ins: "evbuffer_chain_insert b ch = Inr (b\<lparr>eb_chains := [ch], total_len := total_len b\<rparr>)"
      using True evbuffer_okD [OF ok] f
      by (simp add: evbuffer_chain_insert_def lwd_ok_def addz_0_right)
    then show ?thesis
      using True new f ok
      by (simp add: ensure_first_chain_def evbuffer_ok_def lwd_ok_def no_spare_def contents_def)
  qed
qed

text \<open>
  \<open>evbuffer_add\<close>: all of the bytes at the end, or -1 and nothing changed when there is no memory.
\<close>

lemma evbuffer_add_runs:
  assumes m: "malloc_ok mm_malloc" and ok: "evbuffer_ok b" "no_spare b" and fr: "\<not> freeze_end b"
    and sz: "total_len b + length data < SIZE_MOD" "length data \<le> CHAIN_MAX"
    and ne: "data \<noteq> [] \<or> eb_chains b = [] \<or> EVBUFFER_IMMUTABLE \<notin> ch_flags (last (eb_chains b))"
  shows "runs (evbuffer_add mm_malloc b data) (\<lambda>res. res = (-1, b) \<and> out_of_memory mm_malloc \<or> appends b data res)"
proof (cases "eb_chains b = []")
  case False
  with fr ne add_last_runs [OF m ok False sz] show ?thesis
    by (simp add: evbuffer_add_def ensure_first_chain_def)
next
  case True
  from ensure_first_chain_runs [OF m ok(1) sz(2)]
  show ?thesis
    unfolding evbuffer_add_def using fr
  proof (simp, elim runs_bindI, clarsimp split: option.split)
    fix c
    assume c: "evbuffer_ok c" "contents c = contents b" "chain_frame b c" "no_spare b \<longrightarrow> no_spare c"
      "total_len c = total_len b" and
      ch: "if eb_chains b = [] then \<exists>ch. eb_chains c = [ch] \<and> fresh_chain (length data) ch else c = b"
    from ch True obtain ch where ch: "eb_chains c = [ch]" "fresh_chain (length data) ch" by auto
    note f = fresh_chainD [OF ch(2)]
    have "runs (evbuffer_add_last mm_malloc c data) (appends c data)"
      using c ch ok sz f by (intro add_last_fits) (simp_all add: chain_remain_def)
    then show "runs (evbuffer_add_last mm_malloc c data) (\<lambda>res. res = (-1, b) \<and> out_of_memory mm_malloc \<or> appends b data res)"
      by (rule runs_mono) (simp add: appends_from [OF c(2,3)])
  qed
qed

section \<open>Prepending\<close>

lemma set_first_push:
  assumes ok: "evbuffer_ok b" and chs: "eb_chains b = c # rest"
    and ch': "chain_ok ch'" "chain_data ch' = bs @ chain_data c" "ch_off ch' = ch_off c + length bs"
    and sz: "total_len b + length bs < SIZE_MOD"
  shows "evbuffer_ok (grow_total (length bs) (set_first_chain ch' b))"
    and "contents (grow_total (length bs) (set_first_chain ch' b)) = bs @ contents b"
proof -
  from evbuffer_okD(4) [OF ok] chs have "lwd_ok (ch' # rest) (last_with_datap b)"
    by (auto intro: lwd_ok_Cons_cong)
  then show "evbuffer_ok (grow_total (length bs) (set_first_chain ch' b))"
    using evbuffer_okD [OF ok] chs ch' sz
    by (simp add: evbuffer_ok_def grow_total_def set_first_chain_def addz_exact)
  show "contents (grow_total (length bs) (set_first_chain ch' b)) = bs @ contents b"
    using chs ch' by (simp add: contents_def grow_total_def set_first_chain_def)
qed

lemma set_first_chain_simps [simp]:
  "eb_chains (set_first_chain ch b) = ch # tl (eb_chains b)"
  "last_with_datap (set_first_chain ch b) = last_with_datap b"
  "total_len (set_first_chain ch b) = total_len b"
  "eb_chains (grow_total n b) = eb_chains b"
  "last_with_datap (grow_total n b) = last_with_datap b"
  "total_len (grow_total n b) = addz (total_len b) n"
  by (simp_all add: grow_total_def set_first_chain_def)

lemma no_spare_set_first [simp]:
  "eb_chains b \<noteq> [] \<Longrightarrow> no_spare (set_first_chain ch b) = no_spare b"
  "no_spare (grow_total n b) = no_spare b"
  by (simp_all add: no_spare_def)

text \<open>Where \<open>last_with_datap\<close> leads to a chain with data, a new first chain keeps the invariant.\<close>

definition prepends :: "allocator \<Rightarrow> evbuffer \<Rightarrow> byte list \<Rightarrow> int \<times> evbuffer \<Rightarrow> bool" where
  "prepends mm_malloc b data res \<longleftrightarrow>
     (case res of (r, b') \<Rightarrow>
        evbuffer_ok b' \<and> (no_spare b \<longrightarrow> no_spare b')
        \<and> (if r = 0 then contents b' = data @ contents b
           else r = -1 \<and> out_of_memory mm_malloc \<and> (\<exists>pre suf. data = pre @ suf \<and> contents b' = suf @ contents b)))"

lemma prepend_new_chain_runs:
  assumes m: "malloc_ok mm_malloc" and ok: "evbuffer_ok b" "eb_chains b \<noteq> []"
    and lwd: "ch_off (eb_chains b ! last_with_datap b) \<noteq> 0"
    and sz: "total_len b + length data < SIZE_MOD" "length data \<le> CHAIN_MAX"
  shows "runs (prepend_new_chain mm_malloc b data) (prepends mm_malloc b data)"
  using m sz(2)
proof (cases rule: chain_new_cases)
  case fail
  with ok show ?thesis by (auto simp: prepend_new_chain_def Let_def prepends_def)
next
  case (new tmp)
  note f = fresh_chainD [OF new(2)]
  let ?mis = "ch_buffer_len tmp - length data"
  let ?t = "tmp\<lparr>ch_off := length data, ch_misalign := ?mis,
                ch_buffer := mem_write ?mis data (ch_buffer tmp)\<rparr>"
  from f(1,2) have len: "length (mem_write ?mis data (ch_buffer tmp)) = ch_buffer_len tmp"
    by (simp add: chain_ok_def mem_simps)
  have t: "chain_ok ?t" "chain_data ?t = data"
    using f len mem_read_append [of ?mis 0 "ch_buffer tmp" data]
    by (simp_all add: chain_ok_def chain_data_def)
  have "lwd_ok (?t # eb_chains b) (Suc (last_with_datap b))"
    using evbuffer_okD(4) [OF ok(1)] ok(2) lwd by (simp add: lwd_ok_def)
  then show ?thesis
    using new(1) evbuffer_okD [OF ok(1)] ok(2) sz t
    by (simp add: prepend_new_chain_def Let_def prepends_def evbuffer_ok_def no_spare_def contents_def
        addz_exact)
qed

lemma prepends_from:
  assumes "contents c = suf @ contents b" and "no_spare b \<longrightarrow> no_spare c" and "prepends m c pre res"
  shows "prepends m b (pre @ suf) res"
  using assms by (auto simp: prepends_def split: prod.splits if_splits)

lemma prepend_first_runs:
  assumes m: "malloc_ok mm_malloc" and ok: "evbuffer_ok b" "eb_chains b \<noteq> []"
    and sz: "total_len b + length data < SIZE_MOD" "length data \<le> CHAIN_MAX"
  shows "runs (evbuffer_prepend_first mm_malloc b data) (prepends mm_malloc b data)"
proof -
  obtain c rest where chs: "eb_chains b = c # rest" using ok(2) by (cases "eb_chains b") auto
  have cok: "chain_ok c" using ok chs by (simp add: evbuffer_ok_def)
  have nth: "last_with_datap b \<noteq> 0 \<Longrightarrow> ch_off (eb_chains b ! last_with_datap b) \<noteq> 0"
    using evbuffer_okD(4) [OF ok(1)] ok(2) by (simp add: lwd_ok_def)
  show ?thesis
  proof (cases "EVBUFFER_IMMUTABLE \<in> ch_flags c")
    case True
    then have "ch_off (eb_chains b ! last_with_datap b) \<noteq> 0"
      using nth chs cok by (cases "last_with_datap b") (auto simp: chain_ok_def)
    from prepend_new_chain_runs [OF m ok this sz] True chs show ?thesis
      by (simp add: evbuffer_prepend_first_def)
  next
    case mut: False
    define c1 where "c1 = (if ch_off c = 0 then c\<lparr>ch_misalign := ch_buffer_len c\<rparr> else c)"
    let ?m = "ch_misalign c1"
    have c1: "chain_ok c1" "chain_data c1 = chain_data c" "ch_off c1 = ch_off c"
      "ch_off c1 \<noteq> 0 \<or> 0 < ?m" using cok mut by (auto simp: c1_def chain_ok_def)
    have step: "evbuffer_prepend_first mm_malloc b data =
       (if length data \<le> ?m
        then Inr (0, evbuffer_invoke_callbacks (count_added (length data)
               (grow_total (length data) (set_first_chain (chain_push data c1) b))))
        else if ?m \<noteq> 0
        then prepend_new_chain mm_malloc
               (count_added ?m (grow_total ?m
                 (set_first_chain (chain_push (drop (length data - ?m) data) c1) b)))
               (take (length data - ?m) data)
        else prepend_new_chain mm_malloc (set_first_chain c1 b) data)"
      using chs mut by (simp only: evbuffer_prepend_first_def Let_def list.sel if_True c1_def not_False_eq_True)
    consider (fits) "length data \<le> ?m" | (some) "\<not> length data \<le> ?m" "?m \<noteq> 0"
      | (none) "\<not> length data \<le> ?m" "?m = 0" by blast
    then show ?thesis
    proof cases
      case fits
      with c1 chs sz(1) set_first_push [OF ok(1) chs, of "chain_push data c1" data] show ?thesis
        by (simp add: step prepends_def chain_push_ok chain_push_data ok(2))
    next
      case some
      let ?suf = "drop (length data - ?m) data" and ?pre = "take (length data - ?m) data"
      let ?b = "count_added ?m (grow_total ?m (set_first_chain (chain_push ?suf c1) b))"
      have len: "length ?suf = ?m" using some by simp
      have b: "evbuffer_ok ?b" "contents ?b = ?suf @ contents b"
        using set_first_push [OF ok(1) chs, of "chain_push ?suf c1" ?suf] c1 len sz(1) some
        by (simp_all add: chain_push_ok chain_push_data)
      have "ch_off (eb_chains ?b ! last_with_datap ?b) \<noteq> 0"
        using nth chs some len by (cases "last_with_datap b") auto
      then have "runs (prepend_new_chain mm_malloc ?b ?pre) (prepends mm_malloc ?b ?pre)"
        using b(1) m sz some by (intro prepend_new_chain_runs) (simp_all add: addz_exact)
      then have "runs (prepend_new_chain mm_malloc ?b ?pre) (prepends mm_malloc b (?pre @ ?suf))"
        by (rule runs_mono) (rule prepends_from [OF b(2)], simp_all add: ok(2))
      with some show ?thesis by (simp add: step)
    next
      case none
      then have "c1 = c" using c1(4) by (auto simp: c1_def split: if_splits)
      then have eq: "set_first_chain c1 b = b" using chs by (simp add: set_first_chain_def)
      have "ch_off (eb_chains b ! last_with_datap b) \<noteq> 0"
        using nth chs c1 none by (cases "last_with_datap b") auto
      from prepend_new_chain_runs [OF m ok this sz] none show ?thesis by (simp add: step eq)
    qed
  qed
qed

lemma evbuffer_prepend_runs:
  assumes m: "malloc_ok mm_malloc" and ok: "evbuffer_ok b" and fr: "\<not> freeze_start b"
    and sz: "total_len b + length data < SIZE_MOD" "length data \<le> CHAIN_MAX"
  shows "runs (evbuffer_prepend mm_malloc b data) (prepends mm_malloc b data)"
proof -
  have *: "runs (case r of None \<Rightarrow> Inr (-1, b) | Some c \<Rightarrow> evbuffer_prepend_first mm_malloc c data)
      (prepends mm_malloc b data)"
    if "(r = None \<longrightarrow> out_of_memory mm_malloc) \<and> (\<forall>c. r = Some c \<longrightarrow> evbuffer_ok c \<and> contents c = contents b \<and> chain_frame b c
        \<and> eb_chains c \<noteq> [] \<and> (no_spare b \<longrightarrow> no_spare c) \<and> total_len c = total_len b
        \<and> (if eb_chains b = [] then \<exists>ch. eb_chains c = [ch] \<and> fresh_chain (length data) ch else c = b))"
    for r
  proof (cases r)
    case None
    with ok that show ?thesis by (auto simp: prepends_def)
  next
    case (Some c)
    with that have c: "evbuffer_ok c" "contents c = [] @ contents b" "eb_chains c \<noteq> []"
      "no_spare b \<longrightarrow> no_spare c" "total_len c = total_len b" by auto
    with m sz have "runs (evbuffer_prepend_first mm_malloc c data) (prepends mm_malloc c data)"
      by (intro prepend_first_runs) simp_all
    then have "runs (evbuffer_prepend_first mm_malloc c data) (prepends mm_malloc b (data @ []))"
      by (rule runs_mono) (rule prepends_from [OF c(2,4)])
    with Some show ?thesis by simp
  qed
  from fr show ?thesis
    by (simp add: evbuffer_prepend_def)
      (rule runs_bindI [OF ensure_first_chain_runs [OF m ok sz(2)]], rule *)
qed

section \<open>References\<close>

text \<open>The last chain is the caller's memory, with its cleanup function.\<close>

definition refers :: "nat \<Rightarrow> byte list \<Rightarrow> nat option \<Rightarrow> evbuffer \<Rightarrow> bool" where
  "refers daddr data cleanupfn b \<longleftrightarrow>
     eb_chains b \<noteq> []
     \<and> (let ch = last (eb_chains b) in
        ch_addr ch = daddr \<and> ch_buffer ch = data \<and> ch_cleanup ch = cleanupfn
        \<and> EVBUFFER_REFERENCE \<in> ch_flags ch \<and> EVBUFFER_IMMUTABLE \<in> ch_flags ch)"

lemma evbuffer_add_reference_runs:
  assumes m: "malloc_ok mm_malloc" and ok: "evbuffer_ok b" "no_spare b" and fr: "\<not> freeze_end b"
    and sz: "total_len b + length data < SIZE_MOD" "length data \<le> CHAIN_MAX" and ne: "data \<noteq> []"
  shows "runs (evbuffer_add_reference mm_malloc b daddr data cl)
           (\<lambda>res. res = (-1, b) \<and> out_of_memory mm_malloc
                \<or> appends b data res \<and> refers daddr data cl (snd res))"
proof -
  have "(8::nat) \<le> CHAIN_MAX" by (simp add: CHAIN_MAX_def EVBUFFER_CHAIN_SIZE_def)
  from m this show ?thesis
  proof (cases rule: chain_new_cases)
    case fail
    then show ?thesis by (simp add: evbuffer_add_reference_def)
  next
    case (new tmp)
    note f = fresh_chainD [OF new(2)]
    let ?t = "tmp\<lparr>ch_flags := ch_flags tmp \<union> {EVBUFFER_REFERENCE, EVBUFFER_IMMUTABLE},
        ch_addr := daddr, ch_buffer := data, ch_buffer_len := length data,
        ch_off := length data, ch_cleanup := cl\<rparr>"
    have t: "chain_ok ?t" "chain_data ?t = data"
      using f sz(2) ne by (simp_all add: chain_ok_def chain_data_def mem_read_def)
    have "runs (evbuffer_chain_insert b ?t)
        (\<lambda>b'. appended b data b' \<and> chain_frame b b' \<and> refers daddr data cl b')"
      using chain_insert_runs [OF ok(1) t(1)] t(2) sz(1) ok(2) ne
      by (auto simp: appended_def refers_def elim!: runs_mono)
    moreover have "refers daddr data cl (evbuffer_invoke_callbacks (count_added n b'))
        = refers daddr data cl b'" for n b' by (simp add: refers_def)
    ultimately have "runs (evbuffer_chain_insert b ?t) (\<lambda>b'. appended b data b' \<and> chain_frame b b'
        \<and> refers daddr data cl (evbuffer_invoke_callbacks (count_added (length data) b')))"
      by simp
    then show ?thesis
      using new(1) fr
      by (auto simp: evbuffer_add_reference_def Let_def runs_bindE appends_def
          intro: frame_count_added elim!: runs_mono)
  qed
qed

section \<open>Properties\<close>

text \<open>
  C7: \<open>evbuffer_add\<close> on a well-formed buffer fails no assertion, leaves no memory block and returns:
  0 with exactly the new bytes behind the old ones, or -1 with nothing changed, and then only because
  an allocation failed. The invariant of the buffer is kept.
\<close>

theorem evbuffer_add_appends:
  assumes "malloc_ok mm_malloc" and "evbuffer_ok b" and "no_spare b" and "\<not> freeze_end b"
    and "total_len b + length data < SIZE_MOD" and "length data \<le> CHAIN_MAX" and "data \<noteq> []"
  shows "\<exists>r b'. evbuffer_add mm_malloc b data = Inr (r, b') \<and> evbuffer_ok b' \<and> no_spare b'
           \<and> (r = 0 \<and> contents b' = contents b @ data \<or> r = -1 \<and> b' = b \<and> out_of_memory mm_malloc)"
  using evbuffer_add_runs [OF assms(1-6)] assms(2,3,7) appends_ok
  by (auto simp: runs_iff)

theorem evbuffer_add_appends_witness:
  "\<exists>b'. evbuffer_add plain_malloc evbuffer_new [1, 2, 3] = Inr (0, b') \<and> evbuffer_ok b'
      \<and> contents b' = [1, 2, 3]"
  using evbuffer_add_appends [of plain_malloc evbuffer_new "[1, 2, 3]"] evbuffer_new_ok
  by (auto simp: evbuffer_new_def SIZE_MOD_def CHAIN_MAX_def EVBUFFER_CHAIN_SIZE_def)

text \<open>
  After a successful \<open>evbuffer_add\<close> to a buffer whose callbacks are not deferred and have been
  told of every earlier change, each enabled callback is run once, with the old size as \<open>orig_size\<close>
  and the exact number of bytes as \<open>n_added\<close>.
\<close>

theorem evbuffer_add_notifies:
  assumes "malloc_ok mm_malloc" and "evbuffer_ok b" and "no_spare b" and "\<not> freeze_end b"
    and "total_len b + length data < SIZE_MOD" and "length data \<le> CHAIN_MAX" and "data \<noteq> []"
    and "\<not> deferred_cbs b" and "n_add_for_cb b = 0" and "n_del_for_cb b = 0"
    and "evbuffer_add mm_malloc b data = Inr (0, b')"
  shows "calls (eb_trace b') = calls (eb_trace b) @ told (total_len b) (length data) 0 (callbacks b)"
proof -
  have "appends b data (0, b')"
    using evbuffer_add_runs [OF assms(1-6)] assms(7,11) by simp
  then obtain c where c: "b' = evbuffer_invoke_callbacks c" "appended b data c"
    and fr: "chain_frame (count_added (length data) b) c"
    by (auto simp: appends_def)
  have "total_len c = total_len b + length data"
    using c(2) length_contents [of c] length_contents [OF assms(2)] by (simp add: appended_def)
  with chain_frame_fields [OF fr] invoke_callbacks_told [of c "total_len b"] assms(5,8-10) c(1)
  show ?thesis by (simp add: addz_exact count_added_def)
qed

theorem evbuffer_add_notifies_witness:
  "\<exists>b'. evbuffer_add plain_malloc (evbuffer_add_cb evbuffer_new 3 77 5) [9, 8] = Inr (0, b')
      \<and> calls (eb_trace b') = [Call_Func 77 \<lparr>orig_size = 0, n_added = 2, n_deleted = 0\<rparr> 5]"
proof -
  let ?b = "evbuffer_add_cb evbuffer_new 3 77 5"
  have b: "evbuffer_ok ?b" "no_spare ?b" "eb_chains ?b = []"
    by (simp_all add: evbuffer_add_cb_def evbuffer_new_def evbuffer_ok_def no_spare_def lwd_ok_def SIZE_MOD_def)
  have pre: "\<not> freeze_end ?b" "total_len ?b = 0" "\<not> deferred_cbs ?b" "n_add_for_cb ?b = 0"
    "n_del_for_cb ?b = 0" "eb_trace ?b = []"
    "callbacks ?b = [\<lparr>cb_id = 3, cb_func = 77, cbarg = 5, cb_flags = EVBUFFER_CB_ENABLED\<rparr>]"
    by (simp_all add: evbuffer_add_cb_def evbuffer_new_def)
  have sz: "total_len ?b + length [9, 8 :: byte] < SIZE_MOD" "length [9, 8 :: byte] \<le> CHAIN_MAX"
    by (simp_all add: pre SIZE_MOD_def CHAIN_MAX_def EVBUFFER_CHAIN_SIZE_def)
  from evbuffer_add_runs [OF plain_malloc_ok(1) b(1,2) pre(1) sz] obtain b' where
    b': "evbuffer_add plain_malloc ?b [9, 8] = Inr (0, b')"
    by (auto simp: runs_iff appends_def)
  from evbuffer_add_notifies [OF plain_malloc_ok(1) b(1,2) pre(1) sz _ pre(3-5) this] b' show ?thesis
    by (simp add: pre told_def run_one_callback_def EVBUFFER_CB_ENABLED_def EVBUFFER_CB_OBSOLETE_def)
qed

text \<open>
  \<open>evbuffer_prepend\<close> on a well-formed buffer puts exactly the new bytes in front of the old ones
  and keeps the invariant. When it returns -1, for want of memory, a suffix of the new bytes may
  already be in front.
\<close>

theorem evbuffer_prepend_prepends:
  assumes "malloc_ok mm_malloc" and "evbuffer_ok b" and "\<not> freeze_start b"
    and "total_len b + length data < SIZE_MOD" and "length data \<le> CHAIN_MAX"
  shows "\<exists>r b'. evbuffer_prepend mm_malloc b data = Inr (r, b') \<and> evbuffer_ok b'
           \<and> (r = 0 \<and> contents b' = data @ contents b
              \<or> r = -1 \<and> out_of_memory mm_malloc
                \<and> (\<exists>pre suf. data = pre @ suf \<and> contents b' = suf @ contents b))"
  using evbuffer_prepend_runs [OF assms] by (auto simp: runs_iff prepends_def split: if_splits)

theorem evbuffer_prepend_prepends_witness:
  "\<exists>b'. evbuffer_prepend plain_malloc evbuffer_new [1, 2, 3] = Inr (0, b') \<and> evbuffer_ok b'
      \<and> contents b' = [1, 2, 3]"
  using evbuffer_prepend_prepends [of plain_malloc evbuffer_new "[1, 2, 3]"] evbuffer_new_ok
  by (auto simp: evbuffer_new_def SIZE_MOD_def CHAIN_MAX_def EVBUFFER_CHAIN_SIZE_def)

text \<open>
  \<open>evbuffer_add_reference\<close> appends the caller's bytes without copying them: the last chain is a
  read-only one over the caller's memory that carries the cleanup function.
\<close>

theorem evbuffer_add_reference_appends:
  assumes "malloc_ok mm_malloc" and "evbuffer_ok b" and "no_spare b" and "\<not> freeze_end b"
    and "total_len b + length data < SIZE_MOD" and "length data \<le> CHAIN_MAX" and "data \<noteq> []"
  shows "\<exists>r b'. evbuffer_add_reference mm_malloc b daddr data cleanupfn = Inr (r, b')
           \<and> evbuffer_ok b' \<and> no_spare b'
           \<and> (r = 0 \<and> contents b' = contents b @ data \<and> refers daddr data cleanupfn b'
              \<or> r = -1 \<and> b' = b \<and> out_of_memory mm_malloc)"
  using evbuffer_add_reference_runs [OF assms, of daddr cleanupfn] assms(2,3) appends_ok
  by (auto simp: runs_iff)

theorem evbuffer_add_reference_appends_witness:
  "\<exists>b'. evbuffer_add_reference plain_malloc evbuffer_new 64 [1, 2, 3] (Some 7) = Inr (0, b')
      \<and> contents b' = [1, 2, 3] \<and> refers 64 [1, 2, 3] (Some 7) b'"
  using evbuffer_add_reference_appends [of plain_malloc evbuffer_new "[1, 2, 3]" 64 "Some 7"] evbuffer_new_ok
  by (auto simp: evbuffer_new_def SIZE_MOD_def CHAIN_MAX_def EVBUFFER_CHAIN_SIZE_def)

end
