(* ===== verification/Evbuffer_Drain.thy ===== *)
theory Evbuffer_Drain
  imports Evbuffer_Base
begin

text \<open>
  Taking bytes from the front of a buffer: \<open>evbuffer_drain\<close>, \<open>evbuffer_copyout\<close> and
  \<open>evbuffer_remove\<close> of \<open>buffer.c\<close>, with the read-pinned chains of overlapped I/O that a drain empties
  but must not release.
\<close>

section \<open>Draining\<close>

text \<open>
  The loop of \<open>evbuffer_drain\<close>: the bytes still to remove, the distance from the current chain to
  the one \<open>last_with_datap\<close> leads to, and the chains from the current one on. The result is the
  chains released, the bytes still to remove, the new distance and the chains left. When the code
  sets \<open>last_with_datap\<close> to \<open>&buf->first\<close>, where the first chain left is about to be stored, the
  distance becomes 0.
\<close>

fun drain_loop :: "nat \<Rightarrow> nat \<Rightarrow> chain list \<Rightarrow> (chain list \<times> nat \<times> nat \<times> chain list) exec" where
  "drain_loop remaining lwd [] = Inl Null_Deref"
| "drain_loop remaining lwd (ch # chs) =
     (if ch_off ch \<le> remaining
      then let remaining' = remaining - ch_off ch in
           if CHAIN_PINNED_R ch
           then if remaining' \<noteq> 0 then Inl Assert_Failed
                else Inr ([], remaining', if lwd \<le> 1 then 0 else lwd,
                          ch\<lparr>ch_misalign := ch_misalign ch + ch_off ch, ch_off := 0\<rparr> # chs)
           else bindE (drain_loop remaining' (lwd - 1) chs)
                  (\<lambda>(freed, r, k, rest). Inr (ch # freed, r, k, rest))
      else Inr ([], remaining, lwd, ch # chs))"

definition count_deleted :: "nat \<Rightarrow> evbuffer \<Rightarrow> evbuffer" where
  "count_deleted n buf = buf\<lparr>n_del_for_cb := addz (n_del_for_cb buf) n\<rparr>"

definition evbuffer_drain :: "evbuffer \<Rightarrow> nat \<Rightarrow> (int \<times> evbuffer) exec" where
  "evbuffer_drain buf len =
     (let old_len = total_len buf in
      if old_len = 0 then Inr (0, buf)
      else if freeze_start buf then Inr (-1, buf)
      else if len \<ge> old_len \<and> \<not> HAS_PINNED_R buf
      then Inr (0, evbuffer_invoke_callbacks
                     (count_deleted old_len (ZERO_CHAIN (free_chains (eb_chains buf) buf))))
      else let len = (if len \<ge> old_len then old_len else len) in
           bindE (drain_loop len (last_with_datap buf) (eb_chains buf))
             (\<lambda>(freed, remaining, lwd, rest).
                Inr (0, evbuffer_invoke_callbacks
                          (count_deleted len
                            (free_chains freed
                              (buf\<lparr>total_len := subz (total_len buf) len,
                                   last_with_datap := lwd,
                                   eb_chains := (case rest of
                                                   [] \<Rightarrow> []
                                                 | ch # chs \<Rightarrow> chain_drop remaining ch # chs)\<rparr>))))))"

section \<open>Copying out\<close>

text \<open>The loop of \<open>evbuffer_copyout\<close> and the copy after it: the bytes stored in \<open>data_out\<close>.\<close>

fun copyout_loop :: "nat \<Rightarrow> chain list \<Rightarrow> byte list exec" where
  "copyout_loop datlen chs =
     (if datlen = 0 then Inr []
      else case chs of
             [] \<Rightarrow> Inl Null_Deref
           | ch # rest \<Rightarrow>
               if ch_off ch \<le> datlen
               then let datlen' = datlen - ch_off ch in
                    if rest = [] \<and> datlen' \<noteq> 0 then Inl Assert_Failed
                    else bindE (copyout_loop datlen' rest)
                           (\<lambda>bs. Inr (mem_read (ch_misalign ch) (ch_off ch) (ch_buffer ch) @ bs))
               else Inr (mem_read (ch_misalign ch) datlen (ch_buffer ch)))"

declare copyout_loop.simps [simp del]

definition evbuffer_copyout :: "evbuffer \<Rightarrow> nat \<Rightarrow> (int \<times> byte list) exec" where
  "evbuffer_copyout buf datlen =
     (let datlen = (if datlen \<ge> total_len buf then total_len buf else datlen) in
      if datlen = 0 then Inr (0, [])
      else if freeze_start buf then Inr (-1, [])
      else bindE (copyout_loop datlen (eb_chains buf)) (\<lambda>bs. Inr (to_ssize datlen, bs)))"

definition evbuffer_remove :: "evbuffer \<Rightarrow> nat \<Rightarrow> (int \<times> byte list \<times> evbuffer) exec" where
  "evbuffer_remove buf datlen =
     bindE (evbuffer_copyout buf datlen)
       (\<lambda>(n, bs).
          if n > 0
          then bindE (evbuffer_drain buf (nat n))
                 (\<lambda>(r, buf). Inr (if r < 0 then -1 else n, bs, buf))
          else Inr (n, bs, buf))"

section \<open>Pinned chains\<close>

text \<open>
  Chains that a pending overlapped read writes to are at the end of the buffer: none of them comes
  before the last chain with data, and none is read-only.
\<close>

definition pins_ok :: "chain list \<Rightarrow> nat \<Rightarrow> bool" where
  "pins_ok chs k \<longleftrightarrow>
     (\<forall>i < length chs. CHAIN_PINNED_R (chs ! i) \<longrightarrow>
        k \<le> i \<and> EVBUFFER_IMMUTABLE \<notin> ch_flags (chs ! i))"

definition pinned_ok :: "evbuffer \<Rightarrow> bool" where
  "pinned_ok buf \<longleftrightarrow> pins_ok (eb_chains buf) (last_with_datap buf)"

lemma pins_ok_unpinned: "\<forall>ch\<in>set chs. \<not> CHAIN_PINNED_R ch \<Longrightarrow> pins_ok chs k"
  by (simp add: pins_ok_def)

lemma pins_ok_tl: "pins_ok (ch # chs) k \<Longrightarrow> pins_ok chs (k - 1)"
  by (fastforce simp: pins_ok_def)

lemma pins_ok_hd_same:
  "pins_ok (ch # chs) k \<Longrightarrow> ch_flags ch' = ch_flags ch \<Longrightarrow> pins_ok (ch' # chs) k"
  by (fastforce simp: pins_ok_def nth_Cons CHAIN_PINNED_R_def split: nat.splits)

section \<open>The drain loop\<close>

lemma lwd_ok_tl: "lwd_ok (ch # chs) k \<Longrightarrow> lwd_ok chs (k - 1)"
  by (cases k) (auto simp: lwd_ok_def dest: in_set_dropD)

text \<open>What is left after the loop, once the first chain has been cut.\<close>

definition drained :: "chain list \<Rightarrow> nat \<Rightarrow> nat \<Rightarrow> chain list \<times> nat \<times> nat \<times> chain list \<Rightarrow> bool" where
  "drained chs k rem res \<longleftrightarrow>
     (case res of (freed, r, k', rest) \<Rightarrow>
        \<exists>ch chs'. rest = ch # chs' \<and> (\<forall>c\<in>set (chain_drop r ch # chs'). chain_ok c)
          \<and> chains_data (chain_drop r ch # chs') = drop rem (chains_data chs)
          \<and> chains_len (chain_drop r ch # chs') = chains_len chs - rem
          \<and> lwd_ok (chain_drop r ch # chs') k' \<and> pins_ok (chain_drop r ch # chs') k'
          \<and> (Suc k = length chs \<longrightarrow> k' = length chs')
          \<and> (\<exists>n. freed = take n chs))"

lemma drained_shape: "drained chs k rem res \<Longrightarrow> \<exists>fd r k' ch cs. res = (fd, r, k', ch # cs)"
  by (auto simp: drained_def)

lemma drained_step:
  assumes d: "drained chs (k - 1) (rem - ch_off ch) (fr, r, k', rest)"
    and ch: "chain_ok ch" "ch_off ch \<le> rem" and k: "Suc k = length (ch # chs) \<longrightarrow> chs \<noteq> []"
  shows "drained (ch # chs) k rem (ch # fr, r, k', rest)"
proof -
  from d obtain c cs n where "rest = c # cs" and fr: "fr = take n chs"
    by (auto simp: drained_def)
  have "Suc k = length (ch # chs) \<longrightarrow> Suc (k - 1) = length chs"
    using k by (cases chs) auto
  moreover have "ch # fr = take (Suc n) (ch # chs)" by (simp add: fr)
  ultimately show ?thesis
    using d ch by (auto simp: drained_def drop_append simp del: take_Suc_Cons)
qed

lemma drain_loop_runs:
  assumes "\<forall>c\<in>set chs. chain_ok c" and "lwd_ok chs k" and "pins_ok chs k"
    and "rem \<le> chains_len chs" and "rem < chains_len chs \<or> (\<exists>c\<in>set chs. CHAIN_PINNED_R c)"
  shows "runs (drain_loop rem k chs) (drained chs k rem)"
  using assms
proof (induction chs arbitrary: rem k)
  case Nil
  then show ?case by simp
next
  case (Cons ch chs)
  have chok: "chain_ok ch" using Cons.prems(1) by simp
  show ?case
  proof (cases "ch_off ch \<le> rem")
    case False
    then have "chain_ok (chain_drop rem ch)" "rem \<le> ch_off ch"
      using chok by (simp_all add: chain_drop_ok)
    with False Cons.prems chok show ?thesis
      using lwd_ok_Cons_cong [OF Cons.prems(2)] pins_ok_hd_same [OF Cons.prems(3)]
      by (auto simp: drained_def chain_drop_data intro: exI [of _ "0::nat"])
  next
    case le: True
    show ?thesis
    proof (cases "CHAIN_PINNED_R ch")
      case True
      with Cons.prems(3) have k: "k = 0" and mut: "EVBUFFER_IMMUTABLE \<notin> ch_flags ch"
        by (auto simp: pins_ok_def)
      with Cons.prems(2) have emp: "\<forall>c\<in>set chs. ch_off c = 0" by (simp add: lwd_ok_def)
      then have len: "chains_len chs = 0" by simp
      with Cons.prems(4) le have rem: "rem = ch_off ch" by simp
      let ?ch = "ch\<lparr>ch_misalign := ch_misalign ch + ch_off ch, ch_off := 0\<rparr>"
      have "chain_ok ?ch" using chok mut by (simp add: chain_ok_def)
      moreover have "lwd_ok (?ch # chs) 0" using emp by (simp add: lwd_ok_def)
      moreover have "pins_ok (?ch # chs) 0"
        using pins_ok_hd_same [OF Cons.prems(3), of ?ch] k by simp
      ultimately show ?thesis
        using True le rem k emp len chok Cons.prems(1)
        by (auto simp: drained_def chains_data_all_empty intro: exI [of _ "0::nat"])
    next
      case False
      have ne: "chs \<noteq> []" using Cons.prems(5) le False by auto
      have "runs (drain_loop (rem - ch_off ch) (k - 1) chs) (drained chs (k - 1) (rem - ch_off ch))"
        using Cons.prems False le lwd_ok_tl [OF Cons.prems(2)] pins_ok_tl [OF Cons.prems(3)]
        by (intro Cons.IH) auto
      then show ?thesis
        using le False chok ne drained_step [of chs k rem ch]
        by (auto simp: Let_def runs_bindE elim!: runs_mono split: prod.split)
    qed
  qed
qed

section \<open>Draining removes a prefix\<close>

lemma count_deleted_simps [simp]:
  "eb_chains (count_deleted n b) = eb_chains b" "total_len (count_deleted n b) = total_len b"
  "last_with_datap (count_deleted n b) = last_with_datap b"
  "evbuffer_ok (count_deleted n b) = evbuffer_ok b" "no_spare (count_deleted n b) = no_spare b"
  "contents (count_deleted n b) = contents b" "freeze_start (count_deleted n b) = freeze_start b"
  "freeze_end (count_deleted n b) = freeze_end b" "callbacks (count_deleted n b) = callbacks b"
  by (simp_all add: count_deleted_def)

lemma pinned_ok_invoke [simp]:
  "pinned_ok (evbuffer_invoke_callbacks b) = pinned_ok b"
  "pinned_ok (count_deleted n b) = pinned_ok b"
  by (simp_all add: pinned_ok_def)

text \<open>What a successful drain of \<open>n\<close> bytes leaves.\<close>

definition drains :: "evbuffer \<Rightarrow> nat \<Rightarrow> int \<times> evbuffer \<Rightarrow> bool" where
  "drains b n res \<longleftrightarrow>
     (case res of (r, b') \<Rightarrow>
        r = 0 \<and> evbuffer_ok b' \<and> pinned_ok b' \<and> (no_spare b \<longrightarrow> no_spare b')
        \<and> contents b' = drop n (contents b) \<and> freeze_start b' = freeze_start b
        \<and> freeze_end b' = freeze_end b)"

text \<open>
  How the buffer was left to the callbacks: as \<open>c\<close>, in which only chains have changed and the bytes
  removed have been counted.
\<close>

definition drain_counts :: "evbuffer \<Rightarrow> nat \<Rightarrow> evbuffer \<Rightarrow> bool" where
  "drain_counts b n b' \<longleftrightarrow>
     (if total_len b = 0 then b' = b
      else \<exists>c. b' = evbuffer_invoke_callbacks c \<and> total_len c = total_len b - n
             \<and> chain_frame (count_deleted (min n (total_len b)) b) c)"

lemma frame_count_deleted: "chain_frame a b \<Longrightarrow> chain_frame (count_deleted n a) (count_deleted n b)"
  by (simp add: chain_frame_def count_deleted_def)

lemma evbuffer_drain_runs:
  assumes ok: "evbuffer_ok b" "pinned_ok b" and fr: "\<not> freeze_start b"
  shows "runs (evbuffer_drain b n) (\<lambda>res. drains b n res \<and> drain_counts b n (snd res))"
proof -
  note okD = evbuffer_okD [OF ok(1)]
  have len: "length (contents b) = total_len b" by (rule length_contents [OF ok(1)])
  consider (empty) "total_len b = 0"
    | (all) "total_len b \<noteq> 0" "n \<ge> total_len b \<and> \<not> HAS_PINNED_R b"
    | (loop) "total_len b \<noteq> 0" "\<not> (n \<ge> total_len b \<and> \<not> HAS_PINNED_R b)" by blast
  then show ?thesis
  proof cases
    case empty
    with ok len show ?thesis by (simp add: evbuffer_drain_def drains_def drain_counts_def)
  next
    case all
    let ?c = "count_deleted (total_len b) (ZERO_CHAIN (free_chains (eb_chains b) b))"
    have "drain_counts b n (evbuffer_invoke_callbacks ?c)"
      using all by (auto simp: drain_counts_def ZERO_CHAIN_def intro!: exI [of _ ?c] frame_count_deleted)
    with all fr len show ?thesis
      by (simp add: evbuffer_drain_def drains_def ZERO_CHAIN_def evbuffer_ok_def lwd_ok_def
          contents_def pinned_ok_def pins_ok_def no_spare_def SIZE_MOD_def)
  next
    case loop
    define m where "m = (if n \<ge> total_len b then total_len b else n)"
    have "m < chains_len (eb_chains b) \<or> (\<exists>c\<in>set (eb_chains b). CHAIN_PINNED_R c)"
      using loop okD(2) by (auto simp: m_def HAS_PINNED_R_def)
    moreover have "m \<le> chains_len (eb_chains b)" using okD(2) by (simp add: m_def)
    ultimately have "runs (drain_loop m (last_with_datap b) (eb_chains b))
        (drained (eb_chains b) (last_with_datap b) m)"
      using okD ok(2) by (intro drain_loop_runs) (simp_all add: pinned_ok_def)
    then obtain fd r k ch chs where lp: "drain_loop m (last_with_datap b) (eb_chains b) = Inr (fd, r, k, ch # chs)"
      and dr: "drained (eb_chains b) (last_with_datap b) m (fd, r, k, ch # chs)"
      by (metis runs_iff drained_shape)
    have sub: "subz (total_len b) m = total_len b - m"
      using okD(3) by (intro subz_exact) (simp_all add: m_def)
    have data: "drop m (contents b) = drop n (contents b)"
      using len by (simp add: m_def)
    let ?c = "count_deleted m (free_chains fd
        (b\<lparr>total_len := total_len b - m, last_with_datap := k, eb_chains := chain_drop r ch # chs\<rparr>))"
    have "evbuffer_drain b n = Inr (0, evbuffer_invoke_callbacks ?c)"
      using loop fr lp by (auto simp: evbuffer_drain_def Let_def m_def [symmetric] sub)
    moreover have "drain_counts b n (evbuffer_invoke_callbacks ?c)"
      using loop(1) by (auto simp: drain_counts_def m_def min_def intro!: exI [of _ ?c] frame_count_deleted)
    moreover have "no_spare b \<longrightarrow> k = length chs"
      using dr loop okD(2) by (auto simp: drained_def no_spare_def)
    moreover have "contents b = chains_data (eb_chains b)" by (simp add: contents_def)
    ultimately show ?thesis
      using dr okD(2,3) data
      by (simp add: drains_def drained_def evbuffer_ok_def pinned_ok_def)
        (simp add: no_spare_def contents_def)
  qed
qed

section \<open>Copying out reads a prefix\<close>

lemma copyout_loop_runs:
  "\<forall>c\<in>set chs. chain_ok c \<Longrightarrow> n \<le> chains_len chs
   \<Longrightarrow> copyout_loop n chs = Inr (take n (chains_data chs))"
proof (induction chs arbitrary: n)
  case Nil
  then show ?case by (simp add: copyout_loop.simps)
next
  case (Cons ch chs)
  have d: "mem_read (ch_misalign ch) (ch_off ch) (ch_buffer ch) = chain_data ch"
    by (simp add: chain_data_def)
  have len: "length (chain_data ch) = ch_off ch" using Cons.prems(1) by simp
  show ?case
  proof (cases "ch_off ch \<le> n")
    case True
    with Cons.prems have "copyout_loop (n - ch_off ch) chs = Inr (take (n - ch_off ch) (chains_data chs))"
      by (intro Cons.IH) auto
    moreover have "\<not> (chs = [] \<and> n - ch_off ch \<noteq> 0)" using Cons.prems(2) by auto
    ultimately show ?thesis
      using True len by (subst copyout_loop.simps) (auto simp: d Let_def)
  next
    case False
    then have "mem_read (ch_misalign ch) n (ch_buffer ch) = take n (chain_data ch)"
      by (simp add: chain_data_def mem_read_take)
    with False len show ?thesis
      by (subst copyout_loop.simps) simp
  qed
qed

lemma evbuffer_copyout_eq:
  assumes "evbuffer_ok b" and "\<not> freeze_start b" and "min n (total_len b) \<le> SSIZE_MAX"
  shows "evbuffer_copyout b n = Inr (int (min n (total_len b)), take n (contents b))"
proof -
  define m where "m = (if n \<ge> total_len b then total_len b else n)"
  have m: "m \<le> chains_len (eb_chains b)" using evbuffer_okD(2) [OF assms(1)] by (simp add: m_def)
  have "copyout_loop m (eb_chains b) = Inr (take m (contents b))"
    unfolding contents_def using evbuffer_okD(1) [OF assms(1)] m by (rule copyout_loop_runs)
  moreover have "take m (contents b) = take n (contents b)" "m = min n (total_len b)"
    using length_contents [OF assms(1)] by (simp_all add: m_def)
  ultimately show ?thesis
    using assms(2,3) by (auto simp: evbuffer_copyout_def Let_def m_def [symmetric])
qed

text \<open>\<open>evbuffer_remove\<close> is a copy followed by a drain of what was copied.\<close>

definition removes :: "evbuffer \<Rightarrow> nat \<Rightarrow> int \<times> byte list \<times> evbuffer \<Rightarrow> bool" where
  "removes b n res \<longleftrightarrow>
     (case res of (r, bs, b') \<Rightarrow>
        r = int (min n (total_len b)) \<and> bs = take n (contents b) \<and> drains b n (0, b'))"

lemma evbuffer_remove_runs:
  assumes ok: "evbuffer_ok b" "pinned_ok b" and fr: "\<not> freeze_start b"
    and sz: "min n (total_len b) \<le> SSIZE_MAX"
  shows "runs (evbuffer_remove b n) (removes b n)"
proof (cases "min n (total_len b) = 0")
  case True
  then have "drop n (contents b) = contents b"
    using length_contents [OF ok(1)] by (auto simp: min_def split: if_splits)
  with True ok fr sz show ?thesis
    by (simp add: evbuffer_remove_def evbuffer_copyout_eq removes_def drains_def)
next
  case False
  have eq: "drop (min n (total_len b)) (contents b) = drop n (contents b)"
    using length_contents [OF ok(1)] by (simp add: min_def)
  from evbuffer_drain_runs [OF ok fr, of "min n (total_len b)"] obtain b' where
    "evbuffer_drain b (min n (total_len b)) = Inr (0, b')" "drains b (min n (total_len b)) (0, b')"
    by (auto elim!: runsE simp: drains_def)
  with False ok fr sz eq show ?thesis
    by (simp add: evbuffer_remove_def evbuffer_copyout_eq removes_def drains_def)
qed

section \<open>Properties\<close>

text \<open>A buffer of one chain with the bytes 10, 11, 12 and room for one more, for concrete runs.\<close>

definition sample_buffer :: evbuffer where
  "sample_buffer = evbuffer_new
     \<lparr>eb_chains := [\<lparr>ch_addr = 64, ch_buffer = [10, 11, 12, 0], ch_buffer_len = 4, ch_misalign = 0,
                     ch_off = 3, ch_flags = {}, ch_cleanup = None\<rparr>],
      total_len := 3,
      callbacks := [\<lparr>cb_id = 2, cb_func = 77, cbarg = 5, cb_flags = EVBUFFER_CB_ENABLED\<rparr>]\<rparr>"

lemma sample_buffer_ok:
  "evbuffer_ok sample_buffer" "no_spare sample_buffer" "pinned_ok sample_buffer"
  "contents sample_buffer = [10, 11, 12]" "\<not> freeze_start sample_buffer" "\<not> freeze_end sample_buffer"
  "total_len sample_buffer = 3" "\<not> deferred_cbs sample_buffer" "n_add_for_cb sample_buffer = 0"
  "n_del_for_cb sample_buffer = 0" "eb_trace sample_buffer = []"
  "callbacks sample_buffer = [\<lparr>cb_id = 2, cb_func = 77, cbarg = 5, cb_flags = EVBUFFER_CB_ENABLED\<rparr>]"
  by (simp_all add: sample_buffer_def evbuffer_new_def evbuffer_ok_def no_spare_def pinned_ok_def pins_ok_def
      contents_def chain_data_def mem_read_def chain_ok_def lwd_ok_def CHAIN_PINNED_R_def SIZE_MOD_def
      CHAIN_MAX_def EVBUFFER_CHAIN_SIZE_def)

text \<open>
  C8: \<open>evbuffer_drain\<close> of \<open>n\<close> bytes removes exactly the first \<open>n\<close> bytes (all if there are fewer) and
  returns 0, whether or not a pending read has pinned chains at the end of the buffer; no assertion
  fails and the invariant is kept.
\<close>

theorem evbuffer_drain_drops:
  assumes "evbuffer_ok b" and "pinned_ok b" and "\<not> freeze_start b"
  shows "\<exists>b'. evbuffer_drain b n = Inr (0, b') \<and> contents b' = drop n (contents b)
           \<and> evbuffer_ok b' \<and> pinned_ok b' \<and> (no_spare b \<longrightarrow> no_spare b')"
  using evbuffer_drain_runs [OF assms] by (auto simp: runs_iff drains_def)

theorem evbuffer_drain_drops_witness:
  "\<exists>b'. evbuffer_drain sample_buffer 2 = Inr (0, b') \<and> contents b' = [12] \<and> evbuffer_ok b'"
  using evbuffer_drain_drops [OF sample_buffer_ok(1,3,5), of 2] by (auto simp: sample_buffer_ok)

text \<open>
  When \<open>evbuffer_drain\<close> removes bytes from a buffer whose callbacks are not deferred and have been
  told of every earlier change, each enabled callback is run once, with the old size and the exact
  number of bytes removed.
\<close>

theorem evbuffer_drain_notifies:
  assumes "evbuffer_ok b" and "pinned_ok b" and "\<not> freeze_start b" and "total_len b \<noteq> 0"
    and "\<not> deferred_cbs b" and "n_add_for_cb b = 0" and "n_del_for_cb b = 0"
    and "evbuffer_drain b n = Inr (r, b')"
  shows "calls (eb_trace b')
       = calls (eb_trace b) @ told (total_len b) 0 (min n (total_len b)) (callbacks b)"
proof -
  have "drain_counts b n b'"
    using evbuffer_drain_runs [OF assms(1-3), of n] assms(8) by simp
  then obtain c where c: "b' = evbuffer_invoke_callbacks c" "total_len c = total_len b - n"
    and fr: "chain_frame (count_deleted (min n (total_len b)) b) c"
    using assms(4) by (auto simp: drain_counts_def)
  have "n_del_for_cb (count_deleted (min n (total_len b)) b) = min n (total_len b)"
    using assms(7) evbuffer_okD(3) [OF assms(1)] by (simp add: count_deleted_def addz_exact)
  with chain_frame_fields [OF fr] invoke_callbacks_told [of c "total_len b"] assms(5,6) c
    evbuffer_okD(3) [OF assms(1)]
  show ?thesis by (simp add: count_deleted_def)
qed

theorem evbuffer_drain_notifies_witness:
  "\<exists>b'. evbuffer_drain sample_buffer 2 = Inr (0, b')
      \<and> calls (eb_trace b') = [Call_Func 77 \<lparr>orig_size = 3, n_added = 0, n_deleted = 2\<rparr> 5]"
proof -
  from evbuffer_drain_runs [OF sample_buffer_ok(1,3,5), of 2] obtain b' where
    b': "evbuffer_drain sample_buffer 2 = Inr (0, b')" by (auto simp: runs_iff drains_def)
  from evbuffer_drain_notifies [OF sample_buffer_ok(1,3,5) _ sample_buffer_ok(8-10) b'] b' show ?thesis
    by (simp add: sample_buffer_ok told_def run_one_callback_def EVBUFFER_CB_ENABLED_def
        EVBUFFER_CB_OBSOLETE_def)
qed

text \<open>
  C9: \<open>evbuffer_remove\<close> returns the number of bytes it copied, which is \<open>n\<close> or all there are, stores
  exactly the first bytes of the buffer in that number at the caller's address, and removes exactly
  those from the buffer.
\<close>

theorem evbuffer_remove_takes:
  assumes "evbuffer_ok b" and "pinned_ok b" and "\<not> freeze_start b"
    and "min n (total_len b) \<le> SSIZE_MAX"
  shows "\<exists>b'. evbuffer_remove b n = Inr (int (min n (total_len b)), take n (contents b), b')
           \<and> contents b' = drop n (contents b) \<and> evbuffer_ok b' \<and> (no_spare b \<longrightarrow> no_spare b')"
  using evbuffer_remove_runs [OF assms] by (auto simp: runs_iff removes_def drains_def)

theorem evbuffer_remove_takes_witness:
  "\<exists>b'. evbuffer_remove sample_buffer 2 = Inr (2, [10, 11], b') \<and> contents b' = [12]"
  using evbuffer_remove_takes [OF sample_buffer_ok(1,3,5), of 2]
  by (auto simp: sample_buffer_ok SSIZE_MAX_def)

end
