(* ===== verification/Evbuffer_Pullup.thy ===== *)
theory Evbuffer_Pullup
  imports Evbuffer_Base
begin

text \<open>
  \<open>evbuffer_pullup\<close> of \<open>buffer.c\<close>: making the first bytes of a buffer contiguous. The pointer it
  returns is modelled by what can be read through it: the memory of the first chain from the start
  of its data to the end of its block.
\<close>

section \<open>The operation\<close>

text \<open>The check that none of the chains to copy from is pinned: true if it finds one.\<close>

fun pull_meets_pinned :: "nat \<Rightarrow> chain list \<Rightarrow> bool" where
  "pull_meets_pinned remaining [] = False"
| "pull_meets_pinned remaining (tmp # chs) =
     (if CHAIN_PINNED tmp then True
      else if remaining \<le> ch_off tmp then False
      else pull_meets_pinned (remaining - ch_off tmp) chs)"

text \<open>
  The loop that copies and frees every chain that goes into the new first one as a whole: the bytes
  copied, the chains freed, the bytes still wanted and the chains left.
\<close>

fun pull_loop :: "nat \<Rightarrow> chain list \<Rightarrow> byte list \<times> chain list \<times> nat \<times> chain list" where
  "pull_loop n [] = ([], [], n, [])"
| "pull_loop n (ch # chs) =
     (if ch_off ch \<le> n
      then (case pull_loop (n - ch_off ch) chs of
              (bs, freed, m, rest) \<Rightarrow>
                (mem_read (ch_misalign ch) (ch_off ch) (ch_buffer ch) @ bs, ch # freed, m, rest))
      else ([], [], n, ch # chs))"

text \<open>
  \<open>last_with_datap\<close> afterwards, for the chains \<open>i0, ..., i0 + d - 1\<close> freed out of a list in which it
  led to chain \<open>k\<close>, and the chains \<open>rest\<close> that follow the new first one. A pointer into a chain that
  is still there keeps its meaning.
\<close>

definition pull_lwd :: "nat \<Rightarrow> nat \<Rightarrow> nat \<Rightarrow> chain list \<Rightarrow> nat" where
  "pull_lwd i0 d k rest =
     (if i0 \<le> k \<and> k < i0 + d then 0
      else if i0 < k \<and> k \<le> i0 + d
      then (case rest of [] \<Rightarrow> 0 | ch # _ \<Rightarrow> if ch_off ch \<noteq> 0 then 1 else 0)
      else if k < i0 then k
      else k + 1 - (i0 + d))"

text \<open>
  From the choice of the chain \<open>tmp\<close> on: \<open>chs\<close> are the chains to pull from, which start at position
  \<open>i0\<close>, and \<open>n\<close> is how many bytes to pull.
\<close>

definition pull_into ::
    "evbuffer \<Rightarrow> chain \<Rightarrow> nat \<Rightarrow> chain list \<Rightarrow> nat \<Rightarrow> byte list option \<times> evbuffer" where
  "pull_into buf tmp i0 chs n =
     (case pull_loop n chs of
        (bs, freed, m, rest) \<Rightarrow>
          let bs = (case rest of [] \<Rightarrow> bs
                    | ch # _ \<Rightarrow> bs @ mem_read (ch_misalign ch) m (ch_buffer ch));
              rest = (case rest of [] \<Rightarrow> [] | ch # chs \<Rightarrow> chain_drop m ch # chs);
              tmp = chain_append bs tmp
          in (Some (drop (ch_misalign tmp) (ch_buffer tmp)),
              free_chains freed
                (buf\<lparr>eb_chains := tmp # rest,
                     last_with_datap := pull_lwd i0 (length freed) (last_with_datap buf) rest\<rparr>)))"

definition evbuffer_pullup ::
    "allocator \<Rightarrow> evbuffer \<Rightarrow> int \<Rightarrow> (byte list option \<times> evbuffer) exec" where
  "evbuffer_pullup mm_malloc buf size_in =
     (let n = (if size_in < 0 then total_len buf else nat size_in) in
      if n = 0 \<or> n > total_len buf then Inr (None, buf)
      else case eb_chains buf of
             [] \<Rightarrow> Inl Null_Deref
           | ch # chs \<Rightarrow>
               if ch_off ch \<ge> n then Inr (Some (drop (ch_misalign ch) (ch_buffer ch)), buf)
               else if \<not> 0 \<le> to_ssize (n - ch_off ch) then Inl Assert_Failed
               else if pull_meets_pinned (n - ch_off ch) chs then Inr (None, buf)
               else if CHAIN_PINNED ch
               then if CHAIN_SPACE_LEN ch < n - ch_off ch then Inr (None, buf)
                    else Inr (pull_into buf ch 1 chs (n - ch_off ch))
               else if ch_buffer_len ch - ch_misalign ch \<ge> n
               then Inr (pull_into buf ch 1 chs (n - ch_off ch))
               else bindE (evbuffer_chain_new mm_malloc n)
                      (\<lambda>r. case r of
                         None \<Rightarrow> Inr (None, buf)
                       | Some tmp \<Rightarrow> Inr (pull_into buf tmp 0 (ch # chs) n)))"

section \<open>The copy loop\<close>

lemma pull_loop_spec:
  assumes "pull_loop n chs = (bs, freed, m, rest)"
  shows "chs = freed @ rest \<and> bs = chains_data freed \<and> chains_len freed + m = n
       \<and> (\<forall>ch. rest \<noteq> [] \<longrightarrow> m < ch_off (hd rest))"
  using assms
proof (induction chs arbitrary: n bs freed m rest)
  case Nil
  then show ?case by simp
next
  case (Cons ch chs)
  show ?case
  proof (cases "ch_off ch \<le> n")
    case True
    obtain bs' fr' where p: "pull_loop (n - ch_off ch) chs = (bs', fr', m, rest)"
      and eq: "bs = chain_data ch @ bs'" "freed = ch # fr'"
      using Cons.prems True by (auto simp: chain_data_def split: prod.splits)
    from Cons.IH [OF p] eq True show ?thesis by auto
  next
    case False
    with Cons.prems show ?thesis by auto
  qed
qed

text \<open>What is pulled in all: the next \<open>n\<close> bytes; what is left behind: the bytes after them.\<close>

lemma pull_data:
  assumes "\<forall>c\<in>set chs. chain_ok c" and "n \<le> chains_len chs" and "pull_loop n chs = (bs, freed, m, rest)"
  shows "(case rest of [] \<Rightarrow> bs | ch # _ \<Rightarrow> bs @ mem_read (ch_misalign ch) m (ch_buffer ch))
         = take n (chains_data chs)"
    and "chains_data (case rest of [] \<Rightarrow> [] | ch # cs \<Rightarrow> chain_drop m ch # cs) = drop n (chains_data chs)"
    and "chains_len (case rest of [] \<Rightarrow> [] | ch # cs \<Rightarrow> chain_drop m ch # cs) = chains_len chs - n"
    and "\<forall>c\<in>set (case rest of [] \<Rightarrow> [] | ch # cs \<Rightarrow> chain_drop m ch # cs). chain_ok c"
proof -
  from pull_loop_spec [OF assms(3)] have sp: "chs = freed @ rest" "bs = chains_data freed"
    "chains_len freed + m = n" "rest \<noteq> [] \<longrightarrow> m < ch_off (hd rest)" by auto
  have lf: "length (chains_data freed) = chains_len freed" using assms(1) sp(1) by simp
  have "(case rest of [] \<Rightarrow> bs | ch # _ \<Rightarrow> bs @ mem_read (ch_misalign ch) m (ch_buffer ch))
         = take n (chains_data chs)
      \<and> chains_data (case rest of [] \<Rightarrow> [] | ch # cs \<Rightarrow> chain_drop m ch # cs) = drop n (chains_data chs)
      \<and> chains_len (case rest of [] \<Rightarrow> [] | ch # cs \<Rightarrow> chain_drop m ch # cs) = chains_len chs - n
      \<and> (\<forall>c\<in>set (case rest of [] \<Rightarrow> [] | ch # cs \<Rightarrow> chain_drop m ch # cs). chain_ok c)"
  proof (cases rest)
    case Nil
    with assms(2) sp lf show ?thesis by simp
  next
    case (Cons ch cs)
    with sp(4) have m: "m < ch_off ch" by simp
    have ch: "chain_ok ch" "\<forall>c\<in>set cs. chain_ok c" using assms(1) sp(1) Cons by auto
    have "mem_read (ch_misalign ch) m (ch_buffer ch) = take m (chain_data ch)"
      using m by (simp add: chain_data_def mem_read_take)
    moreover have "n - chains_len freed = m" using sp(3) by simp
    ultimately show ?thesis
      using Cons m ch sp(1-3) lf by (simp add: chain_drop_data chain_drop_ok)
  qed
  then show "(case rest of [] \<Rightarrow> bs | ch # _ \<Rightarrow> bs @ mem_read (ch_misalign ch) m (ch_buffer ch))
         = take n (chains_data chs)"
    and "chains_data (case rest of [] \<Rightarrow> [] | ch # cs \<Rightarrow> chain_drop m ch # cs) = drop n (chains_data chs)"
    and "chains_len (case rest of [] \<Rightarrow> [] | ch # cs \<Rightarrow> chain_drop m ch # cs) = chains_len chs - n"
    and "\<forall>c\<in>set (case rest of [] \<Rightarrow> [] | ch # cs \<Rightarrow> chain_drop m ch # cs). chain_ok c"
    by blast+
qed

section \<open>Where \<open>last_with_datap\<close> ends up\<close>

lemma pull_lwd_ok:
  assumes ok: "lwd_ok (pre @ freed @ rest) k" and pre: "length pre \<le> 1"
    and m: "rest \<noteq> [] \<longrightarrow> m < ch_off (hd rest)"
    and r': "rest' = (case rest of [] \<Rightarrow> [] | ch # cs \<Rightarrow> chain_drop m ch # cs)"
    and ne: "pre @ freed @ rest \<noteq> []"
  shows "lwd_ok (tmp # rest') (pull_lwd (length pre) (length freed) k rest')"
    and "Suc k = length (pre @ freed @ rest)
         \<Longrightarrow> pull_lwd (length pre) (length freed) k rest' = length rest'"
proof -
  let ?j = "length pre + length freed" and ?l = "pull_lwd (length pre) (length freed) k rest'"
  have "lwd_ok (tmp # rest') ?l \<and> (Suc k = length (pre @ freed @ rest) \<longrightarrow> ?l = length rest')"
  proof (cases rest)
    case Nil
    with ok ne have "k < ?j" by (auto simp: lwd_ok_def split: if_splits)
    with pre have "?l = 0" using Nil r' by (auto simp: pull_lwd_def)
    with Nil r' show ?thesis by (simp add: lwd_ok_def)
  next
    case (Cons c cs)
    with m have off: "ch_off (chain_drop m c) \<noteq> 0" by simp
    have "(pre @ freed @ rest) ! ?j = c" by (simp add: Cons nth_append)
    moreover from Cons m have "ch_off c \<noteq> 0" by simp
    ultimately have jk: "?j \<le> k"
      using lwd_ok_after [OF ok, of ?j] Cons by (cases "k < ?j") auto
    then have l: "?l = Suc (k - ?j)"
      using r' Cons off by (auto simp: pull_lwd_def)
    have after: "\<forall>ch\<in>set (drop (Suc (k - ?j)) rest). ch_off ch = 0"
      using ok ne jk by (simp add: lwd_ok_def Suc_diff_le)
    have "ch_off (rest' ! (k - ?j)) \<noteq> 0"
    proof (cases "k = ?j")
      case True
      with r' Cons off show ?thesis by simp
    next
      case False
      then have "rest' ! (k - ?j) = (pre @ freed @ rest) ! k"
        using jk r' Cons by (simp add: nth_append nth_Cons' not_less)
      with ok ne False jk show ?thesis by (auto simp: lwd_ok_def)
    qed
    moreover have "k - ?j < length rest'"
      using ok ne jk r' Cons by (auto simp: lwd_ok_def)
    moreover have "drop (Suc (k - ?j)) rest' = drop (Suc (k - ?j)) rest"
      using r' Cons by simp
    ultimately show ?thesis
      using l after r' Cons jk by (auto simp: lwd_ok_def)
  qed
  then show "lwd_ok (tmp # rest') ?l"
    and "Suc k = length (pre @ freed @ rest) \<Longrightarrow> ?l = length rest'" by blast+
qed

text \<open>What a pull-up of the first \<open>n\<close> bytes leaves and returns.\<close>

definition pulls :: "evbuffer \<Rightarrow> nat \<Rightarrow> byte list option \<times> evbuffer \<Rightarrow> bool" where
  "pulls b n res \<longleftrightarrow>
     (case res of (p, b') \<Rightarrow>
        evbuffer_ok b' \<and> contents b' = contents b \<and> chain_frame b b' \<and> (no_spare b \<longrightarrow> no_spare b')
        \<and> (\<exists>bs. p = Some bs \<and> take n bs = take n (contents b) \<and> n \<le> length bs))"

lemma pull_into_pulls:
  assumes ok: "evbuffer_ok b" and chs: "eb_chains b = pre @ chs" "length pre \<le> 1" "eb_chains b \<noteq> []"
    and tmp: "chain_ok tmp" "chain_data tmp = chains_data pre" "ch_off tmp = chains_len pre"
    and n: "n \<le> chains_len chs" "ch_misalign tmp + ch_off tmp + n \<le> ch_buffer_len tmp"
  shows "pulls b (chains_len pre + n) (pull_into b tmp (length pre) chs n)"
proof -
  obtain bs freed m rest where pl: "pull_loop n chs = (bs, freed, m, rest)"
    by (cases "pull_loop n chs") auto
  let ?rest = "case rest of [] \<Rightarrow> [] | ch # cs \<Rightarrow> chain_drop m ch # cs"
  let ?bs = "take n (chains_data chs)"
  let ?t = "chain_append ?bs tmp"
  note okD = evbuffer_okD [OF ok]
  from pull_loop_spec [OF pl] have sp: "chs = freed @ rest" "rest \<noteq> [] \<longrightarrow> m < ch_off (hd rest)"
    by auto
  have oks: "\<forall>c\<in>set chs. chain_ok c" "\<forall>c\<in>set pre. chain_ok c" using okD(1) chs(1) by auto
  note pd = pull_data [OF oks(1) n(1) pl]
  have lenb: "length ?bs = n" using oks n by simp
  have t: "chain_ok ?t" "chain_data ?t = chains_data pre @ ?bs" "ch_off ?t = chains_len pre + n"
    using tmp n(2) lenb by (simp_all add: chain_append_data chain_append_ok)
  let ?k = "pull_lwd (length pre) (length freed) (last_with_datap b) ?rest"
  have lw: "lwd_ok (?t # ?rest) ?k"
    using okD(4) chs sp by (intro pull_lwd_ok(1) [of pre freed rest]) auto
  have ns: "no_spare b \<longrightarrow> ?k = length ?rest"
    using okD(4) chs sp by (auto simp: no_spare_def intro!: pull_lwd_ok(2) [of pre freed rest])
  have eq: "pull_into b tmp (length pre) chs n =
      (Some (drop (ch_misalign ?t) (ch_buffer ?t)),
       free_chains freed (b\<lparr>eb_chains := ?t # ?rest, last_with_datap := ?k\<rparr>))"
    by (simp only: pull_into_def pl prod.case Let_def pd(1))
  have "take (ch_off ?t) (drop (ch_misalign ?t) (ch_buffer ?t)) = chains_data pre @ ?bs"
    using t(2) by (simp add: chain_data_def mem_read_def)
  moreover have "ch_off ?t \<le> length (drop (ch_misalign ?t) (ch_buffer ?t))"
    using t(1) by (auto simp: chain_ok_def)
  ultimately show ?thesis
    using t pd(2-4) lw ns okD(2,3) chs(1) n(1) oks
    by (simp add: eq pulls_def evbuffer_ok_def contents_def no_spare_def)
qed

text \<open>
  \<open>evbuffer_pullup\<close> keeps the bytes of the buffer. Without pinned chains and with memory, the first
  \<open>n\<close> bytes are contiguous behind the pointer returned.
\<close>

lemma evbuffer_pullup_runs:
  assumes m: "malloc_ok mm_malloc" and ok: "evbuffer_ok b" and n: "0 < n" "n \<le> total_len b"
    and max: "n \<le> CHAIN_MAX"
  shows "runs (evbuffer_pullup mm_malloc b (int n))
     (\<lambda>res. pulls b n res \<or>
        res = (None, b) \<and> (out_of_memory mm_malloc \<or> (\<exists>ch\<in>set (eb_chains b). CHAIN_PINNED ch)))"
proof -
  from n evbuffer_okD(2) [OF ok] obtain ch chs where chs: "eb_chains b = ch # chs"
    by (cases "eb_chains b") auto
  have chok: "chain_ok ch" using ok chs by (simp add: evbuffer_ok_def)
  have tot: "total_len b = ch_off ch + chains_len chs" using evbuffer_okD(2) [OF ok] chs by simp
  have pin: "pull_meets_pinned r cs \<Longrightarrow> \<exists>c\<in>set cs. CHAIN_PINNED c" for r cs
    by (induction r cs rule: pull_meets_pinned.induct) (auto split: if_splits)
  have here: "pulls b n (Some (drop (ch_misalign ch) (ch_buffer ch)), b)" if "n \<le> ch_off ch"
  proof -
    have "take n (drop (ch_misalign ch) (ch_buffer ch)) = take n (chain_data ch)"
      using that by (simp add: chain_data_def mem_read_def min_absorb1)
    moreover have "n \<le> length (drop (ch_misalign ch) (ch_buffer ch))"
      using chok that by (auto simp: chain_ok_def)
    ultimately show ?thesis using ok chs that chok by (simp add: pulls_def contents_def)
  qed
  have inplace: "pulls b n (pull_into b ch 1 chs (n - ch_off ch))"
    if "ch_off ch < n" "ch_misalign ch + n \<le> ch_buffer_len ch"
  proof -
    have "pulls b (chains_len [ch] + (n - ch_off ch)) (pull_into b ch (length [ch]) chs (n - ch_off ch))"
      by (rule pull_into_pulls) (use ok chs chok that n tot in simp_all)
    with that show ?thesis by simp
  qed
  have fresh: "pulls b n (pull_into b tmp 0 (ch # chs) n)" if "fresh_chain n tmp" for tmp
  proof -
    have "pulls b (chains_len [] + n) (pull_into b tmp (length ([] :: chain list)) (ch # chs) n)"
      by (rule pull_into_pulls) (use ok chs fresh_chainD [OF that] n tot in simp_all)
    then show ?thesis by simp
  qed
  have sp: "CHAIN_SPACE_LEN ch \<ge> n - ch_off ch \<Longrightarrow> ch_off ch < n \<Longrightarrow> ch_misalign ch + n \<le> ch_buffer_len ch"
    by (auto simp: CHAIN_SPACE_LEN_def split: if_splits)
  have mis: "n \<le> ch_buffer_len ch - ch_misalign ch \<Longrightarrow> ch_misalign ch + n \<le> ch_buffer_len ch"
    using n(1) by simp
  have ss: "0 \<le> to_ssize (n - ch_off ch)"
    using max by (auto simp: to_ssize_def SSIZE_MAX_def CHAIN_MAX_def EVBUFFER_CHAIN_SIZE_def)
  show ?thesis
    using m max
  proof (cases rule: chain_new_cases)
    case fail
    then show ?thesis
      using n here inplace sp mis ss pin [of "n - ch_off ch" chs]
      by (auto simp: evbuffer_pullup_def Let_def chs)
  next
    case (new tmp)
    then show ?thesis
      using n here inplace fresh sp mis ss pin [of "n - ch_off ch" chs]
      by (auto simp: evbuffer_pullup_def Let_def chs)
  qed
qed

section \<open>Properties\<close>

text \<open>
  C10: \<open>evbuffer_pullup\<close> of \<open>n\<close> bytes that the buffer has keeps its bytes and its invariant, and the
  first \<open>n\<close> of them can be read through the pointer it returns. It returns \<open>NULL\<close>, and leaves the
  buffer as it was, only if an allocation fails or a chain is pinned.
\<close>

theorem evbuffer_pullup_contiguous:
  assumes "malloc_ok mm_malloc" and "evbuffer_ok b" and "0 < n" and "n \<le> total_len b"
    and "n \<le> CHAIN_MAX"
  shows "\<exists>p b'. evbuffer_pullup mm_malloc b (int n) = Inr (p, b') \<and> evbuffer_ok b'
           \<and> contents b' = contents b
           \<and> (case p of
                Some bs \<Rightarrow> n \<le> length bs \<and> take n bs = take n (contents b)
              | None \<Rightarrow> b' = b \<and> (out_of_memory mm_malloc
                                   \<or> (\<exists>ch\<in>set (eb_chains b). CHAIN_PINNED ch)))"
  using evbuffer_pullup_runs [OF assms] assms(2) by (auto simp: runs_iff pulls_def)

text \<open>Two chains, with the bytes 1, 2 and 3, 4, 5.\<close>

definition two_chains :: evbuffer where
  "two_chains = evbuffer_new
     \<lparr>eb_chains := [\<lparr>ch_addr = 64, ch_buffer = [0, 1, 2], ch_buffer_len = 3, ch_misalign = 1,
                     ch_off = 2, ch_flags = {}, ch_cleanup = None\<rparr>,
                    \<lparr>ch_addr = 96, ch_buffer = [3, 4, 5, 0], ch_buffer_len = 4, ch_misalign = 0,
                     ch_off = 3, ch_flags = {}, ch_cleanup = None\<rparr>],
      last_with_datap := 1, total_len := 5\<rparr>"

lemma two_chains_ok:
  "evbuffer_ok two_chains" "contents two_chains = [1, 2, 3, 4, 5]" "total_len two_chains = 5"
  "\<forall>ch\<in>set (eb_chains two_chains). \<not> CHAIN_PINNED ch"
  by (simp_all add: two_chains_def evbuffer_new_def evbuffer_ok_def contents_def chain_data_def
      mem_read_def chain_ok_def lwd_ok_def CHAIN_PINNED_def SIZE_MOD_def CHAIN_MAX_def
      EVBUFFER_CHAIN_SIZE_def)

theorem evbuffer_pullup_contiguous_witness:
  "\<exists>bs b'. evbuffer_pullup plain_malloc two_chains 4 = Inr (Some bs, b') \<and> take 4 bs = [1, 2, 3, 4]
         \<and> contents b' = [1, 2, 3, 4, 5]"
  using evbuffer_pullup_contiguous [OF plain_malloc_ok(1) two_chains_ok(1), of 4] two_chains_ok
  by (auto simp: CHAIN_MAX_def EVBUFFER_CHAIN_SIZE_def split: option.splits)

end
