(* ===== verification/Evbuffer_Move.thy ===== *)
theory Evbuffer_Move
  imports Evbuffer_Add Evbuffer_Drain
begin

text \<open>
  Moving bytes between two buffers: \<open>evbuffer_add_buffer\<close>, \<open>evbuffer_prepend_buffer\<close> and
  \<open>evbuffer_remove_buffer\<close> of \<open>buffer.c\<close>, with the helpers that keep read-pinned chains where they
  are. The two buffers are different objects: the code's first test, on equal pointers, returns at
  once.
\<close>

section \<open>Pinned chains stay behind\<close>

text \<open>
  \<open>PRESERVE_PINNED\<close>: the source without its read-pinned chains, and those chains; \<open>None\<close> if there
  was no memory for the copy.
\<close>

definition PRESERVE_PINNED :: "allocator \<Rightarrow> evbuffer \<Rightarrow> (evbuffer \<times> chain list) option exec" where
  "PRESERVE_PINNED mm_malloc src =
     (let chs = eb_chains src; k = last_with_datap src in
      if \<not> HAS_PINNED_R src then Inr (Some (src, []))
      else if length chs \<le> k then Inl Null_Deref
      else let p = (if CHAIN_PINNED_R (chs ! k) then k else Suc k) in
           if length chs \<le> p then Inl Null_Deref
           else if \<not> CHAIN_PINNED_R (chs ! p) then Inl Assert_Failed
           else let ch = chs ! p in
                if ch_off ch \<noteq> 0
                then if p \<noteq> k then Inl Assert_Failed
                     else bindE (evbuffer_chain_new mm_malloc (ch_off ch))
                            (\<lambda>r. case r of
                               None \<Rightarrow> Inr None
                             | Some tmp \<Rightarrow>
                                 let tmp = chain_append (mem_read (ch_misalign ch) (ch_off ch) (ch_buffer ch)) tmp;
                                     ch = ch\<lparr>ch_misalign := ch_misalign ch + ch_off ch, ch_off := 0\<rparr>
                                 in Inr (Some (src\<lparr>eb_chains := take k chs @ [tmp]\<rparr>,
                                               ch # drop (Suc p) chs)))
                else Inr (Some (src\<lparr>eb_chains := take p chs\<rparr>, drop p chs)))"

definition RESTORE_PINNED :: "evbuffer \<Rightarrow> chain list \<Rightarrow> evbuffer" where
  "RESTORE_PINNED src pinned =
     (if pinned = [] then ZERO_CHAIN src
      else src\<lparr>eb_chains := pinned, last_with_datap := 0, total_len := 0\<rparr>)"

section \<open>Whole buffers\<close>

definition COPY_CHAIN :: "evbuffer \<Rightarrow> evbuffer \<Rightarrow> evbuffer" where
  "COPY_CHAIN dst src =
     dst\<lparr>eb_chains := eb_chains src, last_with_datap := last_with_datap src,
         total_len := total_len src\<rparr>"

definition APPEND_CHAIN :: "evbuffer \<Rightarrow> evbuffer \<Rightarrow> evbuffer" where
  "APPEND_CHAIN dst src =
     dst\<lparr>eb_chains := eb_chains dst @ eb_chains src,
         last_with_datap := length (eb_chains dst) + last_with_datap src,
         total_len := addz (total_len dst) (total_len src)\<rparr>"

definition PREPEND_CHAIN :: "evbuffer \<Rightarrow> evbuffer \<Rightarrow> evbuffer" where
  "PREPEND_CHAIN dst src =
     dst\<lparr>eb_chains := eb_chains src @ eb_chains dst,
         last_with_datap := (if length (eb_chains dst) \<le> last_with_datap dst then last_with_datap src
                             else length (eb_chains src) + last_with_datap dst),
         total_len := addz (total_len dst) (total_len src)\<rparr>"

text \<open>
  The common body of \<open>evbuffer_add_buffer\<close> and \<open>evbuffer_prepend_buffer\<close>; they differ in the end of
  \<open>outbuf\<close> that must not be frozen and in how the chains are joined. The result is the return value,
  \<open>outbuf\<close> and \<open>inbuf\<close>.
\<close>

definition join_buffers ::
    "bool \<Rightarrow> (evbuffer \<Rightarrow> evbuffer \<Rightarrow> evbuffer) \<Rightarrow> allocator \<Rightarrow> evbuffer \<Rightarrow> evbuffer
     \<Rightarrow> (int \<times> evbuffer \<times> evbuffer) exec" where
  "join_buffers frozen join mm_malloc outbuf inbuf =
     (let in_total_len = total_len inbuf; out_total_len = total_len outbuf in
      if in_total_len = 0 then Inr (0, outbuf, inbuf)
      else if frozen \<or> freeze_start inbuf then Inr (-1, outbuf, inbuf)
      else bindE (PRESERVE_PINNED mm_malloc inbuf)
             (\<lambda>r. case r of
                None \<Rightarrow> Inr (-1, outbuf, inbuf)
              | Some (inbuf, pinned) \<Rightarrow>
                  let outbuf = (if out_total_len = 0
                                then COPY_CHAIN (free_chains (eb_chains outbuf) outbuf) inbuf
                                else join outbuf inbuf);
                      inbuf = RESTORE_PINNED inbuf pinned;
                      inbuf = count_deleted in_total_len inbuf;
                      outbuf = count_added in_total_len outbuf;
                      inbuf = evbuffer_invoke_callbacks inbuf;
                      outbuf = evbuffer_invoke_callbacks outbuf
                  in Inr (0, outbuf, inbuf)))"

definition evbuffer_add_buffer ::
    "allocator \<Rightarrow> evbuffer \<Rightarrow> evbuffer \<Rightarrow> (int \<times> evbuffer \<times> evbuffer) exec" where
  "evbuffer_add_buffer mm_malloc outbuf inbuf =
     join_buffers (freeze_end outbuf) APPEND_CHAIN mm_malloc outbuf inbuf"

definition evbuffer_prepend_buffer ::
    "allocator \<Rightarrow> evbuffer \<Rightarrow> evbuffer \<Rightarrow> (int \<times> evbuffer \<times> evbuffer) exec" where
  "evbuffer_prepend_buffer mm_malloc outbuf inbuf =
     join_buffers (freeze_start outbuf) PREPEND_CHAIN mm_malloc outbuf inbuf"

section \<open>Part of a buffer\<close>

text \<open>
  The loop of \<open>evbuffer_remove_buffer\<close> that finds the chains to move whole: the chains passed, the
  bytes still wanted and the chains left. \<open>k\<close> is the distance to the chain \<open>last_with_datap\<close> leads to.
\<close>

fun move_loop :: "nat \<Rightarrow> nat \<Rightarrow> chain list \<Rightarrow> (chain list \<times> nat \<times> nat \<times> chain list) exec" where
  "move_loop datlen k [] = Inl Null_Deref"
| "move_loop datlen k (ch # chs) =
     (if ch_off ch \<le> datlen
      then if k = 0 then Inl Assert_Failed
           else bindE (move_loop (datlen - ch_off ch) (k - 1) chs)
                  (\<lambda>(moved, n, k', rest). Inr (ch # moved, n, k', rest))
      else Inr ([], datlen, k, ch # chs))"

definition evbuffer_remove_buffer ::
    "allocator \<Rightarrow> evbuffer \<Rightarrow> evbuffer \<Rightarrow> nat \<Rightarrow> (int \<times> evbuffer \<times> evbuffer) exec" where
  "evbuffer_remove_buffer mm_malloc src dst datlen =
     (if datlen = 0 then Inr (0, src, dst)
      else if freeze_end dst \<or> freeze_start src then Inr (-1, src, dst)
      else if datlen \<ge> total_len src
      then bindE (evbuffer_add_buffer mm_malloc dst src)
             (\<lambda>(_, dst', src'). Inr (to_ssize (total_len src), src', dst'))
      else
        bindE (move_loop datlen (last_with_datap src) (eb_chains src))
          (\<lambda>(moved, datlen', k, rest).
             let nread = chains_len moved in
             bindE
               (if nread \<noteq> 0
                then bindE (evbuffer_free_trailing_empty_chains dst)
                       (\<lambda>(_, dst).
                          Inr (src\<lparr>eb_chains := rest, last_with_datap := k\<rparr>,
                               count_added nread
                                 (grow_total nread
                                   (advance_last_with_data (dst\<lparr>eb_chains := eb_chains dst @ moved\<rparr>))),
                               []))
                else Inr (src\<lparr>last_with_datap := (if last_with_datap src = length moved then 0
                                                 else last_with_datap src)\<rparr>, dst, moved))
               (\<lambda>(src, dst, kept).
                  case rest of
                    [] \<Rightarrow> Inl Null_Deref
                  | ch # chs \<Rightarrow>
                      bindE (evbuffer_add mm_malloc dst
                               (mem_read (ch_misalign ch) datlen' (ch_buffer ch)))
                        (\<lambda>(_, dst).
                           let nread = nread + datlen';
                               src = count_deleted nread
                                       (src\<lparr>eb_chains := kept @ chain_drop datlen' ch # chs,
                                            total_len := subz (total_len src) nread\<rparr>)
                           in Inr (to_ssize nread,
                                   if nread \<noteq> 0 then evbuffer_invoke_callbacks src else src,
                                   if nread \<noteq> 0 then evbuffer_invoke_callbacks dst else dst)))))"

section \<open>Joining whole buffers\<close>

text \<open>
  A pending overlapped read has pinned every chain behind the last one with data: what
  \<open>PRESERVE_PINNED\<close> expects when the last chain is pinned.
\<close>

definition tail_pinned :: "evbuffer \<Rightarrow> bool" where
  "tail_pinned b \<longleftrightarrow>
     (HAS_PINNED_R b \<longrightarrow>
        (\<forall>i < length (eb_chains b). last_with_datap b < i \<longrightarrow> CHAIN_PINNED_R (eb_chains b ! i)))"

lemma lwd_has_data:
  assumes "evbuffer_ok b" and "total_len b \<noteq> 0"
  shows "eb_chains b \<noteq> []" and "last_with_datap b < length (eb_chains b)"
    and "ch_off (eb_chains b ! last_with_datap b) \<noteq> 0"
proof -
  note okD = evbuffer_okD [OF assms(1)]
  show ne: "eb_chains b \<noteq> []" using okD(2) assms(2) by auto
  with okD(4) show "last_with_datap b < length (eb_chains b)" by (simp add: lwd_ok_def)
  show "ch_off (eb_chains b ! last_with_datap b) \<noteq> 0"
    using okD(2,4) assms(2) ne by (cases "eb_chains b") (auto simp: lwd_ok_def)
qed

text \<open>
  The chains that stay in the source: the pinned ones from the last chain with data on, in the same memory. The bytes
  of the first one are copied, and its free space still begins at the same place.
\<close>

definition emptied :: "chain \<Rightarrow> chain" where
  "emptied ch = ch\<lparr>ch_misalign := ch_misalign ch + ch_off ch, ch_off := 0\<rparr>"

definition left_behind :: "evbuffer \<Rightarrow> chain list" where
  "left_behind b =
     (if HAS_PINNED_R b then map emptied (filter CHAIN_PINNED_R (drop (last_with_datap b) (eb_chains b))) else [])"

lemma map_emptied: "\<forall>ch\<in>set chs. ch_off ch = 0 \<Longrightarrow> map emptied chs = chs"
  by (induction chs) (auto simp: emptied_def)

text \<open>
  What \<open>PRESERVE_PINNED\<close> sets aside are these chains; the source keeps its bytes, and none of the chains that are
  left in it is pinned unless it comes before the last one with data.
\<close>

definition preserves :: "evbuffer \<Rightarrow> evbuffer \<times> chain list \<Rightarrow> bool" where
  "preserves src res \<longleftrightarrow>
     (case res of (src', pinned) \<Rightarrow>
        evbuffer_ok src' \<and> contents src' = contents src \<and> total_len src' = total_len src
        \<and> chain_frame src src' \<and> (no_spare src \<longrightarrow> no_spare src')
        \<and> pinned = left_behind src \<and> (\<forall>ch\<in>set pinned. chain_ok ch \<and> ch_off ch = 0)
        \<and> (HAS_PINNED_R src \<longrightarrow> (\<forall>ch\<in>set (eb_chains src').
              CHAIN_PINNED_R ch \<longrightarrow> ch \<in> set (take (last_with_datap src) (eb_chains src)))))"

lemma preserves_split:
  assumes ok: "evbuffer_ok b" and chs: "eb_chains b = pre @ [c] @ post" "last_with_datap b = length pre"
    and c': "chain_ok c'" "chain_data c' = chain_data c" "ch_off c' = ch_off c" "\<not> CHAIN_PINNED_R c'"
    and pinned: "pinned = left_behind b" "\<forall>ch\<in>set pinned. chain_ok ch \<and> ch_off ch = 0"
  shows "preserves b (b\<lparr>eb_chains := pre @ [c']\<rparr>, pinned)"
proof -
  note okD = evbuffer_okD [OF ok]
  have post: "\<forall>ch\<in>set post. ch_off ch = 0" and cd: "pre = [] \<or> ch_off c \<noteq> 0"
    using okD(4) chs by (auto simp: lwd_ok_def nth_append)
  then have "chains_len post = 0" by simp
  with okD chs c' pinned post cd show ?thesis
    by (auto simp: preserves_def evbuffer_ok_def contents_def no_spare_def chains_data_all_empty
        lwd_ok_def nth_append)
qed

lemma PRESERVE_PINNED_runs:
  assumes m: "malloc_ok mm_malloc" and ok: "evbuffer_ok b" "pinned_ok b" "tail_pinned b"
    and ne: "total_len b \<noteq> 0"
  shows "runs (PRESERVE_PINNED mm_malloc b)
           (\<lambda>r. case r of None \<Rightarrow> out_of_memory mm_malloc | Some res \<Rightarrow> preserves b res)"
proof (cases "HAS_PINNED_R b")
  case False
  with ok show ?thesis by (simp add: PRESERVE_PINNED_def preserves_def left_behind_def)
next
  case pin: True
  let ?chs = "eb_chains b" and ?k = "last_with_datap b"
  note okD = evbuffer_okD [OF ok(1)] and k = lwd_has_data [OF ok(1) ne]
  let ?c = "?chs ! ?k" and ?pre = "take ?k ?chs" and ?post = "drop (Suc ?k) ?chs"
  have split: "?chs = ?pre @ [?c] @ ?post" "?k = length ?pre"
    using k(2) by (simp_all add: id_take_nth_drop)
  have cok: "chain_ok ?c" using okD(1) k(2) by simp
  have post: "\<forall>ch\<in>set ?post. chain_ok ch \<and> ch_off ch = 0"
    using okD(1,4) k(1) by (auto simp: lwd_ok_def dest: in_set_dropD)
  have "\<forall>ch\<in>set ?post. CHAIN_PINNED_R ch"
    using ok(3) pin by (auto simp: tail_pinned_def in_set_conv_nth)
  then have "map emptied (filter CHAIN_PINNED_R ?post) = ?post" using post by (simp add: map_emptied)
  moreover have "drop ?k ?chs = ?c # ?post" using k(2) by (simp add: Cons_nth_drop_Suc)
  ultimately have left: "left_behind b = (if CHAIN_PINNED_R ?c then emptied ?c # ?post else ?post)"
    using pin by (simp add: left_behind_def)
  show ?thesis
  proof (cases "CHAIN_PINNED_R ?c")
    case True
    let ?emp = "?c\<lparr>ch_misalign := ch_misalign ?c + ch_off ?c, ch_off := 0\<rparr>"
    have mut: "EVBUFFER_IMMUTABLE \<notin> ch_flags ?c"
      using ok(2) True k(2) by (auto simp: pinned_ok_def pins_ok_def)
    then have emp: "chain_ok ?emp" using cok by (simp add: chain_ok_def)
    have sz: "ch_off ?c \<le> CHAIN_MAX" using cok by (auto simp: chain_ok_def)
    show ?thesis
    proof (rule chain_new_cases [OF m sz], goal_cases fail new)
      case fail
      show ?thesis using True pin k by (simp add: PRESERVE_PINNED_def Let_def fail)
    next
      case (new tmp)
      note f = fresh_chainD [OF new(2)]
      let ?t = "chain_append (chain_data ?c) tmp"
      have t: "chain_ok ?t" "chain_data ?t = chain_data ?c" "ch_off ?t = ch_off ?c" "\<not> CHAIN_PINNED_R ?t"
        using f cok by (auto simp: chain_append_data CHAIN_PINNED_R_def intro!: chain_append_ok)
      have "preserves b (b\<lparr>eb_chains := ?pre @ [?t]\<rparr>, ?emp # ?post)"
        using emp post True by (intro preserves_split [OF ok(1) split t]) (simp_all add: left emptied_def)
      with True pin k new(1) show ?thesis
        by (simp add: PRESERVE_PINNED_def Let_def chain_data_def [symmetric])
    qed
  next
    case False
    have k1: "Suc ?k < length ?chs"
    proof -
      have "?k \<noteq> length ?chs - 1" using False pin by (auto simp: HAS_PINNED_R_def last_conv_nth)
      with k(2) show ?thesis by linarith
    qed
    then have p1: "CHAIN_PINNED_R (?chs ! Suc ?k)" and o1: "ch_off (?chs ! Suc ?k) = 0"
      using ok(3) pin okD(4) by (auto simp: tail_pinned_def intro: lwd_ok_after)
    have "take (Suc ?k) ?chs = ?pre @ [?c]" using k(2) by (rule take_Suc_conv_app_nth)
    with preserves_split [OF ok(1) split cok refl refl False _ post] left False
    have "preserves b (b\<lparr>eb_chains := take (Suc ?k) ?chs\<rparr>, ?post)" by simp
    with False pin k k1 p1 o1 show ?thesis by (simp add: PRESERVE_PINNED_def Let_def)
  qed
qed

text \<open>The three ways to put the chains together.\<close>

lemma join_chains:
  "eb_chains (APPEND_CHAIN dst src) = eb_chains dst @ eb_chains src"
  "eb_chains (PREPEND_CHAIN dst src) = eb_chains src @ eb_chains dst"
  by (simp_all add: APPEND_CHAIN_def PREPEND_CHAIN_def)

lemma COPY_CHAIN_ok:
  "evbuffer_ok src \<Longrightarrow> evbuffer_ok (COPY_CHAIN dst src) \<and> contents (COPY_CHAIN dst src) = contents src
     \<and> no_spare (COPY_CHAIN dst src) = no_spare src"
  by (simp add: COPY_CHAIN_def evbuffer_ok_def contents_def no_spare_def)

lemma APPEND_CHAIN_ok:
  assumes ok: "evbuffer_ok dst" "evbuffer_ok src" "total_len src \<noteq> 0"
    and sz: "total_len dst + total_len src < SIZE_MOD"
  shows "evbuffer_ok (APPEND_CHAIN dst src)" "contents (APPEND_CHAIN dst src) = contents dst @ contents src"
    "no_spare src \<Longrightarrow> no_spare (APPEND_CHAIN dst src)"
proof -
  note k = lwd_has_data [OF ok(2,3)] and s = evbuffer_okD [OF ok(2)] and d = evbuffer_okD [OF ok(1)]
  have "lwd_ok (eb_chains dst @ eb_chains src) (length (eb_chains dst) + last_with_datap src)"
    using k s(4) by (auto simp: lwd_ok_def)
  then show "evbuffer_ok (APPEND_CHAIN dst src)"
    using s d sz by (auto simp: APPEND_CHAIN_def evbuffer_ok_def addz_exact)
  show "contents (APPEND_CHAIN dst src) = contents dst @ contents src"
    by (simp add: APPEND_CHAIN_def contents_def)
  show "no_spare src \<Longrightarrow> no_spare (APPEND_CHAIN dst src)"
    using k(1) by (auto simp: APPEND_CHAIN_def no_spare_def)
qed

lemma PREPEND_CHAIN_ok:
  assumes ok: "evbuffer_ok dst" "evbuffer_ok src" "total_len dst \<noteq> 0"
    and sz: "total_len dst + total_len src < SIZE_MOD"
  shows "evbuffer_ok (PREPEND_CHAIN dst src)" "contents (PREPEND_CHAIN dst src) = contents src @ contents dst"
proof -
  note k = lwd_has_data [OF ok(1,3)] and s = evbuffer_okD [OF ok(2)] and d = evbuffer_okD [OF ok(1)]
  have "lwd_ok (eb_chains src @ eb_chains dst) (length (eb_chains src) + last_with_datap dst)"
    using k d(4) by (auto simp: lwd_ok_def)
  then show "evbuffer_ok (PREPEND_CHAIN dst src)"
    using s d sz k by (auto simp: PREPEND_CHAIN_def evbuffer_ok_def addz_exact)
  show "contents (PREPEND_CHAIN dst src) = contents src @ contents dst"
    by (simp add: PREPEND_CHAIN_def contents_def)
qed

lemma RESTORE_PINNED_ok:
  assumes "\<forall>ch\<in>set pinned. chain_ok ch \<and> ch_off ch = 0"
  shows "evbuffer_ok (RESTORE_PINNED src pinned)" "contents (RESTORE_PINNED src pinned) = []"
  using assms
  by (auto simp: RESTORE_PINNED_def ZERO_CHAIN_def evbuffer_ok_def contents_def lwd_ok_def SIZE_MOD_def
      chains_data_all_empty dest: in_set_dropD)

text \<open>What a successful move of all bytes leaves: the joined bytes and an empty source.\<close>

definition joins :: "evbuffer \<Rightarrow> evbuffer \<Rightarrow> byte list \<Rightarrow> int \<times> evbuffer \<times> evbuffer \<Rightarrow> bool" where
  "joins out inb bs res \<longleftrightarrow>
     (case res of (r, out', in') \<Rightarrow>
        r = 0 \<and> evbuffer_ok out' \<and> evbuffer_ok in' \<and> contents out' = bs \<and> contents in' = []
        \<and> eb_chains in' = left_behind inb
        \<and> (HAS_PINNED_R inb \<longrightarrow> (\<forall>ch\<in>set (eb_chains out'). CHAIN_PINNED_R ch \<longrightarrow>
              ch \<in> set (eb_chains out) \<union> set (take (last_with_datap inb) (eb_chains inb)))))"

lemma join_buffers_runs:
  assumes m: "malloc_ok mm_malloc" and ok: "evbuffer_ok out" "evbuffer_ok inb" "pinned_ok inb" "tail_pinned inb"
    and fr: "\<not> frozen" "\<not> freeze_start inb" and ne: "total_len inb \<noteq> 0"
    and join: "\<And>src. evbuffer_ok src \<Longrightarrow> contents src = contents inb \<Longrightarrow> total_len src = total_len inb
        \<Longrightarrow> (no_spare inb \<longrightarrow> no_spare src)
        \<Longrightarrow> total_len out \<noteq> 0 \<Longrightarrow> evbuffer_ok (join out src) \<and> contents (join out src) = bs
              \<and> (P \<longrightarrow> no_spare inb \<longrightarrow> no_spare (join out src))
              \<and> set (eb_chains (join out src)) \<subseteq> set (eb_chains out) \<union> set (eb_chains src)"
    and bs: "total_len out = 0 \<Longrightarrow> bs = contents inb"
  shows "runs (join_buffers frozen join mm_malloc out inb)
           (\<lambda>res. res = (-1, out, inb) \<and> out_of_memory mm_malloc
              \<or> joins out inb bs res \<and> (P \<longrightarrow> no_spare inb \<longrightarrow> no_spare (fst (snd res))))"
  using PRESERVE_PINNED_runs [OF m ok(2-4) ne]
proof (rule runsE, goal_cases)
  case (1 r)
  show ?case
  proof (cases r)
    case None
    with 1 fr ne show ?thesis by (simp add: join_buffers_def)
  next
    case (Some res)
    then obtain src pinned where r: "r = Some (src, pinned)" by (cases res) auto
    with 1(2) have src: "evbuffer_ok src" "contents src = contents inb" "total_len src = total_len inb"
      "no_spare inb \<longrightarrow> no_spare src"
      and pn: "\<forall>ch\<in>set pinned. chain_ok ch \<and> ch_off ch = 0" "pinned = left_behind inb"
      and kept: "\<And>ch. HAS_PINNED_R inb \<Longrightarrow> CHAIN_PINNED_R ch \<Longrightarrow> ch \<in> set (eb_chains src)
          \<Longrightarrow> ch \<in> set (take (last_with_datap inb) (eb_chains inb))"
      by (auto simp: preserves_def)
    define out1 where "out1 = (if total_len out = 0 then COPY_CHAIN (free_chains (eb_chains out) out) src
                               else join out src)"
    have o1: "evbuffer_ok out1" "contents out1 = bs" "P \<longrightarrow> no_spare inb \<longrightarrow> no_spare out1"
      using join [OF src] COPY_CHAIN_ok [OF src(1)] bs src(2,4) by (auto simp: out1_def)
    have "set (eb_chains out1) \<subseteq> set (eb_chains out) \<union> set (eb_chains src)"
      using join [OF src] by (auto simp: out1_def COPY_CHAIN_def)
    with kept have out: "HAS_PINNED_R inb \<longrightarrow> (\<forall>ch\<in>set (eb_chains out1). CHAIN_PINNED_R ch \<longrightarrow>
        ch \<in> set (eb_chains out) \<union> set (take (last_with_datap inb) (eb_chains inb)))" by blast
    have inp: "eb_chains (RESTORE_PINNED src pinned) = left_behind inb"
      by (simp add: RESTORE_PINNED_def ZERO_CHAIN_def pn(2))
    have "join_buffers frozen join mm_malloc out inb =
        Inr (0, evbuffer_invoke_callbacks (count_added (total_len inb) out1),
             evbuffer_invoke_callbacks (count_deleted (total_len inb) (RESTORE_PINNED src pinned)))"
      using 1(1) r fr ne by (simp add: join_buffers_def out1_def Let_def)
    with o1 RESTORE_PINNED_ok [OF pn(1)] out inp show ?thesis by (simp add: joins_def)
  qed
qed

lemma evbuffer_add_buffer_runs:
  assumes "malloc_ok mm_malloc" and "evbuffer_ok out" "evbuffer_ok inb" "pinned_ok inb" "tail_pinned inb"
    and "\<not> freeze_end out" "\<not> freeze_start inb" and "total_len inb \<noteq> 0"
    and "total_len out + total_len inb < SIZE_MOD"
  shows "runs (evbuffer_add_buffer mm_malloc out inb)
           (\<lambda>res. res = (-1, out, inb) \<and> out_of_memory mm_malloc
              \<or> joins out inb (contents out @ contents inb) res \<and> (no_spare inb \<longrightarrow> no_spare (fst (snd res))))"
proof -
  have "runs (join_buffers (freeze_end out) APPEND_CHAIN mm_malloc out inb)
      (\<lambda>res. res = (-1, out, inb) \<and> out_of_memory mm_malloc
         \<or> joins out inb (contents out @ contents inb) res \<and> (True \<longrightarrow> no_spare inb \<longrightarrow> no_spare (fst (snd res))))"
    using assms(1-8)
    by (rule join_buffers_runs)
      (use assms(2,8,9) in \<open>auto simp: APPEND_CHAIN_ok contents_empty_iff join_chains\<close>)
  then show ?thesis by (simp add: evbuffer_add_buffer_def)
qed

lemma evbuffer_prepend_buffer_runs:
  assumes "malloc_ok mm_malloc" and "evbuffer_ok out" "evbuffer_ok inb" "pinned_ok inb" "tail_pinned inb"
    and "\<not> freeze_start out" "\<not> freeze_start inb" and "total_len inb \<noteq> 0"
    and "total_len out + total_len inb < SIZE_MOD"
  shows "runs (evbuffer_prepend_buffer mm_malloc out inb)
           (\<lambda>res. res = (-1, out, inb) \<and> out_of_memory mm_malloc \<or> joins out inb (contents inb @ contents out) res)"
proof -
  have "runs (join_buffers (freeze_start out) PREPEND_CHAIN mm_malloc out inb)
      (\<lambda>res. res = (-1, out, inb) \<and> out_of_memory mm_malloc
         \<or> joins out inb (contents inb @ contents out) res \<and> (False \<longrightarrow> no_spare inb \<longrightarrow> no_spare (fst (snd res))))"
    using assms(1-8)
    by (rule join_buffers_runs)
      (use assms(2,8,9) in \<open>auto simp: PREPEND_CHAIN_ok contents_empty_iff join_chains\<close>)
  then show ?thesis by (simp add: evbuffer_prepend_buffer_def)
qed

section \<open>Moving a part\<close>

text \<open>No empty chain in front of the last one with data.\<close>

definition dense :: "evbuffer \<Rightarrow> bool" where
  "dense b \<longleftrightarrow> (\<forall>i < last_with_datap b. ch_off (eb_chains b ! i) \<noteq> 0)"

text \<open>The chains passed by the loop are moved as a whole, the next one is cut.\<close>

definition moves :: "chain list \<Rightarrow> nat \<Rightarrow> nat \<Rightarrow> chain list \<times> nat \<times> nat \<times> chain list \<Rightarrow> bool" where
  "moves chs k n res \<longleftrightarrow>
     (case res of (moved, n', k', rest) \<Rightarrow>
        chs = moved @ rest \<and> rest \<noteq> [] \<and> n' < ch_off (hd rest) \<and> n = chains_len moved + n'
        \<and> k = length moved + k' \<and> lwd_ok rest k')"

lemma move_loop_runs:
  "lwd_ok chs k \<Longrightarrow> n < chains_len chs \<Longrightarrow> runs (move_loop n k chs) (moves chs k n)"
proof (induction chs arbitrary: n k)
  case Nil
  then show ?case by simp
next
  case (Cons ch chs)
  show ?case
  proof (cases "ch_off ch \<le> n")
    case False
    with Cons.prems show ?thesis by (simp add: moves_def)
  next
    case True
    have k: "k \<noteq> 0"
    proof
      assume "k = 0"
      with Cons.prems(1) have "chains_len chs = 0" by (simp add: lwd_ok_def)
      with True Cons.prems(2) show False by simp
    qed
    from Cons.IH [OF lwd_ok_tl [OF Cons.prems(1)], of "n - ch_off ch"] True Cons.prems(2)
    have "runs (move_loop (n - ch_off ch) (k - 1) chs) (moves chs (k - 1) (n - ch_off ch))" by auto
    with True k show ?thesis
      by (auto simp: runs_bindE moves_def elim!: runs_mono)
  qed
qed

text \<open>The empty chains at the end of the destination make room for the moved ones.\<close>

lemma skip_used_data:
  "\<forall>c\<in>set chs. \<not> CHAIN_PINNED c \<and> ch_off c = 0 \<Longrightarrow> skip_used chs = 0"
  by (cases chs) auto

lemma free_trailing_runs:
  assumes ok: "evbuffer_ok b" and pin: "\<forall>ch\<in>set (eb_chains b). \<not> CHAIN_PINNED ch"
  shows "runs (evbuffer_free_trailing_empty_chains b)
     (\<lambda>(_, d). eb_chains d = (if total_len b = 0 then [] else take (Suc (last_with_datap b)) (eb_chains b))
        \<and> last_with_datap d = last_with_datap b \<and> total_len d = total_len b \<and> chain_frame b d)"
proof -
  let ?chs = "eb_chains b" and ?k = "last_with_datap b"
  note okD = evbuffer_okD [OF ok]
  have emp: "\<forall>ch\<in>set (drop (first_victim b) ?chs). ch_off ch = 0" by (rule first_victim_empty [OF okD(4)])
  have v: "take (first_victim b) ?chs = (if total_len b = 0 then [] else take (Suc ?k) ?chs)"
  proof (cases "total_len b = 0")
    case True
    with okD have z: "\<forall>c\<in>set ?chs. ch_off c = 0" by simp
    have "skip_used ?chs = 0" using z pin by (intro skip_used_data) simp
    moreover have "?k = 0" using okD(4) z by (cases "?chs = []") (auto simp: lwd_ok_def)
    ultimately show ?thesis using True by (simp add: first_victim_def)
  next
    case False
    note k = lwd_has_data [OF ok False]
    have "\<forall>c\<in>set (drop (Suc ?k) ?chs). \<not> CHAIN_PINNED c \<and> ch_off c = 0"
      using okD(4) pin k(1) by (auto simp: lwd_ok_def dest: in_set_dropD)
    then have "skip_used (drop ?k ?chs) = 1"
      using k(2,3) by (simp add: Cons_nth_drop_Suc [symmetric] skip_used_data)
    with False show ?thesis by (simp add: first_victim_def)
  qed
  show ?thesis
  proof (cases "first_victim b < length ?chs")
    case True
    with emp v show ?thesis by (simp add: evbuffer_free_trailing_empty_chains_def Let_def)
  next
    case False
    with v show ?thesis by (simp add: evbuffer_free_trailing_empty_chains_def Let_def)
  qed
qed

lemma count_data_all: "\<forall>c\<in>set chs. ch_off c \<noteq> 0 \<Longrightarrow> count_data chs = length chs"
  by (induction chs) auto

lemma attach_runs:
  assumes ok: "evbuffer_ok b" and pin: "\<forall>ch\<in>set (eb_chains b). \<not> CHAIN_PINNED ch"
    and mv: "\<forall>c\<in>set mv. chain_ok c \<and> ch_off c \<noteq> 0" "mv \<noteq> []"
    and sz: "total_len b + chains_len mv < SIZE_MOD"
  shows "runs (evbuffer_free_trailing_empty_chains b)
     (\<lambda>(_, d). let d' = grow_total (chains_len mv) (advance_last_with_data (d\<lparr>eb_chains := eb_chains d @ mv\<rparr>))
        in evbuffer_ok d' \<and> no_spare d' \<and> contents d' = contents b @ chains_data mv
           \<and> total_len d' = total_len b + chains_len mv \<and> freeze_end d' = freeze_end b)"
  using free_trailing_runs [OF ok pin]
proof (rule runs_mono, goal_cases)
  case (1 res)
  obtain i d where res: "res = (i, d)" by (cases res)
  let ?chs = "eb_chains b" and ?k = "last_with_datap b"
  define keep where "keep = (if total_len b = 0 then [] else take (Suc ?k) ?chs)"
  have d: "eb_chains d = keep" "last_with_datap d = ?k" "total_len d = total_len b"
    "freeze_end d = freeze_end b"
    using 1 by (simp_all add: res keep_def chain_frame_fields)
  note okD = evbuffer_okD [OF ok]
  have z: "total_len b = 0 \<Longrightarrow> ?k = 0 \<and> (\<forall>c\<in>set ?chs. ch_off c = 0)"
    using okD(2,4) by (cases "?chs = []") (auto simp: lwd_ok_def)
  have k: "total_len b \<noteq> 0 \<Longrightarrow> length keep = Suc ?k"
    using lwd_has_data(2) [OF ok] by (simp add: keep_def)
  have rest: "total_len b \<noteq> 0 \<Longrightarrow> \<forall>c\<in>set (drop (Suc ?k) ?chs). ch_off c = 0"
    using okD(4) lwd_has_data(1) [OF ok] by (simp add: lwd_ok_def)
  have cnt: "count_data mv = length mv" "count_data (drop (Suc 0) mv) = length mv - 1"
    using mv(1) count_data_all [of mv] count_data_all [of "drop (Suc 0) mv"]
    by (auto dest: in_set_dropD)
  have adv: "advance_last_with_data (d\<lparr>eb_chains := keep @ mv\<rparr>)
      = d\<lparr>eb_chains := keep @ mv, last_with_datap := length keep + length mv - 1\<rparr>"
  proof (cases "total_len b = 0")
    case True
    with z mv(2) cnt d show ?thesis by (simp add: advance_last_with_data_def keep_def)
  next
    case False
    with k mv(2) cnt d show ?thesis by (simp add: advance_last_with_data_def)
  qed
  have "?chs = keep @ drop (length keep) ?chs"
    using k by (cases "total_len b = 0") (simp_all add: keep_def)
  moreover have "\<forall>c\<in>set (drop (length keep) ?chs). ch_off c = 0"
    using z rest k by (cases "total_len b = 0") (auto simp: keep_def)
  ultimately have data: "chains_data keep = chains_data ?chs" "chains_len keep = chains_len ?chs"
    by (metis append_Nil2 chains_data_all_empty chains_data_simps(3),
        metis add.right_neutral chains_len_0_iff chains_len_simps(3))
  have oks: "\<forall>c\<in>set keep. chain_ok c" using okD(1) by (auto simp: keep_def dest: in_set_takeD)
  have "(keep @ mv) ! (length keep + length mv - 1) = last mv"
    using mv(2) last_conv_nth [of "keep @ mv"] by simp
  with mv have lw: "lwd_ok (keep @ mv) (length keep + length mv - 1)"
    by (simp add: lwd_ok_def)
  have "evbuffer_ok (d\<lparr>eb_chains := keep @ mv, last_with_datap := length keep + length mv - 1,
      total_len := total_len b + chains_len mv\<rparr>)"
    using oks mv(1) data(2) okD(2) sz lw by (auto simp: evbuffer_ok_def)
  then show ?case
    using d adv data(1) sz mv(2)
    by (simp add: res Let_def grow_total_def no_spare_def contents_def addz_exact)
qed


text \<open>An empty \<open>evbuffer_add\<close> may leave an empty chain at the end, and no bytes.\<close>

lemma add_last_empty:
  assumes m: "malloc_ok mm_malloc" and ok: "evbuffer_ok b" "eb_chains b \<noteq> []"
  shows "runs (evbuffer_add_last mm_malloc b [])
     (\<lambda>(r, b'). if r = 0 then evbuffer_ok b' \<and> contents b' = contents b else out_of_memory mm_malloc)"
proof -
  let ?l = "last (eb_chains b)"
  have lok: "chain_ok ?l" and tl: "total_len b < SIZE_MOD" using ok by (simp_all add: evbuffer_ok_def)
  have same: "grow_total 0 (set_last_chain ?l b) = b"
    using ok(2) tl by (simp add: grow_total_def set_last_chain_def addz_0_right)
  show ?thesis
  proof (cases "EVBUFFER_IMMUTABLE \<in> ch_flags ?l")
    case False
    then have "evbuffer_add_last mm_malloc b [] = Inr (0, evbuffer_invoke_callbacks (count_added 0 b))"
      by (simp add: evbuffer_add_last_def same)
    with ok show ?thesis by simp
  next
    case True
    then have rem: "chain_remain ?l = 0" by (simp add: chain_remain_def)
    have step: "evbuffer_add_last mm_malloc b [] = bindE (evbuffer_chain_new mm_malloc (next_chain_size ?l 0))
        (\<lambda>r. case r of None \<Rightarrow> Inr (-1, b)
         | Some tmp \<Rightarrow> bindE (evbuffer_chain_insert b tmp)
              (\<lambda>buf. Inr (0, evbuffer_invoke_callbacks (count_added 0 buf))))"
      using True rem
      by (simp add: evbuffer_add_last_def add_in_new_chain_def Let_def cong: option.case_cong)
    have sz: "next_chain_size ?l 0 \<le> CHAIN_MAX" using next_chain_size_bounds [OF lok, of 0] by simp
    show ?thesis
    proof (rule chain_new_cases [OF m sz], goal_cases fail new)
      case fail
      then show ?thesis by (simp add: step)
    next
      case (new tmp)
      note f = fresh_chainD [OF new(2)]
      have "runs (evbuffer_chain_insert b tmp) (\<lambda>b'. evbuffer_ok b' \<and> contents b' = contents b)"
        using chain_insert_runs [OF ok(1) f(1)] f(4,7) tl by (auto elim!: runs_mono)
      with new(1) show ?thesis by (simp add: step runs_bindE)
    qed
  qed
qed

lemma evbuffer_add_any:
  assumes m: "malloc_ok mm_malloc" and ok: "evbuffer_ok b" "no_spare b" and fr: "\<not> freeze_end b"
    and sz: "total_len b + length data < SIZE_MOD" "length data \<le> CHAIN_MAX"
  shows "runs (evbuffer_add mm_malloc b data)
     (\<lambda>(r, b'). if r = 0 then evbuffer_ok b' \<and> contents b' = contents b @ data else out_of_memory mm_malloc)"
proof (cases "data = [] \<and> eb_chains b \<noteq> []")
  case True
  with add_last_empty [OF m ok(1)] fr show ?thesis
    by (auto simp: evbuffer_add_def ensure_first_chain_def elim!: runs_mono)
next
  case False
  then have "data \<noteq> [] \<or> eb_chains b = [] \<or> EVBUFFER_IMMUTABLE \<notin> ch_flags (last (eb_chains b))" by blast
  from evbuffer_add_runs [OF m ok fr sz this] show ?thesis
    by (rule runs_mono) (auto dest: appends_ok)
qed


text \<open>A part of the source goes to the end of the destination.\<close>

definition transfers :: "evbuffer \<Rightarrow> evbuffer \<Rightarrow> nat \<Rightarrow> int \<times> evbuffer \<times> evbuffer \<Rightarrow> bool" where
  "transfers src dst n res \<longleftrightarrow>
     (case res of (r, src', dst') \<Rightarrow>
        r = int (min n (total_len src)) \<and> evbuffer_ok src' \<and> evbuffer_ok dst'
        \<and> contents dst' = contents dst @ take n (contents src) \<and> contents src' = drop n (contents src))"

text \<open>The source after the chains \<open>mv\<close> have gone and the next one has been cut.\<close>

lemma source_cut:
  assumes ok: "evbuffer_ok src" and mv: "moves (eb_chains src) (last_with_datap src) n (mv, n', k, ch # chs)"
  shows "evbuffer_ok (src\<lparr>last_with_datap := k, eb_chains := chain_drop n' ch # chs,
           total_len := total_len src - n\<rparr>)"
    and "chains_data (chain_drop n' ch # chs) = drop n (contents src)"
    and "take n (contents src) = chains_data mv @ mem_read (ch_misalign ch) n' (ch_buffer ch)"
proof -
  note okD = evbuffer_okD [OF ok]
  from mv have sp: "eb_chains src = mv @ ch # chs" "n' < ch_off ch" "n = chains_len mv + n'"
    "lwd_ok (ch # chs) k" by (simp_all add: moves_def)
  have oks: "\<forall>c\<in>set mv. chain_ok c" "chain_ok ch" "\<forall>c\<in>set chs. chain_ok c" using okD(1) sp(1) by auto
  have len: "length (chains_data mv) = chains_len mv" "length (chain_data ch) = ch_off ch"
    using oks by simp_all
  have "mem_read (ch_misalign ch) n' (ch_buffer ch) = take n' (chain_data ch)"
    using sp(2) by (simp add: chain_data_def mem_read_take)
  then show "take n (contents src) = chains_data mv @ mem_read (ch_misalign ch) n' (ch_buffer ch)"
    using sp len by (simp add: contents_def)
  show "chains_data (chain_drop n' ch # chs) = drop n (contents src)"
    using sp len by (simp add: contents_def chain_drop_data)
  show "evbuffer_ok (src\<lparr>last_with_datap := k, eb_chains := chain_drop n' ch # chs,
      total_len := total_len src - n\<rparr>)"
    using sp oks okD(2,3) lwd_ok_Cons_cong [OF sp(4)]
    by (simp add: evbuffer_ok_def chain_drop_ok)
qed

lemma remove_part_runs:
  assumes m: "malloc_ok mm_malloc" "\<not> out_of_memory mm_malloc"
    and ok: "evbuffer_ok src" "dense src" "evbuffer_ok dst" "no_spare dst"
      "\<forall>ch\<in>set (eb_chains dst). \<not> CHAIN_PINNED ch"
    and fr: "\<not> freeze_start src" "\<not> freeze_end dst"
    and sz: "total_len dst + total_len src < SIZE_MOD" and n: "0 < n" "n < total_len src" "n \<le> SSIZE_MAX"
  shows "runs (evbuffer_remove_buffer mm_malloc src dst n) (transfers src dst n)"
proof -
  note okD = evbuffer_okD [OF ok(1)]
  have "runs (move_loop n (last_with_datap src) (eb_chains src))
      (moves (eb_chains src) (last_with_datap src) n)"
    using okD n(2) by (intro move_loop_runs) simp_all
  then obtain mv n' k rest where ml: "move_loop n (last_with_datap src) (eb_chains src) = Inr (mv, n', k, rest)"
    and mv0: "moves (eb_chains src) (last_with_datap src) n (mv, n', k, rest)"
    by (elim runsE) (metis prod_cases4)
  then obtain ch chs where rest: "rest = ch # chs" by (cases rest) (auto simp: moves_def)
  note mv = mv0 [unfolded rest]
  note cut = source_cut [OF ok(1) mv]
  from mv have sp: "eb_chains src = mv @ ch # chs" "n' < ch_off ch" "n = chains_len mv + n'"
    "last_with_datap src = length mv + k" by (simp_all add: moves_def)
  have chok: "chain_ok ch" using okD(1) sp(1) by simp
  define part where "part = mem_read (ch_misalign ch) n' (ch_buffer ch)"
  have part: "length part = n'" "length part \<le> CHAIN_MAX"
    using chok sp(2) by (auto simp: part_def chain_ok_def mem_simps)
  have "ch_off (mv ! i) \<noteq> 0" if "i < length mv" for i
    using ok(2) sp(1,4) that by (auto simp: dense_def nth_append dest: spec [of _ i])
  then have full: "\<forall>c\<in>set mv. chain_ok c \<and> ch_off c \<noteq> 0"
    using okD(1) sp(1) by (auto simp: in_set_conv_nth)
  have sub: "subz (total_len src) n = total_len src - n" using okD(3) n(2) by (simp add: subz_exact)
  have fin: "runs (bindE (evbuffer_add mm_malloc d part) (\<lambda>(_, d').
        Inr (to_ssize n, evbuffer_invoke_callbacks (count_deleted n (src\<lparr>last_with_datap := k,
          eb_chains := chain_drop n' ch # chs, total_len := subz (total_len src) n\<rparr>)),
          evbuffer_invoke_callbacks d'))) (transfers src dst n)"
    if d: "evbuffer_ok d" "no_spare d" "contents d = contents dst @ chains_data mv" "\<not> freeze_end d"
      "total_len d = total_len dst + chains_len mv" for d
  proof -
    have "total_len d + length part < SIZE_MOD" using d(5) sz n(2) part sp(3) by simp
    from evbuffer_add_any [OF m(1) d(1,2,4) this part(2)]
    have "runs (evbuffer_add mm_malloc d part)
        (\<lambda>(r, d'). evbuffer_ok d' \<and> contents d' = contents dst @ take n (contents src))"
      using m(2) cut(3) d(3) by (auto simp: part_def elim!: runs_mono split: if_splits)
    moreover have "contents (src\<lparr>last_with_datap := k, eb_chains := chain_drop n' ch # chs,
        total_len := total_len src - n\<rparr>) = drop n (contents src)"
      using cut(2) by (simp add: contents_def)
    ultimately show ?thesis
      using cut(1) n by (auto simp: runs_bindE transfers_def sub min_def elim!: runs_mono)
  qed
  show ?thesis
  proof (cases "mv = []")
    case True
    have "src\<lparr>last_with_datap := k, eb_chains := x, total_len := t\<rparr>
        = src\<lparr>eb_chains := x, total_len := t\<rparr>" for x t using sp(4) True by (cases src) simp
    then have "evbuffer_remove_buffer mm_malloc src dst n =
      bindE (evbuffer_add mm_malloc dst part) (\<lambda>(_, d').
        Inr (to_ssize n, evbuffer_invoke_callbacks (count_deleted n (src\<lparr>last_with_datap := k,
          eb_chains := chain_drop n' ch # chs, total_len := subz (total_len src) n\<rparr>)),
          evbuffer_invoke_callbacks d'))"
      using True n fr ml rest sp
      by (auto simp: evbuffer_remove_buffer_def Let_def part_def)
    with fin [of dst] ok fr True show ?thesis by simp
  next
    case False
    then have nz: "chains_len mv \<noteq> 0" using full by (cases mv) auto
    have "total_len dst + chains_len mv < SIZE_MOD" using sz n(2) sp(3) by simp
    from attach_runs [OF ok(3,5) full False this] obtain i d0 where
      fe: "evbuffer_free_trailing_empty_chains dst = Inr (i, d0)" and
      d: "let d' = grow_total (chains_len mv) (advance_last_with_data (d0\<lparr>eb_chains := eb_chains d0 @ mv\<rparr>))
        in evbuffer_ok d' \<and> no_spare d' \<and> contents d' = contents dst @ chains_data mv
           \<and> total_len d' = total_len dst + chains_len mv \<and> freeze_end d' = freeze_end dst"
      by (elim runsE) auto
    define d1 where "d1 = grow_total (chains_len mv) (advance_last_with_data (d0\<lparr>eb_chains := eb_chains d0 @ mv\<rparr>))"
    have "evbuffer_remove_buffer mm_malloc src dst n =
      bindE (evbuffer_add mm_malloc (count_added (chains_len mv) d1) part) (\<lambda>(_, d').
        Inr (to_ssize n, evbuffer_invoke_callbacks (count_deleted n (src\<lparr>last_with_datap := k,
          eb_chains := chain_drop n' ch # chs, total_len := subz (total_len src) n\<rparr>)),
          evbuffer_invoke_callbacks d'))"
      using nz n fr ml rest fe
      by (simp add: evbuffer_remove_buffer_def Let_def part_def d1_def sp(3) [symmetric] del: chains_len_0_iff)
    with fin [of "count_added (chains_len mv) d1"] d fr show ?thesis
      by (simp add: d1_def [symmetric] Let_def)
  qed
qed


lemma remove_all_runs:
  assumes m: "malloc_ok mm_malloc" "\<not> out_of_memory mm_malloc"
    and ok: "evbuffer_ok src" "pinned_ok src" "tail_pinned src" "evbuffer_ok dst"
    and fr: "\<not> freeze_start src" "\<not> freeze_end dst"
    and sz: "total_len dst + total_len src < SIZE_MOD" and n: "n \<ge> total_len src" "total_len src \<le> SSIZE_MAX"
  shows "runs (evbuffer_remove_buffer mm_malloc src dst n) (transfers src dst n)"
proof -
  have all: "take n (contents src) = contents src" "drop n (contents src) = []"
    using n(1) length_contents [OF ok(1)] by simp_all
  show ?thesis
  proof (cases "n = 0 \<or> total_len src = 0")
    case True
    then have "evbuffer_remove_buffer mm_malloc src dst n = Inr (0, src, dst)"
      using n(1) fr by (auto simp: evbuffer_remove_buffer_def evbuffer_add_buffer_def join_buffers_def)
    moreover have "contents src = []" using True n(1) contents_empty_iff [OF ok(1)] by auto
    ultimately show ?thesis using True n(1) ok all by (auto simp: transfers_def)
  next
    case False
    have "runs (evbuffer_add_buffer mm_malloc dst src) (joins dst src (contents dst @ contents src))"
      using evbuffer_add_buffer_runs [OF m(1) ok(4,1-3) fr(2,1) _ sz] False m(2) by (auto elim!: runs_mono)
    then show ?thesis
      using False fr n all
      by (auto simp: evbuffer_remove_buffer_def runs_bindE joins_def transfers_def min_def elim!: runs_mono)
  qed
qed

section \<open>Properties\<close>

lemma sample_unpinned: "tail_pinned sample_buffer" "\<forall>ch\<in>set (eb_chains sample_buffer). \<not> CHAIN_PINNED ch"
  "dense sample_buffer"
  by (simp_all add: tail_pinned_def HAS_PINNED_R_def CHAIN_PINNED_R_def CHAIN_PINNED_def dense_def
      sample_buffer_def evbuffer_new_def)

text \<open>A buffer with two bytes in a chain into which a read is pending, and an empty chain of the same read.\<close>

definition pinned_chains :: "chain list" where
  "pinned_chains =
     [\<lparr>ch_addr = 128, ch_buffer = [20, 21, 0, 0], ch_buffer_len = 4, ch_misalign = 0, ch_off = 2,
       ch_flags = {EVBUFFER_MEM_PINNED_R}, ch_cleanup = None\<rparr>,
      \<lparr>ch_addr = 256, ch_buffer = [0, 0, 0, 0], ch_buffer_len = 4, ch_misalign = 0, ch_off = 0,
       ch_flags = {EVBUFFER_MEM_PINNED_R}, ch_cleanup = None\<rparr>]"

definition pinned_buffer :: evbuffer where
  "pinned_buffer = evbuffer_new\<lparr>eb_chains := pinned_chains, total_len := 2\<rparr>"

lemma pinned_buffer_ok:
  "evbuffer_ok pinned_buffer" "pinned_ok pinned_buffer" "tail_pinned pinned_buffer" "\<not> freeze_start pinned_buffer"
  "total_len pinned_buffer = 2" "contents pinned_buffer = [20, 21]" "HAS_PINNED_R pinned_buffer"
  "last_with_datap pinned_buffer = 0" "eb_chains pinned_buffer = pinned_chains"
  by (auto simp: pinned_buffer_def pinned_chains_def evbuffer_new_def evbuffer_ok_def chain_ok_def lwd_ok_def
      pinned_ok_def pins_ok_def tail_pinned_def HAS_PINNED_R_def CHAIN_PINNED_R_def contents_def chain_data_def mem_read_def
      CHAIN_MAX_def EVBUFFER_CHAIN_SIZE_def SIZE_MOD_def less_Suc_eq nth_Cons' split: if_splits)

text \<open>
  C12: \<open>evbuffer_add_buffer\<close> moves every byte of the source behind the bytes of the destination and leaves the source
  without bytes; it returns -1, with both buffers as they were, only if an allocation fails. The chains of the source
  into which a read is pending stay in it, in the same memory, with their free space where it was, and are the only
  ones that stay; none of them gets into the destination.
\<close>

theorem evbuffer_add_buffer_moves:
  assumes "malloc_ok mm_malloc" and "evbuffer_ok outb" and "evbuffer_ok inb" and "pinned_ok inb"
    and "tail_pinned inb" and "\<not> freeze_end outb" and "\<not> freeze_start inb" and "total_len inb \<noteq> 0"
    and "total_len outb + total_len inb < SIZE_MOD"
  shows "\<exists>r outb' inb'. evbuffer_add_buffer mm_malloc outb inb = Inr (r, outb', inb')
           \<and> evbuffer_ok outb' \<and> evbuffer_ok inb'
           \<and> (r = 0 \<and> contents outb' = contents outb @ contents inb \<and> contents inb' = []
                \<and> eb_chains inb' = (if HAS_PINNED_R inb
                     then map (\<lambda>ch. ch\<lparr>ch_misalign := ch_misalign ch + ch_off ch, ch_off := 0\<rparr>)
                            (filter CHAIN_PINNED_R (drop (last_with_datap inb) (eb_chains inb)))
                     else [])
                \<and> (HAS_PINNED_R inb \<longrightarrow> (\<forall>ch\<in>set (eb_chains outb'). CHAIN_PINNED_R ch \<longrightarrow>
                     ch \<in> set (eb_chains outb) \<union> set (take (last_with_datap inb) (eb_chains inb))))
              \<or> r = -1 \<and> outb' = outb \<and> inb' = inb \<and> out_of_memory mm_malloc)"
  using evbuffer_add_buffer_runs [OF assms] assms(2,3)
  unfolding runs_iff joins_def left_behind_def emptied_def [abs_def] by fastforce

theorem evbuffer_add_buffer_moves_witness:
  "\<exists>outb inb. evbuffer_add_buffer plain_malloc sample_buffer pinned_buffer = Inr (0, outb, inb)
      \<and> contents outb = [10, 11, 12, 20, 21] \<and> contents inb = []
      \<and> map (\<lambda>ch. (ch_addr ch, ch_misalign ch)) (eb_chains inb) = [(128, 2), (256, 0)]
      \<and> (\<forall>ch\<in>set (eb_chains outb). \<not> CHAIN_PINNED_R ch)"
proof -
  note pb = pinned_buffer_ok and sb = sample_buffer_ok
  have "total_len pinned_buffer \<noteq> 0" "total_len sample_buffer + total_len pinned_buffer < SIZE_MOD"
    by (simp_all add: pb(5) sb(7) SIZE_MOD_def)
  from evbuffer_add_buffer_moves [OF plain_malloc_ok(1) sb(1) pb(1-3) sb(6) pb(4) this] plain_malloc_ok(2)
  obtain outb inb where r: "evbuffer_add_buffer plain_malloc sample_buffer pinned_buffer = Inr (0, outb, inb)"
    "contents outb = contents sample_buffer @ contents pinned_buffer" "contents inb = []"
    "eb_chains inb = map (\<lambda>ch. ch\<lparr>ch_misalign := ch_misalign ch + ch_off ch, ch_off := 0\<rparr>)
                       (filter CHAIN_PINNED_R pinned_chains)"
    "\<forall>ch\<in>set (eb_chains outb). CHAIN_PINNED_R ch \<longrightarrow> ch \<in> set (eb_chains sample_buffer)"
    by (auto simp: pb(7-9))
  have "\<not> CHAIN_PINNED_R ch" if "ch \<in> set (eb_chains sample_buffer)" for ch
    using sample_unpinned(2) that by (auto simp: CHAIN_PINNED_R_def CHAIN_PINNED_def)
  with r show ?thesis by (auto simp: pb(6) sb(4) pinned_chains_def CHAIN_PINNED_R_def)
qed

text \<open>
  \<open>evbuffer_remove_buffer\<close> moves exactly the first \<open>n\<close> bytes of the source (all if there are
  fewer) behind the bytes of the destination and returns their number; the rest stays in the source.
\<close>

theorem evbuffer_remove_buffer_moves:
  assumes "malloc_ok mm_malloc" and "\<not> out_of_memory mm_malloc"
    and "evbuffer_ok src" and "dense src" and "pinned_ok src" and "tail_pinned src"
    and "evbuffer_ok dst" and "no_spare dst" and "\<forall>ch\<in>set (eb_chains dst). \<not> CHAIN_PINNED ch"
    and "\<not> freeze_start src" and "\<not> freeze_end dst"
    and "total_len dst + total_len src < SIZE_MOD" and "total_len src \<le> SSIZE_MAX"
  shows "\<exists>src' dst'. evbuffer_remove_buffer mm_malloc src dst n
             = Inr (int (min n (total_len src)), src', dst')
           \<and> evbuffer_ok src' \<and> evbuffer_ok dst'
           \<and> contents dst' = contents dst @ take n (contents src) \<and> contents src' = drop n (contents src)"
proof -
  have "runs (evbuffer_remove_buffer mm_malloc src dst n) (transfers src dst n)"
  proof (cases "total_len src \<le> n \<or> n = 0")
    case True
    then show ?thesis
    proof
      assume "total_len src \<le> n"
      with assms show ?thesis by (intro remove_all_runs) simp_all
    next
      assume "n = 0"
      with assms show ?thesis by (simp add: evbuffer_remove_buffer_def transfers_def)
    qed
  next
    case False
    with assms show ?thesis by (intro remove_part_runs) simp_all
  qed
  then show ?thesis by (auto simp: runs_iff transfers_def)
qed

theorem evbuffer_remove_buffer_moves_witness:
  "\<exists>src dst. evbuffer_remove_buffer plain_malloc sample_buffer sample_buffer 2 = Inr (2, src, dst)
      \<and> contents dst = [10, 11, 12, 10, 11] \<and> contents src = [12]"
  using evbuffer_remove_buffer_moves [OF plain_malloc_ok sample_buffer_ok(1) sample_unpinned(3)
      sample_buffer_ok(3) sample_unpinned(1) sample_buffer_ok(1,2) sample_unpinned(2)
      sample_buffer_ok(5,6), of 2] sample_buffer_ok(4,7)
  by (auto simp: SIZE_MOD_def SSIZE_MAX_def)

end
