(* ===== verification/Evbuffer_Stream.thy ===== *)
theory Evbuffer_Stream
  imports Evbuffer_Add Evbuffer_Drain Evbuffer_Pullup
begin

text \<open>
  What the users of an evbuffer inside libevent rely on, as interfaces: a source of bytes that can be
  made contiguous and drained, a sink that can be added to, and a channel that is both. The laws are
  proved for \<open>evbuffer_pullup\<close>, \<open>evbuffer_drain\<close>, \<open>evbuffer_get_length\<close> and \<open>evbuffer_add\<close>; the
  consequences proved inside the locales hold for every user.
\<close>

section \<open>Interfaces\<close>

locale byte_source =
  fixes env :: "'m \<Rightarrow> bool"
    and readable :: "'b \<Rightarrow> bool"
    and bytes :: "'b \<Rightarrow> byte list"
    and capacity :: nat
    and pullup :: "'m \<Rightarrow> 'b \<Rightarrow> int \<Rightarrow> (byte list option \<times> 'b) exec"
    and drain :: "'b \<Rightarrow> nat \<Rightarrow> (int \<times> 'b) exec"
    and len :: "'b \<Rightarrow> nat"
  assumes pullup_law: "env m \<Longrightarrow> readable b \<Longrightarrow> 0 < n \<Longrightarrow> n \<le> length (bytes b) \<Longrightarrow> n \<le> capacity
      \<Longrightarrow> \<exists>p b'. pullup m b (int n) = Inr (Some p, b') \<and> readable b' \<and> bytes b' = bytes b
             \<and> n \<le> length p \<and> take n p = take n (bytes b)"
    and pullup_nothing: "pullup m b 0 = Inr (None, b)"
    and drain_law: "readable b
      \<Longrightarrow> \<exists>b'. drain b n = Inr (0, b') \<and> readable b' \<and> bytes b' = drop n (bytes b)"
    and len_law: "readable b \<Longrightarrow> len b = length (bytes b)"
begin

text \<open>Looking at the first bytes and then removing them leaves the rest.\<close>

lemma peek_then_drain:
  assumes "env m" and "readable b" and "bytes b = xs @ ys" and "xs \<noteq> []" and "length xs \<le> capacity"
  shows "\<exists>p b1 b2. pullup m b (int (length xs)) = Inr (Some p, b1) \<and> take (length xs) p = xs
           \<and> drain b1 (length xs) = Inr (0, b2) \<and> readable b2 \<and> bytes b2 = ys"
proof -
  from pullup_law [OF assms(1,2), of "length xs"] assms(3-5) obtain p b1 where
    p: "pullup m b (int (length xs)) = Inr (Some p, b1)" "readable b1" "bytes b1 = bytes b"
      "take (length xs) p = xs" by auto
  from drain_law [OF p(2), of "length xs"] p(3) assms(3) obtain b2 where
    "drain b1 (length xs) = Inr (0, b2)" "readable b2" "bytes b2 = ys" by auto
  with p show ?thesis by blast
qed

text \<open>Every byte inside the prefix that was made contiguous is the byte of the stream.\<close>

lemma pullup_nth:
  assumes "env m" and "readable b" and "i < n" and "n \<le> length (bytes b)" and "n \<le> capacity"
  shows "\<exists>p b'. pullup m b (int n) = Inr (Some p, b') \<and> readable b' \<and> bytes b' = bytes b
           \<and> i < length p \<and> p ! i = bytes b ! i"
proof -
  from assms(3) have "0 < n" by simp
  from pullup_law [OF assms(1,2) this assms(4,5)] obtain p b' where
    p: "pullup m b (int n) = Inr (Some p, b')" "readable b'" "bytes b' = bytes b"
      "n \<le> length p" "take n p = take n (bytes b)" by auto
  from p(5) assms(3) have "p ! i = bytes b ! i" by (metis nth_take)
  with p assms(3) show ?thesis by auto
qed

text \<open>Draining in two steps is draining once.\<close>

lemma drain_twice:
  assumes "readable b"
  shows "\<exists>b1 b2. drain b i = Inr (0, b1) \<and> drain b1 j = Inr (0, b2) \<and> readable b2
           \<and> bytes b2 = drop (i + j) (bytes b)"
proof -
  from drain_law [OF assms, of i] obtain b1 where
    b1: "drain b i = Inr (0, b1)" "readable b1" "bytes b1 = drop i (bytes b)" by auto
  from drain_law [OF b1(2), of j] b1 show ?thesis by (fastforce simp: add.commute)
qed

end

locale byte_sink =
  fixes env :: "'m \<Rightarrow> bool"
    and writable :: "'b \<Rightarrow> bool"
    and bytes :: "'b \<Rightarrow> byte list"
    and capacity :: nat
    and add :: "'m \<Rightarrow> 'b \<Rightarrow> byte list \<Rightarrow> (int \<times> 'b) exec"
  assumes add_law: "env m \<Longrightarrow> writable b \<Longrightarrow> data \<noteq> [] \<Longrightarrow> length (bytes b) + length data \<le> capacity
      \<Longrightarrow> \<exists>b'. add m b data = Inr (0, b') \<and> writable b' \<and> bytes b' = bytes b @ data"
begin

text \<open>Two additions are one of the joined bytes.\<close>

lemma add_twice:
  assumes "env m" and "writable b" and "xs \<noteq> []" and "ys \<noteq> []"
    and "length (bytes b) + length xs + length ys \<le> capacity"
  shows "\<exists>b1 b2. add m b xs = Inr (0, b1) \<and> add m b1 ys = Inr (0, b2) \<and> writable b2
           \<and> bytes b2 = bytes b @ xs @ ys"
proof -
  from add_law [OF assms(1-3)] assms(5) obtain b1 where
    b1: "add m b xs = Inr (0, b1)" "writable b1" "bytes b1 = bytes b @ xs" by auto
  from add_law [OF assms(1) b1(2) assms(4)] b1 assms(5) show ?thesis by fastforce
qed

text \<open>Adding one block after the other.\<close>

fun add_all :: "'m \<Rightarrow> 'b \<Rightarrow> byte list list \<Rightarrow> 'b exec" where
  "add_all m b [] = Inr b"
| "add_all m b (xs # xss) = bindE (add m b xs) (\<lambda>(_, b). add_all m b xss)"

lemma add_all_concat:
  assumes "env m" and "writable b" and "[] \<notin> set xss"
    and "length (bytes b) + length (concat xss) \<le> capacity"
  shows "\<exists>b'. add_all m b xss = Inr b' \<and> writable b' \<and> bytes b' = bytes b @ concat xss"
  using assms(2-4)
proof (induction xss arbitrary: b)
  case Nil
  then show ?case by simp
next
  case (Cons xs xss)
  from add_law [OF assms(1) Cons.prems(1), of xs] Cons.prems(2,3) obtain b1 where
    b1: "add m b xs = Inr (0, b1)" "writable b1" "bytes b1 = bytes b @ xs" by auto
  from Cons.IH [OF b1(2)] Cons.prems(2,3) b1 show ?case by auto
qed

end

locale byte_channel = byte_source + byte_sink +
  assumes both_ways: "writable b \<Longrightarrow> readable b"
begin

text \<open>First in, first out: what was added to an empty channel can be read back in front.\<close>

lemma fifo:
  assumes "env m" and "writable b" and "bytes b = []" and "xs \<noteq> []" and "ys \<noteq> []"
    and "length xs + length ys \<le> capacity"
  shows "\<exists>b1 b2 p b3 b4. add m b xs = Inr (0, b1) \<and> add m b1 ys = Inr (0, b2)
           \<and> pullup m b2 (int (length xs)) = Inr (Some p, b3) \<and> take (length xs) p = xs
           \<and> drain b3 (length xs) = Inr (0, b4) \<and> readable b4 \<and> bytes b4 = ys"
proof -
  from add_twice [OF assms(1,2,4,5)] assms(3,6) obtain b1 b2 where
    b: "add m b xs = Inr (0, b1)" "add m b1 ys = Inr (0, b2)" "writable b2" "bytes b2 = xs @ ys" by auto
  from peek_then_drain [OF assms(1) both_ways [OF b(3)] b(4) assms(4)] assms(6) b(1,2)
  show ?thesis by auto
qed

end


section \<open>Chain flags\<close>

text \<open>
  None of the operations changes the flags of a chain, and the chains they make have none: a property
  of the flags of all chains that holds for no flags is kept.
\<close>

definition flags_sat :: "(chain_flag set \<Rightarrow> bool) \<Rightarrow> evbuffer \<Rightarrow> bool" where
  "flags_sat Q b \<longleftrightarrow> (\<forall>ch\<in>set (eb_chains b). Q (ch_flags ch))"

lemma flags_sat_same_chains [simp]:
  "flags_sat Q (evbuffer_invoke_callbacks b) = flags_sat Q b"
  "flags_sat Q (count_added n b) = flags_sat Q b" "flags_sat Q (count_deleted n b) = flags_sat Q b"
  "flags_sat Q (grow_total n b) = flags_sat Q b" "flags_sat Q (free_chains chs b) = flags_sat Q b"
  by (simp_all add: flags_sat_def)

lemma chain_new_flags: "evbuffer_chain_new m n = Inr (Some ch) \<Longrightarrow> ch_flags ch = {}"
  by (auto simp: evbuffer_chain_new_def split: option.splits)

lemma chain_insert_flags:
  "evbuffer_chain_insert b ch = Inr b' \<Longrightarrow> flags_sat Q b \<Longrightarrow> Q (ch_flags ch) \<Longrightarrow> flags_sat Q b'"
  by (auto simp: evbuffer_chain_insert_def flags_sat_def Let_def split: if_splits dest!: in_set_takeD)

lemma set_last_chain_flags:
  "flags_sat Q b \<Longrightarrow> Q (ch_flags ch) \<Longrightarrow> flags_sat Q (set_last_chain ch b)"
  by (auto simp: flags_sat_def set_last_chain_def dest: in_set_butlastD)

lemma ensure_first_chain_flags:
  "ensure_first_chain m b n = Inr (Some c) \<Longrightarrow> flags_sat Q b \<Longrightarrow> Q {} \<Longrightarrow> flags_sat Q c \<and> eb_chains c \<noteq> []"
  by (auto simp: ensure_first_chain_def bindE_Inr_iff evbuffer_chain_insert_def flags_sat_def Let_def chain_new_flags
      split: if_splits option.splits)

lemma chain_align_flags: "evbuffer_chain_align ch = Inr ch' \<Longrightarrow> ch_flags ch' = ch_flags ch"
  by (auto simp: evbuffer_chain_align_def split: if_splits)

lemma add_in_new_chain_flags:
  assumes "add_in_new_chain m b data = Inr (r, b')" and "flags_sat Q b" and "Q {}" and "eb_chains b \<noteq> []"
  shows "flags_sat Q b'"
proof -
  have "Q (ch_flags (last (eb_chains b)))" using assms(2,4) by (simp add: flags_sat_def)
  with assms show ?thesis
    by (auto simp: add_in_new_chain_def Let_def bindE_Inr_iff chain_new_flags set_last_chain_flags
        split: option.splits if_splits dest!: chain_insert_flags [where Q = Q])
qed

lemma add_last_flags:
  assumes "evbuffer_add_last m b data = Inr (r, b')" and "flags_sat Q b" and "Q {}" and "eb_chains b \<noteq> []"
  shows "flags_sat Q b'"
proof -
  have "Q (ch_flags (last (eb_chains b)))" using assms(2,4) by (simp add: flags_sat_def)
  with assms show ?thesis
    by (auto simp: evbuffer_add_last_def Let_def bindE_Inr_iff set_last_chain_flags
        split: if_splits dest: chain_align_flags intro: add_in_new_chain_flags)
qed

lemma evbuffer_add_flags:
  assumes "evbuffer_add m b data = Inr (r, b')" and "flags_sat Q b" and "Q {}"
  shows "flags_sat Q b'"
  using assms
  by (auto simp: evbuffer_add_def bindE_Inr_iff split: if_splits option.splits
      dest: ensure_first_chain_flags intro: add_last_flags)

lemma drain_loop_flags:
  "drain_loop n k chs = Inr (fd, r, k', rest) \<Longrightarrow> \<forall>ch\<in>set chs. Q (ch_flags ch)
   \<Longrightarrow> \<forall>ch\<in>set rest. Q (ch_flags ch)"
  by (induction n k chs arbitrary: fd r k' rest rule: drain_loop.induct)
    (auto simp: Let_def bindE_Inr_iff split: if_splits)

lemma evbuffer_drain_flags:
  assumes "evbuffer_drain b n = Inr (r, b')" and "flags_sat Q b"
  shows "flags_sat Q b'"
proof (cases "total_len b = 0 \<or> freeze_start b \<or> n \<ge> total_len b \<and> \<not> HAS_PINNED_R b")
  case True
  with assms show ?thesis
    by (auto simp: evbuffer_drain_def Let_def ZERO_CHAIN_def flags_sat_def split: if_splits)
next
  case False
  then obtain fd q k rest where
    lp: "drain_loop (min n (total_len b)) (last_with_datap b) (eb_chains b) = Inr (fd, q, k, rest)"
    and b': "eb_chains b' = (case rest of [] \<Rightarrow> [] | ch # chs \<Rightarrow> chain_drop q ch # chs)"
    using assms(1)
    by (auto simp: evbuffer_drain_def Let_def bindE_Inr_iff min_def split: if_splits)
  from drain_loop_flags [OF lp, of Q] assms(2) b' show ?thesis
    by (auto simp: flags_sat_def split: list.splits)
qed

lemma pull_loop_flags:
  "pull_loop n chs = (bs, fd, m, rest) \<Longrightarrow> set rest \<subseteq> set chs"
  by (induction n chs arbitrary: bs fd m rest rule: pull_loop.induct)
    (auto split: if_splits prod.splits)

lemma pull_into_flags:
  assumes "pull_into b tmp i chs n = (p, b')" and "\<forall>ch\<in>set chs. Q (ch_flags ch)" and "Q (ch_flags tmp)"
  shows "flags_sat Q b'"
proof -
  obtain bs fd m rest where pl: "pull_loop n chs = (bs, fd, m, rest)" by (cases "pull_loop n chs") auto
  then have "set rest \<subseteq> set chs" by (rule pull_loop_flags)
  with assms(2) have "\<forall>ch\<in>set rest. Q (ch_flags ch)" by blast
  with assms(1,3) pl show ?thesis
    by (auto simp: pull_into_def Let_def flags_sat_def split: list.splits)
qed

lemma evbuffer_pullup_flags:
  assumes "evbuffer_pullup m b n = Inr (p, b')" and "flags_sat Q b" and "Q {}"
  shows "flags_sat Q b'"
  using assms
  by (auto simp: evbuffer_pullup_def Let_def bindE_Inr_iff split: if_splits list.splits option.splits
      intro!: pull_into_flags [where Q = Q]) (auto simp: flags_sat_def chain_new_flags)

section \<open>The evbuffer as a channel\<close>

definition UNPINNED :: "chain_flag set \<Rightarrow> bool" where
  "UNPINNED fl \<longleftrightarrow> EVBUFFER_MEM_PINNED_R \<notin> fl \<and> EVBUFFER_MEM_PINNED_W \<notin> fl"

definition readable :: "evbuffer \<Rightarrow> bool" where
  "readable b \<longleftrightarrow> evbuffer_ok b \<and> flags_sat UNPINNED b \<and> \<not> freeze_start b"

definition writable :: "evbuffer \<Rightarrow> bool" where
  "writable b \<longleftrightarrow> readable b \<and> no_spare b \<and> \<not> freeze_end b"

text \<open>Memory can be had.\<close>

definition memory :: "allocator \<Rightarrow> bool" where
  "memory mm_malloc \<longleftrightarrow> malloc_ok mm_malloc \<and> \<not> out_of_memory mm_malloc"

lemma UNPINNED_empty [simp]: "UNPINNED {}"
  by (simp add: UNPINNED_def)

lemma flags_unpinned: "flags_sat UNPINNED b \<longleftrightarrow> (\<forall>ch\<in>set (eb_chains b). \<not> CHAIN_PINNED ch)"
  by (simp add: flags_sat_def UNPINNED_def CHAIN_PINNED_def)

lemma writable_readable: "writable b \<Longrightarrow> readable b"
  by (simp add: writable_def)

lemma readable_pinned_ok: "readable b \<Longrightarrow> pinned_ok b"
  by (auto simp: readable_def flags_unpinned pinned_ok_def CHAIN_PINNED_R_def CHAIN_PINNED_def
      intro!: pins_ok_unpinned)

lemma CHAIN_MAX_SIZE_MOD: "CHAIN_MAX < SIZE_MOD" "CHAIN_MAX \<le> SSIZE_MAX"
  by (simp_all add: CHAIN_MAX_def EVBUFFER_CHAIN_SIZE_def SIZE_MOD_def SSIZE_MAX_def)

lemma readable_pullup:
  assumes "memory m" and "readable b" and "0 < n" and "n \<le> length (contents b)" and "n \<le> CHAIN_MAX"
  shows "\<exists>p b'. evbuffer_pullup m b (int n) = Inr (Some p, b') \<and> readable b' \<and> contents b' = contents b
           \<and> n \<le> length p \<and> take n p = take n (contents b)"
proof -
  from assms(2) have ok: "evbuffer_ok b" and fl: "flags_sat UNPINNED b" and fr: "\<not> freeze_start b"
    by (simp_all add: readable_def)
  have "n \<le> total_len b" using assms(4) length_contents [OF ok] by simp
  from evbuffer_pullup_runs [OF _ ok assms(3) this assms(5), of m] assms(1) fl obtain res where
    res: "evbuffer_pullup m b (int n) = Inr res" "pulls b n res"
    by (auto simp: memory_def flags_unpinned runs_iff)
  obtain p b' where pb: "res = (p, b')" by (cases res)
  from res have "flags_sat UNPINNED b'" using fl by (auto simp: pb intro: evbuffer_pullup_flags)
  with res(2) fr show ?thesis
    by (auto simp: res(1) pb pulls_def readable_def chain_frame_fields)
qed

lemma readable_drain:
  assumes "readable b"
  shows "\<exists>b'. evbuffer_drain b n = Inr (0, b') \<and> readable b' \<and> contents b' = drop n (contents b)"
  using evbuffer_drain_runs [OF _ readable_pinned_ok [OF assms], of n] assms
  by (auto simp: runs_iff drains_def readable_def intro: evbuffer_drain_flags)

lemma readable_remove:
  assumes "readable b" and "n \<le> length (contents b)" and "n \<le> SSIZE_MAX"
  shows "\<exists>b'. evbuffer_remove b n = Inr (int n, take n (contents b), b') \<and> contents b' = drop n (contents b)"
proof -
  from assms have b: "evbuffer_ok b" "\<not> freeze_start b" "min n (total_len b) \<le> SSIZE_MAX"
    "min n (total_len b) = n"
    by (simp_all add: readable_def flip: length_contents)
  from evbuffer_remove_runs [OF b(1) readable_pinned_ok [OF assms(1)] b(2,3)] b(4) show ?thesis
    by (auto simp: runs_iff removes_def drains_def)
qed

lemma writable_add:
  assumes "memory m" and "writable b" and "data \<noteq> []" and "length (contents b) + length data \<le> CHAIN_MAX"
  shows "\<exists>b'. evbuffer_add m b data = Inr (0, b') \<and> writable b' \<and> contents b' = contents b @ data"
proof -
  from assms(2) have ok: "evbuffer_ok b" "no_spare b" and fl: "flags_sat UNPINNED b"
    and fr: "\<not> freeze_start b" "\<not> freeze_end b"
    by (simp_all add: writable_def readable_def)
  have sz: "total_len b + length data < SIZE_MOD" "length data \<le> CHAIN_MAX"
    using assms(4) length_contents [OF ok(1)] CHAIN_MAX_SIZE_MOD by simp_all
  from evbuffer_add_runs [OF _ ok fr(2) sz, of m] assms(1,3) obtain res where
    res: "evbuffer_add m b data = Inr res" "appends b data res"
    by (auto simp: runs_iff memory_def)
  then obtain c where c: "res = (0, evbuffer_invoke_callbacks c)" "appended b data c"
    "chain_frame (count_added (length data) b) c" by (auto simp: appends_def)
  from res(1) fl have "flags_sat UNPINNED (evbuffer_invoke_callbacks c)"
    unfolding c(1) by (rule evbuffer_add_flags) simp
  with res(1) c chain_frame_fields(1,2) [OF c(3)] fr show ?thesis
    by (simp add: appended_def writable_def readable_def)
qed

lemma pullup_zero: "evbuffer_pullup m b 0 = Inr (None, b)"
  by (simp add: evbuffer_pullup_def)

lemma readable_len: "readable b \<Longrightarrow> evbuffer_get_length b = length (contents b)"
  by (simp add: readable_def evbuffer_get_length_def length_contents)

interpretation evb: byte_channel memory readable contents CHAIN_MAX evbuffer_pullup evbuffer_drain
    evbuffer_get_length writable evbuffer_add
  by unfold_locales
    (auto intro: readable_pullup readable_drain writable_add pullup_zero readable_len dest: writable_readable)

section \<open>Empty additions\<close>

text \<open>An addition does not touch \<open>freeze_start\<close>; an empty one changes no byte.\<close>

lemma chain_insert_freeze: "evbuffer_chain_insert b ch = Inr b' \<Longrightarrow> freeze_start b' = freeze_start b"
  by (auto simp: evbuffer_chain_insert_def Let_def split: if_splits)

lemma count_freeze [simp]:
  "freeze_start (grow_total n b) = freeze_start b" "freeze_start (set_last_chain ch b) = freeze_start b"
  by (simp_all add: grow_total_def set_last_chain_def)

lemma add_last_freeze:
  "evbuffer_add_last m b data = Inr (r, b') \<Longrightarrow> freeze_start b' = freeze_start b"
  by (auto simp: evbuffer_add_last_def add_in_new_chain_def Let_def bindE_Inr_iff
      split: if_splits option.splits dest!: chain_insert_freeze)

lemma evbuffer_add_freeze:
  "evbuffer_add m b data = Inr (r, b') \<Longrightarrow> freeze_start b' = freeze_start b"
  by (auto simp: evbuffer_add_def ensure_first_chain_def bindE_Inr_iff
      split: if_splits option.splits dest!: chain_insert_freeze add_last_freeze)

section \<open>Properties\<close>

text \<open>
  An evbuffer is a first-in first-out channel: of two blocks added to an empty buffer the first
  can be made contiguous and read, and after it has been drained the second one is left.
\<close>

theorem evbuffer_fifo:
  assumes "memory m" and "writable b" and "contents b = []" and "xs \<noteq> []" and "ys \<noteq> []"
    and "length xs + length ys \<le> CHAIN_MAX"
  shows "\<exists>b1 b2 p b3 b4. evbuffer_add m b xs = Inr (0, b1) \<and> evbuffer_add m b1 ys = Inr (0, b2)
           \<and> evbuffer_pullup m b2 (int (length xs)) = Inr (Some p, b3) \<and> take (length xs) p = xs
           \<and> evbuffer_drain b3 (length xs) = Inr (0, b4) \<and> readable b4 \<and> contents b4 = ys"
  using assms by (rule evb.fifo)

lemma evbuffer_new_writable: "writable evbuffer_new" "contents evbuffer_new = []"
  using evbuffer_new_ok
  by (auto simp: writable_def readable_def flags_sat_def evbuffer_new_def)

lemma plain_malloc_memory [simp]: "memory plain_malloc"
  by (simp add: memory_def)

theorem evbuffer_fifo_witness:
  "\<exists>b1 b2 p b3 b4. evbuffer_add plain_malloc evbuffer_new [1, 2] = Inr (0, b1)
      \<and> evbuffer_add plain_malloc b1 [3] = Inr (0, b2)
      \<and> evbuffer_pullup plain_malloc b2 2 = Inr (Some p, b3) \<and> take 2 p = [1, 2]
      \<and> evbuffer_drain b3 2 = Inr (0, b4) \<and> contents b4 = [3]"
proof -
  have "length [1, 2 :: byte] + length [3 :: byte] \<le> CHAIN_MAX"
    by (simp add: CHAIN_MAX_def EVBUFFER_CHAIN_SIZE_def)
  from evbuffer_fifo [OF plain_malloc_memory evbuffer_new_writable _ _ this]
  show ?thesis by (simp add: eval_nat_numeral) blast
qed

end
