(* ===== verification/Evbuffer_Space.thy ===== *)
theory Evbuffer_Space
  imports Evbuffer_Add Evbuffer_Drain
begin

text \<open>
  Making room at the end of a buffer and using it: \<open>evbuffer_expand\<close>, \<open>evbuffer_reserve_space\<close> and
  \<open>evbuffer_commit_space\<close> of \<open>buffer.c\<close>, with \<open>_evbuffer_expand_fast\<close> and \<open>_evbuffer_read_setup_vecs\<close>,
  which also \<open>evbuffer_read\<close> uses.
\<close>

section \<open>One chain with room\<close>

text \<open>A chain is named by its position. \<open>None\<close> is a null result.\<close>

definition use_chain :: "nat \<Rightarrow> nat \<Rightarrow> evbuffer \<Rightarrow> (nat option \<times> evbuffer) exec" where
  "use_chain datlen i buf =
     (if \<not> CHAIN_SPACE_LEN (eb_chains buf ! i) \<ge> datlen then Inl Assert_Failed else Inr (Some i, buf))"

definition expand_insert_new :: "allocator \<Rightarrow> evbuffer \<Rightarrow> nat \<Rightarrow> (nat option \<times> evbuffer) exec" where
  "expand_insert_new mm_malloc buf datlen =
     bindE (evbuffer_chain_insert_new mm_malloc buf datlen)
       (\<lambda>(ok, buf). if \<not> ok then Inr (None, buf) else use_chain datlen (length (eb_chains buf) - 1) buf)"

text \<open>The chain at \<open>p\<close> is replaced by a bigger one with the same data.\<close>

definition expand_resize :: "allocator \<Rightarrow> evbuffer \<Rightarrow> nat \<Rightarrow> nat \<Rightarrow> (nat option \<times> evbuffer) exec" where
  "expand_resize mm_malloc buf datlen p =
     (let ch = eb_chains buf ! p in
      bindE (evbuffer_chain_new mm_malloc (addz (ch_off ch) datlen))
        (\<lambda>r. case r of
           None \<Rightarrow> Inr (None, buf)
         | Some tmp \<Rightarrow>
             let tmp = chain_append (mem_read (ch_misalign ch) (ch_off ch) (ch_buffer ch)) tmp
             in use_chain datlen p (free_chains [ch] (buf\<lparr>eb_chains := (eb_chains buf)[p := tmp]\<rparr>))))"

definition evbuffer_expand_singlechain ::
    "allocator \<Rightarrow> evbuffer \<Rightarrow> nat \<Rightarrow> (nat option \<times> evbuffer) exec" where
  "evbuffer_expand_singlechain mm_malloc buf datlen =
     (let chs = eb_chains buf; k = last_with_datap buf;
          p = (if k < length chs \<and> CHAIN_SPACE_LEN (chs ! k) = 0 then Suc k else k)
      in if length chs \<le> p then expand_insert_new mm_malloc buf datlen
         else
           let ch = chs ! p in
           if EVBUFFER_IMMUTABLE \<in> ch_flags ch \<or> CHAIN_PINNED ch then expand_insert_new mm_malloc buf datlen
           else if CHAIN_SPACE_LEN ch \<ge> datlen then use_chain datlen p buf
           else if ch_off ch = 0 then expand_insert_new mm_malloc buf datlen
           else if evbuffer_chain_should_realign ch datlen
           then bindE (evbuffer_chain_align ch)
                  (\<lambda>ch. use_chain datlen p (buf\<lparr>eb_chains := chs[p := ch]\<rparr>))
           else if CHAIN_SPACE_LEN ch < ch_buffer_len ch div 8 \<or> ch_off ch > MAX_TO_COPY_IN_EXPAND
           then if Suc p < length chs \<and> CHAIN_SPACE_LEN (chs ! Suc p) \<ge> datlen
                then use_chain datlen (Suc p) buf
                else expand_insert_new mm_malloc buf datlen
           else expand_resize mm_malloc buf datlen p)"

definition evbuffer_expand :: "allocator \<Rightarrow> evbuffer \<Rightarrow> nat \<Rightarrow> (int \<times> evbuffer) exec" where
  "evbuffer_expand mm_malloc buf datlen =
     bindE (evbuffer_expand_singlechain mm_malloc buf datlen)
       (\<lambda>(ch, buf). Inr (if ch \<noteq> None then 0 else -1, buf))"

section \<open>Several chains with room\<close>

text \<open>
  The first loop of \<open>_evbuffer_expand_fast\<close> from the chain \<open>last_with_datap\<close> leads to (\<open>at_lwd\<close>): the
  chains, some of them realigned; whether there is enough space; how many chains are used and how
  much space they have.
\<close>

fun expand_scan :: "nat \<Rightarrow> nat \<Rightarrow> bool \<Rightarrow> nat \<Rightarrow> nat \<Rightarrow> chain list \<Rightarrow> (chain list \<times> bool \<times> nat \<times> nat) exec" where
  "expand_scan datlen n at_lwd used avail [] = Inr ([], False, used, avail)"
| "expand_scan datlen n at_lwd used avail (ch # chs) =
     (if ch_off ch \<noteq> 0 \<and> \<not> at_lwd then Inl Assert_Failed
      else let space = (if ch_off ch \<noteq> 0 then CHAIN_SPACE_LEN ch else ch_buffer_len ch);
               used = (if ch_off ch \<noteq> 0 \<and> space = 0 then used else Suc used);
               ch = (if ch_off ch \<noteq> 0 then ch else ch\<lparr>ch_misalign := 0\<rparr>);
               avail = addz avail space
           in if avail \<ge> datlen then Inr (ch # chs, True, used, avail)
              else if used = n then Inr (ch # chs, False, used, avail)
              else bindE (expand_scan datlen n False used avail chs)
                     (\<lambda>(chs, enough, used, avail). Inr (ch # chs, enough, used, avail)))"

text \<open>There is not enough space in \<open>n\<close> chains: all empty ones are replaced by one.\<close>

definition expand_replace :: "allocator \<Rightarrow> evbuffer \<Rightarrow> nat \<Rightarrow> (int \<times> evbuffer) exec" where
  "expand_replace mm_malloc buf datlen =
     (let chs = eb_chains buf; k = last_with_datap buf in
      if length chs \<le> k then Inl Null_Deref
      else
        let ch = chs ! k; rmv_all = (ch_off ch = 0) in
        if rmv_all \<and> k \<noteq> 0 then Inl Assert_Failed
        else
          let avail = (if rmv_all then 0 else CHAIN_SPACE_LEN ch);
              nuke = (if rmv_all then drop k chs else drop (Suc k) chs);
              keep = (if rmv_all then [] else take (Suc k) chs)
          in if \<not> evbuffer_chains_all_empty nuke then Inl Assert_Failed
             else bindE (evbuffer_chain_new mm_malloc (subz datlen avail))
                    (\<lambda>r. let buf = free_chains nuke buf in
                         case r of
                           None \<Rightarrow> Inr (-1, if rmv_all then ZERO_CHAIN buf else buf\<lparr>eb_chains := keep\<rparr>)
                         | Some tmp \<Rightarrow>
                             Inr (0, buf\<lparr>eb_chains := keep @ [tmp],
                                         last_with_datap := (if rmv_all then 0 else k)\<rparr>)))"

definition evbuffer_expand_fast :: "allocator \<Rightarrow> evbuffer \<Rightarrow> nat \<Rightarrow> nat \<Rightarrow> (int \<times> evbuffer) exec" where
  "evbuffer_expand_fast mm_malloc buf datlen n =
     (if \<not> n \<ge> 2 then Inl Assert_Failed
      else if eb_chains buf = [] \<or> EVBUFFER_IMMUTABLE \<in> ch_flags (last (eb_chains buf))
      then bindE (evbuffer_chain_new mm_malloc datlen)
             (\<lambda>r. case r of
                None \<Rightarrow> Inr (-1, buf)
              | Some ch \<Rightarrow> bindE (evbuffer_chain_insert buf ch) (\<lambda>buf. Inr (0, buf)))
      else
        let k = last_with_datap buf in
        bindE (expand_scan datlen n True 0 0 (drop k (eb_chains buf)))
          (\<lambda>(chs, enough, used, avail).
             let buf = buf\<lparr>eb_chains := take k (eb_chains buf) @ chs\<rparr> in
             if enough then Inr (0, buf)
             else if used < n
             then bindE (evbuffer_chain_new mm_malloc (subz datlen avail))
                    (\<lambda>r. case r of
                       None \<Rightarrow> Inr (-1, buf)
                     | Some tmp \<Rightarrow> Inr (0, buf\<lparr>eb_chains := eb_chains buf @ [tmp]\<rparr>))
             else expand_replace mm_malloc buf datlen))"

section \<open>Reserving and committing\<close>

record iovec =
  iov_base :: "nat \<times> nat"
  iov_len :: nat

text \<open>The loop of \<open>_evbuffer_read_setup_vecs\<close> for at most \<open>n\<close> vectors.\<close>

fun setup_vecs :: "nat \<Rightarrow> nat \<Rightarrow> bool \<Rightarrow> nat \<Rightarrow> chain list \<Rightarrow> iovec list exec" where
  "setup_vecs 0 howmuch exact so_far chs = Inr []"
| "setup_vecs (Suc n) howmuch exact so_far chs =
     (if \<not> so_far < howmuch then Inr []
      else case chs of
             [] \<Rightarrow> Inl Null_Deref
           | ch # chs \<Rightarrow>
               let avail = CHAIN_SPACE_LEN ch;
                   avail = (if avail > howmuch - so_far \<and> exact then howmuch - so_far else avail)
               in bindE (setup_vecs n howmuch exact (addz so_far avail) chs)
                    (\<lambda>vecs. Inr (\<lparr>iov_base = CHAIN_SPACE_PTR ch, iov_len = avail\<rparr> # vecs)))"

text \<open>The first chain from \<open>last_with_datap\<close> on with space in it; \<open>None\<close> is a null dereference.\<close>

definition first_space :: "evbuffer \<Rightarrow> nat option" where
  "first_space buf =
     (let k = last_with_datap buf in
      if length (eb_chains buf) \<le> k then None
      else Some (if CHAIN_SPACE_LEN (eb_chains buf ! k) = 0 then Suc k else k))"

text \<open>The result \<open>None\<close> is -1; otherwise the vectors and the position of the first chain.\<close>

definition evbuffer_read_setup_vecs ::
    "evbuffer \<Rightarrow> int \<Rightarrow> nat \<Rightarrow> bool \<Rightarrow> (iovec list \<times> nat) option exec" where
  "evbuffer_read_setup_vecs buf howmuch n_vecs_avail exact =
     (if howmuch < 0 then Inr None
      else case first_space buf of
             None \<Rightarrow> Inl Null_Deref
           | Some p \<Rightarrow> bindE (setup_vecs n_vecs_avail (nat howmuch) exact 0 (drop p (eb_chains buf)))
                         (\<lambda>vecs. Inr (Some (vecs, p))))"

definition evbuffer_reserve_space ::
    "allocator \<Rightarrow> evbuffer \<Rightarrow> int \<Rightarrow> nat \<Rightarrow> (int \<times> iovec list \<times> evbuffer) exec" where
  "evbuffer_reserve_space mm_malloc buf sz n_vecs =
     (if freeze_end buf then Inr (-1, [], buf)
      else if n_vecs < 1 then Inr (-1, [], buf)
      else if n_vecs = 1
      then bindE (evbuffer_expand_singlechain mm_malloc buf (to_size sz))
             (\<lambda>(r, buf). case r of
                None \<Rightarrow> Inr (-1, [], buf)
              | Some i \<Rightarrow>
                  let ch = eb_chains buf ! i in
                  if \<not> (sz < 0 \<or> CHAIN_SPACE_LEN ch \<ge> to_size sz) then Inl Assert_Failed
                  else Inr (1, [\<lparr>iov_base = CHAIN_SPACE_PTR ch, iov_len = CHAIN_SPACE_LEN ch\<rparr>], buf))
      else bindE (evbuffer_expand_fast mm_malloc buf (to_size sz) n_vecs)
             (\<lambda>(r, buf).
                if r < 0 then Inr (-1, [], buf)
                else bindE (evbuffer_read_setup_vecs buf sz n_vecs False)
                       (\<lambda>v. case v of
                          None \<Rightarrow> Inr (-1, [], buf)
                        | Some (vecs, _) \<Rightarrow> Inr (int (length vecs), vecs, buf))))"

text \<open>Pass 1 of \<open>evbuffer_commit_space\<close>.\<close>

fun vecs_in_bounds :: "iovec list \<Rightarrow> chain list \<Rightarrow> bool" where
  "vecs_in_bounds [] chs = True"
| "vecs_in_bounds (v # vs) [] = False"
| "vecs_in_bounds (v # vs) (ch # chs) =
     (if iov_base v \<noteq> CHAIN_SPACE_PTR ch \<or> iov_len v > CHAIN_SPACE_LEN ch then False
      else vecs_in_bounds vs chs)"

text \<open>
  Pass 2: the chains after it, the number of bytes, and the position \<open>last_with_datap\<close> was set to last,
  if it was; \<open>i\<close> is the position of the first of the chains.
\<close>

fun commit_vecs :: "iovec list \<Rightarrow> nat \<Rightarrow> chain list \<Rightarrow> chain list \<times> nat \<times> nat option" where
  "commit_vecs [] i chs = (chs, 0, None)"
| "commit_vecs (v # vs) i [] = ([], 0, None)"
| "commit_vecs (v # vs) i (ch # chs) =
     (case commit_vecs vs (Suc i) chs of
        (chs, added, lwd) \<Rightarrow>
          (ch\<lparr>ch_off := ch_off ch + iov_len v\<rparr> # chs, addz (iov_len v) added,
           case lwd of Some _ \<Rightarrow> lwd | None \<Rightarrow> if iov_len v \<noteq> 0 then Some i else None))"

definition commit_done :: "nat \<Rightarrow> evbuffer \<Rightarrow> int \<times> evbuffer" where
  "commit_done added buf = (0, evbuffer_invoke_callbacks (count_added added (grow_total added buf)))"

definition evbuffer_commit_space :: "evbuffer \<Rightarrow> iovec list \<Rightarrow> (int \<times> evbuffer) exec" where
  "evbuffer_commit_space buf vec =
     (if freeze_end buf then Inr (-1, buf)
      else if vec = [] then Inr (0, buf)
      else if length vec = 1 \<and> eb_chains buf \<noteq> []
              \<and> iov_base (hd vec) = CHAIN_SPACE_PTR (last (eb_chains buf))
      then let ch = last (eb_chains buf); len = iov_len (hd vec) in
           if len > CHAIN_SPACE_LEN ch then Inr (-1, buf)
           else let buf = set_last_chain (ch\<lparr>ch_off := ch_off ch + len\<rparr>) buf
                in Inr (commit_done len (if len \<noteq> 0 then advance_last_with_data buf else buf))
      else case first_space buf of
             None \<Rightarrow> Inr (-1, buf)
           | Some p \<Rightarrow>
               if \<not> vecs_in_bounds vec (drop p (eb_chains buf)) then Inr (-1, buf)
               else (case commit_vecs vec p (drop p (eb_chains buf)) of
                       (chs, added, lwd) \<Rightarrow>
                         Inr (commit_done added
                                (buf\<lparr>eb_chains := take p (eb_chains buf) @ chs,
                                     last_with_datap := (case lwd of None \<Rightarrow> last_with_datap buf
                                                         | Some j \<Rightarrow> j)\<rparr>))))"


section \<open>A reserved chain is at the end\<close>

text \<open>
  What \<open>evbuffer_expand_singlechain\<close> gives: the same bytes and a writable chain with the room asked
  for. Without empty chains at the end before, the chain is the last one, at most one behind the last
  one with data.
\<close>

definition expands :: "allocator \<Rightarrow> evbuffer \<Rightarrow> nat \<Rightarrow> nat option \<times> evbuffer \<Rightarrow> bool" where
  "expands mm_malloc b datlen res \<longleftrightarrow>
     (case res of (r, b') \<Rightarrow>
        evbuffer_ok b' \<and> contents b' = contents b \<and> chain_frame b b'
        \<and> (case r of
             None \<Rightarrow> out_of_memory mm_malloc
           | Some i \<Rightarrow>
               i < length (eb_chains b') \<and> datlen \<le> CHAIN_SPACE_LEN (eb_chains b' ! i)
               \<and> EVBUFFER_IMMUTABLE \<notin> ch_flags (eb_chains b' ! i)
               \<and> (no_spare b \<longrightarrow> i = length (eb_chains b') - 1
                    \<and> length (eb_chains b') \<le> last_with_datap b' + 2)))"

lemma chain_insert_length:
  "evbuffer_chain_insert b ch = Inr b' \<Longrightarrow> last_with_datap b < length (eb_chains b) \<or> eb_chains b = []
   \<Longrightarrow> length (eb_chains b') \<le> Suc (length (eb_chains b))
       \<and> (eb_chains b \<noteq> [] \<longrightarrow> last_with_datap b \<le> last_with_datap b')"
  by (auto simp: evbuffer_chain_insert_def Let_def split: if_splits)

lemma fresh_space: "fresh_chain n ch \<Longrightarrow> n \<le> CHAIN_SPACE_LEN ch \<and> EVBUFFER_IMMUTABLE \<notin> ch_flags ch"
  by (simp add: fresh_chain_def CHAIN_SPACE_LEN_def)

lemma lwd_bound: "evbuffer_ok b \<Longrightarrow> eb_chains b \<noteq> [] \<Longrightarrow> last_with_datap b < length (eb_chains b)"
  using evbuffer_okD(4) [of b] by (simp add: lwd_ok_def)

lemma expand_insert_new_runs:
  assumes m: "malloc_ok mm_malloc" and ok: "evbuffer_ok b" and sz: "datlen \<le> CHAIN_MAX"
  shows "runs (expand_insert_new mm_malloc b datlen) (expands mm_malloc b datlen)"
proof (rule chain_new_cases [OF m sz], goal_cases fail new)
  case fail
  with ok show ?thesis by (simp add: expand_insert_new_def evbuffer_chain_insert_new_def expands_def)
next
  case (new ch)
  note f = fresh_chainD [OF new(2)] and sp = fresh_space [OF new(2)]
  have k: "last_with_datap b < length (eb_chains b) \<or> eb_chains b = []" using lwd_bound [OF ok] by blast
  have "total_len b + ch_off ch < SIZE_MOD" using f(4) evbuffer_okD(3) [OF ok] by simp
  from chain_insert_runs [OF ok f(1) this] f(4) obtain b' where
    b': "evbuffer_chain_insert b ch = Inr b'" "evbuffer_ok b'" "contents b' = contents b @ chain_data ch"
      "chain_frame b b'" "eb_chains b' \<noteq> []" "last (eb_chains b') = ch"
    by (auto elim: runsE)
  have nth: "eb_chains b' ! (length (eb_chains b') - 1) = ch"
    using b'(5,6) by (simp add: last_conv_nth)
  have "no_spare b \<Longrightarrow> length (eb_chains b') \<le> last_with_datap b' + 2"
    using chain_insert_length [OF b'(1) k] k by (auto simp: no_spare_def)
  then show ?thesis
    using new(1) b' nth sp f(7)
    by (simp add: expand_insert_new_def evbuffer_chain_insert_new_def use_chain_def expands_def)
qed

text \<open>A chain may be replaced by another one with the same data.\<close>

lemma lwd_ok_offs:
  "lwd_ok chs k \<longleftrightarrow>
     (if map ch_off chs = [] then k = 0
      else k < length (map ch_off chs) \<and> (\<forall>x\<in>set (drop (Suc k) (map ch_off chs)). x = 0)
           \<and> (k = 0 \<or> map ch_off chs ! k \<noteq> 0))"
  by (auto simp: lwd_ok_def drop_map)

lemma replace_chain_ok:
  assumes ok: "evbuffer_ok b" and p: "p < length (eb_chains b)"
    and c: "chain_ok c" "chain_data c = chain_data (eb_chains b ! p)" "ch_off c = ch_off (eb_chains b ! p)"
  shows "evbuffer_ok (b\<lparr>eb_chains := (eb_chains b)[p := c]\<rparr>)"
    and "contents (b\<lparr>eb_chains := (eb_chains b)[p := c]\<rparr>) = contents b"
proof -
  let ?chs = "eb_chains b"
  have sp: "?chs = take p ?chs @ ?chs ! p # drop (Suc p) ?chs" and up: "?chs[p := c] = take p ?chs @ c # drop (Suc p) ?chs"
    using p by (simp_all add: id_take_nth_drop upd_conv_take_nth_drop)
  have "map ch_off (?chs[p := c]) = map ch_off ?chs"
    using p c(3) by (simp add: map_update list_update_same_conv)
  then have "lwd_ok (?chs[p := c]) (last_with_datap b)"
    using evbuffer_okD(4) [OF ok] by (simp only: lwd_ok_offs)
  moreover have "chains_len (?chs[p := c]) = chains_len ?chs"
    using \<open>map ch_off (?chs[p := c]) = map ch_off ?chs\<close> by (simp only: chains_len_def)
  moreover have "\<forall>x\<in>set (?chs[p := c]). chain_ok x"
    using evbuffer_okD(1) [OF ok] c(1) set_update_subset_insert [of ?chs p c] by auto
  ultimately show "evbuffer_ok (b\<lparr>eb_chains := ?chs[p := c]\<rparr>)"
    using evbuffer_okD(2,3) [OF ok] by (simp add: evbuffer_ok_def)
  have "chains_data ?chs = chains_data (take p ?chs) @ chain_data (?chs ! p) @ chains_data (drop (Suc p) ?chs)"
    by (subst (1) sp) simp
  then have "chains_data (?chs[p := c]) = chains_data ?chs"
    unfolding up by (simp add: c(2))
  then show "contents (b\<lparr>eb_chains := ?chs[p := c]\<rparr>) = contents b" by (simp add: contents_def)
qed

lemma expand_resize_runs:
  assumes m: "malloc_ok mm_malloc" and ok: "evbuffer_ok b" and p: "p < length (eb_chains b)"
    and sz: "ch_off (eb_chains b ! p) + datlen \<le> CHAIN_MAX"
    and last: "no_spare b \<Longrightarrow> p = length (eb_chains b) - 1"
  shows "runs (expand_resize mm_malloc b datlen p) (expands mm_malloc b datlen)"
proof -
  let ?c = "eb_chains b ! p"
  have cok: "chain_ok ?c" using evbuffer_okD(1) [OF ok] p by simp
  have add: "addz (ch_off ?c) datlen = ch_off ?c + datlen"
    using sz by (intro addz_exact) (simp add: CHAIN_MAX_def EVBUFFER_CHAIN_SIZE_def SIZE_MOD_def)
  show ?thesis
  proof (rule chain_new_cases [OF m sz], goal_cases fail new)
    case fail
    with ok show ?thesis by (simp add: expand_resize_def Let_def add expands_def)
  next
    case (new tmp)
    note f = fresh_chainD [OF new(2)]
    let ?t = "chain_append (chain_data ?c) tmp"
    have t: "chain_ok ?t" "chain_data ?t = chain_data ?c" "ch_off ?t = ch_off ?c"
      using f cok by (auto simp: chain_append_data intro!: chain_append_ok)
    have sp: "datlen \<le> CHAIN_SPACE_LEN ?t" "EVBUFFER_IMMUTABLE \<notin> ch_flags ?t"
      using f(2,3,4,5) cok by (simp_all add: CHAIN_SPACE_LEN_def)
    have "no_spare b \<Longrightarrow> length (eb_chains b) \<le> last_with_datap b + 2" using p by (auto simp: no_spare_def)
    then show ?thesis
      using new(1) sp p last replace_chain_ok [OF ok p t]
      by (simp add: expand_resize_def Let_def add use_chain_def expands_def chain_data_def [symmetric]
          evbuffer_ok_def contents_def)
  qed
qed

lemma use_chain_runs:
  assumes "evbuffer_ok b'" and "contents b' = contents b" and "chain_frame b b'" and "i < length (eb_chains b')"
    and "datlen \<le> CHAIN_SPACE_LEN (eb_chains b' ! i)" and "EVBUFFER_IMMUTABLE \<notin> ch_flags (eb_chains b' ! i)"
    and "no_spare b \<Longrightarrow> i = length (eb_chains b') - 1 \<and> length (eb_chains b') \<le> last_with_datap b' + 2"
  shows "runs (use_chain datlen i b') (expands mm_malloc b datlen)"
  using assms by (simp add: use_chain_def expands_def)

lemma expand_singlechain_runs:
  assumes m: "malloc_ok mm_malloc" and ok: "evbuffer_ok b" and sz: "datlen + MAX_TO_COPY_IN_EXPAND \<le> CHAIN_MAX"
  shows "runs (evbuffer_expand_singlechain mm_malloc b datlen) (expands mm_malloc b datlen)"
proof -
  let ?chs = "eb_chains b" and ?k = "last_with_datap b"
  define p where "p = (if ?k < length ?chs \<and> CHAIN_SPACE_LEN (?chs ! ?k) = 0 then Suc ?k else ?k)"
  have ins: "runs (expand_insert_new mm_malloc b datlen) (expands mm_malloc b datlen)"
    using sz by (intro expand_insert_new_runs m ok) simp
  show ?thesis
  proof (cases "length ?chs \<le> p")
    case True
    with ins show ?thesis by (simp add: evbuffer_expand_singlechain_def Let_def p_def)
  next
    case False
    then have p: "p < length ?chs" by simp
    let ?c = "?chs ! p"
    have cok: "chain_ok ?c" using evbuffer_okD(1) [OF ok] p by simp
    have ns: "p = length ?chs - 1 \<and> length ?chs \<le> ?k + 2" if "no_spare b"
      using that p by (auto simp: no_spare_def p_def split: if_splits)
    have next_empty: "Suc p < length ?chs \<Longrightarrow> EVBUFFER_IMMUTABLE \<notin> ch_flags (?chs ! Suc p)"
    proof -
      assume "Suc p < length ?chs"
      moreover from this have "ch_off (?chs ! Suc p) = 0"
        by (intro lwd_ok_after [OF evbuffer_okD(4) [OF ok]]) (auto simp: p_def)
      ultimately show ?thesis using evbuffer_okD(1) [OF ok] by (auto simp: chain_ok_def)
    qed
    have al: "runs (evbuffer_chain_align ?c) (\<lambda>c'. runs (use_chain datlen p (b\<lparr>eb_chains := ?chs[p := c']\<rparr>))
        (expands mm_malloc b datlen))"
      if "EVBUFFER_IMMUTABLE \<notin> ch_flags ?c" "\<not> CHAIN_PINNED ?c" "evbuffer_chain_should_realign ?c datlen"
      using chain_align_runs [OF cok that(1,2)]
    proof (rule runs_mono)
      fix c'
      assume c': "chain_ok c' \<and> chain_data c' = chain_data ?c \<and> ch_misalign c' = 0
                \<and> ch_off c' = ch_off ?c \<and> ch_flags c' = ch_flags ?c \<and> ch_buffer_len c' = ch_buffer_len ?c"
      with replace_chain_ok [OF ok p, of c'] p ns that(1,3)
      show "runs (use_chain datlen p (b\<lparr>eb_chains := ?chs[p := c']\<rparr>)) (expands mm_malloc b datlen)"
        by (intro use_chain_runs) (simp_all add: CHAIN_SPACE_LEN_def evbuffer_chain_should_realign_def)
    qed
    have here: "runs (use_chain datlen p b) (expands mm_malloc b datlen)"
      if "datlen \<le> CHAIN_SPACE_LEN ?c" "EVBUFFER_IMMUTABLE \<notin> ch_flags ?c"
      using ok p that ns by (intro use_chain_runs) simp_all
    have nxt: "runs (use_chain datlen (Suc p) b) (expands mm_malloc b datlen)"
      if "Suc p < length ?chs" "datlen \<le> CHAIN_SPACE_LEN (?chs ! Suc p)"
      using ok that next_empty ns by (intro use_chain_runs) auto
    have res: "runs (expand_resize mm_malloc b datlen p) (expands mm_malloc b datlen)"
      if "ch_off ?c \<le> MAX_TO_COPY_IN_EXPAND"
      using that sz ns by (intro expand_resize_runs m ok p) simp_all
    have eq: "evbuffer_expand_singlechain mm_malloc b datlen =
       (if EVBUFFER_IMMUTABLE \<in> ch_flags ?c \<or> CHAIN_PINNED ?c then expand_insert_new mm_malloc b datlen
        else if CHAIN_SPACE_LEN ?c \<ge> datlen then use_chain datlen p b
        else if ch_off ?c = 0 then expand_insert_new mm_malloc b datlen
        else if evbuffer_chain_should_realign ?c datlen
        then bindE (evbuffer_chain_align ?c) (\<lambda>ch. use_chain datlen p (b\<lparr>eb_chains := ?chs[p := ch]\<rparr>))
        else if CHAIN_SPACE_LEN ?c < ch_buffer_len ?c div 8 \<or> ch_off ?c > MAX_TO_COPY_IN_EXPAND
        then if Suc p < length ?chs \<and> CHAIN_SPACE_LEN (?chs ! Suc p) \<ge> datlen
             then use_chain datlen (Suc p) b else expand_insert_new mm_malloc b datlen
        else expand_resize mm_malloc b datlen p)"
      using False by (simp only: evbuffer_expand_singlechain_def Let_def p_def [symmetric] if_False)
    show ?thesis
      unfolding eq using ins here nxt res al by (simp add: runs_bindE not_less)
  qed
qed


section \<open>Committing to the last chain\<close>

text \<open>The user stores \<open>bs\<close> at the address of the free space of the last chain.\<close>

definition fill_last :: "byte list \<Rightarrow> evbuffer \<Rightarrow> evbuffer" where
  "fill_last bs b =
     (let ch = last (eb_chains b) in
      set_last_chain (ch\<lparr>ch_buffer := mem_write (ch_misalign ch + ch_off ch) bs (ch_buffer ch)\<rparr>) b)"

lemma chain_append_space:
  assumes "chain_ok ch" and "length bs \<le> CHAIN_SPACE_LEN ch"
  shows "chain_ok (chain_append bs ch)" and "chain_data (chain_append bs ch) = chain_data ch @ bs"
proof -
  show "chain_data (chain_append bs ch) = chain_data ch @ bs" using assms(1) by (rule chain_append_data)
  show "chain_ok (chain_append bs ch)"
  proof (cases "bs = []")
    case True
    with assms(1) show ?thesis by simp
  next
    case False
    then have "0 < length bs" by simp
    with assms have "ch_misalign ch + ch_off ch + length bs \<le> ch_buffer_len ch"
      unfolding CHAIN_SPACE_LEN_def chain_ok_def by (auto split: if_splits)
    with assms(1) show ?thesis by (rule chain_append_ok)
  qed
qed

lemma CHAIN_SPACE_LEN_buffer [simp]: "CHAIN_SPACE_LEN (ch\<lparr>ch_buffer := x\<rparr>) = CHAIN_SPACE_LEN ch"
  by (simp add: CHAIN_SPACE_LEN_def)

lemma append_last_ok:
  assumes ok: "evbuffer_ok b" and ne: "eb_chains b \<noteq> []" and bs: "bs \<noteq> []"
    and sp: "length bs \<le> CHAIN_SPACE_LEN (last (eb_chains b))" and sz: "total_len b + length bs < SIZE_MOD"
    and b': "eb_chains b' = butlast (eb_chains b) @ [chain_append bs (last (eb_chains b))]"
      "last_with_datap b' = length (eb_chains b) - Suc 0" "total_len b' = total_len b + length bs"
  shows "evbuffer_ok b'" and "contents b' = contents b @ bs"
proof -
  let ?l = "last (eb_chains b)"
  obtain xs where xs: "eb_chains b = xs @ [?l]" using ne by (metis append_butlast_last_id)
  then have bl: "butlast (eb_chains b) = xs" by (metis butlast_snoc)
  note okD = evbuffer_okD [OF ok]
  have lok: "chain_ok ?l" using okD(1) ne by simp
  note app = chain_append_space [OF lok sp]
  have "length (eb_chains b) = length (xs @ [?l])" using xs by (rule arg_cong)
  then have k: "length (eb_chains b) - Suc 0 = length xs" by simp
  have len: "chains_len (eb_chains b) = chains_len xs + ch_off ?l" by (subst xs) simp
  have data: "chains_data (eb_chains b) = chains_data xs @ chain_data ?l" by (subst xs) simp
  have "\<forall>c\<in>set xs. chain_ok c" using okD(1) bl by (metis in_set_butlastD)
  then show "evbuffer_ok b'"
    using app(1) b' bs okD(2,3) len sz by (simp add: evbuffer_ok_def bl k lwd_ok_def)
  show "contents b' = contents b @ bs" using app(2) b'(1) by (simp add: contents_def bl data)
qed

lemma commit_last_runs:
  assumes ok: "evbuffer_ok b" and ne: "eb_chains b \<noteq> []" and k: "length (eb_chains b) \<le> last_with_datap b + 2"
    and fr: "\<not> freeze_end b" and sp: "length bs \<le> CHAIN_SPACE_LEN (last (eb_chains b))"
    and sz: "total_len b + length bs < SIZE_MOD"
  shows "\<exists>b'. evbuffer_commit_space (fill_last bs b)
             [\<lparr>iov_base = CHAIN_SPACE_PTR (last (eb_chains b)), iov_len = length bs\<rparr>] = Inr (0, b')
           \<and> evbuffer_ok b' \<and> contents b' = contents b @ bs"
proof -
  let ?l = "last (eb_chains b)" and ?chs = "eb_chains b" and ?k = "last_with_datap b"
  let ?b1 = "b\<lparr>eb_chains := butlast ?chs @ [chain_append bs ?l]\<rparr>"
  let ?b2 = "if bs \<noteq> [] then advance_last_with_data ?b1 else ?b1"
  have c: "evbuffer_commit_space (fill_last bs b) [\<lparr>iov_base = CHAIN_SPACE_PTR ?l, iov_len = length bs\<rparr>]
      = Inr (commit_done (length bs) ?b2)"
    using ne fr sp
    by (simp add: evbuffer_commit_space_def fill_last_def set_last_chain_def Let_def CHAIN_SPACE_PTR_def
        chain_append_def not_less)
  have "evbuffer_ok (grow_total (length bs) ?b2) \<and> contents (grow_total (length bs) ?b2) = contents b @ bs"
  proof (cases "bs = []")
    case True
    then have "?b1 = b" using ne by simp
    with True ok sz show ?thesis by (simp add: grow_total_def addz_0_right)
  next
    case False
    have kl: "?k < length ?chs" using lwd_bound [OF ok ne] .
    have "advance_last_with_data ?b1 = ?b1\<lparr>last_with_datap := length ?chs - 1\<rparr>"
    proof (cases "length ?chs = Suc ?k")
      case True
      then show ?thesis using False by (simp add: advance_last_with_data_def)
    next
      case False
      with k kl have len: "length ?chs = ?k + 2" by simp
      then have "drop (Suc ?k) (butlast ?chs @ [chain_append bs ?l]) = [chain_append bs ?l]" by simp
      with len \<open>bs \<noteq> []\<close> show ?thesis by (simp add: advance_last_with_data_def)
    qed
    with append_last_ok [OF ok ne False sp sz, of "grow_total (length bs) ?b2"] False sz show ?thesis
      by (simp add: grow_total_def addz_exact)
  qed
  with c show ?thesis by (simp add: commit_done_def)
qed

section \<open>Several chains\<close>

text \<open>
  The scan keeps the data of the chains; it does not stop at an assertion because the chains behind the
  one \<open>last_with_datap\<close> leads to are empty.
\<close>

definition same_data :: "chain list \<Rightarrow> chain list \<Rightarrow> bool" where
  "same_data xs ys \<longleftrightarrow>
     map ch_off ys = map ch_off xs \<and> map ch_flags ys = map ch_flags xs \<and> chains_data ys = chains_data xs
     \<and> (\<forall>c\<in>set ys. chain_ok c)"

definition spaces :: "chain list \<Rightarrow> nat" where
  "spaces chs = sum_list (map CHAIN_SPACE_LEN chs)"

lemma spaces_simps [simp]:
  "spaces [] = 0" "spaces (ch # chs) = CHAIN_SPACE_LEN ch + spaces chs"
  "spaces (xs @ ys) = spaces xs + spaces ys"
  by (simp_all add: spaces_def)

lemma same_data_refl: "\<forall>c\<in>set chs. chain_ok c \<Longrightarrow> same_data chs chs"
  by (simp add: same_data_def)

lemma same_data_Cons:
  "same_data xs ys \<Longrightarrow> chain_ok c' \<Longrightarrow> ch_off c' = ch_off c \<Longrightarrow> ch_flags c' = ch_flags c
   \<Longrightarrow> chain_data c' = chain_data c \<Longrightarrow> same_data (c # xs) (c' # ys)"
  by (simp add: same_data_def)

lemma space_le_max: "chain_ok ch \<Longrightarrow> CHAIN_SPACE_LEN ch \<le> CHAIN_MAX"
  by (auto simp: CHAIN_SPACE_LEN_def chain_ok_def)

text \<open>
  The chains that can be used, when the first one may be full, and the space in the first \<open>n\<close> of them.
\<close>

definition usable :: "chain list \<Rightarrow> chain list" where
  "usable chs = (if chs \<noteq> [] \<and> CHAIN_SPACE_LEN (hd chs) = 0 then tl chs else chs)"

definition room :: "nat \<Rightarrow> chain list \<Rightarrow> nat" where
  "room n chs = spaces (take n (usable chs))"

lemma usable_simps [simp]:
  "usable [] = []" "usable (ch # chs) = (if CHAIN_SPACE_LEN ch = 0 then chs else ch # chs)"
  by (simp_all add: usable_def)

lemma usable_append: "xs \<noteq> [] \<Longrightarrow> usable (xs @ ys) = usable xs @ ys"
  by (cases xs) simp_all

lemma spaces_usable [simp]: "spaces (usable chs) = spaces chs"
  by (cases chs) simp_all

definition starts_free :: "chain list \<Rightarrow> bool" where
  "starts_free chs \<longleftrightarrow> chs = [] \<or> CHAIN_SPACE_LEN (hd chs) \<noteq> 0"

lemma empty_has_space: "chain_ok ch \<Longrightarrow> ch_off ch = 0 \<Longrightarrow> ch_misalign ch = 0 \<Longrightarrow> CHAIN_SPACE_LEN ch \<noteq> 0"
  by (auto simp: chain_ok_def CHAIN_SPACE_LEN_def split: if_splits)

text \<open>The outcome of the scan: there is enough space, or the chains have been counted.\<close>

definition scanned ::
    "bool \<Rightarrow> nat \<Rightarrow> nat \<Rightarrow> nat \<Rightarrow> nat \<Rightarrow> chain list \<Rightarrow> chain list \<times> bool \<times> nat \<times> nat \<Rightarrow> bool" where
  "scanned at_lwd datlen n used avail chs res \<longleftrightarrow>
     (case res of (chs', enough, used', avail') \<Rightarrow>
        same_data chs chs' \<and> used' \<le> n
        \<and> (avail < datlen \<longrightarrow> starts_free (if at_lwd then usable chs' else chs'))
        \<and> (if enough
           then datlen \<le> avail + spaces (take (n - used) (if at_lwd then usable chs' else chs')) \<and> chs' \<noteq> []
           else (used' < n \<longrightarrow> avail' = avail + spaces chs'
                 \<and> used' = used + length (if at_lwd then usable chs' else chs'))
              \<and> (chs \<noteq> [] \<longrightarrow> avail + CHAIN_SPACE_LEN (hd chs') \<le> avail' \<and> avail' < datlen)
              \<and> (chs = [] \<longrightarrow> avail' = avail)))"

lemma expand_scan_runs:
  assumes "\<forall>c\<in>set chs. chain_ok c" and "\<forall>c\<in>set (if at_lwd then tl chs else chs). ch_off c = 0"
    and "datlen \<le> 2 ^ 31" and "avail \<le> datlen" and "used < n"
  shows "runs (expand_scan datlen n at_lwd used avail chs) (scanned at_lwd datlen n used avail chs)"
  using assms
proof (induction chs arbitrary: at_lwd used avail)
  case Nil
  then show ?case by (simp add: scanned_def same_data_def starts_free_def)
next
  case (Cons ch chs)
  define space where "space = (if ch_off ch \<noteq> 0 then CHAIN_SPACE_LEN ch else ch_buffer_len ch)"
  define ch' where "ch' = (if ch_off ch \<noteq> 0 then ch else ch\<lparr>ch_misalign := 0\<rparr>)"
  define used' where "used' = (if ch_off ch \<noteq> 0 \<and> space = 0 then used else Suc used)"
  have cok: "chain_ok ch" using Cons.prems(1) by simp
  have ch': "chain_ok ch'" "ch_off ch' = ch_off ch" "ch_flags ch' = ch_flags ch" "chain_data ch' = chain_data ch"
    "CHAIN_SPACE_LEN ch' = space"
    using cok by (auto simp: ch'_def space_def chain_ok_def CHAIN_SPACE_LEN_def split: if_splits)
  have used': "used' = (if space = 0 then used else Suc used)"
    using empty_has_space [OF ch'(1)] ch'(2,5) by (auto simp: used'_def ch'_def split: if_splits)
  have "space \<le> CHAIN_MAX" using space_le_max [OF ch'(1)] ch'(5) by simp
  then have "avail + space < SIZE_MOD"
    using Cons.prems(3,4) by (simp add: CHAIN_MAX_def EVBUFFER_CHAIN_SIZE_def SIZE_MOD_def)
  then have add: "addz avail space = avail + space" by (rule addz_exact)
  have no_assert: "\<not> (ch_off ch \<noteq> 0 \<and> \<not> at_lwd)" using Cons.prems(2) by (auto split: if_splits)
  have step: "expand_scan datlen n at_lwd used avail (ch # chs) =
     (if avail + space \<ge> datlen then Inr (ch' # chs, True, used', avail + space)
      else if used' = n then Inr (ch' # chs, False, used', avail + space)
      else bindE (expand_scan datlen n False used' (avail + space) chs)
             (\<lambda>(chs, enough, used, avail). Inr (ch' # chs, enough, used, avail)))"
    unfolding expand_scan.simps(2) Let_def space_def [symmetric] ch'_def [symmetric] used'_def [symmetric] add
    using no_assert by (simp only: if_False)
  have tl: "same_data chs chs" using Cons.prems(1) by (simp add: same_data_refl)
  note cons = same_data_Cons [OF _ ch'(1-4)]
  have sp0: "\<not> at_lwd \<Longrightarrow> space \<noteq> 0"
    using no_assert empty_has_space [OF ch'(1)] ch'(2,5) by (auto simp: ch'_def)
  have n: "n - used = Suc (n - Suc used)" using Cons.prems(5) by simp
  have room: "space + spaces (take (n - used') cs)
      \<le> spaces (take (n - used) (if at_lwd then usable (ch' # cs) else ch' # cs))" for cs
    using ch'(5) sp0 by (auto simp: used' n)
  consider (enough) "avail + space \<ge> datlen" | (stop) "\<not> avail + space \<ge> datlen" "used' = n"
    | (on) "\<not> avail + space \<ge> datlen" "used' \<noteq> n" by blast
  then show ?case
  proof cases
    case enough
    then show ?thesis
      unfolding step using cons [OF tl] Cons.prems(5) room [of chs] ch'(5) sp0 by (auto simp: scanned_def used'_def starts_free_def)
  next
    case stop
    then show ?thesis unfolding step using cons [OF tl] ch'(5) Cons.prems(5) sp0 by (auto simp: scanned_def used' starts_free_def split: if_splits)
  next
    case on
    have "used' < n" using on(2) Cons.prems(5) by (simp add: used'_def split: if_splits)
    moreover have "\<forall>c\<in>set chs. ch_off c = 0" using Cons.prems(2) by (auto split: if_splits)
    ultimately have "runs (expand_scan datlen n False used' (avail + space) chs)
        (scanned False datlen n used' (avail + space) chs)"
      using on Cons.prems no_assert add by (intro Cons.IH) auto
    moreover have "expand_scan datlen n at_lwd used avail (ch # chs) =
        bindE (expand_scan datlen n False used' (avail + space) chs)
             (\<lambda>(chs, enough, used, avail). Inr (ch' # chs, enough, used, avail))"
      unfolding step using on by (simp only: if_False)
    ultimately show ?thesis
    proof (simp only: runs_bindE, elim runs_mono, goal_cases)
      case (1 res)
      obtain cs enough u a where res: "res = (cs, enough, u, a)" by (cases res) auto
      with 1 on(1) cons [of chs cs] room [of cs] ch'(5) sp0 show ?case
        by (cases enough) (auto simp: scanned_def used' starts_free_def simp del: expand_scan.simps)
    qed
  qed
qed

text \<open>
  What \<open>_evbuffer_expand_fast\<close> gives: the same bytes and, unless an allocation failed, the space asked
  for in the first \<open>n\<close> chains with space.
\<close>

definition makes_room :: "allocator \<Rightarrow> evbuffer \<Rightarrow> nat \<Rightarrow> nat \<Rightarrow> int \<times> evbuffer \<Rightarrow> bool" where
  "makes_room mm_malloc b n datlen res \<longleftrightarrow>
     (case res of (r, b') \<Rightarrow>
        evbuffer_ok b' \<and> contents b' = contents b \<and> chain_frame b b'
        \<and> (if r = 0
           then eb_chains b' \<noteq> [] \<and> datlen \<le> room n (drop (last_with_datap b') (eb_chains b'))
              \<and> (0 < datlen \<longrightarrow> starts_free (usable (drop (last_with_datap b') (eb_chains b'))))
           else r = -1 \<and> out_of_memory mm_malloc))"

lemma same_data_ok:
  assumes ok: "evbuffer_ok b" and s: "same_data (drop (last_with_datap b) (eb_chains b)) chs"
  shows "evbuffer_ok (b\<lparr>eb_chains := take (last_with_datap b) (eb_chains b) @ chs\<rparr>)"
    and "contents (b\<lparr>eb_chains := take (last_with_datap b) (eb_chains b) @ chs\<rparr>) = contents b"
proof -
  let ?k = "last_with_datap b" and ?chs = "eb_chains b"
  have split: "take ?k ?chs @ drop ?k ?chs = ?chs" by simp
  have "map ch_off (take ?k ?chs @ chs) = map ch_off (take ?k ?chs @ drop ?k ?chs)"
    using s by (simp only: map_append same_data_def)
  then have offs: "map ch_off (take ?k ?chs @ chs) = map ch_off ?chs" by (simp only: split)
  then have "lwd_ok (take ?k ?chs @ chs) ?k" and "chains_len (take ?k ?chs @ chs) = chains_len ?chs"
    using evbuffer_okD(4) [OF ok] by (simp_all only: lwd_ok_offs chains_len_def)
  moreover have "\<forall>c\<in>set (take ?k ?chs @ chs). chain_ok c"
    using s evbuffer_okD(1) [OF ok] by (auto simp: same_data_def dest: in_set_takeD)
  ultimately show "evbuffer_ok (b\<lparr>eb_chains := take ?k ?chs @ chs\<rparr>)"
    using evbuffer_okD(2,3) [OF ok] by (simp add: evbuffer_ok_def)
  have "chains_data (take ?k ?chs @ chs) = chains_data (take ?k ?chs @ drop ?k ?chs)"
    using s by (simp only: chains_data_simps same_data_def)
  then show "contents (b\<lparr>eb_chains := take ?k ?chs @ chs\<rparr>) = contents b"
    by (simp only: split contents_def) simp
qed

lemma expand_new_runs:
  assumes m: "malloc_ok mm_malloc" and ok: "evbuffer_ok b" and sz: "datlen \<le> CHAIN_MAX" and n: "2 \<le> n"
    and im: "eb_chains b = [] \<or> EVBUFFER_IMMUTABLE \<in> ch_flags (last (eb_chains b))"
  shows "runs (evbuffer_expand_fast mm_malloc b datlen n) (makes_room mm_malloc b n datlen)"
proof (rule chain_new_cases [OF m sz], goal_cases fail new)
  case fail
  with im n ok show ?thesis by (simp add: evbuffer_expand_fast_def makes_room_def)
next
  case (new ch)
  let ?chs = "eb_chains b" and ?k = "last_with_datap b"
  note f = fresh_chainD [OF new(2)] and sp = fresh_space [OF new(2)]
  note okD = evbuffer_okD [OF ok]
  have "total_len b + ch_off ch < SIZE_MOD" using f(4) okD(3) by simp
  from chain_insert_runs [OF ok f(1) this] f(4,7) obtain b' where
    b': "evbuffer_chain_insert b ch = Inr b'" "evbuffer_ok b'" "contents b' = contents b" "chain_frame b b'"
      "eb_chains b' \<noteq> []" "last (eb_chains b') = ch"
    by (auto elim: runsE)
  have "drop (last_with_datap b') (eb_chains b') = [ch] \<or> (\<exists>c. drop (last_with_datap b') (eb_chains b') = [c, ch]
      \<and> CHAIN_SPACE_LEN c = 0)"
  proof (cases "?chs = []")
    case True
    with b'(1) okD(4) f(4) show ?thesis by (auto simp: evbuffer_chain_insert_def lwd_ok_def)
  next
    case False
    with im have im: "EVBUFFER_IMMUTABLE \<in> ch_flags (last ?chs)" by simp
    have k: "?k < length ?chs" using lwd_bound [OF ok False] .
    have "chain_ok (last ?chs)" using okD(1) False by simp
    with im have off: "ch_off (?chs ! (length ?chs - 1)) \<noteq> 0" using False by (simp add: chain_ok_def last_conv_nth)
    have "\<not> ?k < length ?chs - 1" using lwd_ok_after [OF okD(4), of "length ?chs - 1"] off False by auto
    with k have "?k = length ?chs - 1" by linarith
    then have d: "drop ?k ?chs = [last ?chs]" "Suc ?k = length ?chs"
      using False k by (simp_all add: last_conv_nth flip: Cons_nth_drop_Suc)
    then have "first_victim b = length ?chs" using off False by (simp add: first_victim_def last_conv_nth)
    with b'(1) k f(4) have "eb_chains b' = ?chs @ [ch]" "last_with_datap b' = ?k"
      by (auto simp: evbuffer_chain_insert_def Let_def)
    with d im k show ?thesis by (simp add: CHAIN_SPACE_LEN_def)
  qed
  then have "datlen \<le> room n (drop (last_with_datap b') (eb_chains b'))"
    and "0 < datlen \<longrightarrow> starts_free (usable (drop (last_with_datap b') (eb_chains b')))"
    using sp n by (auto simp: room_def take_Cons' starts_free_def split: if_splits)
  with im n new(1) b' show ?thesis
    by (simp add: evbuffer_expand_fast_def makes_room_def)
qed

text \<open>After the scan: one more chain, or all empty chains replaced.\<close>

lemma expand_append_runs:
  assumes ok: "evbuffer_ok b" and ne: "eb_chains b \<noteq> []" and f: "fresh_chain (datlen - avail) tmp"
    and a: "avail = spaces (drop (last_with_datap b) (eb_chains b))" "avail < datlen"
    and n: "length (usable (drop (last_with_datap b) (eb_chains b))) < n"
    and sf: "starts_free (usable (drop (last_with_datap b) (eb_chains b)))"
  shows "makes_room mm_malloc b n datlen (0, b\<lparr>eb_chains := eb_chains b @ [tmp]\<rparr>)"
proof -
  let ?chs = "eb_chains b" and ?k = "last_with_datap b"
  note f' = fresh_chainD [OF f] and sp = fresh_space [OF f] and okD = evbuffer_okD [OF ok]
  have k: "?k < length ?chs" using lwd_bound [OF ok ne] .
  have "evbuffer_ok (b\<lparr>eb_chains := ?chs @ [tmp]\<rparr>)"
    using okD f'(1,4) lwd_ok_append [OF okD(4) ne, of tmp] by (simp add: evbuffer_ok_def)
  moreover have "room n (drop ?k ?chs @ [tmp]) = avail + CHAIN_SPACE_LEN tmp"
    using n a(1) k by (simp add: room_def usable_append)
  moreover have "datlen \<le> avail + CHAIN_SPACE_LEN tmp" using sp a(2) by linarith
  moreover have "starts_free (usable (drop ?k ?chs) @ [tmp])"
    using sf a(2) sp by (cases "usable (drop ?k ?chs)") (auto simp: starts_free_def)
  ultimately show ?thesis using f'(7) k by (simp add: makes_room_def contents_def usable_append)
qed

lemma expand_replace_runs:
  assumes m: "malloc_ok mm_malloc" and ok: "evbuffer_ok b" and ne: "eb_chains b \<noteq> []"
    and sz: "datlen \<le> CHAIN_MAX" and n: "2 \<le> n"
    and a: "CHAIN_SPACE_LEN (eb_chains b ! last_with_datap b) < datlen"
  shows "runs (expand_replace mm_malloc b datlen) (makes_room mm_malloc b n datlen)"
proof -
  let ?chs = "eb_chains b" and ?k = "last_with_datap b"
  let ?c = "?chs ! ?k"
  note okD = evbuffer_okD [OF ok]
  have k: "?k < length ?chs" using lwd_bound [OF ok ne] .
  have max: "CHAIN_MAX < SIZE_MOD" by (simp add: CHAIN_MAX_def SIZE_MOD_def EVBUFFER_CHAIN_SIZE_def)
  have emp: "\<forall>c\<in>set (drop (Suc ?k) ?chs). ch_off c = 0" using okD(4) ne by (simp add: lwd_ok_def)
  have split: "?chs = take (Suc ?k) ?chs @ drop (Suc ?k) ?chs" by simp
  have data: "chains_data (take (Suc ?k) ?chs) = chains_data ?chs"
    by (subst (2) split) (simp add: chains_data_all_empty [OF emp] del: append_take_drop_id)
  have len: "chains_len (take (Suc ?k) ?chs) = chains_len ?chs"
    using emp by (subst (2) split) (simp del: append_take_drop_id)
  have tk: "take (Suc ?k) ?chs = take ?k ?chs @ [?c]" using k by (rule take_Suc_conv_app_nth)
  have oks: "\<forall>c\<in>set (take (Suc ?k) ?chs). chain_ok c" using okD(1) by (meson in_set_takeD)
  show ?thesis
  proof (cases "ch_off ?c = 0")
    case True
    with okD(4) ne have k0: "?k = 0" by (auto simp: lwd_ok_def)
    with True emp have all: "\<forall>c\<in>set ?chs. ch_off c = 0" using ne by (cases ?chs) auto
    then have nil: "contents b = []" "total_len b = 0"
      using okD(2) by (simp_all add: contents_def chains_data_all_empty)
    have sub: "subz datlen 0 = datlen" using sz max by (subst subz_exact) simp_all
    show ?thesis
    proof (rule chain_new_cases [OF m sz], goal_cases fail new)
      case fail
      with True k0 all k nil show ?thesis
        by (simp add: expand_replace_def Let_def sub makes_room_def ZERO_CHAIN_def evbuffer_ok_def lwd_ok_def
            contents_def SIZE_MOD_def)
    next
      case (new tmp)
      note f = fresh_chainD [OF new(2)] and sp = fresh_space [OF new(2)]
      from new(1) True k0 all k nil f sp n show ?thesis
        by (simp add: expand_replace_def Let_def sub makes_room_def evbuffer_ok_def lwd_ok_def contents_def
            SIZE_MOD_def room_def take_Cons' starts_free_def)
    qed
  next
    case False
    let ?a = "CHAIN_SPACE_LEN ?c"
    have sub: "subz datlen ?a = datlen - ?a" using a sz max by (intro subz_exact) simp_all
    have lw: "lwd_ok (take (Suc ?k) ?chs) ?k" using k False by (simp add: lwd_ok_def tk nth_append)
    have sz': "datlen - ?a \<le> CHAIN_MAX" using sz by simp
    show ?thesis
    proof (rule chain_new_cases [OF m sz'], goal_cases fail new)
      case fail
      with False k emp okD(2,3) data len lw oks show ?thesis
        by (simp add: expand_replace_def Let_def sub makes_room_def evbuffer_ok_def contents_def)
    next
      case (new tmp)
      note f = fresh_chainD [OF new(2)] and sp = fresh_space [OF new(2)]
      have "lwd_ok (take (Suc ?k) ?chs @ [tmp]) ?k"
        using lwd_ok_append [OF lw, of tmp] f(4) tk by simp
      moreover have "drop ?k (take (Suc ?k) ?chs @ [tmp]) = [?c, tmp]" using k by (simp add: tk)
      moreover have "datlen \<le> room n [?c, tmp]" using sp n a by (auto simp: room_def take_Cons')
      moreover have "starts_free (usable [?c, tmp])" using sp a by (auto simp: starts_free_def)
      ultimately show ?thesis
        using new(1) False k emp okD(2,3) data len oks f
        by (simp add: expand_replace_def Let_def sub makes_room_def evbuffer_ok_def contents_def)
    qed
  qed
qed

lemma makes_room_trans:
  assumes "makes_room m c n datlen res" and "contents c = contents b" and "chain_frame b c"
  shows "makes_room m b n datlen res"
  using assms by (auto simp: makes_room_def split: prod.splits elim: chain_frame_trans)

lemma evbuffer_expand_fast_runs:
  assumes m: "malloc_ok mm_malloc" and ok: "evbuffer_ok b" and sz: "datlen \<le> CHAIN_MAX" and n: "2 \<le> n"
  shows "runs (evbuffer_expand_fast mm_malloc b datlen n) (makes_room mm_malloc b n datlen)"
proof (cases "eb_chains b = [] \<or> EVBUFFER_IMMUTABLE \<in> ch_flags (last (eb_chains b))")
  case True
  with m ok sz n show ?thesis by (rule expand_new_runs)
next
  case False
  let ?k = "last_with_datap b"
  have k: "?k < length (eb_chains b)" using lwd_bound [OF ok] False by simp
  note okD = evbuffer_okD [OF ok]
  have max: "CHAIN_MAX \<le> 2 ^ 31" "CHAIN_MAX < SIZE_MOD" by (simp_all add: CHAIN_MAX_def SIZE_MOD_def EVBUFFER_CHAIN_SIZE_def)
  have "\<forall>c\<in>set (drop ?k (eb_chains b)). chain_ok c" using okD(1) by (meson in_set_dropD)
  moreover have "\<forall>c\<in>set (tl (drop ?k (eb_chains b))). ch_off c = 0"
    using okD(4) False by (simp add: lwd_ok_def drop_Suc tl_drop)
  ultimately have "runs (expand_scan datlen n True 0 0 (drop ?k (eb_chains b)))
      (scanned True datlen n 0 0 (drop ?k (eb_chains b)))"
    using sz n max by (intro expand_scan_runs) simp_all
  then show ?thesis
    using False n
  proof (simp add: evbuffer_expand_fast_def Let_def runs_bindE, elim runs_mono, goal_cases)
    case (1 res)
    obtain chs enough used avail where res: "res = (chs, enough, used, avail)" by (cases res) auto
    let ?c = "b\<lparr>eb_chains := take ?k (eb_chains b) @ chs\<rparr>"
    have s: "same_data (drop ?k (eb_chains b)) chs" and ne: "drop ?k (eb_chains b) \<noteq> []"
      using 1 k by (simp_all add: res scanned_def)
    have "chs \<noteq> []" using s ne by (auto simp: same_data_def)
    with k have chs: "chs \<noteq> []" "drop ?k (eb_chains ?c) = chs" "eb_chains ?c ! ?k = hd chs"
      by (simp_all add: nth_append hd_conv_nth)
    note c = same_data_ok [OF ok s]
    have fr: "chain_frame b ?c" by simp
    show ?case
    proof (cases "enough \<or> used < n")
      case True
      show ?thesis
      proof (cases enough)
        case True
        with 1 chs c fr n show ?thesis by (simp add: res scanned_def makes_room_def room_def)
      next
        case False
        with True have u: "used < n" by simp
        with 1 False ne have a: "avail = spaces chs" "avail < datlen" "length (usable chs) < n"
          "starts_free (usable chs)"
          by (auto simp: res scanned_def)
        have sub: "subz datlen avail = datlen - avail" using a sz max by (intro subz_exact) simp_all
        have sz': "datlen - avail \<le> CHAIN_MAX" using sz by simp
        show ?thesis
        proof (rule chain_new_cases [OF m sz'], goal_cases fail new)
          case fail
          with False u c fr show ?thesis by (simp add: res sub makes_room_def)
        next
          case (new tmp)
          have "makes_room mm_malloc ?c n datlen (0, ?c\<lparr>eb_chains := eb_chains ?c @ [tmp]\<rparr>)"
            using new(2) a chs by (intro expand_append_runs [OF c(1), of datlen avail]) simp_all
          from makes_room_trans [OF this c(2) fr] new(1) False u show ?thesis by (simp add: res sub)
        qed
      qed
    next
      case False
      with 1 ne have "CHAIN_SPACE_LEN (hd chs) < datlen" by (auto simp: res scanned_def)
      with chs have "runs (expand_replace mm_malloc ?c datlen) (makes_room mm_malloc ?c n datlen)"
        by (intro expand_replace_runs m c(1) sz n) simp_all
      then show ?thesis using False makes_room_trans [OF _ c(2) fr]
        by (auto simp: res elim!: runs_mono)
    qed
  qed
qed

end
