(* ===== verification/Evbuffer_Printf.thy ===== *)
theory Evbuffer_Printf
  imports Evbuffer_Space Evbuffer_Stream
begin

text \<open>
  \<open>evbuffer_add_printf\<close> and \<open>evbuffer_add_vprintf\<close> of \<open>buffer.c\<close>, with \<open>evutil_vsnprintf\<close>. What the format and its
  arguments stand for is a parameter: a text, or \<open>None\<close> if it cannot be formatted. The text is printed straight into
  the free space of a chain, and once more into a bigger space if it did not fit.
\<close>

section \<open>The operations\<close>

text \<open>
  What is stored in the memory \<open>mem\<close> at \<open>pos\<close>, where there are \<open>buflen\<close> bytes, and the result: the length of the text.
  \<open>_vsnprintf\<close> of the Microsoft library stores a null byte only if there is room for it.
\<close>

definition evutil_vsnprintf :: "byte list option \<Rightarrow> nat \<Rightarrow> nat \<Rightarrow> byte list \<Rightarrow> int \<times> byte list" where
  "evutil_vsnprintf txt pos buflen mem =
     (if buflen = 0 then (0, mem)
      else case txt of
             None \<Rightarrow> (-1, mem_write (pos + buflen - 1) [0] mem)
           | Some t \<Rightarrow> (int (length t), mem_write (pos + buflen - 1) [0] (mem_write pos (take buflen (t @ [0])) mem)))"

text \<open>One round of the loop, in which chain \<open>i\<close> is used: the next chain, or the result.\<close>

definition vprintf_step ::
    "allocator \<Rightarrow> byte list option \<Rightarrow> nat \<times> evbuffer \<Rightarrow> ((nat \<times> evbuffer) + (int \<times> evbuffer)) exec" where
  "vprintf_step mm_malloc txt = (\<lambda>(i, buf).
     let ch = eb_chains buf ! i; space = CHAIN_SPACE_LEN ch in
     case evutil_vsnprintf txt (ch_misalign ch + ch_off ch) space (ch_buffer ch) of
       (sz, mem) \<Rightarrow>
         let ch = ch\<lparr>ch_buffer := mem\<rparr>; buf = buf\<lparr>eb_chains := (eb_chains buf)[i := ch]\<rparr> in
         if sz < 0 then Inr (Inr (-1, buf))
         else if nat sz < space
         then Inr (Inr (sz, evbuffer_invoke_callbacks
                (advance_last_with_data
                  (count_added (nat sz)
                    (grow_total (nat sz) (buf\<lparr>eb_chains := (eb_chains buf)[i := ch\<lparr>ch_off := ch_off ch + nat sz\<rparr>]\<rparr>))))))
         else bindE (evbuffer_expand_singlechain mm_malloc buf (addz (nat sz) 1))
                (\<lambda>(r, buf). case r of None \<Rightarrow> Inr (Inr (-1, buf)) | Some i \<Rightarrow> Inr (Inl (i, buf))))"

definition evbuffer_add_vprintf :: "allocator \<Rightarrow> evbuffer \<Rightarrow> byte list option \<Rightarrow> (int \<times> evbuffer) exec" where
  "evbuffer_add_vprintf mm_malloc buf txt =
     (if freeze_end buf then Inr (-1, buf)
      else bindE (evbuffer_expand_singlechain mm_malloc buf 64)
             (\<lambda>(r, buf). case r of None \<Rightarrow> Inr (-1, buf) | Some i \<Rightarrow> loops (vprintf_step mm_malloc txt) (i, buf)))"

definition evbuffer_add_printf :: "allocator \<Rightarrow> evbuffer \<Rightarrow> byte list option \<Rightarrow> (int \<times> evbuffer) exec" where
  "evbuffer_add_printf = evbuffer_add_vprintf"

section \<open>The chain that is used is the last one\<close>

text \<open>
  At most one empty chain is behind the last one with data, and then that one cannot take \<open>n\<close> bytes, so that the empty
  chain is used or replaced.
\<close>

definition settled :: "nat \<Rightarrow> evbuffer \<Rightarrow> bool" where
  "settled n b \<longleftrightarrow> length (eb_chains b) \<le> last_with_datap b + 2 \<and>
     (length (eb_chains b) = last_with_datap b + 2 \<longrightarrow> \<not> CHAIN_PINNED (last (eb_chains b)) \<and>
       (let c = eb_chains b ! last_with_datap b in
        CHAIN_SPACE_LEN c = 0 \<or> EVBUFFER_IMMUTABLE \<in> ch_flags c \<or> CHAIN_PINNED c
        \<or> CHAIN_SPACE_LEN c < n \<and> (ch_off c = 0 \<or> \<not> evbuffer_chain_should_realign c n
             \<and> (CHAIN_SPACE_LEN c < ch_buffer_len c div 8 \<or> ch_off c > MAX_TO_COPY_IN_EXPAND))))"

lemma settled_mono: "settled n b \<Longrightarrow> n \<le> m \<Longrightarrow> settled m b"
  by (auto simp: settled_def Let_def evbuffer_chain_should_realign_def)

lemma no_spare_settled: "no_spare b \<Longrightarrow> settled n b"
  by (auto simp: settled_def no_spare_def)

lemma insert_empty:
  assumes "evbuffer_chain_insert b ch = Inr b'" "ch_off ch = 0" "length (eb_chains b) \<le> last_with_datap b + 2"
    "length (eb_chains b) = last_with_datap b + 2 \<Longrightarrow> \<not> CHAIN_PINNED (last (eb_chains b))" "evbuffer_ok b"
  shows "last_with_datap b' = last_with_datap b \<and> eb_chains b' \<noteq> [] \<and> last (eb_chains b') = ch
    \<and> (eb_chains b' = [ch] \<and> last_with_datap b = 0
       \<or> last_with_datap b < length (eb_chains b) \<and> eb_chains b' = take (Suc (last_with_datap b)) (eb_chains b) @ [ch])"
proof (cases "eb_chains b = []")
  case True
  with assms(5) have "last_with_datap b = 0" by (simp add: evbuffer_ok_def lwd_ok_def)
  with True assms(1) show ?thesis by (auto simp: evbuffer_chain_insert_def)
next
  case False
  let ?chs = "eb_chains b" and ?k = "last_with_datap b"
  have lwd: "?k < length ?chs" "\<forall>c\<in>set (drop (Suc ?k) ?chs). ch_off c = 0" "?k = 0 \<or> ch_off (?chs ! ?k) \<noteq> 0"
    using evbuffer_okD(4) [OF assms(5)] False by (simp_all add: lwd_ok_def)
  have d: "drop ?k ?chs = ?chs ! ?k # drop (Suc ?k) ?chs" using lwd(1) by (simp add: Cons_nth_drop_Suc)
  have "skip_used (drop (Suc ?k) ?chs) = 0"
  proof (cases "length ?chs = ?k + 2")
    case True
    then have "drop (Suc ?k) ?chs = [last ?chs]"
      using False by (simp add: Cons_nth_drop_Suc [symmetric] last_conv_nth)
    with lwd(2) assms(4) True show ?thesis by simp
  next
    case False
    with assms(3) show ?thesis by simp
  qed
  then consider "first_victim b = ?k" "ch_off (?chs ! ?k) = 0" | "first_victim b = Suc ?k"
    using d by (cases "ch_off (?chs ! ?k) \<noteq> 0 \<or> CHAIN_PINNED (?chs ! ?k)") (auto simp: first_victim_def)
  then show ?thesis
  proof cases
    case 1
    with lwd(3) have "?k = 0" by simp
    with 1 assms(1) lwd(1) show ?thesis by (auto simp: evbuffer_chain_insert_def Let_def split: if_splits)
  next
    case 2
    with assms(1,2) lwd(1) show ?thesis
      by (auto simp: evbuffer_chain_insert_def Let_def split: if_splits)
  qed
qed

lemma fresh_not_pinned: "fresh_chain n ch \<Longrightarrow> \<not> CHAIN_PINNED ch"
  by (simp add: fresh_chain_def CHAIN_PINNED_def)

text \<open>The new chain is used; the chain before it could not be.\<close>

definition spent :: "nat \<Rightarrow> chain \<Rightarrow> bool" where
  "spent n c \<longleftrightarrow> CHAIN_SPACE_LEN c = 0 \<or> EVBUFFER_IMMUTABLE \<in> ch_flags c \<or> CHAIN_PINNED c
     \<or> CHAIN_SPACE_LEN c < n \<and> (ch_off c = 0 \<or> \<not> evbuffer_chain_should_realign c n
          \<and> (CHAIN_SPACE_LEN c < ch_buffer_len c div 8 \<or> ch_off c > MAX_TO_COPY_IN_EXPAND))"

lemma insert_new_settled:
  assumes m: "malloc_ok mm_malloc" and n: "n \<le> CHAIN_MAX" and ok: "evbuffer_ok b" and st: "settled n b"
    and sp: "eb_chains b \<noteq> [] \<Longrightarrow> spent n (eb_chains b ! last_with_datap b)"
    and r: "expand_insert_new mm_malloc b n = Inr (Some i, b')"
  shows "i = length (eb_chains b') - 1 \<and> settled n b'"
proof (rule chain_new_cases [OF m n], goal_cases fail new)
  case fail
  with r show ?case by (simp add: expand_insert_new_def evbuffer_chain_insert_new_def)
next
  case (new ch)
  then obtain b1 where b1: "evbuffer_chain_insert b ch = Inr b1" "use_chain n (length (eb_chains b1) - 1) b1 = Inr (Some i, b')"
    using r by (auto simp: expand_insert_new_def evbuffer_chain_insert_new_def bindE_Inr_iff)
  then have b': "b' = b1" "i = length (eb_chains b1) - 1" by (auto simp: use_chain_def split: if_splits)
  have "ch_off ch = 0" using fresh_chainD [OF new(2)] by simp
  from insert_empty [OF b1(1) this _ _ ok] st
  have ins: "last_with_datap b1 = last_with_datap b" "eb_chains b1 \<noteq> []" "last (eb_chains b1) = ch"
    "eb_chains b1 = [ch] \<and> last_with_datap b = 0
       \<or> last_with_datap b < length (eb_chains b) \<and> eb_chains b1 = take (Suc (last_with_datap b)) (eb_chains b) @ [ch]"
    by (auto simp: settled_def)
  from ins(4) show ?case
  proof
    assume "eb_chains b1 = [ch] \<and> last_with_datap b = 0"
    with b' ins(1) show ?thesis by (simp add: settled_def)
  next
    assume a: "last_with_datap b < length (eb_chains b) \<and> eb_chains b1 = take (Suc (last_with_datap b)) (eb_chains b) @ [ch]"
    then have "spent n (eb_chains b1 ! last_with_datap b1)" using sp ins(1) by (cases "eb_chains b = []") (auto simp: nth_append)
    with a b' ins fresh_not_pinned [OF new(2)] show ?thesis by (auto simp: settled_def spent_def Let_def)
  qed
qed

lemma settled_spent: "settled n b \<Longrightarrow> length (eb_chains b) = last_with_datap b + 2 \<Longrightarrow> spent n (eb_chains b ! last_with_datap b)"
  by (simp add: settled_def spent_def Let_def)

lemma expand_settled:
  assumes m: "malloc_ok mm_malloc" and n: "n \<le> CHAIN_MAX" and ok: "evbuffer_ok b" and st: "settled n b"
    and r: "evbuffer_expand_singlechain mm_malloc b n = Inr (Some i, b')"
  shows "i = length (eb_chains b') - 1 \<and> settled n b'"
proof -
  let ?chs = "eb_chains b" and ?k = "last_with_datap b"
  define p where "p = (if ?k < length ?chs \<and> CHAIN_SPACE_LEN (?chs ! ?k) = 0 then Suc ?k else ?k)"
  note ins = insert_new_settled [OF m n ok st _]
  show ?thesis
  proof (cases "length ?chs \<le> p")
    case True
    then have "expand_insert_new mm_malloc b n = Inr (Some i, b')"
      using r by (simp add: evbuffer_expand_singlechain_def Let_def p_def)
    moreover have "spent n (?chs ! ?k)" if "?chs \<noteq> []"
      using True lwd_bound [OF ok that] by (auto simp: p_def spent_def split: if_splits)
    ultimately show ?thesis using ins by blast
  next
    case False
    then have p: "p < length ?chs" by simp
    let ?c = "?chs ! p"
    have eq: "evbuffer_expand_singlechain mm_malloc b n =
       (if EVBUFFER_IMMUTABLE \<in> ch_flags ?c \<or> CHAIN_PINNED ?c then expand_insert_new mm_malloc b n
        else if CHAIN_SPACE_LEN ?c \<ge> n then use_chain n p b
        else if ch_off ?c = 0 then expand_insert_new mm_malloc b n
        else if evbuffer_chain_should_realign ?c n
        then bindE (evbuffer_chain_align ?c) (\<lambda>c'. use_chain n p (b\<lparr>eb_chains := ?chs[p := c']\<rparr>))
        else if CHAIN_SPACE_LEN ?c < ch_buffer_len ?c div 8 \<or> ch_off ?c > MAX_TO_COPY_IN_EXPAND
        then if Suc p < length ?chs \<and> CHAIN_SPACE_LEN (?chs ! Suc p) \<ge> n
             then use_chain n (Suc p) b else expand_insert_new mm_malloc b n
        else expand_resize mm_malloc b n p)"
      using False by (simp only: evbuffer_expand_singlechain_def Let_def p_def [symmetric] if_False)
    have len: "length ?chs \<le> ?k + 2" using st by (simp add: settled_def)
    have ins': "i = length (eb_chains b') - 1 \<and> settled n b'"
      if "spent n (?chs ! ?k)" "expand_insert_new mm_malloc b n = Inr (Some i, b')"
      using ins that by blast
    consider (behind) "p = Suc ?k" "length ?chs = ?k + 2" "CHAIN_SPACE_LEN (?chs ! ?k) = 0"
      | (only) "p = ?k" "length ?chs = Suc ?k" "CHAIN_SPACE_LEN ?c \<noteq> 0"
      | (spare) "p = ?k" "length ?chs = ?k + 2" "CHAIN_SPACE_LEN ?c \<noteq> 0"
      using p len by (cases "length ?chs = ?k + 2") (auto simp: p_def split: if_splits)
    then show ?thesis
    proof cases
      case behind
      have "last ?chs = ?c" using behind p by (metis add_2_eq_Suc' diff_Suc_1 last_conv_nth list.size(3) not_less_zero)
      then have "\<not> CHAIN_PINNED ?c" using st behind by (auto simp: settled_def)
      have "?c \<in> set (drop (Suc ?k) ?chs)" using behind p by (simp add: Cons_nth_drop_Suc [symmetric])
      then have off: "ch_off ?c = 0" using evbuffer_okD(4) [OF ok] by (auto simp: lwd_ok_def split: if_splits)
      then have "EVBUFFER_IMMUTABLE \<notin> ch_flags ?c" using evbuffer_okD(1) [OF ok] p by (auto simp: chain_ok_def)
      have "spent n (?chs ! ?k)" using behind by (simp add: spent_def)
      from ins' [OF this] have "expand_insert_new mm_malloc b n = Inr (Some i, b') \<Longrightarrow> ?thesis" .
      with \<open>\<not> CHAIN_PINNED ?c\<close> \<open>EVBUFFER_IMMUTABLE \<notin> ch_flags ?c\<close> off behind r st show ?thesis
        unfolding eq by (auto simp: use_chain_def split: if_splits)
    next
      case only
      show ?thesis
      proof (cases "expand_insert_new mm_malloc b n = Inr (Some i, b') \<and> spent n ?c")
        case True
        with only ins' show ?thesis by simp
      next
        case False
        with only r have "i = ?k \<and> length (eb_chains b') = Suc ?k \<and> last_with_datap b' = ?k"
          unfolding eq
          by (auto simp: use_chain_def spent_def bindE_Inr_iff expand_resize_def Let_def not_le free_chains_def emit_def
              split: if_splits option.splits)
        then show ?thesis by (simp add: settled_def)
      qed
    next
      case spare
      then have sp: "spent n ?c" using settled_spent [OF st] by simp
      have "expand_insert_new mm_malloc b n = Inr (Some i, b') \<Longrightarrow> ?thesis" using ins' sp spare(1) by simp
      moreover have "\<not> (CHAIN_SPACE_LEN ?c \<ge> n \<and> EVBUFFER_IMMUTABLE \<notin> ch_flags ?c \<and> \<not> CHAIN_PINNED ?c)"
        using sp spare(3) by (auto simp: spent_def)
      ultimately show ?thesis
        using sp spare r st unfolding eq by (auto simp: use_chain_def spent_def split: if_splits)
    qed
  qed
qed

section \<open>Printing into free space\<close>

lemma vsnprintf_stored:
  assumes "pos + buflen \<le> length mem" "0 < buflen" "evutil_vsnprintf (Some t) pos buflen mem = (sz, mem')"
  shows "sz = int (length t)" "length mem' = length mem" "take pos mem' = take pos mem"
    "length t < buflen \<Longrightarrow> mem_read pos (length t) mem' = t"
proof -
  let ?m = "mem_write pos (take buflen (t @ [0])) mem"
  have l: "length ?m = length mem" using assms(1) by (simp add: mem_write_def)
  have m: "sz = int (length t)" "mem' = mem_write (pos + buflen - 1) [0] ?m" using assms(2,3) by (simp_all add: evutil_vsnprintf_def)
  show "sz = int (length t)" by (rule m(1))
  show "length mem' = length mem" using assms(1,2) l unfolding m(2) by (simp add: length_mem_write)
  show "take pos mem' = take pos mem" using assms(1,2) l unfolding m(2) by (simp add: mem_write_def)
  show "mem_read pos (length t) mem' = t" if "length t < buflen"
    using that assms(1) unfolding m(2) by (simp add: mem_read_def mem_write_def)
qed

text \<open>Bytes stored behind the data of a chain change nothing else.\<close>

lemma free_space_write:
  assumes "chain_ok ch" "length mem = length (ch_buffer ch)"
    "take (ch_misalign ch + ch_off ch) mem = take (ch_misalign ch + ch_off ch) (ch_buffer ch)"
  shows "chain_ok (ch\<lparr>ch_buffer := mem\<rparr>)" "chain_data (ch\<lparr>ch_buffer := mem\<rparr>) = chain_data ch"
proof -
  show "chain_ok (ch\<lparr>ch_buffer := mem\<rparr>)" using assms by (simp add: chain_ok_def)
  have "mem_read (ch_misalign ch) (ch_off ch) m = drop (ch_misalign ch) (take (ch_misalign ch + ch_off ch) m)" for m
    by (simp add: mem_read_def drop_take)
  then show "chain_data (ch\<lparr>ch_buffer := mem\<rparr>) = chain_data ch" using assms(3) by (simp add: chain_data_def)
qed

text \<open>What is there can be stored again.\<close>

lemma mem_write_read: "pos + n \<le> length m \<Longrightarrow> mem_write pos (mem_read pos n m) m = m"
  by (simp add: mem_write_def mem_read_def append_take_drop_id flip: drop_drop) (metis add.commute append_take_drop_id drop_drop)

lemma chain_append_stored:
  assumes "ch_misalign ch + ch_off ch + length t \<le> length (ch_buffer ch)"
    "mem_read (ch_misalign ch + ch_off ch) (length t) (ch_buffer ch) = t"
  shows "chain_append t ch = ch\<lparr>ch_off := ch_off ch + length t\<rparr>"
  using mem_write_read [OF assms(1)] assms(2) by (simp add: chain_append_def)

text \<open>The flags of the chains are not changed, and new chains have none.\<close>

definition keeps_flags :: "evbuffer \<Rightarrow> evbuffer \<Rightarrow> bool" where
  "keeps_flags b c \<longleftrightarrow> (\<forall>Q. Q {} \<longrightarrow> flags_sat Q b \<longrightarrow> flags_sat Q c)"

lemma keeps_flags_trans: "keeps_flags a b \<Longrightarrow> keeps_flags b c \<Longrightarrow> keeps_flags a c"
  by (simp add: keeps_flags_def)

lemma flags_sat_update:
  "flags_sat Q b \<Longrightarrow> (i < length (eb_chains b) \<Longrightarrow> Q (ch_flags c)) \<Longrightarrow> flags_sat Q (b\<lparr>eb_chains := (eb_chains b)[i := c]\<rparr>)"
proof (cases "i < length (eb_chains b)")
  case True
  then show "flags_sat Q b \<Longrightarrow> (i < length (eb_chains b) \<Longrightarrow> Q (ch_flags c)) \<Longrightarrow> ?thesis"
    by (auto simp: flags_sat_def dest!: set_update_subset_insert [THEN subsetD])
qed (simp add: not_less list_update_beyond)

lemma insert_new_flags: "expand_insert_new m b n = Inr (r, b') \<Longrightarrow> keeps_flags b b'"
  by (auto simp: expand_insert_new_def evbuffer_chain_insert_new_def use_chain_def bindE_Inr_iff keeps_flags_def chain_new_flags
      split: option.splits if_splits dest!: chain_insert_flags)

lemma use_chain_flags: "use_chain n p b = Inr (r, b') \<Longrightarrow> b' = b"
  by (simp add: use_chain_def split: if_splits)

lemma expand_flags:
  assumes "evbuffer_expand_singlechain m b n = Inr (r, b')"
  shows "keeps_flags b b'"
proof -
  have u: "b' = b \<Longrightarrow> keeps_flags b b'" by (simp add: keeps_flags_def)
  have a: "keeps_flags b b'" if "evbuffer_chain_align (eb_chains b ! p) = Inr c" "use_chain n p (b\<lparr>eb_chains := (eb_chains b)[p := c]\<rparr>) = Inr (r, b')" for p c
    using use_chain_flags [OF that(2)] chain_align_flags [OF that(1)]
    by (auto simp: keeps_flags_def intro!: flags_sat_update) (simp add: flags_sat_def)
  have x: "keeps_flags b b'" if "expand_resize m b n p = Inr (r, b')" for p
    using that by (auto simp: expand_resize_def Let_def bindE_Inr_iff keeps_flags_def chain_new_flags
        split: option.splits dest!: use_chain_flags intro!: flags_sat_update)
  show ?thesis
    using assms
    by (auto simp: evbuffer_expand_singlechain_def Let_def bindE_Inr_iff split: if_splits
        intro: insert_new_flags a x u dest: use_chain_flags)
qed

text \<open>The state of the loop.\<close>

definition printing :: "evbuffer \<Rightarrow> nat \<Rightarrow> nat \<times> evbuffer \<Rightarrow> bool" where
  "printing b n = (\<lambda>(i, c). evbuffer_ok c \<and> contents c = contents b \<and> chain_frame b c \<and> eb_chains c \<noteq> []
     \<and> i = length (eb_chains c) - 1 \<and> settled n c \<and> keeps_flags b c \<and> n \<le> CHAIN_SPACE_LEN (last (eb_chains c)))"

definition printed :: "allocator \<Rightarrow> evbuffer \<Rightarrow> byte list \<Rightarrow> int \<times> evbuffer \<Rightarrow> bool" where
  "printed mm_malloc b t = (\<lambda>(r, c).
     r = -1 \<and> out_of_memory mm_malloc \<and> evbuffer_ok c \<and> contents c = contents b
     \<or> r = int (length t) \<and> (\<exists>d. c = evbuffer_invoke_callbacks d \<and> evbuffer_ok d \<and> contents d = contents b @ t
         \<and> chain_frame (count_added (length t) b) d \<and> (t \<noteq> [] \<longrightarrow> no_spare d) \<and> keeps_flags b d))"

lemma advance_to_last:
  assumes ok: "evbuffer_ok c" and ne: "eb_chains c \<noteq> []" and k: "length (eb_chains c) \<le> last_with_datap c + 2"
    and chs: "eb_chains d = butlast (eb_chains c) @ [ch]" "ch_off ch \<noteq> 0" "last_with_datap d = last_with_datap c"
  shows "advance_last_with_data d = d\<lparr>last_with_datap := length (eb_chains c) - 1\<rparr>"
proof -
  let ?k = "last_with_datap c"
  have kl: "?k < length (eb_chains c)" using lwd_bound [OF ok ne] .
  show ?thesis
  proof (cases "length (eb_chains c) = Suc ?k")
    case True
    then show ?thesis using chs by (simp add: advance_last_with_data_def)
  next
    case False
    with k kl have len: "length (eb_chains c) = ?k + 2" by simp
    then have "drop (Suc ?k) (eb_chains d) = [ch]" unfolding chs by simp
    with len chs show ?thesis by (simp add: advance_last_with_data_def)
  qed
qed

lemma advance_nothing: "evbuffer_ok b \<Longrightarrow> advance_last_with_data b = b"
proof -
  assume "evbuffer_ok b"
  then have "\<forall>c\<in>set (drop (Suc (last_with_datap b)) (eb_chains b)). ch_off c = 0"
    using evbuffer_okD(4) [of b] by (cases "eb_chains b = []") (auto simp: lwd_ok_def)
  then have "count_data (drop (Suc (last_with_datap b)) (eb_chains b)) = 0"
    by (cases "drop (Suc (last_with_datap b)) (eb_chains b)") auto
  then show ?thesis by (simp add: advance_last_with_data_def)
qed

text \<open>The text as far as it fits is stored, and nothing has changed.\<close>

definition stored :: "byte list \<Rightarrow> evbuffer \<Rightarrow> evbuffer" where
  "stored t c =
     (let ch = last (eb_chains c)
      in set_last_chain (ch\<lparr>ch_buffer := snd (evutil_vsnprintf (Some t) (ch_misalign ch + ch_off ch) (CHAIN_SPACE_LEN ch) (ch_buffer ch))\<rparr>) c)"

lemma update_last: "xs \<noteq> [] \<Longrightarrow> xs[length xs - Suc 0 := x] = butlast xs @ [x]"
  by (cases xs rule: rev_cases) simp_all

lemma stored_printing:
  assumes p: "printing b n (i, c)" and n: "0 < n"
  shows "printing b n (i, stored t c)" "last_with_datap (stored t c) = last_with_datap c" "total_len (stored t c) = total_len c"
    "CHAIN_SPACE_LEN (last (eb_chains (stored t c))) = CHAIN_SPACE_LEN (last (eb_chains c))"
    "length t < CHAIN_SPACE_LEN (last (eb_chains c)) \<Longrightarrow>
       (let ch = last (eb_chains (stored t c)) in chain_append t ch = ch\<lparr>ch_off := ch_off ch + length t\<rparr>)"
proof -
  let ?ch = "last (eb_chains c)"
  let ?pos = "ch_misalign ?ch + ch_off ?ch" and ?space = "CHAIN_SPACE_LEN ?ch"
  obtain sz mem where v: "evutil_vsnprintf (Some t) ?pos ?space (ch_buffer ?ch) = (sz, mem)" by (metis surj_pair)
  have ok: "evbuffer_ok c" and ne: "eb_chains c \<noteq> []" and i: "i = length (eb_chains c) - 1" and sp: "0 < ?space"
    using p n by (simp_all add: printing_def)
  have cok: "chain_ok ?ch" using evbuffer_okD(1) [OF ok] ne by simp
  have room: "?pos + ?space \<le> length (ch_buffer ?ch)"
    using cok sp by (auto simp: chain_ok_def CHAIN_SPACE_LEN_def split: if_splits)
  note st = vsnprintf_stored [OF room sp v]
  have same: "stored t c = c\<lparr>eb_chains := (eb_chains c)[i := ?ch\<lparr>ch_buffer := mem\<rparr>]\<rparr>"
    using ne by (simp add: stored_def Let_def v set_last_chain_def i update_last)
  have il: "i < length (eb_chains c)" "eb_chains c ! i = ?ch" using ne i by (simp_all add: last_conv_nth)
  note w = free_space_write [OF cok st(2,3)]
  have rep: "evbuffer_ok (stored t c)" "contents (stored t c) = contents c"
    unfolding same by (rule replace_chain_ok [OF ok il(1) w(1)]; simp add: il(2) w(2))+
  have l: "last (eb_chains (stored t c)) = ?ch\<lparr>ch_buffer := mem\<rparr>" unfolding same using ne i by (simp add: update_last)
  show lw: "last_with_datap (stored t c) = last_with_datap c" "total_len (stored t c) = total_len c" by (simp_all add: same)
  show space: "CHAIN_SPACE_LEN (last (eb_chains (stored t c))) = ?space" unfolding l by simp
  have pin: "CHAIN_PINNED (last (eb_chains (stored t c))) = CHAIN_PINNED ?ch" unfolding l by (simp add: CHAIN_PINNED_def)
  have len: "length (eb_chains (stored t c)) = length (eb_chains c)" by (simp add: same)
  have k: "length (eb_chains c) = last_with_datap c + 2 \<Longrightarrow> eb_chains (stored t c) ! last_with_datap c = eb_chains c ! last_with_datap c"
    unfolding same i by simp
  have "settled n c" using p by (simp add: printing_def)
  then have "settled n (stored t c)" unfolding settled_def len lw pin by (simp add: k)
  moreover have "keeps_flags c (stored t c)"
    using ne by (auto simp: keeps_flags_def stored_def Let_def flags_sat_def set_last_chain_def dest: in_set_butlastD)
  ultimately show "printing b n (i, stored t c)"
    using p keeps_flags_trans [of b c "stored t c"] rep space len ne unfolding printing_def by (auto simp: same)
  show "length t < ?space \<Longrightarrow> (let ch = last (eb_chains (stored t c)) in chain_append t ch = ch\<lparr>ch_off := ch_off ch + length t\<rparr>)"
    unfolding l Let_def using st(2,4) room by (intro chain_append_stored) simp_all
qed

lemma vprintf_step_eq:
  assumes "printing b n (i, c)" "0 < n"
  shows "vprintf_step mm_malloc (Some t) (i, c) =
    (if length t < CHAIN_SPACE_LEN (last (eb_chains c))
     then let d = stored t c; ch = last (eb_chains d)
          in Inr (Inr (int (length t), evbuffer_invoke_callbacks (advance_last_with_data (count_added (length t)
               (grow_total (length t) (set_last_chain (ch\<lparr>ch_off := ch_off ch + length t\<rparr>) d))))))
     else bindE (evbuffer_expand_singlechain mm_malloc (stored t c) (addz (length t) 1))
            (\<lambda>(r, buf). case r of None \<Rightarrow> Inr (Inr (-1, buf)) | Some i \<Rightarrow> Inr (Inl (i, buf))))"
proof -
  let ?ch = "last (eb_chains c)"
  obtain sz mem where v: "evutil_vsnprintf (Some t) (ch_misalign ?ch + ch_off ?ch) (CHAIN_SPACE_LEN ?ch) (ch_buffer ?ch) = (sz, mem)"
    by (metis surj_pair)
  have ne: "eb_chains c \<noteq> []" and i: "i = length (eb_chains c) - Suc 0" and sp: "0 < CHAIN_SPACE_LEN ?ch"
    using assms by (simp_all add: printing_def)
  have nth: "eb_chains c ! i = ?ch" using ne i by (simp add: last_conv_nth)
  have d: "stored t c = c\<lparr>eb_chains := (eb_chains c)[i := ?ch\<lparr>ch_buffer := mem\<rparr>]\<rparr>"
    using ne by (simp add: stored_def Let_def v set_last_chain_def i update_last)
  have l: "last (eb_chains (stored t c)) = ?ch\<lparr>ch_buffer := mem\<rparr>" unfolding d using ne i by (simp add: update_last)
  have sz: "sz = int (length t)" using v sp by (simp add: evutil_vsnprintf_def)
  have f: "(stored t c)\<lparr>eb_chains := (eb_chains (stored t c))[i := x]\<rparr> = set_last_chain x (stored t c)" for x
    unfolding d set_last_chain_def using ne i by (simp add: update_last list_update_append)
  show ?thesis
    unfolding vprintf_step_def Let_def prod.case nth v l d [symmetric]
    by (simp add: sz f)
qed

lemma vprintf_step_fits:
  assumes p: "printing b n (i, c)" and n: "0 < n" and sz: "total_len c + length t < SIZE_MOD"
    and fits: "length t < CHAIN_SPACE_LEN (last (eb_chains c))"
  shows "\<exists>res. vprintf_step mm_malloc (Some t) (i, c) = Inr (Inr res) \<and> printed mm_malloc b t res"
proof -
  define d ch e where "d = stored t c" and "ch = last (eb_chains d)" and "e = set_last_chain (ch\<lparr>ch_off := ch_off ch + length t\<rparr>) d"
  note st = stored_printing [OF p n, of t, folded d_def, folded ch_def]
  have dp: "evbuffer_ok d" "contents d = contents b" "chain_frame b d" "eb_chains d \<noteq> []" "length (eb_chains d) \<le> last_with_datap d + 2"
    "keeps_flags b d" using st(1) by (simp_all add: printing_def settled_def)
  have app: "ch\<lparr>ch_off := ch_off ch + length t\<rparr> = chain_append t ch" using st(5) fits by (simp add: Let_def)
  have e: "eb_chains e = butlast (eb_chains d) @ [chain_append t ch]" "last_with_datap e = last_with_datap d" "total_len e = total_len d"
    "chain_frame b e" using dp(3) by (simp_all add: e_def app set_last_chain_def)
  have "keeps_flags d e"
    using dp(4) by (auto simp: keeps_flags_def e_def ch_def flags_sat_def set_last_chain_def dest: in_set_butlastD)
  then have ke: "keeps_flags b e" by (rule keeps_flags_trans [OF dp(6)])
  have kf: "keeps_flags b (advance_last_with_data (count_added k (grow_total k e)))" for k
    using ke by (simp add: keeps_flags_def flags_sat_def advance_last_with_data_def grow_total_def)
  let ?f = "advance_last_with_data (count_added (length t) (grow_total (length t) e))"
  have f: "evbuffer_ok ?f \<and> contents ?f = contents b @ t \<and> chain_frame (count_added (length t) b) ?f \<and> (t \<noteq> [] \<longrightarrow> no_spare ?f) \<and> keeps_flags b ?f"
  proof (cases "t = []")
    case True
    then have "e = d" using dp(4) by (simp add: e_def app set_last_chain_def ch_def)
    moreover have "count_added 0 (grow_total 0 d) = d\<lparr>n_add_for_cb := addz (n_add_for_cb d) 0\<rparr>"
      using evbuffer_okD(3) [OF dp(1)] by (simp add: count_added_def grow_total_def addz_0_right)
    moreover have "evbuffer_ok (d\<lparr>n_add_for_cb := k\<rparr>)" for k using dp(1) by (simp add: evbuffer_ok_def)
    ultimately show ?thesis
      using True dp kf [of 0] by (simp add: advance_nothing contents_def chain_frame_def count_added_def)
  next
    case False
    then have "advance_last_with_data (count_added (length t) (grow_total (length t) e))
        = (count_added (length t) (grow_total (length t) e))\<lparr>last_with_datap := length (eb_chains d) - 1\<rparr>"
      using e by (intro advance_to_last [OF dp(1,4,5), where ch = "chain_append t ch"]) (simp_all add: grow_total_def)
    moreover have "length t \<le> CHAIN_SPACE_LEN (last (eb_chains d))" "total_len d + length t < SIZE_MOD"
      using fits sz st(3,4) ch_def by simp_all
    note append_last_ok [OF dp(1,4) False this, of ?f]
    ultimately show ?thesis
      using e dp(2) False kf [of "length t"] frame_count_added [of b "grow_total (length t) e" "length t"] \<open>total_len d + length t < SIZE_MOD\<close>
      by (simp add: ch_def no_spare_def grow_total_def addz_exact)
  qed
  then show ?thesis
    unfolding vprintf_step_eq [OF p n] using fits by (auto simp: Let_def printed_def d_def ch_def e_def)
qed

text \<open>
  \<open>evbuffer_add_vprintf\<close> appends the text, or returns -1 for want of memory. It prints at most twice.
\<close>

lemma expand_printing:
  assumes m: "malloc_ok mm_malloc" and n: "0 < n" "n + MAX_TO_COPY_IN_EXPAND \<le> CHAIN_MAX"
    and c: "evbuffer_ok c" "contents c = contents b" "chain_frame b c" "settled n c" "keeps_flags b c"
  shows "runs (evbuffer_expand_singlechain mm_malloc c n)
    (\<lambda>(r, c'). case r of None \<Rightarrow> out_of_memory mm_malloc \<and> evbuffer_ok c' \<and> contents c' = contents b
       | Some i \<Rightarrow> printing b n (i, c') \<and> total_len c' = total_len c)"
proof -
  obtain r c' where x: "evbuffer_expand_singlechain mm_malloc c n = Inr (r, c')" "expands mm_malloc c n (r, c')"
    using expand_singlechain_runs [OF m c(1) n(2)] by (auto elim: runsE)
  have ok': "evbuffer_ok c'" "contents c' = contents b" "chain_frame b c'"
    using x(2) c chain_frame_trans by (auto simp: expands_def)
  show ?thesis
  proof (cases r)
    case None
    with x ok' show ?thesis by (simp add: expands_def)
  next
    case (Some i)
    have "i = length (eb_chains c') - 1 \<and> settled n c'"
      using x(1) n unfolding Some by (intro expand_settled [OF m _ c(1,4)]) simp_all
    moreover have "i < length (eb_chains c')" "n \<le> CHAIN_SPACE_LEN (eb_chains c' ! i)" using x(2) by (simp_all add: expands_def Some)
    moreover have "total_len c' = total_len c"
      using length_contents [OF ok'(1)] length_contents [OF c(1)] ok'(2) c(2) by simp
    moreover have "eb_chains c' \<noteq> []" using calculation(2) by auto
    moreover have "keeps_flags b c'" by (rule keeps_flags_trans [OF c(5) expand_flags [OF x(1)]])
    ultimately show ?thesis using x(1) ok' by (simp add: Some printing_def last_conv_nth)
  qed
qed

lemma evbuffer_add_vprintf_runs:
  assumes m: "malloc_ok mm_malloc" and ok: "evbuffer_ok b" "no_spare b" and fr: "\<not> freeze_end b"
    and sz: "total_len b + length t < SIZE_MOD" "length t + 64 + MAX_TO_COPY_IN_EXPAND \<le> CHAIN_MAX"
  shows "runs (evbuffer_add_vprintf mm_malloc b (Some t)) (printed mm_malloc b t)"
proof -
  have "addz (length t) 1 = length t + 1" using sz(2) CHAIN_MAX_SIZE_MOD by (intro addz_exact) simp
  then have add: "addz (length t) (Suc 0) = Suc (length t)" by simp
  have loop: "runs (loops (vprintf_step mm_malloc (Some t)) (i, c)) (printed mm_malloc b t)"
    if pr: "printing b 64 (i, c)" and tl: "total_len c = total_len b" for i c
  proof (cases "length t < CHAIN_SPACE_LEN (last (eb_chains c))")
    case True
    with vprintf_step_fits [OF pr, of t mm_malloc] sz(1) tl
    obtain res where "vprintf_step mm_malloc (Some t) (i, c) = Inr (Inr res)" "printed mm_malloc b t res" by auto
    then show ?thesis by (subst loops_unfold) simp
  next
    case False
    note st = stored_printing [OF pr, of t, simplified]
    have s64: "settled (length t + 1) (stored t c)"
    proof (rule settled_mono [of 64])
      show "settled 64 (stored t c)" "64 \<le> length t + 1" using st(1) False pr by (simp_all add: printing_def)
    qed
    have d: "evbuffer_ok (stored t c)" "contents (stored t c) = contents b" "chain_frame b (stored t c)" "keeps_flags b (stored t c)"
      using st(1) by (simp_all add: printing_def)
    have again: "runs (loops (vprintf_step mm_malloc (Some t)) (j, e)) (printed mm_malloc b t)"
      if pe: "printing b (length t + 1) (j, e)" and te: "total_len e = total_len b" for j e
    proof -
      have "length t < CHAIN_SPACE_LEN (last (eb_chains e))" using pe by (simp add: printing_def)
      with vprintf_step_fits [OF pe, of t mm_malloc] sz(1) te
      obtain res where "vprintf_step mm_malloc (Some t) (j, e) = Inr (Inr res)" "printed mm_malloc b t res" by auto
      then show ?thesis by (subst loops_unfold) simp
    qed
    have "runs (evbuffer_expand_singlechain mm_malloc (stored t c) (length t + 1))
        (\<lambda>(r, c'). case r of None \<Rightarrow> out_of_memory mm_malloc \<and> evbuffer_ok c' \<and> contents c' = contents b
          | Some i \<Rightarrow> printing b (length t + 1) (i, c') \<and> total_len c' = total_len (stored t c))"
      using sz(2) by (intro expand_printing [OF m _ _ d(1-3) s64 d(4)]) simp_all
    then obtain r e where x: "evbuffer_expand_singlechain mm_malloc (stored t c) (length t + 1) = Inr (r, e)"
      "case r of None \<Rightarrow> out_of_memory mm_malloc \<and> evbuffer_ok e \<and> contents e = contents b
          | Some i \<Rightarrow> printing b (length t + 1) (i, e) \<and> total_len e = total_len b"
      unfolding st(3) tl by (auto elim!: runsE)
    show ?thesis
    proof (cases r)
      case None
      with False x show ?thesis
        by (subst loops_unfold, subst vprintf_step_eq [OF pr]) (simp_all add: add printed_def)
    next
      case (Some j)
      with False x again [of j e] show ?thesis
        by (subst loops_unfold, subst vprintf_step_eq [OF pr]) (simp_all add: add)
    qed
  qed
  have "runs (evbuffer_expand_singlechain mm_malloc b 64)
      (\<lambda>(r, c'). case r of None \<Rightarrow> out_of_memory mm_malloc \<and> evbuffer_ok c' \<and> contents c' = contents b
        | Some i \<Rightarrow> printing b 64 (i, c') \<and> total_len c' = total_len b)"
    using sz(2) ok no_spare_settled by (intro expand_printing [OF m]) (simp_all add: keeps_flags_def)
  then show ?thesis
    unfolding evbuffer_add_vprintf_def using fr loop
    by (auto simp: runs_bindE printed_def elim!: runs_mono split: option.splits)
qed

text \<open>With memory, on a buffer that can be written to.\<close>

lemma writable_printf:
  assumes "memory m" and "writable b" and "t \<noteq> []" and "length (contents b) + length t + 64 + MAX_TO_COPY_IN_EXPAND \<le> CHAIN_MAX"
  shows "\<exists>b'. evbuffer_add_printf m b (Some t) = Inr (int (length t), b') \<and> writable b' \<and> contents b' = contents b @ t"
proof -
  from assms(2) have ok: "evbuffer_ok b" "no_spare b" and fl: "flags_sat UNPINNED b" and fr: "\<not> freeze_start b" "\<not> freeze_end b"
    by (simp_all add: writable_def readable_def)
  have "total_len b + length t < SIZE_MOD" "length t + 64 + MAX_TO_COPY_IN_EXPAND \<le> CHAIN_MAX"
    using assms(4) length_contents [OF ok(1)] CHAIN_MAX_SIZE_MOD by simp_all
  from evbuffer_add_vprintf_runs [OF _ ok fr(2) this, of m] assms(1) obtain res where
    res: "evbuffer_add_vprintf m b (Some t) = Inr res" "printed m b t res" by (auto simp: memory_def elim: runsE)
  then obtain d where d: "res = (int (length t), evbuffer_invoke_callbacks d)" "evbuffer_ok d" "contents d = contents b @ t"
    "chain_frame (count_added (length t) b) d" "no_spare d" "keeps_flags b d"
    using assms(1,3) by (auto simp: printed_def memory_def split: prod.splits)
  have "flags_sat UNPINNED d" using d(6) fl by (simp add: keeps_flags_def)
  with d fr chain_frame_fields(1,2) [OF d(4)] res(1) show ?thesis
    by (simp add: evbuffer_add_printf_def writable_def readable_def)
qed

section \<open>Property\<close>

text \<open>
  C40: \<open>evbuffer_add_printf\<close> on a well-formed buffer ends, crashes nowhere and appends exactly the formatted text,
  also when the text does not fit into the first space; it returns the length of the text, or -1 and leaves the
  bytes alone when there is no memory. Another addition may follow a text that is not empty.
\<close>

theorem evbuffer_add_printf_appends:
  assumes "malloc_ok mm_malloc" "evbuffer_ok b" "no_spare b" "\<not> freeze_end b"
    and "total_len b + length t < SIZE_MOD" "length t + 64 + MAX_TO_COPY_IN_EXPAND \<le> CHAIN_MAX"
  shows "runs (evbuffer_add_printf mm_malloc b (Some t)) (\<lambda>(r, b'). evbuffer_ok b'
    \<and> (r = int (length t) \<and> contents b' = contents b @ t \<and> (t \<noteq> [] \<longrightarrow> no_spare b') \<or> r = -1 \<and> out_of_memory mm_malloc \<and> contents b' = contents b))"
  using evbuffer_add_vprintf_runs [OF assms] unfolding evbuffer_add_printf_def
  by (rule runs_mono) (auto simp: printed_def)

theorem evbuffer_add_printf_appends_witness:
  "runs (evbuffer_add_printf plain_malloc evbuffer_new (Some [49, 50])) (\<lambda>(r, b'). evbuffer_ok b' \<and> r = 2 \<and> contents b' = [49, 50])"
proof -
  have "runs (evbuffer_add_printf plain_malloc evbuffer_new (Some [49, 50])) (\<lambda>(r, b'). evbuffer_ok b'
    \<and> (r = int (length [49 :: byte, 50]) \<and> contents b' = contents evbuffer_new @ [49, 50] \<and> ([49 :: byte, 50] \<noteq> [] \<longrightarrow> no_spare b')
       \<or> r = -1 \<and> out_of_memory plain_malloc \<and> contents b' = contents evbuffer_new))"
    using evbuffer_new_ok
    by (intro evbuffer_add_printf_appends)
      (simp_all add: evbuffer_new_def CHAIN_MAX_def EVBUFFER_CHAIN_SIZE_def MAX_TO_COPY_IN_EXPAND_def SIZE_MOD_def)
  then show ?thesis by (rule runs_mono) (auto simp: evbuffer_new_writable)
qed

end
