(* ===== verification/Evbuffer_Socket.thy ===== *)
theory Evbuffer_Socket
  imports Evbuffer_Space
begin

text \<open>
  The transfers between a buffer and a socket or a file: \<open>evbuffer_read\<close>, \<open>evbuffer_readfile\<close> and
  \<open>evbuffer_write_atmost\<close> of \<open>buffer.c\<close> as built for Windows, with \<open>WSARecv\<close>, \<open>read\<close> and \<open>WSASend\<close> as
  parameters, and the lemmas on vectors that describe free space and on committing what was stored
  there.
\<close>

section \<open>The operations\<close>

definition EVBUFFER_MAX_READ :: int where
  "EVBUFFER_MAX_READ = 4096"

definition NUM_READ_IOVEC :: nat where
  "NUM_READ_IOVEC = 4"

definition NUM_WRITE_IOVEC :: nat where
  "NUM_WRITE_IOVEC = 16"

text \<open>
  The bytes \<open>bs\<close> stored in the memory the vectors describe, one vector after the other; the vectors
  point into the given chains.
\<close>

fun scatter :: "iovec list \<Rightarrow> byte list \<Rightarrow> chain list \<Rightarrow> chain list" where
  "scatter [] bs chs = chs"
| "scatter (v # vs) bs [] = []"
| "scatter (v # vs) bs (ch # chs) =
     ch\<lparr>ch_buffer := mem_write (snd (iov_base v)) (take (iov_len v) bs) (ch_buffer ch)\<rparr>
     # scatter vs (drop (iov_len v) bs) chs"

text \<open>What \<open>WSARecv\<close> does for vectors of the given lengths.\<close>

datatype recv_result = Received "byte list" | Conn_Aborted | Recv_Failed

text \<open>
  The loop of \<open>evbuffer_read\<close> over \<open>n\<close> vectors from the chain at position \<open>i\<close>: the chains after it and
  what \<open>last_with_datap\<close> is set to, if it is.
\<close>

fun read_commit :: "nat \<Rightarrow> nat \<Rightarrow> nat \<Rightarrow> chain list \<Rightarrow> (chain list \<times> nat option) exec" where
  "read_commit 0 remaining i chs = Inr (chs, None)"
| "read_commit (Suc n) remaining i [] = Inl Null_Deref"
| "read_commit (Suc n) remaining i (ch # chs) =
     (let space = CHAIN_SPACE_LEN ch in
      if space < remaining
      then bindE (read_commit n (remaining - space) (Suc i) chs)
             (\<lambda>(chs, lwd). Inr (ch\<lparr>ch_off := ch_off ch + space\<rparr> # chs, lwd))
      else Inr (ch\<lparr>ch_off := ch_off ch + remaining\<rparr> # chs, Some i))"

text \<open>\<open>n\<close> is the number of bytes \<open>ioctlsocket\<close> reports, negative when it fails.\<close>

definition evbuffer_read ::
    "allocator \<Rightarrow> int \<Rightarrow> (nat list \<Rightarrow> recv_result) \<Rightarrow> evbuffer \<Rightarrow> int \<Rightarrow> (int \<times> evbuffer) exec" where
  "evbuffer_read mm_malloc n WSARecv buf howmuch =
     (if freeze_end buf then Inr (-1, buf)
      else
        let n = (if n \<le> 0 \<or> n > EVBUFFER_MAX_READ then EVBUFFER_MAX_READ else n);
            howmuch = (if howmuch < 0 \<or> howmuch > n then n else howmuch)
        in bindE (evbuffer_expand_fast mm_malloc buf (to_size howmuch) NUM_READ_IOVEC)
             (\<lambda>(r, buf).
                if r = -1 then Inr (-1, buf)
                else bindE (evbuffer_read_setup_vecs buf howmuch 2 True)
                  (\<lambda>v. case v of
                     None \<Rightarrow> Inr (-1, buf)
                   | Some (vecs, p) \<Rightarrow>
                       (case WSARecv (map iov_len vecs) of
                          Conn_Aborted \<Rightarrow> Inr (0, buf)
                        | Recv_Failed \<Rightarrow> Inr (-1, buf)
                        | Received bs \<Rightarrow>
                            let n = length bs; chs = scatter vecs bs (drop p (eb_chains buf)) in
                            if n = 0 then Inr (0, buf)
                            else bindE (read_commit (length vecs) n p chs)
                              (\<lambda>(chs, lwd).
                                 let buf = buf\<lparr>eb_chains := take p (eb_chains buf) @ chs,
                                               last_with_datap := (case lwd of None \<Rightarrow> last_with_datap buf
                                                                   | Some j \<Rightarrow> j)\<rparr>
                                 in Inr (to_ssize n,
                                         evbuffer_invoke_callbacks (count_added n (grow_total n buf))))))))"

section \<open>Vectors of free space\<close>

text \<open>All vectors but the last one cover the whole free space of their chains.\<close>

fun packed :: "iovec list \<Rightarrow> chain list \<Rightarrow> bool" where
  "packed [] chs = True"
| "packed (v # vs) [] = False"
| "packed (v # vs) (ch # chs) \<longleftrightarrow>
     iov_base v = CHAIN_SPACE_PTR ch \<and> iov_len v \<le> CHAIN_SPACE_LEN ch
     \<and> (vs \<noteq> [] \<longrightarrow> iov_len v = CHAIN_SPACE_LEN ch) \<and> packed vs chs"

definition vecs_len :: "iovec list \<Rightarrow> nat" where
  "vecs_len vs = sum_list (map iov_len vs)"

lemma vecs_len_simps [simp]: "vecs_len [] = 0" "vecs_len (v # vs) = iov_len v + vecs_len vs"
  by (simp_all add: vecs_len_def)

lemma packed_in_bounds: "packed vs chs \<Longrightarrow> vecs_in_bounds vs chs"
  by (induction vs chs rule: packed.induct) auto

lemma vecs_in_bounds_length: "vecs_in_bounds vs chs \<Longrightarrow> length vs \<le> length chs"
  by (induction vs chs rule: vecs_in_bounds.induct) (auto split: if_splits)

definition sets_up :: "nat \<Rightarrow> nat \<Rightarrow> bool \<Rightarrow> nat \<Rightarrow> chain list \<Rightarrow> iovec list \<Rightarrow> bool" where
  "sets_up n howmuch exact so_far chs vs \<longleftrightarrow>
     packed vs chs \<and> length vs \<le> n \<and> (howmuch \<le> so_far \<longrightarrow> vs = []) \<and> min howmuch (so_far + spaces (take n chs)) \<le> so_far + vecs_len vs
     \<and> (exact \<longrightarrow> so_far + vecs_len vs \<le> max so_far howmuch)"

lemma setup_vecs_runs:
  assumes "\<forall>c\<in>set chs. chain_ok c" and "howmuch \<le> 2 ^ 31" and "howmuch \<le> so_far + spaces chs"
  shows "runs (setup_vecs n howmuch exact so_far chs) (sets_up n howmuch exact so_far chs)"
  using assms
proof (induction n arbitrary: so_far chs)
  case 0
  then show ?case by (simp add: sets_up_def)
next
  case (Suc n)
  show ?case
  proof (cases "so_far < howmuch")
    case False
    then show ?thesis by (simp add: sets_up_def)
  next
    case less: True
    with Suc.prems(3) obtain ch cs where chs: "chs = ch # cs" by (cases chs) auto
    define avail where "avail = (if CHAIN_SPACE_LEN ch > howmuch - so_far \<and> exact then howmuch - so_far
                                 else CHAIN_SPACE_LEN ch)"
    have "CHAIN_SPACE_LEN ch \<le> CHAIN_MAX" using Suc.prems(1) chs by (simp add: space_le_max)
    then have add: "addz so_far avail = so_far + avail"
      using less Suc.prems(2)
      by (intro addz_exact) (simp add: avail_def CHAIN_MAX_def EVBUFFER_CHAIN_SIZE_def SIZE_MOD_def)
    have sp: "avail \<le> CHAIN_SPACE_LEN ch" "avail = CHAIN_SPACE_LEN ch \<or> exact \<and> so_far + avail = howmuch"
      "exact \<Longrightarrow> so_far + avail \<le> howmuch"
      using less by (auto simp: avail_def)
    have IH: "runs (setup_vecs n howmuch exact (so_far + avail) cs) (sets_up n howmuch exact (so_far + avail) cs)"
      using Suc.prems chs sp by (intro Suc.IH) auto
    have eq: "setup_vecs (Suc n) howmuch exact so_far chs =
        bindE (setup_vecs n howmuch exact (so_far + avail) cs)
          (\<lambda>vecs. Inr (\<lparr>iov_base = CHAIN_SPACE_PTR ch, iov_len = avail\<rparr> # vecs))"
      using less by (simp add: chs Let_def avail_def [symmetric] add)
    show ?thesis
      unfolding eq runs_bindE using IH
    proof (rule runs_mono, goal_cases)
      case (1 vs)
      have "avail = CHAIN_SPACE_LEN ch" if "vs \<noteq> []"
      proof (rule ccontr)
        assume "avail \<noteq> CHAIN_SPACE_LEN ch"
        with sp(2) have "so_far + avail = howmuch" by blast
        with \<open>vs \<noteq> []\<close> 1 show False by (simp add: sets_up_def)
      qed
      then show ?case using 1 sp less by (auto simp: sets_up_def chs)
    qed
  qed
qed

section \<open>The chains the vectors belong to\<close>

lemma first_space_cases:
  assumes "evbuffer_ok b" and "eb_chains b \<noteq> []"
  obtains p where "first_space b = Some p" "drop p (eb_chains b) = usable (drop (last_with_datap b) (eb_chains b))"
    "last_with_datap b \<le> p" "p \<le> Suc (last_with_datap b)" "p \<le> length (eb_chains b)"
proof -
  have k: "last_with_datap b < length (eb_chains b)" using lwd_bound [OF assms] .
  then have hd: "hd (drop (last_with_datap b) (eb_chains b)) = eb_chains b ! last_with_datap b"
    by (simp add: hd_drop_conv_nth)
  show thesis
    by (rule that [of "if CHAIN_SPACE_LEN (eb_chains b ! last_with_datap b) = 0 then Suc (last_with_datap b)
                       else last_with_datap b"])
      (use k hd in \<open>auto simp: first_space_def Let_def usable_def drop_Suc tl_drop\<close>)
qed

text \<open>
  \<open>laid i lwd chs\<close>: the position \<open>lwd\<close>, if there is one, is that of the last chain with data, when the
  first of \<open>chs\<close> has position \<open>i\<close>.
\<close>

definition laid :: "nat \<Rightarrow> nat option \<Rightarrow> chain list \<Rightarrow> bool" where
  "laid i lwd chs \<longleftrightarrow>
     (case lwd of
        None \<Rightarrow> True
      | Some j \<Rightarrow> i \<le> j \<and> j < i + length chs \<and> ch_off (chs ! (j - i)) \<noteq> 0
                  \<and> (\<forall>c\<in>set (drop (Suc (j - i)) chs). ch_off c = 0))"

lemma laid_Cons: "laid (Suc i) (Some j) chs \<Longrightarrow> laid i (Some j) (ch # chs)"
  by (cases "j - i") (auto simp: laid_def Suc_le_eq dest: less_imp_Suc_add)

text \<open>The chains \<open>chs\<close> with the bytes \<open>bs\<close> in them are \<open>chs'\<close>.\<close>

definition filled :: "nat \<Rightarrow> chain list \<Rightarrow> byte list \<Rightarrow> chain list \<Rightarrow> nat option \<Rightarrow> bool" where
  "filled i chs bs chs' lwd \<longleftrightarrow>
     (\<forall>c\<in>set chs'. chain_ok c) \<and> chains_data chs' = chains_data chs @ bs
     \<and> chains_len chs' = chains_len chs + length bs \<and> length chs' = length chs \<and> laid i lwd chs'
     \<and> (lwd = None \<longrightarrow> map ch_off chs' = map ch_off chs)"

lemma lwd_ok_cong_offs: "map ch_off xs = map ch_off ys \<Longrightarrow> lwd_ok xs k = lwd_ok ys k"
  by (simp only: lwd_ok_offs)

lemma filled_ok:
  assumes ok: "evbuffer_ok b" and p: "last_with_datap b \<le> p" "p \<le> Suc (last_with_datap b)" "p \<le> length (eb_chains b)"
    and f: "filled p (drop p (eb_chains b)) bs chs' lwd"
    and b': "eb_chains b' = take p (eb_chains b) @ chs'" "total_len b' = total_len b + length bs"
      "last_with_datap b' = (case lwd of None \<Rightarrow> last_with_datap b | Some j \<Rightarrow> j)"
    and sz: "total_len b + length bs < SIZE_MOD"
  shows "evbuffer_ok b'" and "contents b' = contents b @ bs"
proof -
  let ?k = "last_with_datap b" and ?chs = "eb_chains b"
  have split: "?chs = take p ?chs @ drop p ?chs" by simp
  note okD = evbuffer_okD [OF ok]
  have oks: "\<forall>c\<in>set (take p ?chs @ chs'). chain_ok c"
    using f okD(1) by (auto simp: filled_def dest: in_set_takeD)
  have len: "chains_len ?chs = chains_len (take p ?chs) + chains_len (drop p ?chs)"
    by (subst (1) split) (simp del: append_take_drop_id)
  have data: "chains_data ?chs = chains_data (take p ?chs) @ chains_data (drop p ?chs)"
    by (subst (1) split) (simp del: append_take_drop_id)
  have "lwd_ok (take p ?chs @ chs') (last_with_datap b')"
  proof (cases lwd)
    case None
    then have "map ch_off (take p ?chs @ chs') = map ch_off (take p ?chs @ drop p ?chs)"
      using f by (simp only: map_append filled_def)
    then have "map ch_off (take p ?chs @ chs') = map ch_off ?chs" by (simp only: split [symmetric])
    with okD(4) None b'(3) lwd_ok_cong_offs [OF this] show ?thesis by simp
  next
    case (Some j)
    with f have j: "p \<le> j" "j < p + length chs'" "ch_off (chs' ! (j - p)) \<noteq> 0"
      "\<forall>c\<in>set (drop (Suc (j - p)) chs'). ch_off c = 0"
      by (simp_all add: filled_def laid_def)
    moreover have "length (take p ?chs) = p" using p by simp
    ultimately show ?thesis using Some b'(3)
      by (auto simp: lwd_ok_def nth_append Suc_diff_le)
  qed
  with oks len f b' sz okD(2) show "evbuffer_ok b'" by (simp add: evbuffer_ok_def filled_def)
  show "contents b' = contents b @ bs" using f b'(1) by (simp add: contents_def data filled_def)
qed

lemma filled_Cons:
  assumes "filled (Suc i) chs bs' chs' lwd" and "chain_ok ch" and "length bs \<le> CHAIN_SPACE_LEN ch"
    and "\<forall>c\<in>set chs. ch_off c = 0"
    and "lwd' = (case lwd of Some j \<Rightarrow> Some j | None \<Rightarrow> if bs \<noteq> [] then Some i else None)"
  shows "filled i (ch # chs) (bs @ bs') (chain_append bs ch # chs') lwd'"
proof (cases lwd)
  case None
  with assms(1) have offs: "map ch_off chs' = map ch_off chs" by (simp add: filled_def)
  then have "ch_off ` set chs' = ch_off ` set chs" by (metis set_map)
  with assms(4) have "\<forall>c\<in>set chs'. ch_off c = 0" by auto
  then show ?thesis
    using None assms chain_append_space [OF assms(2,3)] offs
    by (auto simp: filled_def laid_def chains_data_all_empty)
next
  case (Some j)
  then show ?thesis
    using assms chain_append_space [OF assms(2,3)] laid_Cons [of i j chs']
    by (auto simp: filled_def chains_data_all_empty)
qed

lemma filled_Nil: "\<forall>c\<in>set chs. chain_ok c \<Longrightarrow> filled i chs [] chs None"
  by (simp add: filled_def laid_def)

text \<open>Storing bytes and counting them is appending them.\<close>

lemma stored_append:
  "snd base = ch_misalign ch + ch_off ch \<Longrightarrow>
   ch\<lparr>ch_buffer := mem_write (snd base) bs (ch_buffer ch), ch_off := ch_off ch + length bs\<rparr> = chain_append bs ch"
  by (simp add: chain_append_def)

lemma scatter_Nil: "vecs_in_bounds vs chs \<Longrightarrow> scatter vs [] chs = chs"
  by (induction vs chs rule: vecs_in_bounds.induct) (auto split: if_splits)

lemma read_commit_runs:
  assumes "packed vs chs" and "\<forall>c\<in>set chs. chain_ok c" and "\<forall>c\<in>set (tl chs). ch_off c = 0"
    and "bs \<noteq> []" and "length bs \<le> vecs_len vs"
  shows "runs (read_commit (length vs) (length bs) i (scatter vs bs chs))
           (\<lambda>(chs', lwd). filled i chs bs chs' lwd \<and> lwd \<noteq> None)"
  using assms
proof (induction vs chs arbitrary: bs i rule: packed.induct)
  case (1 chs)
  then show ?case by simp
next
  case (2 v vs)
  then show ?case by simp
next
  case (3 v vs ch chs)
  let ?sp = "CHAIN_SPACE_LEN ch"
  have ptr: "snd (iov_base v) = ch_misalign ch + ch_off ch" using "3.prems"(1) by (simp add: CHAIN_SPACE_PTR_def)
  note step = stored_append [OF ptr]
  have emp: "\<forall>c\<in>set chs. ch_off c = 0" "\<forall>c\<in>set (tl chs). ch_off c = 0"
    using "3.prems"(3) list.set_sel(2) [of chs] by (cases chs; auto)+
  have cok: "chain_ok ch" "\<forall>c\<in>set chs. chain_ok c" using "3.prems"(2) by simp_all
  show ?case
  proof (cases "?sp < length bs")
    case True
    with "3.prems"(1,5) have vs: "vs \<noteq> []" by auto
    with "3.prems"(1) have iov: "iov_len v = ?sp" "packed vs chs" by auto
    have len: "length (take ?sp bs) = ?sp" using True by simp
    have "runs (read_commit (length vs) (length (drop ?sp bs)) (Suc i) (scatter vs (drop ?sp bs) chs))
        (\<lambda>(chs', lwd). filled (Suc i) chs (drop ?sp bs) chs' lwd \<and> lwd \<noteq> None)"
      using iov "3.prems"(5) emp(2) cok(2) True by (intro "3.IH") auto
    moreover have "filled i (ch # chs) bs (chain_append (take ?sp bs) ch # a) (Some j)"
      if "filled (Suc i) chs (drop ?sp bs) a (Some j)" for a j
      using filled_Cons [OF that cok(1) _ emp(1) refl, of "take ?sp bs"] by simp
    ultimately show ?thesis
      using True iov(1) step [of "take ?sp bs"] len
      by (auto simp: Let_def runs_bindE elim!: runs_mono)
  next
    case False
    have tk: "take (iov_len v) bs = bs" "scatter vs (drop (iov_len v) bs) chs = chs"
      using False "3.prems"(1,5) scatter_Nil [OF packed_in_bounds, of vs chs] by (cases "vs = []"; auto)+
    have "filled i (ch # chs) bs (chain_append bs ch # chs) (Some i)"
      using filled_Cons [OF filled_Nil [OF cok(2)] cok(1) _ emp(1) refl, of bs i] False "3.prems"(4) by simp
    with False step [of bs] show ?thesis by (simp add: Let_def tk)
  qed
qed

lemma commit_vecs_runs:
  assumes "vecs_in_bounds vs chs" and "\<forall>c\<in>set chs. chain_ok c" and "\<forall>c\<in>set (tl chs). ch_off c = 0"
    and "length bs = vecs_len vs" and "length bs < SIZE_MOD"
  shows "\<exists>chs' lwd. commit_vecs vs i (scatter vs bs chs) = (chs', length bs, lwd) \<and> filled i chs bs chs' lwd"
  using assms
proof (induction vs chs arbitrary: bs i rule: vecs_in_bounds.induct)
  case (1 chs)
  then show ?case by (simp add: filled_Nil)
next
  case (2 v vs)
  then show ?case by simp
next
  case (3 v vs ch chs)
  let ?l = "iov_len v"
  have b: "iov_base v = CHAIN_SPACE_PTR ch" "?l \<le> CHAIN_SPACE_LEN ch" "vecs_in_bounds vs chs"
    using "3.prems"(1) by (auto split: if_splits)
  have ptr: "snd (iov_base v) = ch_misalign ch + ch_off ch" using b(1) by (simp add: CHAIN_SPACE_PTR_def)
  have emp: "\<forall>c\<in>set chs. ch_off c = 0" "\<forall>c\<in>set (tl chs). ch_off c = 0"
    using "3.prems"(3) list.set_sel(2) [of chs] by (cases chs; auto)+
  have cok: "chain_ok ch" "\<forall>c\<in>set chs. chain_ok c" using "3.prems"(2) by simp_all
  have len: "length (take ?l bs) = ?l" "length (drop ?l bs) = vecs_len vs" "vecs_len vs < SIZE_MOD"
    "?l + vecs_len vs = length bs"
    using "3.prems"(4,5) by simp_all
  have "\<exists>chs' lwd. commit_vecs vs (Suc i) (scatter vs (drop ?l bs) chs) = (chs', length (drop ?l bs), lwd)
      \<and> filled (Suc i) chs (drop ?l bs) chs' lwd"
    using b cok(2) emp(2) len by (intro "3.IH") auto
  then obtain chs' lwd where IH: "commit_vecs vs (Suc i) (scatter vs (drop ?l bs) chs) = (chs', vecs_len vs, lwd)"
    "filled (Suc i) chs (drop ?l bs) chs' lwd"
    unfolding len(2) by blast
  have sp: "length (take ?l bs) \<le> CHAIN_SPACE_LEN ch" using b(2) len(1) by simp
  have ne: "take ?l bs \<noteq> [] \<longleftrightarrow> ?l \<noteq> 0" using len(1) by auto
  have "addz ?l (vecs_len vs) = length bs" using len(4) "3.prems"(5) by (simp add: addz_exact)
  with IH(1) filled_Cons [OF IH(2) cok(1) sp emp(1) refl, unfolded ne] stored_append [OF ptr, of "take ?l bs"] len(1) show ?case
    by (cases lwd; cases "?l = 0") simp_all
qed

section \<open>Reading\<close>

text \<open>What \<open>WSARecv\<close> documents: it receives no more than the vectors can hold.\<close>

definition recv_ok :: "(nat list \<Rightarrow> recv_result) \<Rightarrow> bool" where
  "recv_ok WSARecv \<longleftrightarrow> (\<forall>ls bs. WSARecv ls = Received bs \<longrightarrow> length bs \<le> sum_list ls)"

text \<open>
  The outcome of a read: bytes were received and appended, or the connection was closed, or the read
  or an allocation failed and the contents have not changed.
\<close>

definition reads :: "(nat list \<Rightarrow> recv_result) \<Rightarrow> nat \<Rightarrow> evbuffer \<Rightarrow> bool \<Rightarrow> int \<times> evbuffer \<Rightarrow> bool" where
  "reads WSARecv howmuch b oom res \<longleftrightarrow>
     (case res of (r, b') \<Rightarrow>
        evbuffer_ok b'
        \<and> ((\<exists>ls bs. WSARecv ls = Received bs \<and> sum_list ls \<le> howmuch \<and> (0 < howmuch \<longrightarrow> 0 < sum_list ls)
               \<and> r = int (length bs)
               \<and> contents b' = contents b @ bs)
           \<or> contents b' = contents b
              \<and> (r = 0 \<and> (\<exists>ls. WSARecv ls = Conn_Aborted)
                 \<or> r = -1 \<and> (oom \<or> (\<exists>ls. WSARecv ls = Recv_Failed)))))"

lemma evbuffer_read_runs:
  assumes m: "malloc_ok mm_malloc" and ok: "evbuffer_ok b" and fr: "\<not> freeze_end b" and rc: "recv_ok WSARecv"
    and sz: "total_len b + 4096 < SIZE_MOD"
  shows "runs (evbuffer_read mm_malloc n WSARecv b howmuch)
           (reads WSARecv (if howmuch < 0 then 4096 else nat howmuch) b (out_of_memory mm_malloc))"
proof -
  define n' where "n' = (if n \<le> 0 \<or> n > EVBUFFER_MAX_READ then EVBUFFER_MAX_READ else n)"
  define h where "h = (if howmuch < 0 \<or> howmuch > n' then n' else howmuch)"
  have n': "0 < n'" "n' \<le> 4096" by (auto simp: n'_def EVBUFFER_MAX_READ_def)
  then have h: "0 \<le> h" "h \<le> 4096" "nat h \<le> (if howmuch < 0 then 4096 else nat howmuch)"
    "howmuch \<noteq> 0 \<longrightarrow> 0 < h"
    by (auto simp: h_def)
  have th: "to_size h = nat h" using h to_size_int [of "nat h"] by (simp add: SIZE_MOD_def)
  have big: "nat h \<le> CHAIN_MAX" "nat h \<le> 2 ^ 31" using h(2) by (simp_all add: CHAIN_MAX_def EVBUFFER_CHAIN_SIZE_def)
  have "runs (evbuffer_expand_fast mm_malloc b (nat h) NUM_READ_IOVEC) (makes_room mm_malloc b NUM_READ_IOVEC (nat h))"
    by (rule evbuffer_expand_fast_runs [OF m ok big(1)]) (simp add: NUM_READ_IOVEC_def)
  then obtain r b1 where b1: "evbuffer_expand_fast mm_malloc b (nat h) NUM_READ_IOVEC = Inr (r, b1)"
    and room: "makes_room mm_malloc b NUM_READ_IOVEC (nat h) (r, b1)"
    by (auto elim!: runsE)
  have eq: "evbuffer_read mm_malloc n WSARecv b howmuch =
      (if r = -1 then Inr (-1, b1) else bindE (evbuffer_read_setup_vecs b1 h 2 True)
                  (\<lambda>v. case v of
                     None \<Rightarrow> Inr (-1, b1)
                   | Some (vecs, p) \<Rightarrow>
                       (case WSARecv (map iov_len vecs) of
                          Conn_Aborted \<Rightarrow> Inr (0, b1)
                        | Recv_Failed \<Rightarrow> Inr (-1, b1)
                        | Received bs \<Rightarrow>
                            let n = length bs; chs = scatter vecs bs (drop p (eb_chains b1)) in
                            if n = 0 then Inr (0, b1)
                            else bindE (read_commit (length vecs) n p chs)
                              (\<lambda>(chs, lwd).
                                 let buf = b1\<lparr>eb_chains := take p (eb_chains b1) @ chs,
                                               last_with_datap := (case lwd of None \<Rightarrow> last_with_datap b1
                                                                   | Some j \<Rightarrow> j)\<rparr>
                                 in Inr (to_ssize n,
                                         evbuffer_invoke_callbacks (count_added n (grow_total n buf)))))))"
    using fr by (simp add: evbuffer_read_def Let_def n'_def [symmetric] h_def [symmetric] th b1)
  show ?thesis
  proof (cases "r = -1")
    case True
    with room show ?thesis by (simp add: eq makes_room_def reads_def)
  next
    case False
    with room have b1': "evbuffer_ok b1" "contents b1 = contents b" "eb_chains b1 \<noteq> []"
      "nat h \<le> room NUM_READ_IOVEC (drop (last_with_datap b1) (eb_chains b1))"
      "0 < h \<Longrightarrow> starts_free (usable (drop (last_with_datap b1) (eb_chains b1)))"
      by (auto simp: makes_room_def split: if_splits)
    note okD = evbuffer_okD [OF b1'(1)]
    obtain p where p: "first_space b1 = Some p" "drop p (eb_chains b1) = usable (drop (last_with_datap b1) (eb_chains b1))"
      "last_with_datap b1 \<le> p" "p \<le> Suc (last_with_datap b1)" "p \<le> length (eb_chains b1)"
      using first_space_cases [OF b1'(1,3)] .
    let ?chs = "drop p (eb_chains b1)"
    have oks: "\<forall>c\<in>set ?chs. chain_ok c" using okD(1) by (meson in_set_dropD)
    have "nat h \<le> spaces (take NUM_READ_IOVEC ?chs)" using b1'(4) p(2) by (simp add: room_def)
    also have "\<dots> \<le> spaces ?chs" by (metis append_take_drop_id le_add1 spaces_simps(3))
    finally have "nat h \<le> spaces ?chs" .
    then have "nat h \<le> 0 + spaces ?chs" by simp
    from setup_vecs_runs [OF oks big(2) this, of 2 True] obtain vs where
      vs: "setup_vecs 2 (nat h) True 0 ?chs = Inr vs" "packed vs ?chs" "vecs_len vs \<le> nat h"
      "min (nat h) (spaces (take 2 ?chs)) \<le> vecs_len vs"
      by (auto simp: sets_up_def elim!: runsE)
    have pos: "0 < h \<longrightarrow> 0 < sum_list (map iov_len vs)"
    proof
      assume "0 < h"
      with b1'(5) \<open>nat h \<le> spaces ?chs\<close> have "0 < spaces (take 2 ?chs)"
        unfolding p(2) [symmetric] by (cases ?chs) (auto simp: starts_free_def)
      with vs(4) \<open>0 < h\<close> show "0 < sum_list (map iov_len vs)" by (simp add: vecs_len_def)
    qed
    have su: "evbuffer_read_setup_vecs b1 h 2 True = Inr (Some (vs, p))"
      using h(1) p(1) vs(1) by (simp add: evbuffer_read_setup_vecs_def)
    show ?thesis
    proof (cases "WSARecv (map iov_len vs)")
      case (Received bs)
      have le: "length bs \<le> vecs_len vs" using rc Received by (simp add: recv_ok_def vecs_len_def)
      have ls: "sum_list (map iov_len vs) \<le> nat h" using vs(3) by (simp add: vecs_len_def)
      show ?thesis
      proof (cases "bs = []")
        case True
        with Received False su ls pos h(3,4) b1' show ?thesis
          by (auto simp: eq reads_def intro!: exI [of _ "map iov_len vs"])
      next
        case ne: False
        have "\<forall>c\<in>set (tl ?chs). ch_off c = 0"
          using okD(4) b1'(3) set_drop_subset_set_drop [OF p(3), of "tl (eb_chains b1)"]
          by (auto simp: lwd_ok_def tl_drop drop_Suc)
        from read_commit_runs [OF vs(2) oks this ne le, of p] obtain chs' lwd where
          rd: "read_commit (length vs) (length bs) p (scatter vs bs ?chs) = Inr (chs', lwd)" "filled p ?chs bs chs' lwd"
          by (auto elim!: runsE)
        have bs: "length bs \<le> 4096" using le vs(3) h(2) by simp
        have "total_len b1 = total_len b"
          using b1'(1,2) ok by (metis length_contents)
        then have sz': "total_len b1 + length bs < SIZE_MOD" using sz bs by simp
        let ?b2 = "grow_total (length bs) (b1\<lparr>eb_chains := take p (eb_chains b1) @ chs',
            last_with_datap := (case lwd of None \<Rightarrow> last_with_datap b1 | Some j \<Rightarrow> j)\<rparr>)"
        have "evbuffer_ok ?b2" "contents ?b2 = contents b1 @ bs"
          by (rule filled_ok [OF b1'(1) p(3-5) rd(2) _ _ _ sz']; simp add: grow_total_def addz_exact sz')+
        moreover have "to_ssize (length bs) = int (length bs)" using bs by (simp add: SSIZE_MAX_def)
        ultimately show ?thesis
          using Received False su ne rd(1) b1'(2) ls pos h(3,4)
          by (auto simp: eq reads_def Let_def intro!: exI [of _ "map iov_len vs"])
      qed
    qed (use False su b1' in \<open>auto simp: eq reads_def\<close>)
  qed
qed

section \<open>Committing\<close>

text \<open>The user stores \<open>bs\<close> in the memory of the vectors.\<close>

definition store_vecs :: "iovec list \<Rightarrow> byte list \<Rightarrow> evbuffer \<Rightarrow> evbuffer" where
  "store_vecs vs bs b =
     (case first_space b of
        None \<Rightarrow> b
      | Some p \<Rightarrow> b\<lparr>eb_chains := take p (eb_chains b) @ scatter vs bs (drop p (eb_chains b))\<rparr>)"

lemma scatter_fields:
  assumes "vecs_in_bounds vs chs"
  shows "map CHAIN_SPACE_LEN (scatter vs bs chs) = map CHAIN_SPACE_LEN chs"
    and "map CHAIN_SPACE_PTR (scatter vs bs chs) = map CHAIN_SPACE_PTR chs"
    and "length (scatter vs bs chs) = length chs"
    and "vecs_in_bounds ws (scatter vs bs chs) = vecs_in_bounds ws chs"
proof -
  show "map CHAIN_SPACE_LEN (scatter vs bs chs) = map CHAIN_SPACE_LEN chs"
    "map CHAIN_SPACE_PTR (scatter vs bs chs) = map CHAIN_SPACE_PTR chs"
    "length (scatter vs bs chs) = length chs"
    using assms
    by (induction vs chs arbitrary: bs rule: vecs_in_bounds.induct)
      (auto simp: CHAIN_SPACE_PTR_def split: if_splits)
  show "vecs_in_bounds ws (scatter vs bs chs) = vecs_in_bounds ws chs"
    using assms
  proof (induction vs chs arbitrary: bs ws rule: vecs_in_bounds.induct)
    case (3 v vs ch chs)
    then show ?case by (cases ws) (auto simp: CHAIN_SPACE_PTR_def split: if_splits)
  qed simp_all
qed

lemma commit_vecs_space:
  assumes ok: "evbuffer_ok b" and fr: "\<not> freeze_end b" and p: "first_space b = Some p"
    and vs: "vecs_in_bounds vs (drop p (eb_chains b))" "vs \<noteq> []"
    and one: "length vs = 1 \<Longrightarrow> iov_base (hd vs) \<noteq> CHAIN_SPACE_PTR (last (eb_chains b))"
    and bs: "length bs = vecs_len vs" and sz: "total_len b + length bs < SIZE_MOD"
  shows "\<exists>b'. evbuffer_commit_space (store_vecs vs bs b) vs = Inr (0, b')
           \<and> evbuffer_ok b' \<and> contents b' = contents b @ bs"
proof -
  let ?chs = "eb_chains b"
  let ?sc = "scatter vs bs (drop p ?chs)"
  let ?b1 = "b\<lparr>eb_chains := take p ?chs @ ?sc\<rparr>"
  note okD = evbuffer_okD [OF ok] and sf = scatter_fields [OF vs(1), where bs = bs]
  have ne: "?chs \<noteq> []" using p by (auto simp: first_space_def Let_def split: if_splits)
  obtain p' where p': "first_space b = Some p'" "last_with_datap b \<le> p'" "p' \<le> Suc (last_with_datap b)"
    "p' \<le> length ?chs"
    using first_space_cases [OF ok ne] .
  with p have pk: "last_with_datap b \<le> p" "p \<le> Suc (last_with_datap b)" "p \<le> length ?chs" by simp_all
  have split: "?chs = take p ?chs @ drop p ?chs" by simp
  have lens: "map CHAIN_SPACE_LEN (take p ?chs @ ?sc) = map CHAIN_SPACE_LEN ?chs"
    by (subst (3) split) (simp only: map_append sf(1))
  have len: "length (take p ?chs @ ?sc) = length ?chs" using sf(3) pk by simp
  have nth: "CHAIN_SPACE_LEN ((take p ?chs @ ?sc) ! i) = CHAIN_SPACE_LEN (?chs ! i)" if "i < length ?chs" for i
    using that lens len by (metis nth_map)
  have fs: "first_space ?b1 = Some p"
    using p nth len by (auto simp: first_space_def Let_def split: if_splits)
  have "map CHAIN_SPACE_PTR (take p ?chs @ ?sc) = map CHAIN_SPACE_PTR ?chs"
    by (subst (3) split) (simp only: map_append sf(2))
  moreover have "take p ?chs @ ?sc \<noteq> []" using len ne by auto
  ultimately have lastp: "CHAIN_SPACE_PTR (last (take p ?chs @ ?sc)) = CHAIN_SPACE_PTR (last ?chs)"
    using ne last_map [of _ CHAIN_SPACE_PTR] by metis
  have oks: "\<forall>c\<in>set (drop p ?chs). chain_ok c" using okD(1) by (meson in_set_dropD)
  have emp: "\<forall>c\<in>set (tl (drop p ?chs)). ch_off c = 0"
    using okD(4) ne set_drop_subset_set_drop [OF pk(1), of "tl ?chs"] by (auto simp: lwd_ok_def tl_drop drop_Suc)
  have "length bs < SIZE_MOD" using sz by simp
  from commit_vecs_runs [OF vs(1) oks emp bs this, of p] obtain chs' lwd where
    cv: "commit_vecs vs p ?sc = (chs', length bs, lwd)" "filled p (drop p ?chs) bs chs' lwd" by blast
  let ?b2 = "b\<lparr>eb_chains := take p ?chs @ chs', last_with_datap := (case lwd of None \<Rightarrow> last_with_datap b | Some j \<Rightarrow> j)\<rparr>"
  have "evbuffer_commit_space ?b1 vs = Inr (commit_done (length bs) ?b2)"
    using fr vs one fs lastp sf(4) [where ws = vs] cv(1) pk
    by (cases lwd) (auto simp: evbuffer_commit_space_def)
  moreover have "evbuffer_ok (grow_total (length bs) ?b2)" "contents (grow_total (length bs) ?b2) = contents b @ bs"
    by (rule filled_ok [OF ok pk cv(2) _ _ _ sz]; simp add: grow_total_def addz_exact sz)+
  ultimately show ?thesis using p by (simp add: store_vecs_def commit_done_def)
qed

lemma commit_space_runs:
  assumes ok: "evbuffer_ok b" and fr: "\<not> freeze_end b" and p: "first_space b = Some p"
    and vs: "vecs_in_bounds vs (drop p (eb_chains b))" "vs \<noteq> []"
    and one: "length vs = 1 \<Longrightarrow> Suc p = length (eb_chains b) \<or> iov_base (hd vs) \<noteq> CHAIN_SPACE_PTR (last (eb_chains b))"
    and bs: "length bs = vecs_len vs" and sz: "total_len b + length bs < SIZE_MOD"
  shows "\<exists>b'. evbuffer_commit_space (store_vecs vs bs b) vs = Inr (0, b')
           \<and> evbuffer_ok b' \<and> contents b' = contents b @ bs"
proof (cases "length vs = 1 \<and> Suc p = length (eb_chains b)")
  case False
  with one show ?thesis by (intro commit_vecs_space [OF ok fr p vs _ bs sz]) auto
next
  case True
  let ?chs = "eb_chains b"
  from True obtain v where v: "vs = [v]" by (cases vs) auto
  have ne: "?chs \<noteq> []" using True by auto
  have pl: "p = length ?chs - 1" using True by linarith
  with ne have dr: "drop p ?chs = [last ?chs]" "take p ?chs = butlast ?chs"
    by (simp_all add: last_conv_nth butlast_conv_take flip: Cons_nth_drop_Suc)
  with vs v have ptr: "iov_base v = CHAIN_SPACE_PTR (last ?chs)" "iov_len v \<le> CHAIN_SPACE_LEN (last ?chs)"
    by (auto split: if_splits)
  have len: "length bs = iov_len v" using bs v by simp
  obtain p' where "first_space b = Some p'" "p' \<le> Suc (last_with_datap b)"
    using first_space_cases [OF ok ne] by metis
  with p True have "length ?chs \<le> last_with_datap b + 2" by simp
  with ok ne fr ptr(2) len sz have "\<exists>b'. evbuffer_commit_space (fill_last bs b)
             [\<lparr>iov_base = CHAIN_SPACE_PTR (last ?chs), iov_len = length bs\<rparr>] = Inr (0, b')
           \<and> evbuffer_ok b' \<and> contents b' = contents b @ bs"
    by (intro commit_last_runs) simp_all
  moreover have "fill_last bs b = store_vecs vs bs b"
    using p v len ptr(1) dr by (simp add: fill_last_def store_vecs_def set_last_chain_def CHAIN_SPACE_PTR_def Let_def)
  moreover have "[\<lparr>iov_base = CHAIN_SPACE_PTR (last ?chs), iov_len = length bs\<rparr>] = vs"
    by (simp add: v len flip: ptr(1))
  ultimately show ?thesis by simp
qed

section \<open>Reading from a file\<close>

text \<open>
  \<open>rd i len\<close> is what the \<open>i\<close>-th call of \<open>read\<close> for at most \<open>len\<close> bytes gives: the bytes, or \<open>None\<close> for
  -1.
\<close>

definition evbuffer_readfile ::
    "allocator \<Rightarrow> (nat \<Rightarrow> nat \<Rightarrow> byte list option) \<Rightarrow> evbuffer \<Rightarrow> int \<Rightarrow> (int \<times> evbuffer) exec" where
  "evbuffer_readfile mm_malloc rd buf howmuch =
     (if freeze_end buf then Inr (-1, buf)
      else
        let howmuch = (if howmuch < 0 then 16384 else howmuch) in
        bindE (evbuffer_reserve_space mm_malloc buf howmuch 2)
          (\<lambda>(nchains, v, buf).
             if nchains < 1 \<or> nchains > 2 then Inr (-1, buf)
             else case rd 0 (iov_len (v ! 0)) of
                    None \<Rightarrow> Inr (-1, buf)
                  | Some bs \<Rightarrow>
                      if bs = [] then Inr (0, buf)
                      else
                        let v0 = (v ! 0)\<lparr>iov_len := length bs\<rparr> in
                        if nchains > 1
                        then case rd 1 (iov_len (v ! 1)) of
                               Some (c # cs) \<Rightarrow>
                                 let v1 = (v ! 1)\<lparr>iov_len := length (c # cs)\<rparr> in
                                 bindE (evbuffer_commit_space (store_vecs [v0, v1] (bs @ c # cs) buf) [v0, v1])
                                   (\<lambda>(_, buf). Inr (to_ssize (length (c # cs)), buf))
                             | _ \<Rightarrow>
                                 bindE (evbuffer_commit_space (store_vecs [v0] bs buf) [v0])
                                   (\<lambda>(_, buf). Inr (to_ssize (length bs), buf))
                        else bindE (evbuffer_commit_space (store_vecs [v0] bs buf) [v0])
                               (\<lambda>(_, buf). Inr (to_ssize (length bs), buf))))"

section \<open>Writing\<close>

text \<open>The vectors of \<open>evbuffer_write_iovec\<close> as the bytes in them; \<open>n\<close> vectors are left.\<close>

fun write_vecs :: "nat \<Rightarrow> nat \<Rightarrow> chain list \<Rightarrow> byte list list" where
  "write_vecs 0 howmuch chs = []"
| "write_vecs (Suc n) howmuch [] = []"
| "write_vecs (Suc n) howmuch (ch # chs) =
     (if howmuch = 0 then []
      else if howmuch \<ge> ch_off ch
      then mem_read (ch_misalign ch) (ch_off ch) (ch_buffer ch) # write_vecs n (howmuch - ch_off ch) chs
      else [mem_read (ch_misalign ch) howmuch (ch_buffer ch)])"

text \<open>\<open>WSASend\<close> gives the number of bytes sent, or \<open>None\<close> if it fails.\<close>

definition evbuffer_write_iovec :: "(byte list list \<Rightarrow> nat option) \<Rightarrow> evbuffer \<Rightarrow> int \<Rightarrow> int" where
  "evbuffer_write_iovec WSASend buffer howmuch =
     (if howmuch < 0 then -1
      else let iov = write_vecs NUM_WRITE_IOVEC (nat howmuch) (eb_chains buffer) in
           if iov = [] then 0
           else case WSASend iov of None \<Rightarrow> -1 | Some n \<Rightarrow> to_ssize n)"

definition evbuffer_write_atmost ::
    "(byte list list \<Rightarrow> nat option) \<Rightarrow> evbuffer \<Rightarrow> int \<Rightarrow> (int \<times> evbuffer) exec" where
  "evbuffer_write_atmost WSASend buffer howmuch =
     (if freeze_start buffer then Inr (-1, buffer)
      else
        let howmuch = (if howmuch < 0 \<or> nat howmuch > total_len buffer then to_ssize (total_len buffer)
                       else howmuch);
            n = (if howmuch > 0 then evbuffer_write_iovec WSASend buffer howmuch else -1)
        in if n > 0 then bindE (evbuffer_drain buffer (nat n)) (\<lambda>(_, buffer). Inr (n, buffer))
           else Inr (n, buffer))"

definition evbuffer_write :: "(byte list list \<Rightarrow> nat option) \<Rightarrow> evbuffer \<Rightarrow> (int \<times> evbuffer) exec" where
  "evbuffer_write WSASend buffer = evbuffer_write_atmost WSASend buffer (-1)"

text \<open>\<open>WSASend\<close> sends no more than it was given.\<close>

definition send_ok :: "(byte list list \<Rightarrow> nat option) \<Rightarrow> bool" where
  "send_ok WSASend \<longleftrightarrow> (\<forall>vs n. WSASend vs = Some n \<longrightarrow> n \<le> length (concat vs))"

lemma write_vecs_concat:
  "\<forall>c\<in>set chs. chain_ok c \<Longrightarrow> concat (write_vecs n h chs) = take h (chains_data (take n chs))"
proof (induction n h chs rule: write_vecs.induct)
  case (3 n howmuch ch chs)
  have d: "mem_read (ch_misalign ch) (ch_off ch) (ch_buffer ch) = chain_data ch" by (simp add: chain_data_def)
  have "mem_read (ch_misalign ch) howmuch (ch_buffer ch) = take howmuch (chain_data ch)" if "howmuch < ch_off ch"
    using that by (simp add: chain_data_def mem_read_take)
  then show ?case using 3 by (simp add: d)
qed simp_all

lemma chains_data_take: "chains_data chs = chains_data (take n chs) @ chains_data (drop n chs)"
  by (metis append_take_drop_id chains_data_simps(3))

lemma write_atmost_runs:
  assumes ok: "evbuffer_ok b" "pinned_ok b" and fr: "\<not> freeze_start b" and snd: "send_ok WSASend"
    and sz: "total_len b \<le> SSIZE_MAX"
  shows "\<exists>vs r b'. evbuffer_write_atmost WSASend b howmuch = Inr (r, b') \<and> evbuffer_ok b' \<and> pinned_ok b'
           \<and> contents b' = drop (nat r) (contents b) \<and> (r \<le> 0 \<longrightarrow> b' = b)
           \<and> concat vs = take (if howmuch < 0 then total_len b else nat howmuch)
                              (chains_data (take NUM_WRITE_IOVEC (eb_chains b)))
           \<and> r = (if total_len b = 0 \<or> howmuch = 0 then -1
                  else case WSASend vs of None \<Rightarrow> -1 | Some n \<Rightarrow> int n)"
proof -
  define h where "h = (if howmuch < 0 \<or> nat howmuch > total_len b then total_len b else nat howmuch)"
  let ?vs = "write_vecs NUM_WRITE_IOVEC h (eb_chains b)"
  let ?first = "chains_data (take NUM_WRITE_IOVEC (eb_chains b))"
  have oks: "\<forall>c\<in>set (eb_chains b). chain_ok c" using evbuffer_okD(1) [OF ok(1)] .
  have "length ?first \<le> length (contents b)"
    unfolding contents_def by (subst (2) chains_data_take [of _ NUM_WRITE_IOVEC]) simp
  then have len: "length ?first \<le> total_len b" using length_contents [OF ok(1)] by simp
  have vs: "concat ?vs = take (if howmuch < 0 then total_len b else nat howmuch) ?first"
    using len by (simp add: write_vecs_concat [OF oks] h_def)
  have hs: "(if howmuch < 0 \<or> nat howmuch > total_len b then to_ssize (total_len b) else howmuch) = int h"
    using sz by (auto simp: h_def)
  define n where "n = (if 0 < int h then evbuffer_write_iovec WSASend b (int h) else -1)"
  have eq: "evbuffer_write_atmost WSASend b howmuch =
      (if n > 0 then bindE (evbuffer_drain b (nat n)) (\<lambda>(_, b). Inr (n, b)) else Inr (n, b))"
    using fr by (simp only: evbuffer_write_atmost_def Let_def hs n_def if_False)
  have le: "length (concat ?vs) \<le> SSIZE_MAX" using vs len sz by simp
  have res: "n = (if total_len b = 0 \<or> howmuch = 0 then -1 else case WSASend ?vs of None \<Rightarrow> -1 | Some n \<Rightarrow> int n)"
  proof (cases "h = 0")
    case True
    then show ?thesis by (auto simp: n_def h_def split: if_splits)
  next
    case False
    with evbuffer_okD(2) [OF ok(1)] have "eb_chains b \<noteq> []" by (auto simp: h_def split: if_splits)
    with False have "?vs \<noteq> []" by (cases "eb_chains b") (simp_all add: NUM_WRITE_IOVEC_def numeral_eq_Suc)
    moreover have "to_ssize j = int j" if "WSASend ?vs = Some j" for j
    proof -
      have "j \<le> length (concat ?vs)" using snd that by (simp add: send_ok_def)
      with le show ?thesis by simp
    qed
    moreover have "\<not> (total_len b = 0 \<or> howmuch = 0)" using False by (auto simp: h_def split: if_splits)
    ultimately show ?thesis
      using False by (simp add: n_def evbuffer_write_iovec_def Let_def split: option.splits)
  qed
  show ?thesis
  proof (cases "n > 0")
    case False
    with ok vs res [symmetric] show ?thesis by (intro exI [of _ ?vs]) (simp add: eq)
  next
    case True
    from evbuffer_drain_runs [OF ok fr, of "nat n"] obtain b' where
      "evbuffer_drain b (nat n) = Inr (0, b')" "evbuffer_ok b'" "pinned_ok b'" "contents b' = drop (nat n) (contents b)"
      by (auto simp: drains_def elim!: runsE)
    with True vs res [symmetric] show ?thesis by (intro exI [of _ ?vs]) (simp add: eq)
  qed
qed

text \<open>The same places with no more bytes in each, or only the first of them.\<close>

fun fewer :: "iovec list \<Rightarrow> iovec list \<Rightarrow> bool" where
  "fewer [] ws = True"
| "fewer (v # vs) (w # ws) \<longleftrightarrow> iov_base v = iov_base w \<and> iov_len v \<le> iov_len w \<and> fewer vs ws"
| "fewer _ [] = False"

lemma fewer_in_bounds: "vecs_in_bounds ws chs \<Longrightarrow> fewer vs ws \<Longrightarrow> vecs_in_bounds vs chs"
proof (induction vs ws arbitrary: chs rule: fewer.induct)
  case (2 v vs w ws)
  then show ?case by (cases chs) (auto split: if_splits)
qed simp_all

section \<open>Memory of their own\<close>

text \<open>
  The chains from the last one with data on have blocks of their own, and \<open>malloc\<close> gives none of these
  blocks a second time.
\<close>

definition own_memory :: "allocator \<Rightarrow> evbuffer \<Rightarrow> bool" where
  "own_memory mm_malloc b \<longleftrightarrow>
     (let addrs = map ch_addr (drop (last_with_datap b) (eb_chains b)) in
      distinct addrs \<and> (\<forall>n addr mem. mm_malloc n = Some (addr, mem) \<longrightarrow> addr + EVBUFFER_CHAIN_SIZE \<notin> set addrs))"

lemma chain_new_addr:
  "evbuffer_chain_new mm_malloc sz = Inr (Some ch) \<Longrightarrow> own_memory mm_malloc b
     \<Longrightarrow> ch_addr ch \<notin> ch_addr ` set (drop (last_with_datap b) (eb_chains b))"
  by (fastforce simp: evbuffer_chain_new_def own_memory_def Let_def split: option.splits prod.splits)

lemma expand_scan_addrs:
  "expand_scan datlen n l used avail chs = Inr (chs', res) \<Longrightarrow> map ch_addr chs' = map ch_addr chs"
proof (induction datlen n l used avail chs arbitrary: chs' res rule: expand_scan.induct)
  case (2 datlen n l used avail ch chs)
  then show ?case by (fastforce simp: Let_def bindE_Inr_iff split: if_splits)
qed simp

text \<open>The chains that stay and a new one at the end have blocks of their own again.\<close>

lemma own_memory_append:
  assumes own: "own_memory mm_malloc b" and new: "evbuffer_chain_new mm_malloc sz = Inr (Some ch)"
    and stay: "set (map ch_addr (drop k chs)) \<subseteq> set (map ch_addr (drop (last_with_datap b) (eb_chains b)))"
      "distinct (map ch_addr (drop k chs))"
  shows "distinct (map ch_addr (drop k (chs @ [ch])))"
  using stay chain_new_addr [OF new own] by (cases "k - length chs") auto


lemma chain_insert_addrs:
  assumes "evbuffer_chain_insert b ch = Inr b'" and "ch_off ch = 0" and "lwd_ok (eb_chains b) (last_with_datap b)"
  shows "\<exists>k. last_with_datap b' = last_with_datap b \<and> eb_chains b' = take k (eb_chains b) @ [ch]"
  using assms
  by (auto simp: evbuffer_chain_insert_def bindE_Inr_iff Let_def free_chains_def
      intro: exI [of _ "length (eb_chains b)"] split: if_splits)

lemma expand_replace_chains:
  assumes "expand_replace mm_malloc b datlen = Inr (0, b')"
  shows "\<exists>sz tmp. evbuffer_chain_new mm_malloc sz = Inr (Some tmp)
     \<and> (eb_chains b' = [tmp]
        \<or> eb_chains b' = take (Suc (last_with_datap b)) (eb_chains b) @ [tmp] \<and> last_with_datap b' = last_with_datap b)"
proof -
  let ?k = "last_with_datap b"
  let ?rmv = "ch_off (eb_chains b ! ?k) = 0"
  obtain sz r where new: "evbuffer_chain_new mm_malloc sz = Inr r"
    and res: "(case r of None \<Rightarrow> Inl Assert_Failed | Some tmp \<Rightarrow> Inr (if ?rmv then [tmp] else take (Suc ?k) (eb_chains b) @ [tmp],
                 if ?rmv then 0 else ?k)) = Inr (eb_chains b', last_with_datap b')"
  proof (cases "evbuffer_chain_new mm_malloc (subz datlen (if ?rmv then 0 else CHAIN_SPACE_LEN (eb_chains b ! ?k)))")
    case (Inr r)
    with assms that [OF Inr] show ?thesis
      by (cases r) (auto simp: expand_replace_def Let_def free_chains_def split: if_splits)
  qed (use assms in \<open>simp add: expand_replace_def Let_def split: if_splits\<close>)
  then show ?thesis by (cases r; cases ?rmv) (auto dest!: sym [of _ "eb_chains b'"])
qed

lemma expand_fast_own:
  assumes m: "malloc_ok mm_malloc" and ok: "evbuffer_ok b" and sz: "datlen \<le> CHAIN_MAX" and own: "own_memory mm_malloc b"
    and run: "evbuffer_expand_fast mm_malloc b datlen n = Inr (0, b')"
  shows "distinct (map ch_addr (drop (last_with_datap b') (eb_chains b')))"
proof -
  let ?k = "last_with_datap b" and ?chs = "eb_chains b"
  have dist: "distinct (map ch_addr (drop ?k ?chs))" using own by (simp add: own_memory_def Let_def)
  note okD = evbuffer_okD [OF ok]
  show ?thesis
  proof (cases "?chs = [] \<or> EVBUFFER_IMMUTABLE \<in> ch_flags (last ?chs)")
    case True
    with run obtain ch where ch: "evbuffer_chain_new mm_malloc datlen = Inr (Some ch)"
      "evbuffer_chain_insert b ch = Inr b'"
      by (auto simp: evbuffer_expand_fast_def bindE_Inr_iff split: if_splits option.splits)
    have "ch_off ch = 0" using chain_new_cases [OF m sz] ch(1) by (metis Inr_inject option.distinct(1) option.inject fresh_chainD(4))
    from chain_insert_addrs [OF ch(2) this okD(4)] obtain j where
      j: "last_with_datap b' = ?k" "eb_chains b' = take j ?chs @ [ch]" by blast
    have "drop ?k (take j ?chs) = take (j - ?k) (drop ?k ?chs)" by (rule drop_take)
    with dist show ?thesis
      unfolding j by (intro own_memory_append [OF own ch(1)]) (auto simp: take_map [symmetric] dest: in_set_takeD)
  next
    case False
    then have k: "?k < length ?chs" using lwd_bound [OF ok] by simp
    from False run obtain chs enough used avail where
      sc: "expand_scan datlen n True 0 0 (drop ?k ?chs) = Inr (chs, enough, used, avail)"
      by (auto simp: evbuffer_expand_fast_def bindE_Inr_iff Let_def split: if_splits)
    let ?c = "b\<lparr>eb_chains := take ?k ?chs @ chs\<rparr>"
    have chs: "map ch_addr (drop ?k (eb_chains ?c)) = map ch_addr (drop ?k ?chs)"
      using expand_scan_addrs [OF sc] k by simp
    have own': "own_memory mm_malloc ?c" using own chs by (simp add: own_memory_def Let_def)
    have dist': "distinct (map ch_addr (drop ?k (eb_chains ?c)))" using dist chs by simp
    show ?thesis
    proof (cases "enough \<or> used < n")
      case True
      with run False sc have "b' = ?c \<or> (\<exists>sz tmp. evbuffer_chain_new mm_malloc sz = Inr (Some tmp)
          \<and> b' = ?c\<lparr>eb_chains := eb_chains ?c @ [tmp]\<rparr>)"
        by (auto simp: evbuffer_expand_fast_def bindE_Inr_iff Let_def split: if_splits option.splits)
      then show ?thesis
      proof (elim disjE exE conjE)
        fix sz tmp
        assume "evbuffer_chain_new mm_malloc sz = Inr (Some tmp)" "b' = ?c\<lparr>eb_chains := eb_chains ?c @ [tmp]\<rparr>"
        with own_memory_append [OF own', of sz tmp ?k "eb_chains ?c"] dist' show ?thesis by simp
      qed (use dist' in simp)
    next
      case replace: False
      have "n \<ge> 2" using run by (cases "n \<ge> 2") (simp_all add: evbuffer_expand_fast_def)
      with replace False sc run have "expand_replace mm_malloc ?c datlen = Inr (0, b')"
        by (simp add: evbuffer_expand_fast_def Let_def)
      from expand_replace_chains [OF this] obtain sz tmp where new: "evbuffer_chain_new mm_malloc sz = Inr (Some tmp)"
        and b': "eb_chains b' = [tmp] \<or> eb_chains b' = take (Suc ?k) (eb_chains ?c) @ [tmp] \<and> last_with_datap b' = ?k"
        by auto
      from b' show ?thesis
      proof (elim disjE conjE)
        assume "eb_chains b' = [tmp]"
        then show ?thesis by (cases "last_with_datap b'") simp_all
      next
        assume e: "eb_chains b' = take (Suc ?k) (eb_chains ?c) @ [tmp]" "last_with_datap b' = ?k"
        have d: "drop ?k (take (Suc ?k) (eb_chains ?c)) = take (Suc 0) (drop ?k (eb_chains ?c))" by (simp add: drop_take)
        have "set (map ch_addr (drop ?k (take (Suc ?k) (eb_chains ?c)))) \<subseteq> set (map ch_addr (drop ?k (eb_chains ?c)))"
          unfolding d by (auto dest: in_set_takeD)
        moreover have "distinct (map ch_addr (drop ?k (take (Suc ?k) (eb_chains ?c))))"
          unfolding d using dist' by (simp only: take_map [symmetric] distinct_take)
        ultimately show ?thesis
          using own_memory_append [OF own' new, of ?k "take (Suc ?k) (eb_chains ?c)"] unfolding e by simp
      qed
    qed
  qed
qed


text \<open>A block of the space the first chains have: the last chain's only if it is the last chain.\<close>

lemma own_space_ptr:
  assumes "distinct (map ch_addr (drop k chs))" and "k \<le> p" and "p < length chs" and "Suc p \<noteq> length chs"
  shows "CHAIN_SPACE_PTR (chs ! p) \<noteq> CHAIN_SPACE_PTR (last chs)"
proof -
  have "last chs = chs ! (length chs - 1)" using assms(3) by (intro last_conv_nth) auto
  then have "last chs = drop k chs ! (length chs - 1 - k)" "chs ! p = drop k chs ! (p - k)" using assms(2-4) by auto
  moreover have "map ch_addr (drop k chs) ! (p - k) \<noteq> map ch_addr (drop k chs) ! (length chs - 1 - k)"
    using assms by (subst nth_eq_iff_index_eq) auto
  ultimately have "ch_addr (chs ! p) \<noteq> ch_addr (last chs)" using assms(2,3) by simp
  then show ?thesis by (simp add: CHAIN_SPACE_PTR_def)
qed

lemma vecs_in_bounds_hd: "vecs_in_bounds vs chs \<Longrightarrow> vs \<noteq> [] \<Longrightarrow> chs \<noteq> [] \<and> iov_base (hd vs) = CHAIN_SPACE_PTR (hd chs)"
  by (cases vs; cases chs) (simp_all split: if_splits)

section \<open>Properties\<close>

text \<open>
  C15: \<open>evbuffer_reserve_space\<close> for several vectors, on a well-formed buffer, fails no assertion and
  leaves the contents as they were. Unless an allocation failed, it gives at most as many vectors as
  asked for, with the space asked for in total; storing any number of bytes in each of the vectors, or
  of the first few of them, and committing these numbers appends exactly the bytes stored. Where only
  one vector is committed the chains have to have memory of their own, since \<open>evbuffer_commit_space\<close>
  finds the chain by its address then.
\<close>

theorem evbuffer_reserve_commit:
  assumes "malloc_ok mm_malloc" and "evbuffer_ok b" and "\<not> freeze_end b" and "sz \<le> CHAIN_MAX" and "2 \<le> n_vecs"
  shows "\<exists>r vecs b1. evbuffer_reserve_space mm_malloc b (int sz) n_vecs = Inr (r, vecs, b1)
     \<and> evbuffer_ok b1 \<and> contents b1 = contents b
     \<and> (r = -1 \<and> out_of_memory mm_malloc
        \<or> r = int (length vecs) \<and> length vecs \<le> n_vecs \<and> sz \<le> vecs_len vecs
          \<and> (\<forall>vs bs. fewer vs vecs \<and> (length vs = 1 \<longrightarrow> own_memory mm_malloc b) \<and> length bs = vecs_len vs
                     \<and> total_len b + length bs < SIZE_MOD
               \<longrightarrow> (\<exists>b2. evbuffer_commit_space (store_vecs vs bs b1) vs = Inr (0, b2)
                      \<and> evbuffer_ok b2 \<and> contents b2 = contents b @ bs)))"
proof -
  have big: "sz \<le> 2 ^ 31" "sz < SIZE_MOD"
    using assms(4) by (simp_all add: CHAIN_MAX_def EVBUFFER_CHAIN_SIZE_def SIZE_MOD_def)
  obtain r b1 where x: "evbuffer_expand_fast mm_malloc b sz n_vecs = Inr (r, b1)"
    "makes_room mm_malloc b n_vecs sz (r, b1)"
    using evbuffer_expand_fast_runs [OF assms(1,2,4,5)] by (auto elim!: runsE)
  have eq: "evbuffer_reserve_space mm_malloc b (int sz) n_vecs =
      (if r < 0 then Inr (-1, [], b1)
       else bindE (evbuffer_read_setup_vecs b1 (int sz) n_vecs False)
              (\<lambda>v. case v of None \<Rightarrow> Inr (-1, [], b1) | Some (vecs, _) \<Rightarrow> Inr (int (length vecs), vecs, b1)))"
    using assms(3,5) x(1) by (simp add: evbuffer_reserve_space_def to_size_int big(2))
  show ?thesis
  proof (cases "r = 0")
    case False
    with x(2) eq show ?thesis by (simp add: makes_room_def)
  next
    case True
    with x(2) have b1: "evbuffer_ok b1" "contents b1 = contents b" "eb_chains b1 \<noteq> []"
      "sz \<le> room n_vecs (drop (last_with_datap b1) (eb_chains b1))" "\<not> freeze_end b1"
      using assms(3) by (auto simp: makes_room_def chain_frame_fields(2))
    obtain p where p: "first_space b1 = Some p" "drop p (eb_chains b1) = usable (drop (last_with_datap b1) (eb_chains b1))"
      "last_with_datap b1 \<le> p"
      using first_space_cases [OF b1(1,3)] by metis
    let ?chs = "drop p (eb_chains b1)"
    have oks: "\<forall>c\<in>set ?chs. chain_ok c" using evbuffer_okD(1) [OF b1(1)] by (meson in_set_dropD)
    have tk: "sz \<le> spaces (take n_vecs ?chs)" using b1(4) p(2) by (simp add: room_def)
    also have "\<dots> \<le> spaces ?chs" by (metis append_take_drop_id le_add1 spaces_simps(3))
    finally have "sz \<le> 0 + spaces ?chs" by simp
    from setup_vecs_runs [OF oks big(1) this, of n_vecs False] tk obtain vecs where
      v: "setup_vecs n_vecs sz False 0 ?chs = Inr vecs" "packed vecs ?chs" "length vecs \<le> n_vecs" "sz \<le> vecs_len vecs"
      by (auto simp: sets_up_def elim!: runsE)
    have "evbuffer_reserve_space mm_malloc b (int sz) n_vecs = Inr (int (length vecs), vecs, b1)"
      using eq True p(1) v(1) by (simp add: evbuffer_read_setup_vecs_def)
    moreover have "total_len b1 = total_len b" using b1(1,2) assms(2) by (metis length_contents)
    moreover have "\<exists>b2. evbuffer_commit_space (store_vecs vs bs b1) vs = Inr (0, b2)
          \<and> evbuffer_ok b2 \<and> contents b2 = contents b1 @ bs"
      if vs: "fewer vs vecs" "length vs = 1 \<longrightarrow> own_memory mm_malloc b" "length bs = vecs_len vs"
        "total_len b1 + length bs < SIZE_MOD" for vs bs
    proof (cases "vs = []")
      case True
      with vs(3) b1 p(1) show ?thesis by (simp add: store_vecs_def evbuffer_commit_space_def)
    next
      case False
      note inb = fewer_in_bounds [OF packed_in_bounds [OF v(2)] vs(1)]
      have "Suc p = length (eb_chains b1) \<or> iov_base (hd vs) \<noteq> CHAIN_SPACE_PTR (last (eb_chains b1))"
        if one: "length vs = 1"
      proof -
        have "p < length (eb_chains b1)" "iov_base (hd vs) = CHAIN_SPACE_PTR (eb_chains b1 ! p)"
          using vecs_in_bounds_hd [OF inb False] by (simp_all add: hd_drop_conv_nth)
        moreover have "distinct (map ch_addr (drop (last_with_datap b1) (eb_chains b1)))"
          using expand_fast_own [OF assms(1,2,4)] vs(2) one x(1) True by blast
        ultimately show ?thesis using own_space_ptr [OF _ p(3)] by metis
      qed
      then show ?thesis by (rule commit_space_runs [OF b1(1,5) p(1) inb False _ vs(3,4)])
    qed
    ultimately show ?thesis using b1(1,2) v(3,4) by auto
  qed
qed

text \<open>In a new buffer the reserved space is one vector; two bytes are committed in it.\<close>

theorem evbuffer_reserve_commit_witness:
  "\<exists>v b1 b2. evbuffer_reserve_space plain_malloc evbuffer_new (int 100) 2 = Inr (1, [v], b1) \<and> iov_len v = 480
     \<and> evbuffer_commit_space (store_vecs [v\<lparr>iov_len := 2\<rparr>] [7, 8] b1) [v\<lparr>iov_len := 2\<rparr>] = Inr (0, b2)
     \<and> contents b2 = [7, 8]"
proof -
  have "\<exists>c. evbuffer_chain_new plain_malloc 100 = Inr (Some c) \<and> ch_buffer_len c = 480 \<and> ch_misalign c = 0
      \<and> ch_off c = 0 \<and> ch_flags c = {}"
    by (simp add: evbuffer_chain_new_def addz_def SIZE_MOD_def EVBUFFER_CHAIN_SIZE_def MIN_BUFFER_SIZE_def
        chain_alloc_size.simps [of 132 512] plain_malloc_def)
  then obtain c where c: "evbuffer_chain_new plain_malloc 100 = Inr (Some c)" "CHAIN_SPACE_LEN c = 480" "ch_off c = 0"
    by (auto simp: CHAIN_SPACE_LEN_def)
  have z: "addz 0 480 = 480" "addz 0 0 = 0" "to_size 100 = 100" by (simp_all add: addz_def SIZE_MOD_def to_size_def)
  have "setup_vecs 2 100 False 0 [c] = Inr [\<lparr>iov_base = CHAIN_SPACE_PTR c, iov_len = 480\<rparr>]"
    using c(2,3) by (simp add: numeral_2_eq_2 z)
  with c z obtain v b1 where r: "evbuffer_reserve_space plain_malloc evbuffer_new (int 100) 2 = Inr (1, [v], b1)"
    "iov_len v = 480"
    by (auto simp: evbuffer_reserve_space_def evbuffer_expand_fast_def evbuffer_new_def evbuffer_chain_insert_def
        evbuffer_read_setup_vecs_def first_space_def Let_def)
  have own: "own_memory plain_malloc evbuffer_new" "\<not> freeze_end evbuffer_new" "100 \<le> CHAIN_MAX"
    by (simp_all add: own_memory_def evbuffer_new_def CHAIN_MAX_def EVBUFFER_CHAIN_SIZE_def)
  from evbuffer_reserve_commit [OF plain_malloc_ok(1) _ own(2,3), of 2] r evbuffer_new_ok plain_malloc_ok(2)
  have all: "\<forall>vs bs. fewer vs [v] \<and> (length vs = 1 \<longrightarrow> own_memory plain_malloc evbuffer_new) \<and> length bs = vecs_len vs
                     \<and> total_len evbuffer_new + length bs < SIZE_MOD
               \<longrightarrow> (\<exists>b2. evbuffer_commit_space (store_vecs vs bs b1) vs = Inr (0, b2)
                      \<and> evbuffer_ok b2 \<and> contents b2 = contents evbuffer_new @ bs)"
    by auto
  from all [rule_format, of "[v\<lparr>iov_len := 2\<rparr>]" "[7, 8]"] own(1) r evbuffer_new_ok show ?thesis
    by (auto simp: evbuffer_new_def SIZE_MOD_def)
qed

text \<open>
  C13: \<open>evbuffer_read\<close> on a well-formed buffer fails no assertion and leaves no memory block, whatever
  number of bytes the socket reports: it asks the socket for no more than the limit given (4096 bytes
  without one) and appends exactly the bytes received, whose number it returns; if the connection was
  closed it returns 0, if the read or an allocation failed -1, and the contents stay the same.
\<close>

theorem evbuffer_read_appends:
  assumes "malloc_ok mm_malloc" and "evbuffer_ok b" and "\<not> freeze_end b" and "recv_ok WSARecv"
    and "total_len b + 4096 < SIZE_MOD"
  shows "\<exists>r b'. evbuffer_read mm_malloc n WSARecv b howmuch = Inr (r, b') \<and> evbuffer_ok b'
     \<and> ((\<exists>ls bs. WSARecv ls = Received bs \<and> sum_list ls \<le> (if howmuch < 0 then 4096 else nat howmuch)
            \<and> (howmuch \<noteq> 0 \<longrightarrow> 0 < sum_list ls) \<and> r = int (length bs) \<and> contents b' = contents b @ bs)
        \<or> contents b' = contents b
           \<and> (r = 0 \<and> (\<exists>ls. WSARecv ls = Conn_Aborted)
              \<or> r = -1 \<and> (out_of_memory mm_malloc \<or> (\<exists>ls. WSARecv ls = Recv_Failed))))"
  using evbuffer_read_runs [OF assms, of n howmuch] by (auto simp: runs_iff reads_def)

theorem evbuffer_read_appends_witness:
  "\<exists>b'. evbuffer_read plain_malloc 100 (\<lambda>ls. Received (if 0 < sum_list ls then [7] else [])) evbuffer_new 50
         = Inr (1, b') \<and> contents b' = [7]"
proof -
  let ?rv = "\<lambda>ls. Received (if 0 < sum_list ls then [7 :: byte] else [])"
  have rv: "recv_ok ?rv" by (auto simp: recv_ok_def)
  have b: "\<not> freeze_end evbuffer_new" "total_len evbuffer_new + 4096 < SIZE_MOD"
    by (simp_all add: evbuffer_new_def SIZE_MOD_def)
  show ?thesis
    using evbuffer_read_appends [OF plain_malloc_ok(1) _ b(1) rv b(2), of 100 50] evbuffer_new_ok by auto
qed

text \<open>
  C14: \<open>evbuffer_write_atmost\<close> on a well-formed buffer offers to the socket the first bytes of its
  contents, those of the first 16 chains and no more than the limit given, and then removes from the
  front exactly as many bytes as the socket took, and returns that number; if nothing was sent the
  buffer is unchanged. An empty buffer and a limit of 0 give -1, as a failed send does.
\<close>

theorem evbuffer_write_sends:
  assumes "evbuffer_ok b" and "pinned_ok b" and "\<not> freeze_start b" and "send_ok WSASend"
    and "total_len b \<le> SSIZE_MAX"
  shows "\<exists>vs r b'. evbuffer_write_atmost WSASend b howmuch = Inr (r, b') \<and> evbuffer_ok b' \<and> pinned_ok b'
           \<and> contents b' = drop (nat r) (contents b) \<and> (r \<le> 0 \<longrightarrow> b' = b)
           \<and> concat vs = take (if howmuch < 0 then total_len b else nat howmuch)
                              (chains_data (take NUM_WRITE_IOVEC (eb_chains b)))
           \<and> r = (if total_len b = 0 \<or> howmuch = 0 then -1
                  else case WSASend vs of None \<Rightarrow> -1 | Some n \<Rightarrow> int n)"
  using assms by (rule write_atmost_runs)

theorem evbuffer_write_sends_witness:
  "\<exists>b'. evbuffer_write_atmost (\<lambda>vs. Some (min 1 (length (concat vs)))) sample_buffer (-1) = Inr (1, b')
      \<and> contents b' = [11, 12]"
proof -
  let ?send = "\<lambda>vs. Some (min 1 (length (concat vs)))"
  note sb = sample_buffer_ok
  have send: "send_ok ?send" by (simp add: send_ok_def)
  have "take NUM_WRITE_IOVEC (eb_chains sample_buffer) = eb_chains sample_buffer"
    by (simp add: sample_buffer_def NUM_WRITE_IOVEC_def)
  then have first: "chains_data (take NUM_WRITE_IOVEC (eb_chains sample_buffer)) = [10, 11, 12]"
    using sb(4) by (simp add: contents_def)
  have "total_len sample_buffer \<le> SSIZE_MAX" by (simp add: sb(7) SSIZE_MAX_def)
  from evbuffer_write_sends [OF sb(1,3,5) send this, of "-1"] obtain vs r b' where
    w: "evbuffer_write_atmost ?send sample_buffer (-1) = Inr (r, b')" "contents b' = drop (nat r) [10, 11, 12]"
      "concat vs = take 3 [10, 11, 12 :: byte]" "r = int (min 1 (length (concat vs)))"
    by (auto simp: first sb)
  then have "r = 1" by simp
  with w show ?thesis by simp
qed

end
