(* ===== verification/Evbuffer_Search.thy ===== *)
theory Evbuffer_Search
  imports Evbuffer_Drain Evbuffer_Pullup Evbuffer_Space
begin

text \<open>
  Positions in a buffer and searching: \<open>evbuffer_ptr_set\<close>, \<open>evbuffer_search_range\<close>, the search for the
  end of a line, \<open>evbuffer_readln\<close>, \<open>evbuffer_find\<close> and \<open>evbuffer_peek\<close> of \<open>buffer.c\<close>. The chain a
  position is in is named by its place in the list; the loops over the chains get the chains from
  there on.
\<close>

section \<open>Positions\<close>

record evbuffer_ptr =
  ptr_pos :: int
  ptr_chain :: "nat option"
  pos_in_chain :: nat

datatype evbuffer_ptr_how = EVBUFFER_PTR_SET | EVBUFFER_PTR_ADD

text \<open>The chains from a chain pointer on, which may be null.\<close>

definition chains_from :: "evbuffer \<Rightarrow> nat option \<Rightarrow> chain list" where
  "chains_from buf p = (case p of None \<Rightarrow> [] | Some k \<Rightarrow> drop k (eb_chains buf))"

definition first_ptr :: "evbuffer \<Rightarrow> nat option" where
  "first_ptr buf = (if eb_chains buf = [] then None else Some 0)"

text \<open>The loop of \<open>evbuffer_ptr_set\<close>: the chain found, and the position in it.\<close>

fun ptr_set_loop :: "nat \<Rightarrow> nat \<Rightarrow> nat \<Rightarrow> chain list \<Rightarrow> (nat \<times> nat) option" where
  "ptr_set_loop position left k [] = None"
| "ptr_set_loop position left k (ch # chs) =
     (if addz position left \<ge> ch_off ch
      then ptr_set_loop 0 (subz left (subz (ch_off ch) position)) (Suc k) chs
      else Some (k, addz position left))"

definition evbuffer_ptr_set ::
    "evbuffer \<Rightarrow> evbuffer_ptr \<Rightarrow> nat \<Rightarrow> evbuffer_ptr_how \<Rightarrow> int \<times> evbuffer_ptr" where
  "evbuffer_ptr_set buf pos position how =
     (let (chain, pos, start) =
            (case how of
               EVBUFFER_PTR_SET \<Rightarrow> (first_ptr buf, pos\<lparr>ptr_pos := to_ssize position\<rparr>, 0)
             | EVBUFFER_PTR_ADD \<Rightarrow> (ptr_chain pos, pos\<lparr>ptr_pos := ptr_pos pos + int position\<rparr>, pos_in_chain pos))
      in case ptr_set_loop start position (case chain of None \<Rightarrow> 0 | Some k \<Rightarrow> k) (chains_from buf chain) of
           Some (k, i) \<Rightarrow> (0, pos\<lparr>ptr_chain := Some k, pos_in_chain := i\<rparr>)
         | None \<Rightarrow> (-1, pos\<lparr>ptr_chain := None, ptr_pos := -1\<rparr>))"

section \<open>Searching for a string\<close>

fun memcmp_loop :: "nat \<Rightarrow> byte list \<Rightarrow> chain list \<Rightarrow> int" where
  "memcmp_loop position mem [] = 0"
| "memcmp_loop position mem (ch # chs) =
     (if mem = [] then 0
      else let len = length mem;
               n_comparable = (if len + position > ch_off ch then ch_off ch - position else len);
               r = memcmp (mem_read (ch_misalign ch + position) n_comparable (ch_buffer ch)) (take n_comparable mem)
           in if r \<noteq> 0 then r else memcmp_loop 0 (drop n_comparable mem) chs)"

definition evbuffer_ptr_memcmp :: "evbuffer \<Rightarrow> evbuffer_ptr \<Rightarrow> byte list \<Rightarrow> int" where
  "evbuffer_ptr_memcmp buf pos mem =
     (if addz (to_size (ptr_pos pos)) (length mem) > total_len buf then -1
      else memcmp_loop (pos_in_chain pos) mem (chains_from buf (ptr_chain pos)))"

text \<open>The chain the end of the range is in, if there is an end, and whether a position is behind it.\<close>

definition last_chain :: "evbuffer_ptr option \<Rightarrow> nat option" where
  "last_chain end_ptr = (case end_ptr of None \<Rightarrow> None | Some e \<Rightarrow> ptr_chain e)"

definition beyond :: "evbuffer_ptr option \<Rightarrow> int \<Rightarrow> bool" where
  "beyond end_ptr pos \<longleftrightarrow> (case end_ptr of None \<Rightarrow> False | Some e \<Rightarrow> pos > ptr_pos e)"

text \<open>
  The loop of \<open>evbuffer_search_range\<close> from the position \<open>k\<close> in the list, byte \<open>i\<close> of the chain there,
  which is byte \<open>pos\<close> of the buffer. \<open>None\<close> is \<open>not_found\<close>.
\<close>

function search_loop ::
    "evbuffer \<Rightarrow> byte list \<Rightarrow> evbuffer_ptr option \<Rightarrow> int \<Rightarrow> nat \<Rightarrow> nat \<Rightarrow> chain list \<Rightarrow> evbuffer_ptr option" where
  "search_loop buf what end_ptr pos k i [] = None"
| "search_loop buf what end_ptr pos k i (ch # chs) =
     (case memchr (mem_read (ch_misalign ch + i) (ch_off ch - i) (ch_buffer ch)) (hd what) of
        Some j \<Rightarrow>
          let p = \<lparr>ptr_pos = pos + int j, ptr_chain = Some k, pos_in_chain = i + j\<rparr> in
          if evbuffer_ptr_memcmp buf p what = 0
          then if beyond end_ptr (ptr_pos p + int (length what)) then None else Some p
          else if i + j + 1 = ch_off ch
          then search_loop buf what end_ptr (pos + int j + 1) (Suc k) 0 chs
          else search_loop buf what end_ptr (pos + int j + 1) k (i + j + 1) (ch # chs)
      | None \<Rightarrow>
          if Some k = last_chain end_ptr then None
          else search_loop buf what end_ptr (pos + int (ch_off ch - i)) (Suc k) 0 chs)"
  by pat_completeness auto

termination
proof (relation "measures [\<lambda>(buf, what, e, pos, k, i, chs). length chs,
                           \<lambda>(buf, what, e, pos, k, i, chs). case chs of [] \<Rightarrow> 0 | ch # _ \<Rightarrow> ch_off ch - i]",
    goal_cases)
  case (4 buf what e pos k i ch chs j p)
  from memchr_SomeD [OF 4(1)] have "j < ch_off ch - i" by (simp add: mem_read_def)
  then show ?case by simp
qed auto

definition evbuffer_search_range ::
    "evbuffer \<Rightarrow> byte list \<Rightarrow> evbuffer_ptr option \<Rightarrow> evbuffer_ptr option \<Rightarrow> evbuffer_ptr" where
  "evbuffer_search_range buffer what start end_ptr =
     (let pos = (case start of
                   Some s \<Rightarrow> s
                 | None \<Rightarrow> \<lparr>ptr_pos = 0, ptr_chain = first_ptr buffer, pos_in_chain = 0\<rparr>)
      in if length what = 0 \<or> length what > SSIZE_MAX then pos
         else case search_loop buffer what end_ptr (ptr_pos pos)
                     (case ptr_chain pos of None \<Rightarrow> 0 | Some k \<Rightarrow> k) (pos_in_chain pos)
                     (chains_from buffer (ptr_chain pos)) of
                Some p \<Rightarrow> p
              | None \<Rightarrow> \<lparr>ptr_pos = -1, ptr_chain = None, pos_in_chain = 0\<rparr>)"

definition evbuffer_search :: "evbuffer \<Rightarrow> byte list \<Rightarrow> evbuffer_ptr option \<Rightarrow> evbuffer_ptr" where
  "evbuffer_search buffer what start = evbuffer_search_range buffer what start None"

text \<open>The result is the offset of the string in the block \<open>evbuffer_pullup\<close> gave, and this block.\<close>

definition evbuffer_find ::
    "allocator \<Rightarrow> evbuffer \<Rightarrow> byte list \<Rightarrow> ((byte list \<times> nat) option \<times> evbuffer) exec" where
  "evbuffer_find mm_malloc buffer what =
     (let ptr = evbuffer_search buffer what None in
      if ptr_pos ptr < 0 then Inr (None, buffer)
      else bindE (evbuffer_pullup mm_malloc buffer (ptr_pos ptr + int (length what)))
             (\<lambda>(search, buffer). Inr (map_option (\<lambda>s. (s, nat (ptr_pos ptr))) search, buffer)))"

section \<open>Searching for the end of a line\<close>

definition CR :: byte where
  "CR = 13"

definition LF :: byte where
  "LF = 10"

datatype evbuffer_eol_style =
    EVBUFFER_EOL_ANY | EVBUFFER_EOL_CRLF | EVBUFFER_EOL_CRLF_STRICT | EVBUFFER_EOL_LF

definition CHUNK_SZ :: nat where
  "CHUNK_SZ = 128"

function find_eol_char :: "byte list \<Rightarrow> nat option" where
  "find_eol_char s =
     (if s = [] then None
      else let chunk = take CHUNK_SZ s; cr = memchr chunk CR; lf = memchr chunk LF in
           case cr of
             Some i \<Rightarrow> (case lf of Some j \<Rightarrow> if j < i then lf else cr | None \<Rightarrow> cr)
           | None \<Rightarrow> (case lf of
                        Some j \<Rightarrow> lf
                      | None \<Rightarrow> map_option (\<lambda>n. CHUNK_SZ + n) (find_eol_char (drop CHUNK_SZ s))))"
  by pat_completeness auto

termination
  by (relation "measure length") (auto simp: CHUNK_SZ_def)

declare find_eol_char.simps [simp del]

text \<open>
  The loop of \<open>evbuffer_strchr\<close> and \<open>evbuffer_find_eol_char\<close>, which differ in how they search one chain.
\<close>

fun scan_chains ::
    "(byte list \<Rightarrow> nat option) \<Rightarrow> evbuffer_ptr \<Rightarrow> nat \<Rightarrow> nat \<Rightarrow> chain list \<Rightarrow> int \<times> evbuffer_ptr" where
  "scan_chains find_in it k i [] = (-1, it)"
| "scan_chains find_in it k i (ch # chs) =
     (case find_in (mem_read (ch_misalign ch + i) (ch_off ch - i) (ch_buffer ch)) of
        Some j \<Rightarrow>
          let it = it\<lparr>ptr_chain := Some k, pos_in_chain := i + j, ptr_pos := ptr_pos it + int j\<rparr>
          in (ptr_pos it, it)
      | None \<Rightarrow> scan_chains find_in (it\<lparr>ptr_pos := ptr_pos it + int (ch_off ch - i)\<rparr>) (Suc k) 0 chs)"

definition ptr_scan :: "(byte list \<Rightarrow> nat option) \<Rightarrow> evbuffer \<Rightarrow> evbuffer_ptr \<Rightarrow> int \<times> evbuffer_ptr" where
  "ptr_scan find_in buf it =
     scan_chains find_in it (case ptr_chain it of None \<Rightarrow> 0 | Some k \<Rightarrow> k) (pos_in_chain it)
       (chains_from buf (ptr_chain it))"

definition evbuffer_strchr :: "evbuffer \<Rightarrow> evbuffer_ptr \<Rightarrow> byte \<Rightarrow> int \<times> evbuffer_ptr" where
  "evbuffer_strchr buf it chr = ptr_scan (\<lambda>s. memchr s chr) buf it"

definition evbuffer_find_eol_char :: "evbuffer \<Rightarrow> evbuffer_ptr \<Rightarrow> int \<times> evbuffer_ptr" where
  "evbuffer_find_eol_char buf it = ptr_scan find_eol_char buf it"

fun strspn_loop :: "byte list \<Rightarrow> nat \<Rightarrow> nat \<Rightarrow> nat \<Rightarrow> chain list \<Rightarrow> (nat \<times> nat \<times> nat) exec" where
  "strspn_loop chrset count k i [] = Inl Null_Deref"
| "strspn_loop chrset count k i (ch # chs) =
     (let bs = mem_read (ch_misalign ch + i) (ch_off ch - i) (ch_buffer ch);
          n = length (takeWhile (\<lambda>x. x \<in> set chrset) bs)
      in if n < length bs then Inr (count + n, k, i + n)
         else if chs = [] then Inr (count + n, k, 0)
         else strspn_loop chrset (count + n) (Suc k) 0 chs)"

definition evbuffer_strspn :: "evbuffer \<Rightarrow> evbuffer_ptr \<Rightarrow> byte list \<Rightarrow> (int \<times> evbuffer_ptr) exec" where
  "evbuffer_strspn buf ptr chrset =
     (case ptr_chain ptr of
        None \<Rightarrow> Inr (-1, ptr)
      | Some k \<Rightarrow> bindE (strspn_loop chrset 0 k (pos_in_chain ptr) (drop k (eb_chains buf)))
                    (\<lambda>(count, k, i). Inr (int count, ptr\<lparr>ptr_chain := Some k, pos_in_chain := i,
                                                        ptr_pos := ptr_pos ptr + int count\<rparr>)))"

definition evbuffer_getchr :: "evbuffer \<Rightarrow> evbuffer_ptr \<Rightarrow> byte exec" where
  "evbuffer_getchr buf it =
     (case chains_from buf (ptr_chain it) of
        [] \<Rightarrow> Inl Null_Deref
      | ch # _ \<Rightarrow> if length (ch_buffer ch) \<le> ch_misalign ch + pos_in_chain it then Inl Out_Of_Bounds
                 else Inr (ch_buffer ch ! (ch_misalign ch + pos_in_chain it)))"

text \<open>
  The loop of \<open>evbuffer_search_eol\<close> for \<open>EVBUFFER_EOL_CRLF\<close>: \<open>None\<close> if it does not end; otherwise
  whether an end of line was found, its length and the last position.
\<close>

partial_function (option) crlf_loop ::
    "evbuffer \<Rightarrow> evbuffer_ptr \<Rightarrow> (bool \<times> nat \<times> evbuffer_ptr) exec option" where
  "crlf_loop buffer it =
     (case evbuffer_find_eol_char buffer it of
        (r, it) \<Rightarrow>
          if r < 0 then Some (Inr (False, 0, it))
          else case evbuffer_getchr buffer it of
                 Inl c \<Rightarrow> Some (Inl c)
               | Inr x \<Rightarrow>
                   if x = LF then Some (Inr (True, 1, it))
                   else if evbuffer_ptr_memcmp buffer it [CR, LF] = 0 then Some (Inr (True, 2, it))
                   else case evbuffer_ptr_set buffer it 1 EVBUFFER_PTR_ADD of
                          (s, it) \<Rightarrow> if s < 0 then Some (Inr (False, 0, it)) else crlf_loop buffer it)"

definition evbuffer_search_eol ::
    "evbuffer \<Rightarrow> evbuffer_ptr option \<Rightarrow> evbuffer_eol_style \<Rightarrow> (evbuffer_ptr \<times> nat) exec" where
  "evbuffer_search_eol buffer start eol_style =
     (let it = (case start of
                  Some s \<Rightarrow> s
                | None \<Rightarrow> \<lparr>ptr_pos = 0, ptr_chain = first_ptr buffer, pos_in_chain = 0\<rparr>)
      in bindE
          (case eol_style of
             EVBUFFER_EOL_ANY \<Rightarrow>
               (case evbuffer_find_eol_char buffer it of
                  (r, it) \<Rightarrow> if r < 0 then Inr (False, 0, it)
                            else bindE (evbuffer_strspn buffer it [CR, LF])
                                   (\<lambda>(n, _). Inr (True, to_size n, it)))
           | EVBUFFER_EOL_CRLF_STRICT \<Rightarrow>
               (let it = evbuffer_search buffer [CR, LF] (Some it) in
                if ptr_pos it < 0 then Inr (False, 0, it) else Inr (True, 2, it))
           | EVBUFFER_EOL_CRLF \<Rightarrow>
               (case crlf_loop buffer it of None \<Rightarrow> Inl Diverges | Some r \<Rightarrow> r)
           | EVBUFFER_EOL_LF \<Rightarrow>
               (case evbuffer_strchr buffer it LF of
                  (r, it) \<Rightarrow> if r < 0 then Inr (False, 0, it) else Inr (True, 1, it)))
          (\<lambda>(ok, extra_drain, it). Inr (if ok then it else it\<lparr>ptr_pos := -1\<rparr>, extra_drain)))"

text \<open>
  The line without its terminating zero; \<open>None\<close> is a null result. \<open>evbuffer_remove\<close> stores as many
  bytes as it reports. What is stored through \<open>n_read_out\<close> is the length of the line, 0 for a null result.
\<close>

definition evbuffer_readln ::
    "allocator \<Rightarrow> evbuffer \<Rightarrow> evbuffer_eol_style \<Rightarrow> (byte list option \<times> evbuffer) exec" where
  "evbuffer_readln mm_malloc buffer eol_style =
     (if freeze_start buffer then Inr (None, buffer)
      else bindE (evbuffer_search_eol buffer None eol_style)
             (\<lambda>(it, extra_drain).
                if ptr_pos it < 0 then Inr (None, buffer)
                else let n_to_copy = nat (ptr_pos it) in
                     case mm_malloc (addz n_to_copy 1) of
                       None \<Rightarrow> Inr (None, buffer)
                     | Some (_, mem) \<Rightarrow>
                         bindE (evbuffer_remove buffer n_to_copy)
                           (\<lambda>(_, bs, buffer).
                              let line = (mem_write 0 bs mem)[n_to_copy := 0] in
                              bindE (evbuffer_drain buffer extra_drain)
                                (\<lambda>(_, buffer). Inr (Some (take n_to_copy line), buffer)))))"

definition evbuffer_readline :: "allocator \<Rightarrow> evbuffer \<Rightarrow> (byte list option \<times> evbuffer) exec" where
  "evbuffer_readline mm_malloc buffer = evbuffer_readln mm_malloc buffer EVBUFFER_EOL_ANY"

section \<open>Looking at chains in place\<close>

text \<open>
  The loop of \<open>evbuffer_peek\<close>: how many vectors are needed, and those of them that were filled in, up
  to \<open>n_vec\<close> in all.
\<close>

fun peek_loop :: "int \<Rightarrow> nat \<Rightarrow> nat \<Rightarrow> int \<Rightarrow> chain list \<Rightarrow> nat \<times> iovec list" where
  "peek_loop len n_vec idx len_so_far [] = (idx, [])"
| "peek_loop len n_vec idx len_so_far (ch # chs) =
     (if len \<ge> 0 \<and> len_so_far \<ge> len then (idx, [])
      else if idx < n_vec
      then (case peek_loop len n_vec (Suc idx) (len_so_far + int (ch_off ch)) chs of
              (n, vec) \<Rightarrow> (n, \<lparr>iov_base = (ch_addr ch, ch_misalign ch), iov_len = ch_off ch\<rparr> # vec))
      else if len < 0 then (idx, [])
      else peek_loop len n_vec (Suc idx) (len_so_far + int (ch_off ch)) chs)"

definition evbuffer_peek ::
    "evbuffer \<Rightarrow> int \<Rightarrow> evbuffer_ptr option \<Rightarrow> nat \<Rightarrow> (nat \<times> iovec list) exec" where
  "evbuffer_peek buffer len start_at n_vec =
     bindE
       (case start_at of
          None \<Rightarrow> Inr (0, [], 0, eb_chains buffer)
        | Some s \<Rightarrow>
            (case chains_from buffer (ptr_chain s) of
               [] \<Rightarrow> Inl Null_Deref
             | ch # chs \<Rightarrow>
                 let len_so_far = subz (ch_off ch) (pos_in_chain s) in
                 Inr (1,
                      if n_vec > 0
                      then [\<lparr>iov_base = (ch_addr ch, ch_misalign ch + pos_in_chain s), iov_len = len_so_far\<rparr>]
                      else [],
                      to_ssize len_so_far, chs)))
       (\<lambda>(idx, vec, len_so_far, chs).
          let len = (if n_vec = 0 \<and> len < 0 then int (total_len buffer) - len_so_far else len) in
          case peek_loop len n_vec idx len_so_far chs of (n, vec') \<Rightarrow> Inr (n, vec @ vec'))"

text \<open>The vectors are the data of the chains in order, enough of them for the length asked for.\<close>

lemma peek_loop_chains:
  assumes "0 \<le> len" and "len \<le> len_so_far + int (chains_len chs)"
  shows "len \<le> len_so_far + int (chains_len (take (fst (peek_loop len n_vec idx len_so_far chs) - idx) chs))
     \<and> idx \<le> fst (peek_loop len n_vec idx len_so_far chs)
     \<and> snd (peek_loop len n_vec idx len_so_far chs)
       = map (\<lambda>ch. \<lparr>iov_base = (ch_addr ch, ch_misalign ch), iov_len = ch_off ch\<rparr>)
           (take (min (fst (peek_loop len n_vec idx len_so_far chs)) n_vec - idx) chs)"
  using assms
proof (induction chs arbitrary: idx len_so_far)
  case Nil
  then show ?case by simp
next
  case (Cons ch chs)
  let ?r = "peek_loop len n_vec (Suc idx) (len_so_far + int (ch_off ch)) chs"
  show ?case
  proof (cases "len_so_far \<ge> len")
    case True
    with Cons.prems show ?thesis by simp
  next
    case False
    have IH: "len \<le> len_so_far + int (ch_off ch) + int (chains_len (take (fst ?r - Suc idx) chs))"
      "Suc idx \<le> fst ?r"
      "snd ?r = map (\<lambda>ch. \<lparr>iov_base = (ch_addr ch, ch_misalign ch), iov_len = ch_off ch\<rparr>)
           (take (min (fst ?r) n_vec - Suc idx) chs)"
      using Cons.IH [of "len_so_far + int (ch_off ch)" "Suc idx"] Cons.prems by simp_all
    have tk: "take (fst ?r - idx) (ch # chs) = ch # take (fst ?r - Suc idx) chs"
    proof -
      have "fst ?r - idx = Suc (fst ?r - Suc idx)" using IH(2) by linarith
      then show ?thesis by (simp only: take_Suc_Cons)
    qed
    have tk': "take (min (fst ?r) n_vec - idx) (ch # chs) = ch # take (min (fst ?r) n_vec - Suc idx) chs"
      if "idx < n_vec"
    proof -
      have "min (fst ?r) n_vec - idx = Suc (min (fst ?r) n_vec - Suc idx)" using IH(2) that by linarith
      then show ?thesis by (simp only: take_Suc_Cons)
    qed
    have eq: "peek_loop len n_vec idx len_so_far (ch # chs) =
        (if idx < n_vec then (fst ?r, \<lparr>iov_base = (ch_addr ch, ch_misalign ch), iov_len = ch_off ch\<rparr> # snd ?r) else ?r)"
      using False Cons.prems(1) by (simp add: case_prod_beta)
    show ?thesis
      using IH tk tk' unfolding eq by (cases "idx < n_vec") simp_all
  qed
qed

section \<open>Positions in the contents\<close>

text \<open>\<open>ptr_at b p n\<close>: the position \<open>p\<close> is that of byte \<open>n\<close> of the buffer.\<close>

definition ptr_at :: "evbuffer \<Rightarrow> evbuffer_ptr \<Rightarrow> nat \<Rightarrow> bool" where
  "ptr_at b p n \<longleftrightarrow>
     ptr_pos p = int n
     \<and> (case ptr_chain p of
          None \<Rightarrow> n = 0 \<and> eb_chains b = []
        | Some k \<Rightarrow> k < length (eb_chains b) \<and> pos_in_chain p \<le> ch_off (eb_chains b ! k)
                   \<and> n = chains_len (take k (eb_chains b)) + pos_in_chain p)"

text \<open>The bytes from byte \<open>i\<close> of the first of the chains on.\<close>

definition view :: "nat \<Rightarrow> chain list \<Rightarrow> byte list" where
  "view i chs = drop i (chains_data chs)"

definition inside :: "nat \<Rightarrow> chain list \<Rightarrow> bool" where
  "inside i chs \<longleftrightarrow> (\<forall>c\<in>set chs. chain_ok c) \<and> (chs \<noteq> [] \<longrightarrow> i \<le> ch_off (hd chs)) \<and> (chs = [] \<longrightarrow> i = 0)"

lemma inside_tl: "inside i (ch # chs) \<Longrightarrow> inside 0 chs"
  by (auto simp: inside_def)

lemma read_rest:
  "inside i (ch # chs) \<Longrightarrow> mem_read (ch_misalign ch + i) (ch_off ch - i) (ch_buffer ch) = drop i (chain_data ch)"
  by (simp add: inside_def chain_data_def mem_read_drop)

lemma view_Cons: "inside i (ch # chs) \<Longrightarrow> view i (ch # chs) = drop i (chain_data ch) @ view 0 chs"
  by (simp add: view_def inside_def)

lemma view_Nil [simp]: "view i [] = []"
  by (simp add: view_def)

lemma contents_view: "contents b = view 0 (eb_chains b)"
  by (simp add: contents_def view_def)

lemma first_ptr_at: "ptr_at b \<lparr>ptr_pos = 0, ptr_chain = first_ptr b, pos_in_chain = 0\<rparr> 0"
  by (simp add: ptr_at_def first_ptr_def)

text \<open>A list of chains that is the end of the buffer, with the number of bytes before it.\<close>

definition tail_at :: "evbuffer \<Rightarrow> nat \<Rightarrow> chain list \<Rightarrow> bool" where
  "tail_at b k chs \<longleftrightarrow> chs = drop k (eb_chains b) \<and> k \<le> length (eb_chains b)"

definition before :: "evbuffer \<Rightarrow> nat \<Rightarrow> nat" where
  "before b k = chains_len (take k (eb_chains b))"

lemma tail_at_Cons:
  assumes "tail_at b k (ch # chs)"
  shows "tail_at b (Suc k) chs" "k < length (eb_chains b)" "eb_chains b ! k = ch"
    "before b (Suc k) = before b k + ch_off ch"
proof -
  from assms have "drop k (eb_chains b) = ch # chs" by (simp add: tail_at_def)
  then have k: "k < length (eb_chains b)" by (metis drop_eq_Nil list.distinct(1) not_le)
  with assms show "tail_at b (Suc k) chs" "eb_chains b ! k = ch"
    by (auto simp: tail_at_def Cons_nth_drop_Suc [symmetric])
  with k show "before b (Suc k) = before b k + ch_off ch" "k < length (eb_chains b)"
    by (simp_all add: before_def take_Suc_conv_app_nth)
qed

lemma before_end: "evbuffer_ok b \<Longrightarrow> tail_at b k [] \<Longrightarrow> before b k = length (contents b)"
  by (simp add: tail_at_def before_def length_contents evbuffer_ok_def)

lemma before_le: "evbuffer_ok b \<Longrightarrow> before b k \<le> length (contents b)"
  using chains_len_simps(3) [of "take k (eb_chains b)" "drop k (eb_chains b)"]
  by (simp add: before_def length_contents evbuffer_ok_def)

lemma view_contents:
  assumes ok: "evbuffer_ok b" and "tail_at b k chs" and "inside i chs"
  shows "view i chs = drop (before b k + i) (contents b)"
proof -
  have "\<forall>c\<in>set (take k (eb_chains b)). chain_ok c" using evbuffer_okD(1) [OF ok] by (meson in_set_takeD)
  then have "length (chains_data (take k (eb_chains b))) = before b k" by (simp add: before_def)
  moreover have "contents b = chains_data (take k (eb_chains b)) @ chains_data chs"
    using assms(2) by (simp add: contents_def tail_at_def flip: chains_data_simps(3))
  ultimately show ?thesis by (simp add: view_def)
qed

lemma ptr_tail:
  assumes ok: "evbuffer_ok b" and p: "ptr_at b p n"
  defines "k \<equiv> (case ptr_chain p of None \<Rightarrow> 0 | Some k \<Rightarrow> k)"
  shows "tail_at b k (chains_from b (ptr_chain p))" "ptr_pos p = int n"
    "if chains_from b (ptr_chain p) = [] then n = 0 \<and> contents b = []
     else inside (pos_in_chain p) (chains_from b (ptr_chain p)) \<and> n = before b k + pos_in_chain p"
proof -
  show "ptr_pos p = int n" using p by (simp add: ptr_at_def)
  show "tail_at b k (chains_from b (ptr_chain p))"
    using p by (auto simp: tail_at_def chains_from_def k_def ptr_at_def split: option.splits)
  show "if chains_from b (ptr_chain p) = [] then n = 0 \<and> contents b = []
     else inside (pos_in_chain p) (chains_from b (ptr_chain p)) \<and> n = before b k + pos_in_chain p"
  proof (cases "ptr_chain p")
    case None
    with p show ?thesis by (simp add: ptr_at_def chains_from_def contents_def)
  next
    case (Some j)
    with p have j: "j < length (eb_chains b)" "pos_in_chain p \<le> ch_off (eb_chains b ! j)"
      "n = before b j + pos_in_chain p"
      by (simp_all add: ptr_at_def before_def)
    have "\<forall>c\<in>set (drop j (eb_chains b)). chain_ok c" using evbuffer_okD(1) [OF ok] by (meson in_set_dropD)
    with Some j show ?thesis by (simp add: chains_from_def k_def inside_def hd_drop_conv_nth)
  qed
qed

section \<open>Searching a byte\<close>

text \<open>A position on a byte, not behind the last byte of its chain.\<close>

definition on_byte :: "evbuffer \<Rightarrow> evbuffer_ptr \<Rightarrow> bool" where
  "on_byte b p \<longleftrightarrow> (\<exists>k. ptr_chain p = Some k \<and> pos_in_chain p < ch_off (eb_chains b ! k))"

lemma scan_chains_eq:
  assumes "tail_at b k chs" and "inside i chs"
    and "ptr_pos it = int (before b k + i)"
  shows "case find_first P (view i chs) of
           None \<Rightarrow> fst (scan_chains (find_first P) it k i chs) = -1
         | Some j \<Rightarrow> fst (scan_chains (find_first P) it k i chs) = int (before b k + i + j)
                     \<and> ptr_at b (snd (scan_chains (find_first P) it k i chs)) (before b k + i + j)
                     \<and> on_byte b (snd (scan_chains (find_first P) it k i chs))"
  using assms
proof (induction chs arbitrary: k i it)
  case Nil
  then show ?case by simp
next
  case (Cons ch chs)
  note t = tail_at_Cons [OF Cons.prems(1)]
  let ?d = "drop i (chain_data ch)"
  have i: "i \<le> ch_off ch" "chain_ok ch" using Cons.prems(2) by (simp_all add: inside_def)
  note rd = read_rest [OF Cons.prems(2)] view_Cons [OF Cons.prems(2)]
  show ?case
  proof (cases "find_first P ?d")
    case (Some j)
    then have "j < length ?d" by (simp add: find_first_Some)
    with i have "i + j < ch_off ch" by simp
    with Some t(2,3) Cons.prems(3) show ?thesis
      by (simp add: rd find_first_append ptr_at_def on_byte_def before_def Let_def)
  next
    case None
    let ?it = "it\<lparr>ptr_pos := ptr_pos it + int (ch_off ch - i)\<rparr>"
    have "ptr_pos ?it = int (before b (Suc k) + 0)" using Cons.prems(3) i t(4) by simp
    from Cons.IH [OF t(1) inside_tl [OF Cons.prems(2)] this] None i t(4)
    show ?thesis
      by (simp add: rd find_first_append add.assoc split: option.splits)
  qed
qed

lemma ptr_scan_eq:
  assumes ok: "evbuffer_ok b" and p: "ptr_at b it n"
  shows "case find_first P (drop n (contents b)) of
           None \<Rightarrow> fst (ptr_scan (find_first P) b it) = -1
         | Some j \<Rightarrow> fst (ptr_scan (find_first P) b it) = int (n + j) \<and> ptr_at b (snd (ptr_scan (find_first P) b it)) (n + j)
                     \<and> on_byte b (snd (ptr_scan (find_first P) b it))"
proof (cases "chains_from b (ptr_chain it) = []")
  case True
  with ptr_tail(3) [OF ok p] show ?thesis by (simp add: ptr_scan_def)
next
  case False
  let ?k = "case ptr_chain it of None \<Rightarrow> 0 | Some k \<Rightarrow> k"
  note t = ptr_tail [OF ok p]
  from t(3) False have ins: "inside (pos_in_chain it) (chains_from b (ptr_chain it))"
    and n: "n = before b ?k + pos_in_chain it" by auto
  have "ptr_pos it = int (before b ?k + pos_in_chain it)" using t(2) n by simp
  from scan_chains_eq [OF t(1) ins this] show ?thesis
    unfolding ptr_scan_def n view_contents [OF ok t(1) ins] .
qed

lemma find_eol_char_eq: "find_eol_char s = find_first (\<lambda>x. x = CR \<or> x = LF) s"
proof (induction s rule: find_eol_char.induct)
  case (1 s)
  let ?P = "\<lambda>x. x = CR \<or> x = LF"
  let ?c = "take CHUNK_SZ s"
  have split: "s = ?c @ drop CHUNK_SZ s" by simp
  have sub: "find_first ?P s =
      (case find_first ?P ?c of Some i \<Rightarrow> Some i | None \<Rightarrow> map_option (\<lambda>n. length ?c + n) (find_first ?P (drop CHUNK_SZ s)))"
    by (subst (1) split) (rule find_first_append)
  have one: "find_first ?P xs = (case (memchr xs CR, memchr xs LF) of
      (Some i, Some j) \<Rightarrow> Some (min i j) | (Some i, None) \<Rightarrow> Some i | (None, Some j) \<Rightarrow> Some j | (None, None) \<Rightarrow> None)" for xs
    by (induction xs) (auto split: option.splits)
  show ?case
  proof (cases "s = []")
    case True
    then show ?thesis by (simp add: find_eol_char.simps)
  next
    case False
    have "length ?c = CHUNK_SZ" if "drop CHUNK_SZ s \<noteq> []" using that by simp
    then have "map_option (\<lambda>n. length ?c + n) (find_first ?P (drop CHUNK_SZ s))
        = map_option (\<lambda>n. CHUNK_SZ + n) (find_first ?P (drop CHUNK_SZ s))"
      by (cases "drop CHUNK_SZ s = []") auto
    with False 1 show ?thesis
      unfolding sub one [of ?c]
      by (subst find_eol_char.simps) (auto simp: Let_def min_def split: option.splits)
  qed
qed

section \<open>Searching a string\<close>

lemma memcmp_loop_Nil [simp]: "memcmp_loop i [] chs = 0"
  by (cases chs) simp_all

lemma memcmp_loop_eq:
  assumes "inside i chs" and "length mem \<le> length (view i chs)"
  shows "memcmp_loop i mem chs = 0 \<longleftrightarrow> take (length mem) (view i chs) = mem"
  using assms
proof (induction chs arbitrary: i mem)
  case Nil
  then show ?case by simp
next
  case (Cons ch chs)
  let ?d = "drop i (chain_data ch)"
  define n where "n = (if length mem + i > ch_off ch then ch_off ch - i else length mem)"
  have i: "i \<le> ch_off ch" "chain_ok ch" using Cons.prems(1) by (simp_all add: inside_def)
  then have len: "length ?d = ch_off ch - i" by simp
  have n: "n = min (length mem) (length ?d)" using len i by (auto simp: n_def)
  have rd: "mem_read (ch_misalign ch + i) n (ch_buffer ch) = take n ?d"
    unfolding read_rest [OF Cons.prems(1), symmetric] using n len by (intro mem_read_take) simp
  have cmp: "memcmp (take n ?d) (take n mem) = 0 \<longleftrightarrow> take n ?d = take n mem"
    using n by (intro memcmp_eq) simp
  note v = view_Cons [OF Cons.prems(1)]
  have step: "memcmp_loop i mem (ch # chs) = 0 \<longleftrightarrow>
      take n ?d = take n mem \<and> memcmp_loop 0 (drop n mem) chs = 0"
  proof (cases "mem = []")
    case True
    then show ?thesis by (simp add: n_def)
  next
    case False
    then show ?thesis using cmp by (simp add: Let_def n_def [symmetric] rd)
  qed
  show ?case
  proof (cases "length mem \<le> length ?d")
    case True
    then have "n = length mem" using n by simp
    with True show ?thesis unfolding step v by simp
  next
    case False
    then have n': "n = length ?d" using n by simp
    have "length (drop n mem) \<le> length (view 0 chs)" using Cons.prems(2) v n' by simp
    note IH = Cons.IH [OF inside_tl [OF Cons.prems(1)] this]
    have "take n ?d = take n mem \<and> take (length (drop n mem)) (view 0 chs) = drop n mem
        \<longleftrightarrow> ?d @ take (length mem - length ?d) (view 0 chs) = take n mem @ drop n mem"
      using n' False by (subst append_eq_append_conv) auto
    then show ?thesis unfolding step v IH using False by simp
  qed
qed

lemma ptr_memcmp_eq:
  assumes ok: "evbuffer_ok b" and t: "tail_at b k chs" and ins: "inside i chs" and ne: "chs \<noteq> []"
    and w: "what \<noteq> []" "length what \<le> SSIZE_MAX" and sz: "total_len b \<le> SSIZE_MAX"
  shows "evbuffer_ptr_memcmp b \<lparr>ptr_pos = int (before b k + i), ptr_chain = Some k, pos_in_chain = i\<rparr> what = 0
     \<longleftrightarrow> take (length what) (view i chs) = what"
proof -
  note v = view_contents [OF ok t ins]
  have len: "length (view i chs) = total_len b - (before b k + i)" by (simp add: v length_contents [OF ok])
  have le: "before b k + i \<le> total_len b"
  proof -
    have "chains_len (eb_chains b) = before b k + chains_len chs"
      using t by (simp add: before_def tail_at_def flip: chains_len_simps(3))
    moreover have "i \<le> chains_len chs" using ins ne by (cases chs) (auto simp: inside_def)
    ultimately show ?thesis using evbuffer_okD(2) [OF ok] by simp
  qed
  have "to_size (int (before b k + i)) = before b k + i"
    using le evbuffer_okD(3) [OF ok] by (intro to_size_int) simp
  moreover have "addz (before b k + i) (length what) = before b k + i + length what"
    using le sz w(2) by (intro addz_exact) (simp add: SSIZE_MAX_def SIZE_MOD_def)
  ultimately have eq: "evbuffer_ptr_memcmp b \<lparr>ptr_pos = int (before b k + i), ptr_chain = Some k, pos_in_chain = i\<rparr> what
      = (if before b k + i + length what > total_len b then -1 else memcmp_loop i what chs)"
    using t by (simp add: evbuffer_ptr_memcmp_def chains_from_def tail_at_def)
  show ?thesis
  proof (cases "before b k + i + length what > total_len b")
    case True
    then have "length (take (length what) (view i chs)) < length what" using len le by simp
    with True show ?thesis unfolding eq by auto
  next
    case False
    then have "length what \<le> length (view i chs)" using len by simp
    from memcmp_loop_eq [OF ins this] False show ?thesis unfolding eq by simp
  qed
qed

text \<open>The position a search may not go beyond, and the outcome of a search from byte \<open>n\<close> on.\<close>

definition end_at :: "evbuffer \<Rightarrow> evbuffer_ptr option \<Rightarrow> nat \<Rightarrow> bool" where
  "end_at b e n \<longleftrightarrow> (case e of None \<Rightarrow> n = length (contents b) | Some p \<Rightarrow> ptr_at b p n)"

definition finds :: "evbuffer \<Rightarrow> byte list \<Rightarrow> nat \<Rightarrow> nat \<Rightarrow> evbuffer_ptr option \<Rightarrow> bool" where
  "finds b what bound n res \<longleftrightarrow>
     (case first_match what (drop n (contents b)) of
        None \<Rightarrow> res = None
      | Some j \<Rightarrow> if n + j + length what > bound then res = None
                  else \<exists>p. res = Some p \<and> ptr_at b p (n + j))"

lemma finds_skip:
  assumes "what \<noteq> []" and "hd what \<notin> set (take j (drop n (contents b)))" and "n + j \<le> length (contents b)"
    and "finds b what bound (n + j) res"
  shows "finds b what bound n res"
proof -
  have "first_match what (drop n (contents b)) = map_option (\<lambda>m. j + m) (first_match what (drop (n + j) (contents b)))"
    using first_match_skip [of what j "drop n (contents b)"] assms(1-3) by (simp add: add.commute [of j n])
  with assms(4) show ?thesis
    by (cases "first_match what (drop (n + j) (contents b))") (auto simp: finds_def add.assoc)
qed

lemma finds_step:
  assumes "what \<noteq> []" and "take (length what) (drop n (contents b)) \<noteq> what" and "n < length (contents b)"
    and "finds b what bound (Suc n) res"
  shows "finds b what bound n res"
proof -
  have "drop n (contents b) = contents b ! n # drop (Suc n) (contents b)"
    using assms(3) by (simp add: Cons_nth_drop_Suc)
  with assms(2) have "first_match what (drop n (contents b)) = map_option Suc (first_match what (drop (Suc n) (contents b)))"
    by (metis first_match.simps(2))
  with assms(4) show ?thesis by (auto simp: finds_def split: option.splits)
qed

lemma finds_here:
  assumes "what \<noteq> []" and "take (length what) (drop n (contents b)) = what" and "ptr_at b p n"
  shows "finds b what bound n (if n + length what > bound then None else Some p)"
proof -
  have "first_match what (drop n (contents b)) = Some 0" using assms(1,2) by (simp add: first_match_Some)
  with assms(3) show ?thesis by (auto simp: finds_def)
qed

lemma finds_beyond:
  assumes "what \<noteq> []" and "hd what \<notin> set (take j (drop n (contents b)))" and "n + j \<le> length (contents b)"
    and "bound \<le> n + j"
  shows "finds b what bound n None"
proof (rule finds_skip [OF assms(1-3)])
  have "0 < length what" using assms(1) by simp
  then have "bound < n + j + m + length what" for m using assms(4) by linarith
  then show "finds b what bound (n + j) None" by (simp add: finds_def split: option.split)
qed

lemma search_loop_finds:
  assumes "evbuffer_ok b" and "total_len b \<le> SSIZE_MAX" and "what \<noteq> []" and "length what \<le> SSIZE_MAX"
    and "end_at b e bound" and "tail_at b k chs" and "inside i chs" and "pos = int (before b k + i)"
  shows "finds b what bound (before b k + i) (search_loop b what e pos k i chs)"
  using assms
proof (induction b what e pos k i chs rule: search_loop.induct)
  case (1 b what e pos k i)
  then have "before b k = length (contents b)" "i = 0" by (simp_all add: before_end inside_def)
  then show ?case by (simp add: finds_def)
next
  case (2 b what e pos k i ch chs)
  note ok = "2.prems"(1) and w = "2.prems"(3) and t = tail_at_Cons [OF "2.prems"(6)] and ins = "2.prems"(7)
  let ?d = "drop i (chain_data ch)" and ?n = "before b k + i"
  have i: "i \<le> ch_off ch" "chain_ok ch" using ins by (simp_all add: inside_def)
  have len: "length ?d = ch_off ch - i" using i by simp
  have v: "drop ?n (contents b) = ?d @ view 0 chs"
    using view_contents [OF ok "2.prems"(6) ins] view_Cons [OF ins] by simp
  have tot: "?n + length ?d \<le> length (contents b)"
    using before_le [OF ok, of "Suc k"] t(4) len i by simp
  note rd = read_rest [OF ins]
  show ?case
  proof (cases "memchr ?d (hd what)")
    case None
    then have no: "hd what \<notin> set (take (length ?d) (drop ?n (contents b)))" by (simp add: v memchr_None)
    have bk: "before b (Suc k) + 0 = ?n + length ?d" using t(4) i len by simp
    show ?thesis
    proof (cases "Some k = last_chain e")
      case True
      with "2.prems"(5) t(3) have "bound \<le> ?n + length ?d"
        using len i by (auto simp: end_at_def ptr_at_def before_def last_chain_def split: option.splits)
      with finds_beyond [OF w no tot] True None rd show ?thesis by simp
    next
      case False
      have "finds b what bound (before b (Suc k) + 0) (search_loop b what e (pos + int (ch_off ch - i)) (Suc k) 0 chs)"
        using False None "2.prems" t(1) inside_tl [OF ins] bk len
        by (intro "2.IH"(1)) (simp_all add: rd)
      then have "finds b what bound ?n (search_loop b what e (pos + int (ch_off ch - i)) (Suc k) 0 chs)"
        unfolding bk by (rule finds_skip [OF w no tot])
      with False None rd show ?thesis by simp
    qed
  next
    case (Some j)
    then have j: "j < length ?d" "?d ! j = hd what" "hd what \<notin> set (take j ?d)" by (simp_all add: memchr_Some_iff)
    then have no: "hd what \<notin> set (take j (drop ?n (contents b)))" and nj: "?n + j \<le> length (contents b)"
      "?n + j < length (contents b)"
      using tot by (simp_all add: v)
    let ?p = "\<lparr>ptr_pos = pos + int j, ptr_chain = Some k, pos_in_chain = i + j\<rparr>"
    have ij: "i + j < ch_off ch" using j(1) len by simp
    have insj: "inside (i + j) (ch # chs)" using ins ij by (simp add: inside_def)
    have p: "?p = \<lparr>ptr_pos = int (before b k + (i + j)), ptr_chain = Some k, pos_in_chain = i + j\<rparr>"
      using "2.prems"(8) by simp
    have at: "ptr_at b ?p (?n + j)" using "2.prems"(8) ij t(2,3) by (simp add: ptr_at_def before_def)
    have vj: "view (i + j) (ch # chs) = drop (?n + j) (contents b)"
      using view_contents [OF ok "2.prems"(6) insj] by (simp add: add.assoc)
    have cmp: "evbuffer_ptr_memcmp b ?p what = 0 \<longleftrightarrow> take (length what) (drop (?n + j) (contents b)) = what"
      unfolding p vj [symmetric] using "2.prems" insj by (intro ptr_memcmp_eq) simp_all
    have "finds b what bound (?n + j) (search_loop b what e pos k i (ch # chs))"
    proof (cases "take (length what) (drop (?n + j) (contents b)) = what")
      case True
      then have c: "evbuffer_ptr_memcmp b ?p what = 0" using cmp by blast
      have "beyond e (ptr_pos ?p + int (length what)) \<longleftrightarrow> ?n + j + length what > bound"
      proof (cases e)
        case None
        have "length what \<le> length (drop (?n + j) (contents b))" by (metis True length_take min.cobounded1)
        with nj(2) have "?n + j + length what \<le> length (contents b)" by auto
        with None "2.prems"(5) show ?thesis by (simp add: beyond_def end_at_def)
      next
        case (Some q)
        with "2.prems"(5,8) show ?thesis by (auto simp: beyond_def end_at_def ptr_at_def)
      qed
      with finds_here [OF w True at, of bound] Some rd c show ?thesis by (simp add: Let_def)
    next
      case False
      then have c: "evbuffer_ptr_memcmp b ?p what \<noteq> 0" using cmp by blast
      have "finds b what bound (Suc (?n + j)) (search_loop b what e pos k i (ch # chs))"
      proof (cases "i + j + 1 = ch_off ch")
        case True
        then have bk: "before b (Suc k) + 0 = Suc (?n + j)" using t(4) by simp
        have "finds b what bound (before b (Suc k) + 0) (search_loop b what e (pos + int j + 1) (Suc k) 0 chs)"
          using True Some c "2.prems" t(1) inside_tl [OF ins] bk
          by (intro "2.IH"(2) [OF _ refl]) (simp_all add: rd)
        then have "finds b what bound (Suc (?n + j)) (search_loop b what e (pos + int j + 1) (Suc k) 0 chs)"
          unfolding bk .
        with True Some c rd show ?thesis by (simp add: Let_def)
      next
        case False
        have "finds b what bound (before b k + (i + j + 1)) (search_loop b what e (pos + int j + 1) k (i + j + 1) (ch # chs))"
          using False Some c "2.prems" ij
          by (intro "2.IH"(3) [OF _ refl]) (simp_all add: rd inside_def)
        with False Some c rd show ?thesis by (simp add: Let_def add.assoc)
      qed
      with w False nj(2) show ?thesis by (rule finds_step)
    qed
    then show ?thesis by (rule finds_skip [OF w no nj(1)])
  qed
qed

definition start_at :: "evbuffer \<Rightarrow> evbuffer_ptr option \<Rightarrow> nat \<Rightarrow> bool" where
  "start_at b s n \<longleftrightarrow> (case s of None \<Rightarrow> n = 0 | Some p \<Rightarrow> ptr_at b p n)"

lemma search_range_finds:
  assumes ok: "evbuffer_ok b" and sz: "total_len b \<le> SSIZE_MAX" and w: "what \<noteq> []" "length what \<le> SSIZE_MAX"
    and s: "start_at b s n" and e: "end_at b e bound"
  shows "case first_match what (drop n (contents b)) of
           None \<Rightarrow> ptr_pos (evbuffer_search_range b what s e) = -1
         | Some j \<Rightarrow> if n + j + length what > bound then ptr_pos (evbuffer_search_range b what s e) = -1
                     else ptr_at b (evbuffer_search_range b what s e) (n + j)"
proof -
  define p where "p = (case s of Some s \<Rightarrow> s | None \<Rightarrow> \<lparr>ptr_pos = 0, ptr_chain = first_ptr b, pos_in_chain = 0\<rparr>)"
  let ?k = "case ptr_chain p of None \<Rightarrow> 0 | Some k \<Rightarrow> k" and ?chs = "chains_from b (ptr_chain p)"
  have at: "ptr_at b p n" using s first_ptr_at [of b] by (auto simp: p_def start_at_def split: option.splits)
  note t = ptr_tail [OF ok at]
  have res: "evbuffer_search_range b what s e =
      (case search_loop b what e (ptr_pos p) ?k (pos_in_chain p) ?chs of
         Some p \<Rightarrow> p | None \<Rightarrow> \<lparr>ptr_pos = -1, ptr_chain = None, pos_in_chain = 0\<rparr>)"
    using w by (simp add: evbuffer_search_range_def p_def [symmetric])
  have "finds b what bound n (search_loop b what e (ptr_pos p) ?k (pos_in_chain p) ?chs)"
  proof (cases "?chs = []")
    case True
    with t(3) show ?thesis by (simp add: finds_def)
  next
    case False
    with t(3) have ins: "inside (pos_in_chain p) ?chs" and n: "n = before b ?k + pos_in_chain p" by auto
    have "ptr_pos p = int (before b ?k + pos_in_chain p)" using t(2) n by simp
    from search_loop_finds [OF ok sz w e t(1) ins this] show ?thesis unfolding n .
  qed
  then show ?thesis by (auto simp: res finds_def split: option.splits if_splits)
qed

section \<open>Moving a position\<close>

lemma ptr_set_loop_eq:
  assumes ok: "evbuffer_ok b" and sz: "total_len b + left < SIZE_MOD" and "tail_at b k chs" and "inside i chs"
  shows "case ptr_set_loop i left k chs of
           None \<Rightarrow> before b k + i + left \<ge> total_len b
         | Some (k', i') \<Rightarrow> k' < length (eb_chains b) \<and> i' < ch_off (eb_chains b ! k')
                           \<and> before b k' + i' = before b k + i + left"
  using assms(2-)
proof (induction i left k chs rule: ptr_set_loop.induct)
  case (1 position left k)
  then show ?case using before_end [OF ok] length_contents [OF ok] by simp
next
  case (2 position left k ch chs)
  note t = tail_at_Cons [OF "2.prems"(2)]
  have i: "position \<le> ch_off ch" using "2.prems"(3) by (simp add: inside_def)
  have le: "before b k + ch_off ch \<le> total_len b" using before_le [OF ok, of "Suc k"] t(4) length_contents [OF ok] by simp
  have add: "addz position left = position + left" using i le "2.prems"(1) by (intro addz_exact) simp
  have off: "subz (ch_off ch) position = ch_off ch - position"
    using i le evbuffer_okD(3) [OF ok] by (intro subz_exact) simp_all
  show ?case
  proof (cases "position + left \<ge> ch_off ch")
    case True
    have sub: "subz left (ch_off ch - position) = left - (ch_off ch - position)"
      using True "2.prems"(1) by (intro subz_exact) simp_all
    have IH: "case ptr_set_loop 0 (left - (ch_off ch - position)) (Suc k) chs of
           None \<Rightarrow> before b (Suc k) + 0 + (left - (ch_off ch - position)) \<ge> total_len b
         | Some (k', i') \<Rightarrow> k' < length (eb_chains b) \<and> i' < ch_off (eb_chains b ! k')
                           \<and> before b k' + i' = before b (Suc k) + 0 + (left - (ch_off ch - position))"
      using True "2.prems"(1) t(1) inside_tl [OF "2.prems"(3)]
      by (intro "2.IH" [unfolded add off sub]) simp_all
    have eq: "before b (Suc k) + 0 + (left - (ch_off ch - position)) = before b k + position + left"
      using True i t(4) by simp
    show ?thesis using True IH unfolding eq by (simp add: add off sub)
  next
    case False
    with t(2,3) show ?thesis by (simp add: add)
  qed
qed

lemma ptr_add_eq:
  assumes ok: "evbuffer_ok b" and p: "ptr_at b p n" and sz: "total_len b + m < SIZE_MOD"
  shows "if n + m < total_len b
         then fst (evbuffer_ptr_set b p m EVBUFFER_PTR_ADD) = 0 \<and> ptr_at b (snd (evbuffer_ptr_set b p m EVBUFFER_PTR_ADD)) (n + m)
         else fst (evbuffer_ptr_set b p m EVBUFFER_PTR_ADD) = -1"
proof (cases "chains_from b (ptr_chain p) = []")
  case True
  with ptr_tail(3) [OF ok p] length_contents [OF ok] show ?thesis by (simp add: evbuffer_ptr_set_def)
next
  case False
  let ?k = "case ptr_chain p of None \<Rightarrow> 0 | Some k \<Rightarrow> k"
  note t = ptr_tail [OF ok p]
  from t(3) False have ins: "inside (pos_in_chain p) (chains_from b (ptr_chain p))"
    and n: "n = before b ?k + pos_in_chain p" by auto
  let ?r = "ptr_set_loop (pos_in_chain p) m ?k (chains_from b (ptr_chain p))"
  have r: "case ?r of None \<Rightarrow> n + m \<ge> total_len b
         | Some (k', i') \<Rightarrow> k' < length (eb_chains b) \<and> i' < ch_off (eb_chains b ! k') \<and> before b k' + i' = n + m"
    using ptr_set_loop_eq [OF ok sz t(1) ins] unfolding n .
  have lt: "before b k' + i' < total_len b" if "k' < length (eb_chains b)" "i' < ch_off (eb_chains b ! k')" for k' i'
  proof -
    have "before b (Suc k') = before b k' + ch_off (eb_chains b ! k')"
      using that(1) by (simp add: before_def take_Suc_conv_app_nth)
    with before_le [OF ok, of "Suc k'"] that(2) length_contents [OF ok] show ?thesis by simp
  qed
  show ?thesis
  proof (cases ?r)
    case None
    with r show ?thesis by (simp add: evbuffer_ptr_set_def)
  next
    case (Some ki)
    obtain k' i' where ki: "ki = (k', i')" by (cases ki)
    with Some r have r': "k' < length (eb_chains b)" "i' < ch_off (eb_chains b ! k')" "before b k' + i' = n + m"
      by simp_all
    with lt have "n + m < total_len b" by metis
    with Some ki r' t(2) show ?thesis by (simp add: evbuffer_ptr_set_def ptr_at_def before_def)
  qed
qed

section \<open>The end of a line\<close>

text \<open>Where the first line of a byte list ends, and how long its end is.\<close>

fun crlf_spec :: "byte list \<Rightarrow> (nat \<times> nat) option" where
  "crlf_spec [] = None"
| "crlf_spec (x # xs) =
     (if x = LF then Some (0, 1)
      else if x = CR \<and> take 1 xs = [LF] then Some (0, 2)
      else map_option (\<lambda>(n, l). (Suc n, l)) (crlf_spec xs))"

definition eol_spec :: "evbuffer_eol_style \<Rightarrow> byte list \<Rightarrow> (nat \<times> nat) option" where
  "eol_spec style bs =
     (case style of
        EVBUFFER_EOL_ANY \<Rightarrow>
          map_option (\<lambda>n. (n, length (takeWhile (\<lambda>x. x \<in> {CR, LF}) (drop n bs))))
            (find_first (\<lambda>x. x \<in> {CR, LF}) bs)
      | EVBUFFER_EOL_CRLF \<Rightarrow> crlf_spec bs
      | EVBUFFER_EOL_CRLF_STRICT \<Rightarrow> map_option (\<lambda>n. (n, 2)) (first_match [CR, LF] bs)
      | EVBUFFER_EOL_LF \<Rightarrow> map_option (\<lambda>n. (n, 1)) (find_first (\<lambda>x. x = LF) bs))"

lemma CR_LF [simp]: "CR \<noteq> LF" "LF \<noteq> CR"
  by (simp_all add: CR_def LF_def)

lemma len_CRLF: "length [CR, LF] = 2" "length [CR, LF] \<le> SSIZE_MAX"
  by (simp_all add: SSIZE_MAX_def)

lemma strspn_loop_eq:
  assumes "inside i chs" and "chs \<noteq> []"
  shows "\<exists>k' i'. strspn_loop cs count k i chs = Inr (count + length (takeWhile (\<lambda>x. x \<in> set cs) (view i chs)), k', i')"
  using assms
proof (induction chs arbitrary: i k count)
  case Nil
  then show ?case by simp
next
  case (Cons ch chs)
  let ?P = "\<lambda>x. x \<in> set cs"
  define d where "d = drop i (chain_data ch)"
  note v = view_Cons [OF Cons.prems(1), folded d_def] and rd = read_rest [OF Cons.prems(1), folded d_def]
  show ?case
  proof (cases "length (takeWhile ?P d) < length d")
    case True
    then have "\<exists>x\<in>set d. x \<notin> set cs" by (metis less_irrefl takeWhile_eq_all_conv)
    then have "takeWhile ?P (d @ view 0 chs) = takeWhile ?P d" by (auto simp: takeWhile_append)
    with True show ?thesis by (simp add: v rd Let_def)
  next
    case False
    then have all: "\<forall>x\<in>set d. x \<in> set cs"
      by (metis length_takeWhile_le nat_less_le takeWhile_eq_all_conv takeWhile_eq_take take_all)
    then have d: "takeWhile ?P d = d" by (simp add: takeWhile_eq_all_conv)
    have tw: "length (takeWhile ?P d) = length d" by (simp only: d)
    have tw2: "takeWhile ?P (d @ view 0 chs) = d @ takeWhile ?P (view 0 chs)"
      using all by (simp add: takeWhile_append)
    show ?thesis
    proof (cases "chs = []")
      case True
      with tw tw2 v d show ?thesis by (simp add: rd Let_def)
    next
      case False
      from Cons.IH [OF inside_tl [OF Cons.prems(1)] False, of "count + length d" "Suc k"] tw tw2 False show ?thesis
        by (auto simp: v rd Let_def add.assoc)
    qed
  qed
qed

lemma strspn_eq:
  assumes ok: "evbuffer_ok b" and p: "ptr_at b p n" and ne: "eb_chains b \<noteq> []"
  shows "\<exists>q. evbuffer_strspn b p cs = Inr (int (length (takeWhile (\<lambda>x. x \<in> set cs) (drop n (contents b)))), q)"
proof -
  from p ne obtain k where k: "ptr_chain p = Some k" "k < length (eb_chains b)" by (auto simp: ptr_at_def split: option.splits)
  note t = ptr_tail [OF ok p]
  have ch: "chains_from b (ptr_chain p) = drop k (eb_chains b)" "drop k (eb_chains b) \<noteq> []"
    using k by (simp_all add: chains_from_def)
  then have ins: "inside (pos_in_chain p) (drop k (eb_chains b))" and n: "n = before b k + pos_in_chain p"
    using t(3) k(1) by auto
  have "tail_at b k (drop k (eb_chains b))" using k by (simp add: tail_at_def)
  note v = view_contents [OF ok this ins]
  from strspn_loop_eq [OF ins ch(2), of cs 0 k] k(1) show ?thesis
    by (auto simp: evbuffer_strspn_def v n)
qed

lemma getchr_eq:
  assumes ok: "evbuffer_ok b" and p: "ptr_at b p n" and on: "on_byte b p"
  shows "evbuffer_getchr b p = Inr (contents b ! n) \<and> n < length (contents b)"
proof -
  from on obtain k where k: "ptr_chain p = Some k" "pos_in_chain p < ch_off (eb_chains b ! k)" by (auto simp: on_byte_def)
  then have len: "k < length (eb_chains b)" using p by (simp add: ptr_at_def)
  let ?ch = "eb_chains b ! k"
  note t = ptr_tail [OF ok p]
  have ch: "chains_from b (ptr_chain p) = ?ch # drop (Suc k) (eb_chains b)"
    using k len by (simp add: chains_from_def Cons_nth_drop_Suc)
  then have ins: "inside (pos_in_chain p) (?ch # drop (Suc k) (eb_chains b))" and n: "n = before b k + pos_in_chain p"
    using t(3) k(1) by auto
  have "tail_at b k (?ch # drop (Suc k) (eb_chains b))" using len by (simp add: tail_at_def Cons_nth_drop_Suc)
  then have v: "drop (pos_in_chain p) (chain_data ?ch) @ view 0 (drop (Suc k) (eb_chains b)) = drop n (contents b)"
    using view_contents [OF ok _ ins] view_Cons [OF ins] n by simp
  have cok: "chain_ok ?ch" using evbuffer_okD(1) [OF ok] len by simp
  then have "pos_in_chain p < length (chain_data ?ch)" using k(2) by simp
  then have d: "drop (pos_in_chain p) (chain_data ?ch) = chain_data ?ch ! pos_in_chain p # drop (Suc (pos_in_chain p)) (chain_data ?ch)"
    by (simp add: Cons_nth_drop_Suc)
  with v have hd: "drop n (contents b) = chain_data ?ch ! pos_in_chain p # drop (Suc (pos_in_chain p)) (chain_data ?ch)
      @ view 0 (drop (Suc k) (eb_chains b))" by simp
  then have nl: "n < length (contents b)" by (metis drop_eq_Nil list.distinct(1) not_le)
  with hd have "contents b ! n = chain_data ?ch ! pos_in_chain p" by (metis hd_drop_conv_nth list.sel(1))
  also have "\<dots> = ch_buffer ?ch ! (ch_misalign ?ch + pos_in_chain p)"
    using k(2) cok by (simp add: chain_data_def mem_read_def chain_ok_def)
  finally show ?thesis using ch cok k(2) nl by (simp add: evbuffer_getchr_def chain_ok_def)
qed

lemma ptr_memcmp_at:
  assumes ok: "evbuffer_ok b" and p: "ptr_at b p n" and ne: "eb_chains b \<noteq> []"
    and w: "what \<noteq> []" "length what \<le> SSIZE_MAX" and sz: "total_len b \<le> SSIZE_MAX"
  shows "evbuffer_ptr_memcmp b p what = 0 \<longleftrightarrow> take (length what) (drop n (contents b)) = what"
proof -
  from p ne obtain k where k: "ptr_chain p = Some k" "k < length (eb_chains b)" by (auto simp: ptr_at_def split: option.splits)
  note t = ptr_tail [OF ok p]
  have ch: "chains_from b (ptr_chain p) = drop k (eb_chains b)" "drop k (eb_chains b) \<noteq> []"
    using k by (simp_all add: chains_from_def)
  then have ins: "inside (pos_in_chain p) (drop k (eb_chains b))" and n: "n = before b k + pos_in_chain p"
    using t(3) k(1) by auto
  have tl: "tail_at b k (drop k (eb_chains b))" using k by (simp add: tail_at_def)
  have "p = \<lparr>ptr_pos = int (before b k + pos_in_chain p), ptr_chain = Some k, pos_in_chain = pos_in_chain p\<rparr>"
    using t(2) n k(1) by simp
  then show ?thesis
    using ptr_memcmp_eq [OF ok tl ins ch(2) w sz] view_contents [OF ok tl ins] by (simp add: n)
qed

lemma crlf_skip:
  "\<forall>x\<in>set (take j bs). x \<noteq> CR \<and> x \<noteq> LF \<Longrightarrow> j \<le> length bs
   \<Longrightarrow> crlf_spec bs = map_option (\<lambda>(n, l). (j + n, l)) (crlf_spec (drop j bs))"
proof (induction j arbitrary: bs)
  case 0
  then show ?case by (cases "crlf_spec bs") auto
next
  case (Suc j)
  then obtain x xs where "bs = x # xs" by (cases bs) auto
  with Suc show ?case by (cases "crlf_spec (drop j xs)") auto
qed

lemma crlf_loop_eq:
  assumes ok: "evbuffer_ok b" and sz: "total_len b \<le> SSIZE_MAX" and "ptr_at b p n" and "eb_chains b \<noteq> []"
    and "n \<le> length (contents b)"
  shows "\<exists>fd l q. crlf_loop b p = Some (Inr (fd, l, q))
     \<and> (case crlf_spec (drop n (contents b)) of
          None \<Rightarrow> \<not> fd
        | Some (m, l') \<Rightarrow> fd \<and> l = l' \<and> ptr_at b q (n + m))"
  using assms(3-)
proof (induction "length (contents b) - n" arbitrary: n p rule: less_induct)
  case less
  let ?P = "\<lambda>x. x = CR \<or> x = LF" and ?c = "drop n (contents b)"
  have find_eq: "evbuffer_find_eol_char b p = ptr_scan (find_first ?P) b p"
    by (simp add: evbuffer_find_eol_char_def find_eol_char_eq [abs_def])
  obtain r q where rq: "evbuffer_find_eol_char b p = (r, q)" by (cases "evbuffer_find_eol_char b p")
  note sc = ptr_scan_eq [OF ok less.prems(1), of ?P, folded find_eq, unfolded rq fst_conv snd_conv]
  show ?case
  proof (cases "find_first ?P ?c")
    case None
    then have "\<forall>x\<in>set (take (length ?c) ?c). x \<noteq> CR \<and> x \<noteq> LF" by (auto simp: find_first_None)
    from crlf_skip [OF this] None sc show ?thesis
      by (subst crlf_loop.simps) (simp add: rq, blast)
  next
    case (Some j)
    with sc have q: "r = int (n + j)" "ptr_at b q (n + j)" "on_byte b q" by simp_all
    from Some have j: "j < length ?c" "?P (?c ! j)" "\<forall>x\<in>set (take j ?c). x \<noteq> CR \<and> x \<noteq> LF"
      by (auto simp: find_first_Some)
    have get: "evbuffer_getchr b q = Inr (contents b ! (n + j))" "n + j < length (contents b)"
      using getchr_eq [OF ok q(2,3)] by simp_all
    have sp: "crlf_spec ?c = map_option (\<lambda>(m, l). (j + m, l)) (crlf_spec (drop (n + j) (contents b)))"
      using crlf_skip [OF j(3)] j(1) by (simp add: add.commute)
    have dr: "drop (n + j) (contents b) = contents b ! (n + j) # drop (Suc (n + j)) (contents b)"
      using get(2) by (simp add: Cons_nth_drop_Suc)
    have x: "?P (contents b ! (n + j))" using j(1,2) by (simp add: add.commute)
    have cmp: "evbuffer_ptr_memcmp b q [CR, LF] = 0 \<longleftrightarrow> take 2 (drop (n + j) (contents b)) = [CR, LF]"
      using ptr_memcmp_at [OF ok q(2) less.prems(2) _ len_CRLF(2) sz] unfolding len_CRLF(1) by simp
    consider (lf) "contents b ! (n + j) = LF"
      | (crlf) "contents b ! (n + j) = CR" "take 1 (drop (Suc (n + j)) (contents b)) = [LF]"
      | (cr) "contents b ! (n + j) = CR" "take 1 (drop (Suc (n + j)) (contents b)) \<noteq> [LF]"
      using x by blast
    then show ?thesis
    proof cases
      case lf
      then show ?thesis using q sp dr get
        by (subst crlf_loop.simps) (simp add: rq, blast)
    next
      case crlf
      then have "take 2 (drop (n + j) (contents b)) = [CR, LF]" by (simp add: dr numeral_2_eq_2)
      with crlf show ?thesis using q sp dr get cmp
        by (subst crlf_loop.simps) (simp add: rq, blast)
    next
      case cr
      then have "take 2 (drop (n + j) (contents b)) \<noteq> [CR, LF]" by (simp add: dr numeral_2_eq_2)
      then have step: "crlf_loop b p = (case evbuffer_ptr_set b q 1 EVBUFFER_PTR_ADD of
            (s, it) \<Rightarrow> if s < 0 then Some (Inr (False, 0, it)) else crlf_loop b it)"
        using cr q get cmp by (subst crlf_loop.simps) (simp add: rq)
      have "total_len b + 1 < SIZE_MOD" using sz by (simp add: SSIZE_MAX_def SIZE_MOD_def)
      note ad = ptr_add_eq [OF ok q(2) this]
      obtain s q' where sq: "evbuffer_ptr_set b q 1 EVBUFFER_PTR_ADD = (s, q')"
        by (cases "evbuffer_ptr_set b q 1 EVBUFFER_PTR_ADD")
      show ?thesis
      proof (cases "n + j + 1 < total_len b")
        case True
        with ad sq have q': "s = 0" "ptr_at b q' (Suc (n + j))" by auto
        have "\<exists>fd l r. crlf_loop b q' = Some (Inr (fd, l, r))
            \<and> (case crlf_spec (drop (Suc (n + j)) (contents b)) of None \<Rightarrow> \<not> fd
               | Some (m, l') \<Rightarrow> fd \<and> l = l' \<and> ptr_at b r (Suc (n + j) + m))"
          using q'(2) less.prems(2) get(2) by (intro less.hyps) auto
        with cr q'(1) sq sp dr step show ?thesis by (auto simp: add.assoc split: option.splits)
      next
        case False
        with ad sq have "s = -1" by auto
        moreover have "drop (Suc (n + j)) (contents b) = []" using False length_contents [OF ok] by simp
        ultimately show ?thesis using cr sq sp dr step by (simp, blast)
      qed
    qed
  qed
qed

lemma search_eol_eq:
  assumes ok: "evbuffer_ok b" and sz: "total_len b \<le> SSIZE_MAX" and s: "start_at b s n" and n: "n \<le> length (contents b)"
  shows "\<exists>it l. evbuffer_search_eol b s style = Inr (it, l)
     \<and> (case eol_spec style (drop n (contents b)) of
          None \<Rightarrow> ptr_pos it = -1
        | Some (m, l') \<Rightarrow> l = l' \<and> ptr_at b it (n + m))"
proof -
  define p where "p = (case s of Some s \<Rightarrow> s | None \<Rightarrow> \<lparr>ptr_pos = 0, ptr_chain = first_ptr b, pos_in_chain = 0\<rparr>)"
  have at: "ptr_at b p n" using s first_ptr_at [of b] by (auto simp: p_def start_at_def split: option.splits)
  have chars: "set [CR, LF] = {CR, LF}" by simp
  let ?c = "drop n (contents b)"
  show ?thesis
  proof (cases style)
    case EVBUFFER_EOL_ANY
    let ?P = "\<lambda>x. x = CR \<or> x = LF"
    have P: "(\<lambda>x. x \<in> {CR, LF}) = ?P" by auto
    have find_eq: "evbuffer_find_eol_char b p = ptr_scan (find_first ?P) b p"
      by (simp add: evbuffer_find_eol_char_def find_eol_char_eq [abs_def])
    note sc = ptr_scan_eq [OF ok at, of ?P, folded find_eq]
    obtain r q where rq: "evbuffer_find_eol_char b p = (r, q)" by (cases "evbuffer_find_eol_char b p")
    show ?thesis
    proof (cases "find_first ?P ?c")
      case None
      with sc rq EVBUFFER_EOL_ANY show ?thesis
        by (simp add: evbuffer_search_eol_def p_def [symmetric] eol_spec_def P del: insert_iff)
    next
      case (Some j)
      with sc rq have q: "r = int (n + j)" "ptr_at b q (n + j)" "on_byte b q" by simp_all
      then have "eb_chains b \<noteq> []" by (auto simp: on_byte_def ptr_at_def)
      from strspn_eq [OF ok q(2) this, of "[CR, LF]"] obtain q' where
        sp: "evbuffer_strspn b q [CR, LF] = Inr (int (length (takeWhile ?P (drop (n + j) (contents b)))), q')"
        unfolding chars P by blast
      have "length (takeWhile ?P (drop (n + j) (contents b))) \<le> length (drop (n + j) (contents b))"
        by (rule length_takeWhile_le)
      also have "\<dots> < SIZE_MOD" using evbuffer_okD(3) [OF ok] length_contents [OF ok] by simp
      finally have "to_size (int (length (takeWhile ?P (drop (n + j) (contents b)))))
          = length (takeWhile ?P (drop (n + j) (contents b)))" by (rule to_size_int)
      with Some rq q sp EVBUFFER_EOL_ANY show ?thesis
        by (simp add: evbuffer_search_eol_def p_def [symmetric] eol_spec_def P add.commute del: insert_iff)
    qed
  next
    case EVBUFFER_EOL_CRLF
    show ?thesis
    proof (cases "eb_chains b = []")
      case True
      then have c: "contents b = []" by (simp add: contents_def)
      have "chains_from b (ptr_chain p) = []" using True by (simp add: chains_from_def split: option.split)
      then have "evbuffer_find_eol_char b p = (-1, p)" by (simp add: evbuffer_find_eol_char_def ptr_scan_def)
      then have "crlf_loop b p = Some (Inr (False, 0, p))" by (subst crlf_loop.simps) simp
      with c EVBUFFER_EOL_CRLF show ?thesis by (simp add: evbuffer_search_eol_def p_def [symmetric] eol_spec_def)
    next
      case False
      from crlf_loop_eq [OF ok sz at False n] EVBUFFER_EOL_CRLF show ?thesis
        by (auto simp: evbuffer_search_eol_def p_def [symmetric] eol_spec_def split: option.splits)
    qed
  next
    case EVBUFFER_EOL_CRLF_STRICT
    have "start_at b (Some p) n" using at by (simp add: start_at_def)
    moreover have "end_at b None (length (contents b))" by (simp add: end_at_def)
    ultimately have f: "case first_match [CR, LF] ?c of
           None \<Rightarrow> ptr_pos (evbuffer_search b [CR, LF] (Some p)) = -1
         | Some j \<Rightarrow> if n + j + 2 > length (contents b) then ptr_pos (evbuffer_search b [CR, LF] (Some p)) = -1
                     else ptr_at b (evbuffer_search b [CR, LF] (Some p)) (n + j)"
      using search_range_finds [OF ok sz list.distinct(2) [of CR "[LF]"] len_CRLF(2)]
      unfolding len_CRLF(1) evbuffer_search_def by blast
    show ?thesis
    proof (cases "first_match [CR, LF] ?c")
      case None
      with f EVBUFFER_EOL_CRLF_STRICT show ?thesis
        by (simp add: evbuffer_search_eol_def p_def [symmetric] eol_spec_def Let_def)
    next
      case (Some j)
      then have "take 2 (drop j ?c) = [CR, LF]" by (simp add: first_match_Some numeral_2_eq_2)
      then have "length (drop j ?c) \<ge> 2" by (metis length_Cons length_take list.size(3) min.cobounded1 numeral_2_eq_2)
      then have "\<not> n + j + 2 > length (contents b)" using n by simp
      with f Some EVBUFFER_EOL_CRLF_STRICT show ?thesis
        by (simp add: evbuffer_search_eol_def p_def [symmetric] eol_spec_def Let_def ptr_at_def)
    qed
  next
    case EVBUFFER_EOL_LF
    have chr_eq: "evbuffer_strchr b p LF = ptr_scan (find_first (\<lambda>x. x = LF)) b p"
      by (simp add: evbuffer_strchr_def memchr_find_first [abs_def])
    note sc = ptr_scan_eq [OF ok at, of "\<lambda>x. x = LF", folded chr_eq]
    obtain r q where "evbuffer_strchr b p LF = (r, q)" by (cases "evbuffer_strchr b p LF")
    with sc EVBUFFER_EOL_LF show ?thesis
      by (auto simp: evbuffer_search_eol_def p_def [symmetric] eol_spec_def split: option.splits)
  qed
qed

section \<open>Reading a line\<close>

lemma readln_runs:
  assumes m: "malloc_ok mm_malloc" and ok: "evbuffer_ok b" "pinned_ok b" and fr: "\<not> freeze_start b"
    and sz: "total_len b \<le> SSIZE_MAX"
  shows "\<exists>line b'. evbuffer_readln mm_malloc b style = Inr (line, b')
     \<and> (case eol_spec style (contents b) of
          None \<Rightarrow> line = None \<and> b' = b
        | Some (n, l) \<Rightarrow> line = None \<and> b' = b \<and> out_of_memory mm_malloc
                        \<or> line = Some (take n (contents b)) \<and> contents b' = drop (n + l) (contents b)
                          \<and> evbuffer_ok b' \<and> pinned_ok b' \<and> (no_spare b \<longrightarrow> no_spare b'))"
proof -
  have "start_at b None 0" by (simp add: start_at_def)
  note se = search_eol_eq [OF ok(1) sz this le0, of style, unfolded drop_0 add_0]
  then obtain it l where it: "evbuffer_search_eol b None style = Inr (it, l)"
    and spec: "case eol_spec style (contents b) of None \<Rightarrow> ptr_pos it = -1 | Some (m, l') \<Rightarrow> l = l' \<and> ptr_at b it m"
    by blast
  show ?thesis
  proof (cases "eol_spec style (contents b)")
    case None
    with it spec fr show ?thesis by (simp add: evbuffer_readln_def)
  next
    case (Some nl)
    then obtain n where nl: "nl = (n, l)" and at: "ptr_at b it n" using spec by (cases nl) auto
    have pos: "ptr_pos it = int n" using at by (simp add: ptr_at_def)
    have n: "n \<le> total_len b"
    proof (cases "ptr_chain it")
      case None
      with at show ?thesis by (simp add: ptr_at_def)
    next
      case k: (Some k)
      with at have "n \<le> before b (Suc k)" by (simp add: ptr_at_def before_def take_Suc_conv_app_nth)
      with before_le [OF ok(1), of "Suc k"] length_contents [OF ok(1)] show ?thesis by simp
    qed
    have add: "addz n 1 = Suc n" using n sz by (subst addz_exact) (simp_all add: SSIZE_MAX_def SIZE_MOD_def)
    show ?thesis
    proof (cases "mm_malloc (Suc n)")
      case None
      with it pos fr add Some nl show ?thesis by (auto simp: evbuffer_readln_def out_of_memory_def)
    next
      case mem: (Some am)
      then obtain addr mem where am: "mm_malloc (Suc n) = Some (addr, mem)" by (cases am) auto
      with m have len: "length mem = Suc n" by (simp add: malloc_ok_def)
      have "runs (evbuffer_remove b n) (removes b n)"
        using n sz by (intro evbuffer_remove_runs ok fr) simp
      then obtain r b1 where b1: "evbuffer_remove b n = Inr (r, take n (contents b), b1)"
        "evbuffer_ok b1" "pinned_ok b1" "no_spare b \<longrightarrow> no_spare b1" "contents b1 = drop n (contents b)" "\<not> freeze_start b1"
        using fr by (auto simp: removes_def drains_def elim!: runsE)
      from evbuffer_drain_runs [OF b1(2,3,6), of l] obtain b2 where
        b2: "evbuffer_drain b1 l = Inr (0, b2)" "evbuffer_ok b2" "pinned_ok b2" "no_spare b1 \<longrightarrow> no_spare b2"
          "contents b2 = drop l (contents b1)"
        by (auto simp: drains_def elim!: runsE)
      have "take n ((mem_write 0 (take n (contents b)) mem)[n := 0]) = take n (contents b)"
        using n len length_contents [OF ok(1)] by (simp add: mem_write_def)
      with it pos fr add Some nl am b1 b2 show ?thesis
        by (simp add: evbuffer_readln_def Let_def add.commute)
    qed
  qed
qed

section \<open>Properties\<close>

text \<open>
  C19: \<open>evbuffer_search_range\<close> from a valid position on gives the position of the first occurrence of a
  non-empty string at or behind it, also when the occurrence is spread over several chains, unless it
  does not end before the end of the range; otherwise the offset of the result is -1.
\<close>

theorem evbuffer_search_first:
  assumes "evbuffer_ok b" and "total_len b \<le> SSIZE_MAX" and "what \<noteq> []" and "length what \<le> SSIZE_MAX"
    and "start_at b start n" and "end_at b end_ptr bound"
  shows "case first_match what (drop n (contents b)) of
           None \<Rightarrow> ptr_pos (evbuffer_search_range b what start end_ptr) = -1
         | Some j \<Rightarrow> if n + j + length what > bound then ptr_pos (evbuffer_search_range b what start end_ptr) = -1
                     else ptr_at b (evbuffer_search_range b what start end_ptr) (n + j)"
  using assms by (rule search_range_finds)

theorem evbuffer_search_first_witness:
  "ptr_pos (evbuffer_search two_chains [2, 3] None) = 1 \<and> ptr_pos (evbuffer_search two_chains [3, 2] None) = -1"
proof -
  have pre: "total_len two_chains \<le> SSIZE_MAX" "start_at two_chains None 0" "end_at two_chains None 5"
    "length [2, 3 :: byte] \<le> SSIZE_MAX" "length [3, 2 :: byte] \<le> SSIZE_MAX"
    by (simp_all add: two_chains_ok start_at_def end_at_def SSIZE_MAX_def)
  show ?thesis
    using evbuffer_search_first [OF two_chains_ok(1) pre(1) _ pre(4) pre(2,3)]
      evbuffer_search_first [OF two_chains_ok(1) pre(1) _ pre(5) pre(2,3)]
    by (simp add: two_chains_ok evbuffer_search_def ptr_at_def)
qed

text \<open>
  C20: \<open>evbuffer_readln\<close> agrees with the description of line ends on byte lists, for each of the four
  styles: it returns the bytes before the first end of line and removes them and the end of line, or
  returns a null pointer and changes nothing if there is no end of line, or if there is no memory. The
  search for the end of a line ends, also the loop for optional carriage returns.
\<close>

theorem evbuffer_readln_line:
  assumes "malloc_ok mm_malloc" and "evbuffer_ok b" and "pinned_ok b" and "\<not> freeze_start b"
    and "total_len b \<le> SSIZE_MAX"
  shows "\<exists>line b'. evbuffer_readln mm_malloc b style = Inr (line, b')
     \<and> (case eol_spec style (contents b) of
          None \<Rightarrow> line = None \<and> b' = b
        | Some (n, l) \<Rightarrow> line = None \<and> b' = b \<and> out_of_memory mm_malloc
                        \<or> line = Some (take n (contents b)) \<and> contents b' = drop (n + l) (contents b)
                          \<and> evbuffer_ok b' \<and> pinned_ok b' \<and> (no_spare b \<longrightarrow> no_spare b'))"
  using assms by (rule readln_runs)

text \<open>The bytes \<open>65 13 66\<close> and \<open>13 10 67\<close> in two chains.\<close>

definition two_lines :: evbuffer where
  "two_lines = evbuffer_new
     \<lparr>eb_chains := [\<lparr>ch_addr = 64, ch_buffer = [65, 13, 66, 13], ch_buffer_len = 4, ch_misalign = 0,
                     ch_off = 4, ch_flags = {}, ch_cleanup = None\<rparr>,
                    \<lparr>ch_addr = 128, ch_buffer = [0, 10, 67], ch_buffer_len = 3, ch_misalign = 1,
                     ch_off = 2, ch_flags = {}, ch_cleanup = None\<rparr>],
      last_with_datap := 1, total_len := 6\<rparr>"

lemma two_lines_ok:
  "evbuffer_ok two_lines" "pinned_ok two_lines" "\<not> freeze_start two_lines" "total_len two_lines \<le> SSIZE_MAX"
  "contents two_lines = [65, 13, 66, 13, 10, 67]"
  by (simp_all add: two_lines_def evbuffer_new_def evbuffer_ok_def pinned_ok_def pins_ok_unpinned contents_def
      chain_data_def mem_read_def chain_ok_def lwd_ok_def CHAIN_PINNED_R_def SIZE_MOD_def SSIZE_MAX_def
      CHAIN_MAX_def EVBUFFER_CHAIN_SIZE_def)

theorem evbuffer_readln_line_witness:
  "\<exists>b'. evbuffer_readln plain_malloc two_lines EVBUFFER_EOL_CRLF = Inr (Some [65, 13, 66], b') \<and> contents b' = [67]"
proof -
  have "eol_spec EVBUFFER_EOL_CRLF (contents two_lines) = Some (3, 2)"
    by (simp add: two_lines_ok eol_spec_def CR_def LF_def)
  with evbuffer_readln_line [OF plain_malloc_ok(1) two_lines_ok(1-4), of EVBUFFER_EOL_CRLF] show ?thesis
    by (auto simp: two_lines_ok)
qed

end
