(* ===== verification/Ev_Time.thy ===== *)
theory Ev_Time
  imports Ev_Prelude "HOL-Library.Product_Lexorder"
begin

text \<open>
  Times: \<open>struct timeval\<close> with the two 32-bit \<open>long\<close>s of the Windows build, and the macros of
  \<open>include/event2/util.h\<close> for comparing, adding and subtracting. The order in which the event loop
  looks at times is that of \<open>evutil_timercmp\<close>, so times are instantiated as a linear order. A signed overflow of
  the seconds, which C leaves undefined, wraps around in \<open>evutil_timeradd\<close> and \<open>evutil_timersub\<close>;
  \<open>timeradd_exact\<close> says for which times it happens.
\<close>

datatype timeval = Timeval (tv_sec: "32 word") (tv_usec: "32 word")

section \<open>Comparison\<close>

text \<open>\<open>evutil_timercmp(a, b, >)\<close> and the same with \<open><\<close>; \<open>long\<close> is signed.\<close>

definition evutil_timercmp_gt :: "timeval \<Rightarrow> timeval \<Rightarrow> bool" where
  "evutil_timercmp_gt a b =
     (if tv_sec a = tv_sec b then sint (tv_usec a) > sint (tv_usec b) else sint (tv_sec a) > sint (tv_sec b))"

definition evutil_timercmp_lt :: "timeval \<Rightarrow> timeval \<Rightarrow> bool" where
  "evutil_timercmp_lt a b =
     (if tv_sec a = tv_sec b then sint (tv_usec a) < sint (tv_usec b) else sint (tv_sec a) < sint (tv_sec b))"

text \<open>With \<open><=\<close> and \<open>>=\<close>.\<close>

definition evutil_timercmp_le :: "timeval \<Rightarrow> timeval \<Rightarrow> bool" where
  "evutil_timercmp_le a b =
     (if tv_sec a = tv_sec b then sint (tv_usec a) \<le> sint (tv_usec b) else sint (tv_sec a) \<le> sint (tv_sec b))"

definition evutil_timercmp_ge :: "timeval \<Rightarrow> timeval \<Rightarrow> bool" where
  "evutil_timercmp_ge a b =
     (if tv_sec a = tv_sec b then sint (tv_usec a) \<ge> sint (tv_usec b) else sint (tv_sec a) \<ge> sint (tv_sec b))"

lemma sint_eq_iff: "sint (a :: 32 word) = sint b \<longleftrightarrow> a = b"
  by (auto simp: signed_word_eqI)

definition tv_key :: "timeval \<Rightarrow> int \<times> int" where
  "tv_key t = (sint (tv_sec t), sint (tv_usec t))"

lemma tv_key_eq: "tv_key a = tv_key b \<longleftrightarrow> a = b"
  by (cases a; cases b) (auto simp: tv_key_def sint_eq_iff)

instantiation timeval :: linorder
begin

definition less_eq_timeval :: "timeval \<Rightarrow> timeval \<Rightarrow> bool" where
  "a \<le> b \<longleftrightarrow> tv_key a \<le> tv_key b"

definition less_timeval :: "timeval \<Rightarrow> timeval \<Rightarrow> bool" where
  "a < b \<longleftrightarrow> tv_key a < tv_key b"

instance
  by intro_classes (auto simp: less_eq_timeval_def less_timeval_def tv_key_eq[symmetric])

end

lemma timercmp_gt [simp]: "evutil_timercmp_gt a b \<longleftrightarrow> b < a"
  by (auto simp: evutil_timercmp_gt_def less_timeval_def tv_key_def less_le sint_eq_iff)

lemma timercmp_lt [simp]: "evutil_timercmp_lt a b \<longleftrightarrow> a < b"
  by (auto simp: evutil_timercmp_lt_def less_timeval_def tv_key_def less_le sint_eq_iff)

lemma timercmp_le [simp]: "evutil_timercmp_le a b \<longleftrightarrow> a \<le> b"
  by (auto simp: evutil_timercmp_le_def less_eq_timeval_def tv_key_def sint_eq_iff)

lemma timercmp_ge [simp]: "evutil_timercmp_ge a b \<longleftrightarrow> b \<le> a"
  by (auto simp: evutil_timercmp_ge_def less_eq_timeval_def tv_key_def sint_eq_iff)

section \<open>Arithmetic\<close>

definition evutil_timeradd :: "timeval \<Rightarrow> timeval \<Rightarrow> timeval" where
  "evutil_timeradd tvp uvp =
     (let sec = tv_sec tvp + tv_sec uvp; usec = tv_usec tvp + tv_usec uvp
      in if sint usec \<ge> 1000000 then Timeval (sec + 1) (usec - 1000000) else Timeval sec usec)"

definition evutil_timersub :: "timeval \<Rightarrow> timeval \<Rightarrow> timeval" where
  "evutil_timersub tvp uvp =
     (let sec = tv_sec tvp - tv_sec uvp; usec = tv_usec tvp - tv_usec uvp
      in if sint usec < 0 then Timeval (sec - 1) (usec + 1000000) else Timeval sec usec)"

definition evutil_timerclear :: timeval where
  "evutil_timerclear = Timeval 0 0"

definition evutil_timerisset :: "timeval \<Rightarrow> bool" where
  "evutil_timerisset tvp \<longleftrightarrow> tv_sec tvp \<noteq> 0 \<or> tv_usec tvp \<noteq> 0"

text \<open>
  A time as a number of microseconds. \<open>tv_ok\<close>: the microseconds are in range; \<open>tv_small\<close>: less than
  \<open>2 ^ 30\<close> seconds in either direction, so that sums do not overflow; \<open>time_ok\<close>: it is what a clock shows.
\<close>

definition usecs :: "timeval \<Rightarrow> int" where
  "usecs t = sint (tv_sec t) * 1000000 + sint (tv_usec t)"

definition tv_ok :: "timeval \<Rightarrow> bool" where
  "tv_ok t \<longleftrightarrow> 0 \<le> sint (tv_usec t) \<and> sint (tv_usec t) < 1000000"

definition time_ok :: "timeval \<Rightarrow> bool" where
  "time_ok t \<longleftrightarrow> tv_ok t \<and> 0 \<le> sint (tv_sec t)"

definition tv_small :: "timeval \<Rightarrow> bool" where
  "tv_small t \<longleftrightarrow> - (2 ^ 30) < sint (tv_sec t) \<and> sint (tv_sec t) < 2 ^ 30 - 1"

lemma usecs_less: "tv_ok a \<Longrightarrow> tv_ok b \<Longrightarrow> a < b \<longleftrightarrow> usecs a < usecs b"
  by (auto simp: less_timeval_def tv_key_def tv_ok_def usecs_def)

lemma usecs_less_eq: "tv_ok a \<Longrightarrow> tv_ok b \<Longrightarrow> a \<le> b \<longleftrightarrow> usecs a \<le> usecs b"
  using usecs_less [of b a] by auto

lemma sint_plus_32:
  fixes a b :: "32 word"
  assumes "- (2 ^ 31) \<le> sint a + sint b" and "sint a + sint b < 2 ^ 31"
  shows "sint (a + b) = sint a + sint b"
  using assms by (simp add: signed_take_bit_int_eq_self sint_word_ariths(1))

lemma sint_minus_32:
  fixes a b :: "32 word"
  assumes "- (2 ^ 31) \<le> sint a - sint b" and "sint a - sint b < 2 ^ 31"
  shows "sint (a - b) = sint a - sint b"
  using assms by (simp add: signed_take_bit_int_eq_self sint_word_ariths(2))

lemma timeradd_usecs:
  assumes "tv_ok a" "tv_ok b" "tv_small a" "tv_small b"
  shows "tv_ok (evutil_timeradd a b)" "usecs (evutil_timeradd a b) = usecs a + usecs b"
proof -
  have s: "sint (tv_sec a + tv_sec b) = sint (tv_sec a) + sint (tv_sec b)"
    using assms by (intro sint_plus_32) (auto simp: tv_small_def)
  have u: "sint (tv_usec a + tv_usec b) = sint (tv_usec a) + sint (tv_usec b)"
    using assms by (intro sint_plus_32) (auto simp: tv_ok_def)
  have s1: "sint (tv_sec a + tv_sec b + 1) = sint (tv_sec a) + sint (tv_sec b) + 1"
    using sint_plus_32 [of "tv_sec a + tv_sec b" 1] s assms by (auto simp: tv_small_def)
  have u1: "sint (tv_usec a + tv_usec b - 1000000) = sint (tv_usec a) + sint (tv_usec b) - 1000000"
    using sint_minus_32 [of "tv_usec a + tv_usec b" 1000000] u assms by (auto simp: tv_ok_def)
  show "tv_ok (evutil_timeradd a b)" "usecs (evutil_timeradd a b) = usecs a + usecs b"
    using assms u u1 s s1 by (auto simp: evutil_timeradd_def Let_def tv_ok_def usecs_def)
qed

text \<open>
  Adding to a time of the clock is exact as long as the sum is less than \<open>2 ^ 31\<close> seconds; a later one wraps
  around to a time in the past.
\<close>

lemma div_mod_carry:
  fixes u :: int
  assumes "0 \<le> u" "u < 2000000"
  shows "u mod 1000000 = (if 1000000 \<le> u then u - 1000000 else u)"
    and "u div 1000000 = (if 1000000 \<le> u then 1 else 0)"
proof -
  have "u div 1000000 = (if 1000000 \<le> u then 1 else 0)"
    using assms by (simp add: div_pos_pos_trivial int_div_pos_eq [where q = 1 and r = "u - 1000000"])
  then show "u div 1000000 = (if 1000000 \<le> u then 1 else 0)" "u mod 1000000 = (if 1000000 \<le> u then u - 1000000 else u)"
    by (simp_all add: minus_mult_div_eq_mod [symmetric])
qed

lemma timeradd_sec:
  assumes "tv_ok a" "tv_ok b"
  shows "sint (tv_usec (evutil_timeradd a b)) = (sint (tv_usec a) + sint (tv_usec b)) mod 1000000"
    "tv_sec (evutil_timeradd a b) = tv_sec a + tv_sec b + of_int ((sint (tv_usec a) + sint (tv_usec b)) div 1000000)"
proof -
  have u: "sint (tv_usec a + tv_usec b) = sint (tv_usec a) + sint (tv_usec b)"
    using assms by (intro sint_plus_32) (auto simp: tv_ok_def)
  have u1: "sint (tv_usec a + tv_usec b - 1000000) = sint (tv_usec a) + sint (tv_usec b) - 1000000"
    using sint_minus_32 [of "tv_usec a + tv_usec b" 1000000] u assms by (auto simp: tv_ok_def)
  let ?u = "sint (tv_usec a) + sint (tv_usec b)"
  have "?u mod 1000000 = (if 1000000 \<le> ?u then ?u - 1000000 else ?u)"
    "?u div 1000000 = (if 1000000 \<le> ?u then 1 else 0)"
    using div_mod_carry [of ?u] assms by (simp_all add: tv_ok_def)
  then show "sint (tv_usec (evutil_timeradd a b)) = ?u mod 1000000"
    "tv_sec (evutil_timeradd a b) = tv_sec a + tv_sec b + of_int (?u div 1000000)"
    using u u1 by (simp_all add: evutil_timeradd_def Let_def)
qed

lemma whole_seconds:
  fixes t m :: int
  assumes "0 \<le> m" "m < 1000000"
  shows "t * 1000000 + m < 2 ^ 31 * 1000000 \<longleftrightarrow> t < 2 ^ 31"
  using assms by auto

lemma timeradd_exact:
  assumes "time_ok a" "tv_ok b"
  shows "usecs a + usecs b < 2 ^ 31 * 1000000 \<Longrightarrow> usecs (evutil_timeradd a b) = usecs a + usecs b"
    and "2 ^ 31 * 1000000 \<le> usecs a + usecs b \<Longrightarrow> usecs (evutil_timeradd a b) = usecs a + usecs b - 2 ^ 32 * 1000000"
proof -
  let ?u = "sint (tv_usec a) + sint (tv_usec b)" and ?s = "sint (tv_sec a) + sint (tv_sec b)"
  have ok: "tv_ok a" "0 \<le> sint (tv_sec a)" using assms(1) by (simp_all add: time_ok_def)
  let ?t = "?s + ?u div 1000000"
  have eq: "usecs a + usecs b = ?t * 1000000 + ?u mod 1000000"
    by (simp add: usecs_def algebra_simps)
  have w: "tv_sec a + tv_sec b + of_int (?u div 1000000) = (of_int ?t :: 32 word)" by simp
  have sec: "sint (tv_sec (evutil_timeradd a b)) = signed_take_bit 31 ?t"
    unfolding timeradd_sec(2) [OF ok(1) assms(2)] w sint_sbintrunc' by simp
  have res: "usecs (evutil_timeradd a b) = signed_take_bit 31 ?t * 1000000 + ?u mod 1000000"
    unfolding usecs_def [of "evutil_timeradd a b"] sec timeradd_sec(1) [OF ok(1) assms(2)] ..
  have m: "0 \<le> ?u mod 1000000" "?u mod 1000000 < 1000000" by simp_all
  have "?u div 1000000 = 0 \<or> ?u div 1000000 = 1"
    using div_mod_carry(2) [of ?u] ok assms(2) by (simp add: tv_ok_def)
  then have range: "- (2 ^ 31) \<le> ?t" "?t < 2 ^ 32"
    using ok(2) sint_ge [of "tv_sec b"] sint_lt [of "tv_sec b"] sint_lt [of "tv_sec a"] by auto
  show "usecs (evutil_timeradd a b) = usecs a + usecs b" if "usecs a + usecs b < 2 ^ 31 * 1000000"
  proof -
    have "?t < 2 ^ 31" using that unfolding eq whole_seconds [OF m] .
    with range(1) have "signed_take_bit 31 ?t = ?t" by (simp add: signed_take_bit_int_eq_self)
    with res eq show ?thesis by simp
  qed
  show "usecs (evutil_timeradd a b) = usecs a + usecs b - 2 ^ 32 * 1000000" if "2 ^ 31 * 1000000 \<le> usecs a + usecs b"
  proof -
    have "2 ^ 31 \<le> ?t" using that unfolding eq not_less [symmetric] whole_seconds [OF m] .
    then have "signed_take_bit 31 (?t - 2 ^ 32) = ?t - 2 ^ 32"
      using range(2) by (intro signed_take_bit_int_eq_self) simp_all
    moreover have "signed_take_bit 31 (?t - 2 ^ 32) = signed_take_bit 31 ?t"
      by (rule signed_take_bit_eq_iff_take_bit_eq [THEN iffD2]) (simp add: take_bit_eq_mod)
    ultimately have "signed_take_bit 31 ?t = ?t - 2 ^ 32" by simp
    with res eq show ?thesis by simp
  qed
qed

lemma timersub_usecs:
  assumes "tv_ok a" "tv_ok b" "tv_small a" "tv_small b"
  shows "tv_ok (evutil_timersub a b)" "usecs (evutil_timersub a b) = usecs a - usecs b"
proof -
  have s: "sint (tv_sec a - tv_sec b) = sint (tv_sec a) - sint (tv_sec b)"
    using assms by (intro sint_minus_32) (auto simp: tv_small_def)
  have u: "sint (tv_usec a - tv_usec b) = sint (tv_usec a) - sint (tv_usec b)"
    using assms by (intro sint_minus_32) (auto simp: tv_ok_def)
  have s1: "sint (tv_sec a - tv_sec b - 1) = sint (tv_sec a) - sint (tv_sec b) - 1"
    using sint_minus_32 [of "tv_sec a - tv_sec b" 1] s assms by (auto simp: tv_small_def)
  have u1: "sint (tv_usec a - tv_usec b + 1000000) = sint (tv_usec a) - sint (tv_usec b) + 1000000"
    using sint_plus_32 [of "tv_usec a - tv_usec b" 1000000] u assms by (auto simp: tv_ok_def)
  show "tv_ok (evutil_timersub a b)" "usecs (evutil_timersub a b) = usecs a - usecs b"
    using assms u u1 s s1 by (auto simp: evutil_timersub_def Let_def tv_ok_def usecs_def)
qed

end
