(* ===== verification/Evtag.thy ===== *)
theory Evtag
  imports Evbuffer_Stream Evbuffer_Move Ev_Time
begin

unbundle bit_operations_syntax

text \<open>
  Tagged data, \<open>event_tagging.c\<close>: the encoding of tags and integers, marshalling into an evbuffer and
  unmarshalling from it. Results are the C return value, what is stored through each pointer argument
  (\<open>None\<close> when nothing is), and the buffer. The byte pointer that \<open>evbuffer_pullup\<close> returns is the
  memory that can be read through it; reading past it is \<open>Out_Of_Bounds\<close>.
\<close>

section \<open>Encoding\<close>

text \<open>The loop of \<open>ENCODE_INT_INTERNAL\<close> over the array \<open>data\<close>, for both widths.\<close>

function encode_nibbles :: "'a::len word \<Rightarrow> nat \<Rightarrow> byte list \<Rightarrow> (nat \<times> byte list) exec" where
  "encode_nibbles number off data =
     (if number = 0 then Inr (off, data)
      else if length data \<le> off div 2 then Inl Out_Of_Bounds
      else let d = data ! (off div 2);
               nib = ucast (number AND 0x0f);
               d' = (if odd off then (d AND 0xf0) OR nib else (d AND 0x0f) OR push_bit 4 nib)
           in encode_nibbles (drop_bit 4 number) (Suc off) (data[off div 2 := d']))"
  by pat_completeness auto

termination
  by (relation "measure (\<lambda>(number, _, _). unat number)") (auto simp: unat_shift_right_less)

declare encode_nibbles.simps [simp del]

text \<open>
  \<open>ENCODE_INT_INTERNAL\<close> on \<open>sizeof(number) + 1\<close> zeroed bytes: the number of bytes used and the array.
\<close>

definition ENCODE_INT_INTERNAL :: "nat \<Rightarrow> 'a::len word \<Rightarrow> (nat \<times> byte list) exec" where
  "ENCODE_INT_INTERNAL sizeof_number number =
     bindE (encode_nibbles number 1 (replicate (sizeof_number + 1) 0))
       (\<lambda>(off, data).
          let nibbles = (if off > 2 then off - 2 else 0) in
          Inr ((off + 1) div 2,
               data[0 := (data ! 0 AND 0x0f) OR push_bit 4 (of_nat nibbles AND 0x0f)]))"

definition encode_int_internal :: "32 word \<Rightarrow> (nat \<times> byte list) exec" where
  "encode_int_internal = ENCODE_INT_INTERNAL 4"

definition encode_int64_internal :: "64 word \<Rightarrow> (nat \<times> byte list) exec" where
  "encode_int64_internal = ENCODE_INT_INTERNAL 8"

definition evtag_encode_int :: "allocator \<Rightarrow> evbuffer \<Rightarrow> 32 word \<Rightarrow> evbuffer exec" where
  "evtag_encode_int mm_malloc evbuf number =
     bindE (encode_int_internal number)
       (\<lambda>(len, data). bindE (evbuffer_add mm_malloc evbuf (take len data)) (\<lambda>(_, evbuf). Inr evbuf))"

definition evtag_encode_int64 :: "allocator \<Rightarrow> evbuffer \<Rightarrow> 64 word \<Rightarrow> evbuffer exec" where
  "evtag_encode_int64 mm_malloc evbuf number =
     bindE (encode_int64_internal number)
       (\<lambda>(len, data). bindE (evbuffer_add mm_malloc evbuf (take len data)) (\<lambda>(_, evbuf). Inr evbuf))"

text \<open>The loop of \<open>evtag_encode_tag\<close>: the bytes it stores in \<open>data[5]\<close>, seven bits each.\<close>

function encode_tag_loop :: "32 word \<Rightarrow> byte list" where
  "encode_tag_loop tag =
     (let lower = ucast (tag AND 0x7f); tag = drop_bit 7 tag in
      if tag \<noteq> 0 then (lower OR 0x80) # encode_tag_loop tag else [lower])"
  by pat_completeness auto

termination
  by (relation "measure unat") (auto intro!: unat_shift_right_less)

declare encode_tag_loop.simps [simp del]

text \<open>\<open>evbuf\<close> may be null: then only the number of bytes is wanted.\<close>

definition evtag_encode_tag ::
    "allocator \<Rightarrow> evbuffer option \<Rightarrow> 32 word \<Rightarrow> (nat \<times> evbuffer option) exec" where
  "evtag_encode_tag mm_malloc evbuf tag =
     (let data = encode_tag_loop tag in
      if 5 < length data then Inl Out_Of_Bounds
      else case evbuf of
             None \<Rightarrow> Inr (length data, None)
           | Some b \<Rightarrow> bindE (evbuffer_add mm_malloc b data) (\<lambda>(_, b). Inr (length data, Some b)))"

text \<open>The calls with a buffer, whose result is not used.\<close>

definition put_tag :: "allocator \<Rightarrow> evbuffer \<Rightarrow> 32 word \<Rightarrow> evbuffer exec" where
  "put_tag mm_malloc evbuf tag =
     bindE (evtag_encode_tag mm_malloc (Some evbuf) tag)
       (\<lambda>(_, b). case b of None \<Rightarrow> Inl Null_Deref | Some b \<Rightarrow> Inr b)"

section \<open>Decoding\<close>

text \<open>
  The loop of \<open>decode_tag_internal\<close>: \<open>n\<close> is how often it may still run. The result says whether it
  found the last byte of the tag, how many bytes it read and the number.
\<close>

fun decode_tag_loop ::
    "byte list option \<Rightarrow> nat \<Rightarrow> nat \<Rightarrow> nat \<Rightarrow> 32 word \<Rightarrow> (bool \<times> nat \<times> 32 word) exec" where
  "decode_tag_loop data 0 count shift number = Inr (False, Suc count, number)"
| "decode_tag_loop data (Suc n) count shift number =
     (case data of
        None \<Rightarrow> Inl Null_Deref
      | Some [] \<Rightarrow> Inl Out_Of_Bounds
      | Some (lower # data) \<Rightarrow>
          if 32 \<le> shift then Inl Undefined_Shift
          else let number = number OR push_bit shift (ucast (lower AND 0x7f)) in
               if lower AND 0x80 = 0 then Inr (True, Suc count, number)
               else decode_tag_loop (Some data) n (Suc count) (shift + 7) number)"

definition decode_tag_internal ::
    "allocator \<Rightarrow> evbuffer \<Rightarrow> bool \<Rightarrow> (int \<times> 32 word option \<times> evbuffer) exec" where
  "decode_tag_internal mm_malloc evbuf dodrain =
     (let len = evbuffer_get_length evbuf in
      bindE (evbuffer_pullup mm_malloc evbuf (int (if len < 5 then len else 5)))
        (\<lambda>(data, evbuf).
           bindE (decode_tag_loop data len 0 0 0)
             (\<lambda>(done, count, number).
                if \<not> done then Inr (-1, None, evbuf)
                else bindE (if dodrain then evbuffer_drain evbuf count else Inr (0, evbuf))
                       (\<lambda>(_, evbuf).
                          Inr (if count > SSIZE_MAX then int SSIZE_MAX else int count,
                               Some number, evbuf)))))"

definition evtag_decode_tag :: "allocator \<Rightarrow> evbuffer \<Rightarrow> (int \<times> 32 word option \<times> evbuffer) exec" where
  "evtag_decode_tag mm_malloc evbuf = decode_tag_internal mm_malloc evbuf True"

text \<open>The loop of \<open>DECODE_INT_INTERNAL\<close>, for both widths.\<close>

fun decode_nibbles :: "nat \<Rightarrow> byte list \<Rightarrow> 'a::len word \<Rightarrow> 'a word exec" where
  "decode_nibbles 0 data number = Inr number"
| "decode_nibbles (Suc j) data number =
     (let i = Suc j div 2 in
      if length data \<le> i then Inl Out_Of_Bounds
      else decode_nibbles j data
             (push_bit 4 number OR
              ucast (if odd (Suc j) then data ! i AND 0x0f else drop_bit 4 (data ! i AND 0xf0))))"

text \<open>Reading at \<open>data + offset\<close>, where \<open>data\<close> is what \<open>evbuffer_pullup\<close> returned.\<close>

definition at_offset :: "byte list option \<Rightarrow> nat \<Rightarrow> byte list exec" where
  "at_offset data offset =
     (case data of
        None \<Rightarrow> Inl Null_Deref
      | Some bs \<Rightarrow> if length bs \<le> offset then Inl Out_Of_Bounds else Inr (drop offset bs))"

text \<open>The count of nibbles in the first byte, less one.\<close>

definition first_nibble :: "byte list \<Rightarrow> nat" where
  "first_nibble data = unat (drop_bit 4 (data ! 0 AND 0xf0))"

definition DECODE_INT_INTERNAL ::
    "nat \<Rightarrow> allocator \<Rightarrow> evbuffer \<Rightarrow> nat \<Rightarrow> (int \<times> 'a::len word option \<times> evbuffer) exec" where
  "DECODE_INT_INTERNAL maxnibbles mm_malloc evbuf offset =
     (let len = to_ssize (subz (evbuffer_get_length evbuf) offset) in
      if len \<le> 0 then Inr (-1, None, evbuf)
      else
        bindE (evbuffer_pullup mm_malloc evbuf (int (offset + 1)))
          (\<lambda>(data, evbuf).
             bindE (at_offset data offset)
               (\<lambda>data.
                  let nibbles = first_nibble data + 1 in
                  if nibbles > maxnibbles \<or> int (nibbles div 2 + 1) > len then Inr (-1, None, evbuf)
                  else
                    let len = nibbles div 2 + 1 in
                    bindE (evbuffer_pullup mm_malloc evbuf (int (offset + len)))
                      (\<lambda>(data, evbuf).
                         bindE (at_offset data offset)
                           (\<lambda>data.
                              bindE (decode_nibbles nibbles data 0)
                                (\<lambda>number. Inr (int len, Some number, evbuf)))))))"

definition decode_int_internal ::
    "allocator \<Rightarrow> evbuffer \<Rightarrow> nat \<Rightarrow> (int \<times> 32 word option \<times> evbuffer) exec" where
  "decode_int_internal = DECODE_INT_INTERNAL 8"

definition decode_int64_internal ::
    "allocator \<Rightarrow> evbuffer \<Rightarrow> nat \<Rightarrow> (int \<times> 64 word option \<times> evbuffer) exec" where
  "decode_int64_internal = DECODE_INT_INTERNAL 16"

text \<open>\<open>evtag_decode_int\<close> and \<open>evtag_decode_int64\<close> after their call of the decoder.\<close>

definition decoded_int ::
    "(int \<times> 'a option \<times> evbuffer) exec \<Rightarrow> (int \<times> 'a option \<times> evbuffer) exec" where
  "decoded_int dec =
     bindE dec
       (\<lambda>(res, pnumber, evbuf).
          if res \<noteq> -1
          then bindE (evbuffer_drain evbuf (nat res)) (\<lambda>(_, evbuf). Inr (0, pnumber, evbuf))
          else Inr (-1, pnumber, evbuf))"

definition evtag_decode_int :: "allocator \<Rightarrow> evbuffer \<Rightarrow> (int \<times> 32 word option \<times> evbuffer) exec" where
  "evtag_decode_int mm_malloc evbuf = decoded_int (decode_int_internal mm_malloc evbuf 0)"

definition evtag_decode_int64 :: "allocator \<Rightarrow> evbuffer \<Rightarrow> (int \<times> 64 word option \<times> evbuffer) exec" where
  "evtag_decode_int64 mm_malloc evbuf = decoded_int (decode_int64_internal mm_malloc evbuf 0)"


section \<open>Marshalling\<close>

text \<open>\<open>evbuffer_add\<close> as a statement, its result not looked at.\<close>

definition put_bytes :: "allocator \<Rightarrow> evbuffer \<Rightarrow> byte list \<Rightarrow> evbuffer exec" where
  "put_bytes mm_malloc evbuf data = bindE (evbuffer_add mm_malloc evbuf data) (\<lambda>(_, evbuf). Inr evbuf)"

text \<open>\<open>len\<close> is the length of \<open>data\<close>, in 32 bits.\<close>

definition evtag_marshal :: "allocator \<Rightarrow> evbuffer \<Rightarrow> 32 word \<Rightarrow> byte list \<Rightarrow> evbuffer exec" where
  "evtag_marshal mm_malloc evbuf tag data =
     bindE (put_tag mm_malloc evbuf tag)
       (\<lambda>evbuf. bindE (evtag_encode_int mm_malloc evbuf (of_nat (length data)))
         (\<lambda>evbuf. put_bytes mm_malloc evbuf data))"

definition evtag_marshal_buffer ::
    "allocator \<Rightarrow> evbuffer \<Rightarrow> 32 word \<Rightarrow> evbuffer \<Rightarrow> (evbuffer \<times> evbuffer) exec" where
  "evtag_marshal_buffer mm_malloc evbuf tag data =
     bindE (put_tag mm_malloc evbuf tag)
       (\<lambda>evbuf. bindE (evtag_encode_int mm_malloc evbuf (of_nat (evbuffer_get_length data)))
         (\<lambda>evbuf. bindE (evbuffer_add_buffer mm_malloc evbuf data)
           (\<lambda>(_, evbuf, data). Inr (evbuf, data))))"

definition evtag_marshal_int :: "allocator \<Rightarrow> evbuffer \<Rightarrow> 32 word \<Rightarrow> 32 word \<Rightarrow> evbuffer exec" where
  "evtag_marshal_int mm_malloc evbuf tag integer =
     bindE (encode_int_internal integer)
       (\<lambda>(len, data).
          bindE (put_tag mm_malloc evbuf tag)
            (\<lambda>evbuf. bindE (evtag_encode_int mm_malloc evbuf (of_nat len))
              (\<lambda>evbuf. put_bytes mm_malloc evbuf (take len data))))"

definition evtag_marshal_int64 :: "allocator \<Rightarrow> evbuffer \<Rightarrow> 32 word \<Rightarrow> 64 word \<Rightarrow> evbuffer exec" where
  "evtag_marshal_int64 mm_malloc evbuf tag integer =
     bindE (encode_int64_internal integer)
       (\<lambda>(len, data).
          bindE (put_tag mm_malloc evbuf tag)
            (\<lambda>evbuf. bindE (evtag_encode_int mm_malloc evbuf (of_nat len))
              (\<lambda>evbuf. put_bytes mm_malloc evbuf (take len data))))"

text \<open>A C string is the list of its bytes before the terminating null byte.\<close>

definition evtag_marshal_string :: "allocator \<Rightarrow> evbuffer \<Rightarrow> 32 word \<Rightarrow> byte list \<Rightarrow> evbuffer exec" where
  "evtag_marshal_string mm_malloc buf tag str = evtag_marshal mm_malloc buf tag str"

definition evtag_marshal_timeval :: "allocator \<Rightarrow> evbuffer \<Rightarrow> 32 word \<Rightarrow> timeval \<Rightarrow> evbuffer exec" where
  "evtag_marshal_timeval mm_malloc evbuf tag tv =
     bindE (encode_int_internal (tv_sec tv))
       (\<lambda>(len, data). bindE (encode_int_internal (tv_usec tv))
         (\<lambda>(len2, data2). evtag_marshal mm_malloc evbuf tag (take len data @ take len2 data2)))"

section \<open>Peeking\<close>

definition evtag_peek :: "allocator \<Rightarrow> evbuffer \<Rightarrow> (int \<times> 32 word option \<times> evbuffer) exec" where
  "evtag_peek mm_malloc evbuf = decode_tag_internal mm_malloc evbuf False"

text \<open>The common part of \<open>evtag_peek_length\<close> and \<open>evtag_payload_length\<close>; \<open>f\<close> is applied to the
  length stored, with the sizes of the encoded length and of the tag.\<close>

definition peek_length_with ::
    "(32 word \<Rightarrow> int \<Rightarrow> int \<Rightarrow> 32 word) \<Rightarrow> allocator \<Rightarrow> evbuffer \<Rightarrow> (int \<times> 32 word option \<times> evbuffer) exec" where
  "peek_length_with f mm_malloc evbuf =
     bindE (decode_tag_internal mm_malloc evbuf False)
       (\<lambda>(len, _, evbuf).
          if len = -1 then Inr (-1, None, evbuf)
          else bindE (decode_int_internal mm_malloc evbuf (nat len))
                 (\<lambda>(res, plength, evbuf).
                    if res = -1 then Inr (-1, plength, evbuf)
                    else Inr (0, map_option (\<lambda>l. f l res len) plength, evbuf)))"

definition evtag_peek_length :: "allocator \<Rightarrow> evbuffer \<Rightarrow> (int \<times> 32 word option \<times> evbuffer) exec" where
  "evtag_peek_length = peek_length_with (\<lambda>l res len. l + of_int (res + len))"

definition evtag_payload_length :: "allocator \<Rightarrow> evbuffer \<Rightarrow> (int \<times> 32 word option \<times> evbuffer) exec" where
  "evtag_payload_length = peek_length_with (\<lambda>l res len. l)"

section \<open>Unmarshalling\<close>

text \<open>The 32-bit length is returned as an \<open>int\<close>.\<close>

definition evtag_unmarshal_header ::
    "allocator \<Rightarrow> evbuffer \<Rightarrow> (int \<times> 32 word option \<times> evbuffer) exec" where
  "evtag_unmarshal_header mm_malloc evbuf =
     bindE (decode_tag_internal mm_malloc evbuf True)
       (\<lambda>(r, ptag, evbuf).
          if r = -1 then Inr (-1, ptag, evbuf)
          else bindE (evtag_decode_int mm_malloc evbuf)
                 (\<lambda>(r, len, evbuf).
                    case len of
                      None \<Rightarrow> Inr (-1, ptag, evbuf)
                    | Some len \<Rightarrow>
                        if r = -1 then Inr (-1, ptag, evbuf)
                        else if evbuffer_get_length evbuf < unat len then Inr (-1, ptag, evbuf)
                        else Inr (sint len, ptag, evbuf)))"

definition evtag_consume :: "allocator \<Rightarrow> evbuffer \<Rightarrow> (int \<times> evbuffer) exec" where
  "evtag_consume mm_malloc evbuf =
     bindE (evtag_unmarshal_header mm_malloc evbuf)
       (\<lambda>(len, _, evbuf).
          if len = -1 then Inr (-1, evbuf)
          else bindE (evbuffer_drain evbuf (to_size len)) (\<lambda>(_, evbuf). Inr (0, evbuf)))"

text \<open>
  \<open>evbuffer_add(dst, p, n)\<close> for a pointer \<open>p\<close>: a pointer behind which there are fewer than \<open>n\<close> bytes
  is noticed when \<open>evbuffer_add\<close> gets to the copying.
\<close>

definition evbuffer_add_from ::
    "allocator \<Rightarrow> evbuffer \<Rightarrow> byte list option \<Rightarrow> nat \<Rightarrow> (int \<times> evbuffer) exec" where
  "evbuffer_add_from mm_malloc dst p n =
     (let bs = (case p of None \<Rightarrow> [] | Some bs \<Rightarrow> bs) in
      if n \<le> length bs then evbuffer_add mm_malloc dst (take n bs)
      else bindE (evbuffer_add mm_malloc dst (replicate n 0))
             (\<lambda>(r, dst). if r = -1 then Inr (r, dst)
                         else Inl (if p = None then Null_Deref else Out_Of_Bounds)))"

definition evtag_unmarshal ::
    "allocator \<Rightarrow> evbuffer \<Rightarrow> evbuffer \<Rightarrow> (int \<times> 32 word option \<times> evbuffer \<times> evbuffer) exec" where
  "evtag_unmarshal mm_malloc src dst =
     bindE (evtag_unmarshal_header mm_malloc src)
       (\<lambda>(len, ptag, src).
          if len = -1 then Inr (-1, ptag, src, dst)
          else bindE (evbuffer_pullup mm_malloc src len)
                 (\<lambda>(p, src). bindE (evbuffer_add_from mm_malloc dst p (to_size len))
                   (\<lambda>(r, dst).
                      if r = -1 then Inr (-1, ptag, src, dst)
                      else bindE (evbuffer_drain src (to_size len))
                             (\<lambda>(_, src). Inr (len, ptag, src, dst)))))"

text \<open>The common text of \<open>evtag_unmarshal_int\<close> and \<open>evtag_unmarshal_int64\<close>.\<close>

definition unmarshal_int_with ::
    "(allocator \<Rightarrow> evbuffer \<Rightarrow> nat \<Rightarrow> (int \<times> 'a option \<times> evbuffer) exec)
     \<Rightarrow> allocator \<Rightarrow> evbuffer \<Rightarrow> 32 word \<Rightarrow> (int \<times> 'a option \<times> evbuffer) exec" where
  "unmarshal_int_with decode mm_malloc evbuf need_tag =
     bindE (decode_tag_internal mm_malloc evbuf True)
       (\<lambda>(r, tag, evbuf).
          if r = -1 then Inr (-1, None, evbuf)
          else if Some need_tag \<noteq> tag then Inr (-1, None, evbuf)
          else bindE (evtag_decode_int mm_malloc evbuf)
                 (\<lambda>(r, len, evbuf).
                    case len of
                      None \<Rightarrow> Inr (-1, None, evbuf)
                    | Some len \<Rightarrow>
                        if r = -1 then Inr (-1, None, evbuf)
                        else if evbuffer_get_length evbuf < unat len then Inr (-1, None, evbuf)
                        else bindE (decode mm_malloc evbuf 0)
                               (\<lambda>(result, pinteger, evbuf).
                                  bindE (evbuffer_drain evbuf (unat len))
                                    (\<lambda>(_, evbuf).
                                       Inr (if result < 0 \<or> nat result > unat len then -1 else result,
                                            pinteger, evbuf)))))"

definition evtag_unmarshal_int ::
    "allocator \<Rightarrow> evbuffer \<Rightarrow> 32 word \<Rightarrow> (int \<times> 32 word option \<times> evbuffer) exec" where
  "evtag_unmarshal_int = unmarshal_int_with decode_int_internal"

definition evtag_unmarshal_int64 ::
    "allocator \<Rightarrow> evbuffer \<Rightarrow> 32 word \<Rightarrow> (int \<times> 64 word option \<times> evbuffer) exec" where
  "evtag_unmarshal_int64 = unmarshal_int_with decode_int64_internal"

definition evtag_unmarshal_fixed ::
    "allocator \<Rightarrow> evbuffer \<Rightarrow> 32 word \<Rightarrow> nat \<Rightarrow> (int \<times> byte list \<times> evbuffer) exec" where
  "evtag_unmarshal_fixed mm_malloc src need_tag len =
     bindE (evtag_unmarshal_header mm_malloc src)
       (\<lambda>(tag_len, tag, src).
          if tag_len < 0 \<or> tag \<noteq> Some need_tag then Inr (-1, [], src)
          else if nat tag_len \<noteq> len then Inr (-1, [], src)
          else bindE (evbuffer_remove src len) (\<lambda>(_, data, src). Inr (0, data, src)))"

text \<open>The string is the memory block that was allocated for it.\<close>

definition evtag_unmarshal_string ::
    "allocator \<Rightarrow> evbuffer \<Rightarrow> 32 word \<Rightarrow> (int \<times> byte list option \<times> evbuffer) exec" where
  "evtag_unmarshal_string mm_malloc evbuf need_tag =
     bindE (evtag_unmarshal_header mm_malloc evbuf)
       (\<lambda>(tag_len, tag, evbuf).
          if tag_len = -1 \<or> tag \<noteq> Some need_tag then Inr (-1, None, evbuf)
          else case mm_malloc (to_size (tag_len + 1)) of
                 None \<Rightarrow> Inr (-1, None, evbuf)
               | Some (addr, mem) \<Rightarrow>
                   bindE (evbuffer_remove evbuf (to_size tag_len))
                     (\<lambda>(_, data, evbuf).
                        if tag_len < 0 then Inl Out_Of_Bounds
                        else Inr (0, Some ((mem_write 0 data mem)[nat tag_len := 0]), evbuf)))"

definition evtag_unmarshal_timeval ::
    "allocator \<Rightarrow> evbuffer \<Rightarrow> 32 word \<Rightarrow> timeval \<Rightarrow> (int \<times> timeval \<times> evbuffer) exec" where
  "evtag_unmarshal_timeval mm_malloc evbuf need_tag ptv =
     bindE (evtag_unmarshal_header mm_malloc evbuf)
       (\<lambda>(len, tag, evbuf).
          if len = -1 then Inr (-1, ptv, evbuf)
          else bindE
                 (if tag \<noteq> Some need_tag then Inr (-1, ptv, evbuf)
                  else bindE (decode_int_internal mm_malloc evbuf 0)
                         (\<lambda>(offset, integer, evbuf).
                            if offset = -1 then Inr (-1, ptv, evbuf)
                            else let ptv = (case integer of None \<Rightarrow> ptv | Some i \<Rightarrow> Timeval i (tv_usec ptv)) in
                                 bindE (decode_int_internal mm_malloc evbuf (nat offset))
                                   (\<lambda>(offset2, integer, evbuf).
                                      if offset2 = -1 then Inr (-1, ptv, evbuf)
                                      else let ptv = (case integer of None \<Rightarrow> ptv
                                                      | Some i \<Rightarrow> Timeval (tv_sec ptv) i)
                                           in Inr (if offset + offset2 > len then -1 else 0, ptv, evbuf))))
                 (\<lambda>(result, ptv, evbuf).
                    bindE (evbuffer_drain evbuf (to_size len))
                      (\<lambda>(_, evbuf). Inr (result, ptv, evbuf))))"

end
