(* ===== verification/Evtag_Codec.thy ===== *)
theory Evtag_Codec
  imports Evtag
begin

unbundle bit_operations_syntax

text \<open>
  Correctness of tagging: what \<open>event_tagging.c\<close> writes into a buffer it reads back. The encoders of
  tags and integers are inverted by the decoders (a locale states the contract of such a pair and
  what follows for streams of values), and marshalled items are unmarshalled unchanged.
\<close>

section \<open>Nibbles\<close>

text \<open>The nibble that the decoder reads at position \<open>j\<close>; the number made of \<open>k\<close> of them from \<open>lo\<close> on.\<close>

definition nibble :: "byte list \<Rightarrow> nat \<Rightarrow> byte" where
  "nibble data j = (if odd j then data ! (j div 2) AND 0x0f else drop_bit 4 (data ! (j div 2) AND 0xf0))"

fun nib_val :: "byte list \<Rightarrow> nat \<Rightarrow> nat \<Rightarrow> 'a::len word" where
  "nib_val data lo 0 = 0"
| "nib_val data lo (Suc k) = push_bit 4 (nib_val data (Suc lo) k) OR ucast (nibble data lo)"

lemma low_mask: "(0x0f :: 'a::len word) = mask 4" "(0xf0 :: byte) = push_bit 4 (mask 4)"
  by (simp_all add: mask_eq_exp_minus_1)

lemma nibble_facts:
  fixes d nib :: byte
  assumes "nib AND 0x0f = nib"
  shows "((d AND 0xf0) OR nib) AND 0x0f = nib"
    and "drop_bit 4 (((d AND 0xf0) OR nib) AND 0xf0) = drop_bit 4 (d AND 0xf0)"
    and "((d AND 0x0f) OR push_bit 4 nib) AND 0x0f = d AND 0x0f"
    and "drop_bit 4 (((d AND 0x0f) OR push_bit 4 nib) AND 0xf0) = nib"
proof -
  have nib: "bit nib n \<Longrightarrow> n < 4" for n
    using arg_cong [OF assms, of "\<lambda>w. bit w n"] by (simp add: low_mask bit_simps)
  show "((d AND 0xf0) OR nib) AND 0x0f = nib"
    by (intro bit_word_eqI) (use nib in \<open>auto simp: low_mask bit_simps\<close>)
  show "drop_bit 4 (((d AND 0xf0) OR nib) AND 0xf0) = drop_bit 4 (d AND 0xf0)"
    by (intro bit_word_eqI) (use nib in \<open>fastforce simp: low_mask bit_simps\<close>)
  show "((d AND 0x0f) OR push_bit 4 nib) AND 0x0f = d AND 0x0f"
    by (intro bit_word_eqI) (auto simp: low_mask bit_simps)
  show "drop_bit 4 (((d AND 0x0f) OR push_bit 4 nib) AND 0xf0) = nib"
    by (intro bit_word_eqI) (use nib in \<open>auto simp: low_mask bit_simps\<close>)
qed

lemma nibble_update:
  assumes "off div 2 < length data" and "nib AND 0x0f = nib"
  shows "nibble (data[off div 2 := (if odd off then (data ! (off div 2) AND 0xf0) OR nib
                                    else (data ! (off div 2) AND 0x0f) OR push_bit 4 nib)]) j
       = (if j = off then nib else nibble data j)"
proof (cases "j div 2 = off div 2")
  case False
  then show ?thesis by (auto simp: nibble_def)
next
  case True
  then have same: "(odd j \<longleftrightarrow> odd off) \<longleftrightarrow> j = off"
    by (metis div_mod_decomp even_iff_mod_2_eq_zero odd_iff_mod_2_eq_one)
  show ?thesis
    using True same assms(1) nibble_facts [OF assms(2), of "data ! (off div 2)"]
    by (auto simp: nibble_def)
qed

lemma nib_val_cong: "(\<And>j. lo \<le> j \<Longrightarrow> j < lo + k \<Longrightarrow> nibble d j = nibble e j) \<Longrightarrow> nib_val d lo k = nib_val e lo k"
  by (induction k arbitrary: lo) auto

lemma word_low_high:
  "push_bit 4 (drop_bit 4 x) OR ucast (ucast (x AND 0x0f) :: byte) = (x :: 'a::len word)"
proof (rule bit_word_eqI)
  fix n
  assume "n < LENGTH('a)"
  then show "bit (push_bit 4 (drop_bit 4 x) OR ucast (ucast (x AND 0x0f) :: byte)) n = bit x n"
    by (cases "n < 4") (auto simp: low_mask bit_simps)
qed

lemma decode_nibbles_val:
  "j div 2 < length data
   \<Longrightarrow> decode_nibbles j data (nib_val data (Suc j) m) = Inr (nib_val data 1 (j + m))"
proof (induction j arbitrary: m)
  case 0
  then show ?case by simp
next
  case (Suc j)
  then have "j div 2 < length data" by (meson div_le_mono le_SucI le_refl order_le_less_trans)
  from Suc.IH [OF this, of "Suc m"] Suc.prems show ?case
    by (simp add: nibble_def Let_def)
qed

section \<open>Integers\<close>

lemma encode_nibbles_spec:
  "unat number < 16 ^ (2 * length data - off) \<Longrightarrow> off \<le> 2 * length data
   \<Longrightarrow> \<exists>k data'. encode_nibbles number off data = Inr (off + k, data') \<and> length data' = length data
         \<and> off + k \<le> 2 * length data \<and> (\<forall>j<off. nibble data' j = nibble data j)
         \<and> nib_val data' off k = number \<and> (number = 0 \<longrightarrow> k = 0 \<and> data' = data)
         \<and> (\<forall>n. unat number < 16 ^ n \<longrightarrow> k \<le> n)"
proof (induction number off data rule: encode_nibbles.induct)
  case (1 number off data)
  show ?case
  proof (cases "number = 0")
    case True
    then show ?thesis by (subst encode_nibbles.simps) (use "1.prems" in auto)
  next
    case False
    let ?nib = "ucast (number AND 0x0f) :: byte"
    let ?d = "data[off div 2 := (if odd off then (data ! (off div 2) AND 0xf0) OR ?nib
                                 else (data ! (off div 2) AND 0x0f) OR push_bit 4 ?nib)]"
    have off: "off < 2 * length data"
      using "1.prems" False by (cases "off = 2 * length data") (auto simp: unat_eq_0)
    then have i: "off div 2 < length data" by auto
    have nib: "?nib AND 0x0f = ?nib" by (intro bit_word_eqI) (auto simp: low_mask bit_simps)
    have "2 * length data - off = Suc (2 * length data - Suc off)" using off by simp
    with "1.prems"(1) have "unat number < 16 ^ (2 * length data - Suc off) * 16" by simp
    then have small: "unat (drop_bit 4 number) < 16 ^ (2 * length data - Suc off)"
      by (simp add: unat_shift_right less_mult_imp_div_less)
    have "\<exists>k data'. encode_nibbles (drop_bit 4 number) (Suc off) ?d = Inr (Suc off + k, data')
         \<and> length data' = length ?d \<and> Suc off + k \<le> 2 * length ?d
         \<and> (\<forall>j<Suc off. nibble data' j = nibble ?d j) \<and> nib_val data' (Suc off) k = drop_bit 4 number
         \<and> (drop_bit 4 number = 0 \<longrightarrow> k = 0 \<and> data' = ?d)
         \<and> (\<forall>n. unat (drop_bit 4 number) < 16 ^ n \<longrightarrow> k \<le> n)"
      using False i small off by (intro "1.IH" [OF False _ refl refl refl]) simp_all
    then obtain k data' where
      e: "encode_nibbles (drop_bit 4 number) (Suc off) ?d = Inr (Suc off + k, data')"
      and d': "length data' = length data" "Suc off + k \<le> 2 * length data"
        "\<forall>j<Suc off. nibble data' j = nibble ?d j" "nib_val data' (Suc off) k = drop_bit 4 number"
        "\<forall>n. unat (drop_bit 4 number) < 16 ^ n \<longrightarrow> k \<le> n"
      by auto
    have "encode_nibbles number off data = Inr (off + Suc k, data')"
      using False i e by (subst encode_nibbles.simps) (simp add: Let_def)
    moreover have "nib_val data' off (Suc k) = number"
      using d'(3,4) nibble_update [OF i nib, of off] word_low_high [of number] by simp
    moreover have "\<forall>j<off. nibble data' j = nibble data j"
      using d'(3) nibble_update [OF i nib] by simp
    moreover have "Suc k \<le> n" if "unat number < 16 ^ n" for n
    proof -
      from that False obtain i where n: "n = Suc i" by (cases n) (auto simp: unat_eq_0)
      with that have "unat (drop_bit 4 number) < 16 ^ i"
        by (simp add: unat_shift_right less_mult_imp_div_less)
      with d'(5) n show ?thesis by simp
    qed
    ultimately show ?thesis using d'(1,2) False by (intro exI [of _ "Suc k"] exI [of _ data']) simp
  qed
qed

text \<open>
  The bytes \<open>c\<close> encode \<open>number\<close> with at most \<open>maxn\<close> nibbles: the first nibble is their count less one,
  and the others, least significant first, are the number.
\<close>

definition int_encoded :: "nat \<Rightarrow> byte list \<Rightarrow> 'a::len word \<Rightarrow> bool" where
  "int_encoded maxn c number \<longleftrightarrow>
     (\<exists>k. 0 < k \<and> k \<le> maxn \<and> length c = k div 2 + 1 \<and> unat (nibble c 0) = k - 1 \<and> nib_val c 1 k = number)"

lemma encode_int_spec:
  fixes number :: "'a::len word"
  assumes len: "LENGTH('a) = 8 * sz" and sz: "0 < sz" "sz \<le> 8"
  shows "\<exists>n data. ENCODE_INT_INTERNAL sz number = Inr (n, data) \<and> n \<le> length data
           \<and> int_encoded (2 * sz) (take n data) number \<and> n \<le> sz + 1"
proof -
  let ?z = "replicate (sz + 1) 0 :: byte list"
  have "unat number < 2 ^ LENGTH('a)" by (rule unsigned_less)
  also have "\<dots> = (16 :: nat) ^ (2 * sz)" by (simp add: len power_mult)
  finally have lt: "unat number < 16 ^ (2 * sz)" .
  also have "(16 :: nat) ^ (2 * sz) \<le> 16 ^ (2 * length ?z - 1)" by (intro power_increasing) auto
  finally have "unat number < 16 ^ (2 * length ?z - 1)" .
  from encode_nibbles_spec [OF this] lt obtain k data where
    e: "encode_nibbles number 1 ?z = Inr (1 + k, data)" and d: "length data = sz + 1"
    "nib_val data 1 k = number" "number = 0 \<longrightarrow> k = 0 \<and> data = ?z" and k: "k \<le> 2 * sz"
    by auto
  let ?K = "max k 1" and ?nib = "of_nat (if 1 + k > 2 then 1 + k - 2 else 0) AND 0x0f :: byte"
  define data2 where "data2 = data[0 := (data ! 0 AND 0x0f) OR push_bit 4 ?nib]"
  let ?n = "k div 2 + 1"
  have nib: "?nib AND 0x0f = ?nib" by (simp add: and.assoc)
  have upd: "nibble data2 j = (if j = 0 then ?nib else nibble data j)" for j
    using nibble_update [of 0 data ?nib j] d(1) nib by (simp add: data2_def)
  define q where "q = ?K - 1"
  have q: "q < 16" "q = (if 1 + k > 2 then 1 + k - 2 else 0)" using k sz by (auto simp: q_def)
  have "?nib = take_bit 4 (of_nat q)" by (simp add: q(2) low_mask take_bit_eq_mask)
  then have "unat ?nib = take_bit 4 q"
    using q(1) by (simp add: unsigned_take_bit_eq unat_of_nat)
  also have "\<dots> = q" using q(1) by (intro take_bit_nat_eq_self) simp
  finally have hd: "unat ?nib = ?K - 1" by (simp add: q_def)
  have "nib_val data2 1 ?K = nib_val data 1 ?K" by (intro nib_val_cong) (simp add: upd)
  also have "\<dots> = number"
  proof (cases "k = 0")
    case True
    with d show ?thesis by (auto simp: nibble_def)
  next
    case False
    then have "?K = k" by simp
    with d(2) show ?thesis by simp
  qed
  finally have val: "nib_val data2 1 ?K = number" .
  have tk: "nibble (take ?n data2) j = nibble data2 j" if "j \<le> ?K" for j
    using that by (auto simp: nibble_def max_def split: if_splits intro!: arg_cong [where f = "\<lambda>w. w AND _"]
        nth_take div_le_mono le_imp_less_Suc)
  have n: "?n \<le> sz + 1" using k by auto
  have "int_encoded (2 * sz) (take ?n data2) number"
    unfolding int_encoded_def
  proof (intro exI [of _ ?K] conjI)
    show "nib_val (take ?n data2) 1 ?K = number"
      using val nib_val_cong [of 1 ?K "take ?n data2" data2] tk by auto
    show "unat (nibble (take ?n data2) 0) = ?K - 1" using tk [of 0] upd [of 0] hd by simp
    show "length (take ?n data2) = ?K div 2 + 1" using n d(1) by (auto simp: data2_def max_def)
  qed (use k sz in auto)
  moreover have "ENCODE_INT_INTERNAL sz number = Inr (?n, data2)"
    using e by (simp add: ENCODE_INT_INTERNAL_def data2_def Let_def)
  ultimately show ?thesis using n d(1) by (auto simp: data2_def)
qed


lemma int_encoded_prefix:
  fixes number :: "'a::len word"
  assumes "int_encoded maxn c number" and "take (length c) data = c"
  shows "decode_nibbles (unat (nibble c 0) + 1) data (0 :: 'a word) = Inr number"
proof -
  from assms(1) obtain k where k: "0 < k" "length c = k div 2 + 1" "unat (nibble c 0) = k - 1"
    "nib_val c 1 k = number" by (auto simp: int_encoded_def)
  have le: "length c \<le> length data" using arg_cong [OF assms(2), of length] by simp
  have "nibble data j = nibble c j" if "j < 1 + k" for j
  proof -
    have "j div 2 < length c" using that k(2) by (simp add: div_le_mono le_imp_less_Suc)
    then have "data ! (j div 2) = c ! (j div 2)" by (metis assms(2) nth_take)
    then show ?thesis by (simp add: nibble_def)
  qed
  then have "nib_val data 1 k = number" using k(4) nib_val_cong [of 1 k data c] by auto
  moreover have "decode_nibbles k data (nib_val data (Suc k) 0 :: 'a word) = Inr (nib_val data 1 (k + 0))"
    using k(2) le by (intro decode_nibbles_val) simp
  ultimately show ?thesis using k(1,3) by simp
qed

text \<open>The decoder at an offset behind which an encoded integer stands.\<close>

lemma decode_int_reads:
  assumes mem: "memory m" and rd: "readable b" and c: "contents b = pre @ c @ rest"
    and enc: "int_encoded maxn c number" and sz: "length (contents b) \<le> CHAIN_MAX"
  shows "\<exists>b'. DECODE_INT_INTERNAL maxn m b (length pre) = Inr (int (length c), Some number, b')
            \<and> readable b' \<and> contents b' = contents b"
proof -
  let ?o = "length pre"
  from enc obtain k where k: "0 < k" "k \<le> maxn" "length c = k div 2 + 1" "unat (nibble c 0) = k - 1"
    by (auto simp: int_encoded_def)
  have len: "evbuffer_get_length b = ?o + length c + length rest"
    using evb.len_law [OF rd] c by simp
  then have ss: "to_ssize (subz (evbuffer_get_length b) ?o) = int (length c + length rest)"
    using sz c CHAIN_MAX_SIZE_MOD by (simp add: subz_exact)
  from evb.pullup_nth [OF mem rd, of ?o "?o + 1"] sz c k(3) obtain p1 b1 where
    p1: "evbuffer_pullup m b (int (?o + 1)) = Inr (Some p1, b1)" "readable b1" "contents b1 = contents b"
      "?o < length p1" "p1 ! ?o = c ! 0"
    by (auto simp: nth_append)
  have "0 < ?o + length c" "?o + length c \<le> length (contents b1)" "?o + length c \<le> CHAIN_MAX"
    using k(3) sz c p1(3) by simp_all
  from evb.pullup_law [OF mem p1(2) this] obtain p2 b2 where
    p2: "evbuffer_pullup m b1 (int (?o + length c)) = Inr (Some p2, b2)" "readable b2"
      "contents b2 = contents b" "?o + length c \<le> length p2"
      "take (?o + length c) p2 = pre @ c"
    using c p1(3) by auto
  have tk: "take (length c) (drop ?o p2) = c"
    using arg_cong [OF p2(5), of "drop ?o"] by (simp add: drop_take)
  have hd: "first_nibble (drop ?o p1) = k - 1"
    using p1(4,5) k(4) by (simp add: nibble_def first_nibble_def)
  note dec = int_encoded_prefix [OF enc tk]
  show ?thesis
    using k ss p1 p2 dec
    by (simp add: DECODE_INT_INTERNAL_def at_offset_def Let_def hd add_ac)
qed

section \<open>Tags\<close>

text \<open>The bytes of a tag: at most five, the last one without the continuation bit.\<close>

lemma encode_tag_loop_unfold:
  "encode_tag_loop tag = (if drop_bit 7 tag \<noteq> 0
     then (ucast (tag AND 0x7f) OR 0x80) # encode_tag_loop (drop_bit 7 tag) else [ucast (tag AND 0x7f)])"
  by (subst encode_tag_loop.simps) (simp add: Let_def)

lemma encode_tag_length:
  "unat tag < 128 ^ n \<Longrightarrow> 0 < n \<Longrightarrow> length (encode_tag_loop tag) \<le> n"
proof (induction n arbitrary: tag)
  case 0
  then show ?case by simp
next
  case (Suc n)
  have "unat (drop_bit 7 tag) < 128 ^ n"
    using Suc.prems(1) by (simp add: unat_shift_right less_mult_imp_div_less mult.commute)
  with Suc.IH [of "drop_bit 7 tag"] show ?case
    by (subst encode_tag_loop_unfold) (cases "n = 0"; auto simp: unat_eq_0)
qed

lemma encode_tag_length_5: "length (encode_tag_loop tag) \<le> 5"
proof (rule encode_tag_length)
  have "unat tag < 2 ^ LENGTH(32)" by (rule unsigned_less)
  then show "unat tag < 128 ^ 5" by simp
qed simp

lemma encode_tag_nonempty [simp]: "encode_tag_loop tag \<noteq> []"
  by (subst encode_tag_loop_unfold) simp

lemma tag_byte_facts:
  fixes tag :: "32 word"
  shows "(ucast (tag AND 0x7f) OR 0x80 :: byte) AND 0x7f = ucast (tag AND 0x7f)"
    and "(ucast (tag AND 0x7f) OR 0x80 :: byte) AND 0x80 \<noteq> 0"
    and "(ucast (tag AND 0x7f) :: byte) AND 0x80 = 0"
    and "(ucast (tag AND 0x7f) :: byte) AND 0x7f = ucast (tag AND 0x7f)"
    and "ucast (ucast (tag AND 0x7f) :: byte) = tag AND 0x7f"
proof -
  have m: "(0x7f :: 'a::len word) = mask 7" by (simp add: mask_eq_exp_minus_1)
  have "(0x80 :: int) = 2 ^ 7" by simp
  then have h: "bit (0x80 :: int) n \<longleftrightarrow> n = 7" for n
    by (simp only: bit_exp_iff) auto
  show "(ucast (tag AND 0x7f) OR 0x80 :: byte) AND 0x7f = ucast (tag AND 0x7f)"
    by (intro bit_word_eqI) (auto simp: m h bit_simps)
  have "bit ((ucast (tag AND 0x7f) OR 0x80 :: byte) AND 0x80) 7" by (simp add: m h bit_simps)
  then show "(ucast (tag AND 0x7f) OR 0x80 :: byte) AND 0x80 \<noteq> 0" by auto
  show "(ucast (tag AND 0x7f) :: byte) AND 0x80 = 0"
    by (intro bit_word_eqI) (auto simp: m h bit_simps)
  show "(ucast (tag AND 0x7f) :: byte) AND 0x7f = ucast (tag AND 0x7f)"
    by (intro bit_word_eqI) (auto simp: m bit_simps)
  show "ucast (ucast (tag AND 0x7f) :: byte) = tag AND 0x7f"
    by (intro bit_word_eqI) (auto simp: m bit_simps)
qed

lemma tag_low_high:
  fixes tag :: "32 word"
  shows "push_bit s (tag AND 0x7f) OR push_bit (s + 7) (drop_bit 7 tag) = push_bit s tag"
proof (rule bit_word_eqI)
  fix n
  have m: "(0x7f :: 32 word) = mask 7" by (simp add: mask_eq_exp_minus_1)
  assume "n < LENGTH(32)"
  then show "bit (push_bit s (tag AND 0x7f) OR push_bit (s + 7) (drop_bit 7 tag)) n = bit (push_bit s tag) n"
    by (cases "n < s + 7") (auto simp: m bit_simps)
qed

text \<open>
  The decoding loop on an encoded tag. The shift stays below 32 because a tag shifted by \<open>s\<close> bits
  has at most \<open>32 - s\<close> significant bits.
\<close>

lemma decode_tag_loop_reads:
  assumes "unat tag < 2 ^ (32 - s)" and "s < 32" and "length (encode_tag_loop tag) \<le> n"
  shows "decode_tag_loop (Some (encode_tag_loop tag @ tail)) n count s number
       = Inr (True, count + length (encode_tag_loop tag), number OR push_bit s tag)"
  using assms
proof (induction tag arbitrary: n count s number rule: encode_tag_loop.induct)
  case (1 tag)
  obtain n' where n: "n = Suc n'" using "1.prems"(3) by (cases n) simp_all
  show ?case
  proof (cases "drop_bit 7 tag = 0")
    case True
    then have e: "encode_tag_loop tag = [ucast (tag AND 0x7f)]" by (subst encode_tag_loop_unfold) simp
    have t: "tag AND 0x7f = tag" using tag_low_high [of 0 tag] True by simp
    show ?thesis
      using "1.prems"(2) tag_byte_facts [of tag, unfolded t] by (simp add: e [unfolded t] n Let_def)
  next
    case False
    then have e: "encode_tag_loop tag = (ucast (tag AND 0x7f) OR 0x80) # encode_tag_loop (drop_bit 7 tag)"
      by (subst encode_tag_loop_unfold) simp
    have s: "s + 7 < 32"
    proof (rule ccontr)
      assume "\<not> s + 7 < 32"
      then have "(2::nat) ^ (32 - s) \<le> 2 ^ 7" by (intro power_increasing) simp_all
      with "1.prems"(1) have "unat tag div 2 ^ 7 = 0" by simp
      with False show False by (simp add: unat_shift_right flip: unat_eq_0)
    qed
    then have "32 - s = (32 - (s + 7)) + 7" by simp
    with "1.prems"(1) have "unat tag < 2 ^ (32 - (s + 7)) * 2 ^ 7" by (metis power_add)
    then have "unat (drop_bit 7 tag) < 2 ^ (32 - (s + 7))"
      by (simp only: unat_shift_right less_mult_imp_div_less)
    then have "decode_tag_loop (Some (encode_tag_loop (drop_bit 7 tag) @ tail)) n' (Suc count) (s + 7)
          (number OR push_bit s (tag AND 0x7f))
        = Inr (True, Suc count + length (encode_tag_loop (drop_bit 7 tag)),
               (number OR push_bit s (tag AND 0x7f)) OR push_bit (s + 7) (drop_bit 7 tag))"
      using "1.prems"(3) s False n e by (intro "1.IH" [OF refl refl]) simp_all
    with "1.prems"(2) show ?thesis
      by (simp add: e n tag_byte_facts Let_def or.assoc tag_low_high del: push_bit_and)
  qed
qed


lemma decode_tag_reads:
  assumes mem: "memory m" and rd: "readable b" and c: "contents b = encode_tag_loop tag @ rest"
  shows "\<exists>b'. decode_tag_internal m b dodrain = Inr (int (length (encode_tag_loop tag)), Some tag, b')
            \<and> readable b' \<and> contents b' = (if dodrain then rest else contents b)"
proof -
  let ?c = "encode_tag_loop tag" and ?len = "evbuffer_get_length b"
  let ?n = "if ?len < 5 then ?len else 5"
  have len: "?len = length ?c + length rest" using evb.len_law [OF rd] c by simp
  have c5: "length ?c \<le> 5" "0 < length ?c" using encode_tag_length_5 by simp_all
  have n: "0 < ?n" "?n \<le> length (contents b)" "?n \<le> CHAIN_MAX" "length ?c \<le> ?n"
    using len c c5 by (auto simp: CHAIN_MAX_def EVBUFFER_CHAIN_SIZE_def)
  from evb.pullup_law [OF mem rd n(1-3)] obtain p b1 where
    p: "evbuffer_pullup m b (int ?n) = Inr (Some p, b1)" "readable b1" "contents b1 = contents b"
      "?n \<le> length p" "take ?n p = take ?n (contents b)"
    by auto
  have "take (length ?c) p = take (length ?c) (take ?n p)" using n(4) by (simp add: min_absorb1)
  also have "\<dots> = ?c" using n(4) c by (simp add: p(5) min_absorb1)
  finally have "p = ?c @ drop (length ?c) p" by (metis append_take_drop_id)
  moreover have "unat tag < 2 ^ (32 - 0)" using unsigned_less [of tag] by simp
  ultimately have loop: "decode_tag_loop (Some p) ?len 0 0 0 = Inr (True, length ?c, tag)"
    using decode_tag_loop_reads [of tag 0 ?len "drop (length ?c) p" 0 0] len by simp
  from evb.drain_law [OF p(2), of "length ?c"] obtain b2 where
    b2: "evbuffer_drain b1 (length ?c) = Inr (0, b2)" "readable b2" "contents b2 = rest"
    using p(3) c by auto
  have "length ?c \<le> SSIZE_MAX" using c5 by (simp add: SSIZE_MAX_def)
  then show ?thesis
    using p loop b2 by (simp add: decode_tag_internal_def Let_def)
qed

section \<open>The contract of an encoder and its decoder\<close>

text \<open>
  A type of values with an encoder \<open>put\<close> that appends the code of a value to a buffer and a decoder
  \<open>get\<close> that takes it off the front again.
\<close>

locale value_codec =
  fixes env :: "'m \<Rightarrow> bool"
    and writable :: "'b \<Rightarrow> bool"
    and readable :: "'b \<Rightarrow> bool"
    and bytes :: "'b \<Rightarrow> byte list"
    and capacity :: nat
    and code :: "'v \<Rightarrow> byte list"
    and put :: "'m \<Rightarrow> 'b \<Rightarrow> 'v \<Rightarrow> 'b exec"
    and get :: "'m \<Rightarrow> 'b \<Rightarrow> (int \<times> 'v option \<times> 'b) exec"
  assumes reading_back: "writable b \<Longrightarrow> readable b"
    and put_law: "env m \<Longrightarrow> writable b \<Longrightarrow> length (bytes b) + length (code v) \<le> capacity
      \<Longrightarrow> \<exists>b'. put m b v = Inr b' \<and> writable b' \<and> bytes b' = bytes b @ code v"
    and get_law: "env m \<Longrightarrow> readable b \<Longrightarrow> bytes b = code v @ rest \<Longrightarrow> length (bytes b) \<le> capacity
      \<Longrightarrow> \<exists>r b'. get m b = Inr (r, Some v, b') \<and> 0 \<le> r \<and> readable b' \<and> bytes b' = rest"
begin

fun put_all :: "'m \<Rightarrow> 'b \<Rightarrow> 'v list \<Rightarrow> 'b exec" where
  "put_all m b [] = Inr b"
| "put_all m b (v # vs) = bindE (put m b v) (\<lambda>b. put_all m b vs)"

text \<open>Up to \<open>n\<close> values, as long as the decoder succeeds.\<close>

fun get_all :: "'m \<Rightarrow> nat \<Rightarrow> 'b \<Rightarrow> ('v list \<times> 'b) exec" where
  "get_all m 0 b = Inr ([], b)"
| "get_all m (Suc n) b =
     bindE (get m b)
       (\<lambda>(r, v, b). case v of
          None \<Rightarrow> Inr ([], b)
        | Some v \<Rightarrow> if r < 0 then Inr ([], b)
                    else bindE (get_all m n b) (\<lambda>(vs, b). Inr (v # vs, b)))"

lemma put_all_code:
  "env m \<Longrightarrow> writable b \<Longrightarrow> length (bytes b) + length (concat (map code vs)) \<le> capacity
   \<Longrightarrow> \<exists>b'. put_all m b vs = Inr b' \<and> writable b' \<and> bytes b' = bytes b @ concat (map code vs)"
proof (induction vs arbitrary: b)
  case Nil
  then show ?case by simp
next
  case (Cons v vs)
  from put_law [OF Cons.prems(1,2), of v] Cons.prems(3) obtain b1 where
    b1: "put m b v = Inr b1" "writable b1" "bytes b1 = bytes b @ code v" by auto
  from Cons.IH [OF Cons.prems(1) b1(2)] Cons.prems(3) b1 show ?case by auto
qed

lemma get_all_code:
  "env m \<Longrightarrow> readable b \<Longrightarrow> bytes b = concat (map code vs) @ rest \<Longrightarrow> length (bytes b) \<le> capacity
   \<Longrightarrow> \<exists>b'. get_all m (length vs) b = Inr (vs, b') \<and> readable b' \<and> bytes b' = rest"
proof (induction vs arbitrary: b)
  case Nil
  then show ?case by simp
next
  case (Cons v vs)
  from Cons.prems(3) have "bytes b = code v @ (concat (map code vs) @ rest)" by simp
  from get_law [OF Cons.prems(1,2) this Cons.prems(4)] obtain r b1 where
    b1: "get m b = Inr (r, Some v, b1)" "0 \<le> r" "readable b1" "bytes b1 = concat (map code vs) @ rest"
    by auto
  from Cons.IH [OF Cons.prems(1) b1(3,4)] Cons.prems(3,4) b1 show ?case by auto
qed

text \<open>A list of values written one after the other is read back in the same order.\<close>

lemma all_round_trip:
  assumes "env m" and "writable b" and "bytes b = []" and "length (concat (map code vs)) \<le> capacity"
  shows "\<exists>b1 b2. put_all m b vs = Inr b1 \<and> get_all m (length vs) b1 = Inr (vs, b2) \<and> bytes b2 = []"
proof -
  from put_all_code [OF assms(1,2)] assms(3,4) obtain b1 where
    b1: "put_all m b vs = Inr b1" "writable b1" "bytes b1 = concat (map code vs) @ []" by auto
  from get_all_code [OF assms(1) reading_back [OF b1(2)] b1(3)] assms(4) b1 show ?thesis by auto
qed

lemma round_trip:
  assumes "env m" and "writable b" and "bytes b = []" and "length (code v) \<le> capacity"
  shows "\<exists>b1 r b2. put m b v = Inr b1 \<and> get m b1 = Inr (r, Some v, b2) \<and> 0 \<le> r \<and> bytes b2 = []"
proof -
  from put_law [OF assms(1,2), of v] assms(3,4) obtain b1 where
    b1: "put m b v = Inr b1" "writable b1" "bytes b1 = code v @ []" by auto
  from get_law [OF assms(1) reading_back [OF b1(2)] b1(3)] assms(4) b1 show ?thesis by auto
qed

end

text \<open>The code of an integer.\<close>

definition int_code :: "nat \<Rightarrow> 'a::len word \<Rightarrow> byte list" where
  "int_code sz number = (case ENCODE_INT_INTERNAL sz number of Inl _ \<Rightarrow> [] | Inr (n, data) \<Rightarrow> take n data)"

lemma int_code_spec:
  fixes number :: "'a::len word"
  assumes "LENGTH('a) = 8 * sz" and "0 < sz" and "sz \<le> 8"
  obtains n data where "ENCODE_INT_INTERNAL sz number = Inr (n, data)" "int_code sz number = take n data"
    "int_encoded (2 * sz) (int_code sz number) number" "length (int_code sz number) = n" "0 < n" "n \<le> sz + 1"
proof -
  from encode_int_spec [OF assms, of number] obtain n data where
    e: "ENCODE_INT_INTERNAL sz number = Inr (n, data)" "n \<le> length data"
      "int_encoded (2 * sz) (take n data) number" "n \<le> sz + 1" by auto
  have c: "int_code sz number = take n data" using e(1) by (simp add: int_code_def)
  have "0 < n" using e(3) by (auto simp: int_encoded_def intro: ccontr)
  with e c show ?thesis by (intro that) simp_all
qed

lemma decoded_int_reads:
  assumes "memory m" and "readable b" and "contents b = int_code sz number @ rest"
    and "int_encoded maxn (int_code sz number) number" and "length (contents b) \<le> CHAIN_MAX"
  shows "\<exists>b'. decoded_int (DECODE_INT_INTERNAL maxn m b 0) = Inr (0, Some number, b')
            \<and> readable b' \<and> contents b' = rest"
proof -
  have "contents b = [] @ int_code sz number @ rest" using assms(3) by simp
  from decode_int_reads [OF assms(1,2) this assms(4,5)] obtain b1 where
    b1: "DECODE_INT_INTERNAL maxn m b 0 = Inr (int (length (int_code sz number)), Some number, b1)"
      "readable b1" "contents b1 = contents b" by auto
  from evb.drain_law [OF b1(2), of "length (int_code sz number)"] assms(3) b1
  show ?thesis by (auto simp: decoded_int_def)
qed

lemma put_tag_appends:
  assumes "memory m" and "writable b" and "length (contents b) + length (encode_tag_loop tag) \<le> CHAIN_MAX"
  shows "\<exists>b'. put_tag m b tag = Inr b' \<and> writable b' \<and> contents b' = contents b @ encode_tag_loop tag"
  using evb.add_law [OF assms(1,2) encode_tag_nonempty assms(3)] encode_tag_length_5 [of tag]
  by (auto simp: put_tag_def evtag_encode_tag_def Let_def)

lemma encode_int_appends:
  assumes "memory m" and "writable b" and "length (contents b) + length (int_code 4 number) \<le> CHAIN_MAX"
  shows "\<exists>b'. evtag_encode_int m b number = Inr b' \<and> writable b' \<and> contents b' = contents b @ int_code 4 number"
proof (rule int_code_spec [of 4 number], goal_cases)
  case (4 n data)
  then have "int_code 4 number \<noteq> []" by auto
  from evb.add_law [OF assms(1,2) this assms(3)] 4(1,2) show ?case
    by (auto simp: evtag_encode_int_def encode_int_internal_def)
qed simp_all

lemma encode_int64_appends:
  assumes "memory m" and "writable b" and "length (contents b) + length (int_code 8 number) \<le> CHAIN_MAX"
  shows "\<exists>b'. evtag_encode_int64 m b number = Inr b' \<and> writable b' \<and> contents b' = contents b @ int_code 8 number"
proof (rule int_code_spec [of 8 number], goal_cases)
  case (4 n data)
  then have "int_code 8 number \<noteq> []" by auto
  from evb.add_law [OF assms(1,2) this assms(3)] 4(1,2) show ?case
    by (auto simp: evtag_encode_int64_def encode_int64_internal_def)
qed simp_all

lemma int_encoded_32: "int_encoded 8 (int_code 4 number) (number :: 32 word)"
  by (rule int_code_spec [of 4 number]) simp_all

lemma int_encoded_64: "int_encoded 16 (int_code 8 number) (number :: 64 word)"
  by (rule int_code_spec [of 8 number]) simp_all

lemma get_tag:
  "memory m \<Longrightarrow> readable b \<Longrightarrow> contents b = encode_tag_loop v @ rest
   \<Longrightarrow> \<exists>r b'. evtag_decode_tag m b = Inr (r, Some v, b') \<and> 0 \<le> r \<and> readable b' \<and> contents b' = rest"
  using decode_tag_reads [of m b v rest True] by (auto simp: evtag_decode_tag_def)

lemma get_int:
  "memory m \<Longrightarrow> readable b \<Longrightarrow> contents b = int_code 4 v @ rest \<Longrightarrow> length (contents b) \<le> CHAIN_MAX
   \<Longrightarrow> \<exists>r b'. evtag_decode_int m b = Inr (r, Some v, b') \<and> 0 \<le> r \<and> readable b' \<and> contents b' = rest"
  using decoded_int_reads [OF _ _ _ int_encoded_32, of m b v rest]
  by (auto simp: evtag_decode_int_def decode_int_internal_def)

lemma get_int64:
  "memory m \<Longrightarrow> readable b \<Longrightarrow> contents b = int_code 8 v @ rest \<Longrightarrow> length (contents b) \<le> CHAIN_MAX
   \<Longrightarrow> \<exists>r b'. evtag_decode_int64 m b = Inr (r, Some v, b') \<and> 0 \<le> r \<and> readable b' \<and> contents b' = rest"
  using decoded_int_reads [OF _ _ _ int_encoded_64, of m b v rest]
  by (auto simp: evtag_decode_int64_def decode_int64_internal_def)

interpretation tag: value_codec memory writable readable contents CHAIN_MAX encode_tag_loop put_tag evtag_decode_tag
  by unfold_locales (simp_all add: writable_readable put_tag_appends get_tag)

interpretation int32: value_codec memory writable readable contents CHAIN_MAX "int_code 4"
    evtag_encode_int evtag_decode_int
  by unfold_locales (simp_all add: writable_readable encode_int_appends get_int)

interpretation int64: value_codec memory writable readable contents CHAIN_MAX "int_code 8"
    evtag_encode_int64 evtag_decode_int64
  by unfold_locales (simp_all add: writable_readable encode_int64_appends get_int64)


section \<open>Items\<close>

text \<open>An item on the wire: its tag, the length of its payload, and the payload.\<close>

definition item_code :: "32 word \<Rightarrow> byte list \<Rightarrow> byte list" where
  "item_code tag data = encode_tag_loop tag @ int_code 4 (of_nat (length data) :: 32 word) @ data"

lemma length_int_code_32: "length (int_code 4 (n :: 32 word)) \<le> 5"
  by (rule int_code_spec [of 4 n]) simp_all

lemma length_int_code_64: "length (int_code 8 (n :: 64 word)) \<le> 9"
  by (rule int_code_spec [of 8 n]) simp_all

lemma length_item_code: "length (item_code tag data) \<le> length data + 10"
  using encode_tag_length_5 [of tag] length_int_code_32 [of "of_nat (length data)"]
  by (simp add: item_code_def)

lemma put_bytes_appends:
  assumes "memory m" and "writable b" and "length (contents b) + length data \<le> CHAIN_MAX"
  shows "\<exists>b'. put_bytes m b data = Inr b' \<and> readable b' \<and> contents b' = contents b @ data
            \<and> (data \<noteq> [] \<longrightarrow> writable b')"
proof (cases "data = []")
  case False
  from evb.add_law [OF assms(1,2) False assms(3)] show ?thesis
    by (auto simp: put_bytes_def writable_readable)
next
  case True
  from assms(2) have b: "evbuffer_ok b" "no_spare b" "\<not> freeze_end b" "flags_sat UNPINNED b" "\<not> freeze_start b"
    by (simp_all add: writable_def readable_def)
  have "total_len b + length data < SIZE_MOD" "length data \<le> CHAIN_MAX"
    using True evbuffer_okD(3) [OF b(1)] by simp_all
  from evbuffer_add_any [OF _ b(1-3) this, of m] assms(1) obtain r b' where
    b': "evbuffer_add m b data = Inr (r, b')" "evbuffer_ok b'" "contents b' = contents b @ data"
    by (auto simp: runs_iff memory_def split: if_splits)
  from evbuffer_add_flags [OF b'(1) b(4)] evbuffer_add_freeze [OF b'(1)] b(5) b' True show ?thesis
    by (simp add: put_bytes_def readable_def)
qed

text \<open>Writing an item with the payload \<open>data\<close>, in the order in which all the functions do it.\<close>

lemma put_item:
  assumes mem: "memory m" and wr: "writable b"
    and sz: "length (contents b) + length data + 10 \<le> CHAIN_MAX"
  shows "\<exists>b'. bindE (put_tag m b tag)
           (\<lambda>b. bindE (evtag_encode_int m b (of_nat (length data))) (\<lambda>b. put_bytes m b data)) = Inr b'
         \<and> readable b' \<and> contents b' = contents b @ item_code tag data \<and> (data \<noteq> [] \<longrightarrow> writable b')"
proof -
  let ?n = "of_nat (length data) :: 32 word"
  note len = encode_tag_length_5 [of tag] length_int_code_32 [of ?n]
  from put_tag_appends [OF mem wr, of tag] sz len obtain b1 where
    b1: "put_tag m b tag = Inr b1" "writable b1" "contents b1 = contents b @ encode_tag_loop tag" by auto
  from encode_int_appends [OF mem b1(2), of ?n] sz len b1(3) obtain b2 where
    b2: "evtag_encode_int m b1 ?n = Inr b2" "writable b2" "contents b2 = contents b1 @ int_code 4 ?n" by auto
  from put_bytes_appends [OF mem b2(2), of data] sz len b1(3) b2(3) obtain b3 where
    b3: "put_bytes m b2 data = Inr b3" "readable b3" "contents b3 = contents b2 @ data"
      "data \<noteq> [] \<longrightarrow> writable b3" by auto
  with b1 b2 show ?thesis by (auto simp: item_code_def)
qed

lemma marshal_appends:
  assumes "memory m" and "writable b" and "length (contents b) + length data + 10 \<le> CHAIN_MAX"
  shows "\<exists>b'. evtag_marshal m b tag data = Inr b' \<and> readable b'
            \<and> contents b' = contents b @ item_code tag data \<and> (data \<noteq> [] \<longrightarrow> writable b')"
  using put_item [OF assms, of tag] by (simp add: evtag_marshal_def)

text \<open>Reading the header of an item.\<close>

lemma CHAIN_MAX_31: "CHAIN_MAX < 2 ^ 31"
  by (simp add: CHAIN_MAX_def EVBUFFER_CHAIN_SIZE_def)

lemma small_length:
  assumes "length data \<le> CHAIN_MAX"
  shows "unat (of_nat (length data) :: 32 word) = length data"
    and "sint (of_nat (length data) :: 32 word) = int (length data)"
    and "to_size (int (length data)) = length data"
proof -
  have lt: "length data < 2 ^ 31" using assms CHAIN_MAX_31 by simp
  then show un: "unat (of_nat (length data) :: 32 word) = length data"
    by (simp add: unat_of_nat)
  have "uint (of_nat (length data) :: 32 word) = int (length data)"
    using un by (metis uint_nat)
  then show "sint (of_nat (length data) :: 32 word) = int (length data)"
    using lt by (simp add: sint_uint signed_take_bit_int_eq_self)
  show "to_size (int (length data)) = length data"
    using lt by (simp add: to_size_int SIZE_MOD_def)
qed

lemma header_reads:
  assumes mem: "memory m" and rd: "readable b" and c: "contents b = item_code tag data @ rest"
    and sz: "length (contents b) \<le> CHAIN_MAX"
  shows "\<exists>b'. evtag_unmarshal_header m b = Inr (int (length data), Some tag, b')
            \<and> readable b' \<and> contents b' = data @ rest"
proof -
  let ?n = "of_nat (length data) :: 32 word"
  have ld: "length data \<le> CHAIN_MAX" using sz c by (simp add: item_code_def)
  have "contents b = encode_tag_loop tag @ (int_code 4 ?n @ data @ rest)"
    using c by (simp add: item_code_def)
  from decode_tag_reads [OF mem rd this, of True] obtain b1 where
    b1: "decode_tag_internal m b True = Inr (int (length (encode_tag_loop tag)), Some tag, b1)"
      "readable b1" "contents b1 = int_code 4 ?n @ data @ rest" by auto
  have "length (contents b1) \<le> CHAIN_MAX" using sz c b1(3) by (simp add: item_code_def)
  from get_int [OF mem b1(2,3) this] obtain r b2 where
    b2: "evtag_decode_int m b1 = Inr (r, Some ?n, b2)" "0 \<le> r" "readable b2" "contents b2 = data @ rest"
    by auto
  have "evbuffer_get_length b2 = length data + length rest" using evb.len_law [OF b2(3)] b2(4) by simp
  with b1 b2 small_length [OF ld] show ?thesis
    by (simp add: evtag_unmarshal_header_def)
qed

text \<open>Reading an item into another buffer.\<close>

lemma add_from_appends:
  assumes mem: "memory m" and wr: "writable dst" and bs: "take (length data) bs = data"
    and p: "data = [] \<and> p = None \<or> p = Some bs" and sz: "length (contents dst) + length data \<le> CHAIN_MAX"
  shows "\<exists>dst'. evbuffer_add_from m dst p (length data) = Inr (0, dst') \<and> readable dst'
            \<and> contents dst' = contents dst @ data"
proof -
  have "evbuffer_add_from m dst p (length data) = evbuffer_add m dst data"
    using p bs arg_cong [OF bs, of length] by (auto simp: evbuffer_add_from_def min_def split: if_splits)
  moreover obtain dst' where d: "put_bytes m dst data = Inr dst'" "readable dst'"
      "contents dst' = contents dst @ data"
    using put_bytes_appends [OF mem wr sz] by auto
  moreover from d(1) obtain r where r: "evbuffer_add m dst data = Inr (r, dst')"
    by (auto simp: put_bytes_def bindE_Inr_iff)
  moreover have "r = 0"
  proof -
    from wr have b: "evbuffer_ok dst" "no_spare dst" "\<not> freeze_end dst"
      by (simp_all add: writable_def readable_def)
    have "total_len dst + length data < SIZE_MOD" "length data \<le> CHAIN_MAX"
      using sz length_contents [OF b(1)] CHAIN_MAX_SIZE_MOD by simp_all
    from evbuffer_add_any [OF _ b this, of m] mem r show ?thesis
      by (auto simp: memory_def split: if_splits)
  qed
  ultimately show ?thesis by simp
qed

lemma unmarshal_reads:
  assumes mem: "memory m" and rd: "readable src" and c: "contents src = item_code tag data @ rest"
    and sz: "length (contents src) \<le> CHAIN_MAX"
    and wr: "writable dst" and szd: "length (contents dst) + length data \<le> CHAIN_MAX"
  shows "\<exists>src' dst'. evtag_unmarshal m src dst = Inr (int (length data), Some tag, src', dst')
           \<and> readable src' \<and> contents src' = rest \<and> readable dst' \<and> contents dst' = contents dst @ data"
proof -
  from header_reads [OF mem rd c sz] obtain b1 where
    b1: "evtag_unmarshal_header m src = Inr (int (length data), Some tag, b1)" "readable b1"
      "contents b1 = data @ rest" by auto
  have ld: "length data \<le> CHAIN_MAX" using szd by simp
  obtain p bs b2 where b2: "evbuffer_pullup m b1 (int (length data)) = Inr (p, b2)" "readable b2"
    "contents b2 = data @ rest" "take (length data) bs = data" "data = [] \<and> p = None \<or> p = Some bs"
  proof (cases "data = []")
    case True
    with b1 evb.pullup_nothing [of m b1] that [of None b1 "[]"] show ?thesis by simp
  next
    case False
    from evb.pullup_law [OF mem b1(2), of "length data"] False b1(3) ld that show ?thesis by auto
  qed
  from add_from_appends [OF mem wr b2(4,5) szd] obtain dst' where
    d: "evbuffer_add_from m dst p (length data) = Inr (0, dst')" "readable dst'"
      "contents dst' = contents dst @ data" by auto
  from evb.drain_law [OF b2(2), of "length data"] b2(3) obtain b3 where
    "evbuffer_drain b2 (length data) = Inr (0, b3)" "readable b3" "contents b3 = rest" by auto
  with b1 b2 d small_length(3) [OF ld] show ?thesis by (simp add: evtag_unmarshal_def)
qed


text \<open>Integers as payloads.\<close>

lemma marshal_int_appends:
  assumes mem: "memory m" and wr: "writable b" and sz: "length (contents b) + 15 \<le> CHAIN_MAX"
  shows "\<exists>b'. evtag_marshal_int m b tag n = Inr b' \<and> writable b'
            \<and> contents b' = contents b @ item_code tag (int_code 4 n)"
proof (rule int_code_spec [of 4 n], goal_cases)
  case (4 k data)
  then have "length (contents b) + length (int_code 4 n) + 10 \<le> CHAIN_MAX" using sz by simp
  from put_item [OF mem wr this, of tag] 4 show ?case
    by (auto simp: evtag_marshal_int_def encode_int_internal_def)
qed simp_all

lemma marshal_int64_appends:
  assumes mem: "memory m" and wr: "writable b" and sz: "length (contents b) + 20 \<le> CHAIN_MAX"
  shows "\<exists>b'. evtag_marshal_int64 m b tag n = Inr b' \<and> writable b'
            \<and> contents b' = contents b @ item_code tag (int_code 8 n)"
proof (rule int_code_spec [of 8 n], goal_cases)
  case (4 k data)
  then have "length (contents b) + length (int_code 8 n) + 10 \<le> CHAIN_MAX" using sz by simp
  from put_item [OF mem wr this, of tag] 4 show ?case
    by (auto simp: evtag_marshal_int64_def encode_int64_internal_def)
qed simp_all

text \<open>Both widths are read by the same text; \<open>maxn\<close> is 8 or 16.\<close>

lemma unmarshal_int_reads:
  assumes mem: "memory m" and rd: "readable b" and enc: "int_encoded maxn c n"
    and c: "contents b = item_code tag c @ rest" and sz: "length (contents b) \<le> CHAIN_MAX"
  shows "\<exists>b'. unmarshal_int_with (DECODE_INT_INTERNAL maxn) m b tag = Inr (int (length c), Some n, b')
            \<and> readable b' \<and> contents b' = rest"
proof -
  let ?n = "of_nat (length c) :: 32 word"
  have ld: "length c \<le> CHAIN_MAX" using sz c by (simp add: item_code_def)
  have "contents b = encode_tag_loop tag @ (int_code 4 ?n @ c @ rest)"
    using c by (simp add: item_code_def)
  from decode_tag_reads [OF mem rd this, of True] obtain b1 where
    b1: "decode_tag_internal m b True = Inr (int (length (encode_tag_loop tag)), Some tag, b1)"
      "readable b1" "contents b1 = int_code 4 ?n @ c @ rest" by auto
  have "length (contents b1) \<le> CHAIN_MAX" using sz c b1(3) by (simp add: item_code_def)
  from get_int [OF mem b1(2,3) this] obtain r b2 where
    b2: "evtag_decode_int m b1 = Inr (r, Some ?n, b2)" "0 \<le> r" "readable b2" "contents b2 = c @ rest"
    by auto
  have len2: "evbuffer_get_length b2 = length c + length rest"
    using evb.len_law [OF b2(3)] b2(4) by simp
  have "contents b2 = [] @ c @ rest" "length (contents b2) \<le> CHAIN_MAX"
    using b2(4) sz c by (simp_all add: item_code_def)
  from decode_int_reads [OF mem b2(3) this(1) enc this(2)] obtain b3 where
    b3: "DECODE_INT_INTERNAL maxn m b2 0 = Inr (int (length c), Some n, b3)" "readable b3"
      "contents b3 = c @ rest" using b2(4) by auto
  from evb.drain_law [OF b3(2), of "length c"] b3(3) obtain b4 where
    b4: "evbuffer_drain b3 (length c) = Inr (0, b4)" "readable b4" "contents b4 = rest" by auto
  show ?thesis
    using b1 b2 b3 b4 len2 small_length [OF ld] by (simp add: unmarshal_int_with_def)
qed

text \<open>A tag other than the wanted one is refused.\<close>

lemma unmarshal_int_other_tag:
  assumes mem: "memory m" and rd: "readable b" and c: "contents b = encode_tag_loop tag @ rest"
    and other: "need_tag \<noteq> tag"
  shows "\<exists>b'. unmarshal_int_with dec m b need_tag = Inr (-1, None, b') \<and> contents b' = rest"
  using decode_tag_reads [OF mem rd c, of True] other by (auto simp: unmarshal_int_with_def)

lemma int_item_read:
  assumes mem: "memory m" and rd: "readable b" and enc: "int_encoded maxn c n"
    and c: "contents b = item_code tag c" and sz: "length (contents b) \<le> CHAIN_MAX"
  shows "\<exists>r b'. unmarshal_int_with (DECODE_INT_INTERNAL maxn) m b need_tag
             = Inr (r, (if need_tag = tag then Some n else None), b')
           \<and> (r = -1 \<longleftrightarrow> need_tag \<noteq> tag) \<and> (need_tag = tag \<longrightarrow> contents b' = [])"
proof (cases "need_tag = tag")
  case True
  from c have "contents b = item_code tag c @ []" by simp
  from unmarshal_int_reads [OF mem rd enc this sz] True show ?thesis by auto
next
  case False
  from c have "contents b = encode_tag_loop tag @ (int_code 4 (of_nat (length c) :: 32 word) @ c)"
    by (simp add: item_code_def)
  from unmarshal_int_other_tag [OF mem rd this False] False show ?thesis by fastforce
qed

text \<open>Strings and times.\<close>

lemma unmarshal_string_reads:
  assumes mem: "memory m" and rd: "readable b" and c: "contents b = item_code tag str"
    and sz: "length (contents b) < CHAIN_MAX" and blk: "m (length str + 1) = Some (addr, blk)"
  shows "\<exists>b'. evtag_unmarshal_string m b tag = Inr (0, Some (str @ [0]), b') \<and> contents b' = []"
proof -
  from c have "contents b = item_code tag str @ []" by simp
  from header_reads [OF mem rd this] sz obtain b1 where
    b1: "evtag_unmarshal_header m b = Inr (int (length str), Some tag, b1)" "readable b1" "contents b1 = str"
    by auto
  have ls: "length str + 1 \<le> CHAIN_MAX" using sz c by (simp add: item_code_def)
  then have "length str \<le> SSIZE_MAX" using CHAIN_MAX_SIZE_MOD by simp
  from readable_remove [OF b1(2) _ this] b1(3) obtain b2 where
    b2: "evbuffer_remove b1 (length str) = Inr (int (length str), str, b2)" "contents b2 = []" by auto
  have size: "to_size (int (length str)) = length str" "to_size (int (length str) + 1) = length str + 1"
    using small_length(3) [of str] small_length(3) [of "str @ [0]"] ls by (simp_all add: add.commute)
  have "length blk = Suc (length str)" using mem blk by (simp add: memory_def malloc_ok_def)
  then obtain x where "drop (length str) blk = [x]"
    by (metis Cons_nth_drop_Suc drop_all le_refl lessI)
  then have "(mem_write 0 str blk)[length str := 0] = str @ [0]"
    by (simp add: mem_write_def list_update_append)
  with b1 b2 size blk show ?thesis by (simp add: evtag_unmarshal_string_def)
qed

lemma marshal_timeval_appends:
  assumes mem: "memory m" and wr: "writable b" and c: "contents b = []"
  shows "\<exists>b'. evtag_marshal_timeval m b tag tv = Inr b' \<and> readable b'
            \<and> contents b' = item_code tag (int_code 4 (tv_sec tv) @ int_code 4 (tv_usec tv))"
proof (rule int_code_spec [of 4 "tv_sec tv"], goal_cases)
  case sec: (4 n data)
  show ?case
  proof (rule int_code_spec [of 4 "tv_usec tv"], goal_cases)
    case usec: (4 n2 data2)
    let ?d = "int_code 4 (tv_sec tv) @ int_code 4 (tv_usec tv)"
    have "length (contents b) + length ?d + 10 \<le> CHAIN_MAX"
      using sec usec c by (simp add: CHAIN_MAX_def EVBUFFER_CHAIN_SIZE_def)
    from marshal_appends [OF mem wr this, of tag] sec usec c show ?case
      by (auto simp: evtag_marshal_timeval_def encode_int_internal_def)
  qed simp_all
qed simp_all

lemma unmarshal_timeval_reads:
  assumes mem: "memory m" and rd: "readable b"
    and c: "contents b = item_code tag (int_code 4 (tv_sec tv) @ int_code 4 (tv_usec tv)) @ rest"
    and sz: "length (contents b) \<le> CHAIN_MAX"
  shows "\<exists>b'. evtag_unmarshal_timeval m b tag old = Inr (0, tv, b')
            \<and> contents b' = rest"
proof -
  let ?s = "int_code 4 (tv_sec tv)" and ?u = "int_code 4 (tv_usec tv)"
  from header_reads [OF mem rd c sz] obtain b1 where
    b1: "evtag_unmarshal_header m b = Inr (int (length (?s @ ?u)), Some tag, b1)" "readable b1"
      "contents b1 = (?s @ ?u) @ rest" by auto
  have sz1: "length (contents b1) \<le> CHAIN_MAX" using sz c b1(3) by (simp add: item_code_def)
  have "contents b1 = [] @ ?s @ (?u @ rest)" using b1(3) by simp
  from decode_int_reads [OF mem b1(2) this int_encoded_32 sz1] obtain b2 where
    b2: "decode_int_internal m b1 0 = Inr (int (length ?s), Some (tv_sec tv), b2)" "readable b2"
      "contents b2 = contents b1" by (auto simp: decode_int_internal_def)
  have "contents b2 = ?s @ ?u @ rest" "length (contents b2) \<le> CHAIN_MAX" using b1(3) b2(3) sz1 by simp_all
  from decode_int_reads [OF mem b2(2) this(1) int_encoded_32 this(2)] obtain b3 where
    b3: "decode_int_internal m b2 (length ?s) = Inr (int (length ?u), Some (tv_usec tv), b3)" "readable b3"
      "contents b3 = contents b2" by (auto simp: decode_int_internal_def)
  from evb.drain_law [OF b3(2), of "length (?s @ ?u)"] b1(3) b2(3) b3(3) obtain b4 where
    b4: "evbuffer_drain b3 (length (?s @ ?u)) = Inr (0, b4)" "contents b4 = rest" by auto
  have "to_size (int (length (?s @ ?u))) = length (?s @ ?u)"
    using sz1 b1(3) by (intro small_length(3)) simp
  with b1(1) b2(1) b3(1) b4 show ?thesis by (simp add: evtag_unmarshal_timeval_def Let_def)
qed

text \<open>Peeking.\<close>

lemma peek_length_reads:
  assumes mem: "memory m" and rd: "readable b" and c: "contents b = item_code tag data @ rest"
    and sz: "length (contents b) \<le> CHAIN_MAX"
  shows "\<exists>b' n1 n2. peek_length_with f m b = Inr (0, Some (f (of_nat (length data)) n2 n1), b')
            \<and> contents b' = contents b \<and> n1 + n2 + int (length data) = int (length (item_code tag data))"
proof -
  let ?n = "of_nat (length data) :: 32 word"
  have c1: "contents b = encode_tag_loop tag @ (int_code 4 ?n @ data @ rest)"
    using c by (simp add: item_code_def)
  from decode_tag_reads [OF mem rd c1, of False] obtain b1 where
    b1: "decode_tag_internal m b False = Inr (int (length (encode_tag_loop tag)), Some tag, b1)"
      "readable b1" "contents b1 = contents b" by auto
  from b1(3) c1 sz have "contents b1 = encode_tag_loop tag @ int_code 4 ?n @ (data @ rest)"
    "length (contents b1) \<le> CHAIN_MAX" by simp_all
  from decode_int_reads [OF mem b1(2) this(1) int_encoded_32 this(2)] obtain b2 where
    b2: "decode_int_internal m b1 (length (encode_tag_loop tag)) = Inr (int (length (int_code 4 ?n)), Some ?n, b2)"
      "contents b2 = contents b" using b1(3) by (auto simp: decode_int_internal_def)
  show ?thesis
    using b1(1) b2
    by (intro exI [of _ b2] exI [of _ "int (length (encode_tag_loop tag))"] exI [of _ "int (length (int_code 4 ?n))"])
      (simp add: peek_length_with_def item_code_def)
qed

text \<open>Five continuation bytes in a row lead the decoder of tags out of bounds.\<close>

lemma decode_tag_loop_overrun:
  "\<forall>x\<in>set xs. x AND 0x80 \<noteq> 0 \<Longrightarrow> 32 \<le> s + 7 * length xs \<Longrightarrow> length xs < n
   \<Longrightarrow> decode_tag_loop (Some (xs @ tail)) n count s number \<in> {Inl Undefined_Shift, Inl Out_Of_Bounds}"
proof (induction xs arbitrary: n count s number)
  case Nil
  then obtain n' where "n = Suc n'" by (cases n) auto
  with Nil show ?case by (cases tail) auto
next
  case (Cons x xs)
  then obtain n' where n: "n = Suc n'" by (cases n) auto
  from Cons.IH [of "s + 7" n' "Suc count" "number OR push_bit s (ucast (x AND 0x7f))"] Cons.prems n
  show ?case by (auto simp: Let_def)
qed

section \<open>Properties\<close>

text \<open>
  C16: \<open>evtag_encode_tag\<close> puts one to five bytes behind what the buffer holds and returns their number.
  In any buffer that begins with these bytes \<open>evtag_decode_tag\<close> finds the tag, returns the same number
  and removes these bytes and no others, whatever follows them, for every one of the 32-bit tags.
\<close>

theorem evtag_tag_round_trip:
  assumes "memory m" and "writable b" and "length (contents b) + 5 \<le> CHAIN_MAX"
  shows "\<exists>b1 code. evtag_encode_tag m (Some b) tag = Inr (length code, Some b1) \<and> writable b1
           \<and> contents b1 = contents b @ code \<and> 1 \<le> length code \<and> length code \<le> 5
           \<and> (\<forall>src rest. readable src \<and> contents src = code @ rest
                \<longrightarrow> (\<exists>src'. evtag_decode_tag m src = Inr (int (length code), Some tag, src')
                       \<and> readable src' \<and> contents src' = rest))"
proof -
  have len: "length (encode_tag_loop tag) \<le> 5" "1 \<le> length (encode_tag_loop tag)"
    using encode_tag_length_5 [of tag] by (simp_all add: Suc_le_eq)
  from evb.add_law [OF assms(1,2) encode_tag_nonempty, of tag] len assms(3) obtain b1 where
    "evbuffer_add m b (encode_tag_loop tag) = Inr (0, b1)" "writable b1" "contents b1 = contents b @ encode_tag_loop tag"
    by auto
  with len show ?thesis
    using decode_tag_reads [OF assms(1), of _ tag _ True]
    by (intro exI [of _ b1] exI [of _ "encode_tag_loop tag"])
      (auto simp: evtag_encode_tag_def evtag_decode_tag_def Let_def)
qed

text \<open>Two tags one behind the other: the first is read and the second stays.\<close>

theorem evtag_tag_round_trip_witness:
  "\<exists>n1 b1 n2 b2 b3 b4. evtag_encode_tag plain_malloc (Some evbuffer_new) 0x166 = Inr (n1, Some b1)
      \<and> evtag_encode_tag plain_malloc (Some b1) 5 = Inr (n2, Some b2)
      \<and> evtag_decode_tag plain_malloc b2 = Inr (int n1, Some 0x166, b3) \<and> length (contents b3) = n2
      \<and> evtag_decode_tag plain_malloc b3 = Inr (int n2, Some 5, b4) \<and> contents b4 = []"
proof -
  have big: "10 \<le> CHAIN_MAX" by (simp add: CHAIN_MAX_def EVBUFFER_CHAIN_SIZE_def)
  from evtag_tag_round_trip [OF plain_malloc_memory evbuffer_new_writable(1), of "0x166"] big obtain b1 c1 where
    t1: "evtag_encode_tag plain_malloc (Some evbuffer_new) 0x166 = Inr (length c1, Some b1)" "writable b1"
      "contents b1 = c1" "length c1 \<le> 5"
      "\<And>src rest. readable src \<Longrightarrow> contents src = c1 @ rest
         \<Longrightarrow> \<exists>src'. evtag_decode_tag plain_malloc src = Inr (int (length c1), Some 0x166, src')
                \<and> readable src' \<and> contents src' = rest"
    by (auto simp: evbuffer_new_writable)
  from evtag_tag_round_trip [OF plain_malloc_memory t1(2), of 5] t1(3,4) big obtain b2 c2 where
    t2: "evtag_encode_tag plain_malloc (Some b1) 5 = Inr (length c2, Some b2)" "writable b2"
      "contents b2 = c1 @ c2"
      "\<And>src rest. readable src \<Longrightarrow> contents src = c2 @ rest
         \<Longrightarrow> \<exists>src'. evtag_decode_tag plain_malloc src = Inr (int (length c2), Some 5, src')
                \<and> readable src' \<and> contents src' = rest"
    by auto
  from t1(5) [OF writable_readable [OF t2(2)] t2(3)] obtain b3 where
    b3: "evtag_decode_tag plain_malloc b2 = Inr (int (length c1), Some 0x166, b3)" "readable b3" "contents b3 = c2" by blast
  with t2(4) [of b3 "[]"] t1(1) t2(1) show ?thesis by auto
qed

text \<open>
  Integers of both widths are read back as they were written, and nothing is left of them.
\<close>

theorem evtag_int_round_trip:
  assumes "memory m" and "writable b" and "contents b = []"
  shows "(\<exists>b1 r b2. evtag_encode_int m b n = Inr b1 \<and> evtag_decode_int m b1 = Inr (r, Some n, b2)
             \<and> 0 \<le> r \<and> contents b2 = [])
       \<and> (\<exists>b1 r b2. evtag_encode_int64 m b n64 = Inr b1 \<and> evtag_decode_int64 m b1 = Inr (r, Some n64, b2)
             \<and> 0 \<le> r \<and> contents b2 = [])"
proof (intro conjI)
  have "(9::nat) \<le> CHAIN_MAX" by (simp add: CHAIN_MAX_def EVBUFFER_CHAIN_SIZE_def)
  then have "length (int_code 4 n) \<le> CHAIN_MAX" "length (int_code 8 n64) \<le> CHAIN_MAX"
    using length_int_code_32 [of n] length_int_code_64 [of n64] by linarith+
  then show "\<exists>b1 r b2. evtag_encode_int m b n = Inr b1 \<and> evtag_decode_int m b1 = Inr (r, Some n, b2)
      \<and> 0 \<le> r \<and> contents b2 = []"
    and "\<exists>b1 r b2. evtag_encode_int64 m b n64 = Inr b1 \<and> evtag_decode_int64 m b1 = Inr (r, Some n64, b2)
      \<and> 0 \<le> r \<and> contents b2 = []"
    using int32.round_trip [OF assms] int64.round_trip [OF assms] by auto
qed

theorem evtag_int_round_trip_witness:
  "\<exists>b1 r b2. evtag_encode_int64 plain_malloc evbuffer_new 0xdeadbeef00 = Inr b1
      \<and> evtag_decode_int64 plain_malloc b1 = Inr (r, Some 0xdeadbeef00, b2)"
  using evtag_int_round_trip [OF plain_malloc_memory evbuffer_new_writable, of 0 "0xdeadbeef00"] by blast

text \<open>
  C17: \<open>evtag_marshal\<close> puts an item behind what the buffer holds. From any buffer that begins with these
  bytes \<open>evtag_unmarshal\<close> gives the tag and returns the length of the payload, adds the payload to the
  end of the other buffer, and removes the item and no byte more, whatever follows it.
\<close>

theorem evtag_marshal_unmarshal:
  assumes "memory m" and "writable b" and "length (contents b) + length data + 10 \<le> CHAIN_MAX"
  shows "\<exists>b1 item. evtag_marshal m b tag data = Inr b1 \<and> readable b1 \<and> (data \<noteq> [] \<longrightarrow> writable b1)
           \<and> contents b1 = contents b @ item \<and> length item \<le> length data + 10
           \<and> (\<forall>src dst rest. readable src \<and> contents src = item @ rest \<and> length (contents src) \<le> CHAIN_MAX
                \<and> writable dst \<and> length (contents dst) + length data \<le> CHAIN_MAX
                \<longrightarrow> (\<exists>src' dst'. evtag_unmarshal m src dst = Inr (int (length data), Some tag, src', dst')
                       \<and> readable src' \<and> contents src' = rest
                       \<and> readable dst' \<and> contents dst' = contents dst @ data))"
proof -
  from marshal_appends [OF assms, of tag] obtain b1 where
    "evtag_marshal m b tag data = Inr b1" "readable b1" "contents b1 = contents b @ item_code tag data"
    "data \<noteq> [] \<longrightarrow> writable b1" by auto
  then show ?thesis
    using unmarshal_reads [OF assms(1), of _ tag data] length_item_code [of tag data]
    by (intro exI [of _ b1] exI [of _ "item_code tag data"]) auto
qed

text \<open>Two items one behind the other: the first is unmarshalled, and then the second.\<close>

theorem evtag_marshal_unmarshal_witness:
  "\<exists>b1 b2 b3 b4 d1 d2. evtag_marshal plain_malloc evbuffer_new 7 [1, 2, 3] = Inr b1
      \<and> evtag_marshal plain_malloc b1 9 [4] = Inr b2
      \<and> evtag_unmarshal plain_malloc b2 evbuffer_new = Inr (3, Some 7, b3, d1) \<and> contents d1 = [1, 2, 3]
      \<and> evtag_unmarshal plain_malloc b3 evbuffer_new = Inr (1, Some 9, b4, d2) \<and> contents d2 = [4]
      \<and> contents b4 = []"
proof -
  have big: "100 \<le> CHAIN_MAX" by (simp add: CHAIN_MAX_def EVBUFFER_CHAIN_SIZE_def)
  note new = evbuffer_new_writable
  have "length (contents evbuffer_new) + length [1 :: byte, 2, 3] + 10 \<le> CHAIN_MAX" using big by (simp add: new)
  from evtag_marshal_unmarshal [OF plain_malloc_memory new(1) this, of 7] obtain b1 i1 where
    m1: "evtag_marshal plain_malloc evbuffer_new 7 [1, 2, 3] = Inr b1" "writable b1" "contents b1 = [] @ i1" "length i1 \<le> 13"
    and u1: "\<forall>src dst rest. readable src \<and> contents src = i1 @ rest \<and> length (contents src) \<le> CHAIN_MAX
        \<and> writable dst \<and> length (contents dst) + length [1 :: byte, 2, 3] \<le> CHAIN_MAX
        \<longrightarrow> (\<exists>src' dst'. evtag_unmarshal plain_malloc src dst = Inr (int (length [1 :: byte, 2, 3]), Some 7, src', dst')
              \<and> readable src' \<and> contents src' = rest \<and> readable dst' \<and> contents dst' = contents dst @ [1, 2, 3])"
    unfolding new(2) by auto
  have "length (contents b1) + length [4 :: byte] + 10 \<le> CHAIN_MAX" using m1(3,4) big by simp
  from evtag_marshal_unmarshal [OF plain_malloc_memory m1(2) this, of 9] obtain b2 i2 where
    m2: "evtag_marshal plain_malloc b1 9 [4] = Inr b2" "readable b2" "contents b2 = contents b1 @ i2" "length i2 \<le> 11"
    and u2: "\<forall>src dst rest. readable src \<and> contents src = i2 @ rest \<and> length (contents src) \<le> CHAIN_MAX
        \<and> writable dst \<and> length (contents dst) + length [4 :: byte] \<le> CHAIN_MAX
        \<longrightarrow> (\<exists>src' dst'. evtag_unmarshal plain_malloc src dst = Inr (int (length [4 :: byte]), Some 9, src', dst')
              \<and> readable src' \<and> contents src' = rest \<and> readable dst' \<and> contents dst' = contents dst @ [4])"
    by auto
  from u1 [rule_format, of b2 i2 evbuffer_new] m1(3,4) m2(2-4) big obtain b3 d1 where
    b3: "evtag_unmarshal plain_malloc b2 evbuffer_new = Inr (3, Some 7, b3, d1)" "readable b3" "contents b3 = i2"
      "contents d1 = [1, 2, 3]" by (auto simp: new)
  from u2 [rule_format, of b3 "[]" evbuffer_new] b3 m2(4) big obtain b4 d2 where
    "evtag_unmarshal plain_malloc b3 evbuffer_new = Inr (1, Some 9, b4, d2)" "contents d2 = [4]" "contents b4 = []"
    by (auto simp: new)
  with m1(1) m2(1) b3 show ?thesis by auto
qed

text \<open>
  An integer item, of either width, is unmarshalled with its value if the wanted tag is the one it
  was marshalled with; otherwise the call fails with -1 and stores nothing.
\<close>

theorem evtag_int_items:
  assumes "memory m" and "writable b" and "contents b = []"
  shows "(\<exists>b1 r b2. evtag_marshal_int m b tag n = Inr b1
            \<and> evtag_unmarshal_int m b1 need_tag = Inr (r, (if need_tag = tag then Some n else None), b2)
            \<and> (r = -1 \<longleftrightarrow> need_tag \<noteq> tag) \<and> (need_tag = tag \<longrightarrow> contents b2 = []))
       \<and> (\<exists>b1 r b2. evtag_marshal_int64 m b tag n64 = Inr b1
            \<and> evtag_unmarshal_int64 m b1 need_tag = Inr (r, (if need_tag = tag then Some n64 else None), b2)
            \<and> (r = -1 \<longleftrightarrow> need_tag \<noteq> tag) \<and> (need_tag = tag \<longrightarrow> contents b2 = []))"
proof
  have big: "(20::nat) \<le> CHAIN_MAX" by (simp add: CHAIN_MAX_def EVBUFFER_CHAIN_SIZE_def)
  then have "length (contents b) + 15 \<le> CHAIN_MAX" "length (contents b) + 20 \<le> CHAIN_MAX"
    using assms(3) by simp_all
  from marshal_int_appends [OF assms(1,2) this(1), of tag n] marshal_int64_appends [OF assms(1,2) this(2), of tag n64]
  obtain b1 b2 where b1: "evtag_marshal_int m b tag n = Inr b1" "writable b1"
      "contents b1 = item_code tag (int_code 4 n)"
    and b2: "evtag_marshal_int64 m b tag n64 = Inr b2" "writable b2" "contents b2 = item_code tag (int_code 8 n64)"
    using assms(3) by auto
  have "length (contents b1) \<le> CHAIN_MAX" "length (contents b2) \<le> CHAIN_MAX"
    using b1(3) b2(3) big length_item_code [of tag "int_code 4 n"] length_item_code [of tag "int_code 8 n64"]
      length_int_code_32 [of n] length_int_code_64 [of n64]
    by simp_all
  from int_item_read [OF assms(1) writable_readable [OF b1(2)] int_encoded_32 b1(3) this(1), of need_tag]
    int_item_read [OF assms(1) writable_readable [OF b2(2)] int_encoded_64 b2(3) this(2), of need_tag] b1(1) b2(1)
  show "\<exists>b1 r b2. evtag_marshal_int m b tag n = Inr b1
      \<and> evtag_unmarshal_int m b1 need_tag = Inr (r, (if need_tag = tag then Some n else None), b2)
      \<and> (r = -1 \<longleftrightarrow> need_tag \<noteq> tag) \<and> (need_tag = tag \<longrightarrow> contents b2 = [])"
    and "\<exists>b1 r b2. evtag_marshal_int64 m b tag n64 = Inr b1
      \<and> evtag_unmarshal_int64 m b1 need_tag = Inr (r, (if need_tag = tag then Some n64 else None), b2)
      \<and> (r = -1 \<longleftrightarrow> need_tag \<noteq> tag) \<and> (need_tag = tag \<longrightarrow> contents b2 = [])"
    unfolding evtag_unmarshal_int_def evtag_unmarshal_int64_def decode_int_internal_def decode_int64_internal_def
    by auto
qed

theorem evtag_int_items_witness:
  "\<exists>b1 r b2. evtag_marshal_int plain_malloc evbuffer_new 7 1000 = Inr b1
      \<and> evtag_unmarshal_int plain_malloc b1 7 = Inr (r, Some 1000, b2) \<and> r \<noteq> -1 \<and> contents b2 = []"
  using evtag_int_items [OF plain_malloc_memory evbuffer_new_writable, of 7 1000 7 0] by auto


text \<open>
  A string item is unmarshalled as the same string followed by a null byte, in a block of exactly
  that size; a time item as the same seconds and microseconds.
\<close>

theorem evtag_string_timeval_items:
  assumes "memory m" and "writable b" and "contents b = []" and "length str + 10 < CHAIN_MAX"
  shows "(\<exists>b1 b2. evtag_marshal_string m b tag str = Inr b1
            \<and> evtag_unmarshal_string m b1 tag = Inr (0, Some (str @ [0]), b2) \<and> contents b2 = [])
       \<and> (\<exists>b1 b2. evtag_marshal_timeval m b tag tv = Inr b1
            \<and> evtag_unmarshal_timeval m b1 tag old = Inr (0, tv, b2) \<and> contents b2 = [])"
proof
  from marshal_appends [OF assms(1,2), of str tag] assms(3,4) obtain b1 where
    b1: "evtag_marshal m b tag str = Inr b1" "readable b1" "contents b1 = item_code tag str" by auto
  have "length (contents b1) < CHAIN_MAX" using b1(3) length_item_code [of tag str] assms(4) by simp
  moreover obtain addr blk where "m (length str + 1) = Some (addr, blk)"
    using assms(1) unfolding memory_def out_of_memory_def by (metis option.exhaust surj_pair)
  ultimately show "\<exists>b1 b2. evtag_marshal_string m b tag str = Inr b1
      \<and> evtag_unmarshal_string m b1 tag = Inr (0, Some (str @ [0]), b2) \<and> contents b2 = []"
    using unmarshal_string_reads [OF assms(1) b1(2,3)] b1(1) by (auto simp: evtag_marshal_string_def)
  let ?d = "int_code 4 (tv_sec tv) @ int_code 4 (tv_usec tv)"
  from marshal_timeval_appends [OF assms(1-3), of tag tv] obtain b2 where
    b2: "evtag_marshal_timeval m b tag tv = Inr b2" "readable b2" "contents b2 = item_code tag ?d @ []" by auto
  have "length (contents b2) \<le> CHAIN_MAX"
    using b2(3) length_item_code [of tag ?d] length_int_code_32 [of "tv_sec tv"] length_int_code_32 [of "tv_usec tv"]
    by (simp add: CHAIN_MAX_def EVBUFFER_CHAIN_SIZE_def)
  from unmarshal_timeval_reads [OF assms(1) b2(2,3) this, of old] b2(1)
  show "\<exists>b1 b2. evtag_marshal_timeval m b tag tv = Inr b1
      \<and> evtag_unmarshal_timeval m b1 tag old = Inr (0, tv, b2) \<and> contents b2 = []"
    by auto
qed

theorem evtag_string_timeval_items_witness:
  "\<exists>b1 b2. evtag_marshal_string plain_malloc evbuffer_new 7 [104, 105] = Inr b1
      \<and> evtag_unmarshal_string plain_malloc b1 7 = Inr (0, Some [104, 105, 0], b2) \<and> contents b2 = []"
  using evtag_string_timeval_items [OF plain_malloc_memory evbuffer_new_writable, of "[104, 105]" 7]
  by (auto simp: CHAIN_MAX_def EVBUFFER_CHAIN_SIZE_def)

text \<open>
  In front of an item, \<open>evtag_payload_length\<close> gives the length of its payload and
  \<open>evtag_peek_length\<close> the length of the whole item; neither removes a byte.
\<close>

theorem evtag_peek_lengths:
  assumes "memory m" and "readable b" and "contents b = item_code tag data @ rest"
    and "length (contents b) \<le> CHAIN_MAX"
  shows "(\<exists>b'. evtag_payload_length m b = Inr (0, Some (of_nat (length data)), b') \<and> contents b' = contents b)
       \<and> (\<exists>b'. evtag_peek_length m b = Inr (0, Some (of_nat (length (item_code tag data))), b')
            \<and> contents b' = contents b)"
proof
  show "\<exists>b'. evtag_payload_length m b = Inr (0, Some (of_nat (length data)), b') \<and> contents b' = contents b"
    using peek_length_reads [OF assms] by (auto simp: evtag_payload_length_def)
  from peek_length_reads [OF assms] obtain b' n1 n2 where
    p: "peek_length_with (\<lambda>l res len. l + of_int (res + len)) m b
        = Inr (0, Some (of_nat (length data) + of_int (n2 + n1)), b')" "contents b' = contents b"
      "n1 + n2 + int (length data) = int (length (item_code tag data))" by blast
  have "(of_nat (length data) + of_int (n2 + n1) :: 32 word) = of_int (n1 + n2 + int (length data))"
    by (simp add: add_ac)
  also have "\<dots> = of_nat (length (item_code tag data))" unfolding p(3) by simp
  finally show "\<exists>b'. evtag_peek_length m b = Inr (0, Some (of_nat (length (item_code tag data))), b')
      \<and> contents b' = contents b" using p(1,2) by (simp add: evtag_peek_length_def)
qed

theorem evtag_peek_lengths_witness:
  "\<exists>b b'. contents b = item_code 7 [1, 2, 3] \<and> evtag_payload_length plain_malloc b = Inr (0, Some 3, b')"
proof -
  from marshal_appends [OF plain_malloc_memory evbuffer_new_writable(1), of "[1, 2, 3]" 7] obtain b where
    b: "readable b" "contents b = item_code 7 [1, 2, 3] @ []"
    by (auto simp: evbuffer_new_writable CHAIN_MAX_def EVBUFFER_CHAIN_SIZE_def)
  have "length (contents b) \<le> CHAIN_MAX"
    using b(2) length_item_code [of 7 "[1, 2, 3]"] by (simp add: CHAIN_MAX_def EVBUFFER_CHAIN_SIZE_def)
  from evtag_peek_lengths [OF plain_malloc_memory b this] b(2) show ?thesis by auto
qed

text \<open>
  C18: \<open>decode_tag_internal\<close> makes only five bytes contiguous but lets its loop run to the end of the
  buffer: when the first five bytes all have the high bit and another byte follows, it shifts by 35 or
  reads behind the memory of the first chain.
\<close>

theorem evtag_decode_tag_overruns:
  assumes "memory m" and "readable b" and "contents b = bs @ rest" and "length bs = 5" and "rest \<noteq> []"
    and "\<forall>x\<in>set bs. x AND 0x80 \<noteq> 0"
  shows "evtag_decode_tag m b = Inl Undefined_Shift \<or> evtag_decode_tag m b = Inl Out_Of_Bounds"
proof -
  let ?len = "evbuffer_get_length b"
  have len: "5 < ?len" "?len = length (contents b)"
    using evb.len_law [OF assms(2)] assms(3-5) by (simp_all add: neq_Nil_conv)
  from evb.pullup_law [OF assms(1,2), of 5] len obtain p b1 where
    p: "evbuffer_pullup m b (int 5) = Inr (Some p, b1)" "take 5 p = take 5 (contents b)"
    by (auto simp: CHAIN_MAX_def EVBUFFER_CHAIN_SIZE_def)
  then have "p = bs @ drop 5 p" using assms(3,4) by (metis append_eq_conv_conj append_take_drop_id)
  then have "decode_tag_loop (Some p) ?len 0 0 0 \<in> {Inl Undefined_Shift, Inl Out_Of_Bounds}"
    using decode_tag_loop_overrun [OF assms(6), of 0 ?len "drop 5 p"] assms(4) len(1) by simp
  with p(1) len(1) show ?thesis
    by (auto simp: evtag_decode_tag_def decode_tag_internal_def Let_def)
qed

theorem evtag_decode_tag_overruns_witness:
  "\<exists>b. contents b = replicate 6 0x80 \<and> (evtag_decode_tag plain_malloc b = Inl Undefined_Shift
      \<or> evtag_decode_tag plain_malloc b = Inl Out_Of_Bounds)"
proof -
  have r: "replicate 6 0x80 = replicate 5 (0x80 :: byte) @ [0x80]" by (simp add: eval_nat_numeral)
  from evb.add_law [OF plain_malloc_memory evbuffer_new_writable(1), of "replicate 6 0x80"] obtain b where
    b: "writable b" "contents b = replicate 6 0x80"
    by (auto simp: evbuffer_new_writable CHAIN_MAX_def EVBUFFER_CHAIN_SIZE_def)
  from evtag_decode_tag_overruns [OF plain_malloc_memory writable_readable [OF b(1)] b(2) [unfolded r]] b(2)
  show ?thesis by auto
qed

end
