(* ===== verification/Event_Struct.thy ===== *)
theory Event_Struct
  imports Ev_Time
begin

text \<open>
  \<open>struct event\<close> (\<open>include/event2/event_struct.h\<close>) and what can be asked of an event. An event is known by
  its address, a natural number, and the memory of all events is a function from addresses.

  Sets stand for bit masks. The links of the queues an event is in are not fields: the queues are lists
  of addresses. Of the union \<open>ev_timeout_pos\<close> the position in the heap is kept. There is one event base, so
  \<open>ev_base\<close> is whether the pointer to it is set.
\<close>

datatype evlist_flag =
  EVLIST_TIMEOUT | EVLIST_INSERTED | EVLIST_SIGNAL | EVLIST_ACTIVE | EVLIST_INTERNAL | EVLIST_INIT

datatype ev_what = EV_TIMEOUT | EV_READ | EV_WRITE | EV_SIGNAL | EV_PERSIST | EV_ET

datatype ev_closure_kind = EV_CLOSURE_NONE | EV_CLOSURE_SIGNAL | EV_CLOSURE_PERSIST

text \<open>
  The functions an event can call: those of users, by number, and those of \<open>event.c\<close>: for the list of
  common timeouts with a given index, for the end of the loop, and for an event that happens once, with what
  is to be called and its argument.
\<close>

datatype event_callback =
    User_Callback nat
  | Common_Timeout_Callback nat
  | Loopexit_Callback
  | Once_Callback event_callback nat

text \<open>\<open>ev_ncalls\<close> is a \<open>short\<close> in the code; a number of calls beyond that is not cut here.\<close>

record event =
  min_heap_idx :: int
  ev_fd :: int
  ev_io_timeout :: timeval
  ev_ncalls :: nat
  ev_pncalls :: bool
  ev_events :: "ev_what set"
  ev_res :: "ev_what set"
  ev_flags :: "evlist_flag set"
  ev_pri :: nat
  ev_closure :: ev_closure_kind
  ev_timeout :: timeval
  ev_callback :: event_callback
  ev_arg :: nat
  ev_base :: bool

type_synonym events = "nat \<Rightarrow> event"

definition watches_io :: "event \<Rightarrow> bool" where
  "watches_io ev \<longleftrightarrow> ev_events ev \<inter> {EV_READ, EV_WRITE} \<noteq> {}"

section \<open>Queues\<close>

text \<open>
  \<open>TAILQ_REMOVE\<close>: unlinking an event that is not in the queue writes through links that are not valid.
\<close>

definition TAILQ_REMOVE :: "nat \<Rightarrow> nat list \<Rightarrow> nat list exec" where
  "TAILQ_REMOVE e q = (if e \<in> set q then Inr (remove1 e q) else Inl Out_Of_Bounds)"

text \<open>A queue holds each element of a set once.\<close>

definition holds :: "nat list \<Rightarrow> nat set \<Rightarrow> bool" where
  "holds q S \<longleftrightarrow> distinct q \<and> set q = S"

lemma holds_empty [simp]: "holds [] S \<longleftrightarrow> S = {}"
  by (auto simp: holds_def)

lemma holds_finite: "holds q S \<Longrightarrow> finite S"
  by (auto simp: holds_def)

lemma holds_insert_tail: "holds q S \<Longrightarrow> e \<notin> S \<Longrightarrow> holds (q @ [e]) (insert e S)"
  by (auto simp: holds_def)

lemma holds_remove: "holds q S \<Longrightarrow> e \<in> S \<Longrightarrow> TAILQ_REMOVE e q = Inr (remove1 e q) \<and> holds (remove1 e q) (S - {e})"
  by (auto simp: holds_def TAILQ_REMOVE_def)

lemma length_filter_remove1:
  "e \<in> set q \<Longrightarrow> length (filter P (remove1 e q)) = length (filter P q) - (if P e then 1 else 0)"
  by (simp add: filter_remove1 length_remove1)

end
