(* ===== verification/Min_Heap.thy ===== *)
theory Min_Heap
  imports Event_Struct "HOL-Library.Multiset"
begin

text \<open>
  The binary heap of events ordered by their timeouts, \<open>minheap-internal.h\<close>. The array \<open>p\<close> holds
  addresses of events; each event in it knows its position, \<open>min_heap_idx\<close>, so the operations change
  the memory of the events too. An access outside the block \<open>p\<close> points to is \<open>Out_Of_Bounds\<close>.
\<close>

section \<open>The operations\<close>

record min_heap =
  mh_p :: "nat list"
  mh_n :: nat
  mh_a :: nat

definition min_heap_elem_greater :: "events \<Rightarrow> nat \<Rightarrow> nat \<Rightarrow> bool" where
  "min_heap_elem_greater ev a b = evutil_timercmp_gt (ev_timeout (ev a)) (ev_timeout (ev b))"

definition min_heap_ctor :: min_heap where
  "min_heap_ctor = \<lparr>mh_p = [], mh_n = 0, mh_a = 0\<rparr>"

definition min_heap_elem_init :: "event \<Rightarrow> event" where
  "min_heap_elem_init e = e\<lparr>min_heap_idx := -1\<rparr>"

definition min_heap_empty :: "min_heap \<Rightarrow> bool" where
  "min_heap_empty s \<longleftrightarrow> mh_n s = 0"

definition min_heap_size :: "min_heap \<Rightarrow> nat" where
  "min_heap_size s = mh_n s"

text \<open>Reading a slot of the array, and storing an event with its position in one.\<close>

definition heap_slot :: "nat list \<Rightarrow> nat \<Rightarrow> nat exec" where
  "heap_slot p i = (if i < length p then Inr (p ! i) else Inl Out_Of_Bounds)"

definition heap_put :: "nat \<Rightarrow> nat \<Rightarrow> nat list \<times> events \<Rightarrow> (nat list \<times> events) exec" where
  "heap_put hole_index e = (\<lambda>(p, ev).
     if hole_index < length p
     then Inr (p[hole_index := e], ev(e := (ev e)\<lparr>min_heap_idx := int hole_index\<rparr>))
     else Inl Out_Of_Bounds)"

definition min_heap_top :: "min_heap \<Rightarrow> nat option exec" where
  "min_heap_top s = (if mh_n s \<noteq> 0 then bindE (heap_slot (mh_p s) 0) (\<lambda>e. Inr (Some e)) else Inr None)"

definition min_heap_elt_is_top :: "event \<Rightarrow> bool" where
  "min_heap_elt_is_top e \<longleftrightarrow> min_heap_idx e = 0"

fun min_heap_shift_up :: "nat \<Rightarrow> nat \<Rightarrow> nat list \<times> events \<Rightarrow> (nat list \<times> events) exec" where
  "min_heap_shift_up hole_index e (p, ev) =
     (if hole_index = 0 then heap_put hole_index e (p, ev)
      else let parent = (hole_index - 1) div 2 in
           bindE (heap_slot p parent)
             (\<lambda>q. if min_heap_elem_greater ev q e
                  then bindE (heap_put hole_index q (p, ev)) (min_heap_shift_up parent e)
                  else heap_put hole_index e (p, ev)))"

declare min_heap_shift_up.simps [simp del]

text \<open>The smaller one of the two children of a hole, \<open>min_child\<close> being the second one.\<close>

definition smaller_child :: "nat \<Rightarrow> nat \<Rightarrow> nat list \<Rightarrow> events \<Rightarrow> nat exec" where
  "smaller_child n min_child p ev =
     (if min_child = n then Inr (min_child - 1)
      else bindE (heap_slot p min_child) (\<lambda>a. bindE (heap_slot p (min_child - 1)) (\<lambda>b.
           Inr (if min_heap_elem_greater ev a b then min_child - 1 else min_child))))"

lemma smaller_child_range:
  "smaller_child n c p ev = Inr d \<Longrightarrow> c \<le> n \<Longrightarrow> 0 < c \<Longrightarrow> c - 1 \<le> d \<and> d < n \<and> d \<le> c"
  by (auto simp: smaller_child_def bindE_Inr_iff split: if_splits)

function min_heap_shift_down ::
    "nat \<Rightarrow> nat \<Rightarrow> nat \<Rightarrow> nat list \<times> events \<Rightarrow> (nat list \<times> events) exec" where
  "min_heap_shift_down n hole_index e (p, ev) =
     (if 2 * (hole_index + 1) \<le> n
      then case smaller_child n (2 * (hole_index + 1)) p ev of
             Inl c \<Rightarrow> Inl c
           | Inr min_child \<Rightarrow>
               bindE (heap_slot p min_child)
                 (\<lambda>q. if min_heap_elem_greater ev e q
                      then bindE (heap_put hole_index q (p, ev)) (min_heap_shift_down n min_child e)
                      else heap_put hole_index e (p, ev))
      else heap_put hole_index e (p, ev))"
  by pat_completeness auto

termination
  by (relation "measure (\<lambda>(n, hole, e, p, ev). n - hole)") (auto dest!: smaller_child_range)

declare min_heap_shift_down.simps [simp del]

text \<open>
  \<open>mm_realloc(s->p, a * sizeof *p)\<close> is a parameter: given the size in bytes and the old block it gives
  the new one, as the list of its slots, or fails. \<open>a\<close> is an \<open>unsigned\<close>.
\<close>

type_synonym slot_realloc = "nat \<Rightarrow> nat list \<Rightarrow> nat list option"

definition min_heap_reserve :: "slot_realloc \<Rightarrow> min_heap \<Rightarrow> nat \<Rightarrow> int \<times> min_heap" where
  "min_heap_reserve mm_realloc s n =
     (if mh_a s < n
      then let a = (if mh_a s \<noteq> 0 then (mh_a s * 2) mod SIZE_MOD else 8);
               a = (if a < n then n else a)
           in case mm_realloc ((a * 4) mod SIZE_MOD) (mh_p s) of
                None \<Rightarrow> (-1, s)
              | Some p \<Rightarrow> (0, s\<lparr>mh_p := p, mh_a := a\<rparr>)
      else (0, s))"

definition min_heap_push ::
    "slot_realloc \<Rightarrow> nat \<Rightarrow> min_heap \<times> events \<Rightarrow> (int \<times> min_heap \<times> events) exec" where
  "min_heap_push mm_realloc e = (\<lambda>(s, ev).
     case min_heap_reserve mm_realloc s (addz (mh_n s) 1) of
       (r, s) \<Rightarrow>
         if r \<noteq> 0 then Inr (-1, s, ev)
         else bindE (min_heap_shift_up (mh_n s) e (mh_p s, ev))
                (\<lambda>(p, ev). Inr (0, s\<lparr>mh_p := p, mh_n := addz (mh_n s) 1\<rparr>, ev)))"

definition min_heap_pop :: "min_heap \<times> events \<Rightarrow> (nat option \<times> min_heap \<times> events) exec" where
  "min_heap_pop = (\<lambda>(s, ev).
     if mh_n s \<noteq> 0
     then bindE (heap_slot (mh_p s) 0) (\<lambda>e.
          let n = mh_n s - 1 in
          bindE (heap_slot (mh_p s) n) (\<lambda>last.
          bindE (min_heap_shift_down n 0 last (mh_p s, ev)) (\<lambda>(p, ev).
          Inr (Some e, s\<lparr>mh_p := p, mh_n := n\<rparr>, ev(e := (ev e)\<lparr>min_heap_idx := -1\<rparr>)))))
     else Inr (None, s, ev))"

definition min_heap_erase :: "nat \<Rightarrow> min_heap \<times> events \<Rightarrow> (int \<times> min_heap \<times> events) exec" where
  "min_heap_erase e = (\<lambda>(s, ev).
     if min_heap_idx (ev e) \<noteq> -1
     then let n = subz (mh_n s) 1; idx = nat (min_heap_idx (ev e)); parent = (idx - 1) div 2 in
          bindE (heap_slot (mh_p s) n) (\<lambda>last.
          bindE (if min_heap_idx (ev e) > 0
                 then bindE (heap_slot (mh_p s) parent) (\<lambda>q. Inr (min_heap_elem_greater ev q last))
                 else Inr False) (\<lambda>up.
          bindE (if up then min_heap_shift_up idx last (mh_p s, ev)
                 else min_heap_shift_down n idx last (mh_p s, ev)) (\<lambda>(p, ev).
          Inr (0, s\<lparr>mh_p := p, mh_n := n\<rparr>, ev(e := (ev e)\<lparr>min_heap_idx := -1\<rparr>)))))
     else Inr (-1, s, ev))"

section \<open>Repairing the heap order\<close>

definition up :: "nat \<Rightarrow> nat" where
  "up i = (i - 1) div 2"

lemma up_less [simp]: "0 < i \<Longrightarrow> up i < i"
  by (auto simp: up_def)

lemma up_eq_iff: "0 < i \<Longrightarrow> up i = h \<longleftrightarrow> i = 2 * h + 1 \<or> i = 2 * h + 2"
  by (auto simp: up_def)

text \<open>
  The first \<open>n\<close> elements are in heap order with respect to the times \<open>k\<close>; or except that the element
  at \<open>h\<close> may be too small for its parent; or that it may be too large for its children.
\<close>

definition heap_by :: "(nat \<Rightarrow> timeval) \<Rightarrow> nat list \<Rightarrow> nat \<Rightarrow> bool" where
  "heap_by k q n \<longleftrightarrow> (\<forall>i<n. 0 < i \<longrightarrow> k (q ! up i) \<le> k (q ! i))"

definition bridged :: "(nat \<Rightarrow> timeval) \<Rightarrow> nat list \<Rightarrow> nat \<Rightarrow> nat \<Rightarrow> bool" where
  "bridged k q n h \<longleftrightarrow> (0 < h \<longrightarrow> (\<forall>i<n. 0 < i \<longrightarrow> up i = h \<longrightarrow> k (q ! up h) \<le> k (q ! i)))"

definition except_up :: "(nat \<Rightarrow> timeval) \<Rightarrow> nat list \<Rightarrow> nat \<Rightarrow> nat \<Rightarrow> bool" where
  "except_up k q n h \<longleftrightarrow> bridged k q n h \<and> (\<forall>i<n. 0 < i \<longrightarrow> i \<noteq> h \<longrightarrow> k (q ! up i) \<le> k (q ! i))"

definition except_down :: "(nat \<Rightarrow> timeval) \<Rightarrow> nat list \<Rightarrow> nat \<Rightarrow> nat \<Rightarrow> bool" where
  "except_down k q n h \<longleftrightarrow> bridged k q n h \<and> (\<forall>i<n. 0 < i \<longrightarrow> up i \<noteq> h \<longrightarrow> k (q ! up i) \<le> k (q ! i))"

lemma except_up_done:
  "except_up k q n h \<Longrightarrow> h = 0 \<or> k (q ! up h) \<le> k (q ! h) \<Longrightarrow> heap_by k q n"
  by (auto simp: except_up_def heap_by_def)

lemma except_down_done:
  "except_down k q n h \<Longrightarrow> (\<And>i. i < n \<Longrightarrow> 0 < i \<Longrightarrow> up i = h \<Longrightarrow> k (q ! h) \<le> k (q ! i)) \<Longrightarrow> heap_by k q n"
  by (auto simp: except_down_def heap_by_def)

lemma except_up_step:
  assumes ex: "except_up k q n h" and h: "0 < h" "h < n" "n \<le> length q" and less: "k (q ! h) < k (q ! up h)"
  shows "except_up k (q[h := q ! up h, up h := q ! h]) n (up h)"
proof -
  have lt: "up h < h" "up h < length q" "h < length q" using h up_less [of h] by linarith+
  have first: "k (q ! up i) \<le> k (q ! i)" if "i < n" "0 < i" "i \<noteq> h" for i
    using ex that by (simp add: except_up_def)
  have second: "k (q ! up h) \<le> k (q ! i)" if "i < n" "0 < i" "up i = h" for i
    using ex that h by (simp add: except_up_def bridged_def)
  have uu: "0 < up h \<Longrightarrow> up (up h) < up h \<and> k (q ! up (up h)) \<le> k (q ! up h)"
    using first [of "up h"] h lt by simp
  show ?thesis
    unfolding except_up_def bridged_def
  proof (intro conjI allI impI, goal_cases)
    case (1 i)
    with uu lt have "up (up h) \<noteq> h" "up (up h) \<noteq> up h" by linarith+
    with 1 show ?case
      using uu first [of i] lt by (cases "i = h") (auto simp: nth_list_update)
  next
    case (2 i)
    consider "i = h" | "i \<noteq> h" "up i = h" | "i \<noteq> h" "up i = up h" "up i \<noteq> h" | "i \<noteq> h" "up i \<noteq> h" "up i \<noteq> up h" by blast
    then show ?case
    proof cases
      case 2
      then show ?thesis using second [of i] lt \<open>i < n\<close> \<open>0 < i\<close> \<open>i \<noteq> up h\<close> by (simp add: nth_list_update)
    next
      case 3
      then show ?thesis using first [of i] lt less \<open>i < n\<close> \<open>0 < i\<close> \<open>i \<noteq> up h\<close> by (simp add: nth_list_update)
    next
      case 4
      then show ?thesis using first [of i] lt \<open>i < n\<close> \<open>0 < i\<close> \<open>i \<noteq> up h\<close> by (simp add: nth_list_update)
    qed (use lt less in \<open>simp add: nth_list_update\<close>)
  qed
qed

lemma except_down_step:
  assumes ex: "except_down k q n h" and c: "0 < c" "c < n" "up c = h" "n \<le> length q"
    and less: "k (q ! c) < k (q ! h)" and least: "\<And>i. i < n \<Longrightarrow> 0 < i \<Longrightarrow> up i = h \<Longrightarrow> k (q ! c) \<le> k (q ! i)"
  shows "except_down k (q[h := q ! c, c := q ! h]) n c"
proof -
  have lt: "h < c" "h < length q" "c < length q" using c up_less [of c] by simp_all
  have first: "k (q ! up i) \<le> k (q ! i)" if "i < n" "0 < i" "up i \<noteq> h" for i
    using ex that by (simp add: except_down_def)
  have second: "0 < h \<Longrightarrow> k (q ! up h) \<le> k (q ! c) \<and> up h < h"
    using ex c by (simp add: except_down_def bridged_def)
  show ?thesis
    unfolding except_down_def bridged_def
  proof (intro conjI allI impI, goal_cases)
    case (1 i)
    then have "h < i" using lt up_less [of i] by simp
    with 1 show ?case
      using first [of i] lt c by (auto simp: nth_list_update)
  next
    case (2 i)
    then show ?case
      using first [of i] second least [of i] lt c less by (auto simp: nth_list_update)
  qed
qed

lemma except_up_leaf:
  assumes "heap_by k p n"
  shows "except_up k (p[n := e]) (n + 1) n"
  unfolding except_up_def bridged_def
proof (intro conjI allI impI, goal_cases)
  case (1 i)
  then show ?case using up_less [of i] by simp
next
  case (2 i)
  then have "i < n" "up i < n" using up_less [of i] by linarith+
  with 2 assms show ?case by (simp add: heap_by_def)
qed

text \<open>The first element of a heap is a smallest one.\<close>

lemma heap_by_top:
  "heap_by k q n \<Longrightarrow> i < n \<Longrightarrow> k (q ! 0) \<le> k (q ! i)"
proof (induction i rule: less_induct)
  case (less i)
  show ?case
  proof (cases "i = 0")
    case False
    then have "k (q ! 0) \<le> k (q ! up i)" using less by simp
    also have "\<dots> \<le> k (q ! i)" using less False by (simp add: heap_by_def)
    finally show ?thesis .
  qed simp
qed

section \<open>Sifting keeps elements and positions\<close>

abbreviation due :: "events \<Rightarrow> nat \<Rightarrow> timeval" where
  "due ev x \<equiv> ev_timeout (ev x)"

text \<open>Every event among the first \<open>n\<close> slots, except the one at the hole, knows its position.\<close>

definition placed_but :: "events \<Rightarrow> nat list \<Rightarrow> nat \<Rightarrow> nat \<Rightarrow> bool" where
  "placed_but ev p n h \<longleftrightarrow> (\<forall>i<n. i \<noteq> h \<longrightarrow> min_heap_idx (ev (p ! i)) = int i)"

text \<open>Only positions in the heap change, and only those of the events in \<open>A\<close>.\<close>

definition only_idx :: "nat set \<Rightarrow> events \<Rightarrow> events \<Rightarrow> bool" where
  "only_idx A ev ev' \<longleftrightarrow>
     (\<forall>x. ev' x = (ev x)\<lparr>min_heap_idx := min_heap_idx (ev' x)\<rparr>) \<and> (\<forall>x. x \<notin> A \<longrightarrow> ev' x = ev x)"

lemma only_idx_refl [simp]: "only_idx A ev ev"
  by (simp add: only_idx_def)

lemma only_idx_trans: "only_idx A ev ev' \<Longrightarrow> only_idx A ev' ev'' \<Longrightarrow> only_idx A ev ev''"
  unfolding only_idx_def by (metis event.fold_congs(1) event.update_convs(1) event.surjective)

lemma only_idx_update: "e \<in> A \<Longrightarrow> only_idx A ev (ev(e := (ev e)\<lparr>min_heap_idx := i\<rparr>))"
  by (simp add: only_idx_def)

lemma only_idx_due: "only_idx A ev ev' \<Longrightarrow> due ev' = due ev"
  unfolding only_idx_def by (metis (no_types) event.select_convs(11) event.surjective event.update_convs(1))

definition sifted :: "nat list \<Rightarrow> nat \<Rightarrow> events \<Rightarrow> nat list \<times> events \<Rightarrow> bool" where
  "sifted q n ev = (\<lambda>(p', ev').
     length p' = length q \<and> mset (take n p') = mset (take n q) \<and> drop n p' = drop n q
     \<and> heap_by (due ev) p' n \<and> placed_but ev' p' n n \<and> only_idx (set (take n q)) ev ev')"

lemma swap_take:
  assumes "i < n" "j < n" "n \<le> length q"
  shows "mset (take n (q[i := q ! j, j := q ! i])) = mset (take n q)"
    and "drop n (q[i := q ! j, j := q ! i]) = drop n q"
proof -
  have "take n (q[i := q ! j, j := q ! i]) = (take n q)[i := take n q ! j, j := take n q ! i]"
    using assms by (simp add: take_update_swap)
  moreover have "mset ((take n q)[i := take n q ! j, j := take n q ! i]) = mset (take n q)"
    using assms by (intro mset_swap) simp_all
  ultimately show "mset (take n (q[i := q ! j, j := q ! i])) = mset (take n q)" by simp
  show "drop n (q[i := q ! j, j := q ! i]) = drop n q" using assms by simp
qed

lemma put_sifted:
  assumes h: "h < n" "n \<le> length p" and d: "distinct (take n (p[h := e]))"
    and heap: "heap_by (due ev) (p[h := e]) n" and pl: "placed_but ev p n h"
  shows "runs (heap_put h e (p, ev)) (sifted (p[h := e]) n ev)"
proof -
  have e: "e \<in> set (take n (p[h := e]))" using h by (auto simp: take_update_swap set_conv_nth intro!: exI [of _ h])
  have "p ! i \<noteq> e" if "i < n" "i \<noteq> h" for i
  proof -
    have "take n (p[h := e]) ! i \<noteq> take n (p[h := e]) ! h"
      using that h d by (subst nth_eq_iff_index_eq) simp_all
    with that h show ?thesis by simp
  qed
  with h pl heap e show ?thesis
    by (auto simp: heap_put_def sifted_def placed_but_def only_idx_update nth_list_update)
qed

text \<open>Moving the event at \<open>j\<close> into the hole at \<open>h\<close>, which leaves a hole at \<open>j\<close>.\<close>

lemma move_hole:
  assumes h: "h < n" "j < n" "h \<noteq> j" "n \<le> length p" and d: "distinct (take n (p[h := e]))"
    and pl: "placed_but ev p n h"
  defines "p1 \<equiv> p[h := p ! j]" and "ev1 \<equiv> ev(p ! j := (ev (p ! j))\<lparr>min_heap_idx := int h\<rparr>)"
    and "q \<equiv> p[h := e]"
  shows "heap_put h (p ! j) (p, ev) = Inr (p1, ev1)" "placed_but ev1 p1 n j"
    "p1[j := e] = q[h := q ! j, j := q ! h]" "mset (take n (p1[j := e])) = mset (take n q)"
    "drop n (p1[j := e]) = drop n q" "distinct (take n (p1[j := e]))" "due ev1 = due ev"
    "only_idx (set (take n q)) ev ev1"
proof -
  show "heap_put h (p ! j) (p, ev) = Inr (p1, ev1)"
    using h by (simp add: heap_put_def p1_def ev1_def)
  have ne: "p ! i \<noteq> p ! j" if "i < n" "i \<noteq> h" "i \<noteq> j" for i
  proof -
    have "take n (p[h := e]) ! i \<noteq> take n (p[h := e]) ! j"
      using that h d by (subst nth_eq_iff_index_eq) simp_all
    with that h show ?thesis by simp
  qed
  then show "placed_but ev1 p1 n j"
    using h pl by (auto simp: placed_but_def ev1_def p1_def nth_list_update)
  show eq: "p1[j := e] = q[h := q ! j, j := q ! h]" using h by (simp add: p1_def q_def)
  have n: "n \<le> length q" using h by (simp add: q_def)
  show m: "mset (take n (p1[j := e])) = mset (take n q)" and "drop n (p1[j := e]) = drop n q"
    unfolding eq using swap_take [OF h(1,2) n] .
  from mset_eq_imp_distinct_iff [OF m] d show "distinct (take n (p1[j := e]))" by (simp add: q_def)
  show "due ev1 = due ev" by (auto simp: ev1_def)
  have "p ! j \<in> set (take n q)" using h by (auto simp: q_def in_set_conv_nth intro!: exI [of _ j])
  then show "only_idx (set (take n q)) ev ev1" by (simp add: ev1_def only_idx_update)
qed

lemma sifted_trans:
  assumes "sifted q1 n ev1 r" and "mset (take n q1) = mset (take n q)" "drop n q1 = drop n q" "length q1 = length q"
    and "due ev1 = due ev" "only_idx (set (take n q)) ev ev1"
  shows "sifted q n ev r"
proof -
  have "set (take n q1) = set (take n q)" using assms(2) mset_eq_setD by blast
  with assms show ?thesis by (auto simp: sifted_def intro: only_idx_trans)
qed

lemma shift_up_parent:
  "0 < h \<Longrightarrow> up h < length p \<Longrightarrow> min_heap_shift_up h e (p, ev) =
     (if due ev e < due ev (p ! up h)
      then bindE (heap_put h (p ! up h) (p, ev)) (min_heap_shift_up (up h) e)
      else heap_put h e (p, ev))"
  by (subst min_heap_shift_up.simps) (simp add: heap_slot_def min_heap_elem_greater_def Let_def up_def)

lemma shift_up_sifts:
  assumes "h < n" "n \<le> length p" "distinct (take n (p[h := e]))" "placed_but ev p n h"
    "except_up (due ev) (p[h := e]) n h"
  shows "runs (min_heap_shift_up h e (p, ev)) (sifted (p[h := e]) n ev)"
  using assms
proof (induction h arbitrary: p ev rule: less_induct)
  case (less h)
  let ?q = "p[h := e]"
  show ?case
  proof (cases "h = 0 \<or> due ev (?q ! up h) \<le> due ev e")
    case True
    then have "heap_by (due ev) ?q n"
      using less.prems by (intro except_up_done) (auto simp: nth_list_update)
    moreover have "min_heap_shift_up h e (p, ev) = heap_put h e (p, ev)"
    proof (cases "h = 0")
      case False
      then have "up h < h" "up h < length p" using less.prems up_less [of h] by linarith+
      with False True shift_up_parent [of h p e ev] show ?thesis by (auto dest: leD)
    qed (simp add: min_heap_shift_up.simps)
    ultimately show ?thesis using put_sifted less.prems by simp
  next
    case False
    then have "0 < h" by simp
    with up_less have lt: "up h < h" .
    with False less.prems have h: "0 < h" "up h < h" "up h < n" "?q ! up h = p ! up h" "?q ! h = e"
      by auto
    from h(2) have ne: "h \<noteq> up h" by simp
    note mv = move_hole [OF less.prems(1) h(3) ne less.prems(2,3,4)]
    let ?p1 = "p[h := p ! up h]" and ?ev1 = "ev(p ! up h := (ev (p ! up h))\<lparr>min_heap_idx := int h\<rparr>)"
    have "except_up (due ev) (?q[h := ?q ! up h, up h := ?q ! h]) n (up h)"
      using False less.prems(2) h(5) by (intro except_up_step [OF less.prems(5) h(1) less.prems(1)]) (simp_all add: not_le)
    then have "except_up (due ?ev1) (?p1[up h := e]) n (up h)" by (simp only: mv(3,7))
    then have "runs (min_heap_shift_up (up h) e (?p1, ?ev1)) (sifted (?p1[up h := e]) n ?ev1)"
      using less.prems(2) by (intro less.IH [OF h(2,3) _ mv(6,2)]) simp_all
    then have "runs (min_heap_shift_up (up h) e (?p1, ?ev1)) (sifted ?q n ev)"
      by (elim runs_mono sifted_trans [OF _ mv(4,5) _ mv(7,8)]) simp
    moreover have "min_heap_shift_up h e (p, ev) = min_heap_shift_up (up h) e (?p1, ?ev1)"
      using False h less.prems mv(1) shift_up_parent [of h p e ev] by auto
    ultimately show ?thesis by simp
  qed
qed

text \<open>The child chosen is a smallest one.\<close>

lemma smaller_child_least:
  assumes "2 * (h + 1) \<le> n" "n \<le> length p"
  obtains c where "smaller_child n (2 * (h + 1)) p ev = Inr c" "up c = h" "h < c" "c < n"
    "\<And>i. i < n \<Longrightarrow> 0 < i \<Longrightarrow> up i = h \<Longrightarrow> due ev (p ! c) \<le> due ev (p ! i)"
proof -
  let ?c = "2 * h + 2"
  consider "?c = n" | "?c < n" "due ev (p ! (2 * h + 1)) < due ev (p ! ?c)" | "?c < n" "due ev (p ! ?c) \<le> due ev (p ! (2 * h + 1))"
    using assms by fastforce
  then show ?thesis
  proof cases
    case 1
    with assms show ?thesis by (intro that [of "2 * h + 1"]) (auto simp: smaller_child_def up_eq_iff)
  next
    case 2
    with assms show ?thesis
      by (intro that [of "2 * h + 1"])
        (auto simp: smaller_child_def up_eq_iff heap_slot_def min_heap_elem_greater_def)
  next
    case 3
    with assms show ?thesis
      by (intro that [of ?c]) (auto simp: smaller_child_def up_eq_iff heap_slot_def min_heap_elem_greater_def)
  qed
qed

lemma shift_down_sifts:
  assumes "h < n" "n \<le> length p" "distinct (take n (p[h := e]))" "placed_but ev p n h"
    "except_down (due ev) (p[h := e]) n h"
  shows "runs (min_heap_shift_down n h e (p, ev)) (sifted (p[h := e]) n ev)"
  using assms
proof (induction "n - h" arbitrary: h p ev rule: less_induct)
  case less
  let ?q = "p[h := e]"
  have put: "runs (heap_put h e (p, ev)) (sifted ?q n ev)"
    if "\<And>i. i < n \<Longrightarrow> 0 < i \<Longrightarrow> up i = h \<Longrightarrow> due ev e \<le> due ev (?q ! i)"
    using less.prems by (intro put_sifted except_down_done) (auto dest: that)
  show ?case
  proof (cases "2 * (h + 1) \<le> n")
    case False
    then have "runs (heap_put h e (p, ev)) (sifted ?q n ev)"
      by (intro put) (auto simp: up_eq_iff)
    with False show ?thesis by (simp add: min_heap_shift_down.simps)
  next
    case True
    from smaller_child_least [OF True less.prems(2), of ev] obtain c where
      sc: "smaller_child n (2 * (h + 1)) p ev = Inr c" and c: "up c = h" "h < c" "c < n"
      and least: "\<And>i. i < n \<Longrightarrow> 0 < i \<Longrightarrow> up i = h \<Longrightarrow> due ev (p ! c) \<le> due ev (p ! i)" by blast
    have old: "?q ! i = p ! i" if "0 < i" "up i = h" for i using that up_less [of i] by simp
    have unf: "min_heap_shift_down n h e (p, ev) =
        (if due ev (p ! c) < due ev e
         then bindE (heap_put h (p ! c) (p, ev)) (min_heap_shift_down n c e) else heap_put h e (p, ev))"
      using True sc c less.prems(2)
      by (subst min_heap_shift_down.simps) (simp add: heap_slot_def min_heap_elem_greater_def)
    show ?thesis
    proof (cases "due ev (p ! c) < due ev e")
      case False
      then have "due ev e \<le> due ev (p ! c)" by (simp add: not_less)
      from order_trans [OF this least] old have "runs (heap_put h e (p, ev)) (sifted ?q n ev)"
        by (intro put) simp
      with False show ?thesis by (simp add: unf)
    next
      case True
      from c(2) have ne: "h \<noteq> c" by simp
      note mv = move_hole [OF less.prems(1) c(3) ne less.prems(2,3,4)]
      let ?p1 = "p[h := p ! c]" and ?ev1 = "ev(p ! c := (ev (p ! c))\<lparr>min_heap_idx := int h\<rparr>)"
      have "except_down (due ev) (?q[h := ?q ! c, c := ?q ! h]) n c"
        using less.prems(1,2) True c least old
        by (intro except_down_step [OF less.prems(5) _ c(3,1)]) simp_all
      then have "except_down (due ?ev1) (?p1[c := e]) n c" by (simp only: mv(3,7))
      then have "runs (min_heap_shift_down n c e (?p1, ?ev1)) (sifted (?p1[c := e]) n ?ev1)"
        using c(2,3) less.prems(1,2) by (intro less.hyps [OF _ c(3) _ mv(6,2)]) simp_all
      then have "runs (min_heap_shift_down n c e (?p1, ?ev1)) (sifted ?q n ev)"
        by (elim runs_mono sifted_trans [OF _ mv(4,5) _ mv(7,8)]) simp
      with mv(1) c True show ?thesis by (simp add: unf)
    qed
  qed
qed

section \<open>The heap as a set of events\<close>

definition heap_members :: "min_heap \<Rightarrow> nat set" where
  "heap_members s = set (take (mh_n s) (mh_p s))"

definition heap_ok :: "min_heap \<times> events \<Rightarrow> bool" where
  "heap_ok = (\<lambda>(s, ev).
     mh_n s \<le> mh_a s \<and> length (mh_p s) = mh_a s \<and> mh_a s < 2 ^ 30
     \<and> placed_but ev (mh_p s) (mh_n s) (mh_n s) \<and> heap_by (due ev) (mh_p s) (mh_n s))"

text \<open>What \<open>realloc\<close> promises, and that it may fail.\<close>

definition realloc_ok :: "slot_realloc \<Rightarrow> bool" where
  "realloc_ok mm_realloc \<longleftrightarrow>
     (\<forall>sz p p'. mm_realloc sz p = Some p' \<longrightarrow>
        length p' = sz div 4 \<and> (\<forall>i. i < length p \<longrightarrow> i < length p' \<longrightarrow> p' ! i = p ! i))"

definition realloc_fails :: "slot_realloc \<Rightarrow> bool" where
  "realloc_fails mm_realloc \<longleftrightarrow> (\<exists>sz p. mm_realloc sz p = None)"

lemma heap_ok_ctor [simp]: "heap_ok (min_heap_ctor, ev)" "heap_members min_heap_ctor = {}"
  by (simp_all add: heap_ok_def min_heap_ctor_def placed_but_def heap_by_def heap_members_def)

lemma placed_distinct: "placed_but ev p n n \<Longrightarrow> n \<le> length p \<Longrightarrow> distinct (take n p)"
  unfolding placed_but_def distinct_conv_nth
  by (metis length_take min.absorb2 nat_neq_iff nth_take of_nat_eq_iff)

lemma heap_ok_distinct: "heap_ok (s, ev) \<Longrightarrow> distinct (take (mh_n s) (mh_p s))"
  by (auto simp: heap_ok_def intro: placed_distinct)

lemma member_placed:
  assumes "heap_ok (s, ev)" "e \<in> heap_members s"
  obtains h where "h < mh_n s" "h < length (mh_p s)" "mh_p s ! h = e" "min_heap_idx (ev e) = int h"
  using assms by (auto simp: heap_ok_def heap_members_def placed_but_def in_set_conv_nth)

lemma heap_by_cong: "(\<And>i. i < n \<Longrightarrow> k (q ! i) = k' (q' ! i)) \<Longrightarrow> heap_by k q n = heap_by k' q' n"
  unfolding heap_by_def by (metis up_less order_less_trans)

lemma placed_but_cong: "(\<And>i. i < n \<Longrightarrow> q ! i = q' ! i) \<Longrightarrow> placed_but ev q n h = placed_but ev q' n h"
  by (simp add: placed_but_def)

text \<open>A smallest element is on top.\<close>

lemma heap_top:
  assumes "heap_ok (s, ev)"
  shows "\<exists>r. min_heap_top s = Inr r
     \<and> (case r of None \<Rightarrow> heap_members s = {}
        | Some e \<Rightarrow> e \<in> heap_members s \<and> (\<forall>x\<in>heap_members s. ev_timeout (ev e) \<le> ev_timeout (ev x)))"
proof (cases "mh_n s = 0")
  case False
  then have "min_heap_top s = Inr (Some (mh_p s ! 0))" "mh_p s ! 0 \<in> heap_members s"
    using assms by (auto simp: min_heap_top_def heap_slot_def heap_ok_def heap_members_def in_set_conv_nth
        intro!: exI [of _ 0])
  moreover have "due ev (mh_p s ! 0) \<le> due ev x" if "x \<in> heap_members s" for x
    using that assms heap_by_top by (force simp: heap_members_def in_set_conv_nth heap_ok_def)
  ultimately show ?thesis by simp
qed (simp add: min_heap_top_def heap_members_def)

lemma elt_is_top_iff:
  assumes "heap_ok (s, ev)" "e \<in> heap_members s"
  shows "min_heap_elt_is_top (ev e) \<longleftrightarrow> min_heap_top s = Inr (Some e)"
proof -
  from assms obtain h where h: "h < mh_n s" "h < length (mh_p s)" "mh_p s ! h = e" "min_heap_idx (ev e) = int h"
    by (rule member_placed)
  then have "mh_p s \<noteq> []" by auto
  with h(1) have top: "min_heap_top s = Inr (Some (mh_p s ! 0))" by (simp add: min_heap_top_def heap_slot_def)
  have "min_heap_idx (ev (mh_p s ! 0)) = 0" using assms(1) h(1) by (auto simp: heap_ok_def placed_but_def)
  with h(3,4) have "h = 0 \<longleftrightarrow> mh_p s ! 0 = e" by (metis of_nat_eq_0_iff)
  with h(4) top show ?thesis by (simp add: min_heap_elt_is_top_def)
qed

lemma reserve_room:
  assumes "realloc_ok mm_realloc" "heap_ok (s, ev)" "mh_n s < 2 ^ 29"
  shows "(min_heap_reserve mm_realloc s (mh_n s + 1) = (-1, s) \<and> realloc_fails mm_realloc)
    \<or> (\<exists>s'. min_heap_reserve mm_realloc s (mh_n s + 1) = (0, s') \<and> mh_n s' = mh_n s \<and> mh_n s < mh_a s'
         \<and> length (mh_p s') = mh_a s' \<and> mh_a s' < 2 ^ 30 \<and> (\<forall>i<mh_n s. mh_p s' ! i = mh_p s ! i))"
proof (cases "mh_a s < mh_n s + 1")
  case True
  define a where "a = (if mh_a s = 0 then 8 else mh_a s * 2)"
  have n: "mh_a s = mh_n s" "length (mh_p s) = mh_n s" using assms(2) True by (auto simp: heap_ok_def)
  with assms(3) have a: "mh_n s + 1 \<le> a" "a < 2 ^ 30" "a mod SIZE_MOD = a" "(a * 4) mod SIZE_MOD = a * 4"
    by (auto simp: a_def SIZE_MOD_def)
  have res: "min_heap_reserve mm_realloc s (mh_n s + 1) =
      (case mm_realloc (a * 4) (mh_p s) of None \<Rightarrow> (-1, s) | Some p \<Rightarrow> (0, s\<lparr>mh_p := p, mh_a := a\<rparr>))"
    using True a by (cases "mm_realloc (a * 4) (mh_p s)") (auto simp: min_heap_reserve_def a_def Let_def)
  show ?thesis
  proof (cases "mm_realloc (a * 4) (mh_p s)")
    case None
    with res show ?thesis by (auto simp: realloc_fails_def)
  next
    case (Some p')
    with assms(1) have "length p' = a" "\<forall>i. i < length (mh_p s) \<longrightarrow> i < length p' \<longrightarrow> p' ! i = mh_p s ! i"
      by (auto simp: realloc_ok_def)
    with res Some a n show ?thesis by auto
  qed
qed (use assms in \<open>auto simp: min_heap_reserve_def heap_ok_def\<close>)

text \<open>A sifted array makes a heap of the same elements.\<close>

lemma sifted_heap:
  assumes "sifted q m ev (p', ev')" "m \<le> mh_a s" "length q = mh_a s" "mh_a s < 2 ^ 30"
  shows "heap_ok (s\<lparr>mh_p := p', mh_n := m\<rparr>, ev')" "heap_members (s\<lparr>mh_p := p', mh_n := m\<rparr>) = set (take m q)"
    "only_idx (set (take m q)) ev ev'" "due ev' = due ev"
proof -
  from assms(1) have s: "length p' = length q" "mset (take m p') = mset (take m q)" "heap_by (due ev) p' m"
    "placed_but ev' p' m m" "only_idx (set (take m q)) ev ev'" by (auto simp: sifted_def)
  then show "only_idx (set (take m q)) ev ev'" and d: "due ev' = due ev" by (auto intro: only_idx_due)
  show "heap_ok (s\<lparr>mh_p := p', mh_n := m\<rparr>, ev')" using s assms d by (simp add: heap_ok_def)
  show "heap_members (s\<lparr>mh_p := p', mh_n := m\<rparr>) = set (take m q)"
    using mset_eq_setD [OF s(2)] by (simp add: heap_members_def)
qed

text \<open>Pushing an event that is not in the heap.\<close>

lemma heap_push:
  assumes re: "realloc_ok mm_realloc" and ok: "heap_ok (s, ev)" and e: "e \<notin> heap_members s" and n: "mh_n s < 2 ^ 29"
  shows "runs (min_heap_push mm_realloc e (s, ev)) (\<lambda>(r, s', ev').
     (r = -1 \<and> s' = s \<and> ev' = ev \<and> realloc_fails mm_realloc)
   \<or> (r = 0 \<and> heap_ok (s', ev') \<and> mh_n s' = mh_n s + 1 \<and> heap_members s' = insert e (heap_members s)
      \<and> only_idx (insert e (heap_members s)) ev ev'))"
proof -
  let ?n = "mh_n s"
  have az: "addz ?n 1 = ?n + 1" using n by (simp add: addz_exact SIZE_MOD_def)
  from reserve_room [OF re ok n] show ?thesis
  proof (elim disjE exE conjE, goal_cases)
    case 1
    with az show ?case by (simp add: min_heap_push_def)
  next
    case (2 s1)
    let ?p = "mh_p s1" and ?q = "(mh_p s1)[?n := e]"
    have tk: "take (?n + 1) ?q = take ?n (mh_p s) @ [e]"
      using 2 ok by (intro nth_equalityI) (auto simp: heap_ok_def nth_append nth_list_update less_Suc_eq)
    have "runs (min_heap_shift_up ?n e (?p, ev)) (sifted ?q (?n + 1) ev)"
    proof (rule shift_up_sifts)
      show "?n < ?n + 1" "?n + 1 \<le> length ?p" using 2 by simp_all
      show "distinct (take (?n + 1) ?q)" using tk e heap_ok_distinct [OF ok] by (simp add: heap_members_def)
      have "placed_but ev ?p ?n ?n" using 2 ok placed_but_cong [of ?n "mh_p s" ?p ev ?n] by (simp add: heap_ok_def)
      then show "placed_but ev ?p (?n + 1) ?n" by (auto simp: placed_but_def less_Suc_eq)
      have "heap_by (due ev) ?p ?n"
        using 2 ok heap_by_cong [of ?n "due ev" "mh_p s" "due ev" ?p] by (simp add: heap_ok_def)
      then show "except_up (due ev) ?q (?n + 1) ?n" by (rule except_up_leaf)
    qed
    then show ?case
    proof (rule runsE)
      fix r
      assume r: "min_heap_shift_up ?n e (?p, ev) = Inr r" "sifted ?q (?n + 1) ev r"
      obtain p' ev' where pe: "r = (p', ev')" by (cases r)
      have "set (take (?n + 1) ?q) = insert e (heap_members s)" unfolding tk by (simp add: heap_members_def)
      then show ?thesis
        using sifted_heap [of ?q "?n + 1" ev p' ev' s1] r pe 2 az by (simp add: min_heap_push_def)
    qed
  qed
qed

text \<open>With room left in the array nothing can go wrong.\<close>

lemma push_fits:
  assumes "mh_n s < mh_a s" "mh_n s < 2 ^ 29" "min_heap_push mm_realloc e (s, ev) = Inr (r, s', ev')"
  shows "r = 0 \<and> mh_a s' = mh_a s"
proof -
  have "addz (mh_n s) 1 = mh_n s + 1" using assms(2) by (simp add: addz_exact SIZE_MOD_def)
  moreover have "min_heap_reserve mm_realloc s (mh_n s + 1) = (0, s)" using assms(1) by (simp add: min_heap_reserve_def)
  ultimately show ?thesis using assms(3) by (auto simp: min_heap_push_def bindE_Inr_iff)
qed

text \<open>Replacing the event at \<open>h\<close> by the last one.\<close>

lemma replace_last:
  assumes "heap_by k p (n + 1)" "distinct (take (n + 1) p)" "n + 1 \<le> length p" "h < n"
  defines "q \<equiv> p[h := p ! n]"
  shows "distinct (take n q)" "set (take n q) = set (take (n + 1) p) - {p ! h}"
    "0 < h \<Longrightarrow> k (p ! n) < k (p ! up h) \<Longrightarrow> except_up k q n h"
    "h = 0 \<or> k (p ! up h) \<le> k (p ! n) \<Longrightarrow> except_down k q n h"
proof -
  have tk: "take (n + 1) p = take n p @ [p ! n]" using assms(3) by (simp add: take_Suc_conv_app_nth)
  have tq: "take n q = (take n p)[h := p ! n]" using assms(4) by (simp add: q_def take_update_swap)
  have ndx: "p ! n \<notin> set (take n p)" and d: "distinct (take n p)" using assms(2) unfolding tk by simp_all
  then show "distinct (take n q)" unfolding tq by (intro distinct_list_update) auto
  have "set (take n q) = insert (p ! n) (set (take n p) - {p ! h})"
    unfolding tq using assms(3,4) d by (subst set_update_distinct) simp_all
  moreover have "p ! h \<in> set (take n p)"
    using assms(3,4) unfolding in_set_conv_nth by (intro exI [of _ h]) simp
  with ndx have "p ! h \<noteq> p ! n" by metis
  ultimately show "set (take n q) = set (take (n + 1) p) - {p ! h}"
    unfolding tk by (simp only: set_append list.set insert_Diff_if Un_insert_right Un_empty_right singleton_iff) simp
  have heap: "k (p ! up i) \<le> k (p ! i)" if "i < n" "0 < i" for i using assms(1) that by (simp add: heap_by_def)
  have bridge: "bridged k q n h"
    unfolding bridged_def
  proof (intro impI allI)
    fix i
    assume i: "0 < h" "i < n" "0 < i" "up i = h"
    then have "up h \<noteq> h" "i \<noteq> h" using up_less [of h] up_less [of i] by linarith+
    moreover have "k (p ! up h) \<le> k (p ! h)" "k (p ! h) \<le> k (p ! i)" using heap [of h] heap [of i] i assms(4) by simp_all
    ultimately show "k (q ! up h) \<le> k (q ! i)" by (simp add: q_def)
  qed
  show "except_up k q n h" if h: "0 < h" "k (p ! n) < k (p ! up h)"
    unfolding except_up_def
  proof (intro conjI bridge allI impI)
    fix i
    assume i: "i < n" "0 < i" "i \<noteq> h"
    show "k (q ! up i) \<le> k (q ! i)"
    proof (cases "up i = h")
      case True
      with i heap [of i] heap [of h] h assms(3,4) have "k (p ! n) \<le> k (p ! i)" by simp
      with True i assms(3,4) show ?thesis by (simp add: q_def)
    qed (use i heap [of i] in \<open>simp add: q_def\<close>)
  qed
  show "except_down k q n h" if h: "h = 0 \<or> k (p ! up h) \<le> k (p ! n)"
    unfolding except_down_def
  proof (intro conjI bridge allI impI)
    fix i
    assume i: "i < n" "0 < i" "up i \<noteq> h"
    show "k (q ! up i) \<le> k (q ! i)"
      using i h heap [of i] assms(3,4) by (cases "i = h") (simp_all add: q_def)
  qed
qed

text \<open>Taking the last event away, and restoring the heap without the event at \<open>h\<close>.\<close>

lemma without_last:
  assumes "heap_ok (s, ev)" "mh_n s = n + 1"
  shows "heap_by (due ev) (mh_p s) n" "placed_but ev (mh_p s) n n"
    "set (take n (mh_p s)) = heap_members s - {mh_p s ! n}"
proof -
  show "heap_by (due ev) (mh_p s) n" "placed_but ev (mh_p s) n n"
    using assms by (auto simp: heap_ok_def heap_by_def placed_but_def)
  have "take (n + 1) (mh_p s) = take n (mh_p s) @ [mh_p s ! n]"
    using assms by (simp add: heap_ok_def take_Suc_conv_app_nth)
  with heap_ok_distinct [OF assms(1)] assms(2)
  show "set (take n (mh_p s)) = heap_members s - {mh_p s ! n}" by (auto simp: heap_members_def)
qed

definition erased :: "nat \<Rightarrow> min_heap \<times> events \<Rightarrow> min_heap \<times> events \<Rightarrow> bool" where
  "erased e = (\<lambda>(s, ev) (s', ev').
     heap_ok (s', ev') \<and> mh_n s' = mh_n s - 1 \<and> heap_members s' = heap_members s - {e}
     \<and> min_heap_idx (ev' e) = -1 \<and> only_idx (heap_members s) ev ev')"

lemma forget_position:
  assumes "heap_ok (s', ev')" "mh_n s' = mh_n s - 1" "heap_members s' = heap_members s - {e}"
    "only_idx (heap_members s) ev ev'" "e \<in> heap_members s"
  shows "erased e (s, ev) (s', ev'(e := (ev' e)\<lparr>min_heap_idx := -1\<rparr>))"
proof -
  have "heap_ok (s', ev'(e := (ev' e)\<lparr>min_heap_idx := -1\<rparr>))"
  proof -
    have "mh_p s' ! i \<noteq> e" if "i < mh_n s'" for i
      using that assms(1,3) by (force simp: heap_ok_def heap_members_def in_set_conv_nth)
    moreover have "heap_by (due (ev'(e := (ev' e)\<lparr>min_heap_idx := -1\<rparr>))) (mh_p s') (mh_n s')
        = heap_by (due ev') (mh_p s') (mh_n s')"
      by (rule heap_by_cong) simp
    ultimately show ?thesis using assms(1) by (simp add: heap_ok_def placed_but_def)
  qed
  then show ?thesis
    using assms by (auto simp: erased_def intro: only_idx_trans only_idx_update)
qed

lemma replaced_sifts:
  assumes ok: "heap_ok (s, ev)" and n: "mh_n s = n + 1" and h: "h < n"
  shows "0 < h \<Longrightarrow> due ev (mh_p s ! n) < due ev (mh_p s ! up h) \<Longrightarrow>
           runs (min_heap_shift_up h (mh_p s ! n) (mh_p s, ev)) (sifted ((mh_p s)[h := mh_p s ! n]) n ev)"
    and "h = 0 \<or> due ev (mh_p s ! up h) \<le> due ev (mh_p s ! n) \<Longrightarrow>
           runs (min_heap_shift_down n h (mh_p s ! n) (mh_p s, ev)) (sifted ((mh_p s)[h := mh_p s ! n]) n ev)"
proof -
  have "heap_by (due ev) (mh_p s) (n + 1)" "distinct (take (n + 1) (mh_p s))" "n + 1 \<le> length (mh_p s)"
    using ok n heap_ok_distinct [OF ok] by (simp_all add: heap_ok_def)
  note rl = replace_last [OF this h] and pl = without_last(2) [OF ok n]
  have len: "n \<le> length (mh_p s)" using \<open>n + 1 \<le> length (mh_p s)\<close> by simp
  have pb: "placed_but ev (mh_p s) n h" using pl by (auto simp: placed_but_def)
  show "0 < h \<Longrightarrow> due ev (mh_p s ! n) < due ev (mh_p s ! up h) \<Longrightarrow>
      runs (min_heap_shift_up h (mh_p s ! n) (mh_p s, ev)) (sifted ((mh_p s)[h := mh_p s ! n]) n ev)"
    using shift_up_sifts [OF h len rl(1) pb rl(3)] by simp
  show "h = 0 \<or> due ev (mh_p s ! up h) \<le> due ev (mh_p s ! n) \<Longrightarrow>
      runs (min_heap_shift_down n h (mh_p s ! n) (mh_p s, ev)) (sifted ((mh_p s)[h := mh_p s ! n]) n ev)"
    using shift_down_sifts [OF h len rl(1) pb rl(4)] by simp
qed

lemma replaced_erased:
  assumes ok: "heap_ok (s, ev)" and n: "mh_n s = n + 1" and h: "h < n" "mh_p s ! h = e"
    and si: "sifted ((mh_p s)[h := mh_p s ! n]) n ev (p', ev')"
  shows "erased e (s, ev) (s\<lparr>mh_p := p', mh_n := n\<rparr>, ev'(e := (ev' e)\<lparr>min_heap_idx := -1\<rparr>))"
proof (rule forget_position)
  have len: "n + 1 \<le> mh_a s" "length (mh_p s) = mh_a s" "mh_a s < 2 ^ 30" using ok n by (auto simp: heap_ok_def)
  have "heap_by (due ev) (mh_p s) (n + 1)" "distinct (take (n + 1) (mh_p s))" "n + 1 \<le> length (mh_p s)"
    using ok n heap_ok_distinct [OF ok] by (simp_all add: heap_ok_def)
  note rl = replace_last(2) [OF this h(1)]
  have set: "set (take n ((mh_p s)[h := mh_p s ! n])) = heap_members s - {e}"
    using rl n h(2) by (simp add: heap_members_def)
  note sh = sifted_heap [OF si, of s]
  show "heap_ok (s\<lparr>mh_p := p', mh_n := n\<rparr>, ev')" using sh(1) len by simp
  show "heap_members (s\<lparr>mh_p := p', mh_n := n\<rparr>) = heap_members s - {e}" using sh(2) len set by simp
  show "only_idx (heap_members s) ev ev'" using sh(3) len set by (auto simp: only_idx_def)
  show "e \<in> heap_members s"
    using h n len unfolding heap_members_def in_set_conv_nth by (intro exI [of _ h]) simp
qed (use n in simp)

lemma heap_erase:
  assumes ok: "heap_ok (s, ev)" and e: "e \<in> heap_members s"
  shows "runs (min_heap_erase e (s, ev)) (\<lambda>(r, s', ev'). r = 0 \<and> erased e (s, ev) (s', ev'))"
proof -
  from ok e obtain h where h: "h < mh_n s" "h < length (mh_p s)" "mh_p s ! h = e" "min_heap_idx (ev e) = int h"
    by (rule member_placed)
  define n where "n = mh_n s - 1"
  have n: "mh_n s = n + 1" "subz (mh_n s) 1 = n" "n < length (mh_p s)"
    using h(1) ok by (auto simp: n_def heap_ok_def subz_exact SIZE_MOD_def)
  let ?last = "mh_p s ! n" and ?up = "0 < h \<and> due ev (mh_p s ! n) < due ev (mh_p s ! up h)"
  have par: "0 < h \<Longrightarrow> (h - 1) div 2 = up h \<and> up h < length (mh_p s)"
    using h(2) up_less [of h] by (simp add: up_def)
  have unf: "min_heap_erase e (s, ev) =
      bindE (if ?up then min_heap_shift_up h ?last (mh_p s, ev) else min_heap_shift_down n h ?last (mh_p s, ev))
        (\<lambda>(p, ev). Inr (0, s\<lparr>mh_p := p, mh_n := n\<rparr>, ev(e := (ev e)\<lparr>min_heap_idx := -1\<rparr>)))"
    using h(4) n par by (cases "h = 0") (auto simp: min_heap_erase_def heap_slot_def min_heap_elem_greater_def Let_def)
  show ?thesis
  proof (cases "h = n")
    case True
    have no_up: "\<not> ?up"
    proof
      assume u: ?up
      have "due ev (mh_p s ! up h) \<le> due ev (mh_p s ! h)"
        using ok n(1) u True by (auto simp: heap_ok_def heap_by_def)
      with u True show False by (auto dest: leD)
    qed
    have stays: "ev(e := (ev e)\<lparr>min_heap_idx := int h\<rparr>) = ev" using h(4) by (auto intro!: ext)
    have "min_heap_shift_down n h ?last (mh_p s, ev) = Inr (mh_p s, ev)"
      using True h(2) stays unfolding h(3) [symmetric] by (simp add: min_heap_shift_down.simps heap_put_def)
    moreover have "erased e (s, ev) (s\<lparr>mh_p := mh_p s, mh_n := n\<rparr>, ev(e := (ev e)\<lparr>min_heap_idx := -1\<rparr>))"
      using ok n(1) h(3) True e without_last [OF ok n(1)]
      by (intro forget_position) (auto simp: heap_ok_def heap_members_def)
    ultimately show ?thesis using no_up unfolding unf by auto
  next
    case False
    with h(1) n(1) have hn: "h < n" by simp
    have fin: "erased e (s, ev) (s\<lparr>mh_p := p', mh_n := n\<rparr>, ev'(e := (ev' e)\<lparr>min_heap_idx := -1\<rparr>))"
      if "sifted ((mh_p s)[h := mh_p s ! n]) n ev (p', ev')" for p' ev'
      using replaced_erased [OF ok n(1) hn h(3) that] .
    have "runs (if ?up then min_heap_shift_up h ?last (mh_p s, ev) else min_heap_shift_down n h ?last (mh_p s, ev))
        (sifted ((mh_p s)[h := ?last]) n ev)"
      using replaced_sifts [OF ok n(1) hn] by (auto simp: not_less)
    then show ?thesis unfolding unf by (rule runs_bindI) (use fin in auto)
  qed
qed

text \<open>\<open>min_heap_pop\<close> does to the top what \<open>min_heap_erase\<close> does.\<close>

lemma heap_pop:
  assumes ok: "heap_ok (s, ev)"
  shows "runs (min_heap_pop (s, ev)) (\<lambda>(r, s', ev').
     min_heap_top s = Inr r \<and> (case r of None \<Rightarrow> s' = s \<and> ev' = ev | Some e \<Rightarrow> erased e (s, ev) (s', ev')))"
proof (cases "mh_n s = 0")
  case False
  then obtain n where n: "mh_n s = n + 1" by (cases "mh_n s") simp_all
  then have len: "n < length (mh_p s)" "0 < length (mh_p s)" using ok by (auto simp: heap_ok_def)
  let ?e = "mh_p s ! 0"
  have e: "?e \<in> heap_members s"
    using n len unfolding heap_members_def in_set_conv_nth by (intro exI [of _ 0]) simp
  have idx: "min_heap_idx (ev ?e) = 0" using ok n by (simp add: heap_ok_def placed_but_def)
  have "min_heap_erase ?e (s, ev) =
      bindE (min_heap_shift_down n 0 (mh_p s ! n) (mh_p s, ev))
        (\<lambda>(p, ev). Inr (0, s\<lparr>mh_p := p, mh_n := n\<rparr>, ev(?e := (ev ?e)\<lparr>min_heap_idx := -1\<rparr>)))"
    using n len ok idx
    by (simp add: min_heap_erase_def heap_slot_def Let_def heap_ok_def subz_exact SIZE_MOD_def)
  moreover have "min_heap_pop (s, ev) =
      bindE (min_heap_shift_down n 0 (mh_p s ! n) (mh_p s, ev))
        (\<lambda>(p, ev). Inr (Some ?e, s\<lparr>mh_p := p, mh_n := n\<rparr>, ev(?e := (ev ?e)\<lparr>min_heap_idx := -1\<rparr>)))"
    using n len by (simp add: min_heap_pop_def heap_slot_def Let_def)
  moreover have "min_heap_top s = Inr (Some ?e)" using n len by (simp add: min_heap_top_def heap_slot_def)
  ultimately show ?thesis
    using heap_erase [OF ok e] by (cases "min_heap_shift_down n 0 (mh_p s ! n) (mh_p s, ev)") auto
qed (simp add: min_heap_pop_def min_heap_top_def)

section \<open>The interface: a queue ordered by time\<close>

text \<open>Taking elements until none is left, at most \<open>n\<close> times.\<close>

fun pop_all :: "('s \<Rightarrow> ('e option \<times> 's) exec) \<Rightarrow> nat \<Rightarrow> 's \<Rightarrow> ('e list \<times> 's) exec" where
  "pop_all pop 0 s = Inr ([], s)"
| "pop_all pop (Suc n) s =
     bindE (pop s) (\<lambda>(r, s').
       case r of
         None \<Rightarrow> Inr ([], s')
       | Some e \<Rightarrow> bindE (pop_all pop n s') (\<lambda>(es, s''). Inr (e # es, s'')))"

locale priority_queue =
  fixes inv :: "'s \<Rightarrow> bool"
    and elems :: "'s \<Rightarrow> 'e set"
    and key :: "'s \<Rightarrow> 'e \<Rightarrow> 'k::linorder"
    and top :: "'s \<Rightarrow> 'e option exec"
    and pop :: "'s \<Rightarrow> ('e option \<times> 's) exec"
    and erase :: "'e \<Rightarrow> 's \<Rightarrow> (int \<times> 's) exec"
  assumes finite_law: "inv s \<Longrightarrow> finite (elems s)"
    and top_law: "inv s \<Longrightarrow> runs (top s) (\<lambda>r. case r of
          None \<Rightarrow> elems s = {} | Some e \<Rightarrow> e \<in> elems s \<and> (\<forall>x\<in>elems s. key s e \<le> key s x))"
    and pop_law: "inv s \<Longrightarrow> runs (pop s) (\<lambda>(r, s'). top s = Inr r
          \<and> (case r of None \<Rightarrow> s' = s | Some e \<Rightarrow> inv s' \<and> elems s' = elems s - {e} \<and> key s' = key s))"
    and erase_law: "inv s \<Longrightarrow> e \<in> elems s \<Longrightarrow> runs (erase e s) (\<lambda>(r, s').
          r = 0 \<and> inv s' \<and> elems s' = elems s - {e} \<and> key s' = key s)"
begin

lemma pop_least:
  assumes "inv s"
  obtains "pop s = Inr (None, s)" "elems s = {}"
  | e s' where "pop s = Inr (Some e, s')" "e \<in> elems s" "\<forall>x\<in>elems s. key s e \<le> key s x"
      "inv s'" "elems s' = elems s - {e}" "key s' = key s"
proof -
  from pop_law [OF assms] obtain r s' where
    p: "pop s = Inr (r, s')" "top s = Inr r"
      "case r of None \<Rightarrow> s' = s | Some e \<Rightarrow> inv s' \<and> elems s' = elems s - {e} \<and> key s' = key s"
    by (auto elim: runsE)
  show ?thesis
    by (cases r) (use that p top_law [OF assms] in auto)
qed

lemma pop_all_sorts:
  assumes "inv s" "card (elems s) \<le> n"
  shows "runs (pop_all pop n s) (\<lambda>(es, s').
     sorted (map (key s) es) \<and> distinct es \<and> set es = elems s \<and> inv s' \<and> elems s' = {})"
  using assms
proof (induction n arbitrary: s)
  case 0
  with finite_law [OF 0(1)] show ?case by simp
next
  case (Suc n)
  from Suc.prems(1) show ?case
  proof (cases rule: pop_least)
    case 1
    then show ?thesis using Suc.prems(1) by simp
  next
    case (2 e s')
    have "card (elems s') \<le> n" using 2 Suc.prems finite_law [OF Suc.prems(1)] by simp
    from Suc.IH [OF 2(4) this] show ?thesis
    proof (rule runsE)
      fix r
      assume r: "pop_all pop n s' = Inr r"
        "case r of (es, s'') \<Rightarrow> sorted (map (key s') es) \<and> distinct es \<and> set es = elems s' \<and> inv s'' \<and> elems s'' = {}"
      with 2 show ?thesis by (cases r) auto
    qed
  qed
qed

text \<open>The least element leaves nothing smaller behind, wherever else elements are erased.\<close>

lemma erase_keeps_least:
  assumes "inv s" "e \<in> elems s" "top s = Inr (Some t)" "t \<noteq> e" "erase e s = Inr (r, s')"
  shows "\<exists>t'. top s' = Inr (Some t') \<and> key s' t' = key s t"
proof -
  from erase_law [OF assms(1,2)] assms(5) have
    s': "inv s'" "elems s' = elems s - {e}" "key s' = key s" by simp_all
  from top_law [OF assms(1)] assms(3) have t: "t \<in> elems s" "\<forall>x\<in>elems s. key s t \<le> key s x" by simp_all
  from top_law [OF s'(1)] obtain r' where
    r': "top s' = Inr r'" "case r' of None \<Rightarrow> elems s' = {} | Some e \<Rightarrow> e \<in> elems s' \<and> (\<forall>x\<in>elems s'. key s' e \<le> key s' x)"
    by (rule runsE)
  have ne: "t \<in> elems s'" using t s' assms(4) by simp
  with r'(2) obtain t' where t': "r' = Some t'" "t' \<in> elems s'" "\<forall>x\<in>elems s'. key s' t' \<le> key s' x"
    by (cases r') auto
  have "key s' t' \<le> key s' t" using t'(3) ne by blast
  moreover have "key s t \<le> key s t'" using t(2) t'(2) s'(2) by blast
  ultimately show ?thesis using r'(1) t'(1) s'(3) by auto
qed

end

definition heap_elems :: "min_heap \<times> events \<Rightarrow> nat set" where
  "heap_elems = (\<lambda>(s, ev). heap_members s)"

definition heap_key :: "min_heap \<times> events \<Rightarrow> nat \<Rightarrow> timeval" where
  "heap_key = (\<lambda>(s, ev) e. ev_timeout (ev e))"

lemma erased_elems:
  "erased e x y \<Longrightarrow> heap_ok y \<and> heap_elems y = heap_elems x - {e} \<and> heap_key y = heap_key x"
  by (cases x; cases y) (auto simp: erased_def heap_elems_def heap_key_def dest: only_idx_due)

interpretation mh: priority_queue heap_ok heap_elems heap_key "\<lambda>(s, ev). min_heap_top s" min_heap_pop min_heap_erase
proof (unfold_locales, goal_cases)
  case (1 s)
  then show ?case by (auto simp: heap_elems_def heap_members_def split: prod.splits)
next
  case (2 s)
  then obtain h ev where s: "s = (h, ev)" "heap_ok (h, ev)" by (cases s) auto
  from heap_top [OF s(2)] show ?case
    by (auto simp: s(1) heap_elems_def heap_key_def runs_iff split: option.splits)
next
  case (3 s)
  then have "runs (min_heap_pop s) (\<lambda>(r, s'). min_heap_top (fst s) = Inr r
      \<and> (case r of None \<Rightarrow> s' = s | Some e \<Rightarrow> erased e s s'))"
    using heap_pop [of "fst s" "snd s"] by (auto elim!: runs_mono split: option.splits)
  then show ?case
    by (rule runs_mono) (auto split: option.splits dest: erased_elems simp: case_prod_beta)
next
  case (4 s e)
  then have "runs (min_heap_erase e s) (\<lambda>(r, s'). r = 0 \<and> erased e s s')"
    using heap_erase [of "fst s" "snd s" e] by (auto elim!: runs_mono simp: heap_elems_def split: prod.splits)
  then show ?case by (rule runs_mono) (auto dest: erased_elems)
qed

section \<open>Properties\<close>

text \<open>
  C25: the invariant of the heap (no access outside the array, every event knows its position, no event
  is due before its parent) is kept by adding an event that is not in the heap, by erasing an event that
  is and by taking the top; the set of events in the heap changes by just that event, and no field of an
  event changes but the position. Adding gives -1 and changes nothing if there is no memory; the top is
  an event that is due first, and \<open>min_heap_elt_is_top\<close> recognises it.
\<close>

theorem min_heap_invariant:
  assumes "realloc_ok mm_realloc" and "heap_ok (s, ev)" and "mh_n s < 2 ^ 29"
  shows "(e \<notin> heap_members s \<longrightarrow> (\<exists>r s' ev'. min_heap_push mm_realloc e (s, ev) = Inr (r, s', ev')
            \<and> (if r = 0 then heap_ok (s', ev') \<and> heap_members s' = insert e (heap_members s)
                            \<and> only_idx (insert e (heap_members s)) ev ev'
               else r = -1 \<and> s' = s \<and> ev' = ev \<and> realloc_fails mm_realloc)))
       \<and> (e \<in> heap_members s \<longrightarrow> (\<exists>s' ev'. min_heap_erase e (s, ev) = Inr (0, s', ev')
            \<and> heap_ok (s', ev') \<and> heap_members s' = heap_members s - {e} \<and> min_heap_idx (ev' e) = -1
            \<and> only_idx (heap_members s) ev ev'))
       \<and> (\<exists>r s' ev'. min_heap_pop (s, ev) = Inr (r, s', ev') \<and> heap_ok (s', ev')
            \<and> (case r of None \<Rightarrow> heap_members s = {} \<and> s' = s
               | Some t \<Rightarrow> t \<in> heap_members s \<and> min_heap_elt_is_top (ev t)
                           \<and> (\<forall>x\<in>heap_members s. ev_timeout (ev t) \<le> ev_timeout (ev x))
                           \<and> heap_members s' = heap_members s - {t} \<and> only_idx (heap_members s) ev ev'))"
proof (intro conjI impI, goal_cases)
  case 1
  from heap_push [OF assms(1,2) 1 assms(3)] show ?case
    by (auto simp: runs_iff intro: exI [of _ "-1"] exI [of _ "0"])
next
  case 2
  from heap_erase [OF assms(2) 2] show ?case by (auto simp: runs_iff erased_def)
next
  case 3
  from heap_pop [OF assms(2)] obtain r s' ev' where
    p: "min_heap_pop (s, ev) = Inr (r, s', ev')" "min_heap_top s = Inr r"
      "case r of None \<Rightarrow> s' = s \<and> ev' = ev | Some t \<Rightarrow> erased t (s, ev) (s', ev')"
    by (auto elim!: runsE)
  from heap_top [OF assms(2)] p(2) have
    top: "case r of None \<Rightarrow> heap_members s = {}
        | Some e \<Rightarrow> e \<in> heap_members s \<and> (\<forall>x\<in>heap_members s. ev_timeout (ev e) \<le> ev_timeout (ev x))" by auto
  show ?case
  proof (cases r)
    case None
    with p top assms(2) show ?thesis by auto
  next
    case (Some t)
    with p top elt_is_top_iff [OF assms(2), of t] show ?thesis by (auto simp: erased_def)
  qed
qed

text \<open>Three events due after 5, 3 and 4 seconds; only the second and the third are in the heap.\<close>

definition blank_event :: event where
  "blank_event = \<lparr>min_heap_idx = -1, ev_fd = -1, ev_io_timeout = evutil_timerclear, ev_ncalls = 0,
     ev_pncalls = False, ev_events = {}, ev_res = {}, ev_flags = {EVLIST_INIT}, ev_pri = 0,
     ev_closure = EV_CLOSURE_NONE, ev_timeout = evutil_timerclear, ev_callback = User_Callback 0, ev_arg = 0,
     ev_base = True\<rparr>"

definition three_events :: events where
  "three_events = (\<lambda>x. if x = 1 then blank_event\<lparr>ev_timeout := Timeval 5 0\<rparr>
     else if x = 2 then blank_event\<lparr>ev_timeout := Timeval 3 0, min_heap_idx := 0\<rparr>
     else if x = 3 then blank_event\<lparr>ev_timeout := Timeval 4 0, min_heap_idx := 1\<rparr> else blank_event)"

definition two_in_heap :: min_heap where
  "two_in_heap = \<lparr>mh_p = [2, 3, 0, 0], mh_n = 2, mh_a = 4\<rparr>"

definition grow_realloc :: slot_realloc where
  "grow_realloc sz p = Some (take (sz div 4) (p @ replicate (sz div 4) 0))"

lemma grow_realloc_ok: "realloc_ok grow_realloc"
  by (auto simp: realloc_ok_def grow_realloc_def nth_append)

lemma two_in_heap_ok: "heap_ok (two_in_heap, three_events)" "heap_members two_in_heap = {2, 3}"
  by (simp_all add: heap_ok_def two_in_heap_def three_events_def placed_but_def heap_by_def heap_members_def
      up_def less_eq_timeval_def tv_key_def nth_Cons'
      less_2_cases_iff split: if_splits)

theorem min_heap_invariant_witness:
  "\<exists>s' ev'. min_heap_push grow_realloc 1 (two_in_heap, three_events) = Inr (0, s', ev') \<and> heap_members s' = {1, 2, 3}"
proof -
  have "mh_n two_in_heap < 2 ^ 29" by (simp add: two_in_heap_def)
  from min_heap_invariant [OF grow_realloc_ok two_in_heap_ok(1) this, of 1]
  obtain r s' ev' where "min_heap_push grow_realloc 1 (two_in_heap, three_events) = Inr (r, s', ev')"
    "if r = 0 then heap_members s' = insert 1 (heap_members two_in_heap) else realloc_fails grow_realloc"
    by (auto simp: two_in_heap_ok split: if_splits)
  then show ?thesis by (auto simp: two_in_heap_ok realloc_fails_def grow_realloc_def split: if_splits)
qed

text \<open>
  C26: popping until the heap is empty gives all events of the heap, each once, in the order in which
  they are due.
\<close>

theorem min_heap_pops_in_order:
  assumes "heap_ok (s, ev)"
  shows "\<exists>es s'. pop_all min_heap_pop (mh_n s) (s, ev) = Inr (es, s')
     \<and> sorted (map (\<lambda>e. ev_timeout (ev e)) es) \<and> distinct es \<and> set es = heap_members s \<and> heap_elems s' = {}"
proof -
  have "card (heap_elems (s, ev)) \<le> mh_n s"
    using card_length [of "take (mh_n s) (mh_p s)"] by (simp add: heap_elems_def heap_members_def)
  from mh.pop_all_sorts [OF assms this] show ?thesis
    by (auto simp: runs_iff heap_elems_def heap_key_def)
qed

theorem min_heap_pops_in_order_witness:
  "\<exists>es s'. pop_all min_heap_pop 2 (two_in_heap, three_events) = Inr (es, s') \<and> set es = {2, 3}"
  using min_heap_pops_in_order [OF two_in_heap_ok(1)] by (auto simp: two_in_heap_ok) (auto simp: two_in_heap_def)

end
