(* ===== verification/Evmap.thy ===== *)
theory Evmap
  imports Event_Struct
begin

text \<open>
  The maps from sockets and signal numbers to the events waiting for them, \<open>evmap.c\<close> as built for Windows:
  sockets are looked up in a hash table, which is a map here; signals index an array that grows. The first
  event for reading or writing on a socket, or for a signal, is passed to the backend, and the last one.
\<close>

section \<open>State\<close>

record evmap_io =
  io_events :: "nat list"
  io_nread :: nat
  io_nwrite :: nat

text \<open>
  The functions of a backend get its state, the socket or signal, what was enabled before and what is to
  be enabled or disabled; they return an \<open>int\<close>. What a backend keeps for each socket (\<open>fdinfo\<close>) is a
  part of its state.
\<close>

type_synonym 'b backend_fn = "'b \<Rightarrow> int \<Rightarrow> ev_what set \<Rightarrow> ev_what set \<Rightarrow> int \<times> 'b"

record 'b eventop =
  op_add :: "'b backend_fn"
  op_del :: "'b backend_fn"

text \<open>
  What the program is run with: the backends, whether debugging is on, and the allocations that succeed:
  an entry for a socket or a signal, and an array of a number of entries.
\<close>

record 'b platform =
  evsel :: "'b eventop"
  evsigsel :: "'b eventop"
  debug_mode_on :: bool
  io_entry_alloc :: "int \<Rightarrow> bool"
  sig_entry_alloc :: "int \<Rightarrow> bool"
  sig_array_alloc :: "nat \<Rightarrow> bool"

text \<open>The fields of \<open>struct event_base\<close> the maps use: \<open>evbase\<close>, \<open>io\<close> and \<open>sigmap\<close>; and the events.\<close>

record 'b evmap_base =
  evbase :: 'b
  evio :: "int \<Rightarrow> evmap_io option"
  sigmap :: "nat list option list"
  evmem :: events

section \<open>Sockets\<close>

definition evmap_io_initmap :: "('b, 'z) evmap_base_scheme \<Rightarrow> ('b, 'z) evmap_base_scheme" where
  "evmap_io_initmap base = base\<lparr>evio := Map.empty\<rparr>"

definition evmap_io_clear :: "('b, 'z) evmap_base_scheme \<Rightarrow> ('b, 'z) evmap_base_scheme" where
  "evmap_io_clear base = base\<lparr>evio := Map.empty\<rparr>"

definition evmap_io_init :: evmap_io where
  "evmap_io_init = \<lparr>io_events = [], io_nread = 0, io_nwrite = 0\<rparr>"

definition GET_IO_SLOT_AND_CTOR ::
    "('b, 'p) platform_scheme \<Rightarrow> ('b, 'z) evmap_base_scheme \<Rightarrow> int
     \<Rightarrow> (evmap_io \<times> ('b, 'z) evmap_base_scheme) option" where
  "GET_IO_SLOT_AND_CTOR p base slot =
     (case evio base slot of
        Some ent \<Rightarrow> Some (ent, base)
      | None \<Rightarrow> if io_entry_alloc p slot
                then Some (evmap_io_init, base\<lparr>evio := (evio base)(slot \<mapsto> evmap_io_init)\<rparr>)
                else None)"

text \<open>Calling the backend if something changes for it; \<open>0\<close> otherwise.\<close>

definition backend_call ::
    "bool \<Rightarrow> 'b backend_fn \<Rightarrow> 'b \<Rightarrow> int \<Rightarrow> ev_what set \<Rightarrow> ev_what set \<Rightarrow> int \<times> 'b" where
  "backend_call changes f b fd old what = (if changes then f b fd old what else (0, b))"

text \<open>The events among \<open>{EV_READ, EV_WRITE}\<close> for which a condition holds.\<close>

definition rw_mask :: "bool \<Rightarrow> bool \<Rightarrow> ev_what set" where
  "rw_mask r w = (if r then {EV_READ} else {}) \<union> (if w then {EV_WRITE} else {})"

definition evmap_io_add ::
    "('b, 'p) platform_scheme \<Rightarrow> ('b, 'z) evmap_base_scheme \<Rightarrow> int \<Rightarrow> nat
     \<Rightarrow> (int \<times> ('b, 'z) evmap_base_scheme) exec" where
  "evmap_io_add p base fd e =
     (let ev = evmem base e in
      if fd \<noteq> ev_fd ev then Inl Assert_Failed
      else if fd < 0 then Inr (0, base)
      else case GET_IO_SLOT_AND_CTOR p base fd of
             None \<Rightarrow> Inr (-1, base)
           | Some (ctx, base) \<Rightarrow>
               let rd = EV_READ \<in> ev_events ev; wr = EV_WRITE \<in> ev_events ev;
                   nread = io_nread ctx + (if rd then 1 else 0);
                   nwrite = io_nwrite ctx + (if wr then 1 else 0);
                   old = rw_mask (io_nread ctx \<noteq> 0) (io_nwrite ctx \<noteq> 0);
                   res = rw_mask (rd \<and> nread = 1) (wr \<and> nwrite = 1)
               in if nread > 0xffff \<or> nwrite > 0xffff then Inr (-1, base)
                  else if debug_mode_on p \<and> io_events ctx \<noteq> []
                       \<and> (EV_ET \<in> ev_events (evmem base (hd (io_events ctx)))) \<noteq> (EV_ET \<in> ev_events ev)
                  then Inr (-1, base)
                  else let (r, b) = backend_call (res \<noteq> {}) (op_add (evsel p)) (evbase base) (ev_fd ev) old
                                      (ev_events ev \<inter> {EV_ET} \<union> res);
                           base = base\<lparr>evbase := b\<rparr>
                       in if r = -1 then Inr (-1, base)
                          else Inr (if res \<noteq> {} then 1 else 0,
                                    base\<lparr>evio := (evio base)(fd \<mapsto>
                                      ctx\<lparr>io_nread := nread, io_nwrite := nwrite,
                                          io_events := io_events ctx @ [e]\<rparr>)\<rparr>))"

definition evmap_io_del ::
    "('b, 'p) platform_scheme \<Rightarrow> ('b, 'z) evmap_base_scheme \<Rightarrow> int \<Rightarrow> nat
     \<Rightarrow> (int \<times> ('b, 'z) evmap_base_scheme) exec" where
  "evmap_io_del p base fd e =
     (let ev = evmem base e in
      if fd < 0 then Inr (0, base)
      else if fd \<noteq> ev_fd ev then Inl Assert_Failed
      else case evio base fd of
             None \<Rightarrow> Inl Null_Deref
           | Some ctx \<Rightarrow>
               let rd = EV_READ \<in> ev_events ev; wr = EV_WRITE \<in> ev_events ev;
                   nread = int (io_nread ctx) - (if rd then 1 else 0);
                   nwrite = int (io_nwrite ctx) - (if wr then 1 else 0);
                   old = rw_mask (io_nread ctx \<noteq> 0) (io_nwrite ctx \<noteq> 0);
                   res = rw_mask (rd \<and> nread = 0) (wr \<and> nwrite = 0)
               in if rd \<and> nread < 0 \<or> wr \<and> nwrite < 0 then Inl Assert_Failed
                  else let (r, b) = backend_call (res \<noteq> {}) (op_del (evsel p)) (evbase base) (ev_fd ev) old res;
                           base = base\<lparr>evbase := b\<rparr>
                       in if r = -1 then Inr (-1, base)
                          else bindE (TAILQ_REMOVE e (io_events ctx)) (\<lambda>q.
                                 Inr (if res \<noteq> {} then 1 else 0,
                                      base\<lparr>evio := (evio base)(fd \<mapsto>
                                        ctx\<lparr>io_nread := nat nread, io_nwrite := nat nwrite,
                                            io_events := q\<rparr>)\<rparr>)))"

section \<open>Signals\<close>

definition evmap_signal_initmap :: "('b, 'z) evmap_base_scheme \<Rightarrow> ('b, 'z) evmap_base_scheme" where
  "evmap_signal_initmap base = base\<lparr>sigmap := []\<rparr>"

definition evmap_signal_clear :: "('b, 'z) evmap_base_scheme \<Rightarrow> ('b, 'z) evmap_base_scheme" where
  "evmap_signal_clear base = base\<lparr>sigmap := []\<rparr>"

text \<open>The loop of \<open>evmap_make_space\<close>; doubling an \<open>int\<close> of \<open>2 ^ 30\<close> is undefined.\<close>

function grow_entries :: "nat \<Rightarrow> nat \<Rightarrow> nat exec" where
  "grow_entries nentries slot =
     (if nentries \<le> slot
      then if nentries = 0 then Inl Diverges
           else if nentries * 2 \<ge> 2 ^ 31 then Inl Undefined_Shift
           else grow_entries (nentries * 2) slot
      else Inr nentries)"
  by pat_completeness auto

termination
  by (relation "measure (\<lambda>(nentries, slot). Suc slot - nentries)") auto

declare grow_entries.simps [simp del]

text \<open>
  The product with the size of an entry, an \<open>int\<close> in the code, is not computed: \<open>realloc\<close> is asked by the slot.
\<close>

definition evmap_make_space ::
    "('b, 'p) platform_scheme \<Rightarrow> ('b, 'z) evmap_base_scheme \<Rightarrow> nat
     \<Rightarrow> (int \<times> ('b, 'z) evmap_base_scheme) exec" where
  "evmap_make_space p base slot =
     (let n = length (sigmap base) in
      if n \<le> slot
      then bindE (grow_entries (if n \<noteq> 0 then n else 32) slot) (\<lambda>nentries.
             if sig_array_alloc p nentries
             then Inr (0, base\<lparr>sigmap := sigmap base @ replicate (nentries - n) None\<rparr>)
             else Inr (-1, base))
      else Inr (0, base))"

definition GET_SIGNAL_SLOT_AND_CTOR ::
    "('b, 'p) platform_scheme \<Rightarrow> ('b, 'z) evmap_base_scheme \<Rightarrow> nat
     \<Rightarrow> (nat list \<times> ('b, 'z) evmap_base_scheme) option" where
  "GET_SIGNAL_SLOT_AND_CTOR p base slot =
     (case sigmap base ! slot of
        Some q \<Rightarrow> Some (q, base)
      | None \<Rightarrow> if sig_entry_alloc p (int slot) then Some ([], base\<lparr>sigmap := (sigmap base)[slot := Some []]\<rparr>)
                else None)"

definition evmap_signal_add ::
    "('b, 'p) platform_scheme \<Rightarrow> ('b, 'z) evmap_base_scheme \<Rightarrow> int \<Rightarrow> nat
     \<Rightarrow> (int \<times> ('b, 'z) evmap_base_scheme) exec" where
  "evmap_signal_add p base sig e =
     (if sig < 0 then Inl Out_Of_Bounds
      else bindE (if sig \<ge> int (length (sigmap base)) then evmap_make_space p base (nat sig) else Inr (0, base))
             (\<lambda>(r, base).
                if r = -1 then Inr (-1, base)
                else case GET_SIGNAL_SLOT_AND_CTOR p base (nat sig) of
                       None \<Rightarrow> Inr (-1, base)
                     | Some (q, base) \<Rightarrow>
                         let (r, b) = backend_call (q = []) (op_add (evsigsel p)) (evbase base)
                                        (ev_fd (evmem base e)) {} {EV_SIGNAL};
                             base = base\<lparr>evbase := b\<rparr>
                         in if r = -1 then Inr (-1, base)
                            else Inr (1, base\<lparr>sigmap := (sigmap base)[nat sig := Some (q @ [e])]\<rparr>)))"

definition evmap_signal_del ::
    "('b, 'p) platform_scheme \<Rightarrow> ('b, 'z) evmap_base_scheme \<Rightarrow> int \<Rightarrow> nat
     \<Rightarrow> (int \<times> ('b, 'z) evmap_base_scheme) exec" where
  "evmap_signal_del p base sig e =
     (if sig \<ge> int (length (sigmap base)) then Inr (-1, base)
      else if sig < 0 then Inl Out_Of_Bounds
      else case sigmap base ! nat sig of
             None \<Rightarrow> Inl Null_Deref
           | Some q \<Rightarrow>
               let (r, b) = backend_call (length q \<le> 1) (op_del (evsigsel p)) (evbase base) (ev_fd (evmem base e))
                              {} {EV_SIGNAL};
                   base = base\<lparr>evbase := b\<rparr>
               in if r = -1 then Inr (-1, base)
                  else bindE (TAILQ_REMOVE e q) (\<lambda>q.
                         Inr (1, base\<lparr>sigmap := (sigmap base)[nat sig := Some q]\<rparr>)))"

section \<open>The invariant\<close>

text \<open>
  \<open>ins\<close> is the set of events that have been inserted. The queue of a socket or signal holds just those
  that wait for it, and the counters of a socket count the readers and the writers among them.
\<close>

definition io_slot :: "(int \<Rightarrow> evmap_io option) \<Rightarrow> int \<Rightarrow> evmap_io" where
  "io_slot io fd = (case io fd of None \<Rightarrow> evmap_io_init | Some ctx \<Rightarrow> ctx)"

definition waiting :: "events \<Rightarrow> ev_what \<Rightarrow> nat list \<Rightarrow> nat" where
  "waiting mem w q = length (filter (\<lambda>e. w \<in> ev_events (mem e)) q)"

definition io_slot_ok :: "events \<Rightarrow> nat set \<Rightarrow> int \<Rightarrow> evmap_io \<Rightarrow> bool" where
  "io_slot_ok mem ins fd ctx \<longleftrightarrow>
     holds (io_events ctx) {e \<in> ins. watches_io (mem e) \<and> ev_fd (mem e) = fd}
     \<and> io_nread ctx = waiting mem EV_READ (io_events ctx) \<and> io_nread ctx \<le> 0xffff
     \<and> io_nwrite ctx = waiting mem EV_WRITE (io_events ctx) \<and> io_nwrite ctx \<le> 0xffff"

definition io_ok :: "events \<Rightarrow> nat set \<Rightarrow> (int \<Rightarrow> evmap_io option) \<Rightarrow> bool" where
  "io_ok mem ins io \<longleftrightarrow> (\<forall>fd\<ge>0. io_slot_ok mem ins fd (io_slot io fd))"

definition watches_sig :: "event \<Rightarrow> bool" where
  "watches_sig ev \<longleftrightarrow> \<not> watches_io ev \<and> EV_SIGNAL \<in> ev_events ev"

definition sig_slot :: "nat list option list \<Rightarrow> nat \<Rightarrow> nat list" where
  "sig_slot sigs s = (if s < length sigs then case sigs ! s of None \<Rightarrow> [] | Some q \<Rightarrow> q else [])"

definition sig_ok :: "events \<Rightarrow> nat set \<Rightarrow> nat list option list \<Rightarrow> bool" where
  "sig_ok mem ins sigs \<longleftrightarrow>
     (\<forall>s. holds (sig_slot sigs s) {e \<in> ins. watches_sig (mem e) \<and> ev_fd (mem e) = int s})
     \<and> (\<forall>e\<in>ins. watches_sig (mem e) \<longrightarrow> 0 \<le> ev_fd (mem e))"

definition evmaps_ok :: "nat set \<Rightarrow> ('b, 'z) evmap_base_scheme \<Rightarrow> bool" where
  "evmaps_ok ins base \<longleftrightarrow> io_ok (evmem base) ins (evio base) \<and> sig_ok (evmem base) ins (sigmap base)"

text \<open>A backend that never refuses to disable an event, as \<open>win32_del\<close> and \<open>evsig_del\<close>.\<close>

definition dels_ok :: "('b, 'p) platform_scheme \<Rightarrow> bool" where
  "dels_ok p \<longleftrightarrow> (\<forall>b fd old what. fst (op_del (evsel p) b fd old what) \<noteq> -1)
                 \<and> (\<forall>b fd old what. fst (op_del (evsigsel p) b fd old what) \<noteq> -1)"

lemma waiting_tail: "waiting mem w (q @ [e]) = waiting mem w q + (if w \<in> ev_events (mem e) then 1 else 0)"
  by (simp add: waiting_def)

lemma waiting_remove1:
  "e \<in> set q \<Longrightarrow> waiting mem w (remove1 e q) = waiting mem w q - (if w \<in> ev_events (mem e) then 1 else 0)"
  by (simp add: waiting_def length_filter_remove1)

lemma waiting_pos: "e \<in> set q \<Longrightarrow> w \<in> ev_events (mem e) \<Longrightarrow> 0 < waiting mem w q"
  by (auto simp: waiting_def filter_empty_conv)

lemma io_ok_slot: "io_ok mem ins io \<Longrightarrow> 0 \<le> fd \<Longrightarrow> io fd = Some ctx \<Longrightarrow> io_slot_ok mem ins fd ctx"
  by (auto simp: io_ok_def io_slot_def split: option.splits)

lemma io_ok_new: "io_ok mem ins io \<Longrightarrow> io fd = None \<Longrightarrow> io_ok mem ins (io(fd \<mapsto> evmap_io_init))"
  by (auto simp: io_ok_def io_slot_def split: option.splits)

lemma io_ok_update:
  assumes "io_ok mem ins io" "io_slot_ok mem ins' fd ctx"
    "\<And>x. ev_fd (mem x) \<noteq> fd \<Longrightarrow> x \<in> ins' \<longleftrightarrow> x \<in> ins"
  shows "io_ok mem ins' (io(fd \<mapsto> ctx))"
proof -
  have "io_slot_ok mem ins' fd' c = io_slot_ok mem ins fd' c" if "fd' \<noteq> fd" for fd' c
  proof -
    from that assms(3) have "{e \<in> ins'. watches_io (mem e) \<and> ev_fd (mem e) = fd'} =
        {e \<in> ins. watches_io (mem e) \<and> ev_fd (mem e) = fd'}" by auto
    then show ?thesis by (simp add: io_slot_ok_def)
  qed
  with assms(1,2) show ?thesis by (auto simp: io_ok_def io_slot_def)
qed

lemma io_slot_ok_add:
  assumes "io_slot_ok mem ins (ev_fd (mem e)) ctx" "e \<notin> ins" "watches_io (mem e)"
    "nread = io_nread ctx + (if EV_READ \<in> ev_events (mem e) then 1 else 0)" "nread \<le> 0xffff"
    "nwrite = io_nwrite ctx + (if EV_WRITE \<in> ev_events (mem e) then 1 else 0)" "nwrite \<le> 0xffff"
  shows "io_slot_ok mem (insert e ins) (ev_fd (mem e))
           (ctx\<lparr>io_nread := nread, io_nwrite := nwrite, io_events := io_events ctx @ [e]\<rparr>)"
proof -
  let ?S = "\<lambda>ins. {x \<in> ins. watches_io (mem x) \<and> ev_fd (mem x) = ev_fd (mem e)}"
  have "?S (insert e ins) = insert e (?S ins)" using assms(3) by auto
  moreover have "holds (io_events ctx @ [e]) (insert e (?S ins))"
    using assms(1,2) by (intro holds_insert_tail) (auto simp: io_slot_ok_def)
  ultimately show ?thesis using assms by (simp add: io_slot_ok_def waiting_tail)
qed

lemma io_slot_ok_del:
  assumes "io_slot_ok mem ins (ev_fd (mem e)) ctx" "e \<in> ins" "watches_io (mem e)"
  shows "e \<in> set (io_events ctx)"
    "io_slot_ok mem (ins - {e}) (ev_fd (mem e))
       (ctx\<lparr>io_nread := io_nread ctx - (if EV_READ \<in> ev_events (mem e) then 1 else 0),
            io_nwrite := io_nwrite ctx - (if EV_WRITE \<in> ev_events (mem e) then 1 else 0),
            io_events := remove1 e (io_events ctx)\<rparr>)"
proof -
  let ?S = "\<lambda>ins. {x \<in> ins. watches_io (mem x) \<and> ev_fd (mem x) = ev_fd (mem e)}"
  from assms(1) have s: "holds (io_events ctx) (?S ins)" "io_nread ctx = waiting mem EV_READ (io_events ctx)"
    "io_nwrite ctx = waiting mem EV_WRITE (io_events ctx)" "io_nread ctx \<le> 0xffff" "io_nwrite ctx \<le> 0xffff"
    unfolding io_slot_ok_def by blast+
  have eS: "e \<in> ?S ins" using assms(2,3) by blast
  with s(1) show e: "e \<in> set (io_events ctx)" by (simp add: holds_def)
  have S: "?S (ins - {e}) = ?S ins - {e}" by blast
  have h: "holds (remove1 e (io_events ctx)) (?S (ins - {e}))"
    unfolding S using holds_remove [OF s(1) eS] by blast
  show "io_slot_ok mem (ins - {e}) (ev_fd (mem e))
       (ctx\<lparr>io_nread := io_nread ctx - (if EV_READ \<in> ev_events (mem e) then 1 else 0),
            io_nwrite := io_nwrite ctx - (if EV_WRITE \<in> ev_events (mem e) then 1 else 0),
            io_events := remove1 e (io_events ctx)\<rparr>)"
    unfolding io_slot_ok_def using h s(2-5) waiting_remove1 [OF e, of mem] by auto
qed

lemma io_ok_outside:
  assumes "io_ok mem ins io" "ev_fd (mem e) < 0"
  shows "io_ok mem (insert e ins) io" "io_ok mem (ins - {e}) io"
proof -
  have "{x \<in> insert e ins. watches_io (mem x) \<and> ev_fd (mem x) = fd} = {x \<in> ins. watches_io (mem x) \<and> ev_fd (mem x) = fd}"
    "{x \<in> ins - {e}. watches_io (mem x) \<and> ev_fd (mem x) = fd} = {x \<in> ins. watches_io (mem x) \<and> ev_fd (mem x) = fd}"
    if "0 \<le> fd" for fd using that assms(2) by auto
  with assms(1) show "io_ok mem (insert e ins) io" "io_ok mem (ins - {e}) io"
    by (auto simp: io_ok_def io_slot_ok_def)
qed

text \<open>What the operations of the maps may change.\<close>

definition io_change :: "('b, 'z) evmap_base_scheme \<Rightarrow> ('b, 'z) evmap_base_scheme \<Rightarrow> bool" where
  "io_change base base' \<longleftrightarrow> (\<exists>b io. base' = base\<lparr>evbase := b, evio := io\<rparr>)"

definition sig_change :: "('b, 'z) evmap_base_scheme \<Rightarrow> ('b, 'z) evmap_base_scheme \<Rightarrow> bool" where
  "sig_change base base' \<longleftrightarrow> (\<exists>b sigs. base' = base\<lparr>evbase := b, sigmap := sigs\<rparr>)"

lemma io_change_refl [simp]: "io_change base base"
  unfolding io_change_def by (intro exI [of _ "evbase base"] exI [of _ "evio base"]) simp

lemma io_change_updates [simp]:
  "io_change base (base\<lparr>evio := io\<rparr>)" "io_change base (base\<lparr>evbase := b\<rparr>)"
  "io_change base (base\<lparr>evbase := b, evio := io\<rparr>)" "io_change base (base\<lparr>evio := io, evbase := b\<rparr>)"
  unfolding io_change_def
     apply (intro exI [of _ "evbase base"] exI [of _ io], simp)
    apply (intro exI [of _ b] exI [of _ "evio base"], simp)
   apply blast
  apply (intro exI [of _ b] exI [of _ io], simp)
  done

section \<open>The operations keep the invariant\<close>

lemma slot_and_ctor:
  assumes "io_ok (evmem base) ins (evio base)" "0 \<le> fd"
  shows "case GET_IO_SLOT_AND_CTOR p base fd of None \<Rightarrow> True
    | Some (ctx, base') \<Rightarrow> io_slot_ok (evmem base) ins fd ctx
        \<and> (\<exists>io. base' = base\<lparr>evio := io\<rparr> \<and> io_ok (evmem base) ins io)"
proof (cases "evio base fd")
  case None
  from io_ok_new [OF assms(1) None] have new: "io_ok (evmem base) ins ((evio base)(fd \<mapsto> evmap_io_init))" .
  then have "io_slot_ok (evmem base) ins fd evmap_io_init" using assms(2) by (rule io_ok_slot) simp
  with None new show ?thesis by (auto simp: GET_IO_SLOT_AND_CTOR_def)
next
  case (Some ctx)
  with io_ok_slot [OF assms] have "io_slot_ok (evmem base) ins fd ctx" .
  moreover have "\<exists>io. base = base\<lparr>evio := io\<rparr> \<and> io_ok (evmem base) ins io"
    using assms(1) by (intro exI [of _ "evio base"]) simp
  ultimately show ?thesis using Some by (simp add: GET_IO_SLOT_AND_CTOR_def)
qed

lemma io_add_eq:
  assumes "0 \<le> ev_fd ev" "ev = evmem base e" "GET_IO_SLOT_AND_CTOR p base (ev_fd ev) = Some (ctx, base1)"
    and nread: "nread = io_nread ctx + (if EV_READ \<in> ev_events ev then 1 else 0)"
    and nwrite: "nwrite = io_nwrite ctx + (if EV_WRITE \<in> ev_events ev then 1 else 0)"
    and res: "res = rw_mask (EV_READ \<in> ev_events ev \<and> nread = 1) (EV_WRITE \<in> ev_events ev \<and> nwrite = 1)"
    and call: "backend_call (res \<noteq> {}) (op_add (evsel p)) (evbase base1) (ev_fd ev)
                 (rw_mask (io_nread ctx \<noteq> 0) (io_nwrite ctx \<noteq> 0)) (ev_events ev \<inter> {EV_ET} \<union> res) = (r, b)"
  shows "\<exists>bad. evmap_io_add p base (ev_fd ev) e =
    (if nread > 0xffff \<or> nwrite > 0xffff \<or> bad then Inr (-1, base1)
     else if r = -1 then Inr (-1, base1\<lparr>evbase := b\<rparr>)
     else Inr (if res \<noteq> {} then 1 else 0, base1\<lparr>evbase := b, evio := (evio base1)(ev_fd ev \<mapsto>
            ctx\<lparr>io_nread := nread, io_nwrite := nwrite, io_events := io_events ctx @ [e]\<rparr>)\<rparr>))"
proof -
  have fd: "\<not> ev_fd ev < 0" using assms(1) by simp
  show ?thesis
    unfolding evmap_io_add_def Let_def assms(2) [symmetric] assms(3) option.case prod.case
      nread [symmetric] nwrite [symmetric] res [symmetric] call
    by (intro exI [of _ "debug_mode_on p \<and> io_events ctx \<noteq> []
          \<and> (EV_ET \<in> ev_events (evmem base1 (hd (io_events ctx)))) \<noteq> (EV_ET \<in> ev_events ev)"])
      (simp add: fd split del: if_split, simp split: if_split)
qed

lemma io_add_runs:
  assumes ok: "io_ok (evmem base) ins (evio base)" and e: "e \<notin> ins" "watches_io (evmem base e)"
  shows "runs (evmap_io_add p base (ev_fd (evmem base e)) e) (\<lambda>(r, base').
     r \<in> {-1, 0, 1} \<and> io_change base base'
     \<and> io_ok (evmem base) (if r = -1 then ins else insert e ins) (evio base'))"
proof -
  define ev where "ev = evmem base e"
  consider "ev_fd ev < 0" | "0 \<le> ev_fd ev" "GET_IO_SLOT_AND_CTOR p base (ev_fd ev) = None"
    | ctx base1 where "0 \<le> ev_fd ev" "GET_IO_SLOT_AND_CTOR p base (ev_fd ev) = Some (ctx, base1)"
    by (cases "GET_IO_SLOT_AND_CTOR p base (ev_fd ev)") force+
  then show ?thesis
  proof cases
    case 1
    with io_ok_outside(1) [OF ok] show ?thesis by (simp add: evmap_io_add_def ev_def)
  next
    case 2
    with ok show ?thesis by (simp add: evmap_io_add_def ev_def)
  next
    case (3 ctx base1)
    from slot_and_ctor [OF ok 3(1), of p] 3(2) obtain io where
      slot: "io_slot_ok (evmem base) ins (ev_fd ev) ctx" and b1: "base1 = base\<lparr>evio := io\<rparr>" "io_ok (evmem base) ins io"
      by auto
    define nread where "nread = io_nread ctx + (if EV_READ \<in> ev_events ev then 1 else 0)"
    define nwrite where "nwrite = io_nwrite ctx + (if EV_WRITE \<in> ev_events ev then 1 else 0)"
    define res where "res = rw_mask (EV_READ \<in> ev_events ev \<and> nread = 1) (EV_WRITE \<in> ev_events ev \<and> nwrite = 1)"
    obtain r b where "backend_call (res \<noteq> {}) (op_add (evsel p)) (evbase base1) (ev_fd ev)
        (rw_mask (io_nread ctx \<noteq> 0) (io_nwrite ctx \<noteq> 0)) (ev_events ev \<inter> {EV_ET} \<union> res) = (r, b)"
      by fastforce
    from io_add_eq [OF 3(1) ev_def 3(2) nread_def nwrite_def res_def this] obtain bad where
      eq: "evmap_io_add p base (ev_fd ev) e =
        (if nread > 0xffff \<or> nwrite > 0xffff \<or> bad then Inr (-1, base1)
         else if r = -1 then Inr (-1, base1\<lparr>evbase := b\<rparr>)
         else Inr (if res \<noteq> {} then 1 else 0, base1\<lparr>evbase := b, evio := (evio base1)(ev_fd ev \<mapsto>
                ctx\<lparr>io_nread := nread, io_nwrite := nwrite, io_events := io_events ctx @ [e]\<rparr>)\<rparr>))" ..
    have "io_ok (evmem base) (insert e ins) (io(ev_fd ev \<mapsto>
        ctx\<lparr>io_nread := nread, io_nwrite := nwrite, io_events := io_events ctx @ [e]\<rparr>))"
      if "\<not> (nread > 0xffff \<or> nwrite > 0xffff \<or> bad)"
    proof (rule io_ok_update [OF b1(2)])
      show "io_slot_ok (evmem base) (insert e ins) (ev_fd ev)
          (ctx\<lparr>io_nread := nread, io_nwrite := nwrite, io_events := io_events ctx @ [e]\<rparr>)"
        using slot e that nread_def nwrite_def unfolding ev_def by (intro io_slot_ok_add) simp_all
    qed (auto simp: ev_def)
    then show ?thesis unfolding ev_def [symmetric] eq using b1 by simp
  qed
qed

lemma io_del_runs:
  assumes ok: "io_ok (evmem base) ins (evio base)" and e: "e \<in> ins" "watches_io (evmem base e)" and p: "dels_ok p"
  shows "runs (evmap_io_del p base (ev_fd (evmem base e)) e) (\<lambda>(r, base').
     r \<in> {0, 1} \<and> io_change base base' \<and> io_ok (evmem base) (ins - {e}) (evio base'))"
proof -
  define ev where "ev = evmem base e"
  show ?thesis
  proof (cases "ev_fd ev < 0")
    case True
    with io_ok_outside(2) [OF ok] show ?thesis by (simp add: evmap_io_del_def ev_def)
  next
    case False
    then have slot: "io_slot_ok (evmem base) ins (ev_fd ev) (io_slot (evio base) (ev_fd ev))"
      using ok by (simp add: io_ok_def)
    from io_slot_ok_del(1) [OF slot [unfolded ev_def] e] have "evio base (ev_fd ev) \<noteq> None"
      by (cases "evio base (ev_fd ev)") (simp_all add: io_slot_def evmap_io_init_def ev_def)
    then obtain ctx where ctx: "evio base (ev_fd ev) = Some ctx" "io_slot_ok (evmem base) ins (ev_fd ev) ctx"
      using slot by (auto simp: io_slot_def)
    note del = io_slot_ok_del [OF ctx(2) [unfolded ev_def] e, folded ev_def]
    define nread where "nread = int (io_nread ctx) - (if EV_READ \<in> ev_events ev then 1 else 0)"
    define nwrite where "nwrite = int (io_nwrite ctx) - (if EV_WRITE \<in> ev_events ev then 1 else 0)"
    define res where "res = rw_mask (EV_READ \<in> ev_events ev \<and> nread = 0) (EV_WRITE \<in> ev_events ev \<and> nwrite = 0)"
    have pos: "\<not> (EV_READ \<in> ev_events ev \<and> nread < 0 \<or> EV_WRITE \<in> ev_events ev \<and> nwrite < 0)"
      using ctx(2) waiting_pos [OF del(1), of _ "evmem base"]
      by (auto simp: io_slot_ok_def nread_def nwrite_def ev_def)
    have new: "io_ok (evmem base) (ins - {e}) ((evio base)(ev_fd ev \<mapsto>
        ctx\<lparr>io_nread := nat nread, io_nwrite := nat nwrite, io_events := remove1 e (io_events ctx)\<rparr>))"
    proof (rule io_ok_update [OF ok])
      have "nat nread = io_nread ctx - (if EV_READ \<in> ev_events ev then 1 else 0)"
        "nat nwrite = io_nwrite ctx - (if EV_WRITE \<in> ev_events ev then 1 else 0)"
        by (simp_all add: nread_def nwrite_def nat_minus_as_int)
      with del(2) show "io_slot_ok (evmem base) (ins - {e}) (ev_fd ev)
          (ctx\<lparr>io_nread := nat nread, io_nwrite := nat nwrite, io_events := remove1 e (io_events ctx)\<rparr>)" by simp
    qed (auto simp: ev_def)
    obtain r b where call: "backend_call (res \<noteq> {}) (op_del (evsel p)) (evbase base) (ev_fd ev)
        (rw_mask (io_nread ctx \<noteq> 0) (io_nwrite ctx \<noteq> 0)) res = (r, b)"
      by fastforce
    have rm: "TAILQ_REMOVE e (io_events ctx) = Inr (remove1 e (io_events ctx))"
      using del(1) by (simp add: TAILQ_REMOVE_def)
    have "r \<noteq> -1" using call p unfolding dels_ok_def backend_call_def by (auto split: if_splits) (metis fst_conv)
    moreover have "evmap_io_del p base (ev_fd ev) e =
        (if r = -1 then Inr (-1, base\<lparr>evbase := b\<rparr>)
         else Inr (if res \<noteq> {} then 1 else 0, base\<lparr>evbase := b, evio := (evio base)(ev_fd ev \<mapsto>
           ctx\<lparr>io_nread := nat nread, io_nwrite := nat nwrite, io_events := remove1 e (io_events ctx)\<rparr>)\<rparr>))"
      unfolding evmap_io_del_def Let_def ev_def [symmetric] ctx(1) option.case prod.case
        nread_def [symmetric] nwrite_def [symmetric] res_def [symmetric] call
        rm bindE.simps
      using False pos by (simp split del: if_split) (simp split: if_split)
    ultimately show ?thesis unfolding ev_def [symmetric] using new by simp
  qed
qed

text \<open>Signals.\<close>

lemma grow_entries_runs:
  "0 < n \<Longrightarrow> slot < 2 ^ 30 \<Longrightarrow> runs (grow_entries n slot) (\<lambda>m. slot < m \<and> n \<le> m)"
proof (induction n slot rule: grow_entries.induct)
  case (1 n slot)
  show ?case
  proof (cases "n \<le> slot")
    case True
    with "1.prems" have "n * 2 < 2 ^ 31" by simp
    with 1 True have "runs (grow_entries (n * 2) slot) (\<lambda>m. slot < m \<and> n * 2 \<le> m)" by simp
    then have "runs (grow_entries (n * 2) slot) (\<lambda>m. slot < m \<and> n \<le> m)" by (rule runs_mono) simp
    with True \<open>n * 2 < 2 ^ 31\<close> "1.prems" show ?thesis by (subst grow_entries.simps) simp
  qed (simp add: grow_entries.simps)
qed

lemma sig_slot_append [simp]: "sig_slot (sigs @ replicate n None) s = sig_slot sigs s"
  by (auto simp: sig_slot_def nth_append)

lemma sig_slot_update [simp]:
  "s < length sigs \<Longrightarrow> sig_slot (sigs[s := Some q]) s' = (if s' = s then q else sig_slot sigs s')"
  by (auto simp: sig_slot_def nth_list_update)

lemma sig_ok_update:
  assumes "sig_ok mem ins sigs" "s < length sigs" "holds q {x \<in> ins'. watches_sig (mem x) \<and> ev_fd (mem x) = int s}"
    "\<And>x. ev_fd (mem x) \<noteq> int s \<Longrightarrow> x \<in> ins' \<longleftrightarrow> x \<in> ins"
  shows "sig_ok mem ins' (sigs[s := Some q])"
proof -
  have "{x \<in> ins'. watches_sig (mem x) \<and> ev_fd (mem x) = int s'} = {x \<in> ins. watches_sig (mem x) \<and> ev_fd (mem x) = int s'}"
    if "s' \<noteq> s" for s' using that assms(4) by auto
  moreover have "0 \<le> ev_fd (mem x)" if "x \<in> ins'" "watches_sig (mem x)" for x
    using that assms(1,4) unfolding sig_ok_def by (cases "ev_fd (mem x) = int s") auto
  ultimately show ?thesis using assms(1,2,3) by (simp add: sig_ok_def)
qed

lemma sig_change_refl [simp]: "sig_change base base"
  unfolding sig_change_def by (intro exI [of _ "evbase base"] exI [of _ "sigmap base"]) simp

lemma sig_change_sigmap [simp]: "sig_change base (base\<lparr>sigmap := sigs\<rparr>)"
  unfolding sig_change_def by (intro exI [of _ "evbase base"] exI [of _ sigs]) simp

lemma sig_change_both [simp]: "sig_change base (base\<lparr>sigmap := sigs, evbase := b\<rparr>)"
  unfolding sig_change_def by (intro exI [of _ b] exI [of _ sigs]) simp

lemma sig_change_both' [simp]: "sig_change base (base\<lparr>evbase := b, sigmap := sigs\<rparr>)"
  unfolding sig_change_def by blast

definition spaced :: "('b, 'z) evmap_base_scheme \<Rightarrow> ('b, 'z) evmap_base_scheme \<Rightarrow> bool" where
  "spaced base base' \<longleftrightarrow> (\<exists>n. base' = base\<lparr>sigmap := sigmap base @ replicate n None\<rparr>)"

lemma spaced_refl [simp]: "spaced base base"
  unfolding spaced_def by (intro exI [of _ 0]) simp

lemma spaced_replicate [simp]: "spaced base (base\<lparr>sigmap := sigmap base @ replicate n None\<rparr>)"
  unfolding spaced_def by blast

lemma spaced_fresh: "sigmap base = [] \<Longrightarrow> spaced base (base\<lparr>sigmap := replicate n None\<rparr>)"
  unfolding spaced_def by (intro exI [of _ n]) simp

lemma make_space_runs:
  assumes "slot < 2 ^ 30"
  shows "runs (evmap_make_space p base slot)
    (\<lambda>(r, base'). spaced base base' \<and> (r = -1 \<or> r = 0 \<and> slot < length (sigmap base')))"
proof (cases "length (sigmap base) \<le> slot")
  case True
  let ?n = "length (sigmap base)"
  have "runs (grow_entries (if ?n \<noteq> 0 then ?n else 32) slot) (\<lambda>m. slot < m \<and> ?n \<le> m)"
    using assms grow_entries_runs [of ?n slot] grow_entries_runs [of 32 slot] by (auto elim!: runs_mono)
  then show ?thesis using True
    unfolding evmap_make_space_def Let_def by (auto elim!: runs_bindI simp: spaced_fresh)
next
  case False
  then show ?thesis by (simp add: evmap_make_space_def)
qed

lemma signal_slot:
  assumes "s < length (sigmap base)"
  shows "case GET_SIGNAL_SLOT_AND_CTOR p base s of None \<Rightarrow> True
    | Some (q, base') \<Rightarrow> q = sig_slot (sigmap base) s \<and> (\<exists>sigs. base' = base\<lparr>sigmap := sigs\<rparr>
        \<and> length sigs = length (sigmap base) \<and> sig_slot sigs = sig_slot (sigmap base))"
proof (cases "sigmap base ! s")
  case None
  have "sig_slot ((sigmap base)[s := Some []]) = sig_slot (sigmap base)"
    using None assms by (auto simp: sig_slot_def nth_list_update intro!: ext)
  moreover have "sig_slot (sigmap base) s = []" using None by (simp add: sig_slot_def)
  ultimately show ?thesis
    unfolding GET_SIGNAL_SLOT_AND_CTOR_def None by (auto intro: exI [of _ "(sigmap base)[s := Some []]"])
next
  case (Some q)
  have "\<exists>sigs. base = base\<lparr>sigmap := sigs\<rparr> \<and> length sigs = length (sigmap base) \<and> sig_slot sigs = sig_slot (sigmap base)"
    by (intro exI [of _ "sigmap base"]) simp
  with Some assms show ?thesis by (simp add: GET_SIGNAL_SLOT_AND_CTOR_def sig_slot_def)
qed

lemma sig_add_tail:
  assumes "sig_ok mem ins sigs" "e \<notin> ins" "watches_sig (mem e)" "ev_fd (mem e) = int s" "s < length sigs"
  shows "sig_ok mem (insert e ins) (sigs[s := Some (sig_slot sigs s @ [e])])"
proof (rule sig_ok_update [OF assms(1,5)])
  have "{x \<in> insert e ins. watches_sig (mem x) \<and> ev_fd (mem x) = int s}
      = insert e {x \<in> ins. watches_sig (mem x) \<and> ev_fd (mem x) = int s}"
    using assms(3,4) by auto
  then show "holds (sig_slot sigs s @ [e]) {x \<in> insert e ins. watches_sig (mem x) \<and> ev_fd (mem x) = int s}"
    using assms(1,2) by (simp add: sig_ok_def holds_insert_tail)
qed (use assms(4) in auto)

lemma sig_add_runs:
  assumes ok: "sig_ok (evmem base) ins (sigmap base)" and e: "e \<notin> ins" "watches_sig (evmem base e)"
    and sig: "ev_fd (evmem base e) = int s" "s < 2 ^ 30"
  shows "runs (evmap_signal_add p base (int s) e) (\<lambda>(r, base').
     r \<in> {-1, 1} \<and> sig_change base base' \<and> sig_ok (evmem base) (if r = -1 then ins else insert e ins) (sigmap base'))"
proof -
  have space: "runs (if int s \<ge> int (length (sigmap base)) then evmap_make_space p base (nat (int s)) else Inr (0, base))
      (\<lambda>(r, base'). spaced base base' \<and> (r = -1 \<or> r = 0 \<and> s < length (sigmap base')))"
    using make_space_runs [OF sig(2), of p base] by simp
  have neg: "(if int s < 0 then x else y) = y" for x y :: "(int \<times> ('a, 'b) evmap_base_scheme) exec" by simp
  show ?thesis
    unfolding evmap_signal_add_def neg
  proof (rule runs_bindI [OF space], goal_cases)
    case (1 rb)
    obtain r base1 where rb: "rb = (r, base1)" by (cases rb)
    with 1 obtain n where b1: "base1 = base\<lparr>sigmap := sigmap base @ replicate n None\<rparr>"
      and r: "r = -1 \<or> r = 0 \<and> s < length (sigmap base1)" by (auto simp: spaced_def)
    have ok1: "sig_ok (evmem base) ins (sigmap base1)" using ok b1 by (simp add: sig_ok_def)
    have ch1: "sig_change base base1" using b1 by simp
    consider "r = -1" | "r \<noteq> -1" "GET_SIGNAL_SLOT_AND_CTOR p base1 s = None"
      | q base2 where "r \<noteq> -1" "GET_SIGNAL_SLOT_AND_CTOR p base1 s = Some (q, base2)"
      by (cases "GET_SIGNAL_SLOT_AND_CTOR p base1 s") auto
    then show ?case
    proof cases
      case 3
      with r have s: "s < length (sigmap base1)" by simp
      from signal_slot [OF s, of p] 3(2) obtain sigs where
        b2: "base2 = base1\<lparr>sigmap := sigs\<rparr>" "length sigs = length (sigmap base1)"
        "sig_slot sigs = sig_slot (sigmap base1)" "q = sig_slot (sigmap base1) s" by auto
      obtain r' b where call: "backend_call (q = []) (op_add (evsigsel p)) (evbase base2)
          (ev_fd (evmem base2 e)) {} {EV_SIGNAL} = (r', b)" by fastforce
      have ok2: "sig_ok (evmem base) ins sigs" using ok1 b2(3) by (simp add: sig_ok_def)
      have "sig_ok (evmem base) (insert e ins) (sigs[s := Some (q @ [e])])"
        using sig_add_tail [OF ok2 e sig(1)] s b2(2-4) by simp
      then show ?thesis using rb 3 call ok2 b1 b2(1) by (simp add: Let_def)
    qed (use rb ok1 ch1 in simp_all)
  qed
qed

lemma sig_del_runs:
  assumes ok: "sig_ok (evmem base) ins (sigmap base)" and e: "e \<in> ins" "watches_sig (evmem base e)" and p: "dels_ok p"
  shows "runs (evmap_signal_del p base (ev_fd (evmem base e)) e) (\<lambda>(r, base').
     r = 1 \<and> sig_change base base' \<and> sig_ok (evmem base) (ins - {e}) (sigmap base'))"
proof -
  let ?mem = "evmem base"
  from ok e obtain s where s: "ev_fd (?mem e) = int s"
    unfolding sig_ok_def by (metis nonneg_int_cases)
  let ?S = "\<lambda>ins. {x \<in> ins. watches_sig (?mem x) \<and> ev_fd (?mem x) = int s}"
  have h: "holds (sig_slot (sigmap base) s) (?S ins)" using ok by (simp add: sig_ok_def)
  have eS: "e \<in> ?S ins" using e s by simp
  with h have mem: "e \<in> set (sig_slot (sigmap base) s)" by (simp add: holds_def)
  then obtain q where q: "s < length (sigmap base)" "sigmap base ! s = Some q" "sig_slot (sigmap base) s = q"
    by (cases "s < length (sigmap base)"; cases "sigmap base ! s") (auto simp: sig_slot_def)
  have "?S (ins - {e}) = ?S ins - {e}" by blast
  with holds_remove [OF h eS] q(3) have rm: "TAILQ_REMOVE e q = Inr (remove1 e q)"
    "holds (remove1 e q) (?S (ins - {e}))" by simp_all
  have new: "sig_ok ?mem (ins - {e}) ((sigmap base)[s := Some (remove1 e q)])"
    using s by (intro sig_ok_update [OF ok q(1) rm(2)]) auto
  obtain r b where call: "backend_call (length q \<le> 1) (op_del (evsigsel p)) (evbase base) (int s) {} {EV_SIGNAL} = (r, b)"
    by fastforce
  have "r \<noteq> -1" using call p unfolding dels_ok_def backend_call_def by (auto split: if_splits) (metis fst_conv)
  then show ?thesis using new q rm call s by (simp add: evmap_signal_del_def Let_def)
qed

section \<open>Both maps together\<close>

lemma io_ok_irrelevant:
  assumes "\<not> watches_io (mem e)"
  shows "io_ok mem (insert e ins) io = io_ok mem ins io" "io_ok mem (ins - {e}) io = io_ok mem ins io"
proof -
  have "{x \<in> insert e ins. watches_io (mem x) \<and> ev_fd (mem x) = fd} = {x \<in> ins. watches_io (mem x) \<and> ev_fd (mem x) = fd}"
    "{x \<in> ins - {e}. watches_io (mem x) \<and> ev_fd (mem x) = fd} = {x \<in> ins. watches_io (mem x) \<and> ev_fd (mem x) = fd}" for fd
    using assms by auto
  then show "io_ok mem (insert e ins) io = io_ok mem ins io" "io_ok mem (ins - {e}) io = io_ok mem ins io"
    by (simp_all add: io_ok_def io_slot_ok_def)
qed

lemma sig_ok_irrelevant:
  assumes "\<not> watches_sig (mem e)"
  shows "sig_ok mem (insert e ins) sigs = sig_ok mem ins sigs" "sig_ok mem (ins - {e}) sigs = sig_ok mem ins sigs"
proof -
  have "{x \<in> insert e ins. watches_sig (mem x) \<and> ev_fd (mem x) = fd} = {x \<in> ins. watches_sig (mem x) \<and> ev_fd (mem x) = fd}"
    "{x \<in> ins - {e}. watches_sig (mem x) \<and> ev_fd (mem x) = fd} = {x \<in> ins. watches_sig (mem x) \<and> ev_fd (mem x) = fd}" for fd
    using assms by auto
  with assms show "sig_ok mem (insert e ins) sigs = sig_ok mem ins sigs" "sig_ok mem (ins - {e}) sigs = sig_ok mem ins sigs"
    by (auto simp: sig_ok_def)
qed

lemma evmaps_cong:
  assumes "evio base' = evio base" "sigmap base' = sigmap base"
    "\<And>x. ev_events (evmem base' x) = ev_events (evmem base x)" "\<And>x. ev_fd (evmem base' x) = ev_fd (evmem base x)"
  shows "evmaps_ok ins base' = evmaps_ok ins base"
  using assms by (simp add: evmaps_ok_def io_ok_def io_slot_ok_def sig_ok_def watches_sig_def watches_io_def waiting_def)

definition map_change :: "('b, 'z) evmap_base_scheme \<Rightarrow> ('b, 'z) evmap_base_scheme \<Rightarrow> bool" where
  "map_change base base' \<longleftrightarrow> (\<exists>b io sigs. base' = base\<lparr>evbase := b, evio := io, sigmap := sigs\<rparr>)"

lemma map_changeI: "io_change base base' \<Longrightarrow> map_change base base'" "sig_change base base' \<Longrightarrow> map_change base base'"
proof -
  show "io_change base base' \<Longrightarrow> map_change base base'"
    unfolding io_change_def map_change_def
    by (elim exE, rename_tac b io, rule_tac x = b in exI, rule_tac x = io in exI, rule_tac x = "sigmap base" in exI) simp
  show "sig_change base base' \<Longrightarrow> map_change base base'"
    unfolding sig_change_def map_change_def
    by (elim exE, rename_tac b sigs, rule_tac x = b in exI, rule_tac x = "evio base" in exI, rule_tac x = sigs in exI) simp
qed

lemma change_fields:
  "io_change base base' \<Longrightarrow> sigmap base' = sigmap base" "io_change base base' \<Longrightarrow> evmem base' = evmem base"
  "sig_change base base' \<Longrightarrow> evio base' = evio base" "sig_change base base' \<Longrightarrow> evmem base' = evmem base"
  "map_change base base' \<Longrightarrow> evmem base' = evmem base"
  by (auto simp: io_change_def sig_change_def map_change_def)

text \<open>Adding an event to the map it belongs to, and deleting it, as \<open>event_add\<close> and \<open>event_del\<close> do.\<close>

lemma evmap_add_runs:
  assumes ok: "evmaps_ok ins base" and e: "e \<notin> ins" "watches_io (evmem base e) \<or> EV_SIGNAL \<in> ev_events (evmem base e)"
    and sig: "watches_sig (evmem base e) \<Longrightarrow> 0 \<le> ev_fd (evmem base e) \<and> ev_fd (evmem base e) < 2 ^ 30"
  shows "runs (if watches_io (evmem base e) then evmap_io_add p base (ev_fd (evmem base e)) e
               else evmap_signal_add p base (ev_fd (evmem base e)) e) (\<lambda>(r, base').
     r \<in> {-1, 0, 1} \<and> map_change base base' \<and> evmaps_ok (if r = -1 then ins else insert e ins) base')"
proof (cases "watches_io (evmem base e)")
  case True
  then have "\<not> watches_sig (evmem base e)" by (simp add: watches_sig_def)
  with io_add_runs [of base ins e p] ok e(1) True show ?thesis
    by (auto simp: evmaps_ok_def sig_ok_irrelevant change_fields elim!: runs_mono intro: map_changeI(1))
next
  case False
  with e(2) have w: "watches_sig (evmem base e)" by (simp add: watches_sig_def)
  then obtain s where s: "ev_fd (evmem base e) = int s" "s < 2 ^ 30"
    using sig by (metis nonneg_int_cases of_nat_less_iff of_nat_numeral of_nat_power)
  from sig_add_runs [of base ins e s p] ok e(1) w s False show ?thesis
    by (auto simp: evmaps_ok_def io_ok_irrelevant change_fields elim!: runs_mono intro: map_changeI(2))
qed

lemma evmap_del_runs:
  assumes ok: "evmaps_ok ins base" and e: "e \<in> ins" "watches_io (evmem base e) \<or> EV_SIGNAL \<in> ev_events (evmem base e)"
    and p: "dels_ok p"
  shows "runs (if watches_io (evmem base e) then evmap_io_del p base (ev_fd (evmem base e)) e
               else evmap_signal_del p base (ev_fd (evmem base e)) e) (\<lambda>(r, base').
     r \<in> {0, 1} \<and> map_change base base' \<and> evmaps_ok (ins - {e}) base')"
proof (cases "watches_io (evmem base e)")
  case True
  then have "\<not> watches_sig (evmem base e)" by (simp add: watches_sig_def)
  with io_del_runs [of base ins e p] ok e(1) True p show ?thesis
    by (auto simp: evmaps_ok_def sig_ok_irrelevant change_fields elim!: runs_mono intro: map_changeI(1))
next
  case False
  with e(2) have w: "watches_sig (evmem base e)" by (simp add: watches_sig_def)
  from sig_del_runs [of base ins e p] ok e(1) w False p show ?thesis
    by (auto simp: evmaps_ok_def io_ok_irrelevant change_fields elim!: runs_mono intro: map_changeI(2))
qed

end
