(* ===== verification/Event_Base.thy ===== *)
theory Event_Base
  imports Min_Heap Evmap
begin

unbundle bit_operations_syntax

text \<open>
  \<open>struct event_base\<close> (\<open>event-internal.h\<close>) and its queues, \<open>event.c\<close>: inserted events, active events by
  priority, timeouts in the heap, and common timeouts in lists. Each event carries flags for the queues it
  is in; the invariant \<open>queues_ok\<close> says that flags, queues and counters agree.

  \<open>event_errx\<close> ends the program, as a failed assertion does. Locks are not modelled: each function is one
  step under the lock.
\<close>

section \<open>State\<close>

record common_timeout_list =
  ctl_events :: "nat list"
  ctl_duration :: timeval
  ctl_timeout_event :: nat

text \<open>
  \<open>need_notify\<close> is \<open>EVBASE_NEED_NOTIFY\<close>: the loop runs in another thread; \<open>has_notify_fn\<close>, that there is a
  function to wake it, and \<open>notifications\<close> how often it was called. \<open>closure_ncalls\<close> is the local variable of
  \<open>event_signal_closure\<close> that \<open>ev_pncalls\<close> may point to.
\<close>

record 'b event_base = "'b evmap_base" +
  virtual_event_count :: int
  event_count :: int
  event_count_active :: int
  event_gotterm :: bool
  event_break :: bool
  event_continue :: bool
  event_running_priority :: int
  running_loop :: bool
  activequeues :: "nat list list"
  common_timeout_queues :: "common_timeout_list list"
  n_common_timeouts_allocated :: nat
  defer_list :: "nat list"
  defer_active_count :: int
  cb_queued :: "nat \<Rightarrow> bool"
  eventqueue :: "nat list"
  event_tv :: timeval
  timeheap :: min_heap
  tv_cache :: timeval
  current_event :: "nat option"
  closure_ncalls :: nat
  need_notify :: bool
  is_notify_pending :: bool
  has_notify_fn :: bool
  notifications :: nat

definition set_event :: "nat \<Rightarrow> (event \<Rightarrow> event) \<Rightarrow> 'b event_base \<Rightarrow> 'b event_base" where
  "set_event e f base = base\<lparr>evmem := (evmem base)(e := f (evmem base e))\<rparr>"

definition evthread_notify_base :: "'b event_base \<Rightarrow> 'b event_base" where
  "evthread_notify_base base =
     (if \<not> has_notify_fn base \<or> is_notify_pending base then base
      else base\<lparr>is_notify_pending := True, notifications := notifications base + 1\<rparr>)"

text \<open>\<open>N_ACTIVE_CALLBACKS\<close> and whether anything is left to wait for.\<close>

definition N_ACTIVE_CALLBACKS :: "'b event_base \<Rightarrow> int" where
  "N_ACTIVE_CALLBACKS base = event_count_active base + defer_active_count base"

definition event_haveevents :: "'b event_base \<Rightarrow> bool" where
  "event_haveevents base \<longleftrightarrow> virtual_event_count base > 0 \<or> event_count base > 0"

section \<open>Common timeouts\<close>

definition MICROSECONDS_MASK :: "32 word" where
  "MICROSECONDS_MASK = 0x000fffff"

definition COMMON_TIMEOUT_IDX_MASK :: "32 word" where
  "COMMON_TIMEOUT_IDX_MASK = 0x0ff00000"

definition COMMON_TIMEOUT_IDX_SHIFT :: nat where
  "COMMON_TIMEOUT_IDX_SHIFT = 20"

definition COMMON_TIMEOUT_MASK :: "32 word" where
  "COMMON_TIMEOUT_MASK = 0xf0000000"

definition COMMON_TIMEOUT_MAGIC :: "32 word" where
  "COMMON_TIMEOUT_MAGIC = 0x50000000"

definition COMMON_TIMEOUT_IDX :: "timeval \<Rightarrow> nat" where
  "COMMON_TIMEOUT_IDX tv = unat (drop_bit COMMON_TIMEOUT_IDX_SHIFT (tv_usec tv AND COMMON_TIMEOUT_IDX_MASK))"

definition is_common_timeout :: "timeval \<Rightarrow> 'b event_base \<Rightarrow> bool" where
  "is_common_timeout tv base \<longleftrightarrow>
     tv_usec tv AND COMMON_TIMEOUT_MASK = COMMON_TIMEOUT_MAGIC
     \<and> COMMON_TIMEOUT_IDX tv < length (common_timeout_queues base)"

definition is_same_common_timeout :: "timeval \<Rightarrow> timeval \<Rightarrow> bool" where
  "is_same_common_timeout tv1 tv2 \<longleftrightarrow>
     tv_usec tv1 AND NOT MICROSECONDS_MASK = tv_usec tv2 AND NOT MICROSECONDS_MASK"

definition get_common_timeout_list :: "'b event_base \<Rightarrow> timeval \<Rightarrow> common_timeout_list" where
  "get_common_timeout_list base tv = common_timeout_queues base ! COMMON_TIMEOUT_IDX tv"

text \<open>
  \<open>insert_common_timeout_inorder\<close>: the loop goes from the end of the queue to the front, so it runs over
  the reversed queue.
\<close>

fun insert_from_end :: "events \<Rightarrow> nat \<Rightarrow> nat list \<Rightarrow> nat list exec" where
  "insert_from_end mem ev [] = Inr [ev]"
| "insert_from_end mem ev (e # es) =
     (if \<not> is_same_common_timeout (ev_timeout (mem e)) (ev_timeout (mem ev)) then Inl Assert_Failed
      else if \<not> evutil_timercmp_lt (ev_timeout (mem ev)) (ev_timeout (mem e)) then Inr (ev # e # es)
      else bindE (insert_from_end mem ev es) (\<lambda>es. Inr (e # es)))"

definition insert_common_timeout_inorder :: "events \<Rightarrow> common_timeout_list \<Rightarrow> nat \<Rightarrow> common_timeout_list exec" where
  "insert_common_timeout_inorder mem ctl ev =
     bindE (insert_from_end mem ev (rev (ctl_events ctl))) (\<lambda>es. Inr (ctl\<lparr>ctl_events := rev es\<rparr>))"

section \<open>The queues\<close>

definition put_ctl :: "nat \<Rightarrow> common_timeout_list \<Rightarrow> 'b event_base \<Rightarrow> 'b event_base" where
  "put_ctl i ctl base = base\<lparr>common_timeout_queues := (common_timeout_queues base)[i := ctl]\<rparr>"

text \<open>The \<open>switch\<close> of \<open>event_queue_remove\<close>.\<close>

fun dequeue :: "evlist_flag \<Rightarrow> nat \<Rightarrow> 'b event_base \<Rightarrow> 'b event_base exec" where
  "dequeue EVLIST_INSERTED e base =
     bindE (TAILQ_REMOVE e (eventqueue base)) (\<lambda>q. Inr (base\<lparr>eventqueue := q\<rparr>))"
| "dequeue EVLIST_ACTIVE e base =
     (let pri = ev_pri (evmem base e) in
      if pri < length (activequeues base)
      then bindE (TAILQ_REMOVE e (activequeues base ! pri)) (\<lambda>q.
             Inr (base\<lparr>event_count_active := event_count_active base - 1,
                       activequeues := (activequeues base)[pri := q]\<rparr>))
      else Inl Out_Of_Bounds)"
| "dequeue EVLIST_TIMEOUT e base =
     (let tv = ev_timeout (evmem base e) in
      if is_common_timeout tv base
      then let ctl = get_common_timeout_list base tv in
           bindE (TAILQ_REMOVE e (ctl_events ctl)) (\<lambda>q.
             Inr (put_ctl (COMMON_TIMEOUT_IDX tv) (ctl\<lparr>ctl_events := q\<rparr>) base))
      else bindE (min_heap_erase e (timeheap base, evmem base)) (\<lambda>(_, heap, mem).
             Inr (base\<lparr>timeheap := heap, evmem := mem\<rparr>)))"
| "dequeue _ e base = Inl Assert_Failed"

text \<open>What both functions do first: the flag of the event, and the count of events.\<close>

definition count_event :: "int \<Rightarrow> nat \<Rightarrow> 'b event_base \<Rightarrow> 'b event_base" where
  "count_event d e base =
     (if EVLIST_INTERNAL \<notin> ev_flags (evmem base e) then base\<lparr>event_count := event_count base + d\<rparr> else base)"

definition drop_flag :: "evlist_flag \<Rightarrow> nat \<Rightarrow> 'b event_base \<Rightarrow> 'b event_base" where
  "drop_flag queue e base =
     set_event e (\<lambda>ev. ev\<lparr>ev_flags := ev_flags ev - {queue}\<rparr>) (count_event (-1) e base)"

definition raise_flag :: "evlist_flag \<Rightarrow> nat \<Rightarrow> 'b event_base \<Rightarrow> 'b event_base" where
  "raise_flag queue e base =
     set_event e (\<lambda>ev. ev\<lparr>ev_flags := insert queue (ev_flags ev)\<rparr>) (count_event 1 e base)"

definition event_queue_remove :: "'b event_base \<Rightarrow> nat \<Rightarrow> evlist_flag \<Rightarrow> 'b event_base exec" where
  "event_queue_remove base e queue =
     (if queue \<notin> ev_flags (evmem base e) then Inl Assert_Failed
      else dequeue queue e (drop_flag queue e base))"

text \<open>The \<open>switch\<close> of \<open>event_queue_insert\<close>; the result of \<open>min_heap_push\<close> is not looked at.\<close>

fun enqueue :: "slot_realloc \<Rightarrow> evlist_flag \<Rightarrow> nat \<Rightarrow> 'b event_base \<Rightarrow> 'b event_base exec" where
  "enqueue mm_realloc EVLIST_INSERTED e base = Inr (base\<lparr>eventqueue := eventqueue base @ [e]\<rparr>)"
| "enqueue mm_realloc EVLIST_ACTIVE e base =
     (let pri = ev_pri (evmem base e) in
      if pri < length (activequeues base)
      then Inr (base\<lparr>event_count_active := event_count_active base + 1,
                     activequeues := (activequeues base)[pri := activequeues base ! pri @ [e]]\<rparr>)
      else Inl Out_Of_Bounds)"
| "enqueue mm_realloc EVLIST_TIMEOUT e base =
     (let tv = ev_timeout (evmem base e) in
      if is_common_timeout tv base
      then bindE (insert_common_timeout_inorder (evmem base) (get_common_timeout_list base tv) e) (\<lambda>ctl.
             Inr (put_ctl (COMMON_TIMEOUT_IDX tv) ctl base))
      else bindE (min_heap_push mm_realloc e (timeheap base, evmem base)) (\<lambda>(_, heap, mem).
             Inr (base\<lparr>timeheap := heap, evmem := mem\<rparr>)))"
| "enqueue mm_realloc _ e base = Inl Assert_Failed"

definition event_queue_insert :: "slot_realloc \<Rightarrow> 'b event_base \<Rightarrow> nat \<Rightarrow> evlist_flag \<Rightarrow> 'b event_base exec" where
  "event_queue_insert mm_realloc base e queue =
     (if queue \<in> ev_flags (evmem base e) then if queue = EVLIST_ACTIVE then Inr base else Inl Assert_Failed
      else enqueue mm_realloc queue e (raise_flag queue e base))"

section \<open>The invariant\<close>

definition flagged :: "evlist_flag \<Rightarrow> 'b event_base \<Rightarrow> nat set" where
  "flagged f base = {e. f \<in> ev_flags (evmem base e)}"

text \<open>The events waiting in the heap, and in the list of the \<open>i\<close>-th common timeout.\<close>

definition on_heap :: "'b event_base \<Rightarrow> nat set" where
  "on_heap base = {e \<in> flagged EVLIST_TIMEOUT base. \<not> is_common_timeout (ev_timeout (evmem base e)) base}"

definition on_list :: "nat \<Rightarrow> 'b event_base \<Rightarrow> nat set" where
  "on_list i base = {e \<in> flagged EVLIST_TIMEOUT base. is_common_timeout (ev_timeout (evmem base e)) base
     \<and> COMMON_TIMEOUT_IDX (ev_timeout (evmem base e)) = i}"

text \<open>The events of the program itself are not counted.\<close>

definition counted :: "evlist_flag \<Rightarrow> 'b event_base \<Rightarrow> nat set" where
  "counted f base = flagged f base - flagged EVLIST_INTERNAL base"

text \<open>An event takes 76 bytes, so less than \<open>2 ^ 26\<close> of them fit into the memory; events are numbered.\<close>

definition MAX_EVENTS :: nat where
  "MAX_EVENTS = 2 ^ 26"

definition queue_flags :: "evlist_flag set" where
  "queue_flags = {EVLIST_INSERTED, EVLIST_ACTIVE, EVLIST_TIMEOUT}"

definition active_ok :: "'b event_base \<Rightarrow> bool" where
  "active_ok base \<longleftrightarrow>
     (\<forall>i<length (activequeues base). holds (activequeues base ! i) {e \<in> flagged EVLIST_ACTIVE base. ev_pri (evmem base e) = i})
     \<and> (\<forall>e\<in>flagged EVLIST_ACTIVE base. ev_pri (evmem base e) < length (activequeues base))
     \<and> event_count_active base = int (card (flagged EVLIST_ACTIVE base))"

definition list_ok :: "'b event_base \<Rightarrow> nat \<Rightarrow> common_timeout_list \<Rightarrow> bool" where
  "list_ok base i ctl \<longleftrightarrow>
     holds (ctl_events ctl) (on_list i base) \<and> sorted (map (\<lambda>e. ev_timeout (evmem base e)) (ctl_events ctl))"

definition timeouts_ok :: "'b event_base \<Rightarrow> bool" where
  "timeouts_ok base \<longleftrightarrow>
     heap_ok (timeheap base, evmem base) \<and> heap_members (timeheap base) = on_heap base
     \<and> (\<forall>i<length (common_timeout_queues base). list_ok base i (common_timeout_queues base ! i))"

definition counts_ok :: "'b event_base \<Rightarrow> bool" where
  "counts_ok base \<longleftrightarrow> event_count base =
     int (card (counted EVLIST_INSERTED base) + card (counted EVLIST_ACTIVE base) + card (counted EVLIST_TIMEOUT base))
     \<and> (\<forall>f\<in>queue_flags. flagged f base \<subseteq> {..<MAX_EVENTS})"

definition queues_ok :: "'b event_base \<Rightarrow> bool" where
  "queues_ok base \<longleftrightarrow> holds (eventqueue base) (flagged EVLIST_INSERTED base)
     \<and> active_ok base \<and> timeouts_ok base \<and> counts_ok base"

text \<open>What the queue operations leave alone: all fields of an event but its flags and its position, ...\<close>

definition same_event :: "event \<Rightarrow> event \<Rightarrow> bool" where
  "same_event a b \<longleftrightarrow> b = a\<lparr>min_heap_idx := min_heap_idx b, ev_flags := ev_flags b\<rparr>"

lemma same_event_refl [simp]: "same_event a a"
  by (simp add: same_event_def)

lemma same_event_trans: "same_event a b \<Longrightarrow> same_event b c \<Longrightarrow> same_event a c"
  unfolding same_event_def by (metis event.update_convs(1,8) event.surjective)

lemma same_event_update [simp]:
  "same_event a (a\<lparr>ev_flags := f\<rparr>)" "same_event a (a\<lparr>min_heap_idx := i\<rparr>)"
  by (simp_all add: same_event_def)

lemma same_event_fields:
  assumes "same_event a b"
  shows "ev_fd b = ev_fd a" "ev_io_timeout b = ev_io_timeout a" "ev_ncalls b = ev_ncalls a"
    "ev_pncalls b = ev_pncalls a" "ev_events b = ev_events a" "ev_res b = ev_res a" "ev_pri b = ev_pri a"
    "ev_closure b = ev_closure a" "ev_timeout b = ev_timeout a" "ev_callback b = ev_callback a"
    "ev_arg b = ev_arg a" "ev_base b = ev_base a"
proof -
  obtain i f where "b = a\<lparr>min_heap_idx := i, ev_flags := f\<rparr>" using assms unfolding same_event_def by blast
  then show "ev_fd b = ev_fd a" "ev_io_timeout b = ev_io_timeout a" "ev_ncalls b = ev_ncalls a"
    "ev_pncalls b = ev_pncalls a" "ev_events b = ev_events a" "ev_res b = ev_res a" "ev_pri b = ev_pri a"
    "ev_closure b = ev_closure a" "ev_timeout b = ev_timeout a" "ev_callback b = ev_callback a"
    "ev_arg b = ev_arg a" "ev_base b = ev_base a" by simp_all
qed

text \<open>... and all fields of the base that are not queues.\<close>

definition rest :: "'b event_base \<Rightarrow> 'b event_base" where
  "rest base = base\<lparr>evmem := (\<lambda>_. blank_event), event_count := 0, event_count_active := 0, activequeues := [],
     common_timeout_queues := [], eventqueue := [], timeheap := min_heap_ctor\<rparr>"

definition ctl_info :: "'b event_base \<Rightarrow> (timeval \<times> nat) list" where
  "ctl_info base = map (\<lambda>ctl. (ctl_duration ctl, ctl_timeout_event ctl)) (common_timeout_queues base)"

definition queue_change :: "'b event_base \<Rightarrow> 'b event_base \<Rightarrow> bool" where
  "queue_change base base' \<longleftrightarrow> (\<forall>x. same_event (evmem base x) (evmem base' x)) \<and> rest base' = rest base
     \<and> length (activequeues base') = length (activequeues base) \<and> ctl_info base' = ctl_info base"

lemma rest_fields:
  assumes "rest base' = rest base"
  shows "evbase base' = evbase base" "evio base' = evio base" "sigmap base' = sigmap base"
    "virtual_event_count base' = virtual_event_count base"
    "event_gotterm base' = event_gotterm base" "event_break base' = event_break base" "event_continue base' = event_continue base"
    "event_running_priority base' = event_running_priority base" "running_loop base' = running_loop base"
    "n_common_timeouts_allocated base' = n_common_timeouts_allocated base" "defer_list base' = defer_list base"
    "defer_active_count base' = defer_active_count base" "cb_queued base' = cb_queued base"
    "event_tv base' = event_tv base" "tv_cache base' = tv_cache base" "current_event base' = current_event base"
    "closure_ncalls base' = closure_ncalls base" "need_notify base' = need_notify base"
    "is_notify_pending base' = is_notify_pending base" "has_notify_fn base' = has_notify_fn base"
    "notifications base' = notifications base"
proof -
  obtain m c a q l e h where "base' = base\<lparr>evmem := m, event_count := c, event_count_active := a, activequeues := q,
     common_timeout_queues := l, eventqueue := e, timeheap := h\<rparr>"
  proof
    show "base' = base\<lparr>evmem := evmem base', event_count := event_count base', event_count_active := event_count_active base',
      activequeues := activequeues base', common_timeout_queues := common_timeout_queues base',
      eventqueue := eventqueue base', timeheap := timeheap base'\<rparr>"
      using assms unfolding rest_def by (cases base; cases base') simp
  qed
  then show "evbase base' = evbase base" "evio base' = evio base" "sigmap base' = sigmap base"
    "virtual_event_count base' = virtual_event_count base"
    "event_gotterm base' = event_gotterm base" "event_break base' = event_break base" "event_continue base' = event_continue base"
    "event_running_priority base' = event_running_priority base" "running_loop base' = running_loop base"
    "n_common_timeouts_allocated base' = n_common_timeouts_allocated base" "defer_list base' = defer_list base"
    "defer_active_count base' = defer_active_count base" "cb_queued base' = cb_queued base"
    "event_tv base' = event_tv base" "tv_cache base' = tv_cache base" "current_event base' = current_event base"
    "closure_ncalls base' = closure_ncalls base" "need_notify base' = need_notify base"
    "is_notify_pending base' = is_notify_pending base" "has_notify_fn base' = has_notify_fn base"
    "notifications base' = notifications base" by simp_all
qed

lemma queue_change_refl [simp]: "queue_change base base"
  by (simp add: queue_change_def)

lemma queue_change_trans: "queue_change a b \<Longrightarrow> queue_change b c \<Longrightarrow> queue_change a c"
  unfolding queue_change_def using same_event_trans by metis

section \<open>Flags and counters\<close>

lemma is_common_cong:
  "ctl_info base' = ctl_info base \<Longrightarrow> is_common_timeout tv base' = is_common_timeout tv base"
  unfolding is_common_timeout_def ctl_info_def by (metis length_map)

lemma rest_update [simp]:
  "rest (base\<lparr>evmem := m\<rparr>) = rest base" "rest (base\<lparr>event_count := c\<rparr>) = rest base"
  "rest (base\<lparr>event_count_active := c\<rparr>) = rest base" "rest (base\<lparr>activequeues := a\<rparr>) = rest base"
  "rest (base\<lparr>common_timeout_queues := l\<rparr>) = rest base" "rest (base\<lparr>eventqueue := q\<rparr>) = rest base"
  "rest (base\<lparr>timeheap := h\<rparr>) = rest base"
  by (simp_all add: rest_def)

lemma ctl_info_update [simp]:
  "ctl_info (base\<lparr>evmem := m\<rparr>) = ctl_info base" "ctl_info (base\<lparr>event_count := c\<rparr>) = ctl_info base"
  "ctl_info (base\<lparr>event_count_active := c\<rparr>) = ctl_info base" "ctl_info (base\<lparr>activequeues := a\<rparr>) = ctl_info base"
  "ctl_info (base\<lparr>eventqueue := q\<rparr>) = ctl_info base" "ctl_info (base\<lparr>timeheap := h\<rparr>) = ctl_info base"
  by (simp_all add: ctl_info_def)

lemma set_event_fields [simp]:
  "evmem (set_event e f base) = (evmem base)(e := f (evmem base e))"
  "eventqueue (set_event e f base) = eventqueue base" "activequeues (set_event e f base) = activequeues base"
  "event_count (set_event e f base) = event_count base" "event_count_active (set_event e f base) = event_count_active base"
  "timeheap (set_event e f base) = timeheap base" "common_timeout_queues (set_event e f base) = common_timeout_queues base"
  "rest (set_event e f base) = rest base" "ctl_info (set_event e f base) = ctl_info base"
  by (simp_all add: set_event_def rest_def ctl_info_def)

lemma count_event_fields [simp]:
  "evmem (count_event d e base) = evmem base" "eventqueue (count_event d e base) = eventqueue base"
  "activequeues (count_event d e base) = activequeues base" "event_count_active (count_event d e base) = event_count_active base"
  "timeheap (count_event d e base) = timeheap base" "common_timeout_queues (count_event d e base) = common_timeout_queues base"
  "event_count (count_event d e base) = event_count base + (if EVLIST_INTERNAL \<in> ev_flags (evmem base e) then 0 else d)"
  "rest (count_event d e base) = rest base" "ctl_info (count_event d e base) = ctl_info base"
  by (simp_all add: count_event_def rest_def ctl_info_def)

lemma raise_flag_fields [simp]:
  "eventqueue (raise_flag q e base) = eventqueue base" "activequeues (raise_flag q e base) = activequeues base"
  "event_count_active (raise_flag q e base) = event_count_active base" "timeheap (raise_flag q e base) = timeheap base"
  "common_timeout_queues (raise_flag q e base) = common_timeout_queues base"
  "flagged f (raise_flag q e base) = (if f = q then insert e (flagged f base) else flagged f base)"
  "min_heap_idx (evmem (raise_flag q e base) x) = min_heap_idx (evmem base x)"
  "same_event (evmem base x) (evmem (raise_flag q e base) x)" "queue_change base (raise_flag q e base)"
  "rest (raise_flag q e base) = rest base" "ctl_info (raise_flag q e base) = ctl_info base"
  by (auto simp: raise_flag_def flagged_def queue_change_def)

lemma drop_flag_fields [simp]:
  "eventqueue (drop_flag q e base) = eventqueue base" "activequeues (drop_flag q e base) = activequeues base"
  "event_count_active (drop_flag q e base) = event_count_active base" "timeheap (drop_flag q e base) = timeheap base"
  "common_timeout_queues (drop_flag q e base) = common_timeout_queues base"
  "flagged f (drop_flag q e base) = (if f = q then flagged f base - {e} else flagged f base)"
  "min_heap_idx (evmem (drop_flag q e base) x) = min_heap_idx (evmem base x)"
  "same_event (evmem base x) (evmem (drop_flag q e base) x)" "queue_change base (drop_flag q e base)"
  "rest (drop_flag q e base) = rest base" "ctl_info (drop_flag q e base) = ctl_info base"
  by (auto simp: drop_flag_def flagged_def queue_change_def)

lemma finite_bounded: "A \<subseteq> {..<MAX_EVENTS} \<Longrightarrow> finite A"
  using finite_subset by blast

lemma counts_step:
  assumes "counts_ok base" "q \<in> queue_flags" "\<And>f. f \<noteq> q \<Longrightarrow> counted f base' = counted f base"
    "int (card (counted q base')) = int (card (counted q base)) + d" "event_count base' = event_count base + d"
    "\<And>f. f \<in> queue_flags \<Longrightarrow> flagged f base' \<subseteq> {..<MAX_EVENTS}"
  shows "counts_ok base'"
proof -
  have "event_count base' = int (card (counted EVLIST_INSERTED base') + card (counted EVLIST_ACTIVE base')
      + card (counted EVLIST_TIMEOUT base'))"
    using assms(1,2,4,5) assms(3) [of EVLIST_INSERTED] assms(3) [of EVLIST_ACTIVE] assms(3) [of EVLIST_TIMEOUT]
    unfolding counts_ok_def queue_flags_def by (elim insertE) auto
  with assms(6) show ?thesis by (simp add: counts_ok_def)
qed

lemma counted_finite: "counts_ok base \<Longrightarrow> q \<in> queue_flags \<Longrightarrow> finite (counted q base)"
  unfolding counts_ok_def counted_def by (blast intro: finite_bounded finite_Diff)

lemma raise_flag_counts:
  assumes "counts_ok base" "q \<in> queue_flags" "e \<notin> flagged q base" "e < MAX_EVENTS"
  shows "counts_ok (raise_flag q e base)"
proof (rule counts_step [OF assms(1,2)])
  let ?int = "EVLIST_INTERNAL \<in> ev_flags (evmem base e)"
  have int: "q \<noteq> EVLIST_INTERNAL" using assms(2) by (auto simp: queue_flags_def)
  show "counted f (raise_flag q e base) = counted f base" if "f \<noteq> q" for f
    using int that by (simp add: counted_def)
  have "counted q (raise_flag q e base) = (if ?int then counted q base else insert e (counted q base))"
    using int by (auto simp: counted_def) (auto simp: flagged_def)
  moreover have "e \<notin> counted q base" using assms(3) by (simp add: counted_def)
  ultimately show "int (card (counted q (raise_flag q e base))) = int (card (counted q base)) + (if ?int then 0 else 1)"
    using counted_finite [OF assms(1,2)] by simp
  show "event_count (raise_flag q e base) = event_count base + (if ?int then 0 else 1)"
    by (simp add: raise_flag_def)
  show "flagged f (raise_flag q e base) \<subseteq> {..<MAX_EVENTS}" if "f \<in> queue_flags" for f
    using assms(1,4) that by (auto simp: counts_ok_def)
qed

lemma drop_flag_counts:
  assumes "counts_ok base" "q \<in> queue_flags" "e \<in> flagged q base"
  shows "counts_ok (drop_flag q e base)"
proof (rule counts_step [OF assms(1,2)])
  let ?int = "EVLIST_INTERNAL \<in> ev_flags (evmem base e)"
  have int: "q \<noteq> EVLIST_INTERNAL" using assms(2) by (auto simp: queue_flags_def)
  show "counted f (drop_flag q e base) = counted f base" if "f \<noteq> q" for f
    using int that by (simp add: counted_def)
  have c: "counted q (drop_flag q e base) = counted q base - {e}" using int by (auto simp: counted_def)
  have e: "e \<in> counted q base \<longleftrightarrow> \<not> ?int" using assms(3) by (auto simp: counted_def flagged_def)
  have "card (counted q base) = (if ?int then 0 else 1) + card (counted q base - {e})"
    using e card_Suc_Diff1 [OF counted_finite [OF assms(1,2)], of e] by simp
  with c show "int (card (counted q (drop_flag q e base))) = int (card (counted q base)) + (if ?int then 0 else - 1)"
    by simp
  show "event_count (drop_flag q e base) = event_count base + (if ?int then 0 else - 1)"
    by (simp add: drop_flag_def)
  show "flagged f (drop_flag q e base) \<subseteq> {..<MAX_EVENTS}" if "f \<in> queue_flags" for f
    using assms(1) that by (auto simp: counts_ok_def)
qed

text \<open>Each part of the invariant looks at a part of the state only.\<close>

lemma flagged_cong: "(\<And>x. ev_flags (evmem base' x) = ev_flags (evmem base x)) \<Longrightarrow> flagged f base' = flagged f base"
  by (simp add: flagged_def)

lemma counts_cong:
  assumes "event_count base' = event_count base" "\<And>x. ev_flags (evmem base' x) = ev_flags (evmem base x)"
  shows "counts_ok base' = counts_ok base"
proof -
  have "flagged f base' = flagged f base" for f using assms(2) by (rule flagged_cong)
  then show ?thesis using assms(1) by (simp add: counts_ok_def counted_def)
qed

lemma active_cong:
  assumes "activequeues base' = activequeues base" "event_count_active base' = event_count_active base"
    "flagged EVLIST_ACTIVE base' = flagged EVLIST_ACTIVE base" "\<And>x. ev_pri (evmem base' x) = ev_pri (evmem base x)"
  shows "active_ok base' = active_ok base"
  using assms by (simp add: active_ok_def)

lemma heap_ok_cong:
  assumes "\<And>x. min_heap_idx (ev' x) = min_heap_idx (ev x)" "\<And>x. ev_timeout (ev' x) = ev_timeout (ev x)"
  shows "heap_ok (s, ev') = heap_ok (s, ev)"
  using assms by (simp add: heap_ok_def placed_but_def)

lemma timeouts_cong:
  assumes "timeheap base' = timeheap base" "common_timeout_queues base' = common_timeout_queues base"
    "flagged EVLIST_TIMEOUT base' = flagged EVLIST_TIMEOUT base"
    "\<And>x. min_heap_idx (evmem base' x) = min_heap_idx (evmem base x)"
    "\<And>x. ev_timeout (evmem base' x) = ev_timeout (evmem base x)"
  shows "timeouts_ok base' = timeouts_ok base"
proof -
  have c: "is_common_timeout tv base' = is_common_timeout tv base" for tv using assms(2) by (simp add: is_common_timeout_def)
  have "heap_ok (timeheap base, evmem base') = heap_ok (timeheap base, evmem base)" using assms(4,5) by (rule heap_ok_cong)
  moreover have "on_heap base' = on_heap base" "on_list i base' = on_list i base" for i
    using assms(3,5) c by (simp_all add: on_heap_def on_list_def)
  ultimately show ?thesis using assms(1,2,5) by (simp add: timeouts_ok_def list_ok_def)
qed

section \<open>Inserting into and removing from a queue\<close>

definition inserted :: "evlist_flag \<Rightarrow> nat \<Rightarrow> 'b event_base \<Rightarrow> 'b event_base \<Rightarrow> bool" where
  "inserted q e base base' \<longleftrightarrow> queues_ok base' \<and> queue_change base base'
     \<and> (\<forall>f. flagged f base' = (if f = q then insert e (flagged f base) else flagged f base))"

definition removed :: "evlist_flag \<Rightarrow> nat \<Rightarrow> 'b event_base \<Rightarrow> 'b event_base \<Rightarrow> bool" where
  "removed q e base base' \<longleftrightarrow> queues_ok base' \<and> queue_change base base'
     \<and> (\<forall>f. flagged f base' = (if f = q then flagged f base - {e} else flagged f base))"

lemma raise_flag_event [simp]:
  "ev_timeout (evmem (raise_flag q e base) x) = ev_timeout (evmem base x)"
  "ev_pri (evmem (raise_flag q e base) x) = ev_pri (evmem base x)"
  "ev_timeout (evmem (drop_flag q e base) x) = ev_timeout (evmem base x)"
  "ev_pri (evmem (drop_flag q e base) x) = ev_pri (evmem base x)"
  by (simp_all add: raise_flag_def drop_flag_def)

lemma insert_INSERTED:
  assumes "queues_ok base" "e \<notin> flagged EVLIST_INSERTED base" "e < MAX_EVENTS"
  shows "runs (event_queue_insert mm_realloc base e EVLIST_INSERTED) (inserted EVLIST_INSERTED e base)"
proof -
  let ?b = "raise_flag EVLIST_INSERTED e base" and ?b' = "(raise_flag EVLIST_INSERTED e base)\<lparr>eventqueue := eventqueue base @ [e]\<rparr>"
  have fl: "flagged f ?b' = flagged f ?b" for f by (simp add: flagged_def)
  have "holds (eventqueue ?b') (flagged EVLIST_INSERTED ?b')"
    unfolding fl using assms by (simp add: queues_ok_def holds_insert_tail)
  moreover have "active_ok ?b'" using assms(1) active_cong [of ?b' base] fl by (simp add: queues_ok_def)
  moreover have "timeouts_ok ?b'" using assms(1) timeouts_cong [of ?b' base] fl by (simp add: queues_ok_def)
  moreover have "counts_ok ?b'"
    using assms raise_flag_counts [of base EVLIST_INSERTED e] counts_cong [of ?b' ?b]
    by (simp add: queues_ok_def queue_flags_def)
  moreover have "queue_change base ?b'"
    by (rule queue_change_trans [of _ ?b]) (simp_all add: queue_change_def)
  ultimately show ?thesis
    using assms(2) fl by (simp add: event_queue_insert_def inserted_def queues_ok_def) (simp add: flagged_def)
qed

lemma remove_INSERTED:
  assumes "queues_ok base" "e \<in> flagged EVLIST_INSERTED base"
  shows "runs (event_queue_remove base e EVLIST_INSERTED) (removed EVLIST_INSERTED e base)"
proof -
  let ?b = "drop_flag EVLIST_INSERTED e base" and ?b' = "(drop_flag EVLIST_INSERTED e base)\<lparr>eventqueue := remove1 e (eventqueue base)\<rparr>"
  have fl: "flagged f ?b' = flagged f ?b" for f by (simp add: flagged_def)
  have rm: "TAILQ_REMOVE e (eventqueue base) = Inr (remove1 e (eventqueue base))"
    "holds (remove1 e (eventqueue base)) (flagged EVLIST_INSERTED base - {e})"
    using assms holds_remove by (auto simp: queues_ok_def)
  then have "holds (eventqueue ?b') (flagged EVLIST_INSERTED ?b')" unfolding fl by simp
  moreover have "active_ok ?b'" using assms(1) active_cong [of ?b' base] fl by (simp add: queues_ok_def)
  moreover have "timeouts_ok ?b'" using assms(1) timeouts_cong [of ?b' base] fl by (simp add: queues_ok_def)
  moreover have "counts_ok ?b'"
    using assms drop_flag_counts [of base EVLIST_INSERTED e] counts_cong [of ?b' ?b]
    by (simp add: queues_ok_def queue_flags_def)
  moreover have "queue_change base ?b'"
    by (rule queue_change_trans [of _ ?b]) (simp_all add: queue_change_def)
  ultimately show ?thesis
    using assms(2) fl rm(1) by (simp add: event_queue_remove_def removed_def queues_ok_def) (simp add: flagged_def)
qed

text \<open>Active events.\<close>

lemma active_in_queue:
  assumes "active_ok base" "e \<in> flagged EVLIST_ACTIVE base"
  shows "ev_pri (evmem base e) < length (activequeues base)" "e \<in> set (activequeues base ! ev_pri (evmem base e))"
  using assms by (auto simp: active_ok_def holds_def)

lemma active_insert:
  assumes "active_ok base" "counts_ok base" "e \<notin> flagged EVLIST_ACTIVE base" "ev_pri (evmem base e) < length (activequeues base)"
    "flagged EVLIST_ACTIVE base' = insert e (flagged EVLIST_ACTIVE base)" "\<And>x. ev_pri (evmem base' x) = ev_pri (evmem base x)"
    "activequeues base' = (activequeues base)[ev_pri (evmem base e) := activequeues base ! ev_pri (evmem base e) @ [e]]"
    "event_count_active base' = event_count_active base + 1"
  shows "active_ok base'"
proof -
  let ?pri = "ev_pri (evmem base e)"
  have "holds (activequeues base' ! i) {x \<in> flagged EVLIST_ACTIVE base'. ev_pri (evmem base' x) = i}"
    if i: "i < length (activequeues base')" for i
  proof (cases "i = ?pri")
    case True
    have "{x \<in> flagged EVLIST_ACTIVE base'. ev_pri (evmem base' x) = i}
        = insert e {x \<in> flagged EVLIST_ACTIVE base. ev_pri (evmem base x) = i}" using assms(5,6) True by auto
    with True assms(1,3,4,7) show ?thesis by (simp add: active_ok_def holds_insert_tail)
  next
    case False
    then have "{x \<in> flagged EVLIST_ACTIVE base'. ev_pri (evmem base' x) = i}
        = {x \<in> flagged EVLIST_ACTIVE base. ev_pri (evmem base x) = i}" using assms(5,6) by auto
    with False assms(1,7) i show ?thesis by (simp add: active_ok_def)
  qed
  moreover have "finite (flagged EVLIST_ACTIVE base)"
    using assms(2) by (auto simp: counts_ok_def queue_flags_def intro: finite_bounded)
  ultimately show ?thesis using assms by (simp add: active_ok_def)
qed

lemma active_remove:
  assumes "active_ok base" "counts_ok base" "e \<in> flagged EVLIST_ACTIVE base"
    "flagged EVLIST_ACTIVE base' = flagged EVLIST_ACTIVE base - {e}" "\<And>x. ev_pri (evmem base' x) = ev_pri (evmem base x)"
    "activequeues base' = (activequeues base)[ev_pri (evmem base e) := remove1 e (activequeues base ! ev_pri (evmem base e))]"
    "event_count_active base' = event_count_active base - 1"
  shows "active_ok base'"
proof -
  let ?pri = "ev_pri (evmem base e)"
  have pri: "?pri < length (activequeues base)" using active_in_queue(1) [OF assms(1,3)] .
  have "holds (activequeues base' ! i) {x \<in> flagged EVLIST_ACTIVE base'. ev_pri (evmem base' x) = i}"
    if i: "i < length (activequeues base')" for i
  proof (cases "i = ?pri")
    case True
    let ?S = "{x \<in> flagged EVLIST_ACTIVE base. ev_pri (evmem base x) = i}"
    have "{x \<in> flagged EVLIST_ACTIVE base'. ev_pri (evmem base' x) = i} = ?S - {e}" using assms(4,5) by auto
    moreover have "holds (activequeues base ! i) ?S" "e \<in> ?S" using assms(1,3) True pri by (auto simp: active_ok_def)
    ultimately show ?thesis using holds_remove True assms(6) pri by simp
  next
    case False
    then have "{x \<in> flagged EVLIST_ACTIVE base'. ev_pri (evmem base' x) = i}
        = {x \<in> flagged EVLIST_ACTIVE base. ev_pri (evmem base x) = i}" using assms(4,5) by auto
    with False assms(1,6) i show ?thesis by (simp add: active_ok_def)
  qed
  moreover have "finite (flagged EVLIST_ACTIVE base)"
    using assms(2) by (auto simp: counts_ok_def queue_flags_def intro: finite_bounded)
  then have "card (flagged EVLIST_ACTIVE base) = Suc (card (flagged EVLIST_ACTIVE base - {e}))"
    using assms(3) by (simp only: card_Suc_Diff1)
  ultimately show ?thesis using assms by (simp add: active_ok_def)
qed

lemma insert_ACTIVE:
  assumes "queues_ok base" "e \<notin> flagged EVLIST_ACTIVE base" "e < MAX_EVENTS" "ev_pri (evmem base e) < length (activequeues base)"
  shows "runs (event_queue_insert mm_realloc base e EVLIST_ACTIVE) (inserted EVLIST_ACTIVE e base)"
proof -
  let ?b = "raise_flag EVLIST_ACTIVE e base" and ?pri = "ev_pri (evmem base e)"
  let ?b' = "?b\<lparr>event_count_active := event_count_active base + 1,
      activequeues := (activequeues base)[?pri := activequeues base ! ?pri @ [e]]\<rparr>"
  have fl: "flagged f ?b' = flagged f ?b" for f by (simp add: flagged_def)
  have "holds (eventqueue ?b') (flagged EVLIST_INSERTED ?b')" unfolding fl using assms by (simp add: queues_ok_def)
  moreover have "active_ok ?b'"
    using assms fl by (intro active_insert [of base e ?b']) (simp_all add: queues_ok_def)
  moreover have "timeouts_ok ?b'" using assms(1) timeouts_cong [of ?b' base] fl by (simp add: queues_ok_def)
  moreover have "counts_ok ?b'"
    using assms raise_flag_counts [of base EVLIST_ACTIVE e] counts_cong [of ?b' ?b]
    by (simp add: queues_ok_def queue_flags_def)
  moreover have "queue_change base ?b'"
    by (rule queue_change_trans [of _ ?b]) (simp_all add: queue_change_def)
  ultimately show ?thesis
    using assms(2,4) fl by (simp add: event_queue_insert_def inserted_def queues_ok_def Let_def) (simp add: flagged_def)
qed

lemma remove_ACTIVE:
  assumes "queues_ok base" "e \<in> flagged EVLIST_ACTIVE base"
  shows "runs (event_queue_remove base e EVLIST_ACTIVE) (removed EVLIST_ACTIVE e base)"
proof -
  let ?b = "drop_flag EVLIST_ACTIVE e base" and ?pri = "ev_pri (evmem base e)"
  let ?b' = "?b\<lparr>event_count_active := event_count_active base - 1,
      activequeues := (activequeues base)[?pri := remove1 e (activequeues base ! ?pri)]\<rparr>"
  have fl: "flagged f ?b' = flagged f ?b" for f by (simp add: flagged_def)
  have ao: "active_ok base" using assms(1) by (simp add: queues_ok_def)
  note pri = active_in_queue [OF ao assms(2)]
  have "holds (eventqueue ?b') (flagged EVLIST_INSERTED ?b')" unfolding fl using assms by (simp add: queues_ok_def)
  moreover have "active_ok ?b'"
    using assms fl by (intro active_remove [of base e ?b']) (simp_all add: queues_ok_def)
  moreover have "timeouts_ok ?b'" using assms(1) timeouts_cong [of ?b' base] fl by (simp add: queues_ok_def)
  moreover have "counts_ok ?b'"
    using assms drop_flag_counts [of base EVLIST_ACTIVE e] counts_cong [of ?b' ?b]
    by (simp add: queues_ok_def queue_flags_def)
  moreover have "queue_change base ?b'"
    by (rule queue_change_trans [of _ ?b]) (simp_all add: queue_change_def)
  ultimately show ?thesis
    using assms(2) fl pri by (simp add: event_queue_remove_def removed_def queues_ok_def Let_def TAILQ_REMOVE_def)
      (simp add: flagged_def)
qed

text \<open>Timeouts.\<close>

lemma same_common:
  assumes "is_common_timeout a base" "is_common_timeout b base" "COMMON_TIMEOUT_IDX a = COMMON_TIMEOUT_IDX b"
  shows "is_same_common_timeout a b"
proof -
  have neg: "(- 1048576 :: 32 word) = 4293918720" by transfer (simp add: take_bit_eq_mod)
  have split: "u AND NOT MICROSECONDS_MASK = (u AND COMMON_TIMEOUT_MASK) OR (u AND COMMON_TIMEOUT_IDX_MASK)" for u
    by (simp add: MICROSECONDS_MASK_def COMMON_TIMEOUT_MASK_def COMMON_TIMEOUT_IDX_MASK_def neg
        flip: bit.conj_disj_distrib)
  have idx: "push_bit 20 (drop_bit 20 (u AND COMMON_TIMEOUT_IDX_MASK)) = u AND COMMON_TIMEOUT_IDX_MASK" for u :: "32 word"
  proof -
    have "take_bit 20 (u AND COMMON_TIMEOUT_IDX_MASK) = 0"
      by (simp add: COMMON_TIMEOUT_IDX_MASK_def take_bit_eq_mask and.assoc mask_eq_exp_minus_1)
    then show ?thesis using bits_ident [of 20 "u AND COMMON_TIMEOUT_IDX_MASK"] by simp
  qed
  from assms(3) have "drop_bit 20 (tv_usec a AND COMMON_TIMEOUT_IDX_MASK) = drop_bit 20 (tv_usec b AND COMMON_TIMEOUT_IDX_MASK)"
    unfolding COMMON_TIMEOUT_IDX_def COMMON_TIMEOUT_IDX_SHIFT_def by (rule unsigned_word_eqI)
  then have "tv_usec a AND COMMON_TIMEOUT_IDX_MASK = tv_usec b AND COMMON_TIMEOUT_IDX_MASK" by (metis idx)
  with assms(1,2) show ?thesis by (simp add: is_same_common_timeout_def split is_common_timeout_def)
qed

lemma insert_from_end_runs:
  assumes "sorted (map (due mem) (rev es))" "distinct es" "ev \<notin> set es"
    "\<forall>e\<in>set es. is_same_common_timeout (due mem e) (due mem ev)"
  shows "runs (insert_from_end mem ev es)
    (\<lambda>es'. distinct es' \<and> set es' = insert ev (set es) \<and> sorted (map (due mem) (rev es')))"
  using assms
proof (induction es)
  case (Cons e es)
  have top: "sorted (map (due mem) (rev es))" "\<forall>x\<in>set es. due mem x \<le> due mem e"
    using Cons.prems(1) by (simp_all add: sorted_append)
  show ?case
  proof (cases "due mem ev < due mem e")
    case True
    have "runs (insert_from_end mem ev es)
        (\<lambda>es'. distinct es' \<and> set es' = insert ev (set es) \<and> sorted (map (due mem) (rev es')))"
      using Cons.prems top(1) by (intro Cons.IH) simp_all
    then show ?thesis
      using True Cons.prems(2-4) top(2)
      by (auto simp: runs_bindE sorted_append elim!: runs_mono)
  next
    case False
    then have le: "due mem e \<le> due mem ev" by (simp add: not_less)
    then have "\<forall>x\<in>set es. due mem x \<le> due mem ev" using top(2) order_trans by blast
    with False Cons.prems(2-4) top le show ?thesis by (simp add: sorted_append)
  qed
qed simp

lemma heap_size:
  assumes "timeouts_ok base" "counts_ok base"
  shows "mh_n (timeheap base) < 2 ^ 29"
proof -
  have ok: "heap_ok (timeheap base, evmem base)" using assms(1) by (simp add: timeouts_ok_def)
  have "heap_members (timeheap base) \<subseteq> {..<MAX_EVENTS}"
    using assms by (auto simp: timeouts_ok_def on_heap_def counts_ok_def queue_flags_def)
  then have "card (heap_members (timeheap base)) \<le> MAX_EVENTS" using card_mono [of "{..<MAX_EVENTS}"] by simp
  moreover have "card (heap_members (timeheap base)) = mh_n (timeheap base)"
    using heap_ok_distinct [OF ok] ok by (simp add: heap_members_def distinct_card heap_ok_def)
  ultimately show ?thesis by (simp add: MAX_EVENTS_def)
qed

text \<open>How the sets of waiting events change with the flag.\<close>

lemma waiting_insert:
  assumes "flagged EVLIST_TIMEOUT base' = insert e (flagged EVLIST_TIMEOUT base)" "ctl_info base' = ctl_info base"
    "\<And>x. ev_timeout (evmem base' x) = ev_timeout (evmem base x)"
  shows "on_heap base' = (if is_common_timeout (ev_timeout (evmem base e)) base then on_heap base else insert e (on_heap base))"
    "on_list i base' = (if is_common_timeout (ev_timeout (evmem base e)) base
       \<and> COMMON_TIMEOUT_IDX (ev_timeout (evmem base e)) = i then insert e (on_list i base) else on_list i base)"
  using assms(1,3) is_common_cong [OF assms(2)] by (auto simp: on_heap_def on_list_def)

lemma waiting_remove:
  assumes "flagged EVLIST_TIMEOUT base' = flagged EVLIST_TIMEOUT base - {e}" "ctl_info base' = ctl_info base"
    "\<And>x. ev_timeout (evmem base' x) = ev_timeout (evmem base x)"
  shows "on_heap base' = on_heap base - {e}" "on_list i base' = on_list i base - {e}"
  using assms(1,3) is_common_cong [OF assms(2)] by (auto simp: on_heap_def on_list_def)

lemma put_ctl_fields [simp]:
  "evmem (put_ctl i ctl base) = evmem base" "eventqueue (put_ctl i ctl base) = eventqueue base"
  "activequeues (put_ctl i ctl base) = activequeues base" "event_count (put_ctl i ctl base) = event_count base"
  "event_count_active (put_ctl i ctl base) = event_count_active base" "timeheap (put_ctl i ctl base) = timeheap base"
  "common_timeout_queues (put_ctl i ctl base) = (common_timeout_queues base)[i := ctl]"
  "rest (put_ctl i ctl base) = rest base" "flagged f (put_ctl i ctl base) = flagged f base"
  by (simp_all add: put_ctl_def flagged_def)

lemma put_ctl_info:
  assumes "i < length (common_timeout_queues base)" "ctl_duration ctl = ctl_duration (common_timeout_queues base ! i)"
    "ctl_timeout_event ctl = ctl_timeout_event (common_timeout_queues base ! i)"
  shows "ctl_info (put_ctl i ctl base) = ctl_info base"
  unfolding ctl_info_def put_ctl_fields
  by (rule nth_equalityI) (use assms in \<open>simp_all add: nth_list_update\<close>)

text \<open>The heap part and the list part after a change of one list.\<close>

lemma timeouts_ok_list:
  assumes "timeouts_ok base" "timeheap base' = timeheap base"
    "\<And>x. min_heap_idx (evmem base' x) = min_heap_idx (evmem base x)"
    "\<And>x. ev_timeout (evmem base' x) = ev_timeout (evmem base x)"
    "on_heap base' = on_heap base" "common_timeout_queues base' = (common_timeout_queues base)[i := ctl]"
    "list_ok base' i ctl" "\<And>j. j \<noteq> i \<Longrightarrow> on_list j base' = on_list j base"
  shows "timeouts_ok base'"
proof -
  have "heap_ok (timeheap base, evmem base')"
    using assms(1) heap_ok_cong [OF assms(3,4)] by (simp add: timeouts_ok_def)
  moreover have "list_ok base' j (common_timeout_queues base' ! j)" if "j < length (common_timeout_queues base')" for j
    using assms(1,4,6,7,8) that by (cases "j = i") (simp_all add: timeouts_ok_def list_ok_def)
  ultimately show ?thesis using assms(1,2,5) by (simp add: timeouts_ok_def)
qed

lemma common_idx: "is_common_timeout tv base \<Longrightarrow> COMMON_TIMEOUT_IDX tv < length (common_timeout_queues base)"
  by (simp add: is_common_timeout_def)

lemma insert_TIMEOUT:
  assumes ok: "queues_ok base" and e: "e \<notin> flagged EVLIST_TIMEOUT base" "e < MAX_EVENTS" and re: "realloc_ok mm_realloc"
    and room: "is_common_timeout (ev_timeout (evmem base e)) base \<or> mh_n (timeheap base) < mh_a (timeheap base)"
  shows "runs (event_queue_insert mm_realloc base e EVLIST_TIMEOUT) (\<lambda>base'. inserted EVLIST_TIMEOUT e base base'
     \<and> (is_common_timeout (ev_timeout (evmem base e)) base \<longrightarrow> timeheap base' = timeheap base)
     \<and> mh_a (timeheap base') = mh_a (timeheap base))"
proof -
  let ?b = "raise_flag EVLIST_TIMEOUT e base" and ?tv = "ev_timeout (evmem base e)"
  have to: "timeouts_ok base" and co: "counts_ok base" and ao: "active_ok base" using ok by (simp_all add: queues_ok_def)
  have cb: "counts_ok ?b" using co e by (simp add: raise_flag_counts queue_flags_def)
  have com: "is_common_timeout tv ?b = is_common_timeout tv base" for tv by (rule is_common_cong) simp
  have unf: "event_queue_insert mm_realloc base e EVLIST_TIMEOUT = enqueue mm_realloc EVLIST_TIMEOUT e ?b"
    using e(1) by (simp add: event_queue_insert_def flagged_def)
  have fin: "inserted EVLIST_TIMEOUT e base base'"
    if "timeouts_ok base'" "queue_change ?b base'" "\<And>x. ev_flags (evmem base' x) = ev_flags (evmem ?b x)"
      "eventqueue base' = eventqueue base" "activequeues base' = activequeues base"
      "event_count_active base' = event_count_active base" "event_count base' = event_count ?b" for base'
  proof -
    have fl: "flagged f base' = flagged f ?b" for f using that(3) by (rule flagged_cong)
    have qc: "queue_change base base'" using that(2) by (rule queue_change_trans [rotated]) simp
    then have "ev_pri (evmem base' x) = ev_pri (evmem base x)" for x by (simp add: queue_change_def same_event_fields)
    then have "active_ok base'" using ao that(5,6) active_cong [of base' base] fl by simp
    moreover have "counts_ok base'" using cb counts_cong [OF that(7,3)] by simp
    ultimately show ?thesis
      using ok that(1,4) fl qc by (simp add: inserted_def queues_ok_def)
  qed
  show ?thesis
  proof (cases "is_common_timeout ?tv base")
    case True
    let ?i = "COMMON_TIMEOUT_IDX ?tv"
    let ?ctl = "common_timeout_queues base ! ?i"
    have i: "?i < length (common_timeout_queues base)" using True by (rule common_idx)
    with to have l: "holds (ctl_events ?ctl) (on_list ?i base)" "sorted (map (due (evmem base)) (ctl_events ?ctl))"
      by (simp_all add: timeouts_ok_def list_ok_def)
    have "e \<notin> set (ctl_events ?ctl)" using l(1) e(1) by (auto simp: holds_def on_list_def)
    moreover have "\<forall>x\<in>set (ctl_events ?ctl). is_same_common_timeout (due (evmem base) x) (due (evmem base) e)"
      using l(1) True by (auto simp: holds_def on_list_def intro: same_common)
    ultimately have "runs (insert_from_end (evmem ?b) e (rev (ctl_events ?ctl)))
        (\<lambda>es. distinct es \<and> set es = insert e (set (rev (ctl_events ?ctl))) \<and> sorted (map (due (evmem ?b)) (rev es)))"
      using l by (intro insert_from_end_runs) (simp_all add: holds_def)
    then obtain es where es: "insert_from_end (evmem ?b) e (rev (ctl_events ?ctl)) = Inr es"
      "distinct es" "set es = insert e (set (ctl_events ?ctl))" "sorted (map (due (evmem base)) (rev es))"
      by (auto elim!: runsE)
    let ?b' = "put_ctl ?i (?ctl\<lparr>ctl_events := rev es\<rparr>) ?b"
    have unf': "event_queue_insert mm_realloc base e EVLIST_TIMEOUT = Inr ?b'"
      using True es(1) com by (simp add: unf Let_def get_common_timeout_list_def insert_common_timeout_inorder_def)
    have ci: "ctl_info ?b' = ctl_info ?b" using i by (intro put_ctl_info) simp_all
    have w: "on_heap ?b' = on_heap base" "on_list ?i ?b' = insert e (on_list ?i base)" "\<And>j. j \<noteq> ?i \<Longrightarrow> on_list j ?b' = on_list j base"
      using waiting_insert [of ?b' e base] True ci by simp_all
    have "list_ok ?b' ?i (?ctl\<lparr>ctl_events := rev es\<rparr>)"
      using es l(1) w(2) by (simp add: list_ok_def holds_def)
    then have "timeouts_ok ?b'" by (intro timeouts_ok_list [OF to _ _ _ w(1) _ _ w(3)]) simp_all
    moreover have "queue_change ?b ?b'" using ci by (simp add: queue_change_def)
    ultimately have "inserted EVLIST_TIMEOUT e base ?b'" by (intro fin) (simp_all add: put_ctl_def)
    then show ?thesis by (simp add: unf')
  next
    case False
    with room have room: "mh_n (timeheap base) < mh_a (timeheap base)" by simp
    have heap: "heap_ok (timeheap base, evmem base)" "heap_members (timeheap base) = on_heap base" using to by (simp_all add: timeouts_ok_def)
    have hb: "heap_ok (timeheap base, evmem ?b)" using heap(1) heap_ok_cong [of "evmem ?b" "evmem base"] by simp
    have n: "mh_n (timeheap base) < 2 ^ 29" using heap_size [OF to co] .
    have "e \<notin> heap_members (timeheap base)" using heap(2) e(1) by (simp add: on_heap_def)
    from heap_push [OF re hb this n] obtain r heap' mem where
      p: "min_heap_push mm_realloc e (timeheap base, evmem ?b) = Inr (r, heap', mem)"
      "r = 0 \<longrightarrow> heap_ok (heap', mem) \<and> heap_members heap' = insert e (heap_members (timeheap base))
         \<and> only_idx (insert e (heap_members (timeheap base))) (evmem ?b) mem"
      by (auto elim!: runsE)
    from push_fits [OF room n p(1)] p(2) have
      h: "heap_ok (heap', mem)" "heap_members heap' = insert e (heap_members (timeheap base))"
      "only_idx (insert e (heap_members (timeheap base))) (evmem ?b) mem" "mh_a heap' = mh_a (timeheap base)" by simp_all
    have idx: "mem x = (evmem ?b x)\<lparr>min_heap_idx := min_heap_idx (mem x)\<rparr>" for x using h(3) unfolding only_idx_def by blast
    have flags: "ev_flags (mem x) = ev_flags (evmem ?b x)" and dm: "ev_timeout (mem x) = ev_timeout (evmem base x)" for x
      by (subst idx, simp)+
    let ?b' = "?b\<lparr>timeheap := heap', evmem := mem\<rparr>"
    have unf': "event_queue_insert mm_realloc base e EVLIST_TIMEOUT = Inr ?b'"
      using False p(1) com by (simp add: unf Let_def)
    have "same_event (evmem ?b x) (mem x)" for x by (subst idx) simp
    then have qc: "queue_change ?b ?b'" by (simp add: queue_change_def)
    have fl: "flagged f ?b' = flagged f ?b" for f using flags by (simp add: flagged_def)
    have w: "on_heap ?b' = insert e (on_heap base)" "on_list i ?b' = on_list i base" for i
      using waiting_insert [of ?b' e base] False fl dm by simp_all
    have "timeouts_ok ?b'"
      using to h heap(2) w dm by (simp add: timeouts_ok_def list_ok_def)
    then have "inserted EVLIST_TIMEOUT e base ?b'" using qc flags by (intro fin) simp_all
    then show ?thesis using False h(4) by (simp add: unf')
  qed
qed

lemma remove_TIMEOUT:
  assumes ok: "queues_ok base" and e: "e \<in> flagged EVLIST_TIMEOUT base"
  shows "runs (event_queue_remove base e EVLIST_TIMEOUT) (\<lambda>base'. removed EVLIST_TIMEOUT e base base'
     \<and> (is_common_timeout (ev_timeout (evmem base e)) base \<longrightarrow> timeheap base' = timeheap base)
     \<and> (\<not> is_common_timeout (ev_timeout (evmem base e)) base \<longrightarrow> mh_n (timeheap base') < mh_n (timeheap base)
          \<and> mh_a (timeheap base') = mh_a (timeheap base)))"
proof -
  let ?b = "drop_flag EVLIST_TIMEOUT e base" and ?tv = "ev_timeout (evmem base e)"
  have to: "timeouts_ok base" and co: "counts_ok base" and ao: "active_ok base" using ok by (simp_all add: queues_ok_def)
  have cb: "counts_ok ?b" using co e by (simp add: drop_flag_counts queue_flags_def)
  have com: "is_common_timeout tv ?b = is_common_timeout tv base" for tv by (rule is_common_cong) simp
  have unf: "event_queue_remove base e EVLIST_TIMEOUT = dequeue EVLIST_TIMEOUT e ?b"
    using e(1) by (simp add: event_queue_remove_def flagged_def)
  have fin: "removed EVLIST_TIMEOUT e base base'"
    if "timeouts_ok base'" "queue_change ?b base'" "\<And>x. ev_flags (evmem base' x) = ev_flags (evmem ?b x)"
      "eventqueue base' = eventqueue base" "activequeues base' = activequeues base"
      "event_count_active base' = event_count_active base" "event_count base' = event_count ?b" for base'
  proof -
    have fl: "flagged f base' = flagged f ?b" for f using that(3) by (rule flagged_cong)
    have qc: "queue_change base base'" using that(2) by (rule queue_change_trans [rotated]) simp
    then have "ev_pri (evmem base' x) = ev_pri (evmem base x)" for x by (simp add: queue_change_def same_event_fields)
    then have "active_ok base'" using ao that(5,6) active_cong [of base' base] fl by simp
    moreover have "counts_ok base'" using cb counts_cong [OF that(7,3)] by simp
    ultimately show ?thesis
      using ok that(1,4) fl qc by (simp add: removed_def queues_ok_def)
  qed
  show ?thesis
  proof (cases "is_common_timeout ?tv base")
    case True
    let ?i = "COMMON_TIMEOUT_IDX ?tv"
    let ?ctl = "common_timeout_queues base ! ?i"
    let ?b' = "put_ctl ?i (?ctl\<lparr>ctl_events := remove1 e (ctl_events ?ctl)\<rparr>) ?b"
    have i: "?i < length (common_timeout_queues base)" using True by (rule common_idx)
    with to have l: "holds (ctl_events ?ctl) (on_list ?i base)" "sorted (map (due (evmem base)) (ctl_events ?ctl))"
      by (simp_all add: timeouts_ok_def list_ok_def)
    have "e \<in> on_list ?i base" using e True by (simp add: on_list_def)
    note rm = holds_remove [OF l(1) this]
    have unf': "event_queue_remove base e EVLIST_TIMEOUT = Inr ?b'"
      using True com rm by (simp add: unf Let_def get_common_timeout_list_def)
    have ci: "ctl_info ?b' = ctl_info ?b" using i by (intro put_ctl_info) simp_all
    have w: "on_heap ?b' = on_heap base" "on_list ?i ?b' = on_list ?i base - {e}" "\<And>j. j \<noteq> ?i \<Longrightarrow> on_list j ?b' = on_list j base"
      using waiting_remove [of ?b' base e] True ci by (auto simp: on_heap_def on_list_def)
    have "list_ok ?b' ?i (?ctl\<lparr>ctl_events := remove1 e (ctl_events ?ctl)\<rparr>)"
      using rm l(2) w(2) by (simp add: list_ok_def sorted_map_remove1)
    then have "timeouts_ok ?b'" by (intro timeouts_ok_list [OF to _ _ _ w(1) _ _ w(3)]) simp_all
    moreover have "queue_change ?b ?b'" using ci by (simp add: queue_change_def)
    ultimately have "removed EVLIST_TIMEOUT e base ?b'" by (intro fin) (simp_all add: put_ctl_def)
    then show ?thesis using True by (simp add: unf')
  next
    case False
    have heap: "heap_ok (timeheap base, evmem base)" "heap_members (timeheap base) = on_heap base" using to by (simp_all add: timeouts_ok_def)
    have hb: "heap_ok (timeheap base, evmem ?b)" using heap(1) heap_ok_cong [of "evmem ?b" "evmem base"] by simp
    have mem: "e \<in> heap_members (timeheap base)" using heap(2) e False by (simp add: on_heap_def)
    from heap_erase [OF hb this] obtain r heap' mem where
      p: "min_heap_erase e (timeheap base, evmem ?b) = Inr (r, heap', mem)"
      "erased e (timeheap base, evmem ?b) (heap', mem)"
      by (auto elim!: runsE)
    then have h: "heap_ok (heap', mem)" "heap_members heap' = heap_members (timeheap base) - {e}"
      "only_idx (heap_members (timeheap base)) (evmem ?b) mem" "mh_n heap' = mh_n (timeheap base) - 1"
      by (simp_all add: erased_def)
    have n: "0 < mh_n (timeheap base)" using mem by (auto simp: heap_members_def intro: gr0I)
    have a: "mh_a heap' = mh_a (timeheap base)"
      using p(1) by (auto simp: min_heap_erase_def Let_def bindE_Inr_iff split: if_splits)
    have idx: "mem x = (evmem ?b x)\<lparr>min_heap_idx := min_heap_idx (mem x)\<rparr>" for x using h(3) unfolding only_idx_def by blast
    have flags: "ev_flags (mem x) = ev_flags (evmem ?b x)" and dm: "ev_timeout (mem x) = ev_timeout (evmem base x)" for x
      by (subst idx, simp)+
    let ?b' = "?b\<lparr>timeheap := heap', evmem := mem\<rparr>"
    have unf': "event_queue_remove base e EVLIST_TIMEOUT = Inr ?b'"
      using False p(1) com by (simp add: unf Let_def)
    have "same_event (evmem ?b x) (mem x)" for x by (subst idx) simp
    then have qc: "queue_change ?b ?b'" by (simp add: queue_change_def)
    have fl: "flagged f ?b' = flagged f ?b" for f using flags by (simp add: flagged_def)
    have w: "on_heap ?b' = on_heap base - {e}" "on_list i ?b' = on_list i base" for i
      using waiting_remove [of ?b' base e] False fl dm by (auto simp: on_list_def)
    have "timeouts_ok ?b'"
      using to h heap(2) w dm by (simp add: timeouts_ok_def list_ok_def)
    then have "removed EVLIST_TIMEOUT e base ?b'" using qc flags by (intro fin) simp_all
    then show ?thesis using False h(4) n a by (simp add: unf')
  qed
qed

text \<open>Changing fields of an event that the queues do not depend on.\<close>

lemma set_event_queues:
  assumes "queues_ok base" "ev_flags (f (evmem base e)) = ev_flags (evmem base e)"
    "ev_pri (f (evmem base e)) = ev_pri (evmem base e) \<or> e \<notin> flagged EVLIST_ACTIVE base"
    "min_heap_idx (f (evmem base e)) = min_heap_idx (evmem base e)
       \<and> ev_timeout (f (evmem base e)) = ev_timeout (evmem base e) \<or> e \<notin> flagged EVLIST_TIMEOUT base"
  shows "queues_ok (set_event e f base)" "flagged g (set_event e f base) = flagged g base"
proof -
  let ?b = "set_event e f base"
  have fl: "flagged g ?b = flagged g base" for g using assms(2) by (auto simp: flagged_def)
  show "flagged g ?b = flagged g base" by (rule fl)
  have "{x \<in> flagged EVLIST_ACTIVE ?b. ev_pri (evmem ?b x) = i} = {x \<in> flagged EVLIST_ACTIVE base. ev_pri (evmem base x) = i}" for i
    using assms(3) fl by auto
  moreover have "\<forall>x\<in>flagged EVLIST_ACTIVE base. ev_pri (evmem ?b x) = ev_pri (evmem base x)" using assms(3) by auto
  ultimately have "active_ok ?b" using assms(1) fl by (simp add: queues_ok_def active_ok_def)
  moreover have "counts_ok ?b" using assms(1,2) counts_cong [of ?b base] by (simp add: queues_ok_def)
  moreover have "timeouts_ok ?b"
  proof -
    have to: "timeouts_ok base" using assms(1) by (simp add: queues_ok_def)
    have keep: "min_heap_idx (evmem ?b x) = min_heap_idx (evmem base x) \<and> ev_timeout (evmem ?b x) = ev_timeout (evmem base x)"
      if "x \<in> flagged EVLIST_TIMEOUT base" for x using assms(4) that by auto
    have com: "is_common_timeout tv ?b = is_common_timeout tv base" for tv by (rule is_common_cong) simp
    have w: "on_heap ?b = on_heap base" "on_list i ?b = on_list i base" for i
      unfolding on_heap_def on_list_def fl com using keep by (auto simp del: set_event_fields)
    have n: "mh_n (timeheap base) \<le> length (mh_p (timeheap base))" using to by (auto simp: timeouts_ok_def heap_ok_def)
    have "set (take (mh_n (timeheap base)) (mh_p (timeheap base))) \<subseteq> flagged EVLIST_TIMEOUT base"
      using to by (auto simp: timeouts_ok_def heap_members_def on_heap_def)
    then have k: "mh_p (timeheap base) ! i \<in> flagged EVLIST_TIMEOUT base" if "i < mh_n (timeheap base)" for i
      using that n by (auto simp: set_conv_nth)
    have "heap_by (due (evmem ?b)) (mh_p (timeheap base)) (mh_n (timeheap base))
        = heap_by (due (evmem base)) (mh_p (timeheap base)) (mh_n (timeheap base))"
      using keep k by (intro heap_by_cong) blast
    moreover have "placed_but (evmem ?b) (mh_p (timeheap base)) (mh_n (timeheap base)) h
        = placed_but (evmem base) (mh_p (timeheap base)) (mh_n (timeheap base)) h" for h
      using keep k by (simp add: placed_but_def)
    ultimately have "heap_ok (timeheap base, evmem ?b)" using to by (simp add: timeouts_ok_def heap_ok_def)
    moreover have "list_ok ?b i c = list_ok base i c" for i c
    proof -
      have "holds (ctl_events c) (on_list i base) \<Longrightarrow>
          map (due (evmem ?b)) (ctl_events c) = map (due (evmem base)) (ctl_events c)"
        using keep by (auto simp: holds_def on_list_def)
      then show ?thesis using w(2) unfolding list_ok_def by metis
    qed
    ultimately show ?thesis using to w(1) by (simp add: timeouts_ok_def)
  qed
  ultimately show "queues_ok ?b" using assms(1) fl by (simp add: queues_ok_def)
qed

end
