(* ===== verification/Event_Ops.thy ===== *)
theory Event_Ops
  imports Event_Base
begin

text \<open>
  Assigning, adding, deleting and activating events, and deferred callbacks, \<open>event.c\<close>. The functions are
  those of a thread that does not have to wait for a callback that runs in another one. An event is known
  by its number; \<open>ev_base\<close> tells whether it belongs to the base.
\<close>

text \<open>
  The platform also has an allocator for the array of the heap, and a clock: \<open>_ftime\<close> gives seconds and
  milliseconds, and may change the state of the outside, \<open>evbase\<close>.
\<close>

record 'b loop_platform = "'b platform" +
  heap_realloc :: slot_realloc
  os_ftime :: "'b \<Rightarrow> (32 word \<times> nat) \<times> 'b"

section \<open>Time\<close>

definition evutil_gettimeofday :: "('b, 'p) loop_platform_scheme \<Rightarrow> 'b \<Rightarrow> timeval \<times> 'b" where
  "evutil_gettimeofday p b = (case os_ftime p b of ((time, millitm), b) \<Rightarrow> (Timeval time (of_nat (millitm * 1000)), b))"

definition gettime :: "('b, 'p) loop_platform_scheme \<Rightarrow> 'b event_base \<Rightarrow> timeval \<times> 'b event_base" where
  "gettime p base =
     (if tv_sec (tv_cache base) \<noteq> 0 then (tv_cache base, base)
      else case evutil_gettimeofday p (evbase base) of (tv, b) \<Rightarrow> (tv, base\<lparr>evbase := b\<rparr>))"

definition clear_time_cache :: "'b event_base \<Rightarrow> 'b event_base" where
  "clear_time_cache base = base\<lparr>tv_cache := Timeval 0 (tv_usec (tv_cache base))\<rparr>"

definition update_time_cache :: "('b, 'p) loop_platform_scheme \<Rightarrow> bool \<Rightarrow> 'b event_base \<Rightarrow> 'b event_base" where
  "update_time_cache p no_cache_time base =
     (let base = clear_time_cache base in
      if no_cache_time then base else case gettime p base of (tv, base) \<Rightarrow> base\<lparr>tv_cache := tv\<rparr>)"

section \<open>Setting up events\<close>

definition event_assign ::
    "'b event_base \<Rightarrow> nat \<Rightarrow> int \<Rightarrow> ev_what set \<Rightarrow> event_callback \<Rightarrow> nat \<Rightarrow> int \<times> 'b event_base" where
  "event_assign base e fd events callback arg =
     (let base = set_event e (\<lambda>ev. ev\<lparr>ev_base := True, ev_callback := callback, ev_arg := arg, ev_fd := fd,
                   ev_events := events, ev_res := {}, ev_flags := {EVLIST_INIT}, ev_ncalls := 0, ev_pncalls := False\<rparr>) base
      in if EV_SIGNAL \<in> events \<and> events \<inter> {EV_READ, EV_WRITE} \<noteq> {} then (-1, base)
         else let base = (if EV_SIGNAL \<in> events then set_event e (\<lambda>ev. ev\<lparr>ev_closure := EV_CLOSURE_SIGNAL\<rparr>) base
                          else if EV_PERSIST \<in> events
                          then set_event e (\<lambda>ev. ev\<lparr>ev_io_timeout := evutil_timerclear, ev_closure := EV_CLOSURE_PERSIST\<rparr>) base
                          else set_event e (\<lambda>ev. ev\<lparr>ev_closure := EV_CLOSURE_NONE\<rparr>) base);
                  base = set_event e min_heap_elem_init base;
                  base = set_event e (\<lambda>ev. ev\<lparr>ev_pri := length (activequeues base) div 2\<rparr>) base
              in (0, base))"

definition event_base_set :: "'b event_base \<Rightarrow> nat \<Rightarrow> int \<times> 'b event_base" where
  "event_base_set base e =
     (if ev_flags (evmem base e) \<noteq> {EVLIST_INIT} then (-1, base)
      else (0, set_event e (\<lambda>ev. ev\<lparr>ev_base := True, ev_pri := length (activequeues base) div 2\<rparr>) base))"

definition event_priority_set :: "'b event_base \<Rightarrow> nat \<Rightarrow> int \<Rightarrow> int \<times> 'b event_base" where
  "event_priority_set base e pri =
     (if EVLIST_ACTIVE \<in> ev_flags (evmem base e) then (-1, base)
      else if pri < 0 \<or> pri \<ge> int (length (activequeues base)) then (-1, base)
      else (0, set_event e (\<lambda>ev. ev\<lparr>ev_pri := nat pri\<rparr>) base))"

definition event_initialized :: "event \<Rightarrow> bool" where
  "event_initialized ev \<longleftrightarrow> EVLIST_INIT \<in> ev_flags ev"

definition event_debug_unassign :: "'b event_base \<Rightarrow> nat \<Rightarrow> 'b event_base" where
  "event_debug_unassign base e = set_event e (\<lambda>ev. ev\<lparr>ev_flags := ev_flags ev - {EVLIST_INIT}\<rparr>) base"

text \<open>What of \<open>event\<close> is pending, and the time of the timeout if one is.\<close>

definition event_pending :: "'b event_base \<Rightarrow> nat \<Rightarrow> ev_what set \<Rightarrow> ev_what set \<times> timeval option" where
  "event_pending base e event =
     (let ev = evmem base e in
      if \<not> ev_base ev then ({}, None)
      else let flags = (if EVLIST_INSERTED \<in> ev_flags ev then ev_events ev \<inter> {EV_READ, EV_WRITE, EV_SIGNAL} else {})
                     \<union> (if EVLIST_ACTIVE \<in> ev_flags ev then ev_res ev else {})
                     \<union> (if EVLIST_TIMEOUT \<in> ev_flags ev then {EV_TIMEOUT} else {});
               event = event \<inter> {EV_TIMEOUT, EV_READ, EV_WRITE, EV_SIGNAL}
           in (flags \<inter> event,
               if EV_TIMEOUT \<in> flags \<inter> event
               then Some (Timeval (tv_sec (ev_timeout ev)) (tv_usec (ev_timeout ev) AND MICROSECONDS_MASK))
               else None))"

section \<open>Adding\<close>

text \<open>The reservation of a place in the heap: whether it succeeds.\<close>

definition add_reserve :: "slot_realloc \<Rightarrow> 'b event_base \<Rightarrow> nat \<Rightarrow> timeval option \<Rightarrow> bool \<times> 'b event_base" where
  "add_reserve mm_realloc base e tv =
     (if tv \<noteq> None \<and> EVLIST_TIMEOUT \<notin> ev_flags (evmem base e)
      then case min_heap_reserve mm_realloc (timeheap base) (addz 1 (min_heap_size (timeheap base))) of
             (r, heap) \<Rightarrow> (r \<noteq> -1, base\<lparr>timeheap := heap\<rparr>)
      else (True, base))"

text \<open>Waiting for a socket or a signal: the result and whether the loop is to be woken.\<close>

definition add_watch ::
    "('b, 'p) loop_platform_scheme \<Rightarrow> 'b event_base \<Rightarrow> nat \<Rightarrow> (int \<times> bool \<times> 'b event_base) exec" where
  "add_watch p base e =
     (let ev = evmem base e in
      if ev_events ev \<inter> {EV_READ, EV_WRITE, EV_SIGNAL} \<noteq> {} \<and> ev_flags ev \<inter> {EVLIST_INSERTED, EVLIST_ACTIVE} = {}
      then bindE (if watches_io ev then evmap_io_add p base (ev_fd ev) e
                  else if EV_SIGNAL \<in> ev_events ev then evmap_signal_add p base (ev_fd ev) e
                  else Inr (0, base)) (\<lambda>(res, base).
           bindE (if res \<noteq> -1 then event_queue_insert (heap_realloc p) base e EVLIST_INSERTED else Inr base) (\<lambda>base.
           Inr (if res = 1 then 0 else res, res = 1, base)))
      else Inr (0, False, base))"

text \<open>
  The position of an event with a timeout is the union of the heap index with the link to the next event
  in a list, which is null for the last one.
\<close>

definition elt_is_top :: "'b event_base \<Rightarrow> nat \<Rightarrow> bool" where
  "elt_is_top base e =
     (let ev = evmem base e in
      if EVLIST_TIMEOUT \<in> ev_flags ev \<and> is_common_timeout (ev_timeout ev) base
      then e = last (ctl_events (get_common_timeout_list base (ev_timeout ev)))
      else min_heap_elt_is_top ev)"

text \<open>Taking an event that waits for a timeout, or is active because of one, out of these queues.\<close>

definition add_unschedule :: "'b event_base \<Rightarrow> nat \<Rightarrow> (bool \<times> 'b event_base) exec" where
  "add_unschedule base e =
     bindE (if EVLIST_TIMEOUT \<in> ev_flags (evmem base e)
            then let notify = elt_is_top base e in
                 bindE (event_queue_remove base e EVLIST_TIMEOUT) (\<lambda>base. Inr (notify, base))
            else Inr (False, base)) (\<lambda>(notify, base).
     let ev = evmem base e in
     if EVLIST_ACTIVE \<in> ev_flags ev \<and> EV_TIMEOUT \<in> ev_res ev
     then let base = (if EV_SIGNAL \<in> ev_events ev \<and> ev_ncalls ev \<noteq> 0 \<and> ev_pncalls ev
                      then base\<lparr>closure_ncalls := 0\<rparr> else base)
          in bindE (event_queue_remove base e EVLIST_ACTIVE) (\<lambda>base. Inr (notify, base))
     else Inr (notify, base))"

definition or_usec :: "timeval \<Rightarrow> 32 word \<Rightarrow> timeval" where
  "or_usec tv w = Timeval (tv_sec tv) (tv_usec tv OR w)"

definition and_usec :: "timeval \<Rightarrow> 32 word \<Rightarrow> timeval" where
  "and_usec tv w = Timeval (tv_sec tv) (tv_usec tv AND w)"

definition add_deadline :: "timeval \<Rightarrow> timeval \<Rightarrow> bool \<Rightarrow> bool \<Rightarrow> timeval" where
  "add_deadline now tv tv_is_absolute common_timeout =
     (if tv_is_absolute then tv
      else if common_timeout
      then or_usec (evutil_timeradd now (and_usec tv MICROSECONDS_MASK)) (tv_usec tv AND NOT MICROSECONDS_MASK)
      else evutil_timeradd now tv)"

text \<open>The new timeout; \<open>schedule\<close> is \<open>common_timeout_schedule\<close>.\<close>

definition add_timeout ::
    "('b, 'p) loop_platform_scheme \<Rightarrow> ('b event_base \<Rightarrow> common_timeout_list \<Rightarrow> nat \<Rightarrow> 'b event_base exec)
     \<Rightarrow> 'b event_base \<Rightarrow> nat \<Rightarrow> timeval \<Rightarrow> bool \<Rightarrow> (bool \<times> 'b event_base) exec" where
  "add_timeout p schedule base e tv tv_is_absolute =
     (let base = (if ev_closure (evmem base e) = EV_CLOSURE_PERSIST \<and> \<not> tv_is_absolute
                  then set_event e (\<lambda>ev. ev\<lparr>ev_io_timeout := tv\<rparr>) base else base)
      in bindE (add_unschedule base e) (\<lambda>(notify, base).
         case gettime p base of
           (now, base) \<Rightarrow>
             let common_timeout = is_common_timeout tv base;
                 base = set_event e (\<lambda>ev. ev\<lparr>ev_timeout := add_deadline now tv tv_is_absolute common_timeout\<rparr>) base
             in bindE (event_queue_insert (heap_realloc p) base e EVLIST_TIMEOUT) (\<lambda>base.
                if common_timeout
                then let ctl = get_common_timeout_list base (ev_timeout (evmem base e)) in
                     bindE (if ctl_events ctl \<noteq> [] \<and> e = hd (ctl_events ctl) then schedule base ctl e else Inr base)
                       (\<lambda>base. Inr (notify, base))
                else Inr (notify \<or> elt_is_top base e, base))))"

definition event_add_body ::
    "('b, 'p) loop_platform_scheme \<Rightarrow> ('b event_base \<Rightarrow> common_timeout_list \<Rightarrow> nat \<Rightarrow> 'b event_base exec)
     \<Rightarrow> 'b event_base \<Rightarrow> nat \<Rightarrow> timeval option \<Rightarrow> bool \<Rightarrow> (int \<times> 'b event_base) exec" where
  "event_add_body p schedule base e tv tv_is_absolute =
     (case add_reserve (heap_realloc p) base e tv of
        (reserved, base) \<Rightarrow>
          if \<not> reserved then Inr (-1, base)
          else bindE (add_watch p base e) (\<lambda>(res, notify, base).
               bindE (case tv of
                        Some tv \<Rightarrow> if res \<noteq> -1
                                   then bindE (add_timeout p schedule base e tv tv_is_absolute)
                                          (\<lambda>(n, base). Inr (notify \<or> n, base))
                                   else Inr (notify, base)
                      | None \<Rightarrow> Inr (notify, base)) (\<lambda>(notify, base).
               Inr (res, if res \<noteq> -1 \<and> notify \<and> need_notify base then evthread_notify_base base else base))))"

text \<open>
  \<open>common_timeout_schedule\<close> adds the event that waits for the first event of a list, with a timeout that
  is not common: adding this event schedules nothing.
\<close>

definition common_timeout_schedule ::
    "('b, 'p) loop_platform_scheme \<Rightarrow> 'b event_base \<Rightarrow> common_timeout_list \<Rightarrow> nat \<Rightarrow> 'b event_base exec" where
  "common_timeout_schedule p base ctl head =
     bindE (event_add_body p (\<lambda>_ _ _. Inl Diverges) base (ctl_timeout_event ctl)
              (Some (and_usec (ev_timeout (evmem base head)) MICROSECONDS_MASK)) True)
       (\<lambda>(_, base). Inr base)"

definition event_add_internal ::
    "('b, 'p) loop_platform_scheme \<Rightarrow> 'b event_base \<Rightarrow> nat \<Rightarrow> timeval option \<Rightarrow> bool \<Rightarrow> (int \<times> 'b event_base) exec" where
  "event_add_internal p = event_add_body p (common_timeout_schedule p)"

definition event_add ::
    "('b, 'p) loop_platform_scheme \<Rightarrow> 'b event_base \<Rightarrow> nat \<Rightarrow> timeval option \<Rightarrow> (int \<times> 'b event_base) exec" where
  "event_add p base e tv =
     (if \<not> ev_base (evmem base e) then Inr (-1, base) else event_add_internal p base e tv False)"

section \<open>Deleting\<close>

definition del_watch ::
    "('b, 'p) loop_platform_scheme \<Rightarrow> 'b event_base \<Rightarrow> nat \<Rightarrow> (int \<times> bool \<times> 'b event_base) exec" where
  "del_watch p base e =
     (if EVLIST_INSERTED \<in> ev_flags (evmem base e)
      then bindE (event_queue_remove base e EVLIST_INSERTED) (\<lambda>base.
           bindE (if watches_io (evmem base e) then evmap_io_del p base (ev_fd (evmem base e)) e
                  else evmap_signal_del p base (ev_fd (evmem base e)) e) (\<lambda>(res, base).
           Inr (if res = 1 then 0 else res, res = 1, base)))
      else Inr (0, False, base))"

definition event_del_internal ::
    "('b, 'p) loop_platform_scheme \<Rightarrow> 'b event_base \<Rightarrow> nat \<Rightarrow> (int \<times> 'b event_base) exec" where
  "event_del_internal p base e =
     (let ev = evmem base e in
      if \<not> ev_base ev then Inr (-1, base)
      else let base = (if EV_SIGNAL \<in> ev_events ev \<and> ev_ncalls ev \<noteq> 0 \<and> ev_pncalls ev
                       then base\<lparr>closure_ncalls := 0\<rparr> else base) in
           bindE (if EVLIST_TIMEOUT \<in> ev_flags ev then event_queue_remove base e EVLIST_TIMEOUT else Inr base) (\<lambda>base.
           bindE (if EVLIST_ACTIVE \<in> ev_flags (evmem base e) then event_queue_remove base e EVLIST_ACTIVE else Inr base) (\<lambda>base.
           bindE (del_watch p base e) (\<lambda>(res, notify, base).
           Inr (res, if res \<noteq> -1 \<and> notify \<and> need_notify base then evthread_notify_base base else base)))))"

definition event_del :: "('b, 'p) loop_platform_scheme \<Rightarrow> 'b event_base \<Rightarrow> nat \<Rightarrow> (int \<times> 'b event_base) exec" where
  "event_del p base e = (if \<not> ev_base (evmem base e) then Inr (-1, base) else event_del_internal p base e)"

section \<open>Activating\<close>

definition event_active_nolock :: "'b event_base \<Rightarrow> nat \<Rightarrow> ev_what set \<Rightarrow> nat \<Rightarrow> 'b event_base exec" where
  "event_active_nolock base e res ncalls =
     (if EVLIST_ACTIVE \<in> ev_flags (evmem base e)
      then Inr (set_event e (\<lambda>ev. ev\<lparr>ev_res := ev_res ev \<union> res\<rparr>) base)
      else let base = set_event e (\<lambda>ev. ev\<lparr>ev_res := res\<rparr>) base;
               base = (if int (ev_pri (evmem base e)) < event_running_priority base
                       then base\<lparr>event_continue := True\<rparr> else base);
               base = (if EV_SIGNAL \<in> ev_events (evmem base e)
                       then set_event e (\<lambda>ev. ev\<lparr>ev_ncalls := ncalls, ev_pncalls := False\<rparr>) base else base)
           in bindE (event_queue_insert (\<lambda>_ _. None) base e EVLIST_ACTIVE) (\<lambda>base.
              Inr (if need_notify base then evthread_notify_base base else base)))"

definition event_active :: "'b event_base \<Rightarrow> nat \<Rightarrow> ev_what set \<Rightarrow> nat \<Rightarrow> 'b event_base exec" where
  "event_active base e res ncalls =
     (if \<not> ev_base (evmem base e) then Inr base else event_active_nolock base e res ncalls)"

definition evmap_io_active :: "'b event_base \<Rightarrow> int \<Rightarrow> ev_what set \<Rightarrow> 'b event_base exec" where
  "evmap_io_active base fd events =
     (case evio base fd of
        None \<Rightarrow> Inl Assert_Failed
      | Some ctx \<Rightarrow>
          foldE (\<lambda>e base. if ev_events (evmem base e) \<inter> events \<noteq> {}
                          then event_active_nolock base e (ev_events (evmem base e) \<inter> events) 1 else Inr base)
            (io_events ctx) base)"

definition evmap_signal_active :: "'b event_base \<Rightarrow> int \<Rightarrow> nat \<Rightarrow> 'b event_base exec" where
  "evmap_signal_active base sig ncalls =
     (if sig \<ge> int (length (sigmap base)) then Inl Assert_Failed
      else if sig < 0 then Inl Out_Of_Bounds
      else case sigmap base ! nat sig of
             None \<Rightarrow> Inl Null_Deref
           | Some q \<Rightarrow> foldE (\<lambda>e base. event_active_nolock base e {EV_SIGNAL} ncalls) q base)"

section \<open>Deferred callbacks\<close>

definition event_deferred_cb_init :: "'b event_base \<Rightarrow> nat \<Rightarrow> 'b event_base" where
  "event_deferred_cb_init base cb = base\<lparr>cb_queued := (cb_queued base)(cb := False)\<rparr>"

definition event_deferred_cb_cancel :: "'b event_base \<Rightarrow> nat \<Rightarrow> 'b event_base exec" where
  "event_deferred_cb_cancel base cb =
     (if cb_queued base cb
      then bindE (TAILQ_REMOVE cb (defer_list base)) (\<lambda>q.
             Inr (base\<lparr>defer_list := q, defer_active_count := defer_active_count base - 1,
                       cb_queued := (cb_queued base)(cb := False)\<rparr>))
      else Inr base)"

text \<open>The function that the queue of a base notifies is \<open>notify_base_cbq_callback\<close>.\<close>

definition notify_base_cbq_callback :: "'b event_base \<Rightarrow> 'b event_base" where
  "notify_base_cbq_callback base = (if need_notify base then evthread_notify_base base else base)"

definition event_deferred_cb_schedule :: "'b event_base \<Rightarrow> nat \<Rightarrow> 'b event_base" where
  "event_deferred_cb_schedule base cb =
     (if \<not> cb_queued base cb
      then notify_base_cbq_callback (base\<lparr>cb_queued := (cb_queued base)(cb := True),
             defer_list := defer_list base @ [cb], defer_active_count := defer_active_count base + 1\<rparr>)
      else base)"

end
