(* ===== verification/Event_Invariant.thy ===== *)
theory Event_Invariant
  imports Event_Ops
begin

text \<open>
  The invariant of an event base: flags, queues and counters agree (\<open>queues_ok\<close>), the maps of sockets and
  signals hold the inserted events (\<open>evmaps_ok\<close>), every event in a queue has a valid priority, the events of
  the common timeouts are timers of the base itself, and the list of deferred callbacks holds those that are
  marked. Adding, deleting and activating events do not crash and keep it.
\<close>

section \<open>The invariant\<close>

definition watches :: "event \<Rightarrow> bool" where
  "watches ev \<longleftrightarrow> ev_events ev \<inter> {EV_READ, EV_WRITE, EV_SIGNAL} \<noteq> {}"

lemma watches_iff: "watches ev \<longleftrightarrow> watches_io ev \<or> EV_SIGNAL \<in> ev_events ev"
  by (auto simp: watches_def watches_io_def)

definition pri_ok :: "'b event_base \<Rightarrow> bool" where
  "pri_ok base \<longleftrightarrow> (\<forall>f\<in>queue_flags. \<forall>e\<in>flagged f base. ev_pri (evmem base e) < length (activequeues base))"

definition watch_ok :: "'b event_base \<Rightarrow> bool" where
  "watch_ok base \<longleftrightarrow> (\<forall>e\<in>flagged EVLIST_INSERTED base. watches (evmem base e))"

text \<open>The events that stand for a list of a common timeout, which wait in the heap.\<close>

definition timer_events :: "'b event_base \<Rightarrow> nat set" where
  "timer_events base = ctl_timeout_event ` set (common_timeout_queues base)"

definition timer_ok :: "'b event_base \<Rightarrow> nat \<Rightarrow> bool" where
  "timer_ok base e \<longleftrightarrow> e < MAX_EVENTS \<and> ev_pri (evmem base e) < length (activequeues base)
     \<and> ev_events (evmem base e) = {} \<and> ev_closure (evmem base e) = EV_CLOSURE_NONE
     \<and> e \<notin> (\<Union>i. on_list i base)"

definition defer_ok :: "'b event_base \<Rightarrow> bool" where
  "defer_ok base \<longleftrightarrow> holds (defer_list base) {cb. cb_queued base cb}
     \<and> defer_active_count base = int (length (defer_list base))"

text \<open>The microseconds of a time are in range, apart from the index of a common timeout.\<close>

definition tv_fits :: "'b event_base \<Rightarrow> timeval \<Rightarrow> bool" where
  "tv_fits base tv \<longleftrightarrow> tv_ok (if is_common_timeout tv base then and_usec tv MICROSECONDS_MASK else tv)"

definition times_ok :: "'b event_base \<Rightarrow> bool" where
  "times_ok base \<longleftrightarrow> (\<forall>e\<in>flagged EVLIST_TIMEOUT base. tv_fits base (ev_timeout (evmem base e)))"

definition base_inv :: "nat set \<Rightarrow> 'b event_base \<Rightarrow> bool" where
  "base_inv ins base \<longleftrightarrow> queues_ok base \<and> evmaps_ok ins base \<and> watch_ok base \<and> pri_ok base
     \<and> (\<forall>e\<in>timer_events base. timer_ok base e) \<and> defer_ok base \<and> times_ok base \<and> time_ok (tv_cache base) \<and> time_ok (event_tv base)"

definition base_ok :: "'b event_base \<Rightarrow> bool" where
  "base_ok base \<longleftrightarrow> base_inv (flagged EVLIST_INSERTED base) base"

section \<open>What the operations leave alone\<close>

text \<open>The fields of an event that only its owner sets, and the fields of the base that only the loop sets.\<close>

definition fixed_fields :: "event \<Rightarrow> int \<times> ev_what set \<times> nat \<times> ev_closure_kind \<times> event_callback \<times> nat \<times> bool" where
  "fixed_fields ev = (ev_fd ev, ev_events ev, ev_pri ev, ev_closure ev, ev_callback ev, ev_arg ev, ev_base ev)"

definition loop_fields :: "'b event_base \<Rightarrow> (nat list \<times> int \<times> (nat \<Rightarrow> bool)) \<times> timeval \<times> timeval \<times> int \<times> (bool \<times> bool)
    \<times> int \<times> bool \<times> nat \<times> nat option \<times> bool \<times> bool" where
  "loop_fields base = ((defer_list base, defer_active_count base, cb_queued base), tv_cache base, event_tv base,
     virtual_event_count base, (event_gotterm base, event_break base), event_running_priority base, running_loop base,
     n_common_timeouts_allocated base, current_event base, has_notify_fn base, need_notify base)"

definition frame :: "'b event_base \<Rightarrow> 'b event_base \<Rightarrow> bool" where
  "frame base base' \<longleftrightarrow> loop_fields base' = loop_fields base \<and> ctl_info base' = ctl_info base
     \<and> length (activequeues base') = length (activequeues base)
     \<and> (\<forall>x. fixed_fields (evmem base' x) = fixed_fields (evmem base x))"

lemma frame_refl [simp]: "frame base base"
  by (simp add: frame_def)

lemma frame_trans: "frame a b \<Longrightarrow> frame b c \<Longrightarrow> frame a c"
  by (simp add: frame_def)

lemma frame_events:
  assumes "frame base base'"
  shows "ev_fd (evmem base' x) = ev_fd (evmem base x)" "ev_events (evmem base' x) = ev_events (evmem base x)"
    "ev_pri (evmem base' x) = ev_pri (evmem base x)" "ev_closure (evmem base' x) = ev_closure (evmem base x)"
    "ev_callback (evmem base' x) = ev_callback (evmem base x)" "ev_arg (evmem base' x) = ev_arg (evmem base x)"
    "ev_base (evmem base' x) = ev_base (evmem base x)"
  using assms unfolding frame_def fixed_fields_def by auto

lemma frame_fields:
  assumes "frame base base'"
  shows "length (activequeues base') = length (activequeues base)" "ctl_info base' = ctl_info base"
    "tv_cache base' = tv_cache base" "event_tv base' = event_tv base" "event_break base' = event_break base"
    "event_gotterm base' = event_gotterm base" "running_loop base' = running_loop base" "need_notify base' = need_notify base"
    "event_running_priority base' = event_running_priority base" "current_event base' = current_event base"
    "virtual_event_count base' = virtual_event_count base" "defer_list base' = defer_list base"
    "defer_active_count base' = defer_active_count base" "cb_queued base' = cb_queued base"
  using assms unfolding frame_def loop_fields_def by auto

lemma frame_common: "frame base base' \<Longrightarrow> is_common_timeout tv base' = is_common_timeout tv base"
  by (rule is_common_cong) (rule frame_fields)

lemma timer_events_info: "timer_events base = snd ` set (ctl_info base)"
  unfolding timer_events_def ctl_info_def by force

lemma frame_timers: "frame base base' \<Longrightarrow> timer_events base' = timer_events base"
  unfolding timer_events_info by (drule frame_fields(2)) simp

lemma frame_defer:
  assumes "frame base base'"
  shows "defer_ok base' = defer_ok base"
  unfolding defer_ok_def frame_fields(12-14) [OF assms] ..

lemma queue_change_frame:
  assumes "queue_change base base'"
  shows "frame base base'"
proof -
  have rf: "rest base' = rest base" and se: "\<And>x. same_event (evmem base x) (evmem base' x)"
    using assms by (auto simp: queue_change_def)
  show ?thesis
    using assms unfolding queue_change_def frame_def fixed_fields_def loop_fields_def rest_fields [OF rf]
      same_event_fields [OF se] by simp
qed

lemma frame_fits: "frame base base' \<Longrightarrow> tv_fits base' tv = tv_fits base tv"
  by (simp add: tv_fits_def frame_common)

lemma timer_ok_frame:
  assumes "timer_ok base x" "frame base base'" "\<And>i. x \<in> on_list i base' \<Longrightarrow> x \<in> on_list i base"
  shows "timer_ok base' x"
  using assms(1,3) unfolding timer_ok_def frame_events(2-4) [OF assms(2)] frame_fields(1) [OF assms(2)] by blast

section \<open>Steps that keep the invariant\<close>

lemma removed_inv:
  assumes inv: "base_inv ins base" and rm: "removed q e base base'" and q: "q \<in> queue_flags"
  shows "base_inv ins base'" "frame base base'" "\<And>f. flagged f base' = (if f = q then flagged f base - {e} else flagged f base)"
proof -
  have qc: "queue_change base base'" and ok: "queues_ok base'"
    and fl: "\<And>f. flagged f base' = (if f = q then flagged f base - {e} else flagged f base)"
    using rm by (simp_all add: removed_def)
  show fr: "frame base base'" using qc by (rule queue_change_frame)
  show "\<And>f. flagged f base' = (if f = q then flagged f base - {e} else flagged f base)" by (rule fl)
  have tm: "ev_timeout (evmem base' x) = ev_timeout (evmem base x)" for x
    using qc by (simp add: queue_change_def same_event_fields)
  have rf: "rest base' = rest base" using qc by (simp add: queue_change_def)
  have "evmaps_ok ins base'"
    using inv evmaps_cong [of base' base ins] rest_fields [OF rf] frame_events [OF fr] by (simp add: base_inv_def)
  moreover have "watch_ok base'"
    using inv fl frame_events [OF fr] by (auto simp: base_inv_def watch_ok_def watches_def)
  moreover have "pri_ok base'"
    using inv fl frame_events [OF fr] frame_fields [OF fr] by (auto simp: base_inv_def pri_ok_def)
  moreover have "times_ok base'"
    using inv fl tm frame_fits [OF fr] by (simp add: base_inv_def times_ok_def)
  moreover have "on_list i base' \<subseteq> on_list i base" for i
    using fl tm frame_common [OF fr] by (auto simp: on_list_def split: if_splits)
  then have "timer_ok base x \<Longrightarrow> timer_ok base' x" for x
    using timer_ok_frame [OF _ fr] by blast
  ultimately show "base_inv ins base'"
    using inv ok frame_timers [OF fr] frame_defer [OF fr] frame_fields [OF fr] by (simp add: base_inv_def)
qed

lemma inserted_inv:
  assumes inv: "base_inv ins base" and ins: "inserted q e base base'" and q: "q \<in> queue_flags"
    and pri: "ev_pri (evmem base e) < length (activequeues base)" and w: "q = EVLIST_INSERTED \<Longrightarrow> watches (evmem base e)"
    and t: "q = EVLIST_TIMEOUT \<Longrightarrow> e \<in> timer_events base \<Longrightarrow> \<not> is_common_timeout (ev_timeout (evmem base e)) base"
    and tf: "q = EVLIST_TIMEOUT \<Longrightarrow> tv_fits base (ev_timeout (evmem base e))"
  shows "base_inv ins base'" "frame base base'" "\<And>f. flagged f base' = (if f = q then insert e (flagged f base) else flagged f base)"
proof -
  have qc: "queue_change base base'" and ok: "queues_ok base'"
    and fl: "\<And>f. flagged f base' = (if f = q then insert e (flagged f base) else flagged f base)"
    using ins by (simp_all add: inserted_def)
  show fr: "frame base base'" using qc by (rule queue_change_frame)
  show "\<And>f. flagged f base' = (if f = q then insert e (flagged f base) else flagged f base)" by (rule fl)
  have tm: "ev_timeout (evmem base' x) = ev_timeout (evmem base x)" for x
    using qc by (simp add: queue_change_def same_event_fields)
  have rf: "rest base' = rest base" using qc by (simp add: queue_change_def)
  have "evmaps_ok ins base'"
    using inv evmaps_cong [of base' base ins] rest_fields [OF rf] frame_events [OF fr] by (simp add: base_inv_def)
  moreover have "watch_ok base'"
    using inv fl frame_events [OF fr] w by (auto simp: base_inv_def watch_ok_def watches_def)
  moreover have "pri_ok base'"
    using inv fl frame_events [OF fr] frame_fields [OF fr] pri by (auto simp: base_inv_def pri_ok_def)
  moreover have "times_ok base'"
    using inv fl tm frame_fits [OF fr] tf by (simp add: base_inv_def times_ok_def)
  moreover have "timer_ok base' x" if "timer_ok base x" "x \<in> timer_events base" for x
  proof -
    have "x \<in> on_list i base' \<Longrightarrow> x \<in> on_list i base" for i
      using fl tm frame_common [OF fr] t that(2) by (auto simp: on_list_def split: if_splits)
    with that(1) fr show ?thesis by (rule timer_ok_frame)
  qed
  ultimately show "base_inv ins base'"
    using inv ok frame_timers [OF fr] frame_defer [OF fr] frame_fields [OF fr] by (simp add: base_inv_def)
qed

text \<open>Fields of the base the invariant does not look at.\<close>

lemmas inv_defs = base_inv_def queues_ok_def active_ok_def timeouts_ok_def list_ok_def on_heap_def on_list_def
  counts_ok_def counted_def flagged_def is_common_timeout_def evmaps_ok_def watch_ok_def pri_ok_def timer_events_def
  timer_ok_def defer_ok_def times_ok_def tv_fits_def

lemma inv_update [simp]:
  "base_inv ins (base\<lparr>closure_ncalls := n\<rparr>) = base_inv ins base"
  "base_inv ins (base\<lparr>event_continue := c\<rparr>) = base_inv ins base"
  "base_inv ins (base\<lparr>evbase := b\<rparr>) = base_inv ins base"
  "base_inv ins (base\<lparr>is_notify_pending := c, notifications := n\<rparr>) = base_inv ins base"
  by (simp_all add: inv_defs)

lemma flagged_update [simp]:
  "flagged f (base\<lparr>closure_ncalls := n\<rparr>) = flagged f base" "flagged f (base\<lparr>event_continue := c\<rparr>) = flagged f base"
  "flagged f (base\<lparr>evbase := b\<rparr>) = flagged f base"
  "flagged f (base\<lparr>is_notify_pending := c, notifications := n\<rparr>) = flagged f base"
  by (simp_all add: flagged_def)

lemma frame_update [simp]:
  "frame base (base\<lparr>closure_ncalls := n\<rparr>)" "frame base (base\<lparr>event_continue := c\<rparr>)" "frame base (base\<lparr>evbase := b\<rparr>)"
  "frame base (base\<lparr>is_notify_pending := c, notifications := n\<rparr>)"
  by (simp_all add: frame_def loop_fields_def ctl_info_def)

lemma notify_inv [simp]:
  "base_inv ins (evthread_notify_base base) = base_inv ins base" "flagged f (evthread_notify_base base) = flagged f base"
  "frame base (evthread_notify_base base)" "evmem (evthread_notify_base base) = evmem base"
  by (simp_all add: evthread_notify_base_def)

lemma map_change_inv:
  assumes "base_inv ins base" "map_change base base'" "evmaps_ok ins' base'"
  shows "base_inv ins' base'" "frame base base'" "\<And>f. flagged f base' = flagged f base"
proof -
  obtain b io sigs where b': "base' = base\<lparr>evbase := b, evio := io, sigmap := sigs\<rparr>"
    using assms(2) unfolding map_change_def by blast
  show "frame base base'" by (simp add: b' frame_def loop_fields_def ctl_info_def)
  show "\<And>f. flagged f base' = flagged f base" by (simp add: b' flagged_def)
  have "queues_ok base' = queues_ok base" "watch_ok base' = watch_ok base" "pri_ok base' = pri_ok base"
    "timer_events base' = timer_events base" "timer_ok base' x = timer_ok base x" "defer_ok base' = defer_ok base"
    "times_ok base' = times_ok base" for x
    by (simp_all add: b' inv_defs)
  with assms(1,3) show "base_inv ins' base'" by (simp add: base_inv_def b')
qed

lemma set_event_inv:
  assumes "base_inv ins base" "fixed_fields (f (evmem base e)) = fixed_fields (evmem base e)"
    "ev_flags (f (evmem base e)) = ev_flags (evmem base e)"
    "min_heap_idx (f (evmem base e)) = min_heap_idx (evmem base e)
       \<and> ev_timeout (f (evmem base e)) = ev_timeout (evmem base e) \<or> e \<notin> flagged EVLIST_TIMEOUT base"
  shows "base_inv ins (set_event e f base)" "frame base (set_event e f base)"
    "\<And>g. flagged g (set_event e f base) = flagged g base"
proof -
  let ?b = "set_event e f base"
  have ff: "fixed_fields (evmem ?b x) = fixed_fields (evmem base x)" for x using assms(2) by simp
  show fr: "frame base ?b"
    using assms(2) by (simp add: frame_def) (simp add: set_event_def loop_fields_def)
  have "ev_pri (f (evmem base e)) = ev_pri (evmem base e) \<or> e \<notin> flagged EVLIST_ACTIVE base"
    using assms(2) by (simp add: fixed_fields_def)
  note sq = set_event_queues [of base f e, OF _ assms(3) this assms(4)]
  have q: "queues_ok base" using assms(1) by (simp add: base_inv_def)
  show fl: "\<And>g. flagged g ?b = flagged g base" using sq(2) [OF q] .
  have "evmaps_ok ins ?b"
    using assms(1) evmaps_cong [of ?b base ins] frame_events [OF fr]
    by (simp add: base_inv_def) (simp add: set_event_def)
  moreover have "watch_ok ?b" "pri_ok ?b"
    using assms(1) unfolding base_inv_def watch_ok_def pri_ok_def watches_def frame_events(2,3) [OF fr] fl
      frame_fields(1) [OF fr] by blast+
  moreover have "times_ok ?b"
    using assms(1,4) unfolding base_inv_def times_ok_def fl frame_fits [OF fr] by auto
  moreover have "timer_ok ?b x" if "timer_ok base x" for x
  proof (rule timer_ok_frame [OF that fr])
    show "x \<in> on_list i ?b \<Longrightarrow> x \<in> on_list i base" for i
      using assms(4) unfolding on_list_def fl frame_common [OF fr] by (auto split: if_splits)
  qed
  ultimately show "base_inv ins ?b"
    using assms(1) sq(1) [OF q] frame_timers [OF fr] frame_defer [OF fr] frame_fields(3,4) [OF fr] by (simp add: base_inv_def)
qed

section \<open>Removing from queues\<close>

lemma queue_change_same: "queue_change base base' \<Longrightarrow> same_event (evmem base x) (evmem base' x)"
  by (simp add: queue_change_def)

definition unqueued :: "nat set \<Rightarrow> evlist_flag \<Rightarrow> nat \<Rightarrow> 'b event_base \<Rightarrow> 'b event_base \<Rightarrow> bool" where
  "unqueued ins q e base base' \<longleftrightarrow> base_inv ins base' \<and> frame base base'
     \<and> (\<forall>f. flagged f base' = (if f = q then flagged f base - {e} else flagged f base))
     \<and> (\<forall>x. same_event (evmem base x) (evmem base' x))"

lemma cond_remove:
  assumes inv: "base_inv ins base" and q: "q \<in> queue_flags"
  shows "runs (if q \<in> ev_flags (evmem base e) then event_queue_remove base e q else Inr base) (unqueued ins q e base)"
proof (cases "q \<in> ev_flags (evmem base e)")
  case True
  have ok: "queues_ok base" using inv by (simp add: base_inv_def)
  have e: "e \<in> flagged q base" using True by (simp add: flagged_def)
  have "runs (event_queue_remove base e q) (removed q e base)"
    using q e ok remove_INSERTED [of base e] remove_ACTIVE [of base e] remove_TIMEOUT [of base e]
    unfolding queue_flags_def by (auto elim!: runs_mono)
  then show ?thesis
    unfolding if_P [OF True]
  proof (rule runs_mono)
    fix base'
    assume rm: "removed q e base base'"
    then show "unqueued ins q e base base'"
      using removed_inv [OF inv rm q] by (auto simp: unqueued_def removed_def dest: queue_change_same)
  qed
next
  case False
  with inv show ?thesis by (auto simp: unqueued_def flagged_def)
qed

section \<open>Deleting\<close>

definition deleted :: "nat \<Rightarrow> 'b event_base \<Rightarrow> 'b event_base \<Rightarrow> bool" where
  "deleted e base base' \<longleftrightarrow> base_ok base' \<and> frame base base'
     \<and> (\<forall>f. flagged f base' = (if f \<in> queue_flags then flagged f base - {e} else flagged f base))
     \<and> (\<forall>x. same_event (evmem base x) (evmem base' x))"

lemma del_watch_runs:
  assumes ok: "base_ok base" and p: "dels_ok p"
  shows "runs (del_watch p base e) (\<lambda>(r, n, base'). r = 0 \<and> base_ok base' \<and> frame base base'
     \<and> (\<forall>f. flagged f base' = (if f = EVLIST_INSERTED then flagged f base - {e} else flagged f base))
     \<and> (\<forall>x. same_event (evmem base x) (evmem base' x)))"
proof (cases "EVLIST_INSERTED \<in> ev_flags (evmem base e)")
  case True
  let ?ins = "flagged EVLIST_INSERTED base"
  have inv: "base_inv ?ins base" using ok by (simp add: base_ok_def)
  have e: "e \<in> ?ins" using True by (simp add: flagged_def)
  from cond_remove [OF inv, of EVLIST_INSERTED e] True obtain base1 where
    b1: "event_queue_remove base e EVLIST_INSERTED = Inr base1" "unqueued ?ins EVLIST_INSERTED e base base1"
    by (auto simp: queue_flags_def elim: runsE)
  then have u: "base_inv ?ins base1" "frame base base1"
    "\<And>f. flagged f base1 = (if f = EVLIST_INSERTED then flagged f base - {e} else flagged f base)"
    "\<And>x. same_event (evmem base x) (evmem base1 x)" by (auto simp: unqueued_def)
  have w: "watches_io (evmem base1 e) \<or> EV_SIGNAL \<in> ev_events (evmem base1 e)"
    using inv e frame_events(2) [OF u(2), of e] watches_iff [of "evmem base e"]
    by (auto simp: base_inv_def watch_ok_def watches_io_def)
  have "evmaps_ok ?ins base1" using u(1) by (simp add: base_inv_def)
  from evmap_del_runs [OF this e w p] obtain r base2 where
    d: "(if watches_io (evmem base1 e) then evmap_io_del p base1 (ev_fd (evmem base1 e)) e
         else evmap_signal_del p base1 (ev_fd (evmem base1 e)) e) = Inr (r, base2)"
    "r \<in> {0, 1}" "map_change base1 base2" "evmaps_ok (?ins - {e}) base2"
    by (auto elim!: runsE)
  note mc = map_change_inv [OF u(1) d(3,4)]
  have "del_watch p base e = Inr (0, r = 1, base2)"
    using True b1(1) d(1,2) by (auto simp: del_watch_def)
  moreover have "base_ok base2" using mc(1,3) u(3) by (simp add: base_ok_def)
  moreover have "frame base base2" using u(2) mc(2) by (rule frame_trans)
  moreover have "same_event (evmem base x) (evmem base2 x)" for x using u(4) d(3) by (simp add: change_fields)
  ultimately show ?thesis using mc(3) u(3) by simp
next
  case False
  with ok show ?thesis by (auto simp: del_watch_def flagged_def)
qed

lemma event_del_runs:
  assumes ok: "base_ok base" and p: "dels_ok p" and e: "ev_base (evmem base e)"
  shows "runs (event_del_internal p base e) (\<lambda>(r, base'). r = 0 \<and> deleted e base base')"
proof -
  let ?ins = "flagged EVLIST_INSERTED base" and ?ev = "evmem base e"
  define base0 where "base0 = (if EV_SIGNAL \<in> ev_events ?ev \<and> ev_ncalls ?ev \<noteq> 0 \<and> ev_pncalls ?ev
    then base\<lparr>closure_ncalls := 0\<rparr> else base)"
  have b0: "base_inv ?ins base0" "frame base base0" "\<And>f. flagged f base0 = flagged f base" "evmem base0 = evmem base"
    using ok by (auto simp: base0_def base_ok_def)
  obtain base1 where b1: "(if EVLIST_TIMEOUT \<in> ev_flags (evmem base0 e) then event_queue_remove base0 e EVLIST_TIMEOUT
        else Inr base0) = Inr base1" "unqueued ?ins EVLIST_TIMEOUT e base0 base1"
    using cond_remove [OF b0(1), of EVLIST_TIMEOUT e] by (auto simp: queue_flags_def elim: runsE)
  then have u1: "base_inv ?ins base1" "frame base0 base1" "\<And>x. same_event (evmem base0 x) (evmem base1 x)"
    "\<And>f. flagged f base1 = (if f = EVLIST_TIMEOUT then flagged f base0 - {e} else flagged f base0)" by (auto simp: unqueued_def)
  obtain base2 where b2: "(if EVLIST_ACTIVE \<in> ev_flags (evmem base1 e) then event_queue_remove base1 e EVLIST_ACTIVE
        else Inr base1) = Inr base2" "unqueued ?ins EVLIST_ACTIVE e base1 base2"
    using cond_remove [OF u1(1), of EVLIST_ACTIVE e] by (auto simp: queue_flags_def elim: runsE)
  then have u2: "base_inv ?ins base2" "frame base1 base2" "\<And>x. same_event (evmem base1 x) (evmem base2 x)"
    "\<And>f. flagged f base2 = (if f = EVLIST_ACTIVE then flagged f base1 - {e} else flagged f base1)" by (auto simp: unqueued_def)
  have "base_ok base2" using u2(1,4) u1(4) b0(3) by (simp add: base_ok_def)
  from del_watch_runs [OF this p, of e] obtain n base3 where
    b3: "del_watch p base2 e = Inr (0, n, base3)" "base_ok base3" "frame base2 base3"
    "\<And>f. flagged f base3 = (if f = EVLIST_INSERTED then flagged f base2 - {e} else flagged f base2)"
    "\<And>x. same_event (evmem base2 x) (evmem base3 x)"
    by (auto elim!: runsE)
  have fr: "frame base base3" using b0(2) u1(2) u2(2) b3(3) frame_trans by blast
  have se: "same_event (evmem base x) (evmem base3 x)" for x
    using u1(3) [of x] u2(3) [of x] b3(5) [of x] b0(4) same_event_trans by metis
  have fl: "flagged f base3 = (if f \<in> queue_flags then flagged f base - {e} else flagged f base)" for f
    using b0(3) u1(4) u2(4) b3(4) by (auto simp: queue_flags_def)
  have d3: "deleted e base base3" using b3(2) fr fl se by (simp add: deleted_def)
  then have d: "deleted e base (if c then evthread_notify_base base3 else base3)" for c
    by (auto simp: deleted_def base_ok_def intro: frame_trans)
  have "event_del_internal p base e = Inr (0, if 0 \<noteq> (-1 :: int) \<and> n \<and> need_notify base3 then evthread_notify_base base3 else base3)"
    using e b1(1) b2(1) b3(1) b0(4) unfolding event_del_internal_def Let_def base0_def [symmetric] by simp
  then show ?thesis using d by simp
qed

section \<open>Activating\<close>

text \<open>What activation keeps of an event.\<close>

definition same_times :: "event \<Rightarrow> event \<Rightarrow> bool" where
  "same_times a b \<longleftrightarrow> ev_timeout b = ev_timeout a \<and> ev_io_timeout b = ev_io_timeout a"

lemma same_times_refl [simp]: "same_times a a"
  by (simp add: same_times_def)

lemma same_times_trans: "same_times a b \<Longrightarrow> same_times b c \<Longrightarrow> same_times a c"
  by (simp add: same_times_def)

lemma same_event_times: "same_event a b \<Longrightarrow> same_times a b"
  by (simp add: same_times_def same_event_fields)

definition activated :: "nat \<Rightarrow> ev_what set \<Rightarrow> 'b event_base \<Rightarrow> 'b event_base \<Rightarrow> bool" where
  "activated e res base base' \<longleftrightarrow> base_ok base' \<and> frame base base'
     \<and> (\<forall>f. flagged f base' = (if f = EVLIST_ACTIVE then insert e (flagged f base) else flagged f base))
     \<and> (\<forall>x. same_times (evmem base x) (evmem base' x)) \<and> (\<forall>x. x \<noteq> e \<longrightarrow> same_event (evmem base x) (evmem base' x))
     \<and> ev_res (evmem base' e) = (if e \<in> flagged EVLIST_ACTIVE base then ev_res (evmem base e) \<union> res else res)"

lemma set_event_compose: "set_event e g (set_event e f base) = set_event e (\<lambda>ev. g (f ev)) base"
  by (simp add: set_event_def)

lemma set_event_more [simp]:
  "event_running_priority (set_event e f base) = event_running_priority base" "need_notify (set_event e f base) = need_notify base"
  "tv_cache (set_event e f base) = tv_cache base" "evbase (set_event e f base) = evbase base"
  "loop_fields (set_event e f base) = loop_fields base"
  by (simp_all add: set_event_def loop_fields_def)

lemma set_event_continue: "set_event e f (base\<lparr>event_continue := c\<rparr>) = (set_event e f base)\<lparr>event_continue := c\<rparr>"
  by (cases base) (simp add: set_event_def)

lemma set_event_cong: "f (evmem base e) = g (evmem base e) \<Longrightarrow> set_event e f base = set_event e g base"
  by (simp add: set_event_def)

lemma event_active_runs:
  assumes ok: "base_ok base" and e: "e < MAX_EVENTS" "ev_pri (evmem base e) < length (activequeues base)"
  shows "runs (event_active_nolock base e res n) (activated e res base)"
proof (cases "EVLIST_ACTIVE \<in> ev_flags (evmem base e)")
  case True
  let ?f = "\<lambda>ev. ev\<lparr>ev_res := ev_res ev \<union> res\<rparr>"
  have a: "e \<in> flagged EVLIST_ACTIVE base" using True by (simp add: flagged_def)
  have inv: "base_inv (flagged EVLIST_INSERTED base) base" using ok by (simp add: base_ok_def)
  have s: "base_inv (flagged EVLIST_INSERTED base) (set_event e ?f base)" "frame base (set_event e ?f base)"
    "flagged g (set_event e ?f base) = flagged g base" for g
    using set_event_inv [OF inv, of ?f e] by (simp_all add: fixed_fields_def)
  have "activated e res base (set_event e ?f base)"
    unfolding activated_def base_ok_def s(3) using s(1,2) a by (auto simp: same_times_def)
  with True show ?thesis by (simp add: event_active_nolock_def)
next
  case False
  let ?ins = "flagged EVLIST_INSERTED base"
  define f :: "event \<Rightarrow> event" where "f = (\<lambda>ev. if EV_SIGNAL \<in> ev_events (evmem base e)
    then ev\<lparr>ev_res := res, ev_ncalls := n, ev_pncalls := False\<rparr> else ev\<lparr>ev_res := res\<rparr>)"
  define base1 where "base1 = (if int (ev_pri (evmem base e)) < event_running_priority base
    then (set_event e f base)\<lparr>event_continue := True\<rparr> else set_event e f base)"
  have na: "e \<notin> flagged EVLIST_ACTIVE base" using False by (simp add: flagged_def)
  have f: "fixed_fields (f ev) = fixed_fields ev" "ev_flags (f ev) = ev_flags ev" "min_heap_idx (f ev) = min_heap_idx ev"
    "ev_timeout (f ev) = ev_timeout ev" "same_times ev (f ev)" "ev_res (f ev) = res" for ev
    by (simp_all add: f_def fixed_fields_def same_times_def)
  have inv: "base_inv ?ins base" using ok by (simp add: base_ok_def)
  have b1: "base_inv ?ins base1" "frame base base1" "flagged g base1 = flagged g base"
    "evmem base1 x = (if x = e then f (evmem base e) else evmem base x)" for g x
    unfolding base1_def
    using set_event_inv [OF inv, of f e] f by (simp_all add: frame_trans [OF _ frame_update(2)])
  have q1: "queues_ok base1" using b1(1) by (simp add: base_inv_def)
  have pri: "ev_pri (evmem base1 e) < length (activequeues base1)"
    using e(2) frame_events(3) [OF b1(2), of e] frame_fields(1) [OF b1(2)] by simp
  have "e \<notin> flagged EVLIST_ACTIVE base1" using na b1(3) by simp
  then obtain base2 where
    b2: "event_queue_insert (\<lambda>_ _. None) base1 e EVLIST_ACTIVE = Inr base2" "inserted EVLIST_ACTIVE e base1 base2"
    by (rule runsE [OF insert_ACTIVE [OF q1 _ e(1) pri, of "\<lambda>_ _. None"]])
  have i2: "base_inv ?ins base2" "frame base1 base2"
    "flagged g base2 = (if g = EVLIST_ACTIVE then insert e (flagged g base1) else flagged g base1)" for g
    using inserted_inv [OF b1(1) b2(2) _ pri] by (simp_all add: queue_flags_def)
  have se: "same_event (evmem base1 x) (evmem base2 x)" for x
    using b2(2) by (simp add: inserted_def queue_change_def)
  have run: "event_active_nolock base e res n
      = bindE (event_queue_insert (\<lambda>_ _. None) base1 e EVLIST_ACTIVE)
          (\<lambda>base. Inr (if need_notify base then evthread_notify_base base else base))"
    using False set_event_cong [of f base e "\<lambda>ev. ev\<lparr>ev_res := res\<rparr>"]
      set_event_cong [of f base e "\<lambda>ev. ev\<lparr>ev_res := res, ev_ncalls := n, ev_pncalls := False\<rparr>"]
    by (cases "EV_SIGNAL \<in> ev_events (evmem base e)")
       (simp_all add: event_active_nolock_def base1_def f_def set_event_compose set_event_continue Let_def)
  have "activated e res base base2"
    unfolding activated_def base_ok_def
  proof (intro conjI allI impI)
    show "base_inv (flagged EVLIST_INSERTED base2) base2" using i2(1,3) b1(3) by simp
    show "frame base base2" using b1(2) i2(2) by (rule frame_trans)
    show "flagged g base2 = (if g = EVLIST_ACTIVE then insert e (flagged g base) else flagged g base)" for g
      using i2(3) b1(3) by simp
    show "same_times (evmem base x) (evmem base2 x)" for x
      using se [of x] b1(4) [of x] f(5) same_event_times same_times_trans by (metis (full_types))
    show "same_event (evmem base x) (evmem base2 x)" if "x \<noteq> e" for x using se [of x] b1(4) [of x] that by simp
    show "ev_res (evmem base2 e) = (if e \<in> flagged EVLIST_ACTIVE base then ev_res (evmem base e) \<union> res else res)"
      using same_event_fields(6) [OF se [of e]] b1(4) f(6) na by simp
  qed
  then have "activated e res base (if c then evthread_notify_base base2 else base2)" for c
    by (auto simp: activated_def base_ok_def intro: frame_trans)
  then show ?thesis by (simp add: run b2(1))
qed

text \<open>Activating all events that wait for a socket or a signal.\<close>

definition wakes :: "nat set \<Rightarrow> 'b event_base \<Rightarrow> 'b event_base \<Rightarrow> bool" where
  "wakes S base base' \<longleftrightarrow> base_ok base' \<and> frame base base'
     \<and> (\<forall>f. flagged f base' = (if f = EVLIST_ACTIVE then flagged f base \<union> S else flagged f base))
     \<and> (\<forall>x. same_times (evmem base x) (evmem base' x))"

lemma wakes_refl: "base_ok base \<Longrightarrow> wakes {} base base"
  by (simp add: wakes_def)

lemma activated_wakes: "activated e res base base' \<Longrightarrow> wakes {e} base base'"
  by (simp add: activated_def wakes_def)

lemma wakes_trans: "wakes S a b \<Longrightarrow> wakes T b c \<Longrightarrow> wakes (S \<union> T) a c"
proof -
  assume ab: "wakes S a b" and bc: "wakes T b c"
  have "frame a c" using ab bc by (auto simp: wakes_def intro: frame_trans)
  moreover have "same_times (evmem a x) (evmem c x)" for x
    using ab bc same_times_trans [of "evmem a x" "evmem b x" "evmem c x"] by (simp add: wakes_def)
  moreover have "flagged f c = (if f = EVLIST_ACTIVE then flagged f a \<union> (S \<union> T) else flagged f a)" for f
    using ab bc by (simp add: wakes_def Un_assoc)
  ultimately show "wakes (S \<union> T) a c" using bc by (simp add: wakes_def)
qed

lemma wake_all:
  assumes "base_ok base" "set es \<subseteq> flagged EVLIST_INSERTED base" "\<And>b b' x. frame b b' \<Longrightarrow> C b' x = C b x"
  shows "runs (foldE (\<lambda>e b. if C b e then event_active_nolock b e (R b e) n else Inr b) es base)
    (wakes {e \<in> set es. C base e} base)"
  using assms(1,2)
proof (induction es arbitrary: base)
  case Nil
  then show ?case by (simp add: wakes_refl)
next
  case (Cons e es)
  let ?S = "if C base e then {e} else {}"
  have "e < MAX_EVENTS" "ev_pri (evmem base e) < length (activequeues base)"
    using Cons.prems by (auto simp: base_ok_def base_inv_def pri_ok_def queues_ok_def counts_ok_def queue_flags_def)
  then have "runs (if C base e then event_active_nolock base e (R base e) n else Inr base) (wakes ?S base)"
    using Cons.prems(1) by (auto intro: runs_mono [OF event_active_runs] activated_wakes wakes_refl)
  then show ?case
    unfolding foldE.simps
  proof (rule runs_bindI)
    fix b assume b: "wakes ?S base b"
    then have "base_ok b" "frame base b" "set es \<subseteq> flagged EVLIST_INSERTED b" using Cons.prems(2) by (auto simp: wakes_def)
    with Cons.IH [of b] assms(3)
    have "runs (foldE (\<lambda>e b. if C b e then event_active_nolock b e (R b e) n else Inr b) es b) (wakes {e \<in> set es. C base e} b)"
      by simp
    then show "runs (foldE (\<lambda>e b. if C b e then event_active_nolock b e (R b e) n else Inr b) es b)
      (wakes {e' \<in> set (e # es). C base e'} base)"
    proof (rule runs_mono)
      fix b' assume "wakes {e \<in> set es. C base e} b b'"
      from wakes_trans [OF b this] show "wakes {e' \<in> set (e # es). C base e'} base b'"
        by (rule back_subst [where P = "\<lambda>S. wakes S base b'"]) auto
    qed
  qed
qed

text \<open>The events that wait for a socket, and for a signal.\<close>

definition io_waiters :: "'b event_base \<Rightarrow> int \<Rightarrow> ev_what set \<Rightarrow> nat set" where
  "io_waiters base fd what = {e \<in> flagged EVLIST_INSERTED base. watches_io (evmem base e)
     \<and> ev_fd (evmem base e) = fd \<and> ev_events (evmem base e) \<inter> what \<noteq> {}}"

definition sig_waiters :: "'b event_base \<Rightarrow> nat \<Rightarrow> nat set" where
  "sig_waiters base s = {e \<in> flagged EVLIST_INSERTED base. watches_sig (evmem base e) \<and> ev_fd (evmem base e) = int s}"

lemma evmap_io_active_runs:
  assumes ok: "base_ok base" and fd: "0 \<le> fd" "evio base fd = Some ctx"
  shows "runs (evmap_io_active base fd what) (wakes (io_waiters base fd what) base)"
proof -
  have "io_slot_ok (evmem base) (flagged EVLIST_INSERTED base) fd (io_slot (evio base) fd)"
    using ok fd(1) by (simp add: base_ok_def base_inv_def evmaps_ok_def io_ok_def)
  then have h: "set (io_events ctx) = {e \<in> flagged EVLIST_INSERTED base. watches_io (evmem base e) \<and> ev_fd (evmem base e) = fd}"
    using fd(2) by (simp add: io_slot_ok_def io_slot_def holds_def)
  have "runs (evmap_io_active base fd what) (wakes {e \<in> set (io_events ctx). ev_events (evmem base e) \<inter> what \<noteq> {}} base)"
    unfolding evmap_io_active_def fd(2) option.case
    by (rule wake_all [OF ok]) (use h in \<open>auto simp: frame_events\<close>)
  also have "{e \<in> set (io_events ctx). ev_events (evmem base e) \<inter> what \<noteq> {}} = io_waiters base fd what"
    using h by (auto simp: io_waiters_def)
  finally show ?thesis .
qed

lemma evmap_signal_active_runs:
  assumes ok: "base_ok base" and s: "sigmap base ! s = Some q" "s < length (sigmap base)"
  shows "runs (evmap_signal_active base (int s) n) (wakes (sig_waiters base s) base)"
proof -
  have "holds (sig_slot (sigmap base) s) {e \<in> flagged EVLIST_INSERTED base. watches_sig (evmem base e) \<and> ev_fd (evmem base e) = int s}"
    using ok by (simp add: base_ok_def base_inv_def evmaps_ok_def sig_ok_def)
  then have "holds q {e \<in> flagged EVLIST_INSERTED base. watches_sig (evmem base e) \<and> ev_fd (evmem base e) = int s}"
    using s by (simp add: sig_slot_def)
  then have h: "set q = sig_waiters base s" by (simp add: holds_def sig_waiters_def)
  have "runs (foldE (\<lambda>e b. if True then event_active_nolock b e {EV_SIGNAL} n else Inr b) q base) (wakes {e \<in> set q. True} base)"
    by (rule wake_all [OF ok]) (use h in \<open>auto simp: sig_waiters_def\<close>)
  with s h show ?thesis by (simp add: evmap_signal_active_def)
qed

section \<open>Deferred callbacks\<close>

lemma deferred_schedule_ok:
  assumes "base_inv ins base"
  shows "base_inv ins (event_deferred_cb_schedule base cb)" "flagged f (event_deferred_cb_schedule base cb) = flagged f base"
    "evmem (event_deferred_cb_schedule base cb) = evmem base"
proof -
  let ?b = "base\<lparr>cb_queued := (cb_queued base)(cb := True), defer_list := defer_list base @ [cb],
    defer_active_count := defer_active_count base + 1\<rparr>"
  have "defer_ok ?b" if "\<not> cb_queued base cb"
    using assms that by (auto simp: base_inv_def defer_ok_def holds_def)
  then have "base_inv ins ?b" if "\<not> cb_queued base cb"
    using assms that by (auto simp: inv_defs)
  moreover have "flagged f ?b = flagged f base" by (simp add: flagged_def)
  ultimately show "base_inv ins (event_deferred_cb_schedule base cb)" "flagged f (event_deferred_cb_schedule base cb) = flagged f base"
    "evmem (event_deferred_cb_schedule base cb) = evmem base"
    using assms by (auto simp: event_deferred_cb_schedule_def notify_base_cbq_callback_def)
qed

lemma deferred_cancel_ok:
  assumes "base_inv ins base"
  shows "runs (event_deferred_cb_cancel base cb) (\<lambda>base'. base_inv ins base' \<and> (\<forall>f. flagged f base' = flagged f base)
    \<and> evmem base' = evmem base \<and> cb \<notin> set (defer_list base'))"
proof (cases "cb_queued base cb")
  case True
  let ?b = "base\<lparr>defer_list := remove1 cb (defer_list base), defer_active_count := defer_active_count base - 1,
    cb_queued := (cb_queued base)(cb := False)\<rparr>"
  have h: "holds (defer_list base) {cb. cb_queued base cb}" using assms by (simp add: base_inv_def defer_ok_def)
  from holds_remove [OF h, of cb] True have r: "TAILQ_REMOVE cb (defer_list base) = Inr (remove1 cb (defer_list base))"
    "holds (remove1 cb (defer_list base)) ({cb. cb_queued base cb} - {cb})" by auto
  have "0 < length (defer_list base)" "cb \<in> set (defer_list base)" using h True by (auto simp: holds_def)
  then have "int (length (remove1 cb (defer_list base))) = int (length (defer_list base)) - 1"
    by (simp add: length_remove1 of_nat_diff Suc_leI)
  moreover have "{x. cb_queued ?b x} = {cb. cb_queued base cb} - {cb}" by auto
  ultimately have "defer_ok ?b" using r(2) assms by (simp add: base_inv_def defer_ok_def)
  then have "base_inv ins ?b" using assms by (auto simp: inv_defs)
  then show ?thesis using True r by (simp add: event_deferred_cb_cancel_def flagged_def holds_def)
next
  case False
  then show ?thesis using assms by (auto simp: event_deferred_cb_cancel_def base_inv_def defer_ok_def holds_def)
qed

end
