(* ===== verification/Event_Add.thy ===== *)
theory Event_Add
  imports Event_Invariant
begin

text \<open>
  \<open>event_add\<close> keeps the invariant of an event base; what it changes of the event it adds, and that it
  changes nothing of other events but the timers of common timeouts.
\<close>

section \<open>The room in the heap\<close>

lemma remove_room:
  assumes "event_queue_remove base e q = Inr base'"
  shows "mh_a (timeheap base') = mh_a (timeheap base)"
  using assms
  by (cases q)
     (auto simp: event_queue_remove_def bindE_Inr_iff min_heap_erase_def drop_flag_def Let_def split: if_splits prod.splits)

lemma insert_heap:
  assumes "event_queue_insert mm_realloc base e q = Inr base'" "q \<noteq> EVLIST_TIMEOUT"
  shows "timeheap base' = timeheap base"
  using assms
  by (cases q) (auto simp: event_queue_insert_def bindE_Inr_iff raise_flag_def Let_def split: if_splits)

lemma map_change_heap: "map_change base base' \<Longrightarrow> timeheap base' = timeheap base"
  by (auto simp: map_change_def)

lemma heap_count:
  assumes "base_inv ins base"
  shows "mh_n (timeheap base) = card (on_heap base)" "mh_n (timeheap base) \<le> mh_a (timeheap base)" "finite (on_heap base)"
proof -
  have "timeouts_ok base" using assms by (simp add: base_inv_def queues_ok_def)
  then have h: "heap_ok (timeheap base, evmem base)" "heap_members (timeheap base) = on_heap base"
    by (simp_all add: timeouts_ok_def)
  then show "mh_n (timeheap base) = card (on_heap base)" "mh_n (timeheap base) \<le> mh_a (timeheap base)"
    using heap_ok_distinct [OF h(1)] by (auto simp: heap_members_def distinct_card heap_ok_def simp flip: h(2))
  show "finite (on_heap base)" using h(2) by (simp add: heap_members_def flip: h(2))
qed

section \<open>Classes of times\<close>

text \<open>The upper bits of the microseconds tell the class of a time: not common, or the index of a list.\<close>

lemma micro_mask: "MICROSECONDS_MASK = mask 20"
  by (simp add: MICROSECONDS_MASK_def mask_eq_exp_minus_1)

lemma outer_masks:
  "COMMON_TIMEOUT_MASK AND NOT MICROSECONDS_MASK = COMMON_TIMEOUT_MASK"
  "COMMON_TIMEOUT_IDX_MASK AND NOT MICROSECONDS_MASK = COMMON_TIMEOUT_IDX_MASK"
  unfolding COMMON_TIMEOUT_MASK_def COMMON_TIMEOUT_IDX_MASK_def MICROSECONDS_MASK_def
  by (transfer; simp add: take_bit_eq_mod; fail)+

lemma same_class:
  assumes "is_same_common_timeout a b"
  shows "is_common_timeout a base = is_common_timeout b base" "COMMON_TIMEOUT_IDX a = COMMON_TIMEOUT_IDX b"
proof -
  have eq: "tv_usec a AND m = tv_usec b AND m" if "m AND NOT MICROSECONDS_MASK = m" for m
  proof -
    have "u AND m = (u AND NOT MICROSECONDS_MASK) AND m" for u :: "32 word"
      using that by (metis and.assoc and.commute)
    with assms show ?thesis unfolding is_same_common_timeout_def by metis
  qed
  from outer_masks have "tv_usec a AND COMMON_TIMEOUT_MASK = tv_usec b AND COMMON_TIMEOUT_MASK"
    "tv_usec a AND COMMON_TIMEOUT_IDX_MASK = tv_usec b AND COMMON_TIMEOUT_IDX_MASK" by (auto intro: eq)
  then show "is_common_timeout a base = is_common_timeout b base" "COMMON_TIMEOUT_IDX a = COMMON_TIMEOUT_IDX b"
    by (simp_all add: is_common_timeout_def COMMON_TIMEOUT_IDX_def)
qed

lemma sint_nonneg: "0 \<le> sint (w :: 32 word) \<Longrightarrow> sint w = uint w"
proof -
  assume "0 \<le> sint w"
  then have nb: "\<not> bit (uint w) 31"
    using signed_take_bit_negative_iff [of 31 "uint w"] by (simp add: sint_uint)
  have "uint w < 2 ^ 32" using unsigned_less [of w] by simp
  then have "uint w = take_bit (Suc 31) (uint w)" by (simp add: take_bit_int_eq_self)
  also have "\<dots> = take_bit 31 (uint w)" using nb by (simp only: take_bit_Suc_from_most) simp
  finally show ?thesis using nb by (simp add: sint_uint signed_take_bit_eq_if_positive)
qed

lemma tv_ok_micro:
  assumes "tv_ok t"
  shows "tv_usec t AND MICROSECONDS_MASK = tv_usec t" "tv_usec t AND NOT MICROSECONDS_MASK = 0"
proof -
  have "sint (tv_usec t) = uint (tv_usec t)" using assms by (simp add: tv_ok_def sint_nonneg)
  then have "uint (tv_usec t) < 2 ^ 20" using assms by (simp add: tv_ok_def)
  then have "uint (take_bit 20 (tv_usec t)) = uint (tv_usec t)"
    by (simp add: unsigned_take_bit_eq take_bit_int_eq_self)
  then have "take_bit 20 (tv_usec t) = tv_usec t" by (rule word_uint_eqI)
  then show m: "tv_usec t AND MICROSECONDS_MASK = tv_usec t" by (simp add: micro_mask take_bit_eq_mask)
  then show "tv_usec t AND NOT MICROSECONDS_MASK = 0" by (metis and.assoc bit.conj_cancel_right word_bw_comms(1) bit.conj_zero_right)
qed

lemma tv_ok_not_common: "tv_ok t \<Longrightarrow> \<not> is_common_timeout t base"
  using same_class(1) [of t evutil_timerclear base] tv_ok_micro(2) [of t]
  by (simp add: is_same_common_timeout_def is_common_timeout_def evutil_timerclear_def COMMON_TIMEOUT_MAGIC_def)

lemma or_class:
  assumes "tv_ok t"
  shows "is_same_common_timeout (or_usec t (w AND NOT MICROSECONDS_MASK)) (Timeval s w)"
    "and_usec (or_usec t (w AND NOT MICROSECONDS_MASK)) MICROSECONDS_MASK = t"
  using tv_ok_micro [OF assms]
  by (cases t; simp add: is_same_common_timeout_def or_usec_def and_usec_def bit.conj_disj_distrib2 and.assoc)+
lemma timeradd_ok:
  assumes "tv_ok a" "tv_ok b"
  shows "tv_ok (evutil_timeradd a b)"
proof -
  have u: "sint (tv_usec a + tv_usec b) = sint (tv_usec a) + sint (tv_usec b)"
    using assms by (intro sint_plus_32) (auto simp: tv_ok_def)
  have "sint (tv_usec a + tv_usec b - 1000000) = sint (tv_usec a) + sint (tv_usec b) - 1000000"
    using sint_minus_32 [of "tv_usec a + tv_usec b" 1000000] u assms by (auto simp: tv_ok_def)
  with u assms show ?thesis by (auto simp: evutil_timeradd_def Let_def tv_ok_def)
qed

lemma deadline_class:
  assumes "tv_ok now" "tv_fits base tv"
  shows "is_same_common_timeout (add_deadline now tv absolute (is_common_timeout tv base)) tv"
    "tv_fits base (add_deadline now tv absolute (is_common_timeout tv base))"
proof -
  let ?d = "add_deadline now tv absolute (is_common_timeout tv base)"
  have "is_same_common_timeout ?d tv \<and> tv_fits base ?d"
  proof (cases "is_common_timeout tv base \<and> \<not> absolute")
    case True
    then have add: "tv_ok (evutil_timeradd now (and_usec tv MICROSECONDS_MASK))"
      using assms by (simp add: tv_fits_def timeradd_ok)
    from True or_class(1) [OF add, of "tv_usec tv" "tv_sec tv"] or_class(2) [OF add, of "tv_usec tv"]
    have s: "is_same_common_timeout ?d tv" "and_usec ?d MICROSECONDS_MASK = evutil_timeradd now (and_usec tv MICROSECONDS_MASK)"
      by (simp_all add: add_deadline_def)
    with add True same_class(1) [OF s(1), of base] show ?thesis by (simp add: tv_fits_def)
  next
    case False
    show ?thesis
    proof (cases absolute)
      case True
      with assms(2) show ?thesis by (simp add: add_deadline_def is_same_common_timeout_def)
    next
      case na: False
      with False assms(2) have tv: "\<not> is_common_timeout tv base" "tv_ok tv" by (simp_all add: tv_fits_def)
      then have d: "tv_ok ?d" using assms(1) na by (simp add: add_deadline_def timeradd_ok)
      with tv na tv_ok_micro(2) [OF d] tv_ok_micro(2) [OF tv(2)] tv_ok_not_common [OF d, of base]
      show ?thesis by (simp add: tv_fits_def is_same_common_timeout_def)
    qed
  qed
  then show "is_same_common_timeout ?d tv" "tv_fits base ?d" by simp_all
qed

section \<open>Time\<close>

definition clock_ok :: "('b, 'p) loop_platform_scheme \<Rightarrow> bool" where
  "clock_ok p \<longleftrightarrow> (\<forall>b. 0 \<le> sint (fst (fst (os_ftime p b))) \<and> snd (fst (os_ftime p b)) < 1000)"

lemma gettime_ok:
  assumes "clock_ok p" "base_inv ins base" "gettime p base = (now, base')"
  shows "time_ok now" "base_inv ins base'" "frame base base'" "flagged f base' = flagged f base" "evmem base' = evmem base"
    "timeheap base' = timeheap base"
proof -
  have "tv_ok (Timeval t (of_nat (n * 1000)))" if "n < 1000" for t n
  proof -
    have small: "sint (of_nat m :: 32 word) = int m" if "m < 2 ^ 31" for m
      using that by (simp add: signed_of_nat signed_take_bit_int_eq_self)
    have "sint (of_nat (n * 1000) :: 32 word) = int (n * 1000)"
      by (rule small) (use that in simp)
    with that show ?thesis by (simp add: tv_ok_def)
  qed
  then have now: "time_ok (fst (evutil_gettimeofday p b))" for b
    using assms(1) by (cases "os_ftime p b") (auto simp: evutil_gettimeofday_def clock_ok_def time_ok_def dest: spec [of _ b])
  have cases: "now = tv_cache base \<and> base' = base \<or> (\<exists>b. base' = base\<lparr>evbase := b\<rparr> \<and> now = fst (evutil_gettimeofday p (evbase base)))"
    using assms(3) by (auto simp: gettime_def split: if_splits prod.splits)
  then show "time_ok now" using assms(2) now by (auto simp: base_inv_def)
  from cases show "base_inv ins base'" "frame base base'" "flagged f base' = flagged f base" "evmem base' = evmem base"
    "timeheap base' = timeheap base" using assms(2) by auto
qed

lemma gettime_cong: "tv_cache a = tv_cache b \<Longrightarrow> evbase a = evbase b \<Longrightarrow> fst (gettime p a) = fst (gettime p b)"
  by (simp add: gettime_def split: prod.splits)

text \<open>The queues of a base do not concern the outside.\<close>

lemma queue_remove_evbase: "event_queue_remove base e q = Inr base' \<Longrightarrow> evbase base' = evbase base"
  by (cases q) (auto simp: event_queue_remove_def drop_flag_def count_event_def put_ctl_def set_event_def Let_def bindE_Inr_iff
      split: if_splits prod.splits)

lemma add_unschedule_evbase:
  assumes "add_unschedule base e = Inr (n, base')"
  shows "evbase base' = evbase base"
  using assms unfolding add_unschedule_def
  by (auto simp: bindE_Inr_iff Let_def split: if_splits prod.splits dest!: queue_remove_evbase)

section \<open>The steps of \<open>event_add\<close>\<close>

text \<open>\<open>kept T\<close>: nothing changed but the position and, of the events in \<open>T\<close>, the queues.\<close>

definition untouched :: "nat set \<Rightarrow> 'b event_base \<Rightarrow> 'b event_base \<Rightarrow> bool" where
  "untouched T base base' \<longleftrightarrow> (\<forall>x. x \<notin> T \<longrightarrow> same_event (evmem base x) (evmem base' x)
     \<and> ev_flags (evmem base' x) = ev_flags (evmem base x))"

lemma untouched_refl [simp]: "untouched T base base"
  by (simp add: untouched_def)

lemma untouched_trans: "untouched T a b \<Longrightarrow> untouched T b c \<Longrightarrow> untouched T a c"
  unfolding untouched_def using same_event_trans by metis

lemma untouched_mono: "untouched S a b \<Longrightarrow> S \<subseteq> T \<Longrightarrow> untouched T a b"
  by (auto simp: untouched_def)

lemma untouchedI:
  assumes "\<And>x. same_event (evmem base x) (evmem base' x)" "\<And>f x. x \<notin> T \<Longrightarrow> x \<in> flagged f base' \<longleftrightarrow> x \<in> flagged f base"
  shows "untouched T base base'"
  using assms by (auto simp: untouched_def flagged_def)

text \<open>A step of adding the event \<open>e\<close>: it leaves all other events alone.\<close>

definition step_ok :: "nat \<Rightarrow> (evlist_flag set \<Rightarrow> evlist_flag set) \<Rightarrow> 'b event_base \<Rightarrow> 'b event_base \<Rightarrow> bool" where
  "step_ok e g base base' \<longleftrightarrow> base_ok base' \<and> frame base base' \<and> untouched {e} base base'
     \<and> same_event (evmem base e) (evmem base' e) \<and> ev_flags (evmem base' e) = g (ev_flags (evmem base e))
     \<and> mh_a (timeheap base') = mh_a (timeheap base)"

lemma step_okI:
  assumes "base_ok base'" "frame base base'" "\<And>x. same_event (evmem base x) (evmem base' x)"
    "\<And>f. flagged f base' = (if f \<in> R then flagged f base - {e} else if f \<in> A then insert e (flagged f base) else flagged f base)"
    "mh_a (timeheap base') = mh_a (timeheap base)"
  shows "step_ok e (\<lambda>F. F - R \<union> (A - R)) base base'"
proof -
  have "untouched {e} base base'" by (rule untouchedI) (use assms(3,4) in auto)
  moreover have "ev_flags (evmem base' e) = ev_flags (evmem base e) - R \<union> (A - R)"
    using assms(4) unfolding flagged_def set_eq_iff mem_Collect_eq
    by (metis (mono_tags, lifting) Diff_iff Un_iff insert_iff mem_Collect_eq singletonI)
  ultimately show ?thesis using assms by (simp add: step_ok_def)
qed

definition addable :: "'b event_base \<Rightarrow> nat \<Rightarrow> bool" where
  "addable base e \<longleftrightarrow> e < MAX_EVENTS \<and> ev_pri (evmem base e) < length (activequeues base)
     \<and> (watches_sig (evmem base e) \<longrightarrow> 0 \<le> ev_fd (evmem base e) \<and> ev_fd (evmem base e) < 2 ^ 30)"

lemma addable_frame: "frame base base' \<Longrightarrow> addable base' e = addable base e"
  by (simp add: addable_def frame_events frame_fields watches_sig_def watches_io_def)

definition to_watch :: "event \<Rightarrow> bool" where
  "to_watch ev \<longleftrightarrow> watches ev \<and> ev_flags ev \<inter> {EVLIST_INSERTED, EVLIST_ACTIVE} = {}"

lemma add_watch_runs:
  assumes ok: "base_ok base" and e: "addable base e"
  shows "runs (add_watch p base e) (\<lambda>(r, n, base'). r \<in> {-1, 0}
    \<and> step_ok e (\<lambda>F. if r = 0 \<and> to_watch (evmem base e) then insert EVLIST_INSERTED F else F) base base'
    \<and> timeheap base' = timeheap base)"
proof (cases "to_watch (evmem base e)")
  case True
  let ?ins = "flagged EVLIST_INSERTED base" and ?ev = "evmem base e"
  have w: "watches_io ?ev \<or> EV_SIGNAL \<in> ev_events ?ev" and ni: "e \<notin> ?ins"
    using True by (auto simp: to_watch_def watches_iff flagged_def)
  have inv: "base_inv ?ins base" using ok by (simp add: base_ok_def)
  then have "evmaps_ok ?ins base" by (simp add: base_inv_def)
  from evmap_add_runs [OF this ni w, of p] e obtain r base1 where
    b1: "(if watches_io ?ev then evmap_io_add p base (ev_fd ?ev) e else evmap_signal_add p base (ev_fd ?ev) e) = Inr (r, base1)"
    "r \<in> {-1, 0, 1}" "map_change base base1" "evmaps_ok (if r = -1 then ?ins else insert e ?ins) base1"
    by (auto simp: addable_def elim!: runsE)
  note mc = map_change_inv [OF inv b1(3,4)]
  have ev1: "evmem base1 = evmem base" using b1(3) by (simp add: change_fields)
  have th1: "timeheap base1 = timeheap base" using b1(3) by (rule map_change_heap)
  have run: "add_watch p base e = bindE (if r \<noteq> -1 then event_queue_insert (heap_realloc p) base1 e EVLIST_INSERTED else Inr base1)
      (\<lambda>base. Inr (if r = 1 then 0 else r, r = 1, base))"
    using True w b1(1) by (auto simp: add_watch_def to_watch_def watches_def Let_def)
  show ?thesis
  proof (cases "r = -1")
    case True
    have "step_ok e (\<lambda>F. F - {} \<union> ({} - {})) base base1"
      using mc True ev1 th1 by (intro step_okI) (simp_all add: base_ok_def)
    with True run th1 show ?thesis by simp
  next
    case False
    have q1: "queues_ok base1" using mc(1) by (simp add: base_inv_def)
    have "e \<notin> flagged EVLIST_INSERTED base1" "e < MAX_EVENTS" using ni mc(3) e by (simp_all add: addable_def)
    then obtain base2 where
      b2: "event_queue_insert (heap_realloc p) base1 e EVLIST_INSERTED = Inr base2" "inserted EVLIST_INSERTED e base1 base2"
      by (rule runsE [OF insert_INSERTED [OF q1]])
    have pri: "ev_pri (evmem base1 e) < length (activequeues base1)" using e addable_frame [OF mc(2)] by (auto simp: addable_def)
    have w1: "watches (evmem base1 e)" using True ev1 by (simp add: to_watch_def)
    have i2: "base_inv (insert e ?ins) base2" "frame base1 base2"
      "flagged g base2 = (if g = EVLIST_INSERTED then insert e (flagged g base1) else flagged g base1)" for g
      using inserted_inv [OF mc(1) b2(2) _ pri w1] False by (simp_all add: queue_flags_def)
    have th2: "timeheap base2 = timeheap base" using insert_heap [OF b2(1)] th1 by simp
    have "step_ok e (\<lambda>F. F - {} \<union> ({EVLIST_INSERTED} - {})) base base2"
    proof (rule step_okI)
      show "base_ok base2" using i2(1,3) mc(3) by (simp add: base_ok_def)
      show "frame base base2" using mc(2) i2(2) by (rule frame_trans)
      show "same_event (evmem base x) (evmem base2 x)" for x
        using b2(2) ev1 by (simp add: inserted_def queue_change_def)
    qed (use i2(3) mc(3) th2 in auto)
    with False True b1(2) run b2(1) th2 show ?thesis by (auto simp: step_ok_def)
  qed
next
  case False
  have "add_watch p base e = Inr (0, False, base)" using False by (auto simp: add_watch_def to_watch_def watches_def Let_def)
  with ok False show ?thesis by (simp add: step_ok_def)
qed

text \<open>Whether the timeout that makes an event active is to be replaced.\<close>

definition timed_out :: "event \<Rightarrow> bool" where
  "timed_out ev \<longleftrightarrow> EVLIST_ACTIVE \<in> ev_flags ev \<and> EV_TIMEOUT \<in> ev_res ev"

lemma base_okI: "base_inv ins base \<Longrightarrow> flagged EVLIST_INSERTED base = ins \<Longrightarrow> base_ok base"
  by (simp add: base_ok_def)

lemma cond_remove_step:
  assumes ok: "base_ok base" and q: "q \<in> {EVLIST_ACTIVE, EVLIST_TIMEOUT}"
  shows "runs (if q \<in> ev_flags (evmem base e) then event_queue_remove base e q else Inr base)
    (\<lambda>base'. step_ok e (\<lambda>F. F - {q}) base base')"
proof -
  have "base_inv (flagged EVLIST_INSERTED base) base" using ok by (simp add: base_ok_def)
  moreover have "q \<in> queue_flags" using q by (auto simp: queue_flags_def)
  ultimately obtain base' where
    b: "(if q \<in> ev_flags (evmem base e) then event_queue_remove base e q else Inr base) = Inr base'"
      "unqueued (flagged EVLIST_INSERTED base) q e base base'"
    by (rule runsE [OF cond_remove])
  have "mh_a (timeheap base') = mh_a (timeheap base)"
    using b(1) remove_room by (auto split: if_splits)
  with b(2) q have "step_ok e (\<lambda>F. F - {q} \<union> ({} - {q})) base base'"
    by (intro step_okI) (auto simp: unqueued_def intro: base_okI)
  with b(1) show ?thesis by simp
qed

lemma step_ok_trans: "step_ok e g a b \<Longrightarrow> step_ok e h b c \<Longrightarrow> step_ok e (h \<circ> g) a c"
  unfolding step_ok_def by (auto intro: frame_trans untouched_trans same_event_trans)

lemma add_unschedule_runs:
  assumes ok: "base_ok base"
  shows "runs (add_unschedule base e) (\<lambda>(n, base').
    step_ok e (\<lambda>F. F - {EVLIST_TIMEOUT} - (if timed_out (evmem base e) then {EVLIST_ACTIVE} else {})) base base')"
proof -
  obtain base1 where
    b1: "(if EVLIST_TIMEOUT \<in> ev_flags (evmem base e) then event_queue_remove base e EVLIST_TIMEOUT else Inr base) = Inr base1"
      "step_ok e (\<lambda>F. F - {EVLIST_TIMEOUT}) base base1"
    by (rule runsE [OF cond_remove_step [OF ok, of EVLIST_TIMEOUT e]]) simp
  let ?ev = "evmem base1 e"
  define base2 where "base2 = (if timed_out ?ev \<and> EV_SIGNAL \<in> ev_events ?ev \<and> ev_ncalls ?ev \<noteq> 0 \<and> ev_pncalls ?ev
    then base1\<lparr>closure_ncalls := 0\<rparr> else base1)"
  have ev2: "evmem base2 = evmem base1" by (simp add: base2_def)
  have "base_ok base1" using b1(2) by (simp add: step_ok_def)
  then have s2: "step_ok e (\<lambda>F. F) base1 base2"
    by (auto simp: base2_def step_ok_def base_ok_def untouched_def)
  then have ok2: "base_ok base2" by (simp add: step_ok_def)
  have to: "timed_out ?ev = timed_out (evmem base e)"
    using b1(2) same_event_fields(6) [of "evmem base e" ?ev] by (auto simp: step_ok_def timed_out_def)
  obtain base3 where
    b3: "(if EVLIST_ACTIVE \<in> ev_flags (evmem base2 e) then event_queue_remove base2 e EVLIST_ACTIVE else Inr base2) = Inr base3"
      "step_ok e (\<lambda>F. F - {EVLIST_ACTIVE}) base2 base3"
    by (rule runsE [OF cond_remove_step [OF ok2, of EVLIST_ACTIVE e]]) simp
  define n where "n \<longleftrightarrow> EVLIST_TIMEOUT \<in> ev_flags (evmem base e) \<and> elt_is_top base e"
  have first: "(if EVLIST_TIMEOUT \<in> ev_flags (evmem base e)
        then let notify = elt_is_top base e in bindE (event_queue_remove base e EVLIST_TIMEOUT) (\<lambda>base. Inr (notify, base))
        else Inr (False, base)) = Inr (n, base1)"
    using b1(1) by (cases "EVLIST_TIMEOUT \<in> ev_flags (evmem base e)") (simp_all add: n_def)
  have n: "add_unschedule base e = (if timed_out ?ev then Inr (n, base3) else Inr (n, base1))"
  proof (cases "timed_out ?ev")
    case True
    then have "event_queue_remove base2 e EVLIST_ACTIVE = Inr base3" using b3(1) ev2 by (simp add: timed_out_def)
    with True show ?thesis unfolding add_unschedule_def first by (simp add: timed_out_def base2_def)
  next
    case False
    then show ?thesis unfolding add_unschedule_def first by (auto simp: timed_out_def Let_def)
  qed
  show ?thesis
  proof (cases "timed_out ?ev")
    case True
    from step_ok_trans [OF step_ok_trans [OF b1(2) s2] b3(2)] show ?thesis by (simp add: n to True [unfolded to] comp_def)
  next
    case False
    with b1(2) show ?thesis by (simp add: n to)
  qed
qed

section \<open>The new timeout\<close>

text \<open>There is a place in the heap for the event, if it is to go there.\<close>

definition has_room :: "'b event_base \<Rightarrow> nat \<Rightarrow> timeval \<Rightarrow> bool" where
  "has_room base e tv \<longleftrightarrow> is_common_timeout tv base \<or> e \<in> on_heap base \<or> mh_n (timeheap base) < mh_a (timeheap base)"

text \<open>The flags of an event, and what is known of it, after adding it with a timeout.\<close>

definition timed_flags :: "event \<Rightarrow> evlist_flag set" where
  "timed_flags ev = insert EVLIST_TIMEOUT (ev_flags ev - (if timed_out ev then {EVLIST_ACTIVE} else {}))"

definition rescheduled :: "timeval \<Rightarrow> timeval \<Rightarrow> bool \<Rightarrow> 'b event_base \<Rightarrow> event \<Rightarrow> event \<Rightarrow> bool" where
  "rescheduled now tv absolute base ev ev' \<longleftrightarrow> tv_ok now
     \<and> ev_timeout ev' = add_deadline now tv absolute (is_common_timeout tv base)
     \<and> ev_io_timeout ev' = (if ev_closure ev = EV_CLOSURE_PERSIST \<and> \<not> absolute then tv else ev_io_timeout ev)
     \<and> ev_res ev' = ev_res ev \<and> ev_ncalls ev' = ev_ncalls ev \<and> ev_pncalls ev' = ev_pncalls ev"

definition set_time :: "nat \<Rightarrow> timeval \<Rightarrow> timeval \<Rightarrow> 'b event_base \<Rightarrow> 'b event_base" where
  "set_time e io tv base = set_event e (\<lambda>ev. ev\<lparr>ev_io_timeout := io, ev_timeout := tv\<rparr>) base"

lemma on_heap_card:
  assumes "untouched {e} base base'" "frame base base'" "e \<notin> flagged EVLIST_TIMEOUT base'" "finite (on_heap base)"
  shows "card (on_heap base') \<le> card (on_heap base) - (if e \<in> on_heap base then 1 else 0)"
proof -
  have "on_heap base' = on_heap base - {e}"
  proof (rule set_eqI)
    fix x
    show "x \<in> on_heap base' \<longleftrightarrow> x \<in> on_heap base - {e}"
    proof (cases "x = e")
      case False
      then have "ev_timeout (evmem base' x) = ev_timeout (evmem base x)" "ev_flags (evmem base' x) = ev_flags (evmem base x)"
        using assms(1) same_event_fields(9) [of "evmem base x" "evmem base' x"] by (auto simp: untouched_def)
      then show ?thesis using False frame_common [OF assms(2)] by (auto simp: on_heap_def flagged_def)
    qed (use assms(3) in \<open>auto simp: on_heap_def\<close>)
  qed
  with assms(4) show ?thesis by (simp add: card_Diff_singleton_if)
qed

lemma queue_timeout:
  assumes ok: "base_ok base" and e: "e \<notin> flagged EVLIST_TIMEOUT base" "addable base e"
    and t: "e \<in> timer_events base \<Longrightarrow> \<not> is_common_timeout (ev_timeout (evmem base e)) base"
    and tf: "tv_fits base (ev_timeout (evmem base e))" and re: "realloc_ok mm_realloc"
    and room: "is_common_timeout (ev_timeout (evmem base e)) base \<or> mh_n (timeheap base) < mh_a (timeheap base)"
  shows "runs (event_queue_insert mm_realloc base e EVLIST_TIMEOUT) (step_ok e (insert EVLIST_TIMEOUT) base)"
proof -
  have inv: "base_inv (flagged EVLIST_INSERTED base) base" using ok by (simp add: base_ok_def)
  have q: "queues_ok base" "e < MAX_EVENTS" "ev_pri (evmem base e) < length (activequeues base)"
    using inv e(2) by (simp_all add: base_inv_def addable_def)
  show ?thesis
  proof (rule runs_mono [OF insert_TIMEOUT [OF q(1) e(1) q(2) re room]], elim conjE)
    fix base' assume ins: "inserted EVLIST_TIMEOUT e base base'" and a: "mh_a (timeheap base') = mh_a (timeheap base)"
    have i: "base_inv (flagged EVLIST_INSERTED base) base'" "frame base base'"
      "flagged f base' = (if f = EVLIST_TIMEOUT then insert e (flagged f base) else flagged f base)" for f
      using inserted_inv [OF inv ins _ q(3) _ t tf] by (simp_all add: queue_flags_def)
    have "step_ok e (\<lambda>F. F - {} \<union> ({EVLIST_TIMEOUT} - {})) base base'"
    proof (rule step_okI)
      show "base_ok base'" using i(1,3) by (simp add: base_ok_def)
      show "same_event (evmem base x) (evmem base' x)" for x using ins by (simp add: inserted_def queue_change_def)
    qed (use i a in auto)
    then show "step_ok e (insert EVLIST_TIMEOUT) base base'" by (simp add: step_ok_def)
  qed
qed

text \<open>What scheduling the timer of a common timeout may change.\<close>

definition scheduled :: "nat set \<Rightarrow> 'b event_base \<Rightarrow> 'b event_base \<Rightarrow> bool" where
  "scheduled T base base' \<longleftrightarrow> base_ok base' \<and> frame base base' \<and> untouched T base base'
     \<and> (\<forall>f. f \<notin> queue_flags \<longrightarrow> flagged f base' = flagged f base)"

definition timed :: "timeval \<Rightarrow> nat set \<Rightarrow> nat \<Rightarrow> timeval \<Rightarrow> bool \<Rightarrow> 'b event_base \<Rightarrow> 'b event_base \<Rightarrow> bool" where
  "timed now T e tv absolute base base' \<longleftrightarrow> scheduled (insert e T) base base'
     \<and> ev_flags (evmem base' e) = timed_flags (evmem base e) \<and> rescheduled now tv absolute base (evmem base e) (evmem base' e)"

lemma step_marks:
  assumes "untouched {e} base base'" "ev_flags (evmem base' e) - queue_flags = ev_flags (evmem base e) - queue_flags"
    "f \<notin> queue_flags"
  shows "flagged f base' = flagged f base"
proof (rule set_eqI)
  fix x show "x \<in> flagged f base' \<longleftrightarrow> x \<in> flagged f base"
    using assms by (cases "x = e") (auto simp: untouched_def flagged_def set_eq_iff)
qed

lemma timer_insert:
  assumes ok: "base_ok base" and e: "addable base e" and clock: "clock_ok p" and re: "realloc_ok (heap_realloc p)"
    and tv: "tv_fits base tv" "has_room base e tv" "e \<in> timer_events base \<Longrightarrow> \<not> is_common_timeout tv base"
  obtains n base1 now base2 base4
  where "add_unschedule (if ev_closure (evmem base e) = EV_CLOSURE_PERSIST \<and> \<not> absolute
      then set_event e (\<lambda>ev. ev\<lparr>ev_io_timeout := tv\<rparr>) base else base) e = Inr (n, base1)"
    "gettime p base1 = (now, base2)"
    "event_queue_insert (heap_realloc p)
      (set_event e (\<lambda>ev. ev\<lparr>ev_timeout := add_deadline now tv absolute (is_common_timeout tv base)\<rparr>) base2) e EVLIST_TIMEOUT
     = Inr base4"
    "is_common_timeout tv base2 = is_common_timeout tv base" "timed (fst (gettime p base)) {} e tv absolute base base4"
proof -
  let ?io = "ev_closure (evmem base e) = EV_CLOSURE_PERSIST \<and> \<not> absolute" and ?c = "is_common_timeout tv base"
  define f where "f = (\<lambda>ev :: event. if ?io then ev\<lparr>ev_io_timeout := tv\<rparr> else ev)"
  define base0 where "base0 = set_event e f base"
  have base0: "base0 = (if ?io then set_event e (\<lambda>ev. ev\<lparr>ev_io_timeout := tv\<rparr>) base else base)"
    by (simp add: base0_def f_def set_event_def)
  have inv: "base_inv (flagged EVLIST_INSERTED base) base" using ok by (simp add: base_ok_def)
  have b0: "base_ok base0" "frame base base0" "flagged g base0 = flagged g base" "mh_a (timeheap base0) = mh_a (timeheap base)"
    "timeheap base0 = timeheap base" for g
    using set_event_inv [OF inv, of f e] unfolding base0_def by (simp_all add: f_def fixed_fields_def base_ok_def)
  from add_unschedule_runs [OF b0(1), of e] obtain n base1 where
    b1: "add_unschedule base0 e = Inr (n, base1)"
      "step_ok e (\<lambda>F. F - {EVLIST_TIMEOUT} - (if timed_out (evmem base0 e) then {EVLIST_ACTIVE} else {})) base0 base1"
    by (auto elim: runsE)
  obtain now base2 where g: "gettime p base1 = (now, base2)" by fastforce
  have inv1: "base_inv (flagged EVLIST_INSERTED base1) base1" using b1(2) by (simp add: step_ok_def base_ok_def)
  note gt = gettime_ok [OF clock inv1 g]
  have fr2: "frame base base2" using b0(2) b1(2) gt(3) by (auto simp: step_ok_def intro: frame_trans)
  have tn: "tv_ok now" using gt(1) by (simp add: time_ok_def)
  have "tv_cache base1 = tv_cache base"
    using b1(2) frame_fields [OF frame_trans [OF b0(2)]] by (simp add: step_ok_def)
  moreover have "evbase base1 = evbase base" using add_unschedule_evbase [OF b1(1)] by (simp add: base0_def)
  ultimately have time: "fst (gettime p base) = now" using gettime_cong [of base1 base p] g by simp
  let ?d = "add_deadline now tv absolute ?c" and ?g = "\<lambda>ev. ev\<lparr>ev_timeout := add_deadline now tv absolute (is_common_timeout tv base)\<rparr>"
  define base3 where "base3 = set_event e ?g base2"
  have nt: "e \<notin> flagged EVLIST_TIMEOUT base2" using b1(2) gt(4,5) by (simp add: step_ok_def flagged_def)
  have b3: "base_ok base3" "frame base2 base3" "flagged g base3 = flagged g base2" for g
    using set_event_inv [OF gt(2), of ?g e] nt gt(4) unfolding base3_def by (simp_all add: fixed_fields_def base_ok_def)
  have fr3: "frame base base3" using fr2 b3(2) by (rule frame_trans)
  have t3: "ev_timeout (evmem base3 e) = ?d" by (simp add: base3_def)
  have cls: "is_common_timeout ?d base3 = ?c" "tv_fits base3 ?d"
    using deadline_class [OF tn tv(1), of absolute] same_class(1) [of ?d tv base] frame_common [OF fr3] frame_fits [OF fr3]
    by simp_all
  have fr1: "frame base0 base1" "untouched {e} base0 base1" "finite (on_heap base0)" "base_inv (flagged EVLIST_INSERTED base0) base0"
    "e \<notin> flagged EVLIST_TIMEOUT base1"
    using b1(2) b0(1) heap_count(3) [of _ base0] by (auto simp: step_ok_def base_ok_def flagged_def)
  have same0: "on_heap base0 = on_heap base"
    using frame_common [OF b0(2)] b0(3) by (auto simp: on_heap_def base0_def f_def)
  have room: "?c \<or> mh_n (timeheap base3) < mh_a (timeheap base3)"
  proof (cases ?c)
    case False
    have "card (on_heap base1) < mh_a (timeheap base)"
    proof (cases "e \<in> on_heap base")
      case True
      then have "0 < card (on_heap base)" using fr1(3) same0 by (auto simp: card_gt_0_iff)
      then show ?thesis
        using on_heap_card [OF fr1(2,1,5,3)] heap_count(1,2) [OF inv] True same0 by simp
    next
      case False
      with \<open>\<not> ?c\<close> have "mh_n (timeheap base) < mh_a (timeheap base)" using tv(2) by (simp add: has_room_def)
      then show ?thesis
        using on_heap_card [OF fr1(2,1,5,3)] heap_count(1,2) [OF inv] False same0 by simp
    qed
    then show ?thesis
      using heap_count(1) [OF inv1] b1(2) b0(4) gt(6) by (simp add: base3_def step_ok_def)
  qed simp
  have "e \<notin> flagged EVLIST_TIMEOUT base3" "addable base3 e" using nt b3(3) e addable_frame [OF fr3] by simp_all
  then have "runs (event_queue_insert (heap_realloc p) base3 e EVLIST_TIMEOUT) (step_ok e (insert EVLIST_TIMEOUT) base3)"
    by (rule queue_timeout [OF b3(1)]) (use tv(3) cls room re t3 frame_timers [OF fr3] in simp_all)
  then obtain base4 where
    b4: "event_queue_insert (heap_realloc p) base3 e EVLIST_TIMEOUT = Inr base4" "step_ok e (insert EVLIST_TIMEOUT) base3 base4"
    by (rule runsE)
  show thesis
  proof (rule that)
    show "add_unschedule (if ?io then set_event e (\<lambda>ev. ev\<lparr>ev_io_timeout := tv\<rparr>) base else base) e = Inr (n, base1)"
      using b1(1) by (simp add: base0)
    show "gettime p base1 = (now, base2)" by (rule g)
    show "event_queue_insert (heap_realloc p) (set_event e ?g base2) e EVLIST_TIMEOUT = Inr base4"
      using b4(1) by (simp add: base3_def)
    show "is_common_timeout tv base2 = ?c" by (rule frame_common [OF fr2])
    have f: "ev_flags (evmem base0 e) = ev_flags (evmem base e)" "ev_res (evmem base0 e) = ev_res (evmem base e)"
      "ev_closure (evmem base0 e) = ev_closure (evmem base e)" by (simp_all add: base0_def f_def)
    have flags: "ev_flags (evmem base4 e) = timed_flags (evmem base e)"
      using b4(2) b1(2) gt(5) f by (auto simp: step_ok_def timed_flags_def timed_out_def base3_def)
    have 01: "same_event (evmem base0 x) (evmem base1 x)" for x using b1(2) by (cases "x = e") (simp_all add: step_ok_def untouched_def)
    have 34: "same_event (evmem base3 x) (evmem base4 x)" for x using b4(2) by (cases "x = e") (simp_all add: step_ok_def untouched_def)
    have u: "untouched {e} base base4"
      unfolding untouched_def
    proof (intro allI impI)
      fix x assume "x \<notin> {e}"
      then have "evmem base0 x = evmem base x" "evmem base3 x = evmem base1 x"
        using gt(5) by (simp_all add: base0_def base3_def)
      with 01 [of x] 34 [of x] \<open>x \<notin> {e}\<close> b1(2) b4(2)
      show "same_event (evmem base x) (evmem base4 x) \<and> ev_flags (evmem base4 x) = ev_flags (evmem base x)"
        by (auto simp: step_ok_def untouched_def intro: same_event_trans)
    qed
    have "rescheduled (fst (gettime p base)) tv absolute base (evmem base e) (evmem base4 e)"
      unfolding rescheduled_def same_event_fields [OF 34 [of e]] time
      using tn gt(5) same_event_fields(2,3,4,6) [OF 01 [of e]] by (auto simp: base3_def base0_def f_def)
    moreover have "flagged f base4 = flagged f base" if "f \<notin> queue_flags" for f
      by (rule step_marks [OF u _ that]) (auto simp: flags timed_flags_def queue_flags_def)
    moreover have "base_ok base4" "frame base base4"
      using b4(2) fr3 by (auto simp: step_ok_def intro: frame_trans)
    ultimately show "timed (fst (gettime p base)) {} e tv absolute base base4" using u flags by (simp add: timed_def scheduled_def)
  qed
qed

lemma scheduled_refl: "base_ok base \<Longrightarrow> scheduled T base base"
  by (simp add: scheduled_def)

lemma scheduled_mono: "scheduled S a b \<Longrightarrow> S \<subseteq> T \<Longrightarrow> scheduled T a b"
  unfolding scheduled_def using untouched_mono by blast

lemma scheduled_trans: "scheduled T a b \<Longrightarrow> scheduled T b c \<Longrightarrow> scheduled T a c"
  unfolding scheduled_def by (auto intro: frame_trans untouched_trans)

lemma timed_scheduled:
  assumes "timed now S e tv absolute base base'" "scheduled T base' base''" "e \<notin> T" "S \<subseteq> T"
  shows "timed now T e tv absolute base base''"
proof -
  have se: "same_event (evmem base' e) (evmem base'' e)" "ev_flags (evmem base'' e) = ev_flags (evmem base' e)"
    using assms(2,3) by (simp_all add: scheduled_def untouched_def)
  have "scheduled (insert e S) base base'" using assms(1) by (simp add: timed_def)
  then have "scheduled (insert e T) base base'" by (rule scheduled_mono) (use assms(4) in auto)
  moreover have "scheduled (insert e T) base' base''" by (rule scheduled_mono [OF assms(2)]) auto
  ultimately have "scheduled (insert e T) base base''" by (rule scheduled_trans)
  with assms(1) se(2) show ?thesis unfolding timed_def rescheduled_def same_event_fields [OF se(1)] by simp
qed

text \<open>What is asked of \<open>schedule\<close>: it gets a list of common timeouts and its first event.\<close>

definition schedules :: "('b event_base \<Rightarrow> common_timeout_list \<Rightarrow> nat \<Rightarrow> 'b event_base exec) \<Rightarrow> nat set \<Rightarrow> 'b event_base \<Rightarrow> bool" where
  "schedules schedule T base \<longleftrightarrow> (\<forall>b ctl head. base_ok b \<longrightarrow> frame base b \<longrightarrow> ctl \<in> set (common_timeout_queues b)
     \<longrightarrow> head \<in> flagged EVLIST_TIMEOUT b \<longrightarrow> is_common_timeout (ev_timeout (evmem b head)) b
     \<longrightarrow> runs (schedule b ctl head) (scheduled T b))"

lemma add_timeout_runs:
  assumes ok: "base_ok base" and e: "addable base e" and clock: "clock_ok p" and re: "realloc_ok (heap_realloc p)"
    and tv: "tv_fits base tv" "has_room base e tv" "e \<in> timer_events base \<Longrightarrow> \<not> is_common_timeout tv base"
    and sched: "is_common_timeout tv base \<Longrightarrow> schedules schedule T base" "e \<notin> T"
  shows "runs (add_timeout p schedule base e tv absolute) (\<lambda>(n, base'). timed (fst (gettime p base)) T e tv absolute base base')"
proof -
  let ?io = "ev_closure (evmem base e) = EV_CLOSURE_PERSIST \<and> \<not> absolute" and ?c = "is_common_timeout tv base"
  obtain n base1 now base2 base4 where
    steps: "add_unschedule (if ?io then set_event e (\<lambda>ev. ev\<lparr>ev_io_timeout := tv\<rparr>) base else base) e = Inr (n, base1)"
    "gettime p base1 = (now, base2)"
    "event_queue_insert (heap_realloc p)
      (set_event e (\<lambda>ev. ev\<lparr>ev_timeout := add_deadline now tv absolute ?c\<rparr>) base2) e EVLIST_TIMEOUT = Inr base4"
    "is_common_timeout tv base2 = ?c" "timed (fst (gettime p base)) {} e tv absolute base base4"
    by (rule timer_insert [OF ok e clock re tv])
  let ?ctl = "get_common_timeout_list base4 (ev_timeout (evmem base4 e))"
  have run: "add_timeout p schedule base e tv absolute =
      (if ?c then bindE (if ctl_events ?ctl \<noteq> [] \<and> e = hd (ctl_events ?ctl) then schedule base4 ?ctl e else Inr base4)
          (\<lambda>base. Inr (n, base))
       else Inr (n \<or> elt_is_top base4 e, base4))"
    by (simp add: add_timeout_def Let_def steps(1,2,3,4))
  show ?thesis
  proof (cases ?c)
    case False
    from timed_scheduled [OF steps(5) _ sched(2)] steps(5) False show ?thesis
      by (auto simp: run timed_def scheduled_def intro: scheduled_refl)
  next
    case True
    obtain now' where "tv_ok now'" "ev_timeout (evmem base4 e) = add_deadline now' tv absolute ?c"
      using steps(5) by (auto simp: timed_def rescheduled_def)
    moreover have fr: "frame base base4" "base_ok base4" using steps(5) by (simp_all add: timed_def scheduled_def)
    ultimately have c4: "is_common_timeout (ev_timeout (evmem base4 e)) base4"
      using deadline_class(1) [OF _ tv(1), of now' absolute] same_class(1) True frame_common [OF fr(1)] by metis
    have "e \<in> flagged EVLIST_TIMEOUT base4" using steps(5) by (simp add: timed_def timed_flags_def flagged_def)
    moreover have "?ctl \<in> set (common_timeout_queues base4)"
      using common_idx [OF c4] by (simp add: get_common_timeout_list_def)
    ultimately have "runs (schedule base4 ?ctl e) (scheduled T base4)"
      using sched(1) True fr c4 by (simp add: schedules_def)
    then have "runs (if ctl_events ?ctl \<noteq> [] \<and> e = hd (ctl_events ?ctl) then schedule base4 ?ctl e else Inr base4) (scheduled T base4)"
      using fr(2) by (auto intro: scheduled_refl)
    with True timed_scheduled [OF steps(5) _ sched(2)] show ?thesis
      by (auto simp: run runs_bindE elim!: runs_mono)
  qed
qed

section \<open>\<open>event_add\<close>\<close>

text \<open>
  Adding either fails with -1 and changes nothing, or it gives 0; then the event waits for its socket or signal
  unless it was waiting or active, and waits for its timeout if there is one.
\<close>

definition watch_flags :: "event \<Rightarrow> evlist_flag set" where
  "watch_flags ev = (if to_watch ev then insert EVLIST_INSERTED (ev_flags ev) else ev_flags ev)"

definition added :: "timeval \<Rightarrow> nat set \<Rightarrow> nat \<Rightarrow> timeval option \<Rightarrow> bool \<Rightarrow> int \<Rightarrow> 'b event_base \<Rightarrow> 'b event_base \<Rightarrow> bool" where
  "added now T e tv absolute r base base' \<longleftrightarrow>
     (if r = -1 then scheduled {} base base'
      else r = 0 \<and> scheduled (insert e T) base base'
        \<and> (case tv of None \<Rightarrow> ev_flags (evmem base' e) = watch_flags (evmem base e) \<and> same_event (evmem base e) (evmem base' e)
           | Some tv \<Rightarrow> ev_flags (evmem base' e) = insert EVLIST_TIMEOUT
                 (watch_flags (evmem base e) - (if timed_out (evmem base e) then {EVLIST_ACTIVE} else {}))
               \<and> rescheduled now tv absolute base (evmem base e) (evmem base' e)))"

text \<open>
  The present time of \<open>event_add\<close>: it is looked up when the backend has been asked to watch the event, in the
  cache of the base or on the clock.
\<close>

definition add_time :: "('b, 'p) loop_platform_scheme \<Rightarrow> 'b event_base \<Rightarrow> nat \<Rightarrow> timeval option \<Rightarrow> timeval" where
  "add_time p base e tv =
     (case add_watch p (snd (add_reserve (heap_realloc p) base e tv)) e of
        Inl _ \<Rightarrow> tv_cache base
      | Inr (_, _, base) \<Rightarrow> fst (gettime p base))"

text \<open>What a user has to grant: a place in the heap for an event that leaves the list of a common timeout.\<close>

definition room_for :: "'b event_base \<Rightarrow> nat \<Rightarrow> timeval \<Rightarrow> bool" where
  "room_for base e tv \<longleftrightarrow> is_common_timeout tv base \<or> (\<forall>i. e \<notin> on_list i base) \<or> mh_n (timeheap base) < mh_a (timeheap base)"

lemma reserve_heap:
  assumes "realloc_ok mm_realloc" "heap_ok (s, ev)" "mh_n s < 2 ^ 29"
    and run: "min_heap_reserve mm_realloc s (mh_n s + 1) = (q, s')"
  shows "heap_ok (s', ev)" "heap_members s' = heap_members s" "mh_n s' = mh_n s" "mh_a s \<le> mh_a s'"
    "q \<noteq> -1 \<Longrightarrow> mh_n s' < mh_a s'"
proof -
  have h: "mh_n s \<le> mh_a s" "length (mh_p s) = mh_a s" using assms(2) by (simp_all add: heap_ok_def)
  have "heap_ok (s', ev) \<and> heap_members s' = heap_members s \<and> mh_n s' = mh_n s \<and> mh_a s \<le> mh_a s' \<and> (q \<noteq> -1 \<longrightarrow> mh_n s' < mh_a s')"
  proof (cases "mh_a s < mh_n s + 1")
    case False
    with run assms(2) show ?thesis by (auto simp: min_heap_reserve_def)
  next
    case True
    show ?thesis
    proof (cases "q = -1")
      case True
      with run reserve_room [OF assms(1-3)] assms(2) show ?thesis by auto
    next
      case False
      with run reserve_room [OF assms(1-3)]
      have r: "mh_n s' = mh_n s" "mh_n s < mh_a s'" "length (mh_p s') = mh_a s'" "mh_a s' < 2 ^ 30"
        "\<And>i. i < mh_n s \<Longrightarrow> mh_p s' ! i = mh_p s ! i" by auto
      have "take (mh_n s) (mh_p s') = take (mh_n s) (mh_p s)"
        by (rule nth_take_lemma) (use r h in auto)
      moreover have "placed_but ev (mh_p s') (mh_n s) (mh_n s)" "heap_by (due ev) (mh_p s') (mh_n s)"
        using assms(2) r(5) by (auto simp: heap_ok_def placed_but_def heap_by_def up_def)
      ultimately show ?thesis using r True h by (simp add: heap_ok_def heap_members_def)
    qed
  qed
  then show "heap_ok (s', ev)" "heap_members s' = heap_members s" "mh_n s' = mh_n s" "mh_a s \<le> mh_a s'"
    "q \<noteq> -1 \<Longrightarrow> mh_n s' < mh_a s'" by auto
qed

lemma reserve_ok:
  assumes ok: "base_ok base" and re: "realloc_ok mm_realloc" and run: "add_reserve mm_realloc base e tv = (r, base')"
  shows "scheduled {} base base'" "evmem base' = evmem base" "timer_events base' = timer_events base"
    "r \<Longrightarrow> tv = Some t \<Longrightarrow> room_for base e t \<Longrightarrow> has_room base' e t"
proof -
  let ?h = "timeheap base"
  have h: "heap_ok (?h, evmem base)" "heap_members ?h = on_heap base" "mh_n ?h < 2 ^ 29"
    using ok heap_size [of base] by (simp_all add: base_ok_def base_inv_def queues_ok_def timeouts_ok_def)
  have one: "addz 1 (min_heap_size ?h) = mh_n ?h + 1"
    using h(3) by (simp add: addz_exact min_heap_size_def SIZE_MOD_def)
  obtain h' where b': "base' = base\<lparr>timeheap := h'\<rparr>" "heap_ok (h', evmem base)" "heap_members h' = on_heap base" "mh_n h' = mh_n ?h"
    "mh_a ?h \<le> mh_a h'" "r \<Longrightarrow> tv \<noteq> None \<Longrightarrow> e \<notin> flagged EVLIST_TIMEOUT base \<Longrightarrow> mh_n h' < mh_a h'"
  proof (cases "tv \<noteq> None \<and> EVLIST_TIMEOUT \<notin> ev_flags (evmem base e)")
    case True
    obtain q h' where m: "min_heap_reserve mm_realloc ?h (mh_n ?h + 1) = (q, h')" by fastforce
    with run True one have "base' = base\<lparr>timeheap := h'\<rparr>" "r = (q \<noteq> -1)" by (auto simp: add_reserve_def)
    with that [of h'] reserve_heap [OF re h(1,3) m] h(2) show ?thesis by simp
  next
    case False
    with run have "base' = base\<lparr>timeheap := ?h\<rparr>" by (auto simp: add_reserve_def)
    from that [OF this h(1,2)] False show ?thesis by (auto simp: flagged_def)
  qed
  show "evmem base' = evmem base" "timer_events base' = timer_events base" by (simp_all add: b'(1) timer_events_def)
  have fl: "flagged f base' = flagged f base" for f by (simp add: b'(1) flagged_def)
  have oh: "on_heap base' = on_heap base" "on_list i base' = on_list i base" for i
    by (simp_all add: b'(1) on_heap_def on_list_def flagged_def is_common_timeout_def)
  note fl' = fl [unfolded b'(1)] and oh' = oh [unfolded b'(1)]
  have "queues_ok base'"
    using ok b'(2,3) unfolding b'(1) base_ok_def base_inv_def queues_ok_def active_ok_def timeouts_ok_def list_ok_def
      counts_ok_def counted_def fl' oh' by simp
  moreover have "evmaps_ok ins base' = evmaps_ok ins base" "watch_ok base' = watch_ok base" "pri_ok base' = pri_ok base"
    "timer_events base' = timer_events base" "timer_ok base' x = timer_ok base x" "defer_ok base' = defer_ok base"
    "times_ok base' = times_ok base" "tv_cache base' = tv_cache base" "event_tv base' = event_tv base" for ins x
    unfolding b'(1) evmaps_ok_def watch_ok_def pri_ok_def timer_events_def timer_ok_def defer_ok_def times_ok_def
      tv_fits_def is_common_timeout_def fl' oh' by simp_all
  ultimately have "base_ok base'" using ok by (simp add: base_ok_def base_inv_def fl)
  then show "scheduled {} base base'"
    by (simp add: scheduled_def untouched_def fl) (simp add: b'(1) frame_def loop_fields_def ctl_info_def)
  show "has_room base' e t" if "r" "tv = Some t" "room_for base e t"
  proof (cases "e \<in> flagged EVLIST_TIMEOUT base")
    case True
    then have "is_common_timeout t base \<or> e \<in> on_heap base \<or> mh_n ?h < mh_a ?h"
      using that(3) by (auto simp: room_for_def on_heap_def on_list_def)
    with oh(1) b'(4,5) show ?thesis by (auto simp: has_room_def b'(1) is_common_timeout_def)
  qed (use that b'(6) in \<open>simp add: has_room_def b'(1)\<close>)
qed

lemma step_scheduled:
  assumes "step_ok e g base base'" "\<And>F. g F - queue_flags = F - queue_flags"
  shows "scheduled {e} base base'"
  using assms(1) step_marks [of e base base'] assms(2) by (simp add: step_ok_def scheduled_def)

lemma step_same:
  assumes "step_ok e g base base'" "g (ev_flags (evmem base e)) = ev_flags (evmem base e)"
  shows "scheduled {} base base'"
proof -
  have "ev_flags (evmem base' x) = ev_flags (evmem base x) \<and> same_event (evmem base x) (evmem base' x)" for x
    using assms by (cases "x = e") (simp_all add: step_ok_def untouched_def)
  with assms(1) show ?thesis by (simp add: step_ok_def scheduled_def untouched_def flagged_def)
qed

lemma scheduled_notify: "scheduled T a b \<Longrightarrow> scheduled T a (if c then evthread_notify_base b else b)"
  by (auto simp: scheduled_def base_ok_def untouched_def intro: frame_trans)

lemma added_notify: "added now T e tv absolute r a b \<Longrightarrow> added now T e tv absolute r a (if c then evthread_notify_base b else b)"
  using scheduled_notify [of _ a b c] by (cases "r = -1"; cases c) (simp_all add: added_def split: option.splits)

lemma add_time_cases:
  assumes ok: "base_ok base" and e: "addable base e" and clock: "clock_ok p" and re: "realloc_ok (heap_realloc p)"
  shows "time_ok (add_time p base e tv)"
    and "tv_sec (tv_cache base) \<noteq> 0 \<Longrightarrow> add_time p base e tv = tv_cache base"
    and "\<not> watches (evmem base e) \<Longrightarrow> add_time p base e tv = fst (gettime p base)"
proof -
  obtain q base1 where rs: "add_reserve (heap_realloc p) base e tv = (q, base1)" by fastforce
  note r = reserve_ok [OF ok re rs]
  have b1: "base_ok base1" "frame base base1" using r(1) by (simp_all add: scheduled_def)
  have a1: "addable base1 e" using e addable_frame [OF b1(2)] by simp
  from add_watch_runs [OF b1(1) this, of p] obtain res n base2 where
    w: "add_watch p base1 e = Inr (res, n, base2)" "frame base1 base2" "base_ok base2"
    by (auto simp: step_ok_def elim!: runsE)
  have t: "add_time p base e tv = fst (gettime p base2)" by (simp add: add_time_def rs w(1))
  obtain now base3 where g: "gettime p base2 = (now, base3)" by fastforce
  have "base_inv (flagged EVLIST_INSERTED base2) base2" using w(3) by (simp add: base_ok_def)
  from gettime_ok(1) [OF clock this g] g show "time_ok (add_time p base e tv)" by (simp add: t)
  have tc: "tv_cache base2 = tv_cache base"
    using frame_fields [OF frame_trans [OF b1(2) w(2)]] by simp
  show "add_time p base e tv = tv_cache base" if "tv_sec (tv_cache base) \<noteq> 0"
    using that by (simp add: t gettime_def tc)
  show "add_time p base e tv = fst (gettime p base)" if "\<not> watches (evmem base e)"
  proof -
    have "\<not> to_watch (evmem base1 e)" using that r(2) by (simp add: to_watch_def)
    then have "base2 = base1" using w(1) by (auto simp: add_watch_def to_watch_def watches_def Let_def)
    moreover have "evbase base1 = evbase base" using rs by (auto simp: add_reserve_def split: if_splits prod.splits)
    ultimately show ?thesis using t tc gettime_cong [of base2 base p] by simp
  qed
qed

lemma event_add_body_runs:
  assumes ok: "base_ok base" and e: "addable base e" and clock: "clock_ok p" and re: "realloc_ok (heap_realloc p)"
    and tv: "\<And>t. tv = Some t \<Longrightarrow> tv_fits base t \<and> room_for base e t \<and> (e \<in> timer_events base \<longrightarrow> \<not> is_common_timeout t base)
      \<and> (is_common_timeout t base \<longrightarrow> schedules schedule T base)" and T: "e \<notin> T"
  shows "runs (event_add_body p schedule base e tv absolute) (\<lambda>(r, base'). added (add_time p base e tv) T e tv absolute r base base')"
proof -
  obtain q base1 where rs: "add_reserve (heap_realloc p) base e tv = (q, base1)" by fastforce
  note r = reserve_ok [OF ok re rs]
  show ?thesis
  proof (cases q)
    case False
    with rs r(1) show ?thesis by (simp add: event_add_body_def added_def)
  next
    case True
    have b1: "base_ok base1" "frame base base1" using r(1) by (simp_all add: scheduled_def)
    have "addable base1 e" using e addable_frame [OF b1(2)] by simp
    from add_watch_runs [OF b1(1) this, of p] obtain res n base2 where w: "add_watch p base1 e = Inr (res, n, base2)" "res \<in> {-1, 0}"
      "step_ok e (\<lambda>F. if res = 0 \<and> to_watch (evmem base1 e) then insert EVLIST_INSERTED F else F) base1 base2"
      "timeheap base2 = timeheap base1"
      by (auto elim!: runsE)
    have time: "add_time p base e tv = fst (gettime p base2)" by (simp add: add_time_def rs w(1))
    have run: "event_add_body p schedule base e tv absolute =
        bindE (case tv of
                 Some tv \<Rightarrow> if res \<noteq> -1 then bindE (add_timeout p schedule base2 e tv absolute) (\<lambda>(m, base). Inr (n \<or> m, base))
                            else Inr (n, base2)
               | None \<Rightarrow> Inr (n, base2)) (\<lambda>(notify, base).
        Inr (res, if res \<noteq> -1 \<and> notify \<and> need_notify base then evthread_notify_base base else base))"
      using rs True w(1) by (simp add: event_add_body_def)
    have b2: "base_ok base2" "frame base base2" "same_event (evmem base e) (evmem base2 e)"
      "res = 0 \<Longrightarrow> ev_flags (evmem base2 e) = watch_flags (evmem base e)"
      using w(3) b1 r(2) by (auto simp: step_ok_def watch_flags_def intro: frame_trans)
    have s2: "scheduled {e} base base2"
    proof -
      have "scheduled {e} base1 base2" by (rule step_scheduled [OF w(3)]) (auto simp: queue_flags_def)
      then show ?thesis using scheduled_trans scheduled_mono [OF r(1), of "{e}"] by blast
    qed
    show ?thesis
    proof (cases "res = -1")
      case True
      have "scheduled {} base1 base2" by (rule step_same [OF w(3)]) (simp add: True)
      with r(1) have "scheduled {} base base2" by (rule scheduled_trans)
      with True show ?thesis by (auto simp: run added_def split: option.splits)
    next
      case False
      with w(2) have res: "res = 0" by simp
      show ?thesis
      proof (cases tv)
        case None
        have "added (add_time p base e tv) T e tv absolute 0 base base2"
          using None b2(3) b2(4) [OF res] scheduled_mono [OF s2, of "insert e T"] by (simp add: added_def)
        from added_notify [OF this] None res show ?thesis unfolding run by simp
      next
        case (Some t)
        have c: "is_common_timeout t base2 = is_common_timeout t base" "tv_fits base2 t = tv_fits base t"
          "timer_events base2 = timer_events base" "addable base2 e = addable base e"
          using frame_common [OF b2(2)] frame_fits [OF b2(2)] frame_timers [OF b2(2)] addable_frame [OF b2(2)] by simp_all
        have room1: "has_room base1 e t" using r(4) [OF True Some] tv [OF Some] by simp
        have room: "has_room base2 e t"
          using room1 w(3,4) frame_common [OF b1(2)] c(1) frame_common [OF b2(2)] same_event_fields(9) [OF b2(3)] r(2)
          by (auto simp: has_room_def on_heap_def flagged_def step_ok_def split: if_splits)
        have sch: "schedules schedule T base2" if "is_common_timeout t base2"
          using tv [OF Some] that c(1) b2(2) unfolding schedules_def by (blast intro: frame_trans)
        have "runs (add_timeout p schedule base2 e t absolute) (\<lambda>(n, base'). timed (fst (gettime p base2)) T e t absolute base2 base')"
          by (rule add_timeout_runs [OF b2(1) _ clock re]) (use e c tv [OF Some] room sch T in simp_all)
        then obtain m base3 where b3: "add_timeout p schedule base2 e t absolute = Inr (m, base3)" "timed (fst (gettime p base2)) T e t absolute base2 base3"
          by (auto elim!: runsE)
        have to: "timed_out (evmem base2 e) = timed_out (evmem base e)"
          using b2(4) [OF res] same_event_fields(6) [OF b2(3)] by (auto simp: timed_out_def watch_flags_def)
        have "rescheduled (add_time p base e tv) t absolute base (evmem base e) (evmem base3 e)"
          using b3(2) unfolding timed_def rescheduled_def same_event_fields [OF b2(3)] c(1) time by blast
        moreover have "scheduled (insert e T) base base3"
          using scheduled_trans [OF scheduled_mono [OF s2, of "insert e T"]] b3(2) by (simp add: timed_def)
        ultimately have "added (add_time p base e tv) T e tv absolute 0 base base3"
          using Some b3(2) b2(4) [OF res] to by (simp add: added_def timed_def timed_flags_def)
        from added_notify [OF this] Some res b3(1) show ?thesis unfolding run by simp
      qed
    qed
  qed
qed

text \<open>The timer of a list of common timeouts has a timeout that is not common.\<close>

lemma common_timeout_schedule_runs:
  assumes clock: "clock_ok p" and re: "realloc_ok (heap_realloc p)"
  shows "schedules (common_timeout_schedule p) (timer_events base) base"
  unfolding schedules_def
proof (intro allI impI)
  fix b ctl head
  assume b: "base_ok b" "frame base b" "ctl \<in> set (common_timeout_queues b)" "head \<in> flagged EVLIST_TIMEOUT b"
    and c: "is_common_timeout (ev_timeout (evmem b head)) b"
  let ?t = "and_usec (ev_timeout (evmem b head)) MICROSECONDS_MASK" and ?e = "ctl_timeout_event ctl"
  have te: "?e \<in> timer_events b" using b(3) by (simp add: timer_events_def)
  then have tm: "timer_ok b ?e" and "tv_fits b (ev_timeout (evmem b head))"
    using b(1,4) by (simp_all add: base_ok_def base_inv_def times_ok_def)
  then have t: "tv_ok ?t" "\<not> is_common_timeout ?t b" using c tv_ok_not_common by (auto simp: tv_fits_def)
  have ad: "addable b ?e" using tm by (simp add: timer_ok_def addable_def watches_sig_def)
  have "runs (event_add_body p (\<lambda>_ _ _. Inl Diverges) b ?e (Some ?t) True) (\<lambda>(r, b'). added (add_time p b ?e (Some ?t)) {} ?e (Some ?t) True r b b')"
    by (rule event_add_body_runs [OF b(1) ad clock re]) (use t tm in \<open>auto simp: tv_fits_def room_for_def timer_ok_def\<close>)
  moreover have "scheduled (timer_events base) b b'" if "added now {} ?e (Some ?t) True r b b'" for now r b'
  proof -
    have "scheduled {?e} b b'" using that by (auto simp: added_def intro: scheduled_mono split: if_splits)
    then show ?thesis by (rule scheduled_mono) (use te frame_timers [OF b(2)] in simp)
  qed
  ultimately show "runs (common_timeout_schedule p b ctl head) (scheduled (timer_events base) b)"
    by (auto simp: common_timeout_schedule_def runs_bindE elim!: runs_mono)
qed

text \<open>What a user has to know to add an event.\<close>

definition can_add :: "'b event_base \<Rightarrow> nat \<Rightarrow> timeval option \<Rightarrow> bool" where
  "can_add base e tv \<longleftrightarrow> addable base e \<and> e \<notin> timer_events base
     \<and> (\<forall>t. tv = Some t \<longrightarrow> tv_fits base t \<and> room_for base e t)"

lemma event_add_runs:
  assumes "base_ok base" "clock_ok p" "realloc_ok (heap_realloc p)" "can_add base e tv"
  shows "runs (event_add_internal p base e tv absolute) (\<lambda>(r, base'). added (add_time p base e tv) (timer_events base) e tv absolute r base base')"
  unfolding event_add_internal_def
  by (rule event_add_body_runs [OF assms(1) _ assms(2,3)])
     (use assms(4) common_timeout_schedule_runs [OF assms(2,3)] in \<open>auto simp: can_add_def\<close>)

end
