(* ===== verification/Event_Loop.thy ===== *)
theory Event_Loop
  imports Event_Ops
begin

text \<open>
  The event loop, \<open>event.c\<close>: timeouts, common timeouts, running active events and deferred callbacks,
  and \<open>event_base_loop\<close>. One thread runs the loop; what other threads do while the lock is released is part
  of what callbacks and the backend do.
\<close>

section \<open>The surroundings\<close>

text \<open>
  What the loop calls: \<open>evsig_set_base\<close> if signals have been added, the \<open>dispatch\<close> of the backend, the
  callbacks of users by number and the deferred callbacks. \<open>new_event\<close> is \<open>mm_calloc\<close> of a structure with
  an event in it, \<open>has_memory\<close> whether another allocation of that size succeeds.
\<close>

record 'b loop_env = "'b loop_platform" +
  sig_set_base :: "'b \<Rightarrow> 'b"
  dispatch :: "'b event_base \<Rightarrow> timeval option \<Rightarrow> (int \<times> 'b event_base) exec"
  user_callback :: "nat \<Rightarrow> int \<Rightarrow> ev_what set \<Rightarrow> nat \<Rightarrow> 'b event_base \<Rightarrow> 'b event_base exec"
  deferred_callback :: "nat \<Rightarrow> 'b event_base \<Rightarrow> 'b event_base exec"
  new_event :: "'b event_base \<Rightarrow> nat option"
  has_memory :: "nat \<Rightarrow> bool"

text \<open>The memory \<open>mm_calloc\<close> gives is zero.\<close>

definition zero_event :: event where
  "zero_event = \<lparr>min_heap_idx = 0, ev_fd = 0, ev_io_timeout = evutil_timerclear, ev_ncalls = 0, ev_pncalls = False,
     ev_events = {}, ev_res = {}, ev_flags = {}, ev_pri = 0, ev_closure = EV_CLOSURE_NONE,
     ev_timeout = evutil_timerclear, ev_callback = User_Callback 0, ev_arg = 0, ev_base = False\<rparr>"

section \<open>Priorities\<close>

definition EVENT_MAX_PRIORITIES :: int where
  "EVENT_MAX_PRIORITIES = 256"

definition event_base_priority_init :: "('b, 'p) loop_env_scheme \<Rightarrow> 'b event_base \<Rightarrow> int \<Rightarrow> int \<times> 'b event_base" where
  "event_base_priority_init p base npriorities =
     (if N_ACTIVE_CALLBACKS base \<noteq> 0 \<or> npriorities < 1 \<or> npriorities \<ge> EVENT_MAX_PRIORITIES then (-1, base)
      else if npriorities = int (length (activequeues base)) then (0, base)
      else if \<not> has_memory p (nat npriorities * 8) then (-1, base\<lparr>activequeues := []\<rparr>)
      else (0, base\<lparr>activequeues := replicate (nat npriorities) []\<rparr>))"

text \<open>
  A new base: \<open>mm_calloc\<close> gives zeros, \<open>b\<close> is the state of the backend that has been chosen, \<open>mem\<close> the memory
  of events. \<open>need_notify\<close> is false: no loop runs.
\<close>

definition event_base_new :: "('b, 'p) loop_env_scheme \<Rightarrow> events \<Rightarrow> 'b \<Rightarrow> 'b event_base option" where
  "event_base_new p mem b =
     (let base = \<lparr>evbase = b, evio = (\<lambda>_. None), sigmap = [], evmem = mem, virtual_event_count = 0, event_count = 0,
             event_count_active = 0, event_gotterm = False, event_break = False, event_continue = False,
             event_running_priority = 0, running_loop = False, activequeues = [], common_timeout_queues = [],
             n_common_timeouts_allocated = 0, defer_list = [], defer_active_count = 0, cb_queued = (\<lambda>_. False),
             eventqueue = [], event_tv = evutil_timerclear, timeheap = min_heap_ctor, tv_cache = evutil_timerclear,
             current_event = None, closure_ncalls = 0, need_notify = False, is_notify_pending = False,
             has_notify_fn = False, notifications = 0\<rparr>;
          base = (case gettime p base of (tv, base) \<Rightarrow> base\<lparr>event_tv := tv\<rparr>);
          base = evmap_signal_initmap (evmap_io_initmap base)
      in case event_base_priority_init p base 1 of
           (r, base) \<Rightarrow> if r < 0 then None else Some base)"

section \<open>Timeouts\<close>

text \<open>The time to wait: \<open>None\<close> if there is no timeout.\<close>

definition timeout_next ::
    "('b, 'p) loop_env_scheme \<Rightarrow> 'b event_base \<Rightarrow> (int \<times> timeval option \<times> 'b event_base) exec" where
  "timeout_next p base =
     bindE (min_heap_top (timeheap base)) (\<lambda>ev.
     case ev of
       None \<Rightarrow> Inr (0, None, base)
     | Some e \<Rightarrow>
         (case gettime p base of
            (now, base) \<Rightarrow>
              if evutil_timercmp_le (ev_timeout (evmem base e)) now then Inr (0, Some evutil_timerclear, base)
              else let tv = evutil_timersub (ev_timeout (evmem base e)) now in
                   if sint (tv_sec tv) < 0 \<or> sint (tv_usec tv) < 0 then Inl Assert_Failed
                   else Inr (0, Some tv, base)))"

text \<open>
  Time has gone back by \<open>off\<close>: all timeouts are moved. A difference of seconds that does not fit into a
  \<open>long\<close> is a signed overflow.
\<close>

definition sub_time :: "timeval \<Rightarrow> timeval \<Rightarrow> timeval exec" where
  "sub_time tv off =
     (let sec = sint (tv_sec tv) - sint (tv_sec off) - (if sint (tv_usec tv) < sint (tv_usec off) then 1 else 0)
      in if sec < - (2 ^ 31) \<or> sec \<ge> 2 ^ 31 then Inl Overflow else Inr (evutil_timersub tv off))"

definition correct_heap :: "timeval \<Rightarrow> 'b event_base \<Rightarrow> 'b event_base exec" where
  "correct_heap off base =
     foldE (\<lambda>i base. bindE (heap_slot (mh_p (timeheap base)) i) (\<lambda>e.
                     bindE (sub_time (ev_timeout (evmem base e)) off) (\<lambda>tv.
                     Inr (set_event e (\<lambda>ev. ev\<lparr>ev_timeout := tv\<rparr>) base))))
       [0..<mh_n (timeheap base)] base"

definition correct_event :: "timeval \<Rightarrow> nat \<Rightarrow> nat \<Rightarrow> 'b event_base \<Rightarrow> 'b event_base exec" where
  "correct_event off i e base =
     bindE (sub_time (and_usec (ev_timeout (evmem base e)) MICROSECONDS_MASK) off) (\<lambda>tv.
     Inr (set_event e (\<lambda>ev. ev\<lparr>ev_timeout := or_usec tv (COMMON_TIMEOUT_MAGIC OR push_bit COMMON_TIMEOUT_IDX_SHIFT (of_nat i))\<rparr>)
            base))"

definition correct_lists :: "timeval \<Rightarrow> 'b event_base \<Rightarrow> 'b event_base exec" where
  "correct_lists off base =
     foldE (\<lambda>i base. foldE (correct_event off i) (ctl_events (common_timeout_queues base ! i)) base)
       [0..<length (common_timeout_queues base)] base"

definition timeout_correct :: "('b, 'p) loop_env_scheme \<Rightarrow> 'b event_base \<Rightarrow> 'b event_base exec" where
  "timeout_correct p base =
     (case gettime p base of
        (tv, base) \<Rightarrow>
          if evutil_timercmp_ge tv (event_tv base) then Inr (base\<lparr>event_tv := tv\<rparr>)
          else let off = evutil_timersub (event_tv base) tv in
               bindE (correct_heap off base) (\<lambda>base.
               bindE (correct_lists off base) (\<lambda>base.
               Inr (base\<lparr>event_tv := tv\<rparr>))))"

text \<open>Activating every event whose time has come.\<close>

definition expire :: "('b, 'p) loop_env_scheme \<Rightarrow> 'b event_base \<Rightarrow> nat \<Rightarrow> 'b event_base exec" where
  "expire p base e =
     bindE (event_del_internal p base e) (\<lambda>(_, base). event_active_nolock base e {EV_TIMEOUT} 1)"

definition timeout_process :: "('b, 'p) loop_env_scheme \<Rightarrow> 'b event_base \<Rightarrow> 'b event_base exec" where
  "timeout_process p base =
     (if min_heap_empty (timeheap base) then Inr base
      else case gettime p base of
             (now, base) \<Rightarrow>
               loops (\<lambda>base. bindE (min_heap_top (timeheap base)) (\<lambda>ev.
                 case ev of
                   None \<Rightarrow> Inr (Inr base)
                 | Some e \<Rightarrow> if evutil_timercmp_gt (ev_timeout (evmem base e)) now then Inr (Inr base)
                             else bindE (expire p base e) (\<lambda>base. Inr (Inl base)))) base)"

section \<open>Common timeouts\<close>

text \<open>The callback of the timer of the list with index \<open>i\<close>.\<close>

definition expire_list ::
    "('b, 'p) loop_env_scheme \<Rightarrow> nat \<Rightarrow> timeval \<Rightarrow> 'b event_base \<Rightarrow> (nat option \<times> 'b event_base) exec" where
  "expire_list p i now =
     loops (\<lambda>base.
       case ctl_events (common_timeout_queues base ! i) of
         [] \<Rightarrow> Inr (Inr (None, base))
       | e # _ \<Rightarrow>
           let tv = ev_timeout (evmem base e) in
           if sint (tv_sec tv) > sint (tv_sec now)
              \<or> tv_sec tv = tv_sec now \<and> sint (tv_usec tv AND MICROSECONDS_MASK) > sint (tv_usec now)
           then Inr (Inr (Some e, base))
           else bindE (expire p base e) (\<lambda>base. Inr (Inl base)))"

definition common_timeout_callback :: "('b, 'p) loop_env_scheme \<Rightarrow> nat \<Rightarrow> 'b event_base \<Rightarrow> 'b event_base exec" where
  "common_timeout_callback p i base =
     (if i \<ge> length (common_timeout_queues base) then Inl Out_Of_Bounds
      else case gettime p base of
             (now, base) \<Rightarrow>
               bindE (expire_list p i now base) (\<lambda>(ev, base).
               case ev of
                 None \<Rightarrow> Inr base
               | Some e \<Rightarrow> common_timeout_schedule p base (common_timeout_queues base ! i) e))"

definition MAX_COMMON_TIMEOUTS :: nat where
  "MAX_COMMON_TIMEOUTS = 256"

definition normal_duration :: "'b event_base \<Rightarrow> timeval \<Rightarrow> timeval" where
  "normal_duration base duration =
     (if sint (tv_usec duration) > 1000000
      then let tv = (if is_common_timeout duration base then and_usec duration MICROSECONDS_MASK else duration)
           in Timeval (tv_sec tv + of_int (sint (tv_usec tv) div 1000000)) (of_int (sint (tv_usec tv) mod 1000000))
      else duration)"

text \<open>Whether there is room for another list, after allocation.\<close>

definition grow_queues :: "('b, 'p) loop_env_scheme \<Rightarrow> 'b event_base \<Rightarrow> bool \<times> 'b event_base" where
  "grow_queues p base =
     (if n_common_timeouts_allocated base = length (common_timeout_queues base)
      then let n = (if length (common_timeout_queues base) < 16 then 16 else length (common_timeout_queues base) * 2)
           in if \<not> has_memory p (n * 4) then (False, base) else (True, base\<lparr>n_common_timeouts_allocated := n\<rparr>)
      else (True, base))"

definition new_common_timeout :: "'b event_base \<Rightarrow> timeval \<Rightarrow> nat \<Rightarrow> timeval \<times> 'b event_base" where
  "new_common_timeout base duration e =
     (let n = length (common_timeout_queues base);
          tv = or_usec duration (COMMON_TIMEOUT_MAGIC OR push_bit COMMON_TIMEOUT_IDX_SHIFT (of_nat n));
          base = set_event e (\<lambda>_. zero_event) base;
          base = snd (event_assign base e (-1) {} (Common_Timeout_Callback n) n);
          base = set_event e (\<lambda>ev. ev\<lparr>ev_flags := insert EVLIST_INTERNAL (ev_flags ev)\<rparr>) base;
          base = snd (event_priority_set base e 0)
      in (tv, base\<lparr>common_timeout_queues := common_timeout_queues base
                     @ [\<lparr>ctl_events = [], ctl_duration = tv, ctl_timeout_event = e\<rparr>]\<rparr>))"

definition event_base_init_common_timeout ::
    "('b, 'p) loop_env_scheme \<Rightarrow> 'b event_base \<Rightarrow> timeval \<Rightarrow> (timeval option \<times> 'b event_base) exec" where
  "event_base_init_common_timeout p base duration =
     (let duration = normal_duration base duration in
      case find (\<lambda>ctl. tv_sec duration = tv_sec (ctl_duration ctl)
                       \<and> tv_usec duration = tv_usec (ctl_duration ctl) AND MICROSECONDS_MASK) (common_timeout_queues base) of
        Some ctl \<Rightarrow> if is_common_timeout (ctl_duration ctl) base then Inr (Some (ctl_duration ctl), base) else Inl Assert_Failed
      | None \<Rightarrow>
          if length (common_timeout_queues base) = MAX_COMMON_TIMEOUTS then Inr (None, base)
          else case grow_queues p base of
                 (room, base) \<Rightarrow>
                   if \<not> room then Inr (None, base)
                   else case new_event p base of
                          None \<Rightarrow> Inr (None, base)
                        | Some e \<Rightarrow>
                            (case new_common_timeout base duration e of
                               (tv, base) \<Rightarrow> if is_common_timeout tv base then Inr (Some tv, base) else Inl Assert_Failed))"

section \<open>Running events\<close>

text \<open>
  \<open>event_once_cb\<close> calls what was asked for and forgets the event. The event's memory is freed; the model never
  uses a number again that \<open>new_event\<close> does not give out.
\<close>

fun run_callback ::
    "('b, 'p) loop_env_scheme \<Rightarrow> event_callback \<Rightarrow> nat \<Rightarrow> int \<Rightarrow> ev_what set \<Rightarrow> nat \<Rightarrow> 'b event_base \<Rightarrow> 'b event_base exec" where
  "run_callback p (User_Callback n) e fd res arg base = user_callback p n fd res arg base"
| "run_callback p (Common_Timeout_Callback i) e fd res arg base = common_timeout_callback p i base"
| "run_callback p Loopexit_Callback e fd res arg base = Inr (base\<lparr>event_gotterm := True\<rparr>)"
| "run_callback p (Once_Callback cb cb_arg) e fd res arg base =
     bindE (run_callback p cb e fd res cb_arg base) (\<lambda>base. Inr (event_debug_unassign base e))"

definition call_event :: "('b, 'p) loop_env_scheme \<Rightarrow> 'b event_base \<Rightarrow> nat \<Rightarrow> 'b event_base exec" where
  "call_event p base e =
     (let ev = evmem base e in run_callback p (ev_callback ev) e (ev_fd ev) (ev_res ev) (ev_arg ev) base)"

text \<open>
  While a signal event is called, \<open>ev_pncalls\<close> points to the local variable \<open>closure_ncalls\<close>: deleting the
  event sets it to 0, which ends the loop.
\<close>

definition signal_call :: "('b, 'p) loop_env_scheme \<Rightarrow> nat \<Rightarrow> 'b event_base \<Rightarrow> ('b event_base + 'b event_base) exec" where
  "signal_call p e base =
     (if closure_ncalls base = 0 then Inr (Inr base)
      else let n = closure_ncalls base - 1;
               base = set_event e (\<lambda>ev. ev\<lparr>ev_ncalls := n\<rparr>) (base\<lparr>closure_ncalls := n\<rparr>);
               base = (if n = 0 then set_event e (\<lambda>ev. ev\<lparr>ev_pncalls := False\<rparr>) base else base)
           in bindE (call_event p base e) (\<lambda>base.
              if event_break base
              then Inr (Inr (if closure_ncalls base \<noteq> 0 then set_event e (\<lambda>ev. ev\<lparr>ev_pncalls := False\<rparr>) base else base))
              else Inr (Inl base)))"

definition event_signal_closure :: "('b, 'p) loop_env_scheme \<Rightarrow> 'b event_base \<Rightarrow> nat \<Rightarrow> 'b event_base exec" where
  "event_signal_closure p base e =
     (let n = ev_ncalls (evmem base e);
          base = base\<lparr>closure_ncalls := n\<rparr>;
          base = (if n \<noteq> 0 then set_event e (\<lambda>ev. ev\<lparr>ev_pncalls := True\<rparr>) base else base)
      in loops (signal_call p e) base)"

text \<open>When a persistent event is to run again.\<close>

definition persist_run_at :: "'b event_base \<Rightarrow> event \<Rightarrow> timeval \<Rightarrow> timeval" where
  "persist_run_at base ev now =
     (let common = is_common_timeout (ev_timeout ev) base;
          usec_mask = (if common then tv_usec (ev_io_timeout ev) AND NOT MICROSECONDS_MASK else 0);
          delay = (if common then and_usec (ev_io_timeout ev) MICROSECONDS_MASK else ev_io_timeout ev);
          relative_to = (if EV_TIMEOUT \<in> ev_res ev
                         then if common then and_usec (ev_timeout ev) MICROSECONDS_MASK else ev_timeout ev else now);
          run_at = evutil_timeradd relative_to delay;
          run_at = (if evutil_timercmp_lt run_at now then evutil_timeradd now delay else run_at)
      in or_usec run_at usec_mask)"

definition event_persist_closure :: "('b, 'p) loop_env_scheme \<Rightarrow> 'b event_base \<Rightarrow> nat \<Rightarrow> 'b event_base exec" where
  "event_persist_closure p base e =
     bindE (if evutil_timerisset (ev_io_timeout (evmem base e))
            then if \<not> is_same_common_timeout (ev_timeout (evmem base e)) (ev_io_timeout (evmem base e)) then Inl Assert_Failed
                 else case gettime p base of
                        (now, base) \<Rightarrow>
                          bindE (event_add_internal p base e (Some (persist_run_at base (evmem base e) now)) True)
                            (\<lambda>(_, base). Inr base)
            else Inr base) (\<lambda>base. call_event p base e)"

text \<open>One event of the queue with priority \<open>i\<close>; the count of events that are not internal.\<close>

definition run_closure :: "('b, 'p) loop_env_scheme \<Rightarrow> 'b event_base \<Rightarrow> nat \<Rightarrow> 'b event_base exec" where
  "run_closure p base e =
     (case ev_closure (evmem base e) of
        EV_CLOSURE_SIGNAL \<Rightarrow> event_signal_closure p base e
      | EV_CLOSURE_PERSIST \<Rightarrow> event_persist_closure p base e
      | EV_CLOSURE_NONE \<Rightarrow> call_event p base e)"

definition process_first ::
    "('b, 'p) loop_env_scheme \<Rightarrow> nat \<Rightarrow> int \<times> 'b event_base \<Rightarrow> ((int \<times> 'b event_base) + (int \<times> 'b event_base)) exec" where
  "process_first p i = (\<lambda>(count, base).
     if i \<ge> length (activequeues base) then Inl Out_Of_Bounds
     else case activequeues base ! i of
            [] \<Rightarrow> Inr (Inr (count, base))
          | e # _ \<Rightarrow>
              bindE (if EV_PERSIST \<in> ev_events (evmem base e) then event_queue_remove base e EVLIST_ACTIVE
                     else bindE (event_del_internal p base e) (\<lambda>(_, base). Inr base)) (\<lambda>base.
              let count = (if EVLIST_INTERNAL \<notin> ev_flags (evmem base e) then count + 1 else count) in
              bindE (run_closure p (base\<lparr>current_event := Some e\<rparr>) e) (\<lambda>base.
              let base = base\<lparr>current_event := None\<rparr> in
              Inr (if event_break base then Inr (-1, base)
                   else if event_continue base then Inr (count, base)
                   else Inl (count, base)))))"

definition event_process_active_single_queue ::
    "('b, 'p) loop_env_scheme \<Rightarrow> 'b event_base \<Rightarrow> nat \<Rightarrow> (int \<times> 'b event_base) exec" where
  "event_process_active_single_queue p base i = loops (process_first p i) (0, base)"

text \<open>At most \<open>MAX_DEFERRED\<close> deferred callbacks.\<close>

definition MAX_DEFERRED :: nat where
  "MAX_DEFERRED = 16"

function process_deferred :: "('b, 'p) loop_env_scheme \<Rightarrow> nat \<Rightarrow> 'b event_base \<Rightarrow> (int \<times> 'b event_base) exec" where
  "process_deferred p n base =
     (case defer_list base of
        [] \<Rightarrow> Inr (int n, base)
      | cb # cbs \<Rightarrow>
          bindE (deferred_callback p cb
                   (base\<lparr>cb_queued := (cb_queued base)(cb := False), defer_list := cbs,
                         defer_active_count := defer_active_count base - 1\<rparr>)) (\<lambda>base.
          if event_break base then Inr (-1, base)
          else if n + 1 \<ge> MAX_DEFERRED then Inr (int n + 1, base)
          else process_deferred p (n + 1) base))"
  by pat_completeness auto
termination
  by (relation "measure (\<lambda>(p, n, base). MAX_DEFERRED - n)") auto

declare process_deferred.simps [simp del]

definition event_process_deferred_callbacks :: "('b, 'p) loop_env_scheme \<Rightarrow> 'b event_base \<Rightarrow> (int \<times> 'b event_base) exec" where
  "event_process_deferred_callbacks p base = process_deferred p 0 base"

text \<open>The loop over the priorities: \<open>c\<close> is the count of the last queue that was run.\<close>

definition process_priority ::
    "('b, 'p) loop_env_scheme \<Rightarrow> nat \<times> int \<times> 'b event_base \<Rightarrow> ((nat \<times> int \<times> 'b event_base) + (int \<times> 'b event_base)) exec" where
  "process_priority p = (\<lambda>(i, c, base).
     if i \<ge> length (activequeues base) then Inr (Inr (c, base))
     else if activequeues base ! i \<noteq> []
     then bindE (event_process_active_single_queue p (base\<lparr>event_running_priority := int i\<rparr>) i) (\<lambda>(c, base).
          Inr (if c < 0 \<or> c > 0 then Inr (c, base) else Inl (i + 1, c, base)))
     else Inr (Inl (i + 1, c, base)))"

definition event_process_active :: "('b, 'p) loop_env_scheme \<Rightarrow> 'b event_base \<Rightarrow> (int \<times> 'b event_base) exec" where
  "event_process_active p base =
     bindE (loops (process_priority p) (0, 0, base)) (\<lambda>(c, base).
     if c < 0 then Inr (-1, base\<lparr>event_running_priority := -1\<rparr>)
     else bindE (event_process_deferred_callbacks p base) (\<lambda>(_, base).
          Inr (c, base\<lparr>event_running_priority := -1\<rparr>)))"

section \<open>The loop\<close>

definition event_base_loopbreak :: "'b event_base \<Rightarrow> int \<times> 'b event_base" where
  "event_base_loopbreak base =
     (let base = base\<lparr>event_break := True\<rparr> in
      (if need_notify base \<and> \<not> has_notify_fn base then -1 else 0,
       if need_notify base then evthread_notify_base base else base))"

definition event_base_got_break :: "'b event_base \<Rightarrow> bool" where
  "event_base_got_break base = event_break base"

definition event_base_got_exit :: "'b event_base \<Rightarrow> bool" where
  "event_base_got_exit base = event_gotterm base"

text \<open>\<open>EVLOOP_ONCE\<close> and \<open>EVLOOP_NONBLOCK\<close>.\<close>

record loop_flags =
  EVLOOP_ONCE :: bool
  EVLOOP_NONBLOCK :: bool

definition loop_timeout ::
    "('b, 'p) loop_env_scheme \<Rightarrow> loop_flags \<Rightarrow> 'b event_base \<Rightarrow> (timeval option \<times> 'b event_base) exec" where
  "loop_timeout p flags base =
     (if N_ACTIVE_CALLBACKS base = 0 \<and> \<not> EVLOOP_NONBLOCK flags
      then bindE (timeout_next p base) (\<lambda>(_, tv, base). Inr (tv, base))
      else Inr (Some evutil_timerclear, base))"

text \<open>What follows the backend: timeouts, then the active events.\<close>

definition loop_process ::
    "('b, 'p) loop_env_scheme \<Rightarrow> bool \<Rightarrow> loop_flags \<Rightarrow> 'b event_base
     \<Rightarrow> ((bool \<times> 'b event_base) + (int \<times> 'b event_base)) exec" where
  "loop_process p no_cache_time flags base =
     bindE (timeout_process p (update_time_cache p no_cache_time base)) (\<lambda>base.
     if N_ACTIVE_CALLBACKS base \<noteq> 0
     then bindE (event_process_active p base) (\<lambda>(n, base).
          Inr (Inl (EVLOOP_ONCE flags \<and> N_ACTIVE_CALLBACKS base = 0 \<and> n \<noteq> 0, base)))
     else Inr (Inl (EVLOOP_NONBLOCK flags, base)))"

definition loop_dispatch ::
    "('b, 'p) loop_env_scheme \<Rightarrow> bool \<Rightarrow> loop_flags \<Rightarrow> timeval option \<times> 'b event_base
     \<Rightarrow> ((bool \<times> 'b event_base) + (int \<times> 'b event_base)) exec" where
  "loop_dispatch p no_cache_time flags = (\<lambda>(tv, base).
     if \<not> event_haveevents base \<and> N_ACTIVE_CALLBACKS base = 0 then Inr (Inr (1, base))
     else let base = (case gettime p base of (tv, base) \<Rightarrow> base\<lparr>event_tv := tv\<rparr>);
              base = clear_time_cache base
          in bindE (dispatch p base tv) (\<lambda>(res, base).
             if res = -1 then Inr (Inr (-1, base)) else loop_process p no_cache_time flags base))"

text \<open>One round: the next state, or the value to return and the state.\<close>

definition loop_round ::
    "('b, 'p) loop_env_scheme \<Rightarrow> bool \<Rightarrow> loop_flags \<Rightarrow> bool \<times> 'b event_base
     \<Rightarrow> ((bool \<times> 'b event_base) + (int \<times> 'b event_base)) exec" where
  "loop_round p no_cache_time flags = (\<lambda>(finished, base).
     if finished then Inr (Inr (0, base))
     else let base = base\<lparr>event_continue := False\<rparr> in
          if event_gotterm base \<or> event_break base then Inr (Inr (0, base))
          else bindE (timeout_correct p base) (\<lambda>base.
               bindE (loop_timeout p flags base) (loop_dispatch p no_cache_time flags)))"

definition event_base_loop ::
    "('b, 'p) loop_env_scheme \<Rightarrow> bool \<Rightarrow> 'b event_base \<Rightarrow> loop_flags \<Rightarrow> (int \<times> 'b event_base) exec" where
  "event_base_loop p no_cache_time base flags =
     (if running_loop base then Inr (-1, base)
      else let base = clear_time_cache (base\<lparr>running_loop := True\<rparr>);
               base = base\<lparr>evbase := sig_set_base p (evbase base), event_gotterm := False, event_break := False\<rparr>
           in bindE (loops (loop_round p no_cache_time flags) (False, base)) (\<lambda>(retval, base).
              Inr (retval, (clear_time_cache base)\<lparr>running_loop := False\<rparr>)))"

section \<open>Events that happen once\<close>

definition event_base_once ::
    "('b, 'p) loop_env_scheme \<Rightarrow> 'b event_base \<Rightarrow> int \<Rightarrow> ev_what set \<Rightarrow> event_callback \<Rightarrow> nat \<Rightarrow> timeval option
     \<Rightarrow> (int \<times> 'b event_base) exec" where
  "event_base_once p base fd events callback arg tv =
     (if events \<inter> {EV_SIGNAL, EV_PERSIST} \<noteq> {} then Inr (-1, base)
      else case new_event p base of
             None \<Rightarrow> Inr (-1, base)
           | Some e \<Rightarrow>
               let base = set_event e (\<lambda>_. zero_event) base in
               if events = {EV_TIMEOUT}
               then event_add p (snd (event_assign base e (-1) {} (Once_Callback callback arg) e)) e
                      (case tv of None \<Rightarrow> Some evutil_timerclear | Some tv \<Rightarrow> Some tv)
               else if events \<inter> {EV_READ, EV_WRITE} \<noteq> {}
               then event_add p (snd (event_assign base e fd (events \<inter> {EV_READ, EV_WRITE}) (Once_Callback callback arg) e)) e tv
               else Inr (-1, base))"

definition event_base_loopexit ::
    "('b, 'p) loop_env_scheme \<Rightarrow> 'b event_base \<Rightarrow> timeval option \<Rightarrow> (int \<times> 'b event_base) exec" where
  "event_base_loopexit p base tv = event_base_once p base (-1) {EV_TIMEOUT} Loopexit_Callback 0 tv"

end
