(* ===== verification/Event_API.thy ===== *)
theory Event_API
  imports Event_Add Event_Loop
begin

text \<open>
  What users of an event base may do: \<open>api_step\<close> relates the states before and after a call of the
  interface whose requirements are met. Every such call runs without crashing and keeps \<open>user_ok\<close>, so all
  states reachable through the interface satisfy it.
\<close>

section \<open>The invariant seen by users\<close>

text \<open>
  A persistent event that has been assigned is due in the class of times it was added with; an event that
  happens once is not persistent.
\<close>

fun is_once :: "event_callback \<Rightarrow> bool" where
  "is_once (Once_Callback _ _) \<longleftrightarrow> True"
| "is_once _ \<longleftrightarrow> False"

definition persist_event :: "'b event_base \<Rightarrow> event \<Rightarrow> bool" where
  "persist_event base ev \<longleftrightarrow> (ev_closure ev = EV_CLOSURE_PERSIST \<longrightarrow> EV_SIGNAL \<notin> ev_events ev
     \<and> (evutil_timerisset (ev_io_timeout ev) \<longrightarrow> is_same_common_timeout (ev_timeout ev) (ev_io_timeout ev)
          \<and> tv_fits base (ev_io_timeout ev) \<and> tv_fits base (ev_timeout ev)))
     \<and> (is_once (ev_callback ev) \<longrightarrow> ev_closure ev = EV_CLOSURE_NONE \<and> EV_PERSIST \<notin> ev_events ev)"

definition persist_ok :: "'b event_base \<Rightarrow> bool" where
  "persist_ok base \<longleftrightarrow> (\<forall>e\<in>flagged EVLIST_INIT base. persist_event base (evmem base e))"

text \<open>Callbacks of common timeouts belong to a list; durations know the index of their list.\<close>

fun callback_ok :: "nat \<Rightarrow> event_callback \<Rightarrow> bool" where
  "callback_ok n (Common_Timeout_Callback i) \<longleftrightarrow> i < n"
| "callback_ok n (Once_Callback cb _) \<longleftrightarrow> callback_ok n cb \<and> \<not> is_once cb"
| "callback_ok n _ \<longleftrightarrow> True"

definition commons_inv :: "nat \<Rightarrow> 'b event_base \<Rightarrow> bool" where
  "commons_inv n base \<longleftrightarrow> length (common_timeout_queues base) \<le> MAX_COMMON_TIMEOUTS
     \<and> (\<forall>i<length (ctl_info base). is_common_timeout (fst (ctl_info base ! i)) base
          \<and> COMMON_TIMEOUT_IDX (fst (ctl_info base ! i)) = i \<and> tv_fits base (fst (ctl_info base ! i))
          \<and> ev_callback (evmem base (snd (ctl_info base ! i))) = Common_Timeout_Callback i)
     \<and> (\<forall>e\<in>flagged EVLIST_INIT base. callback_ok n (ev_callback (evmem base e)) \<and> ev_base (evmem base e))
     \<and> (\<forall>f\<in>queue_flags. flagged f base \<subseteq> flagged EVLIST_INIT base) \<and> timer_events base \<subseteq> flagged EVLIST_INIT base"

definition user_inv :: "nat \<Rightarrow> 'b event_base \<Rightarrow> bool" where
  "user_inv n base \<longleftrightarrow> base_ok base \<and> persist_ok base \<and> commons_inv n base \<and> 0 < length (activequeues base)"

definition user_ok :: "'b event_base \<Rightarrow> bool" where
  "user_ok base \<longleftrightarrow> user_inv (length (common_timeout_queues base)) base"

lemmas user_defs = user_ok_def user_inv_def

lemma length_ctl_info [simp]: "length (ctl_info base) = length (common_timeout_queues base)"
  by (simp add: ctl_info_def)

text \<open>What has to be shown of a change of the base.\<close>

lemma user_okI:
  assumes ok: "user_ok base" and b: "base_ok base'" "frame base base'"
    and i: "flagged EVLIST_INIT base' = flagged EVLIST_INIT base"
    and p: "\<And>e. e \<in> flagged EVLIST_INIT base \<Longrightarrow> same_times (evmem base e) (evmem base' e) \<or> e \<in> timer_events base
      \<or> persist_event base (evmem base' e)"
    and f: "\<And>q. q \<in> queue_flags \<Longrightarrow> flagged q base' \<subseteq> flagged EVLIST_INIT base"
  shows "user_ok base'"
proof -
  have "persist_ok base'"
    unfolding persist_ok_def
  proof
    fix e assume e: "e \<in> flagged EVLIST_INIT base'"
    have fits: "persist_event base' ev = persist_event base ev" for ev
      by (simp add: persist_event_def frame_fits [OF b(2)])
    have old: "persist_event base (evmem base e)" using ok e i by (simp add: user_defs persist_ok_def)
    have tm: "e \<in> timer_events base \<Longrightarrow> ev_closure (evmem base e) = EV_CLOSURE_NONE"
      using ok by (auto simp: user_defs base_ok_def base_inv_def timer_ok_def)
    from p [of e] e i consider "same_times (evmem base e) (evmem base' e)" | "e \<in> timer_events base"
      | "persist_event base (evmem base' e)" by blast
    then show "persist_event base' (evmem base' e)"
    proof cases
      case 1
      with old show ?thesis
        unfolding fits unfolding persist_event_def frame_events(2,4,5) [OF b(2)] by (simp add: same_times_def)
    next
      case 2
      with tm old show ?thesis unfolding persist_event_def frame_events(2,4,5) [OF b(2)] by simp
    next
      case 3
      then show ?thesis by (simp add: fits)
    qed
  qed
  moreover have "commons_inv (length (common_timeout_queues base')) base'"
  proof -
    have c: "ctl_info base' = ctl_info base" by (rule frame_fields(2) [OF b(2)])
    then have "length (common_timeout_queues base') = length (common_timeout_queues base)" by (metis length_ctl_info)
    then show ?thesis
      using ok f unfolding user_defs commons_inv_def c frame_common [OF b(2)] frame_fits [OF b(2)] i frame_events(5,7) [OF b(2)]
        frame_timers [OF b(2)] by auto
  qed
  ultimately show ?thesis using ok b by (simp add: user_defs frame_fields(1) [OF b(2)])
qed

lemma user_inv_queued: "user_inv n base \<Longrightarrow> q \<in> queue_flags \<Longrightarrow> flagged q base \<subseteq> flagged EVLIST_INIT base"
  by (simp add: user_defs commons_inv_def)

lemma user_queued: "user_ok base \<Longrightarrow> q \<in> queue_flags \<Longrightarrow> flagged q base \<subseteq> flagged EVLIST_INIT base"
  by (simp add: user_defs commons_inv_def)

lemma user_inv_timers: "user_inv n base \<Longrightarrow> timer_events base \<subseteq> flagged EVLIST_INIT base"
  by (simp add: user_defs commons_inv_def)

lemma user_timers: "user_ok base \<Longrightarrow> timer_events base \<subseteq> flagged EVLIST_INIT base"
  by (simp add: user_defs commons_inv_def)

section \<open>Adding, deleting, activating\<close>

lemma deleted_user: "user_ok base \<Longrightarrow> deleted e base base' \<Longrightarrow> user_ok base'"
  by (rule user_okI [of base base']) (auto simp: deleted_def queue_flags_def same_event_times dest: user_queued split: if_splits)

lemma wakes_user: "user_ok base \<Longrightarrow> wakes S base base' \<Longrightarrow> S \<subseteq> flagged EVLIST_INIT base \<Longrightarrow> user_ok base'"
  by (rule user_okI [of base base']) (auto simp: wakes_def queue_flags_def dest: user_queued)

lemma scheduled_queued:
  assumes "user_ok base" "scheduled T base base'" "T \<subseteq> flagged EVLIST_INIT base" "q \<in> queue_flags"
  shows "flagged q base' \<subseteq> flagged EVLIST_INIT base"
proof
  fix x assume x: "x \<in> flagged q base'"
  show "x \<in> flagged EVLIST_INIT base"
  proof (cases "x \<in> T")
    case False
    then have "x \<in> flagged q base" using assms(2) x by (simp add: scheduled_def untouched_def flagged_def)
    then show ?thesis using user_queued [OF assms(1,4)] by blast
  qed (use assms(3) in blast)
qed

lemma scheduled_user:
  assumes ok: "user_ok base" and s: "scheduled T base base'" and T: "T \<subseteq> timer_events base"
  shows "user_ok base'"
proof (rule user_okI [OF ok])
  show "base_ok base'" "frame base base'" using s by (simp_all add: scheduled_def)
  show "flagged EVLIST_INIT base' = flagged EVLIST_INIT base" using s by (simp add: scheduled_def queue_flags_def)
  show "flagged q base' \<subseteq> flagged EVLIST_INIT base" if "q \<in> queue_flags" for q
    using scheduled_queued [OF ok s _ that] T user_timers [OF ok] by blast
qed (use s T in \<open>auto simp: scheduled_def untouched_def same_event_times\<close>)

lemma added_user:
  assumes ok: "user_ok base" and ad: "added now (timer_events base) e tv absolute r base base'"
    and e: "e \<in> flagged EVLIST_INIT base" and tv: "\<And>t. tv = Some t \<Longrightarrow> tv_fits base t"
    and ab: "\<And>t. absolute \<Longrightarrow> tv = Some t \<Longrightarrow> is_same_common_timeout t (ev_io_timeout (evmem base e))"
  shows "user_ok base'"
proof (cases "r = -1")
  case True
  with ad show ?thesis using scheduled_user [OF ok, of "{}"] by (simp add: added_def)
next
  case False
  let ?T = "insert e (timer_events base)"
  have s: "scheduled ?T base base'" using ad False by (simp add: added_def)
  show ?thesis
  proof (rule user_okI [OF ok])
    show "base_ok base'" "frame base base'" using s by (simp_all add: scheduled_def)
    show "flagged EVLIST_INIT base' = flagged EVLIST_INIT base" using s by (simp add: scheduled_def queue_flags_def)
    show "flagged q base' \<subseteq> flagged EVLIST_INIT base" if "q \<in> queue_flags" for q
      using scheduled_queued [OF ok s _ that] e user_timers [OF ok] by blast
    fix x assume x: "x \<in> flagged EVLIST_INIT base"
    show "same_times (evmem base x) (evmem base' x) \<or> x \<in> timer_events base \<or> persist_event base (evmem base' x)"
    proof (cases "x = e")
      case False
      then show ?thesis using s by (auto simp: scheduled_def untouched_def same_event_times)
    next
      case xe: True
      show ?thesis
      proof (cases tv)
        case None
        with ad False xe show ?thesis by (simp add: added_def same_event_times)
      next
        case (Some t)
        then have n: "tv_ok now" "ev_timeout (evmem base' e) = add_deadline now t absolute (is_common_timeout t base)"
          "ev_io_timeout (evmem base' e) = (if ev_closure (evmem base e) = EV_CLOSURE_PERSIST \<and> \<not> absolute then t
             else ev_io_timeout (evmem base e))"
          using ad False by (auto simp: added_def rescheduled_def)
        have old: "persist_event base (evmem base e)" using ok e by (simp add: user_defs persist_ok_def)
        have fr: "frame base base'" using s by (simp add: scheduled_def)
        note d = deadline_class [OF n(1) tv [OF Some], of absolute]
        have "persist_event base (evmem base' e)"
        proof (cases absolute)
          case True
          have "ev_timeout (evmem base' e) = t" using True n(2) by (simp add: add_deadline_def)
          then show ?thesis
            using True n(3) old tv [OF Some] ab [OF True Some] unfolding persist_event_def frame_events(2,4,5) [OF fr] by simp
        next
          case False
          then show ?thesis
            using n(2,3) old tv [OF Some] d unfolding persist_event_def frame_events(2,4,5) [OF fr] by simp
        qed
        with xe show ?thesis by simp
      qed
    qed
  qed
qed

section \<open>Setting up events\<close>

text \<open>An event that is in no queue and is not the timer of a list may be changed at will.\<close>

definition idle :: "'b event_base \<Rightarrow> nat \<Rightarrow> bool" where
  "idle base e \<longleftrightarrow> (\<forall>q\<in>queue_flags. e \<notin> flagged q base) \<and> e \<notin> timer_events base"

lemma evmaps_ok_mem:
  assumes "evmaps_ok ins base" "e \<notin> ins"
  shows "evmaps_ok ins (set_event e f base)"
proof -
  let ?m = "evmem (set_event e f base)"
  have m: "x \<in> ins \<Longrightarrow> ?m x = evmem base x" for x using assms(2) by auto
  have "io_slot_ok ?m ins fd ctx = io_slot_ok (evmem base) ins fd ctx" for fd ctx
  proof -
    have s: "{x \<in> ins. watches_io (?m x) \<and> ev_fd (?m x) = fd} = {x \<in> ins. watches_io (evmem base x) \<and> ev_fd (evmem base x) = fd}"
      using m by (auto simp del: set_event_fields)
    have "waiting ?m w q = waiting (evmem base) w q" if "set q \<subseteq> ins" for w q
      using m that unfolding waiting_def
      by (intro arg_cong [where f = length] filter_cong) (auto simp del: set_event_fields)
    then have "holds q {x \<in> ins. watches_io (evmem base x) \<and> ev_fd (evmem base x) = fd} \<Longrightarrow> waiting ?m w q = waiting (evmem base) w q" for w q
      by (auto simp: holds_def)
    then show ?thesis unfolding io_slot_ok_def s by auto
  qed
  moreover have "{x \<in> ins. watches_sig (?m x) \<and> ev_fd (?m x) = int s} = {x \<in> ins. watches_sig (evmem base x) \<and> ev_fd (evmem base x) = int s}" for s
    using m by (auto simp del: set_event_fields)
  ultimately show ?thesis
    using assms(1) m unfolding evmaps_ok_def io_ok_def sig_ok_def by (simp add: set_event_def)
qed

lemma flags_queues:
  assumes "queues_ok base" "\<And>q. q \<in> queue_flags \<Longrightarrow> flagged q (set_event e f base) = flagged q base"
    "\<And>ev. f ev = ev\<lparr>ev_flags := F ev\<rparr>" "\<forall>q\<in>queue_flags. e \<notin> flagged q base"
  shows "queues_ok (set_event e f base)"
proof -
  let ?b = "set_event e f base"
  have fl: "flagged q ?b = flagged q base" if "q \<in> {EVLIST_INSERTED, EVLIST_ACTIVE, EVLIST_TIMEOUT}" for q
    using assms(2) that by (simp add: queue_flags_def)
  have x: "x \<noteq> e \<Longrightarrow> evmem ?b x = evmem base x" for x by simp
  have "counted q ?b = counted q base" if "q \<in> {EVLIST_INSERTED, EVLIST_ACTIVE, EVLIST_TIMEOUT}" for q
    using fl [OF that] assms(4) that unfolding counted_def queue_flags_def
    by (auto simp: flagged_def split: if_splits)
  then have "counts_ok ?b" using assms(1) fl by (simp add: queues_ok_def counts_ok_def queue_flags_def)
  moreover have "active_ok ?b"
    using assms(1,3) fl active_cong [of ?b base] by (simp add: queues_ok_def)
  moreover have "timeouts_ok ?b"
    using assms(1,3) fl timeouts_cong [of ?b base] by (simp add: queues_ok_def)
  ultimately show ?thesis using assms(1) fl by (simp add: queues_ok_def)
qed

lemma set_event_idle:
  assumes ok: "user_inv n base" and idle: "idle base e"
    and q: "ev_flags (f (evmem base e)) \<inter> queue_flags = {}"
    and new: "EVLIST_INIT \<in> ev_flags (f (evmem base e)) \<Longrightarrow> callback_ok n (ev_callback (f (evmem base e)))
      \<and> ev_base (f (evmem base e)) \<and> persist_event base (f (evmem base e))"
  shows "user_inv n (set_event e f base)" "\<And>q. q \<in> queue_flags \<Longrightarrow> flagged q (set_event e f base) = flagged q base"
    "ctl_info (set_event e f base) = ctl_info base" "timeheap (set_event e f base) = timeheap base"
    "length (activequeues (set_event e f base)) = length (activequeues base)"
proof -
  let ?b = "set_event e f base" and ?F = "ev_flags (f (evmem base e))"
  define g where "g = (\<lambda>ev. (f ev)\<lparr>ev_flags := ev_flags ev\<rparr>)"
  have inv: "base_inv (flagged EVLIST_INSERTED base) base" using ok by (simp add: user_defs base_ok_def)
  have ne: "\<And>q. q \<in> queue_flags \<Longrightarrow> e \<notin> flagged q base" using idle by (simp add: idle_def)
  then have ne': "e \<notin> flagged EVLIST_ACTIVE base" "e \<notin> flagged EVLIST_TIMEOUT base" "e \<notin> flagged EVLIST_INSERTED base"
    by (simp_all add: queue_flags_def)
  show fl: "flagged q ?b = flagged q base" if "q \<in> queue_flags" for q
    using ne [OF that] q that by (auto simp: flagged_def)
  show c: "ctl_info ?b = ctl_info base" "timeheap ?b = timeheap base"
    "length (activequeues ?b) = length (activequeues base)" by simp_all
  have com: "is_common_timeout tv ?b = is_common_timeout tv base" for tv by (rule is_common_cong) simp
  have fits: "tv_fits ?b tv = tv_fits base tv" for tv by (simp add: tv_fits_def com)
  have same: "x \<noteq> e \<Longrightarrow> evmem ?b x = evmem base x" for x by simp
  have "queues_ok base" using inv by (simp add: base_inv_def)
  then have q1: "queues_ok (set_event e g base)" "\<And>h. flagged h (set_event e g base) = flagged h base"
    using set_event_queues [of base g e] ne' by (simp_all add: g_def)
  have two: "?b = set_event e (\<lambda>ev. ev\<lparr>ev_flags := ?F\<rparr>) (set_event e g base)"
    unfolding set_event_compose by (rule set_event_cong) (simp add: g_def)
  have qok: "queues_ok ?b"
    unfolding two
  proof (rule flags_queues [OF q1(1)])
    show "\<forall>q\<in>queue_flags. e \<notin> flagged q (set_event e g base)" using ne q1(2) by simp
    show "flagged h (set_event e (\<lambda>ev. ev\<lparr>ev_flags := ?F\<rparr>) (set_event e g base)) = flagged h (set_event e g base)"
      if "h \<in> queue_flags" for h using fl [OF that] q1(2) two by simp
  qed simp
  have insq: "flagged EVLIST_INSERTED ?b = flagged EVLIST_INSERTED base" "flagged EVLIST_TIMEOUT ?b = flagged EVLIST_TIMEOUT base"
    using fl by (simp_all add: queue_flags_def)
  have ev: "x \<in> flagged q base \<Longrightarrow> q \<in> queue_flags \<Longrightarrow> evmem ?b x = evmem base x" for x q using ne [of q] by auto
  have te: "timer_events ?b = timer_events base" unfolding timer_events_info by simp
  have "evmaps_ok (flagged EVLIST_INSERTED base) ?b"
    using inv ne'(3) by (intro evmaps_ok_mem) (simp_all add: base_inv_def)
  moreover have "watch_ok ?b"
    using inv ev [of _ EVLIST_INSERTED] unfolding base_inv_def watch_ok_def insq by (simp add: queue_flags_def)
  moreover have "pri_ok ?b"
    using inv ev fl unfolding base_inv_def pri_ok_def by simp
  moreover have "times_ok ?b"
    using inv ev [of _ EVLIST_TIMEOUT] unfolding base_inv_def times_ok_def insq fits by (simp add: queue_flags_def)
  moreover have "on_list i ?b = on_list i base" for i
    using ev [of _ EVLIST_TIMEOUT] unfolding on_list_def insq com by (auto simp: queue_flags_def simp del: set_event_fields)
  then have "timer_ok ?b x" if "x \<in> timer_events base" for x
    using inv idle that same [of x] unfolding base_inv_def idle_def timer_ok_def by auto
  moreover have "defer_ok ?b" "time_ok (tv_cache ?b)" "time_ok (event_tv ?b)"
    using inv by (simp_all add: base_inv_def defer_ok_def set_event_def)
  ultimately have bok: "base_ok ?b" using qok by (simp add: base_ok_def base_inv_def insq te)
  have init: "flagged EVLIST_INIT ?b = (if EVLIST_INIT \<in> ?F then insert e (flagged EVLIST_INIT base) else flagged EVLIST_INIT base - {e})"
    by (auto simp: flagged_def)
  have pe: "persist_event ?b ev = persist_event base ev" for ev by (simp add: persist_event_def fits)
  have "persist_ok ?b"
    unfolding persist_ok_def
  proof
    fix x assume x: "x \<in> flagged EVLIST_INIT ?b"
    show "persist_event ?b (evmem ?b x)"
    proof (cases "x = e")
      case True
      then have "EVLIST_INIT \<in> ?F" using x by (simp add: flagged_def)
      from new [OF this] True show ?thesis by (simp add: pe)
    next
      case False
      with x have "x \<in> flagged EVLIST_INIT base" by (simp add: flagged_def)
      with ok False show ?thesis by (simp add: user_defs persist_ok_def pe)
    qed
  qed
  moreover have "commons_inv n ?b"
  proof -
    have "callback_ok n (ev_callback (evmem ?b x)) \<and> ev_base (evmem ?b x)" if "x \<in> flagged EVLIST_INIT ?b" for x
      using ok new that init by (auto simp: user_defs commons_inv_def flagged_def split: if_splits)
    moreover have "flagged q ?b \<subseteq> flagged EVLIST_INIT ?b" if "q \<in> queue_flags" for q
      using user_inv_queued [OF ok that] ne [OF that] init fl [OF that] by auto
    moreover have "timer_events base \<subseteq> flagged EVLIST_INIT ?b"
      using user_inv_timers [OF ok] idle init by (auto simp: idle_def)
    moreover have "ev_callback (evmem ?b (snd (ctl_info base ! i))) = Common_Timeout_Callback i" if "i < length (ctl_info base)" for i
    proof -
      have "snd (ctl_info base ! i) \<noteq> e" using idle that by (auto simp: idle_def timer_events_info)
      then show ?thesis using ok that by (simp add: user_defs commons_inv_def)
    qed
    ultimately show ?thesis using ok unfolding user_defs commons_inv_def com fits te c by simp
  qed
  ultimately show "user_inv n ?b" using ok bok by (simp add: user_defs)
qed

lemma idle_set: "idle base e \<Longrightarrow> ev_flags (f (evmem base e)) \<inter> queue_flags = {} \<Longrightarrow> idle (set_event e f base) e"
  unfolding idle_def timer_events_info by (auto simp: flagged_def)

lemma assign_ok:
  assumes ok: "user_inv n base" and idle: "idle base e" and cb: "callback_ok n callback"
    and ev: "\<not> (EV_SIGNAL \<in> events \<and> events \<inter> {EV_READ, EV_WRITE} \<noteq> {})"
      "is_once callback \<longrightarrow> EV_SIGNAL \<notin> events \<and> EV_PERSIST \<notin> events"
    and run: "event_assign base e fd events callback arg = (r, base')"
  shows "r = 0" "user_inv n base'" "idle base' e" "ev_flags (evmem base' e) = {EVLIST_INIT}" "ev_fd (evmem base' e) = fd"
    "ev_events (evmem base' e) = events" "ev_base (evmem base' e)" "ev_pri (evmem base' e) = length (activequeues base) div 2"
    "ev_closure (evmem base' e) = (if EV_SIGNAL \<in> events then EV_CLOSURE_SIGNAL else if EV_PERSIST \<in> events then EV_CLOSURE_PERSIST
       else EV_CLOSURE_NONE)"
    "ctl_info base' = ctl_info base" "timeheap base' = timeheap base" "length (activequeues base') = length (activequeues base)"
    "\<And>x. x \<noteq> e \<Longrightarrow> evmem base' x = evmem base x" "ev_callback (evmem base' e) = callback"
proof -
  define f :: "event \<Rightarrow> event" where "f = (\<lambda>ev. ev\<lparr>ev_base := True, ev_callback := callback, ev_arg := arg, ev_fd := fd,
      ev_events := events, ev_res := {}, ev_flags := {EVLIST_INIT}, ev_ncalls := 0, ev_pncalls := False,
      ev_io_timeout := (if EV_SIGNAL \<notin> events \<and> EV_PERSIST \<in> events then evutil_timerclear else ev_io_timeout ev),
      ev_closure := (if EV_SIGNAL \<in> events then EV_CLOSURE_SIGNAL else if EV_PERSIST \<in> events then EV_CLOSURE_PERSIST else EV_CLOSURE_NONE),
      min_heap_idx := -1, ev_pri := length (activequeues base) div 2\<rparr>)"
  have b: "r = 0" "base' = set_event e f base"
    using run ev(1) by (auto simp: event_assign_def set_event_compose min_heap_elem_init_def f_def Let_def intro!: set_event_cong split: if_splits)
  have new: "ev_flags (f x) \<inter> queue_flags = {}" "ev_callback (f x) = callback"
    "ev_base (f x)" "persist_event base (f x)" for x
    using ev(2) by (auto simp: f_def queue_flags_def persist_event_def evutil_timerisset_def evutil_timerclear_def split: if_splits)
  show "r = 0" by (rule b(1))
  show "user_inv n base'" "ctl_info base' = ctl_info base" "timeheap base' = timeheap base" "length (activequeues base') = length (activequeues base)"
    unfolding b(2) using set_event_idle [OF ok idle, of f] new cb by auto
  show "idle base' e" unfolding b(2) by (rule idle_set [OF idle new(1)])
  show "ev_flags (evmem base' e) = {EVLIST_INIT}" "ev_fd (evmem base' e) = fd"
    "ev_events (evmem base' e) = events" "ev_base (evmem base' e)" "ev_pri (evmem base' e) = length (activequeues base) div 2"
    "ev_closure (evmem base' e) = (if EV_SIGNAL \<in> events then EV_CLOSURE_SIGNAL else if EV_PERSIST \<in> events then EV_CLOSURE_PERSIST
       else EV_CLOSURE_NONE)" "\<And>x. x \<noteq> e \<Longrightarrow> evmem base' x = evmem base x" "ev_callback (evmem base' e) = callback"
    by (auto simp: b(2) f_def)
qed

lemma priority_ok:
  assumes ok: "user_inv n base" and run: "event_priority_set base e pri = (r, base')"
  shows "user_inv n base'" "ev_flags (evmem base' x) = ev_flags (evmem base x)" "ev_callback (evmem base' x) = ev_callback (evmem base x)" "ctl_info base' = ctl_info base" "length (activequeues base') = length (activequeues base)"
proof -
  let ?f = "\<lambda>ev. ev\<lparr>ev_pri := nat pri\<rparr>"
  have cases: "base' = base \<and> r = -1 \<or> base' = set_event e ?f base \<and> r = 0 \<and> e \<notin> flagged EVLIST_ACTIVE base \<and> nat pri < length (activequeues base)"
    using run by (auto simp: event_priority_set_def flagged_def split: if_splits)
  then show "ev_flags (evmem base' x) = ev_flags (evmem base x)" "ev_callback (evmem base' x) = ev_callback (evmem base x)"
    by (cases "x = e"; auto)+
  from cases show "ctl_info base' = ctl_info base" "length (activequeues base') = length (activequeues base)" by auto
  from cases show "user_inv n base'"
  proof
    assume "base' = set_event e ?f base \<and> r = 0 \<and> e \<notin> flagged EVLIST_ACTIVE base \<and> nat pri < length (activequeues base)"
    then have b: "base' = set_event e ?f base" and na: "e \<notin> flagged EVLIST_ACTIVE base" and pri: "nat pri < length (activequeues base)"
      by auto
    have inv: "base_inv (flagged EVLIST_INSERTED base) base" using ok by (simp add: user_defs base_ok_def)
    have q: "queues_ok base'" "\<And>g. flagged g base' = flagged g base"
      using set_event_queues [of base ?f e] inv na unfolding b by (simp_all add: base_inv_def)
    have x: "ev_events (evmem base' x) = ev_events (evmem base x)" "ev_fd (evmem base' x) = ev_fd (evmem base x)"
      "ev_timeout (evmem base' x) = ev_timeout (evmem base x)" "ev_closure (evmem base' x) = ev_closure (evmem base x)"
      "ev_io_timeout (evmem base' x) = ev_io_timeout (evmem base x)" "ev_callback (evmem base' x) = ev_callback (evmem base x)"
      "ev_pri (evmem base x) < length (activequeues base) \<Longrightarrow> ev_pri (evmem base' x) < length (activequeues base)"
      "ev_base (evmem base' x) = ev_base (evmem base x)" for x
      using pri by (auto simp: b)
    have c: "ctl_info base' = ctl_info base" "activequeues base' = activequeues base" by (simp_all add: b)
    have com: "is_common_timeout tv base' = is_common_timeout tv base" for tv by (rule is_common_cong [OF c(1)])
    have te: "timer_events base' = timer_events base" unfolding timer_events_info c ..
    have fits: "tv_fits base' tv = tv_fits base tv" for tv by (simp add: tv_fits_def com)
    have len: "length (common_timeout_queues base') = length (common_timeout_queues base)" using c(1) by (metis length_ctl_info)
    have "on_list i base' = on_list i base" for i by (simp add: on_list_def q(2) com x(3))
    then have "timer_ok base y \<Longrightarrow> timer_ok base' y" for y using x(1,4,7) c(2) by (simp add: timer_ok_def)
    moreover have "evmaps_ok ins base' = evmaps_ok ins base" for ins
      using evmaps_cong [of base' base ins] x(1,2) by (simp add: b set_event_def)
    moreover have "watch_ok base'" "pri_ok base'" "times_ok base'"
      using inv x(7) unfolding base_inv_def watch_ok_def pri_ok_def times_ok_def watches_def q(2) x(1,3) fits c(2) by blast+
    moreover have "defer_ok base'" "time_ok (tv_cache base')" "time_ok (event_tv base')"
      using inv by (simp_all add: base_inv_def defer_ok_def b set_event_def)
    ultimately have "base_ok base'" using inv q by (simp add: base_ok_def base_inv_def te)
    moreover have "persist_ok base' = persist_ok base" unfolding persist_ok_def persist_event_def q(2) x(1,3-6) fits ..
    moreover have "commons_inv n base' = commons_inv n base" unfolding commons_inv_def q(2) c te com fits x(6,8) len ..
    ultimately show "user_inv n base'" using ok by (simp add: user_defs c(2))
  qed (use ok in simp)
qed

section \<open>New common timeouts\<close>

lemma common_masks:
  "COMMON_TIMEOUT_MASK = push_bit 28 (mask 4)" "COMMON_TIMEOUT_MAGIC = push_bit 28 5"
  "COMMON_TIMEOUT_IDX_MASK = push_bit 20 (mask 8)"
  by (simp_all add: COMMON_TIMEOUT_MASK_def COMMON_TIMEOUT_MAGIC_def COMMON_TIMEOUT_IDX_MASK_def
      mask_eq_exp_minus_1 push_bit_eq_mult)

lemma list_class:
  assumes "n < 256"
  defines "w \<equiv> COMMON_TIMEOUT_MAGIC OR push_bit COMMON_TIMEOUT_IDX_SHIFT (of_nat n)"
  shows "w AND NOT MICROSECONDS_MASK = w" "w AND COMMON_TIMEOUT_MASK = COMMON_TIMEOUT_MAGIC"
    "COMMON_TIMEOUT_IDX (Timeval s w) = n"
proof -
  let ?k = "of_nat n :: 32 word"
  have n: "bit n j \<Longrightarrow> j < 8" for j
  proof -
    have "take_bit 8 n = n" using assms(1) by (simp add: take_bit_nat_eq_self)
    then show "bit n j \<Longrightarrow> j < 8" by (metis bit_take_bit_iff)
  qed
  have five: "bit (5 :: 32 word) j \<longleftrightarrow> j = 0 \<or> j = 2" for j
  proof -
    have "(5 :: 32 word) = 4 OR 1" by simp
    then have "bit (5 :: 32 word) j \<longleftrightarrow> bit (4 :: 32 word) j \<or> bit (1 :: 32 word) j" by (simp only: bit_or_iff)
    moreover have "(4 :: 32 word) = 2 ^ 2" by simp
    then have "bit (4 :: 32 word) j \<longleftrightarrow> j = 2" by (simp only: bit_exp_iff) auto
    ultimately show ?thesis by (auto simp: bit_1_iff)
  qed
  have magic: "bit COMMON_TIMEOUT_MAGIC j \<longleftrightarrow> j = 28 \<or> j = 30" for j
    unfolding common_masks(2) bit_push_bit_iff five by auto
  have w: "bit w j \<longleftrightarrow> j = 28 \<or> j = 30 \<or> (20 \<le> j \<and> j < 28 \<and> bit n (j - 20))" for j
    using n [of "j - 20"] unfolding w_def COMMON_TIMEOUT_IDX_SHIFT_def bit_or_iff bit_push_bit_iff magic
    by (auto simp: bit_of_nat_iff)
  show "w AND NOT MICROSECONDS_MASK = w"
    by (rule bit_word_eqI) (auto simp: micro_mask bit_and_iff bit_not_iff bit_mask_iff w)
  show "w AND COMMON_TIMEOUT_MASK = COMMON_TIMEOUT_MAGIC"
    by (rule bit_word_eqI) (auto simp: common_masks(1) bit_and_iff bit_push_bit_iff bit_mask_iff w magic)
  have "drop_bit 20 (w AND COMMON_TIMEOUT_IDX_MASK) = ?k"
    by (rule bit_word_eqI) (auto simp: common_masks(3) bit_and_iff bit_drop_bit_eq bit_push_bit_iff bit_mask_iff w bit_of_nat_iff dest: n)
  then show "COMMON_TIMEOUT_IDX (Timeval s w) = n"
    using assms(1) by (simp add: COMMON_TIMEOUT_IDX_def COMMON_TIMEOUT_IDX_SHIFT_def unsigned_of_nat take_bit_nat_eq_self)
qed
lemma fits_cong:
  assumes "tv_fits base t" "\<And>t. is_common_timeout t base \<Longrightarrow> is_common_timeout t base'"
  shows "is_common_timeout t base' = is_common_timeout t base" "tv_fits base' t"
  using assms tv_ok_not_common [of t base'] by (auto simp: tv_fits_def split: if_splits)

definition append_list :: "timeval \<Rightarrow> nat \<Rightarrow> 'b event_base \<Rightarrow> 'b event_base" where
  "append_list tv e base = base\<lparr>common_timeout_queues := common_timeout_queues base
     @ [\<lparr>ctl_events = [], ctl_duration = tv, ctl_timeout_event = e\<rparr>]\<rparr>"

lemma append_list_ok:
  assumes ok: "user_inv (Suc n) base" and n: "n = length (common_timeout_queues base)" "n < MAX_COMMON_TIMEOUTS"
    and e: "idle base e" "e \<in> flagged EVLIST_INIT base" "e < MAX_EVENTS" "ev_pri (evmem base e) < length (activequeues base)"
      "ev_events (evmem base e) = {}" "ev_closure (evmem base e) = EV_CLOSURE_NONE" "ev_callback (evmem base e) = Common_Timeout_Callback n"
    and tv: "is_common_timeout tv (append_list tv e base)" "COMMON_TIMEOUT_IDX tv = n" "tv_fits (append_list tv e base) tv"
  shows "user_ok (append_list tv e base)"
proof -
  let ?b = "append_list tv e base"
  have inv: "base_inv (flagged EVLIST_INSERTED base) base" using ok by (simp add: user_defs base_ok_def)
  have b: "evmem ?b = evmem base" "timeheap ?b = timeheap base" "activequeues ?b = activequeues base"
    "eventqueue ?b = eventqueue base" "event_count ?b = event_count base" "event_count_active ?b = event_count_active base"
    "common_timeout_queues ?b = common_timeout_queues base @ [\<lparr>ctl_events = [], ctl_duration = tv, ctl_timeout_event = e\<rparr>]"
    by (simp_all add: append_list_def)
  have fl: "flagged f ?b = flagged f base" for f by (simp add: flagged_def b)
  have mono: "is_common_timeout t base \<Longrightarrow> is_common_timeout t ?b" for t by (simp add: is_common_timeout_def b)
  note fits = fits_cong [where base = base and base' = ?b, OF _ mono]
  have times: "tv_fits base (ev_timeout (evmem base x))" if "x \<in> flagged EVLIST_TIMEOUT base" for x
    using inv that by (simp add: base_inv_def times_ok_def)
  have oh: "on_heap ?b = on_heap base" and ol: "\<And>i. on_list i ?b = on_list i base"
    unfolding on_heap_def on_list_def fl b using fits(1) [OF times] by auto
  have on: "on_list n base = {}" using n(1) by (auto simp: on_list_def is_common_timeout_def)
  have te: "timer_events ?b = insert e (timer_events base)" by (auto simp: timer_events_def b)
  have "queues_ok ?b"
    using inv on n(1) unfolding base_inv_def queues_ok_def active_ok_def timeouts_ok_def counts_ok_def counted_def list_ok_def fl oh ol b
    by (auto simp: nth_append less_Suc_eq)
  moreover have "evmaps_ok ins ?b = evmaps_ok ins base" for ins by (simp add: evmaps_ok_def append_list_def)
  moreover have "watch_ok ?b = watch_ok base" "pri_ok ?b = pri_ok base" unfolding watch_ok_def pri_ok_def fl b by simp_all
  moreover have "times_ok ?b" unfolding times_ok_def fl b using fits(2) [OF times] by simp
  moreover have "timer_ok ?b x" if "x \<in> timer_events ?b" for x
  proof (cases "x = e")
    case True
    then show ?thesis using e unfolding timer_ok_def b ol by (auto simp: idle_def on_list_def queue_flags_def)
  next
    case False
    with that inv have "timer_ok base x" by (simp add: te base_inv_def)
    then show ?thesis unfolding timer_ok_def b ol .
  qed
  moreover have "defer_ok ?b" "time_ok (tv_cache ?b)" "time_ok (event_tv ?b)"
    using inv by (simp_all add: base_inv_def defer_ok_def append_list_def)
  ultimately have bok: "base_ok ?b" using inv by (simp add: base_ok_def base_inv_def fl)
  have "persist_ok ?b"
    using ok fits(2) unfolding user_defs persist_ok_def persist_event_def fl b by blast
  moreover have "commons_inv (Suc n) ?b"
  proof -
    have info: "ctl_info ?b = ctl_info base @ [(tv, e)]" by (simp add: ctl_info_def b)
    have "is_common_timeout (fst (ctl_info ?b ! i)) ?b \<and> COMMON_TIMEOUT_IDX (fst (ctl_info ?b ! i)) = i \<and> tv_fits ?b (fst (ctl_info ?b ! i))
        \<and> ev_callback (evmem base (snd (ctl_info ?b ! i))) = Common_Timeout_Callback i"
      if "i < length (ctl_info ?b)" for i
    proof (cases "i = n")
      case True
      then show ?thesis using tv e(7) n(1) by (simp add: info nth_append)
    next
      case False
      then have i: "i < n" "ctl_info ?b ! i = ctl_info base ! i" using that n(1) by (simp_all add: info nth_append b)
      then have "is_common_timeout (fst (ctl_info base ! i)) base \<and> COMMON_TIMEOUT_IDX (fst (ctl_info base ! i)) = i
          \<and> tv_fits base (fst (ctl_info base ! i)) \<and> ev_callback (evmem base (snd (ctl_info base ! i))) = Common_Timeout_Callback i"
        using ok n(1) by (simp add: user_defs commons_inv_def)
      then show ?thesis using i mono fits(2) by simp
    qed
    then show ?thesis
      using ok e(2) n user_inv_timers [OF ok] unfolding user_defs commons_inv_def fl te by (simp add: b)
  qed
  ultimately show ?thesis using ok bok n(1) by (simp add: user_defs b)
qed

lemma callback_ok_mono: "callback_ok n cb \<Longrightarrow> n \<le> m \<Longrightarrow> callback_ok m cb"
  by (induction cb) auto

lemma user_inv_mono: "user_inv n base \<Longrightarrow> n \<le> m \<Longrightarrow> user_inv m base"
  unfolding user_defs commons_inv_def using callback_ok_mono by blast

text \<open>Fields that do not matter.\<close>

lemmas user_unfold = user_defs base_ok_def persist_ok_def persist_event_def commons_inv_def ctl_info_def inv_defs

lemma user_inv_update [simp]:
  "user_inv n (base\<lparr>n_common_timeouts_allocated := k\<rparr>) = user_inv n base"
  "user_inv n (base\<lparr>current_event := c\<rparr>) = user_inv n base"
  "user_inv n (base\<lparr>running_loop := r\<rparr>) = user_inv n base"
  "user_inv n (base\<lparr>event_break := r\<rparr>) = user_inv n base"
  "user_inv n (base\<lparr>event_gotterm := r\<rparr>) = user_inv n base"
  "user_inv n (base\<lparr>event_continue := r\<rparr>) = user_inv n base"
  "user_inv n (base\<lparr>event_running_priority := i\<rparr>) = user_inv n base"
  "user_inv n (base\<lparr>closure_ncalls := k\<rparr>) = user_inv n base"
  "user_inv n (base\<lparr>evbase := b\<rparr>) = user_inv n base"
  "user_inv n (base\<lparr>is_notify_pending := r, notifications := k\<rparr>) = user_inv n base"
  by (simp_all add: user_unfold)

lemma user_ok_update [simp]:
  "user_ok (base\<lparr>n_common_timeouts_allocated := k\<rparr>) = user_ok base"
  "user_ok (base\<lparr>current_event := c\<rparr>) = user_ok base"
  "user_ok (base\<lparr>running_loop := r\<rparr>) = user_ok base"
  "user_ok (base\<lparr>event_break := r\<rparr>) = user_ok base"
  "user_ok (base\<lparr>event_gotterm := r\<rparr>) = user_ok base"
  "user_ok (base\<lparr>event_continue := r\<rparr>) = user_ok base"
  "user_ok (base\<lparr>event_running_priority := i\<rparr>) = user_ok base"
  "user_ok (base\<lparr>closure_ncalls := k\<rparr>) = user_ok base"
  "user_ok (base\<lparr>evbase := b\<rparr>) = user_ok base"
  "user_ok (base\<lparr>is_notify_pending := r, notifications := k\<rparr>) = user_ok base"
  by (simp_all add: user_ok_def)

lemma user_ok_notify [simp]: "user_ok (evthread_notify_base base) = user_ok base"
  by (simp add: evthread_notify_base_def)

lemma idle_update [simp]: "idle (base\<lparr>n_common_timeouts_allocated := k\<rparr>) e = idle base e"
  by (simp add: idle_def flagged_def timer_events_def)

lemma new_common_timeout_ok:
  assumes ok: "user_ok base" and n: "length (common_timeout_queues base) < MAX_COMMON_TIMEOUTS"
    and e: "idle base e" "e < MAX_EVENTS" and d: "tv_ok d" and run: "new_common_timeout base d e = (tv, base')"
  shows "user_ok base'" "is_common_timeout tv base'" "length (activequeues base') = length (activequeues base)"
    "\<And>x. x \<noteq> e \<Longrightarrow> evmem base' x = evmem base x" "timer_events base' = insert e (timer_events base)"
proof -
  let ?n = "length (common_timeout_queues base)"
  let ?w = "COMMON_TIMEOUT_MAGIC OR push_bit COMMON_TIMEOUT_IDX_SHIFT (of_nat ?n)"
  have u: "user_inv (Suc ?n) base" using ok user_inv_mono [of ?n base "Suc ?n"] by (simp add: user_ok_def)
  define base1 where "base1 = set_event e (\<lambda>_. zero_event) base"
  have z: "ev_flags zero_event = {}" by (simp add: zero_event_def)
  have u1: "user_inv (Suc ?n) base1" "ctl_info base1 = ctl_info base" "length (activequeues base1) = length (activequeues base)"
    "idle base1 e"
    using set_event_idle [OF u e(1), of "\<lambda>_. zero_event"] idle_set [OF e(1), of "\<lambda>_. zero_event"] unfolding base1_def by (simp_all add: z)
  obtain r base2 where a: "event_assign base1 e (-1) {} (Common_Timeout_Callback ?n) ?n = (r, base2)" by fastforce
  note as = assign_ok [OF u1(1) u1(4) _ _ _ a, simplified]
  let ?f = "\<lambda>ev. ev\<lparr>ev_flags := insert EVLIST_INTERNAL (ev_flags ev)\<rparr>"
  define base3 where "base3 = set_event e ?f base2"
  have "persist_event base2 (?f (evmem base2 e))" "callback_ok (Suc ?n) (ev_callback (evmem base2 e))" "ev_base (evmem base2 e)"
    using as(2,4,6,9,14) by (simp_all add: user_defs commons_inv_def flagged_def persist_event_def)
  then have u3: "user_inv (Suc ?n) base3" "ctl_info base3 = ctl_info base2" "length (activequeues base3) = length (activequeues base2)"
    "idle base3 e"
    using set_event_idle [OF as(2,3), of ?f] idle_set [OF as(3), of ?f] as(4) unfolding base3_def by (simp_all add: queue_flags_def)
  have pos: "0 < length (activequeues base)" using ok by (simp add: user_defs)
  have f3: "ev_flags (evmem base3 e) = {EVLIST_INTERNAL, EVLIST_INIT}" using as(4) by (simp add: base3_def)
  define base4 where "base4 = set_event e (\<lambda>ev. ev\<lparr>ev_pri := 0\<rparr>) base3"
  have p: "event_priority_set base3 e 0 = (0, base4)"
    using f3 pos u1(3) u3(3) as(12) by (simp add: event_priority_set_def base4_def)
  have u4: "user_inv (Suc ?n) base4" "ctl_info base4 = ctl_info base" "length (activequeues base4) = length (activequeues base)"
    using priority_ok [OF u3(1) p] u3(2,3) as(10,12) u1(2,3) by simp_all
  have i4: "idle base4 e" unfolding base4_def by (rule idle_set [OF u3(4)]) (use f3 in \<open>simp add: queue_flags_def\<close>)
  have e4: "ev_flags (evmem base4 e) = {EVLIST_INTERNAL, EVLIST_INIT}" "ev_events (evmem base4 e) = {}"
    "ev_closure (evmem base4 e) = EV_CLOSURE_NONE" "ev_pri (evmem base4 e) = 0" "ev_callback (evmem base4 e) = Common_Timeout_Callback ?n"
    using f3 as(6,9,14) by (simp_all add: base4_def base3_def)
  have l4: "length (common_timeout_queues base4) = ?n" using u4(2) by (metis length_ctl_info)
  have tv: "tv = or_usec d ?w" "base' = append_list tv e base4"
    using run a p by (auto simp: new_common_timeout_def Let_def base1_def base3_def append_list_def)
  have n': "?n < 256" using n by (simp add: MAX_COMMON_TIMEOUTS_def)
  have same: "is_same_common_timeout tv (Timeval 0 ?w)" "and_usec tv MICROSECONDS_MASK = d"
    using or_class(1) [OF d, of ?w 0] or_class(2) [OF d, of ?w] list_class(1) [OF n'] tv(1) by simp_all
  show "evmem base' x = evmem base x" if "x \<noteq> e" for x
    unfolding tv(2) using that as(13) by (simp add: append_list_def base4_def base3_def base1_def)
  have "timer_events base4 = timer_events base" unfolding timer_events_info u4(2) ..
  then show "timer_events base' = insert e (timer_events base)"
    unfolding tv(2) by (auto simp: append_list_def timer_events_def)
  have c: "is_common_timeout tv base'" "COMMON_TIMEOUT_IDX tv = ?n" "tv_fits base' tv"
  proof -
    have "is_common_timeout (Timeval 0 ?w) base'"
      using list_class(2,3) [OF n'] l4 by (simp add: is_common_timeout_def tv(2) append_list_def)
    then show "is_common_timeout tv base'" unfolding same_class(1) [OF same(1), of base'] .
    show "COMMON_TIMEOUT_IDX tv = ?n" unfolding same_class(2) [OF same(1)] by (rule list_class(3) [OF n'])
    show "tv_fits base' tv" using \<open>is_common_timeout tv base'\<close> same(2) d by (simp add: tv_fits_def)
  qed
  show "is_common_timeout tv base'" by (rule c(1))
  have "user_ok (append_list tv e base4)"
    by (rule append_list_ok [of ?n]) (use u4(1,3) l4 n i4 e4 e(2) c [unfolded tv(2)] pos in \<open>simp_all add: flagged_def\<close>)
  then show "user_ok base'" unfolding tv(2) .
  show "length (activequeues base') = length (activequeues base)" unfolding tv(2) using u4(3) by (simp add: append_list_def)
qed

text \<open>Memory for new events is not in use.\<close>

definition fresh_events :: "('b, 'p) loop_env_scheme \<Rightarrow> bool" where
  "fresh_events p \<longleftrightarrow> (\<forall>base e. new_event p base = Some e
     \<longrightarrow> idle base e \<and> e \<notin> flagged EVLIST_INIT base \<and> e < MAX_EVENTS)"

text \<open>
  An event that happens once and is running: it is in no queue, and users do not have it. \<open>kept_but\<close>: the
  invariant is kept, and such events but \<open>e\<close> remain what they are.
\<close>

definition held :: "'b event_base \<Rightarrow> nat \<Rightarrow> bool" where
  "held base e \<longleftrightarrow> idle base e \<and> EVLIST_INIT \<in> ev_flags (evmem base e) \<and> is_once (ev_callback (evmem base e))"

definition kept_but :: "nat set \<Rightarrow> 'b event_base \<Rightarrow> 'b event_base \<Rightarrow> bool" where
  "kept_but X base base' \<longleftrightarrow> user_ok base' \<and> length (activequeues base') = length (activequeues base)
     \<and> (\<forall>x. x \<notin> X \<longrightarrow> held base x \<longrightarrow> held base' x)
     \<and> (\<forall>x\<in>flagged EVLIST_INIT base. x \<in> flagged EVLIST_INIT base'
          \<and> (is_once (ev_callback (evmem base' x)) \<longrightarrow> is_once (ev_callback (evmem base x))))"

abbreviation kept :: "'b event_base \<Rightarrow> 'b event_base \<Rightarrow> bool" where
  "kept \<equiv> kept_but {}"

lemma kept_refl: "user_ok base \<Longrightarrow> kept_but X base base"
  by (simp add: kept_but_def)

lemma kept_trans: "kept_but X a b \<Longrightarrow> kept_but X b c \<Longrightarrow> kept_but X a c"
  by (simp add: kept_but_def)

lemma kept_mono: "kept_but X a b \<Longrightarrow> X \<subseteq> Y \<Longrightarrow> kept_but Y a b"
  by (auto simp: kept_but_def)

lemma kept_all: "kept_but X a b \<Longrightarrow> (\<And>x. x \<in> X \<Longrightarrow> \<not> held a x) \<Longrightarrow> kept a b"
  by (auto simp: kept_but_def)

lemma held_cong:
  assumes "held base x" "ev_flags (evmem base' x) = ev_flags (evmem base x)" "ev_callback (evmem base' x) = ev_callback (evmem base x)"
    "x \<in> timer_events base' \<Longrightarrow> x \<in> timer_events base"
  shows "held base' x"
  using assms by (auto simp: held_def idle_def flagged_def)

lemma kept_at:
  assumes "user_ok base'" "length (activequeues base') = length (activequeues base)" "\<not> held base e"
    "\<And>x. x \<noteq> e \<Longrightarrow> evmem base' x = evmem base x" "timer_events base' \<subseteq> insert e (timer_events base)"
    "e \<in> flagged EVLIST_INIT base \<Longrightarrow> e \<in> flagged EVLIST_INIT base' \<and> \<not> is_once (ev_callback (evmem base' e))"
  shows "kept base base'"
proof -
  have "held base x \<Longrightarrow> held base' x" for x
    using held_cong [of base x base'] assms(3-5) by (cases "x = e") auto
  moreover have "x \<in> flagged EVLIST_INIT base' \<and> (is_once (ev_callback (evmem base' x)) \<longrightarrow> is_once (ev_callback (evmem base x)))"
    if "x \<in> flagged EVLIST_INIT base" for x
    using assms(4,6) that by (cases "x = e") (auto simp: flagged_def)
  ultimately show ?thesis using assms(1,2) by (simp add: kept_but_def)
qed

lemma kept_frame:
  assumes "user_ok base'" "frame base base'" "flagged EVLIST_INIT base' = flagged EVLIST_INIT base"
    "\<And>q x. q \<in> queue_flags \<Longrightarrow> x \<notin> X \<Longrightarrow> held base x \<Longrightarrow> x \<notin> flagged q base'"
  shows "kept_but X base base'"
  using assms(1,4) frame_fields(1) [OF assms(2)] frame_timers [OF assms(2)] frame_events(5) [OF assms(2)] assms(3)
  by (auto simp: kept_but_def held_def idle_def flagged_def set_eq_iff)

lemma init_common_timeout_ok:
  assumes ok: "user_ok base" and d: "tv_ok (normal_duration base duration)" and fresh: "fresh_events p"
  shows "runs (event_base_init_common_timeout p base duration) (\<lambda>(r, base'). kept base base'
    \<and> (\<forall>tv. r = Some tv \<longrightarrow> is_common_timeout tv base'))"
proof -
  let ?d = "normal_duration base duration"
  let ?P = "\<lambda>ctl. tv_sec ?d = tv_sec (ctl_duration ctl) \<and> tv_usec ?d = tv_usec (ctl_duration ctl) AND MICROSECONDS_MASK"
  show ?thesis
  proof (cases "find ?P (common_timeout_queues base)")
    case (Some ctl)
    then obtain i where "i < length (common_timeout_queues base)" "ctl = common_timeout_queues base ! i"
      by (auto simp: find_Some_iff)
    then have "is_common_timeout (ctl_duration ctl) base"
      using ok by (auto simp: user_defs commons_inv_def ctl_info_def)
    with Some ok show ?thesis by (simp add: event_base_init_common_timeout_def Let_def kept_refl)
  next
    case None
    show ?thesis
    proof (cases "length (common_timeout_queues base) = MAX_COMMON_TIMEOUTS")
      case True
      with None ok show ?thesis by (simp add: event_base_init_common_timeout_def Let_def kept_refl)
    next
      case False
      then have n: "length (common_timeout_queues base) < MAX_COMMON_TIMEOUTS"
        using ok by (simp add: user_defs commons_inv_def)
      obtain room base1 where g: "grow_queues p base = (room, base1)" by fastforce
      then obtain k where b1: "base1 = base \<or> base1 = base\<lparr>n_common_timeouts_allocated := k\<rparr>"
        by (auto simp: grow_queues_def Let_def split: if_splits)
      then have ok1: "user_ok base1" "length (common_timeout_queues base1) = length (common_timeout_queues base)"
        "kept base base1"
        using ok by (auto simp: kept_but_def held_def idle_def flagged_def timer_events_def)
      show ?thesis
      proof (cases "room \<and> new_event p base1 \<noteq> None")
        case True
        then obtain e where e: "new_event p base1 = Some e" by blast
        then have i: "idle base1 e" "e < MAX_EVENTS" "e \<notin> flagged EVLIST_INIT base1" using fresh by (auto simp: fresh_events_def)
        obtain tv base2 where nc: "new_common_timeout base1 ?d e = (tv, base2)" by fastforce
        note new = new_common_timeout_ok [OF ok1(1) _ i(1,2) d nc]
        have "kept base1 base2"
          using n ok1(2) i(3) new(4) by (intro kept_at [of _ _ e] new) (auto simp: new held_def flagged_def)
        then have "kept base base2" "is_common_timeout tv base2"
          using kept_trans [OF ok1(3), of base2] new(2) n ok1(2) by simp_all
        with None False g True e nc show ?thesis by (simp add: event_base_init_common_timeout_def Let_def)
      next
        case False
        with None \<open>length (common_timeout_queues base) \<noteq> MAX_COMMON_TIMEOUTS\<close> g ok1 show ?thesis
          by (auto simp: event_base_init_common_timeout_def Let_def)
      qed
    qed
  qed
qed

section \<open>Events that happen once\<close>

text \<open>What the surroundings promise.\<close>

definition platform_ok :: "('b, 'p) loop_env_scheme \<Rightarrow> bool" where
  "platform_ok p \<longleftrightarrow> clock_ok p \<and> realloc_ok (heap_realloc p) \<and> dels_ok p \<and> fresh_events p"

lemma scheduled_kept:
  assumes "user_ok base'" "scheduled (insert e (timer_events base)) base base'"
  shows "kept_but {e} base base'"
proof (rule kept_frame [OF assms(1)])
  show "frame base base'" "flagged EVLIST_INIT base' = flagged EVLIST_INIT base"
    using assms(2) by (simp_all add: scheduled_def queue_flags_def)
  fix q x assume q: "q \<in> queue_flags" and x: "x \<notin> {e}" "held base x"
  then have "x \<notin> insert e (timer_events base)" "x \<notin> flagged q base" by (simp_all add: held_def idle_def)
  moreover from this have "ev_flags (evmem base' x) = ev_flags (evmem base x)"
    using assms(2) unfolding scheduled_def untouched_def by blast
  ultimately show "x \<notin> flagged q base'" by (simp add: flagged_def)
qed

lemma added_kept:
  assumes "user_ok base" "added now (timer_events base) e tv absolute r base base'" "e \<in> flagged EVLIST_INIT base"
    "\<And>t. tv = Some t \<Longrightarrow> tv_fits base t"
    "\<And>t. absolute \<Longrightarrow> tv = Some t \<Longrightarrow> is_same_common_timeout t (ev_io_timeout (evmem base e))"
  shows "kept_but {e} base base'"
proof (rule scheduled_kept [OF added_user [OF assms]])
  show "scheduled (insert e (timer_events base)) base base'"
    using assms(2) scheduled_mono [of "{}" base base' "insert e (timer_events base)"]
    by (cases "r = -1") (simp_all add: added_def)
qed

lemma event_add_ok:
  assumes ok: "user_ok base" and p: "platform_ok p" and e: "e \<in> flagged EVLIST_INIT base" "can_add base e tv"
  shows "runs (event_add p base e tv) (\<lambda>(r, base'). kept_but {e} base base')"
proof (cases "ev_base (evmem base e)")
  case True
  have "base_ok base" "clock_ok p" "realloc_ok (heap_realloc p)" using ok p by (simp_all add: user_defs platform_ok_def)
  note run = event_add_runs [OF this e(2), of False]
  have "kept_but {e} base base'" if ad: "added now (timer_events base) e tv False r base base'" for now r base'
    by (rule added_kept [OF ok ad e(1)]) (use e(2) in \<open>simp_all add: can_add_def\<close>)
  then have "runs (event_add_internal p base e tv False) (\<lambda>(r, base'). kept_but {e} base base')"
    by (intro runs_mono [OF run]) auto
  with True show ?thesis by (simp add: event_add_def)
qed (use ok in \<open>simp add: event_add_def kept_refl\<close>)

lemma event_base_once_ok:
  assumes ok: "user_ok base" and p: "platform_ok p" and cb: "callback_ok (length (common_timeout_queues base)) callback" "\<not> is_once callback"
    and tv: "\<And>t. tv = Some t \<Longrightarrow> tv_fits base t"
  shows "runs (event_base_once p base fd events callback arg tv) (\<lambda>(r, base'). kept base base')"
proof (cases "events \<inter> {EV_SIGNAL, EV_PERSIST} = {} \<and> new_event p base \<noteq> None")
  case True
  then obtain e where e: "new_event p base = Some e" by blast
  then have i: "idle base e" "e < MAX_EVENTS" "e \<notin> flagged EVLIST_INIT base" and nh: "\<not> held base e"
    using p by (auto simp: platform_ok_def fresh_events_def held_def flagged_def)
  let ?n = "length (common_timeout_queues base)"
  define base1 where "base1 = set_event e (\<lambda>_. zero_event) base"
  have z: "ev_flags zero_event = {}" by (simp add: zero_event_def)
  have u: "user_inv ?n base" using ok by (simp add: user_ok_def)
  have u1: "user_inv ?n base1" "ctl_info base1 = ctl_info base" "length (activequeues base1) = length (activequeues base)"
    "idle base1 e"
    using set_event_idle [OF u i(1), of "\<lambda>_. zero_event"] idle_set [OF i(1), of "\<lambda>_. zero_event"] unfolding base1_def by (simp_all add: z)
  have len: "length (common_timeout_queues base1) = ?n" using u1(2) by (metis length_ctl_info)
  have go: "runs (event_add p (snd (event_assign base1 e fd' evs (Once_Callback callback arg) e)) e tv') (\<lambda>(r, base'). kept base base')"
    if evs: "EV_SIGNAL \<notin> evs" "EV_PERSIST \<notin> evs" and tv': "\<And>t. tv' = Some t \<Longrightarrow> tv_fits base t" for fd' evs tv'
  proof -
    obtain r base2 where a: "event_assign base1 e fd' evs (Once_Callback callback arg) e = (r, base2)" by fastforce
    have cb': "callback_ok ?n (Once_Callback callback arg)" using cb by simp
    have ev': "\<not> (EV_SIGNAL \<in> evs \<and> evs \<inter> {EV_READ, EV_WRITE} \<noteq> {})"
      "is_once (Once_Callback callback arg) \<longrightarrow> EV_SIGNAL \<notin> evs \<and> EV_PERSIST \<notin> evs" using evs by simp_all
    note as = assign_ok [OF u1(1) u1(4) cb' ev' a]
    have c2: "ctl_info base2 = ctl_info base" using as(10) u1(2) by simp
    then have "length (common_timeout_queues base2) = ?n" by (metis length_ctl_info)
    then have ok2: "user_ok base2" using as(2) by (simp add: user_ok_def)
    have com: "is_common_timeout t base2 = is_common_timeout t base" for t by (rule is_common_cong [OF c2])
    have "tv_fits base2 t" if "tv' = Some t" for t using tv' [OF that] by (simp add: tv_fits_def com)
    moreover have "addable base2 e"
      using as(5-8) as(12) i(2) u1(3) ok evs by (auto simp: addable_def watches_sig_def user_defs)
    moreover have "room_for base2 e t" for t using as(3) by (auto simp: room_for_def idle_def on_list_def queue_flags_def)
    moreover have "e \<notin> timer_events base2" using as(3) by (simp add: idle_def)
    ultimately have "can_add base2 e tv'" by (simp add: can_add_def)
    moreover have "e \<in> flagged EVLIST_INIT base2" using as(4) by (simp add: flagged_def)
    ultimately have "runs (event_add p base2 e tv') (\<lambda>(r, base'). kept_but {e} base2 base')" using event_add_ok [OF ok2 p] by blast
    moreover have "kept base base2"
      by (rule kept_at [OF ok2 _ nh]) (use as(12,13) u1(3) c2 i(3) in \<open>auto simp: base1_def timer_events_info\<close>)
    then have "kept_but {e} base base2" by (rule kept_mono) simp
    ultimately have "runs (event_add p base2 e tv') (\<lambda>(r, base'). kept base base')"
      using nh by (auto elim!: runs_mono intro!: kept_all [of "{e}"] intro: kept_trans)
    then show ?thesis using a by simp
  qed
  have clear: "tv_fits base evutil_timerclear"
    using tv_ok_not_common [of evutil_timerclear base] by (simp add: tv_fits_def tv_ok_def evutil_timerclear_def)
  show ?thesis
  proof (cases "events = {EV_TIMEOUT}")
    case True
    have "runs (event_add p (snd (event_assign base1 e (-1) {} (Once_Callback callback arg) e)) e
        (case tv of None \<Rightarrow> Some evutil_timerclear | Some tv \<Rightarrow> Some tv)) (\<lambda>(r, base'). kept base base')"
      by (rule go) (use tv clear in \<open>auto split: option.splits\<close>)
    with True e show ?thesis by (simp add: event_base_once_def Let_def base1_def)
  next
    case False
    have "user_ok base1" using u1(1) len by (simp add: user_ok_def)
    then have "kept base base1"
      by (rule kept_at [OF _ u1(3) nh]) (use u1(2) i(3) in \<open>auto simp: base1_def timer_events_info\<close>)
    with go [of "events \<inter> {EV_READ, EV_WRITE}" tv fd] tv False True e u1(3) ok show ?thesis
      by (auto simp: event_base_once_def Let_def simp flip: base1_def)
  qed
next
  case False
  with ok show ?thesis by (auto simp: event_base_once_def kept_refl)
qed

section \<open>Steps of users\<close>

inductive api_step :: "('b, 'p) loop_env_scheme \<Rightarrow> 'b event_base \<Rightarrow> 'b event_base \<Rightarrow> bool" for p where
  assign: "idle base e \<Longrightarrow> \<not> held base e \<Longrightarrow> \<not> (EV_SIGNAL \<in> events \<and> events \<inter> {EV_READ, EV_WRITE} \<noteq> {})
    \<Longrightarrow> event_assign base e fd events (User_Callback n) arg = (r, base') \<Longrightarrow> api_step p base base'"
| priority: "event_priority_set base e pri = (r, base') \<Longrightarrow> api_step p base base'"
| add: "e \<in> flagged EVLIST_INIT base \<Longrightarrow> \<not> held base e \<Longrightarrow> can_add base e tv \<Longrightarrow> event_add p base e tv = Inr (r, base') \<Longrightarrow> api_step p base base'"
| del: "event_del p base e = Inr (r, base') \<Longrightarrow> api_step p base base'"
| active: "e \<in> flagged EVLIST_INIT base \<Longrightarrow> \<not> held base e \<Longrightarrow> e < MAX_EVENTS \<Longrightarrow> ev_pri (evmem base e) < length (activequeues base)
    \<Longrightarrow> event_active base e res k = Inr base' \<Longrightarrow> api_step p base base'"
| io_active: "0 \<le> fd \<Longrightarrow> evio base fd = Some ctx \<Longrightarrow> evmap_io_active base fd what = Inr base' \<Longrightarrow> api_step p base base'"
| signal_active: "s < length (sigmap base) \<Longrightarrow> sigmap base ! s = Some q \<Longrightarrow> evmap_signal_active base (int s) k = Inr base'
    \<Longrightarrow> api_step p base base'"
| loopbreak: "event_base_loopbreak base = (r, base') \<Longrightarrow> api_step p base base'"
| common: "tv_ok (normal_duration base duration) \<Longrightarrow> event_base_init_common_timeout p base duration = Inr (tv, base')
    \<Longrightarrow> api_step p base base'"
| deferred: "api_step p base (event_deferred_cb_schedule base cb)"
| cancel: "event_deferred_cb_cancel base cb = Inr base' \<Longrightarrow> api_step p base base'"
| outside: "api_step p base (base\<lparr>evbase := b\<rparr>)"
| once: "callback_ok 0 callback \<Longrightarrow> \<not> is_once callback \<Longrightarrow> (\<And>t. tv = Some t \<Longrightarrow> tv_fits base t)
    \<Longrightarrow> event_base_once p base fd events callback arg tv = Inr (r, base') \<Longrightarrow> api_step p base base'"

text \<open>Deferred callbacks change nothing that the invariant of users sees.\<close>

lemma same_user:
  assumes ok: "user_ok base" and b: "base_inv (flagged EVLIST_INSERTED base) base'" "\<And>f. flagged f base' = flagged f base"
    "evmem base' = evmem base" "ctl_info base' = ctl_info base" "length (activequeues base') = length (activequeues base)"
  shows "kept base base'"
proof -
  have com: "is_common_timeout t base' = is_common_timeout t base" for t by (rule is_common_cong [OF b(4)])
  have len: "length (common_timeout_queues base') = length (common_timeout_queues base)" using b(4) by (metis length_ctl_info)
  have fits: "tv_fits base' t = tv_fits base t" for t by (simp add: tv_fits_def com)
  have te: "timer_events base' = timer_events base" unfolding timer_events_info b(4) ..
  have "base_ok base'" using b(1,2) by (simp add: base_ok_def)
  moreover have "held base x \<Longrightarrow> held base' x" for x using held_cong [of base x base'] b(3) te by simp
  ultimately show ?thesis
    using ok unfolding kept_but_def user_defs persist_ok_def persist_event_def commons_inv_def timer_events_info b(2-5) len fits com by simp
qed

lemma defer_kept:
  assumes ok: "user_ok base"
  shows "kept base (event_deferred_cb_schedule base cb)" "runs (event_deferred_cb_cancel base cb) (kept base)"
proof -
  have inv: "base_inv (flagged EVLIST_INSERTED base) base" using ok by (simp add: user_defs base_ok_def)
  have "ctl_info (event_deferred_cb_schedule base cb) = ctl_info base"
    "length (activequeues (event_deferred_cb_schedule base cb)) = length (activequeues base)"
    by (simp_all add: event_deferred_cb_schedule_def notify_base_cbq_callback_def evthread_notify_base_def ctl_info_def)
  with deferred_schedule_ok [OF inv, where cb = cb] show "kept base (event_deferred_cb_schedule base cb)" by (intro same_user [OF ok]) simp_all
  obtain base' where c: "event_deferred_cb_cancel base cb = Inr base'" "base_inv (flagged EVLIST_INSERTED base) base'"
    "\<And>f. flagged f base' = flagged f base" "evmem base' = evmem base"
    using deferred_cancel_ok [OF inv, of cb] by (auto elim!: runsE)
  moreover have "ctl_info base' = ctl_info base" "length (activequeues base') = length (activequeues base)"
    using c(1) by (auto simp: event_deferred_cb_cancel_def bindE_Inr_iff ctl_info_def split: if_splits)
  ultimately have "kept base base'" by (intro same_user [OF ok])
  with c(1) show "runs (event_deferred_cb_cancel base cb) (kept base)" by simp
qed

section \<open>Preservation and progress\<close>

lemma user_watched: "user_ok base \<Longrightarrow> e \<in> flagged EVLIST_INSERTED base \<Longrightarrow> e \<in> flagged EVLIST_INIT base"
  using user_queued [of base EVLIST_INSERTED] by (auto simp: queue_flags_def)

lemma wakes_kept:
  assumes "user_ok base" "wakes S base base'" "S \<subseteq> flagged EVLIST_INIT base" "\<And>x. x \<in> S \<Longrightarrow> \<not> held base x"
  shows "kept base base'"
proof (rule kept_frame [OF wakes_user [OF assms(1-3)]])
  show "frame base base'" "flagged EVLIST_INIT base' = flagged EVLIST_INIT base"
    using assms(2) by (simp_all add: wakes_def)
qed (use assms(2,4) in \<open>auto simp: wakes_def held_def idle_def split: if_splits\<close>)

lemma inserted_not_held: "e \<in> flagged EVLIST_INSERTED base \<Longrightarrow> \<not> held base e"
  by (auto simp: held_def idle_def queue_flags_def)

lemma event_del_ok:
  assumes ok: "user_ok base" and p: "platform_ok p"
  shows "runs (event_del p base e) (\<lambda>(r, base'). kept base base')"
proof (cases "ev_base (evmem base e)")
  case True
  have "base_ok base" "dels_ok p" using ok p by (simp_all add: user_defs platform_ok_def)
  from event_del_runs [OF this True] have "runs (event_del_internal p base e) (\<lambda>(r, base'). r = 0 \<and> deleted e base base')" .
  moreover have "kept base base'" if d: "deleted e base base'" for base'
    by (rule kept_frame [OF deleted_user [OF ok d]])
       (use d in \<open>auto simp: deleted_def queue_flags_def held_def idle_def split: if_splits\<close>)
  ultimately show ?thesis using True by (auto simp: event_del_def elim!: runs_mono)
qed (use ok in \<open>simp add: event_del_def kept_refl\<close>)

lemma event_active_ok:
  assumes ok: "user_ok base" and e: "e \<in> flagged EVLIST_INIT base" "e < MAX_EVENTS" "ev_pri (evmem base e) < length (activequeues base)"
    "\<not> held base e"
  shows "runs (event_active base e res k) (kept base)"
proof (cases "ev_base (evmem base e)")
  case True
  have "base_ok base" using ok by (simp add: user_defs)
  have "runs (event_active_nolock base e res k) (kept base)"
    by (rule runs_mono [OF event_active_runs [OF \<open>base_ok base\<close> e(2,3)]], rule wakes_kept [OF ok activated_wakes], assumption)
       (use e(1,4) in simp_all)
  with True show ?thesis by (simp add: event_active_def)
qed (use ok in \<open>simp add: event_active_def kept_refl\<close>)

lemma io_active_ok:
  assumes ok: "user_ok base" and fd: "0 \<le> fd" "evio base fd = Some ctx"
  shows "runs (evmap_io_active base fd what) (kept base)"
proof -
  have b: "base_ok base" using ok by (simp add: user_defs)
  have "io_waiters base fd what \<subseteq> flagged EVLIST_INIT base" using user_watched [OF ok] by (auto simp: io_waiters_def)
  then show ?thesis by (intro runs_mono [OF evmap_io_active_runs [OF b fd]] wakes_kept [OF ok])
       (use inserted_not_held in \<open>auto simp: io_waiters_def\<close>)
qed

lemma signal_active_ok:
  assumes ok: "user_ok base" and s: "s < length (sigmap base)" "sigmap base ! s = Some q"
  shows "runs (evmap_signal_active base (int s) k) (kept base)"
proof -
  have b: "base_ok base" using ok by (simp add: user_defs)
  have "sig_waiters base s \<subseteq> flagged EVLIST_INIT base" using user_watched [OF ok] by (auto simp: sig_waiters_def)
  then show ?thesis by (intro runs_mono [OF evmap_signal_active_runs [OF b s(2,1)]] wakes_kept [OF ok])
       (use inserted_not_held in \<open>auto simp: sig_waiters_def\<close>)
qed

inductive_cases api_stepE: "api_step p base base'"

lemma api_step_kept:
  assumes "api_step p base base'" and ok: "user_ok base" and p: "platform_ok p"
  shows "kept base base'"
  using assms(1)
proof cases
  case (assign e events fd n arg r)
  have u: "user_inv (length (common_timeout_queues base)) base" using ok by (simp add: user_ok_def)
  note a = assign_ok [OF u assign(1) _ assign(3) _ assign(4), simplified]
  have "length (common_timeout_queues base') = length (common_timeout_queues base)" using a(10) by (metis length_ctl_info)
  then have "user_ok base'" using a(2) by (simp add: user_ok_def)
  then show ?thesis
    by (rule kept_at [OF _ _ assign(2)]) (use a(4,10,12-14) in \<open>auto simp: timer_events_info flagged_def\<close>)
next
  case (priority e pri r)
  have u: "user_inv (length (common_timeout_queues base)) base" using ok by (simp add: user_ok_def)
  note a = priority_ok [OF u priority]
  have "length (common_timeout_queues base') = length (common_timeout_queues base)" using a(4) by (metis length_ctl_info)
  moreover have "held base x \<Longrightarrow> held base' x" for x
    using held_cong [of base x base'] a(2-4) by (simp add: timer_events_info)
  ultimately show ?thesis using a(1-3,5) by (simp add: kept_but_def user_ok_def flagged_def)
next
  case (loopbreak r)
  then have "base' = (if need_notify base then evthread_notify_base (base\<lparr>event_break := True\<rparr>) else base\<lparr>event_break := True\<rparr>)"
    by (auto simp: event_base_loopbreak_def Let_def)
  with ok show ?thesis by (auto simp: kept_but_def evthread_notify_base_def held_def idle_def flagged_def timer_events_def)
next
  case (once callback tv fd events arg r)
  have "callback_ok (length (common_timeout_queues base)) callback" using once(1) callback_ok_mono by blast
  then have "runs (event_base_once p base fd events callback arg tv) (\<lambda>(r, base'). kept base base')"
    using once(2,3) by (intro event_base_once_ok [OF ok p])
  with once(4) show ?thesis by simp
next
  case (common duration tv)
  have "fresh_events p" using p by (simp add: platform_ok_def)
  from init_common_timeout_ok [OF ok common(1) this] common(2) show ?thesis by simp
next
  case (add e tv r)
  from event_add_ok [OF ok p add(1,3)] add(2,4) show ?thesis by (auto intro: kept_all)
next
  case (del e r)
  from event_del_ok [OF ok p, of e] del show ?thesis by simp
next
  case (active e res k)
  from event_active_ok [OF ok active(1,3,4,2), of res k] active(5) show ?thesis by simp
next
  case (io_active fd ctx what)
  from io_active_ok [OF ok io_active(1,2), of what] io_active(3) show ?thesis by simp
next
  case (signal_active s q k)
  from signal_active_ok [OF ok signal_active(1,2), of k] signal_active(3) show ?thesis by simp
next
  case (deferred cb)
  with defer_kept(1) [OF ok] show ?thesis by simp
next
  case (outside b)
  with ok show ?thesis by (simp add: kept_but_def held_def idle_def flagged_def timer_events_def)
next
  case (cancel cb)
  from defer_kept(2) [OF ok, of cb] cancel show ?thesis by simp
qed

lemma api_steps_kept:
  assumes "(api_step p)\<^sup>*\<^sup>* base base'" "user_ok base" "platform_ok p"
  shows "kept base base'"
  using assms(1)
proof induction
  case base
  with assms(2) show ?case by (rule kept_refl)
next
  case (step b c)
  then show ?case using api_step_kept [OF step(2) _ assms(3)] kept_trans by (auto simp: kept_but_def)
qed

lemma new_base_ok:
  assumes p: "clock_ok p" and m: "\<And>e. ev_flags (mem e) = {}" and run: "event_base_new p mem b = Some base"
  shows "user_ok base"
proof -
  define base0 where "base0 = \<lparr>evbase = b, evio = (\<lambda>_. None), sigmap = [], evmem = mem,
    virtual_event_count = 0, event_count = 0,
    event_count_active = 0, event_gotterm = False, event_break = False, event_continue = False,
    event_running_priority = 0, running_loop = False, activequeues = [], common_timeout_queues = [],
    n_common_timeouts_allocated = 0, defer_list = [], defer_active_count = 0, cb_queued = (\<lambda>_. False),
    eventqueue = [], event_tv = evutil_timerclear, timeheap = min_heap_ctor, tv_cache = evutil_timerclear,
    current_event = None, closure_ncalls = 0, need_notify = False, is_notify_pending = False,
    has_notify_fn = False, notifications = 0\<rparr>"
  have fl0: "flagged f (x\<lparr>evmem := mem\<rparr>) = {}" for f x using m by (simp add: flagged_def)
  have time0: "time_ok evutil_timerclear" by (simp add: time_ok_def tv_ok_def evutil_timerclear_def)
  have inv0: "base_inv {} base0"
    using m time0 heap_ok_ctor
    by (simp add: base0_def inv_defs io_ok_def io_slot_ok_def io_slot_def evmap_io_init_def waiting_def sig_ok_def sig_slot_def)
  obtain tv base1 where g: "gettime p base0 = (tv, base1)" by fastforce
  note gt = gettime_ok [OF p inv0 g]
  have b1: "base1 = base0 \<or> (\<exists>b. base1 = base0\<lparr>evbase := b\<rparr>)" using g by (auto simp: gettime_def split: if_splits prod.splits)
  have b: "base = (evmap_signal_initmap (evmap_io_initmap (base1\<lparr>event_tv := tv\<rparr>)))\<lparr>activequeues := [[]]\<rparr>"
    using run g b1 by (auto simp: event_base_new_def event_base_priority_init_def Let_def base0_def EVENT_MAX_PRIORITIES_def
        N_ACTIVE_CALLBACKS_def evmap_signal_initmap_def evmap_io_initmap_def split: if_splits)
  have "user_ok base"
    using m time0 gt(1) heap_ok_ctor b1 unfolding b
    by (auto simp: base0_def user_unfold evmap_signal_initmap_def evmap_io_initmap_def io_ok_def io_slot_ok_def io_slot_def
        evmap_io_init_def waiting_def sig_ok_def sig_slot_def)
  then show ?thesis .
qed

end
