(* ===== verification/Event_Timeout.thy ===== *)
theory Event_Timeout
  imports Event_API
begin

text \<open>
  Timeouts: those that are due become active events, in the heap and on the lists of common timeouts, and all of
  them are moved when the clock has gone back.
\<close>

section \<open>Timeouts that are due\<close>

definition expired :: "nat set \<Rightarrow> 'b event_base \<Rightarrow> 'b event_base \<Rightarrow> bool" where
  "expired S base base' \<longleftrightarrow> user_ok base' \<and> frame base base'
     \<and> (\<forall>f. flagged f base' = (if f = EVLIST_ACTIVE then flagged f base \<union> S
          else if f \<in> queue_flags then flagged f base - S else flagged f base))
     \<and> (\<forall>x. same_times (evmem base x) (evmem base' x)) \<and> (\<forall>x. x \<notin> S \<longrightarrow> same_event (evmem base x) (evmem base' x))
     \<and> (\<forall>x\<in>S. ev_res (evmem base' x) = {EV_TIMEOUT})"

lemma expired_refl: "user_ok base \<Longrightarrow> expired {} base base"
  by (simp add: expired_def)

lemma expired_waiting:
  assumes "expired S base base'"
  shows "on_heap base' = on_heap base - S" "on_list i base' = on_list i base - S"
    "flagged EVLIST_TIMEOUT base' = flagged EVLIST_TIMEOUT base - S" "ev_timeout (evmem base' x) = ev_timeout (evmem base x)"
proof -
  have fr: "frame base base'" using assms by (simp add: expired_def)
  show t: "flagged EVLIST_TIMEOUT base' = flagged EVLIST_TIMEOUT base - S" "ev_timeout (evmem base' x) = ev_timeout (evmem base x)" for x
    using assms by (simp_all add: expired_def queue_flags_def same_times_def)
  show "on_heap base' = on_heap base - S" "on_list i base' = on_list i base - S"
    unfolding on_heap_def on_list_def t frame_common [OF fr] by blast+
qed

lemma expired_trans:
  assumes ab: "expired S a b" and bc: "expired T b c" and T: "T \<subseteq> flagged EVLIST_TIMEOUT b"
  shows "expired (S \<union> T) a c"
proof -
  have fr: "frame a c" using ab bc by (auto simp: expired_def intro: frame_trans)
  have ok: "user_ok c" using bc by (simp add: expired_def)
  have disj: "x \<in> S \<Longrightarrow> x \<notin> T" for x using T expired_waiting(3) [OF ab] by auto
  have st: "same_times (evmem a x) (evmem c x)" for x
    using ab bc same_times_trans [of "evmem a x" "evmem b x" "evmem c x"] by (simp add: expired_def)
  have se: "same_event (evmem a x) (evmem c x)" if "x \<notin> S \<union> T" for x
    using ab bc that same_event_trans [of "evmem a x" "evmem b x" "evmem c x"] by (simp add: expired_def)
  have res: "ev_res (evmem c x) = {EV_TIMEOUT}" if "x \<in> S \<union> T" for x
  proof (cases "x \<in> T")
    case False
    with bc have "same_event (evmem b x) (evmem c x)" by (simp add: expired_def)
    with False that ab show ?thesis using same_event_fields(6) by (metis Un_iff expired_def)
  qed (use bc in \<open>simp add: expired_def\<close>)
  have fl: "flagged f c = (if f = EVLIST_ACTIVE then flagged f a \<union> (S \<union> T)
          else if f \<in> queue_flags then flagged f a - (S \<union> T) else flagged f a)" for f
    using ab bc by (simp add: expired_def Un_assoc Diff_eq) blast
  show ?thesis using ok fr fl st se res unfolding expired_def by simp
qed

lemma user_queue_event:
  assumes "user_ok base" "q \<in> queue_flags" "e \<in> flagged q base"
  shows "e < MAX_EVENTS" "ev_pri (evmem base e) < length (activequeues base)" "e \<in> flagged EVLIST_INIT base" "ev_base (evmem base e)"
    "callback_ok (length (common_timeout_queues base)) (ev_callback (evmem base e))" "persist_event base (evmem base e)"
proof -
  show "e < MAX_EVENTS" "ev_pri (evmem base e) < length (activequeues base)"
    using assms by (auto simp: user_defs base_ok_def base_inv_def pri_ok_def queues_ok_def counts_ok_def)
  show i: "e \<in> flagged EVLIST_INIT base" using user_queued [OF assms(1,2)] assms(3) by blast
  then show "ev_base (evmem base e)" "callback_ok (length (common_timeout_queues base)) (ev_callback (evmem base e))"
    "persist_event base (evmem base e)"
    using assms(1) by (simp_all add: user_defs commons_inv_def persist_ok_def)
qed

lemma expire_runs:
  assumes ok: "user_ok base" and p: "platform_ok p" and e: "e \<in> flagged EVLIST_TIMEOUT base"
  shows "runs (expire p base e) (expired {e} base)"
proof -
  have q: "EVLIST_TIMEOUT \<in> queue_flags" by (simp add: queue_flags_def)
  note u = user_queue_event [OF ok q e]
  have "base_ok base" "dels_ok p" using ok p by (simp_all add: user_defs platform_ok_def)
  from event_del_runs [OF this u(4)] obtain base1 where
    d: "event_del_internal p base e = Inr (0, base1)" "deleted e base base1" by (auto elim!: runsE)
  have ok1: "user_ok base1" by (rule deleted_user [OF ok d(2)])
  have fr1: "frame base base1" and b1: "base_ok base1" using d(2) by (simp_all add: deleted_def)
  have fl1: "flagged f base1 = (if f \<in> queue_flags then flagged f base - {e} else flagged f base)" for f
    using d(2) by (simp add: deleted_def)
  have "ev_pri (evmem base1 e) < length (activequeues base1)" using u(2) frame_events(3) [OF fr1, of e] frame_fields(1) [OF fr1] by simp
  from event_active_runs [OF b1 u(1) this, of "{EV_TIMEOUT}" 1] obtain base2 where
    a: "event_active_nolock base1 e {EV_TIMEOUT} 1 = Inr base2" "activated e {EV_TIMEOUT} base1 base2" by (auto elim!: runsE)
  have "e \<in> flagged EVLIST_INIT base1" using fl1 [of EVLIST_INIT] u(3) by (simp add: queue_flags_def)
  then have ok2: "user_ok base2" using wakes_user [OF ok1 activated_wakes [OF a(2)]] by simp
  have fl2: "flagged f base2 = (if f = EVLIST_ACTIVE then insert e (flagged f base1) else flagged f base1)" for f
    using a(2) by (simp add: activated_def)
  have "e \<notin> flagged EVLIST_ACTIVE base1" by (simp add: fl1 queue_flags_def)
  then have res: "ev_res (evmem base2 e) = {EV_TIMEOUT}" using a(2) by (simp add: activated_def)
  have se1: "same_event (evmem base x) (evmem base1 x)" for x using d(2) by (simp add: deleted_def)
  have "same_times (evmem base x) (evmem base2 x)" for x
    using a(2) same_times_trans [OF same_event_times [OF se1 [of x]]] by (simp add: activated_def)
  moreover have "same_event (evmem base x) (evmem base2 x)" if "x \<noteq> e" for x
    using a(2) that same_event_trans [OF se1 [of x]] by (simp add: activated_def)
  moreover have "frame base base2" using fr1 a(2) by (auto simp: activated_def intro: frame_trans)
  moreover have "flagged f base2 = (if f = EVLIST_ACTIVE then flagged f base \<union> {e}
          else if f \<in> queue_flags then flagged f base - {e} else flagged f base)" for f
    by (auto simp: fl1 fl2 queue_flags_def)
  ultimately have "expired {e} base base2" using ok2 res by (simp add: expired_def)
  with d(1) a(1) show ?thesis by (simp add: expire_def)
qed

lemma finite_waiting: "user_ok base \<Longrightarrow> finite (flagged EVLIST_TIMEOUT base)"
  by (rule finite_bounded) (simp add: user_defs base_ok_def base_inv_def queues_ok_def counts_ok_def queue_flags_def)

lemma expired_smaller:
  assumes "user_ok base" "expired {e} base base'" "e \<in> flagged EVLIST_TIMEOUT base"
  shows "card (flagged EVLIST_TIMEOUT base') < card (flagged EVLIST_TIMEOUT base)"
  unfolding expired_waiting(3) [OF assms(2)] by (rule card_Diff1_less [OF finite_waiting [OF assms(1)] assms(3)])

lemma user_heap:
  assumes "user_ok base"
  shows "heap_ok (timeheap base, evmem base)" "heap_members (timeheap base) = on_heap base"
    "i < length (common_timeout_queues base) \<Longrightarrow> list_ok base i (common_timeout_queues base ! i)"
  using assms by (simp_all add: user_defs base_ok_def base_inv_def queues_ok_def timeouts_ok_def)


lemma gettime_user:
  assumes ok: "user_ok base" and p: "platform_ok p" and g: "gettime p base = (now, base')"
  shows "expired {} base base'" "time_ok now" "kept base base'" "common_timeout_queues base' = common_timeout_queues base"
proof -
  have "clock_ok p" "base_inv (flagged EVLIST_INSERTED base) base"
    using ok p by (simp_all add: user_defs base_ok_def platform_ok_def)
  note gt = gettime_ok [OF this g]
  show "time_ok now" by (rule gt(1))
  have eq: "base' = base \<or> (\<exists>b. base' = base\<lparr>evbase := b\<rparr>)" using g by (auto simp: gettime_def split: if_splits prod.splits)
  then have "user_ok base'" using ok by auto
  with gt(3-5) show "expired {} base base'" by (simp add: expired_def)
  from eq ok show "kept base base'" "common_timeout_queues base' = common_timeout_queues base"
    by (auto simp: kept_but_def held_def idle_def flagged_def timer_events_def)
qed

text \<open>The events in the heap that are due become active, and nothing else does.\<close>

lemma timeout_process_runs:
  assumes ok: "user_ok base" and p: "platform_ok p"
  shows "runs (timeout_process p base)
    (expired {e \<in> on_heap base. ev_timeout (evmem base e) \<le> fst (gettime p base)} base)"
proof (cases "min_heap_empty (timeheap base)")
  case True
  then have none: "on_heap base = {}" using user_heap(2) [OF ok] by (auto simp: min_heap_empty_def heap_members_def)
  from True show ?thesis by (simp add: timeout_process_def none expired_refl [OF ok])
next
  case False
  obtain now base1 where g: "gettime p base = (now, base1)" by fastforce
  note gu = gettime_user [OF ok p g]
  let ?S = "{e \<in> on_heap base. ev_timeout (evmem base e) \<le> now}"
  let ?I = "\<lambda>b. \<exists>T\<subseteq>?S. expired T base b"
  have "?I base1" using gu(1) by blast
  then have "runs (loops (\<lambda>base. bindE (min_heap_top (timeheap base)) (\<lambda>ev. case ev of
                   None \<Rightarrow> Inr (Inr base)
                 | Some e \<Rightarrow> if evutil_timercmp_gt (ev_timeout (evmem base e)) now then Inr (Inr base)
                             else bindE (expire p base e) (\<lambda>base. Inr (Inl base)))) base1) (expired ?S base)"
  proof (rule runs_loops [where I = ?I and m = "\<lambda>b. card (flagged EVLIST_TIMEOUT b)", rotated])
    fix b assume "?I b"
    then obtain T where T: "T \<subseteq> ?S" "expired T base b" by blast
    then have bok: "user_ok b" by (simp add: expired_def)
    note w = expired_waiting [OF T(2)]
    from heap_top [OF user_heap(1) [OF bok]] obtain r where r: "min_heap_top (timeheap b) = Inr r"
      "case r of None \<Rightarrow> on_heap b = {} | Some e \<Rightarrow> e \<in> on_heap b \<and> (\<forall>x\<in>on_heap b. ev_timeout (evmem b e) \<le> ev_timeout (evmem b x))"
      unfolding user_heap(2) [OF bok] by blast
    have stop: "expired ?S base b" if none: "\<And>x. x \<in> on_heap b \<Longrightarrow> now < ev_timeout (evmem b x)"
    proof -
      have "?S \<subseteq> T" using none w(1,4) by (auto simp: not_le [symmetric])
      with T show ?thesis by (simp add: subset_antisym)
    qed
    show "runs (bindE (min_heap_top (timeheap b)) (\<lambda>ev. case ev of
                   None \<Rightarrow> Inr (Inr b)
                 | Some e \<Rightarrow> if evutil_timercmp_gt (ev_timeout (evmem b e)) now then Inr (Inr b)
                             else bindE (expire p b e) (\<lambda>base. Inr (Inl base))))
       (\<lambda>r. case r of Inl b' \<Rightarrow> ?I b' \<and> card (flagged EVLIST_TIMEOUT b') < card (flagged EVLIST_TIMEOUT b) | Inr b' \<Rightarrow> expired ?S base b')"
    proof (cases r)
      case None
      with r stop show ?thesis by simp
    next
      case (Some e)
      show ?thesis
      proof (cases "now < ev_timeout (evmem b e)")
        case True
        with Some r stop show ?thesis by force
      next
        case False
        have e: "e \<in> on_heap b" "e \<in> flagged EVLIST_TIMEOUT b" using r(2) Some by (auto simp: on_heap_def)
        have "insert e T \<subseteq> ?S" using T(1) e(1) w(1,4) False by (auto simp: not_less)
        then have step: "?I b' \<and> card (flagged EVLIST_TIMEOUT b') < card (flagged EVLIST_TIMEOUT b)" if x: "expired {e} b b'" for b'
          using expired_trans [OF T(2) x] e(2) expired_smaller [OF bok x e(2)] by (intro conjI exI [of _ "insert e T"]) simp_all
        have "runs (expire p b e) (\<lambda>b'. ?I b' \<and> card (flagged EVLIST_TIMEOUT b') < card (flagged EVLIST_TIMEOUT b))"
          by (rule runs_mono [OF expire_runs [OF bok p e(2)] step])
        then show ?thesis using False r(1) Some by (simp add: runs_bindE)
      qed
    qed
  qed
  with False g show ?thesis by (simp only: timeout_process_def if_False prod.case fst_conv)
qed

section \<open>Common timeouts that are due\<close>

definition past :: "timeval \<Rightarrow> timeval \<Rightarrow> bool" where
  "past now tv \<longleftrightarrow> and_usec tv MICROSECONDS_MASK \<le> now"

lemma past_test:
  "sint (tv_sec tv) > sint (tv_sec now) \<or> tv_sec tv = tv_sec now \<and> sint (tv_usec tv AND MICROSECONDS_MASK) > sint (tv_usec now)
    \<longleftrightarrow> \<not> past now tv"
  by (auto simp: past_def and_usec_def less_eq_timeval_def tv_key_def sint_eq_iff)


text \<open>On a list the bits above the microseconds are the same, so that times are ordered as their microseconds are.\<close>

definition list_bits :: "nat \<Rightarrow> 32 word" where
  "list_bits i = COMMON_TIMEOUT_MAGIC OR push_bit COMMON_TIMEOUT_IDX_SHIFT (of_nat i)"

lemma common_bits:
  assumes "is_common_timeout t base"
  shows "tv_usec t AND NOT MICROSECONDS_MASK = list_bits (COMMON_TIMEOUT_IDX t)" "COMMON_TIMEOUT_IDX t < 256"
proof -
  have split: "NOT MICROSECONDS_MASK = COMMON_TIMEOUT_MASK OR COMMON_TIMEOUT_IDX_MASK"
    unfolding COMMON_TIMEOUT_MASK_def COMMON_TIMEOUT_IDX_MASK_def MICROSECONDS_MASK_def by (transfer; simp add: take_bit_eq_mod)
  have "push_bit 20 (drop_bit 20 (tv_usec t AND COMMON_TIMEOUT_IDX_MASK)) = tv_usec t AND COMMON_TIMEOUT_IDX_MASK"
    by (rule bit_word_eqI) (auto simp: common_masks(3) bit_and_iff bit_drop_bit_eq bit_push_bit_iff bit_mask_iff)
  moreover have "tv_usec t AND COMMON_TIMEOUT_MASK = COMMON_TIMEOUT_MAGIC" using assms by (simp add: is_common_timeout_def)
  ultimately show "tv_usec t AND NOT MICROSECONDS_MASK = list_bits (COMMON_TIMEOUT_IDX t)"
    unfolding split list_bits_def COMMON_TIMEOUT_IDX_def COMMON_TIMEOUT_IDX_SHIFT_def by (simp add: bit.conj_disj_distrib)
  have "take_bit 8 (drop_bit 20 (tv_usec t AND COMMON_TIMEOUT_IDX_MASK)) = drop_bit 20 (tv_usec t AND COMMON_TIMEOUT_IDX_MASK)"
    by (rule bit_word_eqI) (auto simp: common_masks(3) bit_and_iff bit_drop_bit_eq bit_push_bit_iff bit_mask_iff bit_take_bit_iff)
  then have "unat (drop_bit 20 (tv_usec t AND COMMON_TIMEOUT_IDX_MASK)) = take_bit 8 (unat (drop_bit 20 (tv_usec t AND COMMON_TIMEOUT_IDX_MASK)))"
    by (metis unsigned_take_bit_eq)
  then show "COMMON_TIMEOUT_IDX t < 256"
    unfolding COMMON_TIMEOUT_IDX_def COMMON_TIMEOUT_IDX_SHIFT_def
    using take_bit_nat_less_exp [of 8 "unat (drop_bit 20 (tv_usec t AND COMMON_TIMEOUT_IDX_MASK))"] by simp
qed

lemma sint_of_small: "m < 2 ^ 31 \<Longrightarrow> sint (of_nat m :: 32 word) = int m"
  by (simp add: signed_of_nat signed_take_bit_int_eq_self)

lemma sint_small:
  fixes w :: "32 word"
  assumes "uint w < 2 ^ 20"
  shows "sint w = uint w"
proof -
  have "unat w < 2 ^ 31" using assms unfolding uint_nat of_nat_less_numeral_power_cancel_iff by (rule less_le_trans) simp
  from sint_of_small [OF this] show ?thesis by simp
qed

lemma list_bits_sint:
  assumes "i < 256"
  shows "sint (list_bits i) = 5 * 2 ^ 28 + int i * 2 ^ 20"
proof -
  have "COMMON_TIMEOUT_MAGIC AND push_bit 20 (of_nat i) = 0"
  proof (rule bit_word_eqI)
    fix j
    have "j < 28" if "bit (push_bit 20 (of_nat i) :: 32 word) j"
    proof -
      have "take_bit 8 i = i" using assms by (simp add: take_bit_nat_eq_self)
      then have "bit i k \<Longrightarrow> k < 8" for k by (metis bit_take_bit_iff)
      from this [of "j - 20"] that show ?thesis by (auto simp: bit_push_bit_iff bit_of_nat_iff)
    qed
    then show "bit (COMMON_TIMEOUT_MAGIC AND push_bit 20 (of_nat i)) j = bit (0 :: 32 word) j"
      unfolding bit_and_iff common_masks(2) bit_push_bit_iff [of 28] by auto
  qed
  then have "list_bits i = COMMON_TIMEOUT_MAGIC + push_bit 20 (of_nat i)"
    using word_plus_and_or [of COMMON_TIMEOUT_MAGIC "push_bit 20 (of_nat i)"] by (simp add: list_bits_def COMMON_TIMEOUT_IDX_SHIFT_def)
  also have "\<dots> = of_nat (5 * 2 ^ 28 + i * 2 ^ 20)"
    by (simp add: common_masks(2) push_bit_eq_mult)
  finally have "sint (list_bits i) = int (5 * 2 ^ 28 + i * 2 ^ 20)" using sint_of_small [of "5 * 2 ^ 28 + i * 2 ^ 20"] assms by (simp only:) simp
  then show ?thesis by simp
qed

lemma common_usec:
  assumes "is_common_timeout t base"
  shows "sint (tv_usec t) = sint (tv_usec t AND MICROSECONDS_MASK) + sint (list_bits (COMMON_TIMEOUT_IDX t))"
proof -
  let ?u = "tv_usec t AND MICROSECONDS_MASK" and ?v = "list_bits (COMMON_TIMEOUT_IDX t)"
  have "take_bit 20 (tv_usec t) = ?u" by (simp add: micro_mask take_bit_eq_mask)
  then have "uint ?u = take_bit 20 (uint (tv_usec t))" by (metis unsigned_take_bit_eq)
  then have u: "0 \<le> uint ?u" "uint ?u < 2 ^ 20" using take_bit_int_less_exp [of 20 "uint (tv_usec t)"] by simp_all
  have "sint ?u = uint ?u" by (rule sint_small [OF u(2)])
  with u have us: "0 \<le> sint ?u" "sint ?u < 2 ^ 20" by simp_all
  have "?u AND ?v = 0"
    unfolding common_bits(1) [OF assms, symmetric] by (rule bit_word_eqI) (auto simp: bit_and_iff bit_not_iff)
  then have "?u + ?v = ?u OR ?v" using word_plus_and_or [of ?u ?v] by simp
  also have "\<dots> = tv_usec t"
    unfolding common_bits(1) [OF assms, symmetric] by (simp flip: bit.conj_disj_distrib)
  finally have "sint (tv_usec t) = sint (?u + ?v)" by simp
  also have "\<dots> = sint ?u + sint ?v"
    using us list_bits_sint [OF common_bits(2) [OF assms]] common_bits(2) [OF assms] by (intro sint_plus_32) simp_all
  finally show ?thesis .
qed

lemma list_order:
  assumes "is_common_timeout a base" "is_common_timeout b base" "COMMON_TIMEOUT_IDX a = COMMON_TIMEOUT_IDX b"
  shows "and_usec a MICROSECONDS_MASK \<le> and_usec b MICROSECONDS_MASK \<longleftrightarrow> a \<le> b"
  using common_usec [OF assms(1)] common_usec [OF assms(2)] assms(3)
  by (auto simp: less_eq_timeval_def tv_key_def and_usec_def)


lemma expire_list_runs:
  assumes ok: "user_ok base" and p: "platform_ok p" and i: "i < length (common_timeout_queues base)"
  shows "runs (expire_list p i now base) (\<lambda>(r, base').
    expired {e \<in> on_list i base. past now (ev_timeout (evmem base e))} base base'
    \<and> (\<forall>e. r = Some e \<longrightarrow> e \<in> on_list i base'))"
proof -
  let ?S = "{e \<in> on_list i base. past now (ev_timeout (evmem base e))}"
  let ?I = "\<lambda>b. \<exists>T\<subseteq>?S. expired T base b"
  let ?P = "\<lambda>(r, base'). expired ?S base base' \<and> (\<forall>e. r = Some e \<longrightarrow> e \<in> on_list i base')"
  have len: "length (common_timeout_queues b) = length (common_timeout_queues base)" if "expired T base b" for T b
    using that frame_fields(2) [of base b] by (metis expired_def length_ctl_info)
  show ?thesis
    unfolding expire_list_def
  proof (rule runs_loops [where I = ?I and m = "\<lambda>b. card (flagged EVLIST_TIMEOUT b)", rotated])
    show "?I base" using expired_refl [OF ok] by blast
    fix b assume "?I b"
    then obtain T where T: "T \<subseteq> ?S" "expired T base b" by blast
    then have bok: "user_ok b" by (simp add: expired_def)
    note w = expired_waiting [OF T(2)]
    have l: "holds (ctl_events (common_timeout_queues b ! i)) (on_list i b)"
      "sorted (map (\<lambda>e. ev_timeout (evmem b e)) (ctl_events (common_timeout_queues b ! i)))"
      using user_heap(3) [OF bok, of i] len [OF T(2)] i by (simp_all add: list_ok_def)
    have stop: "expired ?S base b" if none: "\<And>x. x \<in> on_list i b \<Longrightarrow> \<not> past now (ev_timeout (evmem b x))"
    proof -
      have "?S \<subseteq> T" using none w(2,4) by auto
      with T show ?thesis by (simp add: subset_antisym)
    qed
    show "runs (case ctl_events (common_timeout_queues b ! i) of [] \<Rightarrow> Inr (Inr (None, b))
       | e # _ \<Rightarrow> let tv = ev_timeout (evmem b e) in
           if sint (tv_sec tv) > sint (tv_sec now)
              \<or> tv_sec tv = tv_sec now \<and> sint (tv_usec tv AND MICROSECONDS_MASK) > sint (tv_usec now)
           then Inr (Inr (Some e, b)) else bindE (expire p b e) (\<lambda>base. Inr (Inl base)))
       (\<lambda>r. case r of Inl b' \<Rightarrow> ?I b' \<and> card (flagged EVLIST_TIMEOUT b') < card (flagged EVLIST_TIMEOUT b) | Inr x \<Rightarrow> ?P x)"
    proof (cases "ctl_events (common_timeout_queues b ! i)")
      case Nil
      then show ?thesis using stop l(1) by (simp add: holds_def)
    next
      case (Cons e es)
      then have e: "e \<in> on_list i b" using l(1) by (auto simp: holds_def)
      then have et: "e \<in> flagged EVLIST_TIMEOUT b" by (simp add: on_list_def)
      show ?thesis
      proof (cases "past now (ev_timeout (evmem b e))")
        case False
        have "\<not> past now (ev_timeout (evmem b x))" if x: "x \<in> on_list i b" for x
        proof -
          have "x \<in> set (e # es)" using x l(1) Cons by (simp add: holds_def)
          then have "ev_timeout (evmem b e) \<le> ev_timeout (evmem b x)" using l(2) Cons by auto
          then have "and_usec (ev_timeout (evmem b e)) MICROSECONDS_MASK \<le> and_usec (ev_timeout (evmem b x)) MICROSECONDS_MASK"
            using e x list_order [of "ev_timeout (evmem b e)" b "ev_timeout (evmem b x)"] by (simp add: on_list_def)
          with False show ?thesis unfolding past_def by (metis order_trans)
        qed
        from stop [OF this] Cons e False show ?thesis by (simp add: Let_def past_test)
      next
        case True
        have "insert e T \<subseteq> ?S" using T(1) e(1) w(2,4) True by auto
        then have step: "?I b' \<and> card (flagged EVLIST_TIMEOUT b') < card (flagged EVLIST_TIMEOUT b)" if x: "expired {e} b b'" for b'
          using expired_trans [OF T(2) x] et expired_smaller [OF bok x et] by (intro conjI exI [of _ "insert e T"]) simp_all
        have "runs (expire p b e) (\<lambda>b'. ?I b' \<and> card (flagged EVLIST_TIMEOUT b') < card (flagged EVLIST_TIMEOUT b))"
          by (rule runs_mono [OF expire_runs [OF bok p et] step])
        then show ?thesis using Cons True by (simp add: Let_def past_test runs_bindE)
      qed
    qed
  qed
qed

lemma expired_kept:
  assumes e: "expired S base base'" and S: "S \<subseteq> flagged EVLIST_TIMEOUT base"
  shows "kept base base'"
proof (rule kept_frame)
  show "user_ok base'" "frame base base'" "flagged EVLIST_INIT base' = flagged EVLIST_INIT base"
    using e by (simp_all add: expired_def queue_flags_def)
  fix q x assume "q \<in> queue_flags" "held base x"
  moreover from this have "x \<notin> S" using S by (auto simp: held_def idle_def queue_flags_def)
  ultimately show "x \<notin> flagged q base'" using e by (auto simp: expired_def held_def idle_def queue_flags_def)
qed

lemma scheduled_timers_kept:
  assumes ok: "user_ok base" and s: "scheduled (timer_events base) base base'"
  shows "kept base base'"
proof (rule kept_frame [OF scheduled_user [OF ok s]])
  show "frame base base'" "flagged EVLIST_INIT base' = flagged EVLIST_INIT base"
    using s by (simp_all add: scheduled_def queue_flags_def)
  fix q x assume "q \<in> queue_flags" and "held base x"
  then have "x \<notin> timer_events base" "x \<notin> flagged q base" by (simp_all add: held_def idle_def)
  moreover from this have "ev_flags (evmem base' x) = ev_flags (evmem base x)"
    using s unfolding scheduled_def untouched_def by blast
  ultimately show "x \<notin> flagged q base'" by (simp add: flagged_def)
qed simp

text \<open>The callback of the timer of a list: what is due becomes active, and the timer waits for the next event.\<close>

lemma common_timeout_callback_runs:
  assumes ok: "user_ok base" and p: "platform_ok p" and i: "i < length (common_timeout_queues base)"
  shows "runs (common_timeout_callback p i base) (\<lambda>base'. \<exists>base1.
    expired {e \<in> on_list i base. past (fst (gettime p base)) (ev_timeout (evmem base e))} base base1
    \<and> scheduled (timer_events base1) base1 base')"
proof -
  obtain now base0 where g: "gettime p base = (now, base0)" by fastforce
  note gu = gettime_user [OF ok p g]
  let ?S = "{e \<in> on_list i base. past now (ev_timeout (evmem base e))}"
  have ok0: "user_ok base0" and i0: "i < length (common_timeout_queues base0)" using gu(1,4) i by (simp_all add: expired_def)
  have S0: "{e \<in> on_list i base0. past now (ev_timeout (evmem base0 e))} = ?S"
    using expired_waiting(2,4) [OF gu(1)] by simp
  obtain r base1 where l: "expire_list p i now base0 = Inr (r, base1)" "expired ?S base0 base1" "\<And>e. r = Some e \<Longrightarrow> e \<in> on_list i base1"
    using expire_list_runs [OF ok0 p i0, of now] unfolding S0 by (auto elim!: runsE)
  have St: "?S \<subseteq> flagged EVLIST_TIMEOUT base0" using expired_waiting(3) [OF gu(1)] by (auto simp: on_list_def)
  have ex: "expired ?S base base1" using expired_trans [OF gu(1) l(2) St] by simp
  then have ok1: "user_ok base1" and fr: "frame base base1" by (simp_all add: expired_def)
  have "length (common_timeout_queues base1) = length (common_timeout_queues base)" using frame_fields(2) [OF fr] by (metis length_ctl_info)
  with i have i1: "i < length (common_timeout_queues base1)" by simp
  have "runs (case r of None \<Rightarrow> Inr base1 | Some e \<Rightarrow> common_timeout_schedule p base1 (common_timeout_queues base1 ! i) e)
      (scheduled (timer_events base1) base1)"
  proof (cases r)
    case None
    with ok1 show ?thesis by (simp add: scheduled_def user_defs)
  next
    case (Some e)
    have "clock_ok p" "realloc_ok (heap_realloc p)" using p by (simp_all add: platform_ok_def)
    from common_timeout_schedule_runs [OF this, of base1] ok1 l(3) [OF Some] i1 Some show ?thesis
      unfolding schedules_def by (simp add: user_defs on_list_def)
  qed
  then obtain base2 where b2: "(case r of None \<Rightarrow> Inr base1 | Some e \<Rightarrow> common_timeout_schedule p base1 (common_timeout_queues base1 ! i) e) = Inr base2"
    "scheduled (timer_events base1) base1 base2" by (rule runsE)
  from b2(1) have "common_timeout_callback p i base = Inr base2"
    using i g l(1) by (simp add: common_timeout_callback_def)
  with ex b2(2) g show ?thesis by auto
qed

lemma common_timeout_callback_kept:
  assumes "user_ok base" "platform_ok p" "i < length (common_timeout_queues base)"
  shows "runs (common_timeout_callback p i base) (kept base)"
proof (rule runs_mono [OF common_timeout_callback_runs [OF assms]])
  fix base'
  let ?S = "{e \<in> on_list i base. past (fst (gettime p base)) (ev_timeout (evmem base e))}"
  assume "\<exists>base1. expired ?S base base1 \<and> scheduled (timer_events base1) base1 base'"
  then obtain base1 where b: "expired ?S base base1" "scheduled (timer_events base1) base1 base'" by blast
  have "kept base base1" by (rule expired_kept [OF b(1)]) (auto simp: on_list_def)
  then show "kept base base'" by (rule kept_trans) (rule scheduled_timers_kept [OF _ b(2)], use b(1) in \<open>simp add: expired_def\<close>)
qed


section \<open>Time goes back\<close>

text \<open>A subtraction of times that does not overflow is exact.\<close>

definition exact_sub :: "timeval \<Rightarrow> timeval \<Rightarrow> bool" where
  "exact_sub tv off \<longleftrightarrow> sub_time tv off = Inr (evutil_timersub tv off)"

lemma sint_of_int_small: "- (2 ^ 31) \<le> k \<Longrightarrow> k < 2 ^ 31 \<Longrightarrow> sint (of_int k :: 32 word) = k"
  by (simp add: signed_of_int signed_take_bit_int_eq_self)

lemma exact_sub_usecs:
  assumes "exact_sub a b" "tv_ok a" "tv_ok b"
  shows "tv_ok (evutil_timersub a b)" "usecs (evutil_timersub a b) = usecs a - usecs b"
proof -
  let ?d = "if sint (tv_usec a) < sint (tv_usec b) then 1 else 0 :: int"
  have r: "- (2 ^ 31) \<le> sint (tv_sec a) - sint (tv_sec b) - ?d" "sint (tv_sec a) - sint (tv_sec b) - ?d < 2 ^ 31"
    using assms(1) by (auto simp: exact_sub_def sub_time_def Let_def split: if_splits)
  have s: "sint (of_int (sint (tv_sec a) - sint (tv_sec b) - ?d) :: 32 word) = sint (tv_sec a) - sint (tv_sec b) - ?d"
    by (rule sint_of_int_small [OF r])
  have u: "sint (tv_usec a - tv_usec b) = sint (tv_usec a) - sint (tv_usec b)"
    using assms(2,3) by (intro sint_minus_32) (auto simp: tv_ok_def)
  have u1: "sint (tv_usec a - tv_usec b + 1000000) = sint (tv_usec a) - sint (tv_usec b) + 1000000" if "sint (tv_usec a) < sint (tv_usec b)"
    using sint_plus_32 [of "tv_usec a - tv_usec b" 1000000] u assms(2,3) that by (auto simp: tv_ok_def)
  show "tv_ok (evutil_timersub a b)" "usecs (evutil_timersub a b) = usecs a - usecs b"
    using assms(2,3) u u1 s by (auto simp: evutil_timersub_def Let_def tv_ok_def usecs_def)
qed

lemma exact_sub_mono:
  assumes "exact_sub a off" "exact_sub b off" "tv_ok a" "tv_ok b" "tv_ok off" "a \<le> b"
  shows "evutil_timersub a off \<le> evutil_timersub b off"
  using assms exact_sub_usecs [of a off] exact_sub_usecs [of b off] by (simp add: usecs_less_eq)

text \<open>The time that takes the place of a timeout.\<close>

definition plain :: "'b event_base \<Rightarrow> timeval \<Rightarrow> timeval" where
  "plain base tv = (if is_common_timeout tv base then and_usec tv MICROSECONDS_MASK else tv)"

definition corrected :: "timeval \<Rightarrow> 'b event_base \<Rightarrow> timeval \<Rightarrow> timeval" where
  "corrected off base tv =
     (let t = evutil_timersub (plain base tv) off
      in if is_common_timeout tv base then or_usec t (list_bits (COMMON_TIMEOUT_IDX tv)) else t)"

lemma fits_plain: "tv_fits base tv \<longleftrightarrow> tv_ok (plain base tv)"
  by (simp add: tv_fits_def plain_def)

lemma corrected_class:
  assumes fit: "tv_fits base tv" and off: "tv_ok off" and ex: "exact_sub (plain base tv) off"
  shows "is_same_common_timeout (corrected off base tv) tv" "plain base (corrected off base tv) = evutil_timersub (plain base tv) off"
    "tv_fits base (corrected off base tv)" "is_common_timeout (corrected off base tv) base = is_common_timeout tv base"
    "COMMON_TIMEOUT_IDX (corrected off base tv) = COMMON_TIMEOUT_IDX tv"
proof -
  let ?t = "evutil_timersub (plain base tv) off"
  have t: "tv_ok ?t" using exact_sub_usecs(1) [OF ex] fit off by (simp add: fits_plain)
  have "is_same_common_timeout (corrected off base tv) tv \<and> plain base (corrected off base tv) = ?t"
  proof (cases "is_common_timeout tv base")
    case True
    have bits: "tv_usec tv AND NOT MICROSECONDS_MASK = list_bits (COMMON_TIMEOUT_IDX tv)" by (rule common_bits(1) [OF True])
    from or_class(1) [OF t, of "tv_usec tv" "tv_sec tv"] or_class(2) [OF t, of "tv_usec tv"] True bits
    have s: "is_same_common_timeout (corrected off base tv) tv" "and_usec (corrected off base tv) MICROSECONDS_MASK = ?t"
      by (simp_all add: corrected_def Let_def)
    with same_class(1) [OF s(1), of base] True show ?thesis by (simp add: plain_def)
  next
    case False
    then have "tv_ok tv" using fit by (simp add: tv_fits_def)
    with False t tv_ok_micro(2) [OF t] tv_ok_micro(2) [of tv] tv_ok_not_common [OF t, of base] show ?thesis
      by (simp add: corrected_def Let_def is_same_common_timeout_def plain_def)
  qed
  then have s: "is_same_common_timeout (corrected off base tv) tv" "plain base (corrected off base tv) = ?t" by simp_all
  then show "is_same_common_timeout (corrected off base tv) tv" "plain base (corrected off base tv) = ?t"
    "tv_fits base (corrected off base tv)" using t by (simp_all add: fits_plain)
  show "is_common_timeout (corrected off base tv) base = is_common_timeout tv base"
    "COMMON_TIMEOUT_IDX (corrected off base tv) = COMMON_TIMEOUT_IDX tv"
    using same_class(1) [OF s(1), of base] same_class(2) [OF s(1)] by simp_all
qed

text \<open>What \<open>event_add\<close> reckons: the class of the timeout stays, and the time is that many microseconds from now.\<close>

lemma deadline_plain:
  assumes now: "time_ok now" and fit: "tv_fits base tv"
  shows "plain base (add_deadline now tv False (is_common_timeout tv base)) = evutil_timeradd now (plain base tv)"
proof -
  let ?d = "add_deadline now tv False (is_common_timeout tv base)"
  have ok: "tv_ok now" using now by (simp add: time_ok_def)
  note cls = deadline_class(1) [OF ok fit, of False]
  have sum: "tv_ok (evutil_timeradd now (plain base tv))" using ok fit by (simp add: fits_plain timeradd_ok)
  show ?thesis
  proof (cases "is_common_timeout tv base")
    case True
    then have p: "plain base tv = and_usec tv MICROSECONDS_MASK" by (simp add: plain_def)
    have "is_common_timeout ?d base" using same_class(1) [OF cls, of base] True by simp
    with True or_class(2) [OF sum, of "tv_usec tv"] show ?thesis by (simp add: plain_def add_deadline_def)
  next
    case False
    then have "\<not> is_common_timeout ?d base" using same_class(1) [OF cls, of base] by simp
    with False show ?thesis by (simp add: plain_def add_deadline_def)
  qed
qed

lemma deadline_usecs:
  assumes "time_ok now" "tv_fits base tv"
  shows "usecs now + usecs (plain base tv) < 2 ^ 31 * 1000000
    \<Longrightarrow> usecs (plain base (add_deadline now tv False (is_common_timeout tv base))) = usecs now + usecs (plain base tv)"
    and "2 ^ 31 * 1000000 \<le> usecs now + usecs (plain base tv)
    \<Longrightarrow> usecs (plain base (add_deadline now tv False (is_common_timeout tv base)))
      = usecs now + usecs (plain base tv) - 2 ^ 32 * 1000000"
  unfolding deadline_plain [OF assms]
  using timeradd_exact [OF assms(1), of "plain base tv"] assms(2) by (simp_all add: fits_plain)

lemma corrected_mono:
  assumes fit: "tv_fits base a" "tv_fits base b" and off: "tv_ok off"
    and ex: "exact_sub (plain base a) off" "exact_sub (plain base b) off"
    and same: "is_common_timeout a base = is_common_timeout b base" "is_common_timeout a base \<Longrightarrow> COMMON_TIMEOUT_IDX a = COMMON_TIMEOUT_IDX b"
    and le: "a \<le> b"
  shows "corrected off base a \<le> corrected off base b"
proof -
  note ca = corrected_class [OF fit(1) off ex(1)] and cb = corrected_class [OF fit(2) off ex(2)]
  have "plain base a \<le> plain base b" using le list_order [of a base b] same by (auto simp: plain_def)
  then have "evutil_timersub (plain base a) off \<le> evutil_timersub (plain base b) off"
    using fit off ex by (intro exact_sub_mono) (simp_all add: fits_plain)
  then show ?thesis
    unfolding ca(2) [symmetric] cb(2) [symmetric]
    using list_order [of "corrected off base a" base "corrected off base b"] ca(4,5) cb(4,5) same
    by (auto simp: plain_def split: if_splits)
qed


text \<open>Changing all timeouts of a set of events.\<close>

definition retime :: "timeval \<Rightarrow> nat set \<Rightarrow> 'b event_base \<Rightarrow> 'b event_base \<Rightarrow> bool" where
  "retime off A base base' \<longleftrightarrow> (\<forall>x\<in>A. exact_sub (plain base (ev_timeout (evmem base x))) off)
     \<and> base' = base\<lparr>evmem := \<lambda>x. if x \<in> A then (evmem base x)\<lparr>ev_timeout := corrected off base (ev_timeout (evmem base x))\<rparr>
                                 else evmem base x\<rparr>"

lemma retime_fields:
  assumes "retime off A base base'"
  shows "timeheap base' = timeheap base" "common_timeout_queues base' = common_timeout_queues base"
    "x \<notin> A \<Longrightarrow> evmem base' x = evmem base x" "plain base' = plain base" "corrected off base' = corrected off base"
proof -
  show c: "timeheap base' = timeheap base" "common_timeout_queues base' = common_timeout_queues base"
    "x \<notin> A \<Longrightarrow> evmem base' x = evmem base x" using assms by (simp_all add: retime_def)
  have "is_common_timeout tv base' = is_common_timeout tv base" for tv using c(2) by (simp add: is_common_timeout_def)
  then show "plain base' = plain base" "corrected off base' = corrected off base"
    by (simp_all add: plain_def corrected_def fun_eq_iff)
qed

lemma retime_empty: "retime off {} base base"
  by (simp add: retime_def)

lemma retime_trans:
  assumes ab: "retime off A a b" and bc: "retime off B b c" and disj: "A \<inter> B = {}"
  shows "retime off (A \<union> B) a c"
proof -
  note f = retime_fields [OF ab]
  have same: "x \<in> B \<Longrightarrow> evmem b x = evmem a x" for x using f(3) [of x] disj by blast
  have "exact_sub (plain a (ev_timeout (evmem a x))) off" if "x \<in> A \<union> B" for x
    using that ab bc same [of x] f(4) by (auto simp: retime_def)
  moreover have "c = a\<lparr>evmem := \<lambda>x. if x \<in> A \<union> B then (evmem a x)\<lparr>ev_timeout := corrected off a (ev_timeout (evmem a x))\<rparr>
                                 else evmem a x\<rparr>"
  proof -
    obtain m m' where m: "b = a\<lparr>evmem := m\<rparr>" "c = b\<lparr>evmem := m'\<rparr>" using ab bc unfolding retime_def by blast
    then have c: "c = a\<lparr>evmem := evmem c\<rparr>" by simp
    have "evmem c = (\<lambda>x. if x \<in> A \<union> B then (evmem a x)\<lparr>ev_timeout := corrected off a (ev_timeout (evmem a x))\<rparr> else evmem a x)"
      using ab bc same f(5) disj by (auto simp: retime_def fun_eq_iff)
    then have "a\<lparr>evmem := evmem c\<rparr> = a\<lparr>evmem := \<lambda>x. if x \<in> A \<union> B
        then (evmem a x)\<lparr>ev_timeout := corrected off a (ev_timeout (evmem a x))\<rparr> else evmem a x\<rparr>" by (simp only:)
    with c show ?thesis by (rule trans)
  qed
  ultimately show ?thesis by (simp add: retime_def)
qed

lemma retime_folds:
  fixes base :: "'b event_base"
  assumes "distinct xs" "\<And>x y. x \<in> set xs \<Longrightarrow> y \<in> set xs \<Longrightarrow> x \<noteq> y \<Longrightarrow> E x \<inter> E y = {}"
    and "\<And>x b. x \<in> set xs \<Longrightarrow> timeheap b = timeheap base \<Longrightarrow> common_timeout_queues b = common_timeout_queues base
      \<Longrightarrow> (\<And>e. e \<in> E x \<Longrightarrow> evmem b e = evmem base e) \<Longrightarrow> safe (f x b) (retime off (E x) b)"
    and "timeheap s = timeheap base" "common_timeout_queues s = common_timeout_queues base"
    "\<And>x e. x \<in> set xs \<Longrightarrow> e \<in> E x \<Longrightarrow> evmem s e = evmem base e"
  shows "safe (foldE f xs s) (retime off (\<Union>x\<in>set xs. E x) s)"
  using assms
proof (induction xs arbitrary: s)
  case Nil
  show ?case by (simp add: retime_empty)
next
  case (Cons x xs)
  have "safe (f x s) (retime off (E x) s)" by (rule Cons.prems(3)) (use Cons.prems(4-6) in auto)
  then show ?case
    unfolding foldE.simps
  proof (rule safe_bindI)
    fix b assume b: "retime off (E x) s b"
    have disj: "E x \<inter> (\<Union>y\<in>set xs. E y) = {}" using Cons.prems(1,2) by fastforce
    have "safe (foldE f xs b) (retime off (\<Union>y\<in>set xs. E y) b)"
    proof (rule Cons.IH)
      show "evmem b e = evmem base e" if "y \<in> set xs" "e \<in> E y" for y e
        using retime_fields(3) [OF b, of e] Cons.prems(6) [of y e] that disj by auto
    qed (use Cons.prems retime_fields(1,2) [OF b] in auto)
    then show "safe (foldE f xs b) (retime off (\<Union>y\<in>set (x # xs). E y) s)"
      by (rule safe_mono) (use retime_trans [OF b _ disj] in simp)
  qed
qed

lemma sub_time_cases: "sub_time a off = Inl Overflow \<or> exact_sub a off \<and> sub_time a off = Inr (evutil_timersub a off)"
  by (auto simp: exact_sub_def sub_time_def Let_def)

lemma retime_one:
  assumes "exact_sub (plain base (ev_timeout (evmem base e))) off" "tv = corrected off base (ev_timeout (evmem base e))"
  shows "retime off {e} base (set_event e (\<lambda>ev. ev\<lparr>ev_timeout := tv\<rparr>) base)"
  using assms by (simp add: retime_def set_event_def fun_upd_def cong: if_cong)

lemma correct_heap_safe:
  fixes base :: "'b event_base"
  assumes ok: "user_ok base"
  shows "safe (correct_heap off base) (retime off (on_heap base) base)"
proof -
  let ?p = "mh_p (timeheap base)" and ?n = "mh_n (timeheap base)"
  have h: "heap_ok (timeheap base, evmem base)" "heap_members (timeheap base) = on_heap base" by (rule user_heap [OF ok])+
  have d: "distinct (take ?n ?p)" by (rule heap_ok_distinct [OF h(1)])
  have n: "?n \<le> length ?p" using h(1) by (simp add: heap_ok_def)
  have mem: "?p ! i \<in> on_heap base" if "i < ?n" for i
    using that n by (auto simp: heap_members_def in_set_conv_nth simp flip: h(2))
  have "safe (correct_heap off base) (retime off (\<Union>i\<in>set [0..<?n]. {?p ! i}) base)"
    unfolding correct_heap_def
  proof (rule retime_folds)
    show "{?p ! i} \<inter> {?p ! j} = {}" if "i \<in> set [0..<?n]" "j \<in> set [0..<?n]" "i \<noteq> j" for i j
      using that d n by (auto simp: distinct_conv_nth)
    fix i and b :: "'b event_base"
    assume i: "i \<in> set [0..<?n]" and b: "timeheap b = timeheap base" "common_timeout_queues b = common_timeout_queues base"
      and ev: "\<And>e. e \<in> {?p ! i} \<Longrightarrow> evmem b e = evmem base e"
    let ?e = "?p ! i"
    have "\<not> is_common_timeout (ev_timeout (evmem b ?e)) b"
      using mem [of i] i ev [of ?e] b(2) by (simp add: on_heap_def is_common_timeout_def)
    then have pl: "plain b (ev_timeout (evmem b ?e)) = ev_timeout (evmem b ?e)"
      "corrected off b (ev_timeout (evmem b ?e)) = evutil_timersub (ev_timeout (evmem b ?e)) off"
      by (simp_all add: plain_def corrected_def)
    have slot: "heap_slot (mh_p (timeheap b)) i = Inr ?e" using i n b(1) by (simp add: heap_slot_def)
    from sub_time_cases [of "ev_timeout (evmem b ?e)" off]
    show "safe (bindE (heap_slot (mh_p (timeheap b)) i) (\<lambda>e. bindE (sub_time (ev_timeout (evmem b e)) off) (\<lambda>tv.
         Inr (set_event e (\<lambda>ev. ev\<lparr>ev_timeout := tv\<rparr>) b)))) (retime off {?e} b)"
      using retime_one [of b ?e off] pl by (auto simp: slot safe_def)
  qed simp_all
  also have "(\<Union>i\<in>set [0..<?n]. {?p ! i}) = on_heap base"
    using nth_image [OF n] by (auto simp: heap_members_def simp flip: h(2))
  finally show ?thesis .
qed


lemma correct_lists_safe:
  fixes base :: "'b event_base"
  assumes ok: "user_ok base" and b1: "retime off (on_heap base) base base1"
  shows "safe (correct_lists off base1) (retime off (\<Union>i<length (common_timeout_queues base). on_list i base) base1)"
proof -
  let ?q = "common_timeout_queues base"
  note f1 = retime_fields [OF b1]
  have l: "holds (ctl_events (?q ! i)) (on_list i base)" if "i < length ?q" for i
    using user_heap(3) [OF ok that] by (simp add: list_ok_def)
  have same: "evmem base1 e = evmem base e" if "e \<in> on_list i base" for e i
    using f1(3) [of e] that by (auto simp: on_heap_def on_list_def)
  have one: "safe (correct_event off i e b) (retime off {e} b)"
    if e: "e \<in> on_list i base" and b: "common_timeout_queues b = ?q" "evmem b e = evmem base e" for i e and b :: "'b event_base"
  proof -
    have c: "is_common_timeout (ev_timeout (evmem b e)) b" "COMMON_TIMEOUT_IDX (ev_timeout (evmem b e)) = i"
      using e b by (simp_all add: on_list_def is_common_timeout_def)
    then have pl: "plain b (ev_timeout (evmem b e)) = and_usec (ev_timeout (evmem b e)) MICROSECONDS_MASK"
      "corrected off b (ev_timeout (evmem b e))
         = or_usec (evutil_timersub (and_usec (ev_timeout (evmem b e)) MICROSECONDS_MASK) off) (list_bits i)"
      by (simp_all add: plain_def corrected_def)
    from sub_time_cases [of "and_usec (ev_timeout (evmem b e)) MICROSECONDS_MASK" off] show ?thesis
      using retime_one [of b e off] pl by (auto simp: correct_event_def safe_def list_bits_def)
  qed
  have "safe (correct_lists off base1) (retime off (\<Union>i\<in>set [0..<length ?q]. on_list i base) base1)"
    unfolding correct_lists_def f1(2)
  proof (rule retime_folds [where base = base])
    fix i and b :: "'b event_base"
    assume i: "i \<in> set [0..<length ?q]" and b: "timeheap b = timeheap base" "common_timeout_queues b = ?q"
      and ev: "\<And>e. e \<in> on_list i base \<Longrightarrow> evmem b e = evmem base e"
    have h: "distinct (ctl_events (?q ! i))" "set (ctl_events (?q ! i)) = on_list i base"
      using l i by (auto simp: holds_def)
    have "safe (foldE (correct_event off i) (ctl_events (?q ! i)) b) (retime off (\<Union>e\<in>set (ctl_events (?q ! i)). {e}) b)"
      by (rule retime_folds [where base = base]) (use h b ev one in auto)
    with h(2) b(2) show "safe (foldE (correct_event off i) (ctl_events (common_timeout_queues b ! i)) b) (retime off (on_list i base) b)"
      by simp
  qed (use f1 same in \<open>auto simp: on_list_def\<close>)
  then show ?thesis by (simp add: atLeast0LessThan)
qed

text \<open>The times of all events that wait have moved, and the base is as before otherwise.\<close>

lemma waiting_events:
  "flagged EVLIST_TIMEOUT base = on_heap base \<union> (\<Union>i<length (common_timeout_queues base). on_list i base)"
  by (auto simp: on_heap_def on_list_def is_common_timeout_def)

lemma retimed_kept:
  assumes ok: "user_ok base" and rt: "retime off (flagged EVLIST_TIMEOUT base) base base'" and off: "tv_ok off"
  shows "kept base base'" "frame base base'" "flagged f base' = flagged f base" "on_heap base' = on_heap base" "on_list i base' = on_list i base"
proof -
  let ?W = "flagged EVLIST_TIMEOUT base"
  define h where "h x = corrected off base (ev_timeout (evmem base x))" for x
  have b: "base' = base\<lparr>evmem := \<lambda>x. if x \<in> ?W then (evmem base x)\<lparr>ev_timeout := h x\<rparr> else evmem base x\<rparr>"
    using rt unfolding retime_def h_def by (rule conjunct2)
  then have ev: "evmem base' x = (if x \<in> ?W then (evmem base x)\<lparr>ev_timeout := h x\<rparr> else evmem base x)" for x by simp
  have inv: "base_inv (flagged EVLIST_INSERTED base) base" using ok by (simp add: user_defs base_ok_def)
  have fits: "tv_fits base (ev_timeout (evmem base x))" if "x \<in> ?W" for x
    using inv that by (simp add: base_inv_def times_ok_def)
  have ex: "exact_sub (plain base (ev_timeout (evmem base x))) off" if "x \<in> ?W" for x
    using rt that by (simp add: retime_def)
  note cc = corrected_class [OF fits off ex, folded h_def]
  show fr: "frame base base'" by (simp add: b frame_def loop_fields_def ctl_info_def fixed_fields_def)
  show fl: "flagged f base' = flagged f base" for f by (auto simp: flagged_def ev)
  have com: "is_common_timeout (ev_timeout (evmem base' x)) base' = is_common_timeout (ev_timeout (evmem base x)) base"
    "COMMON_TIMEOUT_IDX (ev_timeout (evmem base' x)) = COMMON_TIMEOUT_IDX (ev_timeout (evmem base x))" if "x \<in> ?W" for x
    using cc(4,5) [OF that that] that unfolding frame_common [OF fr] by (simp_all add: ev)
  show oh: "on_heap base' = on_heap base" and ol: "on_list i base' = on_list i base" for i
    unfolding on_heap_def on_list_def fl using com by auto
  have mono: "ev_timeout (evmem base' x) \<le> ev_timeout (evmem base' y)"
    if "x \<in> ?W" "y \<in> ?W" "ev_timeout (evmem base x) \<le> ev_timeout (evmem base y)"
      "x \<in> on_heap base \<and> y \<in> on_heap base \<or> x \<in> on_list i base \<and> y \<in> on_list i base" for x y i
    using corrected_mono [OF fits [OF that(1)] fits [OF that(2)] off ex [OF that(1)] ex [OF that(2)] _ _ that(3)] that
    by (auto simp: ev h_def on_heap_def on_list_def)
  have heap: "heap_ok (timeheap base, evmem base)" "heap_members (timeheap base) = on_heap base" by (rule user_heap [OF ok])+
  have "heap_ok (timeheap base', evmem base')"
  proof -
    let ?p = "mh_p (timeheap base)" and ?n = "mh_n (timeheap base)"
    have n: "?n \<le> length ?p" using heap(1) by (simp add: heap_ok_def)
    then have mem: "?p ! i \<in> on_heap base" if "i < ?n" for i
      using that by (auto simp: heap_members_def in_set_conv_nth simp flip: heap(2))
    have "heap_by (due (evmem base')) ?p ?n"
      unfolding heap_by_def
    proof (intro allI impI)
      fix i assume i: "i < ?n" "0 < i"
      then have "up i < ?n" using less_trans [OF up_less] by blast
      with i heap(1) mem [of i] mem [of "up i"] show "due (evmem base') (?p ! up i) \<le> due (evmem base') (?p ! i)"
        by (intro mono) (auto simp: heap_ok_def heap_by_def on_heap_def)
    qed
    then show ?thesis using heap(1) by (auto simp: b heap_ok_def placed_but_def)
  qed
  moreover have "list_ok base' i (common_timeout_queues base' ! i)" if "i < length (common_timeout_queues base)" for i
  proof -
    have l: "holds (ctl_events (common_timeout_queues base ! i)) (on_list i base)"
      "sorted (map (\<lambda>e. ev_timeout (evmem base e)) (ctl_events (common_timeout_queues base ! i)))"
      using user_heap(3) [OF ok that] by (simp_all add: list_ok_def)
    from l(2) have "sorted (map (\<lambda>e. ev_timeout (evmem base' e)) (ctl_events (common_timeout_queues base ! i)))"
      unfolding sorted_map
      by (rule sorted_wrt_mono_rel [rotated]) (rule mono, use l(1) in \<open>auto simp: holds_def on_list_def\<close>)
    then show ?thesis using l(1) by (simp add: list_ok_def ol) (simp add: b)
  qed
  ultimately have "timeouts_ok base'" using heap(2) by (simp add: timeouts_ok_def oh) (simp add: b)
  moreover have "active_ok base'" using inv active_cong [of base' base] fl by (simp add: b base_inv_def queues_ok_def)
  moreover have "counts_ok base'" using inv counts_cong [of base' base] by (simp add: b base_inv_def queues_ok_def)
  moreover have "holds (eventqueue base') (flagged EVLIST_INSERTED base')"
    unfolding fl using inv by (simp add: b base_inv_def queues_ok_def)
  ultimately have "queues_ok base'" by (simp add: queues_ok_def)
  moreover have "evmaps_ok (flagged EVLIST_INSERTED base) base'"
    using inv evmaps_cong [of base' base] frame_events(1,2) [OF fr] by (simp add: b base_inv_def)
  moreover have "watch_ok base'" "pri_ok base'"
    using inv frame_events(2,3) [OF fr] frame_fields(1) [OF fr] unfolding base_inv_def watch_ok_def pri_ok_def watches_def fl by auto
  moreover have "times_ok base'" unfolding times_ok_def fl frame_fits [OF fr] using cc(3) by (simp add: ev)
  moreover have "timer_ok base x \<Longrightarrow> timer_ok base' x" for x by (erule timer_ok_frame [OF _ fr]) (simp add: ol)
  moreover have "defer_ok base'" using inv frame_defer [OF fr] by (simp add: base_inv_def)
  ultimately have bok: "base_ok base'"
    using inv frame_timers [OF fr] frame_fields(3,4) [OF fr] by (simp add: base_ok_def base_inv_def fl)
  have same: "is_same_common_timeout (h x) t = is_same_common_timeout (ev_timeout (evmem base x)) t" if "x \<in> ?W" for x t
    using cc(1) [OF that that] by (simp add: is_same_common_timeout_def)
  have "user_ok base'"
  proof (rule user_okI [OF ok bok fr fl])
    fix e assume e: "e \<in> flagged EVLIST_INIT base"
    then have "persist_event base (evmem base e)" using ok by (simp add: user_defs persist_ok_def)
    then have "persist_event base (evmem base' e)" using same [of e] cc(3) [of e] by (auto simp: persist_event_def ev)
    then show "same_times (evmem base e) (evmem base' e) \<or> e \<in> timer_events base \<or> persist_event base (evmem base' e)" by blast
  qed (simp add: fl user_queued [OF ok])
  then show "kept base base'"
    by (rule kept_frame [OF _ fr]) (simp_all add: fl held_def idle_def)
qed

text \<open>
  \<open>timeout_correct\<close>: when the clock has gone back, every event that waits still waits as long as before,
  counted from the time the base has noted.
\<close>

definition waits :: "'b event_base \<Rightarrow> nat \<Rightarrow> int" where
  "waits base e = usecs (plain base (ev_timeout (evmem base e))) - usecs (event_tv base)"

lemma user_ok_times:
  "time_ok tv \<Longrightarrow> time_ok (event_tv base) \<Longrightarrow> user_ok (base\<lparr>event_tv := tv\<rparr>) = user_ok base"
  "time_ok tv \<Longrightarrow> time_ok (tv_cache base) \<Longrightarrow> user_ok (base\<lparr>tv_cache := tv\<rparr>) = user_ok base"
  by (simp_all add: user_unfold)

lemma user_times: "user_ok base \<Longrightarrow> time_ok (event_tv base)" "user_ok base \<Longrightarrow> time_ok (tv_cache base)"
  by (simp_all add: user_defs base_ok_def base_inv_def)

lemma event_tv_kept:
  assumes "kept a base" "time_ok tv"
  shows "kept a (base\<lparr>event_tv := tv\<rparr>)"
  using assms user_ok_times(1) [of tv base] user_times(1) [of base]
  by (simp add: kept_but_def held_def idle_def flagged_def timer_events_def)

lemma correct_off:
  assumes "time_ok a" "time_ok b"
  shows "tv_ok (evutil_timersub a b)" "usecs (evutil_timersub a b) = usecs a - usecs b"
proof -
  have "sint (tv_sec a) < 2 ^ 31" "sint (tv_sec b) < 2 ^ 31"
    using sint_lt [of "tv_sec a"] sint_lt [of "tv_sec b"] by simp_all
  then have "exact_sub a b" using assms by (auto simp: exact_sub_def sub_time_def Let_def time_ok_def)
  from exact_sub_usecs [OF this] assms show "tv_ok (evutil_timersub a b)" "usecs (evutil_timersub a b) = usecs a - usecs b"
    by (simp_all add: time_ok_def)
qed

lemma timeout_correct_safe:
  assumes ok: "user_ok base" and p: "platform_ok p"
  shows "safe (timeout_correct p base) (\<lambda>base'. kept base base' \<and> event_tv base' = fst (gettime p base)
    \<and> on_heap base' = on_heap base
    \<and> (if event_tv base \<le> event_tv base' then \<forall>x. same_times (evmem base x) (evmem base' x)
       else \<forall>e\<in>flagged EVLIST_TIMEOUT base. waits base' e = waits base e))"
proof -
  obtain now base1 where g: "gettime p base = (now, base1)" by fastforce
  note gu = gettime_user [OF ok p g]
  have fr1: "frame base base1" and ok1: "user_ok base1" using gu(1) by (simp_all add: expired_def)
  have tv1: "event_tv base1 = event_tv base" by (rule frame_fields(4) [OF fr1])
  have t1: "same_times (evmem base x) (evmem base1 x)" for x using gu(1) by (simp add: expired_def)
  note w1 = expired_waiting [OF gu(1)]
  show ?thesis
  proof (cases "event_tv base \<le> now")
    case True
    have "on_heap (base1\<lparr>event_tv := now\<rparr>) = on_heap base"
      using w1(1) by (simp add: on_heap_def flagged_def is_common_timeout_def)
    with True g tv1 t1 event_tv_kept [OF gu(3,2)] show ?thesis by (simp add: timeout_correct_def)
  next
    case False
    let ?off = "evutil_timersub (event_tv base1) now"
    have "time_ok (event_tv base1)" using ok1 by (simp add: user_defs base_ok_def base_inv_def)
    note off = correct_off [OF this gu(2)]
    have "safe (bindE (correct_heap ?off base1) (correct_lists ?off)) (retime ?off (flagged EVLIST_TIMEOUT base1) base1)"
    proof (rule safe_bindI [OF correct_heap_safe [OF ok1]])
      fix base2 assume b2: "retime ?off (on_heap base1) base1 base2"
      have "on_heap base1 \<inter> (\<Union>i<length (common_timeout_queues base1). on_list i base1) = {}" by (auto simp: on_heap_def on_list_def)
      from retime_trans [OF b2 _ this]
      show "safe (correct_lists ?off base2) (retime ?off (flagged EVLIST_TIMEOUT base1) base1)"
        unfolding waiting_events [of base1] by (rule safe_mono [OF correct_lists_safe [OF ok1 b2]])
    qed
    moreover have "kept base (base2\<lparr>event_tv := now\<rparr>) \<and> on_heap (base2\<lparr>event_tv := now\<rparr>) = on_heap base
        \<and> (\<forall>e\<in>flagged EVLIST_TIMEOUT base. waits (base2\<lparr>event_tv := now\<rparr>) e = waits base e)"
      if rt: "retime ?off (flagged EVLIST_TIMEOUT base1) base1 base2" for base2
    proof -
      note rk = retimed_kept [OF ok1 rt off(1)]
      have "usecs (plain base2 (ev_timeout (evmem base2 e))) = usecs (plain base (ev_timeout (evmem base e))) - usecs ?off"
        if "e \<in> flagged EVLIST_TIMEOUT base" for e
      proof -
        have e: "e \<in> flagged EVLIST_TIMEOUT base1" using that w1(3) by simp
        then have ex: "exact_sub (plain base1 (ev_timeout (evmem base1 e))) ?off" using rt by (simp add: retime_def)
        have fit: "tv_fits base1 (ev_timeout (evmem base1 e))" using ok1 e by (simp add: user_defs base_ok_def base_inv_def times_ok_def)
        have "ev_timeout (evmem base2 e) = corrected ?off base1 (ev_timeout (evmem base1 e))" using rt e by (simp add: retime_def)
        with corrected_class(2) [OF fit off(1) ex] retime_fields(4) [OF rt]
        have "plain base2 (ev_timeout (evmem base2 e)) = evutil_timersub (plain base1 (ev_timeout (evmem base1 e))) ?off" by simp
        moreover have "plain base1 t = plain base t" for t by (simp add: plain_def frame_common [OF fr1])
        ultimately show ?thesis using exact_sub_usecs(2) [OF ex] fit off(1) w1(4) by (simp add: fits_plain)
      qed
      moreover have "plain (base2\<lparr>event_tv := now\<rparr>) = plain base2" by (simp add: plain_def is_common_timeout_def fun_eq_iff)
      moreover have "kept base (base2\<lparr>event_tv := now\<rparr>)" by (rule event_tv_kept [OF kept_trans [OF gu(3) rk(1)] gu(2)])
      moreover have "on_heap (base2\<lparr>event_tv := now\<rparr>) = on_heap base2"
        by (simp add: on_heap_def flagged_def is_common_timeout_def)
      ultimately show ?thesis using off(2) tv1 rk(4) w1(1) by (simp add: waits_def)
    qed
    ultimately have "safe (bindE (correct_heap ?off base1) (correct_lists ?off)) (\<lambda>base2. kept base (base2\<lparr>event_tv := now\<rparr>)
        \<and> on_heap (base2\<lparr>event_tv := now\<rparr>) = on_heap base \<and> (\<forall>e\<in>flagged EVLIST_TIMEOUT base. waits (base2\<lparr>event_tv := now\<rparr>) e = waits base e))"
      by (rule safe_mono)
    then have "safe (bindE (bindE (correct_heap ?off base1) (correct_lists ?off)) (\<lambda>base. Inr (base\<lparr>event_tv := now\<rparr>)))
       (\<lambda>base'. kept base base' \<and> event_tv base' = now \<and> on_heap base' = on_heap base
         \<and> (\<forall>e\<in>flagged EVLIST_TIMEOUT base. waits base' e = waits base e))"
      by (rule safe_bindI) simp
    moreover have "timeout_correct p base
        = bindE (bindE (correct_heap ?off base1) (correct_lists ?off)) (\<lambda>base. Inr (base\<lparr>event_tv := now\<rparr>))"
      using g tv1 False by (simp add: timeout_correct_def Let_def bindE_assoc)
    ultimately show ?thesis using False g by (auto elim!: safe_mono)
  qed
qed

end
