(* ===== verification/Event_Run.thy ===== *)
theory Event_Run
  imports Event_Timeout
begin

text \<open>
  Running the loop: callbacks, the closures of events, the queues of active events and \<open>event_base_loop\<close>. If
  the callbacks of users and the backend use the base through the interface, nothing crashes and the base stays
  well-formed as long as the loop runs.
\<close>

section \<open>Callbacks\<close>

text \<open>Code outside may do any number of steps, and need not end.\<close>

definition by_api :: "('b, 'p) loop_env_scheme \<Rightarrow> ('b event_base \<Rightarrow> 'b event_base exec) \<Rightarrow> bool" where
  "by_api p f \<longleftrightarrow> (\<forall>base. user_ok base \<longrightarrow> safe (f base) ((api_step p)\<^sup>*\<^sup>* base))"

definition env_ok :: "('b, 'p) loop_env_scheme \<Rightarrow> bool" where
  "env_ok p \<longleftrightarrow> platform_ok p \<and> (\<forall>n fd res arg. by_api p (user_callback p n fd res arg)) \<and> (\<forall>cb. by_api p (deferred_callback p cb))
     \<and> (\<forall>base tv. user_ok base \<longrightarrow> safe (dispatch p base tv) (\<lambda>(r, base'). (api_step p)\<^sup>*\<^sup>* base base'))"

lemma env_platform: "env_ok p \<Longrightarrow> platform_ok p"
  by (simp add: env_ok_def)

lemma by_api_kept: "by_api p f \<Longrightarrow> platform_ok p \<Longrightarrow> user_ok base \<Longrightarrow> safe (f base) (kept base)"
  unfolding by_api_def using safe_mono api_steps_kept by metis

text \<open>The priorities stay as they are.\<close>

definition fine :: "nat \<Rightarrow> 'b event_base \<Rightarrow> bool" where
  "fine n base \<longleftrightarrow> user_ok base \<and> length (activequeues base) = n"

lemma kept_fine: "kept_but X base base' \<Longrightarrow> fine n base \<Longrightarrow> fine n base'"
  by (simp add: kept_but_def fine_def)

lemma kept_ok: "kept_but X base base' \<Longrightarrow> user_ok base'"
  by (simp add: kept_but_def)

lemma fine_update [simp]:
  "fine n (base\<lparr>current_event := c\<rparr>) = fine n base" "fine n (base\<lparr>running_loop := r\<rparr>) = fine n base"
  "fine n (base\<lparr>event_break := r\<rparr>) = fine n base" "fine n (base\<lparr>event_gotterm := r\<rparr>) = fine n base"
  "fine n (base\<lparr>event_continue := r\<rparr>) = fine n base" "fine n (base\<lparr>event_running_priority := i\<rparr>) = fine n base"
  "fine n (base\<lparr>closure_ncalls := k\<rparr>) = fine n base" "fine n (base\<lparr>evbase := b\<rparr>) = fine n base"
  by (simp_all add: fine_def)

lemma kept_update [simp]:
  "kept_but X base (b\<lparr>current_event := c\<rparr>) = kept_but X base b" "kept_but X base (b\<lparr>closure_ncalls := k\<rparr>) = kept_but X base b"
  "kept_but X base (b\<lparr>event_gotterm := r\<rparr>) = kept_but X base b"
  by (simp_all add: kept_but_def held_def idle_def flagged_def timer_events_def)

lemma kept_from [simp]:
  "kept_but X (base\<lparr>current_event := c\<rparr>) b = kept_but X base b" "kept_but X (base\<lparr>closure_ncalls := k\<rparr>) b = kept_but X base b"
  by (simp_all add: kept_but_def held_def idle_def flagged_def timer_events_def)

lemma init_event:
  assumes "user_ok base" "e \<in> flagged EVLIST_INIT base"
  shows "ev_base (evmem base e)" "callback_ok (length (common_timeout_queues base)) (ev_callback (evmem base e))"
    "persist_event base (evmem base e)"
  using assms by (simp_all add: user_defs commons_inv_def persist_ok_def)

lemma unassign_ok:
  assumes ok: "user_ok base" and e: "idle base e"
  shows "user_ok (event_debug_unassign base e)"
    "length (activequeues (event_debug_unassign base e)) = length (activequeues base)"
proof -
  let ?f = "\<lambda>ev. ev\<lparr>ev_flags := ev_flags ev - {EVLIST_INIT}\<rparr>"
  have u: "user_inv (length (common_timeout_queues base)) base" using ok by (simp add: user_ok_def)
  have "ev_flags (?f (evmem base e)) \<inter> queue_flags = {}" using e by (auto simp: idle_def flagged_def)
  from set_event_idle [where f = ?f, OF u e this] init_event [OF ok, of e] show "user_ok (event_debug_unassign base e)"
    "length (activequeues (event_debug_unassign base e)) = length (activequeues base)"
    by (simp_all add: event_debug_unassign_def user_ok_def)
qed

lemma run_callback_plain:
  assumes "callback_ok (length (common_timeout_queues base)) cb" "user_ok base" "env_ok p" "\<not> is_once cb"
  shows "safe (run_callback p cb e fd res arg base) (kept base)"
proof (cases cb)
  case (User_Callback n)
  have "by_api p (user_callback p n fd res arg)" "platform_ok p" using assms(3) by (simp_all add: env_ok_def)
  from by_api_kept [OF this assms(2)] User_Callback show ?thesis by simp
next
  case (Common_Timeout_Callback i)
  with assms show ?thesis by (simp add: runs_safe common_timeout_callback_kept env_platform)
next
  case Loopexit_Callback
  with assms show ?thesis by (simp add: kept_refl)
qed (use assms in simp)

lemma run_callback_safe:
  assumes cb: "callback_ok (length (common_timeout_queues base)) cb" and ok: "fine n base" "env_ok p"
    and once: "is_once cb \<Longrightarrow> held base e"
  shows "safe (run_callback p cb e fd res arg base) (fine n)"
proof (cases "is_once cb")
  case False
  have "user_ok base" using ok(1) by (simp add: fine_def)
  from run_callback_plain [OF cb this ok(2) False] show ?thesis by (rule safe_mono) (rule kept_fine [OF _ ok(1)])
next
  case True
  then obtain cb' arg' where Once_Callback: "cb = Once_Callback cb' arg'" by (cases cb) simp_all
  have "safe (run_callback p cb' e fd res arg' base) (kept base)"
    using cb ok Once_Callback by (intro run_callback_plain) (simp_all add: fine_def)
  then show ?thesis
    unfolding Once_Callback run_callback.simps
  proof (rule safe_bindI)
    fix b assume b: "kept base b"
    then have "idle b e" using once Once_Callback by (simp add: kept_but_def held_def)
    with unassign_ok [OF kept_ok [OF b], of e] b ok(1) show "safe (Inr (event_debug_unassign b e)) (fine n)"
      by (simp add: fine_def kept_but_def)
  qed
qed

section \<open>Closures\<close>

lemma timer_callback:
  assumes "user_ok base" "e \<in> timer_events base"
  shows "\<not> is_once (ev_callback (evmem base e))" "ev_closure (evmem base e) = EV_CLOSURE_NONE"
proof -
  obtain i where i: "i < length (ctl_info base)" "e = snd (ctl_info base ! i)"
    using assms(2) by (auto simp: timer_events_info in_set_conv_nth)
  then show "\<not> is_once (ev_callback (evmem base e))" using assms(1) by (simp add: user_defs commons_inv_def)
  show "ev_closure (evmem base e) = EV_CLOSURE_NONE"
    using assms by (simp add: user_defs base_ok_def base_inv_def timer_ok_def)
qed

lemma call_event_plain:
  assumes "user_ok base" "env_ok p" "e \<in> flagged EVLIST_INIT base" "\<not> is_once (ev_callback (evmem base e))"
  shows "safe (call_event p base e) (kept base)"
  unfolding call_event_def Let_def by (rule run_callback_plain [OF init_event(2) [OF assms(1,3)] assms(1,2,4)])

lemma call_event_safe:
  assumes "fine n base" "env_ok p" "e \<in> flagged EVLIST_INIT base" "is_once (ev_callback (evmem base e)) \<Longrightarrow> held base e"
  shows "safe (call_event p base e) (fine n)"
  unfolding call_event_def Let_def by (rule run_callback_safe [OF init_event(2) assms(1,2,4)]) (use assms(1,3) in \<open>simp_all add: fine_def\<close>)

lemma set_event_kept:
  assumes ok: "user_ok base" and f: "\<And>ev. fixed_fields (f ev) = fixed_fields ev" "\<And>ev. ev_flags (f ev) = ev_flags ev"
    "\<And>ev. min_heap_idx (f ev) = min_heap_idx ev" "\<And>ev. same_times ev (f ev)"
  shows "kept base (set_event e f base)"
proof -
  have inv: "base_inv (flagged EVLIST_INSERTED base) base" using ok by (simp add: user_defs base_ok_def)
  have "ev_timeout (f ev) = ev_timeout ev" for ev using f(4) [of ev] by (simp add: same_times_def)
  note s = set_event_inv [OF inv, of f e, OF f(1,2) disjI1 [OF conjI [OF f(3) this]]]
  have "user_ok (set_event e f base)"
    by (rule user_okI [OF ok]) (use s f(4) user_queued [OF ok] in \<open>auto simp: base_ok_def\<close>)
  then show ?thesis by (rule kept_frame) (use s in \<open>auto simp: held_def idle_def\<close>)
qed

lemma calls_kept [simp]:
  "user_ok base \<Longrightarrow> kept base (set_event e (\<lambda>ev. ev\<lparr>ev_ncalls := n\<rparr>) base)"
  "user_ok base \<Longrightarrow> kept base (set_event e (\<lambda>ev. ev\<lparr>ev_pncalls := b\<rparr>) base)"
  by (rule set_event_kept; simp add: fixed_fields_def same_times_def)+

text \<open>A signal event runs until its calls are used up.\<close>

definition running :: "nat \<Rightarrow> nat \<Rightarrow> 'b event_base \<Rightarrow> bool" where
  "running n e base \<longleftrightarrow> fine n base \<and> e \<in> flagged EVLIST_INIT base \<and> \<not> is_once (ev_callback (evmem base e))"

lemma running_kept: "running n e base \<Longrightarrow> kept base base' \<Longrightarrow> running n e base'"
  by (auto simp: running_def kept_but_def fine_def)

lemma signal_call_safe:
  assumes r: "running n e base" and p: "env_ok p"
  shows "safe (signal_call p e base) (\<lambda>r. case r of Inl b \<Rightarrow> running n e b | Inr b \<Rightarrow> running n e b)"
proof (cases "closure_ncalls base = 0")
  case False
  define k where "k = closure_ncalls base - 1"
  define base1 where "base1 = set_event e (\<lambda>ev. ev\<lparr>ev_ncalls := k\<rparr>) (base\<lparr>closure_ncalls := k\<rparr>)"
  define base2 where "base2 = (if k = 0 then set_event e (\<lambda>ev. ev\<lparr>ev_pncalls := False\<rparr>) base1 else base1)"
  have ok: "user_ok base" using r by (simp add: running_def fine_def)
  have k1: "kept base base1" using calls_kept(1) [of "base\<lparr>closure_ncalls := k\<rparr>" e k] ok by (simp add: base1_def)
  have "kept base base2"
    using k1 kept_trans [OF k1 calls_kept(2) [OF kept_ok [OF k1], of e False]] by (simp add: base2_def)
  then have r2: "running n e base2" by (rule running_kept [OF r])
  then have "safe (call_event p base2 e) (kept base2)"
    using p by (intro call_event_plain) (simp_all add: running_def fine_def)
  then have "safe (bindE (call_event p base2 e) (\<lambda>base.
              if event_break base
              then Inr (Inr (if closure_ncalls base \<noteq> 0 then set_event e (\<lambda>ev. ev\<lparr>ev_pncalls := False\<rparr>) base else base))
              else Inr (Inl base))) (\<lambda>r. case r of Inl b \<Rightarrow> running n e b | Inr b \<Rightarrow> running n e b)"
  proof (rule safe_bindI)
    fix b assume "kept base2 b"
    then have b: "running n e b" by (rule running_kept [OF r2])
    then have "running n e (set_event e (\<lambda>ev. ev\<lparr>ev_pncalls := False\<rparr>) b)"
      by (rule running_kept) (use b in \<open>simp add: running_def fine_def\<close>)
    with b show "safe (if event_break b
              then Inr (Inr (if closure_ncalls b \<noteq> 0 then set_event e (\<lambda>ev. ev\<lparr>ev_pncalls := False\<rparr>) b else b))
              else Inr (Inl b)) (\<lambda>r. case r of Inl b \<Rightarrow> running n e b | Inr b \<Rightarrow> running n e b)" by simp
  qed
  with False show ?thesis by (simp only: signal_call_def Let_def base1_def base2_def k_def if_False)
qed (use r in \<open>simp add: signal_call_def\<close>)

lemma signal_closure_safe:
  assumes r: "running n e base" and p: "env_ok p"
  shows "safe (event_signal_closure p base e) (fine n)"
proof -
  define base1 where "base1 = base\<lparr>closure_ncalls := ev_ncalls (evmem base e)\<rparr>"
  define base2 where "base2 = (if ev_ncalls (evmem base e) \<noteq> 0 then set_event e (\<lambda>ev. ev\<lparr>ev_pncalls := True\<rparr>) base1 else base1)"
  have k1: "kept base base1" using r kept_refl [of base "{}"] by (simp add: base1_def running_def fine_def)
  have "kept base base2"
    using k1 kept_trans [OF k1 calls_kept(2) [OF kept_ok [OF k1], of e True]] by (simp add: base2_def)
  then have "running n e base2" by (rule running_kept [OF r])
  then have "safe (loops (signal_call p e) base2) (running n e)"
    by (rule safe_loops [where I = "running n e", rotated]) (rule signal_call_safe [OF _ p])
  then have "safe (loops (signal_call p e) base2) (fine n)" by (rule safe_mono) (simp add: running_def)
  then show ?thesis by (simp only: event_signal_closure_def Let_def base1_def base2_def)
qed


text \<open>A persistent event is added again, in the class of times it was added with.\<close>

lemma persist_run_at_class:
  assumes "is_same_common_timeout (ev_timeout ev) (ev_io_timeout ev)" "tv_fits base (ev_io_timeout ev)"
    "tv_fits base (ev_timeout ev)" "tv_ok now"
  shows "is_same_common_timeout (persist_run_at base ev now) (ev_io_timeout ev)" "tv_fits base (persist_run_at base ev now)"
proof -
  have com: "is_common_timeout (ev_io_timeout ev) base = is_common_timeout (ev_timeout ev) base"
    using same_class(1) [OF assms(1), of base] by simp
  have "is_same_common_timeout (persist_run_at base ev now) (ev_io_timeout ev) \<and> tv_fits base (persist_run_at base ev now)"
  proof (cases "is_common_timeout (ev_timeout ev) base")
    case True
    let ?d = "and_usec (ev_io_timeout ev) MICROSECONDS_MASK"
    define r where "r = (if EV_TIMEOUT \<in> ev_res ev then and_usec (ev_timeout ev) MICROSECONDS_MASK else now)"
    define t where "t = (if evutil_timeradd r ?d < now then evutil_timeradd now ?d else evutil_timeradd r ?d)"
    have "tv_ok r" "tv_ok ?d" using True assms(2-4) com by (simp_all add: r_def tv_fits_def)
    then have t: "tv_ok t" "persist_run_at base ev now = or_usec t (tv_usec (ev_io_timeout ev) AND NOT MICROSECONDS_MASK)"
      using True assms(4) by (simp_all add: persist_run_at_def Let_def timeradd_ok t_def r_def)
    from or_class(1) [OF t(1), of "tv_usec (ev_io_timeout ev)" "tv_sec (ev_io_timeout ev)"] or_class(2) [OF t(1), of "tv_usec (ev_io_timeout ev)"]
    have s: "is_same_common_timeout (persist_run_at base ev now) (ev_io_timeout ev)"
      "and_usec (persist_run_at base ev now) MICROSECONDS_MASK = t" by (simp_all add: t(2))
    then show ?thesis using same_class(1) [OF s(1), of base] t(1) True com by (simp add: tv_fits_def)
  next
    case False
    then have ok: "tv_ok (ev_io_timeout ev)" "tv_ok (ev_timeout ev)" using assms(2,3) com by (simp_all add: tv_fits_def)
    define r where "r = (if EV_TIMEOUT \<in> ev_res ev then ev_timeout ev else now)"
    define t where "t = (if evutil_timeradd r (ev_io_timeout ev) < now then evutil_timeradd now (ev_io_timeout ev)
      else evutil_timeradd r (ev_io_timeout ev))"
    have "tv_ok r" using ok assms(4) by (simp add: r_def)
    then have t: "tv_ok t" "persist_run_at base ev now = or_usec t 0"
      using False ok assms(4) by (simp_all add: persist_run_at_def Let_def timeradd_ok t_def r_def)
    then have "persist_run_at base ev now = t" by (cases t) (simp add: or_usec_def)
    with t tv_ok_micro(2) [OF t(1)] tv_ok_micro(2) [OF ok(1)] tv_ok_not_common [OF t(1), of base] show ?thesis
      by (simp add: tv_fits_def is_same_common_timeout_def)
  qed
  then show "is_same_common_timeout (persist_run_at base ev now) (ev_io_timeout ev)" "tv_fits base (persist_run_at base ev now)" by simp_all
qed

lemma persist_closure_safe:
  fixes base :: "'a event_base"
  assumes ok: "fine n base" and p: "env_ok p" and e: "e \<in> flagged EVLIST_INIT base" "ev_closure (evmem base e) = EV_CLOSURE_PERSIST"
      "e < MAX_EVENTS" "ev_pri (evmem base e) < length (activequeues base)"
  shows "safe (event_persist_closure p base e) (fine n)"
proof -
  have u: "user_ok base" using ok by (simp add: fine_def)
  have pe: "persist_event base (evmem base e)" by (rule init_event(3) [OF u e(1)])
  have r: "running n e base" using ok e pe by (auto simp: running_def persist_event_def)
  have plat: "platform_ok p" "clock_ok p" "realloc_ok (heap_realloc p)" using p by (simp_all add: env_ok_def platform_ok_def)
  have "runs (if evutil_timerisset (ev_io_timeout (evmem base e))
            then if \<not> is_same_common_timeout (ev_timeout (evmem base e)) (ev_io_timeout (evmem base e)) then Inl Assert_Failed
                 else case gettime p base of
                        (now, base) \<Rightarrow>
                          bindE (event_add_internal p base e (Some (persist_run_at base (evmem base e) now)) True)
                            (\<lambda>(_, base). Inr base)
            else Inr base) (running n e)"
  proof (cases "evutil_timerisset (ev_io_timeout (evmem base e))")
    case True
    then have same: "is_same_common_timeout (ev_timeout (evmem base e)) (ev_io_timeout (evmem base e))"
      "tv_fits base (ev_io_timeout (evmem base e))" "tv_fits base (ev_timeout (evmem base e))"
      using pe e(2) by (simp_all add: persist_event_def)
    obtain now base1 where g: "gettime p base = (now, base1)" by fastforce
    note gu = gettime_user [OF u plat(1) g]
    have fr: "frame base base1" and u1: "user_ok base1" using gu(1) by (simp_all add: expired_def)
    have "same_event (evmem base e) (evmem base1 e)" using gu(1) by (simp add: expired_def)
    note se = same_event_fields [OF this]
    have t1: "evmem base1 e = evmem base e \<or> ev_timeout (evmem base1 e) = ev_timeout (evmem base e)" by (simp add: se)
    let ?t = "persist_run_at base1 (evmem base1 e) now"
    have s1: "is_same_common_timeout (ev_timeout (evmem base1 e)) (ev_io_timeout (evmem base1 e))"
      "tv_fits base1 (ev_io_timeout (evmem base1 e))" "tv_fits base1 (ev_timeout (evmem base1 e))" "tv_ok now"
      using same gu(2) by (simp_all add: se frame_fits [OF fr] time_ok_def)
    note c = persist_run_at_class [OF s1]
    have cl: "ev_closure (evmem base1 e) = EV_CLOSURE_PERSIST" using e(2) frame_events(4) [OF fr] by simp
    then have nt: "e \<notin> timer_events base1" using timer_callback(2) [OF u1] by force
    have ns: "EV_SIGNAL \<notin> ev_events (evmem base1 e)" using pe e(2) frame_events(2) [OF fr] by (simp add: persist_event_def)
    have "addable base1 e"
      using e(3,4) ns frame_events(3) [OF fr, of e] frame_fields(1) [OF fr] by (auto simp: addable_def watches_sig_def)
    moreover have "room_for base1 e ?t"
    proof -
      have "is_common_timeout ?t base1 = is_common_timeout (ev_timeout (evmem base1 e)) base1"
        using same_class(1) [OF c(1), of base1] same_class(1) [OF s1(1), of base1] by simp
      then show ?thesis by (auto simp: room_for_def on_list_def)
    qed
    ultimately have can: "can_add base1 e (Some ?t)" using c(2) nt by (simp add: can_add_def)
    have i1: "e \<in> flagged EVLIST_INIT base1" using gu(1) e(1) by (simp add: expired_def queue_flags_def)
    have b1: "base_ok base1" using u1 by (simp add: user_defs)
    have nh: "\<not> held base1 e" using cl init_event(3) [OF u1 i1] by (auto simp: held_def persist_event_def)
    have r1: "running n e base1" by (rule running_kept [OF r gu(3)])
    have "running n e b" if ad: "added time (timer_events base1) e (Some ?t) True q base1 b" for time q b
    proof (rule running_kept [OF r1 kept_all])
      show "kept_but {e} base1 b"
        by (rule added_kept [OF u1 ad i1]) (use c in auto)
    qed (use nh in simp)
    then have "runs (event_add_internal p base1 e (Some ?t) True) (\<lambda>(_, b). running n e b)"
      by (intro runs_mono [OF event_add_runs [OF b1 plat(2,3) can]]) auto
    then show ?thesis using True same(1) g by (auto simp: runs_bindE elim!: runs_mono)
  qed (use r in simp)
  then have "safe (event_persist_closure p base e) (fine n)"
    unfolding event_persist_closure_def
  proof (rule safe_bindI [OF runs_safe])
    fix b :: "'a event_base" assume "running n e b"
    then show "safe (call_event p b e) (fine n)"
      using p by (intro call_event_safe) (simp_all add: running_def)
  qed
  then show ?thesis .
qed


section \<open>The queues of active events\<close>

text \<open>An event is taken from its queue before it runs; one that is not persistent is deleted.\<close>

definition dequeue :: "('b, 'p) loop_env_scheme \<Rightarrow> 'b event_base \<Rightarrow> nat \<Rightarrow> 'b event_base exec" where
  "dequeue p base e =
     (if EV_PERSIST \<in> ev_events (evmem base e) then event_queue_remove base e EVLIST_ACTIVE
      else bindE (event_del_internal p base e) (\<lambda>(_, base). Inr base))"

lemma dequeue_runs:
  assumes ok: "user_ok base" and p: "platform_ok p" and e: "e \<in> flagged EVLIST_ACTIVE base"
  shows "runs (dequeue p base e) (\<lambda>b. user_ok b \<and> frame base b \<and> (\<forall>f. f \<notin> queue_flags \<longrightarrow> flagged f b = flagged f base)
    \<and> flagged EVLIST_ACTIVE b = flagged EVLIST_ACTIVE base - {e}
    \<and> (EV_PERSIST \<notin> ev_events (evmem base e) \<longrightarrow> (\<forall>q\<in>queue_flags. e \<notin> flagged q b)))"
proof (cases "EV_PERSIST \<in> ev_events (evmem base e)")
  case True
  have q: "EVLIST_ACTIVE \<in> queue_flags" by (simp add: queue_flags_def)
  have inv: "base_inv (flagged EVLIST_INSERTED base) base" using ok by (simp add: user_defs base_ok_def)
  have "user_ok b \<and> frame base b \<and> (\<forall>f. f \<notin> queue_flags \<longrightarrow> flagged f b = flagged f base)
    \<and> flagged EVLIST_ACTIVE b = flagged EVLIST_ACTIVE base - {e}" if rm: "removed EVLIST_ACTIVE e base b" for b
  proof -
    note r = removed_inv [OF inv rm q]
    have "same_event (evmem base x) (evmem b x)" for x using rm by (simp add: removed_def queue_change_def)
    then have st: "same_times (evmem base x) (evmem b x)" for x by (rule same_event_times)
    have "user_ok b"
      by (rule user_okI [OF ok _ r(2)])
         (use r(1,3) st in \<open>auto simp: base_ok_def split: if_splits dest: subsetD [OF user_queued [OF ok]]\<close>)
    with r(2,3) show ?thesis by (auto simp: queue_flags_def)
  qed
  moreover have "queues_ok base" using inv by (simp add: base_inv_def)
  ultimately have "runs (event_queue_remove base e EVLIST_ACTIVE) (\<lambda>b. user_ok b \<and> frame base b
    \<and> (\<forall>f. f \<notin> queue_flags \<longrightarrow> flagged f b = flagged f base) \<and> flagged EVLIST_ACTIVE b = flagged EVLIST_ACTIVE base - {e})"
    by (intro runs_mono [OF remove_ACTIVE [OF _ e]])
  with True show ?thesis by (simp add: dequeue_def)
next
  case False
  have "base_ok base" "dels_ok p" using ok p by (simp_all add: user_defs platform_ok_def)
  from event_del_runs [OF this user_queue_event(4) [OF ok _ e]] obtain b where
    d: "event_del_internal p base e = Inr (0, b)" "deleted e base b" by (auto simp: queue_flags_def elim!: runsE)
  have fl: "flagged f b = (if f \<in> queue_flags then flagged f base - {e} else flagged f base)" for f
    using d(2) by (simp add: deleted_def)
  have "flagged EVLIST_ACTIVE b = flagged EVLIST_ACTIVE base - {e}" by (simp add: fl queue_flags_def)
  with d(1) False deleted_user [OF ok d(2)] d(2) fl show ?thesis by (auto simp: dequeue_def deleted_def)
qed

lemma active_head:
  assumes "user_ok base" "i < length (activequeues base)" "activequeues base ! i = e # es"
  shows "e \<in> flagged EVLIST_ACTIVE base" "ev_pri (evmem base e) = i"
proof -
  have "holds (activequeues base ! i) {e \<in> flagged EVLIST_ACTIVE base. ev_pri (evmem base e) = i}"
    using assms(1,2) by (simp add: user_defs base_ok_def base_inv_def queues_ok_def active_ok_def)
  then have "e \<in> {e \<in> flagged EVLIST_ACTIVE base. ev_pri (evmem base e) = i}"
    unfolding assms(3) holds_def by auto
  then show "e \<in> flagged EVLIST_ACTIVE base" "ev_pri (evmem base e) = i" by simp_all
qed

lemma run_closure_safe:
  assumes ok: "fine n base" and p: "env_ok p" and e: "e \<in> flagged EVLIST_INIT base" "e < MAX_EVENTS"
      "ev_pri (evmem base e) < length (activequeues base)" "EV_PERSIST \<notin> ev_events (evmem base e) \<Longrightarrow> \<forall>q\<in>queue_flags. e \<notin> flagged q base"
  shows "safe (run_closure p base e) (fine n)"
proof -
  have u: "user_ok base" using ok by (simp add: fine_def)
  have pe: "persist_event base (evmem base e)" by (rule init_event(3) [OF u e(1)])
  show ?thesis
  proof (cases "ev_closure (evmem base e)")
    case EV_CLOSURE_SIGNAL
    then have "running n e base" using ok e(1) pe by (auto simp: running_def persist_event_def)
    from signal_closure_safe [OF this p] EV_CLOSURE_SIGNAL show ?thesis by (simp add: run_closure_def)
  next
    case EV_CLOSURE_PERSIST
    from persist_closure_safe [OF ok p e(1) EV_CLOSURE_PERSIST e(2,3)] EV_CLOSURE_PERSIST show ?thesis by (simp add: run_closure_def)
  next
    case EV_CLOSURE_NONE
    have "held base e" if once: "is_once (ev_callback (evmem base e))"
    proof -
      have "EV_PERSIST \<notin> ev_events (evmem base e)" using pe once by (simp add: persist_event_def)
      moreover have "e \<notin> timer_events base" using timer_callback(1) [OF u] once by blast
      ultimately show ?thesis using e(1,4) once by (simp add: held_def idle_def flagged_def)
    qed
    from call_event_safe [OF ok p e(1) this] EV_CLOSURE_NONE show ?thesis by (simp add: run_closure_def)
  qed
qed

lemma process_first_safe:
  assumes ok: "fine n (snd cb)" and p: "env_ok p" and i: "i < n"
  shows "safe (process_first p i cb) (\<lambda>r. case r of Inl cb' \<Rightarrow> fine n (snd cb') | Inr cb' \<Rightarrow> fine n (snd cb'))"
proof -
  obtain count base where cb: "cb = (count, base)" by fastforce
  have ok': "fine n base" and u: "user_ok base" and len: "length (activequeues base) = n" using ok by (simp_all add: cb fine_def)
  show ?thesis
  proof (cases "activequeues base ! i")
    case Nil
    with i len ok' show ?thesis by (simp add: process_first_def cb)
  next
    case (Cons e es)
    have e: "e \<in> flagged EVLIST_ACTIVE base" using active_head(1) [OF u _ Cons] i len by simp
    have q: "EVLIST_ACTIVE \<in> queue_flags" by (simp add: queue_flags_def)
    note ue = user_queue_event [OF u q e]
    from dequeue_runs [OF u env_platform [OF p] e] obtain b where b: "dequeue p base e = Inr b" "user_ok b" "frame base b"
      "\<And>f. f \<notin> queue_flags \<Longrightarrow> flagged f b = flagged f base"
      "EV_PERSIST \<notin> ev_events (evmem base e) \<Longrightarrow> \<forall>q\<in>queue_flags. e \<notin> flagged q b" by (auto elim!: runsE)
    let ?b = "b\<lparr>current_event := Some e\<rparr>"
    have "safe (run_closure p ?b e) (fine n)"
    proof (rule run_closure_safe [OF _ p])
      show "fine n ?b" using b(2) len frame_fields(1) [OF b(3)] by (simp add: fine_def)
      show "e \<in> flagged EVLIST_INIT ?b" using b(4) [of EVLIST_INIT] ue(3) by (simp add: queue_flags_def flagged_def)
      show "e < MAX_EVENTS" "ev_pri (evmem ?b e) < length (activequeues ?b)"
        using ue(1,2) frame_events(3) [OF b(3), of e] frame_fields(1) [OF b(3)] by simp_all
      show "\<forall>q\<in>queue_flags. e \<notin> flagged q ?b" if "EV_PERSIST \<notin> ev_events (evmem ?b e)"
        using b(5) that frame_events(2) [OF b(3), of e] by (simp add: flagged_def)
    qed
    then have "safe (bindE (run_closure p ?b e) (\<lambda>base.
              let base = base\<lparr>current_event := None\<rparr> in
              Inr (if event_break base then Inr (-1, base) else if event_continue base then Inr (k, base) else Inl (k, base))))
       (\<lambda>r. case r of Inl cb' \<Rightarrow> fine n (snd cb') | Inr cb' \<Rightarrow> fine n (snd cb'))" for k :: int
      by (rule safe_bindI) (simp add: Let_def)
    then show ?thesis using i len Cons b(1) by (simp add: process_first_def cb dequeue_def Let_def)
  qed
qed

lemma single_queue_safe:
  assumes "fine n base" "env_ok p" "i < n"
  shows "safe (event_process_active_single_queue p base i) (\<lambda>(c, b). fine n b)"
  unfolding event_process_active_single_queue_def
proof (rule safe_loops [where I = "\<lambda>cb. fine n (snd cb)"])
  fix cb :: "int \<times> 'a event_base" assume "fine n (snd cb)"
  from process_first_safe [OF this assms(2,3)]
  show "safe (process_first p i cb) (\<lambda>r. case r of Inl cb' \<Rightarrow> fine n (snd cb') | Inr cb' \<Rightarrow> (case cb' of (c, b) \<Rightarrow> fine n b))"
    by (rule safe_mono) (auto split: sum.splits prod.splits)
qed (use assms in simp)

section \<open>Deferred callbacks\<close>

lemma take_deferred:
  assumes ok: "user_ok base" and d: "defer_list base = cb # cbs"
  shows "kept base (base\<lparr>cb_queued := (cb_queued base)(cb := False), defer_list := cbs, defer_active_count := defer_active_count base - 1\<rparr>)"
proof -
  let ?b = "base\<lparr>cb_queued := (cb_queued base)(cb := False), defer_list := cbs, defer_active_count := defer_active_count base - 1\<rparr>"
  have inv: "base_inv (flagged EVLIST_INSERTED base) base" using ok by (simp add: user_defs base_ok_def)
  have "holds (cb # cbs) {cb. cb_queued base cb}" "defer_active_count base = int (length (cb # cbs))"
    using inv d by (simp_all add: base_inv_def defer_ok_def)
  then have "defer_ok ?b" by (auto simp: defer_ok_def holds_def)
  then have "base_inv (flagged EVLIST_INSERTED base) ?b" using inv by (auto simp: inv_defs)
  then show ?thesis by (rule same_user [OF ok]) (simp_all add: flagged_def ctl_info_def)
qed

lemma process_deferred_safe:
  assumes "env_ok p" "fine n base"
  shows "safe (process_deferred p k base) (\<lambda>(c, b). fine n b)"
  using assms
proof (induction p k base rule: process_deferred.induct)
  case (1 p k base)
  show ?case
  proof (cases "defer_list base")
    case Nil
    with 1(3) show ?thesis by (simp add: process_deferred.simps [of p k])
  next
    case (Cons cb cbs)
    let ?b = "base\<lparr>cb_queued := (cb_queued base)(cb := False), defer_list := cbs, defer_active_count := defer_active_count base - 1\<rparr>"
    have u: "user_ok base" using 1(3) by (simp add: fine_def)
    have k: "kept base ?b" by (rule take_deferred [OF u Cons])
    have "by_api p (deferred_callback p cb)" using 1(2) by (simp add: env_ok_def)
    from by_api_kept [OF this env_platform [OF 1(2)] kept_ok [OF k]]
    have "safe (deferred_callback p cb ?b) (fine n)" by (rule safe_mono) (rule kept_fine [OF kept_trans [OF k] 1(3)])
    then have "safe (bindE (deferred_callback p cb ?b) (\<lambda>base.
          if event_break base then Inr (-1, base)
          else if k + 1 \<ge> MAX_DEFERRED then Inr (int k + 1, base)
          else process_deferred p (k + 1) base)) (\<lambda>(c, b). fine n b)"
      by (rule safe_bindI) (use 1(1) [OF Cons] 1(2) in auto)
    then show ?thesis by (simp add: process_deferred.simps [of p k] Cons)
  qed
qed

section \<open>The loop\<close>

lemma process_active_safe:
  assumes ok: "fine n base" and p: "env_ok p"
  shows "safe (event_process_active p base) (\<lambda>(c, b). fine n b)"
proof -
  have "safe (loops (process_priority p) (0, 0, base)) (\<lambda>(c, b). fine n b)"
  proof (rule safe_loops [where I = "\<lambda>(i, c, b). fine n b"])
    fix s :: "nat \<times> int \<times> 'a event_base" assume "case s of (i, c, b) \<Rightarrow> fine n b"
    then obtain i c b where s: "s = (i, c, b)" and b: "fine n b" by (cases s) auto
    have "safe (event_process_active_single_queue p (b\<lparr>event_running_priority := int i\<rparr>) i) (\<lambda>(c, b). fine n b)" if "i < n"
      using single_queue_safe [OF _ p that, of "b\<lparr>event_running_priority := int i\<rparr>"] b by simp
    then have "safe (bindE (event_process_active_single_queue p (b\<lparr>event_running_priority := int i\<rparr>) i) (\<lambda>(c, base).
          Inr (if c < 0 \<or> c > 0 then Inr (c, base) else Inl (i + 1, c, base))))
       (\<lambda>r. case r of Inl s \<Rightarrow> (case s of (i, c, b) \<Rightarrow> fine n b) | Inr r \<Rightarrow> (case r of (c, b) \<Rightarrow> fine n b))" if "i < n"
      using that by (elim meta_impE) (auto elim!: safe_bindI)
    with b show "safe (process_priority p s)
       (\<lambda>r. case r of Inl s \<Rightarrow> (case s of (i, c, b) \<Rightarrow> fine n b) | Inr r \<Rightarrow> (case r of (c, b) \<Rightarrow> fine n b))"
      by (simp add: process_priority_def s fine_def)
  qed (use ok in simp)
  then show ?thesis
    unfolding event_process_active_def
  proof (rule safe_bindI)
    fix cb :: "int \<times> 'a event_base" assume "case cb of (c, b) \<Rightarrow> fine n b"
    then obtain c b where cb: "cb = (c, b)" "fine n b" by (cases cb) auto
    have "safe (event_process_deferred_callbacks p b) (\<lambda>(c, b). fine n b)"
      unfolding event_process_deferred_callbacks_def by (rule process_deferred_safe [OF p cb(2)])
    then have "safe (bindE (event_process_deferred_callbacks p b) (\<lambda>(_, base). Inr (c, base\<lparr>event_running_priority := -1\<rparr>)))
      (\<lambda>(c, b). fine n b)" by (rule safe_bindI) auto
    with cb show "safe (case cb of (c, base) \<Rightarrow> if c < 0 then Inr (-1, base\<lparr>event_running_priority := -1\<rparr>)
        else bindE (event_process_deferred_callbacks p base) (\<lambda>(_, base). Inr (c, base\<lparr>event_running_priority := -1\<rparr>))) (\<lambda>(c, b). fine n b)"
      by simp
  qed
qed


text \<open>The time the backend may wait: up to the first timeout in the heap.\<close>

lemma heap_time: "user_ok base \<Longrightarrow> e \<in> on_heap base \<Longrightarrow> tv_ok (ev_timeout (evmem base e))"
  by (auto simp: user_defs base_ok_def base_inv_def times_ok_def tv_fits_def on_heap_def)

lemma timeout_next_runs:
  assumes ok: "user_ok base" and p: "platform_ok p"
  shows "runs (timeout_next p base) (\<lambda>(r, tv, base'). r = 0 \<and> expired {} base base'
    \<and> (case tv of None \<Rightarrow> on_heap base = {}
       | Some t \<Rightarrow> \<exists>e\<in>on_heap base. (\<forall>x\<in>on_heap base. ev_timeout (evmem base e) \<le> ev_timeout (evmem base x))
           \<and> usecs t = max 0 (usecs (ev_timeout (evmem base e)) - usecs (fst (gettime p base)))))"
proof -
  from heap_top [OF user_heap(1) [OF ok]] obtain r where r: "min_heap_top (timeheap base) = Inr r"
    "case r of None \<Rightarrow> on_heap base = {}
     | Some e \<Rightarrow> e \<in> on_heap base \<and> (\<forall>x\<in>on_heap base. ev_timeout (evmem base e) \<le> ev_timeout (evmem base x))"
    unfolding user_heap(2) [OF ok] by blast
  show ?thesis
  proof (cases r)
    case None
    with r show ?thesis by (simp add: timeout_next_def expired_refl [OF ok])
  next
    case (Some e)
    obtain now base1 where g: "gettime p base = (now, base1)" by fastforce
    note gu = gettime_user [OF ok p g]
    let ?t = "ev_timeout (evmem base e)"
    have e: "e \<in> on_heap base" "\<And>x. x \<in> on_heap base \<Longrightarrow> ?t \<le> ev_timeout (evmem base x)" using r(2) Some by simp_all
    have t1: "ev_timeout (evmem base1 e) = ?t" by (rule expired_waiting(4) [OF gu(1)])
    have ok_t: "tv_ok ?t" "tv_ok now" using heap_time [OF ok e(1)] gu(2) by (simp_all add: time_ok_def)
    show ?thesis
    proof (cases "?t \<le> now")
      case True
      then have "usecs ?t \<le> usecs now" using ok_t by (simp add: usecs_less_eq)
      then have "usecs evutil_timerclear = max 0 (usecs ?t - usecs now)" by (simp add: usecs_def evutil_timerclear_def)
      with r(1) Some g t1 True gu(1) e show ?thesis by (auto simp: timeout_next_def)
    next
      case False
      let ?d = "evutil_timersub ?t now"
      have sec: "0 \<le> sint (tv_sec now)" "sint (tv_sec now) \<le> sint (tv_sec ?t)"
        using gu(2) False by (auto simp: time_ok_def less_eq_timeval_def tv_key_def)
      then have "time_ok ?t" using ok_t by (simp add: time_ok_def)
      note off = correct_off [OF this gu(2)]
      have pos: "usecs now < usecs ?t" using False ok_t by (simp add: usecs_less_eq)
      then have "0 \<le> sint (tv_sec ?d)" using off by (auto simp: usecs_def tv_ok_def)
      moreover have "0 \<le> sint (tv_usec ?d)" using off(1) by (simp add: tv_ok_def)
      ultimately show ?thesis using r(1) Some g t1 False gu(1) e off(2) pos by (auto simp: timeout_next_def Let_def intro!: bexI [of _ e])
    qed
  qed
qed

lemma gettime_event_tv:
  assumes "fine n base" "platform_ok p"
  shows "fine n (case gettime p base of (tv, base) \<Rightarrow> base\<lparr>event_tv := tv\<rparr>)"
proof -
  obtain tv b where g: "gettime p base = (tv, b)" by fastforce
  have "user_ok base" using assms(1) by (simp add: fine_def)
  note gu = gettime_user [OF this assms(2) g]
  show ?thesis using kept_fine [OF event_tv_kept [OF gu(3,2)] assms(1)] by (simp add: g)
qed

lemma clear_cache_fine: "fine n base \<Longrightarrow> fine n (clear_time_cache base)"
  using user_times(2) [of base] user_ok_times(2) [of "Timeval 0 (tv_usec (tv_cache base))" base]
  by (simp add: fine_def clear_time_cache_def time_ok_def tv_ok_def)

lemma update_cache_fine:
  assumes "fine n base" "platform_ok p"
  shows "fine n (update_time_cache p c base)"
proof -
  obtain tv b where g: "gettime p (clear_time_cache base) = (tv, b)" by fastforce
  have c: "fine n (clear_time_cache base)" by (rule clear_cache_fine [OF assms(1)])
  then have "user_ok (clear_time_cache base)" by (simp add: fine_def)
  note gu = gettime_user [OF this assms(2) g]
  have "fine n b" by (rule kept_fine [OF gu(3) c])
  then have "fine n (b\<lparr>tv_cache := tv\<rparr>)"
    using user_times(2) [of b] user_ok_times(2) [OF gu(2), of b] by (simp add: fine_def)
  with c g show ?thesis by (simp add: update_time_cache_def Let_def)
qed

definition ends :: "nat \<Rightarrow> loop_flags \<Rightarrow> int \<times> 'b event_base \<Rightarrow> bool" where
  "ends n flags = (\<lambda>(r, b). fine n b \<and> r \<in> {-1, 0, 1} \<and> (r = 1 \<longrightarrow> \<not> event_haveevents b \<and> N_ACTIVE_CALLBACKS b = 0)
     \<and> (r = 0 \<longrightarrow> event_gotterm b \<or> event_break b \<or> EVLOOP_ONCE flags \<or> EVLOOP_NONBLOCK flags))"

definition goes_on :: "nat \<Rightarrow> loop_flags \<Rightarrow> bool \<times> 'b event_base \<Rightarrow> bool" where
  "goes_on n flags = (\<lambda>(finished, b). fine n b \<and> (finished \<longrightarrow> EVLOOP_ONCE flags \<or> EVLOOP_NONBLOCK flags))"

lemma loop_timeout_safe:
  assumes ok: "fine n base" and p: "platform_ok p"
  shows "safe (loop_timeout p flags base) (\<lambda>(tv, b). fine n b)"
proof (cases "N_ACTIVE_CALLBACKS base = 0 \<and> \<not> EVLOOP_NONBLOCK flags")
  case True
  have u: "user_ok base" using ok by (simp add: fine_def)
  have "fine n b" if "expired {} base b" for b by (rule kept_fine [OF expired_kept [OF that] ok]) simp
  with timeout_next_runs [OF u p] have "safe (timeout_next p base) (\<lambda>(r, tv, b). fine n b)"
    by (intro runs_safe) (auto elim!: runs_mono)
  then have "safe (bindE (timeout_next p base) (\<lambda>(_, tv, base). Inr (tv, base))) (\<lambda>(tv, b). fine n b)"
    by (rule safe_bindI) auto
  with True show ?thesis by (simp add: loop_timeout_def)
qed (use ok in \<open>auto simp: loop_timeout_def\<close>)

text \<open>After a round the loop goes on or ends.\<close>

abbreviation after_round :: "nat \<Rightarrow> loop_flags \<Rightarrow> (bool \<times> 'b event_base) + (int \<times> 'b event_base) \<Rightarrow> bool" where
  "after_round n flags r \<equiv> (case r of Inl s \<Rightarrow> goes_on n flags s | Inr x \<Rightarrow> ends n flags x)"

lemma loop_process_safe:
  assumes ok: "fine n base" and p: "env_ok p"
  shows "safe (loop_process p c flags base) (after_round n flags)"
proof -
  have u: "fine n (update_time_cache p c base)" by (rule update_cache_fine [OF ok env_platform [OF p]])
  then have u': "user_ok (update_time_cache p c base)" by (simp add: fine_def)
  have "runs (timeout_process p (update_time_cache p c base)) (fine n)"
  proof (rule runs_mono [OF timeout_process_runs [OF u' env_platform [OF p]]])
    fix b assume e: "expired {e \<in> on_heap (update_time_cache p c base). ev_timeout (evmem (update_time_cache p c base) e)
      \<le> fst (gettime p (update_time_cache p c base))} (update_time_cache p c base) b"
    show "fine n b" by (rule kept_fine [OF expired_kept [OF e] u]) (auto simp: on_heap_def)
  qed
  then show ?thesis
    unfolding loop_process_def
  proof (rule safe_bindI [OF runs_safe])
    fix b :: "'a event_base" assume b: "fine n b"
    have "safe (bindE (event_process_active p b) (\<lambda>(n, base).
             Inr (Inl (EVLOOP_ONCE flags \<and> N_ACTIVE_CALLBACKS base = 0 \<and> n \<noteq> 0, base)))) (after_round n flags)"
      by (rule safe_bindI [OF process_active_safe [OF b p]]) (auto simp: goes_on_def)
    with b show "safe (if N_ACTIVE_CALLBACKS b \<noteq> 0 then bindE (event_process_active p b) (\<lambda>(n, base).
               Inr (Inl (EVLOOP_ONCE flags \<and> N_ACTIVE_CALLBACKS base = 0 \<and> n \<noteq> 0, base)))
        else Inr (Inl (EVLOOP_NONBLOCK flags, b))) (after_round n flags)" by (simp add: goes_on_def)
  qed
qed

lemma loop_dispatch_safe:
  assumes ok: "fine n base" and p: "env_ok p"
  shows "safe (loop_dispatch p c flags (tv, base)) (after_round n flags)"
proof (cases "\<not> event_haveevents base \<and> N_ACTIVE_CALLBACKS base = 0")
  case False
  define b where "b = clear_time_cache (case gettime p base of (tv, base) \<Rightarrow> base\<lparr>event_tv := tv\<rparr>)"
  have b: "fine n b" unfolding b_def by (rule clear_cache_fine [OF gettime_event_tv [OF ok env_platform [OF p]]])
  then have "safe (dispatch p b tv) (\<lambda>(r, b'). (api_step p)\<^sup>*\<^sup>* b b')" using p by (simp add: env_ok_def fine_def)
  then have "safe (bindE (dispatch p b tv) (\<lambda>(res, base). if res = -1 then Inr (Inr (-1, base)) else loop_process p c flags base))
    (after_round n flags)"
  proof (rule safe_bindI)
    fix x :: "int \<times> 'a event_base" assume "case x of (r, b') \<Rightarrow> (api_step p)\<^sup>*\<^sup>* b b'"
    then obtain res b' where x: "x = (res, b')" "(api_step p)\<^sup>*\<^sup>* b b'" by (cases x) auto
    have b': "fine n b'" using api_steps_kept [OF x(2) _ env_platform [OF p]] b kept_fine by (auto simp: fine_def)
    from loop_process_safe [OF this p, of c flags] b' x(1)
    show "safe (case x of (res, base) \<Rightarrow> if res = -1 then Inr (Inr (-1, base)) else loop_process p c flags base) (after_round n flags)"
      by (cases "res = -1") (simp_all add: ends_def)
  qed
  with False show ?thesis by (auto simp: loop_dispatch_def Let_def b_def)
qed (use ok in \<open>simp add: loop_dispatch_def ends_def\<close>)

lemma loop_round_safe:
  assumes ok: "goes_on n flags s" and p: "env_ok p"
  shows "safe (loop_round p c flags s) (after_round n flags)"
proof -
  have plat: "platform_ok p" by (rule env_platform [OF p])
  obtain finished base0 where s: "s = (finished, base0)" by fastforce
  define base where "base = base0\<lparr>event_continue := False\<rparr>"
  have f: "fine n base" "user_ok base" "finished \<longrightarrow> EVLOOP_ONCE flags \<or> EVLOOP_NONBLOCK flags"
    using ok by (simp_all add: s goes_on_def base_def fine_def)
  have tail: "safe (bindE (loop_timeout p flags b) (loop_dispatch p c flags)) (after_round n flags)" if b: "fine n b" for b
    by (rule safe_bindI [OF loop_timeout_safe [OF b plat]]) (auto intro: loop_dispatch_safe [OF _ p])
  have tc: "safe (timeout_correct p base) (fine n)"
    by (rule safe_mono [OF timeout_correct_safe [OF f(2) plat]]) (use kept_fine [OF _ f(1)] in blast)
  have "safe (if finished then Inr (Inr (0, base0)) else if event_gotterm base \<or> event_break base then Inr (Inr (0, base))
     else bindE (timeout_correct p base) (\<lambda>base. bindE (loop_timeout p flags base) (loop_dispatch p c flags))) (after_round n flags)"
  proof (cases "finished \<or> event_gotterm base \<or> event_break base")
    case True
    with f ok show ?thesis by (auto simp: ends_def goes_on_def s)
  next
    case False
    from safe_bindI [OF tc, OF tail] False show ?thesis by simp
  qed
  then show ?thesis by (simp only: loop_round_def s Let_def base_def prod.case)
qed

lemma event_base_loop_safe:
  assumes ok: "user_ok base" and p: "env_ok p" and idle: "\<not> running_loop base"
  shows "safe (event_base_loop p c base flags) (\<lambda>(r, b). ends (length (activequeues base)) flags (r, b) \<and> \<not> running_loop b)"
proof -
  let ?n = "length (activequeues base)"
  define base1 where "base1 = clear_time_cache (base\<lparr>running_loop := True\<rparr>)"
  define base2 where "base2 = base1\<lparr>evbase := sig_set_base p (evbase base1), event_gotterm := False, event_break := False\<rparr>"
  have "fine ?n base" using ok by (simp add: fine_def)
  then have "fine ?n base1" unfolding base1_def by (intro clear_cache_fine) simp
  then have "goes_on ?n flags (False, base2)" by (simp add: goes_on_def base2_def)
  then have "safe (loops (loop_round p c flags) (False, base2)) (ends ?n flags)"
    by (rule safe_loops [where I = "goes_on ?n flags", rotated]) (rule loop_round_safe [OF _ p])
  then have "safe (bindE (loops (loop_round p c flags) (False, base2)) (\<lambda>(retval, base).
              Inr (retval, (clear_time_cache base)\<lparr>running_loop := False\<rparr>)))
     (\<lambda>(r, b). ends ?n flags (r, b) \<and> \<not> running_loop b)"
  proof (rule safe_bindI)
    fix x :: "int \<times> 'a event_base" assume "ends ?n flags x"
    then show "safe (case x of (retval, base) \<Rightarrow> Inr (retval, (clear_time_cache base)\<lparr>running_loop := False\<rparr>))
      (\<lambda>(r, b). ends ?n flags (r, b) \<and> \<not> running_loop b)"
      using clear_cache_fine [of ?n "snd x"]
      by (auto simp: ends_def clear_time_cache_def event_haveevents_def N_ACTIVE_CALLBACKS_def split: prod.splits)
  qed
  with idle show ?thesis by (simp add: event_base_loop_def Let_def base1_def base2_def)
qed

end
