(* ===== verification/Event_Spec.thy ===== *)
theory Event_Spec
  imports Event_Run
begin

text \<open>
  What the event base promises its users: the properties of adding, deleting and running events, with a small
  environment and base on which each of them is applied.
\<close>

section \<open>An environment to try things\<close>

text \<open>The backend lets 1000 seconds pass; callbacks of users do nothing.\<close>

definition toy_env :: "nat loop_env" where
  "toy_env = \<lparr>evsel = \<lparr>op_add = (\<lambda>b fd old what. (0, b)), op_del = (\<lambda>b fd old what. (0, b))\<rparr>,
     evsigsel = \<lparr>op_add = (\<lambda>b fd old what. (0, b)), op_del = (\<lambda>b fd old what. (0, b))\<rparr>,
     debug_mode_on = False, io_entry_alloc = (\<lambda>_. True), sig_entry_alloc = (\<lambda>_. True), sig_array_alloc = (\<lambda>_. True),
     heap_realloc = (\<lambda>sz p. Some (take (sz div 4) (p @ replicate (sz div 4) 0))),
     os_ftime = (\<lambda>b. ((of_nat (b mod 1000000), 0), b)),
     sig_set_base = (\<lambda>b. b), dispatch = (\<lambda>base tv. Inr (0, base\<lparr>evbase := evbase base + 1000\<rparr>)),
     user_callback = (\<lambda>n fd res arg base. Inr base), deferred_callback = (\<lambda>cb base. Inr base),
     new_event = (\<lambda>base. if ev_flags (evmem base 9) = {} \<and> 9 \<notin> ctl_timeout_event ` set (common_timeout_queues base) then Some 9 else None), has_memory = (\<lambda>_. True)\<rparr>"

lemma toy_env_ok: "env_ok toy_env"
proof -
  have "sint (of_nat (b mod 1000000) :: 32 word) = int (b mod 1000000)" for b by (rule sint_of_small) simp
  then have "clock_ok toy_env" by (simp add: clock_ok_def toy_env_def)
  moreover have "realloc_ok (heap_realloc toy_env)" by (auto simp: realloc_ok_def toy_env_def nth_append)
  moreover have "dels_ok toy_env" by (simp add: dels_ok_def toy_env_def)
  moreover have "fresh_events toy_env" by (auto simp: fresh_events_def toy_env_def MAX_EVENTS_def idle_def flagged_def timer_events_def split: if_splits)
  ultimately have "platform_ok toy_env" by (simp add: platform_ok_def)
  moreover have "(api_step toy_env)\<^sup>*\<^sup>* base (base\<lparr>evbase := b\<rparr>)" for base b
    by (rule r_into_rtranclp) (rule api_step.outside)
  ultimately show ?thesis by (simp add: env_ok_def by_api_def) (simp add: toy_env_def)
qed

definition toy_base :: "nat event_base" where
  "toy_base = the (event_base_new toy_env (\<lambda>_. zero_event) 100)"


lemma toy_new: "event_base_new toy_env (\<lambda>_. zero_event) 100 = Some toy_base"
  by (simp add: toy_base_def event_base_new_def event_base_priority_init_def Let_def toy_env_def gettime_def evutil_gettimeofday_def
      N_ACTIVE_CALLBACKS_def EVENT_MAX_PRIORITIES_def evmap_io_initmap_def evmap_signal_initmap_def evutil_timerclear_def split: prod.splits)

lemma toy_base: "toy_base = \<lparr>evbase = 100, evio = Map.empty, sigmap = [], evmem = (\<lambda>_. zero_event), virtual_event_count = 0, event_count = 0,
             event_count_active = 0, event_gotterm = False, event_break = False, event_continue = False,
             event_running_priority = 0, running_loop = False, activequeues = [[]], common_timeout_queues = [],
             n_common_timeouts_allocated = 0, defer_list = [], defer_active_count = 0, cb_queued = (\<lambda>_. False),
             eventqueue = [], event_tv = Timeval 100 0, timeheap = min_heap_ctor, tv_cache = evutil_timerclear,
             current_event = None, closure_ncalls = 0, need_notify = False, is_notify_pending = False,
             has_notify_fn = False, notifications = 0\<rparr>"
  by (simp add: toy_base_def event_base_new_def event_base_priority_init_def Let_def toy_env_def gettime_def evutil_gettimeofday_def
      N_ACTIVE_CALLBACKS_def EVENT_MAX_PRIORITIES_def evmap_io_initmap_def evmap_signal_initmap_def evutil_timerclear_def)

definition toy_assigned :: "nat event_base" where
  "toy_assigned = snd (event_assign toy_base 0 (-1) {} (User_Callback 0) 0)"

definition toy_event :: event where
  "toy_event = zero_event\<lparr>ev_base := True, ev_fd := -1, ev_flags := {EVLIST_INIT}, min_heap_idx := -1\<rparr>"

lemma toy_assigned: "toy_assigned = toy_base\<lparr>evmem := (\<lambda>_. zero_event)(0 := toy_event)\<rparr>"
  by (simp add: toy_assigned_def toy_base event_assign_def set_event_def Let_def min_heap_elem_init_def toy_event_def zero_event_def)



definition toy_waiting :: "nat event_base" where
  "toy_waiting = toy_base\<lparr>evbase := 200, event_count := 1, timeheap := \<lparr>mh_p = [0], mh_n = 1, mh_a = 1\<rparr>,
     evmem := (\<lambda>_. zero_event)(0 := toy_event\<lparr>ev_flags := {EVLIST_INIT, EVLIST_TIMEOUT}, min_heap_idx := 0, ev_timeout := Timeval 105 0\<rparr>)\<rparr>"

lemma toy_waiting_flagged: "flagged f toy_waiting = (if f \<in> {EVLIST_INIT, EVLIST_TIMEOUT} then {0} else {})"
  by (auto simp: flagged_def toy_waiting_def zero_event_def)

lemma toy_waiting_heap: "on_heap toy_waiting = {0}" "on_list i toy_waiting = {}" "timer_events toy_waiting = {}"
  by (auto simp: on_heap_def on_list_def toy_waiting_flagged is_common_timeout_def timer_events_def) (simp_all add: toy_waiting_def toy_base)

lemma toy_waiting_ok: "user_ok toy_waiting"
proof -
  have t: "time_ok (Timeval 105 0)" "time_ok (Timeval 100 0)" "time_ok (Timeval 0 0)" by (simp_all add: time_ok_def tv_ok_def)
  have "queues_ok toy_waiting"
    unfolding queues_ok_def active_ok_def timeouts_ok_def counts_ok_def counted_def toy_waiting_flagged toy_waiting_heap
    by (auto simp: toy_waiting_def toy_base toy_event_def zero_event_def holds_def heap_ok_def placed_but_def heap_by_def heap_members_def
        MAX_EVENTS_def queue_flags_def)
  moreover have "evmaps_ok {} toy_waiting"
    by (simp add: toy_waiting_def toy_base evmaps_ok_def io_ok_def io_slot_ok_def io_slot_def
        evmap_io_init_def waiting_def sig_ok_def sig_slot_def holds_def)
  moreover have "watch_ok toy_waiting" "pri_ok toy_waiting" "times_ok toy_waiting" "persist_ok toy_waiting"
    unfolding watch_ok_def pri_ok_def times_ok_def persist_ok_def toy_waiting_flagged using t
    by (auto simp: toy_waiting_def toy_base toy_event_def zero_event_def tv_fits_def is_common_timeout_def persist_event_def time_ok_def queue_flags_def)
  moreover have "commons_inv 0 toy_waiting"
    unfolding commons_inv_def toy_waiting_flagged toy_waiting_heap
    by (auto simp: toy_waiting_def toy_base toy_event_def zero_event_def MAX_COMMON_TIMEOUTS_def queue_flags_def)
  ultimately show ?thesis using t unfolding user_defs base_ok_def base_inv_def toy_waiting_flagged toy_waiting_heap
    by (simp add: defer_ok_def holds_def) (simp add: toy_waiting_def toy_base holds_def evutil_timerclear_def)
qed

text \<open>A base with a list of common timeouts of five seconds: event 1 waits on it, event 0 is its timer.\<close>

definition toy_listed :: "nat event_base" where
  "toy_listed = toy_base\<lparr>evbase := 200, event_count := 1,
     common_timeout_queues := [\<lparr>ctl_events = [1], ctl_duration = Timeval 5 0x50000000, ctl_timeout_event = 0\<rparr>],
     evmem := (\<lambda>_. zero_event)(0 := toy_event\<lparr>ev_flags := {EVLIST_INIT, EVLIST_INTERNAL}, ev_callback := Common_Timeout_Callback 0\<rparr>,
       1 := toy_event\<lparr>ev_flags := {EVLIST_INIT, EVLIST_TIMEOUT}, ev_timeout := Timeval 105 0x50000000\<rparr>)\<rparr>"

lemma toy_listed_flagged: "flagged f toy_listed = (if f = EVLIST_INIT then {0, 1} else if f = EVLIST_INTERNAL then {0}
    else if f = EVLIST_TIMEOUT then {1} else {})"
  by (auto simp: flagged_def toy_listed_def zero_event_def)

lemma toy_listed_common: "is_common_timeout (Timeval s 0x50000000) toy_listed" "COMMON_TIMEOUT_IDX (Timeval s 0x50000000) = 0"
  "and_usec (Timeval s 0x50000000) MICROSECONDS_MASK = Timeval s 0"
  by (simp_all add: is_common_timeout_def toy_listed_def COMMON_TIMEOUT_MASK_def COMMON_TIMEOUT_MAGIC_def COMMON_TIMEOUT_IDX_def
      COMMON_TIMEOUT_IDX_MASK_def and_usec_def MICROSECONDS_MASK_def)

lemma toy_listed_events: "ev_timeout (evmem toy_listed 1) = Timeval 105 0x50000000" "timer_events toy_listed = {0}"
  by (simp_all add: toy_listed_def timer_events_def)

lemma toy_listed_waiting: "on_heap toy_listed = {}" "on_list i toy_listed = (if i = 0 then {1} else {})"
  unfolding on_heap_def on_list_def toy_listed_flagged using toy_listed_common [of 105] toy_listed_events(1) by auto

lemma toy_listed_ok: "user_ok toy_listed"
proof -
  have t: "time_ok (Timeval 100 0)" "time_ok (Timeval 0 0)" "tv_ok (Timeval s 0)" for s by (simp_all add: time_ok_def tv_ok_def)
  have fits: "tv_fits toy_listed (Timeval s 0x50000000)" for s using toy_listed_common t by (simp add: tv_fits_def)
  have "queues_ok toy_listed"
    unfolding queues_ok_def active_ok_def timeouts_ok_def counts_ok_def counted_def list_ok_def toy_listed_flagged toy_listed_waiting
    by (auto simp: toy_listed_def toy_base toy_event_def zero_event_def holds_def heap_ok_def placed_but_def heap_by_def heap_members_def
        min_heap_ctor_def MAX_EVENTS_def queue_flags_def)
  moreover have "evmaps_ok {} toy_listed"
    by (simp add: toy_listed_def toy_base evmaps_ok_def io_ok_def io_slot_ok_def io_slot_def
        evmap_io_init_def waiting_def sig_ok_def sig_slot_def holds_def)
  moreover have "times_ok toy_listed" unfolding times_ok_def toy_listed_flagged using fits toy_listed_events(1) by simp
  moreover have "watch_ok toy_listed" "pri_ok toy_listed" "persist_ok toy_listed" "timer_ok toy_listed 0"
    unfolding watch_ok_def pri_ok_def persist_ok_def timer_ok_def toy_listed_flagged toy_listed_waiting
    by (auto simp: toy_listed_def toy_base toy_event_def zero_event_def persist_event_def queue_flags_def MAX_EVENTS_def)
  moreover have "commons_inv 1 toy_listed"
    unfolding commons_inv_def toy_listed_flagged toy_listed_events(2)
    using toy_listed_common fits
    by (auto simp: ctl_info_def MAX_COMMON_TIMEOUTS_def queue_flags_def) (auto simp: toy_listed_def toy_event_def zero_event_def)
  ultimately show ?thesis using t unfolding user_defs base_ok_def base_inv_def toy_listed_flagged toy_listed_events(2)
    by (simp add: defer_ok_def holds_def) (simp add: toy_listed_def toy_base holds_def evutil_timerclear_def)
qed

lemma toy_reachable: "(api_step toy_env)\<^sup>*\<^sup>* toy_base toy_assigned"
proof (rule r_into_rtranclp)
  obtain r b where a: "event_assign toy_base 0 (-1) {} (User_Callback 0) 0 = (r, b)" by fastforce
  have "idle toy_base 0" "\<not> held toy_base 0"
    by (simp_all add: idle_def held_def flagged_def toy_base timer_events_def zero_event_def)
  from api_step.assign [OF this _ a] a show "api_step toy_env toy_base toy_assigned" by (simp add: toy_assigned_def)
qed


lemma toy_platform: "platform_ok toy_env"
  by (rule env_platform [OF toy_env_ok])

text \<open>The first round of a loop on a base with nothing to do is the last one.\<close>

lemma loop_idle:
  assumes "user_ok base" "platform_ok p" and "\<not> running_loop base"
    and "flagged EVLIST_TIMEOUT base = {}" "\<not> event_haveevents base" "N_ACTIVE_CALLBACKS base = 0"
  shows "runs (event_base_loop p c base flags) (\<lambda>(r, b). r = 1 \<and> evmem b = evmem base \<and> \<not> running_loop b)"
proof -
  define base0 where "base0 = (clear_time_cache (base\<lparr>running_loop := True\<rparr>))\<lparr>evbase := sig_set_base p (evbase base),
    event_gotterm := False, event_break := False\<rparr>"
  define base1 where "base1 = base0\<lparr>event_continue := False\<rparr>"
  have idle: "mh_n (timeheap base) = 0" "\<And>i. i < length (common_timeout_queues base) \<Longrightarrow> ctl_events (common_timeout_queues base ! i) = []"
    using user_heap(2) [OF assms(1)] heap_ok_distinct [OF user_heap(1) [OF assms(1)]] user_heap(1,3) [OF assms(1)] assms(4)
    by (auto simp: heap_members_def on_heap_def on_list_def list_ok_def holds_def heap_ok_def)
  have skip: "(\<And>x. x \<in> set xs \<Longrightarrow> f x s = Inr s) \<Longrightarrow> foldE f xs s = Inr s" for f and xs :: "nat list" and s :: "'a event_base"
    by (induction xs) auto
  obtain tv base2 where g: "gettime p base1 = (tv, base2)" by fastforce
  then have b2: "base2 = base1 \<or> (\<exists>b. base2 = base1\<lparr>evbase := b\<rparr>)" by (auto simp: gettime_def split: if_splits prod.splits)
  then have same: "timeheap base2 = timeheap base" "common_timeout_queues base2 = common_timeout_queues base" "evmem base2 = evmem base"
    "event_haveevents base2 = event_haveevents base" "N_ACTIVE_CALLBACKS base2 = N_ACTIVE_CALLBACKS base"
    by (auto simp: base1_def base0_def clear_time_cache_def event_haveevents_def N_ACTIVE_CALLBACKS_def)
  have "correct_heap off base2 = Inr base2" for off using idle(1) by (simp add: correct_heap_def same)
  moreover have "correct_lists off base2 = Inr base2" for off
    unfolding correct_lists_def by (rule skip) (simp add: same idle(2))
  ultimately have tc: "timeout_correct p base1 = Inr (base2\<lparr>event_tv := tv\<rparr>)" using g by (simp add: timeout_correct_def Let_def)
  obtain tv' where lt: "loop_timeout p flags (base2\<lparr>event_tv := tv\<rparr>) = Inr (tv', base2\<lparr>event_tv := tv\<rparr>)"
  proof -
    have "timeout_next p (base2\<lparr>event_tv := tv\<rparr>) = Inr (0, None, base2\<lparr>event_tv := tv\<rparr>)"
      using idle(1) same(1) by (simp add: timeout_next_def min_heap_top_def)
    then show ?thesis
      using that [of None] that [of "Some evutil_timerclear"]
      by (cases "N_ACTIVE_CALLBACKS (base2\<lparr>event_tv := tv\<rparr>) = 0 \<and> \<not> EVLOOP_NONBLOCK flags") (auto simp: loop_timeout_def)
  qed
  have "loop_dispatch p c flags (tv', base2\<lparr>event_tv := tv\<rparr>) = Inr (Inr (1, base2\<lparr>event_tv := tv\<rparr>))"
    using same(4,5) assms(5,6) by (simp add: loop_dispatch_def event_haveevents_def N_ACTIVE_CALLBACKS_def)
  then have "loop_round p c flags (False, base0) = Inr (Inr (1, base2\<lparr>event_tv := tv\<rparr>))"
    using tc lt by (simp add: loop_round_def Let_def base1_def) (simp add: base0_def)
  then have "loops (loop_round p c flags) (False, base0) = Inr (1, base2\<lparr>event_tv := tv\<rparr>)"
    by (simp add: loops_unfold [of "loop_round p c flags"])
  moreover have "event_base_loop p c base flags = bindE (loops (loop_round p c flags) (False, base0)) (\<lambda>(retval, base).
      Inr (retval, (clear_time_cache base)\<lparr>running_loop := False\<rparr>))"
    using assms(3) by (simp add: event_base_loop_def Let_def base0_def clear_time_cache_def)
  ultimately show ?thesis using same(3) by (simp add: clear_time_cache_def)
qed

section \<open>Properties\<close>

text \<open>
  C2: a base made by \<open>event_base_new\<close> satisfies the invariant after any sequence of calls of the interface:
  flags, queues, heap, maps and counters agree.
\<close>

theorem event_base_stays_wellformed:
  assumes "platform_ok p" "\<And>e. ev_flags (mem e) = {}" "event_base_new p mem b = Some base0" "(api_step p)\<^sup>*\<^sup>* base0 base"
  shows "user_ok base"
proof -
  have "clock_ok p" using assms(1) by (simp add: platform_ok_def)
  from new_base_ok [OF this assms(2,3)] have "user_ok base0" .
  from api_steps_kept [OF assms(4) this assms(1)] show ?thesis by (rule kept_ok)
qed

theorem event_base_stays_wellformed_witness: "user_ok toy_assigned"
  by (rule event_base_stays_wellformed [OF toy_platform _ toy_new toy_reachable]) (simp add: zero_event_def)

text \<open>
  C3: on a well-formed base no call of the interface whose requirements are met crashes, and each of them gives
  a well-formed base again.
\<close>

theorem event_calls_run:
  assumes "user_ok base" "platform_ok p"
  shows "runs (event_del p base e) (\<lambda>(r, b). user_ok b)
    \<and> (e \<in> flagged EVLIST_INIT base \<longrightarrow> can_add base e tv \<longrightarrow> runs (event_add p base e tv) (\<lambda>(r, b). user_ok b))
    \<and> (e \<in> flagged EVLIST_INIT base \<longrightarrow> e < MAX_EVENTS \<longrightarrow> ev_pri (evmem base e) < length (activequeues base) \<longrightarrow> \<not> held base e
         \<longrightarrow> runs (event_active base e res k) user_ok)
    \<and> (0 \<le> fd \<longrightarrow> evio base fd \<noteq> None \<longrightarrow> runs (evmap_io_active base fd what) user_ok)
    \<and> (s < length (sigmap base) \<longrightarrow> sigmap base ! s \<noteq> None \<longrightarrow> runs (evmap_signal_active base (int s) k) user_ok)
    \<and> (tv_ok (normal_duration base d) \<longrightarrow> runs (event_base_init_common_timeout p base d) (\<lambda>(r, b). user_ok b))
    \<and> (callback_ok 0 cb \<longrightarrow> \<not> is_once cb \<longrightarrow> (\<forall>t. tv = Some t \<longrightarrow> tv_fits base t)
         \<longrightarrow> runs (event_base_once p base fd events cb arg tv) (\<lambda>(r, b). user_ok b))
    \<and> runs (event_deferred_cb_cancel base c) user_ok"
proof (intro conjI impI)
  note ok = assms(1) and p = assms(2)
  have all: "runs m (kept base) \<Longrightarrow> runs m user_ok" for m by (erule runs_mono) (rule kept_ok)
  have each: "runs m (\<lambda>(r, b). kept_but X base b) \<Longrightarrow> runs m (\<lambda>(r, b). user_ok b)" for X and m :: "('x \<times> 'a event_base) exec"
    by (erule runs_mono) (auto dest: kept_ok)
  show "runs (event_del p base e) (\<lambda>(r, b). user_ok b)" using event_del_ok [OF ok p] each by blast
  show "runs (event_add p base e tv) (\<lambda>(r, b). user_ok b)" if "e \<in> flagged EVLIST_INIT base" "can_add base e tv"
    using event_add_ok [OF ok p that] each by blast
  show "runs (event_active base e res k) user_ok" if "e \<in> flagged EVLIST_INIT base" "e < MAX_EVENTS"
    "ev_pri (evmem base e) < length (activequeues base)" "\<not> held base e"
    using event_active_ok [OF ok that] all by blast
  show "runs (evmap_io_active base fd what) user_ok" if "0 \<le> fd" "evio base fd \<noteq> None"
    using io_active_ok [OF ok that(1)] that(2) all by blast
  show "runs (evmap_signal_active base (int s) k) user_ok" if "s < length (sigmap base)" "sigmap base ! s \<noteq> None"
    using signal_active_ok [OF ok that(1)] that(2) all by blast
  show "runs (event_base_init_common_timeout p base d) (\<lambda>(r, b). user_ok b)" if "tv_ok (normal_duration base d)"
  proof -
    have "fresh_events p" using p by (simp add: platform_ok_def)
    from init_common_timeout_ok [OF ok that this] show ?thesis by (rule runs_mono) (auto dest: kept_ok)
  qed
  show "runs (event_base_once p base fd events cb arg tv) (\<lambda>(r, b). user_ok b)"
    if "callback_ok 0 cb" "\<not> is_once cb" "\<forall>t. tv = Some t \<longrightarrow> tv_fits base t"
    using event_base_once_ok [OF ok p callback_ok_mono [OF that(1)] that(2), of tv fd events arg] that(3) each by blast
  show "runs (event_deferred_cb_cancel base c) user_ok" using defer_kept(2) [OF ok] all by blast
qed

theorem event_calls_run_witness: "runs (event_del toy_env toy_waiting 0) (\<lambda>(r, b). user_ok b)"
  using event_calls_run [OF toy_waiting_ok toy_platform] by blast



text \<open>
  C6: \<open>event_del\<close> takes an event out of every queue, of the backend's maps and of the timeouts, and changes no
  other event.
\<close>

theorem event_del_effect:
  assumes "user_ok base" "platform_ok p" "e \<in> flagged EVLIST_INIT base"
  shows "runs (event_del p base e) (\<lambda>(r, b). r = 0 \<and> user_ok b
    \<and> (\<forall>q. q \<in> {EVLIST_INSERTED, EVLIST_ACTIVE, EVLIST_TIMEOUT} \<longrightarrow> flagged q b = flagged q base - {e})
    \<and> on_heap b = on_heap base - {e} \<and> (\<forall>i. on_list i b = on_list i base - {e})
    \<and> (\<forall>x. same_event (evmem base x) (evmem b x)))"
proof -
  have ev: "ev_base (evmem base e)" using init_event(1) [OF assms(1,3)] .
  have "base_ok base" "dels_ok p" using assms(1,2) by (simp_all add: user_defs platform_ok_def)
  from event_del_runs [OF this ev] obtain b where d: "event_del_internal p base e = Inr (0, b)" "deleted e base b"
    by (auto elim!: runsE)
  have fl: "flagged q b = flagged q base - {e}" if "q \<in> {EVLIST_INSERTED, EVLIST_ACTIVE, EVLIST_TIMEOUT}" for q
    using d(2) that by (auto simp: deleted_def queue_flags_def)
  have fr: "frame base b" and se: "\<And>x. same_event (evmem base x) (evmem b x)" using d(2) by (simp_all add: deleted_def)
  have "on_heap b = on_heap base - {e}" "\<And>i. on_list i b = on_list i base - {e}"
    using fl [of EVLIST_TIMEOUT] unfolding on_heap_def on_list_def same_event_fields(9) [OF se] frame_common [OF fr] by auto
  with fl se d(1) ev deleted_user [OF assms(1) d(2)] show ?thesis by (simp add: event_del_def)
qed

theorem event_del_effect_witness: "runs (event_del toy_env toy_waiting 0) (\<lambda>(r, b). r = 0 \<and> on_heap b = {})"
proof -
  have "0 \<in> flagged EVLIST_INIT toy_waiting" by (simp add: toy_waiting_flagged)
  from event_del_effect [OF toy_waiting_ok toy_platform this] show ?thesis
    unfolding toy_waiting_heap by (rule runs_mono) auto
qed

text \<open>
  C4: \<open>timeout_process\<close> ends, and the events in the heap whose time has come, and no others, have become
  active with \<open>EV_TIMEOUT\<close> and wait no longer.
\<close>

theorem timeout_process_expires:
  assumes "user_ok base" "platform_ok p"
  defines "due_now \<equiv> {e \<in> on_heap base. ev_timeout (evmem base e) \<le> fst (gettime p base)}"
  shows "runs (timeout_process p base) (\<lambda>b. user_ok b \<and> flagged EVLIST_ACTIVE b = flagged EVLIST_ACTIVE base \<union> due_now
    \<and> on_heap b = on_heap base - due_now \<and> (\<forall>i. on_list i b = on_list i base) \<and> (\<forall>e\<in>due_now. ev_res (evmem b e) = {EV_TIMEOUT})
    \<and> (\<forall>e. e \<notin> due_now \<longrightarrow> same_event (evmem base e) (evmem b e)))"
proof (rule runs_mono [OF timeout_process_runs [OF assms(1,2)], folded due_now_def])
  fix b assume e: "expired due_now base b"
  have "on_list i base - due_now = on_list i base" for i by (auto simp: due_now_def on_heap_def on_list_def)
  with e expired_waiting(1,2) [OF e] show "user_ok b \<and> flagged EVLIST_ACTIVE b = flagged EVLIST_ACTIVE base \<union> due_now
    \<and> on_heap b = on_heap base - due_now \<and> (\<forall>i. on_list i b = on_list i base) \<and> (\<forall>e\<in>due_now. ev_res (evmem b e) = {EV_TIMEOUT})
    \<and> (\<forall>e. e \<notin> due_now \<longrightarrow> same_event (evmem base e) (evmem b e))"
    by (simp add: expired_def)
qed

theorem timeout_process_expires_witness:
  "runs (timeout_process toy_env toy_waiting) (\<lambda>b. flagged EVLIST_ACTIVE b = {0} \<and> on_heap b = {} \<and> ev_res (evmem b 0) = {EV_TIMEOUT})"
proof -
  have "ev_timeout (evmem toy_waiting 0) \<le> fst (gettime toy_env toy_waiting)"
    by (simp add: toy_waiting_def toy_base gettime_def evutil_timerclear_def evutil_gettimeofday_def toy_env_def less_eq_timeval_def tv_key_def)
  then have due: "{e \<in> on_heap toy_waiting. ev_timeout (evmem toy_waiting e) \<le> fst (gettime toy_env toy_waiting)} = {0}"
    by (auto simp: toy_waiting_heap)
  from timeout_process_expires [OF toy_waiting_ok toy_platform] show ?thesis
    unfolding due unfolding toy_waiting_heap toy_waiting_flagged by (rule runs_mono) simp
qed

text \<open>
  C21: the callback of the timer of a list of common timeouts makes exactly those events of the list active
  whose time has come; of the others nothing changes but that the timer of the list is added again.
\<close>

theorem common_timeouts_expire:
  assumes "user_ok base" "platform_ok p" "i < length (common_timeout_queues base)"
  defines "due_now \<equiv> {e \<in> on_list i base. past (fst (gettime p base)) (ev_timeout (evmem base e))}"
  shows "runs (common_timeout_callback p i base) (\<lambda>b. user_ok b
    \<and> (\<forall>e. e \<notin> timer_events base \<longrightarrow> (e \<in> flagged EVLIST_ACTIVE b \<longleftrightarrow> e \<in> flagged EVLIST_ACTIVE base \<or> e \<in> due_now)
         \<and> (e \<in> flagged EVLIST_TIMEOUT b \<longleftrightarrow> e \<in> flagged EVLIST_TIMEOUT base \<and> e \<notin> due_now)))"
proof (rule runs_mono [OF common_timeout_callback_runs [OF assms(1-3)], folded due_now_def])
  fix b assume "\<exists>base1. expired due_now base base1 \<and> scheduled (timer_events base1) base1 b"
  then obtain base1 where e: "expired due_now base base1" and s: "scheduled (timer_events base1) base1 b" by blast
  have ok1: "user_ok base1" and fr: "frame base base1" using e by (simp_all add: expired_def)
  have "user_ok b" by (rule kept_ok [OF scheduled_timers_kept [OF ok1 s]])
  moreover have "e \<in> flagged f b \<longleftrightarrow> e \<in> flagged f base1" if "e \<notin> timer_events base" for e f
    using s that frame_timers [OF fr] by (simp add: scheduled_def untouched_def flagged_def)
  moreover have "flagged EVLIST_ACTIVE base1 = flagged EVLIST_ACTIVE base \<union> due_now"
    "flagged EVLIST_TIMEOUT base1 = flagged EVLIST_TIMEOUT base - due_now"
    using e by (simp_all add: expired_def queue_flags_def)
  ultimately show "user_ok b
    \<and> (\<forall>e. e \<notin> timer_events base \<longrightarrow> (e \<in> flagged EVLIST_ACTIVE b \<longleftrightarrow> e \<in> flagged EVLIST_ACTIVE base \<or> e \<in> due_now)
         \<and> (e \<in> flagged EVLIST_TIMEOUT b \<longleftrightarrow> e \<in> flagged EVLIST_TIMEOUT base \<and> e \<notin> due_now))" by simp
qed

theorem common_timeouts_expire_witness:
  "runs (common_timeout_callback toy_env 0 toy_listed) (\<lambda>b. 1 \<in> flagged EVLIST_ACTIVE b \<and> 1 \<notin> flagged EVLIST_TIMEOUT b)"
proof -
  have i: "0 < length (common_timeout_queues toy_listed)" by (simp add: toy_listed_def)
  have "fst (gettime toy_env toy_listed) = Timeval 200 0"
    by (simp add: toy_listed_def toy_base gettime_def evutil_timerclear_def evutil_gettimeofday_def toy_env_def)
  then have "1 \<in> {e \<in> on_list 0 toy_listed. past (fst (gettime toy_env toy_listed)) (ev_timeout (evmem toy_listed e))}"
    using toy_listed_events(1) by (simp add: toy_listed_waiting past_def toy_listed_common less_eq_timeval_def tv_key_def)
  moreover have "1 \<notin> timer_events toy_listed" by (simp add: toy_listed_events)
  ultimately show ?thesis
    by (intro runs_mono [OF common_timeouts_expire [OF toy_listed_ok toy_platform i]]) blast
qed

text \<open>
  C22: when the clock has gone back, \<open>timeout_correct\<close> moves all timeouts so that every event still waits as
  long as before, keeps the order of the heap and the lists, and changes no timeout otherwise. It may only fail
  by a signed overflow of the seconds.
\<close>

theorem timeout_correct_waits:
  assumes "user_ok base" "platform_ok p"
  shows "safe (timeout_correct p base) (\<lambda>b. user_ok b \<and> event_tv b = fst (gettime p base) \<and> on_heap b = on_heap base
    \<and> (if event_tv base \<le> event_tv b then \<forall>x. ev_timeout (evmem b x) = ev_timeout (evmem base x)
       else \<forall>e\<in>flagged EVLIST_TIMEOUT base. waits b e = waits base e))"
  by (rule safe_mono [OF timeout_correct_safe [OF assms]]) (auto simp: kept_but_def same_times_def split: if_splits)

theorem timeout_correct_waits_witness:
  "safe (timeout_correct toy_env (toy_waiting\<lparr>event_tv := Timeval 300 0\<rparr>)) (\<lambda>b. waits b 0 = -195000000)"
proof -
  let ?b = "toy_waiting\<lparr>event_tv := Timeval 300 0\<rparr>"
  have t: "time_ok (Timeval 300 0)" by (simp add: time_ok_def tv_ok_def)
  have ok: "user_ok ?b" using toy_waiting_ok user_ok_times(1) [OF t user_times(1) [OF toy_waiting_ok]] by simp
  have g: "fst (gettime toy_env ?b) = Timeval 200 0"
    by (simp add: toy_waiting_def toy_base gettime_def evutil_timerclear_def evutil_gettimeofday_def toy_env_def)
  have e: "0 \<in> flagged EVLIST_TIMEOUT ?b" using toy_waiting_flagged by (simp add: flagged_def)
  have w: "waits ?b 0 = -195000000" by (simp add: waits_def plain_def is_common_timeout_def toy_waiting_def toy_base usecs_def)
  have lt: "\<not> Timeval 300 0 \<le> Timeval 200 0" by (simp add: less_eq_timeval_def tv_key_def)
  from timeout_correct_waits [OF ok toy_platform] show ?thesis
    by (rule safe_mono) (use e w g lt in auto)
qed

text \<open>
  C23: \<open>timeout_next\<close> lets the backend wait until the first timeout in the heap, not at all if that is past, and
  without limit if there is none; its assertions hold.
\<close>

theorem timeout_next_first:
  assumes "user_ok base" "platform_ok p"
  shows "runs (timeout_next p base) (\<lambda>(r, tv, b). r = 0 \<and> user_ok b
    \<and> (case tv of None \<Rightarrow> on_heap base = {}
       | Some t \<Rightarrow> \<exists>e\<in>on_heap base. (\<forall>x\<in>on_heap base. ev_timeout (evmem base e) \<le> ev_timeout (evmem base x))
           \<and> usecs t = max 0 (usecs (ev_timeout (evmem base e)) - usecs (fst (gettime p base)))))"
  by (rule runs_mono [OF timeout_next_runs [OF assms]]) (auto simp: expired_def split: option.splits)

theorem timeout_next_first_witness:
  "runs (timeout_next toy_env (toy_waiting\<lparr>evbase := 101\<rparr>)) (\<lambda>(r, tv, b). map_option usecs tv = Some 4000000)"
proof -
  let ?b = "toy_waiting\<lparr>evbase := 101\<rparr>"
  have ok: "user_ok ?b" using toy_waiting_ok by simp
  have g: "fst (gettime toy_env ?b) = Timeval 101 0"
    by (simp add: toy_waiting_def toy_base gettime_def evutil_timerclear_def evutil_gettimeofday_def toy_env_def)
  have h: "on_heap ?b = {0}" using toy_waiting_heap(1) by (simp add: on_heap_def flagged_def is_common_timeout_def)
  have t: "ev_timeout (evmem toy_waiting 0) = Timeval 105 0" by (simp add: toy_waiting_def)
  from timeout_next_first [OF ok toy_platform] show ?thesis
    unfolding g h by (rule runs_mono) (auto simp: t usecs_def split: option.splits)
qed

text \<open>
  C1: as long as the callbacks of users and the backend use the base through the interface, \<open>event_base_loop\<close>
  crashes nowhere but by a signed overflow when the clock goes back, and whenever it ends the base is
  well-formed and no longer running. It returns 1 only if nothing is left to do and 0 only if it was asked to
  stop.
\<close>

theorem event_base_loop_keeps_base:
  assumes "user_ok base" "env_ok p" "\<not> running_loop base"
  shows "safe (event_base_loop p c base flags) (\<lambda>(r, b). user_ok b \<and> \<not> running_loop b \<and> r \<in> {-1, 0, 1}
    \<and> (r = 1 \<longrightarrow> \<not> event_haveevents b \<and> N_ACTIVE_CALLBACKS b = 0)
    \<and> (r = 0 \<longrightarrow> event_gotterm b \<or> event_break b \<or> EVLOOP_ONCE flags \<or> EVLOOP_NONBLOCK flags))"
  by (rule safe_mono [OF event_base_loop_safe [OF assms]]) (auto simp: ends_def fine_def)

theorem event_base_loop_keeps_base_witness:
  "safe (event_base_loop toy_env False toy_waiting \<lparr>EVLOOP_ONCE = False, EVLOOP_NONBLOCK = False\<rparr>) (\<lambda>(r, b). user_ok b)"
proof -
  have "\<not> running_loop toy_waiting" by (simp add: toy_waiting_def toy_base)
  from event_base_loop_keeps_base [OF toy_waiting_ok toy_env_ok this] show ?thesis by (rule safe_mono) auto
qed

text \<open>
  C24: a loop that is started while another one runs on the base is refused with -1, whatever the state of the base,
  and changes nothing; otherwise a loop on a base with nothing to do ends at once with 1 and changes no event.
\<close>

theorem event_base_loop_ends:
  assumes "user_ok base" "platform_ok p"
  shows "if running_loop base then event_base_loop p c base flags = Inr (-1, base)
    else flagged EVLIST_TIMEOUT base = {} \<longrightarrow> \<not> event_haveevents base \<longrightarrow> N_ACTIVE_CALLBACKS base = 0
      \<longrightarrow> runs (event_base_loop p c base flags) (\<lambda>(r, b). r = 1 \<and> evmem b = evmem base \<and> \<not> running_loop b)"
  using loop_idle [OF assms] by (simp add: event_base_loop_def)

theorem event_base_loop_ends_witness:
  "runs (event_base_loop toy_env False toy_base \<lparr>EVLOOP_ONCE = False, EVLOOP_NONBLOCK = False\<rparr>) (\<lambda>(r, b). r = 1)
   \<and> event_base_loop toy_env False (toy_waiting\<lparr>running_loop := True\<rparr>) \<lparr>EVLOOP_ONCE = False, EVLOOP_NONBLOCK = False\<rparr>
     = Inr (-1, toy_waiting\<lparr>running_loop := True\<rparr>)"
proof -
  have "clock_ok toy_env" using toy_platform by (simp add: platform_ok_def)
  from new_base_ok [OF this _ toy_new] have ok: "user_ok toy_base" by (simp add: zero_event_def)
  have i: "flagged EVLIST_TIMEOUT toy_base = {}" "\<not> event_haveevents toy_base" "N_ACTIVE_CALLBACKS toy_base = 0" "\<not> running_loop toy_base"
    by (simp_all add: toy_base flagged_def zero_event_def event_haveevents_def N_ACTIVE_CALLBACKS_def)
  have "user_ok (toy_waiting\<lparr>running_loop := True\<rparr>)" using toy_waiting_ok by simp
  then have "event_base_loop toy_env False (toy_waiting\<lparr>running_loop := True\<rparr>) \<lparr>EVLOOP_ONCE = False, EVLOOP_NONBLOCK = False\<rparr>
     = Inr (-1, toy_waiting\<lparr>running_loop := True\<rparr>)"
    using event_base_loop_ends [OF _ toy_platform] by fastforce
  moreover have "runs (event_base_loop toy_env False toy_base \<lparr>EVLOOP_ONCE = False, EVLOOP_NONBLOCK = False\<rparr>)
      (\<lambda>(r, b). r = 1 \<and> evmem b = evmem toy_base \<and> \<not> running_loop b)"
    using event_base_loop_ends [OF ok toy_platform] i by simp
  then have "runs (event_base_loop toy_env False toy_base \<lparr>EVLOOP_ONCE = False, EVLOOP_NONBLOCK = False\<rparr>) (\<lambda>(r, b). r = 1)"
    by (rule runs_mono) auto
  ultimately show ?thesis by blast
qed

end
