(* ===== verification/Event_Backend.thy ===== *)
theory Event_Backend
  imports Event_Loop
begin

text \<open>
  What the event base tells its backend. \<open>watched\<close> is the set of sockets with readers, or with writers, in the map
  of sockets; a backend whose functions keep a relation \<open>good\<close> between its state and the sockets it was told to watch
  (locale \<open>backend_contract\<close>) is in this relation to the map after every call of \<open>event.c\<close>, and after the loop.
\<close>

section \<open>Partial correctness\<close>

definition ends :: "'a exec \<Rightarrow> ('a \<Rightarrow> bool) \<Rightarrow> bool" where
  "ends m P \<longleftrightarrow> (\<forall>x. m = Inr x \<longrightarrow> P x)"

lemma ends_Inr [simp]: "ends (Inr x) P = P x" and ends_Inl [simp]: "ends (Inl c) P"
  by (simp_all add: ends_def)

lemma ends_bindI: "ends m Q \<Longrightarrow> (\<And>x. Q x \<Longrightarrow> ends (f x) P) \<Longrightarrow> ends (bindE m f) P"
  by (cases m) simp_all

lemma ends_bind_any: "(\<And>x. ends (f x) P) \<Longrightarrow> ends (bindE m f) P"
  by (cases m) simp_all

lemma ends_mono: "ends m Q \<Longrightarrow> (\<And>x. Q x \<Longrightarrow> P x) \<Longrightarrow> ends m P"
  by (simp add: ends_def)

lemma ends_ifI: "(c \<Longrightarrow> ends a P) \<Longrightarrow> (\<not> c \<Longrightarrow> ends b P) \<Longrightarrow> ends (if c then a else b) P"
  by simp

lemma runs_ends: "runs m P \<Longrightarrow> ends m P"
  by (cases m) simp_all

lemma ends_D: "ends m P \<Longrightarrow> m = Inr x \<Longrightarrow> P x"
  by (simp add: ends_def)

lemma ends_foldE:
  assumes "P s" "\<And>x s. x \<in> set xs \<Longrightarrow> P s \<Longrightarrow> ends (f x s) P"
  shows "ends (foldE f xs s) P"
  using assms by (induction xs arbitrary: s) (auto intro: ends_bindI)

lemma ends_loops:
  assumes body: "\<And>s. I s \<Longrightarrow> ends (body s) (\<lambda>r. case r of Inl s' \<Rightarrow> I s' | Inr r \<Rightarrow> P r)" and "I s"
  shows "ends (loops body s) P"
proof -
  define Q where "Q = (\<lambda>b s r. b = body \<longrightarrow> I s \<longrightarrow> ends r P)"
  have step: "Q b s r"
    if IH: "\<And>b s r. loop b s = Some r \<Longrightarrow> Q b s r" and run: "(case b s of Inl c \<Rightarrow> Some (Inl c)
      | Inr (Inl s) \<Rightarrow> loop b s | Inr (Inr r) \<Rightarrow> Some (Inr r)) = Some r" for loop b s r
    unfolding Q_def
  proof (intro impI)
    assume eq: "b = body" and "I s"
    then have e: "ends (b s) (\<lambda>r. case r of Inl s' \<Rightarrow> I s' | Inr r \<Rightarrow> P r)" by (simp add: body)
    show "ends r P"
    proof (cases "b s")
      case (Inr x)
      with run e eq IH show ?thesis by (cases x) (auto simp: Q_def)
    qed (use run in auto)
  qed
  have "I s \<longrightarrow> ends r P" if "loopE body s = Some r" for r
  proof -
    have "Q body s r" by (rule loopE.raw_induct [OF _ that]) (rule step)
    then show ?thesis by (simp add: Q_def)
  qed
  with assms(2) show ?thesis by (auto simp: loops_def split: option.splits)
qed

section \<open>What is watched\<close>

definition dir :: "bool \<Rightarrow> ev_what" where
  "dir read = (if read then EV_READ else EV_WRITE)"

definition watchers :: "bool \<Rightarrow> evmap_io \<Rightarrow> nat" where
  "watchers read ctx = (if read then io_nread ctx else io_nwrite ctx)"

definition watched :: "('b, 'z) evmap_base_scheme \<Rightarrow> bool \<Rightarrow> int set" where
  "watched base read = {fd. 0 \<le> fd \<and> watchers read (io_slot (evio base) fd) \<noteq> 0}"

text \<open>What a backend watches after it was told to watch more or less.\<close>

definition watch_more :: "int \<Rightarrow> ev_what set \<Rightarrow> (bool \<Rightarrow> int set) \<Rightarrow> bool \<Rightarrow> int set" where
  "watch_more fd events W read = (if dir read \<in> events then insert fd (W read) else W read)"

definition watch_less :: "int \<Rightarrow> ev_what set \<Rightarrow> (bool \<Rightarrow> int set) \<Rightarrow> bool \<Rightarrow> int set" where
  "watch_less fd events W read = (if dir read \<in> events then W read - {fd} else W read)"

definition matches :: "('b \<Rightarrow> (bool \<Rightarrow> int set) \<Rightarrow> bool) \<Rightarrow> ('b, 'z) evmap_base_scheme \<Rightarrow> bool" where
  "matches good base \<longleftrightarrow> good (evbase base) (watched base)"

lemma matches_cong: "evbase base' = evbase base \<Longrightarrow> evio base' = evio base \<Longrightarrow> matches good base' = matches good base"
  by (simp add: matches_def watched_def [abs_def])

lemma matches_fields [simp]:
  "matches good (base\<lparr>evmem := mem\<rparr>) = matches good base" "matches good (base\<lparr>sigmap := sigs\<rparr>) = matches good base"
  by (simp_all add: matches_def watched_def [abs_def])

lemma matches_base_fields [simp]:
  "matches good (base\<lparr>timeheap := h\<rparr>) = matches good base" "matches good (base\<lparr>event_count := n\<rparr>) = matches good base"
  "matches good (base\<lparr>event_count_active := n\<rparr>) = matches good base" "matches good (base\<lparr>activequeues := q\<rparr>) = matches good base"
  "matches good (base\<lparr>eventqueue := es\<rparr>) = matches good base" "matches good (base\<lparr>common_timeout_queues := c\<rparr>) = matches good base"
  "matches good (base\<lparr>closure_ncalls := k\<rparr>) = matches good base" "matches good (base\<lparr>event_continue := x\<rparr>) = matches good base"
  "matches good (base\<lparr>tv_cache := tv\<rparr>) = matches good base" "matches good (base\<lparr>event_tv := tv\<rparr>) = matches good base"
  "matches good (base\<lparr>current_event := ev\<rparr>) = matches good base" "matches good (base\<lparr>event_gotterm := x\<rparr>) = matches good base"
  "matches good (base\<lparr>event_break := x\<rparr>) = matches good base" "matches good (base\<lparr>running_loop := x\<rparr>) = matches good base"
  "matches good (base\<lparr>event_running_priority := i\<rparr>) = matches good base" "matches good (base\<lparr>defer_list := cbs\<rparr>) = matches good base"
  "matches good (base\<lparr>cb_queued := cq\<rparr>) = matches good base" "matches good (base\<lparr>defer_active_count := i\<rparr>) = matches good base"
  "matches good (base\<lparr>n_common_timeouts_allocated := na\<rparr>) = matches good base"
  "matches good (base\<lparr>is_notify_pending := x\<rparr>) = matches good base" "matches good (base\<lparr>notifications := na\<rparr>) = matches good base"
  by (rule matches_cong; simp)+

lemma matches_ops [simp]:
  "matches good (set_event e f base) = matches good base" "matches good (evthread_notify_base base) = matches good base"
  "matches good (put_ctl i ctl base) = matches good base" "matches good (count_event d e base) = matches good base"
  "matches good (drop_flag q e base) = matches good base" "matches good (raise_flag q e base) = matches good base"
  "matches good (clear_time_cache base) = matches good base" "matches good (event_debug_unassign base e) = matches good base"
  "matches good (snd (event_assign base e fd what callback arg)) = matches good base"
  "matches good (snd (event_priority_set base e pri)) = matches good base"
  "matches good (event_deferred_cb_schedule base cb) = matches good base"
  by (simp_all add: set_event_def evthread_notify_base_def put_ctl_def count_event_def drop_flag_def raise_flag_def
      clear_time_cache_def event_debug_unassign_def event_assign_def event_priority_set_def event_deferred_cb_schedule_def
      notify_base_cbq_callback_def Let_def)

section \<open>The queues\<close>

abbreviation keeps :: "('b \<Rightarrow> (bool \<Rightarrow> int set) \<Rightarrow> bool) \<Rightarrow> 'b event_base exec \<Rightarrow> bool" where
  "keeps good m \<equiv> ends m (matches good)"

abbreviation keeps2 :: "('b \<Rightarrow> (bool \<Rightarrow> int set) \<Rightarrow> bool) \<Rightarrow> ('a \<times> 'b event_base) exec \<Rightarrow> bool" where
  "keeps2 good m \<equiv> ends m (\<lambda>r. matches good (snd r))"

abbreviation keeps3 :: "('b \<Rightarrow> (bool \<Rightarrow> int set) \<Rightarrow> bool) \<Rightarrow> ('a \<times> 'c \<times> 'b event_base) exec \<Rightarrow> bool" where
  "keeps3 good m \<equiv> ends m (\<lambda>r. matches good (snd (snd r)))"

lemma dequeue_keeps: "matches good base \<Longrightarrow> keeps good (dequeue q e base)"
  by (cases q) (auto simp: Let_def intro!: ends_bind_any)

lemma enqueue_keeps: "matches good base \<Longrightarrow> keeps good (enqueue r q e base)"
  by (cases q) (auto simp: Let_def intro!: ends_bind_any)

lemma event_queue_remove_keeps: "matches good base \<Longrightarrow> keeps good (event_queue_remove base e q)"
  by (simp add: event_queue_remove_def dequeue_keeps)

lemma event_queue_insert_keeps: "matches good base \<Longrightarrow> keeps good (event_queue_insert r base e q)"
  by (simp add: event_queue_insert_def enqueue_keeps)

lemma event_active_nolock_keeps: "matches good base \<Longrightarrow> keeps good (event_active_nolock base e res n)"
  unfolding event_active_nolock_def Let_def
  by (intro ends_ifI) (auto intro!: ends_bindI event_queue_insert_keeps)

lemma evmap_io_active_keeps: "matches good base \<Longrightarrow> keeps good (evmap_io_active base fd what)"
  unfolding evmap_io_active_def by (auto split: option.splits intro!: ends_foldE event_active_nolock_keeps)

lemma evmap_signal_active_keeps: "matches good base \<Longrightarrow> keeps good (evmap_signal_active base s n)"
  unfolding evmap_signal_active_def by (auto split: option.splits intro!: ends_foldE event_active_nolock_keeps)

lemmas queue_keeps = event_queue_remove_keeps event_queue_insert_keeps event_active_nolock_keeps
  evmap_io_active_keeps evmap_signal_active_keeps

section \<open>Calls\<close>

text \<open>A callback may make calls of the interface, one after the other.\<close>

datatype api_call = Call_Add nat "timeval option" | Call_Del nat | Call_Active nat "ev_what set" nat | Call_Loopbreak

fun run_call :: "('b, 'p) loop_env_scheme \<Rightarrow> api_call \<Rightarrow> 'b event_base \<Rightarrow> 'b event_base exec" where
  "run_call p (Call_Add e tv) base = bindE (event_add p base e tv) (\<lambda>(_, base). Inr base)"
| "run_call p (Call_Del e) base = bindE (event_del p base e) (\<lambda>(_, base). Inr base)"
| "run_call p (Call_Active e res n) base = event_active base e res n"
| "run_call p Call_Loopbreak base = Inr (snd (event_base_loopbreak base))"

definition run_calls :: "('b, 'p) loop_env_scheme \<Rightarrow> api_call list \<Rightarrow> 'b event_base \<Rightarrow> 'b event_base exec" where
  "run_calls p cs base = foldE (run_call p) cs base"

section \<open>The contract of a backend\<close>

lemma watched_put:
  "watched (base\<lparr>evbase := b, evio := (evio base)(fd \<mapsto> ctx)\<rparr>) read =
     (if 0 \<le> fd \<and> watchers read ctx \<noteq> 0 then insert fd (watched base read) else watched base read - {fd})"
  by (auto simp: watched_def io_slot_def)

lemma slot_watched:
  assumes "GET_IO_SLOT_AND_CTOR p base fd = Some (ctx, base1)"
  shows "watched base1 = watched base" "evbase base1 = evbase base" "evmem base1 = evmem base"
    "0 \<le> fd \<Longrightarrow> fd \<in> watched base1 read \<longleftrightarrow> watchers read ctx \<noteq> 0"
  using assms
  by (auto simp: GET_IO_SLOT_AND_CTOR_def watched_def [abs_def] io_slot_def watchers_def evmap_io_init_def fun_eq_iff
      split: option.splits if_splits)

locale backend_contract =
  fixes p :: "('b, 'p) loop_env_scheme" and good :: "'b \<Rightarrow> (bool \<Rightarrow> int set) \<Rightarrow> bool"
  assumes add: "good b W \<Longrightarrow> op_add (evsel p) b fd old what = (r, b') \<Longrightarrow> good b' (if r = -1 then W else watch_more fd what W)"
    and del: "good b W \<Longrightarrow> op_del (evsel p) b fd old what = (r, b') \<Longrightarrow> good b' (if r = -1 then W else watch_less fd what W)"
    and sig_add: "good b W \<Longrightarrow> op_add (evsigsel p) b fd old what = (r, b') \<Longrightarrow> good b' W"
    and sig_del: "good b W \<Longrightarrow> op_del (evsigsel p) b fd old what = (r, b') \<Longrightarrow> good b' W"
    and clock: "good b W \<Longrightarrow> os_ftime p b = (t, b') \<Longrightarrow> good b' W"
    and base_set: "good b W \<Longrightarrow> good (sig_set_base p b) W"
begin

text \<open>The maps: what changes for a socket is what the backend is told.\<close>

lemma io_add_keeps:
  assumes m: "matches good base"
  shows "keeps2 good (evmap_io_add p base fd e)"
proof (cases "fd \<noteq> ev_fd (evmem base e) \<or> fd < 0")
  case True
  with m show ?thesis by (auto simp: evmap_io_add_def Let_def)
next
  case False
  define ev where "ev = evmem base e"
  from False have fd: "\<not> fd \<noteq> ev_fd ev" "\<not> fd < 0" by (simp_all add: ev_def)
  show ?thesis
  proof (cases "GET_IO_SLOT_AND_CTOR p base fd")
    case None
    with m fd show ?thesis by (simp add: evmap_io_add_def Let_def flip: ev_def)
  next
    case (Some cb)
    obtain ctx base1 where cb: "cb = (ctx, base1)" by (cases cb)
    note s = slot_watched [OF Some [unfolded cb]]
    have m1: "matches good base1" using m s(1,2) by (simp add: matches_def)
    define rd wr where "rd = (EV_READ \<in> ev_events ev)" and "wr = (EV_WRITE \<in> ev_events ev)"
    define nread nwrite where "nread = io_nread ctx + (if rd then 1 else 0)" and "nwrite = io_nwrite ctx + (if wr then 1 else 0)"
    define old res where "old = rw_mask (io_nread ctx \<noteq> 0) (io_nwrite ctx \<noteq> 0)" and "res = rw_mask (rd \<and> nread = 1) (wr \<and> nwrite = 1)"
    define ctx' where "ctx' = ctx\<lparr>io_nread := nread, io_nwrite := nwrite, io_events := io_events ctx @ [e]\<rparr>"
    obtain r b where call: "backend_call (res \<noteq> {}) (op_add (evsel p)) (evbase base1) fd old (ev_events ev \<inter> {EV_ET} \<union> res) = (r, b)"
      by fastforce
    have res: "dir read \<in> ev_events ev \<inter> {EV_ET} \<union> res \<longleftrightarrow> watchers read ctx' \<noteq> 0 \<and> watchers read ctx = 0" for read
      by (cases read) (auto simp: dir_def res_def rw_mask_def watchers_def ctx'_def nread_def nwrite_def rd_def wr_def)
    have w: "watched (base1\<lparr>evbase := b, evio := (evio base1)(fd \<mapsto> ctx')\<rparr>) = watch_more fd (ev_events ev \<inter> {EV_ET} \<union> res) (watched base1)"
    proof
      fix read
      have "watchers read ctx \<le> watchers read ctx'" by (simp add: watchers_def ctx'_def nread_def nwrite_def)
      then show "watched (base1\<lparr>evbase := b, evio := (evio base1)(fd \<mapsto> ctx')\<rparr>) read = watch_more fd (ev_events ev \<inter> {EV_ET} \<union> res) (watched base1) read"
        unfolding watched_put watch_more_def res using s(4) [of read] fd(2) by auto
    qed
    have none: "watch_more fd (ev_events ev \<inter> {EV_ET} \<union> res) W = W" if "res = {}" for W
      using that by (simp add: watch_more_def fun_eq_iff dir_def)
    have g: "good b (if r = -1 then watched base1 else watch_more fd (ev_events ev \<inter> {EV_ET} \<union> res) (watched base1))"
    proof (cases "res = {}")
      case True
      with call m1 none show ?thesis by (auto simp: backend_call_def matches_def)
    next
      case False
      with call add [of "evbase base1" "watched base1" fd old "ev_events ev \<inter> {EV_ET} \<union> res" r b] m1 show ?thesis
        by (simp add: backend_call_def matches_def)
    qed
    have r1: "matches good (base1\<lparr>evbase := b\<rparr>)" if "r = -1" using g that by (simp add: matches_def watched_def [abs_def])
    have r2: "matches good (base1\<lparr>evbase := b, evio := (evio base1)(fd \<mapsto> ctx')\<rparr>)" if "r \<noteq> -1"
      using g that w by (simp add: matches_def)
    show ?thesis
      unfolding evmap_io_add_def Let_def ev_def [symmetric] Some cb option.case prod.case if_not_P [OF fd(1)] if_not_P [OF fd(2)]
        rd_def [symmetric] wr_def [symmetric] nread_def [symmetric] nwrite_def [symmetric] old_def [symmetric] res_def [symmetric]
      using m1 r1 r2 fd call by (auto simp: ctx'_def)
  qed
qed

lemma io_del_keeps:
  assumes m: "matches good base"
  shows "keeps2 good (evmap_io_del p base fd e)"
proof (cases "fd < 0 \<or> fd \<noteq> ev_fd (evmem base e) \<or> evio base fd = None")
  case True
  with m show ?thesis by (auto simp: evmap_io_del_def Let_def)
next
  case False
  define ev where "ev = evmem base e"
  from False have fd: "\<not> fd < 0" "\<not> fd \<noteq> ev_fd ev" by (simp_all add: ev_def)
  from False obtain ctx where ctx: "evio base fd = Some ctx" by auto
  define rd wr where "rd = (EV_READ \<in> ev_events ev)" and "wr = (EV_WRITE \<in> ev_events ev)"
  define nread nwrite where "nread = int (io_nread ctx) - (if rd then 1 else 0)" and "nwrite = int (io_nwrite ctx) - (if wr then 1 else 0)"
  define old res where "old = rw_mask (io_nread ctx \<noteq> 0) (io_nwrite ctx \<noteq> 0)" and "res = rw_mask (rd \<and> nread = 0) (wr \<and> nwrite = 0)"
  define put where "put q = ctx\<lparr>io_nread := nat nread, io_nwrite := nat nwrite, io_events := q\<rparr>" for q
  obtain r b where call: "backend_call (res \<noteq> {}) (op_del (evsel p)) (evbase base) fd old res = (r, b)" by fastforce
  have none: "watch_less fd res W = W" if "res = {}" for W using that by (simp add: watch_less_def fun_eq_iff)
  have g: "good b (if r = -1 then watched base else watch_less fd res (watched base))"
  proof (cases "res = {}")
    case True
    with call m none show ?thesis by (auto simp: backend_call_def matches_def)
  next
    case False
    with call del [of "evbase base" "watched base" fd old res r b] m show ?thesis by (simp add: backend_call_def matches_def)
  qed
  have w: "watched (base\<lparr>evbase := b, evio := (evio base)(fd \<mapsto> put q)\<rparr>) = watch_less fd res (watched base)"
    if "\<not> (rd \<and> nread < 0 \<or> wr \<and> nwrite < 0)" for q
  proof
    fix read
    have "fd \<in> watched base read \<longleftrightarrow> watchers read ctx \<noteq> 0" using fd(1) ctx by (simp add: watched_def io_slot_def)
    moreover have "watchers read (put q) \<noteq> 0 \<longleftrightarrow> watchers read ctx \<noteq> 0 \<and> dir read \<notin> res"
      using that by (cases read) (auto simp: dir_def res_def rw_mask_def watchers_def put_def nread_def nwrite_def)
    ultimately show "watched (base\<lparr>evbase := b, evio := (evio base)(fd \<mapsto> put q)\<rparr>) read = watch_less fd res (watched base) read"
      unfolding watched_put watch_less_def using fd(1) by auto
  qed
  have r1: "matches good (base\<lparr>evbase := b\<rparr>)" if "r = -1" using g that by (simp add: matches_def watched_def [abs_def])
  have r2: "matches good (base\<lparr>evbase := b, evio := (evio base)(fd \<mapsto> put q)\<rparr>)"
    if "r \<noteq> -1" "\<not> (rd \<and> nread < 0 \<or> wr \<and> nwrite < 0)" for q
    using g that w [OF that(2)] by (simp add: matches_def)
  show ?thesis
    unfolding evmap_io_del_def Let_def ev_def [symmetric] ctx option.case if_not_P [OF fd(1)] if_not_P [OF fd(2)]
      rd_def [symmetric] wr_def [symmetric] nread_def [symmetric] nwrite_def [symmetric] old_def [symmetric] res_def [symmetric]
      put_def [symmetric]
    using r1 r2 fd call by (auto intro!: ends_bind_any)
qed

lemma make_space_keeps: "matches good base \<Longrightarrow> keeps2 good (evmap_make_space p base slot)"
  unfolding evmap_make_space_def Let_def by (auto intro!: ends_bind_any)

lemma signal_add_keeps:
  assumes "matches good base"
  shows "keeps2 good (evmap_signal_add p base s e)"
proof -
  have "keeps2 good (case GET_SIGNAL_SLOT_AND_CTOR p base (nat s) of
                 None \<Rightarrow> Inr (-1, base)
               | Some (q, base) \<Rightarrow>
                   let (r, b) = backend_call (q = []) (op_add (evsigsel p)) (evbase base) (ev_fd (evmem base e)) {} {EV_SIGNAL};
                       base = base\<lparr>evbase := b\<rparr>
                   in if r = -1 then Inr (-1, base) else Inr (1, base\<lparr>sigmap := (sigmap base)[nat s := Some (q @ [e])]\<rparr>))"
    if m: "matches good base" for base :: "'b event_base"
  proof (cases "GET_SIGNAL_SLOT_AND_CTOR p base (nat s)")
    case (Some qb)
    obtain q base1 where qb: "qb = (q, base1)" by (cases qb)
    have b1: "matches good base1" using Some qb m by (auto simp: GET_SIGNAL_SLOT_AND_CTOR_def split: option.splits if_splits)
    obtain r b where call: "backend_call (q = []) (op_add (evsigsel p)) (evbase base1) (ev_fd (evmem base1 e)) {} {EV_SIGNAL} = (r, b)"
      by fastforce
    then have "good b (watched base1)"
      using b1 sig_add [of "evbase base1" "watched base1"] by (auto simp: backend_call_def matches_def split: if_splits)
    then have "matches good (base1\<lparr>evbase := b\<rparr>)" by (simp add: matches_def watched_def [abs_def])
    with Some qb call show ?thesis by (simp add: Let_def)
  qed (use m in simp)
  with assms show ?thesis
    unfolding evmap_signal_add_def
    by (intro ends_ifI ends_bindI [where Q = "\<lambda>r. matches good (snd r)"]) (auto intro: make_space_keeps)
qed

lemma signal_del_keeps:
  assumes m: "matches good base"
  shows "keeps2 good (evmap_signal_del p base s e)"
proof (cases "sigmap base ! nat s")
  case None
  with m show ?thesis by (simp add: evmap_signal_del_def)
next
  case (Some q)
  obtain r b where call: "backend_call (length q \<le> 1) (op_del (evsigsel p)) (evbase base) (ev_fd (evmem base e)) {} {EV_SIGNAL} = (r, b)"
    by fastforce
  then have "good b (watched base)"
    using m sig_del [of "evbase base" "watched base"] by (auto simp: backend_call_def matches_def split: if_splits)
  then have "matches good (base\<lparr>evbase := b\<rparr>)" by (simp add: matches_def watched_def [abs_def])
  with Some call m show ?thesis by (auto simp: evmap_signal_del_def Let_def intro!: ends_bind_any)
qed

text \<open>The clock, adding and deleting.\<close>

lemma gettime_keeps: "matches good base \<Longrightarrow> gettime p base = (tv, base') \<Longrightarrow> matches good base'"
  by (auto simp: gettime_def evutil_gettimeofday_def matches_def watched_def [abs_def] split: if_splits prod.splits intro: clock)

lemma with_time:
  assumes "matches good base" "\<And>tv base'. matches good base' \<Longrightarrow> ends (f tv base') P"
  shows "ends (case gettime p base of (tv, base') \<Rightarrow> f tv base') P"
  using assms gettime_keeps by (cases "gettime p base") simp

lemma add_reserve_keeps: "matches good base \<Longrightarrow> add_reserve r base e tv = (ok, base') \<Longrightarrow> matches good base'"
  by (auto simp: add_reserve_def split: if_splits prod.splits)

lemma add_watch_keeps: "matches good base \<Longrightarrow> keeps3 good (add_watch p base e)"
  unfolding add_watch_def Let_def
  by (intro ends_ifI) (auto intro!: ends_bindI [where Q = "\<lambda>r. matches good (snd r)"] ends_bindI [where Q = "matches good"]
      io_add_keeps signal_add_keeps queue_keeps)

lemma add_unschedule_keeps: "matches good base \<Longrightarrow> keeps2 good (add_unschedule base e)"
  unfolding add_unschedule_def Let_def
  by (rule ends_bindI [where Q = "\<lambda>r. matches good (snd r)"])
    (auto intro!: ends_bindI [where Q = "matches good"] queue_keeps)

lemma add_timeout_keeps:
  assumes "matches good base" and sched: "\<And>base ctl e. matches good base \<Longrightarrow> keeps good (schedule base ctl e)"
  shows "keeps2 good (add_timeout p schedule base e tv absolute)"
  unfolding add_timeout_def Let_def
  by (rule ends_bindI [OF add_unschedule_keeps])
    (use assms(1) in \<open>auto split: prod.splits dest: gettime_keeps intro!: ends_bindI [where Q = "matches good"] queue_keeps sched\<close>)

lemma event_add_body_keeps:
  assumes "matches good base" and sched: "\<And>base ctl e. matches good base \<Longrightarrow> keeps good (schedule base ctl e)"
  shows "keeps2 good (event_add_body p schedule base e tv absolute)"
  unfolding event_add_body_def
  using assms(1)
  by (auto split: prod.splits option.splits dest: add_reserve_keeps
      intro!: ends_bindI [OF add_watch_keeps] ends_bindI [where Q = "\<lambda>r. matches good (snd r)"]
        add_timeout_keeps sched)

lemma common_timeout_schedule_keeps: "matches good base \<Longrightarrow> keeps good (common_timeout_schedule p base ctl e)"
  unfolding common_timeout_schedule_def by (rule ends_bindI [OF event_add_body_keeps]) auto

lemma event_add_internal_keeps: "matches good base \<Longrightarrow> keeps2 good (event_add_internal p base e tv absolute)"
  unfolding event_add_internal_def by (rule event_add_body_keeps) (auto intro: common_timeout_schedule_keeps)

lemma event_add_keeps: "matches good base \<Longrightarrow> keeps2 good (event_add p base e tv)"
  by (simp add: event_add_def event_add_internal_keeps)

lemma del_watch_keeps: "matches good base \<Longrightarrow> keeps3 good (del_watch p base e)"
  unfolding del_watch_def
  by (intro ends_ifI) (auto intro!: ends_bindI [where Q = "\<lambda>r. matches good (snd r)"] ends_bindI [OF event_queue_remove_keeps]
      io_del_keeps signal_del_keeps)

lemma event_del_internal_keeps: "matches good base \<Longrightarrow> keeps2 good (event_del_internal p base e)"
  unfolding event_del_internal_def Let_def
  by (intro ends_ifI) (auto intro!: ends_bindI [where Q = "matches good"] ends_bindI [OF del_watch_keeps] queue_keeps)

lemma event_del_keeps: "matches good base \<Longrightarrow> keeps2 good (event_del p base e)"
  by (simp add: event_del_def event_del_internal_keeps)

text \<open>Timeouts.\<close>

lemma expire_keeps: "matches good base \<Longrightarrow> keeps good (expire p base e)"
  unfolding expire_def by (rule ends_bindI [OF event_del_internal_keeps]) (auto intro: queue_keeps)

lemma timeout_process_keeps: "matches good base \<Longrightarrow> keeps good (timeout_process p base)"
  unfolding timeout_process_def
proof (intro ends_ifI with_time ends_loops [where I = "matches good"] ends_bind_any, goal_cases)
  case (3 tv b c e)
  then show ?case by (cases e) (auto intro!: ends_bindI [OF expire_keeps])
qed simp_all

lemma correct_keeps:
  assumes "matches good base"
  shows "keeps good (correct_heap off base)" "keeps good (correct_lists off base)"
proof -
  show "keeps good (correct_heap off base)"
    unfolding correct_heap_def by (rule ends_foldE) (use assms in \<open>simp_all add: ends_bind_any\<close>)
  have "keeps good (correct_event off i e b)" if "matches good b" for i e b
    unfolding correct_event_def using that by (intro ends_bind_any) simp
  then show "keeps good (correct_lists off base)"
    unfolding correct_lists_def using assms by (intro ends_foldE)
qed

lemma timeout_correct_keeps: "matches good base \<Longrightarrow> keeps good (timeout_correct p base)"
  unfolding timeout_correct_def Let_def
  by (intro with_time ends_ifI ends_bindI [OF correct_keeps(1)] ends_bindI [OF correct_keeps(2)]) simp_all

lemma timeout_next_keeps: "matches good base \<Longrightarrow> keeps3 good (timeout_next p base)"
  unfolding timeout_next_def Let_def
proof (intro ends_bind_any, goal_cases)
  case (1 ev)
  then show ?case by (cases ev) (auto intro!: with_time)
qed

lemma expire_list_keeps: "matches good base \<Longrightarrow> keeps2 good (expire_list p i now base)"
  unfolding expire_list_def Let_def
proof (intro ends_loops [where I = "matches good"], goal_cases)
  case (1 b)
  then show ?case by (cases "ctl_events (common_timeout_queues b ! i)") (auto intro!: ends_bindI [OF expire_keeps])
qed

lemma common_timeout_callback_keeps: "matches good base \<Longrightarrow> keeps good (common_timeout_callback p i base)"
  unfolding common_timeout_callback_def
proof (intro ends_ifI with_time ends_bindI [OF expire_list_keeps], goal_cases)
  case (4 tv b r)
  then show ?case by (cases r; cases "fst r") (auto intro: common_timeout_schedule_keeps)
qed simp_all

lemma event_base_once_keeps: "matches good base \<Longrightarrow> keeps2 good (event_base_once p base fd what cb arg tv)"
  unfolding event_base_once_def Let_def by (auto split: option.splits intro!: event_add_keeps)

lemma init_common_timeout_keeps: "matches good base \<Longrightarrow> keeps2 good (event_base_init_common_timeout p base duration)"
proof -
  assume m: "matches good base"
  have new: "matches good b'" if "matches good b" "new_common_timeout b tv e = (t, b')" for b tv e t b'
    using that by (auto simp: new_common_timeout_def Let_def)
  have "matches good (snd (grow_queues p base))" using m by (simp add: grow_queues_def Let_def)
  with new m show ?thesis
    unfolding event_base_init_common_timeout_def Let_def
    by (cases "grow_queues p base") (auto split: option.splits prod.splits intro: new)
qed

lemma run_calls_keep: "matches good base \<Longrightarrow> keeps good (run_calls p cs base)"
  unfolding run_calls_def
proof (rule ends_foldE)
  fix c and base :: "'b event_base"
  assume m: "matches good base"
  then show "keeps good (run_call p c base)"
    by (cases c) (auto intro!: ends_bindI [OF event_add_keeps] ends_bindI [OF event_del_keeps] event_active_nolock_keeps
        simp: event_active_def event_base_loopbreak_def Let_def)
qed

lemma new_base_matches:
  assumes "good b (\<lambda>_. {})" "event_base_new p mem b = Some base"
  shows "matches good base"
proof -
  have keep: "matches good base' \<Longrightarrow> event_base_priority_init p base' n = (r, base'') \<Longrightarrow> matches good base''" for base' n r base''
    by (auto simp: event_base_priority_init_def split: if_splits)
  define zero where "zero = \<lparr>evbase = b, evio = (\<lambda>_. None), sigmap = [], evmem = mem, virtual_event_count = 0, event_count = 0,
             event_count_active = 0, event_gotterm = False, event_break = False, event_continue = False,
             event_running_priority = 0, running_loop = False, activequeues = [], common_timeout_queues = [],
             n_common_timeouts_allocated = 0, defer_list = [], defer_active_count = 0, cb_queued = (\<lambda>_. False),
             eventqueue = [], event_tv = evutil_timerclear, timeheap = min_heap_ctor, tv_cache = evutil_timerclear,
             current_event = None, closure_ncalls = 0, need_notify = False, is_notify_pending = False,
             has_notify_fn = False, notifications = 0\<rparr>"
  have w: "watched (base'\<lparr>evio := Map.empty\<rparr>) = (\<lambda>_. {})" for base' :: "'b event_base"
    by (simp add: watched_def [abs_def] io_slot_def evmap_io_init_def watchers_def)
  have "watched zero = (\<lambda>_. {})" using w [of zero] by (simp add: zero_def watched_def [abs_def])
  with assms(1) have m0: "matches good zero" by (simp add: matches_def zero_def)
  obtain tv b1 where t: "gettime p zero = (tv, b1)" by fastforce
  have b1: "matches good b1" by (rule gettime_keeps [OF m0 t])
  moreover have "evio b1 = Map.empty" using t by (auto simp: gettime_def zero_def split: if_splits prod.splits)
  ultimately have "matches good (evmap_signal_initmap (evmap_io_initmap (b1\<lparr>event_tv := tv\<rparr>)))"
    by (simp add: evmap_signal_initmap_def evmap_io_initmap_def matches_def watched_def [abs_def])
  with keep assms(2) t show ?thesis
    unfolding event_base_new_def Let_def zero_def [symmetric] by (auto split: prod.splits if_splits)
qed

end

text \<open>The loop, if the backend, when it waits, and the callbacks keep the relation.\<close>

locale loop_contract = backend_contract +
  assumes wait: "matches good base \<Longrightarrow> keeps2 good (dispatch p base tv)"
    and user: "matches good base \<Longrightarrow> keeps good (user_callback p n fd res arg base)"
    and deferred: "matches good base \<Longrightarrow> keeps good (deferred_callback p cb base)"
begin

lemma run_callback_keeps: "matches good base \<Longrightarrow> keeps good (run_callback p callback e fd res arg base)"
  by (induction callback arbitrary: arg base) (auto intro!: user common_timeout_callback_keeps ends_bindI [where Q = "matches good"])

lemma call_event_keeps: "matches good base \<Longrightarrow> keeps good (call_event p base e)"
  unfolding call_event_def Let_def by (rule run_callback_keeps)

lemma run_closure_keeps:
  assumes "matches good base"
  shows "keeps good (run_closure p base e)"
proof -
  have "keeps good (event_signal_closure p base e)"
    unfolding event_signal_closure_def Let_def
    by (rule ends_loops [where I = "matches good"])
       (use assms in \<open>auto simp: signal_call_def Let_def intro!: ends_bindI [OF call_event_keeps]\<close>)
  moreover have "keeps good (event_persist_closure p base e)"
    unfolding event_persist_closure_def
    by (rule ends_bindI [where Q = "matches good"])
       (use assms in \<open>auto intro!: with_time ends_bindI [OF event_add_internal_keeps] call_event_keeps\<close>)
  ultimately show ?thesis using assms by (simp add: run_closure_def call_event_keeps split: ev_closure_kind.splits)
qed

lemma single_queue_keeps: "matches good base \<Longrightarrow> keeps2 good (event_process_active_single_queue p base i)"
  unfolding event_process_active_single_queue_def
  by (rule ends_loops [where I = "\<lambda>r. matches good (snd r)"])
     (auto simp: process_first_def Let_def split: list.splits
       intro!: ends_bindI [where Q = "matches good"] ends_bindI [OF event_del_internal_keeps] queue_keeps run_closure_keeps)

lemma process_deferred_keeps: "matches good base \<Longrightarrow> keeps2 good (process_deferred p n base)"
proof (induction "MAX_DEFERRED - n" arbitrary: n base rule: less_induct)
  case less
  show ?case
  proof (cases "defer_list base")
    case (Cons cb cbs)
    have "keeps good (deferred_callback p cb (base\<lparr>cb_queued := (cb_queued base)(cb := False), defer_list := cbs,
       defer_active_count := defer_active_count base - 1\<rparr>))"
      using less.prems by (intro deferred) simp
    then show ?thesis
      unfolding process_deferred.simps [of p n base] Cons list.case
      by (rule ends_bindI) (auto intro!: ends_ifI less.hyps)
  qed (use less.prems in \<open>simp add: process_deferred.simps [of p n base]\<close>)
qed

lemma event_process_active_keeps: "matches good base \<Longrightarrow> keeps2 good (event_process_active p base)"
proof -
  assume m: "matches good base"
  have "keeps2 good (loops (process_priority p) (0, 0, base))"
    by (rule ends_loops [where I = "\<lambda>r. matches good (snd (snd r))"])
       (use m in \<open>auto simp: process_priority_def intro!: ends_bindI [OF single_queue_keeps]\<close>)
  then show ?thesis
    unfolding event_process_active_def event_process_deferred_callbacks_def
    by (rule ends_bindI) (auto intro!: ends_bindI [OF process_deferred_keeps])
qed

lemma update_time_cache_keeps: "matches good base \<Longrightarrow> matches good (update_time_cache p no_cache base)"
  using gettime_keeps [of "clear_time_cache base"] by (auto simp: update_time_cache_def Let_def split: prod.splits)

lemma loop_round_keeps:
  assumes "matches good base"
  shows "ends (loop_round p no_cache flags (finished, base)) (\<lambda>r. case r of Inl s \<Rightarrow> matches good (snd s) | Inr s \<Rightarrow> matches good (snd s))"
proof -
  have process: "ends (loop_process p no_cache flags b) (\<lambda>r. case r of Inl s \<Rightarrow> matches good (snd s) | Inr s \<Rightarrow> matches good (snd s))"
    if "matches good b" for b
    unfolding loop_process_def
    by (rule ends_bindI [OF timeout_process_keeps [OF update_time_cache_keeps [OF that]]])
       (auto intro!: ends_bindI [OF event_process_active_keeps])
  have dispatch: "ends (loop_dispatch p no_cache flags (tv, b)) (\<lambda>r. case r of Inl s \<Rightarrow> matches good (snd s) | Inr s \<Rightarrow> matches good (snd s))"
    if "matches good b" for tv b
  proof -
    have "matches good (case gettime p b of (tv, base) \<Rightarrow> base\<lparr>event_tv := tv\<rparr>)"
      using gettime_keeps [OF that] by (cases "gettime p b") simp
    with that show ?thesis
      unfolding loop_dispatch_def Let_def by (auto intro!: ends_bindI [OF wait] process)
  qed
  have timeout: "keeps2 good (loop_timeout p flags b)" if "matches good b" for b
    unfolding loop_timeout_def using that by (auto intro!: ends_bindI [OF timeout_next_keeps])
  from assms show ?thesis
    unfolding loop_round_def Let_def
    by (auto intro!: ends_bindI [OF timeout_correct_keeps] ends_bindI [OF timeout] dispatch)
qed

lemma event_base_loop_keeps:
  assumes "matches good base"
  shows "keeps2 good (event_base_loop p no_cache base flags)"
proof (cases "running_loop base")
  case False
  let ?b = "(clear_time_cache (base\<lparr>running_loop := True\<rparr>))\<lparr>evbase := sig_set_base p (evbase (clear_time_cache (base\<lparr>running_loop := True\<rparr>))),
     event_gotterm := False, event_break := False\<rparr>"
  have "matches good ?b" using assms base_set by (simp add: matches_def watched_def [abs_def] clear_time_cache_def)
  then have "keeps2 good (loops (loop_round p no_cache flags) (False, ?b))"
    by (intro ends_loops [where I = "\<lambda>s. matches good (snd s)"]) (use loop_round_keeps in auto)
  with False show ?thesis
    by (simp add: event_base_loop_def Let_def) (rule ends_bindI, assumption, auto)
qed (use assms in \<open>simp add: event_base_loop_def\<close>)

end

end
