(* ===== verification/Win32_Select.thy ===== *)
theory Win32_Select
  imports Event_API "HOL-Library.Signed_Division"
begin

text \<open>
  The backend of the event base on Windows, \<open>win32select.c\<close>: the sets of sockets for \<open>select\<close>, in which every
  socket knows its place, and the dispatch of what \<open>select\<close> reports.

  A set is its capacity and the list \<open>fd_array\<close>, whose length is \<open>fd_count\<close>; a null pointer is \<open>None\<close>. What the backend
  keeps for a socket (\<open>struct idx_info\<close>, behind its entry in the map of sockets) is \<open>fdinfo\<close>: \<open>None\<close> until something has been
  written there, since a new entry is all zero.
\<close>

section \<open>State\<close>

record win_fd_set =
  set_room :: nat
  fd_array :: "int list"

record idx_info =
  read_pos_plus1 :: int
  write_pos_plus1 :: int

record win32op =
  num_fds_in_fd_sets :: nat
  resize_out_sets :: bool
  readset_in :: "win_fd_set option"
  writeset_in :: "win_fd_set option"
  readset_out :: "win_fd_set option"
  writeset_out :: "win_fd_set option"
  exset_out :: "win_fd_set option"
  signals_are_broken :: bool
  fdinfo :: "int \<Rightarrow> idx_info option"
  outside :: "int list"

text \<open>
  The environment: which blocks the allocator gives (for a set, by size in bytes), the results of \<open>rand\<close>, and \<open>select\<close>: it
  gets the number of sockets, the three sets and the timeout, and gives a number and what it leaves in the sets. \<open>outside\<close>
  is what happens outside: the milliseconds given to \<open>Sleep\<close>, and whatever the clock does.
\<close>

datatype win_set = Readset_In | Writeset_In | Readset_Out | Writeset_Out | Exset_Out

record win_env =
  op_alloc :: bool
  set_alloc :: "win_set \<Rightarrow> nat \<Rightarrow> bool"
  rand_value :: "win_set \<Rightarrow> nat"
  select_call :: "nat \<Rightarrow> int list \<Rightarrow> int list \<Rightarrow> int list \<Rightarrow> timeval option \<Rightarrow> int \<times> int list \<times> int list \<times> int list"

text \<open>No block has \<open>2 ^ 31\<close> bytes or more.\<close>

definition mm_gives :: "win_env \<Rightarrow> win_set \<Rightarrow> nat \<Rightarrow> bool" where
  "mm_gives env s bytes \<longleftrightarrow> bytes < 2 ^ 31 \<and> set_alloc env s bytes"

section \<open>The sets\<close>

text \<open>The size of a set for \<open>n\<close> sockets, as a 32-bit \<open>size_t\<close>, and how many sockets a block of a size has room for.\<close>

definition FD_SET_ALLOC_SIZE :: "nat \<Rightarrow> nat" where
  "FD_SET_ALLOC_SIZE n = nat ((8 + (int n - 1) * 4) mod 2 ^ 32)"

definition room_of_size :: "nat \<Rightarrow> nat" where
  "room_of_size size_bytes = (size_bytes - 4) div 4"

text \<open>What \<open>mm_realloc\<close> gives when it succeeds; a block that is new holds nothing yet.\<close>

definition resized :: "nat \<Rightarrow> win_fd_set option \<Rightarrow> win_fd_set" where
  "resized n s = (case s of None \<Rightarrow> \<lparr>set_room = room_of_size (FD_SET_ALLOC_SIZE n), fd_array = []\<rparr>
                  | Some s \<Rightarrow> s\<lparr>set_room := room_of_size (FD_SET_ALLOC_SIZE n)\<rparr>)"

definition deref :: "'a option \<Rightarrow> 'a exec" where
  "deref x = (case x of None \<Rightarrow> Inl Null_Deref | Some y \<Rightarrow> Inr y)"

definition grow_fd_sets :: "win_env \<Rightarrow> nat \<Rightarrow> win32op \<Rightarrow> (int \<times> win32op) exec" where
  "grow_fd_sets env new_num_fds op =
     bindE (deref (readset_in op)) (\<lambda>r.
     bindE (deref (writeset_in op)) (\<lambda>w.
     if \<not> (new_num_fds \<ge> length (fd_array r) \<and> new_num_fds \<ge> length (fd_array w)) \<or> \<not> new_num_fds \<ge> 1 then Inl Assert_Failed
     else if \<not> mm_gives env Readset_In (FD_SET_ALLOC_SIZE new_num_fds) then Inr (-1, op\<lparr>readset_in := None\<rparr>)
     else let op = op\<lparr>readset_in := Some (resized new_num_fds (readset_in op))\<rparr>
          in if \<not> mm_gives env Writeset_In (FD_SET_ALLOC_SIZE new_num_fds) then Inr (-1, op\<lparr>writeset_in := None\<rparr>)
             else Inr (0, op\<lparr>writeset_in := Some (resized new_num_fds (writeset_in op)), resize_out_sets := True,
                             num_fds_in_fd_sets := new_num_fds\<rparr>)))"

text \<open>The set and the position a flag \<open>read\<close> selects.\<close>

definition in_set :: "bool \<Rightarrow> win32op \<Rightarrow> win_fd_set option" where
  "in_set read op = (if read then readset_in op else writeset_in op)"

definition put_set :: "bool \<Rightarrow> win_fd_set \<Rightarrow> win32op \<Rightarrow> win32op" where
  "put_set read s op = (if read then op\<lparr>readset_in := Some s\<rparr> else op\<lparr>writeset_in := Some s\<rparr>)"

definition pos_plus1 :: "bool \<Rightarrow> idx_info \<Rightarrow> int" where
  "pos_plus1 read ent = (if read then read_pos_plus1 ent else write_pos_plus1 ent)"

definition put_pos :: "bool \<Rightarrow> int \<Rightarrow> idx_info \<Rightarrow> idx_info" where
  "put_pos read i ent = (if read then ent\<lparr>read_pos_plus1 := i\<rparr> else ent\<lparr>write_pos_plus1 := i\<rparr>)"

definition idx_of :: "win32op \<Rightarrow> int \<Rightarrow> idx_info" where
  "idx_of op s = (case fdinfo op s of None \<Rightarrow> \<lparr>read_pos_plus1 = 0, write_pos_plus1 = 0\<rparr> | Some ent \<Rightarrow> ent)"

definition put_idx :: "int \<Rightarrow> idx_info \<Rightarrow> win32op \<Rightarrow> win32op" where
  "put_idx s ent op = op\<lparr>fdinfo := (fdinfo op)(s \<mapsto> ent)\<rparr>"

definition append_fd :: "int \<Rightarrow> bool \<Rightarrow> win32op \<Rightarrow> (int \<times> win32op) exec" where
  "append_fd s read op =
     bindE (deref (in_set read op)) (\<lambda>st.
     let n = length (fd_array st)
     in if n \<ge> set_room st then Inl Out_Of_Bounds
        else Inr (int n, put_idx s (put_pos read (int n + 1) (idx_of op s)) (put_set read (st\<lparr>fd_array := fd_array st @ [s]\<rparr>) op)))"

definition do_fd_set :: "win_env \<Rightarrow> int \<Rightarrow> bool \<Rightarrow> win32op \<Rightarrow> (int \<times> win32op) exec" where
  "do_fd_set env s read op =
     (if pos_plus1 read (idx_of op s) > 0 then Inr (0, op)
      else bindE (deref (in_set read op)) (\<lambda>st.
           bindE (if length (fd_array st) = num_fds_in_fd_sets op
                  then grow_fd_sets env (num_fds_in_fd_sets op * 2 mod 2 ^ 32) op else Inr (0, op)) (\<lambda>(r, op).
           if r \<noteq> 0 then Inr (-1, op) else append_fd s read op)))"

text \<open>The last socket of the set takes the place of the one that goes.\<close>

definition do_fd_clear :: "int \<Rightarrow> bool \<Rightarrow> win32op \<Rightarrow> (int \<times> win32op) exec" where
  "do_fd_clear s read op =
     (let i = pos_plus1 read (idx_of op s) - 1;
          op = put_idx s (put_pos read 0 (idx_of op s)) op
      in if i < 0 then Inr (0, op)
         else bindE (deref (in_set read op)) (\<lambda>st.
              let n = length (fd_array st) - 1
              in if fd_array st = [] then Inl Out_Of_Bounds
                 else if n = nat i then Inr (0, put_set read (st\<lparr>fd_array := butlast (fd_array st)\<rparr>) op)
                 else if nat i \<ge> set_room st then Inl Out_Of_Bounds
                 else let s2 = fd_array st ! n;
                          op = put_set read (st\<lparr>fd_array := butlast ((fd_array st)[nat i := s2])\<rparr>) op
                      in case fdinfo op s2 of
                           None \<Rightarrow> Inr (0, op)
                         | Some ent2 \<Rightarrow> Inr (0, put_idx s2 (put_pos read (i + 1) ent2) op)))"

section \<open>The functions of the backend\<close>

definition NEVENT :: nat where
  "NEVENT = 32"

text \<open>\<open>evsig\<close> is the result of \<open>evsig_init\<close>.\<close>

definition win32_init :: "win_env \<Rightarrow> int \<Rightarrow> win32op option" where
  "win32_init env evsig =
     (let n = FD_SET_ALLOC_SIZE NEVENT; new = Some \<lparr>set_room = room_of_size n, fd_array = []\<rparr>
      in if op_alloc env \<and> mm_gives env Readset_In n \<and> mm_gives env Writeset_In n \<and> mm_gives env Readset_Out n
            \<and> mm_gives env Writeset_Out n \<and> mm_gives env Exset_Out n
         then Some \<lparr>num_fds_in_fd_sets = NEVENT, resize_out_sets = False, readset_in = new, writeset_in = new,
                    readset_out = new, writeset_out = new, exset_out = new, signals_are_broken = evsig < 0,
                    fdinfo = Map.empty, outside = []\<rparr>
         else None)"

definition win32_add :: "win_env \<Rightarrow> int \<Rightarrow> ev_what set \<Rightarrow> ev_what set \<Rightarrow> win32op \<Rightarrow> (int \<times> win32op) exec" where
  "win32_add env fd old events op =
     (if EV_SIGNAL \<in> events \<and> signals_are_broken op then Inr (-1, op)
      else if EV_READ \<notin> events \<and> EV_WRITE \<notin> events then Inr (0, op)
      else bindE (if EV_READ \<in> events then do_fd_set env fd True op else Inr (0, op)) (\<lambda>(r, op).
           if r < 0 then Inr (-1, op)
           else bindE (if EV_WRITE \<in> events then do_fd_set env fd False op else Inr (0, op)) (\<lambda>(r, op).
           Inr (if r < 0 then -1 else 0, op))))"

definition win32_del :: "int \<Rightarrow> ev_what set \<Rightarrow> ev_what set \<Rightarrow> win32op \<Rightarrow> (int \<times> win32op) exec" where
  "win32_del fd old events op =
     bindE (if EV_READ \<in> events then do_fd_clear fd True op else Inr (0, op)) (\<lambda>(_, op).
     bindE (if EV_WRITE \<in> events then do_fd_clear fd False op else Inr (0, op)) (\<lambda>(_, op).
     Inr (0, op)))"

definition fd_set_copy :: "win_fd_set option \<Rightarrow> win_fd_set option \<Rightarrow> win_fd_set exec" where
  "fd_set_copy out inp =
     bindE (deref inp) (\<lambda>inp. bindE (deref out) (\<lambda>out.
     if length (fd_array inp) > set_room out then Inl Out_Of_Bounds else Inr (out\<lparr>fd_array := fd_array inp\<rparr>)))"

section \<open>Waiting\<close>

text \<open>\<open>evutil_tv_to_msec\<close>; the result is a \<open>long\<close>.\<close>

definition evutil_tv_to_msec :: "timeval \<Rightarrow> int" where
  "evutil_tv_to_msec tv =
     (if sint (tv_usec tv) > 1000000 \<or> sint (tv_sec tv) > (2147483647 - 999) div 1000 then -1
      else sint (tv_sec tv) * 1000 + (sint (tv_usec tv) + 999) sdiv 1000)"

definition sleep_msec :: "timeval option \<Rightarrow> int" where
  "sleep_msec tv = (let msec = (case tv of None \<Rightarrow> 2147483647 | Some tv \<Rightarrow> evutil_tv_to_msec tv)
                    in if msec < 0 then 2147483647 else msec)"

text \<open>Making the sets for the results as big as the others; on failure what has been done remains.\<close>

definition resize_sets :: "win_env \<Rightarrow> win32op \<Rightarrow> bool \<times> win32op" where
  "resize_sets env op =
     (let n = num_fds_in_fd_sets op; bytes = FD_SET_ALLOC_SIZE n
      in if \<not> resize_out_sets op then (True, op)
         else if \<not> mm_gives env Readset_Out bytes then (False, op\<lparr>readset_out := None\<rparr>)
         else let op = op\<lparr>readset_out := Some (resized n (readset_out op))\<rparr>
              in if \<not> mm_gives env Exset_Out bytes then (False, op\<lparr>exset_out := None\<rparr>)
                 else let op = op\<lparr>exset_out := Some (resized n (exset_out op))\<rparr>
                      in if \<not> mm_gives env Writeset_Out bytes then (False, op\<lparr>writeset_out := None\<rparr>)
                         else (True, op\<lparr>writeset_out := Some (resized n (writeset_out op)), resize_out_sets := False\<rparr>))"

text \<open>The loop over a set of results: \<open>j\<close> rounds are left, the last socket looked at is number \<open>i\<close>.\<close>

fun scan_set :: "nat \<Rightarrow> nat \<Rightarrow> int list \<Rightarrow> ev_what set \<Rightarrow> 'b event_base \<Rightarrow> 'b event_base exec" where
  "scan_set 0 i fds what base = Inr base"
| "scan_set (Suc j) i fds what base =
     (let i = i + 1; i = (if i \<ge> length fds then 0 else i)
      in bindE (evmap_io_active base (fds ! i) what) (scan_set j i fds what))"

definition report_set :: "nat \<Rightarrow> int list \<Rightarrow> ev_what \<Rightarrow> 'b event_base \<Rightarrow> 'b event_base exec" where
  "report_set rnd fds what base =
     (if fds = [] then Inr base else scan_set (length fds) (rnd mod length fds) fds {what} base)"

definition report_ready :: "win_env \<Rightarrow> int list \<Rightarrow> int list \<Rightarrow> int list \<Rightarrow> 'b event_base \<Rightarrow> 'b event_base exec" where
  "report_ready env rfds wfds xfds base =
     bindE (report_set (rand_value env Readset_Out) rfds EV_READ base) (\<lambda>base.
     bindE (report_set (rand_value env Exset_Out) xfds EV_WRITE base) (\<lambda>base.
     report_set (rand_value env Writeset_Out) wfds EV_WRITE base))"

text \<open>The sets of results.\<close>

definition put_outs :: "win_fd_set \<Rightarrow> win_fd_set \<Rightarrow> win_fd_set \<Rightarrow> win32op \<Rightarrow> win32op" where
  "put_outs r w x op = op\<lparr>readset_out := Some r, writeset_out := Some w, exset_out := Some x\<rparr>"

definition win32_dispatch :: "win_env \<Rightarrow> win32op event_base \<Rightarrow> timeval option \<Rightarrow> (int \<times> win32op event_base) exec" where
  "win32_dispatch env base tv =
     (case resize_sets env (evbase base) of (enlarged, op) \<Rightarrow>
      if \<not> enlarged then Inr (-1, base\<lparr>evbase := op\<rparr>)
      else bindE (fd_set_copy (readset_out op) (readset_in op)) (\<lambda>r.
           bindE (fd_set_copy (exset_out op) (writeset_in op)) (\<lambda>x.
           bindE (fd_set_copy (writeset_out op) (writeset_in op)) (\<lambda>w.
           let op = put_outs r w x op;
               fd_count = max (length (fd_array r)) (length (fd_array w))
           in if fd_count = 0 then Inr (0, base\<lparr>evbase := op\<lparr>outside := outside op @ [sleep_msec tv]\<rparr>\<rparr>)
              else case select_call env fd_count (fd_array r) (fd_array w) (fd_array x) tv of
                     (res, rfds, wfds, xfds) \<Rightarrow>
                       let base = base\<lparr>evbase := put_outs (r\<lparr>fd_array := rfds\<rparr>) (w\<lparr>fd_array := wfds\<rparr>) (x\<lparr>fd_array := xfds\<rparr>) op\<rparr>
                       in if res \<le> 0 then Inr (res, base)
                          else bindE (report_ready env rfds wfds xfds base) (\<lambda>base. Inr (0, base))))))"

text \<open>\<open>win32_dealloc\<close>: the blocks that are freed, after which the backend is gone.\<close>

definition win32_dealloc :: "win32op \<Rightarrow> win_set list" where
  "win32_dealloc op =
     (if readset_in op \<noteq> None then [Readset_In] else []) @ (if writeset_in op \<noteq> None then [Writeset_In] else [])
     @ (if readset_out op \<noteq> None then [Readset_Out] else []) @ (if writeset_out op \<noteq> None then [Writeset_Out] else [])
     @ (if exset_out op \<noteq> None then [Exset_Out] else [])"

end
