(* ===== verification/Win32_Watch.thy ===== *)
theory Win32_Watch
  imports Win32_Select Event_Backend
begin

text \<open>
  The select backend watches what it was told to watch: the invariant \<open>win32_ok\<close> of the sets and of the positions
  the sockets know, the contract \<open>watching_backend\<close> between the maps of \<open>evmap.c\<close> and a backend, and dispatching.
\<close>

section \<open>The invariant\<close>

text \<open>
  \<open>W True\<close> and \<open>W False\<close> are the sockets watched for reading and for writing. The sets hold each of them once, and
  the entry of a socket has its position.
\<close>

definition set_ok :: "bool \<Rightarrow> win32op \<Rightarrow> int set \<Rightarrow> bool" where
  "set_ok read op S \<longleftrightarrow> (\<exists>st. in_set read op = Some st \<and> set_room st = num_fds_in_fd_sets op
       \<and> length (fd_array st) \<le> num_fds_in_fd_sets op \<and> distinct (fd_array st) \<and> set (fd_array st) = S
       \<and> (\<forall>i<length (fd_array st). pos_plus1 read (idx_of op (fd_array st ! i)) = int i + 1))
     \<and> (\<forall>s. s \<notin> S \<longrightarrow> pos_plus1 read (idx_of op s) = 0)"

definition outs_fit :: "win32op \<Rightarrow> bool" where
  "outs_fit op \<longleftrightarrow> (\<forall>out\<in>{readset_out op, writeset_out op, exset_out op}. \<exists>st. out = Some st \<and> set_room st = num_fds_in_fd_sets op)"

definition win32_ok :: "win32op \<Rightarrow> (bool \<Rightarrow> int set) \<Rightarrow> bool" where
  "win32_ok op W \<longleftrightarrow> (\<forall>read. set_ok read op (W read)) \<and> 0 < num_fds_in_fd_sets op \<and> 4 + 4 * num_fds_in_fd_sets op < 2 ^ 31
     \<and> (resize_out_sets op \<or> outs_fit op)"

lemma FD_SET_ALLOC_SIZE_eq:
  assumes "0 < n" "n < 2 ^ 30 - 1"
  shows "FD_SET_ALLOC_SIZE n = 4 + 4 * n" "room_of_size (FD_SET_ALLOC_SIZE n) = n"
proof -
  have "(8 + (int n - 1) * 4) mod 2 ^ 32 = 4 + 4 * int n" using assms by (subst mod_pos_pos_trivial) auto
  then show "FD_SET_ALLOC_SIZE n = 4 + 4 * n" by (simp add: FD_SET_ALLOC_SIZE_def nat_add_distrib nat_mult_distrib)
  then show "room_of_size (FD_SET_ALLOC_SIZE n) = n" by (simp add: room_of_size_def)
qed

section \<open>Fields\<close>

lemma deref_Some [simp]: "deref (Some x) = Inr x" and deref_None [simp]: "deref None = Inl Null_Deref"
  by (simp_all add: deref_def)

lemma in_put_set [simp]: "in_set read' (put_set read st op) = (if read' = read then Some st else in_set read' op)"
  by (simp add: in_set_def put_set_def)

lemma in_set_put_idx [simp]: "in_set read (put_idx s ent op) = in_set read op"
  by (simp add: in_set_def put_idx_def)

lemma pos_put_pos [simp]: "pos_plus1 read' (put_pos read i ent) = (if read' = read then i else pos_plus1 read' ent)"
  by (simp add: pos_plus1_def put_pos_def)

lemma idx_of_put [simp]:
  "idx_of (put_idx s ent op) s' = (if s' = s then ent else idx_of op s')" "idx_of (put_set read st op) s' = idx_of op s'"
  by (simp_all add: idx_of_def put_idx_def put_set_def)

lemma put_fields [simp]:
  "num_fds_in_fd_sets (put_set read st op) = num_fds_in_fd_sets op" "resize_out_sets (put_set read st op) = resize_out_sets op"
  "outs_fit (put_set read st op) = outs_fit op" "fdinfo (put_set read st op) = fdinfo op"
  "num_fds_in_fd_sets (put_idx s ent op) = num_fds_in_fd_sets op" "resize_out_sets (put_idx s ent op) = resize_out_sets op"
  "outs_fit (put_idx s ent op) = outs_fit op" "fdinfo (put_idx s ent op) = (fdinfo op)(s \<mapsto> ent)"
  "signals_are_broken (put_set read st op) = signals_are_broken op"
  "signals_are_broken (put_idx s ent op) = signals_are_broken op"
  by (simp_all add: put_set_def put_idx_def outs_fit_def)

lemma set_okE:
  assumes "set_ok read op S"
  obtains st where "in_set read op = Some st" "set_room st = num_fds_in_fd_sets op"
    "length (fd_array st) \<le> num_fds_in_fd_sets op" "distinct (fd_array st)" "set (fd_array st) = S"
    "\<And>i. i < length (fd_array st) \<Longrightarrow> pos_plus1 read (idx_of op (fd_array st ! i)) = int i + 1"
    "\<And>s. s \<notin> S \<Longrightarrow> pos_plus1 read (idx_of op s) = 0"
  using assms unfolding set_ok_def by blast

lemma win32_ok_set: "win32_ok op W \<Longrightarrow> set_ok read op (W read)"
  by (simp add: win32_ok_def)

lemma set_ok_cong:
  assumes "in_set read op' = in_set read op" "num_fds_in_fd_sets op' = num_fds_in_fd_sets op"
    "\<And>s. pos_plus1 read (idx_of op' s) = pos_plus1 read (idx_of op s)"
  shows "set_ok read op' S = set_ok read op S"
  using assms by (simp add: set_ok_def)

text \<open>A socket is in a set just if its position is not zero, and then it is there.\<close>

lemma set_ok_pos:
  assumes "set_ok read op S" "in_set read op = Some st"
  shows "s \<in> S \<Longrightarrow> \<exists>i<length (fd_array st). fd_array st ! i = s \<and> pos_plus1 read (idx_of op s) = int i + 1"
    and "s \<in> S \<longleftrightarrow> pos_plus1 read (idx_of op s) > 0"
proof -
  from assms obtain st' where st': "st' = st" "set (fd_array st) = S"
    "\<And>i. i < length (fd_array st) \<Longrightarrow> pos_plus1 read (idx_of op (fd_array st ! i)) = int i + 1"
    "\<And>s. s \<notin> S \<Longrightarrow> pos_plus1 read (idx_of op s) = 0" by (auto elim!: set_okE)
  show *: "\<exists>i<length (fd_array st). fd_array st ! i = s \<and> pos_plus1 read (idx_of op s) = int i + 1" if "s \<in> S"
    using that st'(2,3) by (metis in_set_conv_nth)
  show "s \<in> S \<longleftrightarrow> pos_plus1 read (idx_of op s) > 0" using * st'(4) by fastforce
qed

section \<open>Adding and deleting\<close>

lemma grow_runs:
  assumes ok: "win32_ok op W"
  shows "runs (grow_fd_sets env (num_fds_in_fd_sets op * 2 mod 2 ^ 32) op) (\<lambda>(r, op').
    r = 0 \<and> win32_ok op' W \<and> num_fds_in_fd_sets op' = num_fds_in_fd_sets op * 2 \<and> fdinfo op' = fdinfo op
      \<and> signals_are_broken op' = signals_are_broken op
      \<and> (\<forall>read. map_option fd_array (in_set read op') = map_option fd_array (in_set read op))
    \<or> r = -1 \<and> (readset_in op' = None \<or> writeset_in op' = None)
      \<and> \<not> (mm_gives env Readset_In (4 + 8 * num_fds_in_fd_sets op) \<and> mm_gives env Writeset_In (4 + 8 * num_fds_in_fd_sets op)))"
proof -
  let ?n = "num_fds_in_fd_sets op"
  have n: "0 < ?n" "4 + 4 * ?n < 2 ^ 31" using ok by (simp_all add: win32_ok_def)
  then have m: "?n * 2 mod 2 ^ 32 = 2 * ?n" by simp
  have size: "FD_SET_ALLOC_SIZE (2 * ?n) = 4 + 8 * ?n" "room_of_size (4 + 8 * ?n) = 2 * ?n"
    using FD_SET_ALLOC_SIZE_eq [of "2 * ?n"] n by simp_all
  obtain r w where r: "readset_in op = Some r" "length (fd_array r) \<le> ?n" and w: "writeset_in op = Some w" "length (fd_array w) \<le> ?n"
    using win32_ok_set [OF ok, of True] win32_ok_set [OF ok, of False] by (auto simp: in_set_def elim!: set_okE)
  show ?thesis
  proof (cases "mm_gives env Readset_In (4 + 8 * ?n) \<and> mm_gives env Writeset_In (4 + 8 * ?n)")
    case True
    then have "4 + 8 * ?n < 2 ^ 31" by (simp add: mm_gives_def)
    let ?op = "op\<lparr>readset_in := Some (r\<lparr>set_room := 2 * ?n\<rparr>), writeset_in := Some (w\<lparr>set_room := 2 * ?n\<rparr>),
       resize_out_sets := True, num_fds_in_fd_sets := 2 * ?n\<rparr>"
    have idx: "idx_of ?op = idx_of op" by (simp add: idx_of_def fun_eq_iff)
    have "set_ok read ?op (W read)" for read
      using win32_ok_set [OF ok, of read] r w unfolding set_ok_def idx by (cases read) (auto simp: in_set_def)
    then have "win32_ok ?op W" using \<open>4 + 8 * ?n < 2 ^ 31\<close> n by (simp add: win32_ok_def)
    moreover have "grow_fd_sets env (?n * 2 mod 2 ^ 32) op = Inr (0, ?op)"
      using r w n True unfolding grow_fd_sets_def m by (simp add: size resized_def Let_def)
    ultimately show ?thesis using r w by (simp add: in_set_def)
  next
    case False
    then show ?thesis using r w n unfolding grow_fd_sets_def m by (auto simp: size Let_def)
  qed
qed

text \<open>Putting one more socket at the end of a set that has room.\<close>

lemma set_ok_insert:
  assumes ok: "set_ok read op S" and st: "in_set read op = Some st" and s: "s \<notin> S" and room: "length (fd_array st) < num_fds_in_fd_sets op"
  shows "set_ok read (put_idx s (put_pos read (int (length (fd_array st)) + 1) (idx_of op s))
           (put_set read (st\<lparr>fd_array := fd_array st @ [s]\<rparr>) op)) (insert s S)"
  using ok
proof (rule set_okE, goal_cases)
  case (1 st')
  with st have st': "st' = st" by simp
  note a = 1(2-7) [unfolded st']
  have "fd_array st ! i \<noteq> s" if "i < length (fd_array st)" for i using s a(4) nth_mem [OF that] by blast
  with a s room show ?case by (auto simp: set_ok_def nth_append less_Suc_eq)
qed

lemma set_ok_other:
  assumes "set_ok read op S" "read' \<noteq> read"
  shows "set_ok read (put_idx s (put_pos read' i (idx_of op s)) (put_set read' st op)) S"
    "set_ok read (put_idx s (put_pos read' i (idx_of op s)) op) S"
  using assms by (auto simp: set_ok_def)

lemma append_fd_runs:
  assumes ok: "win32_ok op W" and s: "s \<notin> W read" and st: "in_set read op = Some st" and room: "length (fd_array st) < num_fds_in_fd_sets op"
  shows "runs (append_fd s read op) (\<lambda>(r, op'). 0 \<le> r \<and> win32_ok op' (W(read := insert s (W read)))
    \<and> signals_are_broken op' = signals_are_broken op)"
proof -
  note so = win32_ok_set [OF ok]
  let ?op = "put_idx s (put_pos read (int (length (fd_array st)) + 1) (idx_of op s)) (put_set read (st\<lparr>fd_array := fd_array st @ [s]\<rparr>) op)"
  have "set_ok read' ?op ((W(read := insert s (W read))) read')" for read'
    using set_ok_insert [OF so st s room] set_ok_other(1) [OF so [of read'], of read] by (cases "read' = read") simp_all
  moreover have "set_room st = num_fds_in_fd_sets op" using so [of read] st by (auto elim: set_okE)
  ultimately have "win32_ok ?op (W(read := insert s (W read)))" using ok unfolding win32_ok_def by simp
  then show ?thesis using room st \<open>set_room st = num_fds_in_fd_sets op\<close> by (simp add: append_fd_def Let_def)
qed

text \<open>A set that is full could not be doubled.\<close>

definition cannot_grow :: "win_env \<Rightarrow> int set \<Rightarrow> bool" where
  "cannot_grow env S \<longleftrightarrow> \<not> (mm_gives env Readset_In (4 + 8 * card S) \<and> mm_gives env Writeset_In (4 + 8 * card S))"

lemma do_fd_set_runs:
  assumes ok: "win32_ok op W"
  shows "runs (do_fd_set env s read op) (\<lambda>(r, op').
    0 \<le> r \<and> win32_ok op' (W(read := insert s (W read))) \<and> signals_are_broken op' = signals_are_broken op
    \<or> r = -1 \<and> (readset_in op' = None \<or> writeset_in op' = None) \<and> cannot_grow env (W read))"
proof -
  have so: "set_ok read op (W read)" using ok by (rule win32_ok_set)
  then obtain st where st: "in_set read op = Some st" "length (fd_array st) \<le> num_fds_in_fd_sets op"
    "distinct (fd_array st)" "set (fd_array st) = W read"
    by (elim set_okE) blast
  note watched = set_ok_pos(2) [OF so st(1)]
  consider "s \<in> W read" | "s \<notin> W read" "length (fd_array st) < num_fds_in_fd_sets op"
    | "s \<notin> W read" "length (fd_array st) = num_fds_in_fd_sets op" using st(2) by linarith
  then show ?thesis
  proof cases
    case 1
    with watched [of s] ok show ?thesis by (simp add: do_fd_set_def insert_absorb)
  next
    case 2
    from append_fd_runs [OF ok 2(1) st(1) 2(2)] show ?thesis
      using 2 watched [of s] st(1) by (auto simp: do_fd_set_def elim!: runs_mono)
  next
    case 3
    then have card: "card (W read) = num_fds_in_fd_sets op" using st(3,4) distinct_card by metis
    have d: "do_fd_set env s read op = bindE (grow_fd_sets env (num_fds_in_fd_sets op * 2 mod 2 ^ 32) op)
        (\<lambda>(r, op). if r \<noteq> 0 then Inr (-1, op) else append_fd s read op)"
      using 3 watched [of s] st(1) by (simp add: do_fd_set_def)
    show ?thesis
      unfolding d
    proof (rule runs_bindI [OF grow_runs [OF ok]], goal_cases)
      case (1 x)
      obtain r op' where x: "x = (r, op')" by (cases x)
      show ?case
      proof (cases "r = 0")
        case True
        with 1 x have g: "win32_ok op' W" "num_fds_in_fd_sets op' = num_fds_in_fd_sets op * 2"
          "signals_are_broken op' = signals_are_broken op" "map_option fd_array (in_set read op') = Some (fd_array st)"
          using st(1) by auto
        then obtain st' where st': "in_set read op' = Some st'" "fd_array st' = fd_array st" by auto
        have "length (fd_array st') < num_fds_in_fd_sets op'" using 3 g(1,2) st'(2) by (simp add: win32_ok_def)
        from append_fd_runs [OF g(1) 3(1) st'(1) this] True x g(3) show ?thesis by (auto elim!: runs_mono)
      qed (use 1 x card in \<open>auto simp: cannot_grow_def\<close>)
    qed
  qed
qed

text \<open>The last element of a list takes the place of another one.\<close>

lemma move_last:
  assumes "distinct xs" "i < length xs"
  shows "distinct (butlast (xs[i := last xs]))" "set (butlast (xs[i := last xs])) = set xs - {xs ! i}"
    "\<And>j. j < length xs - 1 \<Longrightarrow> butlast (xs[i := last xs]) ! j = (if j = i then last xs else xs ! j)"
proof -
  from assms(2) obtain ys l where xs: "xs = ys @ [l]" by (cases xs rule: rev_cases) auto
  have d: "distinct ys" "l \<notin> set ys" using assms(1) xs by auto
  show "distinct (butlast (xs[i := last xs]))" "set (butlast (xs[i := last xs])) = set xs - {xs ! i}"
    "\<And>j. j < length xs - 1 \<Longrightarrow> butlast (xs[i := last xs]) ! j = (if j = i then last xs else xs ! j)"
    using assms(2) d nth_mem [of i ys] unfolding xs
    by (auto simp: list_update_append nth_append set_update_distinct distinct_list_update nth_list_update)
qed

lemma set_ok_delete:
  assumes ok: "set_ok read op S" and st: "in_set read op = Some st" and i: "i < length (fd_array st)"
    and op': "in_set read op' = Some (st\<lparr>fd_array := butlast ((fd_array st)[i := last (fd_array st)])\<rparr>)"
      "num_fds_in_fd_sets op' = num_fds_in_fd_sets op"
      "\<And>s. pos_plus1 read (idx_of op' s) = (if s = fd_array st ! i then 0 else if s = last (fd_array st) then int i + 1
              else pos_plus1 read (idx_of op s))"
  shows "set_ok read op' (S - {fd_array st ! i})"
  using ok
proof (rule set_okE, goal_cases)
  case (1 st')
  with st have st': "st' = st" by simp
  note a = 1(2-7) [unfolded st']
  note m = move_last [OF a(3) i]
  have p: "pos_plus1 read (idx_of op' (butlast ((fd_array st)[i := last (fd_array st)]) ! j)) = int j + 1"
    if "j < length (fd_array st) - 1" for j
  proof -
    have j: "j < length (fd_array st)" using that by simp
    have "last (fd_array st) = fd_array st ! (length (fd_array st) - 1)" using i by (intro last_conv_nth) auto
    with that j i a(3) have "fd_array st ! j \<noteq> last (fd_array st)" "j \<noteq> i \<Longrightarrow> fd_array st ! j \<noteq> fd_array st ! i"
      "j = i \<Longrightarrow> last (fd_array st) \<noteq> fd_array st ! i" by (simp_all add: nth_eq_iff_index_eq)
    then show ?thesis using m(3) [OF that] op'(3) a(5) [OF j] by (cases "j = i") simp_all
  qed
  have z: "pos_plus1 read (idx_of op' s) = 0" if "s \<notin> S - {fd_array st ! i}" for s
  proof -
    have "last (fd_array st) \<in> S" using i a(4) last_in_set [of "fd_array st"] by fastforce
    then show ?thesis using that op'(3) [of s] a(6) [of s] by auto
  qed
  show ?case unfolding set_ok_def op'(1,2) using m(1,2) a(1,2,4) p z by simp
qed

lemma do_fd_clear_runs:
  assumes ok: "win32_ok op W"
  shows "runs (do_fd_clear s read op) (\<lambda>(r, op'). r = 0 \<and> win32_ok op' (W(read := W read - {s})) \<and> signals_are_broken op' = signals_are_broken op)"
proof -
  note so = win32_ok_set [OF ok]
  let ?op1 = "put_idx s (put_pos read 0 (idx_of op s)) op"
  obtain st where st: "in_set read op = Some st" "set_room st = num_fds_in_fd_sets op" "length (fd_array st) \<le> num_fds_in_fd_sets op"
    using so [of read] by (elim set_okE) blast
  have keep: "win32_ok op' (W(read := S))" if "set_ok read op' S" "\<And>read'. read' \<noteq> read \<Longrightarrow> set_ok read' op' (W read')"
    "num_fds_in_fd_sets op' = num_fds_in_fd_sets op" "resize_out_sets op' = resize_out_sets op" "outs_fit op' = outs_fit op" for op' S
    using that ok by (simp add: win32_ok_def)
  show ?thesis
  proof (cases "s \<in> W read")
    case False
    then have z: "pos_plus1 read (idx_of op s) = 0" using so [of read] by (auto elim: set_okE)
    then have "set_ok read' ?op1 S = set_ok read' op S" for read' S by (intro set_ok_cong) simp_all
    then have "win32_ok ?op1 (W(read := W read - {s}))" using so False by (intro keep) simp_all
    with z show ?thesis by (simp add: do_fd_clear_def Let_def)
  next
    case True
    from set_ok_pos(1) [OF so st(1) True] obtain i where i: "i < length (fd_array st)" "fd_array st ! i = s"
      "pos_plus1 read (idx_of op s) = int i + 1" by blast
    have ne: "fd_array st \<noteq> []" using i(1) by auto
    have l: "fd_array st ! (length (fd_array st) - 1) = last (fd_array st)" using ne by (simp add: last_conv_nth)
    let ?st = "st\<lparr>fd_array := butlast ((fd_array st)[i := last (fd_array st)])\<rparr>"
    let ?op2 = "put_set read ?st ?op1"
    show ?thesis
    proof (cases "length (fd_array st) - 1 = i")
      case last: True
      with l i(2) have s: "last (fd_array st) = s" by simp
      then have "(fd_array st)[i := last (fd_array st)] = fd_array st" using i(2) by (metis list_update_id)
      moreover have "win32_ok ?op2 (W(read := W read - {s}))"
      proof (rule keep)
        show "set_ok read ?op2 (W read - {s})" using set_ok_delete [OF so st(1) i(1), of ?op2] s i(2) by simp
        show "set_ok read' ?op2 (W read')" if "read' \<noteq> read" for read'
          using so [of read'] by (subst set_ok_cong) (use that in simp_all)
      qed simp_all
      ultimately show ?thesis using i(3) last ne st(1) by (simp add: do_fd_clear_def Let_def)
    next
      case False
      let ?s2 = "last (fd_array st)"
      have s2: "?s2 \<noteq> s"
      proof
        assume "?s2 = s"
        moreover have "distinct (fd_array st)" using so [of read] st(1) by (auto elim: set_okE)
        ultimately show False using l i False by (metis diff_Suc_less length_greater_0_conv ne nth_eq_iff_index_eq One_nat_def)
      qed
      have "?s2 \<in> W read" using so [of read] st(1) ne by (auto elim!: set_okE)
      from set_ok_pos(1) [OF so st(1) this] have "pos_plus1 read (idx_of op ?s2) \<noteq> 0" by force
      then obtain ent2 where e2: "fdinfo op ?s2 = Some ent2"
        by (cases "fdinfo op ?s2") (simp_all add: idx_of_def pos_plus1_def split: if_splits)
      then have e2': "idx_of op ?s2 = ent2" by (simp add: idx_of_def)
      let ?op3 = "put_idx ?s2 (put_pos read (int i + 1) ent2) ?op2"
      have "win32_ok ?op3 (W(read := W read - {s}))"
      proof (rule keep)
        show "set_ok read ?op3 (W read - {s})"
          using set_ok_delete [OF so st(1) i(1), of ?op3] s2 i(2) by simp
        show "set_ok read' ?op3 (W read')" if "read' \<noteq> read" for read'
          using so [of read'] by (subst set_ok_cong) (use that e2' in simp_all)
      qed simp_all
      then show ?thesis using i False ne st e2 s2 l by (simp add: do_fd_clear_def Let_def)
    qed
  qed
qed

lemma win32_add_runs:
  assumes ok: "win32_ok op W"
  shows "runs (win32_add env fd old events op) (\<lambda>(r, op').
    r = 0 \<and> win32_ok op' (watch_more fd events W) \<and> signals_are_broken op' = signals_are_broken op
    \<or> r = -1 \<and> op' = op \<and> EV_SIGNAL \<in> events \<and> signals_are_broken op
    \<or> r = -1 \<and> (readset_in op' = None \<or> writeset_in op' = None) \<and> (\<exists>read. cannot_grow env (W read)))"
proof -
  let ?W = "if EV_READ \<in> events then W(True := insert fd (W True)) else W"
  let ?W2 = "if EV_WRITE \<in> events then ?W(False := insert fd (W False)) else ?W"
  have W: "?W2 = watch_more fd events W" by (auto simp: watch_more_def dir_def fun_eq_iff)
  have 1: "runs (if EV_READ \<in> events then do_fd_set env fd True op else Inr (0, op)) (\<lambda>(r, op').
      0 \<le> r \<and> win32_ok op' ?W \<and> signals_are_broken op' = signals_are_broken op
      \<or> r = -1 \<and> (readset_in op' = None \<or> writeset_in op' = None) \<and> cannot_grow env (W True))"
    using do_fd_set_runs [OF ok, of env fd True] ok by simp
  have 2: "runs (if EV_WRITE \<in> events then do_fd_set env fd False op1 else Inr (0, op1)) (\<lambda>(r, op').
      0 \<le> r \<and> win32_ok op' (watch_more fd events W) \<and> signals_are_broken op' = signals_are_broken op1
      \<or> r = -1 \<and> (readset_in op' = None \<or> writeset_in op' = None) \<and> cannot_grow env (W False))" if "win32_ok op1 ?W" for op1
    unfolding W [symmetric] using do_fd_set_runs [OF that, of env fd False] that by (cases "EV_READ \<in> events") simp_all
  consider "EV_SIGNAL \<in> events \<and> signals_are_broken op" | "\<not> (EV_SIGNAL \<in> events \<and> signals_are_broken op)" "EV_READ \<notin> events \<and> EV_WRITE \<notin> events"
    | "\<not> (EV_SIGNAL \<in> events \<and> signals_are_broken op)" "\<not> (EV_READ \<notin> events \<and> EV_WRITE \<notin> events)" by blast
  then show ?thesis
  proof cases
    case 3
    show ?thesis
      unfolding win32_add_def if_not_P [OF 3(1)] if_not_P [OF 3(2)]
    proof (rule runs_bindI [OF 1], goal_cases)
      case (1 x)
      obtain r op1 where x: "x = (r, op1)" by (cases x)
      show ?case
      proof (cases "r < 0")
        case False
        with 1 x have "win32_ok op1 ?W" "signals_are_broken op1 = signals_are_broken op" by auto
        then have "runs (bindE (if EV_WRITE \<in> events then do_fd_set env fd False op1 else Inr (0, op1)) (\<lambda>(r, op). Inr (if r < 0 then - 1 else 0, op)))
          (\<lambda>(r, op'). r = 0 \<and> win32_ok op' (watch_more fd events W) \<and> signals_are_broken op' = signals_are_broken op
             \<or> r = -1 \<and> (readset_in op' = None \<or> writeset_in op' = None) \<and> cannot_grow env (W False))"
          by (intro runs_bindI [OF 2]) auto
        then show ?thesis
          unfolding x prod.case if_not_P [OF False]
        proof (rule runs_mono, goal_cases)
          case (1 y)
          obtain r op' where y: "y = (r, op')" by (cases y)
          from 1 show ?case unfolding y prod.case by (elim disjE conjE) auto
        qed
      qed (use 1 x in auto)
    qed
  next
    case 2
    then have "watch_more fd events W = W" by (simp add: watch_more_def dir_def fun_eq_iff)
    with 2 ok show ?thesis by (simp add: win32_add_def)
  qed (simp add: win32_add_def)
qed

lemma win32_del_runs:
  assumes ok: "win32_ok op W"
  shows "runs (win32_del fd old events op) (\<lambda>(r, op'). r = 0 \<and> win32_ok op' (watch_less fd events W) \<and> signals_are_broken op' = signals_are_broken op)"
proof -
  let ?W = "if EV_READ \<in> events then W(True := W True - {fd}) else W"
  let ?W2 = "if EV_WRITE \<in> events then ?W(False := W False - {fd}) else ?W"
  have W: "?W2 = watch_less fd events W" by (auto simp: watch_less_def dir_def fun_eq_iff)
  have 1: "runs (if EV_READ \<in> events then do_fd_clear fd True op else Inr (0, op)) (\<lambda>(r, op').
      win32_ok op' ?W \<and> signals_are_broken op' = signals_are_broken op)"
    using do_fd_clear_runs [OF ok, of fd True] ok by (auto elim!: runs_mono)
  have 2: "runs (if EV_WRITE \<in> events then do_fd_clear fd False op1 else Inr (0, op1)) (\<lambda>(r, op').
      win32_ok op' ?W2 \<and> signals_are_broken op' = signals_are_broken op1)" if "win32_ok op1 ?W" for op1
    using do_fd_clear_runs [OF that, of fd False] that by (cases "EV_READ \<in> events") (auto elim!: runs_mono)
  show ?thesis
    unfolding win32_del_def W [symmetric]
  proof (rule runs_bindI [OF 1], goal_cases)
    case (1 x)
    obtain r op1 where x: "x = (r, op1)" by (cases x)
    have "win32_ok op1 ?W" "signals_are_broken op1 = signals_are_broken op" using 1 x by auto
    then show ?case unfolding x prod.case by (intro runs_bindI [OF 2]) auto
  qed
qed

lemma win32_init_ok:
  assumes "win32_init env evsig = Some op"
  shows "win32_ok op (\<lambda>_. {})"
proof -
  have "room_of_size (FD_SET_ALLOC_SIZE NEVENT) = NEVENT" using FD_SET_ALLOC_SIZE_eq [of NEVENT] by (simp add: NEVENT_def)
  then show ?thesis using assms
    by (auto simp: win32_init_def Let_def win32_ok_def set_ok_def outs_fit_def in_set_def idx_of_def pos_plus1_def NEVENT_def
        split: if_splits)
qed

section \<open>After an allocation has failed\<close>

text \<open>A set whose enlargement failed is a null pointer from then on.\<close>

definition broken :: "win32op \<Rightarrow> bool" where
  "broken op \<longleftrightarrow> readset_in op = None \<or> writeset_in op = None"

lemma broken_iff: "broken op \<longleftrightarrow> (\<exists>read. in_set read op = None)"
  by (auto simp: broken_def in_set_def split: if_splits)

lemma broken_put_idx [simp]: "broken (put_idx s ent op) = broken op"
  by (simp add: broken_iff)

lemma broken_put_set: "in_set read op = Some st' \<Longrightarrow> broken (put_set read st op) = broken op"
  by (cases read) (auto simp: broken_def in_set_def put_set_def)

lemma broken_stays:
  assumes b: "broken op"
  shows "ends (do_fd_set env s read op) (\<lambda>r. broken (snd r))" "ends (do_fd_clear s read op) (\<lambda>r. broken (snd r))"
proof -
  have "ends (grow_fd_sets env n op) P" for n P
    using b by (cases "readset_in op") (auto simp: grow_fd_sets_def broken_def)
  moreover have "ends (append_fd s read op) (\<lambda>r. broken (snd r))"
    using b by (cases "in_set read op") (auto simp: append_fd_def Let_def broken_put_set)
  ultimately show "ends (do_fd_set env s read op) (\<lambda>r. broken (snd r))"
    using b by (cases "in_set read op") (auto simp: do_fd_set_def intro: ends_bindI)
  show "ends (do_fd_clear s read op) (\<lambda>r. broken (snd r))"
    using b by (cases "in_set read op") (auto simp: do_fd_clear_def Let_def broken_put_set split: option.splits)
qed

text \<open>Whatever happens, the sets are right or an allocation has failed.\<close>

definition win32_good :: "win32op \<Rightarrow> (bool \<Rightarrow> int set) \<Rightarrow> bool" where
  "win32_good op W \<longleftrightarrow> win32_ok op W \<or> broken op"

lemma win32_add_good:
  assumes "win32_good op W"
  shows "ends (win32_add env fd old what op) (\<lambda>(r, op'). win32_good op' (if r = -1 then W else watch_more fd what W))"
proof (cases "broken op")
  case True
  have "ends (win32_add env fd old what op) (\<lambda>r. broken (snd r))"
    unfolding win32_add_def using True
    by (auto intro!: ends_ifI ends_bindI [where Q = "\<lambda>r. broken (snd r)"] broken_stays)
  then show ?thesis by (rule ends_mono) (auto simp: win32_good_def)
next
  case False
  with assms have ok: "win32_ok op W" by (simp add: win32_good_def)
  show ?thesis
  proof (rule runs_ends [OF runs_mono [OF win32_add_runs [OF ok, of env fd old what]]], goal_cases)
    case (1 x)
    then show ?case using ok by (cases x) (auto simp: win32_good_def broken_def)
  qed
qed

lemma win32_del_good:
  assumes "win32_good op W"
  shows "ends (win32_del fd old what op) (\<lambda>(r, op'). win32_good op' (watch_less fd what W))"
proof (cases "broken op")
  case True
  have "ends (win32_del fd old what op) (\<lambda>r. broken (snd r))"
    unfolding win32_del_def using True
    by (auto intro!: ends_ifI ends_bindI [where Q = "\<lambda>r. broken (snd r)"] broken_stays)
  then show ?thesis by (rule ends_mono) (auto simp: win32_good_def)
next
  case False
  with assms have "win32_ok op W" by (simp add: win32_good_def)
  from win32_del_runs [OF this, of fd old what] show ?thesis by (intro runs_ends) (auto simp: win32_good_def elim!: runs_mono)
qed

section \<open>Dispatching\<close>

text \<open>The fields the sets of results are in do not matter for what is watched.\<close>

definition same_sets :: "win32op \<Rightarrow> win32op \<Rightarrow> bool" where
  "same_sets op op' \<longleftrightarrow> readset_in op' = readset_in op \<and> writeset_in op' = writeset_in op
     \<and> num_fds_in_fd_sets op' = num_fds_in_fd_sets op \<and> fdinfo op' = fdinfo op"

lemma same_sets_ok:
  assumes "same_sets op op'"
  shows "set_ok read op' S = set_ok read op S" "broken op' = broken op"
  by (rule set_ok_cong) (use assms in \<open>simp_all add: same_sets_def broken_def in_set_def idx_of_def\<close>)

lemma same_sets_good:
  assumes "same_sets op op'" "win32_good op W" "resize_out_sets op' \<or> outs_fit op'"
  shows "win32_good op' W"
  using assms(2,3) same_sets_ok [OF assms(1)] assms(1) by (auto simp: win32_good_def win32_ok_def same_sets_def)

lemma resize_sets_same:
  assumes "resize_sets env op = (r, op')"
  shows "same_sets op op'" "\<not> r \<Longrightarrow> resize_out_sets op'" "r \<Longrightarrow> \<not> resize_out_sets op'"
  using assms by (auto simp: resize_sets_def Let_def same_sets_def split: if_splits)

lemma resize_sets_fit:
  assumes "resize_sets env op = (True, op')" "win32_ok op W"
  shows "outs_fit op'"
proof -
  let ?n = "num_fds_in_fd_sets op"
  have "room_of_size (FD_SET_ALLOC_SIZE ?n) = ?n" using assms(2) FD_SET_ALLOC_SIZE_eq [of ?n] by (simp add: win32_ok_def)
  then have "set_room (resized ?n out) = ?n" for out by (simp add: resized_def split: option.splits)
  with assms show ?thesis
    by (auto simp: resize_sets_def Let_def outs_fit_def win32_ok_def split: if_splits)
qed

lemma put_outs_same:
  "same_sets op (put_outs r w x op)" "resize_out_sets (put_outs r w x op) = resize_out_sets op"
  "outs_fit (put_outs r w x op) \<longleftrightarrow> (\<forall>st\<in>{r, w, x}. set_room st = num_fds_in_fd_sets op)"
  by (simp_all add: same_sets_def put_outs_def outs_fit_def)

lemma same_sets_trans: "same_sets a b \<Longrightarrow> same_sets b c \<Longrightarrow> same_sets a c"
  by (simp add: same_sets_def)

text \<open>With sets that are right, copying them succeeds.\<close>

lemma dispatch_copies:
  assumes ok: "win32_ok op W" and fit: "outs_fit op"
  shows "\<exists>r w x. fd_set_copy (readset_out op) (readset_in op) = Inr r \<and> fd_set_copy (exset_out op) (writeset_in op) = Inr x
    \<and> fd_set_copy (writeset_out op) (writeset_in op) = Inr w \<and> set (fd_array r) = W True \<and> set (fd_array w) = W False
    \<and> fd_array x = fd_array w \<and> distinct (fd_array r) \<and> distinct (fd_array w) \<and> outs_fit (put_outs r w x op)"
proof -
  obtain r w where r: "readset_in op = Some r" "length (fd_array r) \<le> num_fds_in_fd_sets op" "distinct (fd_array r)" "set (fd_array r) = W True"
    and w: "writeset_in op = Some w" "length (fd_array w) \<le> num_fds_in_fd_sets op" "distinct (fd_array w)" "set (fd_array w) = W False"
    using win32_ok_set [OF ok, of True] win32_ok_set [OF ok, of False] by (auto simp: in_set_def elim!: set_okE)
  obtain ro wo xo where "readset_out op = Some ro" "writeset_out op = Some wo" "exset_out op = Some xo"
    "set_room ro = num_fds_in_fd_sets op" "set_room wo = num_fds_in_fd_sets op" "set_room xo = num_fds_in_fd_sets op"
    using fit by (auto simp: outs_fit_def)
  with r w show ?thesis by (simp add: fd_set_copy_def put_outs_same(3))
qed

lemma fd_set_copy_room: "fd_set_copy out inp = Inr st \<Longrightarrow> \<exists>o'. out = Some o' \<and> set_room st = set_room o'"
  by (auto simp: fd_set_copy_def bindE_Inr_iff deref_def split: if_splits option.splits)

lemma scan_set_keeps: "matches good base \<Longrightarrow> keeps good (scan_set j i fds what base)"
  by (induction j arbitrary: i base) (auto simp: Let_def intro!: ends_bindI [OF evmap_io_active_keeps])

lemma report_ready_keeps: "matches good base \<Longrightarrow> keeps good (report_ready env rfds wfds xfds base)"
proof -
  have r: "matches good base \<Longrightarrow> keeps good (report_set n fds what base)" for base n fds what
    by (simp add: report_set_def scan_set_keeps)
  then show "matches good base \<Longrightarrow> keeps good (report_ready env rfds wfds xfds base)"
    unfolding report_ready_def by (intro ends_bindI [OF r] r)
qed

lemma win32_dispatch_keeps:
  assumes m: "matches win32_good base"
  shows "keeps2 win32_good (win32_dispatch env base tv)"
proof -
  obtain fits op where rs: "resize_sets env (evbase base) = (fits, op)" by fastforce
  note same = resize_sets_same [OF rs]
  have g: "win32_good (evbase base) (watched base)" using m by (simp add: matches_def)
  have put: "matches win32_good (base\<lparr>evbase := op'\<rparr>)" if "win32_good op' (watched base)" for op'
    using that by (simp add: matches_def watched_def [abs_def])
  show ?thesis
  proof (cases fits)
    case False
    with same(2) put same_sets_good [OF same(1) g] rs show ?thesis by (simp add: win32_dispatch_def)
  next
    case True
    have rooms: "win32_good op' (watched base)"
      if "fd_set_copy (readset_out op) (readset_in op) = Inr r" "fd_set_copy (exset_out op) (writeset_in op) = Inr x"
        "fd_set_copy (writeset_out op) (writeset_in op) = Inr w" "same_sets op op'" "outs_fit (put_outs r w x op) \<Longrightarrow> outs_fit op'" for r w x op'
    proof (cases "broken (evbase base)")
      case True
      then show ?thesis using same_sets_ok(2) same(1) that(4) by (simp add: win32_good_def)
    next
      case False
      with g have "win32_ok (evbase base) (watched base)" by (simp add: win32_good_def)
      from resize_sets_fit [OF rs [unfolded \<open>fits\<close> [THEN eqTrueI]] this] that(1-3)
      have "set_room r = num_fds_in_fd_sets op \<and> set_room x = num_fds_in_fd_sets op \<and> set_room w = num_fds_in_fd_sets op"
        by (auto simp: outs_fit_def dest!: fd_set_copy_room)
      then have "outs_fit (put_outs r w x op)" by (simp add: put_outs_same(3))
      with that(5) show ?thesis using same_sets_good [OF same_sets_trans [OF same(1) that(4)] g] by blast
    qed
    have ends_self: "ends m (\<lambda>x. m = Inr x)" for m :: "win_fd_set exec" by (simp add: ends_def)
    have not: "(if \<not> fits then a else b) = b" for a b :: "(int \<times> win32op event_base) exec" using True by simp
    show ?thesis
      unfolding win32_dispatch_def rs prod.case Let_def not
    proof (rule ends_bindI [OF ends_self], rule ends_bindI [OF ends_self], rule ends_bindI [OF ends_self], goal_cases)
      case c: (1 r x w)
      note g' = rooms [OF c]
      have outs: "same_sets op (put_outs r' w' x' (put_outs r w x op))" "outs_fit (put_outs r w x op) \<Longrightarrow>
          outs_fit (put_outs (r\<lparr>fd_array := a\<rparr>) (w\<lparr>fd_array := b\<rparr>) (x\<lparr>fd_array := d\<rparr>) (put_outs r w x op))" for r' w' x' a b d
        by (simp_all add: put_outs_def same_sets_def outs_fit_def)
      have sleep: "win32_good ((put_outs r w x op)\<lparr>outside := ms\<rparr>) (watched base)" for ms
        by (rule g') (simp_all add: put_outs_def same_sets_def outs_fit_def)
      show ?case
        using put [OF g' [OF outs]] put [OF sleep]
        by (auto split: prod.splits intro!: ends_bindI [OF report_ready_keeps])
    qed
  qed
qed

section \<open>What is activated\<close>

text \<open>The positions the loop over a set visits: all of them, beginning behind a random one.\<close>

fun visits :: "nat \<Rightarrow> nat \<Rightarrow> nat \<Rightarrow> nat list" where
  "visits 0 i n = []"
| "visits (Suc j) i n = (let i = (if i + 1 \<ge> n then 0 else i + 1) in i # visits j i n)"

lemma scan_set_visits: "scan_set j i fds what = foldE (\<lambda>fd b. evmap_io_active b fd what) (map (\<lambda>k. fds ! k) (visits j i (length fds)))"
proof (induction j arbitrary: i)
  case (Suc j)
  show ?case by (rule ext) (simp add: Let_def Suc.IH)
qed (simp add: fun_eq_iff)

lemma visits_mod: "i < n \<Longrightarrow> visits j i n = map (\<lambda>k. (i + 1 + k) mod n) [0..<j]"
proof (induction j arbitrary: i)
  case (Suc j)
  let ?i = "if i + 1 \<ge> n then 0 else i + 1"
  have i: "?i = (i + 1) mod n" "?i < n" using Suc.prems by (cases "i + 1 = n"; simp)+
  have "[0..<Suc j] = 0 # map Suc [0..<j]" by (simp only: upt_conv_Cons [of 0 "Suc j"] map_Suc_upt zero_less_Suc)
  moreover have "(?i + 1 + k) mod n = (i + 1 + Suc k) mod n" for k
    unfolding i(1) by (metis add.assoc add_Suc_right mod_add_left_eq plus_1_eq_Suc)
  ultimately show ?case using Suc.IH [OF i(2)] i(1) by (simp add: Let_def)
qed simp

lemma visits_all:
  assumes "i < n"
  shows "set (visits n i n) = {..<n}"
proof
  show "set (visits n i n) \<subseteq> {..<n}" using assms by (auto simp: visits_mod)
  show "{..<n} \<subseteq> set (visits n i n)"
  proof
    fix m assume "m \<in> {..<n}"
    then have m: "m < n" by simp
    let ?k = "(m + (n - (i + 1))) mod n"
    have "(i + 1 + ?k) mod n = (i + 1 + (m + (n - (i + 1)))) mod n" by (rule mod_add_right_eq)
    also have "\<dots> = m" using assms m by simp
    finally have "m = (i + 1 + ?k) mod n" ..
    moreover have "?k \<in> set [0..<n]" using m by simp
    ultimately show "m \<in> set (visits n i n)" unfolding visits_mod [OF assms] set_map by (rule image_eqI)
  qed
qed

lemma watched_entry: "fd \<in> watched base read \<Longrightarrow> 0 \<le> fd \<and> (\<exists>ctx. evio base fd = Some ctx)"
  by (auto simp: watched_def io_slot_def evmap_io_init_def watchers_def split: option.splits if_splits)

lemma io_waiters_frame: "wakes S base b \<Longrightarrow> io_waiters b fd what = io_waiters base fd what"
  unfolding io_waiters_def wakes_def watches_io_def by (auto simp: frame_events)

lemma actives_wake:
  assumes "base_ok base" "set xs \<subseteq> watched base read"
  shows "runs (foldE (\<lambda>fd b. evmap_io_active b fd what) xs base)
    (\<lambda>b. wakes (\<Union>fd\<in>set xs. io_waiters base fd what) base b \<and> evbase b = evbase base \<and> watched b = watched base)"
  using assms
proof (induction xs arbitrary: base)
  case Nil
  then show ?case by (simp add: wakes_refl)
next
  case (Cons x xs)
  obtain ctx where x: "0 \<le> x" "evio base x = Some ctx" using Cons.prems(2) watched_entry by force
  have "runs (evmap_io_active base x what) (\<lambda>b. wakes (io_waiters base x what) base b \<and> evbase b = evbase base \<and> watched b = watched base)"
  proof -
    have "keeps (\<lambda>b W. b = evbase base \<and> W = watched base) (evmap_io_active base x what)"
      by (rule evmap_io_active_keeps) (simp add: matches_def)
    with evmap_io_active_runs [OF Cons.prems(1) x, of what] show ?thesis
      by (cases "evmap_io_active base x what") (auto simp: matches_def)
  qed
  then show ?case
    unfolding foldE.simps
  proof (rule runs_bindI)
    fix b assume b: "wakes (io_waiters base x what) base b \<and> evbase b = evbase base \<and> watched b = watched base"
    then have "base_ok b" by (simp add: wakes_def)
    from Cons.IH [OF this] Cons.prems(2) b
    have "runs (foldE (\<lambda>fd b. evmap_io_active b fd what) xs b)
      (\<lambda>b'. wakes (\<Union>fd\<in>set xs. io_waiters b fd what) b b' \<and> evbase b' = evbase b \<and> watched b' = watched b)" by simp
    then show "runs (foldE (\<lambda>fd b. evmap_io_active b fd what) xs b)
      (\<lambda>b'. wakes (\<Union>fd\<in>set (x # xs). io_waiters base fd what) base b' \<and> evbase b' = evbase base \<and> watched b' = watched base)"
    proof (rule runs_mono, goal_cases)
      case (1 b')
      then show ?case using wakes_trans [of _ base b _ b'] b io_waiters_frame [of _ base b] by (auto simp: Un_commute)
    qed
  qed
qed

lemma report_wakes:
  assumes "base_ok base" "set fds \<subseteq> watched base read"
  shows "runs (report_set n fds ev base)
    (\<lambda>b. wakes (\<Union>fd\<in>set fds. io_waiters base fd {ev}) base b \<and> evbase b = evbase base \<and> watched b = watched base)"
proof (cases "fds = []")
  case True
  with assms show ?thesis by (simp add: report_set_def wakes_refl)
next
  case False
  define ys where "ys = map (\<lambda>k. fds ! k) (visits (length fds) (n mod length fds) (length fds))"
  have "set ys = (\<lambda>k. fds ! k) ` {..<length fds}" using False by (simp add: ys_def visits_all)
  also have "\<dots> = set fds" by (auto simp: in_set_conv_nth)
  finally have ys: "set ys = set fds" .
  from actives_wake [OF assms(1), of ys read "{ev}"] assms(2) False show ?thesis
    unfolding ys by (simp add: report_set_def scan_set_visits flip: ys_def)
qed

text \<open>What \<open>select\<close> promises: results for sockets it was given, and none when it timed out.\<close>

definition select_ok :: "win_env \<Rightarrow> bool" where
  "select_ok env \<longleftrightarrow> (\<forall>n r w x tv res rfds wfds xfds. select_call env n r w x tv = (res, rfds, wfds, xfds) \<longrightarrow>
     (0 \<le> res \<longrightarrow> set rfds \<subseteq> set r \<and> set wfds \<subseteq> set w \<and> set xfds \<subseteq> set x) \<and> (res = 0 \<longrightarrow> rfds = [] \<and> wfds = [] \<and> xfds = []))"

text \<open>The events that wait for what is in the sets of results.\<close>

definition out_fds :: "win_fd_set option \<Rightarrow> int set" where
  "out_fds out = (case out of None \<Rightarrow> {} | Some st \<Rightarrow> set (fd_array st))"

definition ready_events :: "'b event_base \<Rightarrow> win32op \<Rightarrow> nat set" where
  "ready_events base op = (\<Union>fd\<in>out_fds (readset_out op). io_waiters base fd {EV_READ})
     \<union> (\<Union>fd\<in>out_fds (writeset_out op) \<union> out_fds (exset_out op). io_waiters base fd {EV_WRITE})"

lemma report_ready_wakes:
  assumes ok: "base_ok base" and sub: "set rfds \<subseteq> watched base True" "set wfds \<subseteq> watched base False" "set xfds \<subseteq> watched base False"
  shows "runs (report_ready env rfds wfds xfds base) (\<lambda>b. wakes ((\<Union>fd\<in>set rfds. io_waiters base fd {EV_READ})
      \<union> (\<Union>fd\<in>set wfds \<union> set xfds. io_waiters base fd {EV_WRITE})) base b \<and> evbase b = evbase base \<and> watched b = watched base)"
  unfolding report_ready_def
proof (rule runs_bindI [OF report_wakes [OF ok sub(1)]], rule runs_bindI [OF report_wakes], goal_cases)
  case (3 b1 b2)
  let ?R = "\<Union>fd\<in>set rfds. io_waiters base fd {EV_READ}"
  from 3(1) have b1: "wakes ?R base b1" "evbase b1 = evbase base" "watched b1 = watched base" by simp_all
  have w: "io_waiters b1 fd what = io_waiters base fd what" for fd what by (rule io_waiters_frame [OF b1(1)])
  from 3(2) b1 have b2: "wakes (\<Union>fd\<in>set xfds. io_waiters base fd {EV_WRITE}) b1 b2" "evbase b2 = evbase base" "watched b2 = watched base"
    by (simp_all add: w)
  have w2: "io_waiters b2 fd what = io_waiters base fd what" for fd what using io_waiters_frame [OF b2(1)] w by simp
  have "base_ok b2" using b2(1) by (simp add: wakes_def)
  moreover have "set wfds \<subseteq> watched b2 False" using sub(2) b2(3) by simp
  ultimately show ?case
  proof (rule runs_mono [OF report_wakes], goal_cases)
    case (1 b)
    then have b: "wakes (\<Union>fd\<in>set wfds. io_waiters base fd {EV_WRITE}) b2 b" "evbase b = evbase base" "watched b = watched base"
      using b2 by (simp_all add: w2)
    have "wakes (?R \<union> (\<Union>fd\<in>set xfds. io_waiters base fd {EV_WRITE}) \<union> (\<Union>fd\<in>set wfds. io_waiters base fd {EV_WRITE})) base b"
      by (rule wakes_trans [OF wakes_trans [OF b1(1) b2(1)] b(1)])
    with b(2,3) show ?case by (simp add: Un_ac image_Un)
  qed
qed (use sub in \<open>auto simp: wakes_def\<close>)

lemma io_waiters_evbase [simp]: "io_waiters (base\<lparr>evbase := b\<rparr>) fd what = io_waiters base fd what"
  by (simp add: io_waiters_def)

lemma watched_evbase [simp]: "watched (base\<lparr>evbase := b\<rparr>) = watched base"
  by (simp add: watched_def [abs_def])

lemma ready_events_init: "user_ok base \<Longrightarrow> ready_events base op \<subseteq> flagged EVLIST_INIT base"
  using user_watched by (auto simp: ready_events_def io_waiters_def)

text \<open>Once the sets have been copied.\<close>

lemma dispatch_rest:
  assumes ok: "user_ok base" "win32_ok op (watched base)" and env: "select_ok env"
    and r: "set (fd_array r) = watched base True" "set (fd_array w) = watched base False" "fd_array x = fd_array w"
    and fit: "outs_fit (put_outs r w x op)" and call: "select_call env n (fd_array r) (fd_array w) (fd_array x) tv = (res, rfds, wfds, xfds)"
  defines "op' \<equiv> put_outs (r\<lparr>fd_array := rfds\<rparr>) (w\<lparr>fd_array := wfds\<rparr>) (x\<lparr>fd_array := xfds\<rparr>) (put_outs r w x op)"
  shows "runs (if res \<le> 0 then Inr (res, base\<lparr>evbase := op'\<rparr>)
     else bindE (report_ready env rfds wfds xfds (base\<lparr>evbase := op'\<rparr>)) (\<lambda>base. Inr (0, base))) (\<lambda>(res, b). user_ok b \<and> win32_ok (evbase b) (watched b)
     \<and> (\<forall>f. flagged f b = (if f = EVLIST_ACTIVE \<and> 0 \<le> res then flagged f base \<union> ready_events base (evbase b) else flagged f base)))"
proof -
  have "same_sets op op'" by (simp add: op'_def put_outs_def same_sets_def)
  moreover have "outs_fit op'" using fit by (simp add: op'_def put_outs_def outs_fit_def)
  ultimately have ok': "win32_ok op' (watched base)"
    using ok(2) same_sets_ok [of op op'] by (simp add: win32_ok_def same_sets_def)
  have ready: "ready_events base op' = (\<Union>fd\<in>set rfds. io_waiters base fd {EV_READ}) \<union> (\<Union>fd\<in>set wfds \<union> set xfds. io_waiters base fd {EV_WRITE})"
    by (simp add: ready_events_def op'_def put_outs_def out_fds_def)
  have sel: "0 \<le> res \<Longrightarrow> set rfds \<subseteq> watched base True \<and> set wfds \<subseteq> watched base False \<and> set xfds \<subseteq> watched base False"
    "res = 0 \<Longrightarrow> rfds = [] \<and> wfds = [] \<and> xfds = []"
    using env call r unfolding select_ok_def by metis+
  show ?thesis
  proof (cases "res \<le> 0")
    case True
    moreover have "ready_events base op' = {}" if "res = 0" using sel(2) [OF that] by (simp add: ready)
    ultimately show ?thesis using ok ok' by auto
  next
    case False
    then have pos: "0 \<le> res" by simp
    let ?b = "base\<lparr>evbase := op'\<rparr>"
    have "user_ok ?b" using ok(1) by simp
    then have "base_ok ?b" by (simp add: user_defs)
    with \<open>user_ok ?b\<close> have rep: "runs (report_ready env rfds wfds xfds ?b) (\<lambda>b. wakes (ready_events base op') ?b b \<and> evbase b = op' \<and> watched b = watched base)"
      using report_ready_wakes [of ?b rfds wfds xfds env] sel(1) [OF pos] by (simp add: ready)
    have "runs (bindE (report_ready env rfds wfds xfds ?b) (\<lambda>base. Inr (0 :: int, base))) (\<lambda>(res, b). user_ok b \<and> win32_ok (evbase b) (watched b)
     \<and> (\<forall>f. flagged f b = (if f = EVLIST_ACTIVE \<and> 0 \<le> res then flagged f base \<union> ready_events base (evbase b) else flagged f base)))"
    proof (rule runs_bindI [OF rep])
      fix b assume b: "wakes (ready_events base op') ?b b \<and> evbase b = op' \<and> watched b = watched base"
      then have "user_ok b" using wakes_user [OF \<open>user_ok ?b\<close>, of "ready_events base op'" b] ready_events_init [OF ok(1), of op'] by simp
      with b ok' show "runs (Inr (0 :: int, b)) (\<lambda>(res, b). user_ok b \<and> win32_ok (evbase b) (watched b)
        \<and> (\<forall>f. flagged f b = (if f = EVLIST_ACTIVE \<and> 0 \<le> res then flagged f base \<union> ready_events base (evbase b) else flagged f base)))"
        by (auto simp: wakes_def)
    qed
    with False show ?thesis by simp
  qed
qed

lemma win32_dispatch_runs:
  assumes ok: "user_ok base" "win32_ok (evbase base) (watched base)" and env: "select_ok env"
  shows "runs (win32_dispatch env base tv) (\<lambda>(res, b). user_ok b \<and> win32_ok (evbase b) (watched b)
     \<and> (\<forall>f. flagged f b = (if f = EVLIST_ACTIVE \<and> 0 \<le> res then flagged f base \<union> ready_events base (evbase b) else flagged f base)))"
proof -
  obtain fits op where rs: "resize_sets env (evbase base) = (fits, op)" by fastforce
  note same = resize_sets_same [OF rs]
  have same_ok: "win32_ok op' (watched base)" if "same_sets op op'" "resize_out_sets op' \<or> outs_fit op'" for op'
    using ok(2) same_sets_ok(1) [OF same_sets_trans [OF same(1) that(1)]] that same(1) by (simp add: win32_ok_def same_sets_def)
  have self: "same_sets op op" by (simp add: same_sets_def)
  show ?thesis
  proof (cases fits)
    case False
    with same_ok [OF self] same(2) ok(1) rs show ?thesis by (simp add: win32_dispatch_def)
  next
    case True
    with rs have rs': "resize_sets env (evbase base) = (True, op)" by simp
    have fit: "outs_fit op" by (rule resize_sets_fit [OF rs' ok(2)])
    have opok: "win32_ok op (watched base)" using same_ok [OF self] fit by simp
    from dispatch_copies [OF opok fit] obtain r w x where c: "fd_set_copy (readset_out op) (readset_in op) = Inr r"
      "fd_set_copy (exset_out op) (writeset_in op) = Inr x" "fd_set_copy (writeset_out op) (writeset_in op) = Inr w"
      "set (fd_array r) = watched base True" "set (fd_array w) = watched base False" "fd_array x = fd_array w"
      "outs_fit (put_outs r w x op)" by blast
    let ?n = "max (length (fd_array r)) (length (fd_array w))"
    show ?thesis
    proof (cases "?n = 0")
      case z: True
      let ?op = "(put_outs r w x op)\<lparr>outside := outside op @ [sleep_msec tv]\<rparr>"
      have "win32_ok ?op (watched base)" using c(7) by (intro same_ok) (simp_all add: put_outs_def same_sets_def outs_fit_def)
      moreover have "ready_events base ?op = {}" using z c(6) by (simp add: ready_events_def put_outs_def out_fds_def)
      moreover have "win32_dispatch env base tv = Inr (0, base\<lparr>evbase := ?op\<rparr>)"
        using z True rs c by (simp add: win32_dispatch_def Let_def put_outs_def)
      ultimately show ?thesis using ok(1) by auto
    next
      case nz: False
      obtain res rfds wfds xfds where call: "select_call env ?n (fd_array r) (fd_array w) (fd_array x) tv = (res, rfds, wfds, xfds)"
        by (metis prod_cases4)
      from dispatch_rest [OF ok(1) opok env c(4-7) call] nz True rs c call show ?thesis
        unfolding win32_dispatch_def by (simp only: prod.case bindE.simps Let_def if_False if_True not_True_eq_False)
    qed
  qed
qed

end
