(* ===== verification/Win32_Spec.thy ===== *)
theory Win32_Spec
  imports Win32_Watch
begin

text \<open>
  The event base on its select backend: the contract \<open>loop_contract\<close> for \<open>win32ops\<close>, and what follows for every run.
\<close>

section \<open>The event base with this backend\<close>

text \<open>
  \<open>win32ops\<close>, as the maps call it. The table has no room for a crash: after one, which needs a set whose enlargement
  has failed, the call counts as failed when adding, and as nothing when deleting.
\<close>

definition win32ops :: "win_env \<Rightarrow> win32op eventop" where
  "win32ops env =
     \<lparr>op_add = (\<lambda>b fd old what. case win32_add env fd old what b of Inl _ \<Rightarrow> (-1, b) | Inr r \<Rightarrow> r),
      op_del = (\<lambda>b fd old what. case win32_del fd old what b of Inl _ \<Rightarrow> (0, b) | Inr r \<Rightarrow> r)\<rparr>"

text \<open>
  An environment of the loop with this backend, over any other environment \<open>q\<close> for allocation, the clock and fresh events. What
  the clock does is outside of the backend. Callbacks are scripts of calls, signals are not available.
\<close>

definition select_platform :: "win_env \<Rightarrow> win32op loop_env \<Rightarrow> win32op loop_env" where
  "select_platform env q =
     q\<lparr>evsel := win32ops env, evsigsel := \<lparr>op_add = (\<lambda>b fd old what. (-1, b)), op_del = (\<lambda>b fd old what. (0, b))\<rparr>,
       os_ftime := (\<lambda>b. case os_ftime q b of (t, b') \<Rightarrow> (t, b\<lparr>outside := outside b'\<rparr>)),
       sig_set_base := (\<lambda>b. b), dispatch := win32_dispatch env\<rparr>"

definition select_env ::
    "win_env \<Rightarrow> (nat \<Rightarrow> int \<Rightarrow> ev_what set \<Rightarrow> nat \<Rightarrow> api_call list) \<Rightarrow> win32op loop_env \<Rightarrow> win32op loop_env" where
  "select_env env script q =
     (select_platform env q)
       \<lparr>user_callback := (\<lambda>n fd res arg. run_calls (select_platform env q) (script n fd res arg)),
        deferred_callback := (\<lambda>cb. run_calls (select_platform env q) (script cb (-1) {} 0))\<rparr>"

lemma win32_good_outside: "win32_good op W \<Longrightarrow> win32_good (op\<lparr>outside := x\<rparr>) W"
proof -
  assume g: "win32_good op W"
  have "same_sets op (op\<lparr>outside := x\<rparr>)" "resize_out_sets (op\<lparr>outside := x\<rparr>) = resize_out_sets op"
    "outs_fit (op\<lparr>outside := x\<rparr>) = outs_fit op" by (simp_all add: same_sets_def outs_fit_def)
  with g same_sets_ok [of op "op\<lparr>outside := x\<rparr>"] show ?thesis by (auto simp: win32_good_def win32_ok_def)
qed

lemma backend_contract_cong:
  assumes "backend_contract p good" "evsel p' = evsel p" "evsigsel p' = evsigsel p" "os_ftime p' = os_ftime p" "sig_set_base p' = sig_set_base p"
  shows "backend_contract p' good"
  unfolding backend_contract_def assms(2-5) by (rule assms(1) [unfolded backend_contract_def])

lemma platform_fields [simp]:
  "evsel (select_platform env q) = win32ops env" "sig_set_base (select_platform env q) = (\<lambda>b. b)"
  "evsigsel (select_platform env q) = \<lparr>op_add = (\<lambda>b fd old what. (-1, b)), op_del = (\<lambda>b fd old what. (0, b))\<rparr>"
  "os_ftime (select_platform env q) = (\<lambda>b. case os_ftime q b of (t, b') \<Rightarrow> (t, b\<lparr>outside := outside b'\<rparr>))"
  "dispatch (select_platform env q) = win32_dispatch env"
  by (simp_all add: select_platform_def)

lemma env_fields [simp]:
  "evsel (select_env env script q) = evsel (select_platform env q)" "sig_set_base (select_env env script q) = (\<lambda>b. b)"
  "evsigsel (select_env env script q) = evsigsel (select_platform env q)"
  "os_ftime (select_env env script q) = os_ftime (select_platform env q)"
  "dispatch (select_env env script q) = win32_dispatch env"
  "user_callback (select_env env script q) = (\<lambda>n fd res arg. run_calls (select_platform env q) (script n fd res arg))"
  "deferred_callback (select_env env script q) = (\<lambda>cb. run_calls (select_platform env q) (script cb (-1) {} 0))"
  by (simp_all add: select_env_def)

lemma win32ops_contract:
  assumes g: "win32_good b W"
  shows "op_add (win32ops env) b fd old what = (r, b') \<Longrightarrow> win32_good b' (if r = -1 then W else watch_more fd what W)"
    and "op_del (win32ops env) b fd old what = (r, b') \<Longrightarrow> r = 0 \<and> win32_good b' (watch_less fd what W)"
proof -
  show "win32_good b' (if r = -1 then W else watch_more fd what W)" if "op_add (win32ops env) b fd old what = (r, b')"
    using that win32_add_good [OF g, of env fd old what] g by (auto simp: win32ops_def split: sum.splits)
  have r: "op_del (win32ops env) b fd old what = (r, b') \<Longrightarrow> r = 0"
    by (auto simp: win32ops_def win32_del_def bindE_Inr_iff split: sum.splits prod.splits)
  have "win32_good b' (watch_less fd what W)" if d: "op_del (win32ops env) b fd old what = (r, b')"
  proof (cases "win32_del fd old what b")
    case (Inl c)
    have "broken b"
    proof (rule ccontr)
      assume "\<not> broken b"
      with g have "win32_ok b W" by (simp add: win32_good_def)
      from win32_del_runs [OF this, of fd old what] Inl show False by simp
    qed
    with d Inl show ?thesis by (simp add: win32ops_def win32_good_def)
  next
    case (Inr x)
    with d win32_del_good [OF g, of fd old what] show ?thesis by (simp add: win32ops_def)
  qed
  with r show "op_del (win32ops env) b fd old what = (r, b') \<Longrightarrow> r = 0 \<and> win32_good b' (watch_less fd what W)" by blast
qed

lemma select_backend: "backend_contract (select_platform env q) win32_good"
proof
  fix b W fd old what r b' t
  assume g: "win32_good b W"
  show "op_add (evsel (select_platform env q)) b fd old what = (r, b') \<Longrightarrow> win32_good b' (if r = -1 then W else watch_more fd what W)"
    unfolding platform_fields by (rule win32ops_contract [OF g])
  show "op_del (evsel (select_platform env q)) b fd old what = (r, b') \<Longrightarrow> win32_good b' (if r = -1 then W else watch_less fd what W)"
    unfolding platform_fields using win32ops_contract(2) [OF g, of env fd old what r b'] by auto
qed (auto simp: win32_good_outside split: prod.splits)

lemma select_contract: "loop_contract (select_env env script q) win32_good"
proof (rule loop_contract.intro)
  show "backend_contract (select_env env script q) win32_good"
    by (rule backend_contract_cong [OF select_backend [of env q]]) simp_all
  show "loop_contract_axioms (select_env env script q) win32_good"
    by (rule loop_contract_axioms.intro)
       (simp_all add: win32_dispatch_keeps backend_contract.run_calls_keep [OF select_backend])
qed

interpretation select: loop_contract "select_env env script q" win32_good for env script q
  by (rule select_contract)

section \<open>Steps\<close>

text \<open>What a program does with its base: it sets up events, makes calls, and runs the loop.\<close>

inductive select_step :: "win32op loop_env \<Rightarrow> win32op event_base \<Rightarrow> win32op event_base \<Rightarrow> bool" for p where
  assign: "event_assign base e fd what callback arg = (r, base') \<Longrightarrow> select_step p base base'"
| calls: "run_calls p cs base = Inr base' \<Longrightarrow> select_step p base base'"
| common: "event_base_init_common_timeout p base duration = Inr (tv, base') \<Longrightarrow> select_step p base base'"
| once: "event_base_once p base fd what callback arg tv = Inr (r, base') \<Longrightarrow> select_step p base base'"
| loop: "event_base_loop p no_cache_time base flags = Inr (r, base') \<Longrightarrow> select_step p base base'"

lemma select_step_keeps:
  assumes "select_step (select_env env script q) base base'" "matches win32_good base"
  shows "matches win32_good base'"
  using assms(1)
proof cases
  case (assign e fd what callback arg r)
  have "matches win32_good (snd (event_assign base e fd what callback arg))" using assms(2) by simp
  with assign show ?thesis by simp
next
  case (calls cs)
  with ends_D [OF select.run_calls_keep [OF assms(2)]] show ?thesis by blast
next
  case (common duration tv)
  with ends_D [OF select.init_common_timeout_keeps [OF assms(2)]] show ?thesis by fastforce
next
  case (once fd what callback arg tv r)
  with ends_D [OF select.event_base_once_keeps [OF assms(2)]] show ?thesis by fastforce
next
  case (loop no_cache_time flags r)
  with ends_D [OF select.event_base_loop_keeps [OF assms(2)]] show ?thesis by fastforce
qed

lemma select_steps_keep:
  assumes "(select_step (select_env env script q))\<^sup>*\<^sup>* base base'" "matches win32_good base"
  shows "matches win32_good base'"
  using assms by (induction) (auto intro: select_step_keeps)

section \<open>An environment to try things\<close>

text \<open>Memory never runs out, every socket watched for reading is always readable, and it is always second 100.\<close>

definition sel_win :: win_env where
  "sel_win = \<lparr>op_alloc = True, set_alloc = (\<lambda>_ _. True), rand_value = (\<lambda>_. 7),
     select_call = (\<lambda>n r w x tv. (int (length r), r, [], []))\<rparr>"

definition sel_outside :: "win32op loop_env" where
  "sel_outside = \<lparr>evsel = win32ops sel_win, evsigsel = \<lparr>op_add = (\<lambda>b fd old what. (-1, b)), op_del = (\<lambda>b fd old what. (0, b))\<rparr>,
     debug_mode_on = False, io_entry_alloc = (\<lambda>_. True), sig_entry_alloc = (\<lambda>_. True), sig_array_alloc = (\<lambda>_. True),
     heap_realloc = (\<lambda>sz p. Some (take (sz div 4) (p @ replicate (sz div 4) 0))),
     os_ftime = (\<lambda>b. ((100, 0), b)), sig_set_base = (\<lambda>b. b), dispatch = win32_dispatch sel_win,
     user_callback = (\<lambda>n fd res arg base. Inr base), deferred_callback = (\<lambda>cb base. Inr base),
     new_event = (\<lambda>base. None), has_memory = (\<lambda>_. True)\<rparr>"

definition sel_select :: "win32op loop_env" where
  "sel_select = select_env sel_win (\<lambda>n fd res arg. [Call_Del 0]) sel_outside"

definition sel_op :: win32op where
  "sel_op = the (win32_init sel_win 0)"

definition sel_start :: "win32op event_base" where
  "sel_start = the (event_base_new sel_select (\<lambda>_. zero_event) sel_op)"

text \<open>Event 0 is assigned to socket 5 and added.\<close>

definition sel_reading :: "win32op event_base exec" where
  "sel_reading = run_calls sel_select [Call_Add 0 None] (snd (event_assign sel_start 0 5 {EV_READ} (User_Callback 0) 0))"

lemma sel_op: "win32_init sel_win 0 = Some sel_op"
  "sel_op = (let new = Some \<lparr>set_room = 32, fd_array = []\<rparr> in
     \<lparr>num_fds_in_fd_sets = 32, resize_out_sets = False, readset_in = new, writeset_in = new, readset_out = new, writeset_out = new,
      exset_out = new, signals_are_broken = False, fdinfo = Map.empty, outside = []\<rparr>)"
  by (simp_all add: sel_op_def win32_init_def sel_win_def mm_gives_def FD_SET_ALLOC_SIZE_def room_of_size_def NEVENT_def Let_def)

definition sel_op_reading :: win32op where
  "sel_op_reading = sel_op\<lparr>readset_in := Some \<lparr>set_room = 32, fd_array = [5]\<rparr>, fdinfo := [5 \<mapsto> \<lparr>read_pos_plus1 = 1, write_pos_plus1 = 0\<rparr>]\<rparr>"

lemma sel_op_add: "win32_add sel_win 5 {} {EV_READ} sel_op = Inr (0, sel_op_reading)"
  by (simp add: win32_add_def do_fd_set_def append_fd_def sel_op(2) sel_op_reading_def idx_of_def pos_plus1_def put_pos_def in_set_def put_set_def
      put_idx_def Let_def)

lemma sel_start: "event_base_new sel_select (\<lambda>_. zero_event) sel_op = Some sel_start"
  "sel_start = \<lparr>evbase = sel_op, evio = Map.empty, sigmap = [], evmem = (\<lambda>_. zero_event), virtual_event_count = 0, event_count = 0,
             event_count_active = 0, event_gotterm = False, event_break = False, event_continue = False,
             event_running_priority = 0, running_loop = False, activequeues = [[]], common_timeout_queues = [],
             n_common_timeouts_allocated = 0, defer_list = [], defer_active_count = 0, cb_queued = (\<lambda>_. False),
             eventqueue = [], event_tv = Timeval 100 0, timeheap = min_heap_ctor, tv_cache = evutil_timerclear,
             current_event = None, closure_ncalls = 0, need_notify = False, is_notify_pending = False,
             has_notify_fn = False, notifications = 0\<rparr>"
  by (simp_all add: sel_start_def event_base_new_def event_base_priority_init_def Let_def sel_select_def sel_outside_def select_env_def
      select_platform_def gettime_def evutil_gettimeofday_def N_ACTIVE_CALLBACKS_def EVENT_MAX_PRIORITIES_def evmap_io_initmap_def
      evmap_signal_initmap_def evutil_timerclear_def sel_op(2))

definition sel_reader :: event where
  "sel_reader = zero_event\<lparr>ev_base := True, ev_fd := 5, ev_events := {EV_READ}, ev_flags := {EVLIST_INIT}, min_heap_idx := -1\<rparr>"

definition sel_base :: "win32op event_base" where
  "sel_base = sel_start\<lparr>evbase := sel_op_reading, evio := [5 \<mapsto> \<lparr>io_events = [0], io_nread = 1, io_nwrite = 0\<rparr>], event_count := 1, eventqueue := [0],
     evmem := (\<lambda>_. zero_event)(0 := sel_reader\<lparr>ev_flags := {EVLIST_INSERTED, EVLIST_INIT}\<rparr>)\<rparr>"

lemma sel_reading: "sel_reading = Inr sel_base"
proof -
  have assigned: "snd (event_assign sel_start 0 5 {EV_READ} (User_Callback 0) 0) = sel_start\<lparr>evmem := (\<lambda>_. zero_event)(0 := sel_reader)\<rparr>"
    by (simp add: event_assign_def sel_start(2) set_event_def Let_def min_heap_elem_init_def sel_reader_def zero_event_def)
  have p: "op_add (evsel sel_select) = (\<lambda>b fd old what. case win32_add sel_win fd old what b of Inl _ \<Rightarrow> (-1, b) | Inr r \<Rightarrow> r)"
    "io_entry_alloc sel_select = (\<lambda>_. True)" "debug_mode_on sel_select = False"
    by (simp_all add: sel_select_def select_env_def select_platform_def win32ops_def sel_outside_def)
  show ?thesis
    unfolding sel_reading_def run_calls_def assigned
    by (simp add: sel_base_def sel_start(2) sel_reader_def zero_event_def event_add_def event_add_internal_def event_add_body_def add_reserve_def add_watch_def watches_io_def
        evmap_io_add_def GET_IO_SLOT_AND_CTOR_def p evmap_io_init_def backend_call_def rw_mask_def sel_op_add Let_def
        event_queue_insert_def raise_flag_def count_event_def set_event_def)
qed

lemma sel_base_flagged: "flagged f sel_base = (if f \<in> {EVLIST_INIT, EVLIST_INSERTED} then {0} else {})"
  by (auto simp: flagged_def sel_base_def sel_start(2) zero_event_def)

lemma sel_base_waiting: "on_heap sel_base = {}" "on_list i sel_base = {}" "timer_events sel_base = {}"
  by (auto simp: on_heap_def on_list_def sel_base_flagged timer_events_def) (simp_all add: sel_base_def sel_start(2))

lemma sel_base_ok: "user_ok sel_base"
proof -
  have t: "time_ok (Timeval 100 0)" "time_ok (Timeval 0 0)" by (simp_all add: time_ok_def tv_ok_def)
  have "queues_ok sel_base"
    unfolding queues_ok_def active_ok_def timeouts_ok_def counts_ok_def counted_def sel_base_flagged sel_base_waiting
    by (auto simp: sel_base_def sel_start(2) sel_reader_def zero_event_def holds_def heap_ok_def placed_but_def heap_by_def heap_members_def
        min_heap_ctor_def MAX_EVENTS_def queue_flags_def)
  moreover have "evmaps_ok {0} sel_base"
  proof -
    have "{e. e = 0 \<and> watches_io (evmem sel_base e) \<and> ev_fd (evmem sel_base e) = fd} = (if fd = 5 then {0} else {})" for fd
      by (auto simp: sel_base_def sel_reader_def watches_io_def)
    moreover have "evio sel_base = [5 \<mapsto> \<lparr>io_events = [0], io_nread = 1, io_nwrite = 0\<rparr>]" "sigmap sel_base = []"
      "ev_events (evmem sel_base 0) = {EV_READ}"
      by (simp_all add: sel_base_def sel_start(2) sel_reader_def)
    ultimately show ?thesis
      by (auto simp: evmaps_ok_def io_ok_def io_slot_ok_def io_slot_def evmap_io_init_def waiting_def sig_ok_def sig_slot_def holds_def watches_sig_def watches_io_def)
  qed
  moreover have "watch_ok sel_base" "pri_ok sel_base" "times_ok sel_base" "persist_ok sel_base"
    unfolding watch_ok_def pri_ok_def times_ok_def persist_ok_def sel_base_flagged using t
    by (auto simp: sel_base_def sel_start(2) sel_reader_def zero_event_def watches_def persist_event_def queue_flags_def)
  moreover have "commons_inv 0 sel_base"
    unfolding commons_inv_def sel_base_flagged sel_base_waiting
    by (auto simp: sel_base_def sel_start(2) sel_reader_def zero_event_def MAX_COMMON_TIMEOUTS_def queue_flags_def ctl_info_def)
  ultimately show ?thesis using t unfolding user_defs base_ok_def base_inv_def sel_base_flagged sel_base_waiting
    by (simp add: defer_ok_def holds_def) (simp add: sel_base_def sel_start(2) holds_def evutil_timerclear_def)
qed

lemma sel_reachable: "(select_step sel_select)\<^sup>*\<^sup>* sel_start sel_base"
proof -
  obtain r b where a: "event_assign sel_start 0 5 {EV_READ} (User_Callback 0) 0 = (r, b)" by fastforce
  have "select_step sel_select sel_start b" by (rule select_step.assign [OF a])
  moreover have "select_step sel_select b sel_base"
    by (rule select_step.calls [of _ "[Call_Add 0 None]"]) (use sel_reading a in \<open>simp add: sel_reading_def\<close>)
  ultimately show ?thesis by (meson converse_rtranclp_into_rtranclp rtranclp.rtrancl_refl)
qed

lemma sel_sets: "evbase sel_base = sel_op_reading" "readset_in sel_op_reading \<noteq> None" "writeset_in sel_op_reading \<noteq> None"
  by (simp_all add: sel_base_def sel_op_reading_def sel_op(2) Let_def)

lemma sel_ok: "win32_ok sel_op_reading (watched sel_base)" "select_ok sel_win"
proof -
  have "watched sel_base read = (if read then {5} else {})" for read
    by (auto simp: watched_def sel_base_def io_slot_def evmap_io_init_def watchers_def sel_start(2))
  then show "win32_ok sel_op_reading (watched sel_base)"
    by (auto simp: win32_ok_def set_ok_def outs_fit_def sel_op_reading_def sel_op(2) in_set_def idx_of_def pos_plus1_def Let_def)
  show "select_ok sel_win" by (auto simp: select_ok_def sel_win_def)
qed

text \<open>A set with 32 readers, and memory for no more than 139 bytes.\<close>

definition sel_full :: win32op where
  "sel_full = sel_op\<lparr>readset_in := Some \<lparr>set_room = 32, fd_array = map int [0..<32]\<rparr>,
     fdinfo := (\<lambda>s. if s \<in> {0..<32} then Some \<lparr>read_pos_plus1 = s + 1, write_pos_plus1 = 0\<rparr> else None)\<rparr>"

definition sel_poor :: win_env where
  "sel_poor = sel_win\<lparr>set_alloc := (\<lambda>_ n. n < 140)\<rparr>"

lemma sel_full_ok: "win32_ok sel_full (\<lambda>read. if read then {0..<32} else {})"
proof -
  have "set (map int [0..<32]) = {0..<32}" using image_int_atLeastLessThan [of 0 32] by simp
  then show ?thesis
    by (auto simp: win32_ok_def set_ok_def outs_fit_def sel_full_def sel_op(2) in_set_def idx_of_def pos_plus1_def Let_def distinct_map
        simp del: upt_rec_numeral upt_conv_Cons)
qed

section \<open>Properties\<close>

text \<open>\<open>Sleep\<close> gets the timeout, rounded up to milliseconds.\<close>

lemma sleep_covers:
  assumes "0 \<le> sint (tv_sec tv)" "sint (tv_sec tv) \<le> 2147482" "0 \<le> sint (tv_usec tv)" "sint (tv_usec tv) < 1000000"
  defines "us \<equiv> sint (tv_sec tv) * 1000000 + sint (tv_usec tv)"
  shows "us \<le> sleep_msec (Some tv) * 1000" "sleep_msec (Some tv) * 1000 < us + 1000" "sleep_msec (Some tv) \<le> 2147483647"
proof -
  have d: "(sint (tv_usec tv) + 999) sdiv 1000 = (sint (tv_usec tv) + 999) div 1000" using assms(3) by (simp add: signed_divide_int_def)
  have "sleep_msec (Some tv) = sint (tv_sec tv) * 1000 + (sint (tv_usec tv) + 999) div 1000"
    using assms(1-4) by (simp add: sleep_msec_def evutil_tv_to_msec_def d Let_def)
  moreover have "(u + 999) div 1000 * 1000 \<le> u + 999" "u + 999 < (u + 999) div 1000 * 1000 + 1000" for u :: int by simp_all
  note this [of "sint (tv_usec tv)"]
  ultimately show "us \<le> sleep_msec (Some tv) * 1000" "sleep_msec (Some tv) * 1000 < us + 1000" "sleep_msec (Some tv) \<le> 2147483647"
    using assms(1-4) unfolding us_def by linarith+
qed

text \<open>
  C35: whatever a program does with its base, the sets given to \<open>select\<close> hold exactly the sockets that events wait for, each
  once and at the position its entry knows; unless a set could not be enlarged before, which leaves a null pointer.
\<close>

theorem select_backend_watches:
  assumes "win32_init env evsig = Some op" "event_base_new (select_env env script q) mem op = Some base0"
    "(select_step (select_env env script q))\<^sup>*\<^sup>* base0 base"
  shows "win32_ok (evbase base) (watched base) \<or> readset_in (evbase base) = None \<or> writeset_in (evbase base) = None"
proof -
  have "win32_good op (\<lambda>_. {})" using win32_init_ok [OF assms(1)] by (simp add: win32_good_def)
  from select_steps_keep [OF assms(3) select.new_base_matches [OF this assms(2)]] show ?thesis
    by (auto simp: matches_def win32_good_def broken_def)
qed

theorem select_backend_watches_witness: "win32_ok sel_op_reading (watched sel_base)"
  using select_backend_watches [OF sel_op(1) sel_start(1) [unfolded sel_select_def] sel_reachable [unfolded sel_select_def]]
  by (simp add: sel_sets)

text \<open>
  C36: \<open>win32_dispatch\<close> on a well-formed base does not crash, and activates exactly the events that wait for what \<open>select\<close> has
  left in the sets of results; nothing if it failed.
\<close>

theorem select_dispatch_activates:
  assumes "user_ok base" "win32_ok (evbase base) (watched base)" "select_ok env"
  shows "runs (win32_dispatch env base tv) (\<lambda>(res, b). user_ok b \<and> win32_ok (evbase b) (watched b)
     \<and> (\<forall>f. flagged f b = (if f = EVLIST_ACTIVE \<and> 0 \<le> res then flagged f base \<union> ready_events base (evbase b) else flagged f base)))"
  by (rule win32_dispatch_runs [OF assms])

theorem select_dispatch_activates_witness:
  "runs (win32_dispatch sel_win sel_base None) (\<lambda>(res, b). user_ok b \<and> (0 \<le> res \<longrightarrow> ready_events sel_base (evbase b) \<subseteq> flagged EVLIST_ACTIVE b))"
  using select_dispatch_activates [OF sel_base_ok _ sel_ok(2), of None] sel_ok(1) by (auto simp: sel_sets elim!: runs_mono)

text \<open>
  C37: when the set of readers is full and cannot be enlarged, its pointer is overwritten with NULL: adding fails, and the
  next \<open>win32_dispatch\<close> is a null dereference.
\<close>

theorem select_growth_failure:
  assumes "win32_ok (evbase base) W" "s \<notin> W True" "card (W True) = num_fds_in_fd_sets (evbase base)" "\<not> resize_out_sets (evbase base)"
    and "\<not> mm_gives env Readset_In (4 + 8 * card (W True))"
  shows "\<exists>op'. win32_add env s {} {EV_READ} (evbase base) = Inr (-1, op') \<and> win32_dispatch env (base\<lparr>evbase := op'\<rparr>) tv = Inl Null_Deref"
proof -
  let ?op = "evbase base" and ?n = "num_fds_in_fd_sets (evbase base)"
  obtain r where r: "readset_in ?op = Some r" "distinct (fd_array r)" "set (fd_array r) = W True"
    using win32_ok_set [OF assms(1), of True] by (auto simp: in_set_def elim!: set_okE)
  then have full: "length (fd_array r) = ?n" using assms(3) distinct_card by metis
  have np: "\<not> pos_plus1 True (idx_of ?op s) > 0" using win32_ok_set [OF assms(1), of True] assms(2) by (auto elim!: set_okE)
  obtain w where w: "writeset_in ?op = Some w" "length (fd_array w) \<le> ?n"
    using win32_ok_set [OF assms(1), of False] by (auto simp: in_set_def elim!: set_okE)
  have n: "0 < ?n" "4 + 4 * ?n < 2 ^ 31" using assms(1) by (simp_all add: win32_ok_def)
  then have m: "?n * 2 mod 2 ^ 32 = ?n * 2" "FD_SET_ALLOC_SIZE (?n * 2) = 4 + 8 * ?n"
    using FD_SET_ALLOC_SIZE_eq [of "?n * 2"] by simp_all
  have "grow_fd_sets env (?n * 2 mod 2 ^ 32) ?op = Inr (-1, ?op\<lparr>readset_in := None\<rparr>)"
    using r(1) full w n assms(3,5) unfolding m by (simp add: grow_fd_sets_def m)
  then have "win32_add env s {} {EV_READ} ?op = Inr (-1, ?op\<lparr>readset_in := None\<rparr>)"
    using np r full by (simp add: win32_add_def do_fd_set_def in_set_def)
  then show ?thesis using assms(4) by (simp add: win32_dispatch_def resize_sets_def fd_set_copy_def)
qed

theorem select_growth_failure_witness:
  "\<exists>op'. win32_add sel_poor 99 {} {EV_READ} sel_full = Inr (-1, op') \<and> win32_dispatch sel_poor (sel_start\<lparr>evbase := op'\<rparr>) None = Inl Null_Deref"
proof -
  have n: "num_fds_in_fd_sets sel_full = 32" "\<not> resize_out_sets sel_full" by (simp_all add: sel_full_def sel_op(2) Let_def)
  show ?thesis
    using select_growth_failure [of "sel_start\<lparr>evbase := sel_full\<rparr>" "\<lambda>read. if read then {0..<32} else {}" 99 sel_poor None] sel_full_ok n
    by (simp add: sel_poor_def mm_gives_def)
qed

end
