(* ===== verification/Evutil_String.thy ===== *)
theory Evutil_String
  imports Ev_Prelude
begin

text \<open>
  Strings in \<open>evutil.c\<close> and \<open>strlcpy.c\<close>: character classes and cases that do not depend on the locale, comparison
  that ignores cases, bounded copying. A C string is the list of its bytes without the null byte; reading it
  ends at its first null byte.
\<close>

unbundle bit_operations_syntax

definition c_string :: "byte list \<Rightarrow> byte list" where
  "c_string name = takeWhile (\<lambda>b. b \<noteq> 0) name"

lemma c_string_id [simp]: "0 \<notin> set name \<Longrightarrow> c_string name = name"
  by (auto simp: c_string_def takeWhile_eq_all_conv)

lemma length_c_string: "length (c_string name) \<le> length name"
  by (simp add: c_string_def length_takeWhile_le)

lemma c_string_no_null: "0 \<notin> set (c_string s)"
  by (auto simp: c_string_def dest: set_takeWhileD)

text \<open>The byte a pointer into a string points to.\<close>

fun c_char :: "byte list \<Rightarrow> byte" where
  "c_char [] = 0"
| "c_char (c # s) = c"

lemma c_string_c_char: "c_string s = (if c_char s = 0 then [] else c_char s # c_string (tl s))"
  by (cases s) (simp_all add: c_string_def)

section \<open>Characters\<close>

text \<open>A table has one bit for each character.\<close>

definition EVUTIL_ISALPHA_TABLE :: "32 word list" where
  "EVUTIL_ISALPHA_TABLE = [0, 0, 0x7fffffe, 0x7fffffe, 0, 0, 0, 0]"

definition EVUTIL_ISALNUM_TABLE :: "32 word list" where
  "EVUTIL_ISALNUM_TABLE = [0, 0x3ff0000, 0x7fffffe, 0x7fffffe, 0, 0, 0, 0]"

definition EVUTIL_ISSPACE_TABLE :: "32 word list" where
  "EVUTIL_ISSPACE_TABLE = [0x3e00, 0x1, 0, 0, 0, 0, 0, 0]"

definition EVUTIL_ISXDIGIT_TABLE :: "32 word list" where
  "EVUTIL_ISXDIGIT_TABLE = [0, 0x3ff0000, 0x7e, 0x7e, 0, 0, 0, 0]"

definition EVUTIL_ISDIGIT_TABLE :: "32 word list" where
  "EVUTIL_ISDIGIT_TABLE = [0, 0x3ff0000, 0, 0, 0, 0, 0, 0]"

definition EVUTIL_ISPRINT_TABLE :: "32 word list" where
  "EVUTIL_ISPRINT_TABLE = [0, 0xffffffff, 0xffffffff, 0x7fffffff, 0, 0, 0, 0x0]"

definition EVUTIL_ISUPPER_TABLE :: "32 word list" where
  "EVUTIL_ISUPPER_TABLE = [0, 0, 0x7fffffe, 0, 0, 0, 0, 0]"

definition EVUTIL_ISLOWER_TABLE :: "32 word list" where
  "EVUTIL_ISLOWER_TABLE = [0, 0, 0, 0x7fffffe, 0, 0, 0, 0]"

definition ctype_fn :: "32 word list \<Rightarrow> byte \<Rightarrow> bool" where
  "ctype_fn table u = (table ! unat (drop_bit 5 u AND 7) AND push_bit (unat (u AND 31)) 1 \<noteq> 0)"

definition EVUTIL_ISALPHA :: "byte \<Rightarrow> bool" where "EVUTIL_ISALPHA = ctype_fn EVUTIL_ISALPHA_TABLE"
definition EVUTIL_ISALNUM :: "byte \<Rightarrow> bool" where "EVUTIL_ISALNUM = ctype_fn EVUTIL_ISALNUM_TABLE"
definition EVUTIL_ISSPACE :: "byte \<Rightarrow> bool" where "EVUTIL_ISSPACE = ctype_fn EVUTIL_ISSPACE_TABLE"
definition EVUTIL_ISXDIGIT :: "byte \<Rightarrow> bool" where "EVUTIL_ISXDIGIT = ctype_fn EVUTIL_ISXDIGIT_TABLE"
definition EVUTIL_ISDIGIT :: "byte \<Rightarrow> bool" where "EVUTIL_ISDIGIT = ctype_fn EVUTIL_ISDIGIT_TABLE"
definition EVUTIL_ISPRINT :: "byte \<Rightarrow> bool" where "EVUTIL_ISPRINT = ctype_fn EVUTIL_ISPRINT_TABLE"
definition EVUTIL_ISUPPER :: "byte \<Rightarrow> bool" where "EVUTIL_ISUPPER = ctype_fn EVUTIL_ISUPPER_TABLE"
definition EVUTIL_ISLOWER :: "byte \<Rightarrow> bool" where "EVUTIL_ISLOWER = ctype_fn EVUTIL_ISLOWER_TABLE"

definition EVUTIL_TOUPPER_TABLE :: "nat list" where
  "EVUTIL_TOUPPER_TABLE = [0..<97] @ [65..<91] @ [123..<256]"

definition EVUTIL_TOLOWER_TABLE :: "nat list" where
  "EVUTIL_TOLOWER_TABLE = [0..<65] @ [97..<123] @ [91..<256]"

definition EVUTIL_TOUPPER :: "byte \<Rightarrow> byte" where
  "EVUTIL_TOUPPER c = of_nat (EVUTIL_TOUPPER_TABLE ! unat c)"

definition EVUTIL_TOLOWER :: "byte \<Rightarrow> byte" where
  "EVUTIL_TOLOWER c = of_nat (EVUTIL_TOLOWER_TABLE ! unat c)"

lemma tolower_eq: "EVUTIL_TOLOWER c = (if 65 \<le> unat c \<and> unat c < 91 then c + 32 else c)"
proof -
  consider "unat c < 65" | "65 \<le> unat c" "unat c < 91" | "91 \<le> unat c" by linarith
  then show ?thesis
  proof cases
    case 1
    then show ?thesis by (simp add: EVUTIL_TOLOWER_def EVUTIL_TOLOWER_TABLE_def nth_append del: upt_rec_numeral)
  next
    case 2
    then have "unat c - 65 < 26" by simp
    with 2 have "EVUTIL_TOLOWER_TABLE ! unat c = unat c + 32" by (simp add: EVUTIL_TOLOWER_TABLE_def nth_append del: upt_rec_numeral)
    with 2 show ?thesis by (simp add: EVUTIL_TOLOWER_def)
  next
    case 3
    moreover from this have "\<not> unat c - 65 < 26" by simp
    moreover have "unat c < 256" using unsigned_less [of c] by simp
    ultimately show ?thesis by (simp add: EVUTIL_TOLOWER_def EVUTIL_TOLOWER_TABLE_def nth_append del: upt_rec_numeral)
  qed
qed

lemma tolower_0 [simp]: "EVUTIL_TOLOWER c = 0 \<longleftrightarrow> c = 0"
proof -
  have "unat (c + 32) = unat c + 32" if "unat c < 91" using that by (simp add: unat_word_ariths)
  then have "c + 32 \<noteq> 0" if "unat c < 91" using that by fastforce
  then show ?thesis by (auto simp: tolower_eq)
qed

text \<open>A character is in a class if the bit of its code is set.\<close>

lemma unat_and_mask: "unat ((w :: 'a::len word) AND mask n) = unat w mod 2 ^ n"
proof -
  have "unat w mod 2 ^ n = take_bit n (unat w)" by (simp only: take_bit_eq_mod)
  also have "\<dots> = unat (take_bit n w)" by (simp only: unsigned_take_bit_eq)
  also have "\<dots> = unat (w AND mask n)" by (simp only: take_bit_eq_mask)
  finally show ?thesis by (rule sym)
qed

lemma ctype_fn_bit: "ctype_fn table u = bit (table ! (unat u div 32)) (unat u mod 32)"
proof -
  have m: "(31 :: byte) = mask 5" "(7 :: byte) = mask 3" by (simp_all add: mask_eq_exp_minus_1)
  have lo: "unat (u AND 31) = unat u mod 32"
    unfolding m(1) unat_and_mask by simp
  have "unat u < 8 * 32" using unsigned_less [of u] by simp
  then have "unat u div 32 < 8" by (simp add: less_mult_imp_div_less)
  then have "unat (drop_bit 5 u AND 7) = unat u div 32"
    unfolding m(2) unat_and_mask unat_shift_right by simp
  with lo show ?thesis by (simp add: ctype_fn_def bit_iff_and_push_bit_not_eq_0)
qed

section \<open>Comparing and copying\<close>

text \<open>Characters are signed.\<close>

function evutil_ascii_strcasecmp :: "byte list \<Rightarrow> byte list \<Rightarrow> int" where
  "evutil_ascii_strcasecmp s1 s2 =
     (let c1 = EVUTIL_TOLOWER (c_char s1); c2 = EVUTIL_TOLOWER (c_char s2) in
      if sint c1 < sint c2 then -1
      else if sint c1 > sint c2 then 1
      else if c1 = 0 then 0
      else evutil_ascii_strcasecmp (tl s1) (tl s2))"
  by pat_completeness auto

termination
proof (relation "measure (\<lambda>(s1, s2). length s1)", simp)
  fix s1 s2 :: "byte list" and c1 c2 :: byte
  assume "c1 = EVUTIL_TOLOWER (c_char s1)" "c1 \<noteq> 0"
  then show "((tl s1, tl s2), (s1, s2)) \<in> measure (\<lambda>(s1, s2). length s1)" by (cases s1) auto
qed

declare evutil_ascii_strcasecmp.simps [simp del]

fun evutil_ascii_strncasecmp :: "nat \<Rightarrow> byte list \<Rightarrow> byte list \<Rightarrow> int" where
  "evutil_ascii_strncasecmp 0 s1 s2 = 0"
| "evutil_ascii_strncasecmp (Suc n) s1 s2 =
     (let c1 = EVUTIL_TOLOWER (c_char s1); c2 = EVUTIL_TOLOWER (c_char s2) in
      if sint c1 < sint c2 then -1
      else if sint c1 > sint c2 then 1
      else if c1 = 0 then 0
      else evutil_ascii_strncasecmp n (tl s1) (tl s2))"

text \<open>
  \<open>_event_strlcpy\<close> into the memory \<open>dst\<close>: its result and the memory. The loop copies while \<open>n - 1\<close> is not 0;
  \<open>n\<close>, \<open>d\<close> and \<open>s\<close> are as in the code after the loop.
\<close>

fun strlcpy_loop :: "nat \<Rightarrow> nat \<Rightarrow> byte list \<Rightarrow> byte list \<Rightarrow> nat \<times> nat \<times> byte list \<times> byte list" where
  "strlcpy_loop 0 d s dst = (0, d, s, dst)"
| "strlcpy_loop (Suc n) d s dst =
     (let dst = mem_write d [c_char s] dst in
      if c_char s = 0 then (Suc n, Suc d, tl s, dst) else strlcpy_loop n (Suc d) (tl s) dst)"

definition event_strlcpy :: "byte list \<Rightarrow> byte list \<Rightarrow> nat \<Rightarrow> nat \<times> byte list" where
  "event_strlcpy dst src siz =
     (if siz = 0 then (length (c_string src), dst)
      else case strlcpy_loop (siz - 1) 0 src dst of
        (n, d, s, dst) \<Rightarrow>
          if n = 0 then (d + length (c_string s), mem_write d [0] dst) else (d - 1, dst))"

section \<open>Numbers\<close>

definition evutil_hex_char_to_int :: "byte \<Rightarrow> int" where
  "evutil_hex_char_to_int c =
     (if 48 \<le> c \<and> c \<le> 57 then uint c - 48
      else if 65 \<le> c \<and> c \<le> 70 then uint c - 55
      else if 97 \<le> c \<and> c \<le> 102 then uint c - 87
      else -1)"

section \<open>What they compute\<close>

lemma strcasecmp_0:
  "evutil_ascii_strcasecmp s1 s2 = 0 \<longleftrightarrow> map EVUTIL_TOLOWER (c_string s1) = map EVUTIL_TOLOWER (c_string s2)"
proof (induction s1 s2 rule: evutil_ascii_strcasecmp.induct)
  case (1 s1 s2)
  let ?c1 = "EVUTIL_TOLOWER (c_char s1)" and ?c2 = "EVUTIL_TOLOWER (c_char s2)"
  have nul: "map EVUTIL_TOLOWER (c_string s) = (if c_char s = 0 then [] else EVUTIL_TOLOWER (c_char s) # map EVUTIL_TOLOWER (c_string (tl s)))" for s
    by (subst c_string_c_char) simp
  note unfold = evutil_ascii_strcasecmp.simps [of s1 s2] nul [of s1] nul [of s2]
  show ?case
  proof (cases "sint ?c1 = sint ?c2")
    case False
    then have "?c1 \<noteq> ?c2" by auto
    then have "map EVUTIL_TOLOWER (c_string s1) \<noteq> map EVUTIL_TOLOWER (c_string s2)"
      unfolding nul [of s1] nul [of s2] by (auto split: if_splits)
    moreover have "sint ?c1 < sint ?c2 \<or> sint ?c2 < sint ?c1" using False by linarith
    then have "evutil_ascii_strcasecmp s1 s2 \<noteq> 0"
      unfolding evutil_ascii_strcasecmp.simps [of s1 s2] Let_def by (elim disjE) simp_all
    ultimately show ?thesis by simp
  next
    case True
    then have eq: "?c1 = ?c2" by (simp add: signed_word_eqI)
    show ?thesis
    proof (cases "?c1 = 0")
      case True
      with eq have "c_char s1 = 0" "c_char s2 = 0" by simp_all
      then show ?thesis by (simp add: Let_def unfold)
    next
      case False
      with eq have "EVUTIL_TOLOWER (c_char s2) \<noteq> 0" by simp
      with False have "c_char s1 \<noteq> 0" "c_char s2 \<noteq> 0" by (simp_all only: tolower_0) simp_all
      with eq "1" [of ?c1 ?c2] show ?thesis by (simp add: Let_def unfold)
    qed
  qed
qed

lemma strlcpy_loop_copies:
  assumes "strlcpy_loop n d src dst = (n', d', s', dst')" "d + n < length dst"
  shows "length dst' = length dst \<and> drop (d + n) dst' = drop (d + n) dst \<and>
    (if length (c_string src) < n
     then n' \<noteq> 0 \<and> d' = d + length (c_string src) + 1 \<and> take d' dst' = take d dst @ c_string src @ [0]
     else n' = 0 \<and> d' = d + n \<and> take d' dst' = take d dst @ take n (c_string src) \<and> c_string s' = drop n (c_string src))"
  using assms
proof (induction n arbitrary: d src dst)
  case 0
  then show ?case by simp
next
  case (Suc n)
  define dst1 where "dst1 = mem_write d [c_char src] dst"
  have d1: "length dst1 = length dst" "take (Suc d) dst1 = take d dst @ [c_char src]" "drop (Suc d) dst1 = drop (Suc d) dst"
    using Suc.prems(2) by (simp_all add: dst1_def mem_write_def length_mem_write)
  show ?case
  proof (cases "c_char src = 0")
    case True
    then have "c_string src = []" by (subst c_string_c_char) simp
    moreover have "drop (d + Suc n) dst1 = drop (d + Suc n) dst" using arg_cong [OF d1(3), of "drop n"] by (simp add: add.commute)
    moreover have "dst' = dst1" "n' = Suc n" "d' = Suc d" using Suc.prems(1) True by (simp_all add: Let_def dst1_def)
    ultimately show ?thesis using True d1 by simp
  next
    case False
    then have src: "c_string src = c_char src # c_string (tl src)" by (subst c_string_c_char) simp
    from Suc.prems False have run: "strlcpy_loop n (Suc d) (tl src) dst1 = (n', d', s', dst')" by (simp add: Let_def dst1_def)
    have "drop (Suc d + n) dst1 = drop (Suc d + n) dst" using arg_cong [OF d1(3), of "drop n"] by (simp add: add.commute)
    with Suc.IH [OF run] Suc.prems(2) d1 src show ?thesis by auto
  qed
qed

text \<open>The string is cut if it is too long; the result is the length it would have had.\<close>

lemma event_strlcpy_copies:
  assumes "event_strlcpy dst src siz = (n, dst')" "0 < siz" "siz \<le> length dst"
  shows "n = length (c_string src) \<and> c_string dst' = take (siz - 1) (c_string src) \<and> length dst' = length dst \<and>
    drop siz dst' = drop siz dst"
proof -
  obtain n1 d1 s1 dst1 where l: "strlcpy_loop (siz - 1) 0 src dst = (n1, d1, s1, dst1)" by (metis prod_cases4)
  have no: "0 \<notin> set (take k (c_string src))" for k using c_string_no_null [of src] by (auto dest: in_set_takeD)
  have cut: "c_string b = a" if "take (length a + 1) b = a @ [0]" "0 \<notin> set a" for a b
  proof -
    have "b = take (length a + 1) b @ drop (length a + 1) b" by simp
    then have b: "b = a @ 0 # drop (length a + 1) b" by (simp only: that(1)) simp
    have "takeWhile (\<lambda>x. x \<noteq> 0) (a @ 0 # drop (length a + 1) b) = a @ takeWhile (\<lambda>x. x \<noteq> 0) (0 # drop (length a + 1) b)"
      by (rule takeWhile_append2) (use that(2) in auto)
    then show ?thesis by (subst b) (simp add: c_string_def)
  qed
  have "0 + (siz - 1) < length dst" using assms(2,3) by simp
  from strlcpy_loop_copies [OF l this] have w: "length dst1 = length dst" "drop (siz - 1) dst1 = drop (siz - 1) dst"
    "if length (c_string src) < siz - 1
     then n1 \<noteq> 0 \<and> d1 = length (c_string src) + 1 \<and> take d1 dst1 = c_string src @ [0]
     else n1 = 0 \<and> d1 = siz - 1 \<and> take d1 dst1 = take (siz - 1) (c_string src) \<and> c_string s1 = drop (siz - 1) (c_string src)"
    unfolding add_0 take_0 append_Nil by blast+
  have ds: "drop siz dst1 = drop siz dst" using arg_cong [OF w(2), of "drop 1"] assms(2) by simp
  show ?thesis
  proof (cases "length (c_string src) < siz - 1")
    case True
    with assms l w ds cut [of "c_string src" dst1] c_string_no_null [of src] show ?thesis
      by (auto simp: event_strlcpy_def)
  next
    case False
    with w have "dst' = mem_write (siz - 1) [0] dst1" "n = length (c_string src)"
      using assms l by (auto simp: event_strlcpy_def)
    moreover from this have "take siz dst' = take (siz - 1) (c_string src) @ [0]" "drop siz dst' = drop siz dst1"
      "length dst' = length dst1"
      using False w assms by (auto simp: mem_write_def length_mem_write)
    ultimately show ?thesis using cut [of "take (siz - 1) (c_string src)" dst'] no ds w False assms by auto
  qed
qed

end
