(* ===== verification/Evutil_Addr.thy ===== *)
theory Evutil_Addr
  imports Evutil_String
begin

text \<open>
  Addresses as text: \<open>evutil_inet_ntop\<close> and \<open>evutil_inet_pton\<close>, \<open>evutil.c\<close>. An address is the list of its bytes in memory, 4 or 16 of them. Of the C library, \<open>strtol\<close>
  in base 16, \<open>sscanf\<close> for four numbers and \<open>snprintf\<close> for numbers are modelled here. Printing an address and reading it
  gives the address back.
\<close>

unbundle bit_operations_syntax

section \<open>Numbers in the C library\<close>

text \<open>The digits of a number, the most significant one first.\<close>

function digits :: "nat \<Rightarrow> nat \<Rightarrow> nat list" where
  "digits b n = (if n < b \<or> b < 2 then [n] else digits b (n div b) @ [n mod b])"
  by pat_completeness auto

termination
  by (relation "measure snd") auto

declare digits.simps [simp del]

definition number :: "nat \<Rightarrow> nat list \<Rightarrow> nat" where
  "number b ds = foldl (\<lambda>a d. a * b + d) 0 ds"

definition digit_char :: "nat \<Rightarrow> byte" where
  "digit_char d = of_nat (if d < 10 then 48 + d else 87 + d)"

definition digit_value :: "byte \<Rightarrow> nat" where
  "digit_value c = nat (evutil_hex_char_to_int c)"

text \<open>\<open>%d\<close> and \<open>%x\<close>.\<close>

definition print_dec :: "nat \<Rightarrow> byte list" where
  "print_dec n = map digit_char (digits 10 n)"

definition print_hex :: "nat \<Rightarrow> byte list" where
  "print_hex n = map digit_char (digits 16 n)"

definition c_isspace :: "byte \<Rightarrow> bool" where
  "c_isspace c \<longleftrightarrow> c = 32 \<or> 9 \<le> c \<and> c \<le> 13"

definition skip_sign :: "byte list \<Rightarrow> bool \<times> byte list" where
  "skip_sign s = (if c_char s = 45 then (True, tl s) else if c_char s = 43 then (False, tl s) else (False, s))"

text \<open>
  \<open>strtol(s, &next, 16)\<close>: the value and \<open>next\<close>. A prefix \<open>0x\<close> before a digit is skipped; a value that does not fit is
  the nearest one that does.
\<close>

definition strtol16 :: "byte list \<Rightarrow> int \<times> byte list" where
  "strtol16 s =
     (case skip_sign (dropWhile c_isspace s) of (neg, t) \<Rightarrow>
      let t = (if c_char t = 48 \<and> (c_char (tl t) = 120 \<or> c_char (tl t) = 88) \<and> EVUTIL_ISXDIGIT (c_char (tl (tl t))) then tl (tl t) else t);
          ds = takeWhile EVUTIL_ISXDIGIT t;
          v = int (number 16 (map digit_value ds))
      in if ds = [] then (0, s)
         else (if neg then max (- (2 ^ 31)) (- v) else min (2 ^ 31 - 1) v, drop (length ds) t))"

text \<open>\<open>%d\<close> of \<open>sscanf\<close>: the value and the rest; a value that does not fit an \<open>int\<close> is undefined.\<close>

definition scan_int :: "byte list \<Rightarrow> (int \<times> byte list) option exec" where
  "scan_int s =
     (case skip_sign (dropWhile c_isspace s) of (neg, t) \<Rightarrow>
      let ds = takeWhile EVUTIL_ISDIGIT t; n = int (number 10 (map digit_value ds)); v = (if neg then - n else n)
      in if ds = [] then Inr None
         else if v < - (2 ^ 31) \<or> v \<ge> 2 ^ 31 then Inl Overflow
         else Inr (Some (v, drop (length ds) t)))"

text \<open>\<open>sscanf(s, "%d.%d.%d.%d%c", ...)\<close>: the four numbers if it returns 4.\<close>

fun scan_dotted :: "nat \<Rightarrow> byte list \<Rightarrow> int list option exec" where
  "scan_dotted 0 s = Inr (if s = [] then Some [] else None)"
| "scan_dotted (Suc n) s =
     bindE (scan_int s) (\<lambda>r.
     case r of
       None \<Rightarrow> Inr None
     | Some (v, s) \<Rightarrow>
         if n = 0 then bindE (scan_dotted 0 s) (\<lambda>vs. Inr (map_option (\<lambda>vs. v # vs) vs))
         else if c_char s \<noteq> 46 then Inr None
         else bindE (scan_dotted n (tl s)) (\<lambda>vs. Inr (map_option (\<lambda>vs. v # vs) vs)))"

section \<open>IPv4\<close>

text \<open>What \<open>evutil_inet_ntop\<close> stores and returns; \<open>None\<close> is NULL.\<close>

definition print_dotted :: "byte list \<Rightarrow> byte list" where
  "print_dotted a = print_dec (unat (a ! 0)) @ [46] @ print_dec (unat (a ! 1)) @ [46] @ print_dec (unat (a ! 2)) @ [46] @ print_dec (unat (a ! 3))"

definition inet_ntop4 :: "byte list \<Rightarrow> nat \<Rightarrow> byte list option" where
  "inet_ntop4 a len = (if length (print_dotted a) \<ge> len then None else Some (print_dotted a))"

definition byte_range :: "int \<Rightarrow> bool" where
  "byte_range v \<longleftrightarrow> 0 \<le> v \<and> v \<le> 255"

definition inet_pton4 :: "byte list \<Rightarrow> (int \<times> byte list option) exec" where
  "inet_pton4 src =
     bindE (scan_dotted 4 src) (\<lambda>vs.
     case vs of
       None \<Rightarrow> Inr (0, None)
     | Some vs \<Rightarrow> if list_all byte_range vs then Inr (1, Some (map of_int vs)) else Inr (0, None))"

section \<open>IPv6\<close>

definition words_of :: "byte list \<Rightarrow> 16 word list" where
  "words_of a = map (\<lambda>i. push_bit 8 (ucast (a ! (2 * i))) + ucast (a ! (2 * i + 1))) [0..<8]"

definition bytes_of :: "16 word list \<Rightarrow> byte list" where
  "bytes_of ws = concat (map (\<lambda>w. [ucast (drop_bit 8 w), ucast (w AND 0xff)]) ws)"

definition zero_run :: "nat \<Rightarrow> 16 word list \<Rightarrow> nat" where
  "zero_run i ws = length (takeWhile (\<lambda>w. w = 0) (drop i ws))"

text \<open>The loop that looks for the longest run of zeros.\<close>

function find_gap :: "nat \<Rightarrow> int \<Rightarrow> nat \<Rightarrow> 16 word list \<Rightarrow> int \<times> nat" where
  "find_gap i longestGapPos longestGapLen ws =
     (if i < 8
      then if ws ! i = 0
           then let n = max 1 (zero_run i ws)
                in if n > longestGapLen then find_gap (i + n) (int i) n ws else find_gap (i + n) longestGapPos longestGapLen ws
           else find_gap (i + 1) longestGapPos longestGapLen ws
      else (longestGapPos, longestGapLen))"
  by pat_completeness auto

termination
  by (relation "measure (\<lambda>(i, _, _, _). 8 - i)") (auto simp: max_def)

declare find_gap.simps [simp del]

text \<open>The loop that prints the words.\<close>

function print_words :: "nat \<Rightarrow> int \<Rightarrow> 16 word list \<Rightarrow> byte list" where
  "print_words i longestGapPos ws =
     (if i < 8
      then if ws ! i = 0 \<and> longestGapPos = int i
           then (if i = 0 then [58] else []) @ [58] @ print_words (i + max 1 (zero_run i ws)) longestGapPos ws
           else print_hex (unat (ws ! i)) @ (if i \<noteq> 7 then [58] else []) @ print_words (i + 1) longestGapPos ws
      else [])"
  by pat_completeness auto

termination
  by (relation "measure (\<lambda>(i, _, _). 8 - i)") (auto simp: max_def)

declare print_words.simps [simp del]

definition print_ipv6 :: "byte list \<Rightarrow> byte list" where
  "print_ipv6 a =
     (let ws = words_of a in
      if ws ! 0 = 0 \<and> ws ! 1 = 0 \<and> ws ! 2 = 0 \<and> ws ! 3 = 0 \<and> ws ! 4 = 0 \<and> (ws ! 5 = 0 \<and> ws ! 6 \<noteq> 0 \<and> ws ! 7 \<noteq> 0 \<or> ws ! 5 = 0xffff)
      then [58, 58] @ (if ws ! 5 = 0 then [] else print_hex (unat (ws ! 5)) @ [58]) @ print_dotted (drop 12 a)
      else case find_gap 0 (-1) 0 ws of (pos, len) \<Rightarrow> print_words 0 (if len \<le> 1 then -1 else pos) ws)"

text \<open>Longer strings than the room are refused, but one that is exactly as long is cut by \<open>strlcpy\<close>.\<close>

definition inet_ntop6 :: "byte list \<Rightarrow> nat \<Rightarrow> byte list option" where
  "inet_ntop6 a len = (if length (print_ipv6 a) > len then None else Some (take (len - 1) (print_ipv6 a)))"

text \<open>
  The loop over the words: \<open>src\<close> and \<open>eow\<close> are what is left of the string from the two pointers, so the comparison of
  pointers is one of lengths. \<open>None\<close>: the function returns 0.
\<close>

function pton_words :: "byte list \<Rightarrow> byte list \<Rightarrow> nat \<Rightarrow> int \<Rightarrow> nat \<Rightarrow> 16 word list \<Rightarrow> (int \<times> nat \<times> 16 word list) option" where
  "pton_words src eow i gapPos setWords ws =
     (if length src \<le> length eow then Some (gapPos, setWords, ws)
      else if i > 7 then None
      else if EVUTIL_ISXDIGIT (c_char src)
      then let r = fst (strtol16 src); nxt = snd (strtol16 src); used = length src - length nxt
           in if used > 4 \<or> used = 0 \<or> r < 0 \<or> r > 65536 then None
              else if c_char nxt \<noteq> 58 \<and> length nxt \<noteq> length eow then None
              else pton_words (tl nxt) eow (i + 1) gapPos (setWords + 1) (ws[i := of_int r])
      else if c_char src = 58 \<and> i > 0 \<and> gapPos = -1 then pton_words (tl src) eow i (int i) setWords ws
      else if c_char src = 58 \<and> i = 0 \<and> c_char (tl src) = 58 \<and> gapPos = -1 then pton_words (tl (tl src)) eow i (int i) setWords ws
      else None)"
  by pat_completeness auto

termination
  by (relation "measure (\<lambda>(src, _, _, _, _, _). length src)") auto

declare pton_words.simps [simp del]

text \<open>Moving the words behind the gap to the end: \<open>memmove\<close>, then \<open>memset\<close>.\<close>

definition open_gap :: "nat \<Rightarrow> nat \<Rightarrow> nat \<Rightarrow> 16 word list \<Rightarrow> 16 word list" where
  "open_gap pos n len ws =
     (let ws = take (pos + len) ws @ take n (drop pos ws) @ drop (pos + len + n) ws
      in take pos ws @ replicate len 0 @ drop (pos + len) ws)"

text \<open>\<open>ws\<close> is what the array \<open>words\<close> on the stack holds.\<close>

definition inet_pton6 :: "16 word list \<Rightarrow> byte list \<Rightarrow> (int \<times> byte list option) exec" where
  "inet_pton6 ws src =
     (let pre = takeWhile (\<lambda>c. c \<noteq> 46) src; dot = pre \<noteq> src
      in if dot \<and> pre = [] then Inr (0, None)
         else let eow = (if dot then drop (length pre - length (takeWhile EVUTIL_ISDIGIT (rev pre))) src else [])
              in bindE (if dot then scan_dotted 4 eow else Inr (Some [])) (\<lambda>bytes.
                 case bytes of
                   None \<Rightarrow> Inr (0, None)
                 | Some vs \<Rightarrow>
                     if \<not> list_all byte_range vs then Inr (0, None)
                     else let ws = (if dot then ws[6 := of_int (vs ! 0 * 256 + vs ! 1), 7 := of_int (vs ! 2 * 256 + vs ! 3)] else ws);
                              d = (if dot then 2 else 0)
                          in case pton_words src eow 0 (-1) d ws of
                               None \<Rightarrow> Inr (0, None)
                             | Some (gapPos, setWords, ws) \<Rightarrow>
                                 if setWords > 8 \<or> setWords = 8 \<and> gapPos \<noteq> -1 \<or> setWords < 8 \<and> gapPos = -1 then Inr (0, None)
                                 else if gapPos \<ge> 0 \<and> int setWords - int d - gapPos < 0 then Inr (-1, None)
                                 else Inr (1, Some (bytes_of (if gapPos \<ge> 0
                                        then open_gap (nat gapPos) (setWords - d - nat gapPos) (8 - setWords) ws else ws)))))"

section \<open>Printing and reading numbers\<close>

lemma number_snoc [simp]: "number b (ds @ [d]) = number b ds * b + d" and number_single [simp]: "number b [d] = d"
  by (simp_all add: number_def)

lemma digits_ne [simp]: "digits b n \<noteq> []"
  by (subst digits.simps) simp

lemma digits_spec: "2 \<le> b \<Longrightarrow> number b (digits b n) = n \<and> (\<forall>d\<in>set (digits b n). d < b)"
proof (induction b n rule: digits.induct)
  case (1 b n)
  show ?case
  proof (cases "n < b")
    case False
    with 1 have IH: "number b (digits b (n div b)) = n div b" "\<forall>d\<in>set (digits b (n div b)). d < b" by simp_all
    have d: "digits b n = digits b (n div b) @ [n mod b]" using False 1(2) by (subst digits.simps) simp
    show ?thesis unfolding d using IH 1(2) by auto
  qed (simp add: digits.simps)
qed

lemma digits_length: "2 \<le> b \<Longrightarrow> n < b ^ k \<Longrightarrow> 0 < k \<Longrightarrow> length (digits b n) \<le> k"
proof (induction k arbitrary: n)
  case (Suc k)
  show ?case
  proof (cases "n < b")
    case False
    with Suc.prems have "0 < k" by (cases k) auto
    moreover have "n div b < b ^ k" using Suc.prems by (simp add: less_mult_imp_div_less mult.commute)
    ultimately have "length (digits b (n div b)) \<le> k" using Suc.IH Suc.prems(1) by blast
    then show ?thesis using False Suc.prems(1) by (subst digits.simps) simp
  qed (simp add: digits.simps)
qed simp

lemma digits_head: "2 \<le> b \<Longrightarrow> hd (digits b n) = 0 \<Longrightarrow> n = 0 \<and> digits b n = [0]"
proof (induction b n rule: digits.induct)
  case (1 b n)
  show ?case
  proof (cases "n < b")
    case True
    with 1 show ?thesis by (simp add: digits.simps)
  next
    case False
    then have d: "digits b n = digits b (n div b) @ [n mod b]" using 1(2) by (subst digits.simps) simp
    with 1(3) have "hd (digits b (n div b)) = 0" by simp
    with 1(1) 1(2) False have "n div b = 0" by simp
    with False 1(2) show ?thesis by (simp add: div_eq_0_iff)
  qed
qed

text \<open>The characters of digits.\<close>

lemma digit_chars:
  assumes "d < 16"
  shows "EVUTIL_ISXDIGIT (digit_char d)" "digit_value (digit_char d) = d" "\<not> c_isspace (digit_char d)"
    "digit_char d \<notin> {0, 43, 45, 46, 58, 88, 120}" "EVUTIL_ISDIGIT (digit_char d) \<longleftrightarrow> d < 10" "digit_char d = 48 \<longleftrightarrow> d = 0"
proof -
  have "list_all (\<lambda>d. EVUTIL_ISXDIGIT (digit_char d) \<and> digit_value (digit_char d) = d \<and> \<not> c_isspace (digit_char d)
    \<and> \<not> List.member [0, 43, 45, 46, 58, 88, 120] (digit_char d) \<and> (EVUTIL_ISDIGIT (digit_char d) \<longleftrightarrow> d < 10) \<and> (digit_char d = 48 \<longleftrightarrow> d = 0)) [0..<16]"
    by code_simp
  with assms show "EVUTIL_ISXDIGIT (digit_char d)" "digit_value (digit_char d) = d" "\<not> c_isspace (digit_char d)"
    "digit_char d \<notin> {0, 43, 45, 46, 58, 88, 120}" "EVUTIL_ISDIGIT (digit_char d) \<longleftrightarrow> d < 10" "digit_char d = 48 \<longleftrightarrow> d = 0"
    by (auto simp: list_all_iff)
qed

lemma separators: "\<not> EVUTIL_ISXDIGIT 58" "\<not> EVUTIL_ISXDIGIT 46" "\<not> EVUTIL_ISXDIGIT 0" "\<not> EVUTIL_ISDIGIT 58" "\<not> EVUTIL_ISDIGIT 46" "\<not> EVUTIL_ISDIGIT 0"
  by code_simp+

lemma takeWhile_block: "list_all P xs \<Longrightarrow> rest = [] \<or> \<not> P (hd rest) \<Longrightarrow> takeWhile P (xs @ rest) = xs"
  by (induction xs) (cases rest, auto)+

lemma c_char_hd: "rest = [] \<or> c_char rest = hd rest"
  by (cases rest) auto

text \<open>What follows a printed number.\<close>

definition ends_number :: "byte list \<Rightarrow> bool" where
  "ends_number rest \<longleftrightarrow> rest = [] \<or> hd rest = 58 \<or> hd rest = 46"

lemma print_hex_digits: "list_all (\<lambda>c. EVUTIL_ISXDIGIT c \<and> \<not> c_isspace c \<and> c \<notin> {0, 43, 45, 46, 58, 88, 120}) (print_hex n)"
  using digits_spec [of 16 n] digit_chars by (auto simp: print_hex_def list_all_iff)

lemma print_dec_digits: "list_all (\<lambda>c. EVUTIL_ISDIGIT c \<and> \<not> c_isspace c \<and> c \<notin> {0, 43, 45, 46, 58, 88, 120}) (print_dec n)"
proof -
  have "EVUTIL_ISDIGIT (digit_char d) \<and> \<not> c_isspace (digit_char d) \<and> digit_char d \<notin> {0, 43, 45, 46, 58, 88, 120}" if "d < 10" for d
    using digit_chars [of d] that by simp
  then show ?thesis using digits_spec [of 10 n] by (auto simp: print_dec_def list_all_iff)
qed

lemma print_values: "map digit_value (print_hex n) = digits 16 n" "map digit_value (print_dec n) = digits 10 n"
proof -
  have "digit_value (digit_char d) = d" if "d \<in> set (digits 16 n)" for d using that digits_spec [of 16 n] digit_chars(2) by auto
  then show "map digit_value (print_hex n) = digits 16 n" by (simp add: print_hex_def map_idI)
  have "digit_value (digit_char d) = d" if "d \<in> set (digits 10 n)" for d
    using that digits_spec [of 10 n] digit_chars(2) [of d] by fastforce
  then show "map digit_value (print_dec n) = digits 10 n" by (simp add: print_dec_def map_idI)
qed

lemma print_ne [simp]: "print_hex n \<noteq> []" "print_dec n \<noteq> []"
  by (simp_all add: print_hex_def print_dec_def)

lemma no_prefix:
  assumes "list_all (\<lambda>c. \<not> c_isspace c \<and> c \<notin> {0, 43, 45, 46, 58, 88, 120}) xs" "xs \<noteq> []"
  shows "skip_sign (dropWhile c_isspace (xs @ rest)) = (False, xs @ rest)"
  using assms by (cases xs) (auto simp: skip_sign_def)

lemma strtol16_print:
  assumes n: "n < 65536" and rest: "ends_number rest"
  shows "strtol16 (print_hex n @ rest) = (int n, rest)"
proof -
  let ?x = "print_hex n"
  have d: "list_all EVUTIL_ISXDIGIT ?x" using print_hex_digits by (rule list.pred_mono_strong) auto
  have r: "rest = [] \<or> \<not> EVUTIL_ISXDIGIT (hd rest)" using rest separators by (auto simp: ends_number_def)
  have w: "takeWhile EVUTIL_ISXDIGIT (?x @ rest) = ?x" by (rule takeWhile_block [OF d r])
  have s: "skip_sign (dropWhile c_isspace (?x @ rest)) = (False, ?x @ rest)"
    by (rule no_prefix, rule list.pred_mono_strong [OF print_hex_digits]) auto
  have second: "c_char (tl (?x @ rest)) \<noteq> 120 \<and> c_char (tl (?x @ rest)) \<noteq> 88"
  proof (cases "tl ?x")
    case Nil
    then have "tl (?x @ rest) = rest" by (metis append_Nil print_ne(1) tl_append2)
    then show ?thesis using rest c_char_hd [of rest] by (auto simp: ends_number_def)
  next
    case (Cons c cs)
    then have "c \<in> set ?x" by (metis list.set_intros(1) list.set_sel(2) print_ne(1))
    then have "c \<noteq> 120 \<and> c \<noteq> 88" using print_hex_digits [of n] by (auto simp: list_all_iff)
    moreover have "tl (?x @ rest) = c # cs @ rest" using Cons by (simp add: tl_append2)
    ultimately show ?thesis by simp
  qed
  have "number 16 (map digit_value ?x) = n" using digits_spec [of 16 n] by (simp add: print_values)
  then show ?thesis
    using n second unfolding strtol16_def s by (simp add: w Let_def)
qed

lemma scan_int_print:
  assumes n: "n < 2 ^ 31" and rest: "ends_number rest"
  shows "scan_int (print_dec n @ rest) = Inr (Some (int n, rest))"
proof -
  let ?x = "print_dec n"
  have d: "list_all EVUTIL_ISDIGIT ?x" using print_dec_digits by (rule list.pred_mono_strong) auto
  have r: "rest = [] \<or> \<not> EVUTIL_ISDIGIT (hd rest)" using rest separators by (auto simp: ends_number_def)
  have w: "takeWhile EVUTIL_ISDIGIT (?x @ rest) = ?x" by (rule takeWhile_block [OF d r])
  have s: "skip_sign (dropWhile c_isspace (?x @ rest)) = (False, ?x @ rest)"
    by (rule no_prefix, rule list.pred_mono_strong [OF print_dec_digits]) auto
  have "number 10 (map digit_value ?x) = n" using digits_spec [of 10 n] by (simp add: print_values)
  then show ?thesis using n unfolding scan_int_def s by (simp add: w Let_def)
qed

section \<open>IPv4 addresses\<close>

lemma byte_lt: "unat (b :: byte) < 256"
  using unsigned_less [of b] by simp

lemma scan_dotted_print:
  "scan_dotted 4 (print_dotted a) = Inr (Some [int (unat (a ! 0)), int (unat (a ! 1)), int (unat (a ! 2)), int (unat (a ! 3))])"
proof -
  have lt: "unat (b :: byte) < 2 ^ 31" for b using byte_lt [of b] by simp
  have en: "ends_number (46 # xs)" "ends_number []" for xs by (simp_all add: ends_number_def)
  show ?thesis
    using scan_int_print [OF lt en(1)] scan_int_print [OF lt en(2)]
    by (simp add: print_dotted_def numeral_eq_Suc)
qed

lemma four_bytes: "length a = 4 \<Longrightarrow> a = [a ! 0, a ! 1, a ! 2, a ! 3]"
  by (auto simp: numeral_eq_Suc length_Suc_conv)

lemma inet4_round_trip:
  assumes "length a = 4" "inet_ntop4 a len = Some s"
  shows "inet_pton4 s = Inr (1, Some a)"
proof -
  have s: "s = print_dotted a" using assms(2) by (simp add: inet_ntop4_def split: if_splits)
  have r: "byte_range (int (unat b))" "(of_int (int (unat b)) :: byte) = b" for b :: byte
  proof -
    have "int (unat b) < int 256" by (rule of_nat_less_iff [THEN iffD2, OF byte_lt])
    then show "byte_range (int (unat b))" "(of_int (int (unat b)) :: byte) = b" by (simp_all add: byte_range_def)
  qed
  show ?thesis
    using four_bytes [OF assms(1)] r [simplified] unfolding s inet_pton4_def scan_dotted_print by simp
qed

section \<open>IPv6 addresses\<close>

lemma words_of_bytes: "length a = 16 \<Longrightarrow> bytes_of (words_of a) = a \<and> length (words_of a) = 8"
proof -
  assume a: "length a = 16"
  have w: "ucast (drop_bit 8 (push_bit 8 (ucast h) + ucast l :: 16 word)) = h" "ucast ((push_bit 8 (ucast h) + ucast l :: 16 word) AND 0xff) = l"
    for h l :: byte
  proof -
    have d: "(push_bit 8 (ucast h) + ucast l :: 16 word) = push_bit 8 (ucast h) OR ucast l"
      by (rule disjunctive_add_eq_or, rule bit_word_eqI) (auto simp: bit_simps dest: bit_imp_le_length)
    show "ucast (drop_bit 8 (push_bit 8 (ucast h) + ucast l :: 16 word)) = h"
      unfolding d by (rule bit_word_eqI) (auto simp: bit_simps dest: bit_imp_le_length)
    have m: "(0xff :: 16 word) = mask 8" by (simp add: mask_eq_exp_minus_1)
    show "ucast ((push_bit 8 (ucast h) + ucast l :: 16 word) AND 0xff) = l"
      unfolding d m by (rule bit_word_eqI) (auto simp: bit_simps dest: bit_imp_le_length)
  qed
  have "a = [a ! 0, a ! 1, a ! 2, a ! 3, a ! 4, a ! 5, a ! 6, a ! 7, a ! 8, a ! 9, a ! 10, a ! 11, a ! 12, a ! 13, a ! 14, a ! 15]"
    using a by (intro nth_equalityI) (auto simp: less_Suc_eq nth_Cons' numeral_eq_Suc)
  then show ?thesis by (simp add: bytes_of_def words_of_def w upt_rec)
qed

text \<open>Words with colons, as they are printed.\<close>

definition blocks :: "16 word list \<Rightarrow> byte list" where
  "blocks us = concat (map (\<lambda>w. print_hex (unat w) @ [58]) us)"

definition words_text :: "16 word list \<Rightarrow> byte list" where
  "words_text vs = (if vs = [] then [] else blocks (butlast vs) @ print_hex (unat (last vs)))"

definition store :: "nat \<Rightarrow> 16 word list \<Rightarrow> 16 word list \<Rightarrow> 16 word list" where
  "store i us ws = take i ws @ us @ drop (i + length us) ws"

lemma store_Cons: "i < length ws \<Longrightarrow> store (Suc i) us (ws[i := w]) = store i (w # us) ws"
  by (simp add: store_def take_Suc_conv_app_nth take_update_cancel drop_update_cancel)

lemma length_store [simp]: "i + length us \<le> length ws \<Longrightarrow> length (store i us ws) = length ws"
  by (simp add: store_def)

lemma word_lt: "unat (w :: 16 word) < 65536"
  using unsigned_less [of w] by simp

lemma hex_head: "EVUTIL_ISXDIGIT (c_char (print_hex n @ rest))" "length (print_hex (unat (w :: 16 word))) \<le> 4"
proof -
  show "EVUTIL_ISXDIGIT (c_char (print_hex n @ rest))"
    using print_hex_digits [of n] by (cases "print_hex n") auto
  show "length (print_hex (unat w)) \<le> 4" using digits_length [of 16 "unat w" 4] word_lt [of w] by (simp add: print_hex_def)
qed

text \<open>Reading one word.\<close>

lemma pton_one:
  assumes "i \<le> 7" "ends_number rest" "length eow < length (print_hex (unat w) @ rest)" "c_char rest = 58 \<or> length rest = length eow"
  shows "pton_words (print_hex (unat w) @ rest) eow i gap n ws = pton_words (tl rest) eow (i + 1) gap (n + 1) (ws[i := w])"
proof -
  have s: "strtol16 (print_hex (unat w) @ rest) = (int (unat w), rest)" by (rule strtol16_print [OF word_lt assms(2)])
  have u: "length (print_hex (unat w)) \<noteq> 0" by simp
  have "int (unat w) < int 65536" by (rule of_nat_less_iff [THEN iffD2, OF word_lt])
  then have r: "\<not> int (unat w) > 65536" "(of_int (int (unat w)) :: 16 word) = w" by simp_all
  show ?thesis
    apply (subst pton_words.simps)
    using assms u r hex_head(1) [of "unat w" rest] hex_head(2) [of w] by (auto simp: s Let_def)
qed

lemma pton_blocks:
  "i + length us \<le> 8 \<Longrightarrow> length ws = 8 \<Longrightarrow> length eow \<le> length rest \<Longrightarrow>
   pton_words (blocks us @ rest) eow i gap n ws = pton_words rest eow (i + length us) gap (n + length us) (store i us ws)"
proof (induction us arbitrary: i n ws)
  case (Cons w us)
  have "pton_words (print_hex (unat w) @ 58 # blocks us @ rest) eow i gap n ws =
      pton_words (blocks us @ rest) eow (i + 1) gap (n + 1) (ws[i := w])"
    using Cons.prems by (subst pton_one) (simp_all add: ends_number_def)
  then show ?case using Cons.prems Cons.IH [of "i + 1" "ws[i := w]" "n + 1"] store_Cons [of i ws us w]
    by (simp add: blocks_def)
qed (simp add: blocks_def store_def)

lemma pton_text:
  assumes "i + length vs \<le> 8" "length ws = 8"
  shows "pton_words (words_text vs) [] i gap n ws = Some (gap, n + length vs, store i vs ws)"
proof (cases vs rule: rev_cases)
  case Nil
  then show ?thesis by (simp add: words_text_def pton_words.simps store_def)
next
  case (snoc us w)
  have "pton_words (blocks us @ print_hex (unat w)) [] i gap n ws =
      pton_words (print_hex (unat w)) [] (i + length us) gap (n + length us) (store i us ws)"
    using assms snoc by (intro pton_blocks) simp_all
  also have "\<dots> = pton_words [] [] (i + length us + 1) gap (n + length us + 1) ((store i us ws)[i + length us := w])"
    using assms snoc pton_one [of "i + length us" "[]" "[]" w gap "n + length us" "store i us ws"]
    by (simp add: ends_number_def)
  also have "(store i us ws)[i + length us := w] = store i vs ws"
    using assms snoc by (simp add: store_def list_update_append Cons_nth_drop_Suc [symmetric])
  finally show ?thesis using snoc by (simp add: words_text_def pton_words.simps)
qed

text \<open>What is printed, without a gap and with one at \<open>g\<close>.\<close>

lemma words_text_Cons: "words_text (w # vs) = print_hex (unat w) @ (if vs = [] then [] else [58] @ words_text vs)"
  by (simp add: words_text_def blocks_def)

lemma words_text_Nil [simp]: "words_text [] = []"
  by (simp add: words_text_def)

lemma print_no_gap:
  assumes "length ws = 8" "gap < int i"
  shows "print_words i gap ws = words_text (drop i ws)"
  using assms(2)
proof (induction "8 - i" arbitrary: i)
  case 0
  then show ?case using assms(1) by (simp add: print_words.simps [of i] words_text_def)
next
  case (Suc k)
  then have i: "i < 8" by simp
  have d: "drop i ws = ws ! i # drop (i + 1) ws" using i assms(1) by (simp add: Cons_nth_drop_Suc)
  have "print_words (i + 1) gap ws = words_text (drop (i + 1) ws)" using Suc.hyps(2) Suc.prems by (intro Suc.hyps(1)) simp_all
  then show ?case
    unfolding d words_text_Cons using i Suc.prems assms(1) by (subst print_words.simps) auto
qed

lemma print_gap:
  assumes "length ws = 8" "g < 8" "ws ! g = 0" "i \<le> g"
  shows "print_words i (int g) ws = blocks (take (g - i) (drop i ws)) @ (if g = 0 then [58] else []) @ [58]
    @ words_text (drop (g + zero_run g ws) ws)"
  using assms(4)
proof (induction "g - i" arbitrary: i)
  case 0
  then have i: "i = g" by simp
  have "0 < zero_run g ws" using assms by (simp add: zero_run_def Cons_nth_drop_Suc [symmetric])
  then have "max 1 (zero_run g ws) = zero_run g ws" "int g < int (g + zero_run g ws)" by simp_all
  then show ?case using assms(2,3) print_no_gap [OF assms(1), of "int g" "g + zero_run g ws"] unfolding i
    by (subst print_words.simps) (simp add: blocks_def)
next
  case (Suc k)
  then have i: "i < g" "i < 8" using assms(2) by simp_all
  have "take (g - i) (drop i ws) = ws ! i # take (g - (i + 1)) (drop (i + 1) ws)"
    using i assms(1) by (simp add: Cons_nth_drop_Suc [symmetric] take_Cons' Suc_diff_Suc)
  moreover have "print_words (i + 1) (int g) ws = blocks (take (g - (i + 1)) (drop (i + 1) ws)) @ (if g = 0 then [58] else []) @ [58]
    @ words_text (drop (g + zero_run g ws) ws)"
    using Suc.hyps(2) i by (intro Suc.hyps(1)) simp_all
  ultimately show ?case using i assms(2) by (subst print_words.simps) (simp add: blocks_def)
qed

lemma zero_run_zeros: "take (zero_run g ws) (drop g ws) = replicate (zero_run g ws) 0" "zero_run g ws \<le> length ws - g"
proof -
  have "take (zero_run g ws) (drop g ws) = takeWhile (\<lambda>w. w = 0) (drop g ws)" by (simp add: zero_run_def takeWhile_eq_take [symmetric])
  also have "\<dots> = replicate (zero_run g ws) 0" unfolding zero_run_def
    by (rule replicate_eqI) (auto dest: set_takeWhileD)
  finally show "take (zero_run g ws) (drop g ws) = replicate (zero_run g ws) 0" .
  show "zero_run g ws \<le> length ws - g" using length_takeWhile_le [of "\<lambda>w. w = 0" "drop g ws"] by (simp add: zero_run_def)
qed

text \<open>The position of the gap is that of a zero.\<close>

lemma find_gap_zero:
  assumes "find_gap i lp ll ws = (pos, len)" "lp = -1 \<or> (\<exists>g<8. lp = int g \<and> ws ! g = 0)"
  shows "pos = -1 \<or> (\<exists>g<8. pos = int g \<and> ws ! g = 0)"
  using assms
proof (induction i lp ll ws rule: find_gap.induct)
  case (1 i lp ll ws)
  note f = 1(4) [unfolded find_gap.simps [of i lp ll ws] Let_def]
  consider "\<not> i < 8" | "i < 8" "ws ! i \<noteq> 0" | "i < 8" "ws ! i = 0" "max 1 (zero_run i ws) > ll"
    | "i < 8" "ws ! i = 0" "\<not> max 1 (zero_run i ws) > ll" by blast
  then show ?case
  proof cases
    case 1
    with f "1.prems"(2) show ?thesis by simp
  next
    case 2
    with f "1.IH"(3) "1.prems"(2) show ?thesis by simp
  next
    case 3
    with f have "find_gap (i + max 1 (zero_run i ws)) (int i) (max 1 (zero_run i ws)) ws = (pos, len)" by simp
    from "1.IH"(1) [OF 3(1,2) refl 3(3) this] 3 show ?thesis by blast
  next
    case 4
    with f have "find_gap (i + max 1 (zero_run i ws)) lp ll ws = (pos, len)" by simp
    from "1.IH"(2) [OF 4(1,2) refl 4(3) this] "1.prems"(2) show ?thesis by blast
  qed
qed

lemma no_dots: "46 \<notin> set (print_hex n)" "46 \<notin> set (print_dec n)" "46 \<notin> set (blocks us)" "46 \<notin> set (words_text vs)"
  using print_hex_digits print_dec_digits by (auto simp: list_all_iff blocks_def words_text_def)

lemma no_dot_takeWhile: "46 \<notin> set s \<Longrightarrow> takeWhile (\<lambda>c. c \<noteq> 46) s = s"
  by (auto simp: takeWhile_eq_all_conv)

lemma open_gap_opens:
  "length us = g \<Longrightarrow> length junk = r \<Longrightarrow> open_gap g (length vs) r (us @ vs @ junk @ rest) = us @ replicate r 0 @ vs @ rest"
  by (simp add: open_gap_def Let_def)

text \<open>A string of words with or without a gap is read back.\<close>

lemma pton_printed_words:
  assumes "length ws = 8" "length ws0 = 8" "gap = -1 \<or> (\<exists>g<8. gap = int g \<and> ws ! g = 0)"
  shows "inet_pton6 ws0 (print_words 0 gap ws) = Inr (1, Some (bytes_of ws))"
proof (cases "gap = -1")
  case True
  then have p: "print_words 0 gap ws = words_text ws" using print_no_gap [OF assms(1), of gap 0] by simp
  have "pton_words (words_text ws) [] 0 (-1) 0 ws0 = Some (-1, 8, ws)"
    using pton_text [of 0 ws ws0 "-1" 0] assms by (simp add: store_def)
  then show ?thesis unfolding p inet_pton6_def Let_def no_dot_takeWhile [OF no_dots(4)] by simp
next
  case False
  then obtain g where g: "g < 8" "gap = int g" "ws ! g = 0" using assms(3) by blast
  define r us vs where "r = zero_run g ws" and "us = take g ws" and "vs = drop (g + r) ws"
  have us: "length us = g" using g(1) assms(1) by (simp add: us_def)
  have r0: "0 < r" using g assms(1) by (simp add: r_def zero_run_def Cons_nth_drop_Suc [symmetric])
  have r8: "g + r \<le> 8" using zero_run_zeros(2) [of g ws] g(1) assms(1) by (simp add: r_def)
  have vs: "length vs = 8 - (g + r)" using assms(1) by (simp add: vs_def)
  have ws: "ws = us @ replicate r 0 @ vs"
  proof -
    have "ws = us @ take r (drop g ws) @ drop r (drop g ws)" unfolding us_def by (simp only: append_take_drop_id)
    also have "take r (drop g ws) = replicate r 0" unfolding r_def by (rule zero_run_zeros)
    finally show ?thesis by (simp add: vs_def add.commute)
  qed
  have p: "print_words 0 gap ws = blocks us @ (if g = 0 then [58] else []) @ [58] @ words_text vs"
    using print_gap [OF assms(1) g(1,3), of 0] g(2) by (simp add: us_def vs_def r_def)
  define W where "W = store g vs (store 0 us ws0)"
  have "pton_words (blocks us @ (if g = 0 then [58] else []) @ [58] @ words_text vs) [] 0 (-1) 0 ws0 =
      pton_words ((if g = 0 then [58] else []) @ [58] @ words_text vs) [] g (-1) g (store 0 us ws0)"
    using us g(1) assms(2) by (subst pton_blocks) simp_all
  also have "\<dots> = pton_words (words_text vs) [] g (int g) g (store 0 us ws0)"
    using g(1) separators(1) by (cases "g = 0") (subst pton_words.simps, simp)+
  also have "\<dots> = Some (int g, g + length vs, W)"
    using us vs r8 assms(2) by (simp add: pton_text W_def)
  finally have run: "pton_words (blocks us @ (if g = 0 then [58] else []) @ [58] @ words_text vs) [] 0 (-1) 0 ws0 = Some (int g, g + length vs, W)" .
  have "W = us @ vs @ drop (g + length vs) ws0" using us vs r8 assms(2) by (simp add: W_def store_def)
  moreover have "length (drop (g + length vs) ws0) = r" using vs r8 assms(2) by simp
  ultimately have og: "open_gap g (length vs) r W = ws" unfolding ws using open_gap_opens [of us g "drop (g + length vs) ws0" r vs "[]"] us by simp
  have "takeWhile (\<lambda>c. c \<noteq> 46) (blocks us @ (if g = 0 then [58] else []) @ [58] @ words_text vs)
      = blocks us @ (if g = 0 then [58] else []) @ [58] @ words_text vs"
    by (rule no_dot_takeWhile) (auto simp: no_dots)
  moreover have "8 - (g + length vs) = r" "\<not> 8 \<le> g + length vs" using vs r8 r0 by simp_all
  ultimately show ?thesis
    unfolding p inet_pton6_def Let_def using run og by simp
qed

text \<open>A string with an IPv4 address at the end.\<close>

lemma rev_digits_before:
  assumes "pre = [] \<or> \<not> EVUTIL_ISDIGIT (last pre)"
  shows "takeWhile EVUTIL_ISDIGIT (rev (pre @ print_dec n)) = rev (print_dec n)"
proof -
  have "list_all EVUTIL_ISDIGIT (rev (print_dec n))"
    using print_dec_digits [of n] by (auto simp: list_all_iff)
  then show ?thesis using assms by (simp add: takeWhile_block hd_rev)
qed

lemma print_dotted_split: "print_dotted q = print_dec (unat (q ! 0)) @ 46 # drop (length (print_dec (unat (q ! 0))) + 1) (print_dotted q)"
  by (simp add: print_dotted_def)

lemma pton_printed_dotted:
  assumes ws0: "length ws0 = 8" and us: "length us \<le> 5" and q: "length q = 4"
  shows "inet_pton6 ws0 ([58, 58] @ blocks us @ print_dotted q) = Inr (1, Some (bytes_of (replicate (6 - length us) 0 @ us
    @ [of_int (int (unat (q ! 0)) * 256 + int (unat (q ! 1))), of_int (int (unat (q ! 2)) * 256 + int (unat (q ! 3)))])))"
proof -
  let ?src = "[58, 58] @ blocks us @ print_dotted q" and ?eow = "print_dotted q"
  let ?p = "58 # 58 # blocks us" and ?x = "print_dec (unat (q ! 0))"
  let ?w6 = "of_int (int (unat (q ! 0)) * 256 + int (unat (q ! 1))) :: 16 word"
  let ?w7 = "of_int (int (unat (q ! 2)) * 256 + int (unat (q ! 3))) :: 16 word"
  define ws where "ws = ws0[6 := ?w6, 7 := ?w7]"
  have src: "?src = (?p @ ?x) @ 46 # drop (length ?x + 1) ?eow" by (subst print_dotted_split) simp
  have "takeWhile (\<lambda>c. c \<noteq> 46) ((?p @ ?x) @ 46 # drop (length ?x + 1) ?eow) = ?p @ ?x"
    by (subst takeWhile_append2) (auto simp: no_dots dest: no_dots [THEN notE, rotated])
  then have pre: "takeWhile (\<lambda>c. c \<noteq> 46) ?src = ?p @ ?x" using src by simp
  have last: "last (58 # 58 # blocks us) = (58 :: byte)"
    by (cases us rule: rev_cases) (simp_all add: blocks_def)
  then have tw: "takeWhile EVUTIL_ISDIGIT (rev (?p @ ?x)) = rev ?x"
    by (intro rev_digits_before) (simp add: separators del: last.simps)
  have dot: "?p @ ?x \<noteq> ?src" unfolding src by (simp only: self_append_conv list.distinct simp_thms)
  have eow: "drop (length (?p @ ?x) - length (rev ?x)) ?src = ?eow" by simp
  have byte: "byte_range (uint b)" for b :: byte
    using unsigned_less [where 'a = int, of b] by (simp add: byte_range_def)
  have "pton_words ?src ?eow 0 (-1) 2 ws = pton_words (blocks us @ ?eow) ?eow 0 0 2 ws"
    by (subst pton_words.simps) (simp add: separators)
  also have "\<dots> = pton_words ?eow ?eow (length us) 0 (2 + length us) (store 0 us ws)"
    using us ws0 by (subst pton_blocks) (simp_all add: ws_def)
  also have "\<dots> = Some (0, 2 + length us, store 0 us ws)" by (simp add: pton_words.simps)
  finally have run: "pton_words ?src ?eow 0 (-1) 2 ws = Some (0, 2 + length us, store 0 us ws)" .
  have "ws = take 6 ws0 @ [?w6, ?w7]"
  proof -
    have "drop 6 ws0 = [ws0 ! 6, ws0 ! 7]" using ws0 by (simp add: Cons_nth_drop_Suc [symmetric])
    then obtain x y where "ws0 = take 6 ws0 @ [x, y]" by (metis append_take_drop_id)
    moreover have "(take 6 ws0 @ [x, y])[6 := ?w6, 7 := ?w7] = take 6 ws0 @ [?w6, ?w7]"
      using ws0 by (simp add: list_update_append)
    ultimately show ?thesis unfolding ws_def by metis
  qed
  then have "store 0 us ws = [] @ us @ drop (length us) (take 6 ws0) @ [?w6, ?w7]"
    using us ws0 by (simp add: store_def)
  then have og: "open_gap 0 (length us) (6 - length us) (store 0 us ws) = replicate (6 - length us) 0 @ us @ [?w6, ?w7]"
    using open_gap_opens [of "[]" 0 "drop (length us) (take 6 ws0)" "6 - length us" us "[?w6, ?w7]"] us ws0 by simp
  show ?thesis
    using run og us byte dot unfolding inet_pton6_def Let_def pre tw eow ws_def
    by (simp add: scan_dotted_print)
qed

lemma words_of_nth: "i < 8 \<Longrightarrow> words_of a ! i = push_bit 8 (ucast (a ! (2 * i))) + ucast (a ! (2 * i + 1))"
  by (simp add: words_of_def)

lemma word_of_two: "of_int (int (unat h) * 256 + int (unat l)) = push_bit 8 (ucast h) + (ucast l :: 16 word)" for h l :: byte
  by (simp add: push_bit_eq_mult unsigned_ucast_eq mult.commute)

lemma print_ipv6_read:
  assumes a: "length a = 16" and ws0: "length ws0 = 8"
  shows "inet_pton6 ws0 (print_ipv6 a) = Inr (1, Some a)"
proof -
  let ?ws = "words_of a"
  have b: "bytes_of ?ws = a" and l: "length ?ws = 8" using words_of_bytes [OF a] by simp_all
  let ?v4 = "?ws ! 0 = 0 \<and> ?ws ! 1 = 0 \<and> ?ws ! 2 = 0 \<and> ?ws ! 3 = 0 \<and> ?ws ! 4 = 0
    \<and> (?ws ! 5 = 0 \<and> ?ws ! 6 \<noteq> 0 \<and> ?ws ! 7 \<noteq> 0 \<or> ?ws ! 5 = 0xffff)"
  show ?thesis
  proof (cases ?v4)
    case True
    define us where "us = (if ?ws ! 5 = 0 then [] else [?ws ! 5])"
    have p: "print_ipv6 a = [58, 58] @ blocks us @ print_dotted (drop 12 a)"
      using True by (simp add: print_ipv6_def Let_def us_def blocks_def)
    have e: "?ws = [?ws ! 0, ?ws ! 1, ?ws ! 2, ?ws ! 3, ?ws ! 4, ?ws ! 5, ?ws ! 6, ?ws ! 7]"
      using l by (auto simp: numeral_eq_Suc length_Suc_conv)
    have "replicate (6 - length us) 0 @ us @ [?ws ! 6, ?ws ! 7] = ?ws"
    proof -
      have "replicate (6 - length us) 0 @ us @ [x, y] = [0, 0, 0, 0, 0, ?ws ! 5, x, y]" for x y
        by (simp add: us_def numeral_eq_Suc)
      also have "[0, 0, 0, 0, 0, ?ws ! 5, ?ws ! 6, ?ws ! 7] = ?ws" using e True by metis
      finally show ?thesis .
    qed
    moreover have "of_int (int (unat (drop 12 a ! 0)) * 256 + int (unat (drop 12 a ! 1))) = ?ws ! 6"
      "of_int (int (unat (drop 12 a ! 2)) * 256 + int (unat (drop 12 a ! 3))) = ?ws ! 7"
      unfolding word_of_two using a by (simp_all add: words_of_nth)
    ultimately show ?thesis
      unfolding p using pton_printed_dotted [OF ws0, of us "drop 12 a"] a b by (simp add: us_def split: if_splits)
  next
    case False
    obtain pos len where f: "find_gap 0 (-1) 0 ?ws = (pos, len)" by (metis surj_pair)
    have "pos = -1 \<or> (\<exists>g<8. pos = int g \<and> ?ws ! g = 0)" by (rule find_gap_zero [OF f]) simp
    then have "inet_pton6 ws0 (print_words 0 (if len \<le> 1 then -1 else pos) ?ws) = Inr (1, Some (bytes_of ?ws))"
      by (intro pton_printed_words [OF l ws0]) auto
    moreover have "print_ipv6 a = print_words 0 (if len \<le> 1 then -1 else pos) ?ws"
      unfolding print_ipv6_def Let_def if_not_P [OF False] f by simp
    ultimately show ?thesis using b by simp
  qed
qed

lemma inet6_round_trip:
  assumes "length a = 16" "length ws0 = 8" "inet_ntop6 a len = Some s" "length (print_ipv6 a) < len"
  shows "inet_pton6 ws0 s = Inr (1, Some a)"
  using print_ipv6_read [OF assms(1,2)] assms(3,4) by (auto simp: inet_ntop6_def)

end
