(* ===== verification/Evutil_Sockaddr.thy ===== *)
theory Evutil_Sockaddr
  imports Evutil_Addr
begin

text \<open>
  Socket addresses in \<open>evutil.c\<close>: parsing and printing an address with its port, comparison, and whether an address is
  that of this machine. The fields hold what is in memory: a port is the 16-bit word of its field, whose bytes are
  in network order, on a little-endian machine; an address is its bytes. What is printed is parsed as the address it was
  printed from, and the comparison is an order.
\<close>

unbundle bit_operations_syntax

text \<open>\<open>struct sockaddr_in\<close>; \<open>struct sockaddr_in6\<close> with its flow information and scope; any other, by its family.\<close>

datatype sockaddr = sockaddr_in "16 word" "byte list" | sockaddr_in6 "16 word" "32 word" "byte list" "32 word" | sockaddr_other nat

definition AF_INET :: nat where "AF_INET = 2"
definition AF_INET6 :: nat where "AF_INET6 = 23"

fun sa_family :: "sockaddr \<Rightarrow> nat" where
  "sa_family (sockaddr_in _ _) = AF_INET"
| "sa_family (sockaddr_in6 _ _ _ _) = AF_INET6"
| "sa_family (sockaddr_other n) = n"

fun sockaddr_size :: "sockaddr \<Rightarrow> int" where
  "sockaddr_size (sockaddr_in _ _) = 16"
| "sockaddr_size (sockaddr_in6 _ _ _ _) = 28"
| "sockaddr_size (sockaddr_other _) = 16"

text \<open>\<open>htons\<close>, which is \<open>ntohs\<close> too.\<close>

definition htons :: "16 word \<Rightarrow> 16 word" where
  "htons w = push_bit 8 w OR drop_bit 8 w"

text \<open>\<open>atoi\<close>; a value that does not fit is undefined.\<close>

definition c_atoi :: "byte list \<Rightarrow> int exec" where
  "c_atoi s = bindE (scan_int s) (\<lambda>r. Inr (case r of None \<Rightarrow> 0 | Some (v, _) \<Rightarrow> v))"

section \<open>Parsing\<close>

text \<open>The first part: whether it is IPv6, the address and the port, as strings. \<open>None\<close>: -1 is returned.\<close>

definition split_sockaddr_port :: "byte list \<Rightarrow> (bool \<times> byte list \<times> byte list option) option" where
  "split_sockaddr_port ip_as_string =
     (let cp = dropWhile (\<lambda>c. c \<noteq> 58) ip_as_string
      in if c_char ip_as_string = 91
         then let cp = dropWhile (\<lambda>c. c \<noteq> 93) ip_as_string; buf = takeWhile (\<lambda>c. c \<noteq> 93) (tl ip_as_string)
              in if cp = [] \<or> length buf > 127 then None
                 else Some (True, buf, if c_char (tl cp) = 58 then Some (tl (tl cp)) else None)
         else if cp \<noteq> [] \<and> 58 \<in> set (tl cp) then Some (True, ip_as_string, None)
         else if cp \<noteq> []
         then let buf = takeWhile (\<lambda>c. c \<noteq> 58) ip_as_string
              in if length buf > 127 then None else Some (False, buf, Some (tl cp))
         else Some (False, ip_as_string, None))"

text \<open>\<open>ws\<close> is what the array \<open>words\<close> of \<open>evutil_inet_pton\<close> holds. The result comes with what is stored through the pointers.\<close>

definition evutil_parse_sockaddr_port :: "16 word list \<Rightarrow> byte list \<Rightarrow> int \<Rightarrow> (int \<times> (sockaddr \<times> int) option) exec" where
  "evutil_parse_sockaddr_port ws ip_as_string outlen =
     (case split_sockaddr_port ip_as_string of
        None \<Rightarrow> Inr (-1, None)
      | Some (is_ipv6, addr_part, port_part) \<Rightarrow>
          bindE (case port_part of None \<Rightarrow> Inr 0 | Some p \<Rightarrow> c_atoi p) (\<lambda>port.
          if port_part \<noteq> None \<and> (port \<le> 0 \<or> port > 65535) then Inr (-1, None)
          else if is_ipv6
          then bindE (inet_pton6 ws addr_part) (\<lambda>r.
               case r of
                 (r, a) \<Rightarrow>
                   if r \<noteq> 1 \<or> 28 > outlen then Inr (-1, None)
                   else Inr (0, map_option (\<lambda>a. (sockaddr_in6 (htons (of_int port)) 0 a 0, 28)) a))
          else bindE (inet_pton4 addr_part) (\<lambda>r.
               case r of
                 (r, a) \<Rightarrow>
                   if r \<noteq> 1 \<or> 16 > outlen then Inr (-1, None)
                   else Inr (0, map_option (\<lambda>a. (sockaddr_in (htons (of_int port)) a, 16)) a))))"

section \<open>Printing\<close>

text \<open>\<open><addr with socktype %d>\<close>.\<close>

definition socktype_text :: "nat \<Rightarrow> byte list" where
  "socktype_text family =
     [60, 97, 100, 100, 114, 32, 119, 105, 116, 104, 32, 115, 111, 99, 107, 116, 121, 112, 101, 32] @ print_dec family @ [62]"

text \<open>The string that \<open>out\<close> holds at the end.\<close>

definition evutil_format_sockaddr_port :: "sockaddr \<Rightarrow> nat \<Rightarrow> byte list" where
  "evutil_format_sockaddr_port sa outlen =
     take (outlen - 1)
      (case sa of
         sockaddr_in sin_port sin_addr \<Rightarrow>
           (case inet_ntop4 sin_addr 128 of
              Some b \<Rightarrow> b @ [58] @ print_dec (unat (htons sin_port))
            | None \<Rightarrow> socktype_text AF_INET)
       | sockaddr_in6 sin6_port _ sin6_addr _ \<Rightarrow>
           (case inet_ntop6 sin6_addr 128 of
              Some b \<Rightarrow> [91] @ b @ [93, 58] @ print_dec (unat (htons sin6_port))
            | None \<Rightarrow> socktype_text AF_INET6)
       | sockaddr_other family \<Rightarrow> socktype_text family)"

section \<open>Comparing\<close>

text \<open>The field \<open>s_addr\<close> of an IPv4 address, as the machine reads it.\<close>

definition s_addr :: "byte list \<Rightarrow> nat" where
  "s_addr a = unat (a ! 0) + 256 * (unat (a ! 1) + 256 * (unat (a ! 2) + 256 * unat (a ! 3)))"

fun evutil_sockaddr_cmp :: "sockaddr \<Rightarrow> sockaddr \<Rightarrow> bool \<Rightarrow> int" where
  "evutil_sockaddr_cmp (sockaddr_in port1 addr1) (sockaddr_in port2 addr2) include_port =
     (if s_addr addr1 < s_addr addr2 then -1
      else if s_addr addr1 > s_addr addr2 then 1
      else if include_port then int (unat port1) - int (unat port2) else 0)"
| "evutil_sockaddr_cmp (sockaddr_in6 port1 _ addr1 _) (sockaddr_in6 port2 _ addr2 _) include_port =
     (let r = memcmp addr1 addr2
      in if r \<noteq> 0 then r else if include_port then int (unat port1) - int (unat port2) else 0)"
| "evutil_sockaddr_cmp sa1 sa2 include_port =
     (let r = int (sa_family sa1) - int (sa_family sa2) in if r \<noteq> 0 then r else 1)"

definition LOOPBACK_S6 :: "byte list" where
  "LOOPBACK_S6 = replicate 15 0 @ [1]"

definition evutil_sockaddr_is_loopback :: "sockaddr \<Rightarrow> bool" where
  "evutil_sockaddr_is_loopback addr =
     (case addr of
        sockaddr_in _ a \<Rightarrow>
          ((push_bit 24 (ucast (a ! 0)) OR push_bit 16 (ucast (a ! 1)) OR push_bit 8 (ucast (a ! 2)) OR ucast (a ! 3)) AND 0xff000000 :: 32 word)
            = 0x7f000000
      | sockaddr_in6 _ _ a _ \<Rightarrow> memcmp a LOOPBACK_S6 = 0
      | sockaddr_other _ \<Rightarrow> False)"

section \<open>What is printed\<close>

definition addr_char :: "byte \<Rightarrow> bool" where
  "addr_char c \<longleftrightarrow> EVUTIL_ISXDIGIT c \<or> c = 58 \<or> c = 46"

lemma addr_char_not [simp]: "\<not> addr_char 91" "\<not> addr_char 93" "addr_char 58" "addr_char 46"
  by (simp_all add: addr_char_def) code_simp+

lemma print_chars: "list_all addr_char (print_hex n)" "list_all addr_char (print_dec n)"
proof -
  show "list_all addr_char (print_hex n)" using print_hex_digits by (rule list.pred_mono_strong) (simp add: addr_char_def)
  have "addr_char (digit_char d)" if "d < 10" for d using digit_chars(1) [of d] that by (simp add: addr_char_def)
  then show "list_all addr_char (print_dec n)" using digits_spec [of 10 n] by (auto simp: print_dec_def list_all_iff)
qed

lemma print_dotted_chars: "list_all addr_char (print_dotted a)"
  by (simp add: print_dotted_def print_chars)

lemma print_words_chars: "list_all addr_char (print_words i pos ws)"
proof (induction i pos ws rule: print_words.induct)
  case (1 i pos ws)
  then show ?case by (subst print_words.simps) (auto simp: print_chars)
qed

lemma print_ipv6_chars: "list_all addr_char (print_ipv6 a)"
  by (simp add: print_ipv6_def Let_def print_chars print_dotted_chars print_words_chars split: prod.split)

text \<open>How long the strings are: the buffers of 64 and 128 bytes are large enough.\<close>

lemma print_dec_byte: "length (print_dec (unat (b :: byte))) \<le> 3"
  using digits_length [of 10 "unat b" 3] byte_lt [of b] by (simp add: print_dec_def)

lemma print_dotted_length: "length (print_dotted a) \<le> 15"
  using print_dec_byte [of "a ! 0"] print_dec_byte [of "a ! 1"] print_dec_byte [of "a ! 2"] print_dec_byte [of "a ! 3"]
  by (simp add: print_dotted_def)

lemma print_words_length: "length (print_words i pos ws) \<le> 5 * (8 - i)"
proof (induction i pos ws rule: print_words.induct)
  case (1 i pos ws)
  consider "8 \<le> i" | "i < 8" "ws ! i = 0 \<and> pos = int i" | "i < 8" "\<not> (ws ! i = 0 \<and> pos = int i)" by linarith
  then show ?case
  proof cases
    case 1
    then show ?thesis by (simp add: print_words.simps)
  next
    case 2
    define m where "m = max 1 (zero_run i ws)"
    have "length (print_words (i + m) pos ws) \<le> 5 * (8 - (i + m))" unfolding m_def using 2 by (intro "1.IH"(1)) simp_all
    moreover have "1 \<le> m" by (simp add: m_def)
    moreover have "print_words i pos ws = (if i = 0 then [58] else []) @ [58] @ print_words (i + m) pos ws"
      unfolding m_def using 2 by (subst print_words.simps) simp
    then have "length (print_words i pos ws) \<le> 2 + length (print_words (i + m) pos ws)" by simp
    ultimately show ?thesis using 2 by linarith
  next
    case 3
    have "length (print_words (i + 1) pos ws) \<le> 5 * (8 - (i + 1))" using 3 by (intro "1.IH"(2)) simp_all
    then show ?thesis using 3 hex_head(2) [of "ws ! i"] by (subst print_words.simps) auto
  qed
qed

lemma print_ipv6_length: "length (print_ipv6 a) \<le> 40"
proof -
  obtain pos len where f: "find_gap 0 (-1) 0 (words_of a) = (pos, len)" by (metis surj_pair)
  show ?thesis
    using print_dotted_length [of "drop 12 a"] hex_head(2) [of "words_of a ! 5"]
      print_words_length [of 0 "if len \<le> 1 then -1 else pos" "words_of a"]
    by (auto simp: print_ipv6_def Let_def f)
qed

lemma print_port: "c_atoi (print_dec (unat (w :: 16 word))) = Inr (int (unat w))" "length (print_dec (unat w)) \<le> 5"
proof -
  show "c_atoi (print_dec (unat w)) = Inr (int (unat w))"
    using scan_int_print [of "unat w" "[]"] word_lt [of w] by (simp add: c_atoi_def ends_number_def)
  show "length (print_dec (unat w)) \<le> 5" using digits_length [of 10 "unat w" 5] word_lt [of w] by (simp add: print_dec_def)
qed

lemma htons_htons: "htons (htons w) = w"
  unfolding htons_def by (rule bit_word_eqI) (auto simp: bit_simps dest: bit_imp_le_length)

lemma htons_0: "htons w = 0 \<longleftrightarrow> w = 0"
  using htons_htons [of w] by (metis and_zero_eq drop_bit_of_0 htons_def or.right_neutral push_bit_of_0)

section \<open>Round trip\<close>

definition sockaddr_ok :: "sockaddr \<Rightarrow> bool" where
  "sockaddr_ok sa = (case sa of sockaddr_in _ a \<Rightarrow> length a = 4 | sockaddr_in6 _ _ a _ \<Rightarrow> length a = 16 | sockaddr_other _ \<Rightarrow> False)"

text \<open>What the text has: no flow information and no scope, and a port other than 0.\<close>

definition sockaddr_plain :: "sockaddr \<Rightarrow> bool" where
  "sockaddr_plain sa \<longleftrightarrow> sockaddr_ok sa \<and>
     (case sa of sockaddr_in p _ \<Rightarrow> p \<noteq> 0 | sockaddr_in6 p f _ s \<Rightarrow> p \<noteq> 0 \<and> f = 0 \<and> s = 0 | sockaddr_other _ \<Rightarrow> False)"

lemma chars_before:
  assumes "list_all addr_char xs" "\<not> addr_char c"
  shows "takeWhile (\<lambda>x. x \<noteq> c) (xs @ c # rest) = xs" "dropWhile (\<lambda>x. x \<noteq> c) (xs @ c # rest) = c # rest"
proof -
  have "\<forall>x\<in>set xs. x \<noteq> c" using assms by (auto simp: list_all_iff)
  then show "takeWhile (\<lambda>x. x \<noteq> c) (xs @ c # rest) = xs" "dropWhile (\<lambda>x. x \<noteq> c) (xs @ c # rest) = c # rest"
    by (simp_all add: takeWhile_append2 dropWhile_append2)
qed

lemma no_colon: "58 \<notin> set (print_dec n)" "58 \<notin> set (print_dotted a)"
  using print_dec_digits by (auto simp: list_all_iff print_dotted_def)

lemma split_dotted:
  "split_sockaddr_port (print_dotted a @ [58] @ print_dec n) = Some (False, print_dotted a, Some (print_dec n))"
proof -
  have "print_dotted a \<noteq> []" by (simp add: print_dotted_def)
  then have "c_char (print_dotted a @ xs) \<noteq> 91" for xs
    using print_dotted_chars [of a] by (cases "print_dotted a") auto
  moreover have "\<forall>x\<in>set (print_dotted a). x \<noteq> 58" using no_colon by auto
  then have "takeWhile (\<lambda>x. x \<noteq> 58) (print_dotted a @ 58 # print_dec n) = print_dotted a"
    "dropWhile (\<lambda>x. x \<noteq> 58) (print_dotted a @ 58 # print_dec n) = 58 # print_dec n"
    by (simp_all add: takeWhile_append2 dropWhile_append2)
  ultimately show ?thesis using no_colon print_dotted_length [of a] by (simp add: split_sockaddr_port_def Let_def)
qed

lemma split_bracket:
  assumes "list_all addr_char s" "length s \<le> 127"
  shows "split_sockaddr_port ([91] @ s @ [93, 58] @ rest) = Some (True, s, Some rest)"
  using assms chars_before [OF assms(1), of 93 "58 # rest"] by (simp add: split_sockaddr_port_def Let_def)

lemma port_range:
  assumes "p \<noteq> (0 :: 16 word)"
  shows "\<not> (int (unat (htons p)) \<le> 0 \<or> int (unat (htons p)) > 65535)" "htons (of_int (int (unat (htons p)))) = p"
proof -
  have "int (unat (htons p)) < int 65536" by (rule of_nat_less_iff [THEN iffD2, OF word_lt])
  moreover have "0 < unat (htons p)" using assms htons_0 [of p] by (simp add: unat_gt_0)
  ultimately show "\<not> (int (unat (htons p)) \<le> 0 \<or> int (unat (htons p)) > 65535)" by linarith
  show "htons (of_int (int (unat (htons p)))) = p" by (simp add: htons_htons)
qed

text \<open>
  C38: an address printed by \<open>evutil_format_sockaddr_port\<close> with enough room is parsed by \<open>evutil_parse_sockaddr_port\<close>
  as the address it was, IPv4 or IPv6, whatever the stack holds, when its port is not 0 and it has neither flow information nor scope.
\<close>

theorem sockaddr_round_trip:
  assumes sa: "sockaddr_plain sa" and ws: "length ws = 8" and room: "64 \<le> outlen" "sockaddr_size sa \<le> cap"
  shows "evutil_parse_sockaddr_port ws (evutil_format_sockaddr_port sa outlen) cap = Inr (0, Some (sa, sockaddr_size sa))"
proof (cases sa)
  case (sockaddr_in p a)
  then have a: "length a = 4" and p: "p \<noteq> 0" using sa by (simp_all add: sockaddr_plain_def sockaddr_ok_def)
  have i: "inet_ntop4 a 128 = Some (print_dotted a)" using print_dotted_length [of a] by (simp add: inet_ntop4_def)
  have f: "evutil_format_sockaddr_port sa outlen = print_dotted a @ [58] @ print_dec (unat (htons p))"
    using print_dotted_length [of a] print_port(2) [of "htons p"] room by (simp add: evutil_format_sockaddr_port_def sockaddr_in i)
  show ?thesis
    unfolding f evutil_parse_sockaddr_port_def split_dotted
    using inet4_round_trip [OF a i] port_range [OF p] room sockaddr_in by (simp add: print_port(1) del: of_int_of_nat_eq)
next
  case (sockaddr_in6 p fl a sc)
  then have a: "length a = 16" and p: "p \<noteq> 0" "fl = 0" "sc = 0" using sa by (simp_all add: sockaddr_plain_def sockaddr_ok_def)
  have i: "inet_ntop6 a 128 = Some (print_ipv6 a)" using print_ipv6_length [of a] by (simp add: inet_ntop6_def)
  have f: "evutil_format_sockaddr_port sa outlen = [91] @ print_ipv6 a @ [93, 58] @ print_dec (unat (htons p))"
    using print_ipv6_length [of a] print_port(2) [of "htons p"] room by (simp add: evutil_format_sockaddr_port_def sockaddr_in6 i)
  have s: "split_sockaddr_port ([91] @ print_ipv6 a @ [93, 58] @ xs) = Some (True, print_ipv6 a, Some xs)" for xs
    using print_ipv6_length [of a] by (intro split_bracket print_ipv6_chars) simp
  show ?thesis
    unfolding f evutil_parse_sockaddr_port_def s
    using print_ipv6_read [OF a ws] port_range [OF p(1)] p room sockaddr_in6 by (simp add: print_port(1) del: of_int_of_nat_eq)
qed (use sa in \<open>simp add: sockaddr_plain_def\<close>)

theorem sockaddr_round_trip_witness:
  "evutil_parse_sockaddr_port (replicate 8 0)
     (evutil_format_sockaddr_port (sockaddr_in6 (htons 80) 0 ([32, 1, 13, 184] @ replicate 11 0 @ [1]) 0) 64) 28
   = Inr (0, Some (sockaddr_in6 (htons 80) 0 ([32, 1, 13, 184] @ replicate 11 0 @ [1]) 0, 28))"
  using sockaddr_round_trip [of "sockaddr_in6 (htons 80) 0 ([32, 1, 13, 184] @ replicate 11 0 @ [1]) 0" "replicate 8 0" 64 28]
  by (simp add: sockaddr_plain_def sockaddr_ok_def htons_0)

text \<open>
  A string exactly as long as the room is cut instead of refused: printed into three bytes, the address \<open>::1\<close> becomes \<open>::\<close>,
  another address.
\<close>

lemma ntop_cuts: "inet_ntop6 LOOPBACK_S6 3 = Some [58, 58]" "inet_pton6 (replicate 8 0) [58, 58] = Inr (1, Some (replicate 16 0))"
  by code_simp+

text \<open>\<open>evutil_inet_pton\<close> also accepts a colon behind the last word, and the prefix of \<open>strtol\<close>: \<open>1:1:1:1:1:1:1:1:\<close> and \<open>0x1::\<close>.\<close>

lemma pton_is_lax:
  "inet_pton6 (replicate 8 0) (concat (replicate 8 [49, 58])) = Inr (1, Some (concat (replicate 8 [0, 1])))"
  "inet_pton6 (replicate 8 0) [48, 120, 49, 58, 58] = Inr (1, Some ([0, 1] @ replicate 14 0))"
  by code_simp+

section \<open>The order of addresses\<close>

text \<open>Numbers whose higher part decides.\<close>

lemma sgn_higher:
  assumes "0 \<le> a" "a < B" "0 \<le> b" "b < (B :: int)"
  shows "sgn ((x * B + a) - (y * B + b)) = (if x = y then sgn (a - b) else sgn (x - y))"
proof -
  have "x' * B + a' < y' * B + b'" if "x' < y'" "a' < B" "0 \<le> b'" for x' y' a' b'
  proof -
    have "(x' + 1) * B \<le> y' * B" using that assms by (intro mult_right_mono) simp_all
    then show ?thesis using that by (simp add: distrib_right)
  qed
  from this [of x y a b] this [of y x b a] show ?thesis using assms by (cases x y rule: linorder_cases) (auto simp: sgn_if)
qed

fun be_value :: "byte list \<Rightarrow> int" where
  "be_value [] = 0"
| "be_value (x # xs) = uint x * 256 ^ length xs + be_value xs"

lemma uint_byte: "uint (b :: byte) \<le> 255"
  using unsigned_less [where 'a = int, of b] by simp

lemma be_value_range: "0 \<le> be_value xs \<and> be_value xs < 256 ^ length xs"
proof (induction xs)
  case (Cons x xs)
  have "(uint x + 1) * 256 ^ length xs \<le> 256 * 256 ^ length xs"
    using uint_byte [of x] by (intro mult_right_mono) simp_all
  then have "uint x * 256 ^ length xs + 256 ^ length xs \<le> 256 * 256 ^ length xs" by (simp only: distrib_right mult_1_left)
  moreover have "0 \<le> uint x * 256 ^ length xs" by simp
  ultimately show ?case unfolding be_value.simps length_Cons power_Suc using Cons by linarith
qed simp

lemma memcmp_sgn: "length xs = length ys \<Longrightarrow> memcmp xs ys = sgn (be_value xs - be_value ys)"
proof (induction xs ys rule: memcmp.induct)
  case (1 x xs y ys)
  then have l: "length xs = length ys" by simp
  have "sgn (be_value (x # xs) - be_value (y # ys)) = (if uint x = uint y then sgn (be_value xs - be_value ys) else sgn (uint x - uint y))"
    unfolding be_value.simps l using be_value_range [of xs] be_value_range [of ys] l by (intro sgn_higher) simp_all
  then show ?case using 1 l by (auto simp: word_less_def word_uint_eq_iff)
qed auto

text \<open>
  The number an address stands for: the family, the address and the port, one behind the other. An IPv4 address and a port
  are read as a little-endian machine does.
\<close>

definition addr_value :: "sockaddr \<Rightarrow> int" where
  "addr_value sa = (case sa of sockaddr_in _ a \<Rightarrow> int (s_addr a) | sockaddr_in6 _ _ a _ \<Rightarrow> be_value a | sockaddr_other _ \<Rightarrow> 0)"

definition port_value :: "sockaddr \<Rightarrow> bool \<Rightarrow> int" where
  "port_value sa include_port = (if include_port then case sa of sockaddr_in p _ \<Rightarrow> uint p | sockaddr_in6 p _ _ _ \<Rightarrow> uint p | _ \<Rightarrow> 0 else 0)"

definition sockaddr_key :: "sockaddr \<Rightarrow> bool \<Rightarrow> int" where
  "sockaddr_key sa include_port = (int (sa_family sa) * 2 ^ 128 + addr_value sa) * 2 ^ 16 + port_value sa include_port"

lemma addr_value_range: "sockaddr_ok sa \<Longrightarrow> 0 \<le> addr_value sa \<and> addr_value sa < 2 ^ 128"
proof (cases sa)
  case (sockaddr_in p a)
  have "s_addr a < 4294967296"
    using byte_lt [of "a ! 0"] byte_lt [of "a ! 1"] byte_lt [of "a ! 2"] byte_lt [of "a ! 3"] by (simp add: s_addr_def algebra_simps)
  then show ?thesis using sockaddr_in by (simp add: addr_value_def)
next
  case (sockaddr_in6 p f a s)
  assume "sockaddr_ok sa"
  with sockaddr_in6 be_value_range [of a] show ?thesis by (simp add: addr_value_def sockaddr_ok_def)
qed (simp add: sockaddr_ok_def)

lemma port_value_range: "0 \<le> port_value sa i \<and> port_value sa i < 2 ^ 16"
  using unsigned_less [where 'a = int and 'b = 16]
  by (auto simp: port_value_def split: sockaddr.split)

lemma sockaddr_key_sgn:
  assumes "sockaddr_ok a" "sockaddr_ok b"
  shows "sgn (sockaddr_key a i - sockaddr_key b i) =
    (if sa_family a \<noteq> sa_family b then sgn (int (sa_family a) - int (sa_family b))
     else if addr_value a \<noteq> addr_value b then sgn (addr_value a - addr_value b) else sgn (port_value a i - port_value b i))"
proof -
  let ?x = "\<lambda>sa. int (sa_family sa) * 2 ^ 128 + addr_value sa"
  have "sgn (sockaddr_key a i - sockaddr_key b i) = (if ?x a = ?x b then sgn (port_value a i - port_value b i) else sgn (?x a - ?x b))"
    unfolding sockaddr_key_def using port_value_range by (intro sgn_higher) blast+
  moreover have "sgn (?x a - ?x b) = (if int (sa_family a) = int (sa_family b) then sgn (addr_value a - addr_value b)
      else sgn (int (sa_family a) - int (sa_family b)))"
    using addr_value_range [OF assms(1)] addr_value_range [OF assms(2)] by (intro sgn_higher) blast+
  ultimately show ?thesis by (auto simp: sgn_if split: if_splits)
qed

text \<open>
  C39: on IPv4 and IPv6 addresses \<open>evutil_sockaddr_cmp\<close> is the comparison of a number made of the family, the address and,
  if it matters, the port. So it is a linear order.
\<close>

theorem sockaddr_cmp_orders:
  assumes "sockaddr_ok sa1" "sockaddr_ok sa2"
  shows "sgn (evutil_sockaddr_cmp sa1 sa2 include_port) = sgn (sockaddr_key sa1 include_port - sockaddr_key sa2 include_port)"
  unfolding sockaddr_key_sgn [OF assms] using assms
  by (cases sa1; cases sa2)
    (auto simp: sockaddr_ok_def AF_INET_def AF_INET6_def addr_value_def port_value_def memcmp_sgn sgn_if Let_def)

theorem sockaddr_cmp_orders_witness:
  "sgn (evutil_sockaddr_cmp (sockaddr_in (htons 80) [127, 0, 0, 1]) (sockaddr_in (htons 81) [127, 0, 0, 1]) True)
    = sgn (sockaddr_key (sockaddr_in (htons 80) [127, 0, 0, 1]) True - sockaddr_key (sockaddr_in (htons 81) [127, 0, 0, 1]) True)"
  by (rule sockaddr_cmp_orders) (simp_all add: sockaddr_ok_def)

text \<open>Different addresses have different numbers.\<close>

lemma be_value_inj: "length xs = length ys \<Longrightarrow> be_value xs = be_value ys \<longleftrightarrow> xs = ys"
  using memcmp_eq [of xs ys] memcmp_sgn [of xs ys] by (simp add: sgn_if split: if_splits)

lemma loopback_in: "length a = 4 \<Longrightarrow> evutil_sockaddr_is_loopback (sockaddr_in p a) \<longleftrightarrow> a ! 0 = 127"
proof -
  let ?l = "push_bit 16 (ucast (a ! 1)) OR push_bit 8 (ucast (a ! 2)) OR ucast (a ! 3) :: 32 word"
  have m: "(0xff000000 :: 32 word) = push_bit 24 (mask 8)" by (simp add: mask_eq_exp_minus_1 push_bit_eq_mult)
  have e: "(push_bit 24 (ucast (a ! 0)) OR ?l) AND 0xff000000 = push_bit 24 (ucast (a ! 0))"
    unfolding m by (rule bit_word_eqI) (auto simp: bit_simps dest: bit_imp_le_length)
  have "push_bit 24 (ucast b :: 32 word) = 0x7f000000 \<longleftrightarrow> b = 127" for b :: byte
  proof
    assume "push_bit 24 (ucast b :: 32 word) = 0x7f000000"
    then have "ucast (drop_bit 24 (push_bit 24 (ucast b :: 32 word))) = (ucast (drop_bit 24 (0x7f000000 :: 32 word)) :: byte)" by simp
    moreover have "ucast (drop_bit 24 (push_bit 24 (ucast b :: 32 word))) = b"
      by (rule bit_word_eqI) (auto simp: bit_simps dest: bit_imp_le_length)
    moreover have "(ucast (drop_bit 24 (0x7f000000 :: 32 word)) :: byte) = 127" by code_simp
    ultimately show "b = 127" by simp
  qed (simp add: push_bit_eq_mult)
  then show ?thesis using e by (simp add: evutil_sockaddr_is_loopback_def or.assoc)
qed

lemma loopback_in6: "length a = 16 \<Longrightarrow> evutil_sockaddr_is_loopback (sockaddr_in6 p f a s) \<longleftrightarrow> a = LOOPBACK_S6"
  by (simp add: evutil_sockaddr_is_loopback_def memcmp_eq LOOPBACK_S6_def)

end
