(* ===== verification/Evdns_Names.thy ===== *)
theory Evdns_Names
  imports Evutil_String
begin

text \<open>
  Names in DNS messages, \<open>evdns.c\<close>: \<open>name_parse\<close> reads a name with its compression pointers,
  \<open>dnsname_to_labels\<close> writes one, with a table of the names that were written before. A name is a C string
  without its null byte.
\<close>

unbundle bit_operations_syntax

section \<open>Reading a name\<close>

text \<open>
  The loop of \<open>name_parse\<close>. \<open>packet\<close> is the memory the packet is in, \<open>len\<close> the argument \<open>length\<close>; \<open>name_end\<close> is
  \<open>None\<close> while it is -1; \<open>out\<close> is what has been stored at \<open>name_out\<close>. The result is \<open>None\<close> for -1, and otherwise
  the new \<open>*idx\<close> and the name.
\<close>

function name_loop ::
    "byte list \<Rightarrow> nat \<Rightarrow> nat \<Rightarrow> nat \<Rightarrow> nat option \<Rightarrow> nat \<Rightarrow> byte list \<Rightarrow> (nat \<times> byte list) option exec" where
  "name_loop packet len out_len j name_end ptr_count out =
     (if j \<ge> len then Inr None
      else if j \<ge> length packet then Inl Out_Of_Bounds
      else let label = packet ! j; j = j + 1; label_len = unat label in
           if label = 0
           then Inr (if length out \<ge> out_len then None else Some (case name_end of None \<Rightarrow> j | Some i \<Rightarrow> i, out))
           else if label AND 0xc0 \<noteq> 0
           then if j \<ge> len then Inr None
                else if j \<ge> length packet then Inl Out_Of_Bounds
                else let name_end = (case name_end of None \<Rightarrow> Some (j + 1) | Some i \<Rightarrow> Some i);
                         j = unat (label AND 0x3f) * 256 + unat (packet ! j)
                     in if j \<ge> len then Inr None
                        else if ptr_count + 1 > len then Inr None
                        else name_loop packet len out_len j name_end (ptr_count + 1) out
           else if label_len > 63 then Inr None
           else if out \<noteq> [] \<and> length out + 1 \<ge> out_len then Inr None
           else let out = (if out \<noteq> [] then out @ [46] else out) in
                if length out + label_len \<ge> out_len then Inr None
                else if j + label_len > length packet then Inl Out_Of_Bounds
                else name_loop packet len out_len (j + label_len) name_end ptr_count (out @ mem_read j label_len packet))"
  by pat_completeness auto

termination
  by (relation "measures [\<lambda>(packet, len, out_len, j, name_end, ptr_count, out). len + 1 - ptr_count,
        \<lambda>(packet, len, out_len, j, name_end, ptr_count, out). len - j]") auto

declare name_loop.simps [simp del]

definition name_parse :: "byte list \<Rightarrow> nat \<Rightarrow> nat \<Rightarrow> nat \<Rightarrow> (nat \<times> byte list) option exec" where
  "name_parse packet len idx name_out_len = name_loop packet len name_out_len idx None 0 []"

section \<open>Writing a name\<close>

text \<open>A \<open>u16\<close> and a \<open>u32\<close> in network byte order.\<close>

definition htons :: "16 word \<Rightarrow> byte list" where
  "htons x = [ucast (drop_bit 8 x), ucast x]"

definition htonl :: "32 word \<Rightarrow> byte list" where
  "htonl x = [ucast (drop_bit 24 x), ucast (drop_bit 16 x), ucast (drop_bit 8 x), ucast x]"

text \<open>\<open>APPEND16\<close> and \<open>APPEND32\<close>: \<open>None\<close> goes to \<open>overflow\<close>. \<open>buf_len\<close> is the size of the buffer.\<close>

definition APPEND16 :: "16 word \<Rightarrow> byte list \<times> nat \<Rightarrow> (byte list \<times> nat) option" where
  "APPEND16 x = (\<lambda>(buf, j). if j + 2 > length buf then None else Some (mem_write j (htons x) buf, j + 2))"

definition APPEND32 :: "32 word \<Rightarrow> byte list \<times> nat \<Rightarrow> (byte list \<times> nat) option" where
  "APPEND32 x = (\<lambda>(buf, j). if j + 4 > length buf then None else Some (mem_write j (htonl x) buf, j + 4))"

text \<open>The table of names and the positions at which they are.\<close>

type_synonym dnslabel_table = "(byte list \<times> nat) list"

definition MAX_LABELS :: nat where
  "MAX_LABELS = 128"

definition dnslabel_table_get_pos :: "dnslabel_table \<Rightarrow> byte list \<Rightarrow> nat option" where
  "dnslabel_table_get_pos table label = map_option snd (find (\<lambda>(v, pos). label = v) table)"

text \<open>\<open>strdup\<close> tells whether \<open>mm_strdup\<close> succeeds; the result of \<open>dnslabel_table_add\<close> is not used.\<close>

definition dnslabel_table_add :: "(byte list \<Rightarrow> bool) \<Rightarrow> dnslabel_table \<Rightarrow> byte list \<Rightarrow> nat \<Rightarrow> dnslabel_table" where
  "dnslabel_table_add strdup table label pos =
     (if length table = MAX_LABELS \<or> \<not> strdup label then table else table @ [(label, pos)])"

text \<open>The first label of a name, and what follows the dot if there is one.\<close>

definition next_label :: "byte list \<Rightarrow> byte list \<times> byte list option" where
  "next_label name =
     (case memchr name 46 of None \<Rightarrow> (name, None) | Some i \<Rightarrow> (take i name, Some (drop (Suc i) name)))"

text \<open>One length and label: \<open>None\<close> if it does not fit.\<close>

definition put_label :: "byte list \<Rightarrow> byte list \<Rightarrow> nat \<Rightarrow> (byte list \<times> nat) option" where
  "put_label label buf j =
     (if j + length label + 1 > length buf then None
      else Some (mem_write (j + 1) label (mem_write j [of_nat (length label)] buf), j + 1 + length label))"

text \<open>
  The loop; the result is the value returned, the buffer and the table. \<open>table\<close> is \<open>None\<close> without
  compression. Only the last byte is stored without a check whether it fits.
\<close>

definition put_end :: "byte list \<Rightarrow> nat \<Rightarrow> (int \<times> byte list) exec" where
  "put_end buf j =
     (if j = 0 \<or> buf ! (j - 1) \<noteq> 0
      then if j \<ge> length buf then Inl Out_Of_Bounds else Inr (int (j + 1), mem_write j [0] buf)
      else Inr (int j, buf))"

lemma next_label_less: "next_label name = (label, Some more) \<Longrightarrow> length more < length name"
  by (auto simp: next_label_def split: option.splits dest: memchr_SomeD)

function labels_loop ::
    "(byte list \<Rightarrow> bool) \<Rightarrow> byte list \<Rightarrow> nat \<Rightarrow> byte list \<Rightarrow> dnslabel_table option
     \<Rightarrow> (int \<times> byte list \<times> dnslabel_table option) exec" where
  "labels_loop strdup buf j name table =
     (case (case table of None \<Rightarrow> None | Some t \<Rightarrow> dnslabel_table_get_pos t name) of
        Some ref \<Rightarrow> (case APPEND16 (of_nat ref OR 0xc000) (buf, j) of
                      None \<Rightarrow> Inr (-2, buf, table)
                    | Some (buf, j) \<Rightarrow> Inr (int j, buf, table))
      | None \<Rightarrow>
          (case next_label name of
             (label, more) \<Rightarrow>
               if length label > 63 then Inr (-1, buf, table)
               else (case put_label label buf j of
                       None \<Rightarrow> Inr (-2, buf, table)
                     | Some (buf, k) \<Rightarrow>
                         (let table = map_option (\<lambda>t. dnslabel_table_add strdup t name j) table in
                          case more of
                            None \<Rightarrow> bindE (put_end buf k) (\<lambda>(r, buf). Inr (r, buf, table))
                          | Some name \<Rightarrow> labels_loop strdup buf k name table))))"
  by pat_completeness auto

termination
  by (relation "measure (\<lambda>(strdup, buf, j, name, table). length name)") (auto dest: next_label_less [OF sym])

declare labels_loop.simps [simp del]

definition dnsname_to_labels ::
    "(byte list \<Rightarrow> bool) \<Rightarrow> byte list \<Rightarrow> nat \<Rightarrow> byte list \<Rightarrow> dnslabel_table option
     \<Rightarrow> (int \<times> byte list \<times> dnslabel_table option) exec" where
  "dnsname_to_labels strdup buf j name table =
     (if length name > 255 then Inr (-2, buf, table) else labels_loop strdup buf j name table)"


section \<open>Bytes\<close>

lemma byte_low: "unat ((b :: byte) AND 0x3f) = unat b mod 64"
  using unat_and_mask [of b 6] by (simp add: mask_eq_exp_minus_1)

lemma byte_high: "(b :: byte) AND 0xc0 = 0 \<longleftrightarrow> unat b < 64"
proof -
  have c0: "(0xc0 :: byte) = push_bit 6 (mask 2)" by (simp add: mask_eq_exp_minus_1 push_bit_eq_mult)
  have "b AND 0xc0 = push_bit 6 (drop_bit 6 b)"
    unfolding c0 by (intro bit_word_eqI) (auto simp: bit_and_iff bit_push_bit_iff bit_mask_iff bit_drop_bit_eq)
  also have "\<dots> = 0 \<longleftrightarrow> drop_bit 6 b = 0"
  proof
    assume "push_bit 6 (drop_bit 6 b) = 0"
    then have "bit (push_bit 6 (drop_bit 6 b)) (n + 6) = bit (0 :: byte) (n + 6)" for n by simp
    then have "n + 6 < 8 \<Longrightarrow> \<not> bit b (n + 6)" for n by (simp add: bit_push_bit_iff bit_drop_bit_eq add.commute)
    then have "\<not> bit b (n + 6)" for n using bit_imp_le_length [of b "n + 6"] by (cases "n + 6 < 8") auto
    then show "drop_bit 6 b = 0" by (intro bit_word_eqI) (simp add: bit_drop_bit_eq add.commute)
  qed simp
  also have "\<dots> \<longleftrightarrow> unat (drop_bit 6 b) = 0" by (simp add: unat_eq_0)
  also have "\<dots> \<longleftrightarrow> unat b < 64" unfolding unat_shift_right by (simp add: div_eq_0_iff)
  finally show ?thesis .
qed

lemma byte_of_pointer: "(of_nat (t + 0xc000) :: byte) = of_nat (t mod 256)"
proof -
  have "unat (of_nat (t + 0xc000) :: byte) = (t + 0xc000) mod 256"
    by (simp only: unsigned_of_nat take_bit_eq_mod) simp
  also have "\<dots> = t mod 256" using mod_mult_self1 [of t 192 256] by simp
  also have "\<dots> = unat (of_nat (t mod 256) :: byte)"
    by (simp only: unsigned_of_nat take_bit_eq_mod) simp
  finally show ?thesis by (simp only: word_unat_eq_iff)
qed
lemma pointer_bytes:
  assumes "t < 0x4000"
  shows "htons (of_nat t OR 0xc000) = [of_nat (192 + t div 256), of_nat (t mod 256)]"
proof -
  have "(of_nat t :: 16 word) AND 0xc000 = 0"
  proof (rule bit_word_eqI)
    fix n
    have c: "(0xc000 :: 16 word) = push_bit 14 (mask 2)" by (simp add: mask_eq_exp_minus_1 push_bit_eq_mult)
    have "take_bit 14 t = t" using assms by (simp add: take_bit_nat_eq_self)
    then have "bit t n \<Longrightarrow> n < 14" by (metis bit_take_bit_iff)
    then show "bit (of_nat t AND (0xc000 :: 16 word)) n = bit (0 :: 16 word) n"
      unfolding c bit_and_iff bit_push_bit_iff bit_of_nat_iff by auto
  qed
  then have w: "of_nat t OR (0xc000 :: 16 word) = of_nat (t + 0xc000)"
    using word_plus_and_or [of "of_nat t :: 16 word" "0xc000"] by simp
  have u: "unat (of_nat (t + 0xc000) :: 16 word) = t + 0xc000"
    using assms by (simp add: unsigned_of_nat take_bit_nat_eq_self del: of_nat_add)
  have "unat (drop_bit 8 (of_nat (t + 0xc000) :: 16 word)) = 192 + t div 256"
    unfolding unat_shift_right u using assms by simp
  then have h: "(ucast (drop_bit 8 (of_nat (t + 0xc000) :: 16 word)) :: byte) = of_nat (192 + t div 256)"
    by (metis of_nat_unat)
  have "(ucast (of_nat (t + 0xc000) :: 16 word) :: byte) = of_nat (t + 0xc000)" by (metis of_nat_unat u)
  also have "\<dots> = of_nat (t mod 256)" by (rule byte_of_pointer)
  finally show ?thesis by (simp add: htons_def w h del: of_nat_add)
qed

lemma unat_byte: "n < 256 \<Longrightarrow> unat (of_nat n :: byte) = n"
  by (simp add: unsigned_of_nat take_bit_nat_eq_self)

lemma byte_cases: "b \<noteq> 0 \<Longrightarrow> unat (b :: byte) < 64 \<Longrightarrow> b AND 0xc0 = 0"
  by (simp add: byte_high)

section \<open>What bytes mean as a name\<close>

text \<open>
  \<open>name_at p m j ls k\<close>: the bytes of \<open>p\<close> from \<open>j\<close> up to \<open>k\<close> stand for the labels \<open>ls\<close>, and the first
  pointer among them goes to a place before \<open>m\<close>; each pointer goes further back than the one before.
\<close>

inductive name_at :: "byte list \<Rightarrow> nat \<Rightarrow> nat \<Rightarrow> byte list list \<Rightarrow> nat \<Rightarrow> bool" for p where
  stop: "j < length p \<Longrightarrow> p ! j = 0 \<Longrightarrow> name_at p m j [] (Suc j)"
| label: "0 < n \<Longrightarrow> n \<le> 63 \<Longrightarrow> j + 1 + n \<le> length p \<Longrightarrow> unat (p ! j) = n
    \<Longrightarrow> name_at p m (j + 1 + n) ls k \<Longrightarrow> name_at p m j (mem_read (j + 1) n p # ls) k"
| pointer: "t < m \<Longrightarrow> t < 0x4000 \<Longrightarrow> j + 2 \<le> length p \<Longrightarrow> unat (p ! j) = 192 + t div 256
    \<Longrightarrow> unat (p ! (j + 1)) = t mod 256 \<Longrightarrow> name_at p t t ls k \<Longrightarrow> name_at p m j ls (j + 2)"

lemma name_at_mono: "name_at p m j ls k \<Longrightarrow> m \<le> m' \<Longrightarrow> name_at p m' j ls k"
proof (induction rule: name_at.induct)
  case (label n j m ls k)
  then show ?case by (intro name_at.label) auto
next
  case (pointer t m j ls k)
  then show ?case by (intro name_at.pointer [of t]) auto
qed (rule name_at.stop)

lemma name_at_bounds: "name_at p m j ls k \<Longrightarrow> j < k \<and> k \<le> length p"
  by (induction rule: name_at.induct) auto

lemma name_at_append: "name_at p m j ls k \<Longrightarrow> name_at (p @ q) m j ls k"
proof (induction rule: name_at.induct)
  case (label n j m ls k)
  then have "mem_read (j + 1) n (p @ q) = mem_read (j + 1) n p" by (simp add: mem_read_def)
  moreover have "name_at (p @ q) m j (mem_read (j + 1) n (p @ q) # ls) k"
    using label by (intro name_at.label) (auto simp: nth_append)
  ultimately show ?case by simp
next
  case (pointer t m j ls k)
  then show ?case by (intro name_at.pointer [of t]) (auto simp: nth_append)
qed (auto intro: name_at.stop simp: nth_append)

lemma name_at_prefix:
  assumes "name_at (take a p) m j ls k" "take a p = take a q"
  shows "name_at q m j ls k"
  using name_at_append [OF assms(1), of "drop a q"] assms(2) by simp

text \<open>Labels are joined by dots.\<close>

fun join_onto :: "byte list \<Rightarrow> byte list list \<Rightarrow> byte list" where
  "join_onto out [] = out"
| "join_onto out (l # ls) = join_onto ((if out = [] then out else out @ [46]) @ l) ls"

lemma length_join_onto: "length out \<le> length (join_onto out ls)"
proof (induction ls arbitrary: out)
  case (Cons l ls)
  from Cons.IH [of "(if out = [] then out else out @ [46]) @ l"] show ?case by (auto split: if_splits)
qed simp

text \<open>\<open>name_parse\<close> reads what the bytes mean.\<close>

lemma name_loop_reads:
  assumes "name_at p m j ls k" "c + m \<le> length p" "length (join_onto out ls) < out_len"
  shows "name_loop (p @ q) (length p) out_len j e c out
    = Inr (Some (case e of None \<Rightarrow> k | Some i \<Rightarrow> i, join_onto out ls))"
  using assms
proof (induction arbitrary: c out e rule: name_at.induct)
  case (stop j m)
  then show ?case by (subst name_loop.simps) (auto simp: nth_append Let_def split: option.splits)
next
  case (label n j m ls k)
  have u: "unat ((p @ q) ! j) = n" using label.hyps by (simp add: nth_append)
  then have nz: "(p @ q) ! j \<noteq> 0" and hi: "(p @ q) ! j AND 0xc0 = 0"
    using label.hyps by (auto simp: byte_high)
  have rd: "mem_read (j + 1) n (p @ q) = mem_read (j + 1) n p" using label.hyps by (simp add: mem_read_def)
  have len: "length (mem_read (j + 1) n p) = n" using label.hyps by (simp add: length_mem_read)
  define out' where "out' = (if out = [] then out else out @ [46])"
  have small: "length out' + n < out_len"
    using label.prems(2) length_join_onto [of "out' @ mem_read (j + 1) n p" ls] len
    unfolding out'_def by simp
  have IH: "name_loop (p @ q) (length p) out_len (j + 1 + n) e c (out' @ mem_read (j + 1) n p)
      = Inr (Some (case e of None \<Rightarrow> k | Some i \<Rightarrow> i, join_onto (out' @ mem_read (j + 1) n p) ls))"
    using label.prems by (intro label.IH) (simp_all add: out'_def)
  have o: "(if out \<noteq> [] then out @ [46] else out) = out'" by (simp add: out'_def)
  have ok: "\<not> (out \<noteq> [] \<and> out_len \<le> length out + 1)" "\<not> 63 < n" "\<not> length p \<le> j" "\<not> length (p @ q) \<le> j"
      "\<not> out_len \<le> length out' + n" "\<not> length (p @ q) < j + 1 + n"
    using small label.hyps by (auto simp: out'_def split: if_splits)
  show ?case
    by (subst name_loop.simps) (simp only: Let_def u nz hi rd o ok IH if_False not_True_eq_False refl join_onto.simps flip: out'_def)
next
  case (pointer t m j ls k)
  have d: "t div 256 < 64" using pointer.hyps by (simp add: less_mult_imp_div_less)
  have u: "unat ((p @ q) ! j) = 192 + t div 256" "unat ((p @ q) ! (j + 1)) = t mod 256"
    using pointer.hyps by (simp_all add: nth_append)
  then have nz: "(p @ q) ! j \<noteq> 0" and hi: "(p @ q) ! j AND 0xc0 \<noteq> 0" by (auto simp: byte_high)
  have t: "unat ((p @ q) ! j AND 0x3f) * 256 + unat ((p @ q) ! (j + 1)) = t"
  proof -
    have "(t div 256 + 3 * 64) mod 64 = t div 256" using d unfolding mod_mult_self1 by (rule mod_less)
    then show ?thesis unfolding byte_low u by (simp add: add.commute)
  qed
  have tl: "t < length p" using name_at_bounds [OF pointer.hyps(6)] by simp
  have ok: "\<not> length p \<le> j" "\<not> length (p @ q) \<le> j" "\<not> length p \<le> j + 1" "\<not> length (p @ q) \<le> j + 1" "\<not> length p \<le> t"
      "\<not> length p < c + 1"
    using pointer.hyps pointer.prems tl by auto
  have IH: "name_loop (p @ q) (length p) out_len t (Some i) (c + 1) out = Inr (Some (i, join_onto out ls))" for i
    using pointer.IH [of "c + 1" out "Some i"] pointer.prems pointer.hyps by simp
  show ?case
    apply (subst name_loop.simps)
    apply (simp only: Let_def nz hi t ok if_False if_True not_False_eq_True not_True_eq_False refl)
    apply (cases e)
    apply (simp_all only: option.case IH)
    apply simp
    done
qed

section \<open>\<open>name_parse\<close> stays inside its buffers\<close>

text \<open>
  A label may end up to 63 bytes behind the packet, since the code does not compare its end with \<open>length\<close>;
  with that much memory behind it, the read is inside an object.
\<close>

lemma name_loop_safe:
  assumes "len + 63 \<le> length packet" "length out \<le> out_len" "case e of None \<Rightarrow> i \<le> j | Some k \<Rightarrow> i < k \<and> k \<le> len"
  shows "runs (name_loop packet len out_len j e c out)
    (\<lambda>r. case r of None \<Rightarrow> True | Some (k, name) \<Rightarrow> i < k \<and> k \<le> len \<and> length name < out_len)"
  using assms
proof (induction "(len + 1 - c) * (len + 1) + (len - j)" arbitrary: j e c out rule: less_induct)
  case less
  let ?P = "\<lambda>r. case r of None \<Rightarrow> True | Some (k, name) \<Rightarrow> i < k \<and> k \<le> len \<and> length name < out_len"
  let ?l = "packet ! j"
  have jl: "j < length packet" if "j < len" using less.prems that by simp
  have jl2: "Suc j < length packet" if "Suc j < len" using less.prems that by simp
  show ?case
  proof (cases "j < len \<and> ?l \<noteq> 0 \<and> ?l AND 0xc0 = 0")
    case True
    then have u: "unat ?l < 64" by (simp add: byte_high)
    define out' where "out' = (if out \<noteq> [] then out @ [46] else out)"
    define out'' where "out'' = out' @ mem_read (Suc j) (unat ?l) packet"
    have in_packet: "Suc (j + unat ?l) \<le> length packet" using True u less.prems by simp
    show ?thesis
    proof (cases "(out \<noteq> [] \<and> out_len \<le> length out + 1) \<or> out_len \<le> length out' + unat ?l")
      case False
      have "length out'' \<le> out_len"
        using False in_packet by (simp add: length_mem_read out''_def)
      then have "runs (name_loop packet len out_len (Suc (j + unat ?l)) e c out'') ?P"
        using True less.prems by (intro less.hyps) (auto split: option.splits)
      then show ?thesis
        using True False in_packet u jl by (subst name_loop.simps) (simp add: Let_def out'_def out''_def)
    qed (use True u jl in \<open>subst name_loop.simps, auto simp: Let_def out'_def\<close>)
  next
    case False
    let ?t = "unat (?l AND 0x3f) * 256 + unat (packet ! Suc j)"
    show ?thesis
    proof (cases "Suc j < len \<and> ?l \<noteq> 0 \<and> ?t < len \<and> Suc c \<le> len")
      case True
      define e' where "e' = (case e of None \<Rightarrow> Some (Suc j + 1) | Some i \<Rightarrow> Some i)"
      have "len + 1 - c = Suc (len - c)" "len + 1 - Suc c = len - c" using True by auto
      then have "(len + 1 - Suc c) * (len + 1) + (len - ?t) < (len + 1 - c) * (len + 1) + (len - j)" by (simp only:) simp
      then have "runs (name_loop packet len out_len ?t e' (Suc c) out) ?P"
        using True less.prems by (intro less.hyps) (auto simp: e'_def split: option.splits)
      then show ?thesis using True False jl jl2
        by (subst name_loop.simps) (simp add: Let_def e'_def)
    next
      case stops: False
      show ?thesis
      proof (cases "j < len \<and> ?l \<noteq> 0")
        case True
        with False stops have "\<not> Suc j < len \<or> \<not> ?t < len \<or> \<not> Suc c \<le> len" by blast
        with True False jl jl2 have "name_loop packet len out_len j e c out = Inr None"
          by (subst name_loop.simps) (elim disjE; simp add: Let_def; linarith)
        then show ?thesis by simp
      next
        case False
        have "name_loop packet len out_len j e c out
            = Inr (if len \<le> j \<or> out_len \<le> length out then None else Some (case e of None \<Rightarrow> j + 1 | Some i \<Rightarrow> i, out))"
          using False jl by (subst name_loop.simps) (cases "len \<le> j"; simp split: option.splits)
        with less.prems show ?thesis by (cases e) auto
      qed
    qed
  qed
qed

section \<open>\<open>dnsname_to_labels\<close> writes what \<open>name_parse\<close> reads\<close>

text \<open>The labels of a name. A dot at its end adds none.\<close>

fun split_dots :: "byte list \<Rightarrow> byte list list" where
  "split_dots [] = [[]]"
| "split_dots (x # xs) =
     (if x = 46 then [] # split_dots xs else (x # hd (split_dots xs)) # tl (split_dots xs))"

definition dns_labels :: "byte list \<Rightarrow> byte list list" where
  "dns_labels name = (if last (split_dots name) = [] then butlast (split_dots name) else split_dots name)"

definition name_ok :: "byte list \<Rightarrow> bool" where
  "name_ok name \<longleftrightarrow> 0 \<notin> set name \<and> (\<forall>l\<in>set (split_dots name). length l \<le> 63) \<and> [] \<notin> set (butlast (split_dots name))"

lemma split_dots_not_Nil [simp]: "split_dots name \<noteq> []"
  by (cases name) auto

lemma split_dots_memchr:
  "split_dots name = (case memchr name 46 of None \<Rightarrow> [name] | Some i \<Rightarrow> take i name # split_dots (drop (Suc i) name))"
  by (induction name) (auto split: option.splits)

lemma next_label_last: "next_label name = (l, None) \<Longrightarrow> split_dots name = [l]"
  by (subst split_dots_memchr) (auto simp: next_label_def split: option.splits)

lemma next_label_more: "next_label name = (l, Some more) \<Longrightarrow> split_dots name = l # split_dots more"
  by (subst split_dots_memchr) (auto simp: next_label_def split: option.splits)

lemma next_label_subset: "next_label name = (l, more) \<Longrightarrow> set l \<subseteq> set name \<and> (\<forall>m. more = Some m \<longrightarrow> set m \<subseteq> set name)"
  by (auto simp: next_label_def split: option.splits dest: in_set_takeD in_set_dropD)

lemma dns_labels_last: "next_label name = (l, None) \<Longrightarrow> dns_labels name = (if l = [] then [] else [l])"
  by (simp add: dns_labels_def next_label_last)

lemma dns_labels_more: "next_label name = (l, Some more) \<Longrightarrow> dns_labels name = l # dns_labels more"
  by (simp add: dns_labels_def next_label_more)

lemma name_ok_last: "name_ok name \<Longrightarrow> next_label name = (l, None) \<Longrightarrow> 0 \<notin> set l \<and> length l \<le> 63"
  using next_label_subset [of name l None] by (auto simp: name_ok_def next_label_last)

lemma name_ok_more:
  "name_ok name \<Longrightarrow> next_label name = (l, Some more) \<Longrightarrow> l \<noteq> [] \<and> length l \<le> 63 \<and> name_ok more"
  using next_label_subset [of name l "Some more"] by (auto simp: name_ok_def next_label_more)

text \<open>One label.\<close>

lemma nth_mem_write_before: "i < pos \<Longrightarrow> pos \<le> length m \<Longrightarrow> mem_write pos bs m ! i = m ! i"
  by (simp add: mem_write_def nth_append)

lemma take_mem_write [simp]: "i \<le> pos \<Longrightarrow> pos \<le> length m \<Longrightarrow> take i (mem_write pos bs m) = take i m"
  by (simp add: mem_write_def min_def)

lemma put_labelD:
  assumes "put_label l buf j = Some (buf', k)"
  shows "k = j + 1 + length l" "k \<le> length buf" "length buf' = length buf" "take j buf' = take j buf"
    "buf' ! j = of_nat (length l)" "mem_read (j + 1) (length l) buf' = l"
proof -
  from assms have k: "k = j + 1 + length l" "k \<le> length buf"
    and b: "buf' = mem_write (j + 1) l (mem_write j [of_nat (length l)] buf)"
    by (auto simp: put_label_def split: if_splits)
  show "k = j + 1 + length l" "k \<le> length buf" by fact+
  show "length buf' = length buf" using k by (simp add: b length_mem_write)
  show "take j buf' = take j buf" using k by (simp add: b length_mem_write)
  show "buf' ! j = of_nat (length l)"
    using k by (simp add: b nth_mem_write_before length_mem_write) (simp add: mem_write_def nth_append)
  show "mem_read (j + 1) (length l) buf' = l"
    using k by (simp add: b mem_write_def mem_read_def min_def)
qed

text \<open>The last label, with the null byte behind it.\<close>

lemma last_label:
  assumes put: "put_label l buf j = Some (buf1, k)" and fin: "put_end buf1 k = Inr (r, buf2)"
    and l: "0 \<notin> set l" "length l \<le> 63"
  obtains n where "r = int n" "j < n" "n \<le> length buf" "length buf2 = length buf" "take j buf2 = take j buf"
    "\<And>m. name_at (take n buf2) m j (if l = [] then [] else [l]) n"
proof (cases "l = []")
  case True
  then have "buf1 ! j = 0" "k = j + 1" "k \<le> length buf1" using put_labelD [OF put] by auto
  moreover then have "r = int k" "buf2 = buf1" using fin by (auto simp: put_end_def)
  moreover then have "name_at (take k buf2) m j [] k" for m
    using name_at.stop [of j "take k buf2" m] \<open>buf1 ! j = 0\<close> \<open>k = j + 1\<close> \<open>k \<le> length buf1\<close> by simp
  ultimately show ?thesis using that [of k] True put_labelD [OF put] by simp
next
  case False
  note d = put_labelD [OF put]
  have "buf1 ! (k - 1) = l ! (length l - 1)"
  proof -
    have "l ! (length l - 1) = mem_read (j + 1) (length l) buf1 ! (length l - 1)" by (simp only: d(6))
    also have "\<dots> = buf1 ! (j + 1 + (length l - 1))" using d(1-3) False by (simp add: mem_read_def)
    also have "j + 1 + (length l - 1) = k - 1" using d(1) False by (cases l) simp_all
    finally show ?thesis by simp
  qed
  moreover have "l ! (length l - 1) \<noteq> 0" using l False by (metis last_conv_nth last_in_set)
  ultimately have nz: "buf1 ! (k - 1) \<noteq> 0" by simp
  then have fits: "k < length buf1" "r = int (k + 1)" "buf2 = mem_write k [0] buf1"
    using fin by (auto simp: put_end_def split: if_splits)
  then have n: "take (k + 1) buf2 = take k buf1 @ [0]" and len: "length buf2 = length buf1"
    by (auto simp: mem_write_def length_mem_write min_def)
  have rd: "mem_read (j + 1) (length l) (take (k + 1) buf2) = l"
    using d fits unfolding n by (simp add: mem_read_def drop_take)
  have "name_at (take (k + 1) buf2) m k [] (k + 1)" for m
    using name_at.stop [of k "take (k + 1) buf2" m] d fits unfolding n by (simp add: nth_append)
  moreover have "take (k + 1) buf2 ! j = of_nat (length l)"
    using d fits unfolding n by (simp add: nth_append)
  ultimately have "name_at (take (k + 1) buf2) m j (mem_read (j + 1) (length l) (take (k + 1) buf2) # []) (k + 1)" for m
    using l False d fits len by (intro name_at.label) (simp_all add: unat_byte)
  then have at: "name_at (take (k + 1) buf2) m j (if l = [] then [] else [l]) (k + 1)" for m using False by (simp only: rd if_False)
  have "take j buf2 = take j buf" using d fits by simp
  then show ?thesis using that [of "k + 1", OF _ _ _ _ _ at] d fits len by simp
qed

text \<open>The entries of the table are names that are in the message.\<close>

definition entry_at :: "byte list \<Rightarrow> byte list \<Rightarrow> nat \<Rightarrow> bool" where
  "entry_at p v pos \<longleftrightarrow> (\<exists>k. name_at p pos pos (dns_labels v) k)"

definition table_at :: "byte list \<Rightarrow> dnslabel_table \<Rightarrow> bool" where
  "table_at p t \<longleftrightarrow> (\<forall>(v, pos)\<in>set t. entry_at p v pos)"

lemma get_pos_Some: "dnslabel_table_get_pos t name = Some pos \<Longrightarrow> (name, pos) \<in> set t"
  by (auto simp: dnslabel_table_get_pos_def find_Some_iff) (metis nth_mem)

lemma set_table_add: "set (dnslabel_table_add strdup t name j) \<subseteq> insert (name, j) (set t)"
  by (auto simp: dnslabel_table_add_def)

lemma entry_at_prefix: "entry_at (take a p) v pos \<Longrightarrow> take a p = take a q \<Longrightarrow> entry_at q v pos"
  by (auto simp: entry_at_def intro: name_at_prefix)

text \<open>A pointer.\<close>

lemma pointer_at:
  assumes app: "APPEND16 (of_nat pos OR 0xc000) (buf, j) = Some (buf', k)" and pos: "pos < 0x4000" "pos < m"
    and at: "name_at (take j buf) pos pos ls e"
  shows "k = j + 2" "k \<le> length buf" "length buf' = length buf" "take j buf' = take j buf"
    "name_at (take k buf') m j ls k"
proof -
  from app have k: "k = j + 2" "k \<le> length buf" and b: "buf' = mem_write j [of_nat (192 + pos div 256), of_nat (pos mod 256)] buf"
    by (auto simp: APPEND16_def pointer_bytes [OF pos(1)] simp del: of_nat_add split: if_splits)
  show "k = j + 2" "k \<le> length buf" by fact+
  show len: "length buf' = length buf" and tk: "take j buf' = take j buf"
    using k by (simp_all add: b length_mem_write)
  have t: "take k buf' = take j buf @ [of_nat (192 + pos div 256), of_nat (pos mod 256)]"
    using k by (simp add: b mem_write_def del: of_nat_add)
  have d: "pos div 256 < 64" using pos by (simp add: less_mult_imp_div_less)
  have "name_at (take k buf') m j ls (j + 2)"
  proof (rule name_at.pointer [OF pos(2,1)])
    show "name_at (take k buf') pos pos ls e" unfolding t by (rule name_at_append [OF at])
    show "unat (take k buf' ! j) = 192 + pos div 256" "unat (take k buf' ! (j + 1)) = pos mod 256"
      using k d unfolding t by (simp_all add: nth_append unat_byte del: of_nat_add)
  qed (use k t in simp)
  then show "name_at (take k buf') m j ls k" by (simp add: k)
qed


text \<open>The loop. \<open>s\<close> is where the name began; entries for longer names are those this name has added.\<close>

lemma labels_loop_writes:
  assumes "labels_loop strdup buf j name table = Inr (r, buf', table')" "0 \<le> r" "name_ok name"
    and "s \<le> j" "j \<le> length buf" "length buf \<le> 0x4000"
    and "\<And>t v pos. table = Some t \<Longrightarrow> (v, pos) \<in> set t \<Longrightarrow> length v \<le> length name \<Longrightarrow> pos < s \<and> entry_at (take j buf) v pos"
  shows "\<exists>k. r = int k \<and> j < k \<and> k \<le> length buf \<and> length buf' = length buf \<and> take j buf' = take j buf \<and>
    name_at (take k buf') s j (dns_labels name) k \<and>
    (\<forall>t'. table' = Some t' \<longrightarrow> (\<exists>t. table = Some t \<and>
       (\<forall>(v, pos)\<in>set t' - set t. entry_at (take k buf') v pos \<and> pos < k)))"
  using assms
proof (induction "length name" arbitrary: name buf j table rule: less_induct)
  case less
  show ?case
  proof (cases "case table of None \<Rightarrow> None | Some t \<Rightarrow> dnslabel_table_get_pos t name")
    case (Some pos)
    then obtain t where t: "table = Some t" "(name, pos) \<in> set t" by (auto split: option.splits dest: get_pos_Some)
    with less.prems(7) [OF t] have "pos < s" "entry_at (take j buf) name pos" by auto
    then obtain e where at: "name_at (take j buf) pos pos (dns_labels name) e" by (auto simp: entry_at_def)
    from less.prems(1,2) Some obtain k where app: "APPEND16 (of_nat pos OR 0xc000) (buf, j) = Some (buf', k)"
        and r: "r = int k" "table' = table"
      by (subst (asm) labels_loop.simps) (auto split: option.splits prod.splits)
    from \<open>pos < s\<close> less.prems have "pos < 0x4000" by simp
    from pointer_at [OF app this \<open>pos < s\<close> at] r t show ?thesis by (intro exI [of _ k]) auto
  next
    case None
    obtain l more where l: "next_label name = (l, more)" by (cases "next_label name")
    from less.prems(3) l have l63: "length l \<le> 63"
      by (cases more) (auto dest: name_ok_last name_ok_more)
    with None l less.prems(1,2) obtain buf1 k where put: "put_label l buf j = Some (buf1, k)"
      by (subst (asm) labels_loop.simps) (auto split: option.splits)
    define table1 where "table1 = map_option (\<lambda>t. dnslabel_table_add strdup t name j) table"
    note d = put_labelD [OF put]
    show ?thesis
    proof (cases more)
      case None': None
      with l None l63 put less.prems(1) obtain buf2 where fin: "put_end buf1 k = Inr (r, buf')" and "table' = table1"
        by (subst (asm) labels_loop.simps) (auto simp: bindE_Inr_iff table1_def split: option.splits)
      from name_ok_last [OF less.prems(3) l [unfolded None']] have "0 \<notin> set l" by simp
      from last_label [OF put fin this l63] obtain n where n: "r = int n" "j < n" "n \<le> length buf" "length buf' = length buf"
        "take j buf' = take j buf" and at: "name_at (take n buf') m j (dns_labels name) n" for m
        unfolding dns_labels_last [OF l [unfolded None']] by metis
      have "entry_at (take n buf') name j \<and> j < n" using at n by (auto simp: entry_at_def)
      with n at [of s] \<open>table' = table1\<close> show ?thesis
        by (intro exI [of _ n]) (auto simp: table1_def dest: subsetD [OF set_table_add])
    next
      case (Some name')
      note more = name_ok_more [OF less.prems(3) l [unfolded Some]] dns_labels_more [OF l [unfolded Some]]
      have run: "labels_loop strdup buf1 k name' table1 = Inr (r, buf', table')"
        using l None l63 put less.prems(1) Some by (subst (asm) labels_loop.simps) (auto simp: table1_def split: option.splits)
      have "\<exists>n. r = int n \<and> k < n \<and> n \<le> length buf1 \<and> length buf' = length buf1 \<and> take k buf' = take k buf1 \<and>
        name_at (take n buf') s k (dns_labels name') n \<and>
        (\<forall>t'. table' = Some t' \<longrightarrow> (\<exists>t. table1 = Some t \<and>
           (\<forall>(v, pos)\<in>set t' - set t. entry_at (take n buf') v pos \<and> pos < n)))"
      proof (rule less.hyps [OF next_label_less [OF l [unfolded Some]] run less.prems(2)])
        fix t v pos
        assume t: "table1 = Some t" "(v, pos) \<in> set t" "length v \<le> length name'"
        then obtain t0 where "table = Some t0" "(v, pos) \<in> set (dnslabel_table_add strdup t0 name j)"
          by (auto simp: table1_def)
        with set_table_add [of strdup t0 name j] t(3) next_label_less [OF l [unfolded Some]]
        have t0: "table = Some t0" "(v, pos) \<in> set t0" by auto
        have "length v \<le> length name" using t next_label_less [OF l [unfolded Some]] by simp
        with less.prems(7) [OF t0] have old: "pos < s" "entry_at (take j buf) v pos" by auto
        have "take j buf = take j (take k buf1)" using d by (simp add: min_def)
        with old entry_at_prefix [of j buf v pos "take k buf1"]
        show "pos < s \<and> entry_at (take k buf1) v pos" by simp
      qed (use d less.prems more in auto)
      then obtain n where n: "r = int n" "k < n" "n \<le> length buf" "length buf' = length buf" "take k buf' = take k buf1"
        and at: "name_at (take n buf') s k (dns_labels name') n"
        and new: "table' = Some t' \<Longrightarrow> \<exists>t. table1 = Some t \<and>
           (\<forall>(v, pos)\<in>set t' - set t. entry_at (take n buf') v pos \<and> pos < n)" for t'
        using d by auto
      have tk: "take k (take n buf') = take k buf1" "take j buf' = take j buf"
      proof -
        show "take k (take n buf') = take k buf1" using n by (simp add: min_def)
        have "take j (take k buf') = take j (take k buf1)" by (simp only: n)
        then have "take j buf' = take j buf1" using d(1) by (simp add: min_def)
        then show "take j buf' = take j buf" by (simp only: d)
      qed
      have "take n buf' ! j = of_nat (length l)" "mem_read (j + 1) (length l) (take n buf') = l"
      proof -
        have "take n buf' ! j = take k (take n buf') ! j" using d(1) n(2) by simp
        also have "\<dots> = take k buf1 ! j" by (simp only: tk)
        also have "\<dots> = buf1 ! j" using d(1) by simp
        finally show "take n buf' ! j = of_nat (length l)" by (simp only: d)
        have "mem_read (j + 1) (length l) (take n buf') = drop (j + 1) (take k (take n buf'))"
          using d(1) n(2) by (simp add: mem_read_def drop_take)
        also have "\<dots> = mem_read (j + 1) (length l) buf1" unfolding tk using d(1) by (simp add: mem_read_def drop_take)
        finally show "mem_read (j + 1) (length l) (take n buf') = l" by (simp only: d)
      qed
      then have here: "name_at (take n buf') s j (dns_labels name) n"
        using name_at.label [of "length l" j "take n buf'" s "dns_labels name'" n] more l63 n at d
        by (simp add: unat_byte)
      then have mine: "entry_at (take n buf') name j \<and> j < n"
        using name_at_mono [OF here \<open>s \<le> j\<close>] n d by (auto simp: entry_at_def)
      have "\<exists>t. table = Some t \<and> (\<forall>(v, pos)\<in>set t' - set t. entry_at (take n buf') v pos \<and> pos < n)"
        if t': "table' = Some t'" for t'
      proof -
        from new [OF t'] obtain t where t: "table = Some t"
          "\<forall>(v, pos)\<in>set t' - set (dnslabel_table_add strdup t name j). entry_at (take n buf') v pos \<and> pos < n"
          by (auto simp: table1_def)
        with mine set_table_add [of strdup t name j] show ?thesis by blast
      qed
      then show ?thesis using n here tk d by (intro exI [of _ n]) auto
    qed
  qed
qed

text \<open>Reading the labels of a name back gives the name, without a dot at its end.\<close>

definition drop_last_dot :: "byte list \<Rightarrow> byte list" where
  "drop_last_dot name = (if name \<noteq> [] \<and> last name = 46 then butlast name else name)"

lemma next_labelD:
  "next_label name = (l, None) \<Longrightarrow> name = l \<and> 46 \<notin> set l"
  "next_label name = (l, Some more) \<Longrightarrow> name = l @ 46 # more"
  by (auto simp: next_label_def memchr_None split: option.splits dest!: memchr_SomeD)
    (metis id_take_nth_drop)

lemma join_dns_labels:
  "name_ok name \<Longrightarrow> join_onto out (dns_labels name)
     = (if name = [] then out else (if out = [] then out else out @ [46]) @ drop_last_dot name)"
proof (induction "length name" arbitrary: name out rule: less_induct)
  case less
  obtain l more where l: "next_label name = (l, more)" by (cases "next_label name")
  show ?case
  proof (cases more)
    case None
    with l next_labelD(1) [of name l] show ?thesis
      by (auto simp: dns_labels_last drop_last_dot_def dest!: last_in_set)
  next
    case (Some more)
    note nx = l [unfolded this]
    note ok = name_ok_more [OF less.prems nx]
    from less.hyps [OF next_label_less [OF nx], of "(if out = [] then out else out @ [46]) @ l"] ok
    have "join_onto ((if out = [] then out else out @ [46]) @ l) (dns_labels more)
        = (if more = [] then (if out = [] then out else out @ [46]) @ l
           else (if out = [] then out else out @ [46]) @ l @ [46] @ drop_last_dot more)" by simp
    moreover have "dns_labels name = l # dns_labels more" by (rule dns_labels_more [OF nx])
    moreover have "name = l @ 46 # more" by (rule next_labelD(2) [OF nx])
    ultimately show ?thesis using ok by (cases "more = []") (simp_all add: drop_last_dot_def butlast_append)
  qed
qed

text \<open>A buffer with two bytes more than the name is large enough.\<close>

lemma labels_loop_fits:
  assumes "j + length name + 2 \<le> length buf"
  shows "runs (labels_loop strdup buf j name table)
    (\<lambda>(r, buf', table'). r \<le> int (j + length name + 2) \<and> (name_ok name \<longrightarrow> 0 \<le> r))"
  using assms
proof (induction "length name" arbitrary: name buf j table rule: less_induct)
  case less
  obtain l more where l: "next_label name = (l, more)" by (cases "next_label name")
  have l63: "name_ok name \<Longrightarrow> length l \<le> 63" using l by (cases more) (auto dest: name_ok_last name_ok_more)
  have "length l \<le> length name" using l by (cases more) (auto dest: next_labelD)
  then obtain buf1 k where put: "put_label l buf j = Some (buf1, k)" using less.prems by (auto simp: put_label_def)
  note d = put_labelD [OF put]
  show ?case
  proof (cases "case table of None \<Rightarrow> None | Some t \<Rightarrow> dnslabel_table_get_pos t name")
    case (Some ref)
    then show ?thesis using less.prems by (subst labels_loop.simps) (auto simp: APPEND16_def split: option.splits)
  next
    case None
    show ?thesis
    proof (cases "length l \<le> 63")
      case False
      with None l l63 show ?thesis by (subst labels_loop.simps) auto
    next
      case True
      show ?thesis
      proof (cases more)
        case None': None
        then show ?thesis using None l True put d next_labelD(1) [of name l] less.prems
          by (subst labels_loop.simps) (auto simp: Let_def put_end_def split: option.splits)
      next
        case (Some name')
        have "name = l @ 46 # name'" using l Some by (simp add: next_labelD(2))
        then have "runs (labels_loop strdup buf1 k name' table1)
            (\<lambda>(r, buf', table'). r \<le> int (k + length name' + 2) \<and> (name_ok name' \<longrightarrow> 0 \<le> r))" for table1
          using d less.prems by (intro less.hyps) auto
        then have "runs (labels_loop strdup buf1 k name' table1)
            (\<lambda>(r, buf', table'). r \<le> int (j + length name + 2) \<and> (name_ok name \<longrightarrow> 0 \<le> r))" for table1
          by (rule runs_mono) (use d(1) \<open>name = l @ 46 # name'\<close> name_ok_more [of name l name'] l Some in auto)
        moreover have "labels_loop strdup buf j name table
            = labels_loop strdup buf1 k name' (map_option (\<lambda>t. dnslabel_table_add strdup t name j) table)"
          using None l True put Some by (subst labels_loop.simps) (simp add: Let_def not_less)
        ultimately show ?thesis by simp
      qed
    qed
  qed
qed

lemma labels_loop_length:
  assumes "labels_loop strdup buf j name table = Inr (r, buf', table')" "j \<le> length buf"
  shows "length buf' = length buf \<and> take j buf' = take j buf"
  using assms
proof (induction "length name" arbitrary: name buf j table rule: less_induct)
  case less
  obtain l more where l: "next_label name = (l, more)" by (cases "next_label name")
  show ?case
  proof (cases "(case table of None \<Rightarrow> None | Some t \<Rightarrow> dnslabel_table_get_pos t name) \<noteq> None \<or> 63 < length l \<or> put_label l buf j = None")
    case True
    with l less.prems show ?thesis
      by (subst (asm) labels_loop.simps) (auto simp: APPEND16_def htons_def length_mem_write split: option.splits if_splits)
  next
    case False
    then obtain buf1 k where put: "put_label l buf j = Some (buf1, k)" by auto
    note d = put_labelD [OF put]
    show ?thesis
    proof (cases more)
      case None
      with False l put less.prems obtain r' where "put_end buf1 k = Inr (r', buf')"
        by (subst (asm) labels_loop.simps) (auto simp: bindE_Inr_iff split: option.splits)
      then have "length buf' = length buf1 \<and> take j buf' = take j buf1"
        using d(1-3) by (auto simp: put_end_def length_mem_write split: if_splits)
      then show ?thesis by (simp add: d)
    next
      case (Some name')
      from False l put less.prems(1) Some obtain table1 where "labels_loop strdup buf1 k name' table1 = Inr (r, buf', table')"
        by (subst (asm) labels_loop.simps) (auto split: option.splits)
      from less.hyps [OF next_label_less [OF l [unfolded Some]] this] d(2,3)
      have keep: "length buf' = length buf1" "take k buf' = take k buf1" by auto
      then have "take j (take k buf') = take j (take k buf1)" by simp
      then have "take j buf' = take j buf1" using d(1) by (simp add: min_def)
      with keep show ?thesis by (simp add: d)
    qed
  qed
qed

section \<open>Whole names\<close>

definition table_in :: "byte list \<Rightarrow> dnslabel_table option \<Rightarrow> bool" where
  "table_in p table \<longleftrightarrow> (case table of None \<Rightarrow> True | Some t \<Rightarrow> \<forall>(v, pos)\<in>set t. entry_at p v pos)"

lemma dnsname_to_labels_writes:
  assumes run: "dnsname_to_labels strdup buf j name table = Inr (r, buf', table')" and "0 \<le> r" and ok: "name_ok name"
    and bnd: "j \<le> length buf" "length buf \<le> 0x4000" and tab: "table_in (take j buf) table"
  shows "\<exists>k. r = int k \<and> j < k \<and> k \<le> length buf \<and> length buf' = length buf \<and> take j buf' = take j buf \<and>
    name_at (take k buf') j j (dns_labels name) k \<and> table_in (take k buf') table'"
proof -
  from run \<open>0 \<le> r\<close> have run': "labels_loop strdup buf j name table = Inr (r, buf', table')"
    by (auto simp: dnsname_to_labels_def split: if_splits)
  have entries: "pos < j \<and> entry_at (take j buf) v pos" if "table = Some t" "(v, pos) \<in> set t" "length v \<le> length name" for t v pos
    using tab that(1,2) by (fastforce simp: table_in_def entry_at_def dest: name_at_bounds)
  have "\<exists>k. r = int k \<and> j < k \<and> k \<le> length buf \<and> length buf' = length buf \<and> take j buf' = take j buf \<and>
    name_at (take k buf') j j (dns_labels name) k \<and>
    (\<forall>t'. table' = Some t' \<longrightarrow> (\<exists>t. table = Some t \<and>
       (\<forall>(v, pos)\<in>set t' - set t. entry_at (take k buf') v pos \<and> pos < k)))"
    by (rule labels_loop_writes [OF run' \<open>0 \<le> r\<close> ok le_refl bnd]) (rule entries)
  then obtain k where k: "r = int k" "j < k" "k \<le> length buf" "length buf' = length buf" "take j buf' = take j buf"
      "name_at (take k buf') j j (dns_labels name) k"
    and t: "\<forall>t'. table' = Some t' \<longrightarrow> (\<exists>t. table = Some t \<and>
       (\<forall>(v, pos)\<in>set t' - set t. entry_at (take k buf') v pos \<and> pos < k))"
    by (elim exE conjE)
  have keep: "take j buf = take j (take k buf')" using k by (simp add: min_def)
  have "table_in (take k buf') table'"
  proof (cases table')
    case (Some t')
    with t obtain t where "table = Some t"
      "\<forall>(v, pos)\<in>set t' - set t. entry_at (take k buf') v pos \<and> pos < k" by blast
    with tab show ?thesis unfolding Some table_in_def
      by (fastforce intro: entry_at_prefix [OF _ keep])
  qed (simp add: table_in_def)
  with k show ?thesis by blast
qed

lemma dnsname_to_labels_length:
  "dnsname_to_labels strdup buf j name table = Inr (r, buf', table') \<Longrightarrow> j \<le> length buf
   \<Longrightarrow> length buf' = length buf \<and> take j buf' = take j buf"
  by (auto simp: dnsname_to_labels_def dest: labels_loop_length split: if_splits)

lemma dnsname_to_labels_fits:
  "j + length name + 2 \<le> length buf \<Longrightarrow> runs (dnsname_to_labels strdup buf j name table)
     (\<lambda>(r, buf', table'). r \<le> int (j + length name + 2) \<and> (name_ok name \<and> length name \<le> 255 \<longrightarrow> 0 \<le> r))"
  using labels_loop_fits [of j name buf strdup table] by (auto simp: dnsname_to_labels_def elim!: runs_mono)

text \<open>\<open>name_parse\<close> of a name that was written: the bytes behind the message do not matter.\<close>

lemma name_parse_written:
  assumes "name_at p j j (dns_labels name) k" "name_ok name" "length name < out_len"
  shows "name_parse (p @ rest) (length p) j out_len = Inr (Some (k, drop_last_dot name))"
proof -
  have "length (drop_last_dot name) \<le> length name" by (simp add: drop_last_dot_def)
  with name_loop_reads [of p j j "dns_labels name" k 0 "[]" out_len rest None] name_at_bounds [OF assms(1)] assms
  show ?thesis by (auto simp: name_parse_def join_dns_labels drop_last_dot_def)
qed

section \<open>Properties\<close>

text \<open>
  C27: \<open>name_parse\<close> ends for every packet, whatever its compression pointers are; with 63 bytes of memory
  behind the \<open>length\<close> it is given it reads inside its packet, and if it succeeds it has moved \<open>*idx\<close> forward, not
  beyond \<open>length\<close>, and the name with its null byte fits the buffer.
\<close>

theorem name_parse_stays_inside:
  assumes "len + 63 \<le> length packet" "idx \<le> len"
  shows "runs (name_parse packet len idx name_out_len)
    (\<lambda>r. case r of None \<Rightarrow> True
         | Some (idx', name) \<Rightarrow> idx < idx' \<and> idx' \<le> len \<and> length name < name_out_len)"
  using name_loop_safe [of len packet "[]" name_out_len idx idx None 0] assms by (simp add: name_parse_def)

text \<open>A packet that is a pointer to itself.\<close>

theorem name_parse_stays_inside_witness:
  "runs (name_parse ([0xc0, 0] @ replicate 63 0) 2 0 256)
    (\<lambda>r. case r of None \<Rightarrow> True | Some (idx', name) \<Rightarrow> 0 < idx' \<and> idx' \<le> 2 \<and> length name < 256)"
  by (rule name_parse_stays_inside) simp_all

text \<open>
  \<open>name_parse\<close> does not compare the end of a label with \<open>length\<close>: when a packet fills its buffer (1500
  bytes in \<open>nameserver_read\<close> and \<open>server_port_read\<close>) and ends inside a label, the label is copied from behind
  the buffer.
\<close>

theorem name_parse_reads_behind:
  "name_parse (replicate 1498 x @ [63, 97]) 1500 1498 256 = Inl Out_Of_Bounds"
  by (simp add: name_parse_def name_loop.simps Let_def nth_append)

text \<open>
  C28: \<open>dnsname_to_labels\<close> and \<open>name_parse\<close> with the compression table. The names in the table are those at
  their positions in the message before \<open>j\<close>. Then a name that \<open>dnsname_to_labels\<close> has written at \<open>j\<close> is what
  \<open>name_parse\<close> reads there, up to a dot at its end, in whatever memory the message is, and \<open>*idx\<close> is then the index
  that was returned; the message before \<open>j\<close> has not changed, and the table is right for the longer message.
\<close>

theorem names_round_trip:
  assumes "dnsname_to_labels strdup buf j name table = Inr (r, buf', table')" "0 \<le> r"
    and "name_ok name" "j \<le> length buf" "length buf \<le> 0x4000" "table_in (take j buf) table"
  shows "name_parse (take (nat r) buf' @ rest) (nat r) j 256 = Inr (Some (nat r, drop_last_dot name)) \<and>
    take j buf' = take j buf \<and> length buf' = length buf \<and> table_in (take (nat r) buf') table'"
proof -
  from dnsname_to_labels_writes [OF assms] obtain k where k: "r = int k" "k \<le> length buf" "length buf' = length buf"
    "take j buf' = take j buf" "name_at (take k buf') j j (dns_labels name) k" "table_in (take k buf') table'" by blast
  from assms(1,2) have "length name < 256" by (auto simp: dnsname_to_labels_def split: if_splits)
  with name_parse_written [OF k(5) assms(3), of 256 rest] k show ?thesis by simp
qed

text \<open>The name \<open>a.b\<close> behind \<open>b\<close>, for which it has a pointer.\<close>

theorem names_round_trip_witness:
  "name_parse (take 7 [1, 98, 0, 1, 97, 0xc0, 0, 0] @ [99]) 7 3 256 = Inr (Some (7, [97, 46, 98]))"
proof -
  have run: "dnsname_to_labels (\<lambda>_. True) [1, 98, 0, 0, 0, 0, 0, 0] 3 [97, 46, 98] (Some [([98], 0)])
      = Inr (7, [1, 98, 0, 1, 97, 0xc0, 0, 0], Some [([98], 0), ([97, 46, 98], 3)])"
    by (simp add: dnsname_to_labels_def labels_loop.simps dnslabel_table_get_pos_def next_label_def put_label_def
        APPEND16_def htons_def mem_write_def dnslabel_table_add_def MAX_LABELS_def)
  have "name_at [1, 98, 0] 0 0 (mem_read (0 + 1) 1 [1, 98, 0] # []) 3"
    by (rule name_at.label) (use name_at.stop [of 2 "[1, 98, 0]" 0] in \<open>simp_all add: numeral_2_eq_2 numeral_3_eq_3\<close>)
  then have tab: "table_in (take 3 [1, 98, 0, 0, 0, 0, 0, 0]) (Some [([98], 0)])"
    by (auto simp: table_in_def entry_at_def dns_labels_def mem_read_def)
  show ?thesis
    using names_round_trip [OF run _ _ _ _ tab, of "[99]"] by (simp add: name_ok_def drop_last_dot_def)
qed

end
