(* ===== verification/Evdns_Server.thy ===== *)
theory Evdns_Server
  imports Evdns_Names
begin

text \<open>
  The DNS server side of \<open>evdns.c\<close>: a port with its reference count, lock and list of pending replies; requests
  as they are parsed, answered, sent, queued, dropped and freed. Datagrams, allocation and the user's callback
  are parameters; the event of the port is represented by what it listens for.
\<close>

section \<open>State\<close>

definition TYPE_A :: int where "TYPE_A = 1"
definition TYPE_CNAME :: int where "TYPE_CNAME = 5"
definition TYPE_PTR :: int where "TYPE_PTR = 12"
definition TYPE_AAAA :: int where "TYPE_AAAA = 28"
definition CLASS_INET :: int where "CLASS_INET = 1"
definition EVDNS_FLAGS_AA :: "32 word" where "EVDNS_FLAGS_AA = 0x400"
definition EVDNS_FLAGS_RD :: "32 word" where "EVDNS_FLAGS_RD = 0x080"

text \<open>An address is the \<open>addrlen\<close> bytes of the \<open>sockaddr\<close>.\<close>

type_synonym address = "byte list"

record server_reply_item =
  item_name :: "byte list"
  item_type :: "16 word"
  item_class :: "16 word"
  item_ttl :: "32 word"
  item_is_name :: bool
  item_datalen :: "16 word"
  item_data :: "byte list option"

record evdns_server_question =
  q_type :: int
  q_class :: int
  q_name :: "byte list"

text \<open>\<open>base\<close> of the request is \<open>req_flags\<close> and \<open>questions\<close>; \<open>nquestions\<close> is the length of the list.\<close>

record server_request =
  trans_id :: "16 word"
  req_addr :: address
  n_answer :: int
  n_authority :: int
  n_additional :: int
  answer :: "server_reply_item list"
  authority :: "server_reply_item list"
  additional :: "server_reply_item list"
  response :: "byte list option"
  response_len :: nat
  req_flags :: "32 word"
  questions :: "evdns_server_question list"

text \<open>
  \<open>listening\<close> tells whether the event of the port waits, and for what (\<open>EV_READ\<close>, \<open>EV_WRITE\<close>).
  \<open>lock_count\<close> is how often this thread holds the recursive lock.
\<close>

record server_port =
  refcnt :: int
  choked :: bool
  closing :: bool
  listening :: "(bool \<times> bool) option"
  pending_replies :: "nat list"
  lock_count :: nat

text \<open>
  A port and its requests; \<open>None\<close> is memory that is not allocated. The list of pending replies starts at
  \<open>port->pending_replies\<close>. \<open>outbox\<close> is what has been sent.
\<close>

record server =
  port :: "server_port option"
  requests :: "nat \<Rightarrow> server_request option"
  next_request :: nat
  outbox :: "(address \<times> byte list) list"

text \<open>The result of \<open>sendto\<close>: the datagram is sent, the error is one to retry (\<open>EVUTIL_ERR_RW_RETRIABLE\<close>), or another one.\<close>

datatype send_result = Sent | Retriable | Failed

text \<open>Freed memory must not be accessed.\<close>

definition get_port :: "server \<Rightarrow> server_port exec" where
  "get_port s = (case port s of None \<Rightarrow> Inl Out_Of_Bounds | Some p \<Rightarrow> Inr p)"

definition get_request :: "server \<Rightarrow> nat \<Rightarrow> server_request exec" where
  "get_request s r = (case requests s r of None \<Rightarrow> Inl Out_Of_Bounds | Some q \<Rightarrow> Inr q)"

definition upd_port :: "(server_port \<Rightarrow> server_port) \<Rightarrow> server \<Rightarrow> server exec" where
  "upd_port f s = bindE (get_port s) (\<lambda>p. Inr (s\<lparr>port := Some (f p)\<rparr>))"

definition put_request :: "nat \<Rightarrow> server_request \<Rightarrow> server \<Rightarrow> server" where
  "put_request r q s = s\<lparr>requests := (requests s)(r := Some q)\<rparr>"

definition EVDNS_LOCK :: "server \<Rightarrow> server exec" where
  "EVDNS_LOCK s = upd_port (\<lambda>p. p\<lparr>lock_count := lock_count p + 1\<rparr>) s"

definition EVDNS_UNLOCK :: "server \<Rightarrow> server exec" where
  "EVDNS_UNLOCK s = upd_port (\<lambda>p. p\<lparr>lock_count := lock_count p - 1\<rparr>) s"

section \<open>Answers\<close>

text \<open>
  \<open>data\<close> is the memory the caller points to (for a name, the string). \<open>malloc\<close> and \<open>strdup\<close> tell for which sizes
  and strings there is memory, \<open>new_item\<close> whether there is for the item. An item is freed again on failure.
\<close>

definition new_reply_item ::
    "(nat \<Rightarrow> bool) \<Rightarrow> (byte list \<Rightarrow> bool) \<Rightarrow> byte list \<Rightarrow> int \<Rightarrow> int \<Rightarrow> int \<Rightarrow> int \<Rightarrow> int \<Rightarrow> byte list option
     \<Rightarrow> server_reply_item option exec" where
  "new_reply_item malloc strdup name type class ttl datalen is_name data =
     (if \<not> strdup name then Inr None
      else let item = \<lparr>item_name = name, item_type = of_int type, item_class = of_int class, item_ttl = of_int ttl,
                       item_is_name = is_name \<noteq> 0, item_datalen = 0, item_data = None\<rparr> in
      case data of
        None \<Rightarrow> Inr (Some item)
      | Some data \<Rightarrow>
          if item_is_name item then
            if strdup data then Inr (Some (item\<lparr>item_data := Some data, item_datalen := -1\<rparr>)) else Inr None
          else if \<not> malloc (to_size datalen) then Inr None
          else if to_size datalen > length data then Inl Out_Of_Bounds
          else Inr (Some (item\<lparr>item_data := Some (take (to_size datalen) data), item_datalen := of_int datalen\<rparr>)))"

definition evdns_server_request_add_reply ::
    "bool \<Rightarrow> (nat \<Rightarrow> bool) \<Rightarrow> (byte list \<Rightarrow> bool) \<Rightarrow> nat \<Rightarrow> int \<Rightarrow> byte list \<Rightarrow> int \<Rightarrow> int \<Rightarrow> int \<Rightarrow> int \<Rightarrow> int
     \<Rightarrow> byte list option \<Rightarrow> server \<Rightarrow> (int \<times> server) exec" where
  "evdns_server_request_add_reply new_item malloc strdup r section name type class ttl datalen is_name data s =
     bindE (EVDNS_LOCK s) (\<lambda>s.
     bindE (get_request s r) (\<lambda>req.
     bindE (if response req \<noteq> None \<or> section \<notin> {0, 1, 2} \<or> \<not> new_item then Inr None
            else new_reply_item malloc strdup name type class ttl datalen is_name data) (\<lambda>item.
     case item of
       None \<Rightarrow> bindE (EVDNS_UNLOCK s) (\<lambda>s. Inr (-1, s))
     | Some item \<Rightarrow>
         let req = (if section = 0 then req\<lparr>answer := answer req @ [item], n_answer := n_answer req + 1\<rparr>
                    else if section = 1 then req\<lparr>authority := authority req @ [item], n_authority := n_authority req + 1\<rparr>
                    else req\<lparr>additional := additional req @ [item], n_additional := n_additional req + 1\<rparr>)
         in bindE (EVDNS_UNLOCK (put_request r req s)) (\<lambda>s. Inr (0, s)))))"

definition evdns_server_request_add_a_reply ::
    "bool \<Rightarrow> (nat \<Rightarrow> bool) \<Rightarrow> (byte list \<Rightarrow> bool) \<Rightarrow> nat \<Rightarrow> byte list \<Rightarrow> int \<Rightarrow> byte list option \<Rightarrow> int
     \<Rightarrow> server \<Rightarrow> (int \<times> server) exec" where
  "evdns_server_request_add_a_reply new_item malloc strdup r name n addrs ttl =
     evdns_server_request_add_reply new_item malloc strdup r 0 name TYPE_A CLASS_INET ttl (n * 4) 0 addrs"

definition evdns_server_request_add_aaaa_reply ::
    "bool \<Rightarrow> (nat \<Rightarrow> bool) \<Rightarrow> (byte list \<Rightarrow> bool) \<Rightarrow> nat \<Rightarrow> byte list \<Rightarrow> int \<Rightarrow> byte list option \<Rightarrow> int
     \<Rightarrow> server \<Rightarrow> (int \<times> server) exec" where
  "evdns_server_request_add_aaaa_reply new_item malloc strdup r name n addrs ttl =
     evdns_server_request_add_reply new_item malloc strdup r 0 name TYPE_AAAA CLASS_INET ttl (n * 16) 0 addrs"

text \<open>A byte in decimal, and the name of an address for reverse lookup; \<open>in\<close> is the address in network byte order.\<close>

definition decimal :: "byte \<Rightarrow> byte list" where
  "decimal b = (let n = unat b; digit = (\<lambda>d. of_nat (48 + d)) in
     if n < 10 then [digit n]
     else if n < 100 then [digit (n div 10), digit (n mod 10)]
     else [digit (n div 100), digit (n div 10 mod 10), digit (n mod 10)])"

definition in_addr_arpa :: "byte list" where
  "in_addr_arpa = [46, 105, 110, 45, 97, 100, 100, 114, 46, 97, 114, 112, 97]"

definition ptr_name :: "32 word \<Rightarrow> byte list" where
  "ptr_name a = decimal (ucast a) @ [46] @ decimal (ucast (drop_bit 8 a)) @ [46]
     @ decimal (ucast (drop_bit 16 a)) @ [46] @ decimal (ucast (drop_bit 24 a)) @ in_addr_arpa"

text \<open>\<open>in_addr\<close> is \<open>ntohl(in->s_addr)\<close>.\<close>

definition evdns_server_request_add_ptr_reply ::
    "bool \<Rightarrow> (nat \<Rightarrow> bool) \<Rightarrow> (byte list \<Rightarrow> bool) \<Rightarrow> nat \<Rightarrow> 32 word option \<Rightarrow> byte list option \<Rightarrow> byte list option \<Rightarrow> int
     \<Rightarrow> server \<Rightarrow> (int \<times> server) exec" where
  "evdns_server_request_add_ptr_reply new_item malloc strdup r in_addr inaddr_name hostname ttl s =
     (if in_addr \<noteq> None \<and> inaddr_name \<noteq> None then Inr (-1, s)
      else if in_addr = None \<and> inaddr_name = None then Inr (-1, s)
      else let name = (case in_addr of Some a \<Rightarrow> ptr_name a | None \<Rightarrow> the inaddr_name) in
           evdns_server_request_add_reply new_item malloc strdup r 0 name TYPE_PTR CLASS_INET ttl (-1) 1 hostname s)"

definition evdns_server_request_add_cname_reply ::
    "bool \<Rightarrow> (nat \<Rightarrow> bool) \<Rightarrow> (byte list \<Rightarrow> bool) \<Rightarrow> nat \<Rightarrow> byte list \<Rightarrow> byte list option \<Rightarrow> int
     \<Rightarrow> server \<Rightarrow> (int \<times> server) exec" where
  "evdns_server_request_add_cname_reply new_item malloc strdup r name cname ttl =
     evdns_server_request_add_reply new_item malloc strdup r 0 name TYPE_CNAME CLASS_INET ttl (-1) 1 cname"

definition evdns_server_request_set_flags :: "nat \<Rightarrow> 32 word \<Rightarrow> server \<Rightarrow> server exec" where
  "evdns_server_request_set_flags r flags s =
     bindE (get_request s r) (\<lambda>req.
     Inr (put_request r (req\<lparr>req_flags := (req_flags req AND NOT (EVDNS_FLAGS_AA OR EVDNS_FLAGS_RD)) OR flags\<rparr>) s))"

section \<open>The response\<close>

text \<open>
  The bytes written so far (\<open>buf\<close>, \<open>j\<close>) and the table of names. Formatting may leave through \<open>overflow\<close>, or by
  returning the error of a question.
\<close>

type_synonym wire = "byte list \<times> nat \<times> dnslabel_table"

datatype leave = Overflowed "byte list" | Returned int

definition next_step :: "(leave + wire) exec \<Rightarrow> (wire \<Rightarrow> (leave + wire) exec) \<Rightarrow> (leave + wire) exec" where
  "next_step m f = bindE m (\<lambda>r. case r of Inl e \<Rightarrow> Inr (Inl e) | Inr w \<Rightarrow> f w)"

definition put16 :: "16 word \<Rightarrow> wire \<Rightarrow> (leave + wire) exec" where
  "put16 x = (\<lambda>(buf, j, table).
     case APPEND16 x (buf, j) of None \<Rightarrow> Inr (Inl (Overflowed buf)) | Some (buf, j) \<Rightarrow> Inr (Inr (buf, j, table)))"

definition put32 :: "32 word \<Rightarrow> wire \<Rightarrow> (leave + wire) exec" where
  "put32 x = (\<lambda>(buf, j, table).
     case APPEND32 x (buf, j) of None \<Rightarrow> Inr (Inl (Overflowed buf)) | Some (buf, j) \<Rightarrow> Inr (Inr (buf, j, table)))"

definition put_name :: "(byte list \<Rightarrow> bool) \<Rightarrow> (int \<Rightarrow> byte list \<Rightarrow> leave) \<Rightarrow> byte list \<Rightarrow> wire \<Rightarrow> (leave + wire) exec" where
  "put_name strdup fail name = (\<lambda>(buf, j, table).
     bindE (dnsname_to_labels strdup buf j name (Some table)) (\<lambda>(r, buf, table).
     if r < 0 then Inr (Inl (fail r buf)) else Inr (Inr (buf, nat r, the table))))"

fun put_all :: "('a \<Rightarrow> wire \<Rightarrow> (leave + wire) exec) \<Rightarrow> 'a list \<Rightarrow> wire \<Rightarrow> (leave + wire) exec" where
  "put_all f [] w = Inr (Inr w)"
| "put_all f (x # xs) w = next_step (f x w) (put_all f xs)"

definition put_question :: "(byte list \<Rightarrow> bool) \<Rightarrow> evdns_server_question \<Rightarrow> wire \<Rightarrow> (leave + wire) exec" where
  "put_question strdup q w =
     next_step (next_step (put_name strdup (\<lambda>r _. Returned r) (q_name q) w)
       (put16 (of_int (q_type q)))) (put16 (of_int (q_class q)))"

text \<open>The length of a name is stored when the name has been written.\<close>

definition put_data :: "(byte list \<Rightarrow> bool) \<Rightarrow> server_reply_item \<Rightarrow> wire \<Rightarrow> (leave + wire) exec" where
  "put_data strdup item = (\<lambda>(buf, j, table).
     if item_is_name item then
       (case item_data item of
          None \<Rightarrow> Inl Null_Deref
        | Some data \<Rightarrow>
            next_step (put_name strdup (\<lambda>_. Overflowed) data (buf, j + 2, table)) (\<lambda>(buf, k, table).
            Inr (Inr (mem_write j (htons (of_nat (k - (j + 2)))) buf, k, table))))
     else next_step (put16 (item_datalen item) (buf, j, table)) (\<lambda>(buf, j, table).
          let datalen = unat (item_datalen item) in
          if j + datalen > length buf then Inr (Inl (Overflowed buf))
          else Inr (Inr (mem_write j (take datalen (case item_data item of None \<Rightarrow> [] | Some data \<Rightarrow> data)) buf, j + datalen, table))))"

definition put_item :: "(byte list \<Rightarrow> bool) \<Rightarrow> server_reply_item \<Rightarrow> wire \<Rightarrow> (leave + wire) exec" where
  "put_item strdup item w =
     next_step (next_step (next_step (next_step (put_name strdup (\<lambda>_. Overflowed) (item_name item) w)
       (put16 (item_type item))) (put16 (item_class item))) (put32 (item_ttl item))) (put_data strdup item)"

definition put_header :: "server_request \<Rightarrow> 16 word \<Rightarrow> wire \<Rightarrow> (leave + wire) exec" where
  "put_header req flags =
     put_all put16 [trans_id req, flags, of_nat (length (questions req)),
       of_int (n_answer req), of_int (n_authority req), of_int (n_additional req)]"

definition put_response :: "(byte list \<Rightarrow> bool) \<Rightarrow> server_request \<Rightarrow> 16 word \<Rightarrow> wire \<Rightarrow> (leave + wire) exec" where
  "put_response strdup req flags w =
     next_step (next_step (put_header req flags w) (put_all (put_question strdup) (questions req)))
       (put_all (put_item strdup) (answer req @ authority req @ additional req))"

definition server_request_free_answers :: "server_request \<Rightarrow> server_request" where
  "server_request_free_answers req = req\<lparr>answer := [], authority := [], additional := []\<rparr>"

text \<open>The end of the function, which is also reached by the label \<open>overflow\<close>.\<close>

definition keep_response :: "(nat \<Rightarrow> bool) \<Rightarrow> server_request \<Rightarrow> bool \<Rightarrow> byte list \<Rightarrow> nat \<Rightarrow> int \<times> server_request" where
  "keep_response malloc req overflow buf j =
     (let j = (if overflow then 512 else j);
          buf = (if overflow then buf[2 := buf ! 2 OR 0x02] else buf);
          req = server_request_free_answers (req\<lparr>response_len := j\<rparr>)
      in if malloc j then (0, req\<lparr>response := Some (take j buf)\<rparr>) else (-1, req))"

text \<open>\<open>stack\<close> is what the 1500 bytes of the local variable \<open>buf\<close> hold before anything is written to them.\<close>

definition evdns_server_request_format_response ::
    "(byte list \<Rightarrow> bool) \<Rightarrow> (nat \<Rightarrow> bool) \<Rightarrow> byte list \<Rightarrow> server_request \<Rightarrow> int \<Rightarrow> (int \<times> server_request) exec" where
  "evdns_server_request_format_response strdup malloc stack req err =
     (if err < 0 \<or> err > 15 then Inr (-1, req)
      else bindE (put_response strdup req (ucast (req_flags req) OR (0x8000 OR of_int err)) (stack, 0, [])) (\<lambda>r.
           case r of
             Inl (Returned i) \<Rightarrow> Inr (i, req)
           | Inl (Overflowed buf) \<Rightarrow> Inr (keep_response malloc req True buf 0)
           | Inr (buf, j, table) \<Rightarrow> Inr (keep_response malloc req (j > 512) buf j)))"

section \<open>Freeing\<close>

definition server_port_free :: "server \<Rightarrow> server exec" where
  "server_port_free s =
     bindE (get_port s) (\<lambda>p.
     if refcnt p \<noteq> 0 \<or> pending_replies p \<noteq> [] then Inl Assert_Failed else Inr (s\<lparr>port := None\<rparr>))"

text \<open>
  Taking the request out of the list of pending replies moves \<open>port->pending_replies\<close> on when it is the first one.
  The result tells whether the port has been freed.
\<close>

definition server_request_free :: "nat \<Rightarrow> server \<Rightarrow> (bool \<times> server) exec" where
  "server_request_free r s =
     bindE (get_request s r) (\<lambda>_.
     bindE (EVDNS_LOCK s) (\<lambda>s.
     bindE (upd_port (\<lambda>p. p\<lparr>pending_replies := remove1 r (pending_replies p), refcnt := refcnt p - 1\<rparr>) s) (\<lambda>s.
     bindE (get_port s) (\<lambda>p.
     bindE (EVDNS_UNLOCK (s\<lparr>requests := (requests s)(r := None)\<rparr>)) (\<lambda>s.
     if refcnt p = 0 then bindE (server_port_free s) (\<lambda>s. Inr (True, s)) else Inr (False, s))))))"

definition evdns_server_request_drop :: "nat \<Rightarrow> server \<Rightarrow> (int \<times> server) exec" where
  "evdns_server_request_drop r s = bindE (server_request_free r s) (\<lambda>(_, s). Inr (0, s))"

text \<open>The lock is not released when the port stays.\<close>

definition evdns_close_server_port :: "server \<Rightarrow> server exec" where
  "evdns_close_server_port s =
     bindE (EVDNS_LOCK s) (\<lambda>s.
     bindE (upd_port (\<lambda>p. p\<lparr>refcnt := refcnt p - 1\<rparr>) s) (\<lambda>s.
     bindE (get_port s) (\<lambda>p.
     if refcnt p = 0 then bindE (EVDNS_UNLOCK s) server_port_free
     else upd_port (\<lambda>p. p\<lparr>closing := True\<rparr>) s)))"

definition evdns_server_request_get_requesting_addr :: "nat \<Rightarrow> int \<Rightarrow> server \<Rightarrow> (int \<times> address) exec" where
  "evdns_server_request_get_requesting_addr r addr_len s =
     bindE (get_request s r) (\<lambda>req.
     Inr (if addr_len < int (length (req_addr req)) then (-1, []) else (int (length (req_addr req)), req_addr req)))"

section \<open>Sending\<close>

definition send_reply :: "server_request \<Rightarrow> server \<Rightarrow> server exec" where
  "send_reply req s = (case response req of None \<Rightarrow> Inl Null_Deref | Some bytes \<Rightarrow> Inr (s\<lparr>outbox := outbox s @ [(req_addr req, bytes)]\<rparr>))"

text \<open>\<open>send i\<close> is the result of the \<open>i\<close>-th \<open>sendto\<close>; \<open>ev_add\<close> tells whether \<open>event_add\<close> succeeds.\<close>

definition flush_step :: "(nat \<Rightarrow> send_result) \<Rightarrow> nat \<times> server \<Rightarrow> ((nat \<times> server) + (bool \<times> server)) exec" where
  "flush_step send = (\<lambda>(i, s).
     bindE (get_port s) (\<lambda>p.
     case pending_replies p of
       [] \<Rightarrow> Inr (Inr (True, s))
     | r # _ \<Rightarrow>
         bindE (get_request s r) (\<lambda>req.
         if send i = Retriable then Inr (Inr (False, s))
         else bindE (if send i = Sent then send_reply req s else Inr s) (\<lambda>s.
              bindE (server_request_free r s) (\<lambda>(freed, s).
              if freed then Inr (Inr (False, s))
              else bindE (get_port s) (\<lambda>p.
                   if pending_replies p \<noteq> [] \<and> hd (pending_replies p) = r then Inl Assert_Failed
                   else Inr (Inl (i + 1, s))))))))"

definition server_port_flush :: "(nat \<Rightarrow> send_result) \<Rightarrow> bool \<Rightarrow> server \<Rightarrow> server exec" where
  "server_port_flush send ev_add s =
     bindE (loops (flush_step send) (0, s)) (\<lambda>(all_sent, s).
     if all_sent then upd_port (\<lambda>p. p\<lparr>listening := if ev_add then Some (True, False) else None\<rparr>) s
     else Inr s)"

text \<open>
  A reply that could not be sent is linked into the ring of pending replies, at its end. A request that is the only one
  in the ring is linked to itself again; one that is in it beside others tears the ring apart, after which the list is
  no list any more.
\<close>

definition queue_reply :: "bool \<Rightarrow> nat \<Rightarrow> server_port \<Rightarrow> server_port exec" where
  "queue_reply ev_add r p =
     (if pending_replies p \<noteq> []
      then if r \<notin> set (pending_replies p) then Inr (p\<lparr>pending_replies := pending_replies p @ [r]\<rparr>)
           else if pending_replies p = [r] then Inr p
           else Inl Out_Of_Bounds
      else Inr (p\<lparr>pending_replies := [r], choked := True,
                  listening := if ev_add then Some (\<not> closing p, True) else None\<rparr>))"

definition evdns_server_request_respond ::
    "(byte list \<Rightarrow> bool) \<Rightarrow> (nat \<Rightarrow> bool) \<Rightarrow> byte list \<Rightarrow> (nat \<Rightarrow> send_result) \<Rightarrow> bool \<Rightarrow> nat \<Rightarrow> int \<Rightarrow> server
     \<Rightarrow> (int \<times> server) exec" where
  "evdns_server_request_respond strdup malloc stack send ev_add r err s =
     bindE (get_request s r) (\<lambda>req.
     bindE (EVDNS_LOCK s) (\<lambda>s.
     bindE (if response req = None then evdns_server_request_format_response strdup malloc stack req err else Inr (0, req)) (\<lambda>(res, req).
     let s = put_request r req s; done = (\<lambda>res s. bindE (EVDNS_UNLOCK s) (\<lambda>s. Inr (res, s))) in
     if res < 0 then done res s
     else case send 0 of
       Retriable \<Rightarrow> done (-1) s
     | Failed \<Rightarrow> bindE (get_port s) (\<lambda>p. bindE (queue_reply ev_add r p) (\<lambda>p. done 1 (s\<lparr>port := Some p\<rparr>)))
     | Sent \<Rightarrow>
         bindE (send_reply req s) (\<lambda>s.
         bindE (server_request_free r s) (\<lambda>(freed, s).
         if freed then done 0 s
         else bindE (get_port s) (\<lambda>p.
              bindE (if pending_replies p \<noteq> [] then server_port_flush (\<lambda>i. send (i + 1)) ev_add s else Inr s) (done 0)))))))"

section \<open>Requests\<close>

text \<open>\<open>GET16\<close> and \<open>GET32\<close>: \<open>None\<close> goes to \<open>err\<close>. \<open>packet\<close> is the memory of the packet, \<open>len\<close> the argument \<open>length\<close>.\<close>

type_synonym 'a parse = "'a option exec"

definition bindP :: "'a parse \<Rightarrow> ('a \<Rightarrow> 'b parse) \<Rightarrow> 'b parse" where
  "bindP m f = bindE m (\<lambda>r. case r of None \<Rightarrow> Inr None | Some x \<Rightarrow> f x)"

definition ntohs :: "byte list \<Rightarrow> 16 word" where
  "ntohs b = push_bit 8 (ucast (b ! 0)) OR ucast (b ! 1)"

definition ntohl :: "byte list \<Rightarrow> 32 word" where
  "ntohl b = push_bit 24 (ucast (b ! 0)) OR push_bit 16 (ucast (b ! 1)) OR push_bit 8 (ucast (b ! 2)) OR ucast (b ! 3)"

definition GET16 :: "byte list \<Rightarrow> nat \<Rightarrow> nat \<Rightarrow> (16 word \<times> nat) parse" where
  "GET16 packet len j =
     (if j + 2 > len then Inr None
      else if j + 2 > length packet then Inl Out_Of_Bounds
      else Inr (Some (ntohs (mem_read j 2 packet), j + 2)))"

definition GET32 :: "byte list \<Rightarrow> nat \<Rightarrow> nat \<Rightarrow> (32 word \<times> nat) parse" where
  "GET32 packet len j =
     (if j + 4 > len then Inr None
      else if j + 4 > length packet then Inl Out_Of_Bounds
      else Inr (Some (ntohl (mem_read j 4 packet), j + 4)))"

text \<open>The six numbers of a header.\<close>

definition get_header :: "byte list \<Rightarrow> nat \<Rightarrow> (16 word list \<times> nat) parse" where
  "get_header packet len =
     bindP (GET16 packet len 0) (\<lambda>(trans_id, j).
     bindP (GET16 packet len j) (\<lambda>(flags, j).
     bindP (GET16 packet len j) (\<lambda>(questions, j).
     bindP (GET16 packet len j) (\<lambda>(answers, j).
     bindP (GET16 packet len j) (\<lambda>(authority, j).
     bindP (GET16 packet len j) (\<lambda>(additional, j).
     Inr (Some ([trans_id, flags, questions, answers, authority, additional], j))))))))"

text \<open>The questions. \<open>malloc\<close> tells for which lengths of a name there is memory for the question.\<close>

fun get_questions :: "(nat \<Rightarrow> bool) \<Rightarrow> byte list \<Rightarrow> nat \<Rightarrow> nat \<Rightarrow> nat \<Rightarrow> (evdns_server_question list \<times> nat) parse" where
  "get_questions malloc packet len 0 j = Inr (Some ([], j))"
| "get_questions malloc packet len (Suc n) j =
     bindP (name_parse packet len j 256) (\<lambda>(j, name).
     bindP (GET16 packet len j) (\<lambda>(type, j).
     bindP (GET16 packet len j) (\<lambda>(class, j).
     let name = c_string name in
     if \<not> malloc (length name) then Inr None
     else bindP (get_questions malloc packet len n j) (\<lambda>(qs, j).
          Inr (Some (\<lparr>q_type = uint type, q_class = uint class, q_name = name\<rparr> # qs, j))))))"

text \<open>
  The request that a packet stands for, \<open>None\<close> if it is refused or there is no memory: \<open>new_req\<close> for the request,
  \<open>calloc\<close> for the array of questions.
\<close>

definition parse_request :: "bool \<Rightarrow> (nat \<Rightarrow> bool) \<Rightarrow> (nat \<Rightarrow> bool) \<Rightarrow> byte list \<Rightarrow> nat \<Rightarrow> address \<Rightarrow> server_request parse" where
  "parse_request new_req calloc malloc packet len addr =
     bindP (get_header packet len) (\<lambda>(h, j).
     let trans_id = h ! 0; flags = h ! 1; questions = unat (h ! 2) in
     if flags AND 0x8000 \<noteq> 0 then Inr None
     else if \<not> new_req \<or> \<not> calloc questions then Inr None
     else bindP (get_questions malloc packet len questions j) (\<lambda>(qs, j).
          Inr (Some \<lparr>trans_id = trans_id, req_addr = addr, n_answer = 0, n_authority = 0, n_additional = 0,
            answer = [], authority = [], additional = [], response = None, response_len = 0,
            req_flags = ucast (flags AND 0x0110), questions = qs\<rparr>)))"

text \<open>
  \<open>request_parse\<close>. \<open>respond r err\<close> is the call of \<open>evdns_server_request_respond\<close> for requests that are not
  implemented, \<open>callback r\<close> the user's callback.
\<close>

definition request_parse ::
    "bool \<Rightarrow> (nat \<Rightarrow> bool) \<Rightarrow> (nat \<Rightarrow> bool) \<Rightarrow> (nat \<Rightarrow> int \<Rightarrow> server \<Rightarrow> (int \<times> server) exec) \<Rightarrow> (nat \<Rightarrow> server \<Rightarrow> server exec)
     \<Rightarrow> byte list \<Rightarrow> nat \<Rightarrow> address \<Rightarrow> server \<Rightarrow> (int \<times> server) exec" where
  "request_parse new_req calloc malloc respond callback packet len addr s =
     bindE (parse_request new_req calloc malloc packet len addr) (\<lambda>req.
     case req of
       None \<Rightarrow> Inr (-1, s)
     | Some req \<Rightarrow>
         let r = next_request s; s = put_request r req s\<lparr>next_request := r + 1\<rparr> in
         bindE (upd_port (\<lambda>p. p\<lparr>refcnt := refcnt p + 1\<rparr>) s) (\<lambda>s.
         if req_flags req AND 0x7800 \<noteq> 0 then bindE (respond r 4 s) (\<lambda>(_, s). Inr (-1, s))
         else bindE (callback r s) (\<lambda>s. Inr (0, s))))"

text \<open>
  The loops over datagrams: what \<open>recvfrom\<close> stores overwrites the start of the local variable \<open>packet\<close>, the rest of
  it stays. After the last datagram \<open>recvfrom\<close> reports an error. \<open>parse\<close> is \<open>request_parse\<close> with its parameters.
\<close>

fun server_port_read ::
    "(byte list \<Rightarrow> nat \<Rightarrow> address \<Rightarrow> server \<Rightarrow> (int \<times> server) exec) \<Rightarrow> (byte list \<times> address) list \<Rightarrow> byte list
     \<Rightarrow> server \<Rightarrow> server exec" where
  "server_port_read parse [] packet s = bindE (get_port s) (\<lambda>_. Inr s)"
| "server_port_read parse ((bytes, addr) # received) packet s =
     bindE (get_port s) (\<lambda>_.
     let packet = mem_write 0 bytes packet in
     bindE (parse packet (length bytes) addr s) (\<lambda>(_, s).
     server_port_read parse received packet s))"

text \<open>\<open>readable\<close> and \<open>writable\<close> are the events the callback is called with.\<close>

definition server_port_ready_callback ::
    "(nat \<Rightarrow> send_result) \<Rightarrow> bool \<Rightarrow> (byte list \<Rightarrow> nat \<Rightarrow> address \<Rightarrow> server \<Rightarrow> (int \<times> server) exec)
     \<Rightarrow> (byte list \<times> address) list \<Rightarrow> byte list \<Rightarrow> bool \<Rightarrow> bool \<Rightarrow> server \<Rightarrow> server exec" where
  "server_port_ready_callback send ev_add parse received packet readable writable s =
     bindE (EVDNS_LOCK s) (\<lambda>s.
     bindE (if writable
            then bindE (upd_port (\<lambda>p. p\<lparr>choked := False\<rparr>) s) (server_port_flush send ev_add)
            else Inr s) (\<lambda>s.
     bindE (if readable then server_port_read parse received packet s else Inr s)
       EVDNS_UNLOCK))"

definition evdns_add_server_port_with_base :: "int \<Rightarrow> bool \<Rightarrow> bool \<Rightarrow> server option" where
  "evdns_add_server_port_with_base flags new_port ev_add =
     (if flags \<noteq> 0 \<or> \<not> new_port \<or> \<not> ev_add then None
      else Some \<lparr>port = Some \<lparr>refcnt = 1, choked = False, closing = False, listening = Some (True, False),
                  pending_replies = [], lock_count = 0\<rparr>,
                requests = (\<lambda>_. None), next_request = 0, outbox = []\<rparr>)"

section \<open>Queries\<close>

definition evdns_request_len :: "nat \<Rightarrow> nat" where
  "evdns_request_len name_len = 96 + name_len + 2 + 4"

text \<open>\<open>evdns_request_data_build\<close>: the value returned, and the buffer if it is not negative.\<close>

fun append_all :: "16 word list \<Rightarrow> byte list \<times> nat \<Rightarrow> (byte list \<times> nat) option" where
  "append_all [] b = Some b"
| "append_all (x # xs) b = (case APPEND16 x b of None \<Rightarrow> None | Some b \<Rightarrow> append_all xs b)"

definition evdns_request_data_build :: "byte list \<Rightarrow> 16 word \<Rightarrow> 16 word \<Rightarrow> 16 word \<Rightarrow> byte list \<Rightarrow> (int \<times> byte list) exec" where
  "evdns_request_data_build name tid type class buf =
     (case append_all [tid, 0x0100, 1, 0, 0, 0] (buf, 0) of
        None \<Rightarrow> Inr (-1, buf)
      | Some (buf, j) \<Rightarrow>
          bindE (dnsname_to_labels (\<lambda>_. False) buf j name None) (\<lambda>(r, buf, _).
          if r < 0 then Inr (r, buf)
          else case append_all [type, class] (buf, nat r) of
                 None \<Rightarrow> Inr (-1, buf)
               | Some (buf, j) \<Rightarrow> Inr (int j, buf)))"

end
