(* ===== verification/Evdns_Wire.thy ===== *)
theory Evdns_Wire
  imports Evdns_Server
begin

text \<open>
  Responses and queries on the wire: how much room formatting takes, and what a reader of the bytes finds.
\<close>

unbundle bit_operations_syntax

section \<open>Names outside\<close>

text \<open>The bytes from \<open>k\<close> on are the same.\<close>

definition same_from :: "nat \<Rightarrow> byte list \<Rightarrow> byte list \<Rightarrow> bool" where
  "same_from k b b' \<longleftrightarrow> length b' = length b \<and> drop k b' = drop k b"

lemma same_from_refl [simp]: "same_from k b b"
  by (simp add: same_from_def)

lemma same_from_mono: "same_from k b b' \<Longrightarrow> k \<le> k' \<Longrightarrow> same_from k' b b'"
  unfolding same_from_def by (metis drop_drop le_add_diff_inverse2)

lemma same_from_trans: "same_from k b b' \<Longrightarrow> same_from k b' b'' \<Longrightarrow> same_from k b b''"
  by (simp add: same_from_def)

lemma same_from_write: "pos + length bs \<le> k \<Longrightarrow> k \<le> length b \<Longrightarrow> same_from k b (mem_write pos bs b)"
  by (simp add: same_from_def length_mem_write) (simp add: mem_write_def)

text \<open>Names that can be encoded, and tables of such names.\<close>

definition short_labels :: "byte list \<Rightarrow> bool" where
  "short_labels name \<longleftrightarrow> (\<forall>l\<in>set (split_dots name). length l \<le> 63)"

definition encodable :: "byte list \<Rightarrow> bool" where
  "encodable name \<longleftrightarrow> length name \<le> 255 \<and> short_labels name"

definition clean :: "dnslabel_table \<Rightarrow> bool" where
  "clean t \<longleftrightarrow> (\<forall>(v, pos)\<in>set t. short_labels v)"

lemma short_labels_next:
  "next_label name = (l, None) \<Longrightarrow> short_labels name \<longleftrightarrow> length l \<le> 63"
  "next_label name = (l, Some m) \<Longrightarrow> short_labels name \<longleftrightarrow> length l \<le> 63 \<and> short_labels m"
  by (simp_all add: short_labels_def next_label_last next_label_more)

lemma put_label_outside:
  assumes "put_label l buf j = Some (buf', k)" "k \<le> m" "m \<le> length buf"
  shows "same_from m buf buf'"
proof -
  have k: "k = j + 1 + length l" "buf' = mem_write (j + 1) l (mem_write j [of_nat (length l)] buf)"
    using assms(1) by (auto simp: put_label_def split: if_splits)
  have "same_from m buf (mem_write j [of_nat (length l)] buf)"
    using assms(2,3) k(1) by (intro same_from_write) simp_all
  moreover from this have "same_from m (mem_write j [of_nat (length l)] buf) buf'"
    unfolding k(2) using assms(2,3) k(1) by (intro same_from_write) (simp_all add: same_from_def)
  ultimately show ?thesis by (rule same_from_trans)
qed

text \<open>A name is written into the room for it if all its labels are short enough; otherwise the loop gives up.\<close>

lemma labels_loop_outside:
  assumes "j + length name + 2 \<le> length buf" and "\<forall>(v, pos)\<in>set t. length v \<le> length name \<longrightarrow> short_labels v"
  shows "runs (labels_loop strdup buf j name (Some t)) (\<lambda>(r, buf', table').
    same_from (j + length name + 2) buf buf' \<and> r \<le> int (j + length name + 2) \<and> (0 \<le> r \<longleftrightarrow> short_labels name) \<and>
    (\<exists>t'. table' = Some t' \<and> (0 \<le> r \<longrightarrow> (\<forall>(v, pos)\<in>set t' - set t. short_labels v))))"
  using assms
proof (induction "length name" arbitrary: name buf j t rule: less_induct)
  case less
  let ?m = "j + length name + 2"
  obtain l rest where l: "next_label name = (l, rest)" by (cases "next_label name")
  have "length l \<le> length name" using l by (cases rest) (auto dest: next_labelD)
  then obtain buf1 k where put: "put_label l buf j = Some (buf1, k)" using less.prems(1) by (auto simp: put_label_def)
  note d = put_labelD [OF put]
  show ?case
  proof (cases "dnslabel_table_get_pos t name")
    case (Some ref)
    from get_pos_Some [OF Some] less.prems(2) have "short_labels name" by auto
    with Some less.prems(1) show ?thesis
      by (subst labels_loop.simps) (auto simp: APPEND16_def htons_def intro!: same_from_write)
  next
    case None
    show ?thesis
    proof (cases "length l \<le> 63")
      case False
      then have "\<not> short_labels name" using l by (cases rest) (simp_all add: short_labels_next)
      with None l False show ?thesis by (subst labels_loop.simps) auto
    next
      case True
      have k: "k \<le> j + length name + 1" "k + 1 \<le> ?m" using d(1) \<open>length l \<le> length name\<close> by simp_all
      then have out: "same_from ?m buf buf1" using less.prems(1) by (intro put_label_outside [OF put]) simp_all
      show ?thesis
      proof (cases rest)
        case None': None
        have nl: "name = l" "short_labels name" using l None' True next_labelD(1) by (auto simp: short_labels_next)
        have w: "same_from ?m buf (mem_write k [0] buf1)"
          using same_from_trans [OF out same_from_write [of k "[0]" ?m buf1]] k(2) less.prems(1) out by (simp add: same_from_def)
        have new: "\<forall>(v, pos)\<in>set (dnslabel_table_add strdup t name j) - set t. short_labels v"
          using set_table_add [of strdup t name j] nl(2) by auto
        have "k < length buf1" using out k(2) less.prems(1) by (simp add: same_from_def)
        then show ?thesis using None l True put None' k(2) out w new nl(2)
          by (subst labels_loop.simps) (auto simp: Let_def put_end_def)
      next
        case (Some name')
        have n: "name = l @ 46 # name'" using l Some by (simp add: next_labelD(2))
        let ?t = "dnslabel_table_add strdup t name j"
        have "\<forall>(v, pos)\<in>set ?t. length v \<le> length name' \<longrightarrow> short_labels v"
          using set_table_add [of strdup t name j] less.prems(2) n by fastforce
        then have "runs (labels_loop strdup buf1 k name' (Some ?t)) (\<lambda>(r, buf', table').
          same_from (k + length name' + 2) buf1 buf' \<and> r \<le> int (k + length name' + 2) \<and> (0 \<le> r \<longleftrightarrow> short_labels name') \<and>
          (\<exists>t'. table' = Some t' \<and> (0 \<le> r \<longrightarrow> (\<forall>(v, pos)\<in>set t' - set ?t. short_labels v))))"
          using d less.prems n by (intro less.hyps) auto
        moreover have new: "\<forall>(v, pos)\<in>set t' - set t. short_labels v"
          if "\<forall>(v, pos)\<in>set t' - set ?t. short_labels v" "short_labels name" for t'
          using that set_table_add [of strdup t name j] by fastforce
        moreover have "k + length name' + 2 = ?m" using d(1) n by simp
        moreover have "short_labels name \<longleftrightarrow> short_labels name'" using l Some True by (simp add: short_labels_next)
        ultimately have "runs (labels_loop strdup buf1 k name' (Some ?t)) (\<lambda>(r, buf', table').
          same_from ?m buf buf' \<and> r \<le> int ?m \<and> (0 \<le> r \<longleftrightarrow> short_labels name) \<and>
          (\<exists>t'. table' = Some t' \<and> (0 \<le> r \<longrightarrow> (\<forall>(v, pos)\<in>set t' - set t. short_labels v))))"
          using new same_from_trans [OF out] by (auto elim!: runs_mono)
        moreover have "labels_loop strdup buf j name (Some t) = labels_loop strdup buf1 k name' (Some ?t)"
          using None l True put Some by (subst labels_loop.simps) (simp add: Let_def not_less)
        ultimately show ?thesis by simp
      qed
    qed
  qed
qed

lemma dnsname_to_labels_outside:
  assumes "j + length name + 2 \<le> length buf" and "clean t"
  shows "runs (dnsname_to_labels strdup buf j name (Some t)) (\<lambda>(r, buf', table').
    same_from (j + length name + 2) buf buf' \<and> r \<le> int (j + length name + 2) \<and> (0 \<le> r \<longleftrightarrow> encodable name) \<and>
    (\<exists>t'. table' = Some t' \<and> (0 \<le> r \<longrightarrow> clean t')))"
proof -
  have "\<forall>(v, pos)\<in>set t. length v \<le> length name \<longrightarrow> short_labels v" using assms(2) by (auto simp: clean_def)
  from labels_loop_outside [OF assms(1) this, of strdup] show ?thesis
    using assms(2) by (fastforce simp: dnsname_to_labels_def encodable_def clean_def elim!: runs_mono)
qed

section \<open>Room\<close>

text \<open>
  \<open>fits b k G P m\<close>: the step \<open>m\<close> of a formatting that began with the buffer \<open>b\<close> writes nothing at \<open>k\<close> or behind it.
  It ends at \<open>k\<close> at most if \<open>G\<close> and \<open>P\<close>; without \<open>G\<close> it may return an error, without \<open>P\<close> it may overflow.
\<close>

definition fits :: "byte list \<Rightarrow> nat \<Rightarrow> bool \<Rightarrow> bool \<Rightarrow> (leave + wire) exec \<Rightarrow> bool" where
  "fits b k G P m \<longleftrightarrow> runs m (\<lambda>r. case r of
      Inl (Overflowed b') \<Rightarrow> \<not> P \<and> same_from k b b'
    | Inl (Returned i) \<Rightarrow> \<not> G \<and> i < 0
    | Inr (b', j, t) \<Rightarrow> G \<and> P \<and> same_from k b b' \<and> j \<le> k \<and> clean t)"

lemma fits_step:
  assumes "fits b k G P m" and "k \<le> k'"
    and "\<And>b' j t. G \<Longrightarrow> P \<Longrightarrow> same_from k b b' \<Longrightarrow> j \<le> k \<Longrightarrow> clean t \<Longrightarrow> fits b k' G' P' (f (b', j, t))"
  shows "fits b k' (G \<and> G') (P \<and> P') (next_step m f)"
  unfolding fits_def next_step_def
proof (rule runs_bindI [OF assms(1) [unfolded fits_def]], goal_cases)
  case (1 r)
  show ?case
  proof (cases r)
    case (Inl e)
    then show ?thesis using 1 same_from_mono [OF _ assms(2)] by (cases e) auto
  next
    case (Inr w)
    obtain b' j t where w: "w = (b', j, t)" by (cases w)
    with Inr 1 assms(3) [of b' j t] show ?thesis by (auto simp: fits_def elim!: runs_mono split: sum.splits leave.splits)
  qed
qed

lemma fits_mono: "fits b k G P m \<Longrightarrow> k \<le> k' \<Longrightarrow> fits b k' G P m"
  unfolding fits_def by (erule runs_mono) (auto split: sum.splits leave.splits intro: same_from_mono)

lemma fits_cases:
  assumes "fits b k G P m"
  obtains (over) b' where "m = Inr (Inl (Overflowed b'))" "\<not> P" "same_from k b b'"
  | (ret) i where "m = Inr (Inl (Returned i))" "\<not> G" "i < 0"
  | (goes) b' j t where "m = Inr (Inr (b', j, t))" "G" "P" "same_from k b b'" "j \<le> k" "clean t"
proof -
  from assms obtain r where r: "m = Inr r" "case r of Inl (Overflowed b') \<Rightarrow> \<not> P \<and> same_from k b b'
      | Inl (Returned i) \<Rightarrow> \<not> G \<and> i < 0 | Inr (b', j, t) \<Rightarrow> G \<and> P \<and> same_from k b b' \<and> j \<le> k \<and> clean t"
    unfolding fits_def runs_iff by blast
  show thesis
  proof (cases r)
    case (Inl e)
    with r over ret show thesis by (cases e) auto
  next
    case (Inr w)
    with r goes show thesis by (cases w) auto
  qed
qed

lemma length_htons [simp]: "length (htons x) = 2"
  by (simp add: htons_def)

lemma length_htonl [simp]: "length (htonl x) = 4"
  by (simp add: htonl_def)

lemma same_from_written:
  assumes "same_from k b b'" "k \<le> k'" "pos + length bs \<le> k'" "k' \<le> length b"
  shows "same_from k' b (mem_write pos bs b')"
proof -
  have "length b' = length b" using assms(1) by (simp add: same_from_def)
  with assms(3,4) have "same_from k' b' (mem_write pos bs b')" by (intro same_from_write) simp_all
  with same_from_mono [OF assms(1,2)] show ?thesis by (rule same_from_trans)
qed

lemma fits_put16:
  "same_from k b b' \<Longrightarrow> j \<le> k \<Longrightarrow> clean t \<Longrightarrow> k + 2 \<le> k' \<Longrightarrow> k' \<le> length b \<Longrightarrow> fits b k' True True (put16 x (b', j, t))"
  using same_from_written [of k b b' k' j "htons x"]
  by (auto simp: fits_def put16_def APPEND16_def same_from_def)

lemma fits_put32:
  "same_from k b b' \<Longrightarrow> j \<le> k \<Longrightarrow> clean t \<Longrightarrow> k + 4 \<le> k' \<Longrightarrow> k' \<le> length b \<Longrightarrow> fits b k' True True (put32 x (b', j, t))"
  using same_from_written [of k b b' k' j "htonl x"]
  by (auto simp: fits_def put32_def APPEND32_def same_from_def)

lemma fits_put_name:
  assumes "same_from k b b'" "j \<le> k" "clean t" "k + length name + 2 \<le> k'" "k' \<le> length b"
    and "encodable name \<Longrightarrow> G \<and> P"
    and "\<And>i b'. i < 0 \<Longrightarrow> \<not> encodable name \<Longrightarrow> same_from k' b b' \<Longrightarrow> fits b k' G P (Inr (Inl (fail i b')))"
  shows "fits b k' G P (put_name strdup fail name (b', j, t))"
proof -
  have len: "length b' = length b" using assms(1) by (simp add: same_from_def)
  with assms have "j + length name + 2 \<le> length b'" by simp
  from dnsname_to_labels_outside [OF this assms(3), of strdup] obtain r b'' table'
    where d: "dnsname_to_labels strdup b' j name (Some t) = Inr (r, b'', table')"
      "same_from (j + length name + 2) b' b''" "r \<le> int (j + length name + 2)" "0 \<le> r \<longleftrightarrow> encodable name"
      "0 \<le> r \<Longrightarrow> \<exists>t'. table' = Some t' \<and> clean t'"
    unfolding runs_iff by fast
  have "same_from k' b b'" "same_from k' b' b''"
    using same_from_mono [OF assms(1), of k'] same_from_mono [OF d(2), of k'] assms(2,4) by simp_all
  then have s: "same_from k' b b''" by (rule same_from_trans)
  show ?thesis
  proof (cases "0 \<le> r")
    case True
    with d(5) obtain t' where "table' = Some t'" "clean t'" by blast
    moreover have "nat r \<le> k'" using d(3) assms(2,4) by linarith
    moreover have "G \<and> P" using True d(4) assms(6) by simp
    ultimately show ?thesis using True d(1) s by (simp add: fits_def put_name_def)
  next
    case False
    with assms(7) [of r, OF _ _ s] d(4) have "fits b k' G P (Inr (Inl (fail r b'')))" by simp
    with False d(1) show ?thesis by (simp add: put_name_def)
  qed
qed

lemma fits_put_all:
  assumes "\<And>x b' j t k. x \<in> set xs \<Longrightarrow> same_from k b b' \<Longrightarrow> j \<le> k \<Longrightarrow> clean t \<Longrightarrow> k + room x \<le> length b
      \<Longrightarrow> fits b (k + room x) (G x) (P x) (f x (b', j, t))"
  shows "same_from k b b' \<Longrightarrow> j \<le> k \<Longrightarrow> clean t \<Longrightarrow> k + sum_list (map room xs) \<le> length b
      \<Longrightarrow> fits b (k + sum_list (map room xs)) (\<forall>x\<in>set xs. G x) (\<forall>x\<in>set xs. P x) (put_all f xs (b', j, t))"
  using assms
proof (induction xs arbitrary: b' j t k)
  case Nil
  then show ?case by (simp add: fits_def)
next
  case (Cons x xs)
  have "fits b (k + sum_list (map room (x # xs))) (G x \<and> (\<forall>x\<in>set xs. G x)) (P x \<and> (\<forall>x\<in>set xs. P x))
      (next_step (f x (b', j, t)) (put_all f xs))"
  proof (rule fits_step)
    show "fits b (k + room x) (G x) (P x) (f x (b', j, t))" using Cons.prems by simp
    fix b'' :: "byte list" and j' :: nat and t' :: dnslabel_table
    assume "same_from (k + room x) b b''" "j' \<le> k + room x" "clean t'"
    with Cons.prems have "fits b (k + room x + sum_list (map room xs)) (\<forall>x\<in>set xs. G x) (\<forall>x\<in>set xs. P x) (put_all f xs (b'', j', t'))"
      by (intro Cons.IH) simp_all
    then show "fits b (k + sum_list (map room (x # xs))) (\<forall>x\<in>set xs. G x) (\<forall>x\<in>set xs. P x) (put_all f xs (b'', j', t'))"
      by (simp add: add.assoc)
  qed simp
  then show ?case by simp
qed

definition question_size :: "evdns_server_question \<Rightarrow> nat" where
  "question_size q = length (q_name q) + 6"

definition item_size :: "server_reply_item \<Rightarrow> nat" where
  "item_size item = length (item_name item) + 10 +
     (if item_is_name item then length (the (item_data item)) + 4 else unat (item_datalen item) + 2)"

definition item_ok :: "server_reply_item \<Rightarrow> bool" where
  "item_ok item \<longleftrightarrow> (item_is_name item \<longrightarrow> item_data item \<noteq> None)"

definition item_encodable :: "server_reply_item \<Rightarrow> bool" where
  "item_encodable item \<longleftrightarrow> encodable (item_name item) \<and> (item_is_name item \<longrightarrow> encodable (the (item_data item)))"

definition response_size :: "server_request \<Rightarrow> nat" where
  "response_size req = 12 + sum_list (map question_size (questions req))
     + sum_list (map item_size (answer req @ authority req @ additional req))"

lemma fits_put_question:
  assumes "same_from k b b'" "j \<le> k" "clean t" "k + question_size q \<le> length b"
  shows "fits b (k + question_size q) (encodable (q_name q)) True (put_question strdup q (b', j, t))"
proof -
  let ?n = "k + length (q_name q)"
  have "fits b (k + question_size q) ((encodable (q_name q) \<and> True) \<and> True) ((True \<and> True) \<and> True) (put_question strdup q (b', j, t))"
    unfolding put_question_def
  proof (rule fits_step [OF fits_step])
    show "fits b (?n + 2) (encodable (q_name q)) True (put_name strdup (\<lambda>r _. Returned r) (q_name q) (b', j, t))"
      using assms by (intro fits_put_name [where k = k]) (simp_all add: question_size_def fits_def)
    fix b'' :: "byte list" and j' :: nat and t' :: dnslabel_table
    assume *: "clean t'"
    { assume "same_from (?n + 2) b b''" "j' \<le> ?n + 2"
      with * show "fits b (?n + 4) True True (put16 (of_int (q_type q)) (b'', j', t'))"
        using assms by (intro fits_put16 [where k = "?n + 2"]) (simp_all add: question_size_def)
    next
      assume "same_from (?n + 4) b b''" "j' \<le> ?n + 4"
      with * show "fits b (k + question_size q) True True (put16 (of_int (q_class q)) (b'', j', t'))"
        using assms by (intro fits_put16 [where k = "?n + 4"]) (simp_all add: question_size_def) }
  qed (simp_all add: question_size_def)
  then show ?thesis by simp
qed

lemma fits_put_data:
  assumes "same_from k b b'" "j \<le> k" "clean t" "item_ok item"
    and "k + (if item_is_name item then length (the (item_data item)) + 4 else unat (item_datalen item) + 2) \<le> length b"
  shows "fits b (k + (if item_is_name item then length (the (item_data item)) + 4 else unat (item_datalen item) + 2)) True
    (item_is_name item \<longrightarrow> encodable (the (item_data item))) (put_data strdup item (b', j, t))"
proof (cases "item_is_name item")
  case True
  with assms obtain d where d: "item_data item = Some d" by (auto simp: item_ok_def)
  let ?k = "k + (length d + 4)"
  have n: "fits b ?k True (encodable d) (put_name strdup (\<lambda>_. Overflowed) d (b', j + 2, t))"
    using assms True d by (intro fits_put_name [where k = "k + 2"]) (auto simp: fits_def intro: same_from_mono)
  have "fits b ?k (True \<and> True) (encodable d \<and> True) (next_step (put_name strdup (\<lambda>_. Overflowed) d (b', j + 2, t))
      (\<lambda>(b'', l, t'). Inr (Inr (mem_write j (htons (of_nat (l - (j + 2)))) b'', l, t'))))"
  proof (rule fits_step [OF n order_refl])
    fix b'' :: "byte list" and l :: nat and t' :: dnslabel_table
    assume "same_from ?k b b''" "l \<le> ?k" "clean t'"
    with assms(2,5) True d show "fits b ?k True True (case (b'', l, t') of (b'', l, t') \<Rightarrow>
        Inr (Inr (mem_write j (htons (of_nat (l - (j + 2)))) b'', l, t')))"
      by (simp add: fits_def same_from_written)
  qed
  then show ?thesis using True d by (simp add: put_data_def)
next
  case False
  let ?n = "unat (item_datalen item)"
  let ?data = "case item_data item of None \<Rightarrow> [] | Some data \<Rightarrow> data"
  have len: "k + (?n + 2) \<le> length b" using assms(5) False by simp
  have "fits b (k + (?n + 2)) (True \<and> True) (True \<and> True) (next_step (put16 (item_datalen item) (b', j, t)) (\<lambda>(b, j, t).
          let datalen = ?n in
          if j + datalen > length b then Inr (Inl (Overflowed b))
          else Inr (Inr (mem_write j (take datalen ?data) b, j + datalen, t))))"
  proof (rule fits_step [where k = "k + 2"])
    show "fits b (k + 2) True True (put16 (item_datalen item) (b', j, t))"
      using assms(1-3) len by (intro fits_put16 [where k = k]) simp_all
    fix b'' :: "byte list" and j' :: nat and t' :: dnslabel_table
    assume *: "same_from (k + 2) b b''" "j' \<le> k + 2" "clean t'"
    then have "length b'' = length b" by (simp add: same_from_def)
    moreover have "same_from (k + (?n + 2)) b (mem_write j' (take ?n ?data) b'')"
      using * len by (intro same_from_written [OF *(1)]) simp_all
    ultimately show "fits b (k + (?n + 2)) True True (case (b'', j', t') of (b, j, t) \<Rightarrow>
          let datalen = ?n in
          if j + datalen > length b then Inr (Inl (Overflowed b))
          else Inr (Inr (mem_write j (take datalen ?data) b, j + datalen, t)))"
      using * len by (simp add: fits_def Let_def)
  qed simp
  with False show ?thesis by (simp add: put_data_def)
qed

lemma fits_put_item:
  assumes "same_from k b b'" "j \<le> k" "clean t" "item_ok item" "k + item_size item \<le> length b"
  shows "fits b (k + item_size item) True (item_encodable item) (put_item strdup item (b', j, t))"
proof -
  let ?n = "k + length (item_name item)"
  let ?d = "if item_is_name item then length (the (item_data item)) + 4 else unat (item_datalen item) + 2"
  have size: "item_size item = length (item_name item) + 10 + ?d" by (simp add: item_size_def)
  have "fits b (k + item_size item) ((((True \<and> True) \<and> True) \<and> True) \<and> True)
      ((((encodable (item_name item) \<and> True) \<and> True) \<and> True) \<and> (item_is_name item \<longrightarrow> encodable (the (item_data item))))
      (put_item strdup item (b', j, t))"
    unfolding put_item_def
  proof (rule fits_step [OF fits_step [OF fits_step [OF fits_step]]])
    show "fits b (?n + 2) True (encodable (item_name item)) (put_name strdup (\<lambda>_. Overflowed) (item_name item) (b', j, t))"
      using assms size by (intro fits_put_name [where k = k]) (simp_all add: fits_def)
    fix b'' :: "byte list" and j' :: nat and t' :: dnslabel_table
    assume *: "clean t'"
    { assume "same_from (?n + 2) b b''" "j' \<le> ?n + 2"
      with * show "fits b (?n + 4) True True (put16 (item_type item) (b'', j', t'))"
        using assms size by (intro fits_put16 [where k = "?n + 2"]) (simp_all)
    next
      assume "same_from (?n + 4) b b''" "j' \<le> ?n + 4"
      with * show "fits b (?n + 6) True True (put16 (item_class item) (b'', j', t'))"
        using assms size by (intro fits_put16 [where k = "?n + 4"]) (simp_all)
    next
      assume "same_from (?n + 6) b b''" "j' \<le> ?n + 6"
      with * show "fits b (?n + 10) True True (put32 (item_ttl item) (b'', j', t'))"
        using assms size by (intro fits_put32 [where k = "?n + 6"]) (simp_all)
    next
      assume "same_from (?n + 10) b b''" "j' \<le> ?n + 10"
      with * have "fits b (?n + 10 + ?d) True (item_is_name item \<longrightarrow> encodable (the (item_data item)))
          (put_data strdup item (b'', j', t'))"
        using assms(4,5) size by (intro fits_put_data) simp_all
      then show "fits b (k + item_size item) True (item_is_name item \<longrightarrow> encodable (the (item_data item)))
          (put_data strdup item (b'', j', t'))"
        using size by (simp only: add.assoc) }
  qed (use size in simp_all)
  then show ?thesis by (simp add: item_encodable_def)
qed

lemma put_all_append: "put_all f (xs @ ys) w = next_step (put_all f xs w) (put_all f ys)"
proof (induction xs arbitrary: w)
  case Nil
  then show ?case by (simp add: next_step_def)
next
  case (Cons x xs)
  then show ?case by (cases "f x w") (auto simp: next_step_def split: sum.splits)
qed

text \<open>The whole response, and its header with the questions.\<close>

abbreviation items_of :: "server_request \<Rightarrow> server_reply_item list" where
  "items_of req \<equiv> answer req @ authority req @ additional req"

definition questions_size :: "server_request \<Rightarrow> nat" where
  "questions_size req = sum_list (map question_size (questions req))"

lemma fits_put_head:
  assumes "12 + questions_size req \<le> length b" "clean t"
  shows "fits b (12 + questions_size req) (\<forall>q\<in>set (questions req). encodable (q_name q)) True
    (next_step (put_header req flags (b, 0, t)) (put_all (put_question strdup) (questions req)))"
proof -
  have "fits b (12 + questions_size req) (True \<and> (\<forall>q\<in>set (questions req). encodable (q_name q))) (True \<and> True)
      (next_step (put_header req flags (b, 0, t)) (put_all (put_question strdup) (questions req)))"
  proof (rule fits_step)
    let ?h = "[trans_id req, flags, of_nat (length (questions req)), of_int (n_answer req), of_int (n_authority req), of_int (n_additional req)]"
    have "fits b (0 + sum_list (map (\<lambda>_. 2) ?h)) (\<forall>x\<in>set ?h. True) (\<forall>x\<in>set ?h. True) (put_all put16 ?h (b, 0, t))"
      by (rule fits_put_all [where room = "\<lambda>_. 2"]) (use assms in \<open>simp_all add: fits_put16\<close>)
    then show "fits b 12 True True (put_header req flags (b, 0, t))" by (simp add: put_header_def)
  next
    fix b' :: "byte list" and j' :: nat and t' :: dnslabel_table
    assume "same_from 12 b b'" "j' \<le> 12" "clean t'"
    with fits_put_all [where f = "put_question strdup" and G = "\<lambda>q. encodable (q_name q)" and P = "\<lambda>_. True"
        and room = question_size and xs = "questions req" and b = b and k = 12, OF fits_put_question] assms(1)
    show "fits b (12 + questions_size req) (\<forall>q\<in>set (questions req). encodable (q_name q)) True
        (put_all (put_question strdup) (questions req) (b', j', t'))"
      by (simp add: questions_size_def)
  qed simp
  then show ?thesis by simp
qed

lemma fits_put_items:
  assumes "same_from k b b'" "j \<le> k" "clean t" "k + sum_list (map item_size items) \<le> length b" "\<forall>item\<in>set items. item_ok item"
  shows "fits b (k + sum_list (map item_size items)) True (\<forall>item\<in>set items. item_encodable item) (put_all (put_item strdup) items (b', j, t))"
  using fits_put_all [where f = "put_item strdup" and G = "\<lambda>_. True" and P = item_encodable and room = item_size and xs = items,
      OF _ assms(1-4)] fits_put_item assms(5)
  by simp

lemma fits_put_response:
  assumes "response_size req \<le> length b" "\<forall>item\<in>set (items_of req). item_ok item" "clean t"
  shows "fits b (response_size req) (\<forall>q\<in>set (questions req). encodable (q_name q)) (\<forall>item\<in>set (items_of req). item_encodable item)
    (put_response strdup req flags (b, 0, t))"
proof -
  have size: "response_size req = 12 + questions_size req + sum_list (map item_size (items_of req))"
    by (simp add: response_size_def questions_size_def)
  have "fits b (response_size req) ((\<forall>q\<in>set (questions req). encodable (q_name q)) \<and> True)
      (True \<and> (\<forall>item\<in>set (items_of req). item_encodable item)) (put_response strdup req flags (b, 0, t))"
    unfolding put_response_def
    by (rule fits_step [OF fits_put_head]) (use assms size in \<open>simp_all only: fits_put_items\<close>)
  then show ?thesis by simp
qed

text \<open>An item with a name that cannot be encoded makes the formatting overflow.\<close>

lemma put_response_overflows:
  assumes size: "response_size req \<le> length b" and ok: "\<forall>item\<in>set (items_of req). item_ok item" and t: "clean t"
    and q: "\<forall>q\<in>set (questions req). encodable (q_name q)"
    and items: "items_of req = before @ item # later" and bad: "\<not> item_encodable item"
  shows "\<exists>b'. put_response strdup req flags (b, 0, t) = Inr (Inl (Overflowed b')) \<and>
    same_from (12 + questions_size req + sum_list (map item_size (before @ [item]))) b b'"
proof -
  let ?k = "12 + questions_size req" and ?w = "next_step (put_header req flags (b, 0, t)) (put_all (put_question strdup) (questions req))"
  have size': "?k + sum_list (map item_size (before @ [item])) \<le> length b"
    using size unfolding response_size_def questions_size_def items by simp
  then have "fits b ?k (\<forall>q\<in>set (questions req). encodable (q_name q)) True ?w" by (intro fits_put_head t) simp
  then have "fits b ?k True True ?w" using q by simp
  then obtain b1 j1 t1 where head: "?w = Inr (Inr (b1, j1, t1))" "same_from ?k b b1" "j1 \<le> ?k" "clean t1"
    by (cases rule: fits_cases) auto
  have "fits b (?k + sum_list (map item_size (before @ [item]))) True (\<forall>item\<in>set (before @ [item]). item_encodable item)
      (put_all (put_item strdup) (before @ [item]) (b1, j1, t1))"
    by (rule fits_put_items [OF head(2-4) size']) (use ok items in simp)
  then have "fits b (?k + sum_list (map item_size (before @ [item]))) True False
      (put_all (put_item strdup) (before @ [item]) (b1, j1, t1))" using bad by simp
  then obtain b2 where "put_all (put_item strdup) (before @ [item]) (b1, j1, t1) = Inr (Inl (Overflowed b2))"
    "same_from (?k + sum_list (map item_size (before @ [item]))) b b2" by (cases rule: fits_cases) auto
  moreover have "put_all (put_item strdup) (items_of req) (b1, j1, t1)
      = next_step (put_all (put_item strdup) (before @ [item]) (b1, j1, t1)) (put_all (put_item strdup) later)"
    unfolding items put_all_append [symmetric] by simp
  ultimately show ?thesis using head(1) by (simp add: put_response_def next_step_def)
qed

text \<open>A response is at most 512 bytes long.\<close>

lemma clean_Nil [simp]: "clean []"
  by (simp add: clean_def)

lemma format_response_runs:
  assumes "length stack = 1500" "response_size req \<le> 1500"
    and "\<forall>item\<in>set (answer req @ authority req @ additional req). item_ok item"
  shows "runs (evdns_server_request_format_response strdup malloc stack req err) (\<lambda>(res, req').
    res \<le> 0 \<and> (res < 0 \<longrightarrow> response req' = response req) \<and>
    (res = 0 \<longrightarrow> (\<exists>bytes. response req' = Some bytes \<and> length bytes = response_len req' \<and> length bytes \<le> 512)))"
proof (cases "err < 0 \<or> err > 15")
  case True
  then show ?thesis by (simp add: evdns_server_request_format_response_def)
next
  case False
  let ?put = "put_response strdup req (ucast (req_flags req) OR (0x8000 OR of_int err)) (stack, 0, [])"
  have "fits stack (response_size req) (\<forall>q\<in>set (questions req). encodable (q_name q))
      (\<forall>item\<in>set (items_of req). item_encodable item) ?put"
    using assms by (intro fits_put_response) simp_all
  then show ?thesis
    by (cases rule: fits_cases)
      (use False assms(1,2) in \<open>auto simp: evdns_server_request_format_response_def keep_response_def
        server_request_free_answers_def Let_def same_from_def\<close>)
qed

text \<open>With names that can be encoded, and memory, there is a response.\<close>

lemma format_response_goes:
  assumes "length stack = 1500" "response_size req \<le> 1500" "\<forall>item\<in>set (items_of req). item_ok item \<and> item_encodable item"
    and "\<forall>q\<in>set (questions req). encodable (q_name q)" and "0 \<le> err" "err \<le> 15" and "\<forall>n. malloc n"
  shows "\<exists>req'. evdns_server_request_format_response strdup malloc stack req err = Inr (0, req') \<and> response req' \<noteq> None"
proof -
  let ?put = "put_response strdup req (ucast (req_flags req) OR (0x8000 OR of_int err)) (stack, 0, [])"
  have "fits stack (response_size req) (\<forall>q\<in>set (questions req). encodable (q_name q))
      (\<forall>item\<in>set (items_of req). item_encodable item) ?put"
    using assms by (intro fits_put_response) simp_all
  then have "fits stack (response_size req) True True ?put" using assms(3,4) by simp
  then show ?thesis
    by (cases rule: fits_cases)
      (use assms(5-7) in \<open>simp_all add: evdns_server_request_format_response_def keep_response_def Let_def\<close>)
qed

text \<open>After an overflow it is 512 bytes long, and what has not been written is as it was on the stack.\<close>

lemma format_response_overflows:
  assumes stack: "length stack = 1500" and size: "response_size req \<le> 1500" and ok: "\<forall>item\<in>set (items_of req). item_ok item"
    and q: "\<forall>q\<in>set (questions req). encodable (q_name q)"
    and items: "items_of req = before @ item # later" and bad: "\<not> item_encodable item"
    and err: "0 \<le> err" "err \<le> 15" and mem: "malloc 512"
  shows "\<exists>req' bytes. evdns_server_request_format_response strdup malloc stack req err = Inr (0, req') \<and>
    response req' = Some bytes \<and> req_addr req' = req_addr req \<and> length bytes = 512 \<and> bytes ! 2 AND 2 = 2 \<and>
    (\<forall>i<512. 12 + questions_size req + sum_list (map item_size (before @ [item])) \<le> i \<longrightarrow> bytes ! i = stack ! i)"
proof -
  let ?k = "12 + questions_size req + sum_list (map item_size (before @ [item]))"
  from put_response_overflows [OF _ ok clean_Nil q items bad, of stack strdup "ucast (req_flags req) OR (0x8000 OR of_int err)"] stack size
  obtain b where b: "put_response strdup req (ucast (req_flags req) OR (0x8000 OR of_int err)) (stack, 0, []) = Inr (Inl (Overflowed b))"
    "same_from ?k stack b" by auto
  have "b ! i = stack ! i" if "?k \<le> i" "i < 512" for i
  proof -
    have "i < length b" "i < length stack" using b(2) stack that(2) by (simp_all add: same_from_def)
    then have "b ! i = drop ?k b ! (i - ?k)" "stack ! i = drop ?k stack ! (i - ?k)" using that(1) by simp_all
    with b(2) show ?thesis by (simp only: same_from_def)
  qed
  moreover have "2 < length b" using b(2) stack by (simp add: same_from_def)
  moreover have "evdns_server_request_format_response strdup malloc stack req err = Inr (keep_response malloc req True b 0)"
    using err b(1) by (simp add: evdns_server_request_format_response_def)
  moreover have "((w :: byte) OR 2) AND 2 = 2" for w
    by (rule bit_word_eqI) (auto simp: bit_and_iff bit_or_iff)
  ultimately show ?thesis using mem stack b(2)
    by (auto simp: keep_response_def server_request_free_answers_def Let_def same_from_def)
qed

section \<open>What a reader finds\<close>

lemma ntohs_htons [simp]: "ntohs (htons x) = x"
  by (rule bit_word_eqI)
     (auto simp: ntohs_def htons_def bit_or_iff bit_push_bit_iff bit_drop_bit_eq bit_ucast_iff)

lemma ntohl_htonl [simp]: "ntohl (htonl x) = x"
proof (rule bit_word_eqI)
  fix n
  assume n: "n < LENGTH(32)"
  have "n < 8 \<or> 8 \<le> n \<and> n < 16 \<or> 16 \<le> n \<and> n < 24 \<or> 24 \<le> n \<and> n < 32" using n by auto
  then show "bit (ntohl (htonl x)) n = bit x n"
    by (elim disjE) (auto simp: ntohl_def htonl_def bit_or_iff bit_push_bit_iff bit_drop_bit_eq bit_ucast_iff)
qed

text \<open>Writing at the end of what has been written.\<close>

lemma APPEND16_wrote:
  assumes "APPEND16 x (buf, j) = Some (buf', k)"
  shows "k = j + 2" "k \<le> length buf" "length buf' = length buf" "take k buf' = take j buf @ htons x"
  using assms by (auto simp: APPEND16_def length_mem_write mem_write_def split: if_splits)

lemma APPEND32_wrote:
  assumes "APPEND32 x (buf, j) = Some (buf', k)"
  shows "k = j + 4" "k \<le> length buf" "length buf' = length buf" "take k buf' = take j buf @ htonl x"
  using assms by (auto simp: APPEND32_def length_mem_write mem_write_def split: if_splits)

lemma append_all_wrote:
  assumes "append_all xs (buf, j) = Some (buf', k)" "j \<le> length buf"
  shows "k = j + 2 * length xs \<and> k \<le> length buf \<and> length buf' = length buf \<and> take k buf' = take j buf @ concat (map htons xs)"
  using assms
proof (induction xs arbitrary: buf j)
  case (Cons x xs)
  from Cons.prems(1) obtain buf1 j1 where a: "APPEND16 x (buf, j) = Some (buf1, j1)" "append_all xs (buf1, j1) = Some (buf', k)"
    by (auto split: option.splits)
  note w = APPEND16_wrote [OF a(1)]
  from Cons.IH [OF a(2)] w show ?case by auto
qed simp

lemma append_all_fits:
  "j + 2 * length xs \<le> length buf \<Longrightarrow> \<exists>buf' k. append_all xs (buf, j) = Some (buf', k)"
proof (induction xs arbitrary: buf j)
  case (Cons x xs)
  then obtain buf1 j1 where a: "APPEND16 x (buf, j) = Some (buf1, j1)" by (auto simp: APPEND16_def)
  with Cons APPEND16_wrote [OF a] show ?case by simp
qed simp

text \<open>Reading.\<close>

lemma GET16_reads:
  assumes "take (j + 2) p = q @ htons x" "length q = j" "j + 2 \<le> len" "len \<le> length p"
  shows "GET16 p len j = Inr (Some (x, j + 2))"
proof -
  have "mem_read j 2 p = drop j (take (j + 2) p)" by (simp add: mem_read_def drop_take)
  with assms show ?thesis by (simp add: GET16_def)
qed

lemma GET32_reads:
  assumes "take (j + 4) p = q @ htonl x" "length q = j" "j + 4 \<le> len" "len \<le> length p"
  shows "GET32 p len j = Inr (Some (x, j + 4))"
proof -
  have "mem_read j 4 p = drop j (take (j + 4) p)" by (simp add: mem_read_def drop_take)
  with assms show ?thesis by (simp add: GET32_def)
qed

lemma get_header_reads:
  assumes p: "take 12 p = concat (map htons [a, b, c, d, e, f])" and len: "12 \<le> len" "len \<le> length p"
  shows "get_header p len = Inr (Some ([a, b, c, d, e, f], 12))"
proof -
  have h: "take n p = take n (concat (map htons [a, b, c, d, e, f]))" if "n \<le> 12" for n
    using that by (simp only: take_take min.absorb1 flip: p)
  have "GET16 p len 0 = Inr (Some (a, 2))" "GET16 p len 2 = Inr (Some (b, 4))" "GET16 p len 4 = Inr (Some (c, 6))"
    "GET16 p len 6 = Inr (Some (d, 8))" "GET16 p len 8 = Inr (Some (e, 10))" "GET16 p len 10 = Inr (Some (f, 12))"
    using GET16_reads [of 0 p "[]" a len] GET16_reads [of 2 p "htons a" b len] GET16_reads [of 4 p "htons a @ htons b" c len]
      GET16_reads [of 6 p "htons a @ htons b @ htons c" d len] GET16_reads [of 8 p "htons a @ htons b @ htons c @ htons d" e len]
      GET16_reads [of 10 p "htons a @ htons b @ htons c @ htons d @ htons e" f len]
      len by (simp_all add: h)
  then show ?thesis by (simp add: get_header_def bindP_def)
qed

section \<open>Queries\<close>

text \<open>A name that was written, and its reader: \<open>k\<close> is where it ends.\<close>

lemma name_wrote:
  assumes room: "j + length name + 2 \<le> length buf" "length buf \<le> 0x4000" and name: "name_ok name" "length name \<le> 255"
    and tab: "table_in (take j buf) table"
  shows "\<exists>buf' k table'. dnsname_to_labels strdup buf j name table = Inr (int k, buf', table') \<and> j < k \<and>
    k \<le> j + length name + 2 \<and> length buf' = length buf \<and> take j buf' = take j buf \<and>
    name_at (take k buf') j j (dns_labels name) k \<and> table_in (take k buf') table'"
proof -
  from dnsname_to_labels_fits [OF room(1), of strdup table] name obtain r buf' table'
    where d: "dnsname_to_labels strdup buf j name table = Inr (r, buf', table')" "r \<le> int (j + length name + 2)" "0 \<le> r"
    by (auto simp: runs_iff)
  from dnsname_to_labels_writes [OF d(1,3) name(1) _ room(2) tab] room(1) obtain k
    where "r = int k" "j < k" "length buf' = length buf" "take j buf' = take j buf"
      "name_at (take k buf') j j (dns_labels name) k" "table_in (take k buf') table'" by auto
  with d show ?thesis by (intro exI [of _ buf'] exI [of _ k] exI [of _ table']) simp
qed

text \<open>The request a query stands for.\<close>

definition query_request :: "byte list \<Rightarrow> 16 word \<Rightarrow> 16 word \<Rightarrow> 16 word \<Rightarrow> address \<Rightarrow> server_request" where
  "query_request name tid type class addr =
     \<lparr>trans_id = tid, req_addr = addr, n_answer = 0, n_authority = 0, n_additional = 0,
      answer = [], authority = [], additional = [], response = None, response_len = 0, req_flags = 0x0100,
      questions = [\<lparr>q_type = uint type, q_class = uint class, q_name = drop_last_dot name\<rparr>]\<rparr>"

lemma query_reads:
  assumes room: "evdns_request_len (length name) \<le> length buf" "length buf \<le> 0x4000"
    and name: "name_ok name" "length name \<le> 255"
  shows "\<exists>r buf'. evdns_request_data_build name tid type class buf = Inr (int r, buf') \<and> 0 < r \<and> r \<le> length buf \<and>
    length buf' = length buf \<and>
    (\<forall>rest addr. parse_request True (\<lambda>_. True) (\<lambda>_. True) (take r buf' @ rest) r addr
       = Inr (Some (query_request name tid type class addr)))"
proof -
  let ?h = "[tid, 0x0100, 1, 0, 0, 0 :: 16 word]"
  from append_all_fits [of 0 ?h buf] room obtain b1 j where a1: "append_all ?h (buf, 0) = Some (b1, j)"
    by (auto simp: evdns_request_len_def)
  from append_all_wrote [OF a1] have w1: "j = 12" "length b1 = length buf" "take 12 b1 = concat (map htons ?h)" by auto
  from name_wrote [of 12 name b1 None "\<lambda>_. False"] room name w1 obtain b2 k
    where n: "\<exists>t. dnsname_to_labels (\<lambda>_. False) b1 12 name None = Inr (int k, b2, t)" "12 < k" "k \<le> 12 + length name + 2"
      "length b2 = length buf" "take 12 b2 = take 12 b1" "name_at (take k b2) 12 12 (dns_labels name) k"
    by (auto simp: evdns_request_len_def table_in_def)
  from append_all_fits [of k "[type, class]" b2] n room obtain b3 r where a2: "append_all [type, class] (b2, k) = Some (b3, r)"
    by (auto simp: evdns_request_len_def)
  have "k \<le> length b2" using n room by (simp add: evdns_request_len_def)
  from append_all_wrote [OF a2 this] have w: "r = k + 2 * length [type, class]" "r \<le> length b2" "length b3 = length b2"
    "take r b3 = take k b2 @ concat (map htons [type, class])" by blast+
  have w2: "r = k + 4" "k + 4 \<le> length buf" "length b3 = length buf" using w(1-3) n by simp_all
  have w3: "take r b3 = take k b2 @ htons type @ htons class" using w(4) by simp
  have build: "evdns_request_data_build name tid type class buf = Inr (int r, b3)"
    using a1 n(1) a2 w1(1) unfolding evdns_request_data_build_def by auto
  have "parse_request True (\<lambda>_. True) (\<lambda>_. True) (take r b3 @ rest) r addr = Inr (Some (query_request name tid type class addr))" for rest addr
  proof -
    let ?p = "take r b3 @ rest"
    have p: "?p = take k b2 @ (htons type @ htons class @ rest)" by (simp add: w3)
    have "take 12 ?p = take 12 b2" unfolding p using n w2 by (simp add: min_def)
    then have h: "get_header ?p r = Inr (Some (?h, 12))"
      using n w1 w2 by (intro get_header_reads) simp_all
    have "name_at (take r b3) 12 12 (dns_labels name) k"
      unfolding w3 by (rule name_at_append [OF n(6)])
    from name_parse_written [OF this name(1), of 256 rest] name(2) w2
    have q: "name_parse ?p r 12 256 = Inr (Some (k, drop_last_dot name))" by simp
    have lk: "length (take k b2) = k" using \<open>k \<le> length b2\<close> by simp
    have t: "take (k + 2) ?p = take k b2 @ htons type" "take (k + 2 + 2) ?p = (take k b2 @ htons type) @ htons class"
      unfolding p using lk by simp_all
    have lk2: "length (take k b2 @ htons type) = k + 2" using lk by simp
    have lp: "k + 2 \<le> r" "k + 2 + 2 \<le> r" "r \<le> length ?p" using w2 by simp_all
    have "GET16 ?p r k = Inr (Some (type, k + 2))" "GET16 ?p r (k + 2) = Inr (Some (class, k + 2 + 2))"
      by (rule GET16_reads [OF t(1) lk lp(1,3)], rule GET16_reads [OF t(2) lk2 lp(2,3)])
    moreover have "0 \<notin> set (drop_last_dot name)" using name(1) by (auto simp: name_ok_def drop_last_dot_def dest: in_set_butlastD)
    ultimately have "get_questions (\<lambda>_. True) ?p r 1 12 = Inr (Some ([\<lparr>q_type = uint type, q_class = uint class, q_name = drop_last_dot name\<rparr>], k + 4))"
      using q by (simp add: bindP_def)
    with h show ?thesis by (simp add: parse_request_def bindP_def query_request_def Let_def)
  qed
  with build w2 show ?thesis by (intro exI [of _ r] exI [of _ b3]) simp
qed

section \<open>Responses\<close>

text \<open>The steps that have room.\<close>

lemma put16_wrote:
  "j + 2 \<le> length b \<Longrightarrow> \<exists>b'. put16 x (b, j, t) = Inr (Inr (b', j + 2, t)) \<and> length b' = length b \<and>
     take (j + 2) b' = take j b @ htons x \<and> drop (j + 2) b' = drop (j + 2) b"
  by (auto simp: put16_def APPEND16_def mem_write_def length_mem_write)

lemma put32_wrote:
  "j + 4 \<le> length b \<Longrightarrow> \<exists>b'. put32 x (b, j, t) = Inr (Inr (b', j + 4, t)) \<and> length b' = length b \<and>
     take (j + 4) b' = take j b @ htonl x \<and> drop (j + 4) b' = drop (j + 4) b"
  by (auto simp: put32_def APPEND32_def mem_write_def length_mem_write)

lemma put_all16_wrote:
  "j + 2 * length xs \<le> length b \<Longrightarrow> \<exists>b'. put_all put16 xs (b, j, t) = Inr (Inr (b', j + 2 * length xs, t)) \<and>
     length b' = length b \<and> take (j + 2 * length xs) b' = take j b @ concat (map htons xs) \<and>
     drop (j + 2 * length xs) b' = drop (j + 2 * length xs) b"
proof (induction xs arbitrary: j b)
  case (Cons x xs)
  then have "j + 2 \<le> length b" by simp
  then obtain b1 where b1: "put16 x (b, j, t) = Inr (Inr (b1, j + 2, t))" "length b1 = length b"
    "take (j + 2) b1 = take j b @ htons x" "drop (j + 2) b1 = drop (j + 2) b"
    using put16_wrote by blast
  from Cons.prems b1(2) have "j + 2 + 2 * length xs \<le> length b1" by simp
  from Cons.IH [OF this] obtain b2 where b2: "put_all put16 xs (b1, j + 2, t) = Inr (Inr (b2, j + 2 + 2 * length xs, t))"
    "length b2 = length b1" "take (j + 2 + 2 * length xs) b2 = take (j + 2) b1 @ concat (map htons xs)"
    "drop (j + 2 + 2 * length xs) b2 = drop (j + 2 + 2 * length xs) b1" by blast
  have "drop (j + 2 + 2 * length xs) b1 = drop (j + 2 + 2 * length xs) b"
    using arg_cong [OF b1(4), of "drop (2 * length xs)"] by (simp add: add.commute add.left_commute)
  with b1 b2 show ?case by (simp add: next_step_def)
qed simp

end
