(* ===== verification/Evdns_Serving.thy ===== *)
theory Evdns_Serving
  imports Evdns_Wire
begin

text \<open>
  A server port, its requests and its reference count: the invariant \<open>server_ok\<close>, kept by every operation, and the
  contract of a handler of requests, under which the reading side of the port runs.
\<close>

section \<open>The invariant\<close>

text \<open>
  The port counts the user's own reference, until it is closed, and one for each request. The pending replies
  are requests of the port, each once, which have a response.
\<close>

definition live :: "server \<Rightarrow> nat \<Rightarrow> bool" where
  "live s r \<longleftrightarrow> requests s r \<noteq> None"

definition port_ok :: "server \<Rightarrow> server_port \<Rightarrow> bool" where
  "port_ok s p \<longleftrightarrow> refcnt p = (if closing p then 0 else 1) + int (card (dom (requests s))) \<and> 0 < refcnt p \<and>
     distinct (pending_replies p) \<and> (\<forall>r\<in>set (pending_replies p). \<exists>q. requests s r = Some q \<and> response q \<noteq> None)"

definition server_ok :: "server \<Rightarrow> bool" where
  "server_ok s \<longleftrightarrow> (\<forall>r. live s r \<longrightarrow> r < next_request s) \<and>
     (case port s of None \<Rightarrow> \<forall>r. \<not> live s r | Some p \<Rightarrow> port_ok s p)"

lemma server_ok_finite: "server_ok s \<Longrightarrow> finite (dom (requests s))"
  by (rule finite_subset [of _ "{..<next_request s}"]) (auto simp: server_ok_def live_def)

lemma server_ok_live: "server_ok s \<Longrightarrow> live s r \<Longrightarrow> \<exists>p q. port s = Some p \<and> requests s r = Some q \<and> port_ok s p"
  by (auto simp: server_ok_def live_def split: option.splits)

lemma new_port_ok: "evdns_add_server_port_with_base flags new_port ev_add = Some s \<Longrightarrow> server_ok s"
  by (auto simp: evdns_add_server_port_with_base_def server_ok_def port_ok_def live_def split: if_splits)

text \<open>What the operations on an open port keep.\<close>

definition stays_open :: "server \<Rightarrow> server \<Rightarrow> bool" where
  "stays_open s s' \<longleftrightarrow> (\<exists>p p'. port s = Some p \<and> port s' = Some p' \<and> lock_count p' = lock_count p \<and> closing p' = closing p)
     \<and> next_request s \<le> next_request s'"

lemma stays_open_refl: "port s = Some p \<Longrightarrow> stays_open s s"
  by (simp add: stays_open_def)

lemma stays_open_trans: "stays_open s s' \<Longrightarrow> stays_open s' s'' \<Longrightarrow> stays_open s s''"
  by (auto simp: stays_open_def)

definition open_port :: "server \<Rightarrow> bool" where
  "open_port s \<longleftrightarrow> server_ok s \<and> (\<exists>p. port s = Some p \<and> \<not> closing p)"

lemma open_port_stays: "open_port s \<Longrightarrow> stays_open s s' \<Longrightarrow> server_ok s' \<Longrightarrow> open_port s'"
  by (auto simp: open_port_def stays_open_def)

section \<open>The steps\<close>

lemmas port_defs = get_port_def get_request_def upd_port_def put_request_def EVDNS_LOCK_def EVDNS_UNLOCK_def

lemma put_request_fields [simp]:
  "port (put_request r q s) = port s" "next_request (put_request r q s) = next_request s"
  "outbox (put_request r q s) = outbox s" "requests (put_request r q s) = (requests s)(r := Some q)"
  by (simp_all add: put_request_def)

text \<open>Storing a request that is there already.\<close>

lemma put_request_ok:
  assumes "server_ok s" "live s r" and resp: "\<And>q0. requests s r = Some q0 \<Longrightarrow> response q0 \<noteq> None \<Longrightarrow> response q \<noteq> None"
  shows "server_ok (put_request r q s)"
proof -
  from server_ok_live [OF assms(1,2)] obtain p q0 where p: "port s = Some p" "requests s r = Some q0" "port_ok s p" by blast
  then have "dom (requests (put_request r q s)) = dom (requests s)" by (auto simp: put_request_def)
  then show ?thesis using assms p by (auto simp: server_ok_def live_def port_ok_def put_request_def)
qed

lemma upd_port_ok:
  assumes "server_ok s" "port s = Some p"
    and "refcnt p' = refcnt p" "closing p' = closing p" "pending_replies p' = pending_replies p"
  shows "server_ok (s\<lparr>port := Some p'\<rparr>)"
  using assms by (simp add: server_ok_def live_def port_ok_def)

text \<open>Freeing a request gives its reference back, and frees a closed port with the last one.\<close>

lemma server_request_free_runs:
  assumes ok: "server_ok s" and q: "requests s r = Some q" and p: "port s = Some p"
  shows "runs (server_request_free r s) (\<lambda>(freed, s').
    server_ok s' \<and> requests s' = (requests s)(r := None) \<and> next_request s' = next_request s \<and> outbox s' = outbox s \<and>
    freed = (refcnt p = 1) \<and>
    port s' = (if freed then None else Some (p\<lparr>pending_replies := remove1 r (pending_replies p), refcnt := refcnt p - 1\<rparr>)))"
proof -
  let ?p = "p\<lparr>pending_replies := remove1 r (pending_replies p), refcnt := refcnt p - 1\<rparr>"
  let ?R = "(requests s)(r := None)"
  from ok p have pok: "port_ok s p" by (simp add: server_ok_def)
  have fin: "finite (dom (requests s))" by (rule server_ok_finite [OF ok])
  have card: "int (card (dom ?R)) = int (card (dom (requests s))) - 1"
  proof -
    have "dom ?R = dom (requests s) - {r}" by auto
    moreover have "r \<in> dom (requests s)" using q by auto
    ultimately show ?thesis using fin card_gt_0_iff [of "dom (requests s)"] by (auto simp: card_Diff_singleton)
  qed
  show ?thesis
  proof (cases "refcnt p = 1")
    case True
    with pok card have "card (dom ?R) = 0" by (auto simp: port_ok_def split: if_splits)
    moreover have "finite (dom ?R)" using fin by (rule rev_finite_subset) auto
    ultimately have none: "?R = Map.empty" by (simp only: card_0_eq dom_eq_empty_conv)
    have "remove1 r (pending_replies p) = []"
    proof (rule ccontr)
      assume "remove1 r (pending_replies p) \<noteq> []"
      then obtain x where "x \<in> set (remove1 r (pending_replies p))" by (cases "remove1 r (pending_replies p)") auto
      then have "x \<in> set (pending_replies p)" "x \<noteq> r" using pok by (auto simp: port_ok_def)
      with pok obtain q' where "requests s x = Some q'" by (auto simp: port_ok_def)
      with fun_cong [OF none, of x] \<open>x \<noteq> r\<close> show False by simp
    qed
    with True q p ok none show ?thesis
      by (simp add: server_request_free_def port_defs server_port_free_def server_ok_def live_def)
  next
    case False
    have "distinct (remove1 r (pending_replies p))" using pok by (simp add: port_ok_def)
    then have "server_ok (s\<lparr>requests := ?R, port := Some ?p\<rparr>)"
      using ok pok card False by (auto simp: server_ok_def live_def port_ok_def)
    with False q p show ?thesis by (simp add: server_request_free_def port_defs)
  qed
qed

text \<open>Answers are added to a request that has no response yet; otherwise nothing changes.\<close>

lemma lock_unlock:
  assumes "port s = Some p"
  shows "EVDNS_LOCK s = Inr (s\<lparr>port := Some (p\<lparr>lock_count := lock_count p + 1\<rparr>)\<rparr>)"
    and "EVDNS_UNLOCK (s'\<lparr>port := Some (p'\<lparr>lock_count := lock_count p + 1\<rparr>)\<rparr>) = Inr (s'\<lparr>port := Some (p'\<lparr>lock_count := lock_count p\<rparr>)\<rparr>)"
  using assms by (simp_all add: port_defs)

lemma port_same: "port s = Some p \<Longrightarrow> s\<lparr>port := Some p\<rparr> = s"
  by (cases s) simp

definition data_there :: "int \<Rightarrow> int \<Rightarrow> byte list option \<Rightarrow> bool" where
  "data_there datalen is_name data \<longleftrightarrow>
     (is_name = 0 \<longrightarrow> (case data of None \<Rightarrow> True | Some d \<Rightarrow> to_size datalen \<le> length d))"

lemma add_reply_runs:
  assumes ok: "server_ok s" and q: "requests s r = Some q" and d: "data_there datalen is_name data"
  shows "runs (evdns_server_request_add_reply new_item malloc strdup r section name type class ttl datalen is_name data s)
    (\<lambda>(res, s'). server_ok s' \<and> stays_open s s' \<and> (res = 0 \<or> res = -1 \<and> s' = s) \<and> (response q \<noteq> None \<longrightarrow> res = -1))"
proof -
  from server_ok_live [OF ok, of r] q obtain p where p: "port s = Some p" by (auto simp: live_def)
  have nr: "runs (new_reply_item malloc strdup name type class ttl datalen is_name data) (\<lambda>_. True)"
    using d by (auto simp: new_reply_item_def data_there_def Let_def split: option.splits)
  have put: "server_ok (put_request r q' s)" if "response q' = response q" for q'
    using ok q that by (intro put_request_ok) (auto simp: live_def)
  show ?thesis
  proof (cases "response q \<noteq> None \<or> section \<notin> {0, 1, 2} \<or> \<not> new_item")
    case True
    then show ?thesis using ok q p by (auto simp: evdns_server_request_add_reply_def port_defs port_same stays_open_refl)
  next
    case False
    from nr obtain item where item: "new_reply_item malloc strdup name type class ttl datalen is_name data = Inr item"
      by (auto simp: runs_iff)
    show ?thesis
    proof (cases item)
      case None
      then show ?thesis using False ok q p item by (auto simp: evdns_server_request_add_reply_def port_defs port_same stays_open_refl)
    next
      case (Some it)
      define q' where "q' = (if section = 0 then q\<lparr>answer := answer q @ [it], n_answer := n_answer q + 1\<rparr>
                    else if section = 1 then q\<lparr>authority := authority q @ [it], n_authority := n_authority q + 1\<rparr>
                    else q\<lparr>additional := additional q @ [it], n_additional := n_additional q + 1\<rparr>)"
      have "evdns_server_request_add_reply new_item malloc strdup r section name type class ttl datalen is_name data s
          = Inr (0, put_request r q' s)"
        using False q p item Some
        by (simp add: evdns_server_request_add_reply_def port_defs Let_def port_same flip: q'_def)
      moreover have "server_ok (put_request r q' s)" by (rule put) (simp add: q'_def)
      ultimately show ?thesis using False p by (simp add: stays_open_def put_request_def)
    qed
  qed
qed

lemma set_flags_runs:
  assumes "server_ok s" "live s r"
  shows "runs (evdns_server_request_set_flags r flags s) (\<lambda>s'. server_ok s' \<and> stays_open s s')"
proof -
  from server_ok_live [OF assms] obtain p q where pq: "port s = Some p" "requests s r = Some q" by blast
  then show ?thesis
    unfolding evdns_server_request_set_flags_def
    by (auto simp: get_request_def stays_open_def intro!: put_request_ok [OF assms])
qed

lemma drop_runs:
  assumes ok: "open_port s" and q: "live s r"
  shows "runs (evdns_server_request_drop r s) (\<lambda>(res, s'). res = 0 \<and> server_ok s' \<and> stays_open s s' \<and> \<not> live s' r)"
proof -
  from ok q server_ok_live [of s r] obtain p x where p: "server_ok s" "port s = Some p" "requests s r = Some x" "port_ok s p" "\<not> closing p"
    by (auto simp: open_port_def)
  have "r \<in> dom (requests s)" using p by auto
  then have "0 < card (dom (requests s))" using server_ok_finite [OF p(1)] by (auto simp: card_gt_0_iff)
  then have "refcnt p \<noteq> 1" using p by (simp add: port_ok_def)
  then show ?thesis unfolding evdns_server_request_drop_def
    by (intro runs_bindI [OF server_request_free_runs [OF p(1,3,2)]])
       (use p in \<open>auto simp: stays_open_def live_def\<close>)
qed

text \<open>Closing: the port is freed at once if it has no requests; otherwise it stays, and stays locked.\<close>

lemma close_runs:
  assumes ok: "server_ok s" and p: "port s = Some p" and "\<not> closing p"
  shows "runs (evdns_close_server_port s) (\<lambda>s'. server_ok s' \<and> requests s' = requests s \<and>
    port s' = (if \<exists>r. live s r then Some (p\<lparr>lock_count := lock_count p + 1, refcnt := refcnt p - 1, closing := True\<rparr>) else None))"
proof (cases "\<exists>r. live s r")
  case True
  then have "dom (requests s) \<noteq> {}" by (auto simp: live_def)
  then have "0 < card (dom (requests s))" using server_ok_finite [OF ok] by (simp add: card_gt_0_iff)
  with True assms show ?thesis
    by (auto simp: evdns_close_server_port_def port_defs server_ok_def port_ok_def live_def)
next
  case False
  then have "dom (requests s) = {}" by (auto simp: live_def)
  moreover from False ok p have "pending_replies p = []" by (cases "pending_replies p") (auto simp: server_ok_def port_ok_def live_def)
  ultimately show ?thesis using False assms
    by (simp add: evdns_close_server_port_def port_defs server_port_free_def server_ok_def port_ok_def live_def)
qed

section \<open>Sending\<close>

lemma flush_step_runs:
  assumes ok: "open_port s"
  shows "runs (flush_step send (i, s)) (\<lambda>r. case r of
      Inl (i', s') \<Rightarrow> server_ok s' \<and> stays_open s s' \<and> (\<forall>r. live s' r \<longrightarrow> live s r) \<and>
        length (pending_replies (the (port s'))) < length (pending_replies (the (port s)))
    | Inr (_, s') \<Rightarrow> s' = s)"
proof -
  from ok obtain p where p: "server_ok s" "port s = Some p" "\<not> closing p" "port_ok s p"
    by (auto simp: open_port_def server_ok_def)
  show ?thesis
  proof (cases "pending_replies p")
    case Nil
    with p show ?thesis by (simp add: flush_step_def port_defs)
  next
    case (Cons r rs)
    with p obtain q where q: "requests s r = Some q" "response q \<noteq> None" by (auto simp: port_ok_def)
    show ?thesis
    proof (cases "send i = Retriable")
      case True
      with p q Cons show ?thesis by (simp add: flush_step_def port_defs)
    next
      case False
      define s1 where "s1 = (if send i = Sent then s\<lparr>outbox := outbox s @ [(req_addr q, the (response q))]\<rparr> else s)"
      have s1: "server_ok s1" "requests s1 = requests s" "port s1 = Some p" "next_request s1 = next_request s"
        using p by (simp_all add: s1_def server_ok_def live_def port_ok_def)
      have "r \<in> dom (requests s)" using q by auto
      then have "0 < card (dom (requests s))" using server_ok_finite [OF p(1)] by (auto simp: card_gt_0_iff)
      with p have "refcnt p \<noteq> 1" by (simp add: port_ok_def)
      moreover have "pending_replies p \<noteq> [] \<and> distinct (r # rs)" using Cons p by (simp add: port_ok_def)
      ultimately have "runs (server_request_free r s1) (\<lambda>(freed, s'). \<not> freed \<and> server_ok s' \<and> stays_open s s' \<and>
          (\<forall>r. live s' r \<longrightarrow> live s r) \<and> (\<exists>p'. port s' = Some p' \<and> pending_replies p' = rs))"
        using p s1 Cons q
        by (intro runs_mono [OF server_request_free_runs [of s1 r q p]]) (auto simp: stays_open_def live_def split: if_splits)
      then show ?thesis
        using False p q Cons \<open>pending_replies p \<noteq> [] \<and> distinct (r # rs)\<close>
        by (auto simp: flush_step_def port_defs send_reply_def s1_def runs_bindE split: option.splits
            elim!: runs_mono split: if_splits)
    qed
  qed
qed

lemma flush_runs:
  assumes ok: "open_port s"
  shows "runs (server_port_flush send ev_add s) (\<lambda>s'. server_ok s' \<and> stays_open s s' \<and> (\<forall>r. live s' r \<longrightarrow> live s r))"
proof -
  let ?I = "\<lambda>(i :: nat, s'). server_ok s' \<and> stays_open s s' \<and> (\<forall>r. live s' r \<longrightarrow> live s r)"
  have "runs (loops (flush_step send) (0, s)) (\<lambda>(_, s'). server_ok s' \<and> stays_open s s' \<and> (\<forall>r. live s' r \<longrightarrow> live s r))"
  proof (rule runs_loops [where I = ?I and m = "\<lambda>(i, s). length (pending_replies (the (port s)))"])
    fix x :: "nat \<times> server"
    assume I: "?I x"
    obtain i s1 where x: "x = (i, s1)" by (cases x)
    with I ok have "open_port s1" using open_port_stays by blast
    from flush_step_runs [OF this, of send i] I show "runs (flush_step send x) (\<lambda>r. case r of
        Inl x' \<Rightarrow> ?I x' \<and> (case x' of (i, s) \<Rightarrow> length (pending_replies (the (port s)))) < (case x of (i, s) \<Rightarrow> length (pending_replies (the (port s))))
      | Inr (_, s') \<Rightarrow> server_ok s' \<and> stays_open s s' \<and> (\<forall>r. live s' r \<longrightarrow> live s r))"
      unfolding x by (auto elim!: runs_mono split: sum.splits dest: stays_open_trans)
  qed (use ok in \<open>auto simp: open_port_def stays_open_def\<close>)
  then show ?thesis
    unfolding server_port_flush_def
    by (rule runs_bindI) (auto simp: upd_port_def get_port_def stays_open_def live_def intro!: upd_port_ok split: option.splits)
qed

text \<open>Releasing the lock that was taken at the start.\<close>

lemma locked_ok:
  assumes "open_port s"
  shows "\<exists>s0. EVDNS_LOCK s = Inr s0 \<and> open_port s0 \<and> requests s0 = requests s \<and> next_request s0 = next_request s \<and>
    pending_replies (the (port s0)) = pending_replies (the (port s)) \<and>
    (\<forall>s'. stays_open s0 s' \<and> server_ok s' \<longrightarrow> runs (EVDNS_UNLOCK s') (\<lambda>s''. server_ok s'' \<and> stays_open s s'' \<and>
      requests s'' = requests s' \<and> pending_replies (the (port s'')) = pending_replies (the (port s'))))"
proof -
  from assms obtain p where p: "server_ok s" "port s = Some p" "\<not> closing p" by (auto simp: open_port_def)
  let ?s0 = "s\<lparr>port := Some (p\<lparr>lock_count := lock_count p + 1\<rparr>)\<rparr>"
  have "runs (EVDNS_UNLOCK s') (\<lambda>s''. server_ok s'' \<and> stays_open s s'' \<and>
      requests s'' = requests s' \<and> pending_replies (the (port s'')) = pending_replies (the (port s')))"
    if st: "stays_open ?s0 s'" and ok: "server_ok s'" for s'
  proof -
    from st obtain p' where p': "port s' = Some p'" "lock_count p' = lock_count p + 1" "closing p' = closing p" "next_request s \<le> next_request s'"
      by (auto simp: stays_open_def)
    have "server_ok (s'\<lparr>port := Some (p'\<lparr>lock_count := lock_count p' - 1\<rparr>)\<rparr>)"
      using ok p' by (intro upd_port_ok) simp_all
    with p p' show ?thesis by (simp add: port_defs stays_open_def)
  qed
  moreover have "open_port ?s0" using p by (auto simp: open_port_def intro!: upd_port_ok)
  ultimately show ?thesis using p by (intro exI [of _ ?s0]) (simp add: lock_unlock)
qed

text \<open>A request that is not in the list gets to its end.\<close>

lemma queue_new:
  assumes "r \<notin> set (pending_replies p)"
  shows "\<exists>p'. queue_reply ev_add r p = Inr p' \<and> pending_replies p' = pending_replies p @ [r] \<and> refcnt p' = refcnt p \<and>
    closing p' = closing p \<and> lock_count p' = lock_count p \<and>
    (pending_replies p = [] \<longrightarrow> choked p' \<and> listening p' = (if ev_add then Some (\<not> closing p, True) else None))"
  using assms by (simp add: queue_reply_def)

text \<open>Responding: the request is freed, or it is queued, or the port is as before.\<close>

lemma respond_runs:
  assumes ok: "open_port s" and q: "requests s r = Some q" and idle: "r \<notin> set (pending_replies (the (port s)))"
    and fmt: "response q = None \<Longrightarrow> runs (evdns_server_request_format_response strdup malloc stack q err)
       (\<lambda>(res, q'). 0 \<le> res \<longrightarrow> response q' \<noteq> None)"
  shows "runs (evdns_server_request_respond strdup malloc stack send ev_add r err s)
    (\<lambda>(res, s'). server_ok s' \<and> stays_open s s' \<and> (\<forall>r'. live s' r' \<longrightarrow> live s r') \<and>
      (res = 0 \<longrightarrow> \<not> live s' r) \<and> (res = 1 \<longrightarrow> r \<in> set (pending_replies (the (port s')))))"
proof -
  from locked_ok [OF ok] obtain s0 where lk: "EVDNS_LOCK s = Inr s0" and s0: "open_port s0" "requests s0 = requests s"
      "pending_replies (the (port s0)) = pending_replies (the (port s))"
    and un: "\<And>s'. stays_open s0 s' \<Longrightarrow> server_ok s' \<Longrightarrow> runs (EVDNS_UNLOCK s') (\<lambda>s''. server_ok s'' \<and> stays_open s s'' \<and>
      requests s'' = requests s' \<and> pending_replies (the (port s'')) = pending_replies (the (port s')))"
    by blast
  from ok s0 obtain p0 where p0: "server_ok s0" "port s0 = Some p0" "\<not> closing p0" "port_ok s0 p0"
    "r \<notin> set (pending_replies p0)"
    using idle by (auto simp: open_port_def server_ok_def)
  let ?P = "\<lambda>(res :: int, s'). server_ok s' \<and> stays_open s s' \<and> (\<forall>r'. live s' r' \<longrightarrow> live s r') \<and>
      (res = 0 \<longrightarrow> \<not> live s' r) \<and> (res = 1 \<longrightarrow> r \<in> set (pending_replies (the (port s'))))"
  let ?fin = "\<lambda>res s. bindE (EVDNS_UNLOCK s) (\<lambda>s. Inr (res :: int, s))"
  have fin: "runs (?fin res s') ?P"
    if "stays_open s0 s'" "server_ok s'" "\<forall>r'. live s' r' \<longrightarrow> live s r'" "res = 0 \<longrightarrow> \<not> live s' r"
      "res = 1 \<longrightarrow> r \<in> set (pending_replies (the (port s')))" for res s'
    by (rule runs_bindI [OF un [OF that(1,2)]]) (use that(3-5) in \<open>auto simp: live_def\<close>)
  let ?fmt = "if response q = None then evdns_server_request_format_response strdup malloc stack q err else Inr (0, q)"
  have "runs ?fmt (\<lambda>(res, q'). 0 \<le> res \<longrightarrow> response q' \<noteq> None)" using fmt by auto
  then obtain res q' where f: "?fmt = Inr (res, q')" "0 \<le> res \<Longrightarrow> response q' \<noteq> None"
    by (auto simp: runs_iff)
  define s1 where "s1 = put_request r q' s0"
  have live1: "live s1 r' = live s r'" for r' using q s0 by (simp add: s1_def live_def)
  have dom1: "dom (requests s1) = dom (requests s0)" using q s0 by (auto simp: s1_def)
  have ok1: "server_ok s1" using p0 dom1 q s0 by (auto simp: s1_def server_ok_def port_ok_def live_def)
  have st1: "stays_open s0 s1" using p0 by (simp add: s1_def stays_open_def)
  have p1: "port s1 = Some p0" "requests s1 r = Some q'" using p0 by (simp_all add: s1_def)
  have unfold: "evdns_server_request_respond strdup malloc stack send ev_add r err s =
     (if res < 0 then ?fin res s1
      else case send 0 of
       Retriable \<Rightarrow> ?fin (-1) s1
     | Failed \<Rightarrow> bindE (get_port s1) (\<lambda>p. bindE (queue_reply ev_add r p) (\<lambda>p. ?fin 1 (s1\<lparr>port := Some p\<rparr>)))
     | Sent \<Rightarrow>
         bindE (send_reply q' s1) (\<lambda>s.
         bindE (server_request_free r s) (\<lambda>(freed, s).
         if freed then ?fin 0 s
         else bindE (get_port s) (\<lambda>p.
              bindE (if pending_replies p \<noteq> [] then server_port_flush (\<lambda>i. send (i + 1)) ev_add s else Inr s) (?fin 0)))))"
    unfolding evdns_server_request_respond_def get_request_def s1_def
    by (simp only: q option.case bindE.simps lk f(1) prod.case Let_def)
  show ?thesis
  proof (cases "res < 0")
    case True
    then have "runs (?fin res s1) ?P" using st1 ok1 live1 by (intro fin) auto
    with True show ?thesis unfolding unfold by (simp only: if_True)
  next
    case False
    note go = False
    show ?thesis
    proof (cases "send 0")
      case Retriable
      have "runs (?fin (-1) s1) ?P" using st1 ok1 live1 by (intro fin) auto
      with go Retriable show ?thesis unfolding unfold by (simp only: if_False send_result.case)
    next
      case Failed
      from queue_new [OF p0(5)] obtain p2 where p2: "queue_reply ev_add r p0 = Inr p2" "pending_replies p2 = pending_replies p0 @ [r]"
        "refcnt p2 = refcnt p0" "closing p2 = closing p0" "lock_count p2 = lock_count p0" by blast
      define s2 where "s2 = s1\<lparr>port := Some p2\<rparr>"
      have "server_ok s2" using ok1 p1 p0 p2 f(2) go
        by (auto simp: s2_def server_ok_def port_ok_def live_def)
      then have "runs (?fin 1 s2) ?P"
        using p0 p2 live1 by (intro fin) (auto simp: s2_def live_def stays_open_def s1_def)
      moreover have "get_port s1 = Inr p0" using p1 by (simp add: port_defs)
      ultimately show ?thesis using go Failed p2(1) unfolding unfold s2_def
        by (simp only: if_False send_result.case bindE.simps)
    next
      case Sent
      obtain bytes where "response q' = Some bytes" using f(2) go by auto
      define s2 where "s2 = s1\<lparr>outbox := outbox s1 @ [(req_addr q', bytes)]\<rparr>"
      have send: "send_reply q' s1 = Inr s2" using \<open>response q' = Some bytes\<close> by (simp add: send_reply_def s2_def)
      have s2: "server_ok s2" "port s2 = Some p0" "requests s2 r = Some q'"
        using ok1 p1 by (simp_all add: s2_def server_ok_def live_def port_ok_def)
      have "r \<in> dom (requests s0)" using q s0 by auto
      then have "0 < card (dom (requests s0))" using server_ok_finite [OF p0(1)] by (auto simp: card_gt_0_iff)
      with p0 have "refcnt p0 \<noteq> 1" by (simp add: port_ok_def)
      with server_request_free_runs [OF s2(1,3,2)] obtain s3 where free: "server_request_free r s2 = Inr (False, s3)"
        and s3: "server_ok s3" "requests s3 = (requests s2)(r := None)" "next_request s3 = next_request s2"
          "\<exists>p3. port s3 = Some p3 \<and> closing p3 = closing p0 \<and> lock_count p3 = lock_count p0"
        by (auto simp: runs_iff)
      have open3: "open_port s3" "stays_open s0 s3"
        using s3 p0 by (auto simp: open_port_def stays_open_def s2_def s1_def)
      have live3: "live s3 r' \<longrightarrow> live s r' \<and> r' \<noteq> r" for r'
        using s3 live1 [of r'] by (auto simp: live_def s2_def)
      obtain p3 where p3: "get_port s3 = Inr p3" using s3(4) by (auto simp: get_port_def)
      have "runs (if pending_replies p3 \<noteq> [] then server_port_flush (\<lambda>i. send (i + 1)) ev_add s3 else Inr s3)
          (\<lambda>s4. server_ok s4 \<and> stays_open s0 s4 \<and> (\<forall>r'. live s4 r' \<longrightarrow> live s3 r'))"
        using flush_runs [OF open3(1), of "\<lambda>i. send (i + 1)" ev_add] open3 s3(1)
        by (auto elim!: runs_mono dest: stays_open_trans)
      then have "runs (bindE (if pending_replies p3 \<noteq> [] then server_port_flush (\<lambda>i. send (i + 1)) ev_add s3 else Inr s3) (?fin 0)) ?P"
        by (rule runs_bindI) (rule fin, use live3 in auto)
      then show ?thesis
        using go Sent unfolding unfold by (simp only: if_False send_result.case send free bindE.simps prod.case p3)
    qed
  qed
qed

section \<open>Reading requests\<close>

unbundle bit_operations_syntax

text \<open>A request as it comes out of \<open>parse_request\<close>.\<close>

definition fresh :: "server_request \<Rightarrow> bool" where
  "fresh q \<longleftrightarrow> response q = None \<and> answer q = [] \<and> authority q = [] \<and> additional q = [] \<and>
     (\<forall>x\<in>set (questions q). length (q_name x) < 256)"

lemma runs_bindP:
  "runs m (\<lambda>r. case r of None \<Rightarrow> True | Some x \<Rightarrow> Q x) \<Longrightarrow> (\<And>x. Q x \<Longrightarrow> runs (f x) (\<lambda>r. case r of None \<Rightarrow> True | Some y \<Rightarrow> P y))
   \<Longrightarrow> runs (bindP m f) (\<lambda>r. case r of None \<Rightarrow> True | Some y \<Rightarrow> P y)"
  unfolding bindP_def by (erule runs_bindI) (auto split: option.splits)

lemma GET16_runs: "len \<le> length packet \<Longrightarrow> runs (GET16 packet len j) (\<lambda>r. case r of None \<Rightarrow> True | Some (x, j') \<Rightarrow> j' = j + 2 \<and> j' \<le> len)"
  by (auto simp: GET16_def)

lemma get_header_runs:
  assumes "len \<le> length packet"
  shows "runs (get_header packet len) (\<lambda>r. case r of None \<Rightarrow> True | Some (h, j) \<Rightarrow> length h = 6 \<and> j = 12 \<and> j \<le> len)"
  unfolding get_header_def
  by (rule runs_bindP [OF GET16_runs [OF assms]], clarify)+ simp

lemma get_questions_runs:
  assumes "len + 63 \<le> length packet"
  shows "j \<le> len \<Longrightarrow> runs (get_questions malloc packet len n j) (\<lambda>r. case r of None \<Rightarrow> True | Some (qs, j') \<Rightarrow>
    length qs = n \<and> j' \<le> len \<and> (\<forall>x\<in>set qs. length (q_name x) < 256))"
proof (induction n arbitrary: j)
  case (Suc n)
  have name: "runs (name_parse packet len j 256) (\<lambda>r. case r of None \<Rightarrow> True | Some (j', name) \<Rightarrow> j' \<le> len \<and> length name < 256)"
    using name_loop_safe [of len packet "[]" 256 j j None 0] assms Suc.prems
    by (auto simp: name_parse_def elim!: runs_mono split: option.splits)
  have len: "len \<le> length packet" using assms by simp
  show ?case
    unfolding get_questions.simps
    by (rule runs_bindP [OF name], clarify, rule runs_bindP [OF GET16_runs [OF len]], clarify,
        rule runs_bindP [OF GET16_runs [OF len]], clarify)
       (auto simp: Let_def intro: le_less_trans [OF length_c_string] intro!: runs_bindP [OF Suc.IH])
qed simp

lemma parse_request_runs:
  assumes "len + 63 \<le> length packet"
  shows "runs (parse_request new_req calloc malloc packet len addr) (\<lambda>r. case r of None \<Rightarrow> True | Some q \<Rightarrow>
    fresh q \<and> req_flags q AND 0x7800 = 0)"
proof -
  have len: "len \<le> length packet" using assms by simp
  have flags: "(ucast (w AND 0x0110) :: 32 word) AND 0x7800 = 0" for w :: "16 word"
    by (simp add: unsigned_and_eq and.assoc)
  show ?thesis
    unfolding parse_request_def
    by (rule runs_bindP [OF get_header_runs [OF len]], clarify)
       (auto simp: Let_def fresh_def flags intro!: runs_bindP [OF get_questions_runs [OF assms]])
qed

text \<open>What the reading side of a port needs of the user's callback.\<close>

locale request_handler =
  fixes callback :: "nat \<Rightarrow> server \<Rightarrow> server exec"
  assumes handles: "open_port s \<Longrightarrow> requests s r = Some q \<Longrightarrow> fresh q \<Longrightarrow> r \<notin> set (pending_replies (the (port s)))
    \<Longrightarrow> runs (callback r s) (\<lambda>s'. server_ok s' \<and> stays_open s s')"
begin

lemma request_parse_runs:
  assumes ok: "open_port s" and len: "len + 63 \<le> length packet"
  shows "runs (request_parse new_req calloc malloc respond callback packet len addr s)
    (\<lambda>(res, s'). server_ok s' \<and> stays_open s s')"
proof -
  from ok obtain p where p: "server_ok s" "port s = Some p" "\<not> closing p" "port_ok s p"
    by (auto simp: open_port_def server_ok_def)
  from parse_request_runs [OF len, of new_req calloc malloc addr]
  obtain req where req: "parse_request new_req calloc malloc packet len addr = Inr req"
    "\<forall>q. req = Some q \<longrightarrow> fresh q \<and> req_flags q AND 0x7800 = 0"
    unfolding runs_iff by (elim exE conjE) (auto split: option.splits)
  show ?thesis
  proof (cases req)
    case None
    with req p show ?thesis by (simp add: request_parse_def stays_open_refl)
  next
    case (Some q)
    let ?r = "next_request s"
    let ?s = "put_request ?r q s\<lparr>next_request := ?r + 1, port := Some (p\<lparr>refcnt := refcnt p + 1\<rparr>)\<rparr>"
    have new: "\<not> live s ?r" using p(1) by (auto simp: server_ok_def)
    have "dom (requests ?s) = insert ?r (dom (requests s))" by auto
    then have card: "card (dom (requests ?s)) = Suc (card (dom (requests s)))"
      using new server_ok_finite [OF p(1)] by (auto simp: live_def card_insert_if)
    have "open_port ?s" "?r \<notin> set (pending_replies p)" "stays_open s ?s" "requests ?s ?r = Some q"
      using p new card by (auto simp: open_port_def server_ok_def port_ok_def live_def stays_open_def less_Suc_eq)
    then have "runs (callback ?r ?s) (\<lambda>s'. server_ok s' \<and> stays_open s s')"
      using req(2) [rule_format, OF Some] by (intro runs_mono [OF handles [of ?s ?r q]]) (auto dest: stays_open_trans)
    with req Some p req(2) [rule_format, OF Some] show ?thesis
      by (auto simp: request_parse_def port_defs Let_def runs_bindE)
  qed
qed

lemma server_port_read_runs:
  assumes "open_port s" and "\<forall>(bytes, addr)\<in>set received. length bytes + 63 \<le> length packet"
  shows "runs (server_port_read (request_parse new_req calloc malloc respond callback) received packet s)
    (\<lambda>s'. server_ok s' \<and> stays_open s s')"
  using assms
proof (induction received arbitrary: packet s)
  case Nil
  then show ?case by (auto simp: open_port_def port_defs stays_open_def)
next
  case (Cons d received)
  obtain bytes addr where d: "d = (bytes, addr)" by (cases d)
  let ?p = "mem_write 0 bytes packet"
  have len: "length ?p = length packet" using Cons.prems d by (auto simp: length_mem_write)
  obtain p where p: "get_port s = Inr p" using Cons.prems by (auto simp: open_port_def get_port_def)
  have "runs (request_parse new_req calloc malloc respond callback ?p (length bytes) addr s) (\<lambda>(res, s'). server_ok s' \<and> stays_open s s')"
    using Cons.prems d len by (intro request_parse_runs) auto
  then show ?case
    unfolding d server_port_read.simps p bindE.simps Let_def
    by (rule runs_bindI)
       (use Cons.prems len in \<open>auto intro!: runs_mono [OF Cons.IH] dest: stays_open_trans open_port_stays\<close>)
qed

lemma ready_callback_runs:
  assumes ok: "open_port s" and fit: "\<forall>(bytes, addr)\<in>set received. length bytes + 63 \<le> length packet"
  shows "runs (server_port_ready_callback send ev_add (request_parse new_req calloc malloc respond callback) received packet readable writable s)
    (\<lambda>s'. server_ok s' \<and> stays_open s s')"
proof -
  from locked_ok [OF ok] obtain s0 where lk: "EVDNS_LOCK s = Inr s0" and s0: "open_port s0"
    and un: "\<And>s'. stays_open s0 s' \<Longrightarrow> server_ok s' \<Longrightarrow> runs (EVDNS_UNLOCK s') (\<lambda>s''. server_ok s'' \<and> stays_open s s'')"
    by (force elim: runs_mono)
  obtain p0 where p0: "port s0 = Some p0" "server_ok s0" "\<not> closing p0" using s0 by (auto simp: open_port_def)
  let ?s1 = "s0\<lparr>port := Some (p0\<lparr>choked := False\<rparr>)\<rparr>"
  have s1: "open_port ?s1" "stays_open s0 ?s1"
    using p0 by (auto simp: open_port_def stays_open_def intro!: upd_port_ok)
  have flush: "runs (if writable then bindE (upd_port (\<lambda>p. p\<lparr>choked := False\<rparr>) s0) (server_port_flush send ev_add) else Inr s0)
      (\<lambda>s2. server_ok s2 \<and> stays_open s0 s2)"
    using flush_runs [OF s1(1), of send ev_add] s1(2) p0
    by (auto simp: upd_port_def get_port_def stays_open_refl elim!: runs_mono dest: stays_open_trans)
  show ?thesis
    unfolding server_port_ready_callback_def lk bindE.simps
  proof (rule runs_bindI [OF flush])
    fix s2
    assume s2: "server_ok s2 \<and> stays_open s0 s2"
    then have "open_port s2" using open_port_stays [OF s0] by blast
    from server_port_read_runs [OF this fit, of new_req calloc malloc respond] s2
    have "runs (if readable then server_port_read (request_parse new_req calloc malloc respond callback) received packet s2 else Inr s2)
        (\<lambda>s3. server_ok s3 \<and> stays_open s0 s3)"
      by (auto elim!: runs_mono dest: stays_open_trans)
    then show "runs (bindE (if readable then server_port_read (request_parse new_req calloc malloc respond callback) received packet s2 else Inr s2) EVDNS_UNLOCK)
        (\<lambda>s'. server_ok s' \<and> stays_open s s')"
      by (rule runs_bindI) (use un in blast)
  qed
qed

end

interpretation dropping: request_handler "\<lambda>r s. bindE (evdns_server_request_drop r s) (\<lambda>(_, s). Inr s)"
  by unfold_locales (auto simp: live_def runs_bindE intro!: runs_mono [OF drop_runs])

end
