(* ===== verification/Evdns_Spec.thy ===== *)
theory Evdns_Spec
  imports Evdns_Serving
begin

text \<open>
  The properties of the DNS server of \<open>evdns.c\<close>: queries arrive as they were asked, every sequence of calls keeps
  the port and its requests, the callback of the port runs, and what the code gets wrong.
\<close>

section \<open>Queries\<close>

text \<open>
  C29: a query that \<open>evdns_request_data_build\<close> writes into a buffer of the size \<open>evdns_request_len\<close> is understood by
  \<open>request_parse\<close> as it was meant: the transaction id, the name (without a dot at its end), type and class, and the
  flag for recursion; the bytes that are in the memory behind the packet do not matter.
\<close>

theorem dns_query_round_trip:
  assumes "evdns_request_len (length name) \<le> length buf" "length buf \<le> 0x4000" "name_ok name" "length name \<le> 255"
  shows "\<exists>r buf'. evdns_request_data_build name tid type class buf = Inr (int r, buf') \<and> r \<le> length buf \<and>
    (\<forall>rest addr. parse_request True (\<lambda>_. True) (\<lambda>_. True) (take r buf' @ rest) r addr = Inr (Some
      \<lparr>trans_id = tid, req_addr = addr, n_answer = 0, n_authority = 0, n_additional = 0,
       answer = [], authority = [], additional = [], response = None, response_len = 0, req_flags = 0x0100,
       questions = [\<lparr>q_type = uint type, q_class = uint class, q_name = drop_last_dot name\<rparr>]\<rparr>))"
  using query_reads [OF assms, of tid type "class"] unfolding query_request_def by blast

text \<open>A query for \<open>a.b\<close>.\<close>

theorem dns_query_round_trip_witness:
  "\<exists>r buf'. evdns_request_data_build [97, 46, 98] 7 1 1 (replicate 105 0) = Inr (int r, buf') \<and> r \<le> 105 \<and>
    (\<forall>rest addr. parse_request True (\<lambda>_. True) (\<lambda>_. True) (take r buf' @ rest) r addr = Inr (Some
      \<lparr>trans_id = 7, req_addr = addr, n_answer = 0, n_authority = 0, n_additional = 0,
       answer = [], authority = [], additional = [], response = None, response_len = 0, req_flags = 0x0100,
       questions = [\<lparr>q_type = 1, q_class = 1, q_name = [97, 46, 98]\<rparr>]\<rparr>))"
  using dns_query_round_trip [of "[97, 46, 98]" "replicate 105 0" 7 1 1]
  by (simp add: evdns_request_len_def name_ok_def drop_last_dot_def)

section \<open>Calls\<close>

text \<open>
  The calls a program may make while a port is open: the requests it names are there, the data it passes are as long
  as it says, a request is answered once, and an answer fits the buffer (otherwise \<open>dnsname_to_labels\<close> may write
  behind it). \<open>parse\<close> hands requests to a callback that keeps the contract of \<open>request_handler\<close>.
\<close>

inductive server_call :: "server \<Rightarrow> server \<Rightarrow> bool" where
  add_reply: "requests s r = Some q \<Longrightarrow> data_there datalen is_name data \<Longrightarrow>
    evdns_server_request_add_reply new_item malloc strdup r section name type class ttl datalen is_name data s = Inr (res, s')
    \<Longrightarrow> server_call s s'"
| set_flags: "live s r \<Longrightarrow> evdns_server_request_set_flags r flags s = Inr s' \<Longrightarrow> server_call s s'"
| respond: "requests s r = Some q \<Longrightarrow> r \<notin> set (pending_replies (the (port s))) \<Longrightarrow> length stack = 1500 \<Longrightarrow>
    response_size q \<le> 1500 \<Longrightarrow> \<forall>item\<in>set (answer q @ authority q @ additional q). item_ok item \<Longrightarrow>
    evdns_server_request_respond strdup malloc stack send ev_add r err s = Inr (res, s') \<Longrightarrow> server_call s s'"
| drop_request: "live s r \<Longrightarrow> evdns_server_request_drop r s = Inr (res, s') \<Longrightarrow> server_call s s'"
| ready: "request_handler callback \<Longrightarrow> \<forall>(bytes, addr)\<in>set received. length bytes + 63 \<le> length packet \<Longrightarrow>
    server_port_ready_callback send ev_add (request_parse new_req calloc malloc answers callback) received packet readable writable s
      = Inr s' \<Longrightarrow> server_call s s'"

inductive server_calls :: "server \<Rightarrow> server \<Rightarrow> bool" where
  none: "server_calls s s"
| one_more: "server_calls s s' \<Longrightarrow> server_call s' s'' \<Longrightarrow> server_calls s s''"

lemma runs_value: "runs m P \<Longrightarrow> m = Inr x \<Longrightarrow> P x"
  by simp

lemma server_call_keeps:
  assumes "server_call s s'" "open_port s"
  shows "server_ok s' \<and> stays_open s s'"
  using assms
proof (cases rule: server_call.cases)
  case (add_reply r q datalen is_name data new_item malloc strdup "section" name type "class" ttl res)
  with runs_value [OF add_reply_runs] assms(2) show ?thesis by (fastforce simp: open_port_def)
next
  case (set_flags r flags)
  with runs_value [OF set_flags_runs] assms(2) show ?thesis by (fastforce simp: open_port_def)
next
  case (respond r q stack strdup malloc send ev_add err res)
  have "runs (evdns_server_request_format_response strdup malloc stack q err) (\<lambda>(res, q'). 0 \<le> res \<longrightarrow> response q' \<noteq> None)"
    by (rule runs_mono [OF format_response_runs [OF respond(3,4,5)]]) auto
  with runs_value [OF respond_runs [OF assms(2) respond(1,2)] respond(6)] show ?thesis by auto
next
  case (drop_request r res)
  with runs_value [OF drop_runs [OF assms(2)]] show ?thesis by fastforce
next
  case (ready callback received packet send ev_add new_req calloc malloc answers readable writable)
  then show ?thesis
    using runs_value [OF request_handler.ready_callback_runs [OF ready(1) assms(2) ready(2)] ready(3)] by simp
qed

lemma server_calls_keep:
  assumes "server_calls s s'" "open_port s"
  shows "open_port s' \<and> stays_open s s'"
  using assms
proof (induction rule: server_calls.induct)
  case (none s)
  then show ?case by (auto simp: open_port_def stays_open_refl)
next
  case (one_more s s' s'')
  then show ?case using server_call_keeps open_port_stays stays_open_trans by blast
qed

text \<open>
  C30: after any sequence of these calls on a new port it is still there, unlocked and not closing, and its reference
  count is one more than the number of its requests; the pending replies are requests with a response, each once.
\<close>

theorem server_calls_keep_port:
  assumes "evdns_add_server_port_with_base flags new_port ev_add = Some s0" "server_calls s0 s"
  shows "\<exists>p. port s = Some p \<and> lock_count p = 0 \<and> \<not> closing p \<and> refcnt p = 1 + int (card (dom (requests s))) \<and>
    distinct (pending_replies p) \<and> (\<forall>r\<in>set (pending_replies p). \<exists>q. requests s r = Some q \<and> response q \<noteq> None)"
proof -
  from assms(1) have new: "open_port s0" "\<exists>p. port s0 = Some p \<and> lock_count p = 0"
    using new_port_ok by (auto simp: open_port_def evdns_add_server_port_with_base_def split: if_splits)
  from server_calls_keep [OF assms(2) new(1)] new show ?thesis by (auto simp: open_port_def server_ok_def port_ok_def stays_open_def)
qed

text \<open>A new port reads one query and drops it.\<close>

theorem server_calls_keep_port_witness:
  "\<exists>s0 s. evdns_add_server_port_with_base 0 True True = Some s0 \<and>
    server_port_ready_callback (\<lambda>_. Sent) True
      (request_parse True (\<lambda>_. True) (\<lambda>_. True) (\<lambda>_ _ s. Inr (0, s)) (\<lambda>r s. bindE (evdns_server_request_drop r s) (\<lambda>(_, s). Inr s)))
      [([0, 7, 1, 0, 0, 1, 0, 0, 0, 0, 0, 0, 1, 97, 0, 0, 1, 0, 1], [127, 0, 0, 1])] (replicate 1500 0) True False s0 = Inr s \<and>
    (\<exists>p. port s = Some p \<and> lock_count p = 0 \<and> \<not> closing p \<and> refcnt p = 1 + int (card (dom (requests s))) \<and>
    distinct (pending_replies p) \<and> (\<forall>r\<in>set (pending_replies p). \<exists>q. requests s r = Some q \<and> response q \<noteq> None))"
proof -
  let ?in = "[([0, 7, 1, 0, 0, 1, 0, 0, 0, 0, 0, 0, 1, 97, 0, 0, 1, 0, 1], [127, 0, 0, 1])] :: (byte list \<times> address) list"
  obtain s0 where s0: "evdns_add_server_port_with_base 0 True True = Some s0"
    by (simp add: evdns_add_server_port_with_base_def)
  then have "open_port s0" using new_port_ok [OF s0]
    by (auto simp: open_port_def evdns_add_server_port_with_base_def)
  from dropping.ready_callback_runs [OF this, of ?in "replicate 1500 0" "\<lambda>_. Sent" True True "\<lambda>_. True" "\<lambda>_. True" "\<lambda>_ _ s. Inr (0, s)" True False]
  obtain s where run: "server_port_ready_callback (\<lambda>_. Sent) True
      (request_parse True (\<lambda>_. True) (\<lambda>_. True) (\<lambda>_ _ s. Inr (0, s)) (\<lambda>r s. bindE (evdns_server_request_drop r s) (\<lambda>(_, s). Inr s)))
      ?in (replicate 1500 0) True False s0 = Inr s" by (auto simp: runs_iff)
  have "server_calls s0 s"
    by (rule server_calls.one_more [OF server_calls.none server_call.ready [OF dropping.request_handler_axioms _ run]]) simp
  from server_calls_keep_port [OF s0 this] s0 run show ?thesis by blast
qed

section \<open>Running the port\<close>

text \<open>
  What the interface asks of the user's callback: for a request that has just been parsed it makes some of the calls
  above, on this request or on others, in any number and any order, and leaves it at that.
\<close>

definition uses_interface :: "(nat \<Rightarrow> server \<Rightarrow> server exec) \<Rightarrow> bool" where
  "uses_interface callback \<longleftrightarrow>
     (\<forall>s r q. open_port s \<longrightarrow> requests s r = Some q \<longrightarrow> fresh q \<longrightarrow> r \<notin> set (pending_replies (the (port s)))
        \<longrightarrow> (\<exists>s'. callback r s = Inr s' \<and> server_calls s s'))"

lemma interface_handler:
  assumes "uses_interface callback"
  shows "request_handler callback"
proof
  fix s r q
  assume s: "open_port s" "requests s r = Some q" "fresh q" "r \<notin> set (pending_replies (the (port s)))"
  with assms obtain s' where s': "callback r s = Inr s'" "server_calls s s'" unfolding uses_interface_def by blast
  from server_calls_keep [OF s'(2) s(1)] s'(1) show "runs (callback r s) (\<lambda>s'. server_ok s' \<and> stays_open s s')"
    by (simp add: open_port_def)
qed

text \<open>
  C31: the callback of an open port crashes nowhere and leaves the port open, its lock as it was and the invariant in
  place, whatever datagrams of up to 1437 bytes are received, whatever \<open>sendto\<close> and the allocations give, and whatever
  the user's callback does within the interface: it may answer, respond, drop or keep requests, as long as an answer fits
  the buffer of 1500 bytes and no request is responded to a second time while it is queued. Every loop in it ends.
\<close>

theorem server_port_serves:
  assumes "server_ok s" "port s = Some p" "\<not> closing p" "length packet = 1500"
    and "\<forall>(bytes, addr)\<in>set received. length bytes \<le> 1437" and "uses_interface callback"
  shows "runs (server_port_ready_callback send ev_add
      (request_parse new_req calloc malloc answers callback) received packet readable writable s)
    (\<lambda>s'. server_ok s' \<and> (\<exists>p'. port s' = Some p' \<and> \<not> closing p' \<and> lock_count p' = lock_count p))"
proof -
  have "open_port s" using assms by (simp add: open_port_def)
  then show ?thesis
    by (rule runs_mono [OF request_handler.ready_callback_runs [OF interface_handler [OF assms(6)]]])
      (use assms in \<open>auto simp: stays_open_def\<close>)
qed

text \<open>A callback that answers queries with one question with an address, and drops all others. No reply can be sent.\<close>

definition answering :: "nat \<Rightarrow> server \<Rightarrow> server exec" where
  "answering r s =
     bindE (get_request s r) (\<lambda>q.
     bindE (if length (questions q) \<le> 1
            then bindE (evdns_server_request_add_reply True (\<lambda>_. True) (\<lambda>_. True) r 0 [97] TYPE_A CLASS_INET 60 4 0 (Some [127, 0, 0, 1]) s)
                   (\<lambda>(_, s). evdns_server_request_respond (\<lambda>_. True) (\<lambda>_. True) (replicate 1500 0) (\<lambda>_. Failed) True r 0 s)
            else evdns_server_request_drop r s) (\<lambda>(_, s). Inr s))"

lemma answering_uses_interface: "uses_interface answering"
  unfolding uses_interface_def
proof (intro allI impI)
  fix s r q
  assume s: "open_port s" "requests s r = Some q" and q: "fresh q" and idle: "r \<notin> set (pending_replies (the (port s)))"
  from s obtain p where p: "port s = Some p" "server_ok s" "\<not> closing p" by (auto simp: open_port_def)
  show "\<exists>s'. answering r s = Inr s' \<and> server_calls s s'"
  proof (cases "length (questions q) \<le> 1")
    case True
    let ?item = "\<lparr>item_name = [97], item_type = of_int TYPE_A, item_class = of_int CLASS_INET, item_ttl = 60,
      item_is_name = False, item_datalen = 4, item_data = Some [127, 0, 0, 1]\<rparr>"
    let ?q = "q\<lparr>answer := [?item], n_answer := n_answer q + 1\<rparr>"
    let ?s = "put_request r ?q s"
    have add: "evdns_server_request_add_reply True (\<lambda>_. True) (\<lambda>_. True) r 0 [97] TYPE_A CLASS_INET 60 4 0 (Some [127, 0, 0, 1]) s
        = Inr (0, ?s)"
      using s(2) q p(1) by (simp add: evdns_server_request_add_reply_def new_reply_item_def port_defs Let_def fresh_def
          to_size_def SIZE_MOD_def port_same)
    then have call: "server_call s ?s"
      by (rule server_call.add_reply [OF s(2), rotated]) (simp add: data_there_def to_size_def SIZE_MOD_def)
    from server_call_keeps [OF this s(1)] have s1: "open_port ?s" using s(1) open_port_stays by blast
    have "question_size x \<le> 261" if "x \<in> set (questions q)" for x
      using q that by (auto simp: fresh_def question_size_def)
    then have "sum_list (map question_size (questions q)) \<le> 261" using True by (cases "questions q") auto
    then have size: "response_size ?q \<le> 1500" using q by (simp add: response_size_def fresh_def item_size_def)
    have items: "\<forall>item\<in>set (items_of ?q). item_ok item" using q by (simp add: fresh_def item_ok_def)
    have "runs (evdns_server_request_format_response (\<lambda>_. True) (\<lambda>_. True) (replicate 1500 0) ?q 0)
        (\<lambda>(res, q'). 0 \<le> res \<longrightarrow> response q' \<noteq> None)"
      by (rule runs_mono [OF format_response_runs [OF _ size items]]) auto
    with respond_runs [OF s1, of r ?q "\<lambda>_. True" "\<lambda>_. True" "replicate 1500 0" 0 "\<lambda>_. Failed" True] idle obtain res s' where
      res: "evdns_server_request_respond (\<lambda>_. True) (\<lambda>_. True) (replicate 1500 0) (\<lambda>_. Failed) True r 0 ?s = Inr (res, s')"
      by (auto simp: runs_iff)
    have "requests ?s r = Some ?q" "r \<notin> set (pending_replies (the (port ?s)))" using idle by simp_all
    from server_call.respond [OF this _ size items res] have "server_call ?s s'" by simp
    with call have "server_calls s s'" by (blast intro: server_calls.intros)
    moreover have "answering r s = Inr s'" using True s(2) add res by (simp add: answering_def get_request_def)
    ultimately show ?thesis by blast
  next
    case False
    have "live s r" using s(2) by (simp add: live_def)
    from drop_runs [OF s(1) this] obtain res s' where drop: "evdns_server_request_drop r s = Inr (res, s')" by (auto simp: runs_iff)
    with \<open>live s r\<close> have "server_calls s s'" by (blast intro: server_calls.intros server_call.drop_request)
    with False s(2) drop show ?thesis by (simp add: answering_def get_request_def)
  qed
qed

theorem server_port_serves_witness:
  "\<exists>s. evdns_add_server_port_with_base 0 True True = Some s \<and>
    runs (server_port_ready_callback (\<lambda>_. Failed) True
      (request_parse True (\<lambda>_. True) (\<lambda>_. True) (\<lambda>_ _ s. Inr (0, s)) answering)
      [([0, 7, 1, 0, 0, 1, 0, 0, 0, 0, 0, 0, 1, 97, 0, 0, 1, 0, 1], [127, 0, 0, 1])] (replicate 1500 0) True True s)
    (\<lambda>s'. server_ok s' \<and> (\<exists>p'. port s' = Some p' \<and> \<not> closing p' \<and> lock_count p' = 0))"
proof -
  let ?p = "\<lparr>refcnt = 1, choked = False, closing = False, listening = Some (True, False), pending_replies = [], lock_count = 0\<rparr>"
  obtain s where s: "evdns_add_server_port_with_base 0 True True = Some s" "port s = Some ?p"
    by (simp add: evdns_add_server_port_with_base_def)
  with server_port_serves [OF new_port_ok [OF s(1)] s(2) _ _ _ answering_uses_interface, of "replicate 1500 0"
      "[([0, 7, 1, 0, 0, 1, 0, 0, 0, 0, 0, 0, 1, 97, 0, 0, 1, 0, 1], [127, 0, 0, 1])]"] show ?thesis
    by (intro exI [of _ s]) simp
qed

section \<open>Responding\<close>

text \<open>What \<open>evdns_server_request_respond\<close> does once the response is formatted.\<close>

lemma respond_formatted:
  assumes "requests s r = Some q" "port s = Some p"
    and "(if response q = None then evdns_server_request_format_response strdup malloc stack q err else Inr (0, q)) = Inr (res, q')"
  shows "evdns_server_request_respond strdup malloc stack send ev_add r err s =
      (let p1 = p\<lparr>lock_count := lock_count p + 1\<rparr>; s1 = put_request r q' s\<lparr>port := Some p1\<rparr>;
           done = (\<lambda>res s. bindE (EVDNS_UNLOCK s) (\<lambda>s. Inr (res, s))) in
       if res < 0 then done res s1
       else case send 0 of
         Retriable \<Rightarrow> done (-1) s1
       | Failed \<Rightarrow> bindE (queue_reply ev_add r p1) (\<lambda>p. done 1 (s1\<lparr>port := Some p\<rparr>))
       | Sent \<Rightarrow> bindE (send_reply q' s1) (\<lambda>s.
           bindE (server_request_free r s) (\<lambda>(freed, s).
           if freed then done 0 s
           else bindE (get_port s) (\<lambda>p.
                bindE (if pending_replies p \<noteq> [] then server_port_flush (\<lambda>i. send (i + 1)) ev_add s else Inr s) (done 0)))))"
proof -
  let ?s0 = "s\<lparr>port := Some (p\<lparr>lock_count := lock_count p + 1\<rparr>)\<rparr>"
  have lk: "EVDNS_LOCK s = Inr ?s0" and q: "get_request s r = Inr q"
    using assms(1,2) by (simp_all add: port_defs)
  have put: "put_request r q' ?s0 = put_request r q' s\<lparr>port := Some (p\<lparr>lock_count := lock_count p + 1\<rparr>)\<rparr>"
    by (simp add: put_request_def)
  have gp: "get_port (put_request r q' s\<lparr>port := Some (p\<lparr>lock_count := lock_count p + 1\<rparr>)\<rparr>)
      = Inr (p\<lparr>lock_count := lock_count p + 1\<rparr>)" by (simp add: get_port_def)
  show ?thesis
    unfolding evdns_server_request_respond_def q lk bindE.simps assms(3) prod.case Let_def put gp ..
qed

lemma respond_sends:
  assumes ok: "open_port s" and p: "port s = Some p" and none: "pending_replies p = []" and q: "requests s r = Some q"
    and fmt: "(if response q = None then evdns_server_request_format_response strdup malloc stack q err else Inr (0, q)) = Inr (0, q')"
    and bytes: "response q' = Some bytes" and send: "send 0 = Sent"
  shows "\<exists>s'. evdns_server_request_respond strdup malloc stack send ev_add r err s = Inr (0, s') \<and>
    outbox s' = outbox s @ [(req_addr q', bytes)]"
proof -
  let ?p = "p\<lparr>lock_count := lock_count p + 1\<rparr>"
  let ?s1 = "put_request r q' s\<lparr>port := Some ?p\<rparr>"
  let ?s2 = "?s1\<lparr>outbox := outbox s @ [(req_addr q', bytes)]\<rparr>"
  have s: "server_ok s" "port_ok s p" "\<not> closing p" using ok p by (auto simp: open_port_def server_ok_def)
  have "server_ok (put_request r q' s)" using q bytes by (intro put_request_ok [OF s(1)]) (simp_all add: live_def)
  then have "server_ok ?s1" by (rule upd_port_ok [where p = p]) (simp_all add: p)
  then have ok2: "server_ok ?s2" by (simp add: server_ok_def live_def port_ok_def)
  have "r \<in> dom (requests s)" using q by auto
  then have "0 < card (dom (requests s))" using server_ok_finite [OF s(1)] by (auto simp: card_gt_0_iff)
  with s have "refcnt ?p \<noteq> 1" by (simp add: port_ok_def)
  with server_request_free_runs [OF ok2, of r q' ?p] obtain s3 where
    "server_request_free r ?s2 = Inr (False, s3)" "outbox s3 = outbox ?s2" "\<exists>p3. port s3 = Some p3 \<and> pending_replies p3 = []"
    using none by (auto simp: runs_iff)
  moreover have "send_reply q' ?s1 = Inr ?s2" using bytes by (simp add: send_reply_def)
  ultimately show ?thesis
    by (auto simp: respond_formatted [OF q p fmt] send Let_def get_port_def EVDNS_UNLOCK_def upd_port_def)
qed

section \<open>What goes wrong\<close>

text \<open>
  C32: when the name of an answer, or the name in its data, cannot be encoded (a label of more than 63 bytes, or more than
  255 bytes in all), and all that is to be written has room in the 1500 bytes of the buffer,
  \<open>evdns_server_request_format_response\<close> makes a response of 512 bytes with the bit for truncation.
  Its bytes from the end of the room for the header, the questions and the answers up to this one are what the stack held
  before; and \<open>evdns_server_request_respond\<close>, on a port without pending replies, sends them to the one who asked. (A name
  of a question that cannot be encoded makes it return an error instead.)
\<close>

theorem response_sends_stack:
  assumes "length stack = 1500" "response_size req \<le> 1500" "\<forall>item\<in>set (items_of req). item_ok item"
    and "\<forall>q\<in>set (questions req). encodable (q_name q)"
    and "items_of req = before @ item # later" "\<not> item_encodable item"
    and "0 \<le> err" "err \<le> 15" "malloc 512"
  shows "\<exists>bytes. length bytes = 512 \<and> bytes ! 2 AND 2 = 2 \<and>
    (\<forall>i<512. 12 + questions_size req + sum_list (map item_size (before @ [item])) \<le> i \<longrightarrow> bytes ! i = stack ! i) \<and>
    (\<exists>req'. evdns_server_request_format_response strdup malloc stack req err = Inr (0, req') \<and> response req' = Some bytes) \<and>
    (\<forall>s p r send. open_port s \<and> port s = Some p \<and> pending_replies p = [] \<and> requests s r = Some req \<and> response req = None
        \<and> send 0 = Sent \<longrightarrow>
       (\<exists>s'. evdns_server_request_respond strdup malloc stack send ev_add r err s = Inr (0, s') \<and>
          outbox s' = outbox s @ [(req_addr req, bytes)]))"
proof -
  from format_response_overflows [OF assms(1-8), of malloc strdup] assms(9) obtain req' bytes where
    f: "evdns_server_request_format_response strdup malloc stack req err = Inr (0, req')" "response req' = Some bytes"
      "req_addr req' = req_addr req" "length bytes = 512" "bytes ! 2 AND 2 = 2"
      "\<forall>i<512. 12 + questions_size req + sum_list (map item_size (before @ [item])) \<le> i \<longrightarrow> bytes ! i = stack ! i"
    by blast
  have "\<exists>s'. evdns_server_request_respond strdup malloc stack send ev_add r err s = Inr (0, s') \<and>
          outbox s' = outbox s @ [(req_addr req, bytes)]"
    if s: "open_port s" "port s = Some p" "pending_replies p = []" "requests s r = Some req" "response req = None" "send 0 = Sent"
    for s p r send
    using respond_sends [where send = send, OF s(1-4) _ f(2) s(6), of strdup malloc stack err ev_add] f(1,3) s(5) by simp
  with f show ?thesis by blast
qed

text \<open>
  A good answer and one whose name is a label of 64 bytes; the stack holds bytes 204 before. The response is sent, with
  403 of these bytes.
\<close>

theorem response_sends_stack_witness:
  "\<exists>s req s' bytes. requests s 0 = Some req \<and> length (answer req) = 2 \<and> outbox s = [] \<and>
    evdns_server_request_respond (\<lambda>_. True) (\<lambda>_. True) (replicate 1500 0xcc) (\<lambda>_. Sent) True 0 0 s = Inr (0, s') \<and>
    outbox s' = [([127, 0, 0, 1], bytes)] \<and> length bytes = 512 \<and> (\<forall>i<512. 109 \<le> i \<longrightarrow> bytes ! i = 0xcc)"
proof -
  let ?item = "\<lambda>name. \<lparr>item_name = name, item_type = 1, item_class = 1, item_ttl = 0, item_is_name = False, item_datalen = 4,
                   item_data = Some [127, 0, 0, 1]\<rparr>"
  let ?good = "?item [97]" and ?bad = "?item (replicate 64 97)"
  define req where "req = \<lparr>trans_id = 7, req_addr = [127, 0, 0, 1], n_answer = 2, n_authority = 0, n_additional = 0,
       answer = [?good, ?bad], authority = [], additional = [], response = None, response_len = 0, req_flags = 0, questions = []\<rparr>"
  let ?p = "\<lparr>refcnt = 2, choked = False, closing = False, listening = Some (True, False), pending_replies = [], lock_count = 0\<rparr>"
  define s where "s = \<lparr>port = Some ?p, requests = [0 \<mapsto> req], next_request = 1, outbox = []\<rparr>"
  have "next_label (replicate 64 (97 :: byte)) = (replicate 64 97, None)"
    by (simp add: next_label_def memchr_None split: option.splits)
  then have bad: "\<not> item_encodable ?bad" by (simp add: item_encodable_def encodable_def short_labels_next)
  have req: "response_size req \<le> 1500" "\<forall>item\<in>set (items_of req). item_ok item"
      "\<forall>q\<in>set (questions req). encodable (q_name q)" "items_of req = [?good] @ ?bad # []"
      "12 + questions_size req + sum_list (map item_size ([?good] @ [?bad])) = 109"
      "req_addr req = [127, 0, 0, 1]" "response req = None" "length (answer req) = 2"
    by (simp_all add: req_def response_size_def questions_size_def item_size_def item_ok_def)
  have s: "open_port s" "port s = Some ?p" "requests s 0 = Some req" "outbox s = []"
    by (simp_all add: s_def open_port_def server_ok_def port_ok_def live_def)
  from response_sends_stack [of "replicate 1500 0xcc", OF _ req(1-4) bad, of 0 "\<lambda>_. True" "\<lambda>_. True" True] obtain bytes where
    bytes: "length bytes = 512" "\<forall>i<512. 109 \<le> i \<longrightarrow> bytes ! i = 0xcc"
    and send: "\<And>s p r send. open_port s \<Longrightarrow> port s = Some p \<Longrightarrow> pending_replies p = [] \<Longrightarrow> requests s r = Some req \<Longrightarrow> send 0 = Sent \<Longrightarrow>
       \<exists>s'. evdns_server_request_respond (\<lambda>_. True) (\<lambda>_. True) (replicate 1500 0xcc) send True r 0 s = Inr (0, s') \<and>
          outbox s' = outbox s @ [([127, 0, 0, 1], bytes)]"
    unfolding req(5-7) by auto
  from send [OF s(1,2) _ s(3), of "\<lambda>_. Sent"] s(4) obtain s' where
    "evdns_server_request_respond (\<lambda>_. True) (\<lambda>_. True) (replicate 1500 0xcc) (\<lambda>_. Sent) True 0 0 s = Inr (0, s')"
    "outbox s' = [([127, 0, 0, 1], bytes)]" by auto
  with s(3,4) req(8) bytes show ?thesis by blast
qed

text \<open>
  C33: a first reply to a request that is not queued, or one that has its response already: if the response cannot be
  formatted, \<open>evdns_server_request_respond\<close> returns the error and neither sends nor queues anything. If it can and
  \<open>sendto\<close> says that it must be tried again, it returns -1 and the reply is not queued either: the caller is told so,
  nobody else will try again. If \<open>sendto\<close> has failed for good, it returns 1 and the reply goes to the end of the queue,
  to be sent again; the port then waits for its socket to become writable.
\<close>

theorem respond_queues_failed_only:
  assumes "requests s r = Some q" "port s = Some p" "r \<notin> set (pending_replies p)"
    and "(if response q = None then evdns_server_request_format_response strdup malloc stack q err else Inr (0, q)) = Inr (res, q')"
  shows "(res < 0 \<longrightarrow> evdns_server_request_respond strdup malloc stack send ev_add r err s = Inr (res, put_request r q' s)) \<and>
    (0 \<le> res \<and> send 0 = Retriable \<longrightarrow>
       evdns_server_request_respond strdup malloc stack send ev_add r err s = Inr (-1, put_request r q' s)) \<and>
    (0 \<le> res \<and> send 0 = Failed \<longrightarrow>
       (\<exists>p'. evdns_server_request_respond strdup malloc stack send ev_add r err s = Inr (1, put_request r q' s\<lparr>port := Some p'\<rparr>) \<and>
          pending_replies p' = pending_replies p @ [r] \<and> refcnt p' = refcnt p \<and> lock_count p' = lock_count p \<and>
          (pending_replies p = [] \<longrightarrow> choked p' \<and> listening p' = (if ev_add then Some (\<not> closing p, True) else None))))"
proof -
  let ?s = "put_request r q' s" and ?p = "p\<lparr>lock_count := lock_count p + 1\<rparr>"
  have unlock: "EVDNS_UNLOCK (?s\<lparr>port := Some p1\<rparr>) = Inr (?s\<lparr>port := Some (p1\<lparr>lock_count := lock_count p1 - 1\<rparr>)\<rparr>)" for p1
    by (simp add: port_defs)
  have same: "?s\<lparr>port := Some p\<rparr> = ?s" using assms(2) by (simp add: port_same)
  from assms(3) have "r \<notin> set (pending_replies ?p)" by simp
  from queue_new [OF this, of ev_add] show ?thesis
    by (auto simp: respond_formatted [OF assms(1,2,4)] Let_def unlock same)
qed

text \<open>The first reply to a query without questions: it is queued, or the caller is told that it must be tried again.\<close>

theorem respond_queues_failed_only_witness:
  "\<exists>s q q'. requests s 0 = Some q \<and> response q = None \<and>
    evdns_server_request_respond (\<lambda>_. True) (\<lambda>_. True) (replicate 1500 0) (\<lambda>_. Retriable) True 0 0 s = Inr (-1, put_request 0 q' s) \<and>
    (\<exists>p'. evdns_server_request_respond (\<lambda>_. True) (\<lambda>_. True) (replicate 1500 0) (\<lambda>_. Failed) True 0 0 s
        = Inr (1, put_request 0 q' s\<lparr>port := Some p'\<rparr>) \<and> pending_replies p' = [0] \<and> listening p' = Some (True, True))"
proof -
  let ?p = "\<lparr>refcnt = 2, choked = False, closing = False, listening = Some (True, False), pending_replies = [], lock_count = 0\<rparr>"
  let ?q = "\<lparr>trans_id = 7, req_addr = [], n_answer = 0, n_authority = 0, n_additional = 0, answer = [], authority = [],
    additional = [], response = None, response_len = 0, req_flags = 0, questions = []\<rparr>"
  define s where "s = \<lparr>port = Some ?p, requests = [0 \<mapsto> ?q], next_request = 1, outbox = []\<rparr>"
  obtain q' where "evdns_server_request_format_response (\<lambda>_. True) (\<lambda>_. True) (replicate 1500 0) ?q 0 = Inr (0, q')"
    using format_response_goes [of "replicate 1500 0" ?q 0 "\<lambda>_. True" "\<lambda>_. True"] by (auto simp: response_size_def)
  then have f: "(if response ?q = None then evdns_server_request_format_response (\<lambda>_. True) (\<lambda>_. True) (replicate 1500 0) ?q 0
      else Inr (0, ?q)) = Inr (0, q')" by simp
  have s: "requests s 0 = Some ?q" "port s = Some ?p" "0 \<notin> set (pending_replies ?p)" by (simp_all add: s_def)
  from respond_queues_failed_only [OF s f, of "\<lambda>_. Retriable" True] respond_queues_failed_only [OF s f, of "\<lambda>_. Failed" True]
  show ?thesis using s(1) by (intro exI [of _ s] exI [of _ ?q] exI [of _ q']) auto
qed

text \<open>
  C34: a port that is closed while it has requests stays locked by the thread that closed it, and when the reply to the
  last of them has been sent and the port is freed, \<open>evdns_server_request_respond\<close> releases the lock in freed memory.
\<close>

theorem closed_port_is_used_after_free:
  assumes "server_ok s" "port s = Some p" "\<not> closing p" "requests s = [r \<mapsto> q]" "response q = Some bytes"
  shows "\<exists>s' p'. evdns_close_server_port s = Inr s' \<and> port s' = Some p' \<and> lock_count p' = lock_count p + 1 \<and> closing p' \<and>
    evdns_server_request_respond strdup malloc stack (\<lambda>_. Sent) ev_add r err s' = Inl Out_Of_Bounds"
proof -
  let ?p = "p\<lparr>lock_count := lock_count p + 1, refcnt := refcnt p - 1, closing := True\<rparr>"
  have "\<exists>r. live s r" using assms(4) by (auto simp: live_def)
  with close_runs [OF assms(1-3)] obtain s' where s': "evdns_close_server_port s = Inr s'" "server_ok s'"
    "requests s' = requests s" "port s' = Some ?p" by (auto simp: runs_iff)
  have ref: "refcnt p = 2" using assms by (simp add: server_ok_def port_ok_def)
  let ?p1 = "?p\<lparr>lock_count := lock_count p + 2\<rparr>"
  let ?s1 = "s'\<lparr>port := Some ?p1, outbox := outbox s' @ [(req_addr q, bytes)]\<rparr>"
  have same: "put_request r q s = s" if "requests s r = Some q" for s using that by (cases s) (auto simp: put_request_def)
  have "server_ok (s'\<lparr>port := Some ?p1\<rparr>)" by (rule upd_port_ok [OF s'(2,4)]) simp_all
  then have "server_ok ?s1" by (simp add: server_ok_def live_def port_ok_def)
  then have "runs (server_request_free r ?s1) (\<lambda>(freed, s''). freed \<and> port s'' = None)"
    by (rule runs_mono [OF server_request_free_runs [where p = ?p1 and q = q]]) (use s' assms ref in auto)
  then obtain s'' where "server_request_free r ?s1 = Inr (True, s'')" "port s'' = None" by (auto simp: runs_iff)
  then have "evdns_server_request_respond strdup malloc stack (\<lambda>_. Sent) ev_add r err s' = Inl Out_Of_Bounds"
    using s' assms(4,5) same
    by (simp add: evdns_server_request_respond_def get_request_def EVDNS_LOCK_def EVDNS_UNLOCK_def upd_port_def
        get_port_def Let_def send_reply_def)
  with s' show ?thesis by auto
qed

theorem closed_port_is_used_after_free_witness:
  "\<exists>s s' p'. evdns_close_server_port s = Inr s' \<and> port s' = Some p' \<and> lock_count p' = 1 \<and> closing p' \<and>
    evdns_server_request_respond (\<lambda>_. True) (\<lambda>_. True) [] (\<lambda>_. Sent) True 0 0 s' = Inl Out_Of_Bounds"
proof -
  let ?p = "\<lparr>refcnt = 2, choked = False, closing = False, listening = Some (True, False), pending_replies = [], lock_count = 0\<rparr>"
  let ?q = "\<lparr>trans_id = 7, req_addr = [], n_answer = 0, n_authority = 0, n_additional = 0, answer = [], authority = [],
    additional = [], response = Some [1, 2], response_len = 2, req_flags = 0, questions = []\<rparr>"
  let ?s = "\<lparr>port = Some ?p, requests = [0 \<mapsto> ?q], next_request = 1, outbox = []\<rparr>"
  have "server_ok ?s" by (simp add: server_ok_def port_ok_def live_def)
  then show ?thesis
    using closed_port_is_used_after_free [of ?s ?p 0 ?q "[1, 2]" "\<lambda>_. True" "\<lambda>_. True" "[]" True 0]
    by - (rule exI [of _ ?s], simp)
qed

end
