(* ===== verification/Spec2Isabelle.thy ===== *)
theory Spec2Isabelle
  imports Evbuffer_Chain Evbuffer_Base Evbuffer_Add Evbuffer_Drain Evbuffer_Pullup Evbuffer_Move
    Evbuffer_Stream Evbuffer_Space Evbuffer_Printf Evbuffer_Socket Evbuffer_Search Evtag Evtag_Codec
    Ev_Time Event_Struct Min_Heap Evmap Event_Base Event_Ops Event_Invariant Event_Add Event_Loop Event_API
    Event_Timeout Event_Run Event_Spec Event_Backend Win32_Select Win32_Watch Win32_Spec
    Evutil_String Evutil_Addr Evutil_Sockaddr Evdns_Names Evdns_Server Evdns_Wire Evdns_Serving Evdns_Spec
begin

text \<open>
  Verification of the C code of the repository: the copy of libevent 2.0 under
  \<open>src/libevent_server/libevent\<close>, as the project files build it, for Windows (32-bit \<open>size_t\<close>,
  \<open>MIN_BUFFER_SIZE\<close> 512, \<open>WSARecv\<close> and \<open>WSASend\<close>, no \<open>mmap\<close> and no \<open>sendfile\<close>).

  The program. An event base (\<open>event.c\<close>) waits for sockets, signals and timeouts and runs the callbacks of the
  events that become active. Every layer of libevent moves bytes through evbuffers (\<open>buffer.c\<close>): queues of
  bytes kept as lists of memory chains. Bufferevents connect a pair of evbuffers with a socket, the HTTP, RPC
  and tagging code parses what it pulls up from them.

  The theories.
  \<^item> \<open>Ev_Prelude\<close>: outcomes of C code (values, or a crash: failed assertion, null dereference, access
    outside a block, undefined shift, endless loop), total correctness \<open>runs\<close>, 32-bit sizes, memory
    blocks.
  \<^item> \<open>Evbuffer_Chain\<close>: \<open>struct evbuffer_chain\<close>, allocation with the doubling loop, release, pinning,
    realignment. The loop may not end, so it is a \<open>partial_function\<close>; it is proved to end for every
    size up to \<open>CHAIN_MAX\<close>, and not to end or to give too little beyond.
  \<^item> \<open>Evbuffer_Base\<close>: \<open>struct evbuffer\<close>, flags, freezing, reference count, callbacks, insertion of
    chains, and the invariant \<open>evbuffer_ok\<close>. The linked list is the list \<open>eb_chains\<close>; the pointer
    \<open>last_with_datap\<close> is a position in it. \<open>no_spare\<close> says that no empty chain follows the last one
    with data; \<open>contents\<close> is the abstraction of a buffer to a byte list.
  \<^item> \<open>Evbuffer_Add\<close>, \<open>Evbuffer_Drain\<close>, \<open>Evbuffer_Pullup\<close>, \<open>Evbuffer_Move\<close>, \<open>Evbuffer_Space\<close>: the operations
    of the same names in \<open>buffer.c\<close>. Each lemma \<open>..._runs\<close> says that under the invariant the operation
    does not crash, keeps the invariant and changes \<open>contents\<close> the way its specification on byte lists
    says; the \<open>..._notifies\<close> theorems say what the callbacks are told.
  \<^item> \<open>Evbuffer_Stream\<close>: the interfaces the users of a buffer rely on, as locales \<open>byte_source\<close>,
    \<open>byte_sink\<close> and \<open>byte_channel\<close>, interpreted by the model of \<open>buffer.c\<close>.
  \<^item> \<open>Evbuffer_Printf\<close>: \<open>evbuffer_add_printf\<close>, which prints into the free space of a chain and once more if the text did not fit;
    \<open>settled\<close> says why the space it gets is always at the end. The formatted text is a parameter.
  \<^item> \<open>Evbuffer_Socket\<close>: \<open>evbuffer_read\<close>, \<open>evbuffer_readfile\<close>, \<open>evbuffer_write_atmost\<close>; the socket calls
    are parameters that are only assumed not to transfer more than they were given room for. \<open>own_memory\<close> says that
    chains with free space have blocks of their own, by whose addresses \<open>evbuffer_commit_space\<close> finds them.
  \<^item> \<open>Evbuffer_Search\<close>: \<open>struct evbuffer_ptr\<close>, \<open>evbuffer_ptr_set\<close>, \<open>evbuffer_search_range\<close>, the search for
    ends of lines, \<open>evbuffer_readln\<close> and \<open>evbuffer_peek\<close>, against first occurrences and line ends in
    byte lists (\<open>first_match\<close>, \<open>eol_spec\<close>). Pointers into the list are positions in \<open>eb_chains\<close>. The
    loop for \<open>EVBUFFER_EOL_CRLF\<close> is a \<open>partial_function\<close>, and proved to end.
  \<^item> \<open>Evtag\<close>, \<open>Evtag_Codec\<close>: \<open>event_tagging.c\<close>, with the locale \<open>value_codec\<close> for encodings that can be
    read back, interpreted by the tag, 32-bit and 64-bit encodings, and the round trips of whole items.

  The event base.
  \<^item> \<open>Ev_Time\<close>: \<open>struct timeval\<close> with 32-bit fields, its macros, and its linear order. Sums of seconds wrap around.
  \<^item> \<open>Event_Struct\<close>, \<open>Min_Heap\<close>: \<open>struct event\<close>, and \<open>minheap-internal.h\<close>, the heap of timeouts in which every
    event knows its place; it refines a priority queue (locale \<open>priority_queue\<close>). Events are numbers, \<open>evmem\<close>
    is the memory they are in. The heap has fewer than \<open>2 ^ 29\<close> events, since there are fewer than
    \<open>MAX_EVENTS\<close>; then no size overflows.
  \<^item> \<open>Evmap\<close>: \<open>evmap.c\<close>, which sockets and signals have which events; the hash table of the Windows build is a
    map, the backend and allocation are parameters.
  \<^item> \<open>Event_Base\<close>, \<open>Event_Ops\<close>: \<open>struct event_base\<close>, the queues \<open>event_queue_insert\<close> and \<open>event_queue_remove\<close>,
    and assigning, adding, deleting and activating events. \<open>Event_Loop\<close>: timeouts, the queues of active events,
    deferred callbacks, \<open>event_base_loop\<close>, \<open>event_base_once\<close>. Loops that may not end are \<open>loops\<close> over a
    \<open>partial_function\<close>: a loop that does not end is \<open>Diverges\<close>.
  \<^item> \<open>Event_Invariant\<close>, \<open>Event_Add\<close>: the invariant \<open>base_ok\<close> and that every operation keeps it, with what it
    changes (\<open>deleted\<close>, \<open>activated\<close>, \<open>added\<close>). \<open>Event_API\<close>: the invariant \<open>user_ok\<close> of a base between calls of
    the interface, the steps \<open>api_step\<close> of its users, and that all of them keep it.
  \<^item> \<open>Event_Timeout\<close>: which events expire, on the heap and on the lists of common timeouts, and what happens when
    the clock goes back. \<open>Event_Run\<close>: closures, queues and the loop, with callbacks and a backend that do any
    sequence of \<open>api_step\<close>s. \<open>Event_Spec\<close>: the properties, and an environment on which they are tried.

  The backend.
  \<^item> \<open>Event_Backend\<close>: what the base tells its backend; \<open>watched\<close> is the set of sockets events wait for. The locales
    \<open>backend_contract\<close> and \<open>loop_contract\<close> are the contract of a backend, of callbacks and of waiting; under it the state
    of the backend agrees with \<open>watched\<close> after every call and every run of the loop.
  \<^item> \<open>Win32_Select\<close>: \<open>win32select.c\<close>, the sets of sockets for \<open>select\<close>, in which every socket knows its position, and
    dispatching; \<open>Win32_Watch\<close>: the invariant \<open>win32_ok\<close> and what dispatching activates; \<open>Win32_Spec\<close>: the contract for this
    backend and the properties. Allocation, \<open>rand\<close> and \<open>select\<close> are parameters.

  Utilities and DNS.
  \<^item> \<open>Evutil_String\<close>: the character tables of \<open>evutil.c\<close>, comparison without regard to case, \<open>strlcpy.c\<close>.
  \<^item> \<open>Evutil_Addr\<close>: \<open>evutil_inet_ntop\<close> and \<open>evutil_inet_pton\<close> with the numbers the C library reads and prints;
    \<open>Evutil_Sockaddr\<close>: addresses with ports, parsed, printed and compared. What is printed is read as it was.
  \<^item> \<open>Evdns_Names\<close>: \<open>name_parse\<close> and \<open>dnsname_to_labels\<close> of \<open>evdns.c\<close> with the table for compression; \<open>name_at\<close> says
    which labels the bytes of a packet stand for, each pointer going further back than the one before.
  \<^item> \<open>Evdns_Server\<close>: the server side, from \<open>request_parse\<close> to \<open>evdns_server_request_respond\<close>, and
    \<open>evdns_request_data_build\<close>. Requests are numbers, freed memory is \<open>None\<close>; the datagrams that arrive, the results of
    \<open>sendto\<close> and the user's callback are parameters, the event of a port is what it listens for.
    \<open>Evdns_Wire\<close>: what formatting a response writes and how far (\<open>fits\<close>), names that cannot be encoded, and how a
    query is read. \<open>Evdns_Serving\<close>: the invariant \<open>server_ok\<close> of
    the reference count and the pending replies, and the locale \<open>request_handler\<close>, the contract of the user's
    callback. \<open>Evdns_Spec\<close>: the calls of the interface (\<open>server_call\<close>), callbacks that make such calls
    (\<open>uses_interface\<close>), and the properties.

  Reading the model. A result \<open>Inl c\<close> is a crash, \<open>Inr (r, b')\<close> the C return value and the new buffer.
  \<open>mm_malloc\<close> is a parameter: it may fail at any size (\<open>out_of_memory\<close>), and blocks have the size asked
  for (\<open>malloc_ok\<close>). Callbacks, cleanup functions and releases are recorded in \<open>eb_trace\<close>; they do not
  run inside the model, and locks are not modelled, so each operation is one step under the lock. In the event base callbacks do run: they are functions from
  bases to bases. \<open>runs m P\<close> is total correctness; \<open>safe m P\<close> allows that \<open>m\<close> does not end, or that seconds
  overflow when the clock goes back. Several threads are not modelled: other threads can only do what the
  callbacks and the backend do.

  Not modelled: the DNS client, HTTP, RPC, bufferevents, listeners and signals, sockets,
  \<open>getaddrinfo\<close>, the random generator and logging: each of them needs a model of its own of connections or of the operating system. The sample
  servers only call the library; the other backends are for other platforms.
\<close>

end
